(* ===== verification/Stir_Prelude.thy ===== *)
theory Stir_Prelude
  imports Main
begin

text \<open>
  The prelude of the development: how a C call of stirmake can end other than by returning, the
  C string searches that several components share, slash-joined component lists, and the generic
  lemmas on lists that the component proofs rely on.  The collections \<open>stir_simps\<close> and
  \<open>stir_intros\<close> gather the facts the component theories hand to the simplifier and to the
  classical reasoner.
\<close>

named_theorems stir_simps \<open>rewrite rules shared by the component theories\<close>
named_theorems stir_intros \<open>introduction rules shared by the component theories\<close>

section \<open>Failures\<close>

text \<open>
  \<open>Aborted\<close> is \<open>my_abort()\<close> or \<open>abort()\<close>, \<open>Exited\<close> is \<open>errxit\<close> or
  \<open>exit(2)\<close> with the reason, \<open>Overread\<close> is an access outside the buffer the code owns
  (undefined behaviour in C) and \<open>NoFuel\<close> marks a fuel-bounded loop that was cut off.
\<close>

datatype cfail = Aborted | Exited string | Overread | NoFuel

type_synonym 'a res = "cfail + 'a"

definition bind_res :: "'a res \<Rightarrow> ('a \<Rightarrow> 'b res) \<Rightarrow> 'b res" where
  "bind_res r f = (case r of Inl e \<Rightarrow> Inl e | Inr x \<Rightarrow> f x)"

lemma bind_res_simps [simp]:
  "bind_res (Inl e) f = Inl e"
  "bind_res (Inr x) f = f x"
  by (simp_all add: bind_res_def)

lemma bind_res_Inr [stir_simps]:
  "bind_res r f = Inr y \<longleftrightarrow> (\<exists>x. r = Inr x \<and> f x = Inr y)"
  by (cases r) auto

lemma bind_res_Inl [stir_simps]:
  "bind_res r f = Inl e \<longleftrightarrow> r = Inl e \<or> (\<exists>x. r = Inr x \<and> f x = Inl e)"
  by (cases r) auto

text \<open>
  \<open>outcome F P r\<close>: the call \<open>r\<close> returns a value with \<open>P\<close> or fails with a failure in \<open>F\<close>.
\<close>

definition outcome :: "cfail set \<Rightarrow> ('a \<Rightarrow> bool) \<Rightarrow> 'a res \<Rightarrow> bool" where
  "outcome F P r = (case r of Inl f \<Rightarrow> f \<in> F | Inr x \<Rightarrow> P x)"

lemma outcome_simps [simp]:
  "outcome F P (Inl f) = (f \<in> F)"
  "outcome F P (Inr x) = P x"
  by (simp_all add: outcome_def)

lemma outcome_bind:
  "outcome F P r \<Longrightarrow> (\<And>x. P x \<Longrightarrow> outcome F Q (f x)) \<Longrightarrow> outcome F Q (bind_res r f)"
  by (cases r) auto

lemma outcome_mono: "outcome F P r \<Longrightarrow> (\<And>x. P x \<Longrightarrow> Q x) \<Longrightarrow> outcome F Q r"
  by (cases r) auto

lemma outcome_Inr: "outcome F P r \<Longrightarrow> r = Inr x \<Longrightarrow> P x"
  by simp

section \<open>C string searches\<close>

text \<open>
  A C string is the list of its characters before the terminating NUL.  \<open>strchr\<close> and
  \<open>strrchr\<close> return the index of the first and of the last occurrence.
\<close>

fun strchr :: "string \<Rightarrow> char \<Rightarrow> nat option" where
  "strchr [] c = None"
| "strchr (x # xs) c = (if x = c then Some 0 else map_option Suc (strchr xs c))"

fun strrchr :: "string \<Rightarrow> char \<Rightarrow> nat option" where
  "strrchr [] c = None"
| "strrchr (x # xs) c =
     (case strrchr xs c of
        Some i \<Rightarrow> Some (Suc i)
      | None \<Rightarrow> (if x = c then Some 0 else None))"

lemma strchr_None [simp]: "strchr s c = None \<longleftrightarrow> c \<notin> set s"
  by (induction s) auto

lemma strrchr_None [simp]: "strrchr s c = None \<longleftrightarrow> c \<notin> set s"
  by (induction s) (auto split: option.splits)

lemma strchr_absent [simp]: "c \<notin> set s \<Longrightarrow> strchr s c = None"
  by simp

lemma strrchr_absent [simp]: "c \<notin> set s \<Longrightarrow> strrchr s c = None"
  by simp

lemma strrchr_append: "c \<notin> set b \<Longrightarrow> strrchr (a @ c # b) c = Some (length a)"
  by (induction a) (auto split: option.splits)

lemma strchr_append: "c \<notin> set a \<Longrightarrow> strchr (a @ c # b) c = Some (length a)"
  by (induction a) auto

lemma strchr_takeWhile: "strchr s c = Some i \<Longrightarrow> take i s = takeWhile (\<lambda>x. x \<noteq> c) s"
  by (induction s arbitrary: i) (auto split: if_splits)

lemma strchr_length: "strchr s c = Some i \<Longrightarrow> i = length (takeWhile (\<lambda>x. x \<noteq> c) s)"
  by (induction s arbitrary: i) (auto split: if_splits)

lemma strrchr_bound: "strrchr s c = Some i \<Longrightarrow> i < length s \<and> s ! i = c"
  by (induction s arbitrary: i) (auto split: option.splits if_splits)

lemma strrchr_last:
  "strrchr s c = Some i \<Longrightarrow> s = take i s @ c # drop (Suc i) s \<and> c \<notin> set (drop (Suc i) s)"
proof (induction s arbitrary: i)
  case Nil
  then show ?case by simp
next
  case (Cons x xs)
  then show ?case by (cases "strrchr xs c") (auto split: if_splits)
qed

lemma butlast_replicate: "butlast (replicate k x) = replicate (k - 1) x"
  by (cases k) (simp_all flip: replicate_append_same)

section \<open>Slash-joined component lists\<close>

fun join_slash :: "string list \<Rightarrow> string" where
  "join_slash [] = []"
| "join_slash [x] = x"
| "join_slash (x # y # zs) = x @ CHR ''/'' # join_slash (y # zs)"

text \<open>A component is a non-empty string without a slash.\<close>

definition is_comp :: "string \<Rightarrow> bool" where
  "is_comp s \<longleftrightarrow> s \<noteq> [] \<and> CHR ''/'' \<notin> set s"

lemma join_slash_snoc:
  "join_slash (xs @ [x]) = (if xs = [] then x else join_slash xs @ CHR ''/'' # x)"
  by (induction xs rule: join_slash.induct) auto

lemma join_slash_Cons:
  "join_slash (x # xs) = (if xs = [] then x else x @ CHR ''/'' # join_slash xs)"
  by (cases xs) auto

lemma join_slash_eq_Nil [simp]: "\<forall>x \<in> set xs. x \<noteq> [] \<Longrightarrow> join_slash xs = [] \<longleftrightarrow> xs = []"
  by (induction xs rule: join_slash.induct) auto

lemma strrchr_join_snoc:
  assumes "CHR ''/'' \<notin> set x" "xs \<noteq> []"
  shows "strrchr (join_slash (xs @ [x])) CHR ''/'' = Some (length (join_slash xs))"
  using assms by (simp add: join_slash_snoc strrchr_append)

lemma strrchr_join_single: "CHR ''/'' \<notin> set x \<Longrightarrow> strrchr (join_slash [x]) CHR ''/'' = None"
  by simp

text \<open>The components of a path: the pieces between slashes, empty ones included.\<close>

function split_slash :: "string \<Rightarrow> string list" where
  "split_slash s =
     (let h = takeWhile (\<lambda>x. x \<noteq> CHR ''/'') s; r = dropWhile (\<lambda>x. x \<noteq> CHR ''/'') s
      in if r = [] then [h] else h # split_slash (tl r))"
  by pat_completeness auto
termination
proof (relation "measure length")
  fix s h r :: string
  assume "h = takeWhile (\<lambda>x. x \<noteq> CHR ''/'') s"
    and r: "r = dropWhile (\<lambda>x. x \<noteq> CHR ''/'') s" "\<not> r = []"
  then have "length r \<le> length s" "r \<noteq> []"
    using length_dropWhile_le[of "\<lambda>x. x \<noteq> CHR ''/''" s] by auto
  then show "(tl r, s) \<in> measure length" by (cases r) auto
qed simp

declare split_slash.simps [simp del]

lemma split_slash_nosep: "CHR ''/'' \<notin> set s \<Longrightarrow> split_slash s = [s]"
  by (subst split_slash.simps) (auto simp: Let_def dropWhile_eq_Nil_conv takeWhile_eq_all_conv)

lemma split_slash_sep:
  "CHR ''/'' \<notin> set a \<Longrightarrow> split_slash (a @ CHR ''/'' # b) = a # split_slash b"
  by (subst split_slash.simps)
     (auto simp: Let_def takeWhile_append2 dropWhile_append2 takeWhile_eq_all_conv
        takeWhile_append dropWhile_append)

lemma split_join:
  assumes "xs \<noteq> []" "\<forall>x \<in> set xs. CHR ''/'' \<notin> set x"
  shows "split_slash (join_slash xs) = xs"
  using assms
  by (induction xs rule: join_slash.induct) (auto simp: split_slash_nosep split_slash_sep)

text \<open>A run whose steps either leave a well-founded quantity alone or lower it stops lowering it.\<close>

lemma wf_settles:
  assumes "wf R" and step: "\<And>i. P i \<or> (g (Suc i), g i) \<in> R" and same: "\<And>i. P i \<Longrightarrow> g (Suc i) = g i"
  shows "\<exists>n. \<forall>i \<ge> n. P i"
proof -
  obtain z where z: "z \<in> range g" "\<And>y. (y, z) \<in> R \<Longrightarrow> y \<notin> range g"
    using wfE_min[OF assms(1), of "g 0" "range g"] by blast
  then obtain n where n: "g n = z" by blast
  have P: "P i" if "g i = z" for i using step[of i] z(2) that by blast
  have "g i = z" if "i \<ge> n" for i
    using that by (induction rule: dec_induct) (simp_all add: n same P)
  then show ?thesis using P by blast
qed

end
