(* ===== verification/Paths.thy ===== *)
theory Paths
  imports Stir_Prelude
begin

text \<open>
  The path routines of \<open>canon.c\<close> and \<open>stirutils.c\<close>: \<open>canon\<close> and its buffer
  variants, \<open>construct_backpath\<close>, \<open>neighpath\<close>, \<open>dir_up\<close>, \<open>calc_forward_path\<close>.
  The output buffer \<open>neu\<close> is the string written so far (its length is the code's \<open>idx\<close>); every
  write is checked against the capacity the code allocated, so that staying inside the buffer is
  part of every functional statement.  A stack of components is the abstract view of \<open>neu\<close>.
\<close>

section \<open>Copying and concatenating\<close>

text \<open>The capacity of the buffer: the caller's if it is large enough, else a fresh \<open>malloc\<close>.\<close>

definition buf_capacity :: "nat option \<Rightarrow> nat \<Rightarrow> nat" where
  "buf_capacity buf need =
     (case buf of None \<Rightarrow> need | Some bufsz \<Rightarrow> (if bufsz < need then need else bufsz))"

definition put_buf :: "nat \<Rightarrow> string \<Rightarrow> string res" where
  "put_buf cap neu = (if length neu < cap then Inr neu else Inl Overread)"

definition pathcat1_buflen :: "string \<Rightarrow> nat option \<Rightarrow> string res" where
  "pathcat1_buflen old buf = put_buf (buf_capacity buf (length old + 1)) old"

definition pathcat1_buf :: "string \<Rightarrow> nat option \<Rightarrow> string res" where
  "pathcat1_buf old buf = put_buf (buf_capacity buf (length old + 1)) old"

definition pathcat2_buflen :: "string \<Rightarrow> string \<Rightarrow> nat option \<Rightarrow> string res" where
  "pathcat2_buflen old old2 buf =
     put_buf (buf_capacity buf (length old + length old2 + 2)) (old @ CHR ''/'' # old2)"

definition pathcat2_buf :: "string \<Rightarrow> string \<Rightarrow> nat option \<Rightarrow> string res" where
  "pathcat2_buf old old2 buf =
     put_buf (buf_capacity buf (length old + length old2 + 2)) (old @ CHR ''/'' # old2)"

lemma buf_capacity_ge: "need \<le> buf_capacity buf need"
  by (auto simp: buf_capacity_def split: option.splits)

lemma put_buf_enough [stir_simps]: "length neu < cap \<Longrightarrow> put_buf cap neu = Inr neu"
  by (simp add: put_buf_def)

lemma pathcat_total [simp]:
  "pathcat1_buflen a buf = Inr a"
  "pathcat1_buf a buf = Inr a"
  "pathcat2_buflen a b buf = Inr (a @ CHR ''/'' # b)"
  "pathcat2_buf a b buf = Inr (a @ CHR ''/'' # b)"
  using buf_capacity_ge[of "length a + 1" buf] buf_capacity_ge[of "length a + length b + 2" buf]
  by (auto simp: pathcat1_buflen_def pathcat1_buf_def pathcat2_buflen_def pathcat2_buf_def
      put_buf_def)

section \<open>canon\<close>

text \<open>\<open>strchr(old, '/')\<close>, or the end of the string: the segment before it and what follows.\<close>

definition slash_seg :: "string \<Rightarrow> string" where
  "slash_seg old = takeWhile (\<lambda>c. c \<noteq> CHR ''/'') old"

definition after_seg :: "string \<Rightarrow> string" where
  "after_seg old = tl (dropWhile (\<lambda>c. c \<noteq> CHR ''/'') old)"

lemma after_seg_length [termination_simp]: "old \<noteq> [] \<Longrightarrow> length (after_seg old) < length old"
  using length_dropWhile_le[of "\<lambda>c. c \<noteq> CHR ''/''" old] by (cases old) (auto simp: after_seg_def)

text \<open>
  What a \<open>..\<close> segment does to the output: the branches of the code, in its order.  \<open>neu2\<close> is the
  last slash of the output, and \<open>idx - neu2\<close> is the code's pointer difference.
\<close>

definition ends_dotdot :: "string \<Rightarrow> bool" where
  "ends_dotdot neu \<longleftrightarrow> neu ! (length neu - 1) = CHR ''.'' \<and> neu ! (length neu - 2) = CHR ''.''"

definition canon_dotdot :: "bool \<Rightarrow> nat \<Rightarrow> string \<Rightarrow> string res" where
  "canon_dotdot is_abspath cap neu =
     (let idx = length neu in
      case strrchr neu CHR ''/'' of
        None \<Rightarrow>
          if idx \<noteq> 0 \<and> (idx \<noteq> 2 \<or> \<not> ends_dotdot neu) then Inr []
          else if idx = 0 then (if is_abspath then Inr neu else put_buf cap ''..'')
          else put_buf cap (neu @ ''/..'')
      | Some neu2 \<Rightarrow>
          if idx - neu2 = 2 \<and> ends_dotdot neu then put_buf cap (neu @ ''/..'')
          else Inr (take neu2 neu))"

function canon_loop :: "bool \<Rightarrow> nat \<Rightarrow> string \<Rightarrow> string \<Rightarrow> string res" where
  "canon_loop is_abspath cap neu old =
     (if old = [] then Inr neu
      else let seg = slash_seg old; rest = after_seg old in
        if seg = [] then canon_loop is_abspath cap neu rest
        else if seg = ''.'' then canon_loop is_abspath cap neu rest
        else if seg = ''..'' then
          (case canon_dotdot is_abspath cap neu of
             Inl e \<Rightarrow> Inl e
           | Inr neu' \<Rightarrow> canon_loop is_abspath cap neu' rest)
        else
          (case put_buf cap ((if neu \<noteq> [] then neu @ ''/'' else neu) @ seg) of
             Inl e \<Rightarrow> Inl e
           | Inr neu' \<Rightarrow> canon_loop is_abspath cap neu' rest))"
  by pat_completeness auto
termination
  by (relation "measure (\<lambda>(_, _, _, old). length old)") (auto simp: after_seg_length)

declare canon_loop.simps [simp del]

text \<open>The result with the length the code stores through \<open>neulen\<close>.\<close>

definition canon_buflen :: "string \<Rightarrow> nat option \<Rightarrow> (string \<times> nat) res" where
  "canon_buflen old buf =
     (let cap = buf_capacity buf (length old + 1) in
      if old = [] then Inl Aborted
      else if old = ''.'' then Inr (''.'', 1)
      else if hd old = CHR ''/'' then
        bind_res (canon_loop True (cap - 1) [] old) (\<lambda>neu. Inr (CHR ''/'' # neu, length neu + 1))
      else
        bind_res (canon_loop False cap [] old)
          (\<lambda>neu. if neu = [] then Inr (''.'', 1) else Inr (neu, length neu)))"

definition canon :: "string \<Rightarrow> string res" where
  "canon old = bind_res (canon_buflen old None) (\<lambda>(neu, _). Inr neu)"

section \<open>The abstract view: a stack of components\<close>

text \<open>
  What the code does to the stack of components it has written.  \<open>push_comp\<close> is exact for the
  code: a \<open>..\<close> on a stack of two or more components always removes the last one, since the test
  that should recognise a trailing \<open>/..\<close> compares a distance of three with two.
  \<open>push_ref\<close> is the intended rule, which keeps a \<open>..\<close> that follows a \<open>..\<close>.
\<close>

definition push_comp :: "bool \<Rightarrow> string list \<Rightarrow> string \<Rightarrow> string list" where
  "push_comp is_abspath st c =
     (if c = [] \<or> c = ''.'' then st
      else if c = ''..'' then
        (if st = [] then (if is_abspath then [] else [''..''])
         else if st = [''..''] then [''..'', ''..'']
         else butlast st)
      else st @ [c])"

definition push_ref :: "bool \<Rightarrow> string list \<Rightarrow> string \<Rightarrow> string list" where
  "push_ref is_abspath st c =
     (if c = [] \<or> c = ''.'' then st
      else if c = ''..'' then
        (if st = [] then (if is_abspath then [] else [''..''])
         else if last st = ''..'' then st @ [''..'']
         else butlast st)
      else st @ [c])"

definition is_abs :: "string \<Rightarrow> bool" where
  "is_abs s \<longleftrightarrow> s \<noteq> [] \<and> hd s = CHR ''/''"

definition comps :: "string \<Rightarrow> string list" where
  "comps s = foldl (push_comp (is_abs s)) [] (split_slash s)"

definition comps_ref :: "string \<Rightarrow> string list" where
  "comps_ref s = foldl (push_ref (is_abs s)) [] (split_slash s)"

definition render :: "bool \<Rightarrow> string list \<Rightarrow> string" where
  "render is_abspath st =
     (if is_abspath then CHR ''/'' # join_slash st
      else if st = [] then ''.'' else join_slash st)"

text \<open>
  The shape of a stack: at most two leading \<open>..\<close>, none in an absolute path, then proper names.
\<close>

definition is_name :: "string \<Rightarrow> bool" where
  "is_name s \<longleftrightarrow> is_comp s \<and> s \<noteq> ''.'' \<and> s \<noteq> ''..''"

definition stack_ok :: "bool \<Rightarrow> string list \<Rightarrow> bool" where
  "stack_ok is_abspath st \<longleftrightarrow>
     (\<exists>k ns. st = replicate k ''..'' @ ns \<and> k \<le> 2 \<and> (is_abspath \<longrightarrow> k = 0) \<and>
        (\<forall>n \<in> set ns. is_name n))"

lemma split_slash_unfold:
  "split_slash old = (if after_seg old = [] \<and> CHR ''/'' \<notin> set old then [slash_seg old]
     else slash_seg old # split_slash (after_seg old))"
proof (cases "CHR ''/'' \<in> set old")
  case True
  then obtain a b where old: "old = a @ CHR ''/'' # b" "CHR ''/'' \<notin> set a"
    by (meson split_list_first)
  then have "slash_seg old = a" "after_seg old = b"
    by (auto simp: slash_seg_def after_seg_def takeWhile_append dropWhile_append
        takeWhile_eq_all_conv)
  with old show ?thesis by (simp add: split_slash_sep)
next
  case False
  then have dw: "dropWhile (\<lambda>c. c \<noteq> CHR ''/'') old = []" and "slash_seg old = old"
    by (auto simp: dropWhile_eq_Nil_conv slash_seg_def takeWhile_eq_all_conv)
  then have "after_seg old = []" by (simp only: after_seg_def dw list.sel)
  with False show ?thesis
    using \<open>slash_seg old = old\<close> by (simp add: split_slash_nosep)
qed

lemma slash_seg_noslash [simp]: "CHR ''/'' \<notin> set (slash_seg s)"
  unfolding slash_seg_def by (auto dest: set_takeWhileD)

lemma foldl_split_step:
  assumes "\<And>st. f st [] = st"
  shows "foldl f st (split_slash old) = foldl f (f st (slash_seg old)) (split_slash (after_seg old))"
proof (cases "after_seg old = [] \<and> CHR ''/'' \<notin> set old")
  case True
  then have "split_slash (after_seg old) = [[]]" by (simp add: split_slash_nosep)
  then show ?thesis using True assms by (subst split_slash_unfold) auto
next
  case False
  then show ?thesis by (subst split_slash_unfold) auto
qed

lemma push_skip [simp]: "push_comp a st [] = st" "push_ref a st [] = st"
  "push_comp a st ''.'' = st" "push_ref a st ''.'' = st"
  by (auto simp: push_comp_def push_ref_def)

lemma is_name_comp: "is_name n \<Longrightarrow> is_comp n"
  by (simp add: is_name_def)

lemma stack_ok_comps: "stack_ok a st \<Longrightarrow> x \<in> set st \<Longrightarrow> is_comp x"
proof -
  assume "stack_ok a st" "x \<in> set st"
  then obtain k ns where st: "st = replicate k ''..'' @ ns" and ns: "\<forall>n \<in> set ns. is_name n"
    unfolding stack_ok_def by blast
  have "x = ''..'' \<or> is_name x"
    using \<open>x \<in> set st\<close> ns unfolding st set_append set_replicate_conv_if by (auto split: if_splits)
  then show "is_comp x" by (auto simp: is_name_def is_comp_def)
qed

lemma stack_ok_Nil [simp]: "stack_ok a []"
  by (auto simp: stack_ok_def intro: exI[of _ 0])

lemma stack_ok_butlast:
  assumes "stack_ok a st"
  shows "stack_ok a (butlast st)"
proof -
  from assms obtain k ns where st: "st = replicate k ''..'' @ ns" "k \<le> 2" "a \<longrightarrow> k = 0"
    "\<forall>n \<in> set ns. is_name n" by (auto simp: stack_ok_def)
  show ?thesis
  proof (cases "ns = []")
    case True
    then have "butlast st = replicate (k - 1) ''..'' @ []"
      using st True by (simp add: butlast_replicate)
    moreover have "k - 1 \<le> 2" "a \<longrightarrow> k - 1 = 0" using st by auto
    ultimately show ?thesis unfolding stack_ok_def by (intro exI[of _ "k - 1"] exI[of _ "[]"]) simp
  next
    case False
    then have "butlast st = replicate k ''..'' @ butlast ns"
      using st by (simp add: butlast_append)
    then show ?thesis using st unfolding stack_ok_def
      by (intro exI[of _ k] exI[of _ "butlast ns"]) (auto dest: in_set_butlastD)
  qed
qed

lemma stack_ok_push:
  assumes "stack_ok a st" "CHR ''/'' \<notin> set c"
  shows "stack_ok a (push_comp a st c)"
proof -
  have "stack_ok a [''..'']" if "\<not> a"
    using that unfolding stack_ok_def by (auto intro!: exI[of _ 1])
  moreover have "stack_ok a [''..'', ''..'']" if "st = [''..'']"
  proof -
    from that assms(1) have "\<not> a"
      by (auto simp: stack_ok_def is_name_def)
    then show ?thesis unfolding stack_ok_def
      by (auto intro!: exI[of _ 2] simp: numeral_2_eq_2)
  qed
  moreover have "stack_ok a (st @ [c])" if "is_name c"
  proof -
    from assms(1) obtain k ns where "st = replicate k ''..'' @ ns" "k \<le> 2" "a \<longrightarrow> k = 0"
      "\<forall>n \<in> set ns. is_name n" by (auto simp: stack_ok_def)
    then have "st @ [c] = replicate k ''..'' @ (ns @ [c])" "\<forall>n \<in> set (ns @ [c]). is_name n"
      using that by auto
    then show ?thesis unfolding stack_ok_def using \<open>k \<le> 2\<close> \<open>a \<longrightarrow> k = 0\<close> by blast
  qed
  ultimately show ?thesis
    using assms stack_ok_butlast[OF assms(1)]
    by (auto simp: push_comp_def is_name_def is_comp_def)
qed

lemma stack_ok_foldl:
  "stack_ok a st \<Longrightarrow> \<forall>c \<in> set cs. CHR ''/'' \<notin> set c \<Longrightarrow> stack_ok a (foldl (push_comp a) st cs)"
  by (induction cs arbitrary: st) (auto simp: stack_ok_push)

lemma split_slash_noslash: "\<forall>c \<in> set (split_slash s). CHR ''/'' \<notin> set c"
proof (induction "length s" arbitrary: s rule: less_induct)
  case less
  show ?case
  proof (cases "s = []")
    case True
    then show ?thesis by (simp add: split_slash_nosep)
  next
    case False
    then show ?thesis
      using less[of "after_seg s"] after_seg_length[OF False] by (subst split_slash_unfold) auto
  qed
qed

lemma ends_dotdot_slash:
  assumes "strrchr neu CHR ''/'' = Some p" "length neu - p = 2"
  shows "\<not> ends_dotdot neu"
proof -
  have "neu ! p = CHR ''/''" "length neu - 2 = p"
    using strrchr_bound[OF assms(1)] assms(2) by auto
  then show ?thesis by (simp add: ends_dotdot_def)
qed

lemma ends_dotdot_two: "length x = 2 \<Longrightarrow> ends_dotdot x \<longleftrightarrow> x = ''..''"
  by (cases x; cases "tl x") (auto simp: ends_dotdot_def)

text \<open>The \<open>..\<close> branch acts on the rendered stack as \<open>push_comp\<close> does on the stack.\<close>

lemma canon_dotdot_spec:
  assumes "stack_ok a st" "length (join_slash (push_comp a st ''..'')) < cap"
  shows "canon_dotdot a cap (join_slash st) = Inr (join_slash (push_comp a st ''..''))"
proof (cases st rule: rev_cases)
  case Nil
  then show ?thesis using assms(2)
    by (auto simp: canon_dotdot_def push_comp_def put_buf_def split: if_splits)
next
  case (snoc xs x)
  then have x: "is_comp x" using stack_ok_comps[OF assms(1)] by simp
  show ?thesis
  proof (cases "xs = []")
    case True
    have sx: "CHR ''/'' \<notin> set x" using x by (simp add: is_comp_def)
    then have "strrchr x CHR ''/'' = None" by simp
    moreover have "length x \<noteq> 2 \<or> \<not> ends_dotdot x \<longleftrightarrow> x \<noteq> ''..''"
      using ends_dotdot_two[of x] by auto
    ultimately show ?thesis using True snoc x sx assms(2)
      by (auto simp: canon_dotdot_def push_comp_def is_comp_def put_buf_def Let_def
          simp del: strrchr_None)
  next
    case False
    with snoc x have "strrchr (join_slash st) CHR ''/'' = Some (length (join_slash xs))"
      by (simp add: strrchr_join_snoc is_comp_def)
    moreover have "take (length (join_slash xs)) (join_slash st) = join_slash xs"
      using snoc False by (simp add: join_slash_snoc)
    ultimately show ?thesis
      using snoc False ends_dotdot_slash
      by (auto simp: canon_dotdot_def push_comp_def Let_def)
  qed
qed

definition slack :: "string \<Rightarrow> nat" where
  "slack neu = (if neu = [] then 0 else 1)"

lemma seg_length: "length (slash_seg old) + length (after_seg old) \<le> length old"
  "CHR ''/'' \<in> set old \<Longrightarrow> length (slash_seg old) + length (after_seg old) + 1 \<le> length old"
proof -
  have *: "slash_seg old @ dropWhile (\<lambda>c. c \<noteq> CHR ''/'') old = old"
    by (simp add: slash_seg_def)
  have **: "length (slash_seg old) + length (dropWhile (\<lambda>c. c \<noteq> CHR ''/'') old) = length old"
    using arg_cong[OF *, of length] by simp
  then show "length (slash_seg old) + length (after_seg old) \<le> length old"
    by (simp add: after_seg_def)
  assume "CHR ''/'' \<in> set old"
  then have "dropWhile (\<lambda>c. c \<noteq> CHR ''/'') old \<noteq> []" by (auto simp: dropWhile_eq_Nil_conv)
  then show "length (slash_seg old) + length (after_seg old) + 1 \<le> length old"
    using ** by (cases "dropWhile (\<lambda>c. c \<noteq> CHR ''/'') old") (auto simp: after_seg_def)
qed

lemma after_seg_noslash: "CHR ''/'' \<notin> set old \<Longrightarrow> after_seg old = []"
proof -
  assume "CHR ''/'' \<notin> set old"
  then have "dropWhile (\<lambda>c. c \<noteq> CHR ''/'') old = []" by auto
  then show ?thesis by (simp only: after_seg_def list.sel)
qed

lemma join_slash_snoc_length:
  assumes "\<forall>x \<in> set st. x \<noteq> []"
  shows "length (join_slash (st @ [c])) = length (join_slash st) + slack (join_slash st) + length c"
  using assms by (simp add: join_slash_snoc slack_def)

lemma join_slash_butlast_length: "length (join_slash (butlast st)) \<le> length (join_slash st)"
  by (cases st rule: rev_cases) (simp_all add: join_slash_snoc)

lemma push_comp_cases:
  obtains "c = [] \<or> c = ''.''" "push_comp a st c = st"
  | "c = ''..''" "push_comp a st c \<in> {[], [''..''], butlast st}" "st \<noteq> [''..'']"
  | "c = ''..''" "st = [''..'']" "push_comp a st c = [''..'', ''..'']"
  | "c \<noteq> []" "c \<noteq> ''.''" "c \<noteq> ''..''" "push_comp a st c = st @ [c]"
  by (cases "c = []"; cases "c = ''.''"; cases "c = ''..''"; cases "st = [''..'']")
     (simp_all add: push_comp_def split: if_splits)

lemma push_length:
  assumes "\<forall>x \<in> set st. x \<noteq> []"
  shows "length (join_slash (push_comp a st c)) \<le> length (join_slash st) + slack (join_slash st) + length c"
proof (rule push_comp_cases[of c a st])
  assume "c = ''..''" "push_comp a st c \<in> {[], [''..''], butlast st}"
  then show ?thesis using join_slash_butlast_length[of st] by auto
next
  assume "c = ''..''" "st = [''..'']" "push_comp a st c = [''..'', ''..'']"
  then show ?thesis by (simp add: slack_def)
next
  assume "push_comp a st c = st @ [c]"
  then show ?thesis using join_slash_snoc_length[OF assms, of c] by simp
qed simp

lemma canon_loop_spec:
  assumes "stack_ok a st"
    and "old \<noteq> [] \<Longrightarrow> length (join_slash st) + slack (join_slash st) + length old < cap"
  shows "canon_loop a cap (join_slash st) old
       = Inr (join_slash (foldl (push_comp a) st (split_slash old)))"
  using assms
proof (induction "length old" arbitrary: st old rule: less_induct)
  case less
  show ?case
  proof (cases "old = []")
    case True
    then show ?thesis by (simp add: canon_loop.simps split_slash_nosep)
  next
    case False
    let ?seg = "slash_seg old" and ?rest = "after_seg old"
    let ?st' = "push_comp a st ?seg"
    note prem = less.prems(2)[OF False]
    have comps: "\<forall>x \<in> set st. x \<noteq> []"
      using stack_ok_comps[OF less.prems(1)] by (auto simp: is_comp_def)
    note pl = push_length[OF comps, of a ?seg]
    have ok: "stack_ok a ?st'" using less.prems(1) by (simp add: stack_ok_push)
    have len: "length (join_slash ?st') < cap"
      using pl prem seg_length(1)[of old] by linarith
    have len': "?rest \<noteq> [] \<Longrightarrow> length (join_slash ?st') + slack (join_slash ?st') + length ?rest < cap"
      using pl prem seg_length[of old] after_seg_noslash[of old]
      by (cases "CHR ''/'' \<in> set old") (auto simp: slack_def split: if_splits)
    have IH: "canon_loop a cap (join_slash ?st') ?rest
            = Inr (join_slash (foldl (push_comp a) ?st' (split_slash ?rest)))"
      using less.hyps[OF after_seg_length[OF False] ok len'] .
    have fold: "foldl (push_comp a) st (split_slash old)
              = foldl (push_comp a) ?st' (split_slash ?rest)"
      by (rule foldl_split_step) simp
    consider "?seg = [] \<or> ?seg = ''.''" | "?seg = ''..''" | "?seg \<noteq> []" "?seg \<noteq> ''.''" "?seg \<noteq> ''..''"
      by blast
    then show ?thesis
    proof cases
      case 1
      then have "?st' = st" by auto
      with 1 IH fold False show ?thesis by (subst canon_loop.simps) (auto simp: Let_def)
    next
      case 2
      then have "canon_dotdot a cap (join_slash st) = Inr (join_slash ?st')"
        using canon_dotdot_spec[OF less.prems(1)] len by simp
      with 2 IH fold False show ?thesis by (subst canon_loop.simps) (simp add: Let_def)
    next
      case 3
      then have "?st' = st @ [?seg]" by (simp add: push_comp_def)
      then have "put_buf cap ((if join_slash st \<noteq> [] then join_slash st @ ''/'' else join_slash st) @ ?seg)
               = Inr (join_slash ?st')"
        using len comps by (auto simp: join_slash_snoc put_buf_def)
      with 3 IH fold False show ?thesis by (subst canon_loop.simps) (simp add: Let_def)
    qed
  qed
qed

lemma canon_buflen_spec:
  assumes "old \<noteq> []"
  shows "canon_buflen old buf = Inr (render (is_abs old) (comps old), length (render (is_abs old) (comps old)))"
proof -
  let ?cap = "buf_capacity buf (length old + 1)"
  have cap: "length old + 1 \<le> ?cap" by (rule buf_capacity_ge)
  have loop: "canon_loop a c [] old = Inr (join_slash (foldl (push_comp a) [] (split_slash old)))"
    if "length old < c" for a c
    using canon_loop_spec[of a "[]" old c] that by (simp add: slack_def)
  show ?thesis
  proof (cases "old = ''.''")
    case True
    then show ?thesis
      by (simp add: canon_buflen_def Let_def comps_def is_abs_def render_def split_slash_nosep)
  next
    case nd: False
    show ?thesis
    proof (cases "hd old = CHR ''/''")
      case True
      then obtain o' where o': "old = CHR ''/'' # o'" using assms by (cases old) auto
      have step: "canon_loop True (?cap - 1) [] old = canon_loop True (?cap - 1) [] o'"
        by (subst canon_loop.simps) (simp add: o' slash_seg_def after_seg_def Let_def)
      have s: "split_slash old = [] # split_slash o'"
        using split_slash_sep[of "[]" o'] o' by simp
      have "length o' < ?cap - 1" using cap o' by simp
      then have "canon_loop True (?cap - 1) [] old
         = Inr (join_slash (foldl (push_comp True) [] (split_slash old)))"
        using canon_loop_spec[of True "[]" o' "?cap - 1"] step s by (simp add: slack_def)
      then show ?thesis using True nd assms
        by (simp add: canon_buflen_def Let_def comps_def is_abs_def render_def)
    next
      case False
      have "\<forall>x \<in> set (foldl (push_comp False) [] (split_slash old)). x \<noteq> []"
        using stack_ok_comps[OF stack_ok_foldl[OF stack_ok_Nil split_slash_noslash]]
        by (auto simp: is_comp_def)
      then show ?thesis using False nd assms cap loop[of ?cap False]
        by (auto simp: canon_buflen_def Let_def comps_def is_abs_def render_def)
    qed
  qed
qed

lemma canon_spec:
  "canon old = (if old = [] then Inl Aborted else Inr (render (is_abs old) (comps old)))"
proof (cases "old = []")
  case True
  then show ?thesis by (simp add: canon_def canon_buflen_def)
next
  case False
  then show ?thesis by (simp add: canon_def canon_buflen_spec)
qed

lemma stack_ok_comps_of: "stack_ok (is_abs s) (comps s)"
  unfolding comps_def by (rule stack_ok_foldl[OF stack_ok_Nil split_slash_noslash])

lemma comps_is_comp: "c \<in> set (comps s) \<Longrightarrow> is_comp c"
  using stack_ok_comps[OF stack_ok_comps_of] .

lemma comps_not_dot: "''.'' \<notin> set (comps s)"
  using stack_ok_comps_of[of s] by (auto simp: stack_ok_def is_name_def)

lemma comps_abs_names: "is_abs s \<Longrightarrow> \<forall>c \<in> set (comps s). is_name c"
  using stack_ok_comps_of[of s] by (auto simp: stack_ok_def)

section \<open>Canonical paths are fixed points\<close>

lemma foldl_names:
  assumes "\<forall>n \<in> set ns. is_name n"
  shows "foldl (push_comp a) st ns = st @ ns" "foldl (push_ref a) st ns = st @ ns"
  using assms
proof (induction ns arbitrary: st)
  case (Cons n ns)
  { case 1 then show ?case using Cons(1) by (simp add: push_comp_def is_name_def is_comp_def) }
  { case 2 then show ?case using Cons(2) by (simp add: push_ref_def is_name_def is_comp_def) }
qed simp_all

lemma foldl_stack_ok:
  assumes "stack_ok a st"
  shows "foldl (push_comp a) [] st = st"
proof -
  obtain k ns where st: "st = replicate k ''..'' @ ns" "k \<le> 2" "a \<longrightarrow> k = 0"
    "\<forall>n \<in> set ns. is_name n" using assms unfolding stack_ok_def by blast
  have "foldl (push_comp a) [] (replicate k ''..'') = replicate k ''..''"
  proof -
    have "k = 0 \<or> k = 1 \<or> k = 2" using st(2) by linarith
    moreover have "\<not> a" if "k \<noteq> 0" using st(3) that by blast
    ultimately show ?thesis by (auto simp: push_comp_def numeral_2_eq_2)
  qed
  then show ?thesis using st foldl_names(1) by (simp add: st(1))
qed

lemma is_abs_render:
  assumes "stack_ok a st"
  shows "is_abs (render a st) = a"
proof (cases a)
  case True
  then show ?thesis by (simp add: is_abs_def render_def)
next
  case False
  show ?thesis
  proof (cases st)
    case Nil
    then show ?thesis using False by (simp add: is_abs_def render_def)
  next
    case (Cons x xs)
    then have "is_comp x" using stack_ok_comps[OF assms] by simp
    then have "hd (join_slash st) \<noteq> CHR ''/''" "join_slash st \<noteq> []"
      using Cons by (cases x; auto simp: join_slash_Cons is_comp_def)+
    then show ?thesis using False Cons by (simp add: is_abs_def render_def)
  qed
qed

lemma comps_render:
  assumes "stack_ok a st"
  shows "comps (render a st) = st"
proof -
  have ns: "\<forall>x \<in> set st. CHR ''/'' \<notin> set x"
    using stack_ok_comps[OF assms] by (auto simp: is_comp_def)
  have split: "st \<noteq> [] \<Longrightarrow> split_slash (join_slash st) = st"
    using split_join ns by simp
  have "foldl (push_comp a) [] (split_slash (render a st)) = st"
  proof (cases "st = []")
    case True
    then show ?thesis
      using split_slash_sep[of "[]" "[]"] by (simp add: render_def split_slash_nosep)
  next
    case False
    have "split_slash (CHR ''/'' # join_slash st) = [] # st"
      using split_slash_sep[of "[]" "join_slash st"] split[OF False] by simp
    then show ?thesis
      using False split foldl_stack_ok[OF assms] by (cases a) (simp_all add: render_def)
  qed
  then show ?thesis using is_abs_render[OF assms] by (simp add: comps_def)
qed

lemma render_nonempty: "stack_ok a st \<Longrightarrow> render a st \<noteq> []"
  using stack_ok_comps[of a st] by (auto simp: render_def is_comp_def)

lemma canon_idem_aux: "canon s = Inr t \<Longrightarrow> canon t = Inr t"
  using render_nonempty[OF stack_ok_comps_of[of s]] comps_render[OF stack_ok_comps_of[of s]]
    is_abs_render[OF stack_ok_comps_of[of s]]
  by (auto simp: canon_spec split: if_splits)

section \<open>Agreement with the intended normal form\<close>

text \<open>The number of leading \<open>..\<close> never shrinks under the intended rule.\<close>

definition ref_ok :: "nat \<Rightarrow> bool \<Rightarrow> string list \<Rightarrow> bool" where
  "ref_ok k is_abspath st \<longleftrightarrow>
     (\<exists>ns. st = replicate k ''..'' @ ns \<and> (is_abspath \<longrightarrow> k = 0) \<and> (\<forall>n \<in> set ns. is_name n))"

lemma name_not_dd: "is_name n \<Longrightarrow> n \<noteq> ''..''"
  by (simp add: is_name_def)

lemma push_ref_ok:
  assumes "ref_ok k a st" "CHR ''/'' \<notin> set c"
  obtains k' where "ref_ok k' a (push_ref a st c)" "k \<le> k'"
    "k' \<le> 2 \<Longrightarrow> push_ref a st c = push_comp a st c"
proof -
  obtain ns where st: "st = replicate k ''..'' @ ns" "a \<longrightarrow> k = 0" "\<forall>n \<in> set ns. is_name n"
    using assms(1) unfolding ref_ok_def by blast
  consider "c = [] \<or> c = ''.''" | "c = ''..''" "ns \<noteq> []" | "c = ''..''" "ns = []" "k = 0" "a"
    | "c = ''..''" "ns = []" "\<not> a" | "is_name c"
    using assms(2) st(2) by (auto simp: is_name_def is_comp_def)
  then show thesis
  proof cases
    case 1
    then show thesis using that[of k] assms(1) by auto
  next
    case 2
    then have "is_name (last ns)" "st \<noteq> []" "last st = last ns" using st by auto
    then have "last st \<noteq> ''..''" "st \<noteq> [''..'']"
      using name_not_dd[of "last ns"] by auto
    then have "push_ref a st c = butlast st" "push_comp a st c = butlast st"
      using 2 \<open>st \<noteq> []\<close> by (simp_all add: push_ref_def push_comp_def)
    moreover have "butlast st = replicate k ''..'' @ butlast ns"
      using st 2 by (simp add: butlast_append)
    ultimately show thesis using that[of k] st 2(2) unfolding ref_ok_def
      by (auto dest: in_set_butlastD)
  next
    case 3
    then show thesis using that[of 0] assms(1) st by (simp add: push_ref_def push_comp_def)
  next
    case 4
    then have stk: "st = replicate k ''..''" using st by simp
    have r: "push_ref a st c = replicate (Suc k) ''..''"
      using 4 stk by (cases k) (auto simp: push_ref_def replicate_append_same)
    have "Suc k \<le> 2 \<Longrightarrow> push_comp a st c = replicate (Suc k) ''..''"
    proof -
      assume "Suc k \<le> 2"
      then have "k = 0 \<or> k = 1" by linarith
      then show ?thesis using 4 stk by (auto simp: push_comp_def)
    qed
    with r show thesis using that[of "Suc k"] 4 unfolding ref_ok_def by auto
  next
    case 5
    then have "push_ref a st c = st @ [c]" "push_comp a st c = st @ [c]"
      by (auto simp: push_ref_def push_comp_def is_name_def is_comp_def)
    then show thesis using that[of k] st 5 unfolding ref_ok_def by auto
  qed
qed

lemma ref_fold:
  assumes "ref_ok k a st" "\<forall>c \<in> set cs. CHR ''/'' \<notin> set c"
  shows "\<exists>k'. ref_ok k' a (foldl (push_ref a) st cs) \<and> k \<le> k' \<and>
    (k' \<le> 2 \<longrightarrow> foldl (push_ref a) st cs = foldl (push_comp a) st cs)"
  using assms
proof (induction cs arbitrary: k st)
  case Nil
  then show ?case by auto
next
  case (Cons c cs)
  obtain k1 where k1: "ref_ok k1 a (push_ref a st c)" "k \<le> k1"
    "k1 \<le> 2 \<Longrightarrow> push_ref a st c = push_comp a st c"
    using push_ref_ok[OF Cons.prems(1)] Cons.prems(2) by auto
  obtain k' where "ref_ok k' a (foldl (push_ref a) (push_ref a st c) cs)" "k1 \<le> k'"
    "k' \<le> 2 \<longrightarrow> foldl (push_ref a) (push_ref a st c) cs = foldl (push_comp a) (push_ref a st c) cs"
    using Cons.IH[OF k1(1)] Cons.prems(2) by auto
  then show ?case using k1 by (intro exI[of _ k']) (auto simp: le_trans)
qed

lemma ref_ok_climbs:
  assumes "ref_ok k a st"
  shows "length (takeWhile (\<lambda>c. c = ''..'') st) = k"
proof -
  obtain ns where st: "st = replicate k ''..'' @ ns" "\<forall>n \<in> set ns. is_name n"
    using assms unfolding ref_ok_def by blast
  have "takeWhile (\<lambda>c. c = ''..'') ns = []"
    using st(2) by (cases ns) (auto simp: is_name_def)
  moreover have "takeWhile (\<lambda>c. c = ''..'') (replicate k ''..'' @ ns)
      = replicate k ''..'' @ takeWhile (\<lambda>c. c = ''..'') ns" for k
    by (induction k) auto
  ultimately show ?thesis using st(1) by simp
qed

definition climbs :: "string \<Rightarrow> nat" where
  "climbs s = length (takeWhile (\<lambda>c. c = ''..'') (comps_ref s))"

lemma comps_eq_ref:
  assumes "climbs s \<le> 2"
  shows "comps s = comps_ref s"
proof -
  have "ref_ok 0 (is_abs s) []" by (simp add: ref_ok_def)
  then obtain k' where k': "ref_ok k' (is_abs s) (comps_ref s)"
    "k' \<le> 2 \<longrightarrow> comps_ref s = comps s"
    using ref_fold[OF _ split_slash_noslash] unfolding comps_ref_def comps_def by blast
  then show ?thesis using assms ref_ok_climbs[OF k'(1)] by (simp add: climbs_def)
qed

lemma climbs_abs:
  assumes "is_abs s"
  shows "climbs s = 0"
proof -
  have "ref_ok 0 (is_abs s) []" by (simp add: ref_ok_def)
  then obtain k' where k': "ref_ok k' (is_abs s) (comps_ref s)"
    using ref_fold[OF _ split_slash_noslash] unfolding comps_ref_def by blast
  then have "k' = 0" using assms unfolding ref_ok_def by blast
  then show ?thesis using ref_ok_climbs[OF k'] by (simp add: climbs_def)
qed

section \<open>The result is no longer than the input\<close>

lemma foldl_push_length:
  assumes "stack_ok a st"
  shows "length (join_slash (foldl (push_comp a) st (split_slash s)))
       \<le> length (join_slash st) + (if s = [] then 0 else slack (join_slash st) + length s)"
proof -
  let ?r = "join_slash (foldl (push_comp a) st (split_slash s))"
  let ?cap = "length (join_slash st) + (if s = [] then 0 else slack (join_slash st) + length s) + 1"
  have "canon_loop a ?cap (join_slash st) s = Inr ?r"
    by (rule canon_loop_spec[OF assms]) auto
  moreover have "canon_loop a c n o' = Inr r \<Longrightarrow> length n < c \<Longrightarrow> length r < c" for c n o' r
  proof (induction a c n o' rule: canon_loop.induct)
    case (1 a c n o')
    have dd: "canon_dotdot a c n = Inr n' \<Longrightarrow> length n' < c" for n'
      using 1(6) by (auto simp: canon_dotdot_def put_buf_def Let_def split: option.splits if_splits)
    have pb: "put_buf c x = Inr n' \<Longrightarrow> length n' < c" for x n'
      by (auto simp: put_buf_def split: if_splits)
    from 1(5) show ?case
      using 1(1)[OF _ refl refl] 1(2)[OF _ refl refl] 1(3)[OF _ refl refl] 1(4)[OF _ refl refl]
        1(6) dd pb
      by (subst (asm) canon_loop.simps) (auto simp: Let_def split: if_splits sum.splits)
  qed
  ultimately have "length ?r < ?cap" by fastforce
  then show ?thesis by simp
qed

section \<open>Properties of canon\<close>

lemma split_slash_append: "split_slash (a @ CHR ''/'' # b) = split_slash a @ split_slash b"
proof (induction "length a" arbitrary: a rule: less_induct)
  case less
  show ?case
  proof (cases "CHR ''/'' \<in> set a")
    case True
    then obtain x y where a: "a = x @ CHR ''/'' # y" "CHR ''/'' \<notin> set x"
      by (meson split_list_first)
    then show ?thesis using less[of y] split_slash_sep[of x] by simp
  next
    case False
    then show ?thesis by (simp add: split_slash_sep split_slash_nosep)
  qed
qed

lemma comps_append:
  assumes "a \<noteq> []"
  shows "comps (a @ CHR ''/'' # b) = foldl (push_comp (is_abs a)) (comps a) (split_slash b)"
proof -
  have "is_abs (a @ CHR ''/'' # b) = is_abs a" using assms by (simp add: is_abs_def)
  then show ?thesis by (simp add: comps_def split_slash_append)
qed

lemma render_length:
  assumes "s \<noteq> []"
  shows "length (render (is_abs s) (comps s)) \<le> length s"
proof (cases "is_abs s")
  case True
  then obtain o' where s: "s = CHR ''/'' # o'" by (cases s) (auto simp: is_abs_def)
  then have "comps s = foldl (push_comp True) [] (split_slash o')"
    using True split_slash_sep[of "[]" o'] by (simp add: comps_def)
  then have "length (join_slash (comps s)) \<le> length o'"
    using foldl_push_length[of True "[]" o'] by (simp add: slack_def split: if_splits)
  then show ?thesis using True s by (simp add: render_def)
next
  case False
  then have "length (join_slash (comps s)) \<le> length s"
    using foldl_push_length[of False "[]" s] assms by (simp add: comps_def slack_def)
  then show ?thesis using False assms by (cases s) (auto simp: render_def)
qed

text \<open>
  For every non-empty path and every caller's buffer, \<open>canon_buflen\<close> stays inside the buffer,
  does not abort, and its result is the rendering of the component stack that the segments of the
  path build, together with its length; on the empty path it aborts.
\<close>

theorem canon_buflen_exact:
  "canon_buflen old buf =
     (if old = [] then Inl Aborted
      else Inr (render (is_abs old) (comps old), length (render (is_abs old) (comps old))))"
  by (simp add: canon_buflen_spec) (simp add: canon_buflen_def)

text \<open>
  the result of \<open>canon\<close> is a fixed point of \<open>canon\<close>, is no longer than the input, has no empty
  and no \<open>.\<close> component, at most two \<open>..\<close> components and none when the path is absolute.
\<close>

theorem canon_idempotent:
  assumes "canon s = Inr t"
  shows "canon t = Inr t \<and> length t \<le> length s \<and>
    (\<forall>c \<in> set (comps t). is_comp c \<and> c \<noteq> ''.'') \<and>
    count_list (comps t) ''..'' \<le> (if is_abs s then 0 else 2)"
proof -
  have s: "s \<noteq> []" "t = render (is_abs s) (comps s)"
    using assms by (auto simp: canon_spec split: if_splits)
  have t: "comps t = comps s" using s comps_render[OF stack_ok_comps_of] by simp
  obtain k ns where st: "comps s = replicate k ''..'' @ ns" "k \<le> 2" "is_abs s \<longrightarrow> k = 0"
    "\<forall>n \<in> set ns. is_name n" using stack_ok_comps_of[of s] unfolding stack_ok_def by blast
  have "''..'' \<notin> set ns" using st(4) by (auto simp: is_name_def)
  then have "count_list ns ''..'' = 0" by (rule count_notin)
  moreover have "count_list (replicate k ''..'') ''..'' = k" by (induction k) auto
  ultimately have "count_list (comps t) ''..'' = k" using st(1) t by simp
  then show ?thesis
    using canon_idem_aux[OF assms] render_length[OF s(1)] s t st(2,3) comps_is_comp comps_not_dot
    by auto
qed

theorem canon_idempotent_witness:
  "canon ''a/./b/../c//d'' = Inr ''a/c/d'' \<and> canon ''a/c/d'' = Inr ''a/c/d''"
proof -
  have h: "canon ''a/./b/../c//d'' = Inr ''a/c/d''"
    by (simp add: canon_spec is_abs_def comps_def render_def split_slash.simps push_comp_def)
  show ?thesis using h canon_idempotent[OF h] by simp
qed

text \<open>
  C16: a path that never climbs more than two directories above its starting point gets the
  intended normal form, in which every \<open>..\<close> cancels the name before it and a \<open>..\<close> after a \<open>..\<close> is
  kept; an absolute path always does.
\<close>

theorem canon_normal_form:
  assumes "s \<noteq> []" "is_abs s \<or> climbs s \<le> 2"
  shows "canon s = Inr (render (is_abs s) (comps_ref s))"
  using assms comps_eq_ref[of s] climbs_abs[of s] by (auto simp: canon_spec)

theorem canon_normal_form_witness:
  "canon ''/a/../../b/c.txt'' = Inr ''/b/c.txt'' \<and> canon ''x/../../y'' = Inr ''../y''"
proof -
  have 1: "canon ''/a/../../b/c.txt'' = Inr (render True (comps_ref ''/a/../../b/c.txt''))"
    using canon_normal_form[of "''/a/../../b/c.txt''"] by (simp add: is_abs_def)
  have "climbs ''x/../../y'' \<le> 2"
    by (simp add: climbs_def comps_ref_def is_abs_def split_slash.simps push_ref_def)
  then have 2: "canon ''x/../../y'' = Inr (render False (comps_ref ''x/../../y''))"
    using canon_normal_form[of "''x/../../y''"] by (simp add: is_abs_def)
  show ?thesis unfolding 1 2
    by (simp add: comps_ref_def is_abs_def split_slash.simps push_ref_def render_def)
qed

lemma foldl_replicate_Suc: "foldl f st (replicate (Suc n) x) = f (foldl f st (replicate n x)) x"
proof -
  have "replicate (Suc n) x = replicate n x @ [x]"
    by (simp add: replicate_append_same)
  then show ?thesis by (simp del: replicate.simps)
qed

lemma foldl_dotdots:
  "foldl (push_comp False) [] (replicate (Suc n) ''..'') = (if even n then [''..''] else [''..'', ''..''])"
proof (induction n)
  case (Suc n)
  then show ?case
    unfolding foldl_replicate_Suc[of _ _ "Suc n"] Suc by (simp add: push_comp_def del: replicate.simps)
qed (simp add: push_comp_def)

text \<open>
  a chain of \<open>n + 1\<close> climbs is not kept: \<open>canon\<close> alternates between \<open>..\<close> and \<open>../..\<close>, so any
  path that climbs three or more directories loses climbs.
\<close>

theorem canon_loses_climbs:
  "canon (join_slash (replicate (Suc n) ''..'')) =
     Inr (if even n then ''..'' else ''../..'') \<and>
   comps_ref (join_slash (replicate (Suc n) ''..'')) = replicate (Suc n) ''..''"
proof -
  let ?s = "join_slash (replicate (Suc n) ''..'')"
  have sp: "split_slash ?s = replicate (Suc n) ''..''" by (rule split_join) auto
  have ne: "?s \<noteq> []" by (simp add: join_slash_Cons)
  have abs: "\<not> is_abs ?s" by (simp add: is_abs_def join_slash_Cons)
  have "foldl (push_ref False) [] (replicate m ''..'') = replicate m ''..''" for m
  proof (induction m)
    case (Suc m)
    have "last (replicate (Suc k) ''..'') = ''..''" for k by (induction k) auto
    then show ?case
      unfolding foldl_replicate_Suc[of _ _ m] Suc
      by (cases m) (simp_all add: push_ref_def replicate_append_same)
  qed simp
  then show ?thesis
    using ne abs sp foldl_dotdots[of n]
    by (simp add: canon_spec comps_def comps_ref_def render_def del: replicate.simps)
qed

section \<open>strcnt, construct_backpath, dir_up, calc_forward_path\<close>

fun strcnt :: "string \<Rightarrow> char \<Rightarrow> nat" where
  "strcnt [] needle = 0"
| "strcnt (h # hs) needle = (if h = needle then 1 else 0) + strcnt hs needle"

text \<open>The two writing loops of \<open>construct_backpath\<close>: \<open>cnt - 1\<close> times \<open>../\<close>, then \<open>..\<close>.\<close>

fun backpath_loop :: "nat \<Rightarrow> string" where
  "backpath_loop 0 = []"
| "backpath_loop (Suc 0) = ''..''"
| "backpath_loop (Suc (Suc cnt)) = ''../'' @ backpath_loop (Suc cnt)"

definition construct_backpath :: "string \<Rightarrow> string res" where
  "construct_backpath frontpath =
     bind_res (canon frontpath) (\<lambda>can.
       if can = ''.'' then Inr can
       else if hd can = CHR ''/'' then Inl Aborted
       else if take 2 can = ''..'' \<and> (length can = 2 \<or> can ! 2 = CHR ''/'') then Inl Aborted
       else let cnt = strcnt can CHR ''/'' + 1; sz = 3 * cnt + 1
            in put_buf sz (backpath_loop cnt))"

definition dir_up :: "string \<Rightarrow> string res" where
  "dir_up old = bind_res (put_buf (length old + 4) (old @ ''/..'')) canon"

text \<open>\<open>my_memrchr(s, c, n)\<close> is the index of the last \<open>c\<close> among the first \<open>n\<close> bytes.\<close>

definition my_memrchr :: "string \<Rightarrow> char \<Rightarrow> nat \<Rightarrow> nat option" where
  "my_memrchr s c n = strrchr (take n s) c"

fun forward_idx :: "string \<Rightarrow> nat \<Rightarrow> nat \<Rightarrow> nat" where
  "forward_idx storcwd 0 idx = idx"
| "forward_idx storcwd (Suc n) idx =
     forward_idx storcwd n (case my_memrchr storcwd CHR ''/'' idx of None \<Rightarrow> 0 | Some ptr \<Rightarrow> ptr)"

definition calc_forward_path :: "string \<Rightarrow> nat \<Rightarrow> string" where
  "calc_forward_path storcwd upcnt =
     (let idx = forward_idx storcwd upcnt (length storcwd);
          fwd_path = (if idx < length storcwd \<and> storcwd ! idx = CHR ''/''
                      then drop (idx + 1) storcwd else drop idx storcwd)
      in if fwd_path = [] then ''.'' else fwd_path)"

lemma backpath_loop_join: "backpath_loop (Suc n) = join_slash (replicate (Suc n) ''..'')"
  by (induction n) (auto simp: join_slash_Cons)

lemma length_backpath_loop: "length (backpath_loop cnt) \<le> 3 * cnt"
  by (induction cnt rule: backpath_loop.induct) auto

lemma strcnt_count: "strcnt s c = count_list s c"
  by (induction s) auto

lemma strcnt_join:
  assumes "xs \<noteq> []" "\<forall>x \<in> set xs. CHR ''/'' \<notin> set x"
  shows "strcnt (join_slash xs) CHR ''/'' + 1 = length xs"
  using assms by (induction xs rule: join_slash.induct) (auto simp: strcnt_count)

lemma name_cases: "is_name n \<Longrightarrow> n \<noteq> [] \<and> CHR ''/'' \<notin> set n \<and> n \<noteq> ''.'' \<and> n \<noteq> ''..''"
  by (simp add: is_name_def is_comp_def)

text \<open>\<open>construct_backpath\<close> on a path that canonicalises to proper names: one \<open>..\<close> per name.\<close>

lemma join_starts_dotdot:
  assumes "st \<noteq> []" "is_comp (hd st)"
  shows "take 2 (join_slash st) = ''..'' \<and> (length (join_slash st) = 2 \<or> join_slash st ! 2 = CHR ''/'')
     \<longleftrightarrow> hd st = ''..''"
proof -
  obtain x xs where st: "st = x # xs" using assms(1) by (cases st) auto
  have x: "CHR ''/'' \<notin> set x" "x \<noteq> []" using assms(2) st by (auto simp: is_comp_def)
  show ?thesis
  proof (cases "x = ''..''")
    case True
    then show ?thesis using st by (simp add: join_slash_Cons)
  next
    case False
    obtain a x' where a: "x = a # x'" using x by (cases x) auto
    show ?thesis
    proof (cases x')
      case Nil
      then show ?thesis using st a x False by (cases xs) (auto simp: join_slash_Cons)
    next
      case (Cons b x'')
      then show ?thesis using st a x False by (cases x'') (auto simp: join_slash_Cons)
    qed
  qed
qed

lemma construct_backpath_spec:
  assumes "p \<noteq> []"
  shows "construct_backpath p =
    (if is_abs p \<or> (comps p \<noteq> [] \<and> hd (comps p) = ''..'') then Inl Aborted
     else if comps p = [] then Inr ''.''
     else Inr (join_slash (replicate (length (comps p)) ''..'')))"
proof -
  have can: "canon p = Inr (render (is_abs p) (comps p))" using assms by (simp add: canon_spec)
  consider "is_abs p" | "\<not> is_abs p" "comps p = []" | "\<not> is_abs p" "comps p \<noteq> []" by blast
  then show ?thesis
  proof cases
    case 1
    then show ?thesis using can by (simp add: construct_backpath_def render_def)
  next
    case 2
    then show ?thesis using can by (simp add: construct_backpath_def render_def)
  next
    case 3
    let ?j = "join_slash (comps p)"
    have c: "is_comp (hd (comps p))" using comps_is_comp[of _ p] 3 by simp
    have ns: "\<forall>x \<in> set (comps p). CHR ''/'' \<notin> set x" using comps_is_comp by (auto simp: is_comp_def)
    have nd: "?j \<noteq> ''.''"
    proof
      assume "?j = ''.''"
      then have "comps p = [''.'']" using split_join[OF 3(2) ns] by (simp add: split_slash_nosep)
      then have "''.'' \<in> set (comps p)" by simp
      then show False using comps_not_dot[of p] by contradiction
    qed
    have na: "hd ?j \<noteq> CHR ''/''"
      using 3 c by (cases "comps p"; cases "hd (comps p)") (auto simp: join_slash_Cons is_comp_def)
    obtain m where m: "length (comps p) = Suc m" using 3 by (cases "comps p") auto
    have cnt: "Suc (strcnt ?j CHR ''/'') = Suc m" using strcnt_join[OF 3(2) ns] m by simp
    have "length (backpath_loop (Suc m)) < 3 * Suc m + 1"
      using length_backpath_loop[of "Suc m"] by simp
    then have pb: "put_buf (3 * Suc m + 1) (backpath_loop (Suc m))
        = Inr (join_slash (replicate (length (comps p)) ''..''))"
      by (simp only: put_buf_def backpath_loop_join m if_True)
    show ?thesis
      using 3 can nd na join_starts_dotdot[OF 3(2) c] pb cnt
      by (auto simp: construct_backpath_def render_def Let_def)
  qed
qed

lemma foldl_push_dotdots:
  assumes "\<forall>n \<in> set ns. is_name n"
  shows "foldl (push_comp a) (st @ ns) (replicate (length ns) ''..'') = st"
  using assms
proof (induction ns rule: rev_induct)
  case (snoc n ns)
  then have "is_name n" by simp
  then have "push_comp a (st @ ns @ [n]) ''..'' = st @ ns"
    using name_cases[of n] by (cases "st @ ns") (auto simp: push_comp_def butlast_append)
  then show ?case using snoc by simp
qed simp

lemma split_dotdots: "split_slash (join_slash (replicate (Suc n) ''..'')) = replicate (Suc n) ''..''"
  by (rule split_join) auto

text \<open>
  \<open>construct_backpath\<close> leads back: walking from a relative path that does not climb and then
  along its back path ends where one started.
\<close>

theorem construct_backpath_returns:
  assumes "construct_backpath p = Inr b"
  shows "canon (p @ CHR ''/'' # b) = Inr ''.''"
proof -
  have ne: "p \<noteq> []" using assms by (auto simp: construct_backpath_def canon_spec)
  have na: "\<not> is_abs p" and hd: "comps p \<noteq> [] \<Longrightarrow> hd (comps p) \<noteq> ''..''"
    using assms construct_backpath_spec[OF ne] by (auto split: if_splits)
  obtain k ns where st: "comps p = replicate k ''..'' @ ns" "\<forall>n \<in> set ns. is_name n"
    using stack_ok_comps_of[of p] unfolding stack_ok_def by blast
  have names: "\<forall>n \<in> set (comps p). is_name n" using hd st by (cases k) auto
  have "foldl (push_comp False) (comps p) (split_slash b) = []"
  proof (cases "comps p")
    case Nil
    then have "b = ''.''" using assms construct_backpath_spec[OF ne] na by simp
    then show ?thesis using Nil by (simp add: split_slash_nosep)
  next
    case (Cons x xs)
    then have "b = join_slash (replicate (Suc (length xs)) ''..'')"
      using assms construct_backpath_spec[OF ne] na hd by (simp del: replicate.simps)
    then have "split_slash b = replicate (length (comps p)) ''..''"
      using split_dotdots[of "length xs"] Cons by simp
    then show ?thesis using foldl_push_dotdots[OF names, of False "[]"] by simp
  qed
  moreover have "\<not> is_abs (p @ CHR ''/'' # b)" using na ne by (simp add: is_abs_def)
  ultimately show ?thesis using comps_append[OF ne, of b] na by (simp add: canon_spec render_def)
qed

theorem construct_backpath_returns_witness:
  "construct_backpath ''a/./b/c'' = Inr ''../../..'' \<and>
   canon (''a/./b/c'' @ CHR ''/'' # ''../../..'') = Inr ''.''"
proof -
  have h: "construct_backpath ''a/./b/c'' = Inr ''../../..''"
    by (simp add: construct_backpath_spec comps_def is_abs_def split_slash.simps push_comp_def)
  show ?thesis using h construct_backpath_returns[OF h] by blast
qed

section \<open>neighpath\<close>

text \<open>
  The loop that drops equal leading segments, and what happens at the first difference: climb out
  of the rest of \<open>path\<close> and descend the rest of \<open>fl\<close>.
\<close>

definition neigh_base :: "string \<Rightarrow> string \<Rightarrow> string res" where
  "neigh_base path fl =
     bind_res (construct_backpath (if path \<noteq> [] then path else ''.'')) (\<lambda>bp.
       let fl' = (if fl = [] then ''.'' else fl)
       in canon (bp @ CHR ''/'' # fl'))"

function neigh_loop :: "string \<Rightarrow> string \<Rightarrow> string res" where
  "neigh_loop path fl =
     (let pseg = slash_seg path; fseg = slash_seg fl in
      if length pseg \<noteq> length fseg \<or> length pseg = 0 \<or> pseg \<noteq> fseg then neigh_base path fl
      else neigh_loop (after_seg path) (after_seg fl))"
  by pat_completeness auto
termination
proof (relation "measure (\<lambda>(path, _). length path)")
  fix path fl pseg fseg :: string
  assume "pseg = slash_seg path" "\<not> (length pseg \<noteq> length fseg \<or> length pseg = 0 \<or> pseg \<noteq> fseg)"
  then have "path \<noteq> []" by (auto simp: slash_seg_def)
  then show "((after_seg path, after_seg fl), path, fl) \<in> measure (\<lambda>(path, _). length path)"
    by (simp add: after_seg_length)
qed simp

declare neigh_loop.simps [simp del]

definition neighpath :: "string \<Rightarrow> string \<Rightarrow> string res" where
  "neighpath path fl =
     (if is_abs fl \<or> path = ''.'' then Inr fl
      else let pathlen = length path in
        if take pathlen fl = path \<and> pathlen < length fl \<and> fl ! pathlen = CHR ''/'' then
          Inr (drop (pathlen + 1) fl)
        else bind_res (canon fl) (\<lambda>filecanon.
               bind_res (canon path) (\<lambda>pathcanon. neigh_loop pathcanon filecanon)))"

text \<open>The variant that writes into a caller's buffer and reports the length.\<close>

definition neigh_base_buflen :: "string \<Rightarrow> string \<Rightarrow> nat option \<Rightarrow> (string \<times> nat) res" where
  "neigh_base_buflen path fl buf =
     bind_res (construct_backpath (if path \<noteq> [] then path else ''.'')) (\<lambda>bp.
       let fl' = (if fl = [] then ''.'' else fl)
       in bind_res (pathcat2_buflen bp fl' (Some 1024)) (\<lambda>bufout. canon_buflen bufout buf))"

function neigh_loop_buflen :: "string \<Rightarrow> string \<Rightarrow> nat option \<Rightarrow> (string \<times> nat) res" where
  "neigh_loop_buflen path fl buf =
     (let pseg = slash_seg path; fseg = slash_seg fl in
      if length pseg \<noteq> length fseg \<or> length pseg = 0 \<or> pseg \<noteq> fseg then neigh_base_buflen path fl buf
      else neigh_loop_buflen (after_seg path) (after_seg fl) buf)"
  by pat_completeness auto
termination
proof (relation "measure (\<lambda>(path, _). length path)")
  fix path fl pseg fseg :: string and buf :: "nat option"
  assume "pseg = slash_seg path" "\<not> (length pseg \<noteq> length fseg \<or> length pseg = 0 \<or> pseg \<noteq> fseg)"
  then have "path \<noteq> []" by (auto simp: slash_seg_def)
  then show "((after_seg path, after_seg fl, buf), path, fl, buf)
      \<in> measure (\<lambda>(path, _). length path)"
    by (simp add: after_seg_length)
qed simp

declare neigh_loop_buflen.simps [simp del]

definition neighpath_buflen :: "string \<Rightarrow> string \<Rightarrow> nat option \<Rightarrow> (string \<times> nat) res" where
  "neighpath_buflen path fl buf =
     (if is_abs fl \<or> (path \<noteq> [] \<and> hd path = CHR ''.'' \<and> length path = 1) then
        bind_res (pathcat1_buflen fl buf) (\<lambda>res. Inr (res, length fl))
      else let pathlen = length path in
        if take pathlen fl = path \<and> pathlen < length fl \<and> fl ! pathlen = CHR ''/'' then
          bind_res (pathcat1_buflen (drop (pathlen + 1) fl) buf)
            (\<lambda>res. Inr (res, length fl - pathlen - 1))
        else bind_res (canon_buflen fl (Some 1024)) (\<lambda>(filecanon, _).
               bind_res (canon_buflen path (Some 1024)) (\<lambda>(pathcanon, _).
                 neigh_loop_buflen pathcanon filecanon buf)))"

lemma canon_buflen_canon:
  "canon_buflen old buf = bind_res (canon old) (\<lambda>neu. Inr (neu, length neu))"
  by (simp add: canon_buflen_exact canon_spec)

lemma neigh_loop_buflen_eq:
  "neigh_loop_buflen path fl buf = bind_res (neigh_loop path fl) (\<lambda>r. Inr (r, length r))"
proof (induction path fl buf rule: neigh_loop_buflen.induct)
  case (1 path fl buf)
  have base: "neigh_base_buflen path fl buf = bind_res (neigh_base path fl) (\<lambda>r. Inr (r, length r))"
    by (cases "construct_backpath (if path \<noteq> [] then path else ''.'')")
       (auto simp: neigh_base_buflen_def neigh_base_def canon_buflen_canon Let_def)
  show ?case
    using 1[OF refl refl] base
    by (subst neigh_loop_buflen.simps, subst neigh_loop.simps) (auto simp: Let_def)
qed

text \<open>
  \<open>neighpath_buflen\<close> computes the same path as \<open>neighpath\<close>, whatever buffer it is given, and
  reports its length.
\<close>

theorem neighpath_buflen_neighpath:
  "neighpath_buflen path fl buf = bind_res (neighpath path fl) (\<lambda>r. Inr (r, length r))"
proof -
  have dot: "path \<noteq> [] \<and> hd path = CHR ''.'' \<and> length path = 1 \<longleftrightarrow> path = ''.''"
    by (cases path) auto
  have canons: "bind_res (canon_buflen fl (Some 1024)) (\<lambda>(fc, _). F fc) = bind_res (canon fl) F"
    for fl :: string and F :: "string \<Rightarrow> 'b res"
    by (cases "canon fl") (auto simp: canon_buflen_canon)
  show ?thesis
    unfolding neighpath_buflen_def neighpath_def dot canons neigh_loop_buflen_eq Let_def
    by (cases "canon fl"; cases "canon path") (auto simp: canons)
qed

end
