(* ===== verification/Rules.thy ===== *)
theory Rules
  imports Stir_Prelude
begin

text \<open>
  The rule base of stirmake: \<open>struct rule\<close>, \<open>struct stirdep\<close> and \<open>struct stirtgt\<close> of
  \<open>rule.h\<close> with the operations of \<open>rule.c\<close>, the target index of \<open>bytgt.c\<close>, the
  dependency index of \<open>bydep.c\<close> and the additional dependencies of \<open>adddep.c\<close>.

  The RB trees of the abce library (\<open>tgts\<close>, \<open>deps\<close>, \<open>deps_remain\<close>) are keyed by one integer
  each; they are represented by the set or the map of what they hold, and the chained arrays of
  \<open>bydep.c\<close> and \<open>adddep.c\<close> by the list of their blocks.  A string-table index of
  \<open>(mysize_t)-1\<close> is \<open>None\<close>.
\<close>

section \<open>Records\<close>

record timespec =
  tv_sec :: int
  tv_nsec :: int

record stirdep =
  nameidx :: nat
  nameidxnodir :: "nat option"
  is_recursive :: bool
  is_orderonly :: bool
  is_wait :: bool
  is_primary :: bool
  is_dupe :: bool
  dep_is_inc :: bool
  dep_ruleid :: int

record stirtgt =
  tgtidx :: nat
  tgtidxnodir :: "nat option"
  tgt_is_dist :: bool

text \<open>
  \<open>cmd\<close> is the list of argument vectors \<open>cmd.args\<close>, \<open>st_mtim\<close> is \<open>None\<close> while
  \<open>st_mtim_valid\<close> is 0, \<open>deps_remain\<close> maps a rule id to its \<open>waitcnt\<close>, \<open>waitloc\<close> is
  the position of the dependency it points at in \<open>deplist\<close>, and \<open>firstdepblock\<close> holds the
  blocks of the rules that depend on this one.
\<close>

record rule =
  is_phony :: bool
  is_maybe :: bool
  is_rectgt :: bool
  is_detouch :: bool
  is_executed :: bool
  is_actually_executed :: bool
  is_executing :: bool
  is_queued :: bool
  is_cleanqueued :: bool
  remain :: bool
  is_inc :: bool
  is_dist :: bool
  is_cleanhook :: bool
  is_distcleanhook :: bool
  is_bothcleanhook :: bool
  is_traversed :: bool
  is_under_consideration :: bool
  diridx :: nat
  meatidx :: "nat option"
  scopeidx :: nat
  cmd :: "string list list"
  st_mtim :: "timespec option"
  tgts :: "nat set"
  tgtlist :: "stirtgt list"
  deps :: "nat set"
  deplist :: "stirdep list"
  deps_remain :: "nat \<Rightarrow> nat option"
  deps_remain_cnt :: nat
  wait_remain_cnt :: nat
  cmdidx :: nat
  waitloc :: "nat option"
  firstdepblock :: "nat list list"
  lastdepblock :: nat

definition zero_rule :: rule where
  "zero_rule = \<lparr> is_phony = False, is_maybe = False, is_rectgt = False, is_detouch = False,
     is_executed = False, is_actually_executed = False, is_executing = False, is_queued = False,
     is_cleanqueued = False, remain = False, is_inc = False, is_dist = False, is_cleanhook = False,
     is_distcleanhook = False, is_bothcleanhook = False, is_traversed = False,
     is_under_consideration = False, diridx = 0, meatidx = Some 0, scopeidx = 0, cmd = [], st_mtim = None,
     tgts = {}, tgtlist = [], deps = {}, deplist = [], deps_remain = (\<lambda>_. None),
     deps_remain_cnt = 0, wait_remain_cnt = 0, cmdidx = 0, waitloc = None,
     firstdepblock = [], lastdepblock = 0 \<rparr>"

text \<open>The global tables: \<open>rules\<close>, the \<open>ruleid\<close> column of the string table, the list of rules that
  remain to be made, and the dependencies whose rule was not known yet.\<close>

record base =
  rules :: "nat \<Rightarrow> rule"
  rules_size :: nat
  st_ruleid :: "nat \<Rightarrow> int"
  rules_remain_list :: "nat list"
  later_blocks :: "(nat \<times> nat) list list"
  later_last :: nat

definition upd_rule :: "nat \<Rightarrow> (rule \<Rightarrow> rule) \<Rightarrow> ('a) base_scheme \<Rightarrow> ('a) base_scheme" where
  "upd_rule r f s = s\<lparr> rules := (rules s)(r := f (rules s r)) \<rparr>"

lemma upd_rule_simps [simp]:
  "rules (upd_rule r f s) = (rules s)(r := f (rules s r))"
  "rules_size (upd_rule r f s) = rules_size s"
  "st_ruleid (upd_rule r f s) = st_ruleid s"
  "rules_remain_list (upd_rule r f s) = rules_remain_list s"
  "later_blocks (upd_rule r f s) = later_blocks s"
  "later_last (upd_rule r f s) = later_last s"
  by (simp_all add: upd_rule_def)

section \<open>Targets and dependencies of a rule\<close>

definition ins_tgt :: "nat \<Rightarrow> nat option \<Rightarrow> bool \<Rightarrow> rule \<Rightarrow> rule res" where
  "ins_tgt ti nodir dist r =
     (if ti \<in> tgts r then Inl (Exited ''Target already exists in rule'')
      else Inr (r\<lparr> tgts := insert ti (tgts r),
                   tgtlist := tgtlist r @ [\<lparr> tgtidx = ti, tgtidxnodir = nodir, tgt_is_dist = dist \<rparr>] \<rparr>))"

definition rule_get_tgt :: "rule \<Rightarrow> nat \<Rightarrow> stirtgt option" where
  "rule_get_tgt r ti = (if ti \<in> tgts r then find (\<lambda>e. tgtidx e = ti) (tgtlist r) else None)"

definition ins_dep :: "nat \<Rightarrow> nat option \<Rightarrow> bool \<Rightarrow> bool \<Rightarrow> bool \<Rightarrow> bool \<Rightarrow> bool \<Rightarrow> rule
    \<Rightarrow> bool \<times> rule" where
  "ins_dep di nodir recursive orderonly wait primary inc r =
     (let dupe = (di \<in> deps r);
          e = \<lparr> nameidx = di, nameidxnodir = nodir, is_recursive = recursive,
                is_orderonly = orderonly, is_wait = wait, is_primary = primary,
                is_dupe = dupe, dep_is_inc = inc, dep_ruleid = -1 \<rparr>
      in (\<not> dupe, r\<lparr> deps := insert di (deps r), deplist := deplist r @ [e] \<rparr>))"

text \<open>\<open>stirdep_ruleid\<close> returns the rule of a dependency and caches it in the dependency.\<close>

definition stirdep_ruleid :: "(nat \<Rightarrow> int) \<Rightarrow> stirdep \<Rightarrow> nat option" where
  "stirdep_ruleid tab d =
     (if dep_ruleid d = -2 then None
      else if dep_ruleid d \<ge> 0 then Some (nat (dep_ruleid d))
      else if tab (nameidx d) < 0 then None
      else Some (nat (tab (nameidx d))))"

definition stirdep_cache :: "(nat \<Rightarrow> int) \<Rightarrow> stirdep \<Rightarrow> stirdep" where
  "stirdep_cache tab d =
     (if dep_ruleid d = -2 \<or> dep_ruleid d \<ge> 0 then d
      else if tab (nameidx d) < 0 then d\<lparr> dep_ruleid := -2 \<rparr>
      else d\<lparr> dep_ruleid := tab (nameidx d) \<rparr>)"

lemma stirdep_cache_ruleid [simp]:
  "stirdep_ruleid tab (stirdep_cache tab d) = stirdep_ruleid tab d"
  by (auto simp: stirdep_ruleid_def stirdep_cache_def)

lemma stirdep_cache_fields [simp]:
  "nameidx (stirdep_cache tab d) = nameidx d" "is_dupe (stirdep_cache tab d) = is_dupe d"
  "is_wait (stirdep_cache tab d) = is_wait d" "dep_is_inc (stirdep_cache tab d) = dep_is_inc d"
  by (simp_all add: stirdep_cache_def)

section \<open>The remaining dependencies of a rule\<close>

definition deps_remain_has :: "rule \<Rightarrow> nat \<Rightarrow> bool" where
  "deps_remain_has r d = (deps_remain r d \<noteq> None)"

definition deps_remain_insert :: "nat \<Rightarrow> rule \<Rightarrow> rule" where
  "deps_remain_insert d r =
     (if deps_remain r d \<noteq> None then r
      else r\<lparr> deps_remain := (deps_remain r)(d := Some 0),
              deps_remain_cnt := Suc (deps_remain_cnt r) \<rparr>)"

definition deps_remain_forwait :: "nat \<Rightarrow> rule \<Rightarrow> rule res" where
  "deps_remain_forwait d r =
     (case deps_remain r d of
        None \<Rightarrow> Inl Aborted
      | Some w \<Rightarrow> Inr (r\<lparr> deps_remain := (deps_remain r)(d := Some (Suc w)) \<rparr>))"

definition deps_remain_erase :: "nat \<Rightarrow> rule \<Rightarrow> rule res" where
  "deps_remain_erase d r =
     (case deps_remain r d of
        None \<Rightarrow> Inr r
      | Some w \<Rightarrow>
          (if wait_remain_cnt r < w then Inl Aborted
           else Inr (r\<lparr> deps_remain := (deps_remain r)(d := None),
                        deps_remain_cnt := deps_remain_cnt r - 1,
                        wait_remain_cnt := wait_remain_cnt r - w \<rparr>)))"

fun calc_deps_remain_loop :: "(nat \<Rightarrow> int) \<Rightarrow> stirdep list \<Rightarrow> rule \<Rightarrow> rule" where
  "calc_deps_remain_loop tab [] r = r"
| "calc_deps_remain_loop tab (e # es) r =
     calc_deps_remain_loop tab es
       (case stirdep_ruleid tab e of Some d \<Rightarrow> deps_remain_insert d r | None \<Rightarrow> r)"

definition calc_deps_remain :: "(nat \<Rightarrow> int) \<Rightarrow> rule \<Rightarrow> rule" where
  "calc_deps_remain tab r =
     (calc_deps_remain_loop tab (deplist r) r)\<lparr> deplist := map (stirdep_cache tab) (deplist r) \<rparr>"

section \<open>The list of rules that remain to be made\<close>

definition ruleremain_add :: "nat \<Rightarrow> ('a) base_scheme \<Rightarrow> ('a) base_scheme" where
  "ruleremain_add r s =
     (if remain (rules s r) then s
      else upd_rule r (remain_update (\<lambda>_. True)) (s\<lparr> rules_remain_list := rules_remain_list s @ [r] \<rparr>))"

definition ruleremain_rm :: "nat \<Rightarrow> ('a) base_scheme \<Rightarrow> ('a) base_scheme" where
  "ruleremain_rm r s =
     (if \<not> remain (rules s r) then s
      else upd_rule r (remain_update (\<lambda>_. False))
             (s\<lparr> rules_remain_list := remove1 r (rules_remain_list s) \<rparr>))"

section \<open>Rules by target\<close>

definition ins_ruleid_by_tgt :: "nat \<Rightarrow> nat \<Rightarrow> ('a) base_scheme \<Rightarrow> ('a) base_scheme res" where
  "ins_ruleid_by_tgt ti r s =
     (if st_ruleid s ti \<ge> 0 then Inl (Exited ''ruleid by tgt already exists'')
      else Inr (s\<lparr> st_ruleid := (st_ruleid s)(ti := int r) \<rparr>))"

definition get_ruleid_by_tgt :: "('a) base_scheme \<Rightarrow> nat \<Rightarrow> nat option" where
  "get_ruleid_by_tgt s ti = (if st_ruleid s ti < 0 then None else Some (nat (st_ruleid s ti)))"

section \<open>Blocks of entries\<close>

text \<open>
  \<open>bydep.c\<close> and \<open>adddep.c\<close> append an entry the same way: from the block the last-pointer names they
  walk over full blocks, allocate a fresh block after the last one, and store the entry in the
  first block with room.  On allocation \<open>bydep.c\<close> moves the last-pointer to the fresh block and
  \<open>adddep.c\<close> to the block before it (\<open>lag\<close> is 0 or 1).
\<close>

fun block_walk :: "nat \<Rightarrow> 'a \<Rightarrow> 'a list list \<Rightarrow> 'a list list" where
  "block_walk cap x [] = [[x]]"
| "block_walk cap x (b # bs) = (if length b \<ge> cap then b # block_walk cap x bs else (b @ [x]) # bs)"

definition block_ins :: "nat \<Rightarrow> nat \<Rightarrow> 'a \<Rightarrow> 'a list list \<times> nat \<Rightarrow> 'a list list \<times> nat" where
  "block_ins cap lag x = (\<lambda>(bs, lst).
     (let (bs, lst) = (if bs = [] then ([[]], 0) else (bs, lst));
          new = block_walk cap x (drop lst bs)
      in (take lst bs @ new, if length new > length (drop lst bs) then length bs - lag else lst)))"

section \<open>Rules by dependency\<close>

definition RULEID_BY_DEP_ENTRY_BLOCK_SIZE :: nat where
  "RULEID_BY_DEP_ENTRY_BLOCK_SIZE = 16"

definition RULEID_BY_DEP_ENTRY_LATER_BLOCK_SIZE :: nat where
  "RULEID_BY_DEP_ENTRY_LATER_BLOCK_SIZE = 510"

definition ADD_DEP_ENTRY_BLOCK_SIZE :: nat where
  "ADD_DEP_ENTRY_BLOCK_SIZE = 340"

text \<open>The rules that depend on \<open>r\<close>, in the order they were entered.\<close>

definition back_deps :: "('a) base_scheme \<Rightarrow> nat \<Rightarrow> nat list" where
  "back_deps s r = concat (firstdepblock (rules s r))"

text \<open>The result is \<open>ret == 0\<close>.\<close>

definition ins_ruleid_by_dep2 :: "nat \<Rightarrow> nat \<Rightarrow> bool \<Rightarrow> ('a) base_scheme
    \<Rightarrow> bool \<times> ('a) base_scheme" where
  "ins_ruleid_by_dep2 di r enforce s =
     (case get_ruleid_by_tgt s di of
        None \<Rightarrow>
          (if enforce then (False, s)
           else let (bs, l) = block_ins RULEID_BY_DEP_ENTRY_LATER_BLOCK_SIZE 0 (di, r)
                                (later_blocks s, later_last s)
                in (True, s\<lparr> later_blocks := bs, later_last := l \<rparr>))
      | Some d \<Rightarrow>
          (let (bs, l) = block_ins RULEID_BY_DEP_ENTRY_BLOCK_SIZE 0 r
                           (firstdepblock (rules s d), lastdepblock (rules s d))
           in (True, upd_rule d (\<lambda>x. x\<lparr> firstdepblock := bs, lastdepblock := l \<rparr>) s)))"

fun ins_later_loop :: "(nat \<times> nat) list \<Rightarrow> ('a) base_scheme \<Rightarrow> ('a) base_scheme" where
  "ins_later_loop [] s = s"
| "ins_later_loop ((di, r) # es) s = ins_later_loop es (snd (ins_ruleid_by_dep2 di r True s))"

definition ins_ruleid_by_dep_later :: "('a) base_scheme \<Rightarrow> ('a) base_scheme" where
  "ins_ruleid_by_dep_later s =
     (ins_later_loop (concat (later_blocks s)) s)\<lparr> later_blocks := [] \<rparr>"

end
