(* ===== verification/Scheduler.thy ===== *)
theory Scheduler
  imports Rules
begin

text \<open>
  The scheduler of stirmake: \<open>consider\<close>, \<open>do_exec\<close>, \<open>mark_executed\<close> and \<open>reconsider\<close> of
  \<open>stirmake.c\<close>, which call each other while they walk the dependency graph.

  What they read and write outside the rule base (file status caches, the command and time stamp
  databases, the evaluation of the recipe by the abce virtual machine) is the world, and three
  operations on it are an argument of the definitions: \<open>decide\<close> is the body of \<open>do_exec\<close> up to its
  last three-way branch, \<open>finish_exec\<close> the body of \<open>mark_executed\<close> between setting the flags and the loop
  over the rules that depend on the rule, and \<open>accessible\<close> is \<open>access_cached\<close>.  The theorems hold
  for all of them; the theory on up-to-date checks models the first.

  The four functions recurse on fuel, a bound on the depth of the C call stack; enough fuel is
  part of what is proved.
\<close>

record 'w sched = base +
  ruleids_to_run :: "nat list"
  world :: 'w

text \<open>
  \<open>decide\<close> returns whether the rule is queued, its command (\<open>calc_cmd\<close>), the time stamp it leaves
  in \<open>st_mtim\<close> and the new world.

  It does not return a new rule base.  In the code \<open>calc_cmd\<close> evaluates code of the Stirfile, which may
  execute \<open>@adddeps\<close>: the instruction \<open>DEP_ADD\<close> after parsing (\<open>stirtrap.c\<close>) calls
  \<open>add_dep_after_parsing_stage\<close>, which enters dependencies, their counters and back edges for rules that are
  not queued yet.  \<open>Rule_Ops\<close> models that function (\<open>late_deps\<close>), but builds that call it from the loop
  are not covered by this \<open>ops\<close>, and what is proved of the loop does not extend to them: an executed rule
  entered as a remaining dependency is never taken out again (\<open>late_dep_remains\<close>), so the rule that
  depends on it is never made.
\<close>

record 'w ops =
  decide :: "nat \<Rightarrow> 'w sched \<Rightarrow> (bool \<times> string list list \<times> timespec option \<times> 'w) res"
  finish_exec :: "nat \<Rightarrow> bool \<Rightarrow> 'w sched \<Rightarrow> 'w res"
  accessible :: "nat \<Rightarrow> 'w \<Rightarrow> bool \<times> 'w"

lemma upd_rule_sched [simp]:
  "ruleids_to_run (upd_rule r f s) = ruleids_to_run s"
  "world (upd_rule r f s) = world s"
  by (simp_all add: upd_rule_def)

definition upd_rule_res :: "nat \<Rightarrow> (rule \<Rightarrow> rule res) \<Rightarrow> 'w sched \<Rightarrow> 'w sched res" where
  "upd_rule_res r f s = bind_res (f (rules s r)) (\<lambda>x. Inr (upd_rule r (\<lambda>_. x) s))"

section \<open>The loops over the dependencies\<close>

text \<open>
  The loop of \<open>consider\<close>.  \<open>rec\<close> is the recursive call; the dependencies come with their position,
  which is what \<open>waitloc\<close> remembers; the two flags are \<open>toexecute\<close> and \<open>execed_some\<close>.
\<close>

fun consider_deps :: "'w ops \<Rightarrow> (nat \<Rightarrow> 'w sched \<Rightarrow> (bool \<times> 'w sched) res) \<Rightarrow> nat
    \<Rightarrow> (nat \<times> stirdep) list \<Rightarrow> bool \<Rightarrow> bool \<Rightarrow> 'w sched \<Rightarrow> (bool \<times> bool \<times> 'w sched) res" where
  "consider_deps ops rec r [] toexecute execed_some s = Inr (toexecute, execed_some, s)"
| "consider_deps ops rec r ((i, e) # es) toexecute execed_some s =
     (if is_dupe e then consider_deps ops rec r es toexecute execed_some s
      else
        let s = upd_rule r (waitloc_update (\<lambda>_. Some i)) s in
        if wait_remain_cnt (rules s r) > 0 \<and> is_wait e then Inr (toexecute, execed_some, s)
        else case stirdep_ruleid (st_ruleid s) e of
          Some d \<Rightarrow>
            bind_res (rec d s) (\<lambda>(some, s).
              let execed_some = (execed_some \<or> some) in
              if \<not> is_executed (rules s d) then
                bind_res (upd_rule_res r (deps_remain_forwait d) s) (\<lambda>s.
                  consider_deps ops rec r es True execed_some
                    (upd_rule r (wait_remain_cnt_update Suc) s))
              else consider_deps ops rec r es toexecute execed_some s)
        | None \<Rightarrow>
            if dep_is_inc e then consider_deps ops rec r es toexecute execed_some s
            else let (ok, w) = accessible ops (nameidx e) (world s) in
              if \<not> ok then Inl (Exited ''No dependency and rule not found'')
              else consider_deps ops rec r es toexecute execed_some (s\<lparr> world := w \<rparr>))"

text \<open>The loop of \<open>reconsider\<close>; it starts at \<open>waitloc\<close> and tests for a wait position before it skips
  duplicates.\<close>

fun reconsider_deps :: "'w ops \<Rightarrow> (nat \<Rightarrow> 'w sched \<Rightarrow> (bool \<times> 'w sched) res) \<Rightarrow> nat
    \<Rightarrow> (nat \<times> stirdep) list \<Rightarrow> 'w sched \<Rightarrow> 'w sched res" where
  "reconsider_deps ops rec r [] s = Inr s"
| "reconsider_deps ops rec r ((i, e) # es) s =
     (let s = upd_rule r (waitloc_update (\<lambda>_. Some i)) s in
      if wait_remain_cnt (rules s r) > 0 \<and> is_wait e then Inr s
      else if is_dupe e then reconsider_deps ops rec r es s
      else case stirdep_ruleid (st_ruleid s) e of
        Some d \<Rightarrow>
          bind_res (rec d s) (\<lambda>(_, s).
            if \<not> is_executed (rules s d) then
              bind_res (upd_rule_res r (deps_remain_forwait d) s) (\<lambda>s.
                reconsider_deps ops rec r es (upd_rule r (wait_remain_cnt_update Suc) s))
            else reconsider_deps ops rec r es s)
      | None \<Rightarrow>
          if dep_is_inc e then reconsider_deps ops rec r es s
          else let (ok, w) = accessible ops (nameidx e) (world s) in
            if \<not> ok then Inl (Exited ''No dependency and rule not found'')
            else reconsider_deps ops rec r es (s\<lparr> world := w \<rparr>))"

text \<open>The loop of \<open>mark_executed\<close> over the rules that depend on the executed one.\<close>

fun back_loop :: "(nat \<Rightarrow> 'w sched \<Rightarrow> 'w sched res) \<Rightarrow> nat list \<Rightarrow> 'w sched \<Rightarrow> 'w sched res" where
  "back_loop rec [] s = Inr s"
| "back_loop rec (b # bs) s = bind_res (rec b s) (back_loop rec bs)"

section \<open>The four functions\<close>

fun consider_rule :: "'w ops \<Rightarrow> nat \<Rightarrow> nat \<Rightarrow> 'w sched \<Rightarrow> (bool \<times> 'w sched) res"
and do_exec :: "'w ops \<Rightarrow> nat \<Rightarrow> nat \<Rightarrow> 'w sched \<Rightarrow> (bool \<times> 'w sched) res"
and mark_executed :: "'w ops \<Rightarrow> nat \<Rightarrow> nat \<Rightarrow> bool \<Rightarrow> 'w sched \<Rightarrow> 'w sched res"
and reconsider :: "'w ops \<Rightarrow> nat \<Rightarrow> nat \<Rightarrow> nat \<Rightarrow> 'w sched \<Rightarrow> 'w sched res" where
  "consider_rule ops 0 r s = Inl NoFuel"
| "consider_rule ops (Suc n) r s =
     (if is_executed (rules s r) then Inr (False, s)
      else if is_executing (rules s r) then Inr (False, s)
      else
        let s = upd_rule r (\<lambda>x. x\<lparr> is_executing := True, is_under_consideration := True \<rparr>) s in
        bind_res (consider_deps ops (\<lambda>d s. consider_rule ops n d s) r
                    (enumerate 0 (deplist (rules s r))) False False s)
          (\<lambda>(toexecute, execed_some, s).
            if \<not> toexecute \<and> \<not> is_queued (rules s r) then
              bind_res (do_exec ops n r s) (\<lambda>(ret, s).
                Inr (ret, upd_rule r (is_under_consideration_update (\<lambda>_. False)) s))
            else Inr (execed_some, upd_rule r (is_under_consideration_update (\<lambda>_. False)) s)))"
| "do_exec ops 0 r s = Inl NoFuel"
| "do_exec ops (Suc n) r s =
     (if \<not> is_queued (rules s r) then
        bind_res (decide ops r s) (\<lambda>(queue, c, mtim, w).
          let s = upd_rule r (\<lambda>x. x\<lparr> cmd := c, st_mtim := mtim \<rparr>) (s\<lparr> world := w \<rparr>) in
          if queue then
            Inr (False, upd_rule r (is_queued_update (\<lambda>_. True))
                          (s\<lparr> ruleids_to_run := ruleids_to_run s @ [r] \<rparr>))
          else
            bind_res (mark_executed ops n r False (upd_rule r (is_queued_update (\<lambda>_. True)) s))
              (\<lambda>s. Inr (True, s)))
      else Inr (False, s))"
| "mark_executed ops 0 r was s = Inl NoFuel"
| "mark_executed ops (Suc n) r was s =
     (if is_executed (rules s r) then Inl Aborted
      else if \<not> is_executing (rules s r) then Inl Aborted
      else
        let s = upd_rule r (\<lambda>x. x\<lparr> is_executed := True, is_actually_executed := was \<rparr>)
                  (ruleremain_rm r s) in
        bind_res (finish_exec ops r was s) (\<lambda>w.
          back_loop (\<lambda>b s. reconsider ops n b r s) (back_deps s r) (s\<lparr> world := w \<rparr>)))"
| "reconsider ops 0 r ruleid_executed s = Inl NoFuel"
| "reconsider ops (Suc n) r ruleid_executed s =
     (if is_executed (rules s r) then Inr s
      else if \<not> is_executing (rules s r) \<or> is_under_consideration (rules s r) then
        upd_rule_res r (deps_remain_erase ruleid_executed) s
      else
        bind_res (upd_rule_res r (deps_remain_erase ruleid_executed) s) (\<lambda>s.
          let toexecute = (deps_remain_cnt (rules s r) > 0);
              s = upd_rule r (is_under_consideration_update (\<lambda>_. True)) s in
          case waitloc (rules s r) of
            None \<Rightarrow> Inl Overread
          | Some i \<Rightarrow>
              bind_res (reconsider_deps ops (\<lambda>d s. consider_rule ops n d s) r
                          (drop i (enumerate 0 (deplist (rules s r)))) s)
                (\<lambda>s. if \<not> toexecute \<and> \<not> is_queued (rules s r) then
                        bind_res (do_exec ops n r s) (\<lambda>(_, s).
                          Inr (upd_rule r (is_under_consideration_update (\<lambda>_. False)) s))
                      else Inr (upd_rule r (is_under_consideration_update (\<lambda>_. False)) s))))"

section \<open>The invariant\<close>

definition dep_ids :: "('a) base_scheme \<Rightarrow> nat \<Rightarrow> nat set" where
  "dep_ids s r = {d. \<exists>e \<in> set (deplist (rules s r)).
     \<not> is_dupe e \<and> stirdep_ruleid (st_ruleid s) e = Some d}"

definition has_dep :: "rule \<Rightarrow> bool" where
  "has_dep a = (\<exists>e \<in> set (deplist a). \<not> is_dupe e)"

text \<open>The dependency graph stays within the rules and the back edges lead to rules with dependencies.\<close>

definition graph_ok :: "('a) base_scheme \<Rightarrow> bool" where
  "graph_ok s = (\<forall>r < rules_size s.
     (\<forall>d \<in> dep_ids s r. d < rules_size s) \<and>
     (\<forall>b \<in> set (back_deps s r). b < rules_size s \<and> has_dep (rules s b)))"

text \<open>What holds of each rule by itself: the flags come in order, the counters count what they
  count, and a rule that is waiting knows where it waits.\<close>

definition wait_sum :: "(nat \<Rightarrow> nat option) \<Rightarrow> nat" where
  "wait_sum m = (\<Sum>d \<in> dom m. the (m d))"

definition rule_ok :: "rule \<Rightarrow> bool" where
  "rule_ok a =
     ((is_executed a \<longrightarrow> is_queued a) \<and> (is_queued a \<longrightarrow> is_executing a) \<and>
      (is_under_consideration a \<longrightarrow> is_executing a) \<and>
      finite (dom (deps_remain a)) \<and> deps_remain_cnt a = card (dom (deps_remain a)) \<and>
      wait_remain_cnt a = wait_sum (deps_remain a) \<and>
      (\<not> is_executing a \<longrightarrow> wait_remain_cnt a = 0) \<and>
      (is_executing a \<and> \<not> is_under_consideration a \<and> has_dep a \<longrightarrow> waitloc a \<noteq> None))"

text \<open>
  An unexecuted dependency is still among the remaining ones, and the dependencies of a queued rule
  are executed.
\<close>

definition deps_ok :: "('a) base_scheme \<Rightarrow> bool" where
  "deps_ok s = (\<forall>r. \<forall>d \<in> dep_ids s r.
     (\<not> is_executed (rules s d) \<longrightarrow> deps_remain (rules s r) d \<noteq> None) \<and>
     (is_queued (rules s r) \<longrightarrow> is_executed (rules s d)))"

text \<open>
  A rule that is queued and not executed is in \<open>ruleids_to_run\<close> once or is being run (\<open>R\<close>).
\<close>

definition queue_ok :: "nat set \<Rightarrow> 'w sched \<Rightarrow> bool" where
  "queue_ok R s = (distinct (ruleids_to_run s) \<and> set (ruleids_to_run s) \<inter> R = {} \<and>
     set (ruleids_to_run s) \<union> R = {r. is_queued (rules s r) \<and> \<not> is_executed (rules s r)} \<and>
     (\<forall>r \<in> set (ruleids_to_run s). cmd (rules s r) \<noteq> []))"

definition remain_ok :: "('a) base_scheme \<Rightarrow> bool" where
  "remain_ok s = (distinct (rules_remain_list s) \<and>
     set (rules_remain_list s) = {r. remain (rules s r)} \<and>
     (\<forall>r. remain (rules s r) \<longrightarrow> \<not> is_executed (rules s r)))"

definition sched_inv :: "nat set \<Rightarrow> 'w sched \<Rightarrow> bool" where
  "sched_inv R s = ((\<forall>r. rule_ok (rules s r)) \<and> deps_ok s \<and> queue_ok R s \<and> remain_ok s \<and>
     (\<forall>r. is_executing (rules s r) \<longrightarrow> r < rules_size s))"

section \<open>The frame\<close>

text \<open>
  What a call may do to a rule: flags are only ever raised, the graph stays, a rule leaves the list
  of remaining rules only when it is executed.
\<close>

definition mono_le :: "rule \<Rightarrow> rule \<Rightarrow> bool" where
  "mono_le a b =
     ((is_executed a \<longrightarrow> is_executed b) \<and> (is_queued a \<longrightarrow> is_queued b) \<and>
      (is_executing a \<longrightarrow> is_executing b) \<and> deplist b = deplist a \<and>
      firstdepblock b = firstdepblock a \<and> (remain b \<longrightarrow> remain a) \<and>
      (remain a \<longrightarrow> remain b \<or> is_executed b) \<and> (waitloc a \<noteq> None \<longrightarrow> waitloc b \<noteq> None) \<and>
      (\<forall>d. deps_remain a d = None \<longrightarrow> deps_remain b d = None) \<and>
      cmdidx b = cmdidx a \<and> (is_queued a \<longrightarrow> cmd b = cmd a))"

text \<open>A rule under consideration is left alone, but for dependencies that cease to be remaining.\<close>

definition rule_le :: "rule \<Rightarrow> rule \<Rightarrow> bool" where
  "rule_le a b =
     (mono_le a b \<and> is_under_consideration b = is_under_consideration a \<and>
      (is_under_consideration a \<longrightarrow>
         is_executing b = is_executing a \<and> is_queued b = is_queued a \<and>
         is_executed b = is_executed a \<and> waitloc b = waitloc a \<and>
         wait_remain_cnt b \<le> wait_remain_cnt a))"

definition frame :: "nat set \<Rightarrow> ('a) base_scheme \<Rightarrow> ('a) base_scheme \<Rightarrow> bool" where
  "frame V s s' = (rules_size s' = rules_size s \<and> st_ruleid s' = st_ruleid s \<and>
     (\<forall>x. mono_le (rules s x) (rules s' x)) \<and> (\<forall>x. x \<notin> V \<longrightarrow> rule_le (rules s x) (rules s' x)))"

lemma mono_le_refl [simp]: "mono_le a a"
  by (simp add: mono_le_def)

lemma mono_le_trans: "mono_le a b \<Longrightarrow> mono_le b c \<Longrightarrow> mono_le a c"
  by (auto simp: mono_le_def)

lemma rule_le_refl [simp]: "rule_le a a"
  by (simp add: rule_le_def)

lemma rule_le_trans: "rule_le a b \<Longrightarrow> rule_le b c \<Longrightarrow> rule_le a c"
  using mono_le_trans[of a b c] by (auto simp: rule_le_def)

lemma frame_refl [simp]: "frame V s s"
  by (simp add: frame_def)

lemma frame_trans: "frame V s s' \<Longrightarrow> frame V s' s'' \<Longrightarrow> frame V s s''"
  unfolding frame_def using mono_le_trans rule_le_trans by metis

lemma frame_mono: "frame V s s' \<Longrightarrow> V \<subseteq> W \<Longrightarrow> frame W s s'"
  unfolding frame_def by blast

lemma frame_upd:
  "mono_le (rules s r) (f (rules s r)) \<Longrightarrow> frame {r} s (upd_rule r f s)"
  by (auto simp: frame_def)

lemma frame_upd_le:
  "rule_le (rules s r) (f (rules s r)) \<Longrightarrow> frame V s (upd_rule r f s)"
  by (auto simp: frame_def rule_le_def)

lemma frame_world [simp]: "frame V s (s\<lparr> world := w \<rparr>)"
  by (simp add: frame_def)

lemma frameD:
  assumes "frame V s s'"
  shows "rules_size s' = rules_size s" "st_ruleid s' = st_ruleid s"
    "is_executed (rules s x) \<Longrightarrow> is_executed (rules s' x)"
    "is_queued (rules s x) \<Longrightarrow> is_queued (rules s' x)"
    "is_executing (rules s x) \<Longrightarrow> is_executing (rules s' x)"
    "deplist (rules s' x) = deplist (rules s x)"
    "back_deps s' x = back_deps s x"
    "has_dep (rules s' x) = has_dep (rules s x)"
    "dep_ids s' x = dep_ids s x"
proof -
  have m: "mono_le (rules s x) (rules s' x)" using assms by (simp add: frame_def)
  show "rules_size s' = rules_size s" "st_ruleid s' = st_ruleid s"
    using assms by (simp_all add: frame_def)
  show "is_executed (rules s x) \<Longrightarrow> is_executed (rules s' x)"
    "is_queued (rules s x) \<Longrightarrow> is_queued (rules s' x)"
    "is_executing (rules s x) \<Longrightarrow> is_executing (rules s' x)"
    "deplist (rules s' x) = deplist (rules s x)"
    "back_deps s' x = back_deps s x"
    "has_dep (rules s' x) = has_dep (rules s x)"
    using m by (simp_all add: mono_le_def back_deps_def has_dep_def)
  have "deplist (rules s' x) = deplist (rules s x)" using m by (simp add: mono_le_def)
  moreover have "st_ruleid s' = st_ruleid s" using assms by (simp add: frame_def)
  ultimately show "dep_ids s' x = dep_ids s x" by (simp add: dep_ids_def)
qed

lemma frame_under:
  "frame V s s' \<Longrightarrow> x \<notin> V \<Longrightarrow> is_under_consideration (rules s' x) = is_under_consideration (rules s x)"
  by (simp add: frame_def rule_le_def)

lemma frame_graph_ok:
  assumes f: "frame V s s'" and g: "graph_ok s"
  shows "graph_ok s'"
  using g unfolding graph_ok_def frameD(1)[OF f] frameD(7)[OF f] frameD(8)[OF f] frameD(9)[OF f] .

lemma frame_protected:
  assumes "frame V s s'" "is_under_consideration (rules s x)" "x \<notin> V"
  shows "is_executing (rules s' x) = is_executing (rules s x)"
    "is_queued (rules s' x) = is_queued (rules s x)"
    "is_executed (rules s' x) = is_executed (rules s x)" "waitloc (rules s' x) = waitloc (rules s x)"
    "wait_remain_cnt (rules s' x) \<le> wait_remain_cnt (rules s x)"
    "is_under_consideration (rules s' x)"
  using assms by (auto simp: frame_def rule_le_def)

section \<open>Fuel\<close>

text \<open>The rules not yet executing and the rules not yet executed: both numbers only go down.\<close>

definition work :: "('a) base_scheme \<Rightarrow> nat" where
  "work s = card {r. r < rules_size s \<and> \<not> is_executing (rules s r)} +
            card {r. r < rules_size s \<and> \<not> is_executed (rules s r)}"

lemma frame_work: "frame V s s' \<Longrightarrow> work s' \<le> work s"
  unfolding work_def using frameD(1,3,5)[of V s s'] by (intro add_mono card_mono) auto

lemma work_bound: "work s \<le> 2 * rules_size s"
proof -
  have "card {r. r < rules_size s \<and> P r} \<le> rules_size s" for P
    using card_mono[of "{..< rules_size s}" "{r. r < rules_size s \<and> P r}"] by auto
  then show ?thesis unfolding work_def by (simp add: add_mono mult_2)
qed

lemma work_less:
  assumes "frame V s s'" "r < rules_size s"
    "is_executing (rules s' r) \<and> \<not> is_executing (rules s r) \<or>
     is_executed (rules s' r) \<and> \<not> is_executed (rules s r)"
  shows "work s' < work s"
proof -
  let ?E = "\<lambda>s. {r. r < rules_size s \<and> \<not> is_executing (rules s r)}"
  let ?X = "\<lambda>s. {r. r < rules_size s \<and> \<not> is_executed (rules s r)}"
  have le: "card (?E s') \<le> card (?E s)" "card (?X s') \<le> card (?X s)"
    using frameD(1,3,5)[OF assms(1)] by (auto intro!: card_mono)
  have sub: "?E s' \<subseteq> ?E s" "?X s' \<subseteq> ?X s" using frameD(1,3,5)[OF assms(1)] by auto
  have "?E s' \<noteq> ?E s \<or> ?X s' \<noteq> ?X s" using assms(2,3) by blast
  then have "card (?E s') < card (?E s) \<or> card (?X s') < card (?X s)"
    using sub psubset_card_mono[of "?E s" "?E s'"] psubset_card_mono[of "?X s" "?X s'"] by auto
  then show ?thesis using le unfolding work_def by auto
qed

section \<open>Small steps keep the invariant\<close>

lemma rule_ok_simps:
  assumes "rule_ok a"
  shows "is_executed a \<Longrightarrow> is_queued a" "is_queued a \<Longrightarrow> is_executing a"
    "is_under_consideration a \<Longrightarrow> is_executing a" "\<not> is_executing a \<Longrightarrow> wait_remain_cnt a = 0"
    "is_executing a \<Longrightarrow> \<not> is_under_consideration a \<Longrightarrow> has_dep a \<Longrightarrow> waitloc a \<noteq> None"
    "deps_remain_cnt a = 0 \<Longrightarrow> deps_remain a d = None"
    "finite (dom (deps_remain a))"
proof -
  show "is_executed a \<Longrightarrow> is_queued a" "is_queued a \<Longrightarrow> is_executing a"
    "is_under_consideration a \<Longrightarrow> is_executing a" "\<not> is_executing a \<Longrightarrow> wait_remain_cnt a = 0"
    "is_executing a \<Longrightarrow> \<not> is_under_consideration a \<Longrightarrow> has_dep a \<Longrightarrow> waitloc a \<noteq> None"
    "finite (dom (deps_remain a))"
    using assms unfolding rule_ok_def by blast+
  have "finite (dom (deps_remain a))" "deps_remain_cnt a = card (dom (deps_remain a))"
    using assms by (simp_all add: rule_ok_def)
  then show "deps_remain_cnt a = 0 \<Longrightarrow> deps_remain a d = None" by auto
qed

text \<open>An update of one rule that keeps its flags and its part of the graph, and drops a remaining
  dependency only when that is executed, keeps the invariant.\<close>

lemma inv_upd:
  assumes inv: "sched_inv R s" and ok: "rule_ok (f (rules s r))"
    and same: "is_executed (f (rules s r)) = is_executed (rules s r)"
      "is_queued (f (rules s r)) = is_queued (rules s r)" "remain (f (rules s r)) = remain (rules s r)"
      "deplist (f (rules s r)) = deplist (rules s r)"
    and cmd: "is_queued (rules s r) \<Longrightarrow> cmd (f (rules s r)) = cmd (rules s r)"
    and rng: "is_executing (f (rules s r)) \<Longrightarrow> is_executing (rules s r) \<or> r < rules_size s"
    and drop: "\<And>d. deps_remain (f (rules s r)) d = None \<Longrightarrow>
      deps_remain (rules s r) d = None \<or> is_executed (rules s d)"
  shows "sched_inv R (upd_rule r f s)"
proof -
  have ids: "dep_ids (upd_rule r f s) x = dep_ids s x" for x
    using same(4) by (simp add: dep_ids_def)
  have X: "is_executed (rules (upd_rule r f s) x) = is_executed (rules s x)"
    and Q: "is_queued (rules (upd_rule r f s) x) = is_queued (rules s x)"
    and K: "remain (rules (upd_rule r f s) x) = remain (rules s x)" for x
    using same by simp_all
  have "rule_ok (rules (upd_rule r f s) x)" for x
    using inv ok by (simp add: sched_inv_def)
  moreover have "deps_ok (upd_rule r f s)"
  proof -
    have "(\<not> is_executed (rules s d) \<longrightarrow> deps_remain (rules (upd_rule r f s) x) d \<noteq> None) \<and>
        (is_queued (rules s x) \<longrightarrow> is_executed (rules s d))" if "d \<in> dep_ids s x" for x d
    proof -
      have "(\<not> is_executed (rules s d) \<longrightarrow> deps_remain (rules s x) d \<noteq> None) \<and>
          (is_queued (rules s x) \<longrightarrow> is_executed (rules s d))"
        using inv that by (simp add: sched_inv_def deps_ok_def)
      then show ?thesis using drop[of d]
        by (cases "x = r"; cases "deps_remain (f (rules s r)) d") auto
    qed
    then show ?thesis unfolding deps_ok_def ids X Q by blast
  qed
  moreover have "queue_ok R (upd_rule r f s)"
  proof -
    have q: "queue_ok R s" using inv by (simp add: sched_inv_def)
    then have "cmd (rules (upd_rule r f s) x) \<noteq> []" if "x \<in> set (ruleids_to_run s)" for x
    proof -
      have "cmd (rules s x) \<noteq> []" "is_queued (rules s x)" using q that by (auto simp: queue_ok_def)
      then show ?thesis using cmd by (cases "x = r") simp_all
    qed
    then show ?thesis using q unfolding queue_ok_def X Q by simp
  qed
  moreover have "remain_ok (upd_rule r f s)"
    using inv unfolding sched_inv_def remain_ok_def X K by simp
  moreover have "is_executing (rules (upd_rule r f s) x) \<longrightarrow> x < rules_size (upd_rule r f s)" for x
    using inv rng by (cases "x = r") (auto simp: sched_inv_def)
  ultimately show ?thesis by (simp add: sched_inv_def)
qed

lemma inv_world [simp]: "sched_inv R (s\<lparr> world := w \<rparr>) = sched_inv R s"
  by (simp add: sched_inv_def deps_ok_def dep_ids_def queue_ok_def remain_ok_def)

lemma graph_ok_world [simp]: "graph_ok (s\<lparr> world := w \<rparr>) = graph_ok s"
  by (simp add: graph_ok_def dep_ids_def back_deps_def)

lemma work_world [simp]: "work (s\<lparr> world := w \<rparr>) = work s"
  by (simp add: work_def)

lemma sched_invD:
  assumes "sched_inv R s"
  shows "rule_ok (rules s r)"
    "d \<in> dep_ids s r \<Longrightarrow> \<not> is_executed (rules s d) \<Longrightarrow> deps_remain (rules s r) d \<noteq> None"
    "d \<in> dep_ids s r \<Longrightarrow> is_queued (rules s r) \<Longrightarrow> is_executed (rules s d)"
  using assms by (auto simp: sched_inv_def deps_ok_def)

lemma rule_ok_erase:
  assumes "rule_ok a"
  shows "outcome F (\<lambda>b. rule_ok b \<and> rule_le a b \<and> is_executed b = is_executed a \<and>
     is_queued b = is_queued a \<and> remain b = remain a \<and> is_executing b = is_executing a \<and>
     waitloc b = waitloc a \<and> deps_remain b = (deps_remain a)(d := None)) (deps_remain_erase d a)"
proof (cases "deps_remain a d")
  case None
  then have "(deps_remain a)(d := None) = deps_remain a" by (simp add: fun_upd_idem)
  then show ?thesis using None assms by (simp add: deps_remain_erase_def)
next
  case (Some w)
  let ?D = "dom (deps_remain a)" and ?D' = "dom ((deps_remain a)(d := None))"
  have fin: "finite ?D" and d: "d \<in> ?D" and wait: "wait_remain_cnt a = (\<Sum>x \<in> ?D. the (deps_remain a x))"
    and cnt: "deps_remain_cnt a = card ?D"
    using assms Some by (auto simp: rule_ok_def wait_sum_def)
  have D': "?D' = ?D - {d}" by auto
  have sum: "(\<Sum>x \<in> ?D. the (deps_remain a x)) = w + (\<Sum>x \<in> ?D - {d}. the (deps_remain a x))"
    using fin d Some by (simp add: sum.remove)
  have sum': "(\<Sum>x \<in> ?D - {d}. the (((deps_remain a)(d := None)) x)) = (\<Sum>x \<in> ?D - {d}. the (deps_remain a x))"
    by (rule sum.cong) auto
  show ?thesis
    using assms Some wait sum sum' cnt fin d
    by (simp add: deps_remain_erase_def rule_ok_def wait_sum_def D' rule_le_def mono_le_def has_dep_def)
qed

lemma rule_ok_forwait:
  assumes "rule_ok a" "deps_remain a d \<noteq> None" "is_executing a"
  shows "outcome F (\<lambda>b. rule_ok (b\<lparr> wait_remain_cnt := Suc (wait_remain_cnt b) \<rparr>) \<and>
     mono_le a b \<and> is_executed b = is_executed a \<and> is_queued b = is_queued a \<and> remain b = remain a \<and>
     is_executing b = is_executing a \<and> waitloc b = waitloc a \<and>
     is_under_consideration b = is_under_consideration a \<and>
     (\<forall>x. deps_remain b x = None \<longleftrightarrow> deps_remain a x = None)) (deps_remain_forwait d a)"
proof -
  obtain w where w: "deps_remain a d = Some w" using assms by blast
  let ?D = "dom (deps_remain a)"
  have fin: "finite ?D" and d: "d \<in> ?D" and wait: "wait_remain_cnt a = (\<Sum>x \<in> ?D. the (deps_remain a x))"
    and cnt: "deps_remain_cnt a = card ?D"
    using assms w by (auto simp: rule_ok_def wait_sum_def)
  have D': "dom ((deps_remain a)(d := Some (Suc w))) = ?D" using d by auto
  have "(\<Sum>x \<in> ?D - {d}. the (((deps_remain a)(d := Some (Suc w))) x)) = (\<Sum>x \<in> ?D - {d}. the (deps_remain a x))"
    by (rule sum.cong) auto
  then have "(\<Sum>x \<in> ?D. the (((deps_remain a)(d := Some (Suc w))) x)) = Suc (\<Sum>x \<in> ?D. the (deps_remain a x))"
    using fin d w by (simp add: sum.remove)
  then show ?thesis
    using assms w wait cnt fin D'
    by (simp add: deps_remain_forwait_def rule_ok_def wait_sum_def mono_le_def has_dep_def)
qed

lemma outcome_upd_rule_res:
  "outcome F P (f (rules s r)) \<Longrightarrow> (\<And>b. P b \<Longrightarrow> Q (upd_rule r (\<lambda>_. b) s)) \<Longrightarrow>
   outcome F Q (upd_rule_res r f s)"
  unfolding upd_rule_res_def by (cases "f (rules s r)") auto

lemma upd_rule_twice: "upd_rule r g (upd_rule r f s) = upd_rule r (\<lambda>a. g (f a)) s"
  by (simp add: upd_rule_def)

lemma erase_ok:
  assumes "sched_inv R s" "is_executed (rules s d)"
  shows "outcome F (\<lambda>s'. sched_inv R s' \<and> frame V s s' \<and>
     is_executed (rules s' r) = is_executed (rules s r) \<and> is_queued (rules s' r) = is_queued (rules s r) \<and>
     is_executing (rules s' r) = is_executing (rules s r) \<and> waitloc (rules s' r) = waitloc (rules s r) \<and>
     is_under_consideration (rules s' r) = is_under_consideration (rules s r))
     (upd_rule_res r (deps_remain_erase d) s)"
proof (rule outcome_upd_rule_res, rule rule_ok_erase, rule sched_invD(1)[OF assms(1)])
  fix b
  assume b: "rule_ok b \<and> rule_le (rules s r) b \<and> is_executed b = is_executed (rules s r) \<and>
     is_queued b = is_queued (rules s r) \<and> remain b = remain (rules s r) \<and>
     is_executing b = is_executing (rules s r) \<and> waitloc b = waitloc (rules s r) \<and>
     deps_remain b = (deps_remain (rules s r))(d := None)"
  then have "deplist b = deplist (rules s r)" "is_queued (rules s r) \<Longrightarrow> cmd b = cmd (rules s r)"
    by (simp_all add: rule_le_def mono_le_def)
  then have "sched_inv R (upd_rule r (\<lambda>_. b) s)"
    using b assms(2) by (intro inv_upd[OF assms(1)]) (auto split: if_splits)
  moreover have "frame V s (upd_rule r (\<lambda>_. b) s)" using b by (intro frame_upd_le) simp
  ultimately show "sched_inv R (upd_rule r (\<lambda>_. b) s) \<and> frame V s (upd_rule r (\<lambda>_. b) s) \<and>
      is_executed (rules (upd_rule r (\<lambda>_. b) s) r) = is_executed (rules s r) \<and>
      is_queued (rules (upd_rule r (\<lambda>_. b) s) r) = is_queued (rules s r) \<and>
      is_executing (rules (upd_rule r (\<lambda>_. b) s) r) = is_executing (rules s r) \<and>
      waitloc (rules (upd_rule r (\<lambda>_. b) s) r) = waitloc (rules s r) \<and>
      is_under_consideration (rules (upd_rule r (\<lambda>_. b) s) r) = is_under_consideration (rules s r)"
    using b by (simp add: rule_le_def)
qed

text \<open>What the loops keep of the rule they work for.\<close>

definition same_flags :: "rule \<Rightarrow> rule \<Rightarrow> bool" where
  "same_flags a b = (is_executed b = is_executed a \<and> is_queued b = is_queued a \<and>
     is_executing b = is_executing a \<and> is_under_consideration b = is_under_consideration a \<and>
     (waitloc a \<noteq> None \<longrightarrow> waitloc b \<noteq> None))"

lemma same_flags_refl [simp]: "same_flags a a"
  by (simp add: same_flags_def)

lemma same_flags_trans: "same_flags a b \<Longrightarrow> same_flags b c \<Longrightarrow> same_flags a c"
  by (simp add: same_flags_def)

lemma same_flags_protected:
  "frame V s s' \<Longrightarrow> is_under_consideration (rules s x) \<Longrightarrow> x \<notin> V \<Longrightarrow> same_flags (rules s x) (rules s' x)"
  by (simp add: same_flags_def frame_protected)

lemma forwait_ok:
  assumes "sched_inv R s" "is_executing (rules s r)" "d \<in> dep_ids s r" "\<not> is_executed (rules s d)"
  shows "outcome F (\<lambda>s'. sched_inv R (upd_rule r (wait_remain_cnt_update Suc) s') \<and>
     frame {r} s (upd_rule r (wait_remain_cnt_update Suc) s') \<and>
     same_flags (rules s r) (rules (upd_rule r (wait_remain_cnt_update Suc) s') r))
     (upd_rule_res r (deps_remain_forwait d) s)"
proof (rule outcome_upd_rule_res, rule rule_ok_forwait, rule sched_invD(1)[OF assms(1)],
    rule sched_invD(2)[OF assms(1,3,4)], rule assms(2))
  fix b
  assume b: "rule_ok (b\<lparr>wait_remain_cnt := Suc (wait_remain_cnt b)\<rparr>) \<and> mono_le (rules s r) b \<and>
     is_executed b = is_executed (rules s r) \<and> is_queued b = is_queued (rules s r) \<and>
     remain b = remain (rules s r) \<and> is_executing b = is_executing (rules s r) \<and>
     waitloc b = waitloc (rules s r) \<and>
     is_under_consideration b = is_under_consideration (rules s r) \<and>
     (\<forall>x. (deps_remain b x = None) = (deps_remain (rules s r) x = None))"
  have eq: "upd_rule r (wait_remain_cnt_update Suc) (upd_rule r (\<lambda>_. b) s) =
      upd_rule r (\<lambda>_. b\<lparr>wait_remain_cnt := Suc (wait_remain_cnt b)\<rparr>) s"
    by (cases b) (simp add: upd_rule_twice)
  have "mono_le (rules s r) (b\<lparr>wait_remain_cnt := Suc (wait_remain_cnt b)\<rparr>)"
    using b by (simp add: mono_le_def)
  then show "sched_inv R (upd_rule r (wait_remain_cnt_update Suc) (upd_rule r (\<lambda>_. b) s)) \<and>
      frame {r} s (upd_rule r (wait_remain_cnt_update Suc) (upd_rule r (\<lambda>_. b) s)) \<and>
      same_flags (rules s r) (rules (upd_rule r (wait_remain_cnt_update Suc) (upd_rule r (\<lambda>_. b) s)) r)"
    unfolding eq using b
    by (intro conjI inv_upd[OF assms(1)] frame_upd) (auto simp: mono_le_def same_flags_def)
qed

lemma waitloc_ok:
  assumes "sched_inv R s" "is_under_consideration (rules s r)"
  shows "sched_inv R (upd_rule r (waitloc_update (\<lambda>_. Some i)) s)"
    "frame {r} s (upd_rule r (waitloc_update (\<lambda>_. Some i)) s)"
    "same_flags (rules s r) (rules (upd_rule r (waitloc_update (\<lambda>_. Some i)) s) r)"
proof -
  have "rule_ok (rules s r)" by (rule sched_invD(1)[OF assms(1)])
  then have "rule_ok ((rules s r)\<lparr>waitloc := Some i\<rparr>)" 
    using rule_ok_simps(3)[OF \<open>rule_ok (rules s r)\<close> assms(2)] by (simp add: rule_ok_def has_dep_def)
  then show "sched_inv R (upd_rule r (waitloc_update (\<lambda>_. Some i)) s)"
    by (intro inv_upd[OF assms(1)]) auto
  show "frame {r} s (upd_rule r (waitloc_update (\<lambda>_. Some i)) s)"
    by (intro frame_upd) (simp add: mono_le_def)
  show "same_flags (rules s r) (rules (upd_rule r (waitloc_update (\<lambda>_. Some i)) s) r)"
    by (simp add: same_flags_def)
qed

section \<open>The loops keep the invariant\<close>

definition rec_ok :: "cfail set \<Rightarrow> nat set \<Rightarrow> nat
    \<Rightarrow> (nat \<Rightarrow> 'w sched \<Rightarrow> (bool \<times> 'w sched) res) \<Rightarrow> bool" where
  "rec_ok F R m rec = (\<forall>d s. d < rules_size s \<longrightarrow> graph_ok s \<longrightarrow> sched_inv R s \<longrightarrow> work s \<le> m \<longrightarrow>
     outcome F (\<lambda>(b, s'). sched_inv R s' \<and> frame {} s s') (rec d s))"

text \<open>The state in which a loop runs for the rule \<open>r\<close>.\<close>

definition in_loop :: "nat set \<Rightarrow> nat \<Rightarrow> nat \<Rightarrow> 'w sched \<Rightarrow> bool" where
  "in_loop R m r s = (sched_inv R s \<and> graph_ok s \<and> work s \<le> m \<and> r < rules_size s \<and>
     is_under_consideration (rules s r))"

lemma in_loop_executing: "in_loop R m r s \<Longrightarrow> is_executing (rules s r)"
  unfolding in_loop_def using rule_ok_simps(3) sched_invD(1) by blast

lemma in_loop_step:
  assumes "in_loop R m r s" "sched_inv R s'" "frame {r} s s'" "same_flags (rules s r) (rules s' r)"
  shows "in_loop R m r s'"
proof -
  have "graph_ok s'" using frame_graph_ok[OF assms(3)] assms(1) by (simp add: in_loop_def)
  moreover have "work s' \<le> m" using frame_work[OF assms(3)] assms(1) by (simp add: in_loop_def)
  moreover have "r < rules_size s'" using frameD(1)[OF assms(3)] assms(1) by (simp add: in_loop_def)
  moreover have "is_under_consideration (rules s' r)"
    using assms(1,4) by (simp add: in_loop_def same_flags_def)
  ultimately show ?thesis using assms(2) by (simp add: in_loop_def)
qed

text \<open>One dependency with a rule: the recursive call, then what the loop does with the outcome.\<close>

lemma rec_step:
  assumes rec: "rec_ok F R m rec" and s: "in_loop R m r s" and d: "d \<in> dep_ids s r"
  shows "outcome F (\<lambda>(b, s'). in_loop R m r s' \<and> frame {r} s s' \<and> same_flags (rules s r) (rules s' r) \<and>
      d \<in> dep_ids s' r \<and> wait_remain_cnt (rules s' r) \<le> wait_remain_cnt (rules s r)) (rec d s)"
proof -
  have "d < rules_size s" using s d unfolding in_loop_def graph_ok_def by blast
  then have "outcome F (\<lambda>(b, s'). sched_inv R s' \<and> frame {} s s') (rec d s)"
    using rec s by (simp add: rec_ok_def in_loop_def)
  then show ?thesis
  proof (rule outcome_mono, clarify)
    fix b s'
    assume inv: "sched_inv R s'" and f: "frame {} s s'"
    have u: "is_under_consideration (rules s r)" using s by (simp add: in_loop_def)
    have f': "frame {r} s s'" using f by (rule frame_mono) simp
    have fl: "same_flags (rules s r) (rules s' r)" using same_flags_protected[OF f u] by simp
    show "in_loop R m r s' \<and> frame {r} s s' \<and> same_flags (rules s r) (rules s' r) \<and> d \<in> dep_ids s' r \<and>
        wait_remain_cnt (rules s' r) \<le> wait_remain_cnt (rules s r)"
      using in_loop_step[OF s inv f' fl] f' fl d frameD(9)[OF f'] frame_protected(5)[OF f u] by simp
  qed
qed

lemma forwait_step:
  assumes "in_loop R m r s" "d \<in> dep_ids s r" "\<not> is_executed (rules s d)"
  shows "outcome F (\<lambda>s'. in_loop R m r (upd_rule r (wait_remain_cnt_update Suc) s') \<and>
     frame {r} s (upd_rule r (wait_remain_cnt_update Suc) s') \<and>
     same_flags (rules s r) (rules (upd_rule r (wait_remain_cnt_update Suc) s') r))
     (upd_rule_res r (deps_remain_forwait d) s)"
proof (rule outcome_mono[OF forwait_ok[OF _ in_loop_executing[OF assms(1)] assms(2,3), of R]])
  show "sched_inv R s" using assms(1) by (simp add: in_loop_def)
qed (use in_loop_step[OF assms(1)] in auto)

lemma waitloc_step:
  assumes "in_loop R m r s"
  shows "in_loop R m r (upd_rule r (waitloc_update (\<lambda>_. Some i)) s)"
    "frame {r} s (upd_rule r (waitloc_update (\<lambda>_. Some i)) s)"
    "same_flags (rules s r) (rules (upd_rule r (waitloc_update (\<lambda>_. Some i)) s) r)"
proof -
  have "sched_inv R s" "is_under_consideration (rules s r)" using assms by (simp_all add: in_loop_def)
  note w = waitloc_ok[OF this]
  show "in_loop R m r (upd_rule r (waitloc_update (\<lambda>_. Some i)) s)" by (rule in_loop_step[OF assms w])
  show "frame {r} s (upd_rule r (waitloc_update (\<lambda>_. Some i)) s)" by (rule w(2))
  show "same_flags (rules s r) (rules (upd_rule r (waitloc_update (\<lambda>_. Some i)) s) r)" by (rule w(3))
qed

lemma in_loop_world [simp]: "in_loop R m r (s\<lparr>world := w\<rparr>) = in_loop R m r s"
  by (simp add: in_loop_def)

text \<open>All dependencies in the list \<open>es\<close> that have a rule are executed.\<close>

definition done_deps :: "('a) base_scheme \<Rightarrow> (nat \<times> stirdep) list \<Rightarrow> bool" where
  "done_deps s es = (\<forall>(i, e) \<in> set es. \<not> is_dupe e \<longrightarrow>
     (\<forall>d. stirdep_ruleid (st_ruleid s) e = Some d \<longrightarrow> is_executed (rules s d)))"

lemma done_deps_Cons:
  "done_deps s ((i, e) # es) \<longleftrightarrow>
     (\<not> is_dupe e \<longrightarrow> (\<forall>d. stirdep_ruleid (st_ruleid s) e = Some d \<longrightarrow> is_executed (rules s d))) \<and>
     done_deps s es"
  by (simp add: done_deps_def)

lemma done_deps_Nil [simp]: "done_deps s []"
  by (simp add: done_deps_def)

definition loop_post :: "nat set \<Rightarrow> nat \<Rightarrow> nat \<Rightarrow> 'w sched \<Rightarrow> 'w sched \<Rightarrow> bool" where
  "loop_post R m r s s' = (in_loop R m r s' \<and> frame {r} s s' \<and> same_flags (rules s r) (rules s' r))"

lemma loop_post_refl: "in_loop R m r s \<Longrightarrow> loop_post R m r s s"
  by (simp add: loop_post_def)

lemma loop_post_trans: "loop_post R m r s s' \<Longrightarrow> loop_post R m r s' s'' \<Longrightarrow> loop_post R m r s s''"
  unfolding loop_post_def using frame_trans same_flags_trans by blast

lemma loop_post_in_loop: "loop_post R m r s s' \<Longrightarrow> in_loop R m r s'"
  by (simp add: loop_post_def)

lemma loop_post_waitloc:
  "in_loop R m r s \<Longrightarrow> loop_post R m r s (upd_rule r (waitloc_update (\<lambda>_. Some i)) s)"
  unfolding loop_post_def using waitloc_step by blast

lemma loop_post_world: "in_loop R m r s \<Longrightarrow> loop_post R m r s (s\<lparr>world := w\<rparr>)"
  by (simp add: loop_post_def)

lemma loop_rec:
  assumes "rec_ok F R m rec" "in_loop R m r s" "d \<in> dep_ids s r"
  shows "outcome F (\<lambda>(b, s'). loop_post R m r s s' \<and> d \<in> dep_ids s' r \<and>
    wait_remain_cnt (rules s' r) \<le> wait_remain_cnt (rules s r)) (rec d s)"
  by (rule outcome_mono[OF rec_step[OF assms]]) (auto simp: loop_post_def)

lemma loop_forwait:
  assumes "in_loop R m r s" "d \<in> dep_ids s r" "\<not> is_executed (rules s d)"
  shows "outcome F (\<lambda>s'. loop_post R m r s (upd_rule r (wait_remain_cnt_update Suc) s'))
     (upd_rule_res r (deps_remain_forwait d) s)"
  by (rule outcome_mono[OF forwait_step[OF assms]]) (auto simp: loop_post_def)

lemma loop_post_deps:
  "loop_post R m r s s' \<Longrightarrow> st_ruleid s' = st_ruleid s \<and> deplist (rules s' x) = deplist (rules s x) \<and>
     rules_size s' = rules_size s"
  unfolding loop_post_def using frameD(1,2,6) by blast

lemma loop_post_executed:
  "loop_post R m r s s' \<Longrightarrow> is_executed (rules s d) \<Longrightarrow> is_executed (rules s' d)"
  unfolding loop_post_def using frameD(3) by blast

lemma loop_dep_id:
  "e \<in> set (deplist (rules s r)) \<Longrightarrow> \<not> is_dupe e \<Longrightarrow> stirdep_ruleid (st_ruleid s) e = Some d
    \<Longrightarrow> d \<in> dep_ids s r"
  by (auto simp: dep_ids_def)

text \<open>One dependency with a rule, for both loops.\<close>

lemma dep_step:
  assumes "rec_ok F R m rec" "in_loop R m r s" "d \<in> dep_ids s r"
    and executed: "\<And>b s2. loop_post R m r s s2 \<Longrightarrow> is_executed (rules s2 d) \<Longrightarrow>
      wait_remain_cnt (rules s2 r) \<le> wait_remain_cnt (rules s r) \<Longrightarrow> outcome F Q (k1 b s2)"
    and waiting: "\<And>b s2. loop_post R m r s s2 \<Longrightarrow> outcome F Q (k2 b s2)"
  shows "outcome F Q (bind_res (rec d s) (\<lambda>(b, s).
      if \<not> is_executed (rules s d) then
        bind_res (upd_rule_res r (deps_remain_forwait d) s) (\<lambda>s.
          k2 b (upd_rule r (wait_remain_cnt_update Suc) s))
      else k1 b s))"
proof (rule outcome_bind[OF loop_rec[OF assms(1-3)]], clarify)
  fix b s2
  assume l2: "loop_post R m r s s2" and d2: "d \<in> dep_ids s2 r"
    and w2: "wait_remain_cnt (rules s2 r) \<le> wait_remain_cnt (rules s r)"
  show "outcome F Q (if \<not> is_executed (rules s2 d) then
        bind_res (upd_rule_res r (deps_remain_forwait d) s2) (\<lambda>s.
          k2 b (upd_rule r (wait_remain_cnt_update Suc) s)) else k1 b s2)"
  proof (cases "is_executed (rules s2 d)")
    case True
    then show ?thesis using executed[OF l2 True w2] by simp
  next
    case nx: False
    have "outcome F (\<lambda>s'. loop_post R m r s2 (upd_rule r (wait_remain_cnt_update Suc) s'))
        (upd_rule_res r (deps_remain_forwait d) s2)"
      by (rule loop_forwait[OF loop_post_in_loop[OF l2] d2 nx])
    then show ?thesis
      unfolding if_P[OF nx] by (rule outcome_bind) (rule waiting, rule loop_post_trans[OF l2])
  qed
qed

text \<open>
  The loop of \<open>consider\<close>: when it ends with \<open>toexecute\<close> unset, no wait is left and every dependency
  with a rule is executed.
\<close>

definition consider_post :: "nat set \<Rightarrow> nat \<Rightarrow> nat \<Rightarrow> (nat \<times> stirdep) list \<Rightarrow> bool \<Rightarrow> 'w sched
    \<Rightarrow> bool \<times> bool \<times> 'w sched \<Rightarrow> bool" where
  "consider_post R m r es te s = (\<lambda>(te', _, s'). loop_post R m r s s' \<and>
     (\<not> te' \<longrightarrow> \<not> te \<and> wait_remain_cnt (rules s' r) = 0 \<and> done_deps s' es) \<and>
     ((\<exists>(i, e) \<in> set es. \<not> is_dupe e) \<longrightarrow> waitloc (rules s' r) \<noteq> None))"

definition consider_pre :: "nat set \<Rightarrow> nat \<Rightarrow> nat \<Rightarrow> (nat \<times> stirdep) list \<Rightarrow> bool \<Rightarrow> 'w sched \<Rightarrow> bool" where
  "consider_pre R m r es te s = (in_loop R m r s \<and> (\<not> te \<longrightarrow> wait_remain_cnt (rules s r) = 0) \<and>
     (\<forall>(i, e) \<in> set es. e \<in> set (deplist (rules s r))))"

lemma consider_pre_step:
  assumes "consider_pre R m r (ie # es) te s" "loop_post R m r s s2"
    "\<not> te2 \<Longrightarrow> wait_remain_cnt (rules s2 r) = 0"
  shows "consider_pre R m r es te2 s2"
  using assms loop_post_in_loop[OF assms(2)] loop_post_deps[OF assms(2)]
  by (auto simp: consider_pre_def)

lemma consider_post_step:
  assumes l: "loop_post R m r s s2" and wl: "waitloc (rules s2 r) \<noteq> None" and te: "te \<Longrightarrow> te2"
    and x: "\<not> te2 \<Longrightarrow> \<forall>d. stirdep_ruleid (st_ruleid s) e = Some d \<longrightarrow> is_executed (rules s2 d)"
    and post: "consider_post R m r es te2 s2 res"
  shows "consider_post R m r ((i, e) # es) te s res"
proof -
  obtain te' ex' s' where res: "res = (te', ex', s')" by (cases res)
  have l2: "loop_post R m r s2 s'" using post res by (simp add: consider_post_def)
  have l3: "loop_post R m r s s'" by (rule loop_post_trans[OF l l2])
  have "waitloc (rules s' r) \<noteq> None" using l2 wl by (simp add: loop_post_def same_flags_def)
  moreover have "done_deps s' ((i, e) # es)" if "\<not> te'"
  proof -
    have n: "\<not> te2" "done_deps s' es" using post res that by (simp_all add: consider_post_def)
    then show ?thesis
      using x loop_post_executed[OF l2] loop_post_deps[OF l3] by (simp add: done_deps_Cons)
  qed
  ultimately show ?thesis using post res te l3 by (auto simp: consider_post_def)
qed

lemma consider_deps_ok:
  assumes rec: "rec_ok F R m rec" and F: "range Exited \<subseteq> F"
  shows "consider_pre R m r es te s \<Longrightarrow>
    outcome F (consider_post R m r es te s) (consider_deps ops rec r es te ex s)"
proof (induction es arbitrary: te ex s)
  case Nil
  then show ?case by (simp add: consider_pre_def consider_post_def loop_post_refl)
next
  case (Cons ie es)
  obtain i e where ie: "ie = (i, e)" by (cases ie)
  note pre = Cons.prems[unfolded ie]
  have in_s: "in_loop R m r s" and es: "e \<in> set (deplist (rules s r))"
    and w: "\<not> te \<Longrightarrow> wait_remain_cnt (rules s r) = 0"
    using pre by (auto simp: consider_pre_def)
  let ?s1 = "upd_rule r (waitloc_update (\<lambda>_. Some i)) s"
  have s1: "loop_post R m r s ?s1" by (rule loop_post_waitloc[OF in_s])
  have in1: "in_loop R m r ?s1" by (rule loop_post_in_loop[OF s1])
  text \<open>The rest of the loop, from a later state.\<close>
  have rest: "outcome F (consider_post R m r ((i, e) # es) te s) (consider_deps ops rec r es te2 ex2 s2)"
    if l: "loop_post R m r ?s1 s2" and "te \<Longrightarrow> te2" and "\<not> te2 \<Longrightarrow> wait_remain_cnt (rules s2 r) = 0"
      and "\<not> te2 \<Longrightarrow> \<forall>d. stirdep_ruleid (st_ruleid s) e = Some d \<longrightarrow> is_executed (rules s2 d)"
    for te2 ex2 s2
  proof -
    have l1: "loop_post R m r s s2" by (rule loop_post_trans[OF s1 l])
    have "waitloc (rules s2 r) \<noteq> None" using l by (simp add: loop_post_def same_flags_def)
    then show ?thesis
      using Cons.IH[OF consider_pre_step[OF pre l1]] consider_post_step[OF l1] that
      by (blast intro: outcome_mono)
  qed
  consider "is_dupe e" | "\<not> is_dupe e" "wait_remain_cnt (rules ?s1 r) > 0 \<and> is_wait e"
    | "\<not> is_dupe e" "\<not> (wait_remain_cnt (rules ?s1 r) > 0 \<and> is_wait e)" by blast
  then show ?case
  proof cases
    case 1
    have "consider_post R m r es te s res \<Longrightarrow> consider_post R m r ((i, e) # es) te s res" for res
      using 1 by (auto simp: consider_post_def done_deps_Cons)
    moreover have "outcome F (consider_post R m r es te s) (consider_deps ops rec r es te ex s)"
      by (rule Cons.IH[OF consider_pre_step[OF pre loop_post_refl[OF in_s] w]])
    ultimately have "outcome F (consider_post R m r ((i, e) # es) te s) (consider_deps ops rec r es te ex s)"
      by (blast intro: outcome_mono)
    then show ?thesis using 1 ie by simp
  next
    case 2
    then have te using w by auto
    then show ?thesis using 2 ie s1 by (simp add: Let_def consider_post_def)
  next
    case 3
    show ?thesis
    proof (cases "stirdep_ruleid (st_ruleid ?s1) e")
      case None
      obtain ok w' where ow: "accessible ops (nameidx e) (world s) = (ok, w')" by fastforce
      have "outcome F (consider_post R m r ((i, e) # es) te s) (consider_deps ops rec r es te ex ?s1)"
        "outcome F (consider_post R m r ((i, e) # es) te s)
           (consider_deps ops rec r es te ex (?s1\<lparr>world := w'\<rparr>))"
        using w None by (auto intro!: rest loop_post_refl loop_post_world in1)
      then show ?thesis using ow None 3 ie F by (auto simp: Let_def)
    next
      case (Some d)
      have "d \<in> dep_ids ?s1 r" using es 3(1) Some by (intro loop_dep_id[of e]) simp_all
      then have "outcome F (consider_post R m r ((i, e) # es) te s) (bind_res (rec d ?s1) (\<lambda>(b, s).
          if \<not> is_executed (rules s d) then
            bind_res (upd_rule_res r (deps_remain_forwait d) s) (\<lambda>s.
              consider_deps ops rec r es True (ex \<or> b) (upd_rule r (wait_remain_cnt_update Suc) s))
          else consider_deps ops rec r es te (ex \<or> b) s))"
        using w Some by (intro dep_step[OF rec in1]) (auto intro!: rest)
      then show ?thesis using 3 Some ie s1 by (auto simp: Let_def)
    qed
  qed
qed

text \<open>The loop of \<open>reconsider\<close>.\<close>

lemma reconsider_deps_ok:
  assumes rec: "rec_ok F R m rec" and F: "range Exited \<subseteq> F"
  shows "in_loop R m r s \<Longrightarrow> \<forall>(i, e) \<in> set es. e \<in> set (deplist (rules s r)) \<Longrightarrow>
    outcome F (loop_post R m r s) (reconsider_deps ops rec r es s)"
proof (induction es arbitrary: s)
  case Nil
  then show ?case by (simp add: loop_post_refl)
next
  case (Cons ie es)
  obtain i e where ie: "ie = (i, e)" by (cases ie)
  let ?s1 = "upd_rule r (waitloc_update (\<lambda>_. Some i)) s"
  have s1: "loop_post R m r s ?s1" by (rule loop_post_waitloc[OF Cons.prems(1)])
  have in1: "in_loop R m r ?s1" by (rule loop_post_in_loop[OF s1])
  have rest: "outcome F (loop_post R m r s) (reconsider_deps ops rec r es s2)"
    if l: "loop_post R m r ?s1 s2" for s2
  proof -
    have "outcome F (loop_post R m r s2) (reconsider_deps ops rec r es s2)"
      using Cons.prems(2) loop_post_deps[OF l] by (intro Cons.IH loop_post_in_loop[OF l]) simp
    then show ?thesis
      using loop_post_trans[OF loop_post_trans[OF s1 l]] by (blast intro: outcome_mono)
  qed
  show ?case
  proof (cases "(wait_remain_cnt (rules ?s1 r) > 0 \<and> is_wait e) \<or> is_dupe e")
    case True
    then show ?thesis using ie s1 rest[OF loop_post_refl[OF in1]] by (auto simp: Let_def)
  next
    case 3: False
    show ?thesis
    proof (cases "stirdep_ruleid (st_ruleid ?s1) e")
      case None
      obtain ok w' where ow: "accessible ops (nameidx e) (world s) = (ok, w')" by fastforce
      have "outcome F (loop_post R m r s) (reconsider_deps ops rec r es ?s1)"
        "outcome F (loop_post R m r s) (reconsider_deps ops rec r es (?s1\<lparr>world := w'\<rparr>))"
        by (auto intro!: rest loop_post_refl loop_post_world in1)
      then show ?thesis using ow None 3 ie F by (auto simp: Let_def)
    next
      case (Some d)
      have "d \<in> dep_ids ?s1 r"
        using Cons.prems(2) ie 3 Some by (intro loop_dep_id[of e]) simp_all
      then have "outcome F (loop_post R m r s) (bind_res (rec d ?s1) (\<lambda>(b, s).
          if \<not> is_executed (rules s d) then
            bind_res (upd_rule_res r (deps_remain_forwait d) s) (\<lambda>s.
              reconsider_deps ops rec r es (upd_rule r (wait_remain_cnt_update Suc) s))
          else reconsider_deps ops rec r es s))"
        by (intro dep_step[OF rec in1] rest) auto
      then show ?thesis using 3 Some ie s1 by (auto simp: Let_def)
    qed
  qed
qed

section \<open>Queueing and executing a rule\<close>

lemma rule_ok_payload: "rule_ok (a\<lparr> cmd := c, st_mtim := t \<rparr>) = rule_ok a"
  by (simp add: rule_ok_def has_dep_def)

lemma payload_ok:
  assumes "sched_inv R s" "\<not> is_queued (rules s r)"
  shows "sched_inv R (upd_rule r (\<lambda>x. x\<lparr> cmd := c, st_mtim := t \<rparr>) s)"
    "frame V s (upd_rule r (\<lambda>x. x\<lparr> cmd := c, st_mtim := t \<rparr>) s)"
proof -
  have "rule_ok (rules s r)" by (rule sched_invD(1)[OF assms(1)])
  then have "rule_ok ((rules s r)\<lparr> cmd := c, st_mtim := t \<rparr>)"
    by (simp only: rule_ok_payload)
  then show "sched_inv R (upd_rule r (\<lambda>x. x\<lparr> cmd := c, st_mtim := t \<rparr>) s)"
    using assms(2) by (intro inv_upd[OF assms(1)]) auto
  show "frame V s (upd_rule r (\<lambda>x. x\<lparr> cmd := c, st_mtim := t \<rparr>) s)"
    using assms(2) by (intro frame_upd_le) (simp add: rule_le_def mono_le_def)
qed

lemma queue_ok_insert:
  assumes inv: "sched_inv R s" and r: "is_executing (rules s r)" "\<not> is_queued (rules s r)"
    and deps: "\<forall>d \<in> dep_ids s r. is_executed (rules s d)"
  shows "sched_inv (insert r R) (upd_rule r (is_queued_update (\<lambda>_. True)) s)" "r \<notin> R"
    "r \<notin> set (ruleids_to_run s)"
proof -
  let ?s = "upd_rule r (is_queued_update (\<lambda>_. True)) s"
  have ok: "rule_ok (rules s x)" for x by (rule sched_invD(1)[OF inv])
  have nx: "\<not> is_executed (rules s r)" using rule_ok_simps(1)[OF ok] r(2) by blast
  have q: "queue_ok R s" and k: "remain_ok s" using inv by (simp_all add: sched_inv_def)
  show nR: "r \<notin> R" "r \<notin> set (ruleids_to_run s)" using q r(2) by (auto simp: queue_ok_def)
  have "rule_ok ((rules s r)\<lparr>is_queued := True\<rparr>)"
    using ok[of r] r(1) unfolding rule_ok_def has_dep_def by simp
  then have "rule_ok (rules ?s x)" for x using ok by simp
  moreover have "deps_ok ?s"
    unfolding deps_ok_def
  proof (intro allI ballI)
    fix x d
    assume d: "d \<in> dep_ids ?s x"
    have "dep_ids ?s x = dep_ids s x" by (simp add: dep_ids_def)
    then have d: "d \<in> dep_ids s x" using d by simp
    show "(\<not> is_executed (rules ?s d) \<longrightarrow> deps_remain (rules ?s x) d \<noteq> None) \<and>
        (is_queued (rules ?s x) \<longrightarrow> is_executed (rules ?s d))"
      using sched_invD(2,3)[OF inv d] deps d by auto
  qed
  moreover have "queue_ok (insert r R) ?s"
  proof -
    have "{x. is_queued (rules ?s x) \<and> \<not> is_executed (rules ?s x)} =
        insert r {x. is_queued (rules s x) \<and> \<not> is_executed (rules s x)}"
      using nx by auto
    then show ?thesis using q nR unfolding queue_ok_def by auto
  qed
  moreover have "remain_ok ?s"
  proof -
    have "remain (rules ?s x) = remain (rules s x)" "is_executed (rules ?s x) = is_executed (rules s x)" for x
      by simp_all
    then show ?thesis using k unfolding remain_ok_def by simp
  qed
  moreover have "is_executing (rules ?s x) \<longrightarrow> x < rules_size ?s" for x
    using inv by (simp add: sched_inv_def)
  ultimately show "sched_inv (insert r R) ?s" by (simp add: sched_inv_def)
qed

lemma to_run_append:
  assumes "sched_inv (insert r R) s" "r \<notin> R" "cmd (rules s r) \<noteq> []"
  shows "sched_inv R (s\<lparr> ruleids_to_run := ruleids_to_run s @ [r] \<rparr>)"
proof -
  have "queue_ok R (s\<lparr> ruleids_to_run := ruleids_to_run s @ [r] \<rparr>)"
    using assms by (auto simp: sched_inv_def queue_ok_def)
  then show ?thesis
    using assms(1) by (simp add: sched_inv_def deps_ok_def dep_ids_def remain_ok_def)
qed

lemma upd_rule_to_run:
  "upd_rule r f (s\<lparr> ruleids_to_run := x \<rparr>) = (upd_rule r f s)\<lparr> ruleids_to_run := x \<rparr>"
  by (simp add: upd_rule_def)

lemma frame_to_run [simp]: "frame V s (s'\<lparr> ruleids_to_run := x \<rparr>) = frame V s s'"
  by (simp add: frame_def)

lemma ruleremain_rm_ok:
  assumes "sched_inv R s"
  shows "rules (ruleremain_rm r s) = (rules s)(r := (rules s r)\<lparr> remain := False \<rparr>)"
    "rules_remain_list (ruleremain_rm r s) = remove1 r (rules_remain_list s)"
    "rules_size (ruleremain_rm r s) = rules_size s" "st_ruleid (ruleremain_rm r s) = st_ruleid s"
    "ruleids_to_run (ruleremain_rm r s) = ruleids_to_run s"
proof -
  have k: "r \<in> set (rules_remain_list s) \<longleftrightarrow> remain (rules s r)"
    using assms by (simp add: sched_inv_def remain_ok_def)
  have "(rules s r)\<lparr> remain := False \<rparr> = rules s r" if "\<not> remain (rules s r)"
    using that by (cases "rules s r") simp
  then show "rules (ruleremain_rm r s) = (rules s)(r := (rules s r)\<lparr> remain := False \<rparr>)"
    by (auto simp: ruleremain_rm_def)
  show "rules_remain_list (ruleremain_rm r s) = remove1 r (rules_remain_list s)"
    using k by (auto simp: ruleremain_rm_def remove1_idem)
qed (auto simp: ruleremain_rm_def upd_rule_def)

lemma execute_ok:
  fixes s :: "'w sched" and was :: bool
  assumes inv: "sched_inv R s" and r: "r \<in> R"
  defines "s' \<equiv> upd_rule r (\<lambda>x. x\<lparr> is_executed := True, is_actually_executed := was \<rparr>) (ruleremain_rm r s)"
  shows "sched_inv (R - {r}) s'" "frame {r} s s'" "is_executed (rules s' r)"
    "is_under_consideration (rules s' r) = is_under_consideration (rules s r)"
    "back_deps s' r = back_deps s r"
proof -
  note rm = ruleremain_rm_ok[OF inv, of r]
  let ?a = "(rules s r)\<lparr> remain := False, is_executed := True, is_actually_executed := was \<rparr>"
  have rules': "rules s' = (rules s)(r := ?a)" by (simp add: s'_def rm)
  have tab: "st_ruleid s' = st_ruleid s" "rules_size s' = rules_size s"
      "ruleids_to_run s' = ruleids_to_run s"
    by (simp_all add: s'_def rm)
  have rrl: "rules_remain_list s' = remove1 r (rules_remain_list s)" by (simp add: s'_def rm)
  have q: "queue_ok R s" and k: "remain_ok s" using inv by (simp_all add: sched_inv_def)
  have ok: "rule_ok (rules s x)" for x by (rule sched_invD(1)[OF inv])
  have Q: "is_queued (rules s r)" "r \<notin> set (ruleids_to_run s)" using q r by (auto simp: queue_ok_def)
  have ids: "dep_ids s' x = dep_ids s x" for x by (simp add: dep_ids_def rules' tab)
  have "rule_ok ?a" using ok[of r] Q(1) unfolding rule_ok_def has_dep_def by simp
  then have "rule_ok (rules s' x)" for x using ok by (simp add: rules')
  moreover have "deps_ok s'"
    unfolding deps_ok_def ids using sched_invD(2,3)[OF inv] by (auto simp: rules')
  moreover have "queue_ok (R - {r}) s'"
  proof -
    have "{x. is_queued (rules s' x) \<and> \<not> is_executed (rules s' x)} =
        {x. is_queued (rules s x) \<and> \<not> is_executed (rules s x)} - {r}"
      by (auto simp: rules')
    moreover have "cmd (rules s' x) = cmd (rules s x)" for x by (simp add: rules')
    ultimately show ?thesis using q Q(2) unfolding queue_ok_def tab by auto
  qed
  moreover have "remain_ok s'"
    using k unfolding remain_ok_def rrl by (auto simp: rules')
  moreover have "is_executing (rules s' x) \<longrightarrow> x < rules_size s'" for x
    using inv by (simp add: sched_inv_def rules' tab)
  ultimately show "sched_inv (R - {r}) s'" by (simp add: sched_inv_def)
  show "frame {r} s s'" by (auto simp: frame_def rules' tab mono_le_def)
  show "is_executed (rules s' r)"
    "is_under_consideration (rules s' r) = is_under_consideration (rules s r)"
    "back_deps s' r = back_deps s r"
    by (simp_all add: rules' back_deps_def)
qed

section \<open>The four functions keep the invariant and return\<close>

text \<open>The operations on the world fail only with a failure in \<open>F\<close>.\<close>

definition ops_ok :: "cfail set \<Rightarrow> 'w ops \<Rightarrow> bool" where
  "ops_ok F ops = (range Exited \<subseteq> F \<and> (\<forall>r s. outcome F (\<lambda>(queue, c, _). queue \<longrightarrow> c \<noteq> []) (decide ops r s)) \<and>
     (\<forall>r was s. outcome F (\<lambda>_. True) (finish_exec ops r was s)))"

text \<open>What each function promises at fuel \<open>n\<close>; each \<open>work\<close> unit pays for four nested calls.\<close>

definition consider_spec :: "cfail set \<Rightarrow> 'w ops \<Rightarrow> nat \<Rightarrow> bool" where
  "consider_spec F ops n = (\<forall>r s R. r < rules_size s \<longrightarrow> graph_ok s \<longrightarrow> sched_inv R s \<longrightarrow>
     4 * work s + 1 \<le> n \<longrightarrow>
     outcome F (\<lambda>(b, s'). sched_inv R s' \<and> frame {} s s' \<and> is_executing (rules s' r))
       (consider_rule ops n r s))"

definition do_exec_spec :: "cfail set \<Rightarrow> 'w ops \<Rightarrow> nat \<Rightarrow> bool" where
  "do_exec_spec F ops n = (\<forall>r s R. r < rules_size s \<longrightarrow> graph_ok s \<longrightarrow> sched_inv R s \<longrightarrow>
     is_executing (rules s r) \<longrightarrow> \<not> is_queued (rules s r) \<longrightarrow>
     (\<forall>d \<in> dep_ids s r. is_executed (rules s d)) \<longrightarrow> 4 * work s \<le> n \<longrightarrow>
     outcome F (\<lambda>(b, s'). sched_inv R s' \<and> frame {r} s s') (do_exec ops n r s))"

definition mark_executed_spec :: "cfail set \<Rightarrow> 'w ops \<Rightarrow> nat \<Rightarrow> bool" where
  "mark_executed_spec F ops n = (\<forall>r was s R. r < rules_size s \<longrightarrow> graph_ok s \<longrightarrow> sched_inv R s \<longrightarrow>
     r \<in> R \<longrightarrow> 4 * work s - 1 \<le> n \<longrightarrow>
     outcome F (\<lambda>s'. sched_inv (R - {r}) s' \<and> frame {r} s s' \<and> is_executed (rules s' r) \<and>
        is_under_consideration (rules s' r) = is_under_consideration (rules s r))
       (mark_executed ops n r was s))"

definition reconsider_spec :: "cfail set \<Rightarrow> 'w ops \<Rightarrow> nat \<Rightarrow> bool" where
  "reconsider_spec F ops n = (\<forall>r d s R. r < rules_size s \<longrightarrow> graph_ok s \<longrightarrow> sched_inv R s \<longrightarrow>
     is_executed (rules s d) \<longrightarrow> has_dep (rules s r) \<longrightarrow> 4 * work s + 2 \<le> n \<longrightarrow>
     outcome F (\<lambda>s'. sched_inv R s' \<and> frame {} s s') (reconsider ops n r d s))"

lemma work_pos: "r < rules_size s \<Longrightarrow> \<not> is_executed (rules s r) \<Longrightarrow> 0 < work s"
  unfolding work_def by (auto simp: card_gt_0_iff)

lemma back_loop_ok:
  assumes "reconsider_spec F ops n"
  shows "graph_ok s \<Longrightarrow> sched_inv R s \<Longrightarrow> is_executed (rules s d) \<Longrightarrow> 4 * work s + 2 \<le> n \<Longrightarrow>
    \<forall>b \<in> set bs. b < rules_size s \<and> has_dep (rules s b) \<Longrightarrow>
    outcome F (\<lambda>s'. sched_inv R s' \<and> frame {} s s')
      (back_loop (\<lambda>b s. reconsider ops n b d s) bs s)"
proof (induction bs arbitrary: s)
  case (Cons b bs)
  have "outcome F (\<lambda>s'. sched_inv R s' \<and> frame {} s s') (reconsider ops n b d s)"
    using assms Cons.prems by (simp add: reconsider_spec_def)
  then show ?case
    unfolding back_loop.simps
  proof (rule outcome_bind, elim conjE)
    fix s2
    assume i2: "sched_inv R s2" and f2: "frame {} s s2"
    have "outcome F (\<lambda>s'. sched_inv R s' \<and> frame {} s2 s')
        (back_loop (\<lambda>b s. reconsider ops n b d s) bs s2)"
    proof (rule Cons.IH[OF frame_graph_ok[OF f2 Cons.prems(1)] i2])
      show "is_executed (rules s2 d)" by (rule frameD(3)[OF f2 Cons.prems(3)])
      show "4 * work s2 + 2 \<le> n" using frame_work[OF f2] Cons.prems(4) by simp
      show "\<forall>b \<in> set bs. b < rules_size s2 \<and> has_dep (rules s2 b)"
        using Cons.prems(5) frameD(1,8)[OF f2] by simp
    qed
    then show "outcome F (\<lambda>s'. sched_inv R s' \<and> frame {} s s')
        (back_loop (\<lambda>b s. reconsider ops n b d s) bs s2)"
      using frame_trans[OF f2] by (blast intro: outcome_mono)
  qed
qed simp

lemma mark_executed_ok:
  assumes ops: "ops_ok F ops" and rec: "reconsider_spec F ops n"
  shows "mark_executed_spec F ops (Suc n)"
  unfolding mark_executed_spec_def
proof (intro allI impI)
  fix r was and s :: "'a sched" and R
  assume r: "r < rules_size s" and g: "graph_ok s" and inv: "sched_inv R s" and R: "r \<in> R"
    and fuel: "4 * work s - 1 \<le> Suc n"
  define s1 where "s1 = upd_rule r (\<lambda>x. x\<lparr> is_executed := True, is_actually_executed := was \<rparr>)
    (ruleremain_rm r s)"
  note ex = execute_ok[OF inv R, of was, folded s1_def]
  have rx: "\<not> is_executed (rules s r)" "is_queued (rules s r)"
    using inv R by (auto simp: sched_inv_def queue_ok_def)
  have re: "is_executing (rules s r)" using rule_ok_simps(2)[OF sched_invD(1)[OF inv] rx(2)] .
  have "work s1 < work s" using work_less[OF ex(2) r] ex(3) rx(1) by blast
  then have fuel1: "4 * work s1 + 2 \<le> n" using fuel by simp
  have g1: "graph_ok s1" by (rule frame_graph_ok[OF ex(2) g])
  have size1: "rules_size s1 = rules_size s" by (rule frameD(1)[OF ex(2)])
  have bs: "\<forall>b \<in> set (back_deps s1 r). b < rules_size s1 \<and> has_dep (rules s1 b)"
  proof -
    have "r < rules_size s1" using r size1 by simp
    then show ?thesis using g1 unfolding graph_ok_def by blast
  qed
  have "outcome F (\<lambda>_. True) (finish_exec ops r was s1)" using ops by (simp add: ops_ok_def)
  then have "outcome F (\<lambda>s'. sched_inv (R - {r}) s' \<and> frame {} s1 s')
     (bind_res (finish_exec ops r was s1) (\<lambda>w.
        back_loop (\<lambda>b s. reconsider ops n b r s) (back_deps s1 r) (s1\<lparr> world := w \<rparr>)))"
  proof (rule outcome_bind)
    fix w
    have "outcome F (\<lambda>s'. sched_inv (R - {r}) s' \<and> frame {} (s1\<lparr> world := w \<rparr>) s')
        (back_loop (\<lambda>b s. reconsider ops n b r s) (back_deps s1 r) (s1\<lparr> world := w \<rparr>))"
    proof (rule back_loop_ok[OF rec])
      show "\<forall>b \<in> set (back_deps s1 r). b < rules_size (s1\<lparr> world := w \<rparr>) \<and>
          has_dep (rules (s1\<lparr> world := w \<rparr>) b)"
        using bs by simp
    qed (use g1 ex(1,3) fuel1 in simp_all)
    then show "outcome F (\<lambda>s'. sched_inv (R - {r}) s' \<and> frame {} s1 s')
        (back_loop (\<lambda>b s. reconsider ops n b r s) (back_deps s1 r) (s1\<lparr> world := w \<rparr>))"
    proof (rule outcome_mono)
      fix s' assume "sched_inv (R - {r}) s' \<and> frame {} (s1\<lparr> world := w \<rparr>) s'"
      then show "sched_inv (R - {r}) s' \<and> frame {} s1 s'"
        using frame_trans[OF frame_world[of "{}" s1 w]] by blast
    qed
  qed
  then have "outcome F (\<lambda>s'. sched_inv (R - {r}) s' \<and> frame {} s1 s') (mark_executed ops (Suc n) r was s)"
    using rx re by (simp add: Let_def s1_def)
  then show "outcome F (\<lambda>s'. sched_inv (R - {r}) s' \<and> frame {r} s s' \<and> is_executed (rules s' r) \<and>
        is_under_consideration (rules s' r) = is_under_consideration (rules s r))
       (mark_executed ops (Suc n) r was s)"
  proof (rule outcome_mono, elim conjE)
    fix s'
    assume i': "sched_inv (R - {r}) s'" and f': "frame {} s1 s'"
    have "frame {r} s s'" using frame_trans[OF ex(2) frame_mono[OF f']] by simp
    moreover have "is_executed (rules s' r)" by (rule frameD(3)[OF f' ex(3)])
    moreover have "is_under_consideration (rules s' r) = is_under_consideration (rules s r)"
      using frame_under[OF f', of r] ex(4) by simp
    ultimately show "sched_inv (R - {r}) s' \<and> frame {r} s s' \<and> is_executed (rules s' r) \<and>
        is_under_consideration (rules s' r) = is_under_consideration (rules s r)"
      using i' by blast
  qed
qed

lemma do_exec_ok:
  assumes ops: "ops_ok F ops" and mark: "mark_executed_spec F ops n"
  shows "do_exec_spec F ops (Suc n)"
  unfolding do_exec_spec_def
proof (intro allI impI)
  fix r and s :: "'a sched" and R
  assume r: "r < rules_size s" and g: "graph_ok s" and inv: "sched_inv R s"
    and re: "is_executing (rules s r)" "\<not> is_queued (rules s r)"
    and deps: "\<forall>d \<in> dep_ids s r. is_executed (rules s d)" and fuel: "4 * work s \<le> Suc n"
  have "outcome F (\<lambda>(queue, c, _). queue \<longrightarrow> c \<noteq> []) (decide ops r s)" using ops by (simp add: ops_ok_def)
  then have "outcome F (\<lambda>(b, s'). sched_inv R s' \<and> frame {r} s s')
     (bind_res (decide ops r s) (\<lambda>(queue, c, mtim, w).
          let s = upd_rule r (\<lambda>x. x\<lparr> cmd := c, st_mtim := mtim \<rparr>) (s\<lparr> world := w \<rparr>) in
          if queue then
            Inr (False, upd_rule r (is_queued_update (\<lambda>_. True))
                          (s\<lparr> ruleids_to_run := ruleids_to_run s @ [r] \<rparr>))
          else
            bind_res (mark_executed ops n r False (upd_rule r (is_queued_update (\<lambda>_. True)) s))
              (\<lambda>s. Inr (True, s))))"
  proof (rule outcome_bind, clarify)
    fix queue and c :: "string list list" and mtim w
    assume qc: "queue \<longrightarrow> c \<noteq> []"
    let ?s1 = "upd_rule r (\<lambda>x. x\<lparr> cmd := c, st_mtim := mtim \<rparr>) (s\<lparr> world := w \<rparr>)"
    let ?s2 = "upd_rule r (is_queued_update (\<lambda>_. True)) ?s1"
    have i1: "sched_inv R ?s1" and f1: "frame {r} s ?s1"
      using payload_ok[of R "s\<lparr> world := w \<rparr>" r] inv re(2)
      by (simp_all add: frame_trans[OF frame_world[of _ s w]])
    have re1: "is_executing (rules ?s1 r)" "\<not> is_queued (rules ?s1 r)"
        "\<forall>d \<in> dep_ids ?s1 r. is_executed (rules ?s1 d)"
      using re deps frameD(9)[OF f1] frameD(3)[OF f1] by auto
    note q = queue_ok_insert[OF i1 re1]
    have f2: "frame {r} s ?s2"
      by (rule frame_trans[OF f1 frame_upd]) (simp add: mono_le_def)
    have "\<not> is_executed (rules s r)" using rule_ok_simps(1)[OF sched_invD(1)[OF inv]] re(2) by blast
    then have "4 * work ?s2 - 1 \<le> n" using frame_work[OF f2] fuel by simp
    moreover have "r < rules_size ?s2" using r by simp
    ultimately have "outcome F (\<lambda>s'. sched_inv (insert r R - {r}) s' \<and> frame {r} ?s2 s' \<and>
        is_executed (rules s' r) \<and> is_under_consideration (rules s' r) = is_under_consideration (rules ?s2 r))
        (mark_executed ops n r False ?s2)"
      using mark frame_graph_ok[OF f2 g] q(1) unfolding mark_executed_spec_def by blast
    moreover have "insert r R - {r} = R" using q(2) by simp
    ultimately have m: "outcome F (\<lambda>s'. sched_inv R s' \<and> frame {r} s s') (mark_executed ops n r False ?s2)"
      using frame_trans[OF f2] by (elim outcome_mono) simp
    have n: "sched_inv R (?s2\<lparr> ruleids_to_run := ruleids_to_run ?s2 @ [r] \<rparr>)" if queue
      using qc that by (intro to_run_append[OF q(1,2)]) simp
    show "outcome F (\<lambda>(b, s'). sched_inv R s' \<and> frame {r} s s')
       (let s = ?s1 in
          if queue then
            Inr (False, upd_rule r (is_queued_update (\<lambda>_. True))
                          (s\<lparr> ruleids_to_run := ruleids_to_run s @ [r] \<rparr>))
          else
            bind_res (mark_executed ops n r False (upd_rule r (is_queued_update (\<lambda>_. True)) s))
              (\<lambda>s. Inr (True, s)))"
    proof (cases queue)
      case True
      then show ?thesis using n f2 by (simp add: Let_def upd_rule_to_run)
    next
      case False
      have "outcome F (\<lambda>(b, s'). sched_inv R s' \<and> frame {r} s s')
          (bind_res (mark_executed ops n r False ?s2) (\<lambda>s. Inr (True, s)))"
        by (rule outcome_bind[OF m]) simp
      then show ?thesis using False by (simp add: Let_def)
    qed
  qed
  then show "outcome F (\<lambda>(b, s'). sched_inv R s' \<and> frame {r} s s') (do_exec ops (Suc n) r s)"
    using re(2) by simp
qed

text \<open>Clearing \<open>is_under_consideration\<close> at the end of a call.\<close>

lemma clear_ok:
  assumes inv: "sched_inv R s" and wl: "has_dep (rules s r) \<Longrightarrow> is_executing (rules s r) \<Longrightarrow> waitloc (rules s r) \<noteq> None"
  shows "sched_inv R (upd_rule r (is_under_consideration_update (\<lambda>_. False)) s)"
proof -
  have "rule_ok (rules s r)" by (rule sched_invD(1)[OF inv])
  then have "rule_ok ((rules s r)\<lparr> is_under_consideration := False \<rparr>)"
    using wl unfolding rule_ok_def has_dep_def by auto
  then show ?thesis by (intro inv_upd[OF inv]) auto
qed

lemma frame_clear:
  assumes f: "frame {r} s s'" and u: "\<not> is_under_consideration (rules s r)"
  shows "frame {} s (upd_rule r (is_under_consideration_update (\<lambda>_. False)) s')"
  using f u unfolding frame_def by (auto simp: rule_le_def mono_le_def)

lemma frame_set_under:
  "frame {r} s (upd_rule r (\<lambda>x. x\<lparr> is_executing := True, is_under_consideration := True \<rparr>) s)"
  "frame {r} s (upd_rule r (is_under_consideration_update (\<lambda>_. True)) s)"
  by (intro frame_upd; simp add: mono_le_def)+

lemma consider_rec_ok:
  assumes "consider_spec F ops n" "4 * m + 1 \<le> n"
  shows "rec_ok F R m (\<lambda>d s. consider_rule ops n d s)"
  unfolding rec_ok_def
proof (intro allI impI)
  fix d and s :: "'a sched"
  assume "d < rules_size s" "graph_ok s" "sched_inv R s" "work s \<le> m"
  then have "outcome F (\<lambda>(b, s'). sched_inv R s' \<and> frame {} s s' \<and> is_executing (rules s' d))
      (consider_rule ops n d s)"
    using assms by (simp add: consider_spec_def)
  then show "outcome F (\<lambda>(b, s'). sched_inv R s' \<and> frame {} s s') (consider_rule ops n d s)"
    by (rule outcome_mono) auto
qed

lemma done_deps_all:
  assumes "done_deps s (enumerate 0 (deplist (rules s r)))" "d \<in> dep_ids s r"
  shows "is_executed (rules s d)"
proof -
  obtain k where "k < length (deplist (rules s r))" and e: "\<not> is_dupe (deplist (rules s r) ! k)"
      "stirdep_ruleid (st_ruleid s) (deplist (rules s r) ! k) = Some d"
    using assms(2) by (auto simp: dep_ids_def in_set_conv_nth)
  then have "(k, deplist (rules s r) ! k) \<in> set (enumerate 0 (deplist (rules s r)))"
    by (simp add: in_set_enumerate_eq)
  then show ?thesis using assms(1) e unfolding done_deps_def by blast
qed

lemma enumerate_deps: "\<forall>(i, e) \<in> set (enumerate n xs). e \<in> set xs"
  by (auto simp: in_set_enumerate_eq)

lemma drop_enumerate_deps: "\<forall>(i, e) \<in> set (drop k (enumerate n xs)). e \<in> set xs"
  using enumerate_deps[of n xs] set_drop_subset[of k "enumerate n xs"] by blast

lemma has_dep_enumerate:
  assumes "has_dep a"
  shows "\<exists>(i, e) \<in> set (enumerate 0 (deplist a)). \<not> is_dupe e"
proof -
  obtain k where "k < length (deplist a)" "\<not> is_dupe (deplist a ! k)"
    using assms by (auto simp: has_dep_def in_set_conv_nth)
  then have "(k, deplist a ! k) \<in> set (enumerate 0 (deplist a))"
    by (auto simp: in_set_enumerate_eq)
  then show ?thesis using \<open>\<not> is_dupe (deplist a ! k)\<close> by blast
qed

lemma consider_ok:
  assumes con: "consider_spec F ops n" and exe: "do_exec_spec F ops n" and F: "range Exited \<subseteq> F"
  shows "consider_spec F ops (Suc n)"
  unfolding consider_spec_def
proof (intro allI impI)
  fix r and s :: "'a sched" and R
  assume r: "r < rules_size s" and g: "graph_ok s" and inv: "sched_inv R s"
    and fuel: "4 * work s + 1 \<le> Suc n"
  have ok: "rule_ok (rules s r)" by (rule sched_invD(1)[OF inv])
  show "outcome F (\<lambda>(b, s'). sched_inv R s' \<and> frame {} s s' \<and> is_executing (rules s' r))
       (consider_rule ops (Suc n) r s)"
  proof (cases "is_executed (rules s r) \<or> is_executing (rules s r)")
    case True
    then have "is_executing (rules s r)" using rule_ok_simps(1,2)[OF ok] by blast
    then show ?thesis using inv by auto
  next
    case False
    then have ne: "\<not> is_executing (rules s r)" "\<not> is_executed (rules s r)" by blast+
    have nu: "\<not> is_under_consideration (rules s r)" using rule_ok_simps(3)[OF ok] ne(1) by blast
    define s1 where "s1 = upd_rule r (\<lambda>x. x\<lparr> is_executing := True, is_under_consideration := True \<rparr>) s"
    have f1: "frame {r} s s1" unfolding s1_def by (rule frame_set_under)
    have w0: "wait_remain_cnt (rules s1 r) = 0" using rule_ok_simps(4)[OF ok ne(1)] by (simp add: s1_def)
    have "rule_ok ((rules s r)\<lparr> is_executing := True, is_under_consideration := True \<rparr>)"
      using ok unfolding rule_ok_def has_dep_def by simp
    then have i1: "sched_inv R s1" unfolding s1_def using r by (intro inv_upd[OF inv]) auto
    have lt: "work s1 < work s" using work_less[OF f1 r] ne(1) by (simp add: s1_def)
    have in1: "in_loop R (work s1) r s1"
      using i1 frame_graph_ok[OF f1 g] r by (simp add: in_loop_def s1_def)
    have pre: "consider_pre R (work s1) r (enumerate 0 (deplist (rules s1 r))) False s1"
      using in1 w0 enumerate_deps by (simp add: consider_pre_def)
    have rec: "rec_ok F R (work s1) (\<lambda>d s. consider_rule ops n d s)"
      using fuel lt by (intro consider_rec_ok[OF con]) simp
    have "outcome F (\<lambda>(b, s'). sched_inv R s' \<and> frame {} s s' \<and> is_executing (rules s' r))
       (bind_res (consider_deps ops (\<lambda>d s. consider_rule ops n d s) r
                    (enumerate 0 (deplist (rules s1 r))) False False s1)
          (\<lambda>(toexecute, execed_some, s).
            if \<not> toexecute \<and> \<not> is_queued (rules s r) then
              bind_res (do_exec ops n r s) (\<lambda>(ret, s).
                Inr (ret, upd_rule r (is_under_consideration_update (\<lambda>_. False)) s))
            else Inr (execed_some, upd_rule r (is_under_consideration_update (\<lambda>_. False)) s)))"
    proof (rule outcome_bind[OF consider_deps_ok[OF rec F pre]], clarify)
      fix te ex s2
      assume post: "consider_post R (work s1) r (enumerate 0 (deplist (rules s1 r))) False s1 (te, ex, s2)"
      then have l2: "loop_post R (work s1) r s1 s2" by (simp add: consider_post_def)
      have in2: "in_loop R (work s1) r s2" by (rule loop_post_in_loop[OF l2])
      have f2: "frame {r} s s2" using l2 f1 frame_trans unfolding loop_post_def by blast
      have i2: "sched_inv R s2" and g2: "graph_ok s2" and r2: "r < rules_size s2"
        and k2: "work s2 \<le> work s1" using in2 by (simp_all add: in_loop_def)
      have e2: "is_executing (rules s2 r)" by (rule in_loop_executing[OF in2])
      have wl2: "has_dep (rules s2 r) \<Longrightarrow> waitloc (rules s2 r) \<noteq> None"
        using post has_dep_enumerate[of "rules s1 r"] loop_post_deps[OF l2]
        by (auto simp: consider_post_def has_dep_def)
      have fin: "sched_inv R (upd_rule r (is_under_consideration_update (\<lambda>_. False)) s3) \<and>
          frame {} s (upd_rule r (is_under_consideration_update (\<lambda>_. False)) s3) \<and>
          is_executing (rules (upd_rule r (is_under_consideration_update (\<lambda>_. False)) s3) r)"
        if i3: "sched_inv R s3" and f3: "frame {r} s2 s3" for s3
      proof -
        have "has_dep (rules s3 r) \<Longrightarrow> waitloc (rules s3 r) \<noteq> None"
          using wl2 frameD(8)[OF f3, of r] f3 unfolding frame_def mono_le_def by blast
        then show ?thesis
          using clear_ok[OF i3, of r] frame_clear[OF frame_trans[OF f2 f3] nu] frameD(5)[OF f3 e2]
          by simp
      qed
      show "outcome F (\<lambda>(b, s'). sched_inv R s' \<and> frame {} s s' \<and> is_executing (rules s' r))
         (if \<not> te \<and> \<not> is_queued (rules s2 r) then
              bind_res (do_exec ops n r s2) (\<lambda>(ret, s).
                Inr (ret, upd_rule r (is_under_consideration_update (\<lambda>_. False)) s))
            else Inr (ex, upd_rule r (is_under_consideration_update (\<lambda>_. False)) s2))"
      proof (cases "\<not> te \<and> \<not> is_queued (rules s2 r)")
        case False
        then show ?thesis using fin[OF i2 frame_refl] by auto
      next
        case True
        then have "done_deps s2 (enumerate 0 (deplist (rules s2 r)))"
          using post loop_post_deps[OF l2] by (simp add: consider_post_def)
        then have "\<forall>d \<in> dep_ids s2 r. is_executed (rules s2 d)" using done_deps_all by blast
        moreover have "4 * work s2 \<le> n" using k2 lt fuel by simp
        ultimately have x: "outcome F (\<lambda>(b, s'). sched_inv R s' \<and> frame {r} s2 s') (do_exec ops n r s2)"
          using exe True r2 g2 i2 e2 unfolding do_exec_spec_def by blast
        have "outcome F (\<lambda>(b, s'). sched_inv R s' \<and> frame {} s s' \<and> is_executing (rules s' r))
            (bind_res (do_exec ops n r s2) (\<lambda>(ret, s).
                Inr (ret, upd_rule r (is_under_consideration_update (\<lambda>_. False)) s)))"
          by (rule outcome_bind[OF x]) (use fin in auto)
        then show ?thesis using True by simp
      qed
    qed
    then show ?thesis using ne by (simp add: Let_def s1_def)
  qed
qed

lemma reconsider_ok:
  assumes con: "consider_spec F ops n" and exe: "do_exec_spec F ops n" and F: "range Exited \<subseteq> F"
  shows "reconsider_spec F ops (Suc n)"
  unfolding reconsider_spec_def
proof (intro allI impI)
  fix r d and s :: "'a sched" and R
  assume r: "r < rules_size s" and g: "graph_ok s" and inv: "sched_inv R s"
    and dx: "is_executed (rules s d)" and hd: "has_dep (rules s r)" and fuel: "4 * work s + 2 \<le> Suc n"
  have ok: "rule_ok (rules s r)" by (rule sched_invD(1)[OF inv])
  have erase: "outcome F (\<lambda>s'. sched_inv R s' \<and> frame {} s s' \<and>
     is_executed (rules s' r) = is_executed (rules s r) \<and> is_queued (rules s' r) = is_queued (rules s r) \<and>
     is_executing (rules s' r) = is_executing (rules s r) \<and> waitloc (rules s' r) = waitloc (rules s r) \<and>
     is_under_consideration (rules s' r) = is_under_consideration (rules s r))
     (upd_rule_res r (deps_remain_erase d) s)" by (rule erase_ok[OF inv dx])
  consider "is_executed (rules s r)"
    | "\<not> is_executed (rules s r)" "\<not> is_executing (rules s r) \<or> is_under_consideration (rules s r)"
    | "\<not> is_executed (rules s r)" "is_executing (rules s r)" "\<not> is_under_consideration (rules s r)"
    by blast
  then show "outcome F (\<lambda>s'. sched_inv R s' \<and> frame {} s s') (reconsider ops (Suc n) r d s)"
  proof cases
    case 1
    then show ?thesis using inv by simp
  next
    case 2
    have "outcome F (\<lambda>s'. sched_inv R s' \<and> frame {} s s') (upd_rule_res r (deps_remain_erase d) s)"
      using erase by (rule outcome_mono) blast
    then show ?thesis using 2 by simp
  next
    case 3
    obtain i where i: "waitloc (rules s r) = Some i" using rule_ok_simps(5)[OF ok 3(2,3) hd] by blast
    have "outcome F (\<lambda>s'. sched_inv R s' \<and> frame {} s s')
      (bind_res (upd_rule_res r (deps_remain_erase d) s) (\<lambda>s.
          let toexecute = (deps_remain_cnt (rules s r) > 0);
              s = upd_rule r (is_under_consideration_update (\<lambda>_. True)) s in
          case waitloc (rules s r) of
            None \<Rightarrow> Inl Overread
          | Some i \<Rightarrow>
              bind_res (reconsider_deps ops (\<lambda>d s. consider_rule ops n d s) r
                          (drop i (enumerate 0 (deplist (rules s r)))) s)
                (\<lambda>s. if \<not> toexecute \<and> \<not> is_queued (rules s r) then
                        bind_res (do_exec ops n r s) (\<lambda>(_, s).
                          Inr (upd_rule r (is_under_consideration_update (\<lambda>_. False)) s))
                      else Inr (upd_rule r (is_under_consideration_update (\<lambda>_. False)) s))))"
    proof (rule outcome_bind[OF erase], elim conjE)
      fix s1
      assume i1: "sched_inv R s1" and f1: "frame {} s s1"
        and fl: "is_executed (rules s1 r) = is_executed (rules s r)"
          "is_executing (rules s1 r) = is_executing (rules s r)" "waitloc (rules s1 r) = waitloc (rules s r)"
          "is_under_consideration (rules s1 r) = is_under_consideration (rules s r)"
      define s2 where "s2 = upd_rule r (is_under_consideration_update (\<lambda>_. True)) s1"
      have f12: "frame {r} s s2"
        unfolding s2_def using frame_trans[OF frame_mono[OF f1] frame_set_under(2)] by blast
      have ok1: "rule_ok (rules s1 r)" by (rule sched_invD(1)[OF i1])
      then have "rule_ok ((rules s1 r)\<lparr> is_under_consideration := True \<rparr>)"
        using fl 3(2) unfolding rule_ok_def has_dep_def by simp
      then have i2: "sched_inv R s2" unfolding s2_def by (intro inv_upd[OF i1]) auto
      have in2: "in_loop R (work s2) r s2"
        using i2 frame_graph_ok[OF f12 g] r frameD(1)[OF f12] by (simp add: in_loop_def) (simp add: s2_def)
      have wl: "waitloc (rules s2 r) = Some i" using i fl(3) by (simp add: s2_def)
      have k2: "work s2 \<le> work s" by (rule frame_work[OF f12])
      let ?es = "drop i (enumerate 0 (deplist (rules s2 r)))"
      have rec: "rec_ok F R (work s2) (\<lambda>d s. consider_rule ops n d s)"
        using fuel k2 by (intro consider_rec_ok[OF con]) simp
      have "outcome F (\<lambda>s'. sched_inv R s' \<and> frame {} s s')
        (bind_res (reconsider_deps ops (\<lambda>d s. consider_rule ops n d s) r ?es s2)
           (\<lambda>s. if \<not> deps_remain_cnt (rules s1 r) > 0 \<and> \<not> is_queued (rules s r) then
                        bind_res (do_exec ops n r s) (\<lambda>(_, s).
                          Inr (upd_rule r (is_under_consideration_update (\<lambda>_. False)) s))
                      else Inr (upd_rule r (is_under_consideration_update (\<lambda>_. False)) s)))"
      proof (rule outcome_bind[OF reconsider_deps_ok[OF rec F in2 drop_enumerate_deps]])
        fix s3
        assume l3: "loop_post R (work s2) r s2 s3"
        have in3: "in_loop R (work s2) r s3" by (rule loop_post_in_loop[OF l3])
        have f3: "frame {r} s s3" using l3 f12 frame_trans unfolding loop_post_def by blast
        have i3: "sched_inv R s3" and g3: "graph_ok s3" and r3: "r < rules_size s3"
          and k3: "work s3 \<le> work s2" using in3 by (simp_all add: in_loop_def)
        have e3: "is_executing (rules s3 r)" by (rule in_loop_executing[OF in3])
        have wl3: "waitloc (rules s3 r) \<noteq> None"
          using l3 wl by (simp add: loop_post_def same_flags_def)
        have fin: "sched_inv R (upd_rule r (is_under_consideration_update (\<lambda>_. False)) s4) \<and>
            frame {} s (upd_rule r (is_under_consideration_update (\<lambda>_. False)) s4)"
          if i4: "sched_inv R s4" and f4: "frame {r} s3 s4" for s4
        proof -
          have "waitloc (rules s4 r) \<noteq> None" using wl3 f4 unfolding frame_def mono_le_def by blast
          then show ?thesis using clear_ok[OF i4] frame_clear[OF frame_trans[OF f3 f4] 3(3)] by blast
        qed
        show "outcome F (\<lambda>s'. sched_inv R s' \<and> frame {} s s')
          (if \<not> deps_remain_cnt (rules s1 r) > 0 \<and> \<not> is_queued (rules s3 r) then
                        bind_res (do_exec ops n r s3) (\<lambda>(_, s).
                          Inr (upd_rule r (is_under_consideration_update (\<lambda>_. False)) s))
                      else Inr (upd_rule r (is_under_consideration_update (\<lambda>_. False)) s3))"
        proof (cases "\<not> deps_remain_cnt (rules s1 r) > 0 \<and> \<not> is_queued (rules s3 r)")
          case False
          then show ?thesis using fin[OF i3 frame_refl] by auto
        next
          case True
          have x1: "\<forall>d \<in> dep_ids s1 r. is_executed (rules s1 d)"
            using sched_invD(2)[OF i1] rule_ok_simps(6)[OF ok1] True by blast
          have f13: "frame {r} s1 s3"
            using frame_trans[OF frame_set_under(2)[of r s1]] l3 unfolding s2_def loop_post_def by blast
          have "\<forall>d \<in> dep_ids s3 r. is_executed (rules s3 d)"
            using x1 frameD(9)[OF f13] frameD(3)[OF f13] by blast
          moreover have "4 * work s3 \<le> n" using k2 k3 fuel by simp
          ultimately have x: "outcome F (\<lambda>(b, s'). sched_inv R s' \<and> frame {r} s3 s') (do_exec ops n r s3)"
            using exe True r3 g3 i3 e3 unfolding do_exec_spec_def by blast
          have "outcome F (\<lambda>s'. sched_inv R s' \<and> frame {} s s')
              (bind_res (do_exec ops n r s3) (\<lambda>(_, s).
                  Inr (upd_rule r (is_under_consideration_update (\<lambda>_. False)) s)))"
            by (rule outcome_bind[OF x]) (use fin in auto)
          then show ?thesis using True by simp
        qed
      qed
      then show "outcome F (\<lambda>s'. sched_inv R s' \<and> frame {} s s')
        (let toexecute = (deps_remain_cnt (rules s1 r) > 0);
              s = upd_rule r (is_under_consideration_update (\<lambda>_. True)) s1 in
          case waitloc (rules s r) of
            None \<Rightarrow> Inl Overread
          | Some i \<Rightarrow>
              bind_res (reconsider_deps ops (\<lambda>d s. consider_rule ops n d s) r
                          (drop i (enumerate 0 (deplist (rules s r)))) s)
                (\<lambda>s. if \<not> toexecute \<and> \<not> is_queued (rules s r) then
                        bind_res (do_exec ops n r s) (\<lambda>(_, s).
                          Inr (upd_rule r (is_under_consideration_update (\<lambda>_. False)) s))
                      else Inr (upd_rule r (is_under_consideration_update (\<lambda>_. False)) s)))"
        using wl unfolding Let_def s2_def[symmetric] by simp
    qed
    then show ?thesis using 3 by simp
  qed
qed

text \<open>All four specifications, for every amount of fuel.\<close>

lemma all_specs:
  assumes ops: "ops_ok F ops"
  shows "consider_spec F ops n \<and> do_exec_spec F ops n \<and> mark_executed_spec F ops n \<and>
    reconsider_spec F ops n"
proof (induction n)
  case 0
  have "mark_executed_spec F ops 0"
    unfolding mark_executed_spec_def
  proof (intro allI impI)
    fix r was and s :: "'a sched" and R
    assume "r < rules_size s" "sched_inv R s" "r \<in> R" "4 * work s - 1 \<le> 0"
    moreover from this have "\<not> is_executed (rules s r)" by (auto simp: sched_inv_def queue_ok_def)
    ultimately have False using work_pos[of r s] by simp
    then show "outcome F (\<lambda>s'. sched_inv (R - {r}) s' \<and> frame {r} s s' \<and> is_executed (rules s' r) \<and>
        is_under_consideration (rules s' r) = is_under_consideration (rules s r))
       (mark_executed ops 0 r was s)" by blast
  qed
  moreover have "do_exec_spec F ops 0"
    unfolding do_exec_spec_def
  proof (intro allI impI)
    fix r and s :: "'a sched" and R
    assume "r < rules_size s" "sched_inv R s" "\<not> is_queued (rules s r)" "4 * work s \<le> 0"
    moreover from this have "\<not> is_executed (rules s r)"
      using rule_ok_simps(1)[OF sched_invD(1)] by blast
    ultimately have False using work_pos[of r s] by simp
    then show "outcome F (\<lambda>(b, s'). sched_inv R s' \<and> frame {r} s s') (do_exec ops 0 r s)" by blast
  qed
  ultimately show ?case by (simp add: consider_spec_def reconsider_spec_def)
next
  case (Suc n)
  have F: "range Exited \<subseteq> F" using ops by (simp add: ops_ok_def)
  have con: "consider_spec F ops n" and exe: "do_exec_spec F ops n"
    and mark: "mark_executed_spec F ops n" and rec: "reconsider_spec F ops n"
    using Suc by blast+
  show ?case
    by (intro conjI consider_ok[OF con exe F] do_exec_ok[OF ops mark] mark_executed_ok[OF ops rec]
        reconsider_ok[OF con exe F])
qed

end
