(* ===== verification/Run_Loop.thy ===== *)
theory Run_Loop
  imports Scheduler
begin

text \<open>
  The end of \<open>main\<close> and \<open>run_loop\<close> of \<open>stirmake.c\<close>: the remaining dependencies of all rules are
  computed, the goals are considered until nothing changes, and then rules are forked from
  \<open>ruleids_to_run\<close> and marked executed as their commands end.  Which child ends next and whether the
  job server gives a token is not determined, so the loop is a step relation; a step is one fork, one
  further command of a running rule, one finished rule, or one failed one.
\<close>

section \<open>Before the loop\<close>

text \<open>The call of \<open>calc_deps_remain\<close> for every rule.\<close>

definition prepare_rules :: "('a) base_scheme \<Rightarrow> ('a) base_scheme" where
  "prepare_rules s = s\<lparr> rules := (\<lambda>r. if r < rules_size s then calc_deps_remain (st_ruleid s) (rules s r)
                                     else rules s r) \<rparr>"

definition sched_fuel :: "('a) base_scheme \<Rightarrow> nat" where
  "sched_fuel s = 8 * rules_size s + 2"

text \<open>
  One walk over \<open>rules_remain_list\<close>; a rule that the walk itself removed from the list is not visited.
  \<open>True\<close> stands for the jump \<open>goto back\<close>.
\<close>

fun consider_pass :: "'w ops \<Rightarrow> nat list \<Rightarrow> 'w sched \<Rightarrow> (bool \<times> 'w sched) res" where
  "consider_pass ops [] s = Inr (False, s)"
| "consider_pass ops (r # rs) s =
     (if r \<notin> set (rules_remain_list s) then consider_pass ops rs s
      else bind_res (consider_rule ops (sched_fuel s) r s)
             (\<lambda>(changed, s). if changed then Inr (True, s) else consider_pass ops rs s))"

fun initial_loop :: "'w ops \<Rightarrow> nat \<Rightarrow> 'w sched \<Rightarrow> 'w sched res" where
  "initial_loop ops 0 s = Inl NoFuel"
| "initial_loop ops (Suc k) s =
     bind_res (consider_pass ops (rules_remain_list s) s)
       (\<lambda>(again, s). if again then initial_loop ops k s else Inr s)"

definition run_start :: "'w ops \<Rightarrow> 'w sched \<Rightarrow> 'w sched res" where
  "run_start ops s = initial_loop ops (2 * rules_size s + 1) s"

section \<open>The loop\<close>

record 'w loop =
  sch :: "'w sched"
  children :: "nat list"
  cmdfailed :: bool

definition spawn_child :: "nat \<Rightarrow> 'w sched \<Rightarrow> 'w sched res" where
  "spawn_child r s =
     (if cmdidx (rules s r) \<ge> length (cmd (rules s r)) then Inl Aborted
      else Inr (upd_rule r (cmdidx_update Suc) s))"

definition ready :: "nat \<Rightarrow> 'w sched \<Rightarrow> bool" where
  "ready r s = (cmdidx (rules s r) = length (cmd (rules s r)))"

text \<open>\<open>keep\<close> is \<open>doasmuchascan\<close>.  Between any two steps the running recipes, the removal of the
  targets of a failed one and everyone else may change the world in any way: that is the last rule.\<close>

inductive run_step :: "'w ops \<Rightarrow> bool \<Rightarrow> 'w loop \<Rightarrow> 'w loop res \<Rightarrow> bool"
  for ops :: "'w ops" and keep :: bool where
  fork: "ruleids_to_run (sch l) = xs @ [r] \<Longrightarrow>
    run_step ops keep l (bind_res (spawn_child r (sch l)) (\<lambda>s.
      Inr (l\<lparr> sch := s\<lparr> ruleids_to_run := xs \<rparr>, children := r # children l \<rparr>)))"
| next_cmd: "r \<in> set (children l) \<Longrightarrow> \<not> ready r (sch l) \<Longrightarrow>
    run_step ops keep l (bind_res (spawn_child r (sch l)) (\<lambda>s. Inr (l\<lparr> sch := s \<rparr>)))"
| finished: "r \<in> set (children l) \<Longrightarrow> ready r (sch l) \<Longrightarrow>
    run_step ops keep l (bind_res (mark_executed ops (sched_fuel (sch l)) r True (sch l)) (\<lambda>s.
      Inr (l\<lparr> sch := s, children := remove1 r (children l) \<rparr>)))"
| failed: "r \<in> set (children l) \<Longrightarrow>
    run_step ops keep l
      (if keep then Inr (l\<lparr> children := remove1 r (children l), cmdfailed := True \<rparr>)
       else Inl (Exited ''recipe for target failed''))"
| env: "run_step ops keep l (Inr (l\<lparr> sch := (sch l)\<lparr> world := w \<rparr> \<rparr>))"

inductive_cases run_stepE: "run_step ops keep l x"

inductive reach :: "'w ops \<Rightarrow> bool \<Rightarrow> 'w sched \<Rightarrow> 'w loop \<Rightarrow> bool"
  for ops :: "'w ops" and keep :: bool and s0 :: "'w sched" where
  start: "run_start ops s0 = Inr s \<Longrightarrow>
    reach ops keep s0 \<lparr> sch = s, children = [], cmdfailed = False \<rparr>"
| step: "reach ops keep s0 l \<Longrightarrow> run_step ops keep l (Inr l') \<Longrightarrow> reach ops keep s0 l'"

section \<open>The state that \<open>main\<close> hands to the loop\<close>

text \<open>No rule has been looked at, and nothing is queued.\<close>

definition raw_rule :: "rule \<Rightarrow> bool" where
  "raw_rule a = (\<not> is_executed a \<and> \<not> is_queued a \<and> \<not> is_executing a \<and> \<not> is_under_consideration a \<and>
     deps_remain a = (\<lambda>_. None) \<and> deps_remain_cnt a = 0 \<and> wait_remain_cnt a = 0 \<and> cmdidx a = 0)"

definition raw_ok :: "'w sched \<Rightarrow> bool" where
  "raw_ok s = ((\<forall>r. raw_rule (rules s r)) \<and> (\<forall>r \<ge> rules_size s. deplist (rules s r) = []) \<and>
     graph_ok s \<and> remain_ok s \<and> (\<forall>r \<in> set (rules_remain_list s). r < rules_size s) \<and>
     ruleids_to_run s = [])"

text \<open>\<open>calc_deps_remain\<close> enters every dependency with a rule once.\<close>

definition dep_rules :: "(nat \<Rightarrow> int) \<Rightarrow> stirdep list \<Rightarrow> nat set" where
  "dep_rules tab es = {d. \<exists>e \<in> set es. stirdep_ruleid tab e = Some d}"

lemma dep_rules_simps [simp]:
  "dep_rules tab [] = {}"
  "dep_rules tab (e # es) = (case stirdep_ruleid tab e of
     None \<Rightarrow> dep_rules tab es | Some d \<Rightarrow> insert d (dep_rules tab es))"
  by (auto simp: dep_rules_def split: option.split)

definition counted :: "rule \<Rightarrow> bool" where
  "counted a = (finite (dom (deps_remain a)) \<and> deps_remain_cnt a = card (dom (deps_remain a)) \<and>
     (\<forall>d. deps_remain a d \<in> {None, Some 0}))"

lemma counted_insert:
  assumes "counted a"
  shows "counted (deps_remain_insert d a)"
    "dom (deps_remain (deps_remain_insert d a)) = insert d (dom (deps_remain a))"
proof -
  show dom: "dom (deps_remain (deps_remain_insert d a)) = insert d (dom (deps_remain a))"
    by (auto simp: deps_remain_insert_def)
  have c: "finite (dom (deps_remain a))" "deps_remain_cnt a = card (dom (deps_remain a))"
    "\<And>x. deps_remain a x = None \<or> deps_remain a x = Some 0"
    using assms unfolding counted_def by blast+
  show "counted (deps_remain_insert d a)"
  proof (cases "deps_remain a d")
    case None
    then have "deps_remain_cnt (deps_remain_insert d a) = card (insert d (dom (deps_remain a)))"
      using c(1,2) by (simp add: deps_remain_insert_def domIff)
    moreover have "deps_remain (deps_remain_insert d a) x \<in> {None, Some 0}" for x
      using None c(3)[of x] by (simp add: deps_remain_insert_def)
    ultimately show ?thesis unfolding counted_def dom using c(1) by blast
  next
    case (Some w)
    then show ?thesis using assms by (simp add: deps_remain_insert_def)
  qed
qed

lemma calc_loop_spec:
  "counted a \<Longrightarrow> counted (calc_deps_remain_loop tab es a) \<and>
    dom (deps_remain (calc_deps_remain_loop tab es a)) = dom (deps_remain a) \<union> dep_rules tab es"
  by (induction es arbitrary: a) (auto split: option.split simp: counted_insert)

lemma calc_loop_same:
  "is_executed (calc_deps_remain_loop tab es a) = is_executed a"
  "is_queued (calc_deps_remain_loop tab es a) = is_queued a"
  "is_executing (calc_deps_remain_loop tab es a) = is_executing a"
  "is_under_consideration (calc_deps_remain_loop tab es a) = is_under_consideration a"
  "wait_remain_cnt (calc_deps_remain_loop tab es a) = wait_remain_cnt a"
  "cmdidx (calc_deps_remain_loop tab es a) = cmdidx a" "cmd (calc_deps_remain_loop tab es a) = cmd a"
  "remain (calc_deps_remain_loop tab es a) = remain a"
  "deplist (calc_deps_remain_loop tab es a) = deplist a"
  "firstdepblock (calc_deps_remain_loop tab es a) = firstdepblock a"
  by (induction es arbitrary: a) (auto simp: deps_remain_insert_def split: option.split)

lemma raw_rule_ok: "raw_rule a \<Longrightarrow> rule_ok a"
  by (simp add: raw_rule_def rule_ok_def wait_sum_def)

lemma calc_deps_remain_ok:
  assumes "raw_rule a"
  shows "rule_ok (calc_deps_remain tab a)"
    "dom (deps_remain (calc_deps_remain tab a)) = dep_rules tab (deplist a)"
proof -
  let ?c = "calc_deps_remain_loop tab (deplist a) a"
  have "counted a" using assms by (simp add: raw_rule_def counted_def)
  then have spec: "dom (deps_remain ?c) = dep_rules tab (deplist a)" "counted ?c"
    using calc_loop_spec[of a tab "deplist a"] assms by (simp_all add: raw_rule_def)
  then show "dom (deps_remain (calc_deps_remain tab a)) = dep_rules tab (deplist a)"
    by (simp add: calc_deps_remain_def)
  have "the (deps_remain ?c d) = 0" if "d \<in> dom (deps_remain ?c)" for d
  proof -
    have "deps_remain ?c d \<in> {None, Some 0}" using spec(2) by (simp only: counted_def)
    then show ?thesis using that by auto
  qed
  then have "wait_sum (deps_remain ?c) = 0" by (simp add: wait_sum_def)
  then show "rule_ok (calc_deps_remain tab a)"
    using spec(2) assms by (simp add: rule_ok_def calc_deps_remain_def calc_loop_same raw_rule_def counted_def)
qed

lemma prepare_dep_ids: "dep_ids (prepare_rules s) r = dep_ids s r"
  by (auto simp: dep_ids_def prepare_rules_def calc_deps_remain_def)

lemma prepare_raw_ok:
  assumes "raw_ok s"
  shows "sched_inv {} (prepare_rules s)" "graph_ok (prepare_rules s)"
    "\<not> is_queued (rules (prepare_rules s) r)" "\<not> is_under_consideration (rules (prepare_rules s) r)"
    "cmdidx (rules (prepare_rules s) r) = 0" "\<not> is_executing (rules (prepare_rules s) r)"
proof -
  let ?s = "prepare_rules s"
  have raw: "raw_rule (rules s x)" for x using assms by (simp add: raw_ok_def)
  have flags: "is_executed (rules ?s x) = False" "is_queued (rules ?s x) = False"
      "is_executing (rules ?s x) = False" "is_under_consideration (rules ?s x) = False"
      "cmdidx (rules ?s x) = 0" "remain (rules ?s x) = remain (rules s x)"
      "firstdepblock (rules ?s x) = firstdepblock (rules s x)" for x
    using raw[of x]
    by (simp_all add: prepare_rules_def calc_deps_remain_def calc_loop_same raw_rule_def)
  show "\<not> is_queued (rules ?s r)" "\<not> is_under_consideration (rules ?s r)"
    "cmdidx (rules ?s r) = 0" "\<not> is_executing (rules ?s r)" by (simp_all add: flags)
  have "rule_ok (rules ?s x)" for x
    using calc_deps_remain_ok(1)[OF raw, of "st_ruleid s" x] raw_rule_ok[OF raw[of x]]
    by (simp add: prepare_rules_def)
  moreover have "deps_ok ?s"
    unfolding deps_ok_def prepare_dep_ids flags
  proof (intro allI ballI conjI impI)
    fix x d
    assume d: "d \<in> dep_ids s x"
    then have "deplist (rules s x) \<noteq> []" by (auto simp: dep_ids_def)
    then have "x < rules_size s" using assms unfolding raw_ok_def by (meson not_le)
    moreover have "d \<in> dep_rules (st_ruleid s) (deplist (rules s x))"
      using d by (auto simp: dep_ids_def dep_rules_def)
    ultimately show "deps_remain (rules ?s x) d \<noteq> None"
      using calc_deps_remain_ok(2)[OF raw, of "st_ruleid s" x] by (auto simp: prepare_rules_def)
  qed auto
  moreover have "queue_ok {} ?s"
    using assms by (simp add: queue_ok_def flags) (simp add: raw_ok_def prepare_rules_def)
  moreover have "remain_ok ?s"
    using assms by (simp add: remain_ok_def flags raw_ok_def) (simp add: prepare_rules_def)
  ultimately show "sched_inv {} ?s" by (simp add: sched_inv_def flags)
  have hd: "has_dep (rules ?s x) = has_dep (rules s x)" for x
    by (auto simp: prepare_rules_def calc_deps_remain_def has_dep_def)
  have bd: "back_deps ?s x = back_deps s x" for x by (simp add: back_deps_def flags)
  have sz: "rules_size ?s = rules_size s" by (simp add: prepare_rules_def)
  have "graph_ok s" using assms by (simp add: raw_ok_def)
  then show "graph_ok ?s" unfolding graph_ok_def prepare_dep_ids hd bd sz .
qed

section \<open>The initial loop\<close>

lemma sched_fuel_enough: "4 * work s + 2 \<le> sched_fuel s"
  using work_bound[of s] by (simp add: sched_fuel_def)

lemma consider_changed:
  assumes ops: "ops_ok F ops" and r: "r < rules_size s" and g: "graph_ok s" and inv: "sched_inv R s"
  shows "outcome F (\<lambda>(b, s'). sched_inv R s' \<and> frame {} s s' \<and> is_executing (rules s' r) \<and>
    (b \<longrightarrow> work s' < work s)) (consider_rule ops (sched_fuel s) r s)"
proof -
  have "4 * work s + 1 \<le> sched_fuel s" using sched_fuel_enough[of s] by simp
  then have c: "outcome F (\<lambda>(b, s'). sched_inv R s' \<and> frame {} s s' \<and> is_executing (rules s' r))
      (consider_rule ops (sched_fuel s) r s)"
    using all_specs[OF ops, of "sched_fuel s"] r g inv unfolding consider_spec_def by blast
  have ok: "rule_ok (rules s r)" by (rule sched_invD(1)[OF inv])
  obtain n where n: "sched_fuel s = Suc n" by (simp add: sched_fuel_def)
  show ?thesis
  proof (cases "is_executing (rules s r)")
    case True
    then show ?thesis using inv unfolding n by auto
  next
    case False
    have "b \<longrightarrow> work s' < work s" if "frame {} s s'" "is_executing (rules s' r)" for b s'
      using work_less[OF that(1) r] that(2) False by blast
    then show ?thesis using c by (auto elim!: outcome_mono)
  qed
qed

lemma consider_pass_ok:
  assumes ops: "ops_ok F ops"
  shows "graph_ok s \<Longrightarrow> sched_inv R s \<Longrightarrow> \<forall>r \<in> set rs. r < rules_size s \<Longrightarrow>
    outcome F (\<lambda>(b, s'). sched_inv R s' \<and> frame {} s s' \<and> (b \<longrightarrow> work s' < work s) \<and>
      (\<not> b \<longrightarrow> (\<forall>r \<in> set rs. r \<in> set (rules_remain_list s') \<longrightarrow> is_executing (rules s' r))))
      (consider_pass ops rs s)"
proof (induction rs arbitrary: s)
  case (Cons r rs)
  have sub: "x \<in> set (rules_remain_list s')  \<Longrightarrow> x \<in> set (rules_remain_list s2)"
    if "frame {} s2 s'" "sched_inv R s2" "sched_inv R s'" for x s2 s'
    using that by (auto simp: frame_def mono_le_def sched_inv_def remain_ok_def)
  show ?case
  proof (cases "r \<in> set (rules_remain_list s)")
    case False
    have "outcome F (\<lambda>(b, s'). sched_inv R s' \<and> frame {} s s' \<and> (b \<longrightarrow> work s' < work s) \<and>
        (\<not> b \<longrightarrow> (\<forall>r \<in> set rs. r \<in> set (rules_remain_list s') \<longrightarrow> is_executing (rules s' r))))
        (consider_pass ops rs s)"
      using Cons by simp
    then have "outcome F (\<lambda>(b, s'). sched_inv R s' \<and> frame {} s s' \<and> (b \<longrightarrow> work s' < work s) \<and>
        (\<not> b \<longrightarrow> (\<forall>r \<in> set (r # rs). r \<in> set (rules_remain_list s') \<longrightarrow> is_executing (rules s' r))))
        (consider_pass ops rs s)"
      by (rule outcome_mono) (use sub[OF _ Cons.prems(2)] False in auto)
    then show ?thesis using False by simp
  next
    case True
    have "outcome F (\<lambda>(b, s'). sched_inv R s' \<and> frame {} s s' \<and> (b \<longrightarrow> work s' < work s) \<and>
        (\<not> b \<longrightarrow> (\<forall>r \<in> set (r # rs). r \<in> set (rules_remain_list s') \<longrightarrow> is_executing (rules s' r))))
        (bind_res (consider_rule ops (sched_fuel s) r s)
             (\<lambda>(changed, s). if changed then Inr (True, s) else consider_pass ops rs s))"
    proof (rule outcome_bind[OF consider_changed[OF ops _ Cons.prems(1,2)]])
      show "r < rules_size s" using Cons.prems(3) by simp
    next
      fix bs
      assume "case bs of (b, s') \<Rightarrow> sched_inv R s' \<and> frame {} s s' \<and> is_executing (rules s' r) \<and>
          (b \<longrightarrow> work s' < work s)"
      then obtain b s2 where bs: "bs = (b, s2)" and i2: "sched_inv R s2" and f2: "frame {} s s2"
        and e2: "is_executing (rules s2 r)" and w2: "b \<Longrightarrow> work s2 < work s" by (cases bs) auto
      have "outcome F (\<lambda>(b, s'). sched_inv R s' \<and> frame {} s2 s' \<and> (b \<longrightarrow> work s' < work s2) \<and>
          (\<not> b \<longrightarrow> (\<forall>r \<in> set rs. r \<in> set (rules_remain_list s') \<longrightarrow> is_executing (rules s' r))))
          (consider_pass ops rs s2)"
        using Cons.prems(3) frameD(1)[OF f2] by (intro Cons.IH frame_graph_ok[OF f2 Cons.prems(1)] i2) simp
      then have "outcome F (\<lambda>(b, s'). sched_inv R s' \<and> frame {} s s' \<and> (b \<longrightarrow> work s' < work s) \<and>
          (\<not> b \<longrightarrow> (\<forall>r \<in> set (r # rs). r \<in> set (rules_remain_list s') \<longrightarrow> is_executing (rules s' r))))
          (consider_pass ops rs s2)"
        by (rule outcome_mono)
           (use frame_trans[OF f2] frame_work[OF f2] frameD(5)[OF _ e2] in fastforce)
      then show "outcome F (\<lambda>(b, s'). sched_inv R s' \<and> frame {} s s' \<and> (b \<longrightarrow> work s' < work s) \<and>
          (\<not> b \<longrightarrow> (\<forall>r \<in> set (r # rs). r \<in> set (rules_remain_list s') \<longrightarrow> is_executing (rules s' r))))
          (case bs of (changed, s) \<Rightarrow> if changed then Inr (True, s) else consider_pass ops rs s)"
        using bs i2 f2 w2 by simp
    qed
    then show ?thesis using True by simp
  qed
qed simp

definition remain_in :: "('a) base_scheme \<Rightarrow> bool" where
  "remain_in s = (\<forall>r \<in> set (rules_remain_list s). r < rules_size s)"

lemma initial_loop_ok:
  assumes ops: "ops_ok F ops"
  shows "graph_ok s \<Longrightarrow> sched_inv R s \<Longrightarrow> remain_in s \<Longrightarrow> work s < k \<Longrightarrow>
    outcome F (\<lambda>s'. sched_inv R s' \<and> frame {} s s' \<and>
      (\<forall>r \<in> set (rules_remain_list s'). is_executing (rules s' r))) (initial_loop ops k s)"
proof (induction k arbitrary: s)
  case (Suc k)
  have sub: "x \<in> set (rules_remain_list s')  \<Longrightarrow> x \<in> set (rules_remain_list s)"
    if "frame {} s s'" "sched_inv R s'" for x s'
    using that Suc.prems(2) by (auto simp: frame_def mono_le_def sched_inv_def remain_ok_def)
  show ?case
    unfolding initial_loop.simps
  proof (rule outcome_bind[OF consider_pass_ok[OF ops Suc.prems(1,2)]])
    show "\<forall>r \<in> set (rules_remain_list s). r < rules_size s" using Suc.prems(3) by (simp add: remain_in_def)
  next
    fix bs
    assume "case bs of (b, s') \<Rightarrow> sched_inv R s' \<and> frame {} s s' \<and> (b \<longrightarrow> work s' < work s) \<and>
      (\<not> b \<longrightarrow> (\<forall>r \<in> set (rules_remain_list s). r \<in> set (rules_remain_list s') \<longrightarrow> is_executing (rules s' r)))"
    then obtain b s2 where bs: "bs = (b, s2)" and i2: "sched_inv R s2" and f2: "frame {} s s2"
      and w2: "b \<Longrightarrow> work s2 < work s"
      and e2: "\<not> b \<Longrightarrow> \<forall>r \<in> set (rules_remain_list s). r \<in> set (rules_remain_list s2) \<longrightarrow> is_executing (rules s2 r)"
      by (cases bs) auto
    show "outcome F (\<lambda>s'. sched_inv R s' \<and> frame {} s s' \<and>
        (\<forall>r \<in> set (rules_remain_list s'). is_executing (rules s' r)))
        (case bs of (again, s) \<Rightarrow> if again then initial_loop ops k s else Inr s)"
    proof (cases b)
      case True
      have "remain_in s2" using Suc.prems(3) sub[OF f2 i2] frameD(1)[OF f2] by (simp add: remain_in_def)
      then have "outcome F (\<lambda>s'. sched_inv R s' \<and> frame {} s2 s' \<and>
          (\<forall>r \<in> set (rules_remain_list s'). is_executing (rules s' r))) (initial_loop ops k s2)"
        using w2[OF True] Suc.prems(4) by (intro Suc.IH frame_graph_ok[OF f2 Suc.prems(1)] i2) auto
      then have "outcome F (\<lambda>s'. sched_inv R s' \<and> frame {} s s' \<and>
          (\<forall>r \<in> set (rules_remain_list s'). is_executing (rules s' r))) (initial_loop ops k s2)"
        by (rule outcome_mono) (use frame_trans[OF f2] in blast)
      then show ?thesis using bs True by simp
    next
      case False
      then show ?thesis using bs i2 f2 e2 sub[OF f2 i2] by auto
    qed
  qed
qed simp

section \<open>The invariant of the loop\<close>

text \<open>
  Every rule that is queued and not executed waits in \<open>ruleids_to_run\<close>, runs as a child or has
  failed; a running rule has started at least no more than its commands.
\<close>

definition cmd_ok :: "'w loop \<Rightarrow> bool" where
  "cmd_ok l = ((\<forall>r. \<not> is_queued (rules (sch l) r) \<longrightarrow> cmdidx (rules (sch l) r) = 0) \<and>
     (\<forall>r \<in> set (ruleids_to_run (sch l)). cmdidx (rules (sch l) r) = 0) \<and>
     (\<forall>r \<in> set (children l). cmdidx (rules (sch l) r) \<le> length (cmd (rules (sch l) r))))"

definition loop_inv :: "'w sched \<Rightarrow> nat set \<Rightarrow> 'w loop \<Rightarrow> bool" where
  "loop_inv s0 Fd l = (sched_inv (set (children l) \<union> Fd) (sch l) \<and> set (children l) \<inter> Fd = {} \<and>
     (cmdfailed l \<longleftrightarrow> Fd \<noteq> {}) \<and> distinct (children l) \<and> graph_ok (sch l) \<and>
     (\<forall>r. \<not> is_under_consideration (rules (sch l) r)) \<and> cmd_ok l \<and>
     rules_size (sch l) = rules_size s0 \<and> (\<forall>r. dep_ids (sch l) r = dep_ids s0 r))"

lemma rule_ok_cmdidx: "rule_ok (cmdidx_update f a) = rule_ok a"
  by (simp add: rule_ok_def has_dep_def)

lemma spawn_rules:
  assumes "spawn_child r s = Inr s'"
  shows "s' = upd_rule r (cmdidx_update Suc) s" "cmdidx (rules s r) < length (cmd (rules s r))"
  using assms by (auto simp: spawn_child_def split: if_splits)

lemma cmdidx_inv:
  assumes "sched_inv R s"
  shows "sched_inv R (upd_rule r (cmdidx_update Suc) s)"
proof -
  have "rule_ok (cmdidx_update Suc (rules s r))"
    unfolding rule_ok_cmdidx by (rule sched_invD(1)[OF assms])
  then show ?thesis by (intro inv_upd[OF assms]) auto
qed

lemma cmdidx_graph: "graph_ok (upd_rule r (cmdidx_update Suc) s) = graph_ok s"
proof -
  have hd: "has_dep (rules (upd_rule r (cmdidx_update Suc) s) x) = has_dep (rules s x)" for x
    by (simp add: has_dep_def)
  have bd: "back_deps (upd_rule r (cmdidx_update Suc) s) x = back_deps s x" for x
    by (simp add: back_deps_def)
  have sz: "rules_size (upd_rule r (cmdidx_update Suc) s) = rules_size s" by simp
  have di: "dep_ids (upd_rule r (cmdidx_update Suc) s) x = dep_ids s x" for x
    by (simp add: dep_ids_def)
  show ?thesis unfolding graph_ok_def hd bd sz di ..
qed

lemma cmdidx_dep_ids: "dep_ids (upd_rule r (cmdidx_update Suc) s) x = dep_ids s x"
  by (simp add: dep_ids_def)

text \<open>A rule of \<open>ruleids_to_run\<close> is moved to the set of those being carried out.\<close>

lemma to_run_pop:
  assumes "sched_inv R s" "ruleids_to_run s = xs @ [r]"
  shows "sched_inv (insert r R) (s\<lparr> ruleids_to_run := xs \<rparr>)" "r \<notin> R" "r \<notin> set xs"
proof -
  have q: "queue_ok R s" using assms(1) by (simp add: sched_inv_def)
  show nr: "r \<notin> R" "r \<notin> set xs" using q assms(2) by (auto simp: queue_ok_def)
  have "queue_ok (insert r R) (s\<lparr> ruleids_to_run := xs \<rparr>)"
    using q assms(2) by (auto simp: queue_ok_def)
  then show "sched_inv (insert r R) (s\<lparr> ruleids_to_run := xs \<rparr>)"
    using assms(1) by (simp add: sched_inv_def deps_ok_def dep_ids_def remain_ok_def)
qed

lemma graph_ok_to_run [simp]: "graph_ok (s\<lparr> ruleids_to_run := xs \<rparr>) = graph_ok s"
  by (simp add: graph_ok_def dep_ids_def back_deps_def)

lemma dep_ids_to_run [simp]: "dep_ids (s\<lparr> ruleids_to_run := xs \<rparr>) r = dep_ids s r"
  by (simp add: dep_ids_def)

lemma fork_inv:
  assumes inv: "loop_inv s0 Fd l" and xs: "ruleids_to_run (sch l) = xs @ [r]"
  shows "outcome F (loop_inv s0 Fd) (bind_res (spawn_child r (sch l)) (\<lambda>s.
      Inr (l\<lparr> sch := s\<lparr> ruleids_to_run := xs \<rparr>, children := r # children l \<rparr>)))"
proof -
  have i: "sched_inv (set (children l) \<union> Fd) (sch l)" using inv by (simp add: loop_inv_def)
  note pop = to_run_pop[OF i xs]
  have q: "queue_ok (set (children l) \<union> Fd) (sch l)" using i by (simp add: sched_inv_def)
  have c: "cmd (rules (sch l) r) \<noteq> []" "cmdidx (rules (sch l) r) = 0"
    using q xs inv by (auto simp: queue_ok_def loop_inv_def cmd_ok_def)
  have sp: "spawn_child r (sch l) = Inr (upd_rule r (cmdidx_update Suc) (sch l))"
    using c by (simp add: spawn_child_def)
  let ?s = "(upd_rule r (cmdidx_update Suc) (sch l))\<lparr> ruleids_to_run := xs \<rparr>"
  have "sched_inv (insert r (set (children l) \<union> Fd)) ?s"
    using cmdidx_inv[OF pop(1), of r] by (simp add: upd_rule_to_run)
  moreover have "graph_ok ?s" using inv by (simp add: cmdidx_graph loop_inv_def)
  moreover have "dep_ids ?s x = dep_ids s0 x" for x
    using inv by (simp add: cmdidx_dep_ids loop_inv_def)
  moreover have "cmd_ok (l\<lparr> sch := ?s, children := r # children l \<rparr>)"
    using inv xs c pop(2,3) q by (auto simp: cmd_ok_def loop_inv_def queue_ok_def Suc_le_eq)
  ultimately show ?thesis
    using inv pop(2) unfolding sp by (auto simp: loop_inv_def)
qed

lemma next_cmd_inv:
  assumes inv: "loop_inv s0 Fd l" and r: "r \<in> set (children l)" "\<not> ready r (sch l)"
  shows "outcome F (loop_inv s0 Fd) (bind_res (spawn_child r (sch l)) (\<lambda>s. Inr (l\<lparr> sch := s \<rparr>)))"
proof -
  have i: "sched_inv (set (children l) \<union> Fd) (sch l)" using inv by (simp add: loop_inv_def)
  have q: "queue_ok (set (children l) \<union> Fd) (sch l)" using i by (simp add: sched_inv_def)
  have c: "cmdidx (rules (sch l) r) < length (cmd (rules (sch l) r))"
    using r inv by (auto simp: ready_def loop_inv_def cmd_ok_def)
  then have sp: "spawn_child r (sch l) = Inr (upd_rule r (cmdidx_update Suc) (sch l))"
    by (simp add: spawn_child_def)
  let ?s = "upd_rule r (cmdidx_update Suc) (sch l)"
  have "graph_ok ?s" using inv by (simp add: cmdidx_graph loop_inv_def)
  moreover have "dep_ids ?s x = dep_ids s0 x" for x
    using inv by (simp add: cmdidx_dep_ids loop_inv_def)
  moreover have "cmd_ok (l\<lparr> sch := ?s \<rparr>)"
    using inv r(1) c q by (auto simp: cmd_ok_def loop_inv_def queue_ok_def)
  ultimately show ?thesis
    using inv cmdidx_inv[OF i, of r] unfolding sp by (auto simp: loop_inv_def)
qed

lemma finished_inv:
  assumes ops: "ops_ok F ops" and inv: "loop_inv s0 Fd l" and r: "r \<in> set (children l)"
  shows "outcome F (loop_inv s0 Fd)
    (bind_res (mark_executed ops (sched_fuel (sch l)) r True (sch l)) (\<lambda>s.
      Inr (l\<lparr> sch := s, children := remove1 r (children l) \<rparr>)))"
proof -
  let ?R = "set (children l) \<union> Fd"
  have i: "sched_inv ?R (sch l)" and g: "graph_ok (sch l)" and dist: "distinct (children l)"
    and disj: "set (children l) \<inter> Fd = {}" and c: "cmd_ok l"
    using inv by (simp_all add: loop_inv_def)
  have q: "queue_ok ?R (sch l)" using i by (simp add: sched_inv_def)
  have rq: "is_queued (rules (sch l) r)" using q r by (auto simp: queue_ok_def)
  have "r < rules_size (sch l)"
    using rule_ok_simps(2)[OF sched_invD(1)[OF i] rq] i by (simp add: sched_inv_def)
  moreover have "4 * work (sch l) - 1 \<le> sched_fuel (sch l)"
    using sched_fuel_enough[of "sch l"] by simp
  moreover have "r \<in> ?R" using r by simp
  ultimately have "outcome F (\<lambda>s'. sched_inv (?R - {r}) s' \<and> frame {r} (sch l) s' \<and>
      is_executed (rules s' r) \<and>
      is_under_consideration (rules s' r) = is_under_consideration (rules (sch l) r))
    (mark_executed ops (sched_fuel (sch l)) r True (sch l))"
    using all_specs[OF ops, of "sched_fuel (sch l)"] g i unfolding mark_executed_spec_def by blast
  then show ?thesis
  proof (rule outcome_bind, elim conjE)
    fix s'
    assume i': "sched_inv (?R - {r}) s'" and f: "frame {r} (sch l) s'" and x': "is_executed (rules s' r)"
      and u: "is_under_consideration (rules s' r) = is_under_consideration (rules (sch l) r)"
    let ?l = "l\<lparr> sch := s', children := remove1 r (children l) \<rparr>"
    have R': "set (remove1 r (children l)) \<union> Fd = ?R - {r}" using r dist disj by auto
    have q': "queue_ok (?R - {r}) s'" using i' by (simp add: sched_inv_def)
    have idx: "cmdidx (rules s' x) = cmdidx (rules (sch l) x)" for x
      using f by (simp add: frame_def mono_le_def)
    have cm: "is_queued (rules (sch l) x) \<Longrightarrow> cmd (rules s' x) = cmd (rules (sch l) x)" for x
      using f by (simp add: frame_def mono_le_def)
    have nq: "is_queued (rules s' x)" if "is_queued (rules (sch l) x)" for x
      using that by (rule frameD(4)[OF f])
    have "cmdidx (rules s' x) = 0" if x: "x \<in> set (ruleids_to_run s')" for x
    proof (cases "is_queued (rules (sch l) x)")
      case True
      have "x \<notin> ?R - {r}" "\<not> is_executed (rules s' x)" using q' x by (auto simp: queue_ok_def)
      then have "x \<notin> ?R" "\<not> is_executed (rules (sch l) x)" using x' frameD(3)[OF f, of x] by auto
      then have "x \<in> set (ruleids_to_run (sch l))" using q True unfolding queue_ok_def by blast
      then show ?thesis using c idx by (simp add: cmd_ok_def)
    next
      case False
      then show ?thesis using c idx by (simp add: cmd_ok_def)
    qed
    moreover have "is_queued (rules (sch l) x)" if "x \<in> set (children l)" for x
      using that q by (auto simp: queue_ok_def)
    ultimately have "cmd_ok ?l"
      using c idx cm nq set_remove1_subset[of r "children l"] unfolding cmd_ok_def by fastforce
    moreover have "\<not> is_under_consideration (rules s' x)" for x
      using inv u frame_under[OF f, of x] by (cases "x = r") (simp_all add: loop_inv_def)
    moreover have "sched_inv (set (remove1 r (children l)) \<union> Fd) s'" using i' R' by simp
    moreover have "set (remove1 r (children l)) \<inter> Fd = {}" using disj set_remove1_subset by fast
    ultimately have "loop_inv s0 Fd ?l"
      using inv frame_graph_ok[OF f g] frameD(1)[OF f] frameD(9)[OF f] by (simp add: loop_inv_def)
    then show "outcome F (loop_inv s0 Fd) (Inr ?l)" by simp
  qed
qed

lemma failed_inv:
  assumes inv: "loop_inv s0 Fd l" and r: "r \<in> set (children l)"
  shows "loop_inv s0 (insert r Fd) (l\<lparr> children := remove1 r (children l), cmdfailed := True \<rparr>)"
proof -
  have "set (remove1 r (children l)) \<union> insert r Fd = set (children l) \<union> Fd"
    "set (remove1 r (children l)) \<inter> insert r Fd = {}"
    using inv r by (auto simp: loop_inv_def)
  then show ?thesis
    using inv set_remove1_subset[of r "children l"]
    by (auto simp: loop_inv_def cmd_ok_def)
qed

lemma run_step_inv:
  assumes ops: "ops_ok F ops" and inv: "loop_inv s0 Fd l" and step: "run_step ops keep l x"
  shows "outcome F (\<lambda>l'. \<exists>Fd. loop_inv s0 Fd l') x"
  using step
proof (cases rule: run_step.cases)
  case (fork xs r)
  then show ?thesis using outcome_mono[OF fork_inv[OF inv fork(2)], of "\<lambda>l'. \<exists>Fd. loop_inv s0 Fd l'"] by blast
next
  case (next_cmd r)
  then show ?thesis
    using outcome_mono[OF next_cmd_inv[OF inv next_cmd(2,3)], of "\<lambda>l'. \<exists>Fd. loop_inv s0 Fd l'"] by blast
next
  case (finished r)
  then show ?thesis
    using outcome_mono[OF finished_inv[OF ops inv finished(2)], of "\<lambda>l'. \<exists>Fd. loop_inv s0 Fd l'"] by blast
next
  case (failed r)
  then show ?thesis using failed_inv[OF inv failed(2)] ops by (auto simp: ops_ok_def)
next
  case (env w)
  have "dep_ids ((sch l)\<lparr> world := w \<rparr>) r = dep_ids (sch l) r" for r by (simp add: dep_ids_def)
  then have "loop_inv s0 Fd (l\<lparr> sch := (sch l)\<lparr> world := w \<rparr> \<rparr>)"
    using inv by (simp add: loop_inv_def cmd_ok_def)
  then show ?thesis using env by auto
qed

text \<open>The state in which \<open>main\<close> calls \<open>run_loop\<close>: the remaining dependencies are counted and no rule has
  been looked at.\<close>

definition start_ok :: "'w sched \<Rightarrow> bool" where
  "start_ok s = (sched_inv {} s \<and> graph_ok s \<and> remain_in s \<and> (\<forall>r \<ge> rules_size s. deplist (rules s r) = []) \<and>
     (\<forall>r. \<not> is_queued (rules s r) \<and> \<not> is_under_consideration (rules s r) \<and> \<not> is_executing (rules s r) \<and>
       cmdidx (rules s r) = 0))"

lemma start_okD:
  assumes "start_ok s"
  shows "sched_inv {} s" "graph_ok s" "remain_in s" "r \<ge> rules_size s \<Longrightarrow> deplist (rules s r) = []"
    "\<not> is_queued (rules s r)" "\<not> is_under_consideration (rules s r)" "\<not> is_executing (rules s r)"
    "cmdidx (rules s r) = 0"
  using assms by (auto simp: start_ok_def)

lemma prepare_start_ok:
  assumes "raw_ok s"
  shows "start_ok (prepare_rules s)"
proof -
  have "remain_in (prepare_rules s)" "\<forall>r \<ge> rules_size s. deplist (rules (prepare_rules s) r) = []"
    "rules_size (prepare_rules s) = rules_size s"
    using assms by (auto simp: remain_in_def raw_ok_def prepare_rules_def)
  then show ?thesis using prepare_raw_ok[OF assms] by (simp add: start_ok_def)
qed

lemma run_start_ok:
  assumes ops: "ops_ok F ops" and st: "start_ok s0"
  shows "outcome F (\<lambda>s'. sched_inv {} s' \<and> frame {} s0 s' \<and>
      (\<forall>r \<in> set (rules_remain_list s'). is_executing (rules s' r))) (run_start ops s0)"
proof -
  have "work s0 < 2 * rules_size s0 + 1" using work_bound[of s0] by simp
  then show ?thesis
    unfolding run_start_def using start_okD(1-3)[OF st] by (intro initial_loop_ok[OF ops]) auto
qed

lemma reach_inv:
  assumes ops: "ops_ok F ops" and st: "start_ok s0" and reach: "reach ops keep s0 l"
  shows "\<exists>Fd. loop_inv s0 Fd l"
  using reach
proof (induction rule: reach.induct)
  case (start s)
  have s: "sched_inv {} s" "frame {} s0 s"
    using outcome_Inr[OF run_start_ok[OF ops st] start] by blast+
  have f: "\<not> is_under_consideration (rules s r)" for r
    using frame_under[OF s(2), of r] start_okD(6)[OF st, of r] by simp
  have idx: "cmdidx (rules s r) = 0" for r
    using s(2) start_okD(8)[OF st, of r] by (simp add: frame_def mono_le_def)
  have "loop_inv s0 {} \<lparr>sch = s, children = [], cmdfailed = False\<rparr>"
    using s(1) f idx frame_graph_ok[OF s(2) start_okD(2)[OF st]] frameD(1)[OF s(2)] frameD(9)[OF s(2)]
    by (simp add: loop_inv_def cmd_ok_def)
  then show ?case by blast
next
  case (step l l')
  then show ?case using outcome_Inr[OF run_step_inv[OF ops _ step(2)]] by blast
qed

section \<open>A small build\<close>

text \<open>
  Rules for concrete runs: the dependencies of a rule by rule id, each possibly after a wait position,
  and the rules that depend on it.  A rule is queued when its id is listed in the world.
\<close>

definition ex_dep :: "nat \<times> bool \<Rightarrow> stirdep" where
  "ex_dep dw = \<lparr> nameidx = fst dw, nameidxnodir = None, is_recursive = False, is_orderonly = False,
     is_wait = snd dw, is_primary = True, is_dupe = False, dep_is_inc = False, dep_ruleid = int (fst dw) \<rparr>"

definition ex_rule :: "(nat \<times> bool) list \<Rightarrow> nat list \<Rightarrow> bool \<Rightarrow> rule" where
  "ex_rule ds bs goal = zero_rule\<lparr> remain := goal, deplist := map ex_dep ds, firstdepblock := [bs] \<rparr>"

definition ex_sched :: "rule list \<Rightarrow> nat list \<Rightarrow> nat list sched" where
  "ex_sched rs outdated = \<lparr> rules = (\<lambda>r. if r < length rs then rs ! r else zero_rule),
     rules_size = length rs, st_ruleid = (\<lambda>_. -1), rules_remain_list = [0], later_blocks = [],
     later_last = 0, ruleids_to_run = [], world = outdated \<rparr>"

definition ex_ops :: "nat list ops" where
  "ex_ops = \<lparr> decide = (\<lambda>r s. Inr (r \<in> set (world s), [[''cc'']], None, world s)),
     finish_exec = (\<lambda>r was s. Inr (world s)), accessible = (\<lambda>n w. (True, w)) \<rparr>"

text \<open>\<open>prog: obj\<close>, where \<open>obj\<close> is up to date and \<open>prog\<close> is not.\<close>

definition ex_two :: "nat list sched" where
  "ex_two = prepare_rules (ex_sched [ex_rule [(1, False)] [] True, ex_rule [] [0] False] [0])"

text \<open>\<open>all: a @wait b\<close>, where \<open>a\<close> and \<open>all\<close> are out of date and \<open>b\<close> is up to date.\<close>

definition ex_wait :: "nat list sched" where
  "ex_wait = prepare_rules (ex_sched [ex_rule [(1, False), (2, True)] [] True, ex_rule [] [0] False,
     ex_rule [] [0] False] [0, 1])"

lemma ex_ops_ok: "ops_ok (range Exited) ex_ops"
  by (simp add: ops_ok_def ex_ops_def)

lemma ex_dep_ids:
  "dep_ids (ex_sched rs ws) r =
     (if r < length rs then {d. \<exists>e \<in> set (deplist (rs ! r)). \<not> is_dupe e \<and> stirdep_ruleid (\<lambda>_. -1) e = Some d}
      else {})"
  by (simp add: dep_ids_def ex_sched_def zero_rule_def)

lemma ex_dep_ruleid [simp]: "stirdep_ruleid tab (ex_dep (d, w)) = Some d" "\<not> is_dupe (ex_dep (d, w))"
  by (simp_all add: stirdep_ruleid_def ex_dep_def)

definition ex_raw :: "nat list sched" where
  "ex_raw = ex_sched [ex_rule [(1, False)] [] True, ex_rule [] [0] False] [0]"

lemma ex_raw_ok: "raw_ok ex_raw"
proof -
  have s: "ex_raw = ex_sched [ex_rule [(1, False)] [] True, ex_rule [] [0] False] [0]" by (rule ex_raw_def)
  have r2: "r < 2 \<Longrightarrow> r = 0 \<or> r = 1" for r :: nat by auto
  have rules: "rules ex_raw r = (if r = 0 then ex_rule [(1, False)] [] True else
      if r = 1 then ex_rule [] [0] False else zero_rule)" for r
    by (auto simp: s ex_sched_def dest: r2)
  have size: "rules_size ex_raw = 2" "st_ruleid ex_raw = (\<lambda>_. -1)" "rules_remain_list ex_raw = [0]"
      "ruleids_to_run ex_raw = []"
    by (simp_all add: s ex_sched_def)
  have ids: "dep_ids ex_raw r = (if r = 0 then {1} else {})" for r
    by (simp add: dep_ids_def rules size ex_rule_def zero_rule_def)
  have "graph_ok ex_raw"
    unfolding graph_ok_def ids size using r2
    by (auto simp: back_deps_def rules ex_rule_def zero_rule_def has_dep_def)
  moreover have "remain_ok ex_raw"
    by (auto simp: remain_ok_def size rules ex_rule_def zero_rule_def split: if_splits)
  ultimately show ?thesis
    by (simp add: raw_ok_def size rules raw_rule_def ex_rule_def zero_rule_def)
qed

lemma ex_two_raw: "ex_two = prepare_rules ex_raw"
  by (simp add: ex_two_def ex_raw_def)

lemma ex_two_start: "start_ok ex_two"
  unfolding ex_two_raw by (rule prepare_start_ok[OF ex_raw_ok])

lemma ex_two_run:
  "\<exists>l. reach ex_ops False ex_two l \<and> children l = [0] \<and> ruleids_to_run (sch l) = []"
proof -
  have "case run_start ex_ops ex_two of
      Inr s \<Rightarrow> ruleids_to_run s = [0] \<and> cmdidx (rules s 0) = 0 \<and> cmd (rules s 0) = [[''cc'']]
    | Inl f \<Rightarrow> False" by code_simp
  then obtain s where s: "run_start ex_ops ex_two = Inr s" "ruleids_to_run s = [] @ [0]"
      "cmdidx (rules s 0) = 0" "cmd (rules s 0) = [[''cc'']]"
    by (auto split: sum.splits)
  have r: "reach ex_ops False ex_two \<lparr> sch = s, children = [], cmdfailed = False \<rparr>"
    by (rule reach.start[OF s(1)])
  have "run_step ex_ops False \<lparr> sch = s, children = [], cmdfailed = False \<rparr>
      (Inr \<lparr> sch = (upd_rule 0 (cmdidx_update Suc) s)\<lparr> ruleids_to_run := [] \<rparr>, children = [0], cmdfailed = False \<rparr>)"
    using run_step.fork[of "\<lparr> sch = s, children = [], cmdfailed = False \<rparr>" "[]" 0 ex_ops False] s(2-)
    by (simp add: spawn_child_def)
  from reach.step[OF r this] show ?thesis by force
qed

section \<open>What the loop guarantees\<close>

text \<open>
  C5: A recipe runs only after everything it depends on: whenever a rule is among the running
  children, every rule that makes one of its dependencies has been executed, for all goals, all wait
  positions, every order in which children end, and with or without \<open>-k\<close>.  The dependencies are those of
  the graph that the loop is given: commands that add dependencies while they are evaluated (\<open>@adddeps\<close>)
  are left out (see \<open>ops\<close>).
\<close>

theorem run_loop_order:
  assumes "ops_ok F ops" "start_ok s0" "reach ops keep s0 l" "r \<in> set (children l)" "d \<in> dep_ids s0 r"
  shows "is_executed (rules (sch l) d)"
proof -
  obtain Fd where inv: "loop_inv s0 Fd l" using reach_inv[OF assms(1-3)] by blast
  then have i: "sched_inv (set (children l) \<union> Fd) (sch l)" and d: "d \<in> dep_ids (sch l) r"
    using assms(5) by (simp_all add: loop_inv_def)
  have "is_queued (rules (sch l) r)" using i assms(4) by (auto simp: sched_inv_def queue_ok_def)
  then show ?thesis by (rule sched_invD(3)[OF i d])
qed

theorem run_loop_order_witness:
  "\<exists>l. reach ex_ops False ex_two l \<and> children l = [0] \<and> is_executed (rules (sch l) 1)"
proof -
  obtain l where l: "reach ex_ops False ex_two l" "children l = [0]" using ex_two_run by blast
  have "1 \<in> dep_ids ex_two 0" by (auto simp: ex_two_def prepare_dep_ids ex_dep_ids ex_rule_def zero_rule_def)
  then show ?thesis using run_loop_order[OF ex_ops_ok ex_two_start l(1), of 0 1] l by auto
qed

text \<open>
  C7: No rule is run twice and no executed rule is run again: at any time the children and the rules
  waiting in \<open>ruleids_to_run\<close> are all different and none of them is executed, and what is executed has
  all its dependencies executed.  Commands that add dependencies while they are evaluated (\<open>@adddeps\<close>) are
  left out (see \<open>ops\<close>).
\<close>

theorem run_loop_once:
  assumes "ops_ok F ops" "start_ok s0" "reach ops keep s0 l"
  shows "distinct (children l @ ruleids_to_run (sch l)) \<and>
    (\<forall>r \<in> set (children l @ ruleids_to_run (sch l)). \<not> is_executed (rules (sch l) r)) \<and>
    (\<forall>r. is_executed (rules (sch l) r) \<longrightarrow> (\<forall>d \<in> dep_ids s0 r. is_executed (rules (sch l) d)))"
proof -
  obtain Fd where inv: "loop_inv s0 Fd l" using reach_inv[OF assms] by blast
  then have i: "sched_inv (set (children l) \<union> Fd) (sch l)" by (simp add: loop_inv_def)
  have q: "queue_ok (set (children l) \<union> Fd) (sch l)" using i by (simp add: sched_inv_def)
  have "distinct (children l @ ruleids_to_run (sch l))"
    using inv q by (auto simp: loop_inv_def queue_ok_def)
  moreover have "\<forall>r \<in> set (children l @ ruleids_to_run (sch l)). \<not> is_executed (rules (sch l) r)"
    using q by (auto simp: queue_ok_def)
  moreover have "\<forall>r. is_executed (rules (sch l) r) \<longrightarrow> (\<forall>d \<in> dep_ids s0 r. is_executed (rules (sch l) d))"
    using sched_invD(3)[OF i] rule_ok_simps(1)[OF sched_invD(1)[OF i]] inv
    by (auto simp: loop_inv_def)
  ultimately show ?thesis by blast
qed

theorem run_loop_once_witness:
  "\<exists>l. reach ex_ops False ex_two l \<and> distinct (children l @ ruleids_to_run (sch l)) \<and>
     \<not> is_executed (rules (sch l) 0)"
proof -
  obtain l where l: "reach ex_ops False ex_two l" "children l = [0]" using ex_two_run by blast
  then show ?thesis using run_loop_once[OF ex_ops_ok ex_two_start l(1)] by auto
qed

text \<open>
  C8: No operation that the loop performs on the rule base aborts: with operations on the world that end at
  worst in \<open>errxit\<close>, neither the initial considering nor any later step of the loop runs into the \<open>my_abort\<close> of
  a function of the scheduler, a null \<open>waitloc\<close>, or too small a fuel, so \<open>deps_remain_forwait\<close> always finds its
  entry, \<open>deps_remain_erase\<close> never underflows, \<open>mark_executed\<close> is called once per rule and \<open>spawn_child\<close>
  always has a command.  This is about what happens inside the loop.  The \<open>my_abort\<close> behind it, for goals
  that are left when nothing runs any more (\<open>Out of children, yet not all targets made\<close>, \<open>run_loop_end\<close>), is
  not part of it: wait positions can reach that one (\<open>wait_stall\<close>), and \<open>run_loop_complete\<close> says when it is
  out of reach.  Commands that add dependencies while they are evaluated (\<open>@adddeps\<close>) are left out (see \<open>ops\<close>).
\<close>

theorem run_loop_no_abort:
  assumes "ops_ok (range Exited) ops" "start_ok s0"
  shows "outcome (range Exited) (\<lambda>_. True) (run_start ops s0) \<and>
    (\<forall>l x. reach ops keep s0 l \<longrightarrow> run_step ops keep l x \<longrightarrow> outcome (range Exited) (\<lambda>_. True) x)"
proof (intro conjI allI impI)
  show "outcome (range Exited) (\<lambda>_. True) (run_start ops s0)"
    by (rule outcome_mono[OF run_start_ok[OF assms]]) simp
next
  fix l x
  assume "reach ops keep s0 l" "run_step ops keep l x"
  then obtain Fd where "loop_inv s0 Fd l" using reach_inv[OF assms] by blast
  from run_step_inv[OF assms(1) this \<open>run_step ops keep l x\<close>]
  show "outcome (range Exited) (\<lambda>_. True) x" by (rule outcome_mono) simp
qed

theorem run_loop_no_abort_witness:
  "outcome (range Exited) (\<lambda>_. True) (run_start ex_ops ex_two)"
  using run_loop_no_abort[OF ex_ops_ok ex_two_start] by blast

text \<open>The state in which \<open>run_loop\<close> leaves its loop: no child and nothing to fork.\<close>

definition loop_ended :: "'w loop \<Rightarrow> bool" where
  "loop_ended l = (children l = [] \<and> ruleids_to_run (sch l) = [])"

text \<open>A run in which one rule with one command is started and ends well.\<close>

definition run_one :: "'w ops \<Rightarrow> nat \<Rightarrow> 'w sched \<Rightarrow> 'w sched res" where
  "run_one ops r s0 = bind_res (run_start ops s0) (\<lambda>s.
     if ruleids_to_run s = [r] \<and> cmdidx (rules s r) = 0 \<and> length (cmd (rules s r)) = 1 then
       let s' = (upd_rule r (cmdidx_update Suc) s)\<lparr> ruleids_to_run := [] \<rparr>
       in mark_executed ops (sched_fuel s') r True s'
     else Inl Aborted)"

lemma run_one_steps:
  assumes "run_one ops r s0 = Inr s2"
  shows "\<exists>l0 l1. reach ops keep s0 l0 \<and> children l0 = [] \<and> run_step ops keep l0 (Inr l1) \<and> children l1 = [r] \<and>
    run_step ops keep l1 (Inr \<lparr> sch = s2, children = [], cmdfailed = False \<rparr>)"
proof -
  let ?f = "\<lambda>s. (upd_rule r (cmdidx_update Suc) s)\<lparr> ruleids_to_run := [] \<rparr>"
  obtain s where s: "run_start ops s0 = Inr s" "ruleids_to_run s = [] @ [r]" "cmdidx (rules s r) = 0"
      "length (cmd (rules s r)) = 1" "mark_executed ops (sched_fuel (?f s)) r True (?f s) = Inr s2"
    using assms by (auto simp: run_one_def Let_def stir_simps split: if_splits)
  let ?l0 = "\<lparr> sch = s, children = [], cmdfailed = False \<rparr>"
  let ?l1 = "\<lparr> sch = ?f s, children = [r], cmdfailed = False \<rparr>"
  have "reach ops keep s0 ?l0" by (rule reach.start[OF s(1)])
  moreover have "run_step ops keep ?l0 (Inr ?l1)"
    using run_step.fork[of ?l0 "[]" r ops keep] s(2-4) by (simp add: spawn_child_def)
  moreover have "run_step ops keep ?l1 (Inr \<lparr> sch = s2, children = [], cmdfailed = False \<rparr>)"
    using run_step.finished[of r ?l1 ops keep] s(3-5) by (simp add: ready_def)
  ultimately show ?thesis
    by (intro exI[of _ ?l0] exI[of _ ?l1]) simp
qed

lemma run_one_reach:
  assumes "run_one ops r s0 = Inr s2"
  shows "reach ops keep s0 \<lparr> sch = s2, children = [], cmdfailed = False \<rparr>"
proof -
  obtain l0 l1 where "reach ops keep s0 l0" "run_step ops keep l0 (Inr l1)"
      "run_step ops keep l1 (Inr \<lparr> sch = s2, children = [], cmdfailed = False \<rparr>)"
    using run_one_steps[OF assms, of keep] by (elim exE conjE)
  then show ?thesis by (rule reach.step[OF reach.step])
qed

text \<open>
  A wait position can stall the build: for \<open>all: a @wait b\<close> with \<open>a\<close> out of date and \<open>b\<close> up
  to date the loop ends without a failure although \<open>all\<close> is not executed and both its dependencies
  are.  (\<open>reconsider\<close> decides with \<open>deps_remain_cnt\<close> as it was before the loop that marks \<open>b\<close>
  executed, and no further event reconsiders \<open>all\<close>.)
\<close>

theorem wait_stall:
  "\<exists>l. reach ex_ops False ex_wait l \<and> loop_ended l \<and> \<not> cmdfailed l \<and>
     rules_remain_list (sch l) = [0] \<and> \<not> is_executed (rules (sch l) 0) \<and>
     is_executed (rules (sch l) 1) \<and> is_executed (rules (sch l) 2)"
proof -
  have "case run_one ex_ops 1 ex_wait of Inl f \<Rightarrow> False
    | Inr s \<Rightarrow> ruleids_to_run s = [] \<and> rules_remain_list s = [0] \<and> \<not> is_executed (rules s 0) \<and>
       is_executed (rules s 1) \<and> is_executed (rules s 2)" by code_simp
  then obtain s where s: "run_one ex_ops 1 ex_wait = Inr s" "ruleids_to_run s = []" "rules_remain_list s = [0]"
      "\<not> is_executed (rules s 0)" "is_executed (rules s 1)" "is_executed (rules s 2)"
    by (auto split: sum.splits)
  show ?thesis
    by (rule exI[of _ "\<lparr> sch = s, children = [], cmdfailed = False \<rparr>"])
       (use run_one_reach[OF s(1), of False] s(2-) in \<open>simp add: loop_ended_def\<close>)
qed

end
