(* ===== verification/Liveness.thy ===== *)
theory Liveness
  imports Run_Loop
begin

text \<open>
  Progress of the scheduler: without wait positions, on a graph whose back edges are complete, and
  when no cycle can be reached from a goal, the loop ends without a failed command only when every
  goal has been executed, so the message \<open>Out of children, yet not all targets made\<close> cannot appear.
  With wait positions this fails, as the theory on the loop shows.
\<close>

section \<open>The graph\<close>

definition dep_edges :: "('a) base_scheme \<Rightarrow> (nat \<times> nat) set" where
  "dep_edges s = {(r, d). d \<in> dep_ids s r}"

definition no_wait :: "('a) base_scheme \<Rightarrow> bool" where
  "no_wait s = (\<forall>r. \<forall>e \<in> set (deplist (rules s r)). \<not> is_wait e)"

definition back_complete :: "('a) base_scheme \<Rightarrow> bool" where
  "back_complete s = (\<forall>r d. r \<in> set (back_deps s d) \<longleftrightarrow> d \<in> dep_ids s r)"

definition live_graph :: "('a) base_scheme \<Rightarrow> bool" where
  "live_graph s = (no_wait s \<and> back_complete s)"

text \<open>A rule that lies on a cycle, and the rules from which one can be reached.\<close>

definition on_cycle :: "('a) base_scheme \<Rightarrow> nat \<Rightarrow> bool" where
  "on_cycle s r = ((r, r) \<in> (dep_edges s)\<^sup>+)"

definition reaches_cycle :: "('a) base_scheme \<Rightarrow> nat \<Rightarrow> bool" where
  "reaches_cycle s r = (\<exists>x. (r, x) \<in> (dep_edges s)\<^sup>* \<and> on_cycle s x)"

lemma reaches_dep: "d \<in> dep_ids s r \<Longrightarrow> reaches_cycle s d \<Longrightarrow> reaches_cycle s r"
  unfolding reaches_cycle_def dep_edges_def by (blast intro: converse_rtrancl_into_rtrancl)

lemma on_cycle_reaches: "on_cycle s r \<Longrightarrow> reaches_cycle s r"
  by (auto simp: reaches_cycle_def)

lemma self_cycle: "r \<in> dep_ids s r \<Longrightarrow> reaches_cycle s r"
  by (rule on_cycle_reaches) (auto simp: on_cycle_def dep_edges_def)

lemma reaches_cong:
  assumes "\<And>x. dep_ids s' x = dep_ids s x"
  shows "reaches_cycle s' = reaches_cycle s"
  by (intro ext) (simp add: reaches_cycle_def on_cycle_def dep_edges_def assms)

lemma frame_reaches: "frame V s s' \<Longrightarrow> reaches_cycle s' = reaches_cycle s"
  by (intro reaches_cong) (rule frameD(9))

lemma frame_live_graph:
  assumes f: "frame V s s'" and g: "live_graph s"
  shows "live_graph s'"
proof -
  show ?thesis
    using g unfolding live_graph_def no_wait_def back_complete_def frameD(6)[OF f] frameD(7)[OF f]
      frameD(9)[OF f] .
qed

section \<open>The progress invariant\<close>

text \<open>
  Only dependencies remain; a remaining dependency that is executed is about to be erased (\<open>P\<close>); the
  dependencies of a rule that was considered have been considered; and a rule that was considered and
  not queued waits for something.  No rule from which a cycle can be reached is ever considered.
\<close>

definition live :: "(nat \<times> nat) set \<Rightarrow> ('a) base_scheme \<Rightarrow> bool" where
  "live P s =
     ((\<forall>r d. deps_remain (rules s r) d \<noteq> None \<longrightarrow> d \<in> dep_ids s r) \<and>
      (\<forall>r d. deps_remain (rules s r) d \<noteq> None \<longrightarrow> is_executed (rules s d) \<longrightarrow>
         \<not> is_executed (rules s r) \<longrightarrow> (d, r) \<in> P) \<and>
      (\<forall>r. is_executing (rules s r) \<longrightarrow> \<not> is_under_consideration (rules s r) \<longrightarrow>
         (\<forall>d \<in> dep_ids s r. is_executing (rules s d))) \<and>
      (\<forall>r. is_executing (rules s r) \<longrightarrow> \<not> is_under_consideration (rules s r) \<longrightarrow>
         \<not> is_queued (rules s r) \<longrightarrow> (\<exists>d. deps_remain (rules s r) d \<noteq> None)) \<and>
      (\<forall>r. is_executing (rules s r) \<longrightarrow> \<not> reaches_cycle s r))"

lemma liveD:
  assumes "live P s"
  shows "deps_remain (rules s r) d \<noteq> None \<Longrightarrow> d \<in> dep_ids s r"
    "deps_remain (rules s r) d \<noteq> None \<Longrightarrow> is_executed (rules s d) \<Longrightarrow>
       \<not> is_executed (rules s r) \<Longrightarrow> (d, r) \<in> P"
    "is_executing (rules s r) \<Longrightarrow> \<not> is_under_consideration (rules s r) \<Longrightarrow> d \<in> dep_ids s r \<Longrightarrow>
       is_executing (rules s d)"
    "is_executing (rules s r) \<Longrightarrow> \<not> is_under_consideration (rules s r) \<Longrightarrow>
       \<not> is_queued (rules s r) \<Longrightarrow> \<exists>d. deps_remain (rules s r) d \<noteq> None"
    "is_executing (rules s r) \<Longrightarrow> \<not> reaches_cycle s r"
  using assms unfolding live_def by blast+

lemma liveI:
  assumes "\<And>r d. deps_remain (rules s r) d \<noteq> None \<Longrightarrow> d \<in> dep_ids s r"
    "\<And>r d. deps_remain (rules s r) d \<noteq> None \<Longrightarrow> is_executed (rules s d) \<Longrightarrow>
       \<not> is_executed (rules s r) \<Longrightarrow> (d, r) \<in> P"
    "\<And>r d. is_executing (rules s r) \<Longrightarrow> \<not> is_under_consideration (rules s r) \<Longrightarrow> d \<in> dep_ids s r \<Longrightarrow>
       is_executing (rules s d)"
    "\<And>r. is_executing (rules s r) \<Longrightarrow> \<not> is_under_consideration (rules s r) \<Longrightarrow>
       \<not> is_queued (rules s r) \<Longrightarrow> \<exists>d. deps_remain (rules s r) d \<noteq> None"
    "\<And>r. is_executing (rules s r) \<Longrightarrow> \<not> reaches_cycle s r"
  shows "live P s"
  using assms unfolding live_def by blast

text \<open>Two states that agree on everything the invariant looks at.\<close>

definition core_eq :: "('a) base_scheme \<Rightarrow> ('a) base_scheme \<Rightarrow> bool" where
  "core_eq s s' = (st_ruleid s' = st_ruleid s \<and> (\<forall>x.
     is_executed (rules s' x) = is_executed (rules s x) \<and> is_queued (rules s' x) = is_queued (rules s x) \<and>
     is_executing (rules s' x) = is_executing (rules s x) \<and>
     is_under_consideration (rules s' x) = is_under_consideration (rules s x) \<and>
     deplist (rules s' x) = deplist (rules s x) \<and>
     (\<forall>d. deps_remain (rules s' x) d = None \<longleftrightarrow> deps_remain (rules s x) d = None)))"

lemma core_eqD:
  assumes "core_eq s s'"
  shows "is_executed (rules s' x) = is_executed (rules s x)" "is_queued (rules s' x) = is_queued (rules s x)"
     "is_executing (rules s' x) = is_executing (rules s x)"
     "is_under_consideration (rules s' x) = is_under_consideration (rules s x)"
     "deps_remain (rules s' x) d = None \<longleftrightarrow> deps_remain (rules s x) d = None"
     "dep_ids s' x = dep_ids s x"
proof -
  show "is_executed (rules s' x) = is_executed (rules s x)" "is_queued (rules s' x) = is_queued (rules s x)"
     "is_executing (rules s' x) = is_executing (rules s x)"
     "is_under_consideration (rules s' x) = is_under_consideration (rules s x)"
     "deps_remain (rules s' x) d = None \<longleftrightarrow> deps_remain (rules s x) d = None"
    using assms unfolding core_eq_def by blast+
  have "deplist (rules s' x) = deplist (rules s x)" "st_ruleid s' = st_ruleid s"
    using assms unfolding core_eq_def by blast+
  then show "dep_ids s' x = dep_ids s x" unfolding dep_ids_def by simp
qed

lemma core_eq_refl [simp]: "core_eq s s"
  by (simp add: core_eq_def)

lemma core_eq_trans: "core_eq s s' \<Longrightarrow> core_eq s' s'' \<Longrightarrow> core_eq s s''"
  by (simp add: core_eq_def)

lemma live_cong: "core_eq s s' \<Longrightarrow> live P s' = live P s"
  unfolding live_def by (simp add: core_eqD reaches_cong[OF core_eqD(6)])

lemma core_eq_upd:
  assumes "is_executed (f (rules s r)) = is_executed (rules s r)" "is_queued (f (rules s r)) = is_queued (rules s r)"
    "is_executing (f (rules s r)) = is_executing (rules s r)"
    "is_under_consideration (f (rules s r)) = is_under_consideration (rules s r)"
    "deplist (f (rules s r)) = deplist (rules s r)"
    "\<And>d. deps_remain (f (rules s r)) d = None \<longleftrightarrow> deps_remain (rules s r) d = None"
  shows "core_eq s (upd_rule r f s)"
  using assms by (simp add: core_eq_def)

lemma core_eq_simps [simp]:
  "core_eq s (s'\<lparr> world := w \<rparr>) = core_eq s s'"
  "core_eq s (s'\<lparr> ruleids_to_run := xs \<rparr>) = core_eq s s'"
  by (simp_all add: core_eq_def)

lemma core_eq_forwait:
  assumes "deps_remain (rules s r) d \<noteq> None"
  shows "outcome F (\<lambda>s'. core_eq s (upd_rule r (wait_remain_cnt_update Suc) s'))
    (upd_rule_res r (deps_remain_forwait d) s)"
proof -
  obtain w where "deps_remain (rules s r) d = Some w" using assms by blast
  then show ?thesis
    by (simp add: upd_rule_res_def deps_remain_forwait_def upd_rule_twice core_eq_upd)
qed

lemma outcome_conj: "outcome F P x \<Longrightarrow> outcome F Q x \<Longrightarrow> outcome F (\<lambda>y. P y \<and> Q y) x"
  by (cases x) auto

section \<open>Reconsidering\<close>

text \<open>\<open>consider\<close> does nothing to a rule that was considered before.\<close>

lemma consider_trivial: "is_executing (rules s d) \<Longrightarrow> consider_rule ops (Suc n) d s = Inr (False, s)"
  by simp

lemma loop_waitloc_core: "core_eq s (upd_rule r (waitloc_update (\<lambda>_. Some i)) s)"
  by (intro core_eq_upd) auto

lemma reconsider_deps_quiet:
  assumes triv: "\<And>d s. is_executing (rules s d) \<Longrightarrow> rec d s = Inr (False, s)" and F: "range Exited \<subseteq> F"
  shows "in_loop R m r s \<Longrightarrow> \<forall>(i, e) \<in> set es. e \<in> set (deplist (rules s r)) \<Longrightarrow>
    \<forall>d \<in> dep_ids s r. is_executing (rules s d) \<Longrightarrow>
    outcome F (core_eq s) (reconsider_deps ops rec r es s)"
proof (induction es arbitrary: s)
  case (Cons ie es)
  obtain i e where ie: "ie = (i, e)" by (cases ie)
  let ?s1 = "upd_rule r (waitloc_update (\<lambda>_. Some i)) s"
  have c1: "core_eq s ?s1" by (rule loop_waitloc_core)
  have in1: "in_loop R m r ?s1" by (rule waitloc_step(1)[OF Cons.prems(1)])
  have rest: "outcome F (core_eq s) (reconsider_deps ops rec r es s2)"
    if c: "core_eq ?s1 s2" and i2: "in_loop R m r s2" and dl: "deplist (rules s2 r) = deplist (rules s r)" for s2
  proof -
    have c2: "core_eq s s2" by (rule core_eq_trans[OF c1 c])
    have "outcome F (core_eq s2) (reconsider_deps ops rec r es s2)"
      using Cons.prems(2,3) dl core_eqD(3,6)[OF c2] by (intro Cons.IH i2) auto
    then show ?thesis using core_eq_trans[OF c2] by (blast intro: outcome_mono)
  qed
  show ?case
  proof (cases "(wait_remain_cnt (rules ?s1 r) > 0 \<and> is_wait e) \<or> is_dupe e")
    case True
    then show ?thesis using ie c1 rest[OF core_eq_refl in1] by (auto simp: Let_def)
  next
    case 3: False
    show ?thesis
    proof (cases "stirdep_ruleid (st_ruleid ?s1) e")
      case None
      obtain ok w' where ow: "accessible ops (nameidx e) (world s) = (ok, w')" by fastforce
      have "outcome F (core_eq s) (reconsider_deps ops rec r es ?s1)"
        "outcome F (core_eq s) (reconsider_deps ops rec r es (?s1\<lparr>world := w'\<rparr>))"
        using in1 by (auto intro!: rest)
      then show ?thesis using ow None 3 ie F by (auto simp: Let_def)
    next
      case (Some d)
      have "d \<in> dep_ids s r" using Cons.prems(2) ie 3 Some by (intro loop_dep_id[of e]) simp_all
      then have d: "d \<in> dep_ids ?s1 r" "is_executing (rules ?s1 d)"
        using Cons.prems(3) core_eqD(3,6)[OF c1] by auto
      have "outcome F (core_eq s) (if \<not> is_executed (rules ?s1 d) then
            bind_res (upd_rule_res r (deps_remain_forwait d) ?s1) (\<lambda>s.
              reconsider_deps ops rec r es (upd_rule r (wait_remain_cnt_update Suc) s))
          else reconsider_deps ops rec r es ?s1)"
      proof (cases "is_executed (rules ?s1 d)")
        case True
        then show ?thesis using rest[OF core_eq_refl in1] by simp
      next
        case False
        have "deps_remain (rules ?s1 r) d \<noteq> None"
          using in1 sched_invD(2)[OF _ d(1) False] unfolding in_loop_def by blast
        then have "outcome F (\<lambda>s'. core_eq ?s1 (upd_rule r (wait_remain_cnt_update Suc) s') \<and>
            loop_post R m r ?s1 (upd_rule r (wait_remain_cnt_update Suc) s'))
            (upd_rule_res r (deps_remain_forwait d) ?s1)"
          by (intro outcome_conj core_eq_forwait loop_forwait[OF in1 d(1) False])
        then have "outcome F (core_eq s) (bind_res (upd_rule_res r (deps_remain_forwait d) ?s1) (\<lambda>s.
            reconsider_deps ops rec r es (upd_rule r (wait_remain_cnt_update Suc) s)))"
        proof (rule outcome_bind, elim conjE)
          fix s'
          assume c: "core_eq ?s1 (upd_rule r (wait_remain_cnt_update Suc) s')"
            and l: "loop_post R m r ?s1 (upd_rule r (wait_remain_cnt_update Suc) s')"
          show "outcome F (core_eq s) (reconsider_deps ops rec r es (upd_rule r (wait_remain_cnt_update Suc) s'))"
            by (rule rest[OF c loop_post_in_loop[OF l]]) (use loop_post_deps[OF l, of r] in simp)
        qed
        then show ?thesis using False by simp
      qed
      then show ?thesis using 3 Some ie c1 triv[OF d(2)] by (auto simp: Let_def)
    qed
  qed
qed simp

definition mark_live :: "cfail set \<Rightarrow> 'w ops \<Rightarrow> nat \<Rightarrow> bool" where
  "mark_live F ops n = (\<forall>r was s R P. r < rules_size s \<longrightarrow> graph_ok s \<longrightarrow> sched_inv R s \<longrightarrow>
     r \<in> R \<longrightarrow> 4 * work s - 1 \<le> n \<longrightarrow> live_graph s \<longrightarrow> live P s \<longrightarrow>
     outcome F (\<lambda>s'. live P s') (mark_executed ops n r was s))"

definition do_exec_live :: "cfail set \<Rightarrow> 'w ops \<Rightarrow> nat \<Rightarrow> bool" where
  "do_exec_live F ops n = (\<forall>r s R P. r < rules_size s \<longrightarrow> graph_ok s \<longrightarrow> sched_inv R s \<longrightarrow>
     is_executing (rules s r) \<longrightarrow> \<not> is_queued (rules s r) \<longrightarrow>
     (\<forall>d \<in> dep_ids s r. is_executed (rules s d)) \<longrightarrow> 4 * work s \<le> n \<longrightarrow> live_graph s \<longrightarrow>
     live P s \<longrightarrow> outcome F (\<lambda>(b, s'). live P s' \<and> is_queued (rules s' r)) (do_exec ops n r s))"

definition reconsider_live :: "cfail set \<Rightarrow> 'w ops \<Rightarrow> nat \<Rightarrow> bool" where
  "reconsider_live F ops n = (\<forall>r d s R P. r < rules_size s \<longrightarrow> graph_ok s \<longrightarrow> sched_inv R s \<longrightarrow>
     is_executed (rules s d) \<longrightarrow> has_dep (rules s r) \<longrightarrow> 4 * work s + 2 \<le> n \<longrightarrow> live_graph s \<longrightarrow>
     live (insert (d, r) P) s \<longrightarrow> outcome F (\<lambda>s'. live P s') (reconsider ops n r d s))"

lemma back_loop_live:
  assumes spec: "reconsider_spec F ops n" and rl: "reconsider_live F ops n"
  shows "graph_ok s \<Longrightarrow> sched_inv R s \<Longrightarrow> is_executed (rules s d) \<Longrightarrow> 4 * work s + 2 \<le> n \<Longrightarrow>
    \<forall>b \<in> set bs. b < rules_size s \<and> has_dep (rules s b) \<Longrightarrow> live_graph s \<Longrightarrow>
    live (P \<union> {(d, b) | b. b \<in> set bs}) s \<Longrightarrow>
    outcome F (\<lambda>s'. live P s') (back_loop (\<lambda>b s. reconsider ops n b d s) bs s)"
proof (induction bs arbitrary: s)
  case (Cons b bs)
  have b: "b < rules_size s" "has_dep (rules s b)" using Cons.prems(5) by simp_all
  have "P \<union> {(d, b') | b'. b' \<in> set (b # bs)} = insert (d, b) (P \<union> {(d, b') | b'. b' \<in> set bs})" by auto
  then have "live (insert (d, b) (P \<union> {(d, b') | b'. b' \<in> set bs})) s" using Cons.prems(7) by simp
  then have "outcome F (\<lambda>s'. live (P \<union> {(d, b') | b'. b' \<in> set bs}) s') (reconsider ops n b d s)"
    using rl b Cons.prems(1-4,6) unfolding reconsider_live_def by blast
  moreover have "outcome F (\<lambda>s'. sched_inv R s' \<and> frame {} s s') (reconsider ops n b d s)"
    using spec b Cons.prems(1-4) unfolding reconsider_spec_def by blast
  ultimately have "outcome F (\<lambda>s'. live (P \<union> {(d, b') | b'. b' \<in> set bs}) s' \<and> sched_inv R s' \<and> frame {} s s')
      (reconsider ops n b d s)" by (rule outcome_conj)
  then show ?case
    unfolding back_loop.simps
  proof (rule outcome_bind, elim conjE)
    fix s2
    assume l2: "live (P \<union> {(d, b') | b'. b' \<in> set bs}) s2" and i2: "sched_inv R s2" and f2: "frame {} s s2"
    show "outcome F (\<lambda>s'. live P s') (back_loop (\<lambda>b s. reconsider ops n b d s) bs s2)"
    proof (rule Cons.IH[OF frame_graph_ok[OF f2 Cons.prems(1)] i2])
      show "is_executed (rules s2 d)" by (rule frameD(3)[OF f2 Cons.prems(3)])
      show "4 * work s2 + 2 \<le> n" using frame_work[OF f2] Cons.prems(4) by simp
      show "\<forall>b \<in> set bs. b < rules_size s2 \<and> has_dep (rules s2 b)"
        using Cons.prems(5) frameD(1,8)[OF f2] by simp
    qed (rule frame_live_graph[OF f2 Cons.prems(6)], rule l2)
  qed
qed simp

text \<open>Executing a rule leaves, for each rule that depends on it, one dependency to erase.\<close>

lemma execute_live:
  assumes inv: "sched_inv R s" and r: "r \<in> R" and g: "live_graph s" and l: "live P s"
    and s1: "s1 = upd_rule r (\<lambda>x. x\<lparr> is_executed := True, is_actually_executed := was \<rparr>) (ruleremain_rm r s)"
  shows "live (P \<union> {(r, b) | b. b \<in> set (back_deps s r)}) s1"
    "\<And>x. is_executing (rules s1 x) = is_executing (rules s x)"
    "\<And>x. is_queued (rules s1 x) = is_queued (rules s x)"
    "\<And>x. is_under_consideration (rules s1 x) = is_under_consideration (rules s x)"
    "\<And>x. is_executed (rules s1 x) = (x = r \<or> is_executed (rules s x))"
    "\<And>x. deps_remain (rules s1 x) = deps_remain (rules s x)"
    "\<And>x. dep_ids s1 x = dep_ids s x"
proof -
  note rm = ruleremain_rm_ok[OF inv, of r]
  have rules': "rules s1 = (rules s)(r := (rules s r)\<lparr> remain := False, is_executed := True,
      is_actually_executed := was \<rparr>)" by (simp add: s1 rm)
  show e: "is_executing (rules s1 x) = is_executing (rules s x)" for x by (simp add: rules')
  show q: "is_queued (rules s1 x) = is_queued (rules s x)" for x by (simp add: rules')
  show u: "is_under_consideration (rules s1 x) = is_under_consideration (rules s x)" for x by (simp add: rules')
  show x: "is_executed (rules s1 x) = (x = r \<or> is_executed (rules s x))" for x by (simp add: rules')
  show d: "deps_remain (rules s1 x) = deps_remain (rules s x)" for x by (simp add: rules')
  show i: "dep_ids s1 x = dep_ids s x" for x by (simp add: dep_ids_def rules' s1 rm)
  have bkd: "x \<in> set (back_deps s y) \<longleftrightarrow> y \<in> dep_ids s x" for x y
    using g by (simp add: live_graph_def back_complete_def)
  show "live (P \<union> {(r, b) | b. b \<in> set (back_deps s r)}) s1"
  proof (rule liveI)
    fix y d
    assume "deps_remain (rules s1 y) d \<noteq> None" "is_executed (rules s1 d)" "\<not> is_executed (rules s1 y)"
    then show "(d, y) \<in> P \<union> {(r, b) | b. b \<in> set (back_deps s r)}"
      using liveD(1,2)[OF l, of y d] bkd[of y r] by (auto simp: d x)
  qed (use liveD(1,3,4,5)[OF l] in \<open>auto simp: d i e u q reaches_cong[OF i]\<close>)
qed

lemma mark_live_ok:
  assumes ops: "ops_ok F ops" and rl: "reconsider_live F ops n"
  shows "mark_live F ops (Suc n)"
  unfolding mark_live_def
proof (intro allI impI)
  fix r was and s :: "'a sched" and R P
  assume r: "r < rules_size s" and g: "graph_ok s" and inv: "sched_inv R s" and R: "r \<in> R"
    and fuel: "4 * work s - 1 \<le> Suc n" and lg: "live_graph s" and l: "live P s"
  define s1 where "s1 = upd_rule r (\<lambda>x. x\<lparr> is_executed := True, is_actually_executed := was \<rparr>)
    (ruleremain_rm r s)"
  note ex = execute_ok[OF inv R, of was, folded s1_def]
  note el = execute_live[OF inv R lg l s1_def]
  have rx: "\<not> is_executed (rules s r)" "is_queued (rules s r)"
    using inv R by (auto simp: sched_inv_def queue_ok_def)
  have re: "is_executing (rules s r)" using rule_ok_simps(2)[OF sched_invD(1)[OF inv] rx(2)] .
  have "work s1 < work s" using work_less[OF ex(2) r] ex(3) rx(1) by blast
  then have fuel1: "4 * work s1 + 2 \<le> n" using fuel by simp
  have g1: "graph_ok s1" by (rule frame_graph_ok[OF ex(2) g])
  have bs: "\<forall>b \<in> set (back_deps s1 r). b < rules_size s1 \<and> has_dep (rules s1 b)"
  proof -
    have "r < rules_size s1" using r frameD(1)[OF ex(2)] by simp
    then show ?thesis using g1 unfolding graph_ok_def by blast
  qed
  have spec: "reconsider_spec F ops n" using all_specs[OF ops] by blast
  have "outcome F (\<lambda>_. True) (finish_exec ops r was s1)" using ops by (simp add: ops_ok_def)
  then have "outcome F (\<lambda>s'. live P s')
     (bind_res (finish_exec ops r was s1) (\<lambda>w.
        back_loop (\<lambda>b s. reconsider ops n b r s) (back_deps s1 r) (s1\<lparr> world := w \<rparr>)))"
  proof (rule outcome_bind)
    fix w
    show "outcome F (\<lambda>s'. live P s')
        (back_loop (\<lambda>b s. reconsider ops n b r s) (back_deps s1 r) (s1\<lparr> world := w \<rparr>))"
    proof (rule back_loop_live[OF spec rl])
      show "live (P \<union> {(r, b) |b. b \<in> set (back_deps s1 r)}) (s1\<lparr>world := w\<rparr>)"
        using el(1) live_cong[of s1 "s1\<lparr>world := w\<rparr>"] ex(5) by simp
      show "live_graph (s1\<lparr>world := w\<rparr>)"
        by (rule frame_live_graph[OF frame_trans[OF ex(2) frame_world] lg])
      show "\<forall>b \<in> set (back_deps s1 r). b < rules_size (s1\<lparr> world := w \<rparr>) \<and>
          has_dep (rules (s1\<lparr> world := w \<rparr>) b)"
        using bs by simp
    qed (use g1 ex(1,3) fuel1 in simp_all)
  qed
  then show "outcome F (\<lambda>s'. live P s') (mark_executed ops (Suc n) r was s)"
    using rx re by (simp add: Let_def s1_def)
qed

lemma queue_core:
  assumes l: "live P s" and e: "is_executing (rules s r)"
  shows "live P (upd_rule r (is_queued_update (\<lambda>_. True)) s)"
proof (rule liveI)
  let ?s = "upd_rule r (is_queued_update (\<lambda>_. True)) s"
  have i: "dep_ids ?s x = dep_ids s x" for x by (simp add: dep_ids_def)
  show "\<And>x d. deps_remain (rules ?s x) d \<noteq> None \<Longrightarrow> d \<in> dep_ids ?s x"
    using liveD(1)[OF l] unfolding i by (auto split: if_splits)
  show "\<And>x d. deps_remain (rules ?s x) d \<noteq> None \<Longrightarrow> is_executed (rules ?s d) \<Longrightarrow>
      \<not> is_executed (rules ?s x) \<Longrightarrow> (d, x) \<in> P"
    using liveD(2)[OF l] by (auto split: if_splits)
  show "\<And>x d. is_executing (rules ?s x) \<Longrightarrow> \<not> is_under_consideration (rules ?s x) \<Longrightarrow> d \<in> dep_ids ?s x \<Longrightarrow>
      is_executing (rules ?s d)"
    using liveD(3)[OF l] unfolding i by (auto split: if_splits)
  show "\<And>x. is_executing (rules ?s x) \<Longrightarrow> \<not> is_under_consideration (rules ?s x) \<Longrightarrow>
      \<not> is_queued (rules ?s x) \<Longrightarrow> \<exists>d. deps_remain (rules ?s x) d \<noteq> None"
    using liveD(4)[OF l] by (auto split: if_splits)
  show "\<And>x. is_executing (rules ?s x) \<Longrightarrow> \<not> reaches_cycle ?s x"
    using liveD(5)[OF l] unfolding reaches_cong[of ?s s, OF i] by (auto split: if_splits)
qed

lemma do_exec_live_ok:
  assumes ops: "ops_ok F ops" and ml: "mark_live F ops n"
  shows "do_exec_live F ops (Suc n)"
  unfolding do_exec_live_def
proof (intro allI impI)
  fix r and s :: "'a sched" and R P
  assume r: "r < rules_size s" and g: "graph_ok s" and inv: "sched_inv R s"
    and re: "is_executing (rules s r)" "\<not> is_queued (rules s r)"
    and deps: "\<forall>d \<in> dep_ids s r. is_executed (rules s d)" and fuel: "4 * work s \<le> Suc n"
    and lg: "live_graph s" and l: "live P s"
  have "outcome F (\<lambda>(queue, c, _). queue \<longrightarrow> c \<noteq> []) (decide ops r s)" using ops by (simp add: ops_ok_def)
  then have "outcome F (\<lambda>(b, s'). live P s' \<and> is_queued (rules s' r))
     (bind_res (decide ops r s) (\<lambda>(queue, c, mtim, w).
          let s = upd_rule r (\<lambda>x. x\<lparr> cmd := c, st_mtim := mtim \<rparr>) (s\<lparr> world := w \<rparr>) in
          if queue then
            Inr (False, upd_rule r (is_queued_update (\<lambda>_. True))
                          (s\<lparr> ruleids_to_run := ruleids_to_run s @ [r] \<rparr>))
          else
            bind_res (mark_executed ops n r False (upd_rule r (is_queued_update (\<lambda>_. True)) s))
              (\<lambda>s. Inr (True, s))))"
  proof (rule outcome_bind, clarify)
    fix queue and c :: "string list list" and mtim w
    let ?s1 = "upd_rule r (\<lambda>x. x\<lparr> cmd := c, st_mtim := mtim \<rparr>) (s\<lparr> world := w \<rparr>)"
    let ?s2 = "upd_rule r (is_queued_update (\<lambda>_. True)) ?s1"
    have i1: "sched_inv R ?s1" and f1: "frame {r} s ?s1"
      using payload_ok[of R "s\<lparr> world := w \<rparr>" r] inv re(2)
      by (simp_all add: frame_trans[OF frame_world[of _ s w]])
    have c1: "core_eq (s\<lparr> world := w \<rparr>) ?s1" by (intro core_eq_upd) auto
    have l1: "live P ?s1" using l live_cong[OF c1] live_cong[of s "s\<lparr> world := w \<rparr>"] by simp
    have re1: "is_executing (rules ?s1 r)" "\<not> is_queued (rules ?s1 r)"
        "\<forall>d \<in> dep_ids ?s1 r. is_executed (rules ?s1 d)"
      using re deps frameD(9)[OF f1] frameD(3)[OF f1] by auto
    note q = queue_ok_insert[OF i1 re1]
    have l2: "live P ?s2" by (rule queue_core[OF l1 re1(1)])
    have f2: "frame {r} s ?s2"
      by (rule frame_trans[OF f1 frame_upd]) (simp add: mono_le_def)
    have "\<not> is_executed (rules s r)" using rule_ok_simps(1)[OF sched_invD(1)[OF inv]] re(2) by blast
    then have fuel2: "4 * work ?s2 - 1 \<le> n" using frame_work[OF f2] fuel by simp
    have r2: "r < rules_size ?s2" using r by simp
    have "outcome F (\<lambda>s'. live P s') (mark_executed ops n r False ?s2)"
      using ml r2 fuel2 frame_graph_ok[OF f2 g] q(1) frame_live_graph[OF f2 lg] l2
      unfolding mark_live_def by blast
    moreover have "outcome F (\<lambda>s'. sched_inv (insert r R - {r}) s' \<and> frame {r} ?s2 s' \<and>
        is_executed (rules s' r) \<and> is_under_consideration (rules s' r) = is_under_consideration (rules ?s2 r))
        (mark_executed ops n r False ?s2)"
      using all_specs[OF ops, of n] r2 fuel2 frame_graph_ok[OF f2 g] q(1)
      unfolding mark_executed_spec_def by blast
    ultimately have m: "outcome F (\<lambda>s'. live P s' \<and> sched_inv (insert r R - {r}) s' \<and> frame {r} ?s2 s' \<and>
        is_executed (rules s' r) \<and> is_under_consideration (rules s' r) = is_under_consideration (rules ?s2 r))
        (mark_executed ops n r False ?s2)" by (rule outcome_conj)
    show "outcome F (\<lambda>(b, s'). live P s' \<and> is_queued (rules s' r))
       (let s = ?s1 in
          if queue then
            Inr (False, upd_rule r (is_queued_update (\<lambda>_. True))
                          (s\<lparr> ruleids_to_run := ruleids_to_run s @ [r] \<rparr>))
          else
            bind_res (mark_executed ops n r False (upd_rule r (is_queued_update (\<lambda>_. True)) s))
              (\<lambda>s. Inr (True, s)))"
    proof (cases queue)
      case True
      have "live P (?s2\<lparr> ruleids_to_run := ruleids_to_run ?s1 @ [r] \<rparr>)"
        using l2 live_cong[of ?s2 "?s2\<lparr> ruleids_to_run := ruleids_to_run ?s1 @ [r] \<rparr>"] by simp
      then show ?thesis using True by (simp add: Let_def upd_rule_to_run)
    next
      case False
      have "outcome F (\<lambda>(b, s'). live P s' \<and> is_queued (rules s' r))
          (bind_res (mark_executed ops n r False ?s2) (\<lambda>s. Inr (True, s)))"
        by (rule outcome_bind[OF m]) (use frameD(4)[of _ ?s2] in auto)
      then show ?thesis using False by (simp add: Let_def)
    qed
  qed
  then show "outcome F (\<lambda>(b, s'). live P s' \<and> is_queued (rules s' r)) (do_exec ops (Suc n) r s)"
    using re(2) by simp
qed

lemma clear_live:
  assumes l: "live P s" and deps: "\<forall>d \<in> dep_ids s r. is_executing (rules s d)"
    and w: "is_queued (rules s r) \<or> (\<exists>d. deps_remain (rules s r) d \<noteq> None)"
  shows "live P (upd_rule r (is_under_consideration_update (\<lambda>_. False)) s)"
proof (rule liveI)
  let ?s = "upd_rule r (is_under_consideration_update (\<lambda>_. False)) s"
  have i: "dep_ids ?s x = dep_ids s x" for x by (simp add: dep_ids_def)
  show "\<And>x d. deps_remain (rules ?s x) d \<noteq> None \<Longrightarrow> d \<in> dep_ids ?s x"
    using liveD(1)[OF l] unfolding i by (auto split: if_splits)
  show "\<And>x d. deps_remain (rules ?s x) d \<noteq> None \<Longrightarrow> is_executed (rules ?s d) \<Longrightarrow>
      \<not> is_executed (rules ?s x) \<Longrightarrow> (d, x) \<in> P"
    using liveD(2)[OF l] by (auto split: if_splits)
  show "\<And>x d. is_executing (rules ?s x) \<Longrightarrow> \<not> is_under_consideration (rules ?s x) \<Longrightarrow> d \<in> dep_ids ?s x \<Longrightarrow>
      is_executing (rules ?s d)"
    using liveD(3)[OF l] deps unfolding i by (auto split: if_splits)
  show "\<And>x. is_executing (rules ?s x) \<Longrightarrow> \<not> is_under_consideration (rules ?s x) \<Longrightarrow>
      \<not> is_queued (rules ?s x) \<Longrightarrow> \<exists>d. deps_remain (rules ?s x) d \<noteq> None"
    using liveD(4)[OF l] w by (auto split: if_splits)
  show "\<And>x. is_executing (rules ?s x) \<Longrightarrow> \<not> reaches_cycle ?s x"
    using liveD(5)[OF l] unfolding reaches_cong[of ?s s, OF i] by (auto split: if_splits)
qed

text \<open>Erasing an executed dependency of a rule that is under consideration or not considered yet.\<close>

lemma erase_rules:
  assumes "sched_inv R s"
  shows "outcome F (\<lambda>s'. \<exists>b. s' = upd_rule r (\<lambda>_. b) s \<and> rule_le (rules s r) b \<and>
     is_executed b = is_executed (rules s r) \<and> is_queued b = is_queued (rules s r) \<and>
     is_executing b = is_executing (rules s r) \<and>
     deps_remain b = (deps_remain (rules s r))(d := None)) (upd_rule_res r (deps_remain_erase d) s)"
proof (rule outcome_upd_rule_res, rule rule_ok_erase, rule sched_invD(1)[OF assms])
qed blast

lemma erase_live:
  assumes l: "live (insert (d, r) P) s" and b: "rule_le (rules s r) b"
     "is_executed b = is_executed (rules s r)" "is_queued b = is_queued (rules s r)"
     "is_executing b = is_executing (rules s r)" "deps_remain b = (deps_remain (rules s r))(d := None)"
    and e: "\<not> is_executing (rules s r) \<or> is_under_consideration b'"
    and s': "s' = upd_rule r (\<lambda>_. b') s" and b': "b' = b \<or> b' = b\<lparr> is_under_consideration := True \<rparr>"
  shows "live P s'"
proof (rule liveI)
  have dl: "deplist b = deplist (rules s r)" using b(1) by (simp add: rule_le_def mono_le_def)
  have i: "dep_ids s' x = dep_ids s x" for x using dl b' by (auto simp: dep_ids_def s')
  have same: "is_executed b' = is_executed (rules s r)" "is_queued b' = is_queued (rules s r)"
     "is_executing b' = is_executing (rules s r)" "deps_remain b' = (deps_remain (rules s r))(d := None)"
    using b b' by auto
  show "\<And>x y. deps_remain (rules s' x) y \<noteq> None \<Longrightarrow> y \<in> dep_ids s' x"
    using liveD(1)[OF l] unfolding i by (auto simp: s' same split: if_splits)
  show "\<And>x y. deps_remain (rules s' x) y \<noteq> None \<Longrightarrow> is_executed (rules s' y) \<Longrightarrow>
      \<not> is_executed (rules s' x) \<Longrightarrow> (y, x) \<in> P"
    using liveD(2)[OF l] by (auto simp: s' same split: if_splits) 
  show "\<And>x y. is_executing (rules s' x) \<Longrightarrow> \<not> is_under_consideration (rules s' x) \<Longrightarrow> y \<in> dep_ids s' x \<Longrightarrow>
      is_executing (rules s' y)"
    using liveD(3)[OF l] e unfolding i by (auto simp: s' same split: if_splits)
  show "\<And>x. is_executing (rules s' x) \<Longrightarrow> \<not> is_under_consideration (rules s' x) \<Longrightarrow>
      \<not> is_queued (rules s' x) \<Longrightarrow> \<exists>y. deps_remain (rules s' x) y \<noteq> None"
    using liveD(4)[OF l] e by (auto simp: s' same split: if_splits)
  show "\<And>x. is_executing (rules s' x) \<Longrightarrow> \<not> reaches_cycle s' x"
    using liveD(5)[OF l] unfolding reaches_cong[of s' s, OF i] by (auto simp: s' same split: if_splits)
qed

lemma reconsider_live_ok:
  assumes ops: "ops_ok F ops" and el: "do_exec_live F ops n"
  shows "reconsider_live F ops (Suc n)"
  unfolding reconsider_live_def
proof (intro allI impI)
  fix r d and s :: "'a sched" and R P
  assume r: "r < rules_size s" and g: "graph_ok s" and inv: "sched_inv R s"
    and dx: "is_executed (rules s d)" and hd: "has_dep (rules s r)" and fuel: "4 * work s + 2 \<le> Suc n"
    and lg: "live_graph s" and l: "live (insert (d, r) P) s"
  have F: "range Exited \<subseteq> F" using ops by (simp add: ops_ok_def)
  have ok: "rule_ok (rules s r)" by (rule sched_invD(1)[OF inv])
  obtain n' where n': "n = Suc n'" using fuel by (cases n) auto
  have erase: "outcome F (\<lambda>s1. (\<exists>b. s1 = upd_rule r (\<lambda>_. b) s \<and> rule_le (rules s r) b \<and>
     is_executed b = is_executed (rules s r) \<and> is_queued b = is_queued (rules s r) \<and>
     is_executing b = is_executing (rules s r) \<and> deps_remain b = (deps_remain (rules s r))(d := None)) \<and>
     sched_inv R s1 \<and> frame {} s s1 \<and>
     is_executed (rules s1 r) = is_executed (rules s r) \<and> is_queued (rules s1 r) = is_queued (rules s r) \<and>
     is_executing (rules s1 r) = is_executing (rules s r) \<and> waitloc (rules s1 r) = waitloc (rules s r) \<and>
     is_under_consideration (rules s1 r) = is_under_consideration (rules s r))
     (upd_rule_res r (deps_remain_erase d) s)"
    by (rule outcome_conj[OF erase_rules[OF inv] erase_ok[OF inv dx]])
  consider "is_executed (rules s r)"
    | "\<not> is_executed (rules s r)" "\<not> is_executing (rules s r) \<or> is_under_consideration (rules s r)"
    | "\<not> is_executed (rules s r)" "is_executing (rules s r)" "\<not> is_under_consideration (rules s r)"
    by blast
  then show "outcome F (live P) (reconsider ops (Suc n) r d s)"
  proof cases
    case 1
    have "live P s"
    proof (rule liveI)
      show "\<And>x y. deps_remain (rules s x) y \<noteq> None \<Longrightarrow> is_executed (rules s y) \<Longrightarrow>
          \<not> is_executed (rules s x) \<Longrightarrow> (y, x) \<in> P"
        using liveD(2)[OF l] 1 by blast
    qed (use liveD(1,3,4,5)[OF l] in blast)+
    then show ?thesis using 1 by simp
  next
    case 2
    have "outcome F (live P) (upd_rule_res r (deps_remain_erase d) s)"
    proof (rule outcome_mono[OF erase], elim conjE exE)
      fix s1 b
      assume s1: "s1 = upd_rule r (\<lambda>_. b) s"
        and b: "rule_le (rules s r) b" "is_executed b = is_executed (rules s r)"
          "is_queued b = is_queued (rules s r)" "is_executing b = is_executing (rules s r)"
          "deps_remain b = (deps_remain (rules s r))(d := None)"
      have "\<not> is_executing (rules s r) \<or> is_under_consideration b"
        using 2 b(1) by (auto simp: rule_le_def)
      then show "live P s1" using erase_live[OF l b _ s1] by blast
    qed
    then show ?thesis using 2 by simp
  next
    case 3
    obtain i where i: "waitloc (rules s r) = Some i" using rule_ok_simps(5)[OF ok 3(2,3) hd] by blast
    have deps_e: "\<forall>d \<in> dep_ids s r. is_executing (rules s d)" using liveD(3)[OF l 3(2,3)] by blast
    have "outcome F (live P)
      (bind_res (upd_rule_res r (deps_remain_erase d) s) (\<lambda>s.
          let toexecute = (deps_remain_cnt (rules s r) > 0);
              s = upd_rule r (is_under_consideration_update (\<lambda>_. True)) s in
          case waitloc (rules s r) of
            None \<Rightarrow> Inl Overread
          | Some i \<Rightarrow>
              bind_res (reconsider_deps ops (\<lambda>d s. consider_rule ops n d s) r
                          (drop i (enumerate 0 (deplist (rules s r)))) s)
                (\<lambda>s. if \<not> toexecute \<and> \<not> is_queued (rules s r) then
                        bind_res (do_exec ops n r s) (\<lambda>(_, s).
                          Inr (upd_rule r (is_under_consideration_update (\<lambda>_. False)) s))
                      else Inr (upd_rule r (is_under_consideration_update (\<lambda>_. False)) s))))"
    proof (rule outcome_bind[OF erase], elim conjE exE)
      fix s1 b
      assume s1: "s1 = upd_rule r (\<lambda>_. b) s" 
        and b: "rule_le (rules s r) b" "is_executed b = is_executed (rules s r)"
          "is_queued b = is_queued (rules s r)" "is_executing b = is_executing (rules s r)"
          "deps_remain b = (deps_remain (rules s r))(d := None)"
        and i1: "sched_inv R s1" and f1: "frame {} s s1" and wl1: "waitloc (rules s1 r) = waitloc (rules s r)"
      define s2 where "s2 = upd_rule r (is_under_consideration_update (\<lambda>_. True)) s1"
      have s2: "s2 = upd_rule r (\<lambda>_. b\<lparr> is_under_consideration := True \<rparr>) s"
        by (simp add: s2_def s1 upd_rule_twice)
      have l2: "live P s2" by (rule erase_live[OF l b _ s2]) simp_all
      have f12: "frame {r} s s2"
        unfolding s2_def using frame_trans[OF frame_mono[OF f1] frame_set_under(2)] by blast
      have ok1: "rule_ok (rules s1 r)" by (rule sched_invD(1)[OF i1])
      have "rule_ok ((rules s1 r)\<lparr> is_under_consideration := True \<rparr>)"
        using ok1 b(4) 3(2) unfolding rule_ok_def has_dep_def by (simp add: s1)
      then have i2: "sched_inv R s2" unfolding s2_def by (intro inv_upd[OF i1]) auto
      have in2: "in_loop R (work s2) r s2"
        using i2 frame_graph_ok[OF f12 g] r frameD(1)[OF f12] by (simp add: in_loop_def) (simp add: s2_def)
      have wl: "waitloc (rules s2 r) = Some i" using i wl1 by (simp add: s2_def)
      have e2: "\<forall>d \<in> dep_ids s2 r. is_executing (rules s2 d)"
        using deps_e frameD(5,9)[OF f12] by blast
      let ?es = "drop i (enumerate 0 (deplist (rules s2 r)))"
      have k2: "work s2 \<le> work s" by (rule frame_work[OF f12])
      have rec: "rec_ok F R (work s2) (\<lambda>d s. consider_rule ops n d s)"
        using fuel k2 by (intro consider_rec_ok all_specs[OF ops, THEN conjunct1]) simp
      have c: "outcome F (core_eq s2) (reconsider_deps ops (\<lambda>d s. consider_rule ops n d s) r ?es s2)"
        using consider_trivial unfolding n'
        by (intro reconsider_deps_quiet[OF _ F in2 drop_enumerate_deps e2]) blast
      have "outcome F (live P)
        (bind_res (reconsider_deps ops (\<lambda>d s. consider_rule ops n d s) r ?es s2)
           (\<lambda>s. if \<not> deps_remain_cnt (rules s1 r) > 0 \<and> \<not> is_queued (rules s r) then
                        bind_res (do_exec ops n r s) (\<lambda>(_, s).
                          Inr (upd_rule r (is_under_consideration_update (\<lambda>_. False)) s))
                      else Inr (upd_rule r (is_under_consideration_update (\<lambda>_. False)) s)))"
      proof (rule outcome_bind[OF outcome_conj[OF c reconsider_deps_ok[OF rec F in2 drop_enumerate_deps]]], elim conjE)
        fix s3
        assume c3: "core_eq s2 s3" and p3: "loop_post R (work s2) r s2 s3"
        have in3: "in_loop R (work s2) r s3" by (rule loop_post_in_loop[OF p3])
        have f3: "frame {r} s s3" using p3 f12 frame_trans unfolding loop_post_def by blast
        have i3: "sched_inv R s3" and g3: "graph_ok s3" and r3: "r < rules_size s3"
          and k3: "work s3 \<le> work s2" using in3 by (simp_all add: in_loop_def)
        have ex3: "is_executing (rules s3 r)" by (rule in_loop_executing[OF in3])
        have l3: "live P s3" using l2 live_cong[OF c3] by simp
        have e3: "\<forall>d \<in> dep_ids s3 r. is_executing (rules s3 d)" using e2 core_eqD(3,6)[OF c3] by simp
        have rem: "deps_remain (rules s3 r) d = None \<longleftrightarrow> deps_remain (rules s1 r) d = None" for d
          using core_eqD(5)[OF c3, of r d] by (simp add: s2_def)
        show "outcome F (live P)
          (if \<not> deps_remain_cnt (rules s1 r) > 0 \<and> \<not> is_queued (rules s3 r) then
                        bind_res (do_exec ops n r s3) (\<lambda>(_, s).
                          Inr (upd_rule r (is_under_consideration_update (\<lambda>_. False)) s))
                      else Inr (upd_rule r (is_under_consideration_update (\<lambda>_. False)) s3))"
        proof (cases "\<not> deps_remain_cnt (rules s1 r) > 0 \<and> \<not> is_queued (rules s3 r)")
          case False
          have "is_queued (rules s3 r) \<or> (\<exists>d. deps_remain (rules s3 r) d \<noteq> None)"
          proof (cases "is_queued (rules s3 r)")
            case nq: False
            then have "deps_remain_cnt (rules s1 r) > 0" using False by blast
            then have "dom (deps_remain (rules s1 r)) \<noteq> {}" using ok1 by (auto simp: rule_ok_def)
            then obtain y where "deps_remain (rules s1 r) y \<noteq> None" by fastforce
            then have "deps_remain (rules s3 r) y \<noteq> None" using rem[of y] by simp
            then show ?thesis by blast
          qed blast
          then have "live P (upd_rule r (is_under_consideration_update (\<lambda>_. False)) s3)"
            by (rule clear_live[OF l3 e3])
          then show ?thesis using False by auto
        next
          case True
          have rem0: "deps_remain (rules s3 r) d = None" for d
            using rem rule_ok_simps(6)[OF ok1] True by simp
          have x3: "\<forall>d \<in> dep_ids s3 r. is_executed (rules s3 d)"
            using sched_invD(2)[OF i3] rem0 by blast
          have fu: "4 * work s3 \<le> n" using k2 k3 fuel by simp
          have "outcome F (\<lambda>(b, s'). live P s' \<and> is_queued (rules s' r)) (do_exec ops n r s3)"
            using el True r3 g3 i3 ex3 x3 fu frame_live_graph[OF f3 lg] l3
            unfolding do_exec_live_def by blast
          moreover have "outcome F (\<lambda>(b, s'). sched_inv R s' \<and> frame {r} s3 s') (do_exec ops n r s3)"
            using all_specs[OF ops, of n] True r3 g3 i3 ex3 x3 fu unfolding do_exec_spec_def by blast
          ultimately have x: "outcome F (\<lambda>y. (case y of (b, s') \<Rightarrow> live P s' \<and> is_queued (rules s' r)) \<and>
              (case y of (b, s') \<Rightarrow> sched_inv R s' \<and> frame {r} s3 s')) (do_exec ops n r s3)"
            by (rule outcome_conj)
          have "outcome F (live P)
              (bind_res (do_exec ops n r s3) (\<lambda>(_, s).
                  Inr (upd_rule r (is_under_consideration_update (\<lambda>_. False)) s)))"
          proof (rule outcome_bind[OF x], clarify)
            fix b s4
            assume l4: "live P s4" and q4: "is_queued (rules s4 r)" and f4: "frame {r} s3 s4"
            have "\<forall>d \<in> dep_ids s4 r. is_executing (rules s4 d)"
              using e3 frameD(5,9)[OF f4] by blast
            then show "outcome F (live P) (Inr (upd_rule r (is_under_consideration_update (\<lambda>_. False)) s4))"
              using clear_live[OF l4] q4 by simp
          qed
          then show ?thesis using True by simp
        qed
      qed
      then show "outcome F (live P)
        (let toexecute = (deps_remain_cnt (rules s1 r) > 0);
              s = upd_rule r (is_under_consideration_update (\<lambda>_. True)) s1 in
          case waitloc (rules s r) of
            None \<Rightarrow> Inl Overread
          | Some i \<Rightarrow>
              bind_res (reconsider_deps ops (\<lambda>d s. consider_rule ops n d s) r
                          (drop i (enumerate 0 (deplist (rules s r)))) s)
                (\<lambda>s. if \<not> toexecute \<and> \<not> is_queued (rules s r) then
                        bind_res (do_exec ops n r s) (\<lambda>(_, s).
                          Inr (upd_rule r (is_under_consideration_update (\<lambda>_. False)) s))
                      else Inr (upd_rule r (is_under_consideration_update (\<lambda>_. False)) s)))"
        using wl unfolding Let_def s2_def[symmetric] by simp
    qed
    then show ?thesis using 3 by simp
  qed
qed

lemma all_live:
  assumes ops: "ops_ok F ops"
  shows "do_exec_live F ops n \<and> mark_live F ops n \<and> reconsider_live F ops n"
proof (induction n)
  case 0
  have spec: "do_exec_spec F ops 0" "mark_executed_spec F ops 0" using all_specs[OF ops] by blast+
  have "do_exec_live F ops 0"
    unfolding do_exec_live_def
  proof (intro allI impI)
    fix r and s :: "'a sched" and R P
    assume r: "r < rules_size s" and "sched_inv R s" "\<not> is_queued (rules s r)" and w: "4 * work s \<le> 0"
    then have "\<not> is_executed (rules s r)" using rule_ok_simps(1)[OF sched_invD(1)] by blast
    then have False using work_pos[OF r] w by simp
    then show "outcome F (\<lambda>(b, s'). live P s' \<and> is_queued (rules s' r)) (do_exec ops 0 r s)" by blast
  qed
  moreover have "mark_live F ops 0"
    unfolding mark_live_def
  proof (intro allI impI)
    fix r was and s :: "'a sched" and R P
    assume r: "r < rules_size s" and "sched_inv R s" "r \<in> R" and w: "4 * work s - 1 \<le> 0"
    then have "\<not> is_executed (rules s r)" by (auto simp: sched_inv_def queue_ok_def)
    then have False using work_pos[OF r] w by simp
    then show "outcome F (live P) (mark_executed ops 0 r was s)" by blast
  qed
  ultimately show ?case by (simp add: reconsider_live_def)
next
  case (Suc n)
  have "do_exec_live F ops n" "mark_live F ops n" "reconsider_live F ops n" using Suc by blast+
  then show ?case
    using do_exec_live_ok[OF ops, of n] mark_live_ok[OF ops, of n] reconsider_live_ok[OF ops, of n] by blast
qed

section \<open>Considering\<close>

text \<open>
  While \<open>consider\<close> walks down the graph, a rule it executes is new, and so are the rules that depend on
  it: they are under consideration or not considered yet, and \<open>reconsider\<close> only erases.
\<close>

definition erased :: "nat \<Rightarrow> ('a) base_scheme \<Rightarrow> ('a) base_scheme \<Rightarrow> bool" where
  "erased d s s' = (st_ruleid s' = st_ruleid s \<and> (\<forall>x.
     is_executed (rules s' x) = is_executed (rules s x) \<and> is_queued (rules s' x) = is_queued (rules s x) \<and>
     is_executing (rules s' x) = is_executing (rules s x) \<and>
     is_under_consideration (rules s' x) = is_under_consideration (rules s x) \<and>
     deplist (rules s' x) = deplist (rules s x) \<and>
     (\<forall>y. y \<noteq> d \<longrightarrow> deps_remain (rules s' x) y = deps_remain (rules s x) y) \<and>
     (deps_remain (rules s x) d = None \<longrightarrow> deps_remain (rules s' x) d = None)))"

lemma erased_refl: "erased d s s"
  by (simp add: erased_def)

lemma erased_trans: "erased d s s' \<Longrightarrow> erased d s' s'' \<Longrightarrow> erased d s s''"
  by (simp add: erased_def)

lemma back_loop_erased:
  assumes inv: "sched_inv R s" and dx: "is_executed (rules s d)"
    and bs: "\<forall>b \<in> set bs. \<not> is_executed (rules s b) \<and>
      (\<not> is_executing (rules s b) \<or> is_under_consideration (rules s b))"
  shows "outcome F (\<lambda>s'. erased d s s' \<and> (\<forall>b \<in> set bs. deps_remain (rules s' b) d = None))
    (back_loop (\<lambda>b s. reconsider ops (Suc n) b d s) bs s)"
  using assms
proof (induction bs arbitrary: s)
  case (Cons b bs)
  have rec: "reconsider ops (Suc n) b d s = upd_rule_res b (deps_remain_erase d) s"
    using Cons.prems(3) by simp
  have "outcome F (\<lambda>s1. (\<exists>a. s1 = upd_rule b (\<lambda>_. a) s \<and> rule_le (rules s b) a \<and>
     is_executed a = is_executed (rules s b) \<and> is_queued a = is_queued (rules s b) \<and>
     is_executing a = is_executing (rules s b) \<and> deps_remain a = (deps_remain (rules s b))(d := None)) \<and>
     sched_inv R s1 \<and> frame {} s s1 \<and>
     is_executed (rules s1 b) = is_executed (rules s b) \<and> is_queued (rules s1 b) = is_queued (rules s b) \<and>
     is_executing (rules s1 b) = is_executing (rules s b) \<and> waitloc (rules s1 b) = waitloc (rules s b) \<and>
     is_under_consideration (rules s1 b) = is_under_consideration (rules s b))
     (reconsider ops (Suc n) b d s)"
    unfolding rec by (rule outcome_conj[OF erase_rules[OF Cons.prems(1)] erase_ok[OF Cons.prems(1,2)]])
  then show ?case
    unfolding back_loop.simps
  proof (rule outcome_bind, elim conjE exE)
    fix s1 a
    assume s1: "s1 = upd_rule b (\<lambda>_. a) s" and le: "rule_le (rules s b) a"
      and a: "is_executed a = is_executed (rules s b)" "is_queued a = is_queued (rules s b)"
        "is_executing a = is_executing (rules s b)" "deps_remain a = (deps_remain (rules s b))(d := None)"
      and i1: "sched_inv R s1"
    have dl: "deplist a = deplist (rules s b)"
      "is_under_consideration a = is_under_consideration (rules s b)"
      using le by (simp_all add: rule_le_def mono_le_def)
    have er: "erased d s s1" using a dl by (simp add: erased_def s1)
    have b0: "deps_remain (rules s1 b) d = None" using a by (simp add: s1)
    have "outcome F (\<lambda>s'. erased d s1 s' \<and> (\<forall>b \<in> set bs. deps_remain (rules s' b) d = None))
        (back_loop (\<lambda>b s. reconsider ops (Suc n) b d s) bs s1)"
    proof (rule Cons.IH[OF i1])
      have fl: "is_executed (rules s1 x) = is_executed (rules s x)"
        "is_executing (rules s1 x) = is_executing (rules s x)"
        "is_under_consideration (rules s1 x) = is_under_consideration (rules s x)" for x
        using er unfolding erased_def by blast+
      show "is_executed (rules s1 d)" using Cons.prems(2) fl(1) by simp
      show "\<forall>b \<in> set bs. \<not> is_executed (rules s1 b) \<and>
          (\<not> is_executing (rules s1 b) \<or> is_under_consideration (rules s1 b))"
        using Cons.prems(3) fl by simp
    qed
    then show "outcome F (\<lambda>s'. erased d s s' \<and> (\<forall>b \<in> set (b # bs). deps_remain (rules s' b) d = None))
        (back_loop (\<lambda>b s. reconsider ops (Suc n) b d s) bs s1)"
    proof (rule outcome_mono, elim conjE)
      fix s'
      assume e: "erased d s1 s'" and z: "\<forall>b \<in> set bs. deps_remain (rules s' b) d = None"
      have "deps_remain (rules s' b) d = None" using e b0 by (simp add: erased_def)
      then show "erased d s s' \<and> (\<forall>b \<in> set (b # bs). deps_remain (rules s' b) d = None)"
        using erased_trans[OF er e] z by simp
    qed
  qed
qed (simp add: erased_refl)

text \<open>What \<open>do_exec\<close> changes in this situation: the flags of its own rule and, when it is up to
  date, the entries that wait for it.\<close>

definition only_rule :: "nat \<Rightarrow> ('a) base_scheme \<Rightarrow> ('a) base_scheme \<Rightarrow> bool" where
  "only_rule r s s' = (st_ruleid s' = st_ruleid s \<and> is_queued (rules s' r) \<and>
     (is_executed (rules s r) \<longrightarrow> is_executed (rules s' r)) \<and>
     (is_executed (rules s' r) \<longrightarrow> (\<forall>x. deps_remain (rules s' x) r = None)) \<and> (\<forall>x.
     (x \<noteq> r \<longrightarrow> is_executed (rules s' x) = is_executed (rules s x) \<and>
        is_queued (rules s' x) = is_queued (rules s x)) \<and>
     is_executing (rules s' x) = is_executing (rules s x) \<and>
     is_under_consideration (rules s' x) = is_under_consideration (rules s x) \<and>
     deplist (rules s' x) = deplist (rules s x) \<and>
     (\<forall>y. y \<noteq> r \<longrightarrow> deps_remain (rules s' x) y = deps_remain (rules s x) y) \<and>
     (deps_remain (rules s x) r = None \<longrightarrow> deps_remain (rules s' x) r = None)))"

lemma only_ruleD:
  assumes "only_rule r s s'"
  shows "is_queued (rules s' r)" "dep_ids s' x = dep_ids s x"
    "is_executed (rules s' r) \<Longrightarrow> deps_remain (rules s' x) r = None"
    "x \<noteq> r \<Longrightarrow> is_executed (rules s' x) = is_executed (rules s x)"
    "x \<noteq> r \<Longrightarrow> is_queued (rules s' x) = is_queued (rules s x)"
    "is_executing (rules s' x) = is_executing (rules s x)"
    "is_under_consideration (rules s' x) = is_under_consideration (rules s x)"
    "y \<noteq> r \<Longrightarrow> deps_remain (rules s' x) y = deps_remain (rules s x) y"
    "deps_remain (rules s x) r = None \<Longrightarrow> deps_remain (rules s' x) r = None"
proof -
  have "deplist (rules s' x) = deplist (rules s x)" "st_ruleid s' = st_ruleid s"
    using assms unfolding only_rule_def by blast+
  then show "dep_ids s' x = dep_ids s x" unfolding dep_ids_def by simp
qed (use assms in \<open>unfold only_rule_def, blast+\<close>)

lemma only_rule_live:
  assumes l: "live {} s" and o: "only_rule r s s'"
    and new: "\<And>x. r \<in> dep_ids s x \<Longrightarrow> \<not> is_executing (rules s x) \<or> is_under_consideration (rules s x)"
  shows "live {} s'"
proof (rule liveI)
  note D = only_ruleD[OF o]
  have mono: "deps_remain (rules s x) y \<noteq> None" if "deps_remain (rules s' x) y \<noteq> None" for x y
    using that D(8)[of y x] D(9)[of x] by (cases "y = r"; cases "deps_remain (rules s x) y") auto
  show "\<And>x y. deps_remain (rules s' x) y \<noteq> None \<Longrightarrow> y \<in> dep_ids s' x"
    using mono liveD(1)[OF l] D(2) by blast
  show "(d, x) \<in> {}" if "deps_remain (rules s' x) d \<noteq> None" "is_executed (rules s' d)" "\<not> is_executed (rules s' x)" for x d
  proof (cases "d = r")
    case True
    then show ?thesis using that D(3)[of x] by simp
  next
    case False
    then have xd: "is_executed (rules s d)" using that(2) D(4) by blast
    have "\<not> is_executed (rules s x)"
      using that(3) D(4)[of x] o unfolding only_rule_def by blast
    then show ?thesis using liveD(2)[OF l mono[OF that(1)] xd] by blast
  qed
  show "\<And>x y. is_executing (rules s' x) \<Longrightarrow> \<not> is_under_consideration (rules s' x) \<Longrightarrow> y \<in> dep_ids s' x \<Longrightarrow>
      is_executing (rules s' y)"
    using liveD(3)[OF l] D(2,6,7) by metis
  show "\<exists>y. deps_remain (rules s' x) y \<noteq> None"
    if x: "is_executing (rules s' x)" "\<not> is_under_consideration (rules s' x)" "\<not> is_queued (rules s' x)" for x
  proof -
    have "x \<noteq> r" using x(3) D(1) by blast
    then obtain y where y: "deps_remain (rules s x) y \<noteq> None"
      using liveD(4)[OF l, of x] x D(5,6,7) by metis
    have "y \<noteq> r" using new liveD(1)[OF l y] x D(6,7) by metis
    then show ?thesis using y D(8) by metis
  qed
  show "\<And>x. is_executing (rules s' x) \<Longrightarrow> \<not> reaches_cycle s' x"
    using liveD(5)[OF l] D(6) unfolding reaches_cong[of s' s, OF D(2)] by blast
qed

lemma mark_only:
  assumes ops: "ops_ok F ops" and inv: "sched_inv R s" and r: "r \<in> R" and lg: "live_graph s" and l: "live {} s"
    and new: "\<And>x. r \<in> dep_ids s x \<Longrightarrow> \<not> is_executing (rules s x) \<or> is_under_consideration (rules s x)"
  shows "outcome F (only_rule r s) (mark_executed ops (Suc (Suc n)) r was s)"
proof -
  define s1 where "s1 = upd_rule r (\<lambda>x. x\<lparr> is_executed := True, is_actually_executed := was \<rparr>)
    (ruleremain_rm r s)"
  note ex = execute_ok[OF inv r, of was, folded s1_def]
  note el = execute_live[OF inv r lg l s1_def]
  have rx: "\<not> is_executed (rules s r)" "is_queued (rules s r)"
    using inv r by (auto simp: sched_inv_def queue_ok_def)
  have re: "is_executing (rules s r)" using rule_ok_simps(2)[OF sched_invD(1)[OF inv] rx(2)] .
  have tab: "st_ruleid s1 = st_ruleid s" "\<And>x. deplist (rules s1 x) = deplist (rules s x)"
    using frameD(2,6)[OF ex(2)] by blast+
  have bkd: "x \<in> set (back_deps s y) \<longleftrightarrow> y \<in> dep_ids s x" for x y
    using lg by (simp add: live_graph_def back_complete_def)
  have bs: "\<forall>b \<in> set (back_deps s r). \<not> is_executed (rules s1 b) \<and>
      (\<not> is_executing (rules s1 b) \<or> is_under_consideration (rules s1 b))"
  proof
    fix b
    assume "b \<in> set (back_deps s r)"
    then have b: "r \<in> dep_ids s b" using bkd by blast
    have "b \<noteq> r"
      using b self_cycle[of r s] liveD(5)[OF l re] by blast
    moreover have "\<not> is_executed (rules s b)"
      using sched_invD(3)[OF inv b] rule_ok_simps(1)[OF sched_invD(1)[OF inv], of b] rx(1) by blast
    ultimately show "\<not> is_executed (rules s1 b) \<and>
        (\<not> is_executing (rules s1 b) \<or> is_under_consideration (rules s1 b))"
      using new[OF b] el(2,4,5) by simp
  qed
  have "outcome F (\<lambda>_. True) (finish_exec ops r was s1)" using ops by (simp add: ops_ok_def)
  then have "outcome F (\<lambda>s'. erased r s1 s' \<and> (\<forall>b \<in> set (back_deps s1 r). deps_remain (rules s' b) r = None))
     (bind_res (finish_exec ops r was s1) (\<lambda>w.
        back_loop (\<lambda>b s. reconsider ops (Suc n) b r s) (back_deps s1 r) (s1\<lparr> world := w \<rparr>)))"
  proof (rule outcome_bind)
    fix w
    have "outcome F (\<lambda>s'. erased r (s1\<lparr> world := w \<rparr>) s' \<and>
        (\<forall>b \<in> set (back_deps s1 r). deps_remain (rules s' b) r = None))
        (back_loop (\<lambda>b s. reconsider ops (Suc n) b r s) (back_deps s1 r) (s1\<lparr> world := w \<rparr>))"
      using bs ex(1,3,5) by (intro back_loop_erased) simp_all
    then show "outcome F (\<lambda>s'. erased r s1 s' \<and> (\<forall>b \<in> set (back_deps s1 r). deps_remain (rules s' b) r = None))
        (back_loop (\<lambda>b s. reconsider ops (Suc n) b r s) (back_deps s1 r) (s1\<lparr> world := w \<rparr>))"
      by (simp add: erased_def)
  qed
  then have "outcome F (\<lambda>s'. erased r s1 s' \<and> (\<forall>b \<in> set (back_deps s1 r). deps_remain (rules s' b) r = None))
      (mark_executed ops (Suc (Suc n)) r was s)"
    using rx re by (simp add: Let_def s1_def del: reconsider.simps)
  then show ?thesis
  proof (rule outcome_mono, elim conjE)
    fix s'
    assume e: "erased r s1 s'" and z: "\<forall>b \<in> set (back_deps s1 r). deps_remain (rules s' b) r = None"
    have z': "deps_remain (rules s' x) r = None" for x
    proof (cases "deps_remain (rules s x) r")
      case None
      then show ?thesis using e el(6) unfolding erased_def by metis
    next
      case (Some w)
      then have "x \<in> set (back_deps s r)" using liveD(1)[OF l, of x r] bkd by simp
      then show ?thesis using z ex(5) by simp
    qed
    show "only_rule r s s'"
      using e rx z' unfolding erased_def only_rule_def by (simp add: el(2-6) tab)
  qed
qed

lemma do_exec_only:
  assumes ops: "ops_ok F ops" and inv: "sched_inv R s"
    and re: "is_executing (rules s r)" "\<not> is_queued (rules s r)"
    and deps: "\<forall>d \<in> dep_ids s r. is_executed (rules s d)" and lg: "live_graph s" and l: "live {} s"
    and new: "\<And>x. r \<in> dep_ids s x \<Longrightarrow> \<not> is_executing (rules s x) \<or> is_under_consideration (rules s x)"
  shows "outcome F (\<lambda>(b, s'). only_rule r s s') (do_exec ops (Suc (Suc (Suc n))) r s)"
proof -
  have nx: "\<not> is_executed (rules s r)" using rule_ok_simps(1)[OF sched_invD(1)[OF inv]] re(2) by blast
  have "outcome F (\<lambda>(queue, c, _). queue \<longrightarrow> c \<noteq> []) (decide ops r s)" using ops by (simp add: ops_ok_def)
  then have "outcome F (\<lambda>(b, s'). only_rule r s s')
     (bind_res (decide ops r s) (\<lambda>(queue, c, mtim, w).
          let s = upd_rule r (\<lambda>x. x\<lparr> cmd := c, st_mtim := mtim \<rparr>) (s\<lparr> world := w \<rparr>) in
          if queue then
            Inr (False, upd_rule r (is_queued_update (\<lambda>_. True))
                          (s\<lparr> ruleids_to_run := ruleids_to_run s @ [r] \<rparr>))
          else
            bind_res (mark_executed ops (Suc (Suc n)) r False (upd_rule r (is_queued_update (\<lambda>_. True)) s))
              (\<lambda>s. Inr (True, s))))"
  proof (rule outcome_bind, clarify)
    fix queue and c :: "string list list" and mtim w
    let ?s1 = "upd_rule r (\<lambda>x. x\<lparr> cmd := c, st_mtim := mtim \<rparr>) (s\<lparr> world := w \<rparr>)"
    let ?s2 = "upd_rule r (is_queued_update (\<lambda>_. True)) ?s1"
    have i1: "sched_inv R ?s1" and f1: "frame {r} s ?s1"
      using payload_ok[of R "s\<lparr> world := w \<rparr>" r] inv re(2)
      by (simp_all add: frame_trans[OF frame_world[of _ s w]])
    have c1: "core_eq (s\<lparr> world := w \<rparr>) ?s1" by (intro core_eq_upd) auto
    have l1: "live {} ?s1" using l live_cong[OF c1] live_cong[of s "s\<lparr> world := w \<rparr>"] by simp
    have re1: "is_executing (rules ?s1 r)" "\<not> is_queued (rules ?s1 r)"
        "\<forall>d \<in> dep_ids ?s1 r. is_executed (rules ?s1 d)"
      using re deps frameD(9)[OF f1] frameD(3)[OF f1] by auto
    note q = queue_ok_insert[OF i1 re1]
    have l2: "live {} ?s2" by (rule queue_core[OF l1 re1(1)])
    have f2: "frame {r} s ?s2"
      by (rule frame_trans[OF f1 frame_upd]) (simp add: mono_le_def)
    have flags: "is_executing (rules ?s2 x) = is_executing (rules s x)"
      "is_under_consideration (rules ?s2 x) = is_under_consideration (rules s x)"
      "deps_remain (rules ?s2 x) = deps_remain (rules s x)"
      "is_executed (rules ?s2 x) = is_executed (rules s x)" for x by simp_all
    have new2: "\<not> is_executing (rules ?s2 x) \<or> is_under_consideration (rules ?s2 x)" if "r \<in> dep_ids ?s2 x" for x
      using new[of x] that frameD(9)[OF f2, of x] flags by metis
    have "outcome F (only_rule r ?s2) (mark_executed ops (Suc (Suc n)) r False ?s2)"
      by (rule mark_only[OF ops q(1) insertI1 frame_live_graph[OF f2 lg] l2 new2])
    then have m: "outcome F (only_rule r s) (mark_executed ops (Suc (Suc n)) r False ?s2)"
      by (rule outcome_mono) (auto simp: only_rule_def split: if_splits)
    have qd: "only_rule r s (?s2\<lparr> ruleids_to_run := ruleids_to_run ?s1 @ [r] \<rparr>)"
      using nx by (simp add: only_rule_def)
    show "outcome F (\<lambda>(b, s'). only_rule r s s')
       (let s = ?s1 in
          if queue then
            Inr (False, upd_rule r (is_queued_update (\<lambda>_. True))
                          (s\<lparr> ruleids_to_run := ruleids_to_run s @ [r] \<rparr>))
          else
            bind_res (mark_executed ops (Suc (Suc n)) r False (upd_rule r (is_queued_update (\<lambda>_. True)) s))
              (\<lambda>s. Inr (True, s)))"
    proof (cases queue)
      case True
      then show ?thesis using qd by (simp add: Let_def upd_rule_to_run del: mark_executed.simps)
    next
      case False
      have "outcome F (\<lambda>(b, s'). only_rule r s s')
          (bind_res (mark_executed ops (Suc (Suc n)) r False ?s2) (\<lambda>s. Inr (True, s)))"
        by (rule outcome_bind[OF m]) simp
      then show ?thesis using False by (simp add: Let_def del: mark_executed.simps)
    qed
  qed
  then show ?thesis using re(2) by (simp del: mark_executed.simps)
qed

text \<open>What a call of \<open>consider\<close> for \<open>c\<close> leaves alone: the flags of every rule that was considered
  before and the entries that wait for such a rule; the new ones are reachable from \<open>c\<close>.\<close>

definition quiet :: "nat \<Rightarrow> ('a) base_scheme \<Rightarrow> ('a) base_scheme \<Rightarrow> bool" where
  "quiet c s s' = ((\<forall>x. is_executing (rules s x) \<longrightarrow> is_executed (rules s' x) = is_executed (rules s x) \<and>
       is_queued (rules s' x) = is_queued (rules s x)) \<and>
     (\<forall>x. is_executing (rules s' x) \<longrightarrow> \<not> is_executing (rules s x) \<longrightarrow> (c, x) \<in> (dep_edges s)\<^sup>*) \<and>
     (\<forall>x y. deps_remain (rules s x) y \<noteq> None \<longrightarrow> is_executing (rules s y) \<longrightarrow>
       deps_remain (rules s' x) y \<noteq> None))"

lemma quiet_core: "core_eq s s' \<Longrightarrow> quiet c s s'"
  unfolding quiet_def by (auto simp: core_eqD)

lemma quietD:
  assumes "quiet c s s'"
  shows "is_executing (rules s x) \<Longrightarrow> is_executed (rules s' x) = is_executed (rules s x)"
    "is_executing (rules s x) \<Longrightarrow> is_queued (rules s' x) = is_queued (rules s x)"
    "is_executing (rules s' x) \<Longrightarrow> \<not> is_executing (rules s x) \<Longrightarrow> (c, x) \<in> (dep_edges s)\<^sup>*"
    "deps_remain (rules s x) y \<noteq> None \<Longrightarrow> is_executing (rules s y) \<Longrightarrow> deps_remain (rules s' x) y \<noteq> None"
  using assms unfolding quiet_def by blast+

lemma frame_edges: "frame V s s' \<Longrightarrow> dep_edges s' = dep_edges s"
  unfolding dep_edges_def using frameD(9) by blast

lemma quiet_trans:
  assumes q1: "quiet c s s'" and q2: "quiet c s' s''" and f: "frame V s s'"
  shows "quiet c s s''"
proof -
  have e: "is_executing (rules s x) \<Longrightarrow> is_executing (rules s' x)" for x by (rule frameD(5)[OF f])
  have ed: "dep_edges s' = dep_edges s" by (rule frame_edges[OF f])
  show ?thesis
    unfolding quiet_def
  proof (intro conjI allI impI)
    fix x
    assume "is_executing (rules s x)"
    then show "is_executed (rules s'' x) = is_executed (rules s x)"
      "is_queued (rules s'' x) = is_queued (rules s x)"
      using quietD(1,2)[OF q1, of x] quietD(1,2)[OF q2, of x] e by simp_all
  next
    fix x
    assume "is_executing (rules s'' x)" "\<not> is_executing (rules s x)"
    then show "(c, x) \<in> (dep_edges s)\<^sup>*"
      using quietD(3)[OF q1, of x] quietD(3)[OF q2, of x] ed by (cases "is_executing (rules s' x)") simp_all
  next
    fix x y
    assume "deps_remain (rules s x) y \<noteq> None" "is_executing (rules s y)"
    then show "deps_remain (rules s'' x) y \<noteq> None"
      using quietD(4)[OF q1, of x y] quietD(4)[OF q2, of x y] e by simp
  qed
qed

lemma quiet_dep:
  assumes "quiet d s s'" "d \<in> dep_ids s r"
  shows "quiet r s s'"
proof -
  have "(r, d) \<in> dep_edges s" using assms(2) by (simp add: dep_edges_def)
  then have "(d, x) \<in> (dep_edges s)\<^sup>* \<Longrightarrow> (r, x) \<in> (dep_edges s)\<^sup>*" for x
    by (rule converse_rtrancl_into_rtrancl)
  then show ?thesis using assms(1) unfolding quiet_def by blast
qed

definition rec_live :: "cfail set \<Rightarrow> nat set \<Rightarrow> nat
    \<Rightarrow> (nat \<Rightarrow> 'w sched \<Rightarrow> (bool \<times> 'w sched) res) \<Rightarrow> bool" where
  "rec_live F R m rec = (\<forall>d s. d < rules_size s \<longrightarrow> graph_ok s \<longrightarrow> sched_inv R s \<longrightarrow> work s \<le> m \<longrightarrow>
     live_graph s \<longrightarrow> live {} s \<longrightarrow> \<not> reaches_cycle s d \<longrightarrow>
     outcome F (\<lambda>(b, s'). is_executing (rules s' d) \<and> live {} s' \<and> quiet d s s') (rec d s))"

definition live_post :: "nat set \<Rightarrow> nat \<Rightarrow> nat \<Rightarrow> 'w sched \<Rightarrow> 'w sched \<Rightarrow> bool" where
  "live_post R m r s s' = (loop_post R m r s s' \<and> live {} s' \<and> quiet r s s')"

definition live_pre :: "nat set \<Rightarrow> nat \<Rightarrow> nat \<Rightarrow> 'w sched \<Rightarrow> bool" where
  "live_pre R m r s = (in_loop R m r s \<and> live_graph s \<and> live {} s \<and> \<not> reaches_cycle s r)"

lemma live_post_refl: "live_pre R m r s \<Longrightarrow> live_post R m r s s"
  by (simp add: live_post_def live_pre_def loop_post_refl quiet_core)

lemma live_post_frame: "live_post R m r s s' \<Longrightarrow> frame {r} s s'"
  by (simp add: live_post_def loop_post_def)

lemma live_post_trans: "live_post R m r s s' \<Longrightarrow> live_post R m r s' s'' \<Longrightarrow> live_post R m r s s''"
  using live_post_frame[of R m r s s'] unfolding live_post_def
  by (blast intro: loop_post_trans quiet_trans)

lemma live_post_pre: "live_pre R m r s \<Longrightarrow> live_post R m r s s' \<Longrightarrow> live_pre R m r s'"
  using live_post_frame[of R m r s s'] frame_live_graph[of "{r}" s s'] loop_post_in_loop[of R m r s s']
    frame_reaches[of "{r}" s s']
  unfolding live_post_def live_pre_def by metis

lemma live_post_core:
  "live_pre R m r s \<Longrightarrow> core_eq s s' \<Longrightarrow> loop_post R m r s s' \<Longrightarrow> live_post R m r s s'"
  using live_cong[of s s'] quiet_core[of s s'] by (simp add: live_post_def live_pre_def)

lemma live_step:
  assumes rec: "rec_ok F R m rec" "rec_live F R m rec" and s: "live_pre R m r s" and d: "d \<in> dep_ids s r"
    and executed: "\<And>b s2. live_post R m r s s2 \<Longrightarrow> is_executing (rules s2 d) \<Longrightarrow> outcome F Q (k1 b s2)"
    and waiting: "\<And>b s2. live_post R m r s s2 \<Longrightarrow> is_executing (rules s2 d) \<Longrightarrow>
      \<not> is_executed (rules s2 d) \<Longrightarrow> outcome F Q (k2 b s2)"
  shows "outcome F Q (bind_res (rec d s) (\<lambda>(b, s).
      if \<not> is_executed (rules s d) then
        bind_res (upd_rule_res r (deps_remain_forwait d) s) (\<lambda>s.
          k2 b (upd_rule r (wait_remain_cnt_update Suc) s))
      else k1 b s))"
proof -
  have il: "in_loop R m r s" using s by (simp add: live_pre_def)
  then have "d < rules_size s" using d unfolding in_loop_def graph_ok_def by blast
  then have "outcome F (\<lambda>(b, s'). is_executing (rules s' d) \<and> live {} s' \<and> quiet d s s') (rec d s)"
    using rec(2) s reaches_dep[OF d] unfolding rec_live_def live_pre_def in_loop_def by blast
  then show ?thesis
  proof (rule outcome_bind[OF outcome_conj[OF _ loop_rec[OF rec(1) il d]]], clarify)
    fix b s2
    assume e2: "is_executing (rules s2 d)" and l2: "live {} s2" and q2: "quiet d s s2"
      and p2: "loop_post R m r s s2" and d2: "d \<in> dep_ids s2 r"
    have post: "live_post R m r s s2" using p2 l2 quiet_dep[OF q2 d] by (simp add: live_post_def)
    show "outcome F Q (if \<not> is_executed (rules s2 d) then
          bind_res (upd_rule_res r (deps_remain_forwait d) s2) (\<lambda>s.
            k2 b (upd_rule r (wait_remain_cnt_update Suc) s)) else k1 b s2)"
    proof (cases "is_executed (rules s2 d)")
      case True
      then show ?thesis using executed[OF post e2] by simp
    next
      case nx: False
      have il2: "in_loop R m r s2" by (rule loop_post_in_loop[OF p2])
      then have "sched_inv R s2" by (simp add: in_loop_def)
      from sched_invD(2)[OF this d2 nx]
      have "outcome F (\<lambda>s'. core_eq s2 (upd_rule r (wait_remain_cnt_update Suc) s') \<and>
          loop_post R m r s2 (upd_rule r (wait_remain_cnt_update Suc) s'))
          (upd_rule_res r (deps_remain_forwait d) s2)"
        by (intro outcome_conj core_eq_forwait loop_forwait[OF il2 d2 nx])
      then show ?thesis
        unfolding if_P[OF nx]
      proof (rule outcome_bind, elim conjE)
        fix s3 :: "'a sched"
        let ?s = "upd_rule r (wait_remain_cnt_update Suc) s3"
        assume c: "core_eq s2 ?s" and p: "loop_post R m r s2 ?s"
        have "live_post R m r s ?s"
          using live_post_trans[OF post live_post_core[OF live_post_pre[OF s post] c p]] .
        then show "outcome F Q (k2 b ?s)" using waiting e2 nx core_eqD(1,3)[OF c] by simp
      qed
    qed
  qed
qed

text \<open>The loop of \<open>consider\<close>: all dependencies have been considered, and \<open>toexecute\<close> means that one of
  them is not executed.\<close>

definition cdeps_post :: "nat set \<Rightarrow> nat \<Rightarrow> nat \<Rightarrow> (nat \<times> stirdep) list \<Rightarrow> bool \<Rightarrow> 'w sched
    \<Rightarrow> bool \<times> bool \<times> 'w sched \<Rightarrow> bool" where
  "cdeps_post R m r es te s = (\<lambda>(te', _, s'). live_post R m r s s' \<and>
     (\<forall>(i, e) \<in> set es. \<not> is_dupe e \<longrightarrow>
        (\<forall>d. stirdep_ruleid (st_ruleid s) e = Some d \<longrightarrow> is_executing (rules s' d))) \<and>
     (te' \<longrightarrow> te \<or> (\<exists>d \<in> dep_ids s r. is_executing (rules s' d) \<and> \<not> is_executed (rules s' d))))"

lemma cdeps_post_step:
  assumes l: "live_post R m r s s2" and post: "cdeps_post R m r es te2 s2 res"
    and e: "\<And>d. \<not> is_dupe e \<Longrightarrow> stirdep_ruleid (st_ruleid s) e = Some d \<Longrightarrow> is_executing (rules s2 d)"
    and te: "te2 \<Longrightarrow> te \<or> (\<exists>d \<in> dep_ids s r. is_executing (rules s2 d) \<and> \<not> is_executed (rules s2 d))"
  shows "cdeps_post R m r ((i, e) # es) te s res"
proof -
  obtain te' ex' s' where res: "res = (te', ex', s')" by (cases res)
  have l2: "live_post R m r s2 s'" and es: "\<forall>(i, e) \<in> set es. \<not> is_dupe e \<longrightarrow>
        (\<forall>d. stirdep_ruleid (st_ruleid s2) e = Some d \<longrightarrow> is_executing (rules s' d))"
    and t: "te' \<Longrightarrow> te2 \<or> (\<exists>d \<in> dep_ids s2 r. is_executing (rules s' d) \<and> \<not> is_executed (rules s' d))"
    using post res by (auto simp: cdeps_post_def)
  note f = live_post_frame[OF l] and f2 = live_post_frame[OF l2]
  have q2: "quiet r s2 s'" using l2 by (simp add: live_post_def)
  have ids: "dep_ids s2 r = dep_ids s r" "st_ruleid s2 = st_ruleid s" using frameD(2,9)[OF f] by blast+
  have keep: "is_executing (rules s' d) \<and> \<not> is_executed (rules s' d)"
    if "is_executing (rules s2 d)" "\<not> is_executed (rules s2 d)" for d
    using that quietD(1)[OF q2 that(1)] frameD(5)[OF f2 that(1)] by simp
  have "te' \<Longrightarrow> te \<or> (\<exists>d \<in> dep_ids s r. is_executing (rules s' d) \<and> \<not> is_executed (rules s' d))"
    using t te keep ids(1) by blast
  moreover have "is_executing (rules s' d)" if "\<not> is_dupe e" "stirdep_ruleid (st_ruleid s) e = Some d" for d
    by (rule frameD(5)[OF f2 e[OF that]])
  ultimately show ?thesis
    using live_post_trans[OF l l2] es ids(2) by (auto simp: cdeps_post_def res)
qed

lemma consider_deps_live:
  assumes rec: "rec_ok F R m rec" "rec_live F R m rec" and F: "range Exited \<subseteq> F"
  shows "live_pre R m r s \<Longrightarrow> (\<forall>(i, e) \<in> set es. e \<in> set (deplist (rules s r))) \<Longrightarrow>
    outcome F (cdeps_post R m r es te s) (consider_deps ops rec r es te ex s)"
proof (induction es arbitrary: te ex s)
  case Nil
  then show ?case by (simp add: cdeps_post_def live_post_refl)
next
  case (Cons ie es)
  obtain i e where ie: "ie = (i, e)" by (cases ie)
  let ?s1 = "upd_rule r (waitloc_update (\<lambda>_. Some i)) s"
  have il: "in_loop R m r s" using Cons.prems(1) by (simp add: live_pre_def)
  have p1: "live_post R m r s ?s1"
    by (rule live_post_core[OF Cons.prems(1) loop_waitloc_core loop_post_waitloc[OF il]])
  have pre1: "live_pre R m r ?s1" by (rule live_post_pre[OF Cons.prems(1) p1])
  have es1: "\<forall>(i, e) \<in> set es. e \<in> set (deplist (rules s r))" and e1: "e \<in> set (deplist (rules s r))"
    using Cons.prems(2) ie by auto
  have nw: "\<not> is_wait e"
    using Cons.prems(1) e1 unfolding live_pre_def live_graph_def no_wait_def by blast
  have rest: "outcome F (cdeps_post R m r ((i, e) # es) te s) (consider_deps ops rec r es te2 ex2 s2)"
    if l: "live_post R m r s s2"
      and "\<And>d. \<not> is_dupe e \<Longrightarrow> stirdep_ruleid (st_ruleid s) e = Some d \<Longrightarrow> is_executing (rules s2 d)"
      and "te2 \<Longrightarrow> te \<or> (\<exists>d \<in> dep_ids s r. is_executing (rules s2 d) \<and> \<not> is_executed (rules s2 d))"
    for te2 ex2 s2
  proof -
    have "outcome F (cdeps_post R m r es te2 s2) (consider_deps ops rec r es te2 ex2 s2)"
      using es1 frameD(6)[OF live_post_frame[OF l]] by (intro Cons.IH live_post_pre[OF Cons.prems(1) l]) simp
    then show ?thesis using cdeps_post_step[OF l] that by (blast intro: outcome_mono)
  qed
  show ?case
  proof (cases "is_dupe e")
    case True
    have "outcome F (cdeps_post R m r ((i, e) # es) te s) (consider_deps ops rec r es te ex s)"
      by (rule rest[OF live_post_refl[OF Cons.prems(1)]]) (use True in auto)
    then show ?thesis using True ie by simp
  next
    case nd: False
    show ?thesis
    proof (cases "stirdep_ruleid (st_ruleid ?s1) e")
      case None
      obtain ok w' where ow: "accessible ops (nameidx e) (world s) = (ok, w')" by fastforce
      have pw: "live_post R m r s (?s1\<lparr>world := w'\<rparr>)"
      proof (rule live_post_trans[OF p1 live_post_core[OF pre1]])
        show "loop_post R m r ?s1 (?s1\<lparr>world := w'\<rparr>)"
          using pre1 by (intro loop_post_world) (simp add: live_pre_def)
      qed simp
      have "outcome F (cdeps_post R m r ((i, e) # es) te s) (consider_deps ops rec r es te ex ?s1)"
        "outcome F (cdeps_post R m r ((i, e) # es) te s) (consider_deps ops rec r es te ex (?s1\<lparr>world := w'\<rparr>))"
        using None by (auto intro!: rest p1 pw)
      then show ?thesis using ow None nw nd ie F by (auto simp: Let_def)
    next
      case (Some d)
      have d: "d \<in> dep_ids ?s1 r" using e1 nd Some by (intro loop_dep_id[of e]) simp_all
      then have d0: "d \<in> dep_ids s r" using frameD(9)[OF live_post_frame[OF p1]] by simp
      have "outcome F (cdeps_post R m r ((i, e) # es) te s) (bind_res (rec d ?s1) (\<lambda>(b, s).
          if \<not> is_executed (rules s d) then
            bind_res (upd_rule_res r (deps_remain_forwait d) s) (\<lambda>s.
              consider_deps ops rec r es True (ex \<or> b) (upd_rule r (wait_remain_cnt_update Suc) s))
          else consider_deps ops rec r es te (ex \<or> b) s))"
      proof (rule live_step[OF rec pre1 d])
        fix b s2
        assume l2: "live_post R m r ?s1 s2" and x: "is_executing (rules s2 d)"
        then show "outcome F (cdeps_post R m r ((i, e) # es) te s) (consider_deps ops rec r es te (ex \<or> b) s2)"
          using Some by (intro rest live_post_trans[OF p1 l2]) auto
      next
        fix b s2
        assume l2: "live_post R m r ?s1 s2" and x: "is_executing (rules s2 d)" "\<not> is_executed (rules s2 d)"
        then show "outcome F (cdeps_post R m r ((i, e) # es) te s) (consider_deps ops rec r es True (ex \<or> b) s2)"
          using Some d0 by (intro rest live_post_trans[OF p1 l2]) auto
      qed
      then show ?thesis using nd nw Some ie by (auto simp: Let_def)
    qed
  qed
qed

definition consider_live :: "cfail set \<Rightarrow> 'w ops \<Rightarrow> nat \<Rightarrow> bool" where
  "consider_live F ops n = (\<forall>r s R. r < rules_size s \<longrightarrow> graph_ok s \<longrightarrow> sched_inv R s \<longrightarrow>
     4 * work s + 1 \<le> n \<longrightarrow> live_graph s \<longrightarrow> live {} s \<longrightarrow> \<not> reaches_cycle s r \<longrightarrow>
     outcome F (\<lambda>(b, s'). is_executing (rules s' r) \<and> live {} s' \<and> quiet r s s') (consider_rule ops n r s))"

lemma consider_rec_live:
  "consider_live F ops n \<Longrightarrow> 4 * m + 1 \<le> n \<Longrightarrow> rec_live F R m (\<lambda>d s. consider_rule ops n d s)"
  unfolding rec_live_def consider_live_def by (meson add_le_mono1 le_trans mult_le_mono2)

text \<open>Marking a rule as being considered.\<close>

lemma begin_live:
  assumes l: "live {} s" and ne: "\<not> is_executing (rules s r)" and nc: "\<not> reaches_cycle s r"
    and s1: "s1 = upd_rule r (\<lambda>x. x\<lparr> is_executing := True, is_under_consideration := True \<rparr>) s"
  shows "live {} s1" "quiet r s s1"
proof -
  have i: "dep_ids s1 x = dep_ids s x" for x by (simp add: dep_ids_def s1)
  show "live {} s1"
  proof (rule liveI)
    show "\<And>x d. deps_remain (rules s1 x) d \<noteq> None \<Longrightarrow> d \<in> dep_ids s1 x"
      using liveD(1)[OF l] unfolding i by (auto simp: s1 split: if_splits)
    show "\<And>x d. deps_remain (rules s1 x) d \<noteq> None \<Longrightarrow> is_executed (rules s1 d) \<Longrightarrow>
        \<not> is_executed (rules s1 x) \<Longrightarrow> (d, x) \<in> {}"
      using liveD(2)[OF l] by (auto simp: s1 split: if_splits)
    show "\<And>x d. is_executing (rules s1 x) \<Longrightarrow> \<not> is_under_consideration (rules s1 x) \<Longrightarrow> d \<in> dep_ids s1 x \<Longrightarrow>
        is_executing (rules s1 d)"
      using liveD(3)[OF l] unfolding i by (auto simp: s1 split: if_splits)
    show "\<And>x. is_executing (rules s1 x) \<Longrightarrow> \<not> is_under_consideration (rules s1 x) \<Longrightarrow>
        \<not> is_queued (rules s1 x) \<Longrightarrow> \<exists>d. deps_remain (rules s1 x) d \<noteq> None"
      using liveD(4)[OF l] by (auto simp: s1 split: if_splits)
    show "\<And>x. is_executing (rules s1 x) \<Longrightarrow> \<not> reaches_cycle s1 x"
      using liveD(5)[OF l] nc unfolding reaches_cong[of s1 s, OF i] by (auto simp: s1 split: if_splits)
  qed
  show "quiet r s s1" using ne by (auto simp: quiet_def s1)
qed

lemma quiet_only:
  assumes "only_rule r s s'" "\<not> is_executing (rules s0 r)" "quiet r s0 s" "frame V s0 s"
  shows "quiet r s0 s'"
  unfolding quiet_def
proof (intro conjI allI impI)
  note D = only_ruleD[OF assms(1)]
  show "is_executed (rules s' x) = is_executed (rules s0 x)" "is_queued (rules s' x) = is_queued (rules s0 x)"
    if x: "is_executing (rules s0 x)" for x
  proof -
    have "x \<noteq> r" using x assms(2) by blast
    then show "is_executed (rules s' x) = is_executed (rules s0 x)" "is_queued (rules s' x) = is_queued (rules s0 x)"
      using D(4,5)[of x] quietD(1,2)[OF assms(3) x] by simp_all
  qed
  show "(r, x) \<in> (dep_edges s0)\<^sup>*" if "is_executing (rules s' x)" "\<not> is_executing (rules s0 x)" for x
    using quietD(3)[OF assms(3)] that D(6) by simp
  show "deps_remain (rules s' x) y \<noteq> None" if "deps_remain (rules s0 x) y \<noteq> None" "is_executing (rules s0 y)" for x y
  proof -
    have "y \<noteq> r" using that(2) assms(2) by blast
    then show ?thesis using D(8)[of y x] quietD(4)[OF assms(3) that] by simp
  qed
qed

lemma three_suc: "4 \<le> n \<Longrightarrow> \<exists>n'. n = Suc (Suc (Suc n'))" for n :: nat
  by (intro exI[of _ "n - 3"]) simp

lemma consider_live_ok:
  assumes ops: "ops_ok F ops" and con: "consider_live F ops n"
  shows "consider_live F ops (Suc n)"
  unfolding consider_live_def
proof (intro allI impI)
  fix r and s :: "'a sched" and R
  assume r: "r < rules_size s" and g: "graph_ok s" and inv: "sched_inv R s"
    and fuel: "4 * work s + 1 \<le> Suc n" and lg: "live_graph s" and l: "live {} s" and nc: "\<not> reaches_cycle s r"
  have F: "range Exited \<subseteq> F" using ops by (simp add: ops_ok_def)
  have ok: "rule_ok (rules s r)" by (rule sched_invD(1)[OF inv])
  show "outcome F (\<lambda>(b, s'). is_executing (rules s' r) \<and> live {} s' \<and> quiet r s s') (consider_rule ops (Suc n) r s)"
  proof (cases "is_executing (rules s r)")
    case True
    then show ?thesis using l by (auto simp: quiet_core)
  next
    case ne: False
    then have nx: "\<not> is_executed (rules s r)" using rule_ok_simps(1,2)[OF ok] by blast
    have nu: "\<not> is_under_consideration (rules s r)" using rule_ok_simps(3)[OF ok] ne by blast
    define s1 where "s1 = upd_rule r (\<lambda>x. x\<lparr> is_executing := True, is_under_consideration := True \<rparr>) s"
    note b1 = begin_live[OF l ne nc s1_def]
    have f1: "frame {r} s s1" unfolding s1_def by (rule frame_set_under)
    have w0: "wait_remain_cnt (rules s1 r) = 0" using rule_ok_simps(4)[OF ok ne] by (simp add: s1_def)
    have "rule_ok ((rules s r)\<lparr> is_executing := True, is_under_consideration := True \<rparr>)"
      using ok unfolding rule_ok_def has_dep_def by simp
    then have i1: "sched_inv R s1" unfolding s1_def using r by (intro inv_upd[OF inv]) auto
    have lt: "work s1 < work s" using work_less[OF f1 r] ne by (simp add: s1_def)
    have in1: "in_loop R (work s1) r s1"
      using i1 frame_graph_ok[OF f1 g] r by (simp add: in_loop_def s1_def)
    have pre: "live_pre R (work s1) r s1"
      using in1 frame_live_graph[OF f1 lg] b1(1) nc frame_reaches[OF f1] by (simp add: live_pre_def)
    let ?es = "enumerate 0 (deplist (rules s1 r))"
    have cpre: "consider_pre R (work s1) r ?es False s1"
      using in1 w0 enumerate_deps by (simp add: consider_pre_def)
    have fu: "4 * work s1 + 1 \<le> n" using fuel lt by simp
    note rec = consider_rec_ok[OF all_specs[OF ops, THEN conjunct1] fu, of R] and
      recl = consider_rec_live[OF con fu, of R]
    have "outcome F (\<lambda>(b, s'). is_executing (rules s' r) \<and> live {} s' \<and> quiet r s s')
       (bind_res (consider_deps ops (\<lambda>d s. consider_rule ops n d s) r ?es False False s1)
          (\<lambda>(toexecute, execed_some, s).
            if \<not> toexecute \<and> \<not> is_queued (rules s r) then
              bind_res (do_exec ops n r s) (\<lambda>(ret, s).
                Inr (ret, upd_rule r (is_under_consideration_update (\<lambda>_. False)) s))
            else Inr (execed_some, upd_rule r (is_under_consideration_update (\<lambda>_. False)) s)))"
    proof (rule outcome_bind[OF outcome_conj[OF consider_deps_ok[OF rec F cpre]
            consider_deps_live[OF rec recl F pre enumerate_deps]]], clarify)
      fix te ex s2
      assume post: "consider_post R (work s1) r ?es False s1 (te, ex, s2)"
        and lpost: "cdeps_post R (work s1) r ?es False s1 (te, ex, s2)"
      have lp: "live_post R (work s1) r s1 s2" using lpost by (simp add: cdeps_post_def)
      have pre2: "live_pre R (work s1) r s2" by (rule live_post_pre[OF pre lp])
      have in2: "in_loop R (work s1) r s2" and l2: "live {} s2" and lg2: "live_graph s2"
        using pre2 by (simp_all add: live_pre_def)
      have f12: "frame {r} s1 s2" by (rule live_post_frame[OF lp])
      have f2: "frame {r} s s2" by (rule frame_trans[OF f1 f12])
      have q2: "quiet r s s2" using quiet_trans[OF b1(2) _ f1] lp by (simp add: live_post_def)
      have i2: "sched_inv R s2" and g2: "graph_ok s2" and k2: "work s2 \<le> work s1"
        using in2 by (simp_all add: in_loop_def)
      have e2: "is_executing (rules s2 r)" by (rule in_loop_executing[OF in2])
      have deps2: "\<forall>d \<in> dep_ids s2 r. is_executing (rules s2 d)"
      proof
        fix d
        assume "d \<in> dep_ids s2 r"
        then obtain e where e: "e \<in> set (deplist (rules s1 r))" "\<not> is_dupe e"
            "stirdep_ruleid (st_ruleid s1) e = Some d"
          using frameD(9)[OF f12, of r] by (auto simp: dep_ids_def)
        then obtain k where "k < length (deplist (rules s1 r))" "deplist (rules s1 r) ! k = e"
          by (auto simp: in_set_conv_nth)
        then have "(k, e) \<in> set ?es" by (auto simp: in_set_enumerate_eq)
        then show "is_executing (rules s2 d)" using lpost e unfolding cdeps_post_def by blast
      qed
      show "outcome F (\<lambda>(b, s'). is_executing (rules s' r) \<and> live {} s' \<and> quiet r s s')
         (if \<not> te \<and> \<not> is_queued (rules s2 r) then
              bind_res (do_exec ops n r s2) (\<lambda>(ret, s).
                Inr (ret, upd_rule r (is_under_consideration_update (\<lambda>_. False)) s))
            else Inr (ex, upd_rule r (is_under_consideration_update (\<lambda>_. False)) s2))"
      proof (cases "\<not> te \<and> \<not> is_queued (rules s2 r)")
        case False
        have "is_queued (rules s2 r) \<or> (\<exists>d. deps_remain (rules s2 r) d \<noteq> None)"
        proof (cases te)
          case True
          then obtain d where d: "d \<in> dep_ids s1 r" "\<not> is_executed (rules s2 d)"
            using lpost unfolding cdeps_post_def by blast
          then have "d \<in> dep_ids s2 r" using frameD(9)[OF f12, of r] by simp
          then show ?thesis using sched_invD(2)[OF i2] d(2) by blast
        qed (use False in blast)
        then have "live {} (upd_rule r (is_under_consideration_update (\<lambda>_. False)) s2)"
          by (rule clear_live[OF l2 deps2])
        moreover have "quiet r s (upd_rule r (is_under_consideration_update (\<lambda>_. False)) s2)"
          using q2 by (auto simp: quiet_def)
        ultimately show ?thesis using False e2 by auto
      next
        case True
        have "done_deps s2 (enumerate 0 (deplist (rules s2 r)))"
          using post True frameD(6)[OF f12, of r] by (simp add: consider_post_def)
        then have x2: "\<forall>d \<in> dep_ids s2 r. is_executed (rules s2 d)" using done_deps_all by blast
        have "1 \<le> work s" using work_pos[OF r nx] by simp
        then have "4 \<le> n" using fuel by linarith
        then obtain n' where n': "n = Suc (Suc (Suc n'))" using three_suc by blast
        have new: "\<not> is_executing (rules s2 x) \<or> is_under_consideration (rules s2 x)" if x: "r \<in> dep_ids s2 x" for x
        proof (cases "x = r")
          case True
          then show ?thesis using in2 by (simp add: in_loop_def)
        next
          case nr: False
          have rx: "r \<in> dep_ids s x" using x frameD(9)[OF f2, of x] by simp
          then have edge: "(x, r) \<in> dep_edges s" by (simp add: dep_edges_def)
          show ?thesis
          proof (rule ccontr)
            assume "\<not> (\<not> is_executing (rules s2 x) \<or> is_under_consideration (rules s2 x))"
            then have ex: "is_executing (rules s2 x)" "\<not> is_under_consideration (rules s2 x)" by blast+
            show False
            proof (cases "is_executing (rules s x)")
              case True
              have "\<not> is_under_consideration (rules s x)" using frame_under[OF f2, of x] nr ex(2) by simp
              then show False using liveD(3)[OF l True _ rx] ne by blast
            next
              case False
              then have "(r, x) \<in> (dep_edges s)\<^sup>*" using quietD(3)[OF q2 ex(1)] by blast
              then have "(r, r) \<in> (dep_edges s)\<^sup>+" using edge by (rule rtrancl_into_trancl1)
              then show False using nc on_cycle_reaches[of s r] by (simp add: on_cycle_def)
            qed
          qed
        qed
        have d: "outcome F (\<lambda>(b, s'). only_rule r s2 s') (do_exec ops n r s2)"
          unfolding n' using True by (intro do_exec_only[OF ops i2 e2 _ x2 lg2 l2 new]) simp
        have "outcome F (\<lambda>(b, s'). is_executing (rules s' r) \<and> live {} s' \<and> quiet r s s')
            (bind_res (do_exec ops n r s2) (\<lambda>(ret, s).
                Inr (ret, upd_rule r (is_under_consideration_update (\<lambda>_. False)) s)))"
        proof (rule outcome_bind[OF d], clarify)
          fix b s3
          assume o3: "only_rule r s2 s3"
          have l3: "live {} s3" by (rule only_rule_live[OF l2 o3 new])
          have "\<forall>d \<in> dep_ids s3 r. is_executing (rules s3 d)"
            using deps2 only_ruleD(2,6)[OF o3] by simp
          then have "live {} (upd_rule r (is_under_consideration_update (\<lambda>_. False)) s3)"
            using only_ruleD(1)[OF o3] by (intro clear_live[OF l3]) blast+
          moreover have "quiet r s (upd_rule r (is_under_consideration_update (\<lambda>_. False)) s3)"
            using quiet_only[OF o3 ne q2 f2] by (auto simp: quiet_def)
          ultimately show "outcome F (\<lambda>(b, s'). is_executing (rules s' r) \<and> live {} s' \<and> quiet r s s')
              (Inr (b, upd_rule r (is_under_consideration_update (\<lambda>_. False)) s3))"
            using only_ruleD(6)[OF o3, of r] e2 by simp
        qed
        then show ?thesis using True by simp
      qed
    qed
    then show ?thesis using ne nx by (simp add: Let_def s1_def)
  qed
qed

lemma all_consider_live: "ops_ok F ops \<Longrightarrow> consider_live F ops n"
proof (induction n)
  case 0
  then show ?case by (simp add: consider_live_def)
next
  case (Suc n)
  then show ?case using consider_live_ok by blast
qed

section \<open>The loop makes progress\<close>

definition dupes_ok :: "('a) base_scheme \<Rightarrow> bool" where
  "dupes_ok s = (\<forall>r. dep_rules (st_ruleid s) (deplist (rules s r)) \<subseteq> dep_ids s r)"

lemma prepare_live:
  assumes raw: "raw_ok s" and d: "dupes_ok s" and lg: "live_graph s"
  shows "live {} (prepare_rules s)" "live_graph (prepare_rules s)"
proof -
  let ?s = "prepare_rules s"
  have raw': "raw_rule (rules s x)" for x using raw by (simp add: raw_ok_def)
  have ne: "\<not> is_executing (rules ?s x)" for x by (rule prepare_raw_ok(6)[OF raw])
  have nx: "\<not> is_executed (rules ?s x)" for x
    using rule_ok_simps(1,2)[OF sched_invD(1)[OF prepare_raw_ok(1)[OF raw]], of x] ne by blast
  show "live {} ?s"
  proof (rule liveI)
    fix r y
    assume y: "deps_remain (rules ?s r) y \<noteq> None"
    then have "r < rules_size s" using raw'[of r] by (auto simp: prepare_rules_def raw_rule_def split: if_splits)
    then have "y \<in> dep_rules (st_ruleid s) (deplist (rules s r))"
      using y calc_deps_remain_ok(2)[OF raw', of "st_ruleid s" r] by (auto simp: prepare_rules_def)
    then show "y \<in> dep_ids ?s r" using d unfolding dupes_ok_def prepare_dep_ids by blast
  qed (use ne nx in blast)+
  have bd: "back_deps ?s x = back_deps s x" for x
    by (simp add: back_deps_def prepare_rules_def calc_deps_remain_def calc_loop_same)
  have nw: "no_wait ?s = no_wait s"
    by (auto simp: no_wait_def prepare_rules_def calc_deps_remain_def split: if_splits)
  show "live_graph ?s"
    using lg unfolding live_graph_def back_complete_def bd prepare_dep_ids nw .
qed

lemma consider_pass_live:
  assumes ops: "ops_ok F ops"
  shows "graph_ok s \<Longrightarrow> sched_inv R s \<Longrightarrow> \<forall>r \<in> set rs. r < rules_size s \<Longrightarrow> live_graph s \<Longrightarrow> live {} s \<Longrightarrow>
    \<forall>r \<in> set rs. \<not> reaches_cycle s r \<Longrightarrow>
    outcome F (\<lambda>(b, s'). live {} s') (consider_pass ops rs s)"
proof (induction rs arbitrary: s)
  case (Cons r rs)
  show ?case
  proof (cases "r \<in> set (rules_remain_list s)")
    case False
    then show ?thesis using Cons by simp
  next
    case True
    have r: "r < rules_size s" using Cons.prems(3) by simp
    have nc: "\<not> reaches_cycle s r" using Cons.prems(6) by simp
    have "4 * work s + 1 \<le> sched_fuel s" using sched_fuel_enough[of s] by simp
    then have "outcome F (\<lambda>(b, s'). is_executing (rules s' r) \<and> live {} s' \<and> quiet r s s')
        (consider_rule ops (sched_fuel s) r s)"
      using all_consider_live[OF ops, of "sched_fuel s"] r nc Cons.prems(1,2,4,5)
      unfolding consider_live_def by blast
    then have "outcome F (\<lambda>(b, s'). live {} s') (bind_res (consider_rule ops (sched_fuel s) r s)
             (\<lambda>(changed, s). if changed then Inr (True, s) else consider_pass ops rs s))"
    proof (rule outcome_bind[OF outcome_conj[OF _ consider_changed[OF ops r Cons.prems(1,2)]]], clarify)
      fix b s2
      assume l2: "live {} s2" and i2: "sched_inv R s2" and f2: "frame {} s s2"
      have "outcome F (\<lambda>(b, s'). live {} s') (consider_pass ops rs s2)"
        using Cons.prems(3,6) frameD(1)[OF f2] frame_reaches[OF f2]
        by (intro Cons.IH frame_graph_ok[OF f2 Cons.prems(1)] i2 frame_live_graph[OF f2 Cons.prems(4)] l2) simp_all
      then show "outcome F (\<lambda>(b, s'). live {} s') (if b then Inr (True, s2) else consider_pass ops rs s2)"
        using l2 by simp
    qed
    then show ?thesis using True by simp
  qed
qed simp

lemma initial_loop_live:
  assumes ops: "ops_ok F ops"
  shows "graph_ok s \<Longrightarrow> sched_inv R s \<Longrightarrow> remain_in s \<Longrightarrow> work s < k \<Longrightarrow> live_graph s \<Longrightarrow> live {} s \<Longrightarrow>
    \<forall>r \<in> set (rules_remain_list s). \<not> reaches_cycle s r \<Longrightarrow>
    outcome F (live {}) (initial_loop ops k s)"
proof (induction k arbitrary: s)
  case (Suc k)
  have rs: "\<forall>r \<in> set (rules_remain_list s). r < rules_size s" using Suc.prems(3) by (simp add: remain_in_def)
  show ?case
    unfolding initial_loop.simps
  proof (rule outcome_bind[OF outcome_conj[OF consider_pass_ok[OF ops Suc.prems(1,2) rs]
          consider_pass_live[OF ops Suc.prems(1,2) rs Suc.prems(5,6,7)]]], clarify)
    fix b s2
    assume i2: "sched_inv R s2" and f2: "frame {} s s2" and w2: "b \<longrightarrow> work s2 < work s" and l2: "live {} s2"
    have sub: "set (rules_remain_list s2) \<subseteq> set (rules_remain_list s)"
      using f2 i2 Suc.prems(2) by (auto simp: frame_def mono_le_def sched_inv_def remain_ok_def)
    have "remain_in s2" using Suc.prems(3) sub frameD(1)[OF f2] by (auto simp: remain_in_def)
    then have "outcome F (live {}) (initial_loop ops k s2)" if b
      using w2 that Suc.prems(4,7) sub frame_reaches[OF f2]
      by (intro Suc.IH frame_graph_ok[OF f2 Suc.prems(1)] i2 frame_live_graph[OF f2 Suc.prems(5)] l2) auto
    then show "outcome F (live {}) (if b then initial_loop ops k s2 else Inr s2)" using l2 by simp
  qed
qed simp

text \<open>The invariant of the loop with progress: every goal that remains has been considered.\<close>

definition goals_considered :: "('a) base_scheme \<Rightarrow> bool" where
  "goals_considered s = (\<forall>r \<in> set (rules_remain_list s). is_executing (rules s r))"

lemma frame_goals:
  assumes f: "frame V s s'" and i: "sched_inv R s" "sched_inv R' s'" and g: "goals_considered s"
  shows "goals_considered s'"
proof -
  have "set (rules_remain_list s') \<subseteq> set (rules_remain_list s)"
    using f i by (auto simp: frame_def mono_le_def sched_inv_def remain_ok_def)
  then show ?thesis using g frameD(5)[OF f] by (auto simp: goals_considered_def)
qed

definition progress :: "'w loop \<Rightarrow> bool" where
  "progress l = (live {} (sch l) \<and> live_graph (sch l) \<and> goals_considered (sch l))"

lemma core_progress:
  assumes "core_eq (sch l) (sch l')" "rules_remain_list (sch l') = rules_remain_list (sch l)"
    "live_graph (sch l') = live_graph (sch l)" "progress l"
  shows "progress l'"
  using assms live_cong[OF assms(1)] by (simp add: progress_def goals_considered_def core_eqD)

lemma spawn_progress:
  "core_eq s (upd_rule r (cmdidx_update Suc) s)"
  "live_graph (upd_rule r (cmdidx_update Suc) s) = live_graph s"
proof -
  show "core_eq s (upd_rule r (cmdidx_update Suc) s)" by (intro core_eq_upd) auto
  have bd: "back_deps (upd_rule r (cmdidx_update Suc) s) x = back_deps s x" for x by (simp add: back_deps_def)
  have dl: "deplist (rules (upd_rule r (cmdidx_update Suc) s) x) = deplist (rules s x)" for x by simp
  have nw: "no_wait (upd_rule r (cmdidx_update Suc) s) = no_wait s" unfolding no_wait_def dl ..
  show "live_graph (upd_rule r (cmdidx_update Suc) s) = live_graph s"
    unfolding live_graph_def back_complete_def bd cmdidx_dep_ids nw ..
qed

lemma live_graph_to_run [simp]: "live_graph (s\<lparr> ruleids_to_run := xs \<rparr>) = live_graph s"
  by (simp add: live_graph_def no_wait_def back_complete_def back_deps_def dep_edges_def)

lemma live_graph_env [simp]: "live_graph (s\<lparr> world := w \<rparr>) = live_graph s"
  by (simp add: live_graph_def no_wait_def back_complete_def back_deps_def dep_edges_def dep_ids_def)

lemma run_step_progress:
  assumes ops: "ops_ok F ops" and inv: "loop_inv s0 Fd l" and pr: "progress l"
    and step: "run_step ops keep l (Inr l')"
  shows "progress l'"
  using step
proof (cases rule: run_step.cases)
  case (fork xs r)
  then obtain s where s: "spawn_child r (sch l) = Inr s"
      and l': "l' = l\<lparr> sch := s\<lparr> ruleids_to_run := xs \<rparr>, children := r # children l \<rparr>"
    by (cases "spawn_child r (sch l)") auto
  note s = spawn_rules(1)[OF s]
  show ?thesis by (rule core_progress[OF _ _ _ pr]) (simp_all add: l' s spawn_progress)
next
  case (next_cmd r)
  then obtain s where s: "spawn_child r (sch l) = Inr s" and l': "l' = l\<lparr> sch := s \<rparr>"
    by (cases "spawn_child r (sch l)") auto
  note s = spawn_rules(1)[OF s]
  show ?thesis by (rule core_progress[OF _ _ _ pr]) (simp_all add: l' s spawn_progress)
next
  case (finished r)
  then obtain s where s: "mark_executed ops (sched_fuel (sch l)) r True (sch l) = Inr s"
      and l': "l' = l\<lparr> sch := s, children := remove1 r (children l) \<rparr>"
    by (cases "mark_executed ops (sched_fuel (sch l)) r True (sch l)") auto
  let ?R = "set (children l) \<union> Fd"
  have i: "sched_inv ?R (sch l)" and g: "graph_ok (sch l)" using inv by (simp_all add: loop_inv_def)
  have R: "r \<in> ?R" using finished by simp
  then have "is_queued (rules (sch l) r)" using i unfolding sched_inv_def queue_ok_def by blast
  then have size: "r < rules_size (sch l)"
    using rule_ok_simps(2)[OF sched_invD(1)[OF i], of r] i by (simp add: sched_inv_def)
  have fu: "4 * work (sch l) - 1 \<le> sched_fuel (sch l)" using sched_fuel_enough[of "sch l"] by simp
  have "outcome F (live {}) (mark_executed ops (sched_fuel (sch l)) r True (sch l))"
    using all_live[OF ops, of "sched_fuel (sch l)"] size g i R fu pr
    unfolding mark_live_def progress_def by blast
  moreover have "outcome F (\<lambda>s'. sched_inv (?R - {r}) s' \<and> frame {r} (sch l) s' \<and>
      is_executed (rules s' r) \<and>
      is_under_consideration (rules s' r) = is_under_consideration (rules (sch l) r))
    (mark_executed ops (sched_fuel (sch l)) r True (sch l))"
    using all_specs[OF ops, of "sched_fuel (sch l)"] size g i R fu unfolding mark_executed_spec_def by blast
  ultimately have "live {} s" "sched_inv (?R - {r}) s" "frame {r} (sch l) s" using s by simp_all
  then show ?thesis
    using pr frame_live_graph[of "{r}" "sch l" s] frame_goals[of "{r}" "sch l" s, OF _ i]
    by (simp add: progress_def l')
next
  case (failed r)
  then have "sch l' = sch l" by (auto split: if_splits)
  then show ?thesis using pr by (simp add: progress_def)
next
  case (env w)
  then have l': "l' = l\<lparr> sch := (sch l)\<lparr> world := w \<rparr> \<rparr>" by simp
  show ?thesis by (rule core_progress[OF _ _ _ pr]) (simp_all add: l')
qed

lemma reach_progress:
  assumes ops: "ops_ok F ops" and st: "start_ok s0" and lv: "live {} s0" and lg: "live_graph s0"
    and nc: "\<forall>r \<in> set (rules_remain_list s0). \<not> reaches_cycle s0 r"
    and reach: "reach ops keep s0 l"
  shows "progress l"
  using reach
proof (induction rule: reach.induct)
  case (start s)
  have "work s0 < 2 * rules_size s0 + 1" using work_bound[of s0] by simp
  then have "outcome F (live {}) (run_start ops s0)"
    unfolding run_start_def
    by (rule initial_loop_live[OF ops start_okD(2,1,3)[OF st] _ lg lv nc])
  moreover note run_start_ok[OF ops st]
  ultimately have "live {} s" "frame {} s0 s" "goals_considered s"
    using start unfolding goals_considered_def by simp_all
  then show ?case using frame_live_graph[OF _ lg] by (simp add: progress_def)
next
  case (step l l')
  obtain Fd where "loop_inv s0 Fd l" using reach_inv[OF ops st step(1)] by blast
  then show ?case using run_step_progress[OF ops _ step(3,2)] by blast
qed

text \<open>When nothing runs and nothing waits to run, every considered rule is executed: an unexecuted one
  waits for an unexecuted dependency, which was considered too, and so on, and no cycle is reached.\<close>

lemma ended_executed:
  assumes inv: "sched_inv {} s" and q: "ruleids_to_run s = []" and l: "live {} s"
    and u: "\<forall>r. \<not> is_under_consideration (rules s r)" and fin: "finite (dep_edges s)"
  shows "is_executing (rules s r) \<Longrightarrow> is_executed (rules s r)"
proof -
  let ?E = "{(r, d). (r, d) \<in> dep_edges s \<and> \<not> reaches_cycle s r}"
  have "acyclic ?E"
    unfolding acyclic_def
  proof (intro allI notI)
    fix x
    assume x: "(x, x) \<in> ?E\<^sup>+"
    then have "(x, x) \<in> (dep_edges s)\<^sup>+" by (rule trancl_mono) auto
    then have "reaches_cycle s x" using on_cycle_reaches[of s x] by (simp add: on_cycle_def)
    moreover have "\<exists>y. (x, y) \<in> ?E" using tranclD[OF x] by blast
    ultimately show False by blast
  qed
  moreover have "finite ?E" by (rule finite_subset[OF _ fin]) auto
  ultimately have "wf (?E\<inverse>)" by (intro finite_acyclic_wf_converse)
  then show "is_executing (rules s r) \<Longrightarrow> is_executed (rules s r)"
  proof (induction r rule: wf_induct_rule)
    case (less r)
    show ?case
    proof (rule ccontr)
      assume nx: "\<not> is_executed (rules s r)"
      have "queue_ok {} s" using inv by (simp add: sched_inv_def)
      then have nq: "\<not> is_queued (rules s r)" using q nx by (auto simp: queue_ok_def)
      obtain d where d: "deps_remain (rules s r) d \<noteq> None" using liveD(4)[OF l less.prems _ nq] u by blast
      have dep: "d \<in> dep_ids s r" by (rule liveD(1)[OF l d])
      then have "(d, r) \<in> ?E\<inverse>" using liveD(5)[OF l less.prems] by (simp add: dep_edges_def)
      moreover have "is_executing (rules s d)" using liveD(3)[OF l less.prems _ dep] u by blast
      ultimately have "is_executed (rules s d)" by (rule less.IH)
      then show False using liveD(2)[OF l d _ nx] by blast
    qed
  qed
qed

lemma finite_edges:
  assumes "start_ok s"
  shows "finite (dep_edges s)"
proof -
  have "dep_edges s \<subseteq> {..< rules_size s} \<times> {..< rules_size s}"
  proof (clarsimp simp: dep_edges_def)
    fix r d
    assume d: "d \<in> dep_ids s r"
    then have "deplist (rules s r) \<noteq> []" by (auto simp: dep_ids_def)
    then have r: "r < rules_size s" using start_okD(4)[OF assms] by (meson not_le)
    have "graph_ok s" using assms by (rule start_okD)
    then show "r < rules_size s \<and> d < rules_size s" using r d unfolding graph_ok_def by blast
  qed
  then show ?thesis by (rule finite_subset) simp
qed

lemma run_completes:
  assumes "ops_ok F ops" "start_ok s0" "live {} s0" "live_graph s0"
    "\<forall>r \<in> set (rules_remain_list s0). \<not> reaches_cycle s0 r"
    and "reach ops keep s0 l" "loop_ended l" "\<not> cmdfailed l"
  shows "rules_remain_list (sch l) = []"
proof -
  obtain Fd where inv: "loop_inv s0 Fd l" using reach_inv[OF assms(1,2,6)] by blast
  have pr: "progress l" by (rule reach_progress[OF assms(1-6)])
  have ended: "children l = []" "ruleids_to_run (sch l) = []" using assms(7) by (simp_all add: loop_ended_def)
  have i: "sched_inv {} (sch l)" using inv ended(1) assms(8) by (auto simp: loop_inv_def)
  have "dep_edges (sch l) = dep_edges s0" using inv by (simp add: loop_inv_def dep_edges_def)
  then have fin: "finite (dep_edges (sch l))" using finite_edges[OF assms(2)] by simp
  have "is_executed (rules (sch l) r)" if "r \<in> set (rules_remain_list (sch l))" for r
    using that pr inv
    by (intro ended_executed[OF i ended(2) _ _ fin]) (auto simp: progress_def goals_considered_def loop_inv_def)
  moreover have "\<not> is_executed (rules (sch l) r)" if "r \<in> set (rules_remain_list (sch l))" for r
    using that i by (simp add: sched_inv_def remain_ok_def)
  ultimately show ?thesis by (meson last_in_set)
qed

text \<open>
  C6: Without wait positions, and without commands that execute \<open>@adddeps\<close> while they are evaluated in the
  loop, the build finishes: when the loop has no child and nothing to fork, and no
  command failed, then no goal remains unmade, so the final error \<open>Out of children, yet not all
  targets made\<close> cannot be reached.  No cycle may be reached from a goal (\<open>better_cycle_detect\<close> has checked
  that) and the back edges must mirror the dependencies (\<open>ins_ruleid_by_dep2\<close> enters them).  The exclusion
  of \<open>@adddeps\<close> (the instruction \<open>DEP_ADD\<close> after parsing) is in the type of \<open>decide\<close>, which cannot change
  the rule base; with it the final error can be reached without wait positions, since a rule that is
  executed already is entered as remaining (\<open>late_dep_remains\<close>).
\<close>

theorem run_loop_complete:
  assumes "ops_ok F ops" "start_ok s0" "live {} s0" "live_graph s0"
    "\<forall>r \<in> set (rules_remain_list s0). \<not> reaches_cycle s0 r"
    and "reach ops keep s0 l" "loop_ended l" "\<not> cmdfailed l"
  shows "rules_remain_list (sch l) = []"
  using assms by (rule run_completes)

lemma ex_raw_live: "live_graph ex_raw" "dupes_ok ex_raw" "\<not> reaches_cycle ex_raw r"
proof -
  have s: "ex_raw = ex_sched [ex_rule [(1, False)] [] True, ex_rule [] [0] False] [0]" by (rule ex_raw_def)
  have r2: "r < 2 \<Longrightarrow> r = 0 \<or> r = 1" for r :: nat by auto
  have rules: "rules ex_raw r = (if r = 0 then ex_rule [(1, False)] [] True else
      if r = 1 then ex_rule [] [0] False else zero_rule)" for r
    by (auto simp: s ex_sched_def dest: r2)
  have ids: "dep_ids ex_raw r = (if r = 0 then {1} else {})" for r
    by (simp add: dep_ids_def rules s ex_sched_def ex_rule_def zero_rule_def)
  have "back_complete ex_raw" "no_wait ex_raw"
    by (auto simp: back_complete_def no_wait_def ids back_deps_def rules ex_rule_def zero_rule_def ex_dep_def)
  moreover have "dep_edges ex_raw = {(0, 1)}" by (auto simp: dep_edges_def ids split: if_splits)
  then have "acyclic (dep_edges ex_raw)" by (auto intro: acyclicI_order[where f = "\<lambda>r. - int r"])
  then show "\<not> reaches_cycle ex_raw r" by (auto simp: reaches_cycle_def on_cycle_def acyclic_def)
  ultimately show "live_graph ex_raw" by (simp add: live_graph_def)
  show "dupes_ok ex_raw"
    by (simp add: dupes_ok_def ids) (simp add: rules ex_rule_def zero_rule_def)
qed

lemma ex_two_live: "live_graph ex_two" "live {} ex_two" "\<not> reaches_cycle ex_two r"
proof -
  show "live_graph ex_two" "live {} ex_two"
    unfolding ex_two_raw by (rule prepare_live[OF ex_raw_ok ex_raw_live(2,1)])+
  show "\<not> reaches_cycle ex_two r"
    unfolding ex_two_raw reaches_cong[of "prepare_rules ex_raw" ex_raw, OF prepare_dep_ids] by (rule ex_raw_live)
qed

theorem run_loop_complete_witness:
  "\<exists>l. reach ex_ops False ex_two l \<and> loop_ended l \<and> rules_remain_list (sch l) = []"
proof -
  have "case run_one ex_ops 0 ex_two of Inl f \<Rightarrow> False | Inr s \<Rightarrow> ruleids_to_run s = []" by code_simp
  then obtain s where s: "run_one ex_ops 0 ex_two = Inr s" "ruleids_to_run s = []"
    by (auto split: sum.splits)
  let ?l = "\<lparr> sch = s, children = [], cmdfailed = False \<rparr>"
  have r: "reach ex_ops False ex_two ?l" by (rule run_one_reach[OF s(1)])
  moreover have e: "loop_ended ?l" by (simp add: loop_ended_def s)
  ultimately show ?thesis
    using run_loop_complete[OF ex_ops_ok ex_two_start ex_two_live(2,1) _ r e] ex_two_live(3) by auto
qed

end
