(* ===== verification/Run_End.thy ===== *)
theory Run_End
  imports Liveness
begin

text \<open>
  The loop of \<open>run_loop\<close> ends: every step of it but a change of the world from outside either executes a
  further rule, starts one of finitely many commands, or gives a rule up.
\<close>

section \<open>What is left to do\<close>

definition weight :: "'w loop \<Rightarrow> nat \<Rightarrow> nat" where
  "weight l r = 1 + length (cmd (rules (sch l) r)) - cmdidx (rules (sch l) r)"

definition todo :: "'w loop \<Rightarrow> nat" where
  "todo l = sum (weight l) (set (ruleids_to_run (sch l)) \<union> set (children l))"

definition loop_left :: "'w loop \<Rightarrow> nat \<times> nat" where
  "loop_left l = (work (sch l), todo l)"

definition env_step :: "'w loop \<Rightarrow> 'w loop \<Rightarrow> bool" where
  "env_step l l' = (\<exists>w. l' = l\<lparr> sch := (sch l)\<lparr> world := w \<rparr> \<rparr>)"

lemma env_left: "env_step l l' \<Longrightarrow> loop_left l' = loop_left l"
  by (auto simp: env_step_def loop_left_def todo_def weight_def work_def)

lemma env_children: "env_step l l' \<Longrightarrow> children l' = children l"
  by (auto simp: env_step_def)

lemma todo_started:
  assumes c: "cmdidx (rules (sch l) r) < length (cmd (rules (sch l) r))"
    and r: "r \<in> set (ruleids_to_run (sch l)) \<union> set (children l)"
    and same: "rules (sch l') = (rules (sch l))(r := cmdidx_update Suc (rules (sch l) r))"
      "set (ruleids_to_run (sch l')) \<union> set (children l') = set (ruleids_to_run (sch l)) \<union> set (children l)"
  shows "todo l' < todo l"
proof -
  let ?A = "set (ruleids_to_run (sch l)) \<union> set (children l)"
  have w: "weight l' r < weight l r" using c by (simp add: weight_def same(1))
  have "weight l' x \<le> weight l x" for x using w by (cases "x = r") (simp_all add: weight_def same(1))
  then show ?thesis unfolding todo_def same(2) using w r by (intro sum_strict_mono_ex1) auto
qed

lemma todo_gone:
  assumes "r \<in> set (children l)" "distinct (children l)" "r \<notin> set (ruleids_to_run (sch l))"
    and "cmdidx (rules (sch l) r) \<le> length (cmd (rules (sch l) r))"
  shows "todo (l\<lparr> children := remove1 r (children l), cmdfailed := b \<rparr>) < todo l"
proof -
  let ?l = "l\<lparr> children := remove1 r (children l), cmdfailed := b \<rparr>"
  let ?A = "set (ruleids_to_run (sch l)) \<union> set (children l)"
  have "todo ?l = sum (weight l) (?A - {r})"
    unfolding todo_def using assms(2,3) by (intro sum.cong) (auto simp: weight_def)
  moreover have "sum (weight l) ?A = weight l r + sum (weight l) (?A - {r})"
    using assms(1) by (intro sum.remove) auto
  moreover have "0 < weight l r" using assms(4) by (simp add: weight_def)
  ultimately show ?thesis by (simp add: todo_def)
qed

section \<open>Every step of the loop does some of it\<close>

lemma work_upd [simp]: "work (upd_rule r (cmdidx_update f) s) = work s" "work (s\<lparr> ruleids_to_run := xs \<rparr>) = work s"
proof -
  have "is_executing (rules (upd_rule r (cmdidx_update f) s) x) = is_executing (rules s x)"
    "is_executed (rules (upd_rule r (cmdidx_update f) s) x) = is_executed (rules s x)" for x
    by (simp_all add: upd_rule_def)
  then show "work (upd_rule r (cmdidx_update f) s) = work s" unfolding work_def by simp
qed (simp add: work_def)

lemma finished_left:
  assumes ops: "ops_ok F ops" and inv: "loop_inv s0 Fd l" and r: "r \<in> set (children l)"
    and m: "mark_executed ops (sched_fuel (sch l)) r True (sch l) = Inr s"
  shows "work s < work (sch l)"
proof -
  let ?R = "set (children l) \<union> Fd"
  have i: "sched_inv ?R (sch l)" and g: "graph_ok (sch l)" using inv by (simp_all add: loop_inv_def)
  have rq: "is_queued (rules (sch l) r)" "\<not> is_executed (rules (sch l) r)"
    using i r by (auto simp: sched_inv_def queue_ok_def)
  have rs: "r < rules_size (sch l)"
    using rule_ok_simps(2)[OF sched_invD(1)[OF i] rq(1)] i by (simp add: sched_inv_def)
  moreover have "4 * work (sch l) - 1 \<le> sched_fuel (sch l)"
    using sched_fuel_enough[of "sch l"] by simp
  moreover have "r \<in> ?R" using r by simp
  ultimately have "outcome F (\<lambda>s'. sched_inv (?R - {r}) s' \<and> frame {r} (sch l) s' \<and>
      is_executed (rules s' r) \<and>
      is_under_consideration (rules s' r) = is_under_consideration (rules (sch l) r))
    (mark_executed ops (sched_fuel (sch l)) r True (sch l))"
    using all_specs[OF ops, of "sched_fuel (sch l)"] g i unfolding mark_executed_spec_def by blast
  then have "frame {r} (sch l) s" "is_executed (rules s r)" by (simp_all add: m)
  then show ?thesis using work_less[OF _ rs] rq(2) by blast
qed

lemma step_left:
  assumes ops: "ops_ok F ops" and inv: "loop_inv s0 Fd l" and step: "run_step ops keep l (Inr l')"
  shows "env_step l l' \<or> (loop_left l', loop_left l) \<in> less_than <*lex*> less_than"
proof -
  have i: "sched_inv (set (children l) \<union> Fd) (sch l)" using inv by (simp add: loop_inv_def)
  then have q: "queue_ok (set (children l) \<union> Fd) (sch l)" by (simp add: sched_inv_def)
  have cm: "cmd_ok l" and dist: "distinct (children l)" using inv by (simp_all add: loop_inv_def)
  from step show ?thesis
  proof (cases rule: run_step.cases)
    case (fork xs r)
    obtain s where s: "spawn_child r (sch l) = Inr s" "l' = l\<lparr> sch := s\<lparr> ruleids_to_run := xs \<rparr>, children := r # children l \<rparr>"
      using fork(1) by (cases "spawn_child r (sch l)") auto
    note sp = spawn_rules[OF s(1)]
    have "todo l' < todo l"
      using sp fork(2) by (intro todo_started[of l r]) (auto simp: s(2) upd_rule_def)
    moreover have "work (sch l') = work (sch l)" by (simp add: s(2) sp(1))
    ultimately show ?thesis by (simp add: loop_left_def)
  next
    case (next_cmd r)
    obtain s where s: "spawn_child r (sch l) = Inr s" "l' = l\<lparr> sch := s \<rparr>"
      using next_cmd(1) by (cases "spawn_child r (sch l)") auto
    note sp = spawn_rules[OF s(1)]
    have "todo l' < todo l"
      using sp next_cmd(2) by (intro todo_started[of l r]) (auto simp: s(2) upd_rule_def)
    moreover have "work (sch l') = work (sch l)" by (simp add: s(2) sp(1))
    ultimately show ?thesis by (simp add: loop_left_def)
  next
    case (finished r)
    obtain s where s: "mark_executed ops (sched_fuel (sch l)) r True (sch l) = Inr s" "sch l' = s"
      using finished(1) by (cases "mark_executed ops (sched_fuel (sch l)) r True (sch l)") auto
    show ?thesis using finished_left[OF ops inv finished(2) s(1)] by (simp add: loop_left_def s(2))
  next
    case (failed r)
    then have l': "l' = l\<lparr> children := remove1 r (children l), cmdfailed := True \<rparr>" by (simp split: if_splits)
    have "todo l' < todo l"
      unfolding l' using failed(2) dist cm q by (intro todo_gone) (auto simp: cmd_ok_def queue_ok_def)
    then show ?thesis by (simp add: loop_left_def l')
  next
    case (env w)
    then show ?thesis by (auto simp: env_step_def)
  qed
qed

lemma reach_steps:
  assumes "reach ops keep s0 (f 0)" "\<And>i. run_step ops keep (f i) (Inr (f (Suc i)))"
  shows "reach ops keep s0 (f i)"
  by (induction i) (use assms reach.step in blast)+

lemma steps_settle:
  assumes ops: "ops_ok F ops" and st: "start_ok s0" and run: "reach ops keep s0 (f 0)"
    "\<And>i. run_step ops keep (f i) (Inr (f (Suc i)))"
  shows "\<exists>n. \<forall>i \<ge> n. env_step (f i) (f (Suc i))"
proof (rule wf_settles[where g = "\<lambda>i. loop_left (f i)"])
  show "wf (less_than <*lex*> less_than)" by (simp add: wf_lex_prod)
next
  fix i
  have "reach ops keep s0 (f i)" using run by (rule reach_steps)
  then obtain Fd where "loop_inv s0 Fd (f i)" using reach_inv[OF ops st] by blast
  then show "env_step (f i) (f (Suc i)) \<or>
      (loop_left (f (Suc i)), loop_left (f i)) \<in> less_than <*lex*> less_than"
    by (rule step_left[OF ops _ run(2)])
qed (rule env_left)

lemma not_ended_step:
  assumes "\<not> loop_ended l"
  shows "\<exists>x. run_step ops keep l x \<and> (\<forall>l'. x = Inr l' \<longrightarrow> \<not> env_step l l')"
proof (cases "children l = []")
  case True
  then obtain xs r where xs: "ruleids_to_run (sch l) = xs @ [r]"
    using assms by (metis loop_ended_def rev_exhaust)
  show ?thesis
    by (rule exI, rule conjI, rule run_step.fork[OF xs])
       (cases "spawn_child r (sch l)"; auto dest!: env_children)
next
  case False
  then obtain r where r: "r \<in> set (children l)" by (cases "children l") auto
  have ne: "remove1 r (children l) \<noteq> children l"
    using length_remove1[of r "children l"] length_pos_if_in_set[OF r] r by (metis diff_less zero_less_one less_irrefl)
  have "\<not> env_step l (l\<lparr> children := remove1 r (children l), cmdfailed := True \<rparr>)"
    using env_children[of l] ne by force
  then show ?thesis
    by (intro exI[of _ "if keep then Inr (l\<lparr> children := remove1 r (children l), cmdfailed := True \<rparr>)
       else Inl (Exited ''recipe for target failed'')"] conjI run_step.failed[OF r]) (simp split: if_splits)
qed

text \<open>
  C4: The loop ends: in an endless run of the loop from some point on only the world changes, because every
  step of the loop itself executes a rule, starts one of the remaining commands, or gives a rule up; and as
  long as a child runs or a rule waits to be started, the loop has such a step.  Commands that add dependencies
  while they are evaluated (\<open>@adddeps\<close>) are left out (see \<open>ops\<close>).
\<close>

theorem run_loop_ends:
  assumes "ops_ok F ops" "start_ok s0" "reach ops keep s0 (f 0)"
    and "\<And>i. run_step ops keep (f i) (Inr (f (Suc i)))"
  shows "(\<exists>n. \<forall>i \<ge> n. env_step (f i) (f (Suc i))) \<and>
    (\<forall>l. loop_ended l \<or> (\<exists>x. run_step ops keep l x \<and> (\<forall>l'. x = Inr l' \<longrightarrow> \<not> env_step l l')))"
  using steps_settle[of F ops s0 keep f, OF assms] not_ended_step by blast

theorem run_loop_ends_witness:
  "\<exists>f. reach ex_ops False ex_two (f 0) \<and> children (f 0) = [] \<and> children (f 1) = [0 :: nat] \<and>
     (\<exists>n. \<forall>i \<ge> n. env_step (f i) (f (Suc i)))"
proof -
  have "case run_one ex_ops 0 ex_two of Inl f \<Rightarrow> False | Inr s \<Rightarrow> True" by code_simp
  then obtain s where "run_one ex_ops 0 ex_two = Inr s" by (auto split: sum.splits)
  from run_one_steps[OF this, of False] obtain l0 l1 l2 where l:
      "reach ex_ops False ex_two l0" "children l0 = []" "run_step ex_ops False l0 (Inr l1)" "children l1 = [0]"
      "run_step ex_ops False l1 (Inr l2)" by blast
  define f where "f i = (if i = 0 then l0 else if i = 1 then l1 else l2)" for i :: nat
  have "run_step ex_ops False l2 (Inr l2)"
    using run_step.env[of ex_ops False l2 "world (sch l2)"] by simp
  then have steps: "run_step ex_ops False (f i) (Inr (f (Suc i)))" for i using l(3,5) by (simp add: f_def)
  have r: "reach ex_ops False ex_two (f 0)" using l(1) by (simp add: f_def)
  have "\<exists>n. \<forall>i \<ge> n. env_step (f i) (f (Suc i))"
    using run_loop_ends[OF ex_ops_ok ex_two_start r steps] by blast
  then show ?thesis using r l(2,4) by (intro exI[of _ f]) (simp add: f_def)
qed

end
