(* ===== verification/Cycle_Detect.thy ===== *)
theory Cycle_Detect
  imports Liveness
begin

text \<open>
  The search for dependency cycles, \<open>better_cycle_detect\<close> of \<open>stirmake.c\<close>: a depth-first search that
  keeps the rules on the current path in \<open>parents\<close> and the finished ones in \<open>no_cycles\<close>, and stops
  the program with \<open>errxit\<close> when it meets a rule of its own path.  The two arrays of flags are sets.
\<close>

section \<open>The search\<close>

record 'w cyc =
  no_cycles :: "nat set"
  parents :: "nat set"
  cyc_sched :: "'w sched"

definition set_traversed :: "nat \<Rightarrow> 'w sched \<Rightarrow> 'w sched" where
  "set_traversed r s = upd_rule r (is_traversed_update (\<lambda>_. True)) s"

fun cycle_deps :: "(nat \<Rightarrow> 'w cyc \<Rightarrow> 'w cyc res) \<Rightarrow> stirdep list \<Rightarrow> 'w cyc \<Rightarrow> 'w cyc res" where
  "cycle_deps rec [] c = Inr c"
| "cycle_deps rec (e # es) c =
     (if is_dupe e then cycle_deps rec es c
      else case stirdep_ruleid (st_ruleid (cyc_sched c)) e of
        Some d \<Rightarrow> bind_res (rec d c) (cycle_deps rec es)
      | None \<Rightarrow> cycle_deps rec es c)"

fun better_cycle_detect_impl :: "nat \<Rightarrow> bool \<Rightarrow> nat \<Rightarrow> 'w cyc \<Rightarrow> 'w cyc res" where
  "better_cycle_detect_impl 0 mark cur c = Inl NoFuel"
| "better_cycle_detect_impl (Suc n) mark cur c =
     (if cur \<in> no_cycles c then Inr c
      else if cur \<in> parents c then Inl (Exited ''cycle found, cannot proceed further'')
      else bind_res (cycle_deps (\<lambda>d c. better_cycle_detect_impl n mark d c)
                       (deplist (rules (cyc_sched c) cur)) (c\<lparr> parents := insert cur (parents c) \<rparr>))
             (\<lambda>c. Inr (c\<lparr> parents := parents c - {cur}, no_cycles := insert cur (no_cycles c),
                         cyc_sched := (if mark then set_traversed cur (cyc_sched c) else cyc_sched c) \<rparr>)))"

text \<open>The depth of the search is at most the number of rules, since each rule of the path is new.\<close>

definition better_cycle_detect :: "nat \<Rightarrow> bool \<Rightarrow> 'w sched \<Rightarrow> (nat set \<times> 'w sched) res" where
  "better_cycle_detect cur mark s =
     bind_res (better_cycle_detect_impl (rules_size s + 2) mark cur
                 \<lparr> no_cycles = {}, parents = {}, cyc_sched = s \<rparr>)
       (\<lambda>c. Inr (no_cycles c, cyc_sched c))"

section \<open>Correctness\<close>

text \<open>What the search changes of the rule base: marks.\<close>

definition marked :: "bool \<Rightarrow> nat set \<Rightarrow> 'w sched \<Rightarrow> 'w sched \<Rightarrow> bool" where
  "marked mark N s s' = (s' = s\<lparr> rules := (\<lambda>x. (rules s x)
     \<lparr> is_traversed := is_traversed (rules s x) \<or> (mark \<and> x \<in> N) \<rparr>) \<rparr>)"

lemma markedD:
  assumes "marked mark N s s'"
  shows "rules_size s' = rules_size s" "st_ruleid s' = st_ruleid s" "deplist (rules s' x) = deplist (rules s x)"
    "is_traversed (rules s' x) = (is_traversed (rules s x) \<or> (mark \<and> x \<in> N))"
  using assms by (simp_all add: marked_def)

lemma marked_edges: "marked mark N s s' \<Longrightarrow> dep_ids s' x = dep_ids s x"
  by (simp add: markedD dep_ids_def)

lemma marked_trans: "marked mark N s s' \<Longrightarrow> marked mark N' s' s'' \<Longrightarrow> marked mark (N \<union> N') s s''"
  unfolding marked_def Un_iff conj_disj_distribL by simp

text \<open>The invariant: the path leads to the current rule, the finished rules are closed under the
  dependency relation, and the two do not meet.\<close>

definition cyc_inv :: "('a) base_scheme \<Rightarrow> nat set \<Rightarrow> nat set \<Rightarrow> bool" where
  "cyc_inv s N P = (N \<inter> P = {} \<and> P \<subseteq> {..< rules_size s} \<and>
     (\<forall>x \<in> N. \<not> on_cycle s x \<and> (\<forall>d \<in> dep_ids s x. d \<in> N)))"

lemma closed_reach:
  assumes "\<forall>x \<in> N. \<forall>d \<in> dep_ids s x. d \<in> N" "(x, y) \<in> (dep_edges s)\<^sup>*" "x \<in> N"
  shows "y \<in> N"
  using assms(2,3) by induction (use assms(1) in \<open>auto simp: dep_edges_def\<close>)

lemma finish_inv:
  assumes inv: "cyc_inv s N (insert cur P)" and cur: "cur \<notin> P" and deps: "\<forall>d \<in> dep_ids s cur. d \<in> N"
  shows "cyc_inv s (insert cur N) P"
proof -
  have cl: "\<forall>x \<in> N. \<forall>d \<in> dep_ids s x. d \<in> N" and nc: "cur \<notin> N" using inv by (auto simp: cyc_inv_def)
  have "\<not> on_cycle s cur"
  proof
    assume "on_cycle s cur"
    then obtain d where "(cur, d) \<in> dep_edges s" "(d, cur) \<in> (dep_edges s)\<^sup>*"
      unfolding on_cycle_def by (auto dest: tranclD)
    then have "cur \<in> N" using closed_reach[OF cl] deps by (auto simp: dep_edges_def)
    then show False using nc by blast
  qed
  then show ?thesis using inv cur deps by (auto simp: cyc_inv_def)
qed

text \<open>What a call returns: the finished rules grow by rules reachable from \<open>cur\<close>, among them \<open>cur\<close>.\<close>

definition cyc_post :: "bool \<Rightarrow> nat set \<Rightarrow> 'w cyc \<Rightarrow> 'w cyc \<Rightarrow> bool" where
  "cyc_post mark X c c' = (parents c' = parents c \<and> no_cycles c \<subseteq> no_cycles c' \<and>
     no_cycles c' \<subseteq> no_cycles c \<union> X \<and>
     cyc_inv (cyc_sched c) (no_cycles c') (parents c) \<and>
     marked mark (no_cycles c' - no_cycles c) (cyc_sched c) (cyc_sched c'))"

definition reach_set :: "('a) base_scheme \<Rightarrow> nat \<Rightarrow> nat set" where
  "reach_set s r = {x. (r, x) \<in> (dep_edges s)\<^sup>*}"

lemma marked_same:
  assumes "marked mark N s s'"
  shows "dep_edges s' = dep_edges s" "rules_size s' = rules_size s" "on_cycle s' = on_cycle s"
    "reaches_cycle s' = reaches_cycle s" "reach_set s' = reach_set s" "cyc_inv s' = cyc_inv s"
proof -
  show e: "dep_edges s' = dep_edges s" using marked_edges[OF assms] by (simp add: dep_edges_def)
  show sz: "rules_size s' = rules_size s" by (rule markedD[OF assms])
  show o: "on_cycle s' = on_cycle s" by (intro ext) (simp add: on_cycle_def e)
  show "reaches_cycle s' = reaches_cycle s" by (intro ext) (simp add: reaches_cycle_def e o)
  show "reach_set s' = reach_set s" by (intro ext) (simp add: reach_set_def e)
  show "cyc_inv s' = cyc_inv s"
    by (intro ext) (simp add: cyc_inv_def o sz marked_edges[OF assms])
qed

lemma marked_refl [simp]: "marked mark {} s s"
  by (simp add: marked_def)

lemma marked_set: "marked mark {r} s (if mark then set_traversed r s else s)"
proof -
  have "set_traversed r s = s\<lparr> rules := (\<lambda>x. (rules s x)\<lparr> is_traversed := is_traversed (rules s x) \<or> x = r \<rparr>) \<rparr>"
    unfolding set_traversed_def upd_rule_def
    by (rule arg_cong[where f = "\<lambda>f. s\<lparr> rules := f \<rparr>"]) (rule ext, simp)
  then show ?thesis by (simp add: marked_def)
qed

lemma cyc_post_refl: "cyc_inv (cyc_sched c) (no_cycles c) (parents c) \<Longrightarrow> cyc_post mark X c c"
  by (simp add: cyc_post_def)

lemma cyc_post_trans:
  assumes "cyc_post mark X c c'" "cyc_post mark Y c' c''"
  shows "cyc_post mark (X \<union> Y) c c''"
proof -
  have m: "marked mark (no_cycles c' - no_cycles c) (cyc_sched c) (cyc_sched c')"
    using assms(1) by (simp add: cyc_post_def)
  have "marked mark ((no_cycles c' - no_cycles c) \<union> (no_cycles c'' - no_cycles c')) (cyc_sched c) (cyc_sched c'')"
    using m assms(2) by (intro marked_trans[OF m]) (simp add: cyc_post_def)
  moreover have "(no_cycles c' - no_cycles c) \<union> (no_cycles c'' - no_cycles c') = no_cycles c'' - no_cycles c"
    using assms by (auto simp: cyc_post_def)
  ultimately show ?thesis
    using assms marked_same(6)[OF m] unfolding cyc_post_def by (auto; blast)
qed

definition deps_in :: "('a) base_scheme \<Rightarrow> bool" where
  "deps_in s = (\<forall>r. \<forall>d \<in> dep_ids s r. d < rules_size s)"

definition cyc_pre :: "nat \<Rightarrow> nat \<Rightarrow> 'w cyc \<Rightarrow> bool" where
  "cyc_pre n cur c = (cur < rules_size (cyc_sched c) \<and> deps_in (cyc_sched c) \<and>
     cyc_inv (cyc_sched c) (no_cycles c) (parents c) \<and>
     (\<forall>p \<in> parents c. (p, cur) \<in> (dep_edges (cyc_sched c))\<^sup>+) \<and>
     card ({..< rules_size (cyc_sched c)} - parents c) < n)"

definition cyc_result :: "bool \<Rightarrow> nat \<Rightarrow> 'w cyc \<Rightarrow> 'w cyc res \<Rightarrow> bool" where
  "cyc_result mark cur c res = (case res of
     Inl f \<Rightarrow> f = Exited ''cycle found, cannot proceed further'' \<and> reaches_cycle (cyc_sched c) cur
   | Inr c' \<Rightarrow> cyc_post mark (reach_set (cyc_sched c) cur) c c' \<and> cur \<in> no_cycles c')"

lemma cyc_post_pre:
  assumes "cyc_pre n cur c" "cyc_post mark X c c'"
  shows "cyc_pre n cur c'"
proof -
  have m: "marked mark (no_cycles c' - no_cycles c) (cyc_sched c) (cyc_sched c')"
    using assms(2) by (simp add: cyc_post_def)
  have "deps_in (cyc_sched c') = deps_in (cyc_sched c)"
    using marked_edges[OF m] marked_same(2)[OF m] by (simp add: deps_in_def)
  then show ?thesis
    using assms marked_same[OF m] by (simp add: cyc_pre_def cyc_post_def)
qed

lemma reach_dep: "d \<in> dep_ids s r \<Longrightarrow> reach_set s d \<subseteq> reach_set s r"
  unfolding reach_set_def dep_edges_def by (auto intro: converse_rtrancl_into_rtrancl)

text \<open>The loop over the dependencies of \<open>cur\<close>, which is on the path already.\<close>

lemma cycle_deps_ok:
  assumes rec: "\<And>d c. cyc_pre n d c \<Longrightarrow> cyc_result mark d c (rec d c)"
  shows "\<forall>d \<in> dep_ids (cyc_sched c) cur. cyc_pre n d c \<Longrightarrow>
    cyc_inv (cyc_sched c) (no_cycles c) (parents c) \<Longrightarrow>
    \<forall>e \<in> set es. e \<in> set (deplist (rules (cyc_sched c) cur)) \<Longrightarrow>
    (case cycle_deps rec es c of
       Inl f \<Rightarrow> f = Exited ''cycle found, cannot proceed further'' \<and> reaches_cycle (cyc_sched c) cur
     | Inr c' \<Rightarrow> cyc_post mark (reach_set (cyc_sched c) cur) c c' \<and>
         (\<forall>e \<in> set es. \<not> is_dupe e \<longrightarrow>
            (\<forall>d. stirdep_ruleid (st_ruleid (cyc_sched c)) e = Some d \<longrightarrow> d \<in> no_cycles c')))"
proof (induction es arbitrary: c)
  case Nil
  then show ?case by (simp add: cyc_post_refl)
next
  case (Cons e es)
  show ?case
  proof (cases "is_dupe e \<or> stirdep_ruleid (st_ruleid (cyc_sched c)) e = None")
    case True
    have eq: "cycle_deps rec (e # es) c = cycle_deps rec es c" using True by auto
    have es: "\<forall>e \<in> set es. e \<in> set (deplist (rules (cyc_sched c) cur))" using Cons.prems(3) by simp
    show ?thesis
      using Cons.IH[OF Cons.prems(1,2) es] True unfolding eq by (cases "cycle_deps rec es c") auto
  next
    case False
    then obtain d where d: "\<not> is_dupe e" "stirdep_ruleid (st_ruleid (cyc_sched c)) e = Some d" by blast
    have di: "d \<in> dep_ids (cyc_sched c) cur"
      using Cons.prems(3) d by (intro loop_dep_id[of e]) simp_all
    have res: "cyc_result mark d c (rec d c)" using rec Cons.prems(1) di by blast
    show ?thesis
    proof (cases "rec d c")
      case (Inl f)
      then show ?thesis using res d reaches_dep[OF di] by (simp add: cyc_result_def)
    next
      case (Inr c1)
      have p1: "cyc_post mark (reach_set (cyc_sched c) d) c c1" and d1: "d \<in> no_cycles c1"
        using res Inr by (simp_all add: cyc_result_def)
      have m1: "marked mark (no_cycles c1 - no_cycles c) (cyc_sched c) (cyc_sched c1)"
        using p1 by (simp add: cyc_post_def)
      have tab: "st_ruleid (cyc_sched c1) = st_ruleid (cyc_sched c)"
        "deplist (rules (cyc_sched c1) cur) = deplist (rules (cyc_sched c) cur)"
        using m1 by (simp_all add: markedD)
      have IH: "case cycle_deps rec es c1 of
         Inl f \<Rightarrow> f = Exited ''cycle found, cannot proceed further'' \<and> reaches_cycle (cyc_sched c1) cur
       | Inr c' \<Rightarrow> cyc_post mark (reach_set (cyc_sched c1) cur) c1 c' \<and>
         (\<forall>e \<in> set es. \<not> is_dupe e \<longrightarrow>
            (\<forall>d. stirdep_ruleid (st_ruleid (cyc_sched c1)) e = Some d \<longrightarrow> d \<in> no_cycles c'))"
      proof (rule Cons.IH)
        show "\<forall>d \<in> dep_ids (cyc_sched c1) cur. cyc_pre n d c1"
          using Cons.prems(1) cyc_post_pre[OF _ p1] marked_edges[OF m1] by simp
        show "cyc_inv (cyc_sched c1) (no_cycles c1) (parents c1)"
          using p1 marked_same(6)[OF m1] by (simp add: cyc_post_def)
        show "\<forall>e \<in> set es. e \<in> set (deplist (rules (cyc_sched c1) cur))" using Cons.prems(3) tab by simp
      qed
      have sub: "reach_set (cyc_sched c) d \<union> reach_set (cyc_sched c) cur = reach_set (cyc_sched c) cur"
        using reach_dep[OF di] by blast
      have "cyc_post mark (reach_set (cyc_sched c) cur) c c'"
        if "cyc_post mark (reach_set (cyc_sched c1) cur) c1 c'" for c'
        using cyc_post_trans[OF p1 that] sub marked_same(5)[OF m1] by simp
      then show ?thesis
        using IH d d1 Inr tab marked_same(4)[OF m1]
        by (auto simp: cyc_post_def split: sum.splits)
    qed
  qed
qed

lemma better_cycle_detect_impl_ok:
  "cyc_pre n cur c \<Longrightarrow> cyc_result mark cur c (better_cycle_detect_impl n mark cur c)"
proof (induction n arbitrary: cur c)
  case 0
  then show ?case by (simp add: cyc_pre_def)
next
  case (Suc n)
  let ?s = "cyc_sched c"
  have pre: "cur < rules_size ?s" "deps_in ?s" "cyc_inv ?s (no_cycles c) (parents c)"
    "\<forall>p \<in> parents c. (p, cur) \<in> (dep_edges ?s)\<^sup>+"
    "card ({..< rules_size ?s} - parents c) < Suc n"
    using Suc.prems by (simp_all add: cyc_pre_def)
  consider "cur \<in> no_cycles c" | "cur \<notin> no_cycles c" "cur \<in> parents c"
    | "cur \<notin> no_cycles c" "cur \<notin> parents c" by blast
  then show ?case
  proof cases
    case 1
    then show ?thesis using cyc_post_refl[OF pre(3)] by (simp add: cyc_result_def)
  next
    case 2
    then have "on_cycle ?s cur" using pre(4) by (simp add: on_cycle_def)
    then have "reaches_cycle ?s cur" by (auto simp: reaches_cycle_def)
    then show ?thesis using 2 by (simp add: cyc_result_def)
  next
    case 3
    let ?c1 = "c\<lparr> parents := insert cur (parents c) \<rparr>"
    have inv1: "cyc_inv (cyc_sched ?c1) (no_cycles ?c1) (parents ?c1)"
      using pre(1,3) 3 by (simp add: cyc_inv_def)
    have less: "card ({..< rules_size ?s} - insert cur (parents c)) < n"
    proof -
      have "{..< rules_size ?s} - insert cur (parents c) \<subset> {..< rules_size ?s} - parents c"
        using pre(1) 3 by auto
      then have "card ({..< rules_size ?s} - insert cur (parents c)) < card ({..< rules_size ?s} - parents c)"
        by (intro psubset_card_mono) simp_all
      then show ?thesis using pre(5) by simp
    qed
    have rec: "\<forall>d \<in> dep_ids (cyc_sched ?c1) cur. cyc_pre n d ?c1"
    proof
      fix d
      assume "d \<in> dep_ids (cyc_sched ?c1) cur"
      then have e: "(cur, d) \<in> dep_edges ?s" and d: "d < rules_size ?s"
        using pre(2) by (auto simp: dep_edges_def deps_in_def)
      have "(p, d) \<in> (dep_edges ?s)\<^sup>+" if "p \<in> insert cur (parents c)" for p
        using that pre(4) e by (auto intro: trancl_into_trancl)
      then show "cyc_pre n d ?c1" using d pre(2) inv1 less by (simp add: cyc_pre_def)
    qed
    have L: "case cycle_deps (\<lambda>d c. better_cycle_detect_impl n mark d c) (deplist (rules ?s cur)) ?c1 of
         Inl f \<Rightarrow> f = Exited ''cycle found, cannot proceed further'' \<and> reaches_cycle (cyc_sched ?c1) cur
       | Inr c' \<Rightarrow> cyc_post mark (reach_set (cyc_sched ?c1) cur) ?c1 c' \<and>
           (\<forall>e \<in> set (deplist (rules ?s cur)). \<not> is_dupe e \<longrightarrow>
            (\<forall>d. stirdep_ruleid (st_ruleid (cyc_sched ?c1)) e = Some d \<longrightarrow> d \<in> no_cycles c'))"
      by (rule cycle_deps_ok[OF Suc.IH rec inv1]) simp_all
    show ?thesis
    proof (cases "cycle_deps (\<lambda>d c. better_cycle_detect_impl n mark d c) (deplist (rules ?s cur)) ?c1")
      case (Inl f)
      then show ?thesis using L 3 by (simp add: cyc_result_def)
    next
      case (Inr c2)
      let ?c3 = "c2\<lparr> parents := parents c2 - {cur}, no_cycles := insert cur (no_cycles c2),
           cyc_sched := (if mark then set_traversed cur (cyc_sched c2) else cyc_sched c2) \<rparr>"
      have p2: "cyc_post mark (reach_set ?s cur) ?c1 c2" using L Inr by simp
      have deps: "\<forall>d \<in> dep_ids ?s cur. d \<in> no_cycles c2" using L Inr by (auto simp: dep_ids_def)
      have inv2: "cyc_inv ?s (no_cycles c2) (insert cur (parents c))" using p2 by (simp add: cyc_post_def)
      have inv3: "cyc_inv ?s (insert cur (no_cycles c2)) (parents c)"
        by (rule finish_inv[OF inv2 3(2) deps])
      have m2: "marked mark (no_cycles c2 - no_cycles c) ?s (cyc_sched c2)" using p2 by (simp add: cyc_post_def)
      have "marked mark {cur} (cyc_sched c2) (cyc_sched ?c3)"
        using marked_set[of mark cur "cyc_sched c2"] by simp
      from marked_trans[OF m2 this]
      have m3: "marked mark ((no_cycles c2 - no_cycles c) \<union> {cur}) ?s (cyc_sched ?c3)" .
      have eq: "(no_cycles c2 - no_cycles c) \<union> {cur} = insert cur (no_cycles c2) - no_cycles c" using 3(1) by blast
      have "cyc_post mark (reach_set ?s cur) c ?c3"
        using p2 inv3 m3 3 unfolding eq by (auto simp: cyc_post_def reach_set_def)
      then show ?thesis using 3 Inr by (simp add: cyc_result_def)
    qed
  qed
qed

lemma cycle_detect_ok:
  assumes "graph_ok s" "\<forall>r \<ge> rules_size s. deplist (rules s r) = []" "cur < rules_size s"
  shows "(case better_cycle_detect cur mark s of
      Inl f \<Rightarrow> f = Exited ''cycle found, cannot proceed further'' \<and> reaches_cycle s cur
    | Inr (N, s') \<Rightarrow> \<not> reaches_cycle s cur \<and> N = {x. (cur, x) \<in> (dep_edges s)\<^sup>*} \<and> marked mark N s s')"
proof -
  let ?c = "\<lparr> no_cycles = {}, parents = {}, cyc_sched = s \<rparr>"
  have "deps_in s"
    unfolding deps_in_def
  proof (intro allI ballI)
    fix r d
    assume d: "d \<in> dep_ids s r"
    then have "deplist (rules s r) \<noteq> []" by (auto simp: dep_ids_def)
    then have "r < rules_size s" using assms(2) by (meson not_le)
    then show "d < rules_size s" using assms(1) d unfolding graph_ok_def by blast
  qed
  then have "cyc_pre (rules_size s + 2) cur ?c" using assms(3) by (simp add: cyc_pre_def cyc_inv_def)
  from better_cycle_detect_impl_ok[OF this, of mark]
  have res: "cyc_result mark cur ?c (better_cycle_detect_impl (rules_size s + 2) mark cur ?c)" .
  show ?thesis
  proof (cases "better_cycle_detect_impl (rules_size s + 2) mark cur ?c")
    case (Inl f)
    then show ?thesis using res by (simp add: better_cycle_detect_def cyc_result_def)
  next
    case (Inr c')
    then have p: "cyc_post mark (reach_set s cur) ?c c'" "cur \<in> no_cycles c'"
      using res by (simp_all add: cyc_result_def)
    then have inv: "\<forall>x \<in> no_cycles c'. \<not> on_cycle s x \<and> (\<forall>d \<in> dep_ids s x. d \<in> no_cycles c')"
      by (simp add: cyc_post_def cyc_inv_def)
    have "reach_set s cur \<subseteq> no_cycles c'"
      using closed_reach[of "no_cycles c'" s cur] inv p(2) by (auto simp: reach_set_def)
    then have N: "no_cycles c' = reach_set s cur" using p(1) by (auto simp: cyc_post_def)
    then have "\<not> reaches_cycle s cur" using inv by (auto simp: reaches_cycle_def reach_set_def)
    then show ?thesis using Inr N p(1) by (simp add: better_cycle_detect_def cyc_post_def reach_set_def)
  qed
qed

text \<open>
  C9: \<open>better_cycle_detect\<close> always returns or stops with its message; it stops exactly when a
  dependency cycle can be reached from the rule it starts at; and when it returns, the finished rules
  are exactly those reachable from the start, which are the ones it has marked as traversed.
\<close>

theorem better_cycle_detect_correct:
  assumes "graph_ok s" "\<forall>r \<ge> rules_size s. deplist (rules s r) = []" "cur < rules_size s"
  shows "(case better_cycle_detect cur mark s of
      Inl f \<Rightarrow> f = Exited ''cycle found, cannot proceed further'' \<and> reaches_cycle s cur
    | Inr (N, s') \<Rightarrow> \<not> reaches_cycle s cur \<and> N = {x. (cur, x) \<in> (dep_edges s)\<^sup>*} \<and> marked mark N s s')"
  using assms by (rule cycle_detect_ok)

theorem better_cycle_detect_correct_witness:
  "case better_cycle_detect 0 True ex_two of
      Inl f \<Rightarrow> False
    | Inr (N, s') \<Rightarrow> N = {x. (0, x) \<in> (dep_edges ex_two)\<^sup>*} \<and> is_traversed (rules s' 1)"
proof -
  have g: "graph_ok ex_two" "\<forall>r \<ge> rules_size ex_two. deplist (rules ex_two r) = []"
    using start_okD(2,4)[OF ex_two_start] by auto
  have "0 < rules_size ex_two" by (simp add: ex_two_def prepare_rules_def ex_sched_def)
  note c = better_cycle_detect_correct[OF g this, of True]
  have "case better_cycle_detect 0 True ex_two of Inl f \<Rightarrow> False | Inr (N, s') \<Rightarrow> is_traversed (rules s' 1)"
    by code_simp
  then show ?thesis using c by (auto split: sum.splits)
qed

end
