(* ===== verification/Hash_Table.thy ===== *)
theory Hash_Table
  imports Stir_Prelude
begin

text \<open>
  The hash tables of stirmake: an array of \<open>struct abce_rb_tree_nocmp\<close> heads indexed by
  \<open>hash & (size-1)\<close>, with one RB tree of the abce library per bucket.  The string table, both file
  caches, both databases and the table of processes are built this way.

  The RB tree is not part of this repository.  It is represented by the finite map it stores, and
  the locale \<open>keyed_store\<close> states the contract the code relies on: \<open>FIND\<close> returns the node with the
  given key, \<open>insert_nonexist\<close> fails when the key is present, and \<open>delete\<close> removes it.  The hash
  function is a parameter of every definition; nothing is assumed about it, and the size need not
  be a power of two.
\<close>

unbundle bit_operations_syntax

section \<open>The contract\<close>

locale keyed_store =
  fixes find :: "'t \<Rightarrow> 'k \<Rightarrow> 'v option"
    and ins :: "'k \<Rightarrow> 'v \<Rightarrow> 't \<Rightarrow> 't option"
    and del :: "'k \<Rightarrow> 't \<Rightarrow> 't"
  assumes ins_None: "ins k v t = None \<longleftrightarrow> find t k \<noteq> None"
    and ins_Some: "ins k v t = Some t' \<Longrightarrow> find t' = (find t)(k \<mapsto> v)"
    and find_del: "find (del k t) = (find t)(k := None)"
begin

text \<open>Delete followed by insert always succeeds and replaces the entry.\<close>

lemma ins_del_ex: "\<exists>t'. ins k v (del k t) = Some t'"
  using ins_None[of k v "del k t"] by (cases "ins k v (del k t)") (auto simp: find_del)

lemma ins_del:
  assumes "ins k v (del k t) = Some t'"
  shows "find t' = (find t)(k \<mapsto> v)"
  using ins_Some[OF assms] by (simp add: find_del)

lemma ins_fresh: "find t k = None \<Longrightarrow> \<exists>t'. ins k v t = Some t'"
  using ins_None[of k v t] by (cases "ins k v t") auto

lemma find_ins: "ins k v t = Some t' \<Longrightarrow> find t' k' = (if k' = k then Some v else find t k')"
  by (simp add: ins_Some)

lemma find_del_same: "find (del k t) k = None"
  by (simp add: find_del)

lemma find_del_other: "k' \<noteq> k \<Longrightarrow> find (del k t) k' = find t k'"
  by (simp add: find_del)

text \<open>The replacing insert of the databases: insert, and on a collision delete and insert again.\<close>

lemma ins_replace:
  "\<exists>t'. (case ins k v t of Some t' \<Rightarrow> Some t' | None \<Rightarrow> ins k v (del k t)) = Some t'
        \<and> find t' = (find t)(k \<mapsto> v)"
proof (cases "ins k v t")
  case None
  then show ?thesis using ins_del_ex[of k v t] ins_del by auto
next
  case (Some t')
  then show ?thesis using ins_Some by auto
qed

end

section \<open>Bucketed tables\<close>

record ('k, 'v) htab =
  hsize :: nat
  buckets :: "nat \<Rightarrow> 'k \<Rightarrow> 'v option"

definition ht_init :: "nat \<Rightarrow> ('k, 'v) htab" where
  "ht_init n = \<lparr> hsize = n, buckets = (\<lambda>_ _. None) \<rparr>"

definition ht_head :: "('k \<Rightarrow> nat) \<Rightarrow> ('k, 'v) htab \<Rightarrow> 'k \<Rightarrow> nat" where
  "ht_head hash t k = hash k AND (hsize t - 1)"

definition ht_find :: "('k \<Rightarrow> nat) \<Rightarrow> ('k, 'v) htab \<Rightarrow> 'k \<Rightarrow> 'v option" where
  "ht_find hash t k = buckets t (ht_head hash t k) k"

definition ht_ins :: "('k \<Rightarrow> nat) \<Rightarrow> 'k \<Rightarrow> 'v \<Rightarrow> ('k, 'v) htab \<Rightarrow> ('k, 'v) htab option" where
  "ht_ins hash k v t =
     (if ht_find hash t k \<noteq> None then None
      else let i = ht_head hash t k in
        Some (t\<lparr> buckets := (buckets t)(i := (buckets t i)(k \<mapsto> v)) \<rparr>))"

definition ht_del :: "('k \<Rightarrow> nat) \<Rightarrow> 'k \<Rightarrow> ('k, 'v) htab \<Rightarrow> ('k, 'v) htab" where
  "ht_del hash k t =
     (let i = ht_head hash t k in t\<lparr> buckets := (buckets t)(i := (buckets t i)(k := None)) \<rparr>)"

text \<open>The bucket index is inside the array.\<close>

lemma nat_and_le: "(a :: nat) AND b \<le> b"
proof -
  have "int (a AND b) \<le> int b" by (simp add: of_nat_and_eq AND_upper2)
  then show ?thesis by simp
qed

lemma ht_head_bound: "0 < hsize t \<Longrightarrow> ht_head hash t k < hsize t"
  using nat_and_le[of "hash k" "hsize t - 1"] unfolding ht_head_def by linarith

lemma ht_find_init [simp]: "ht_find hash (ht_init n) k = None"
  by (simp add: ht_find_def ht_init_def)

lemma hsize_ins: "ht_ins hash k v t = Some t' \<Longrightarrow> hsize t' = hsize t"
  by (auto simp: ht_ins_def Let_def split: if_splits)

lemma hsize_del [simp]: "hsize (ht_del hash k t) = hsize t"
  by (simp add: ht_del_def Let_def)

interpretation ht: keyed_store "ht_find hash" "ht_ins hash" "ht_del hash" for hash
proof unfold_locales
  fix k :: 'a and v :: 'b and t t' :: "('a, 'b) htab"
  show "ht_ins hash k v t = None \<longleftrightarrow> ht_find hash t k \<noteq> None"
    by (simp add: ht_ins_def Let_def)
  assume "ht_ins hash k v t = Some t'"
  then show "ht_find hash t' = (ht_find hash t)(k \<mapsto> v)"
    by (auto simp: ht_ins_def ht_find_def ht_head_def Let_def split: if_splits)
next
  fix k :: 'a and t :: "('a, 'b) htab"
  show "ht_find hash (ht_del hash k t) = (ht_find hash t)(k := None)"
    by (auto simp: ht_del_def ht_find_def ht_head_def Let_def)
qed

lemmas ht_simps = ht.find_del ht.ins_None
lemmas [simp] = ht.find_del

lemma ht_ins_new:
  assumes "ht_find hash t k = None"
  obtains t' where "ht_ins hash k v t = Some t'" "ht_find hash t' = (ht_find hash t)(k \<mapsto> v)"
    "hsize t' = hsize t"
  using ht.ins_fresh[OF assms] ht.ins_Some hsize_ins by metis

end
