(* ===== verification/File_Cache.thy ===== *)
theory File_Cache
  imports Rules Hash_Table
begin

text \<open>
  The caches of file status and file accessibility, \<open>statcache.c\<close> and \<open>accesscache.c\<close>: a pool of
  entries that grows by doubling up to a maximum, a hash table from the string-table index of the
  file name to its entry, and a list of the entries in use in the order of their last use.  The
  two files are the same code over different payloads, so the operations are defined once over
  the payload \<open>'v\<close>; \<open>lstat_cached\<close> and \<open>access_cached\<close> are their two instances.

  An entry is a slot number; \<open>slots\<close> is the memory of the pool and \<open>fresh\<close> the number of slots
  mapped so far.  The file system is the argument \<open>orc\<close>: the payload \<open>lstat\<close> or \<open>access\<close> yields for
  a name at the moment of the call.
\<close>

record 'v cache =
  slots :: "nat \<Rightarrow> nat \<times> 'v"
  tab :: "(nat, nat) htab"
  lrulist :: "nat list"
  freelist :: "nat list"
  entcnt :: nat
  cache_size :: nat
  fresh :: nat

section \<open>Operations\<close>

definition STATHASH_SIZE_INIT :: nat where "STATHASH_SIZE_INIT = 256"

definition cache_init :: "'v cache \<Rightarrow> 'v cache" where
  "cache_init c =
     (let n = (if entcnt c = 0 then min STATHASH_SIZE_INIT (cache_size c) else entcnt c) in
      c\<lparr> tab := ht_init (hsize (tab c)), entcnt := n,
         freelist := freelist c @ [fresh c ..< fresh c + n], fresh := fresh c + n \<rparr>)"

definition cache_grow :: "'v cache \<Rightarrow> 'v cache" where
  "cache_grow c =
     (let old = entcnt c; n = min (2 * old) (cache_size c) in
      if n = old then c
      else c\<lparr> entcnt := n, freelist := freelist c @ [fresh c ..< fresh c + (n - old)],
              fresh := fresh c + (n - old) \<rparr>)"

text \<open>The least recently used entry is evicted; with an empty list the code would take the list
  head for an entry.\<close>

definition cache_evict :: "(nat \<Rightarrow> nat) \<Rightarrow> 'v cache \<Rightarrow> 'v cache res" where
  "cache_evict hash c =
     (if lrulist c = [] then Inl Overread
      else let s = last (lrulist c) in
        Inr (c\<lparr> lrulist := butlast (lrulist c), tab := ht_del hash (fst (slots c s)) (tab c),
                freelist := s # freelist c \<rparr>))"

definition cache_ensure_evict :: "(nat \<Rightarrow> nat) \<Rightarrow> 'v cache \<Rightarrow> 'v cache res" where
  "cache_ensure_evict hash c =
     (if freelist c \<noteq> [] then Inr c
      else let c = cache_grow c in
        if freelist c \<noteq> [] then Inr c
        else bind_res (cache_evict hash c) (\<lambda>c.
          if freelist c = [] then Inl Aborted else Inr c))"

definition cache_evict_all :: "'v cache \<Rightarrow> 'v cache" where
  "cache_evict_all c = cache_init (c\<lparr> lrulist := [], freelist := [], tab := ht_init (hsize (tab c)) \<rparr>)"

definition cache_evict_named :: "(nat \<Rightarrow> nat) \<Rightarrow> nat \<Rightarrow> 'v cache \<Rightarrow> 'v cache" where
  "cache_evict_named hash k c =
     (case ht_find hash (tab c) k of
        None \<Rightarrow> c
      | Some s \<Rightarrow> c\<lparr> lrulist := remove1 s (lrulist c), tab := ht_del hash (fst (slots c s)) (tab c),
                     freelist := s # freelist c \<rparr>)"

definition cache_get :: "(nat \<Rightarrow> nat) \<Rightarrow> (nat \<Rightarrow> 'v) \<Rightarrow> nat \<Rightarrow> 'v cache \<Rightarrow> ('v \<times> 'v cache) res" where
  "cache_get hash orc k c =
     (case ht_find hash (tab c) k of
        Some s \<Rightarrow>
          let l = (if hd (lrulist c) \<noteq> s then s # remove1 s (lrulist c) else lrulist c) in
          if hd l \<noteq> s then Inl Aborted
          else Inr (snd (slots c s), c\<lparr> lrulist := l \<rparr>)
      | None \<Rightarrow>
          bind_res (cache_ensure_evict hash c) (\<lambda>c.
            let s = hd (freelist c) in
            case ht_ins hash k s (tab c) of
              None \<Rightarrow> Inl Aborted
            | Some t \<Rightarrow> Inr (orc k, c\<lparr> freelist := tl (freelist c),
                slots := (slots c)(s := (k, orc k)), lrulist := s # lrulist c, tab := t \<rparr>)))"

section \<open>The two caches\<close>

record filestat =
  st_dir :: bool
  st_lnk :: bool
  st_mtime :: timespec
  st_size :: int

text \<open>An entry with \<open>ret = 0\<close> holds what \<open>lstat\<close> returned; else everything in it is zero.\<close>

type_synonym statcache = "filestat option cache"

definition lstat_cached :: "(nat \<Rightarrow> nat) \<Rightarrow> (nat \<Rightarrow> filestat option) \<Rightarrow> nat \<Rightarrow> statcache
    \<Rightarrow> (filestat option \<times> statcache) res" where
  "lstat_cached hash lstat k c = cache_get hash lstat k c"

definition lstat_evict_named :: "(nat \<Rightarrow> nat) \<Rightarrow> nat \<Rightarrow> statcache \<Rightarrow> statcache" where
  "lstat_evict_named hash k c = cache_evict_named hash k c"

definition access_cached :: "(nat \<Rightarrow> nat) \<Rightarrow> (nat \<Rightarrow> bool) \<Rightarrow> nat \<Rightarrow> bool cache
    \<Rightarrow> (bool \<times> bool cache) res" where
  "access_cached hash access k c = cache_get hash access k c"

definition accesshash_evict_named :: "(nat \<Rightarrow> nat) \<Rightarrow> nat \<Rightarrow> bool cache \<Rightarrow> bool cache" where
  "accesshash_evict_named hash k c = cache_evict_named hash k c"

section \<open>Invariant\<close>

definition cache_ok :: "(nat \<Rightarrow> nat) \<Rightarrow> 'v cache \<Rightarrow> bool" where
  "cache_ok hash c \<longleftrightarrow>
     distinct (lrulist c @ freelist c) \<and> set (lrulist c @ freelist c) \<subseteq> {..< fresh c}
     \<and> length (lrulist c) + length (freelist c) = entcnt c
     \<and> 0 < entcnt c \<and> entcnt c \<le> cache_size c
     \<and> (\<forall>k s. ht_find hash (tab c) k = Some s \<longleftrightarrow> s \<in> set (lrulist c) \<and> fst (slots c s) = k)"

text \<open>What is cached, most recently used first.\<close>

definition cached :: "'v cache \<Rightarrow> (nat \<times> 'v) list" where
  "cached c = map (slots c) (lrulist c)"

text \<open>The specification: a bounded list ordered by last use.\<close>

definition lru_get :: "nat \<Rightarrow> nat \<Rightarrow> 'v \<Rightarrow> (nat \<times> 'v) list \<Rightarrow> 'v \<times> (nat \<times> 'v) list" where
  "lru_get cap k v l =
     (case map_of l k of
        Some x \<Rightarrow> (x, (k, x) # filter (\<lambda>p. fst p \<noteq> k) l)
      | None \<Rightarrow> (v, (k, v) # (if length l < cap then l else butlast l)))"


lemma cache_okD:
  assumes "cache_ok hash c"
  shows "distinct (lrulist c)" "distinct (freelist c)" "set (lrulist c) \<inter> set (freelist c) = {}"
    "\<And>s. s \<in> set (lrulist c) \<Longrightarrow> s < fresh c" "\<And>s. s \<in> set (freelist c) \<Longrightarrow> s < fresh c"
    "length (lrulist c) + length (freelist c) = entcnt c" "0 < entcnt c" "entcnt c \<le> cache_size c"
    "\<And>k s. ht_find hash (tab c) k = Some s \<longleftrightarrow> s \<in> set (lrulist c) \<and> fst (slots c s) = k"
  using assms unfolding cache_ok_def by auto

lemma cache_ok_names:
  assumes "cache_ok hash c" "s \<in> set (lrulist c)" "s' \<in> set (lrulist c)"
    "fst (slots c s) = fst (slots c s')"
  shows "s = s'"
proof -
  have "ht_find hash (tab c) (fst (slots c s)) = Some s" using assms(1,2) by (simp add: cache_okD)
  moreover have "ht_find hash (tab c) (fst (slots c s)) = Some s'" using assms by (simp add: cache_okD)
  ultimately show ?thesis by simp
qed

lemma cached_simps [simp]:
  "cached (c\<lparr> freelist := f \<rparr>) = cached c" "cached (c\<lparr> tab := t \<rparr>) = cached c"
  "cached (c\<lparr> entcnt := n \<rparr>) = cached c" "cached (c\<lparr> fresh := n \<rparr>) = cached c"
  by (simp_all add: cached_def)

lemma length_cached [simp]: "length (cached c) = length (lrulist c)"
  by (simp add: cached_def)

lemma distinct_cached:
  assumes "cache_ok hash c"
  shows "distinct (map fst (cached c))"
  unfolding cached_def map_map distinct_map
  using cache_okD(1)[OF assms] cache_ok_names[OF assms] by (auto simp: inj_on_def)

lemma map_of_cached:
  assumes "cache_ok hash c"
  shows "map_of (cached c) k = map_option (\<lambda>s. snd (slots c s)) (ht_find hash (tab c) k)"
proof (cases "ht_find hash (tab c) k")
  case None
  then have "k \<notin> fst ` set (cached c)"
    using cache_okD(9)[OF assms, of k] by (auto simp: cached_def simp del: not_None_eq) metis
  then show ?thesis using None by (simp add: map_of_eq_None_iff)
next
  case (Some s)
  then have "(k, snd (slots c s)) \<in> set (cached c)"
    using cache_okD(9)[OF assms, of k s] by (auto simp: cached_def intro!: image_eqI[of _ _ s])
  then show ?thesis using Some distinct_cached[OF assms] by simp
qed

lemma cache_init_ok:
  assumes "lrulist c = []" "freelist c = []" "0 < cache_size c" "entcnt c \<le> cache_size c"
  shows "cache_ok hash (cache_init c)" "cached (cache_init c) = []"
  using assms by (auto simp: cache_ok_def cache_init_def cached_def Let_def STATHASH_SIZE_INIT_def)

lemma cache_evict_all_ok:
  assumes "cache_ok hash c"
  shows "cache_ok hash (cache_evict_all c)" "cached (cache_evict_all c) = []"
  unfolding cache_evict_all_def using cache_okD(7,8)[OF assms] by (auto intro!: cache_init_ok)

lemma cache_grow_ok:
  assumes "cache_ok hash c"
  shows "cache_ok hash (cache_grow c)" "cached (cache_grow c) = cached c"
    "tab (cache_grow c) = tab c" "cache_size (cache_grow c) = cache_size c"
    "lrulist (cache_grow c) = lrulist c"
    "freelist (cache_grow c) = [] \<longleftrightarrow> freelist c = [] \<and> entcnt c = cache_size c"
  using cache_okD[OF assms]
  by (auto simp: cache_grow_def cache_ok_def Let_def; fastforce)+

lemma cache_remove_ok:
  assumes ok: "cache_ok hash c" and s: "s \<in> set (lrulist c)"
    and c': "c' = c\<lparr> lrulist := remove1 s (lrulist c), tab := ht_del hash (fst (slots c s)) (tab c),
                    freelist := s # freelist c \<rparr>"
  shows "cache_ok hash c'" "cached c' = filter (\<lambda>p. fst p \<noteq> fst (slots c s)) (cached c)"
proof -
  note d = cache_okD[OF ok]
  have len: "length (remove1 s (lrulist c)) + Suc (length (freelist c)) = entcnt c"
    using s d(6) length_pos_if_in_set[OF s] by (simp add: length_remove1 del: length_greater_0_conv)
  show "cache_ok hash c'"
    unfolding cache_ok_def c' using d s len cache_ok_names[OF ok _ s]
    by (auto simp: set_remove1_eq)
  have "filter (\<lambda>x. fst (slots c x) \<noteq> fst (slots c s)) (lrulist c) = filter (\<lambda>x. x \<noteq> s) (lrulist c)"
    using cache_ok_names[OF ok _ s] by (auto intro!: filter_cong)
  then show "cached c' = filter (\<lambda>p. fst p \<noteq> fst (slots c s)) (cached c)"
    using d(1) by (simp add: c' cached_def filter_map o_def distinct_remove1_removeAll removeAll_filter_not_eq
        eq_commute)
qed

lemma cache_evict_ok:
  assumes ok: "cache_ok hash c" and ne: "lrulist c \<noteq> []"
  shows "\<exists>c'. cache_evict hash c = Inr c' \<and> cache_ok hash c' \<and> freelist c' \<noteq> []
    \<and> cached c' = butlast (cached c) \<and> cache_size c' = cache_size c"
proof -
  let ?s = "last (lrulist c)"
  have s: "?s \<in> set (lrulist c)" using ne by simp
  have r: "remove1 ?s (lrulist c) = butlast (lrulist c)"
    using cache_okD(1)[OF ok] ne by (metis append_butlast_last_id distinct_butlast
        remove1_append remove1.simps(2) append_Nil2 not_distinct_conv_prefix)
  show ?thesis using cache_remove_ok[OF ok s refl] ne
    by (simp add: cache_evict_def Let_def r cached_def map_butlast)
qed

lemma cache_ensure_evict_ok:
  assumes ok: "cache_ok hash c"
  shows "\<exists>c'. cache_ensure_evict hash c = Inr c' \<and> cache_ok hash c' \<and> freelist c' \<noteq> []
    \<and> cached c' = (if length (cached c) < cache_size c then cached c else butlast (cached c))
    \<and> cache_size c' = cache_size c"
proof (cases "freelist c = []")
  case False
  then have "length (lrulist c) < cache_size c"
    using cache_okD(6,8)[OF ok] by (cases "freelist c") auto
  then show ?thesis using False ok by (simp add: cache_ensure_evict_def)
next
  case True
  note g = cache_grow_ok[OF ok] and l = cache_okD(6,7,8)[OF ok]
  show ?thesis
  proof (cases "entcnt c = cache_size c")
    case False
    then show ?thesis using True g l by (simp add: cache_ensure_evict_def Let_def)
  next
    case full: True
    then have "lrulist (cache_grow c) \<noteq> []" using g(5) l True by auto
    then show ?thesis using cache_evict_ok[OF g(1)] True full g l
      by (auto simp: cache_ensure_evict_def Let_def)
  qed
qed

section \<open>The caches implement a bounded list ordered by last use\<close>

lemma cache_hit_ok:
  assumes ok: "cache_ok hash c" and f: "ht_find hash (tab c) k = Some s"
  shows "\<exists>c'. cache_get hash orc k c = Inr (snd (slots c s), c') \<and> cache_ok hash c'
    \<and> cached c' = slots c s # filter (\<lambda>p. fst p \<noteq> k) (cached c) \<and> cache_size c' = cache_size c"
proof -
  note d = cache_okD[OF ok]
  from f have s: "s \<in> set (lrulist c)" "fst (slots c s) = k" using d(9) by auto
  let ?l = "s # remove1 s (lrulist c)"
  let ?c = "c\<lparr> lrulist := ?l \<rparr>"
  have l: "(if hd (lrulist c) \<noteq> s then ?l else lrulist c) = ?l"
    using s(1) by (cases "lrulist c") auto
  have "set ?l = set (lrulist c)" using s(1) d(1) by (auto simp: set_remove1_eq)
  moreover have "length ?l = length (lrulist c)"
    using s(1) length_pos_if_in_set[OF s(1)] by (simp add: length_remove1 del: length_greater_0_conv)
  ultimately have ok': "cache_ok hash ?c"
    unfolding cache_ok_def using d by (auto simp: set_remove1_eq)
  have "filter (\<lambda>x. fst (slots c x) \<noteq> k) (lrulist c) = filter (\<lambda>x. x \<noteq> s) (lrulist c)"
    using cache_ok_names[OF ok _ s(1)] s(2) by (auto intro!: filter_cong)
  then have "cached ?c = slots c s # filter (\<lambda>p. fst p \<noteq> k) (cached c)"
    using d(1) by (simp add: cached_def filter_map o_def distinct_remove1_removeAll
        removeAll_filter_not_eq eq_commute)
  then show ?thesis using ok' f l by (simp add: cache_get_def Let_def)
qed

lemma cache_miss_ok:
  assumes ok: "cache_ok hash c" and f: "ht_find hash (tab c) k = None"
  shows "\<exists>c'. cache_get hash orc k c = Inr (orc k, c') \<and> cache_ok hash c'
    \<and> cached c' = (k, orc k) # (if length (cached c) < cache_size c then cached c else butlast (cached c))
    \<and> cache_size c' = cache_size c"
proof -
  obtain e where e: "cache_ensure_evict hash c = Inr e" "cache_ok hash e" "freelist e \<noteq> []"
    "cached e = (if length (cached c) < cache_size c then cached c else butlast (cached c))"
    "cache_size e = cache_size c"
    using cache_ensure_evict_ok[OF ok] by blast
  note d = cache_okD[OF e(2)]
  have "k \<notin> fst ` set (cached c)"
    using f map_of_cached[OF ok, of k] by (simp add: map_of_eq_None_iff)
  then have "k \<notin> fst ` set (cached e)"
    unfolding e(4) by (auto dest: in_set_butlastD)
  then have fe: "ht_find hash (tab e) k = None"
    using map_of_cached[OF e(2), of k] map_of_eq_None_iff[of "cached e" k] by simp
  obtain t where t: "ht_ins hash k (hd (freelist e)) (tab e) = Some t"
    "ht_find hash t = (ht_find hash (tab e))(k \<mapsto> hd (freelist e))"
    using ht_ins_new[OF fe] by metis
  obtain s fs where fr: "freelist e = s # fs" using e(3) by (cases "freelist e") auto
  let ?c = "e\<lparr> freelist := fs, slots := (slots e)(s := (k, orc k)), lrulist := s # lrulist e, tab := t \<rparr>"
  have s: "s \<notin> set (lrulist e)" using d(3) fr by auto
  have name: "x \<in> set (lrulist e) \<Longrightarrow> fst (slots e x) \<noteq> k" for x
    using fe d(9)[of k x] by auto
  have "cache_ok hash ?c"
    unfolding cache_ok_def using d s fr t(2) name by (auto split: if_splits)
  moreover have "cached ?c = (k, orc k) # cached e"
    using s by (auto simp: cached_def)
  ultimately show ?thesis using f e t fr by (simp add: cache_get_def Let_def)
qed

lemma cache_get_lru:
  assumes ok: "cache_ok hash c"
  shows "\<exists>c'. cache_get hash orc k c
      = Inr (fst (lru_get (cache_size c) k (orc k) (cached c)), c') \<and> cache_ok hash c'
    \<and> cached c' = snd (lru_get (cache_size c) k (orc k) (cached c)) \<and> cache_size c' = cache_size c"
proof (cases "ht_find hash (tab c) k")
  case None
  then show ?thesis
    using cache_miss_ok[OF ok None, of orc] map_of_cached[OF ok, of k] by (auto simp: lru_get_def)
next
  case (Some s)
  then have "fst (slots c s) = k" using cache_okD(9)[OF ok] by simp
  then have "slots c s = (k, snd (slots c s))" by (cases "slots c s") simp
  then show ?thesis
    using cache_hit_ok[OF ok Some, of orc] map_of_cached[OF ok, of k] Some by (auto simp: lru_get_def)
qed

lemma cache_evict_named_ok:
  assumes ok: "cache_ok hash c"
  shows "cache_ok hash (cache_evict_named hash k c)"
    "cached (cache_evict_named hash k c) = filter (\<lambda>p. fst p \<noteq> k) (cached c)"
    "cache_size (cache_evict_named hash k c) = cache_size c"
proof -
  have "cache_ok hash (cache_evict_named hash k c)
      \<and> cached (cache_evict_named hash k c) = filter (\<lambda>p. fst p \<noteq> k) (cached c)
      \<and> cache_size (cache_evict_named hash k c) = cache_size c"
  proof (cases "ht_find hash (tab c) k")
    case None
    then have "k \<notin> fst ` set (cached c)"
      using map_of_cached[OF ok, of k] by (simp add: map_of_eq_None_iff)
    then have "filter (\<lambda>p. fst p \<noteq> k) (cached c) = cached c" by (auto intro!: filter_True)
    then show ?thesis using None ok by (simp add: cache_evict_named_def)
  next
    case (Some s)
    then have s: "s \<in> set (lrulist c)" "fst (slots c s) = k" using cache_okD(9)[OF ok] by auto
    show ?thesis using cache_remove_ok[OF ok s(1) refl] Some s(2) by (simp add: cache_evict_named_def)
  qed
  then show "cache_ok hash (cache_evict_named hash k c)"
    "cached (cache_evict_named hash k c) = filter (\<lambda>p. fst p \<noteq> k) (cached c)"
    "cache_size (cache_evict_named hash k c) = cache_size c" by auto
qed

text \<open>C17: every lookup of \<open>lstat_cached\<close> succeeds on a well-formed cache, keeps it well formed and
  does exactly what a bounded list ordered by last use does: the value of a cached name is returned
  and moves to the front; a new name is looked up, put in front, and the least recently used entry
  goes when the cache has reached its maximal size.\<close>

theorem lstat_cached_lru:
  assumes "cache_ok hash c"
  shows "\<exists>c'. lstat_cached hash lstat k c
      = Inr (fst (lru_get (cache_size c) k (lstat k) (cached c)), c') \<and> cache_ok hash c'
    \<and> cached c' = snd (lru_get (cache_size c) k (lstat k) (cached c)) \<and> cache_size c' = cache_size c"
  unfolding lstat_cached_def using assms by (rule cache_get_lru)

definition small_cache :: "'v cache" where
  "small_cache = \<lparr> slots = (\<lambda>_. undefined), tab = ht_init 4, lrulist = [], freelist = [], entcnt = 0,
     cache_size = 2, fresh = 0 \<rparr>"

lemma small_cache_ok: "cache_ok hash (cache_init small_cache)" "cached (cache_init small_cache) = []"
  "cache_size (cache_init small_cache) = 2"
  by (rule cache_init_ok; simp add: small_cache_def)+
     (simp add: cache_init_def small_cache_def Let_def)

theorem lstat_cached_lru_witness:
  "\<exists>c'. lstat_cached id (\<lambda>_. None) 7 (cache_init small_cache) = Inr (None, c') \<and> cached c' = [(7, None)]"
  using lstat_cached_lru[OF small_cache_ok(1)[of id], of "\<lambda>_. None" 7]
  by (auto simp: lru_get_def small_cache_ok)

section \<open>Transparency\<close>

text \<open>
  A build reads the status of files and remakes some of them; every remade target is evicted by
  name (\<open>mark_executed\<close>).  \<open>cache_run\<close> collects what the reads return.
\<close>

datatype 'v file_event = Read nat | Remake nat 'v

fun cache_run :: "(nat \<Rightarrow> nat) \<Rightarrow> (nat \<Rightarrow> 'v) \<Rightarrow> 'v file_event list \<Rightarrow> 'v cache \<Rightarrow> ('v list \<times> 'v cache) res" where
  "cache_run hash fs [] c = Inr ([], c)"
| "cache_run hash fs (Read k # es) c =
     bind_res (cache_get hash fs k c) (\<lambda>(v, c).
       bind_res (cache_run hash fs es c) (\<lambda>(vs, c). Inr (v # vs, c)))"
| "cache_run hash fs (Remake k v # es) c = cache_run hash (fs(k := v)) es (cache_evict_named hash k c)"

fun direct_run :: "(nat \<Rightarrow> 'v) \<Rightarrow> 'v file_event list \<Rightarrow> 'v list" where
  "direct_run fs [] = []"
| "direct_run fs (Read k # es) = fs k # direct_run fs es"
| "direct_run fs (Remake k v # es) = direct_run (fs(k := v)) es"

definition coherent_on :: "nat set \<Rightarrow> (nat \<Rightarrow> 'v) \<Rightarrow> 'v cache \<Rightarrow> bool" where
  "coherent_on K fs c \<longleftrightarrow> (\<forall>(k, v) \<in> set (cached c). k \<in> K \<longrightarrow> v = fs k)"

abbreviation coherent :: "(nat \<Rightarrow> 'v) \<Rightarrow> 'v cache \<Rightarrow> bool" where
  "coherent fs c \<equiv> coherent_on UNIV fs c"

lemma cache_get_coherent_on:
  assumes ok: "cache_ok hash c" and co: "coherent_on K fs c" and k: "k \<in> K"
  shows "\<exists>c'. cache_get hash fs k c = Inr (fs k, c') \<and> cache_ok hash c' \<and> coherent_on K fs c'
    \<and> cache_size c' = cache_size c"
proof -
  have m: "map_of (cached c) k = Some x \<Longrightarrow> x = fs k" for x
    using co k by (auto simp: coherent_on_def dest: map_of_SomeD)
  have b: "p \<in> set (butlast (cached c)) \<Longrightarrow> fst p \<in> K \<Longrightarrow> snd p = fs (fst p)" for p
    using co in_set_butlastD[of p "cached c"] by (auto simp: coherent_on_def)
  obtain c' where c': "cache_get hash fs k c = Inr (fst (lru_get (cache_size c) k (fs k) (cached c)), c')"
    "cache_ok hash c'" "cached c' = snd (lru_get (cache_size c) k (fs k) (cached c))"
    "cache_size c' = cache_size c" using cache_get_lru[OF ok] by blast
  have "fst (lru_get (cache_size c) k (fs k) (cached c)) = fs k"
    using m by (auto simp: lru_get_def split: option.splits)
  moreover have "coherent_on K fs c'"
    using m b co unfolding coherent_on_def c'(3) lru_get_def
    by (auto split: option.splits if_splits)
  ultimately show ?thesis using c' by auto
qed

lemmas cache_get_coherent = cache_get_coherent_on[OF _ _ UNIV_I]

lemma cache_evict_named_coherent:
  assumes "cache_ok hash c" "coherent fs c"
  shows "coherent (fs(k := v)) (cache_evict_named hash k c)"
  using assms(2) unfolding coherent_on_def cache_evict_named_ok(2)[OF assms(1)] by auto

lemma cache_evict_named_coherent_on:
  assumes "cache_ok hash c" "coherent_on K fs c"
  shows "coherent_on (insert k K) fs (cache_evict_named hash k c)"
  using assms(2) unfolding coherent_on_def cache_evict_named_ok(2)[OF assms(1)] by auto

lemma cache_run_transparent:
  assumes "cache_ok hash c" "coherent fs c"
  shows "\<exists>c'. cache_run hash fs es c = Inr (direct_run fs es, c') \<and> cache_ok hash c'"
  using assms
proof (induction es arbitrary: fs c)
  case Nil
  then show ?case by simp
next
  case (Cons e es)
  show ?case
  proof (cases e)
    case (Read k)
    then show ?thesis using cache_get_coherent[OF Cons.prems, of k] Cons.IH by fastforce
  next
    case (Remake k v)
    then show ?thesis
      using Cons.IH[OF cache_evict_named_ok(1)[OF Cons.prems(1)]
        cache_evict_named_coherent[OF Cons.prems]] by (simp add: fun_upd_def)
  qed
qed

text \<open>C18: the cache is transparent.  Whatever files are read and remade in whatever order, with an
  eviction by name after each remake, every read through the cache returns what the file system
  holds at that moment, and no step aborts, whatever the hash function and the sizes are.\<close>

theorem cache_transparent:
  assumes "lrulist c = []" "freelist c = []" "0 < cache_size c" "entcnt c \<le> cache_size c"
  shows "\<exists>c'. cache_run hash fs es (cache_init c) = Inr (direct_run fs es, c')"
  using cache_run_transparent[OF cache_init_ok(1)[OF assms], of fs hash es] cache_init_ok(2)[OF assms]
  by (auto simp: coherent_on_def)

theorem cache_transparent_witness:
  "\<exists>c'. cache_run id (\<lambda>_. 0 :: nat) [Read 1, Read 2, Read 3, Remake 2 5, Read 2, Read 1]
     (cache_init small_cache) = Inr ([0, 0, 0, 5, 0], c')"
  using cache_transparent[of small_cache id "\<lambda>_. 0 :: nat"
      "[Read 1, Read 2, Read 3, Remake 2 5, Read 2, Read 1]"]
  by (simp add: small_cache_def)

end
