(* ===== verification/Database.thy ===== *)
theory Database
  imports Rules Hash_Table
begin

text \<open>
  The two databases of \<open>db.c\<close> and the comparisons of \<open>stirmake.c\<close> that consult them: the command
  database (for every target the directory and the commands it was last made with) and the time
  stamp database (for every target and source the time stamp and size it was last seen with).

  A database is a hash table from the string-table index to the entry and a linked list of the
  entries in the order they go to the file \<open>.stir.db\<close>; the list is the list of the keys, an entry
  being the node with its key.
\<close>

record 'e database =
  byname :: "(nat, 'e) htab"
  ll :: "nat list"

record tsdbe =
  ts :: timespec
  tsnew :: timespec
  sz :: int
  sznew :: int
  seen :: bool

record dbe =
  dbe_diridx :: nat
  cmds :: "string list list"

type_synonym tsdb = "tsdbe database"
type_synonym db = "dbe database"

section \<open>Operations of db.c\<close>

definition db_init :: "nat \<Rightarrow> 'e database \<Rightarrow> 'e database" where
  "db_init n d = d\<lparr> byname := ht_init n \<rparr>"

text \<open>\<open>ins_dbe\<close> and \<open>ins_tsdbe\<close>: on a collision the old node leaves the tree and the list first.\<close>

definition db_ins :: "(nat \<Rightarrow> nat) \<Rightarrow> nat \<Rightarrow> 'e \<Rightarrow> 'e database \<Rightarrow> 'e database res" where
  "db_ins hash k e d =
     (case ht_ins hash k e (byname d) of
        Some t \<Rightarrow> Inr (d\<lparr> byname := t, ll := ll d @ [k] \<rparr>)
      | None \<Rightarrow>
          if ht_find hash (byname d) k = None then Inl Aborted
          else let d = d\<lparr> byname := ht_del hash k (byname d), ll := remove1 k (ll d) \<rparr> in
            case ht_ins hash k e (byname d) of
              None \<Rightarrow> Inl Aborted
            | Some t \<Rightarrow> Inr (d\<lparr> byname := t, ll := ll d @ [k] \<rparr>))"

definition ins_dbe :: "(nat \<Rightarrow> nat) \<Rightarrow> nat \<Rightarrow> dbe \<Rightarrow> db \<Rightarrow> db res" where
  "ins_dbe = db_ins"

definition ins_tsdbe :: "(nat \<Rightarrow> nat) \<Rightarrow> nat \<Rightarrow> tsdbe \<Rightarrow> tsdb \<Rightarrow> tsdb res" where
  "ins_tsdbe = db_ins"

definition db_del :: "(nat \<Rightarrow> nat) \<Rightarrow> nat \<Rightarrow> 'e database \<Rightarrow> 'e database" where
  "db_del hash k d =
     (case ht_find hash (byname d) k of
        None \<Rightarrow> d
      | Some _ \<Rightarrow> d\<lparr> byname := ht_del hash k (byname d), ll := remove1 k (ll d) \<rparr>)"

definition maybe_del_dbe :: "(nat \<Rightarrow> nat) \<Rightarrow> nat \<Rightarrow> db \<Rightarrow> db" where
  "maybe_del_dbe = db_del"

definition maybe_del_tsdbe :: "(nat \<Rightarrow> nat) \<Rightarrow> nat \<Rightarrow> tsdb \<Rightarrow> tsdb" where
  "maybe_del_tsdbe = db_del"

definition get_dbe :: "(nat \<Rightarrow> nat) \<Rightarrow> db \<Rightarrow> nat \<Rightarrow> dbe option" where
  "get_dbe hash d k = ht_find hash (byname d) k"

definition get_tsdbe :: "(nat \<Rightarrow> nat) \<Rightarrow> tsdb \<Rightarrow> nat \<Rightarrow> tsdbe option" where
  "get_tsdbe hash d k = ht_find hash (byname d) k"

text \<open>A write through the pointer to an entry: the bucket's map gets the new content.\<close>

definition db_write :: "(nat \<Rightarrow> nat) \<Rightarrow> nat \<Rightarrow> 'e \<Rightarrow> 'e database \<Rightarrow> 'e database" where
  "db_write hash k e d =
     (let t = byname d; i = ht_head hash t k in
      d\<lparr> byname := t\<lparr> buckets := (buckets t)(i := (buckets t i)(k \<mapsto> e)) \<rparr> \<rparr>)"

definition tsszstoresource :: "(nat \<Rightarrow> nat) \<Rightarrow> nat \<Rightarrow> timespec \<Rightarrow> int \<Rightarrow> tsdb \<Rightarrow> tsdb res" where
  "tsszstoresource hash k t n d =
     (let e = \<lparr> ts = t, tsnew = t, sz = n, sznew = n, seen = True \<rparr> in
      if get_tsdbe hash d k = None then ins_tsdbe hash k e d else Inr (db_write hash k e d))"

definition tsszstoretarget :: "(nat \<Rightarrow> nat) \<Rightarrow> nat \<Rightarrow> timespec \<Rightarrow> int \<Rightarrow> tsdb \<Rightarrow> tsdb res" where
  "tsszstoretarget hash k t n d =
     (let e = \<lparr> ts = t, tsnew = t, sz = n, sznew = n, seen = True \<rparr> in
      if get_tsdbe hash d k = None then ins_tsdbe hash k e d else Inr (db_write hash k e d))"

definition zap_dbs :: "db \<Rightarrow> tsdb \<Rightarrow> db \<times> tsdb" where
  "zap_dbs d t =
     (d\<lparr> byname := ht_init (hsize (byname d)), ll := [] \<rparr>,
      t\<lparr> byname := ht_init (hsize (byname t)), ll := [] \<rparr>)"

section \<open>Comparisons of stirmake.c\<close>

definition ts_cmp :: "timespec \<Rightarrow> timespec \<Rightarrow> int" where
  "ts_cmp a b =
     (if tv_sec a > tv_sec b then 1
      else if tv_sec a < tv_sec b then -1
      else if tv_nsec a > tv_nsec b then 1
      else if tv_nsec a < tv_nsec b then -1
      else 0)"

text \<open>\<open>cmd_equal\<close> counts both null-terminated vectors, then compares by index.\<close>

definition args_equal :: "string list \<Rightarrow> string list \<Rightarrow> bool" where
  "args_equal a b \<longleftrightarrow>
     (let n1 = length a; n2 = length b in
      n1 = n2 \<and> list_all (\<lambda>j. a ! j = b ! j) [0 ..< n1])"

definition cmd_equal :: "string list list \<Rightarrow> string list list \<Rightarrow> bool" where
  "cmd_equal c1 c2 \<longleftrightarrow>
     (let n1 = length c1; n2 = length c2 in
      n1 = n2 \<and> list_all (\<lambda>i. args_equal (c1 ! i) (c2 ! i)) [0 ..< n1])"

definition cmdequal_db :: "(nat \<Rightarrow> nat) \<Rightarrow> db \<Rightarrow> nat \<Rightarrow> string list list \<Rightarrow> nat \<Rightarrow> bool" where
  "cmdequal_db hash d tgt c dir =
     (case get_dbe hash d tgt of
        None \<Rightarrow> False
      | Some e \<Rightarrow> if dbe_diridx e \<noteq> dir then False
                 else if \<not> cmd_equal c (cmds e) then False
                 else True)"

definition tsszequal_db :: "(nat \<Rightarrow> nat) \<Rightarrow> nat \<Rightarrow> timespec \<Rightarrow> int \<Rightarrow> bool \<Rightarrow> tsdb \<Rightarrow> bool \<times> tsdb" where
  "tsszequal_db hash k t n istarget d =
     (case get_tsdbe hash d k of
        None \<Rightarrow> (False, d)
      | Some e \<Rightarrow>
          let e' = (if istarget then e else e\<lparr> tsnew := t, sznew := n, seen := True \<rparr>);
              d = (if istarget then d else db_write hash k e' d) in
          if sz e' \<noteq> n then (False, d)
          else if ts_cmp (ts e') t \<noteq> 0 then (False, d)
          else (True, d))"

text \<open>The time stamp and the size that \<open>merge_db_v2\<close> writes to the file for an entry.\<close>

definition written :: "tsdbe \<Rightarrow> timespec \<times> int" where
  "written e = (if \<not> seen e then (ts e, sz e) else (tsnew e, sznew e))"

section \<open>Time stamps are linearly ordered\<close>

instantiation timespec_ext :: (linorder) linorder
begin

definition less_eq_timespec_ext :: "'a timespec_scheme \<Rightarrow> 'a timespec_scheme \<Rightarrow> bool" where
  "less_eq_timespec_ext a b \<longleftrightarrow> tv_sec a < tv_sec b \<or> tv_sec a = tv_sec b \<and>
     (tv_nsec a < tv_nsec b \<or> tv_nsec a = tv_nsec b \<and> timespec.more a \<le> timespec.more b)"

definition less_timespec_ext :: "'a timespec_scheme \<Rightarrow> 'a timespec_scheme \<Rightarrow> bool" where
  "less_timespec_ext a b \<longleftrightarrow> a \<le> b \<and> \<not> b \<le> a"

instance
  by standard (auto simp: less_eq_timespec_ext_def less_timespec_ext_def intro: timespec.equality)

end

lemma ts_cmp_simps [simp]:
  "ts_cmp a b \<le> 0 \<longleftrightarrow> a \<le> b"
  "0 < ts_cmp a b \<longleftrightarrow> b < a"
  "ts_cmp a b < 0 \<longleftrightarrow> a < b"
  "ts_cmp a b = 0 \<longleftrightarrow> a = b"
  by (auto simp: ts_cmp_def less_eq_timespec_ext_def less_timespec_ext_def intro: timespec.equality)

lemma all_nth_eq: "length a = length b \<and> list_all (\<lambda>i. a ! i = b ! i) [0 ..< length a] \<longleftrightarrow> a = b"
  by (auto simp: list_all_iff intro: nth_equalityI)

lemma args_equal_eq: "args_equal a b \<longleftrightarrow> a = b"
  unfolding args_equal_def Let_def by (rule all_nth_eq)

lemma cmd_equal_eq: "cmd_equal a b \<longleftrightarrow> a = b"
  unfolding cmd_equal_def Let_def args_equal_eq by (rule all_nth_eq)

section \<open>A database is a finite map with an order\<close>

definition db_ok :: "(nat \<Rightarrow> nat) \<Rightarrow> 'e database \<Rightarrow> bool" where
  "db_ok hash d \<longleftrightarrow> distinct (ll d) \<and> (\<forall>k. ht_find hash (byname d) k \<noteq> None \<longleftrightarrow> k \<in> set (ll d))"

text \<open>What the file will hold: the entries in list order.\<close>

definition entries :: "(nat \<Rightarrow> nat) \<Rightarrow> 'e database \<Rightarrow> (nat \<times> 'e) list" where
  "entries hash d = map (\<lambda>k. (k, the (ht_find hash (byname d) k))) (ll d)"

lemma db_init_ok: "ll d = [] \<Longrightarrow> db_ok hash (db_init n d)" "ll d = [] \<Longrightarrow> entries hash (db_init n d) = []"
  by (simp_all add: db_ok_def db_init_def entries_def)

lemma map_of_entries:
  assumes "db_ok hash d"
  shows "map_of (entries hash d) k = ht_find hash (byname d) k"
proof (cases "k \<in> set (ll d)")
  case True
  then have "ht_find hash (byname d) k \<noteq> None" using assms by (simp add: db_ok_def)
  moreover have "map_of (entries hash d) k = Some (the (ht_find hash (byname d) k))"
    using True by (auto simp: entries_def map_of_map_restrict)
  ultimately show ?thesis by auto
next
  case False
  then have "ht_find hash (byname d) k = None" using assms by (auto simp: db_ok_def)
  then show ?thesis using False by (simp add: entries_def map_of_map_restrict)
qed

lemma find_write [simp]:
  "ht_find hash (byname (db_write hash k e d)) = (ht_find hash (byname d))(k \<mapsto> e)"
  by (auto simp: db_write_def ht_find_def ht_head_def Let_def)

lemma ll_write [simp]: "ll (db_write hash k e d) = ll d"
  by (simp add: db_write_def Let_def)

lemma db_write_ok:
  assumes "db_ok hash d" "ht_find hash (byname d) k \<noteq> None"
  shows "db_ok hash (db_write hash k e d)"
    "entries hash (db_write hash k e d) = map (\<lambda>p. (fst p, if fst p = k then e else snd p)) (entries hash d)"
  using assms by (auto simp: db_ok_def entries_def)

lemma entries_del:
  assumes "distinct (ll d)"
  shows "entries hash (d\<lparr> byname := ht_del hash k (byname d), ll := remove1 k (ll d) \<rparr>)
    = filter (\<lambda>p. fst p \<noteq> k) (entries hash d)"
  using assms
  by (auto simp: entries_def filter_map o_def distinct_remove1_removeAll removeAll_filter_not_eq
      eq_commute intro!: map_cong filter_cong)

lemma db_del_ok:
  assumes "db_ok hash d"
  shows "db_ok hash (db_del hash k d)"
    "ht_find hash (byname (db_del hash k d)) = (ht_find hash (byname d))(k := None)"
    "entries hash (db_del hash k d) = filter (\<lambda>p. fst p \<noteq> k) (entries hash d)"
proof -
  have d: "distinct (ll d)" "\<And>k. ht_find hash (byname d) k \<noteq> None \<longleftrightarrow> k \<in> set (ll d)"
    using assms by (auto simp: db_ok_def)
  show "db_ok hash (db_del hash k d)"
    using d by (auto simp: db_ok_def db_del_def set_remove1_eq split: option.splits)
  show "ht_find hash (byname (db_del hash k d)) = (ht_find hash (byname d))(k := None)"
    by (auto simp: db_del_def split: option.splits)
  show "entries hash (db_del hash k d) = filter (\<lambda>p. fst p \<noteq> k) (entries hash d)"
  proof (cases "ht_find hash (byname d) k")
    case None
    then have "filter (\<lambda>p. fst p \<noteq> k) (entries hash d) = entries hash d"
      using d(2)[of k] by (auto simp: entries_def intro!: filter_True)
    then show ?thesis using None by (simp add: db_del_def)
  next
    case (Some e)
    then show ?thesis using entries_del[OF d(1)] by (simp add: db_del_def)
  qed
qed

lemma db_ins_ok:
  assumes "db_ok hash d"
  shows "\<exists>d'. db_ins hash k e d = Inr d' \<and> db_ok hash d'
    \<and> ht_find hash (byname d') = (ht_find hash (byname d))(k \<mapsto> e)
    \<and> entries hash d' = filter (\<lambda>p. fst p \<noteq> k) (entries hash d) @ [(k, e)]"
proof -
  let ?d = "db_del hash k d"
  note del = db_del_ok[OF assms, of k]
  have "ht_find hash (byname ?d) k = None" using del(2) by simp
  from ht_ins_new[OF this, of e] obtain t where t: "ht_ins hash k e (byname ?d) = Some t"
    "ht_find hash t = (ht_find hash (byname ?d))(k \<mapsto> e)" by blast
  have eq: "db_ins hash k e d = Inr (?d\<lparr> byname := t, ll := ll ?d @ [k] \<rparr>)"
    using t(1) ht.ins_None[of hash k e "byname d"]
    by (auto simp: db_ins_def db_del_def Let_def split: option.splits)
  have k: "k \<notin> set (ll ?d)" using del(1,2) unfolding db_ok_def by (metis fun_upd_same)
  have "entries hash (?d\<lparr> byname := t, ll := ll ?d @ [k] \<rparr>) = entries hash ?d @ [(k, e)]"
    using k t(2) by (auto simp: entries_def)
  moreover have "db_ok hash (?d\<lparr> byname := t, ll := ll ?d @ [k] \<rparr>)"
    using del(1) k t(2) by (auto simp: db_ok_def)
  ultimately show ?thesis using eq t(2) del by simp
qed

lemma find_some_entries: "db_ok hash d \<Longrightarrow> ht_find hash (byname d) k = None \<Longrightarrow>
    filter (\<lambda>p. fst p \<noteq> k) (entries hash d) = entries hash d"
  unfolding db_ok_def entries_def by (rule filter_True) (metis (mono_tags, lifting) fst_conv imageE list.set_map)

section \<open>What the comparisons decide\<close>

lemma cmdequal_db_iff:
  "cmdequal_db hash d tgt c dir \<longleftrightarrow>
     ht_find hash (byname d) tgt = Some \<lparr> dbe_diridx = dir, cmds = c \<rparr>"
  by (auto simp: cmdequal_db_def get_dbe_def cmd_equal_eq split: option.splits intro: dbe.equality)

lemma tsszequal_db_iff:
  "fst (tsszequal_db hash k t n istarget d) \<longleftrightarrow>
     (\<exists>e. ht_find hash (byname d) k = Some e \<and> sz e = n \<and> ts e = t)"
  by (auto simp: tsszequal_db_def get_tsdbe_def Let_def split: option.splits)

lemma tsszequal_db_target [simp]: "snd (tsszequal_db hash k t n True d) = d"
  by (simp add: tsszequal_db_def Let_def split: option.splits)

lemma tsszequal_db_keeps:
  assumes "db_ok hash d"
  shows "db_ok hash (snd (tsszequal_db hash k t n istarget d))"
    "ll (snd (tsszequal_db hash k t n istarget d)) = ll d"
    "map_option (\<lambda>e. (ts e, sz e)) (ht_find hash (byname (snd (tsszequal_db hash k t n istarget d))) k')
       = map_option (\<lambda>e. (ts e, sz e)) (ht_find hash (byname d) k')"
  using assms
  by (auto simp: tsszequal_db_def get_tsdbe_def Let_def db_write_ok split: option.splits)

lemma tsszstore_ok:
  assumes "db_ok hash d"
  shows "\<exists>d'. tsszstoretarget hash k t n d = Inr d' \<and> db_ok hash d'
    \<and> ht_find hash (byname d') = (ht_find hash (byname d))
        (k \<mapsto> \<lparr> ts = t, tsnew = t, sz = n, sznew = n, seen = True \<rparr>)"
proof (cases "ht_find hash (byname d) k = None")
  case True
  then show ?thesis using db_ins_ok[OF assms, of k "\<lparr> ts = t, tsnew = t, sz = n, sznew = n, seen = True \<rparr>"]
    by (auto simp: tsszstoretarget_def ins_tsdbe_def get_tsdbe_def Let_def)
next
  case False
  then show ?thesis using db_write_ok(1)[OF assms False]
    by (auto simp: tsszstoretarget_def get_tsdbe_def Let_def)
qed

lemma tsszstoresource_eq: "tsszstoresource = tsszstoretarget"
  by (simp add: tsszstoresource_def tsszstoretarget_def fun_eq_iff)

text \<open>storing and comparing agree.  After \<open>tsszstoretarget\<close> a later comparison of a file, as
  source or as target, succeeds for the stored file exactly when time stamp and size are the stored
  ones, and for every other file exactly when it did before.\<close>

theorem tsszstore_then_equal:
  assumes "db_ok hash d"
  shows "\<exists>d'. tsszstoretarget hash k t n d = Inr d' \<and> db_ok hash d'
    \<and> (\<forall>k' t' n' istarget. fst (tsszequal_db hash k' t' n' istarget d') =
         (if k' = k then t' = t \<and> n' = n else fst (tsszequal_db hash k' t' n' istarget d)))"
  using tsszstore_ok[OF assms, of k t n] by (auto simp: tsszequal_db_iff)

definition empty_db :: "'e database" where
  "empty_db = db_init 4 \<lparr> byname = ht_init 0, ll = [] \<rparr>"

lemma empty_db_ok: "db_ok hash empty_db" "entries hash empty_db = []"
  by (simp_all add: empty_db_def db_init_ok)

theorem tsszstore_then_equal_witness:
  "\<exists>d'. tsszstoretarget id 3 \<lparr> tv_sec = 5, tv_nsec = 6 \<rparr> 7 empty_db = Inr d'
    \<and> fst (tsszequal_db id 3 \<lparr> tv_sec = 5, tv_nsec = 6 \<rparr> 7 False d')
    \<and> \<not> fst (tsszequal_db id 3 \<lparr> tv_sec = 5, tv_nsec = 7 \<rparr> 7 False d')"
  using tsszstore_then_equal[OF empty_db_ok(1), of id 3 "\<lparr> tv_sec = 5, tv_nsec = 6 \<rparr>" 7] by auto

text \<open>\<open>ins_dbe\<close> never aborts and leaves one entry per target: the old entry of the target is
  gone, the new one is last in the file, and the order of the others is kept.\<close>

theorem ins_dbe_entries:
  assumes "db_ok hash d"
  shows "\<exists>d'. ins_dbe hash k e d = Inr d' \<and> db_ok hash d'
    \<and> entries hash d' = filter (\<lambda>p. fst p \<noteq> k) (entries hash d) @ [(k, e)]
    \<and> (\<forall>k'. get_dbe hash d' k' = (if k' = k then Some e else get_dbe hash d k'))"
  using db_ins_ok[OF assms, of k e] by (auto simp: ins_dbe_def get_dbe_def)

theorem ins_dbe_entries_witness:
  "\<exists>d'. ins_dbe id 3 \<lparr> dbe_diridx = 0, cmds = [[''cc'']] \<rparr> empty_db = Inr d'
    \<and> get_dbe id d' 3 = Some \<lparr> dbe_diridx = 0, cmds = [[''cc'']] \<rparr>"
  using ins_dbe_entries[OF empty_db_ok(1), of id 3 "\<lparr> dbe_diridx = 0, cmds = [[''cc'']] \<rparr>"] by auto

end
