(* ===== verification/Up_To_Date.thy ===== *)
theory Up_To_Date
  imports Scheduler File_Cache Database
begin

text \<open>
  The decision whether a rule has to be made (\<open>do_exec\<close> up to its last three-way branch) and what
  is recorded when it is done (the middle of \<open>mark_executed\<close>), with the recursive time stamps of
  directories (\<open>rec_mtim\<close>, \<open>reccap_mtim\<close>).

  The world of the scheduler is the file system, the two caches in front of it and the two
  databases.  The string table is the pair \<open>names\<close>/\<open>st_get\<close>; \<open>calc\<close> stands for the evaluation of the
  shell lines of a rule by the abce virtual machine, \<open>utimens\<close> for the system call, and \<open>cdep_read\<close> for
  the numbers of the names that a dependency file lists, read without callbacks (\<open>incyy_reread\<close> in \<open>Inc_Parser\<close>).  \<open>stat\<close>, \<open>lstat\<close> and \<open>readdir\<close> are the components of the file
  system.  The trace output of \<open>do_trace\<close> and of \<open>debug\<close> is not modelled.
\<close>

section \<open>The world\<close>

record fsys =
  f_stat :: "string \<Rightarrow> filestat option"
  f_lstat :: "string \<Rightarrow> filestat option"
  f_dir :: "string \<Rightarrow> string list option"
  f_access :: "string \<Rightarrow> bool"

record build =
  fs :: fsys
  statc :: statcache
  accessc :: "bool cache"
  cmddb :: db
  stampdb :: tsdb
  remade :: "nat set"

datatype pretendtype = PRETEND_MODIFIED | PRETEND_VERY_OLD_NO_REMAKE

record config =
  hash :: "nat \<Rightarrow> nat"
  names :: "nat \<Rightarrow> string"
  st_get :: "string \<Rightarrow> nat option"
  pretends :: "(string \<times> pretendtype) list"
  unconditional :: bool
  usetsdb :: bool
  touchmode :: bool
  dry_run :: bool
  is_cdepwatch :: "nat \<Rightarrow> bool"
  calc :: "nat \<Rightarrow> string list list res"
  utimens :: "string \<Rightarrow> timespec \<Rightarrow> bool \<Rightarrow> fsys \<Rightarrow> fsys"
  cdep_read :: "nat \<Rightarrow> nat \<Rightarrow> fsys \<Rightarrow> nat list res option"

fun ispretend :: "(string \<times> pretendtype) list \<Rightarrow> string \<Rightarrow> pretendtype \<Rightarrow> bool" where
  "ispretend [] test typ = False"
| "ispretend ((fname, t) # iter) test typ =
     (if fname = test \<and> t = typ then True else ispretend iter test typ)"

definition pretend_idx :: "config \<Rightarrow> nat \<Rightarrow> pretendtype \<Rightarrow> bool" where
  "pretend_idx cfg k typ = ispretend (pretends cfg) (names cfg k) typ"

definition lstat_w :: "config \<Rightarrow> nat \<Rightarrow> build \<Rightarrow> (filestat option \<times> build) res" where
  "lstat_w cfg k w =
     bind_res (lstat_cached (hash cfg) (\<lambda>k. f_lstat (fs w) (names cfg k)) k (statc w)) (\<lambda>(x, c).
       Inr (x, w\<lparr> statc := c \<rparr>))"

definition epoch :: timespec where
  "epoch = \<lparr> tv_sec = 0, tv_nsec = 0 \<rparr>"

section \<open>Time stamps of whole directories\<close>

definition later :: "timespec \<Rightarrow> timespec \<Rightarrow> timespec" where
  "later x mx = (if ts_cmp x mx > 0 then x else mx)"

text \<open>
  \<open>rec_mtim\<close>: the newest stamp of the directory and of everything below it; for a rule with targets
  inside its recursive dependencies, the targets themselves are left out.  The recursion is
  bounded by fuel, the depth of the tree.
\<close>

fun rec_mtim :: "config \<Rightarrow> rule \<Rightarrow> nat \<Rightarrow> fsys \<Rightarrow> string \<Rightarrow> timespec res"
and rec_mtim_dir :: "config \<Rightarrow> rule \<Rightarrow> nat \<Rightarrow> fsys \<Rightarrow> string \<Rightarrow> string list \<Rightarrow> timespec \<Rightarrow> timespec res" where
  "rec_mtim cfg r 0 f name = Inl NoFuel"
| "rec_mtim cfg r (Suc n) f name =
     (case f_stat f name of
        None \<Rightarrow> Inl (Exited ''can't open file'')
      | Some sb \<Rightarrow>
          case f_lstat f name of
            None \<Rightarrow> Inl (Exited ''can't open file'')
          | Some lb \<Rightarrow>
              case f_dir f name of
                None \<Rightarrow> Inl (Exited ''can't open dir'')
              | Some es \<Rightarrow> rec_mtim_dir cfg r n f name es (later (st_mtime lb) (st_mtime sb)))"
| "rec_mtim_dir cfg r n f name [] mx = Inr mx"
| "rec_mtim_dir cfg r n f name (e # es) mx =
     (if e = ''.'' \<or> e = ''..'' then rec_mtim_dir cfg r n f name es mx
      else
        let nam2 = name @ ''/'' @ e in
        case f_stat f nam2 of
          None \<Rightarrow> Inl (Exited ''can't open file'')
        | Some sb \<Rightarrow>
            case f_lstat f nam2 of
              None \<Rightarrow> Inl (Exited ''can't open file'')
            | Some lb \<Rightarrow>
                let cur = later (st_mtime lb) (st_mtime sb);
                    found_rectgt = (is_rectgt r \<and> (case st_get cfg nam2 of
                        None \<Rightarrow> False | Some k \<Rightarrow> rule_get_tgt r k \<noteq> None));
                    mx = (if ts_cmp cur mx > 0 \<and> \<not> found_rectgt then cur else mx)
                in if st_dir lb then
                     bind_res (rec_mtim cfg r n f nam2) (\<lambda>cur.
                       rec_mtim_dir cfg r n f name es (later cur mx))
                   else rec_mtim_dir cfg r n f name es mx)"

text \<open>\<open>reccap_mtim\<close>: no stamp below the directory stays newer than \<open>cap\<close>.\<close>

definition cap_one :: "config \<Rightarrow> timespec \<Rightarrow> string \<Rightarrow> fsys \<Rightarrow> (filestat \<times> fsys) res" where
  "cap_one cfg cap name f =
     (case f_stat f name of
        None \<Rightarrow> Inl (Exited ''can't open file'')
      | Some sb \<Rightarrow>
          let f = (if ts_cmp (st_mtime sb) cap > 0 then utimens cfg name cap False f else f) in
          case f_lstat f name of
            None \<Rightarrow> Inl (Exited ''can't open file'')
          | Some lb \<Rightarrow>
              Inr (lb, if ts_cmp (st_mtime lb) cap > 0 then utimens cfg name cap True f else f))"

fun reccap_mtim :: "config \<Rightarrow> timespec \<Rightarrow> nat \<Rightarrow> string \<Rightarrow> fsys \<Rightarrow> fsys res"
and reccap_mtim_dir :: "config \<Rightarrow> timespec \<Rightarrow> nat \<Rightarrow> string \<Rightarrow> string list \<Rightarrow> fsys \<Rightarrow> fsys res" where
  "reccap_mtim cfg cap 0 name f = Inl NoFuel"
| "reccap_mtim cfg cap (Suc n) name f =
     (case f_dir f name of
        None \<Rightarrow> Inl (Exited ''can't open dir'')
      | Some es \<Rightarrow>
          bind_res (reccap_mtim_dir cfg cap n name es f) (\<lambda>f.
            bind_res (cap_one cfg cap name f) (\<lambda>(_, f). Inr f)))"
| "reccap_mtim_dir cfg cap n name [] f = Inr f"
| "reccap_mtim_dir cfg cap n name (e # es) f =
     (if e = ''.'' \<or> e = ''..'' then reccap_mtim_dir cfg cap n name es f
      else
        let nam2 = name @ ''/'' @ e in
        bind_res (cap_one cfg cap nam2 f) (\<lambda>(lb, f).
          if st_dir lb then
            bind_res (reccap_mtim cfg cap n nam2 f) (\<lambda>f. reccap_mtim_dir cfg cap n name es f)
          else reccap_mtim_dir cfg cap n name es f))"

section \<open>The decision of \<open>do_exec\<close>\<close>

text \<open>
  \<open>dep_step\<close> is one iteration of the loop over the dependencies.  The accumulator holds
  \<open>has_to_exec\<close>, \<open>seen_nonphony\<close>, \<open>st_mtim\<close> and the world; \<open>take_stamp\<close> is the comparison that
  occurs three times in it, with \<open>old\<close> the pretence that the file is very old.
\<close>

definition take_stamp :: "bool \<Rightarrow> bool \<Rightarrow> timespec \<Rightarrow> timespec \<Rightarrow> timespec" where
  "take_stamp old was x t = (if (\<not> was \<or> ts_cmp x t > 0) \<and> \<not> old then x else t)"

definition dep_step :: "config \<Rightarrow> nat \<Rightarrow> build sched \<Rightarrow> rule \<Rightarrow> stirdep
    \<Rightarrow> bool \<times> bool \<times> timespec \<times> build \<Rightarrow> (bool \<times> bool \<times> timespec \<times> build) res" where
  "dep_step cfg n s r e acc =
     (let (h, was, t, w) = acc; name = names cfg (nameidx e) in
      if is_dupe e then Inr acc
      else
        let h = (h \<or> pretend_idx cfg (nameidx e) PRETEND_MODIFIED \<or> nameidx e \<in> remade w);
            old = pretend_idx cfg (nameidx e) PRETEND_VERY_OLD_NO_REMAKE in
        if (case stirdep_ruleid (st_ruleid s) e of None \<Rightarrow> False | Some d \<Rightarrow> is_phony (rules s d))
        then Inr (True, was, t, w)
        else if is_recursive e then
          bind_res (rec_mtim cfg r n (fs w) name) (\<lambda>x. Inr (h, True, take_stamp False was x t, w))
        else
          bind_res (lstat_w cfg (nameidx e) w) (\<lambda>(she, w).
            case she of
              None \<Rightarrow> Inr (True, was, t, w)
            | Some x \<Rightarrow>
                let (h, was, t, w) =
                  (if \<not> is_orderonly e then
                     let t = take_stamp old was (st_mtime x) t;
                         (eq, db) = (if usetsdb cfg
                           then tsszequal_db (hash cfg) (nameidx e) (st_mtime x) (st_size x) False (stampdb w)
                           else (True, stampdb w))
                     in (h \<or> \<not> eq, True, t, w\<lparr> stampdb := db \<rparr>)
                   else (h, was, t, w))
                in if \<not> st_lnk x then Inr (h, was, t, w)
                   else case f_stat (fs w) name of
                     None \<Rightarrow> Inr (True, was, t, w)
                   | Some y \<Rightarrow>
                       if \<not> is_orderonly e
                       then Inr (h, True, take_stamp old was (st_mtime y) t, w)
                       else Inr (h, was, t, w)))"

fun dep_loop :: "config \<Rightarrow> nat \<Rightarrow> build sched \<Rightarrow> rule \<Rightarrow> stirdep list
    \<Rightarrow> bool \<times> bool \<times> timespec \<times> build \<Rightarrow> (bool \<times> bool \<times> timespec \<times> build) res" where
  "dep_loop cfg n s r [] acc = Inr acc"
| "dep_loop cfg n s r (e # es) acc = bind_res (dep_step cfg n s r e acc) (dep_loop cfg n s r es)"

text \<open>One iteration of the loop over the targets: \<open>has_to_exec\<close>, \<open>seen_no_remake\<close>, \<open>seen_tgt\<close>,
  \<open>st_mtimtgt\<close> and the world.\<close>

definition tgt_step :: "config \<Rightarrow> nat \<Rightarrow> string list list \<Rightarrow> stirtgt
    \<Rightarrow> bool \<times> bool \<times> bool \<times> timespec \<times> build
    \<Rightarrow> (bool \<times> bool \<times> bool \<times> timespec \<times> build) res" where
  "tgt_step cfg dir c e acc =
     (let (h, nr, was, t, w) = acc;
          nr = (nr \<or> pretend_idx cfg (tgtidx e) PRETEND_VERY_OLD_NO_REMAKE);
          h = (h \<or> \<not> cmdequal_db (hash cfg) (cmddb w) (tgtidx e) c dir) in
      bind_res (lstat_w cfg (tgtidx e) w) (\<lambda>(she, w).
        case she of
          None \<Rightarrow> Inr (True, nr, was, t, w)
        | Some x \<Rightarrow>
            let (eq, db) = (if usetsdb cfg \<and> \<not> st_dir x
                  then tsszequal_db (hash cfg) (tgtidx e) (st_mtime x) (st_size x) True (stampdb w)
                  else (True, stampdb w));
                w = w\<lparr> stampdb := db \<rparr>
            in if \<not> eq then Inr (True, nr, was, t, w)
               else Inr (h, nr, True,
                 if \<not> was \<or> ts_cmp (st_mtime x) t < 0 then st_mtime x else t, w)))"

fun tgt_loop :: "config \<Rightarrow> nat \<Rightarrow> string list list \<Rightarrow> stirtgt list
    \<Rightarrow> bool \<times> bool \<times> bool \<times> timespec \<times> build
    \<Rightarrow> (bool \<times> bool \<times> bool \<times> timespec \<times> build) res" where
  "tgt_loop cfg dir c [] acc = Inr acc"
| "tgt_loop cfg dir c (e # es) acc = bind_res (tgt_step cfg dir c e acc) (tgt_loop cfg dir c es)"

text \<open>The branch of a rule without dependencies: the status is not cached, and the loop breaks at
  the first missing target and at the first one with another command.\<close>

fun nodep_loop :: "config \<Rightarrow> nat \<Rightarrow> string list list \<Rightarrow> stirtgt list \<Rightarrow> bool \<Rightarrow> build \<Rightarrow> bool \<times> build" where
  "nodep_loop cfg dir c [] h w = (h, w)"
| "nodep_loop cfg dir c (e # es) h w =
     (case f_lstat (fs w) (names cfg (tgtidx e)) of
        None \<Rightarrow> (True, w)
      | Some x \<Rightarrow>
          if \<not> cmdequal_db (hash cfg) (cmddb w) (tgtidx e) c dir then (True, w)
          else if usetsdb cfg \<and> \<not> st_dir x then
            let (eq, db) = tsszequal_db (hash cfg) (tgtidx e) (st_mtime x) (st_size x) True (stampdb w)
            in nodep_loop cfg dir c es (h \<or> \<not> eq) (w\<lparr> stampdb := db \<rparr>)
          else nodep_loop cfg dir c es h w)"

text \<open>The whole of \<open>do_exec\<close> before its last branch; \<open>n\<close> bounds the depth of the directories
  \<open>rec_mtim\<close> descends.\<close>

definition decide_exec :: "config \<Rightarrow> nat \<Rightarrow> nat \<Rightarrow> build sched
    \<Rightarrow> (bool \<times> string list list \<times> timespec option \<times> build) res" where
  "decide_exec cfg n ruleid s =
     (let r = rules s ruleid; w = world s in
      bind_res (calc cfg ruleid) (\<lambda>c.
        bind_res
          (if \<not> is_phony r \<and> \<not> is_inc r \<and> deplist r \<noteq> [] then
             bind_res (dep_loop cfg n s r (deplist r) (unconditional cfg, False, epoch, w))
               (\<lambda>(h, seen_nonphony, t, w).
                 bind_res (tgt_loop cfg (diridx r) c (tgtlist r) (h, False, False, epoch, w))
                   (\<lambda>(h, nr, seen_tgt, tt, w).
                     let mtim = (if seen_nonphony then Some t else None) in
                     if h then Inr (True, nr, mtim, w)
                     else if \<not> seen_tgt then Inl Aborted
                     else Inr (seen_nonphony \<and> ts_cmp tt t < 0, nr, mtim, w)))
           else if is_phony r \<or> is_inc r then Inr (True, False, st_mtim r, w)
           else
             let (h, w) = nodep_loop cfg (diridx r) c (tgtlist r) (unconditional cfg) w in
             Inr (h, False, st_mtim r, w))
          (\<lambda>(h, nr, mtim, w).
            Inr (h \<and> c \<noteq> [] \<and> \<not> nr \<and> \<not> (is_phony r \<and> touchmode cfg), c, mtim, w))))"

section \<open>What \<open>mark_executed\<close> records\<close>

definition store_target :: "config \<Rightarrow> nat \<Rightarrow> filestat \<Rightarrow> build \<Rightarrow> build res" where
  "store_target cfg k x w =
     bind_res (tsszstoretarget (hash cfg) k (st_mtime x) (st_size x) (stampdb w)) (\<lambda>d.
       Inr (w\<lparr> stampdb := d \<rparr>))"

definition store_source :: "config \<Rightarrow> nat \<Rightarrow> filestat \<Rightarrow> build \<Rightarrow> build res" where
  "store_source cfg k x w =
     bind_res (tsszstoresource (hash cfg) k (st_mtime x) (st_size x) (stampdb w)) (\<lambda>d.
       Inr (w\<lparr> stampdb := d \<rparr>))"

text \<open>A rule that touches back (\<open>is_detouch\<close>): the oldest stamp of its targets caps its recursive
  dependencies.\<close>

definition older :: "timespec \<Rightarrow> timespec option \<Rightarrow> timespec option" where
  "older x cap = (case cap of None \<Rightarrow> Some x | Some c \<Rightarrow> Some (if ts_cmp x c < 0 then x else c))"

fun detouch_tgts :: "config \<Rightarrow> stirtgt list \<Rightarrow> timespec option \<Rightarrow> build \<Rightarrow> (timespec option \<times> build) res" where
  "detouch_tgts cfg [] cap w = Inr (cap, w)"
| "detouch_tgts cfg (e # es) cap w =
     (let name = names cfg (tgtidx e) in
      case f_stat (fs w) name of
        None \<Rightarrow> Inl (Exited ''Can't stat'')
      | Some sb \<Rightarrow>
          case f_lstat (fs w) name of
            None \<Rightarrow> Inl (Exited ''Can't lstat'')
          | Some lb \<Rightarrow>
              bind_res (store_target cfg (tgtidx e) lb w)
                (detouch_tgts cfg es (older (st_mtime lb) (older (st_mtime sb) cap))))"

fun detouch_deps :: "config \<Rightarrow> nat \<Rightarrow> timespec \<Rightarrow> stirdep list \<Rightarrow> build \<Rightarrow> build res" where
  "detouch_deps cfg n cap [] w = Inr w"
| "detouch_deps cfg n cap (e # es) w =
     (if is_dupe e \<or> \<not> is_recursive e then detouch_deps cfg n cap es w
      else bind_res (reccap_mtim cfg cap n (names cfg (nameidx e)) (fs w)) (\<lambda>f.
        detouch_deps cfg n cap es (w\<lparr> fs := f \<rparr>)))"

text \<open>A rule with targets inside its recursive dependencies (\<open>is_rectgt\<close>): the targets get the
  newest stamp of the tree, never an older one than they have.\<close>

fun rectgt_deps :: "config \<Rightarrow> nat \<Rightarrow> rule \<Rightarrow> stirdep list \<Rightarrow> timespec \<Rightarrow> build \<Rightarrow> timespec res" where
  "rectgt_deps cfg n r [] t w = Inr t"
| "rectgt_deps cfg n r (e # es) t w =
     (if is_dupe e \<or> \<not> is_recursive e then rectgt_deps cfg n r es t w
      else bind_res (rec_mtim cfg r n (fs w) (names cfg (nameidx e))) (\<lambda>x.
        rectgt_deps cfg n r es (later x t) w))"

fun rectgt_tgts :: "config \<Rightarrow> timespec \<Rightarrow> stirtgt list \<Rightarrow> build \<Rightarrow> build res" where
  "rectgt_tgts cfg t [] w = Inr w"
| "rectgt_tgts cfg t (e # es) w =
     (let name = names cfg (tgtidx e) in
      case f_stat (fs w) name of
        None \<Rightarrow> Inl (Exited ''Can't stat'')
      | Some sb \<Rightarrow>
          if ts_cmp t (st_mtime sb) \<le> 0 then
            bind_res (store_target cfg (tgtidx e) sb w) (rectgt_tgts cfg t es)
          else
            let w = w\<lparr> fs := utimens cfg name t False (fs w) \<rparr> in
            case f_stat (fs w) name of
              None \<Rightarrow> Inl (Exited ''Can't stat'')
            | Some sb \<Rightarrow> bind_res (store_target cfg (tgtidx e) sb w) (rectgt_tgts cfg t es))"

text \<open>Any other rule: every target must exist and be at least as new as the dependencies were.\<close>

definition normal_tgt :: "config \<Rightarrow> rule \<Rightarrow> bool \<Rightarrow> bool \<Rightarrow> stirtgt \<Rightarrow> build \<Rightarrow> build res" where
  "normal_tgt cfg r was seen_pretend e w =
     bind_res (if was then Inr (f_lstat (fs w) (names cfg (tgtidx e)), w) else lstat_w cfg (tgtidx e) w)
       (\<lambda>(x, w).
         case x of
           None \<Rightarrow>
             if \<not> seen_pretend \<and> \<not> is_maybe r then Inl (Exited ''Target was not created by rule'')
             else Inr w
         | Some x \<Rightarrow>
             if \<not> seen_pretend \<and> \<not> is_maybe r \<and>
                (case st_mtim r of None \<Rightarrow> False | Some t \<Rightarrow> ts_cmp (st_mtime x) t < 0)
             then Inl (Exited ''Target was not updated by rule'')
             else store_target cfg (tgtidx e) x w)"

fun normal_tgts :: "config \<Rightarrow> rule \<Rightarrow> bool \<Rightarrow> bool \<Rightarrow> stirtgt list \<Rightarrow> build \<Rightarrow> build res" where
  "normal_tgts cfg r was seen_pretend [] w = Inr w"
| "normal_tgts cfg r was seen_pretend (e # es) w =
     bind_res (normal_tgt cfg r was seen_pretend e w) (normal_tgts cfg r was seen_pretend es)"

definition record_tgts :: "config \<Rightarrow> nat \<Rightarrow> rule \<Rightarrow> bool \<Rightarrow> build \<Rightarrow> build res" where
  "record_tgts cfg n r was w =
     (if is_detouch r \<and> \<not> dry_run cfg then
        bind_res (detouch_tgts cfg (tgtlist r) None w) (\<lambda>(cap, w).
          case cap of None \<Rightarrow> Inl Aborted | Some cap \<Rightarrow> detouch_deps cfg n cap (deplist r) w)
      else if is_rectgt r \<and> st_mtim r \<noteq> None \<and> \<not> dry_run cfg then
        bind_res (rectgt_deps cfg n r (deplist r) (the (st_mtim r)) w) (\<lambda>t.
          rectgt_tgts cfg t (tgtlist r) w)
      else if \<not> is_phony r \<and> \<not> is_inc r \<and> \<not> dry_run cfg then
        normal_tgts cfg r was
          (\<exists>e \<in> set (tgtlist r). pretend_idx cfg (tgtidx e) PRETEND_VERY_OLD_NO_REMAKE) (tgtlist r) w
      else Inr w)"

fun record_deps :: "config \<Rightarrow> stirdep list \<Rightarrow> build \<Rightarrow> build res" where
  "record_deps cfg [] w = Inr w"
| "record_deps cfg (e # es) w =
     (if is_dupe e then record_deps cfg es w
      else bind_res (lstat_w cfg (nameidx e) w) (\<lambda>(x, w).
        case x of
          None \<Rightarrow> record_deps cfg es w
        | Some x \<Rightarrow> bind_res (store_source cfg (nameidx e) x w) (record_deps cfg es)))"

text \<open>A remade target leaves the caches; a dependency file that was remade is read again and what it
  lists is recorded.\<close>

fun record_names :: "config \<Rightarrow> nat list \<Rightarrow> build \<Rightarrow> build res" where
  "record_names cfg [] w = Inr w"
| "record_names cfg (k # ks) w =
     bind_res (lstat_w cfg k w) (\<lambda>(x, w).
       case x of
         None \<Rightarrow> record_names cfg ks w
       | Some x \<Rightarrow> bind_res (store_source cfg k x w) (record_names cfg ks))"

fun evict_tgts :: "config \<Rightarrow> nat \<Rightarrow> bool \<Rightarrow> stirtgt list \<Rightarrow> build \<Rightarrow> build res" where
  "evict_tgts cfg dir was [] w = Inr w"
| "evict_tgts cfg dir was (e # es) w =
     (let k = tgtidx e;
          w = (if was then w\<lparr> statc := lstat_evict_named (hash cfg) k (statc w),
                              accessc := accesshash_evict_named (hash cfg) k (accessc w) \<rparr> else w);
          w = (if dry_run cfg \<and> was then w\<lparr> remade := insert k (remade w) \<rparr> else w) in
      bind_res
        (if \<not> dry_run cfg \<and> \<not> touchmode cfg \<and> was \<and> is_cdepwatch cfg k then
           (case cdep_read cfg k dir (fs w) of
              None \<Rightarrow> Inr w
            | Some ks \<Rightarrow> bind_res ks (\<lambda>ks. record_names cfg ks w))
         else Inr w)
        (evict_tgts cfg dir was es))"

definition finish_rule :: "config \<Rightarrow> nat \<Rightarrow> nat \<Rightarrow> bool \<Rightarrow> build sched \<Rightarrow> build res" where
  "finish_rule cfg n ruleid was s =
     (let r = rules s ruleid in
      bind_res (record_tgts cfg n r was (world s)) (\<lambda>w.
        bind_res (if \<not> is_inc r \<and> \<not> is_phony r then record_deps cfg (deplist r) w else Inr w) (\<lambda>w.
          evict_tgts cfg (diridx r) was (tgtlist r) w)))"

text \<open>The operations the scheduler is run with, and what saving the databases stores for a rule
  that was actually executed.\<close>

definition access_w :: "config \<Rightarrow> nat \<Rightarrow> build \<Rightarrow> bool \<times> build" where
  "access_w cfg k w =
     (case access_cached (hash cfg) (\<lambda>k. f_access (fs w) (names cfg k)) k (accessc w) of
        Inr (ok, c) \<Rightarrow> (ok, w\<lparr> accessc := c \<rparr>)
      | Inl _ \<Rightarrow> (False, w))"

definition build_ops :: "config \<Rightarrow> nat \<Rightarrow> build ops" where
  "build_ops cfg n = \<lparr> decide = decide_exec cfg n, finish_exec = finish_rule cfg n,
     accessible = access_w cfg \<rparr>"

lemma decide_cmd: "decide_exec cfg n r s = Inr (queue, c, x) \<Longrightarrow> queue \<Longrightarrow> c \<noteq> []"
  by (auto simp: decide_exec_def Let_def stir_simps)

lemma build_ops_ok: "ops_ok UNIV (build_ops cfg n)"
proof -
  have "outcome UNIV (\<lambda>(queue, c, _). queue \<longrightarrow> c \<noteq> []) (decide_exec cfg n r s)" for r s
    using decide_cmd[of cfg n r s] by (cases "decide_exec cfg n r s") auto
  moreover have "outcome UNIV (\<lambda>_. True) x" for x :: "build res" by (cases x) auto
  ultimately show ?thesis by (simp add: ops_ok_def build_ops_def)
qed

section \<open>Well-formed worlds and what a step leaves alone\<close>

definition lst :: "config \<Rightarrow> build \<Rightarrow> nat \<Rightarrow> filestat option" where
  "lst cfg w k = f_lstat (fs w) (names cfg k)"

definition w_ok :: "config \<Rightarrow> build \<Rightarrow> bool" where
  "w_ok cfg w \<longleftrightarrow> cache_ok (hash cfg) (statc w) \<and> coherent (lst cfg w) (statc w)
     \<and> db_ok (hash cfg) (cmddb w) \<and> db_ok (hash cfg) (stampdb w)"

definition stamp :: "config \<Rightarrow> build \<Rightarrow> nat \<Rightarrow> (timespec \<times> int) option" where
  "stamp cfg w k = map_option (\<lambda>e. (ts e, sz e)) (ht_find (hash cfg) (byname (stampdb w)) k)"

text \<open>A decision reads the world and changes no more than the cache and the notes about what was
  seen.\<close>

definition same_world :: "config \<Rightarrow> build \<Rightarrow> build \<Rightarrow> bool" where
  "same_world cfg w w' \<longleftrightarrow> fs w' = fs w \<and> cmddb w' = cmddb w \<and> remade w' = remade w
     \<and> stamp cfg w' = stamp cfg w \<and> w_ok cfg w'"

lemma same_world_refl: "w_ok cfg w \<Longrightarrow> same_world cfg w w"
  by (simp add: same_world_def)

lemma same_world_trans: "same_world cfg w w' \<Longrightarrow> same_world cfg w' w'' \<Longrightarrow> same_world cfg w w''"
  by (simp add: same_world_def)

lemma same_worldD:
  assumes "same_world cfg w w'"
  shows "fs w' = fs w" "cmddb w' = cmddb w" "remade w' = remade w" "stamp cfg w' = stamp cfg w"
    "w_ok cfg w'" "lst cfg w' = lst cfg w"
  using assms by (auto simp: same_world_def lst_def fun_eq_iff)

lemma lstat_w_ok:
  assumes "w_ok cfg w"
  shows "\<exists>w'. lstat_w cfg k w = Inr (lst cfg w k, w') \<and> same_world cfg w w' \<and> stampdb w' = stampdb w"
proof -
  have c: "cache_ok (hash cfg) (statc w)" "coherent (lst cfg w) (statc w)" using assms by (auto simp: w_ok_def)
  obtain c' where c': "cache_get (hash cfg) (lst cfg w) k (statc w) = Inr (lst cfg w k, c')"
    "cache_ok (hash cfg) c'" "coherent (lst cfg w) c'" using cache_get_coherent[OF c] by blast
  have "lst cfg (w\<lparr> statc := c' \<rparr>) = lst cfg w" by (simp add: lst_def fun_eq_iff)
  then have "same_world cfg w (w\<lparr> statc := c' \<rparr>)"
    using c' assms by (simp add: same_world_def stamp_def[abs_def] w_ok_def)
  moreover have "lstat_w cfg k w = Inr (lst cfg w k, w\<lparr> statc := c' \<rparr>)"
    using c'(1) by (simp add: lstat_w_def lstat_cached_def lst_def[abs_def])
  ultimately show ?thesis by auto
qed

lemma tsszequal_w:
  assumes "w_ok cfg w"
  shows "fst (tsszequal_db (hash cfg) k t n b (stampdb w)) \<longleftrightarrow> stamp cfg w k = Some (t, n)"
    "same_world cfg w (w\<lparr> stampdb := snd (tsszequal_db (hash cfg) k t n b (stampdb w)) \<rparr>)"
proof -
  show "fst (tsszequal_db (hash cfg) k t n b (stampdb w)) \<longleftrightarrow> stamp cfg w k = Some (t, n)"
    by (auto simp: tsszequal_db_iff stamp_def)
  let ?w = "w\<lparr> stampdb := snd (tsszequal_db (hash cfg) k t n b (stampdb w)) \<rparr>"
  have d: "db_ok (hash cfg) (stampdb w)" using assms by (simp add: w_ok_def)
  have "lst cfg ?w = lst cfg w" by (simp add: lst_def fun_eq_iff)
  moreover have "stamp cfg ?w = stamp cfg w"
    using tsszequal_db_keeps(3)[OF d] by (simp add: stamp_def fun_eq_iff)
  ultimately show "same_world cfg w ?w"
    using tsszequal_db_keeps(1)[OF d] assms by (simp add: same_world_def w_ok_def)
qed

section \<open>The decision, specified\<close>

definition phony_dep :: "build sched \<Rightarrow> stirdep \<Rightarrow> bool" where
  "phony_dep s e \<longleftrightarrow> (case stirdep_ruleid (st_ruleid s) e of None \<Rightarrow> False | Some d \<Rightarrow> is_phony (rules s d))"

text \<open>A dependency forces the rule to be made.\<close>

definition dep_forces :: "config \<Rightarrow> build sched \<Rightarrow> build \<Rightarrow> stirdep \<Rightarrow> bool" where
  "dep_forces cfg s w e \<longleftrightarrow> \<not> is_dupe e \<and>
     (pretend_idx cfg (nameidx e) PRETEND_MODIFIED \<or> nameidx e \<in> remade w \<or> phony_dep s e \<or>
      \<not> is_recursive e \<and>
      (case lst cfg w (nameidx e) of
         None \<Rightarrow> True
       | Some x \<Rightarrow> \<not> is_orderonly e \<and> usetsdb cfg \<and> stamp cfg w (nameidx e) \<noteq> Some (st_mtime x, st_size x)
                 \<or> st_lnk x \<and> f_stat (fs w) (names cfg (nameidx e)) = None))"

text \<open>The time stamps a dependency brings into the comparison: none for an order-only one and for
  one that is pretended to be old; both stamps of a symbolic link.\<close>

definition dep_stamps :: "config \<Rightarrow> nat \<Rightarrow> build sched \<Rightarrow> rule \<Rightarrow> build \<Rightarrow> stirdep \<Rightarrow> timespec list" where
  "dep_stamps cfg n s r w e =
     (if is_dupe e \<or> phony_dep s e then []
      else if is_recursive e then
        (case rec_mtim cfg r n (fs w) (names cfg (nameidx e)) of Inl _ \<Rightarrow> [] | Inr t \<Rightarrow> [t])
      else case lst cfg w (nameidx e) of
        None \<Rightarrow> []
      | Some x \<Rightarrow>
          if is_orderonly e \<or> pretend_idx cfg (nameidx e) PRETEND_VERY_OLD_NO_REMAKE then []
          else st_mtime x # (if st_lnk x then
            (case f_stat (fs w) (names cfg (nameidx e)) of None \<Rightarrow> [] | Some y \<Rightarrow> [st_mtime y]) else []))"

definition dep_readable :: "config \<Rightarrow> nat \<Rightarrow> build sched \<Rightarrow> rule \<Rightarrow> build \<Rightarrow> stirdep \<Rightarrow> bool" where
  "dep_readable cfg n s r w e \<longleftrightarrow> (is_recursive e \<and> \<not> is_dupe e \<and> \<not> phony_dep s e \<longrightarrow>
       (\<exists>t. rec_mtim cfg r n (fs w) (names cfg (nameidx e)) = Inr t))
     \<and> (\<forall>t \<in> set (dep_stamps cfg n s r w e). epoch \<le> t)"

lemma same_world_spec:
  assumes "same_world cfg w w'"
  shows "dep_forces cfg s w' e = dep_forces cfg s w e"
    "dep_stamps cfg n s r w' e = dep_stamps cfg n s r w e"
    "dep_readable cfg n s r w' e = dep_readable cfg n s r w e"
proof -
  note d = same_worldD[OF assms]
  show "dep_forces cfg s w' e = dep_forces cfg s w e" unfolding dep_forces_def d ..
  show st: "dep_stamps cfg n s r w' e = dep_stamps cfg n s r w e" unfolding dep_stamps_def d ..
  show "dep_readable cfg n s r w' e = dep_readable cfg n s r w e" unfolding dep_readable_def st d ..
qed

lemma take_stamp_new:
  "\<not> was \<longrightarrow> t = epoch \<Longrightarrow> epoch \<le> x \<Longrightarrow> take_stamp False was x t = max t x"
  by (auto simp: take_stamp_def max_def)

lemma take_stamp_old: "take_stamp True was x t = t"
  by (simp add: take_stamp_def)

text \<open>The branches of one iteration.\<close>

definition dep_noted :: "config \<Rightarrow> build \<Rightarrow> stirdep \<Rightarrow> bool" where
  "dep_noted cfg w e \<longleftrightarrow> pretend_idx cfg (nameidx e) PRETEND_MODIFIED \<or> nameidx e \<in> remade w"

lemma dep_step_dupe: "is_dupe e \<Longrightarrow> dep_step cfg n s r e acc = Inr acc"
  by (cases acc) (simp add: dep_step_def)

lemma dep_step_phony:
  "\<not> is_dupe e \<Longrightarrow> phony_dep s e \<Longrightarrow> dep_step cfg n s r e (h, was, t, w) = Inr (True, was, t, w)"
  by (simp add: dep_step_def phony_dep_def)

lemma dep_step_rec:
  "\<not> is_dupe e \<Longrightarrow> \<not> phony_dep s e \<Longrightarrow> is_recursive e \<Longrightarrow>
   rec_mtim cfg r n (fs w) (names cfg (nameidx e)) = Inr x \<Longrightarrow>
   dep_step cfg n s r e (h, was, t, w) = Inr (h \<or> dep_noted cfg w e, True, take_stamp False was x t, w)"
  by (simp add: dep_step_def phony_dep_def dep_noted_def)

lemma dep_step_missing:
  "\<not> is_dupe e \<Longrightarrow> \<not> phony_dep s e \<Longrightarrow> \<not> is_recursive e \<Longrightarrow>
   lstat_w cfg (nameidx e) w = Inr (None, w1) \<Longrightarrow>
   dep_step cfg n s r e (h, was, t, w) = Inr (True, was, t, w1)"
  by (simp add: dep_step_def phony_dep_def)

lemma dep_step_orderonly:
  "\<not> is_dupe e \<Longrightarrow> \<not> phony_dep s e \<Longrightarrow> \<not> is_recursive e \<Longrightarrow> is_orderonly e \<Longrightarrow>
   lstat_w cfg (nameidx e) w = Inr (Some x, w1) \<Longrightarrow>
   dep_step cfg n s r e (h, was, t, w)
     = Inr (h \<or> dep_noted cfg w e \<or> st_lnk x \<and> f_stat (fs w1) (names cfg (nameidx e)) = None, was, t, w1)"
  by (auto simp: dep_step_def phony_dep_def dep_noted_def Let_def split: option.splits)

lemma dep_step_file:
  assumes "\<not> is_dupe e" "\<not> phony_dep s e" "\<not> is_recursive e" "\<not> is_orderonly e"
    and "lstat_w cfg (nameidx e) w = Inr (Some x, w1)"
    and "(eq, db) = (if usetsdb cfg
           then tsszequal_db (hash cfg) (nameidx e) (st_mtime x) (st_size x) False (stampdb w1)
           else (True, stampdb w1))"
    and "old = pretend_idx cfg (nameidx e) PRETEND_VERY_OLD_NO_REMAKE"
  shows "dep_step cfg n s r e (h, was, t, w) =
     (let t1 = take_stamp old was (st_mtime x) t; h1 = (h \<or> dep_noted cfg w e \<or> \<not> eq) in
      if \<not> st_lnk x then Inr (h1, True, t1, w1\<lparr> stampdb := db \<rparr>)
      else case f_stat (fs w1) (names cfg (nameidx e)) of
        None \<Rightarrow> Inr (True, True, t1, w1\<lparr> stampdb := db \<rparr>)
      | Some y \<Rightarrow> Inr (h1, True, take_stamp old True (st_mtime y) t1, w1\<lparr> stampdb := db \<rparr>))"
  using assms(1-5,7)
  by (simp add: dep_step_def phony_dep_def dep_noted_def assms(6)[symmetric] Let_def split: option.splits)

lemma dep_stamps_rec:
  "\<not> is_dupe e \<Longrightarrow> \<not> phony_dep s e \<Longrightarrow> is_recursive e \<Longrightarrow>
   rec_mtim cfg r n (fs w) (names cfg (nameidx e)) = Inr x \<Longrightarrow> dep_stamps cfg n s r w e = [x]"
  by (simp add: dep_stamps_def)

lemma dep_stamps_file:
  "\<not> is_dupe e \<Longrightarrow> \<not> phony_dep s e \<Longrightarrow> \<not> is_recursive e \<Longrightarrow> \<not> is_orderonly e \<Longrightarrow>
   lst cfg w (nameidx e) = Some x \<Longrightarrow>
   dep_stamps cfg n s r w e = (if pretend_idx cfg (nameidx e) PRETEND_VERY_OLD_NO_REMAKE then []
     else if st_lnk x then (case f_stat (fs w) (names cfg (nameidx e)) of
       None \<Rightarrow> [st_mtime x] | Some y \<Rightarrow> [st_mtime x, st_mtime y]) else [st_mtime x])"
  by (simp add: dep_stamps_def split: option.splits)

lemma dep_step_ok:
  assumes w: "w_ok cfg w" and rd: "dep_readable cfg n s r w e" and t: "\<not> was \<longrightarrow> t = epoch" "epoch \<le> t"
  shows "\<exists>was' w'. dep_step cfg n s r e (h, was, t, w)
      = Inr (h \<or> dep_forces cfg s w e, was', fold max (dep_stamps cfg n s r w e) t, w')
    \<and> (\<not> was' \<longrightarrow> fold max (dep_stamps cfg n s r w e) t = epoch) \<and> same_world cfg w w'"
proof -
  let ?k = "nameidx e"
  obtain w1 where w1: "lstat_w cfg ?k w = Inr (lst cfg w ?k, w1)" "same_world cfg w w1"
    using lstat_w_ok[OF w] by blast
  note d1 = same_worldD[OF w1(2)] and same = same_world_refl[OF w]
  consider (dupe) "is_dupe e" | (phony) "\<not> is_dupe e" "phony_dep s e"
    | (recu) "\<not> is_dupe e" "\<not> phony_dep s e" "is_recursive e"
    | (missing) "\<not> is_dupe e" "\<not> phony_dep s e" "\<not> is_recursive e" "lst cfg w ?k = None"
    | (oo) x where "\<not> is_dupe e" "\<not> phony_dep s e" "\<not> is_recursive e" "is_orderonly e" "lst cfg w ?k = Some x"
    | (plain) x where "\<not> is_dupe e" "\<not> phony_dep s e" "\<not> is_recursive e" "\<not> is_orderonly e"
        "lst cfg w ?k = Some x"
    by fastforce
  then show ?thesis
  proof cases
    case dupe
    then show ?thesis using same t by (simp add: dep_step_dupe dep_forces_def dep_stamps_def)
  next
    case phony
    then show ?thesis using same t by (simp add: dep_step_phony dep_forces_def dep_stamps_def)
  next
    case recu
    then obtain x where x: "rec_mtim cfg r n (fs w) (names cfg ?k) = Inr x" "epoch \<le> x"
      using rd dep_stamps_rec[OF recu] by (auto simp: dep_readable_def)
    then show ?thesis using recu same t
      by (auto simp: dep_step_rec dep_forces_def dep_noted_def dep_stamps_rec take_stamp_new max.commute)
  next
    case missing
    then show ?thesis using w1 t by (simp add: dep_step_missing dep_forces_def dep_stamps_def)
  next
    case (oo x)
    then show ?thesis using w1 t d1 
      by (auto simp: dep_step_orderonly dep_forces_def dep_noted_def dep_stamps_def)
  next
    case (plain x)
    let ?old = "pretend_idx cfg ?k PRETEND_VERY_OLD_NO_REMAKE"
    obtain eq db where eqdb: "(eq, db) = (if usetsdb cfg
           then tsszequal_db (hash cfg) ?k (st_mtime x) (st_size x) False (stampdb w1)
           else (True, stampdb w1))" by (metis surj_pair)
    have "same_world cfg w1 (w1\<lparr> stampdb := db \<rparr>)" "eq \<longleftrightarrow> \<not> usetsdb cfg \<or> stamp cfg w ?k = Some (st_mtime x, st_size x)"
      using eqdb tsszequal_w[OF d1(5), of ?k "st_mtime x" "st_size x" False] same_world_refl[OF d1(5)] d1(4)
      by (auto split: if_splits dest: sym)
    then have eq: "eq \<longleftrightarrow> \<not> usetsdb cfg \<or> stamp cfg w ?k = Some (st_mtime x, st_size x)"
      and w2: "same_world cfg w (w1\<lparr> stampdb := db \<rparr>)" using same_world_trans[OF w1(2)] by auto
    have all: "\<forall>t \<in> set (dep_stamps cfg n s r w e). epoch \<le> t" using rd by (simp add: dep_readable_def)
    note ds = dep_stamps_file[OF plain, of n r]
    have in1: "st_mtime x \<in> set (dep_stamps cfg n s r w e)" if "\<not> ?old"
      using that unfolding ds by (cases "f_stat (fs w) (names cfg ?k)") simp_all
    have in2: "st_mtime y \<in> set (dep_stamps cfg n s r w e)"
      if "\<not> ?old" "st_lnk x" "f_stat (fs w) (names cfg ?k) = Some y" for y
      using that unfolding ds by simp
    have ep1: "\<not> ?old \<Longrightarrow> epoch \<le> st_mtime x" using all in1 by blast
    have ep2: "\<not> ?old \<Longrightarrow> st_lnk x \<Longrightarrow> f_stat (fs w) (names cfg ?k) = Some y \<Longrightarrow> epoch \<le> st_mtime y" for y
      using all in2 by blast
    note ep = ep1 ep2
    note step = dep_step_file[OF plain(1-4) w1(1)[unfolded plain(5)] eqdb refl, of n r h was t]
    show ?thesis
    proof (cases "f_stat (fs w) (names cfg ?k)")
      case None
      then show ?thesis using step w2 eq plain ep t d1(1)
        by (cases ?old) (auto simp: dep_forces_def dep_noted_def ds take_stamp_new take_stamp_old
            max.commute Let_def)
    next
      case (Some y)
      then show ?thesis using step w2 eq plain ep t d1(1)
        by (cases ?old) (auto simp: dep_forces_def dep_noted_def ds take_stamp_new take_stamp_old
            max.commute Let_def)
    qed
  qed
qed

lemma epoch_le_fold: "epoch \<le> t \<Longrightarrow> epoch \<le> fold max xs t"
  by (induction xs arbitrary: t) (auto intro: max.coboundedI2)

lemma dep_loop_ok:
  assumes "w_ok cfg w" "\<forall>e \<in> set es. dep_readable cfg n s r w e" "\<not> was \<longrightarrow> t = epoch" "epoch \<le> t"
  shows "\<exists>was' w'. dep_loop cfg n s r es (h, was, t, w)
      = Inr (h \<or> (\<exists>e \<in> set es. dep_forces cfg s w e), was',
             fold max (concat (map (dep_stamps cfg n s r w) es)) t, w')
    \<and> (\<not> was' \<longrightarrow> fold max (concat (map (dep_stamps cfg n s r w) es)) t = epoch) \<and> same_world cfg w w'"
  using assms
proof (induction es arbitrary: h was t w)
  case Nil
  then show ?case by (simp add: same_world_refl)
next
  case (Cons e es)
  let ?t = "fold max (dep_stamps cfg n s r w e) t"
  obtain was1 w1 where 1: "dep_step cfg n s r e (h, was, t, w) = Inr (h \<or> dep_forces cfg s w e, was1, ?t, w1)"
    "\<not> was1 \<longrightarrow> ?t = epoch" "same_world cfg w w1"
    using dep_step_ok[OF Cons.prems(1) _ Cons.prems(3,4), of n s r e h] Cons.prems(2) by (meson list.set_intros(1))
  note eq = same_world_spec[OF 1(3)] and d = same_worldD[OF 1(3)]
  have "\<forall>e \<in> set es. dep_readable cfg n s r w1 e" using Cons.prems(2) eq(3) by simp
  from Cons.IH[OF d(5) this 1(2) epoch_le_fold[OF Cons.prems(4)], of "h \<or> dep_forces cfg s w e"]
  obtain was2 w2 where 2: "dep_loop cfg n s r es (h \<or> dep_forces cfg s w e, was1, ?t, w1)
      = Inr ((h \<or> dep_forces cfg s w e) \<or> (\<exists>e \<in> set es. dep_forces cfg s w e), was2,
             fold max (concat (map (dep_stamps cfg n s r w) es)) ?t, w2)"
    "\<not> was2 \<longrightarrow> fold max (concat (map (dep_stamps cfg n s r w) es)) ?t = epoch" "same_world cfg w1 w2"
    unfolding eq(1) eq(2)[abs_def] by blast
  show ?case using 1(1) 2 same_world_trans[OF 1(3) 2(3)] by auto
qed

text \<open>A target forces the rule to be made.\<close>

definition tgt_forces :: "config \<Rightarrow> nat \<Rightarrow> string list list \<Rightarrow> build \<Rightarrow> stirtgt \<Rightarrow> bool" where
  "tgt_forces cfg dir c w e \<longleftrightarrow> \<not> cmdequal_db (hash cfg) (cmddb w) (tgtidx e) c dir \<or>
     (case lst cfg w (tgtidx e) of
        None \<Rightarrow> True
      | Some x \<Rightarrow> usetsdb cfg \<and> \<not> st_dir x \<and> stamp cfg w (tgtidx e) \<noteq> Some (st_mtime x, st_size x))"

definition tgt_time :: "config \<Rightarrow> build \<Rightarrow> stirtgt \<Rightarrow> timespec" where
  "tgt_time cfg w e = st_mtime (the (lst cfg w (tgtidx e)))"

lemma same_world_tgt:
  assumes "same_world cfg w w'"
  shows "tgt_forces cfg dir c w' e = tgt_forces cfg dir c w e" "tgt_time cfg w' e = tgt_time cfg w e"
  unfolding tgt_forces_def tgt_time_def same_worldD[OF assms] by (rule refl)+

lemma tgt_step_ok:
  assumes w: "w_ok cfg w"
  shows "\<exists>was' t' w'. tgt_step cfg dir c e (h, nr, was, t, w)
      = Inr (h \<or> tgt_forces cfg dir c w e, nr \<or> pretend_idx cfg (tgtidx e) PRETEND_VERY_OLD_NO_REMAKE,
             was', t', w')
    \<and> same_world cfg w w'
    \<and> (\<not> tgt_forces cfg dir c w e \<longrightarrow> was' \<and> (\<forall>T. t' < T \<longleftrightarrow> was \<and> t < T \<or> tgt_time cfg w e < T))"
proof -
  let ?k = "tgtidx e"
  obtain w1 where w1: "lstat_w cfg ?k w = Inr (lst cfg w ?k, w1)" "same_world cfg w w1"
    using lstat_w_ok[OF w] by blast
  note d1 = same_worldD[OF w1(2)]
  show ?thesis
  proof (cases "lst cfg w ?k")
    case None
    then show ?thesis using w1 by (auto simp: tgt_step_def tgt_forces_def)
  next
    case (Some x)
    obtain eq db where eqdb: "(if usetsdb cfg \<and> \<not> st_dir x
           then tsszequal_db (hash cfg) ?k (st_mtime x) (st_size x) True (stampdb w1)
           else (True, stampdb w1)) = (eq, db)" by (metis surj_pair)
    have eq: "eq \<longleftrightarrow> \<not> usetsdb cfg \<or> st_dir x \<or> stamp cfg w ?k = Some (st_mtime x, st_size x)"
      using eqdb tsszequal_w(1)[OF d1(5), of ?k "st_mtime x" "st_size x" True] d1(4)
      by (auto split: if_splits)
    have "db = stampdb w1"
      using eqdb tsszequal_db_target by (metis snd_conv)
    then have w2: "same_world cfg w (w1\<lparr> stampdb := db \<rparr>)" using w1(2) by simp
    have lt: "(if \<not> was \<or> st_mtime x < t then st_mtime x else t) < T
        \<longleftrightarrow> was \<and> t < T \<or> st_mtime x < T" for T
      by auto
    have "tgt_step cfg dir c e (h, nr, was, t, w)
      = (if \<not> eq then Inr (True, nr \<or> pretend_idx cfg ?k PRETEND_VERY_OLD_NO_REMAKE, was, t, w1\<lparr> stampdb := db \<rparr>)
         else Inr (h \<or> \<not> cmdequal_db (hash cfg) (cmddb w) ?k c dir,
           nr \<or> pretend_idx cfg ?k PRETEND_VERY_OLD_NO_REMAKE, True,
           if \<not> was \<or> st_mtime x < t then st_mtime x else t, w1\<lparr> stampdb := db \<rparr>))"
      using w1(1) Some eqdb by (simp add: tgt_step_def Let_def)
    then show ?thesis using eq w2 Some lt by (auto simp: tgt_forces_def tgt_time_def)
  qed
qed

lemma tgt_loop_ok:
  assumes "w_ok cfg w"
  shows "\<exists>was' t' w'. tgt_loop cfg dir c es (h, nr, was, t, w)
      = Inr (h \<or> (\<exists>e \<in> set es. tgt_forces cfg dir c w e),
             nr \<or> (\<exists>e \<in> set es. pretend_idx cfg (tgtidx e) PRETEND_VERY_OLD_NO_REMAKE), was', t', w')
    \<and> same_world cfg w w'
    \<and> (\<not> (\<exists>e \<in> set es. tgt_forces cfg dir c w e) \<longrightarrow>
        was' = (was \<or> es \<noteq> []) \<and>
        (\<forall>T. was' \<and> t' < T \<longleftrightarrow> was \<and> t < T \<or> (\<exists>e \<in> set es. tgt_time cfg w e < T)))"
  using assms
proof (induction es arbitrary: h nr was t w)
  case Nil
  then show ?case by (simp add: same_world_refl)
next
  case (Cons e es)
  let ?h = "h \<or> tgt_forces cfg dir c w e"
  let ?nr = "nr \<or> pretend_idx cfg (tgtidx e) PRETEND_VERY_OLD_NO_REMAKE"
  obtain was1 t1 w1 where 1: "tgt_step cfg dir c e (h, nr, was, t, w) = Inr (?h, ?nr, was1, t1, w1)"
    "same_world cfg w w1"
    "\<not> tgt_forces cfg dir c w e \<longrightarrow> was1 \<and> (\<forall>T. t1 < T \<longleftrightarrow> was \<and> t < T \<or> tgt_time cfg w e < T)"
    using tgt_step_ok[OF Cons.prems, of dir c e h nr was t] by (elim exE conjE) (rule that)
  note eq = same_world_tgt[OF 1(2)]
  obtain was2 t2 w2 where 2: "tgt_loop cfg dir c es (?h, ?nr, was1, t1, w1)
      = Inr (?h \<or> (\<exists>e \<in> set es. tgt_forces cfg dir c w e),
             ?nr \<or> (\<exists>e \<in> set es. pretend_idx cfg (tgtidx e) PRETEND_VERY_OLD_NO_REMAKE), was2, t2, w2)"
    "same_world cfg w1 w2"
    "\<not> (\<exists>e \<in> set es. tgt_forces cfg dir c w e) \<longrightarrow> was2 = (was1 \<or> es \<noteq> []) \<and>
       (\<forall>T. was2 \<and> t2 < T \<longleftrightarrow> was1 \<and> t1 < T \<or> (\<exists>e \<in> set es. tgt_time cfg w e < T))"
    using Cons.IH[OF same_worldD(5)[OF 1(2)], of ?h ?nr was1 t1] unfolding eq by (elim exE conjE) (rule that)
  have run: "tgt_loop cfg dir c (e # es) (h, nr, was, t, w)
      = Inr (h \<or> (\<exists>e \<in> set (e # es). tgt_forces cfg dir c w e),
             nr \<or> (\<exists>e \<in> set (e # es). pretend_idx cfg (tgtidx e) PRETEND_VERY_OLD_NO_REMAKE), was2, t2, w2)"
    using 1(1) 2(1) by auto
  have "was2 = (was \<or> e # es \<noteq> []) \<and>
      (\<forall>T. was2 \<and> t2 < T \<longleftrightarrow> was \<and> t < T \<or> (\<exists>e \<in> set (e # es). tgt_time cfg w e < T))"
    if "\<not> (\<exists>e \<in> set (e # es). tgt_forces cfg dir c w e)"
    using that 1(3) 2(3) by auto
  then show ?case using run same_world_trans[OF 1(2) 2(2)] by blast
qed

section \<open>The decision is right\<close>

text \<open>What a rule needs to be made for, apart from its command being empty: a forcing dependency, a
  forcing target, or a dependency that is newer than some target.\<close>

definition needs_making :: "config \<Rightarrow> nat \<Rightarrow> build sched \<Rightarrow> nat \<Rightarrow> string list list \<Rightarrow> bool" where
  "needs_making cfg n s ruleid c \<longleftrightarrow>
     (let r = rules s ruleid; w = world s in
      unconditional cfg
      \<or> (\<exists>e \<in> set (deplist r). dep_forces cfg s w e)
      \<or> (\<exists>e \<in> set (tgtlist r). tgt_forces cfg (diridx r) c w e)
      \<or> (\<exists>e \<in> set (deplist r). \<exists>x \<in> set (dep_stamps cfg n s r w e). \<exists>e' \<in> set (tgtlist r). tgt_time cfg w e' < x))"

definition newest :: "config \<Rightarrow> nat \<Rightarrow> build sched \<Rightarrow> nat \<Rightarrow> timespec" where
  "newest cfg n s ruleid = fold max (concat (map (dep_stamps cfg n s (rules s ruleid) (world s))
     (deplist (rules s ruleid)))) epoch"

definition plain_rule :: "rule \<Rightarrow> bool" where
  "plain_rule r \<longleftrightarrow> \<not> is_phony r \<and> \<not> is_inc r \<and> deplist r \<noteq> [] \<and> tgtlist r \<noteq> []"

lemma fold_max_less: "(t :: 'a :: linorder) < fold max xs a \<longleftrightarrow> t < a \<or> (\<exists>x \<in> set xs. t < x)"
  by (induction xs arbitrary: a) (auto simp: less_max_iff_disj)

lemma decide_exec_ok:
  assumes w: "w_ok cfg (world s)" and r: "plain_rule (rules s ruleid)" and c: "calc cfg ruleid = Inr c"
    and rd: "\<forall>e \<in> set (deplist (rules s ruleid)). dep_readable cfg n s (rules s ruleid) (world s) e"
    and tt: "\<forall>e \<in> set (tgtlist (rules s ruleid)). lst cfg (world s) (tgtidx e) \<noteq> None \<longrightarrow>
      epoch \<le> tgt_time cfg (world s) e"
  shows "\<exists>seen w'. decide_exec cfg n ruleid s =
      Inr (needs_making cfg n s ruleid c \<and> c \<noteq> [] \<and>
           \<not> (\<exists>e \<in> set (tgtlist (rules s ruleid)). pretend_idx cfg (tgtidx e) PRETEND_VERY_OLD_NO_REMAKE),
           c, if seen then Some (newest cfg n s ruleid) else None, w')
    \<and> (\<not> seen \<longrightarrow> newest cfg n s ruleid = epoch) \<and> same_world cfg (world s) w'"
proof -
  let ?r = "rules s ruleid" and ?w = "world s"
  let ?F = "\<exists>e \<in> set (deplist ?r). dep_forces cfg s ?w e"
  let ?N = "newest cfg n s ruleid"
  obtain seen w1 where 1: "dep_loop cfg n s ?r (deplist ?r) (unconditional cfg, False, epoch, ?w)
      = Inr (unconditional cfg \<or> ?F, seen, ?N, w1)" "\<not> seen \<longrightarrow> ?N = epoch" "same_world cfg ?w w1"
    using dep_loop_ok[OF w rd, of False epoch "unconditional cfg"] by (auto simp: newest_def)
  let ?G = "\<exists>e \<in> set (tgtlist ?r). tgt_forces cfg (diridx ?r) c ?w e"
  let ?nr = "\<exists>e \<in> set (tgtlist ?r). pretend_idx cfg (tgtidx e) PRETEND_VERY_OLD_NO_REMAKE"
  obtain st t w2 where 2: "tgt_loop cfg (diridx ?r) c (tgtlist ?r) (unconditional cfg \<or> ?F, False, False, epoch, w1)
      = Inr ((unconditional cfg \<or> ?F) \<or> ?G, False \<or> ?nr, st, t, w2)" "same_world cfg w1 w2"
    "\<not> ?G \<longrightarrow> st = (False \<or> tgtlist ?r \<noteq> []) \<and>
       (\<forall>T. st \<and> t < T \<longleftrightarrow> False \<and> epoch < T \<or> (\<exists>e \<in> set (tgtlist ?r). tgt_time cfg ?w e < T))"
    using tgt_loop_ok[OF same_worldD(5)[OF 1(3)], of "diridx ?r" c "tgtlist ?r" "unconditional cfg \<or> ?F" False False epoch]
    unfolding same_world_tgt[OF 1(3)] by (elim exE conjE) (rule that)
  have st: "\<not> ?G \<Longrightarrow> st" using 2(3) r by (simp add: plain_rule_def)
  have late: "seen \<and> t < ?N \<longleftrightarrow> (\<exists>e \<in> set (deplist ?r). \<exists>x \<in> set (dep_stamps cfg n s ?r ?w e).
      \<exists>e' \<in> set (tgtlist ?r). tgt_time cfg ?w e' < x)" if "\<not> ?G"
  proof -
    have tt: "\<forall>e \<in> set (tgtlist ?r). epoch \<le> tgt_time cfg ?w e"
    proof
      fix e assume e: "e \<in> set (tgtlist ?r)"
      then have "lst cfg ?w (tgtidx e) \<noteq> None" using that
        by (cases "lst cfg ?w (tgtidx e)") (auto simp: tgt_forces_def)
      then show "epoch \<le> tgt_time cfg ?w e" using tt e by blast
    qed
    have "seen \<and> t < ?N \<longleftrightarrow> (\<exists>e' \<in> set (tgtlist ?r). tgt_time cfg ?w e' < ?N)"
      using 1(2) 2(3) st[OF that] that tt by (metis leD)
    also have "\<dots> \<longleftrightarrow> (\<exists>e \<in> set (deplist ?r). \<exists>x \<in> set (dep_stamps cfg n s ?r ?w e).
      \<exists>e' \<in> set (tgtlist ?r). tgt_time cfg ?w e' < x)"
      using tt unfolding newest_def fold_max_less by (auto dest: leD)
    finally show ?thesis .
  qed
  let ?H = "(unconditional cfg \<or> ?F) \<or> ?G"
  have "decide_exec cfg n ruleid s = Inr ((if ?H then True else seen \<and> t < ?N) \<and> c \<noteq> [] \<and> \<not> ?nr,
      c, if seen then Some ?N else None, w2)"
    using 1(1) 2(1) st r c by (simp add: decide_exec_def plain_rule_def Let_def)
  moreover have "(if ?H then True else seen \<and> t < ?N) = needs_making cfg n s ruleid c"
    using late by (auto simp: needs_making_def Let_def)
  ultimately show ?thesis using 1(2) same_world_trans[OF 1(3) 2(2)] by auto
qed

section \<open>Recording a made rule\<close>

text \<open>While a recipe runs, the cache may hold old entries for the targets of the rule: \<open>w_ok_on K\<close>
  asks for the right entries for the names in \<open>K\<close> only.\<close>

definition w_ok_on :: "nat set \<Rightarrow> config \<Rightarrow> build \<Rightarrow> bool" where
  "w_ok_on K cfg w \<longleftrightarrow> cache_ok (hash cfg) (statc w) \<and> coherent_on K (lst cfg w) (statc w)
     \<and> db_ok (hash cfg) (cmddb w) \<and> db_ok (hash cfg) (stampdb w)"

lemma w_ok_on_UNIV: "w_ok_on UNIV cfg w = w_ok cfg w"
  by (simp add: w_ok_on_def w_ok_def)

definition marked :: "config \<Rightarrow> build \<Rightarrow> nat \<Rightarrow> ((timespec \<times> int) \<times> (timespec \<times> int)) option" where
  "marked cfg w k = map_option (\<lambda>e. ((ts e, sz e), written e)) (ht_find (hash cfg) (byname (stampdb w)) k)"

lemma stamp_marked: "stamp cfg w k = map_option fst (marked cfg w k)"
  by (simp add: stamp_def marked_def option.map_comp o_def)

text \<open>The entry for a file, and what will be written for it, is the file's stamp and size.\<close>

definition good_stamp :: "config \<Rightarrow> build \<Rightarrow> nat \<Rightarrow> bool" where
  "good_stamp cfg w k \<longleftrightarrow>
     marked cfg w k = map_option (\<lambda>x. ((st_mtime x, st_size x), (st_mtime x, st_size x))) (lst cfg w k)"

text \<open>\<open>w'\<close> results from \<open>w\<close> by recording right stamps for names in \<open>S\<close>.\<close>

definition recorded :: "config \<Rightarrow> nat set \<Rightarrow> build \<Rightarrow> build \<Rightarrow> bool" where
  "recorded cfg S w w' \<longleftrightarrow> fs w' = fs w \<and> cmddb w' = cmddb w \<and> remade w' = remade w
     \<and> (\<forall>k. marked cfg w' k = marked cfg w k \<or> k \<in> S \<and> good_stamp cfg w' k)"

lemma recorded_refl [simp]: "recorded cfg S w w"
  by (simp add: recorded_def)

lemma recorded_lst: "recorded cfg S w w' \<Longrightarrow> lst cfg w' = lst cfg w"
  by (auto simp: recorded_def lst_def fun_eq_iff)

lemma recorded_trans:
  assumes "recorded cfg S w w'" "recorded cfg T w' w''"
  shows "recorded cfg (S \<union> T) w w''"
proof -
  have l: "lst cfg w'' = lst cfg w'" using assms(2) by (rule recorded_lst)
  have "marked cfg w'' k = marked cfg w k \<or> k \<in> S \<union> T \<and> good_stamp cfg w'' k" for k
  proof (cases "marked cfg w'' k = marked cfg w' k")
    case True
    then have "good_stamp cfg w'' k = good_stamp cfg w' k" by (simp add: good_stamp_def l)
    then show ?thesis using assms(1) True by (auto simp: recorded_def)
  next
    case False
    then show ?thesis using assms(2) by (auto simp: recorded_def)
  qed
  then show ?thesis using assms by (auto simp: recorded_def)
qed

lemma recorded_mono: "recorded cfg S w w' \<Longrightarrow> S \<subseteq> T \<Longrightarrow> recorded cfg T w w'"
  unfolding recorded_def by blast

lemma recorded_good: "recorded cfg S w w' \<Longrightarrow> good_stamp cfg w k \<Longrightarrow> good_stamp cfg w' k"
proof -
  assume r: "recorded cfg S w w'" and g: "good_stamp cfg w k"
  then have "marked cfg w' k = marked cfg w k \<or> good_stamp cfg w' k" by (auto simp: recorded_def)
  then show ?thesis using g recorded_lst[OF r] by (auto simp: good_stamp_def)
qed

lemma store_target_ok:
  assumes "w_ok_on K cfg w" "lst cfg w k = Some x"
  shows "\<exists>w'. store_target cfg k x w = Inr w' \<and> w_ok_on K cfg w' \<and> recorded cfg {k} w w' \<and> good_stamp cfg w' k"
proof -
  have db: "db_ok (hash cfg) (stampdb w)" using assms by (simp add: w_ok_on_def)
  obtain d where d: "tsszstoretarget (hash cfg) k (st_mtime x) (st_size x) (stampdb w) = Inr d"
    "db_ok (hash cfg) d" "ht_find (hash cfg) (byname d) = (ht_find (hash cfg) (byname (stampdb w)))
        (k \<mapsto> \<lparr> ts = st_mtime x, tsnew = st_mtime x, sz = st_size x, sznew = st_size x, seen = True \<rparr>)"
    using tsszstore_ok[OF db] by blast
  let ?w = "w\<lparr> stampdb := d \<rparr>"
  have l: "lst cfg ?w = lst cfg w" by (simp add: lst_def fun_eq_iff)
  have "marked cfg ?w = (marked cfg w)(k \<mapsto> ((st_mtime x, st_size x), (st_mtime x, st_size x)))"
    using d(3) by (simp add: marked_def written_def fun_eq_iff)
  then have "recorded cfg {k} w ?w" "good_stamp cfg ?w k"
    using assms(2) l by (auto simp: recorded_def good_stamp_def)
  moreover have "w_ok_on K cfg ?w" using assms(1) d(2) l by (simp add: w_ok_on_def)
  ultimately show ?thesis using d(1) by (auto simp: store_target_def)
qed

lemma store_source_eq: "store_source = store_target"
  by (simp add: store_source_def store_target_def tsszstoresource_eq fun_eq_iff)

lemma lstat_w_ok_on:
  assumes "w_ok_on K cfg w" "k \<in> K"
  shows "\<exists>w'. lstat_w cfg k w = Inr (lst cfg w k, w') \<and> w_ok_on K cfg w' \<and> recorded cfg {} w w'"
proof -
  have c: "cache_ok (hash cfg) (statc w)" "coherent_on K (lst cfg w) (statc w)"
    using assms by (auto simp: w_ok_on_def)
  obtain c' where c': "cache_get (hash cfg) (lst cfg w) k (statc w) = Inr (lst cfg w k, c')"
    "cache_ok (hash cfg) c'" "coherent_on K (lst cfg w) c'" using cache_get_coherent_on[OF c assms(2)] by blast
  have "lst cfg (w\<lparr> statc := c' \<rparr>) = lst cfg w" by (simp add: lst_def fun_eq_iff)
  then have "w_ok_on K cfg (w\<lparr> statc := c' \<rparr>)" "recorded cfg {} w (w\<lparr> statc := c' \<rparr>)"
    using c' assms by (simp_all add: w_ok_on_def recorded_def marked_def)
  moreover have "lstat_w cfg k w = Inr (lst cfg w k, w\<lparr> statc := c' \<rparr>)"
    using c'(1) by (simp add: lstat_w_def lstat_cached_def lst_def[abs_def])
  ultimately show ?thesis by auto
qed

lemma normal_tgts_ok:
  assumes "normal_tgts cfg r True False es w = Inr w'" "w_ok_on K cfg w" "\<not> is_maybe r"
  shows "w_ok_on K cfg w' \<and> recorded cfg (tgtidx ` set es) w w'
    \<and> (\<forall>e \<in> set es. lst cfg w (tgtidx e) \<noteq> None \<and> good_stamp cfg w' (tgtidx e)
        \<and> (\<forall>t. st_mtim r = Some t \<longrightarrow> t \<le> tgt_time cfg w e))"
  using assms
proof (induction es arbitrary: w)
  case Nil
  then show ?case by simp
next
  case (Cons e es)
  from Cons.prems(1) obtain w1 where 1: "normal_tgt cfg r True False e w = Inr w1"
    "normal_tgts cfg r True False es w1 = Inr w'" by (auto simp: stir_simps)
  then obtain x where x: "lst cfg w (tgtidx e) = Some x" "\<forall>t. st_mtim r = Some t \<longrightarrow> t \<le> st_mtime x"
    "store_target cfg (tgtidx e) x w = Inr w1"
    using Cons.prems(3) by (auto simp: normal_tgt_def lst_def split: option.splits if_splits)
  then have 2: "w_ok_on K cfg w1" "recorded cfg {tgtidx e} w w1" "good_stamp cfg w1 (tgtidx e)"
    using store_target_ok[OF Cons.prems(2) x(1)] by auto
  note l = recorded_lst[OF 2(2)]
  have 3: "w_ok_on K cfg w'" "recorded cfg (tgtidx ` set es) w1 w'"
    "\<forall>e \<in> set es. lst cfg w (tgtidx e) \<noteq> None \<and> good_stamp cfg w' (tgtidx e)
        \<and> (\<forall>t. st_mtim r = Some t \<longrightarrow> t \<le> tgt_time cfg w e)"
    using Cons.IH[OF 1(2) 2(1) Cons.prems(3)] unfolding l tgt_time_def by auto
  show ?case
    using recorded_trans[OF 2(2) 3(2)] 3(1,3) x recorded_good[OF 3(2) 2(3)] by (simp add: tgt_time_def)
qed

lemma record_deps_ok:
  assumes "w_ok_on K cfg w" "\<forall>e \<in> set es. \<not> is_dupe e \<longrightarrow> nameidx e \<in> K"
  shows "\<exists>w'. record_deps cfg es w = Inr w' \<and> w_ok_on K cfg w'
    \<and> recorded cfg {nameidx e | e. e \<in> set es \<and> \<not> is_dupe e} w w'
    \<and> (\<forall>e \<in> set es. \<not> is_dupe e \<and> lst cfg w (nameidx e) \<noteq> None \<longrightarrow> good_stamp cfg w' (nameidx e))"
  using assms
proof (induction es arbitrary: w)
  case Nil
  then show ?case by simp
next
  case (Cons e es)
  let ?S = "\<lambda>es. {nameidx e | e. e \<in> set es \<and> \<not> is_dupe e}"
  show ?case
  proof (cases "is_dupe e")
    case True
    then have "?S (e # es) = ?S es" by auto
    then show ?thesis using Cons True by simp
  next
    case False
    obtain w1 where w1: "lstat_w cfg (nameidx e) w = Inr (lst cfg w (nameidx e), w1)" "w_ok_on K cfg w1"
      "recorded cfg {} w w1" using lstat_w_ok_on[OF Cons.prems(1)] Cons.prems(2) False by fastforce
    note l1 = recorded_lst[OF w1(3)]
    have "\<exists>w2. w_ok_on K cfg w2 \<and> recorded cfg {nameidx e} w w2
        \<and> (lst cfg w (nameidx e) \<noteq> None \<longrightarrow> good_stamp cfg w2 (nameidx e))
        \<and> record_deps cfg (e # es) w = record_deps cfg es w2"
    proof (cases "lst cfg w (nameidx e)")
      case None
      then show ?thesis using w1 False recorded_mono[OF w1(3)] by auto
    next
      case (Some x)
      then obtain w2 where "store_source cfg (nameidx e) x w1 = Inr w2" "w_ok_on K cfg w2"
        "recorded cfg {nameidx e} w1 w2" "good_stamp cfg w2 (nameidx e)"
        using store_target_ok[OF w1(2), of "nameidx e" x] l1 by (auto simp: store_source_eq)
      then show ?thesis using w1 False Some recorded_trans[OF w1(3)] by fastforce
    qed
    then obtain w2 where w2: "w_ok_on K cfg w2" "recorded cfg {nameidx e} w w2"
      "lst cfg w (nameidx e) \<noteq> None \<longrightarrow> good_stamp cfg w2 (nameidx e)"
      "record_deps cfg (e # es) w = record_deps cfg es w2" by blast
    obtain w' where w': "record_deps cfg es w2 = Inr w'" "w_ok_on K cfg w'" "recorded cfg (?S es) w2 w'"
      "\<forall>e \<in> set es. \<not> is_dupe e \<and> lst cfg w (nameidx e) \<noteq> None \<longrightarrow> good_stamp cfg w' (nameidx e)"
      using Cons.IH[OF w2(1)] Cons.prems(2) recorded_lst[OF w2(2)] by auto
    have "{nameidx e} \<union> ?S es = ?S (e # es)" using False by auto
    then have "recorded cfg (?S (e # es)) w w'" using recorded_trans[OF w2(2) w'(3)] by simp
    then show ?thesis using w' w2(3,4) recorded_good[OF w'(3)] by auto
  qed
qed

lemma evict_tgts_ok:
  assumes "w_ok_on K cfg w" "\<not> dry_run cfg" "\<forall>e \<in> set es. \<not> is_cdepwatch cfg (tgtidx e)"
  shows "\<exists>w'. evict_tgts cfg dir True es w = Inr w' \<and> w_ok_on (K \<union> tgtidx ` set es) cfg w'
    \<and> recorded cfg {} w w'"
  using assms
proof (induction es arbitrary: w K)
  case Nil
  then show ?case by simp
next
  case (Cons e es)
  let ?w = "w\<lparr> statc := lstat_evict_named (hash cfg) (tgtidx e) (statc w),
               accessc := accesshash_evict_named (hash cfg) (tgtidx e) (accessc w) \<rparr>"
  have c: "cache_ok (hash cfg) (statc w)" "coherent_on K (lst cfg w) (statc w)"
    using Cons.prems by (auto simp: w_ok_on_def)
  have l: "lst cfg ?w = lst cfg w" by (simp add: lst_def fun_eq_iff)
  have "w_ok_on (insert (tgtidx e) K) cfg ?w" "recorded cfg {} w ?w"
    using Cons.prems(1) cache_evict_named_ok(1)[OF c(1)] cache_evict_named_coherent_on[OF c] l
    by (auto simp: w_ok_on_def recorded_def lstat_evict_named_def marked_def)
  moreover obtain w' where "evict_tgts cfg dir True es ?w = Inr w'"
    "w_ok_on (insert (tgtidx e) K \<union> tgtidx ` set es) cfg w'" "recorded cfg {} ?w w'"
    using Cons.IH[OF calculation(1)] Cons.prems by auto
  ultimately show ?case using Cons.prems(2,3) recorded_trans[of cfg "{}" w ?w "{}" w'] by simp
qed

text \<open>A rule that is made, neither phony nor with any of the special treatments.\<close>

definition made_rule :: "config \<Rightarrow> rule \<Rightarrow> bool" where
  "made_rule cfg r \<longleftrightarrow> plain_rule r \<and> \<not> is_maybe r \<and> \<not> is_detouch r \<and> \<not> is_rectgt r \<and> \<not> dry_run cfg
     \<and> pretends cfg = [] \<and> (\<forall>e \<in> set (tgtlist r). \<not> is_cdepwatch cfg (tgtidx e))"

lemma pretend_idx_none [simp]: "pretends cfg = [] \<Longrightarrow> \<not> pretend_idx cfg k t"
  by (simp add: pretend_idx_def)

lemma finish_rule_ok:
  assumes fin: "finish_rule cfg n ruleid True s = Inr w'" and r: "made_rule cfg (rules s ruleid)"
    and w: "w_ok_on (- tgtidx ` set (tgtlist (rules s ruleid))) cfg (world s)"
    and acyc: "\<forall>e \<in> set (deplist (rules s ruleid)). nameidx e \<notin> tgtidx ` set (tgtlist (rules s ruleid))"
  shows "w_ok cfg w' \<and> fs w' = fs (world s) \<and> cmddb w' = cmddb (world s) \<and> remade w' = remade (world s)
    \<and> (\<forall>e \<in> set (tgtlist (rules s ruleid)). lst cfg (world s) (tgtidx e) \<noteq> None \<and> good_stamp cfg w' (tgtidx e)
        \<and> (\<forall>t. st_mtim (rules s ruleid) = Some t \<longrightarrow> t \<le> tgt_time cfg (world s) e))
    \<and> (\<forall>e \<in> set (deplist (rules s ruleid)). \<not> is_dupe e \<and> lst cfg (world s) (nameidx e) \<noteq> None
        \<longrightarrow> good_stamp cfg w' (nameidx e))
    \<and> recorded cfg (tgtidx ` set (tgtlist (rules s ruleid)) \<union>
        {nameidx e | e. e \<in> set (deplist (rules s ruleid)) \<and> \<not> is_dupe e}) (world s) w'"
proof -
  let ?r = "rules s ruleid"
  let ?T = "tgtidx ` set (tgtlist ?r)"
  obtain w1 where 1: "normal_tgts cfg ?r True False (tgtlist ?r) (world s) = Inr w1"
    and rest: "bind_res (record_deps cfg (deplist ?r) w1) (evict_tgts cfg (diridx ?r) True (tgtlist ?r)) = Inr w'"
    using fin r by (auto simp: finish_rule_def record_tgts_def made_rule_def plain_rule_def Let_def stir_simps)
  have mb: "\<not> is_maybe ?r" using r by (simp add: made_rule_def)
  note n = normal_tgts_ok[OF 1 w mb]
  then have n1: "w_ok_on (- ?T) cfg w1" "recorded cfg ?T (world s) w1" by auto
  obtain w2 where 2: "record_deps cfg (deplist ?r) w1 = Inr w2" "w_ok_on (- ?T) cfg w2"
    "recorded cfg {nameidx e | e. e \<in> set (deplist ?r) \<and> \<not> is_dupe e} w1 w2"
    "\<forall>e \<in> set (deplist ?r). \<not> is_dupe e \<and> lst cfg w1 (nameidx e) \<noteq> None \<longrightarrow> good_stamp cfg w2 (nameidx e)"
    using record_deps_ok[OF n1(1)] acyc by blast
  have dr: "\<not> dry_run cfg" "\<forall>e \<in> set (tgtlist ?r). \<not> is_cdepwatch cfg (tgtidx e)"
    using r by (auto simp: made_rule_def)
  have w': "w_ok_on (- ?T \<union> ?T) cfg w'" "recorded cfg {} w2 w'"
    using evict_tgts_ok[OF 2(2) dr, of "diridx ?r"] rest 2(1) by auto
  have "w_ok cfg w'" using w'(1) by (simp add: w_ok_on_UNIV Compl_partition2)
  moreover have "fs w' = fs (world s) \<and> cmddb w' = cmddb (world s) \<and> remade w' = remade (world s)"
    using w'(2) 2(3) n1(2) by (simp add: recorded_def)
  moreover have "good_stamp cfg w' k" if "good_stamp cfg w1 k" for k
    using recorded_good[OF w'(2) recorded_good[OF 2(3) that]] .
  moreover have "good_stamp cfg w' k" if "good_stamp cfg w2 k" for k
    using recorded_good[OF w'(2) that] .
  moreover have "recorded cfg (?T \<union> {nameidx e | e. e \<in> set (deplist ?r) \<and> \<not> is_dupe e}) (world s) w'"
    using recorded_trans[OF n1(2) recorded_trans[OF 2(3) w'(2)]] by simp
  ultimately show ?thesis using n 2(4) recorded_lst[OF n1(2)] by simp
qed

end
