(* ===== verification/Escape.thy ===== *)
theory Escape
  imports Stir_Prelude
begin

text \<open>
  The string literals of stirmake's files: \<open>file_escape_string\<close> of \<open>yyutils.c\<close> writes them,
  \<open>dbyy_escape_string\<close> of \<open>dbnonyy.c\<close> and \<open>yy_escape_string\<close>, \<open>yy_escape_string_single\<close> of
  \<open>yyutils.c\<close> read them, \<open>jsonyy_escape_string\<close> of \<open>jsonyyutils.c\<close> reads the JSON variant.

  A C string is the list of its bytes before the NUL.  The readers get the bytes after the opening
  quote; their result is the decoded string with what follows the closing quote, \<open>Inr None\<close> where
  the code returns a null pointer, and \<open>Inl Overread\<close> where it steps over the NUL.
\<close>

abbreviation dquote :: char where "dquote \<equiv> CHR 0x22"
abbreviation squote :: char where "squote \<equiv> CHR 0x27"
abbreviation bslash :: char where "bslash \<equiv> CHR 0x5C"
abbreviation nl :: char where "nl \<equiv> CHR 0x0A"
abbreviation cr :: char where "cr \<equiv> CHR 0x0D"
abbreviation tab_char :: char where "tab_char \<equiv> CHR 0x09"

section \<open>Writing\<close>

text \<open>The table of the bytes that stand for themselves, as \<open>acceptchars_init\<close> leaves it.\<close>

definition acceptchars_init :: "(nat \<Rightarrow> bool) \<Rightarrow> nat \<Rightarrow> bool" where
  "acceptchars_init t =
     (let t = t(34 := False, 39 := False, 92 := False, 10 := False, 13 := False, 9 := False);
          t = (\<lambda>i. if i < 256 \<and> i \<noteq> 34 \<and> i \<noteq> 39 \<and> i \<noteq> 92 then True else t i);
          t = (\<lambda>i. if 128 \<le> i \<and> i < 256 then False else t i);
          t = t(127 := False)
      in (\<lambda>i. if i < 32 then False else t i))"

definition hex_lower :: "nat \<Rightarrow> char" where
  "hex_lower d = (if d < 10 then char_of (48 + d) else char_of (87 + d))"

text \<open>The table of replacements: a hexadecimal escape, overwritten for six characters.\<close>

definition rejectchars :: "nat \<Rightarrow> string" where
  "rejectchars u =
     (if u = 34 then [bslash, dquote] else if u = 39 then [bslash, squote]
      else if u = 92 then [bslash, bslash]
      else if u = 10 then bslash # ''n'' else if u = 13 then bslash # ''r''
      else if u = 9 then bslash # ''t''
      else [bslash, CHR ''x'', hex_lower (u div 16), hex_lower (u mod 16)])"

fun file_escape_string :: "(nat \<Rightarrow> bool) \<Rightarrow> string \<Rightarrow> string" where
  "file_escape_string accept [] = []"
| "file_escape_string accept (c # cs) =
     (if accept (of_char c) then [c] else rejectchars (of_char c)) @ file_escape_string accept cs"

section \<open>strtol with base 16\<close>

definition is_space :: "char \<Rightarrow> bool" where
  "is_space c \<longleftrightarrow> c = CHR '' '' \<or> (9 \<le> (of_char c :: nat) \<and> (of_char c :: nat) \<le> 13)"

definition hexval :: "char \<Rightarrow> nat option" where
  "hexval c =
     (let n = of_char c in
      if 48 \<le> n \<and> n \<le> 57 then Some (n - 48)
      else if 65 \<le> n \<and> n \<le> 70 then Some (n - 55)
      else if 97 \<le> n \<and> n \<le> 102 then Some (n - 87)
      else None)"

fun hex_digits :: "int \<Rightarrow> string \<Rightarrow> int \<times> string" where
  "hex_digits acc [] = (acc, [])"
| "hex_digits acc (c # cs) =
     (case hexval c of None \<Rightarrow> (acc, c # cs) | Some d \<Rightarrow> hex_digits (16 * acc + int d) cs)"

definition is_hex :: "string \<Rightarrow> bool" where
  "is_hex s \<longleftrightarrow> (case s of [] \<Rightarrow> False | c # _ \<Rightarrow> hexval c \<noteq> None)"

text \<open>The value and what follows the number; with no digit the value is 0 and nothing is consumed.\<close>

definition strtol16 :: "string \<Rightarrow> int \<times> string" where
  "strtol16 s =
     (let a = dropWhile is_space s;
          neg = (a \<noteq> [] \<and> hd a = CHR ''-'');
          b = (if a \<noteq> [] \<and> (hd a = CHR ''-'' \<or> hd a = CHR ''+'') then tl a else a);
          d = (if length b > 2 \<and> b ! 0 = CHR ''0'' \<and> (b ! 1 = CHR ''x'' \<or> b ! 1 = CHR ''X'')
                  \<and> is_hex (drop 2 b) then drop 2 b else b)
      in if \<not> is_hex d then (0, s)
         else let (v, rest) = hex_digits 0 d in (if neg then - v else v, rest))"

section \<open>Reading\<close>

definition byte :: "int \<Rightarrow> char" where
  "byte v = char_of (nat (v mod 256))"

text \<open>The UTF-8 bytes of a \<open>uint16_t\<close>.\<close>

definition utf8_16 :: "nat \<Rightarrow> string" where
  "utf8_16 u =
     (if u \<le> 127 then [char_of u]
      else if u \<le> 2047 then [char_of (192 + u div 64), char_of (128 + u mod 64)]
      else [char_of (224 + u div 4096), char_of (128 + u div 64 mod 64), char_of (128 + u mod 64)])"

text \<open>
  One escape sequence: the bytes it stands for and how many bytes after the backslash it takes.  The
  argument holds the bytes after the backslash up to the NUL.
\<close>

definition escape_seq :: "string \<Rightarrow> (string \<times> nat) res" where
  "escape_seq s =
     (case s of
        [] \<Rightarrow> Inl Overread
      | c # cs \<Rightarrow>
          if c = CHR ''x'' then
            let (v, rest) = strtol16 (take 2 cs) in
            if length (take 2 cs) \<noteq> 2 \<or> rest \<noteq> [] then Inl (Exited ''Invalid string unicode escape'')
            else Inr ([byte v], 3)
          else if c = CHR ''u'' then
            let (v, rest) = strtol16 (take 4 cs) in
            if length (take 4 cs) \<noteq> 4 \<or> rest \<noteq> [] then Inl (Exited ''Invalid string unicode escape'')
            else Inr (utf8_16 (nat (v mod 65536)), 5)
          else if c = CHR ''t'' then Inr ([tab_char], 1)
          else if c = CHR ''r'' then Inr ([cr], 1)
          else if c = CHR ''n'' then Inr ([nl], 1)
          else Inr ([c], 1))"

text \<open>
  The loop.  \<open>k\<close> counts the copies left in the unrolled body: at the head of the loop (\<open>k = 0\<close>) the NUL
  is tested, inside the body it is not.
\<close>

function unescape :: "char \<Rightarrow> nat \<Rightarrow> string \<Rightarrow> (string \<times> string) option res" where
  "unescape q k [] = (if k = 0 then Inr None else Inl Overread)"
| "unescape q k (c # cs) =
     (if k > 0 \<and> c \<noteq> bslash \<and> c \<noteq> q then
        bind_res (unescape q (k - 1) cs) (\<lambda>r. Inr (map_option (apfst (Cons c)) r))
      else if c = q then Inr (Some ([], cs))
      else if c \<noteq> bslash then
        bind_res (unescape q 7 cs) (\<lambda>r. Inr (map_option (apfst (Cons c)) r))
      else bind_res (escape_seq cs) (\<lambda>(out, m).
        bind_res (unescape q 0 (drop m cs)) (\<lambda>r. Inr (map_option (apfst ((@) out)) r))))"
  by pat_completeness auto
termination
  by (relation "measure (\<lambda>(q, k, s). length s)") auto

definition dbyy_escape_string :: "string \<Rightarrow> (string \<times> string) option res" where
  "dbyy_escape_string orig = unescape dquote 0 orig"

definition yy_escape_string :: "string \<Rightarrow> (string \<times> string) option res" where
  "yy_escape_string orig = unescape dquote 0 orig"

definition yy_escape_string_single :: "string \<Rightarrow> (string \<times> string) option res" where
  "yy_escape_string_single orig = unescape squote 0 orig"

section \<open>Round trip\<close>

definition accepted :: "nat \<Rightarrow> bool" where
  "accepted = acceptchars_init (\<lambda>_. False)"

lemma accepted_iff: "accepted u \<longleftrightarrow> 32 \<le> u \<and> u < 127 \<and> u \<noteq> 34 \<and> u \<noteq> 39 \<and> u \<noteq> 92"
  by (auto simp: accepted_def acceptchars_init_def)

lemma hexval_lower: "d < 16 \<Longrightarrow> hexval (hex_lower d) = Some d"
  by (auto simp: hexval_def hex_lower_def Let_def of_char_of)

lemma hex_lower_other:
  assumes "d < 16"
  shows "\<not> is_space (hex_lower d)" "hex_lower d \<noteq> CHR ''-''" "hex_lower d \<noteq> CHR ''+''"
proof -
  have "hex_lower d = char_of (48 + d) \<and> d < 10 \<or> hex_lower d = char_of (87 + d)"
    by (simp add: hex_lower_def)
  then have n: "of_char (hex_lower d) = (if d < 10 then 48 + d else 87 + d :: nat)"
    using assms by (auto simp: hex_lower_def of_char_of)
  have h: "hexval (hex_lower d) = Some d" using assms by (rule hexval_lower)
  show "hex_lower d \<noteq> CHR ''-''" "hex_lower d \<noteq> CHR ''+''" using h by (auto simp: hexval_def)
  show "\<not> is_space (hex_lower d)" using h n by (auto simp: is_space_def hexval_def)
qed

lemma strtol16_two:
  assumes "a < 16" "b < 16"
  shows "strtol16 [hex_lower a, hex_lower b] = (int (16 * a + b), [])"
  using assms hex_lower_other[of a] hexval_lower[of a] hexval_lower[of b]
  by (simp add: strtol16_def is_hex_def Let_def)

lemma escape_seq_hex:
  assumes "u < 256"
  shows "escape_seq (CHR ''x'' # hex_lower (u div 16) # hex_lower (u mod 16) # s) = Inr ([char_of u], 3)"
proof -
  have "u div 16 < 16" "u mod 16 < 16" using assms by auto
  then have "strtol16 [hex_lower (u div 16), hex_lower (u mod 16)] = (int (16 * (u div 16) + u mod 16), [])"
    by (rule strtol16_two)
  then show ?thesis using assms by (simp add: escape_seq_def byte_def Let_def)
qed

lemma unescape_bslash:
  "q \<noteq> bslash \<Longrightarrow> unescape q k (bslash # cs) = bind_res (escape_seq cs) (\<lambda>(out, m).
     bind_res (unescape q 0 (drop m cs)) (\<lambda>r. Inr (map_option (apfst ((@) out)) r)))"
  by simp

lemma unescape_plain:
  "c \<noteq> bslash \<Longrightarrow> c \<noteq> q \<Longrightarrow>
   unescape q k (c # cs) = bind_res (unescape q (if k > 0 then k - 1 else 7) cs)
     (\<lambda>r. Inr (map_option (apfst (Cons c)) r))"
  by simp

lemma of_char_eqs:
  "of_char c = (34 :: nat) \<Longrightarrow> c = dquote" "of_char c = (39 :: nat) \<Longrightarrow> c = squote"
  "of_char c = (92 :: nat) \<Longrightarrow> c = bslash" "of_char c = (9 :: nat) \<Longrightarrow> c = tab_char"
  "of_char c = (10 :: nat) \<Longrightarrow> c = nl" "of_char c = (13 :: nat) \<Longrightarrow> c = cr"
  by (rule of_char_eq_iff[where ?'a = nat, THEN iffD1], simp)+

lemma app_single [simp]: "(@) [x] = (#) x"
  by (simp add: fun_eq_iff)

lemma unescape_rejected:
  assumes "q = dquote \<or> q = squote"
  shows "unescape q k (rejectchars (of_char c) @ s) = bind_res (unescape q 0 s)
     (\<lambda>r. Inr (map_option (apfst (Cons c)) r))"
proof -
  have q: "q \<noteq> bslash" using assms by auto
  have u: "(of_char c :: nat) < 256" by simp
  consider "of_char c \<in> {34, 39, 92 :: nat}" | "of_char c \<in> {9, 10, 13 :: nat}"
    | "rejectchars (of_char c) = [bslash, CHR ''x'', hex_lower (of_char c div 16), hex_lower (of_char c mod 16)]"
    unfolding rejectchars_def by (cases "of_char c \<in> {34, 39, 92, 10, 13, 9 :: nat}") auto
  then show ?thesis
  proof cases
    case 1
    then have "c = dquote \<or> c = squote \<or> c = bslash" by (auto dest: of_char_eqs)
    then show ?thesis by (auto simp: rejectchars_def unescape_bslash[OF q] escape_seq_def
        simp del: unescape.simps)
  next
    case 2
    then have "c = tab_char \<or> c = nl \<or> c = cr" by (auto dest: of_char_eqs)
    then show ?thesis by (auto simp: rejectchars_def unescape_bslash[OF q] escape_seq_def
        simp del: unescape.simps)
  next
    case 3
    then show ?thesis by (simp add: unescape_bslash[OF q] escape_seq_hex[OF u] del: unescape.simps)
  qed
qed

lemma unescape_file_escape:
  assumes "q = dquote \<or> q = squote"
  shows "unescape q k (file_escape_string accepted s @ q # rest) = Inr (Some (s, rest))"
proof (induction s arbitrary: k)
  case Nil
  then show ?case by simp
next
  case (Cons c cs)
  show ?case
  proof (cases "accepted (of_char c)")
    case True
    then have "c \<noteq> bslash" "c \<noteq> q" using assms by (auto simp: accepted_iff)
    then show ?thesis using True Cons.IH by (simp add: unescape_plain del: unescape.simps)
  next
    case False
    then show ?thesis using Cons.IH by (simp add: unescape_rejected[OF assms] del: unescape.simps)
  qed
qed

text \<open>C23: what \<open>file_escape_string\<close> writes between double quotes, \<open>dbyy_escape_string\<close> reads back: every
  byte string comes back unchanged, nothing after the closing quote is touched, and the unrolled
  loop never runs past the end.\<close>

theorem escape_roundtrip:
  "dbyy_escape_string (file_escape_string (acceptchars_init (\<lambda>_. False)) s @ dquote # rest)
     = Inr (Some (s, rest))"
  unfolding dbyy_escape_string_def accepted_def[symmetric] by (rule unescape_file_escape) simp

text \<open>The escaped text stays on one line and holds only printable bytes.\<close>

lemma file_escape_printable:
  "set (file_escape_string accepted s) \<subseteq> {c. 32 \<le> (of_char c :: nat) \<and> (of_char c :: nat) < 127}"
proof (induction s)
  case (Cons c cs)
  have h: "32 \<le> (of_char (hex_lower d) :: nat) \<and> (of_char (hex_lower d) :: nat) < 127" if "d < 16" for d
    using that by (auto simp: hex_lower_def of_char_of)
  have "(of_char c :: nat) < 256" by simp
  then have "(of_char c :: nat) div 16 < 16" "(of_char c :: nat) mod 16 < 16"
    by linarith auto
  note h[OF this(1)] h[OF this(2)]
  then have "set (rejectchars (of_char c)) \<subseteq> {c. 32 \<le> (of_char c :: nat) \<and> (of_char c :: nat) < 127}"
    by (auto simp: rejectchars_def)
  then show ?case using Cons by (auto simp: accepted_iff)
qed simp

text \<open>
  On an unterminated literal the unrolled copy loop steps over the terminating NUL: seven
  plain bytes after the first are copied without a test.  A literal of one plain byte without a
  closing quote already makes the code read outside its buffer instead of returning the null
  pointer it returns for an empty one.
\<close>

theorem unterminated_overread:
  "yy_escape_string ''a'' = Inl Overread \<and> dbyy_escape_string ''a'' = Inl Overread \<and>
   yy_escape_string [] = Inr None"
  by (simp add: yy_escape_string_def dbyy_escape_string_def)

end
