(* ===== verification/Getline.thy ===== *)
theory Getline
  imports Escape
begin

text \<open>
  \<open>mygetline.c\<close>: reading a file line by line into a buffer that grows by doubling.  The file is the
  list of the bytes still to be read.  \<open>fgets\<close> is the C library's: it reads at most one byte less than
  the size it is given, up to and including a newline, and returns a null pointer only when nothing
  could be read.
\<close>

section \<open>The C library\<close>

text \<open>The bytes read and the rest of the file.\<close>

fun fgets :: "nat \<Rightarrow> string \<Rightarrow> string \<times> string" where
  "fgets 0 f = ([], f)"
| "fgets (Suc n) [] = ([], [])"
| "fgets (Suc n) (c # f) = (if c = nl then ([c], f) else apfst (Cons c) (fgets n f))"

definition strlen :: "string \<Rightarrow> nat" where
  "strlen s = length (takeWhile (\<lambda>c. c \<noteq> CHR 0x00) s)"

lemma fgets_append: "fst (fgets n f) @ snd (fgets n f) = f"
  by (induction n f rule: fgets.induct) (auto simp: apfst_def map_prod_def split: prod.splits)

lemma fgets_length: "length (fst (fgets n f)) \<le> n"
  by (induction n f rule: fgets.induct) (auto split: prod.splits)

lemma fgets_split: "fgets n f = (a, b) \<Longrightarrow> f = a @ b \<and> length a \<le> n"
  using fgets_append[of n f] fgets_length[of n f] by simp

section \<open>mygetline\<close>

text \<open>
  The loop of \<open>mygetline\<close>: \<open>cap\<close> is \<open>*n\<close>, \<open>line\<close> what is in the buffer before \<open>off\<close>.  The result is
  \<open>None\<close> for \<open>-1\<close>, else the line, with the new capacity and the rest of the file.  With room for
  the NUL only, \<open>fgets\<close> reads nothing and the buffer doubles; less room than that never occurs.
\<close>

function getline_loop :: "nat \<Rightarrow> string \<Rightarrow> string \<Rightarrow> string option \<times> nat \<times> string" where
  "getline_loop cap line f =
     (let off = length line; (chunk, f') = fgets (cap - off - 1) f in
      if cap \<le> off + 1 then
        getline_loop (max 1024 (max (off + 2) (2 * cap))) line f
      else if chunk = [] then (if off \<noteq> 0 then Some line else None, cap, f')
      else let len = strlen chunk in
        if len \<noteq> 0 \<and> chunk ! (len - 1) = nl then (Some (line @ take len chunk), cap, f')
        else if len < cap - off - 1 then (Some (line @ take len chunk), cap, f')
        else getline_loop (max 1024 (2 * cap)) (line @ take len chunk) f')"
  by pat_completeness auto
termination
proof (relation "measure (\<lambda>(cap, line, f). 2 * length f + (if cap \<le> length line + 1 then 1 else 0))", goal_cases)
  case 1
  then show ?case by simp
next
  case (2 cap line f off p chunk f')
  then show ?case by auto
next
  case (3 cap line f off p chunk f' len)
  then have f: "f = chunk @ f'" using fgets_split by (metis prod.collapse)
  have "length chunk > 0" using 3 by simp
  then show ?case using f by auto
qed

declare getline_loop.simps [simp del]

definition mygetline :: "nat \<Rightarrow> string \<Rightarrow> string option \<times> nat \<times> string" where
  "mygetline n f = getline_loop (if n = 0 then 1024 else n) [] f"

section \<open>The specification\<close>

fun first_line :: "string \<Rightarrow> string" where
  "first_line [] = []"
| "first_line (c # f) = (if c = nl then [nl] else c # first_line f)"

fun after_line :: "string \<Rightarrow> string" where
  "after_line [] = []"
| "after_line (c # f) = (if c = nl then f else after_line f)"

lemma first_after_line: "first_line f @ after_line f = f"
  by (induction f) auto

lemma after_line_length: "f \<noteq> [] \<Longrightarrow> length (after_line f) < length f"
proof (induction f)
  case (Cons c f)
  then show ?case by (cases f) auto
qed simp

lemma first_line_Nil [simp]: "first_line f = [] \<longleftrightarrow> f = []"
  by (cases f) auto

lemma first_line_set: "set (first_line f) \<subseteq> set f"
  by (induction f) auto

lemma first_line_end:
  "first_line f \<noteq> [] \<Longrightarrow> last (first_line f) \<noteq> nl \<Longrightarrow> after_line f = [] \<and> first_line f = f"
  by (induction f) (auto split: if_splits)

lemma fgets_line:
  "fgets n f = (if length (first_line f) \<le> n then (first_line f, after_line f) else (take n f, drop n f))"
  by (induction n f rule: fgets.induct) auto

lemma fgets_short:
  assumes "\<not> length (first_line f) \<le> n"
  shows "first_line f = take n f @ first_line (drop n f)" "after_line f = after_line (drop n f)"
    "n < length f" "first_line (drop n f) \<noteq> []"
    "nl \<notin> set (take n f)"
  using assms
proof (induction f arbitrary: n)
  case (Cons c f)
  {
    case 1
    then show ?case using Cons.IH(1)[of "n - 1"] by (cases n) (auto split: if_splits)
  next
    case 2
    then show ?case using Cons.IH(2)[of "n - 1"] by (cases n) (auto split: if_splits)
  next
    case 3
    then show ?case using Cons.IH(3)[of "n - 1"] by (cases n) (auto split: if_splits)
  next
    case 4
    then show ?case using Cons.IH(4)[of "n - 1"] by (cases n) (auto split: if_splits)
  next
    case 5
    then show ?case using Cons.IH(5)[of "n - 1"] by (cases n) (auto split: if_splits)
  }
qed simp_all

lemma strlen_all: "CHR 0x00 \<notin> set s \<Longrightarrow> strlen s = length s"
  unfolding strlen_def by (subst takeWhile_eq_all_conv[THEN iffD2]) auto

lemma getline_loop_ok:
  assumes "CHR 0x00 \<notin> set f"
  shows "\<exists>cap'. getline_loop cap line f =
    ((if line @ f = [] then None else Some (line @ first_line f)), cap', after_line f)"
  using assms
proof (induction cap line f rule: getline_loop.induct)
  case (1 cap line f)
  let ?m = "cap - length line - 1"
  obtain chunk f' where ch: "fgets ?m f = (chunk, f')" by fastforce
  have nul: "CHR 0x00 \<notin> set chunk" "CHR 0x00 \<notin> set f'" using fgets_split[OF ch] "1.prems" by auto
  note eq = getline_loop.simps[of cap line f]
  show ?case
  proof (cases "cap \<le> length line + 1")
    case True
    then show ?thesis using 1(1)[OF refl ch[symmetric] refl True "1.prems"] ch by (subst eq) (simp add: Let_def)
  next
    case small: False
    have sl: "strlen chunk = length chunk" using strlen_all[OF nul(1)] .
    show ?thesis
    proof (cases "length (first_line f) \<le> ?m")
      case fits: True
      then have c: "chunk = first_line f" "f' = after_line f" using ch by (auto simp: fgets_line)
      show ?thesis
      proof (cases "f = []")
        case True
        then show ?thesis using small ch c by (subst eq) (simp add: Let_def)
      next
        case False
        then have ne: "chunk \<noteq> []" using c by simp
        show ?thesis
        proof (cases "last chunk = nl \<or> length chunk < ?m")
          case True
          then show ?thesis using small ch c ne False sl
            by (subst eq) (auto simp: Let_def last_conv_nth)
        next
          case cont: False
          then have e: "after_line f = []" "first_line f = f" using first_line_end ne c by blast+
          have lp: "getline_loop cap line f = getline_loop (max 1024 (2 * cap)) (line @ chunk) f'"
            using cont small ch ne sl by (subst eq) (simp add: Let_def last_conv_nth)
          have "\<exists>cap'. getline_loop (max 1024 (2 * cap)) (line @ take (strlen chunk) chunk) f' =
              ((if (line @ take (strlen chunk) chunk) @ f' = [] then None
                else Some ((line @ take (strlen chunk) chunk) @ first_line f')), cap', after_line f')"
            using 1(2)[OF refl ch[symmetric] refl small ne refl _ _ nul(2)] cont ne sl
            by (simp add: last_conv_nth)
          then show ?thesis using lp ne sl c e by simp
        qed
      qed
    next
      case False
      then have c: "chunk = take ?m f" "f' = drop ?m f" using ch by (auto simp: fgets_line)
      note s = fgets_short[OF False]
      have ne: "chunk \<noteq> []" "length chunk = ?m" using c s(3) small by auto
      have nonl: "chunk ! (length chunk - 1) \<noteq> nl" using s(5) c ne(1) by (metis last_conv_nth last_in_set)
      have lp: "getline_loop cap line f = getline_loop (max 1024 (2 * cap)) (line @ chunk) f'"
        using small ch ne sl nonl by (subst eq) (simp add: Let_def)
      have "\<exists>cap'. getline_loop (max 1024 (2 * cap)) (line @ take (strlen chunk) chunk) f' =
          ((if (line @ take (strlen chunk) chunk) @ f' = [] then None
            else Some ((line @ take (strlen chunk) chunk) @ first_line f')), cap', after_line f')"
        using 1(2)[OF refl ch[symmetric] refl small ne(1) refl _ _ nul(2)] ne sl nonl by simp
      then show ?thesis using lp ne sl c s by auto
    qed
  qed
qed

text \<open>\<open>mygetline\<close> always returns, and for a file without NUL bytes it returns exactly the next line
  with its newline, whatever the size of the buffer it is given and however often it has to grow,
  leaves the rest of the file, and reports the end of the file only there.\<close>

theorem mygetline_line:
  assumes "CHR 0x00 \<notin> set f"
  shows "\<exists>cap'. mygetline n f = ((if f = [] then None else Some (first_line f)), cap', after_line f)"
  using getline_loop_ok[OF assms, of "if n = 0 then 1024 else n" "[]"]
  unfolding mygetline_def by (simp only: append_Nil)

theorem mygetline_line_witness:
  "\<exists>cap'. mygetline 3 (''abcdefg'' @ [nl] @ ''h'') = (Some (''abcdefg'' @ [nl]), cap', ''h'')"
  using mygetline_line[of "''abcdefg'' @ [nl] @ ''h''" 3] by simp

section \<open>All lines of a file\<close>

text \<open>The loop \<open>while ((nread = mygetline(&lineptr, &n, f)) >= 0)\<close> of the two parsers, bounded by the
  length of the file.\<close>

fun read_lines :: "nat \<Rightarrow> nat \<Rightarrow> string \<Rightarrow> string list res" where
  "read_lines 0 n f = Inl NoFuel"
| "read_lines (Suc fuel) n f =
     (case mygetline n f of
        (None, n', f') \<Rightarrow> Inr []
      | (Some l, n', f') \<Rightarrow> bind_res (read_lines fuel n' f') (\<lambda>ls. Inr (l # ls)))"

function lines_of :: "string \<Rightarrow> string list" where
  "lines_of f = (if f = [] then [] else first_line f # lines_of (after_line f))"
  by pat_completeness auto
termination by (relation "measure length") (auto simp: after_line_length)

declare lines_of.simps [simp del]

lemma read_lines_ok: "CHR 0x00 \<notin> set f \<Longrightarrow> length f < fuel \<Longrightarrow> read_lines fuel n f = Inr (lines_of f)"
proof (induction fuel arbitrary: n f)
  case (Suc fuel)
  obtain cap' where g: "mygetline n f = ((if f = [] then None else Some (first_line f)), cap', after_line f)"
    using getline_loop_ok[OF Suc.prems(1), of "if n = 0 then 1024 else n" "[]"] unfolding mygetline_def by auto
  show ?case
  proof (cases "f = []")
    case True
    then show ?thesis using g by (simp add: lines_of.simps)
  next
    case False
    have "set (after_line f) \<subseteq> set f" by (metis first_after_line set_append Un_upper2)
    then have "read_lines fuel cap' (after_line f) = Inr (lines_of (after_line f))"
      using Suc.IH[of "after_line f" cap'] Suc.prems after_line_length[OF False] by auto
    then show ?thesis using g False by (subst lines_of.simps) simp
  qed
qed simp

lemma lines_of_Nil [simp]: "lines_of [] = []"
  by (simp add: lines_of.simps)

lemma first_line_append [simp]: "nl \<notin> set a \<Longrightarrow> first_line (a @ nl # b) = a @ [nl]"
  by (induction a) auto

lemma after_line_append [simp]: "nl \<notin> set a \<Longrightarrow> after_line (a @ nl # b) = b"
  by (induction a) auto

lemma lines_of_line: "nl \<notin> set a \<Longrightarrow> lines_of (a @ nl # b) = (a @ [nl]) # lines_of b"
  by (subst lines_of.simps) simp

end
