(* ===== verification/Db_File.thy ===== *)
theory Db_File
  imports Getline Database
begin

text \<open>
  The file \<open>.stir.db\<close>: how \<open>merge_db_v1\<close> and \<open>merge_db_v2\<close> of \<open>stirmake.c\<close> bring the databases up to
  date after a build and write them, and how \<open>dbyymineparse\<close> of \<open>dbnonyy.c\<close> with the helpers of
  \<open>dbyy.h\<close> reads them back into \<open>dbyy_cmdfn\<close> and \<open>dbyy_tsfn\<close>.

  The string table is a pair of functions, \<open>names\<close> from the index to the string and \<open>st_add\<close> back.
\<close>

section \<open>Decimal numbers\<close>

fun dec :: "nat \<Rightarrow> string" where
  "dec n = (if n < 10 then [char_of (48 + n)] else dec (n div 10) @ [char_of (48 + n mod 10)])"

declare dec.simps [simp del]

text \<open>\<open>printf("%lld", i)\<close>.\<close>

definition print_ll :: "int \<Rightarrow> string" where
  "print_ll i = (if i < 0 then CHR ''-'' # dec (nat (- i)) else dec (nat i))"

definition isdigit :: "char \<Rightarrow> bool" where
  "isdigit c \<longleftrightarrow> 48 \<le> (of_char c :: nat) \<and> (of_char c :: nat) \<le> 57"

fun dec_digits :: "int \<Rightarrow> string \<Rightarrow> int \<times> string" where
  "dec_digits acc [] = (acc, [])"
| "dec_digits acc (c # cs) =
     (if isdigit c then dec_digits (10 * acc + (of_char c - 48)) cs else (acc, c # cs))"

text \<open>\<open>strtoll\<close> with base 10 on a text that starts with a digit; it saturates.\<close>

definition LLONG_MAX :: int where "LLONG_MAX = 2 ^ 63 - 1"

definition strtoll10 :: "string \<Rightarrow> int \<times> string" where
  "strtoll10 s = (let (v, rest) = dec_digits 0 s in (min v LLONG_MAX, rest))"

section \<open>The parser\<close>

text \<open>\<open>struct dbyy\<close>: the current rule and the commands gathered for it.\<close>

record dbyy =
  dbyy_rule :: "(string \<times> string) option"
  dbyy_cmds :: "string list list"

text \<open>The calls of the two callbacks.\<close>

datatype dbyy_event = Cmd_Fn string string "string list list" | Ts_Fn string int int int

definition dbyy_add_cmd :: "dbyy \<Rightarrow> dbyy" where
  "dbyy_add_cmd d = d\<lparr> dbyy_cmds := dbyy_cmds d @ [[]] \<rparr>"

definition dbyy_add_arg :: "string \<Rightarrow> dbyy \<Rightarrow> dbyy" where
  "dbyy_add_arg arg d = d\<lparr> dbyy_cmds := butlast (dbyy_cmds d) @
     [last (dbyy_cmds d) @ [takeWhile (\<lambda>c. c \<noteq> CHR 0x00) arg]] \<rparr>"

definition dbyy_post_cmds :: "dbyy \<Rightarrow> dbyy_event res" where
  "dbyy_post_cmds d =
     (case dbyy_rule d of None \<Rightarrow> Inl Overread | Some (dir, tgt) \<Rightarrow> Inr (Cmd_Fn dir tgt (dbyy_cmds d)))"

definition dbyy_emplace_rule :: "string \<Rightarrow> string \<Rightarrow> dbyy \<Rightarrow> dbyy" where
  "dbyy_emplace_rule dir tgt d = d\<lparr> dbyy_cmds := [], dbyy_rule := Some (dir, tgt) \<rparr>"

fun whitespacespn :: "string \<Rightarrow> nat" where
  "whitespacespn [] = 0"
| "whitespacespn (c # s) = (if c \<noteq> CHR '' '' \<and> c \<noteq> tab_char then 0 else Suc (whitespacespn s))"

definition skip_ws :: "string \<Rightarrow> string" where
  "skip_ws s = drop (whitespacespn s) s"

record line_state =
  first_string :: "string option"
  two_strings_already :: bool
  colon :: bool
  nums :: "int list"
  dy :: dbyy
  events :: "dbyy_event list"

text \<open>The end of a line.\<close>

definition end_line :: "bool \<Rightarrow> line_state \<Rightarrow> line_state option res" where
  "end_line is_cmd st =
     (if is_cmd then Inr (Some st)
      else if length (nums st) = 3 then
        (case first_string st of
           None \<Rightarrow> Inl Overread
         | Some t \<Rightarrow> Inr (Some (st\<lparr> events := events st @ [Ts_Fn t (nums st ! 0) (nums st ! 1) (nums st ! 2)],
                                  first_string := None \<rparr>)))
      else if first_string st = None \<and> nums st = [] then Inr (Some st)
      else if \<not> two_strings_already st \<or> \<not> colon st then Inr None
      else Inr (Some st))"

definition take_string :: "bool \<Rightarrow> string \<Rightarrow> line_state \<Rightarrow> line_state" where
  "take_string is_cmd str st =
     (if \<not> is_cmd then
        (case first_string st of
           Some d \<Rightarrow> st\<lparr> dy := dbyy_emplace_rule d str (dy st), first_string := None, two_strings_already := True \<rparr>
         | None \<Rightarrow> st\<lparr> first_string := Some str \<rparr>)
      else st\<lparr> dy := dbyy_add_arg str (dy st) \<rparr>)"

lemma unescape_length: "unescape q k s = Inr (Some (a, r)) \<Longrightarrow> length r < length s"
proof (induction "length s" arbitrary: q k s a r rule: less_induct)
  case less
  show ?case
  proof (cases s)
    case Nil
    then show ?thesis using less.prems by (simp split: if_splits)
  next
    case (Cons c cs)
    have IH: "\<And>q k s' a r. length s' \<le> length cs \<Longrightarrow> unescape q k s' = Inr (Some (a, r)) \<Longrightarrow>
        length r < Suc (length cs)"
    proof -
      fix q k s' a r
      assume s': "length s' \<le> length cs" and u: "unescape q k s' = Inr (Some (a, r))"
      then have "length s' < length s" using Cons by simp
      from less.hyps[OF this u] s' show "length r < Suc (length cs)" by simp
    qed
    from less.prems[unfolded Cons] consider "r = cs"
      | k' a' where "unescape q k' cs = Inr (Some (a', r))"
      | m a' where "unescape q 0 (drop m cs) = Inr (Some (a', r))"
      by (auto simp: stir_simps split: if_splits)
    then show ?thesis
    proof cases
      case 1
      then show ?thesis using Cons by simp
    next
      case 2
      then show ?thesis using IH[of cs] Cons by simp
    next
      case (3 m a')
      then show ?thesis using IH[of "drop m cs"] Cons by simp
    qed
  qed
qed

lemma dec_digits_length: "length (snd (dec_digits acc s)) \<le> length s"
  by (induction acc s rule: dec_digits.induct) auto

lemma strtoll10_length:
  assumes "isdigit c"
  shows "length (snd (strtoll10 (c # s))) < Suc (length s)"
  using dec_digits_length[of "of_char c - 48" s] assms
  by (auto simp: strtoll10_def less_Suc_eq_le split: prod.splits)

lemma skip_ws_length: "length (skip_ws s) \<le> length s"
  by (simp add: skip_ws_def)

text \<open>
  The loop over one line from the position after the leading white space.  \<open>None\<close> is \<open>return -1\<close>.
\<close>

function parse_line :: "bool \<Rightarrow> bool \<Rightarrow> string \<Rightarrow> line_state \<Rightarrow> line_state option res" where
  "parse_line is_v2 is_cmd [] st = end_line is_cmd st"
| "parse_line is_v2 is_cmd (c # s) st =
     (if c = dquote then
        if two_strings_already st then Inr None
        else (case dbyy_escape_string s of
            Inl e \<Rightarrow> Inl e
          | Inr None \<Rightarrow> Inr None
          | Inr (Some (str, rest)) \<Rightarrow>
              if rest = [] then Inr (Some st)
              else if whitespacespn rest = 0 \<and> hd rest \<noteq> nl \<and> hd rest \<noteq> CHR ''='' \<and> hd rest \<noteq> CHR '':''
              then Inr None
              else if skip_ws rest = [] then Inr (Some st)
              else parse_line is_v2 is_cmd (skip_ws rest) (take_string is_cmd str st))
      else if c = CHR '':'' then
        if \<not> two_strings_already st then Inr None
        else if skip_ws s = [] then Inr (Some (st\<lparr> colon := True \<rparr>))
        else parse_line is_v2 is_cmd (skip_ws s) (st\<lparr> colon := True \<rparr>)
      else if c = CHR ''='' then
        if \<not> is_v2 then Inr None
        else if skip_ws s = [] then Inr (Some st)
        else parse_line is_v2 is_cmd (skip_ws s) st
      else if isdigit c then
        if \<not> is_v2 then Inr None
        else if length (nums st) \<ge> 3 then Inr None
        else let (x, rest) = strtoll10 (c # s); st = st\<lparr> nums := nums st @ [x] \<rparr> in
          if skip_ws rest = [] then Inr (Some st)
          else parse_line is_v2 is_cmd (skip_ws rest) st
      else if c = nl then end_line is_cmd st
      else Inr None)"
  by pat_completeness auto
termination
  apply (relation "measure (\<lambda>(v, i, s, st). length s)")
  apply simp
  subgoal for v i c s st y x2 str rest
    using unescape_length[of dquote 0 s str rest] skip_ws_length[of rest]
    by (simp add: dbyy_escape_string_def)
  subgoal using skip_ws_length by (auto simp: less_Suc_eq_le)
  subgoal using skip_ws_length by (auto simp: less_Suc_eq_le)
  subgoal for v i c s st p x rest stq
    using strtoll10_length[of c s] skip_ws_length[of rest] by (cases "strtoll10 (c # s)") simp
  done

text \<open>The loop over the lines after the version line: \<open>was\<close> is \<open>was_is_cmd\<close>.\<close>

fun parse_lines :: "bool \<Rightarrow> bool \<Rightarrow> dbyy \<Rightarrow> string list \<Rightarrow> (bool \<times> dbyy_event list) res" where
  "parse_lines is_v2 was d [] =
     (if was then bind_res (dbyy_post_cmds d) (\<lambda>e. Inr (True, [e])) else Inr (True, []))"
| "parse_lines is_v2 was d (l # ls) =
     (let is_cmd = (l \<noteq> [] \<and> hd l = tab_char) in
      bind_res
        (if is_cmd then Inr (dbyy_add_cmd d, [])
         else if was then bind_res (dbyy_post_cmds d) (\<lambda>e. Inr (d, [e]))
         else Inr (d, []))
        (\<lambda>(d, es).
          bind_res (parse_line is_v2 is_cmd (skip_ws l) \<lparr> first_string = None, two_strings_already = False,
              colon = False, nums = [], dy = d, events = [] \<rparr>) (\<lambda>r.
            case r of
              None \<Rightarrow> Inr (False, es)
            | Some st \<Rightarrow>
                bind_res (parse_lines is_v2 is_cmd (dy st) ls) (\<lambda>(ok, es'). Inr (ok, es @ events st @ es')))))"

definition dbyymineparse :: "string \<Rightarrow> (bool \<times> dbyy_event list) res" where
  "dbyymineparse f =
     bind_res (read_lines (Suc (length f)) 0 f) (\<lambda>ls.
       let d = \<lparr> dbyy_rule = None, dbyy_cmds = [] \<rparr> in
       case ls of
         [] \<Rightarrow> Inr (True, [])
       | l # ls' \<Rightarrow>
           if l = ''@v2@'' @ [nl] then parse_lines True False d ls'
           else if l = ''@v1@'' @ [nl] then parse_lines False False d ls'
           else parse_lines False False d ls)"

section \<open>Loading\<close>

definition dbyy_cmdfn :: "(nat \<Rightarrow> nat) \<Rightarrow> (string \<Rightarrow> nat) \<Rightarrow> string \<Rightarrow> string \<Rightarrow> string list list \<Rightarrow> db \<Rightarrow> db res" where
  "dbyy_cmdfn hash st_add dir tgt c d = ins_dbe hash (st_add tgt) \<lparr> dbe_diridx = st_add dir, cmds = c \<rparr> d"

definition dbyy_tsfn :: "(nat \<Rightarrow> nat) \<Rightarrow> (string \<Rightarrow> nat) \<Rightarrow> string \<Rightarrow> int \<Rightarrow> int \<Rightarrow> int \<Rightarrow> tsdb \<Rightarrow> tsdb res" where
  "dbyy_tsfn hash st_add tgt filesz sec nsec t =
     ins_tsdbe hash (st_add tgt) \<lparr> ts = \<lparr> tv_sec = sec, tv_nsec = nsec \<rparr>, tsnew = \<lparr> tv_sec = 0, tv_nsec = 0 \<rparr>,
       sz = filesz, sznew = 0, seen = False \<rparr> t"

fun run_events :: "(nat \<Rightarrow> nat) \<Rightarrow> (string \<Rightarrow> nat) \<Rightarrow> dbyy_event list \<Rightarrow> db \<times> tsdb \<Rightarrow> (db \<times> tsdb) res" where
  "run_events hash st_add [] dt = Inr dt"
| "run_events hash st_add (Cmd_Fn dir tgt c # es) (d, t) =
     bind_res (dbyy_cmdfn hash st_add dir tgt c d) (\<lambda>d. run_events hash st_add es (d, t))"
| "run_events hash st_add (Ts_Fn tgt n s ns # es) (d, t) =
     bind_res (dbyy_tsfn hash st_add tgt n s ns t) (\<lambda>t. run_events hash st_add es (d, t))"

text \<open>
  \<open>load_db_part2\<close> on the file's content.  \<open>n\<close> is the number of buckets.  A file that does not parse
  gives empty databases.  In the model the callbacks run after the parser; neither reads the
  other's state, and when the parser fails what they did is zapped.
\<close>

definition load_db_part2 :: "(nat \<Rightarrow> nat) \<Rightarrow> (string \<Rightarrow> nat) \<Rightarrow> nat \<Rightarrow> string \<Rightarrow> (db \<times> tsdb) res" where
  "load_db_part2 hash st_add n f =
     (let d = db_init n \<lparr> byname = ht_init 0, ll = [] \<rparr>; t = db_init n \<lparr> byname = ht_init 0, ll = [] \<rparr> in
      bind_res (dbyymineparse f) (\<lambda>(ok, es).
        bind_res (run_events hash st_add es (d, t)) (\<lambda>(d, t).
          Inr (if ok then (d, t) else zap_dbs d t))))"

section \<open>Saving\<close>

definition quoted :: "string \<Rightarrow> string" where
  "quoted s = dquote # file_escape_string accepted s @ [dquote]"

fun print_args :: "bool \<Rightarrow> string list \<Rightarrow> string" where
  "print_args first [] = []"
| "print_args first (a # as) = (if first then [] else '' '') @ quoted a @ print_args False as"

fun print_cmds :: "string list list \<Rightarrow> string" where
  "print_cmds [] = []"
| "print_cmds (c # cs) = tab_char # print_args True c @ [nl] @ print_cmds cs"

fun print_dbes :: "(nat \<Rightarrow> string) \<Rightarrow> bool \<Rightarrow> (nat \<times> dbe) list \<Rightarrow> string \<times> bool" where
  "print_dbes names firstrule [] = ([], firstrule)"
| "print_dbes names firstrule ((k, e) # es) =
     (let (rest, fr) = print_dbes names False es in
      ((if firstrule then [] else [nl]) @ quoted (names (dbe_diridx e)) @ '' '' @ quoted (names k)
         @ '':'' @ [nl] @ print_cmds (cmds e) @ rest, fr))"

fun print_tsdbes :: "(nat \<Rightarrow> string) \<Rightarrow> bool \<Rightarrow> (nat \<times> tsdbe) list \<Rightarrow> string" where
  "print_tsdbes names firstrule [] = []"
| "print_tsdbes names firstrule ((k, e) # es) =
     (let (x, n) = (if \<not> seen e then (ts e, sz e) else (tsnew e, sznew e)) in
      (if firstrule then [] else [nl]) @ quoted (names k) @ '' = '' @ print_ll n @ '' ''
        @ print_ll (tv_sec x) @ '' '' @ print_ll (tv_nsec x) @ [nl] @ print_tsdbes names False es)"

text \<open>
  The loop over the rules that opens both \<open>merge_db_v1\<close> and \<open>merge_db_v2\<close>: an executed rule stores its
  command for all its targets; a rule whose command was started and not finished loses its entries.
\<close>

fun ins_tgts :: "(nat \<Rightarrow> nat) \<Rightarrow> rule \<Rightarrow> stirtgt list \<Rightarrow> db \<Rightarrow> db res" where
  "ins_tgts hash r [] d = Inr d"
| "ins_tgts hash r (e # es) d =
     bind_res (ins_dbe hash (tgtidx e) \<lparr> dbe_diridx = diridx r, cmds = cmd r \<rparr> d) (ins_tgts hash r es)"

definition merge_rule :: "(nat \<Rightarrow> nat) \<Rightarrow> bool \<Rightarrow> rule \<Rightarrow> db \<Rightarrow> db res" where
  "merge_rule hash is_forked r d =
     (if \<not> is_actually_executed r then
        Inr (if is_forked then fold (\<lambda>e. maybe_del_dbe hash (tgtidx e)) (tgtlist r) d else d)
      else ins_tgts hash r (tgtlist r) d)"

fun merge_rules :: "(nat \<Rightarrow> nat) \<Rightarrow> (nat \<Rightarrow> bool) \<Rightarrow> (nat \<Rightarrow> rule) \<Rightarrow> nat list \<Rightarrow> db \<Rightarrow> db res" where
  "merge_rules hash is_forked rs [] d = Inr d"
| "merge_rules hash is_forked rs (i # is) d =
     bind_res (merge_rule hash (is_forked i) (rs i) d) (merge_rules hash is_forked rs is)"

text \<open>The new content of the file; \<open>None\<close> when the file is removed.\<close>

definition merge_db_v1 :: "(nat \<Rightarrow> nat) \<Rightarrow> (nat \<Rightarrow> string) \<Rightarrow> bool \<Rightarrow> (nat \<Rightarrow> bool) \<Rightarrow> base \<Rightarrow> db \<Rightarrow> string option res" where
  "merge_db_v1 hash names dbf_did_exist is_forked b d =
     bind_res (merge_rules hash is_forked (rules b) [0 ..< rules_size b] d) (\<lambda>d.
       if ll d = [] \<and> \<not> dbf_did_exist then Inr None
       else Inr (Some (''@v1@'' @ [nl, nl] @ fst (print_dbes names True (entries hash d)))))"

definition merge_db_v2 :: "(nat \<Rightarrow> nat) \<Rightarrow> (nat \<Rightarrow> string) \<Rightarrow> bool \<Rightarrow> (nat \<Rightarrow> bool) \<Rightarrow> base \<Rightarrow> db \<Rightarrow> tsdb \<Rightarrow> string option res" where
  "merge_db_v2 hash names dbf_did_exist is_forked b d t =
     bind_res (merge_rules hash is_forked (rules b) [0 ..< rules_size b] d) (\<lambda>d.
       if ll d = [] \<and> ll t = [] \<and> \<not> dbf_did_exist then Inr None
       else let (s, fr) = print_dbes names True (entries hash d) in
         Inr (Some (''@v2@'' @ [nl, nl] @ s @ print_tsdbes names fr (entries hash t))))"

section \<open>The parser on printed lines\<close>

lemma of_char_digit: "d < 10 \<Longrightarrow> of_char (char_of (48 + d :: nat) :: char) = 48 + d"
  by (simp add: of_char_of)

lemma of_char_int:
  assumes "n < 10"
  shows "(of_char (char_of (48 + n :: nat) :: char) :: int) = 48 + int n"
    "(of_char (char_of (n + 48 :: nat) :: char) :: int) = 48 + int n"
proof -
  have "(of_char (char_of (48 + n) :: char) :: int) = int (of_char (char_of (48 + n) :: char))"
    by (simp only: of_nat_of_char)
  then show "(of_char (char_of (48 + n :: nat) :: char) :: int) = 48 + int n"
    using assms by (simp add: of_char_of)
  then show "(of_char (char_of (n + 48 :: nat) :: char) :: int) = 48 + int n"
    by (simp only: add.commute)
qed

lemma dec_digits_dec:
  "dec_digits acc (dec n @ s) = dec_digits (acc * 10 ^ length (dec n) + int n) s"
proof (induction n arbitrary: acc s rule: less_induct)
  case (less n)
  show ?case
  proof (cases "n < 10")
    case True
    then show ?thesis by (subst (1 2) dec.simps) (simp add: isdigit_def of_char_of of_char_int mult.commute)
  next
    case False
    then have "n div 10 < n" by simp
    note IH = less.IH[OF this]
    define q m where "q = n div 10" and "m = n mod 10"
    have n: "int n = int (10 * q + m)" "m < 10" unfolding q_def m_def by simp_all
    have "dec n = dec q @ [char_of (48 + m)]" using False unfolding q_def m_def
      by (subst dec.simps) simp
    with n(2) show ?thesis unfolding n(1)
      by (simp add: IH[folded q_def] isdigit_def of_char_of of_char_int algebra_simps)
  qed
qed

lemma dec_nonempty [simp]: "dec n \<noteq> []"
  by (subst dec.simps) simp

lemma dec_hd: "isdigit (hd (dec n))"
proof (induction n rule: less_induct)
  case (less n)
  then show ?case by (subst dec.simps) (auto simp: isdigit_def of_char_of hd_append)
qed

lemma dec_set: "set (dec n) \<subseteq> {c. isdigit c}"
proof (induction n rule: less_induct)
  case (less n)
  show ?case using less.IH[of "n div 10"] by (subst dec.simps) (auto simp: isdigit_def of_char_of)
qed

lemma strtoll10_dec:
  assumes "s = [] \<or> \<not> isdigit (hd s)"
  shows "strtoll10 (dec n @ s) = (min (int n) LLONG_MAX, s)"
proof -
  have "dec_digits acc s = (acc, s)" for acc using assms by (cases s) auto
  then show ?thesis by (simp add: strtoll10_def dec_digits_dec)
qed

declare parse_line.simps [simp del]

lemma skip_ws_simps [simp]:
  "skip_ws [] = []"
  "skip_ws (CHR '' '' # s) = skip_ws s"
  "skip_ws (tab_char # s) = skip_ws s"
  "c \<noteq> CHR '' '' \<Longrightarrow> c \<noteq> tab_char \<Longrightarrow> skip_ws (c # s) = c # s"
  by (simp_all add: skip_ws_def)

lemma skip_ws_quoted [simp]: "skip_ws (quoted s @ r) = quoted s @ r"
  by (simp add: quoted_def)

lemma quoted_nonempty [simp]: "quoted s \<noteq> []"
  by (simp add: quoted_def)

lemma parse_quoted:
  assumes "\<not> two_strings_already st" "c \<in> {nl, CHR '' '', CHR '':''}" "skip_ws (c # r) \<noteq> []"
  shows "parse_line v i (quoted s @ c # r) st = parse_line v i (skip_ws (c # r)) (take_string i s st)"
  using assms unescape_file_escape[of dquote 0 s "c # r"]
  by (auto simp: quoted_def parse_line.simps(2)[of v i dquote] dbyy_escape_string_def)

lemma parse_nl: "parse_line v i [nl] st = end_line i st"
  by (simp add: parse_line.simps isdigit_def)

lemma parse_colon: "two_strings_already st \<Longrightarrow>
   parse_line v i [CHR '':'', nl] st = end_line i (st\<lparr> colon := True \<rparr>)"
  by (simp add: parse_line.simps(2)[of v i "CHR '':''"] parse_nl)

lemma parse_equals: "skip_ws s \<noteq> [] \<Longrightarrow>
   parse_line True i (CHR ''='' # s) st = parse_line True i (skip_ws s) st"
  by (simp add: parse_line.simps(2)[of True i "CHR ''=''"])

lemma parse_number:
  assumes "length (nums st) < 3" "c = nl \<or> c = CHR '' ''" "skip_ws (c # r) \<noteq> []"
  shows "parse_line True i (dec n @ c # r) st
       = parse_line True i (skip_ws (c # r)) (st\<lparr> nums := nums st @ [min (int n) LLONG_MAX] \<rparr>)"
proof -
  obtain d ds where d: "dec n = d # ds" by (cases "dec n") auto
  then have dig: "isdigit d" using dec_hd[of n] by simp
  then have "d \<noteq> dquote" "d \<noteq> CHR '':''" "d \<noteq> CHR ''=''" by (auto simp: isdigit_def)
  moreover have "strtoll10 (d # ds @ c # r) = (min (int n) LLONG_MAX, c # r)"
    using strtoll10_dec[of "c # r" n] assms(2) d by (auto simp: isdigit_def)
  ultimately show ?thesis using dig assms d by (simp add: parse_line.simps)
qed

section \<open>The parser on printed commands\<close>

lemma parse_args:
  assumes "\<not> two_strings_already st"
  shows "parse_line v True (print_args True as @ [nl]) st = Inr (Some (fold (take_string True) as st))"
  using assms
proof (induction as arbitrary: st)
  case Nil
  then show ?case by (simp add: parse_nl end_line_def)
next
  case (Cons a as)
  have st: "\<not> two_strings_already (take_string True a st)" using Cons.prems by (simp add: take_string_def)
  have "print_args False as @ [nl] = (if as = [] then [nl] else CHR '' '' # print_args True as @ [nl])"
    by (cases as) auto
  then show ?case using Cons.IH[OF st] Cons.prems st
    by (cases as) (auto simp: parse_quoted parse_nl end_line_def)
qed

lemma fold_take_string:
  assumes "\<forall>a \<in> set as. CHR 0x00 \<notin> set a" "dbyy_cmds (dy st) = cs @ [l]"
  shows "fold (take_string True) as st = st\<lparr> dy := (dy st)\<lparr> dbyy_cmds := cs @ [l @ as] \<rparr> \<rparr>"
  using assms
proof (induction as arbitrary: st l)
  case (Cons a as)
  have "takeWhile (\<lambda>c. c \<noteq> CHR 0x00) a = a" using Cons.prems(1) by (auto simp: takeWhile_eq_all_conv)
  then have "take_string True a st = st\<lparr> dy := (dy st)\<lparr> dbyy_cmds := cs @ [l @ [a]] \<rparr> \<rparr>"
    using Cons.prems(2) by (simp add: take_string_def dbyy_add_arg_def)
  then show ?case using Cons.IH[of "take_string True a st" "l @ [a]"] Cons.prems by simp
qed simp

definition cmd_line :: "string list \<Rightarrow> string" where
  "cmd_line c = tab_char # print_args True c"

definition printable_cmds :: "string list list \<Rightarrow> bool" where
  "printable_cmds cs \<longleftrightarrow> (\<forall>c \<in> set cs. \<forall>a \<in> set c. CHR 0x00 \<notin> set a)"

lemma bind_res_return [simp]: "bind_res r Inr = r"
  by (cases r) auto

lemma bind_res_pair: "bind_res r (\<lambda>(ok, es). Inr (ok, es)) = r"
  by (cases r) auto

lemma parse_lines_cmds:
  assumes "printable_cmds cs"
  shows "parse_lines v was d (map (\<lambda>c. cmd_line c @ [nl]) cs @ ls)
       = parse_lines v (was \<or> cs \<noteq> []) (d\<lparr> dbyy_cmds := dbyy_cmds d @ cs \<rparr>) ls"
  using assms
proof (induction cs arbitrary: was d)
  case Nil
  then show ?case by simp
next
  case (Cons c cs)
  let ?d = "dbyy_add_cmd d"
  let ?st = "\<lparr> first_string = None, two_strings_already = False, colon = False, nums = [], dy = ?d, events = [] \<rparr>"
  have "skip_ws (cmd_line c @ [nl]) = print_args True c @ [nl]"
    unfolding cmd_line_def by (cases c) auto
  moreover have "parse_line v True (print_args True c @ [nl]) ?st
      = Inr (Some (?st\<lparr> dy := ?d\<lparr> dbyy_cmds := dbyy_cmds d @ [c] \<rparr> \<rparr>))"
    using Cons.prems parse_args[of ?st v c] fold_take_string[of c ?st "dbyy_cmds d" "[]"]
    by (simp add: printable_cmds_def dbyy_add_cmd_def)
  moreover have "printable_cmds cs" using Cons.prems by (simp add: printable_cmds_def)
  ultimately show ?case using Cons.IH[of True "d\<lparr> dbyy_cmds := dbyy_cmds d @ [c] \<rparr>"]
    by (simp add: bind_res_pair dbyy_add_cmd_def cmd_line_def)
qed

section \<open>The parser on a printed file\<close>

definition rule_line :: "string \<Rightarrow> string \<Rightarrow> string" where
  "rule_line dir tgt = quoted dir @ '' '' @ quoted tgt @ '':''"

definition stamp_line :: "string \<Rightarrow> nat \<Rightarrow> nat \<Rightarrow> nat \<Rightarrow> string" where
  "stamp_line tgt n s ns = quoted tgt @ '' = '' @ dec n @ '' '' @ dec s @ '' '' @ dec ns"

definition start_line :: "dbyy \<Rightarrow> line_state" where
  "start_line d = \<lparr> first_string = None, two_strings_already = False, colon = False, nums = [], dy = d,
     events = [] \<rparr>"

lemma parse_rule_line:
  "parse_line v False (rule_line dir tgt @ [nl]) (start_line d) =
     Inr (Some ((start_line (dbyy_emplace_rule dir tgt d))\<lparr> two_strings_already := True, colon := True \<rparr>))"
  by (simp add: rule_line_def start_line_def parse_quoted take_string_def parse_colon end_line_def)

lemma parse_stamp_line:
  "parse_line True False (stamp_line tgt n s ns @ [nl]) (start_line d) =
     Inr (Some ((start_line d)\<lparr> nums := map (\<lambda>n. min (int n) LLONG_MAX) [n, s, ns],
       events := [Ts_Fn tgt (min (int n) LLONG_MAX) (min (int s) LLONG_MAX) (min (int ns) LLONG_MAX)] \<rparr>))"
proof -
  have skip: "skip_ws (dec n @ r) = dec n @ r" for n r
  proof -
    obtain d ds where d: "dec n = d # ds" by (cases "dec n") auto
    then have "isdigit d" using dec_hd[of n] by simp
    then have "d \<noteq> CHR '' ''" "d \<noteq> tab_char" by (auto simp: isdigit_def)
    then show ?thesis using d by simp
  qed
  show ?thesis
    by (simp add: stamp_line_def start_line_def parse_quoted take_string_def parse_equals skip
        parse_number parse_nl end_line_def)
qed

text \<open>The entries of a file, as lines, and the calls they stand for.\<close>

datatype entry = Rule_Entry string string "string list list" | Stamp_Entry string nat nat nat

fun entry_lines :: "entry \<Rightarrow> string list" where
  "entry_lines (Rule_Entry dir tgt cs) = rule_line dir tgt # map cmd_line cs"
| "entry_lines (Stamp_Entry tgt n s ns) = [stamp_line tgt n s ns]"

fun entry_events :: "entry \<Rightarrow> dbyy_event list" where
  "entry_events (Rule_Entry dir tgt cs) = (if cs = [] then [] else [Cmd_Fn dir tgt cs])"
| "entry_events (Stamp_Entry tgt n s ns) =
     [Ts_Fn tgt (min (int n) LLONG_MAX) (min (int s) LLONG_MAX) (min (int ns) LLONG_MAX)]"

fun entry_ok :: "bool \<Rightarrow> entry \<Rightarrow> bool" where
  "entry_ok v (Rule_Entry dir tgt cs) = printable_cmds cs"
| "entry_ok v (Stamp_Entry tgt n s ns) = v"

definition pending :: "bool \<Rightarrow> dbyy \<Rightarrow> dbyy_event list" where
  "pending was d = (case dbyy_rule d of None \<Rightarrow> [] | Some (dir, tgt) \<Rightarrow>
     if was then [Cmd_Fn dir tgt (dbyy_cmds d)] else [])"

lemma parse_lines_plain:
  assumes "l = [] \<or> hd l \<noteq> tab_char" "was \<longrightarrow> dbyy_rule d \<noteq> None"
    "parse_line v False (skip_ws (l @ [nl])) (start_line d) = Inr (Some st)"
  shows "parse_lines v was d ((l @ [nl]) # ls)
    = bind_res (parse_lines v False (dy st) ls) (\<lambda>(ok, es). Inr (ok, pending was d @ events st @ es))"
proof -
  have "\<not> (l @ [nl] \<noteq> [] \<and> hd (l @ [nl]) = tab_char)" using assms(1) by (cases l) auto
  moreover have "(if was then bind_res (dbyy_post_cmds d) (\<lambda>e. Inr (d, [e])) else Inr (d, [])) = Inr (d, pending was d)"
    using assms(2) by (auto simp: dbyy_post_cmds_def pending_def split: option.splits)
  ultimately show ?thesis using assms(3)
    by (simp only: parse_lines.simps Let_def if_False start_line_def) (simp add: append_assoc)
qed

declare parse_lines.simps(2) [simp del]

lemma parse_lines_blank:
  assumes "was \<longrightarrow> dbyy_rule d \<noteq> None"
  shows "parse_lines v was d ([nl] # ls)
    = bind_res (parse_lines v False d ls) (\<lambda>(ok, es). Inr (ok, pending was d @ es))"
  using parse_lines_plain[of "[]" was d v "start_line d" ls] assms
  by (simp add: parse_nl end_line_def start_line_def)

lemma parse_lines_rule:
  "parse_lines v False d ((rule_line dir tgt @ [nl]) # ls) = parse_lines v False (dbyy_emplace_rule dir tgt d) ls"
proof -
  have "skip_ws (rule_line dir tgt @ [nl]) = rule_line dir tgt @ [nl]" "hd (rule_line dir tgt) \<noteq> tab_char"
    by (simp_all add: rule_line_def) (simp add: quoted_def)
  then show ?thesis using parse_rule_line[of v dir tgt d]
    by (subst parse_lines_plain) (auto simp: pending_def start_line_def split: option.splits)
qed

lemma parse_lines_stamp:
  "parse_lines True False d ((stamp_line tgt n s ns @ [nl]) # ls) =
     bind_res (parse_lines True False d ls) (\<lambda>(ok, es). Inr (ok, entry_events (Stamp_Entry tgt n s ns) @ es))"
proof -
  have "skip_ws (stamp_line tgt n s ns @ [nl]) = stamp_line tgt n s ns @ [nl]"
    "hd (stamp_line tgt n s ns) \<noteq> tab_char"
    by (simp_all add: stamp_line_def) (simp add: quoted_def)
  then show ?thesis using parse_stamp_line[of tgt n s ns d]
    by (subst parse_lines_plain) (auto simp: pending_def start_line_def split: option.splits)
qed

lemma parse_lines_entries:
  assumes "\<forall>e \<in> set es. entry_ok v e" "was \<longrightarrow> dbyy_rule d \<noteq> None"
  shows "parse_lines v was d (concat (map (\<lambda>e. [nl] # map (\<lambda>l. l @ [nl]) (entry_lines e)) es))
    = Inr (True, pending was d @ concat (map entry_events es))"
  using assms
proof (induction es arbitrary: was d)
  case Nil
  then show ?case by (auto simp: dbyy_post_cmds_def pending_def split: option.splits)
next
  case (Cons e es)
  have ok: "\<forall>e \<in> set es. entry_ok v e" using Cons.prems(1) by simp
  show ?case
  proof (cases e)
    case (Rule_Entry dir tgt cs)
    let ?d = "(dbyy_emplace_rule dir tgt d)\<lparr> dbyy_cmds := cs \<rparr>"
    have cs: "printable_cmds cs" using Cons.prems(1) Rule_Entry by simp
    have d: "dbyy_cmds (dbyy_emplace_rule dir tgt d) = []" "dbyy_rule ?d = Some (dir, tgt)"
      by (simp_all add: dbyy_emplace_rule_def)
    have "pending (cs \<noteq> []) ?d = entry_events e" using Rule_Entry d by (simp add: pending_def)
    then show ?thesis using Cons.IH[OF ok, of "cs \<noteq> []" ?d] d parse_lines_cmds[OF cs] Rule_Entry
        Cons.prems(2)
      by (simp add: parse_lines_blank parse_lines_rule o_def)
  next
    case (Stamp_Entry tgt n s ns)
    then have v: v using Cons.prems(1) by simp
    then show ?thesis using Cons.IH[OF ok, of False d] Stamp_Entry Cons.prems(2)
      by (simp add: parse_lines_blank parse_lines_stamp pending_def split: option.splits)
  qed
qed

section \<open>A printed file as entries\<close>

fun rule_entry :: "(nat \<Rightarrow> string) \<Rightarrow> nat \<times> dbe \<Rightarrow> entry" where
  "rule_entry names (k, e) = Rule_Entry (names (dbe_diridx e)) (names k) (cmds e)"

fun stamp_entry :: "(nat \<Rightarrow> string) \<Rightarrow> nat \<times> tsdbe \<Rightarrow> entry" where
  "stamp_entry names (k, e) =
     (let (x, n) = written e in Stamp_Entry (names k) (nat n) (nat (tv_sec x)) (nat (tv_nsec x)))"

definition storable :: "tsdbe \<Rightarrow> bool" where
  "storable e = (let (x, n) = written e in 0 \<le> n \<and> n \<le> LLONG_MAX \<and>
     0 \<le> tv_sec x \<and> tv_sec x \<le> LLONG_MAX \<and> 0 \<le> tv_nsec x \<and> tv_nsec x \<le> LLONG_MAX)"

definition body :: "entry list \<Rightarrow> string list" where
  "body es = (if es = [] then [[]] else concat (map (\<lambda>e. [] # entry_lines e) es))"

definition file_text :: "string \<Rightarrow> entry list \<Rightarrow> string" where
  "file_text v es = concat (map (\<lambda>l. l @ [nl]) (v # body es))"

lemma print_cmds_lines: "print_cmds cs = concat (map (\<lambda>l. l @ [nl]) (map cmd_line cs))"
  by (induction cs) (auto simp: cmd_line_def)

lemma print_dbes_False:
  "print_dbes names False es =
     (concat (map (\<lambda>l. l @ [nl]) (concat (map (\<lambda>e. [] # entry_lines (rule_entry names e)) es))), False)"
  by (induction names False es rule: print_dbes.induct)
     (auto simp: rule_line_def print_cmds_lines)

lemma print_dbes_True:
  "print_dbes names True es =
     (if es = [] then ([], True) else (tl (fst (print_dbes names False es)), False))"
  by (cases es) (auto simp: print_dbes_False rule_line_def print_cmds_lines)

lemma print_tsdbes_False:
  assumes "\<forall>(k, e) \<in> set es. storable e"
  shows "print_tsdbes names False es =
     concat (map (\<lambda>l. l @ [nl]) (concat (map (\<lambda>e. [] # entry_lines (stamp_entry names e)) es)))"
  using assms
proof (induction es)
  case (Cons p es)
  obtain k e where p: "p = (k, e)" by (cases p)
  obtain x n where w: "written e = (x, n)" by (cases "written e")
  then have "(if \<not> seen e then (ts e, sz e) else (tsnew e, sznew e)) = (x, n)" by (simp add: written_def)
  moreover have "0 \<le> n" "0 \<le> tv_sec x" "0 \<le> tv_nsec x"
    using Cons.prems p w by (auto simp: storable_def)
  ultimately show ?case using Cons p w by (simp add: print_ll_def stamp_line_def)
qed simp

lemma print_tsdbes_True:
  "print_tsdbes names True es = tl (print_tsdbes names False es)"
  by (cases es) (auto simp: Let_def split: prod.splits)

lemma merge_text:
  assumes "\<forall>(k, e) \<in> set tss. storable e"
  shows "(let (s, fr) = print_dbes names True ds in v @ [nl, nl] @ s @ print_tsdbes names fr tss)
    = file_text v (map (rule_entry names) ds @ map (stamp_entry names) tss)"
proof -
  note tss = print_tsdbes_False[OF assms, of names]
  consider "ds = []" "tss = []" | "ds = []" "tss \<noteq> []" | "ds \<noteq> []" by auto
  then show ?thesis
  proof cases
    case 1
    then show ?thesis by (simp add: file_text_def body_def)
  next
    case 2
    then obtain e tss' where "tss = e # tss'" by (cases tss) auto
    then show ?thesis using 2 tss by (simp add: file_text_def body_def print_tsdbes_True o_def)
  next
    case 3
    then obtain e ds' where "ds = e # ds'" by (cases ds) auto
    then show ?thesis using 3 tss by (simp add: file_text_def body_def print_dbes_True print_dbes_False o_def)
  qed
qed

lemma lines_of_concat:
  "\<forall>a \<in> set as. nl \<notin> set a \<Longrightarrow> lines_of (concat (map (\<lambda>a. a @ [nl]) as)) = map (\<lambda>a. a @ [nl]) as"
  by (induction as) (auto simp: lines_of_line)

section \<open>A printed file is plain text\<close>

definition plain :: "string \<Rightarrow> bool" where
  "plain s \<longleftrightarrow> nl \<notin> set s \<and> CHR 0x00 \<notin> set s"

lemma plain_simps [simp]:
  "plain []" "plain (c # s) \<longleftrightarrow> c \<noteq> nl \<and> c \<noteq> CHR 0x00 \<and> plain s" "plain (s @ t) \<longleftrightarrow> plain s \<and> plain t"
  by (auto simp: plain_def)

lemma plain_quoted [simp]: "plain (quoted s)"
proof -
  have "nl \<notin> set (file_escape_string accepted s)" "CHR 0x00 \<notin> set (file_escape_string accepted s)"
    using file_escape_printable[of s] by auto
  then show ?thesis by (simp add: quoted_def plain_def)
qed

lemma plain_dec [simp]: "plain (dec n)"
  using dec_set[of n] by (auto simp: plain_def isdigit_def)

lemma plain_args [simp]: "plain (print_args b as)"
  by (induction b as rule: print_args.induct) auto

lemma plain_lines [simp]:
  "plain (rule_line dir tgt)" "plain (stamp_line tgt n s ns)" "plain (cmd_line c)"
  by (simp_all add: rule_line_def stamp_line_def cmd_line_def)

lemma plain_entry: "l \<in> set (entry_lines e) \<Longrightarrow> plain l"
  by (cases e) auto

lemma plain_body: "l \<in> set (body es) \<Longrightarrow> plain l"
  by (auto simp: body_def plain_entry split: if_splits)

lemma plain_text:
  assumes "\<And>l. l \<in> set ls \<Longrightarrow> plain l"
  shows "read_lines (Suc (length (concat (map (\<lambda>l. l @ [nl]) ls)))) n (concat (map (\<lambda>l. l @ [nl]) ls))
    = Inr (map (\<lambda>l. l @ [nl]) ls)"
proof -
  have "CHR 0x00 \<notin> set (concat (map (\<lambda>l. l @ [nl]) ls))" using assms by (auto simp: plain_def)
  moreover have "lines_of (concat (map (\<lambda>l. l @ [nl]) ls)) = map (\<lambda>l. l @ [nl]) ls"
    by (rule lines_of_concat) (use assms in \<open>auto simp: plain_def\<close>)
  ultimately show ?thesis by (subst read_lines_ok) simp_all
qed

lemma mineparse_lines:
  assumes "\<And>l. l \<in> set ls \<Longrightarrow> plain l" "v = (if is_v2 then ''@v2@'' else ''@v1@'')"
  shows "dbyymineparse (concat (map (\<lambda>l. l @ [nl]) (v # ls)))
    = parse_lines is_v2 False \<lparr> dbyy_rule = None, dbyy_cmds = [] \<rparr> (map (\<lambda>l. l @ [nl]) ls)"
proof -
  have "plain l" if "l \<in> set (v # ls)" for l using that assms by (auto split: if_splits)
  note plain_text[of "v # ls", OF this]
  then show ?thesis unfolding dbyymineparse_def by (simp only:) (simp add: Let_def assms(2))
qed

section \<open>Saving and loading\<close>

lemma parse_file_text:
  assumes "\<forall>e \<in> set es. entry_ok is_v2 e" "v = (if is_v2 then ''@v2@'' else ''@v1@'')"
  shows "dbyymineparse (file_text v es) = Inr (True, concat (map entry_events es))"
proof -
  let ?d = "\<lparr> dbyy_rule = None, dbyy_cmds = [] \<rparr>"
  have "parse_lines is_v2 False ?d (map (\<lambda>l. l @ [nl]) (body es)) = Inr (True, concat (map entry_events es))"
  proof (cases "es = []")
    case True
    then show ?thesis by (simp add: body_def parse_lines_blank pending_def)
  next
    case False
    then have "map (\<lambda>l. l @ [nl]) (body es) = concat (map (\<lambda>e. [nl] # map (\<lambda>l. l @ [nl]) (entry_lines e)) es)"
      by (simp add: body_def map_concat o_def)
    then show ?thesis using parse_lines_entries[OF assms(1), of False ?d] by (simp add: pending_def)
  qed
  then show ?thesis unfolding file_text_def by (simp only: mineparse_lines[OF plain_body assms(2)])
qed

lemma run_cmds:
  assumes "\<And>i. st_add (names i) = i" "db_ok hash d" "distinct (map fst (entries hash d) @ map fst es)"
  shows "\<exists>d'. run_events hash st_add (concat (map entry_events (map (rule_entry names) es)) @ rest) (d, t)
      = run_events hash st_add rest (d', t) \<and> db_ok hash d'
      \<and> entries hash d' = entries hash d @ filter (\<lambda>p. cmds (snd p) \<noteq> []) es"
  using assms(2,3)
proof (induction es arbitrary: d)
  case Nil
  then show ?case by auto
next
  case (Cons p es)
  obtain k e where p: "p = (k, e)" by (cases p)
  show ?case
  proof (cases "cmds e = []")
    case True
    then show ?thesis using Cons.IH[of d] Cons.prems p by simp
  next
    case False
    have e: "\<lparr> dbe_diridx = dbe_diridx e, cmds = cmds e \<rparr> = e" by (rule dbe.equality) simp_all
    from db_ins_ok[OF Cons.prems(1), of k e] obtain d1 where d1: "db_ins hash k e d = Inr d1" "db_ok hash d1"
      "entries hash d1 = filter (\<lambda>p. fst p \<noteq> k) (entries hash d) @ [(k, e)]" by blast
    have "filter (\<lambda>p. fst p \<noteq> k) (entries hash d) = entries hash d"
      using Cons.prems(2) p by (force intro: filter_True)
    then have "entries hash d1 = entries hash d @ [(k, e)]" using d1(3) by simp
    then show ?thesis using Cons.IH[OF d1(2)] Cons.prems(2) p False d1(1)
      by (auto simp: dbyy_cmdfn_def ins_dbe_def assms(1) e)
  qed
qed

definition reloaded :: "tsdbe \<Rightarrow> tsdbe" where
  "reloaded e = \<lparr> ts = fst (written e), tsnew = \<lparr> tv_sec = 0, tv_nsec = 0 \<rparr>, sz = snd (written e), sznew = 0,
     seen = False \<rparr>"

lemma run_stamps:
  assumes "\<And>i. st_add (names i) = i" "db_ok hash t" "distinct (map fst (entries hash t) @ map fst es)"
    "\<forall>p \<in> set es. storable (snd p)"
  shows "\<exists>t'. run_events hash st_add (concat (map entry_events (map (stamp_entry names) es))) (d, t)
      = Inr (d, t') \<and> db_ok hash t' \<and> entries hash t' = entries hash t @ map (apsnd reloaded) es"
  using assms(2-4)
proof (induction es arbitrary: t)
  case Nil
  then show ?case by auto
next
  case (Cons p es)
  obtain k e where p: "p = (k, e)" by (cases p)
  obtain x n where w: "written e = (x, n)" by (cases "written e")
  have "storable e" using Cons.prems(3) p by simp
  then have ev: "entry_events (stamp_entry names (k, e)) = [Ts_Fn (names k) n (tv_sec x) (tv_nsec x)]"
    using w by (auto simp: storable_def min_def)
  have x: "\<lparr> tv_sec = tv_sec x, tv_nsec = tv_nsec x \<rparr> = x" by (rule timespec.equality) simp_all
  from db_ins_ok[OF Cons.prems(1), of k "reloaded e"] obtain t1 where t1:
    "db_ins hash k (reloaded e) t = Inr t1" "db_ok hash t1"
    "entries hash t1 = filter (\<lambda>p. fst p \<noteq> k) (entries hash t) @ [(k, reloaded e)]" by blast
  have fn: "dbyy_tsfn hash st_add (names k) n (tv_sec x) (tv_nsec x) t = Inr t1"
    using t1(1) w by (simp add: dbyy_tsfn_def ins_tsdbe_def assms(1) reloaded_def x)
  have "filter (\<lambda>p. fst p \<noteq> k) (entries hash t) = entries hash t"
    using Cons.prems(2) p by (force intro: filter_True)
  then have t1': "entries hash t1 = entries hash t @ [(k, reloaded e)]" using t1(3) by simp
  have "distinct (map fst (entries hash t1) @ map fst es)" "\<forall>p \<in> set es. storable (snd p)"
    using Cons.prems(2,3) p t1' by auto
  from Cons.IH[OF t1(2) this] show ?case
    using p t1' by (auto simp del: entry_events.simps stamp_entry.simps simp: ev fn)
qed

lemma entries_keys: "map fst (entries hash d) = ll d"
  by (simp add: entries_def o_def)

lemma find_filter:
  assumes "db_ok hash d'" "entries hash d' = filter P (entries hash d)" "db_ok hash d"
  shows "ht_find hash (byname d') k = (case ht_find hash (byname d) k of
     None \<Rightarrow> None | Some e \<Rightarrow> if P (k, e) then Some e else None)"
proof -
  have "distinct (map fst xs) \<Longrightarrow> map_of (filter P xs) k
      = (case map_of xs k of None \<Rightarrow> None | Some e \<Rightarrow> if P (k, e) then Some e else None)" for xs
  proof (induction xs)
    case (Cons p xs)
    have "map_of (filter P xs) (fst p) = None" using Cons.prems by (auto simp: map_of_eq_None_iff)
    then show ?case using Cons by (cases p) (auto split: option.splits)
  qed simp
  moreover have "distinct (map fst (entries hash d))" using assms(3) by (simp add: entries_keys db_ok_def)
  ultimately have "map_of (filter P (entries hash d)) k
      = (case map_of (entries hash d) k of None \<Rightarrow> None | Some e \<Rightarrow> if P (k, e) then Some e else None)" by blast
  then show ?thesis
    by (simp only: map_of_entries[OF assms(1), symmetric] map_of_entries[OF assms(3), symmetric] assms(2))
qed

text \<open>What one file gives back, for either version of the format.\<close>

lemma load_file_text:
  assumes names: "\<And>i. st_add (names i) = i" and ok: "db_ok hash d" "db_ok hash t"
    and pr: "\<forall>p \<in> set (entries hash d). printable_cmds (cmds (snd p))"
    and st: "\<forall>p \<in> set (entries hash t). storable (snd p)"
  shows "\<exists>d' t'. load_db_part2 hash st_add n (file_text ''@v2@''
        (map (rule_entry names) (entries hash d) @ map (stamp_entry names) (entries hash t))) = Inr (d', t')
    \<and> db_ok hash d' \<and> db_ok hash t'
    \<and> entries hash d' = filter (\<lambda>p. cmds (snd p) \<noteq> []) (entries hash d)
    \<and> entries hash t' = map (apsnd reloaded) (entries hash t)"
proof -
  let ?es = "map (rule_entry names) (entries hash d) @ map (stamp_entry names) (entries hash t)"
  let ?z = "db_init n \<lparr> byname = ht_init 0, ll = [] \<rparr>"
  have z: "db_ok hash ?z" "entries hash ?z = []" by (simp_all add: db_init_ok)
  have "entry_ok True (rule_entry names p)" if "p \<in> set (entries hash d)" for p
    using pr that by (cases p) auto
  moreover have "entry_ok True (stamp_entry names p)" for p
    by (cases p) (auto simp: Let_def split: prod.splits)
  ultimately have "\<forall>e \<in> set ?es. entry_ok True e" by auto
  then have parse: "dbyymineparse (file_text ''@v2@'' ?es) = Inr (True, concat (map entry_events ?es))"
    by (rule parse_file_text) simp
  have "distinct (map fst (entries hash d))" "distinct (map fst (entries hash t))"
    using ok by (simp_all add: entries_keys db_ok_def)
  then have dist: "distinct (map fst (entries hash ?z) @ map fst (entries hash d))"
    "distinct (map fst (entries hash ?z) @ map fst (entries hash t))" by (simp_all add: z(2))
  obtain d' where d': "run_events hash st_add (concat (map entry_events ?es)) (?z, ?z)
      = run_events hash st_add (concat (map entry_events (map (stamp_entry names) (entries hash t)))) (d', ?z)"
    "db_ok hash d'" "entries hash d' = filter (\<lambda>p. cmds (snd p) \<noteq> []) (entries hash d)"
    using run_cmds[OF names z(1) dist(1)] by (auto simp: z(2))
  obtain t' where t': "run_events hash st_add (concat (map entry_events (map (stamp_entry names) (entries hash t)))) (d', ?z)
      = Inr (d', t')" "db_ok hash t'" "entries hash t' = map (apsnd reloaded) (entries hash t)"
    using run_stamps[OF names z(1) dist(2) st] by (auto simp: z(2))
  show ?thesis using d' t' by (simp add: load_db_part2_def parse)
qed

section \<open>Merging the rules that were run\<close>

lemma ins_tgts_ok:
  assumes "db_ok hash d"
  shows "\<exists>d'. ins_tgts hash r es d = Inr d' \<and> db_ok hash d' \<and>
    (\<forall>k. get_dbe hash d' k = (if k \<in> tgtidx ` set es then Some \<lparr> dbe_diridx = diridx r, cmds = cmd r \<rparr>
       else get_dbe hash d k))"
  using assms
proof (induction es arbitrary: d)
  case Nil
  then show ?case by simp
next
  case (Cons e es)
  let ?e = "\<lparr> dbe_diridx = diridx r, cmds = cmd r \<rparr>"
  from db_ins_ok[OF Cons.prems, of "tgtidx e" ?e] obtain d1 where d1: "db_ins hash (tgtidx e) ?e d = Inr d1"
    "db_ok hash d1" "ht_find hash (byname d1) = (ht_find hash (byname d))(tgtidx e \<mapsto> ?e)" by blast
  from Cons.IH[OF d1(2)] d1 show ?case by (auto simp: ins_dbe_def get_dbe_def)
qed

lemma fold_del_ok:
  assumes "db_ok hash d"
  shows "db_ok hash (fold (\<lambda>e. maybe_del_dbe hash (tgtidx e)) es d) \<and>
    (\<forall>k. get_dbe hash (fold (\<lambda>e. maybe_del_dbe hash (tgtidx e)) es d) k
      = (if k \<in> tgtidx ` set es then None else get_dbe hash d k))"
  using assms
proof (induction es arbitrary: d)
  case (Cons e es)
  show ?case using Cons.IH[OF db_del_ok(1)[OF Cons.prems, of "tgtidx e"]] db_del_ok(2)[OF Cons.prems, of "tgtidx e"]
    by (auto simp: maybe_del_dbe_def get_dbe_def)
qed simp

text \<open>The entry of a target after the loop: that of the last rule in rule order that says something.\<close>

definition rule_says :: "bool \<Rightarrow> rule \<Rightarrow> nat \<Rightarrow> dbe option option" where
  "rule_says is_forked r k =
     (if k \<notin> tgtidx ` set (tgtlist r) then None
      else if is_actually_executed r then Some (Some \<lparr> dbe_diridx = diridx r, cmds = cmd r \<rparr>)
      else if is_forked then Some None else None)"

lemma merge_rule_ok:
  assumes "db_ok hash d"
  shows "\<exists>d'. merge_rule hash fk r d = Inr d' \<and> db_ok hash d' \<and>
    (\<forall>k. get_dbe hash d' k = (case rule_says fk r k of None \<Rightarrow> get_dbe hash d k | Some x \<Rightarrow> x))"
  using ins_tgts_ok[OF assms, of r "tgtlist r"] fold_del_ok[OF assms, of "tgtlist r"] assms
  by (auto simp: merge_rule_def rule_says_def)

lemma merge_rules_ok:
  assumes "db_ok hash d"
  shows "\<exists>d'. merge_rules hash fk rs ids d = Inr d' \<and> db_ok hash d' \<and>
    (\<forall>k. get_dbe hash d' k =
      (case rev (List.map_filter (\<lambda>i. rule_says (fk i) (rs i) k) ids) of [] \<Rightarrow> get_dbe hash d k | x # _ \<Rightarrow> x))"
  using assms
proof (induction ids arbitrary: d)
  case Nil
  then show ?case by (simp add: List.map_filter_def)
next
  case (Cons i ids)
  from merge_rule_ok[OF Cons.prems, of "fk i" "rs i"] obtain d1 where d1: "merge_rule hash (fk i) (rs i) d = Inr d1"
    "db_ok hash d1" "\<And>k. get_dbe hash d1 k = (case rule_says (fk i) (rs i) k of None \<Rightarrow> get_dbe hash d k | Some x \<Rightarrow> x)"
    by blast
  from Cons.IH[OF d1(2)] obtain d2 where d2: "merge_rules hash fk rs ids d1 = Inr d2" "db_ok hash d2"
    "\<And>k. get_dbe hash d2 k = (case rev (List.map_filter (\<lambda>i. rule_says (fk i) (rs i) k) ids) of
       [] \<Rightarrow> get_dbe hash d1 k | x # _ \<Rightarrow> x)" by blast
  have "get_dbe hash d2 k = (case rev (List.map_filter (\<lambda>i. rule_says (fk i) (rs i) k) (i # ids)) of
       [] \<Rightarrow> get_dbe hash d k | x # _ \<Rightarrow> x)" for k
    using d2(3)[of k] d1(3)[of k]
    by (cases "rev (List.map_filter (\<lambda>i. rule_says (fk i) (rs i) k) ids)")
       (auto simp: List.map_filter_simps split: option.splits)
  with d1(1) d2(1,2) show ?case by auto
qed

lemma merge_rules_unique:
  assumes "db_ok hash d" "distinct ids" "i \<in> set ids" "e \<in> set (tgtlist (rs i))"
    "\<And>j e'. j \<in> set ids \<Longrightarrow> e' \<in> set (tgtlist (rs j)) \<Longrightarrow> tgtidx e' = tgtidx e \<Longrightarrow> j = i"
  shows "\<exists>d'. merge_rules hash is_forked rs ids d = Inr d' \<and> db_ok hash d' \<and>
    get_dbe hash d' (tgtidx e) =
      (if is_actually_executed (rs i) then Some \<lparr> dbe_diridx = diridx (rs i), cmds = cmd (rs i) \<rparr>
       else if is_forked i then None
       else get_dbe hash d (tgtidx e))"
proof -
  let ?k = "tgtidx e"
  have none: "rule_says (is_forked j) (rs j) ?k = None" if "j \<in> set ids" "j \<noteq> i" for j
  proof -
    have "?k \<notin> tgtidx ` set (tgtlist (rs j))" using assms(5)[OF that(1)] that(2) by (metis imageE)
    then show ?thesis by (simp add: rule_says_def)
  qed
  have "List.map_filter (\<lambda>j. rule_says (is_forked j) (rs j) ?k) ids
      = (case rule_says (is_forked i) (rs i) ?k of None \<Rightarrow> [] | Some x \<Rightarrow> [x])"
    using assms(2,3) none
  proof (induction ids)
    case (Cons j ids)
    show ?case
    proof (cases "j = i")
      case True
      then have "\<forall>j' \<in> set ids. rule_says (is_forked j') (rs j') ?k = None" using Cons.prems by auto
      then have "List.map_filter (\<lambda>j. rule_says (is_forked j) (rs j) ?k) ids = []"
        by (auto simp: List.map_filter_def filter_empty_conv)
      then show ?thesis using True by (simp add: List.map_filter_simps split: option.splits)
    next
      case False
      then show ?thesis using Cons by (simp add: List.map_filter_simps)
    qed
  qed simp
  then show ?thesis using merge_rules_ok[OF assms(1), of is_forked rs ids] assms(4)
    by (auto simp: rule_says_def)
qed

text \<open>the merge of the command database never aborts, and when every target belongs to one rule,
  the database then holds, for the targets of the rules whose commands were run to the end, the
  directory and the commands of the rule; for the targets of rules whose command was started and
  did not succeed, nothing; and for all others what it held before.\<close>

theorem merge_rules_get:
  assumes "db_ok hash d" "distinct ids" "i \<in> set ids" "e \<in> set (tgtlist (rs i))"
    "\<And>j e'. j \<in> set ids \<Longrightarrow> e' \<in> set (tgtlist (rs j)) \<Longrightarrow> tgtidx e' = tgtidx e \<Longrightarrow> j = i"
  shows "\<exists>d'. merge_rules hash is_forked rs ids d = Inr d' \<and> db_ok hash d' \<and>
    get_dbe hash d' (tgtidx e) =
      (if is_actually_executed (rs i) then Some \<lparr> dbe_diridx = diridx (rs i), cmds = cmd (rs i) \<rparr>
       else if is_forked i then None
       else get_dbe hash d (tgtidx e))"
  using assms by (rule merge_rules_unique)

theorem merge_rules_get_witness:
  "\<exists>d'. merge_rules id (\<lambda>_. False) (\<lambda>_. zero_rule\<lparr> is_actually_executed := True, cmd := [[''cc'']],
       tgtlist := [\<lparr> tgtidx = 1, tgtidxnodir = None, tgt_is_dist = False \<rparr>] \<rparr>) [0] empty_db = Inr d'
     \<and> get_dbe id d' 1 = Some \<lparr> dbe_diridx = 0, cmds = [[''cc'']] \<rparr>"
  using merge_rules_get[OF empty_db_ok(1), of "[0]" 0 "\<lparr> tgtidx = 1, tgtidxnodir = None, tgt_is_dist = False \<rparr>"
      "\<lambda>_. zero_rule\<lparr> is_actually_executed := True, cmd := [[''cc'']],
       tgtlist := [\<lparr> tgtidx = 1, tgtidxnodir = None, tgt_is_dist = False \<rparr>] \<rparr>" id "\<lambda>_. False"]
  by (auto simp: zero_rule_def)

section \<open>What a saved file gives back\<close>

lemma merge_v2_load:
  assumes names: "\<And>i. st_add (names i) = i" and t: "db_ok hash t"
    and st: "\<forall>p \<in> set (entries hash t). storable (snd p)"
    and dm: "merge_rules hash is_forked (rules b) [0 ..< rules_size b] d = Inr dm" "db_ok hash dm"
    and pr: "\<forall>p \<in> set (entries hash dm). printable_cmds (cmds (snd p))"
    and f: "merge_db_v2 hash names dbf_did_exist is_forked b d t = Inr (Some f)"
  shows "\<exists>d' t'. load_db_part2 hash st_add n f = Inr (d', t') \<and> db_ok hash d' \<and> db_ok hash t'
    \<and> (\<forall>k c dir. c \<noteq> [] \<longrightarrow> cmdequal_db hash d' k c dir = cmdequal_db hash dm k c dir)
    \<and> (\<forall>k x m istarget. fst (tsszequal_db hash k x m istarget t')
         = (\<exists>e. get_tsdbe hash t k = Some e \<and> written e = (x, m)))"
proof -
  have "\<forall>(k, e) \<in> set (entries hash t). storable e" using st by auto
  from merge_text[OF this, of names "entries hash dm" "''@v2@''"] f dm(1)
  have "f = file_text ''@v2@'' (map (rule_entry names) (entries hash dm) @ map (stamp_entry names) (entries hash t))"
    by (auto simp: merge_db_v2_def split: if_splits prod.splits)
  with load_file_text[OF names dm(2) t pr st, of n] obtain d' t' where l: "load_db_part2 hash st_add n f = Inr (d', t')"
    "db_ok hash d'" "db_ok hash t'" "entries hash d' = filter (\<lambda>p. cmds (snd p) \<noteq> []) (entries hash dm)"
    "entries hash t' = map (apsnd reloaded) (entries hash t)" by blast
  have find_t: "ht_find hash (byname t') k = map_option reloaded (ht_find hash (byname t) k)" for k
    by (simp only: map_of_entries[OF l(3), symmetric] map_of_entries[OF t, symmetric] l(5) apsnd_def map_prod_def
        id_apply map_of_map o_apply)
  show ?thesis using l(1-3) find_filter[OF l(2,4) dm(2)]
    by (auto simp: cmdequal_db_iff tsszequal_db_iff find_t get_tsdbe_def reloaded_def split: option.splits)
qed

text \<open>C22: what \<open>merge_db_v2\<close> writes, \<open>load_db_part2\<close> reads back in the next run: for a rule with
  commands the test \<open>cmdequal_db\<close> gives after loading what it gives on the merged database, and
  \<open>tsszequal_db\<close> accepts exactly the time stamp and the size written, which are the old ones for a
  file that was not looked at in this run and the new ones otherwise.  The string table must give
  every string back its index, the arguments are C strings, and the stamps are numbers the parser
  accepts.\<close>

theorem merge_load:
  assumes names: "\<And>i. st_add (names i) = i" and t: "db_ok hash t"
    and st: "\<forall>p \<in> set (entries hash t). storable (snd p)"
    and dm: "merge_rules hash is_forked (rules b) [0 ..< rules_size b] d = Inr dm" "db_ok hash dm"
    and pr: "\<forall>p \<in> set (entries hash dm). printable_cmds (cmds (snd p))"
    and f: "merge_db_v2 hash names dbf_did_exist is_forked b d t = Inr (Some f)"
  shows "\<exists>d' t'. load_db_part2 hash st_add n f = Inr (d', t') \<and> db_ok hash d' \<and> db_ok hash t'
    \<and> (\<forall>k c dir. c \<noteq> [] \<longrightarrow> cmdequal_db hash d' k c dir = cmdequal_db hash dm k c dir)
    \<and> (\<forall>k x m istarget. fst (tsszequal_db hash k x m istarget t')
         = (\<exists>e. get_tsdbe hash t k = Some e \<and> written e = (x, m)))"
  using assms by (rule merge_v2_load)

definition undec :: "string \<Rightarrow> nat" where
  "undec s = nat (fst (dec_digits 0 s))"

lemma undec_dec: "undec (dec n) = n"
  using dec_digits_dec[of 0 n "[]"] by (simp add: undec_def)

definition no_rules :: base where
  "no_rules = \<lparr> rules = (\<lambda>_. zero_rule), rules_size = 0, st_ruleid = (\<lambda>_. -1), rules_remain_list = [],
     later_blocks = [], later_last = 0 \<rparr>"

lemma one_entry_db:
  fixes e :: 'e
  shows "\<exists>d. db_ok hash d \<and> ht_find hash (byname d) = (\<lambda>_. None)(k \<mapsto> e) \<and> entries hash d = [(k, e)]"
proof -
  have "ht_find hash (byname (empty_db :: 'e database)) = (\<lambda>_. None)"
    by (simp add: empty_db_def db_init_def fun_eq_iff)
  moreover have "entries hash (empty_db :: 'e database) = []" by (rule empty_db_ok)
  ultimately show ?thesis using db_ins_ok[OF empty_db_ok(1), of hash k e] by auto
qed

theorem merge_load_witness:
  "\<exists>d t f d' t'. get_dbe id d 3 = Some \<lparr> dbe_diridx = 0, cmds = [[''cc'', ''a b'']] \<rparr>
    \<and> merge_db_v2 id dec True (\<lambda>_. False) no_rules d t = Inr (Some f)
    \<and> load_db_part2 id undec 8 f = Inr (d', t') \<and> cmdequal_db id d' 3 [[''cc'', ''a b'']] 0
    \<and> fst (tsszequal_db id 5 \<lparr> tv_sec = 17, tv_nsec = 4 \<rparr> 99 True t')"
proof -
  let ?e = "\<lparr> dbe_diridx = 0, cmds = [[''cc'', ''a b'']] \<rparr>"
  let ?t = "\<lparr> tv_sec = 17, tv_nsec = 4 \<rparr>"
  let ?x = "\<lparr> ts = ?t, tsnew = ?t, sz = 99, sznew = 99, seen = True \<rparr>"
  obtain d where d: "db_ok id d" "ht_find id (byname d) = (\<lambda>_. None)(3 \<mapsto> ?e)" "entries id d = [(3, ?e)]"
    using one_entry_db[of id 3 ?e] by (elim exE conjE) (rule that)
  obtain t where t: "db_ok id t" "ht_find id (byname t) = (\<lambda>_. None)(5 \<mapsto> ?x)" "entries id t = [(5, ?x)]"
    using one_entry_db[of id 5 ?x] by (elim exE conjE) (rule that)
  have dm: "merge_rules id (\<lambda>_. False) (rules no_rules) [0 ..< rules_size no_rules] d = Inr d"
    by (simp add: no_rules_def)
  then obtain f where f: "merge_db_v2 id dec True (\<lambda>_. False) no_rules d t = Inr (Some f)"
    by (cases "print_dbes dec True (entries id d)") (simp add: merge_db_v2_def)
  have "\<exists>d' t'. load_db_part2 id undec 8 f = Inr (d', t') \<and> db_ok id d' \<and> db_ok id t'
    \<and> (\<forall>k c dir. c \<noteq> [] \<longrightarrow> cmdequal_db id d' k c dir = cmdequal_db id d k c dir)
    \<and> (\<forall>k x m istarget. fst (tsszequal_db id k x m istarget t')
         = (\<exists>e. get_tsdbe id t k = Some e \<and> written e = (x, m)))"
    by (rule merge_load[OF undec_dec t(1) _ dm d(1) _ f])
       (simp_all add: t(3) d(3) storable_def written_def LLONG_MAX_def printable_cmds_def)
  then obtain d' t' where l: "load_db_part2 id undec 8 f = Inr (d', t')"
    "\<And>k c dir. c \<noteq> [] \<Longrightarrow> cmdequal_db id d' k c dir = cmdequal_db id d k c dir"
    "\<And>k x m istarget. fst (tsszequal_db id k x m istarget t')
         = (\<exists>e. get_tsdbe id t k = Some e \<and> written e = (x, m))" by (elim exE conjE) (rule that, assumption, blast+)
  have "get_dbe id d 3 = Some ?e" by (simp add: get_dbe_def d(2))
  moreover have "cmdequal_db id d' 3 [[''cc'', ''a b'']] 0" using l(2)[of "[[''cc'', ''a b'']]" 3 0]
    by (simp add: cmdequal_db_iff[of id d] d(2))
  moreover have "fst (tsszequal_db id 5 ?t 99 True t')" by (simp add: l(3) get_tsdbe_def t(2) written_def)
  ultimately show ?thesis using f l(1) by blast
qed

section \<open>Negative time stamps\<close>

lemma parse_negative:
  "parse_line True False (quoted tgt @ '' = '' @ dec n @ CHR '' '' # CHR ''-'' # r) (start_line d) = Inr None"
proof -
  obtain c ds where d: "dec n = c # ds" by (cases "dec n") auto
  then have "isdigit c" using dec_hd[of n] by simp
  then have "c \<noteq> CHR '' ''" "c \<noteq> tab_char" by (auto simp: isdigit_def)
  then have "skip_ws (dec n @ s) = dec n @ s" for s using d by simp
  moreover have "parse_line True False (CHR ''-'' # r) st = Inr None" for st
    by (simp add: parse_line.simps isdigit_def)
  ultimately show ?thesis by (simp add: start_line_def parse_quoted take_string_def parse_equals parse_number)
qed

lemma parse_lines_negative:
  assumes "\<forall>e \<in> set es. entry_ok True e" "was \<longrightarrow> dbyy_rule d \<noteq> None"
  shows "\<exists>ev. parse_lines True was d (concat (map (\<lambda>e. [nl] # map (\<lambda>l. l @ [nl]) (entry_lines e)) es) @
      [nl] # ((quoted tgt @ '' = '' @ dec n @ '' -'' @ r) @ [nl]) # ls) = Inr (False, ev)"
  using assms
proof (induction es arbitrary: was d)
  case Nil
  let ?l = "(quoted tgt @ '' = '' @ dec n @ '' -'' @ r) @ [nl]"
  have "skip_ws ?l = ?l" "hd ?l \<noteq> tab_char" by simp (simp add: quoted_def)
  then have "parse_lines True False d (?l # ls) = Inr (False, [])"
    using parse_negative[of tgt n "r @ [nl]" d]
    by (simp add: parse_lines.simps start_line_def)
  then show ?case using Nil by (auto simp: parse_lines_blank)
next
  case (Cons e es)
  have ok: "\<forall>e \<in> set es. entry_ok True e" using Cons.prems(1) by simp
  show ?case
  proof (cases e)
    case (Rule_Entry dir tgt' cs)
    let ?d = "(dbyy_emplace_rule dir tgt' d)\<lparr> dbyy_cmds := cs \<rparr>"
    have cs: "printable_cmds cs" using Cons.prems(1) Rule_Entry by simp
    have d: "dbyy_cmds (dbyy_emplace_rule dir tgt' d) = []" "dbyy_rule ?d = Some (dir, tgt')"
      by (simp_all add: dbyy_emplace_rule_def)
    then show ?thesis using Cons.IH[OF ok, of "cs \<noteq> []" ?d] d parse_lines_cmds[OF cs] Rule_Entry Cons.prems(2)
      by (auto simp: parse_lines_blank parse_lines_rule o_def)
  next
    case (Stamp_Entry tgt' n s ns)
    then show ?thesis using Cons.IH[OF ok, of False d] Cons.prems(2)
      by (auto simp: parse_lines_blank parse_lines_stamp)
  qed
qed

lemma run_events_ok:
  assumes "db_ok hash d" "db_ok hash t"
  shows "\<exists>d' t'. run_events hash st_add es (d, t) = Inr (d', t')"
  using assms
proof (induction hash st_add es "(d, t)" arbitrary: d t rule: run_events.induct)
  case (2 hash st_add dir tgt c es d t)
  from db_ins_ok[OF 2(2), of "st_add tgt" "\<lparr> dbe_diridx = st_add dir, cmds = c \<rparr>"] 2 show ?case
    by (auto simp: dbyy_cmdfn_def ins_dbe_def)
next
  case (3 hash st_add tgt n s ns es d t)
  from db_ins_ok[OF 3(3), of "st_add tgt" "\<lparr> ts = \<lparr> tv_sec = s, tv_nsec = ns \<rparr>,
      tsnew = \<lparr> tv_sec = 0, tv_nsec = 0 \<rparr>, sz = n, sznew = 0, seen = False \<rparr>"] 3 show ?case
    by (auto simp: dbyy_tsfn_def ins_tsdbe_def)
qed simp

lemma zap_dbs_empty: "get_dbe hash (fst (zap_dbs d t)) k = None" "get_tsdbe hash (snd (zap_dbs d t)) k = None"
  by (simp_all add: zap_dbs_def get_dbe_def get_tsdbe_def)

text \<open>\<open>merge_db_v2\<close> prints a negative time stamp (a file dated before 1970) as \<open>%lld\<close> does, with a
  minus sign, which \<open>dbyymineparse\<close> does not accept.  One such file, the last of the time stamp
  database, makes the next run discard both databases: whatever commands were saved, no target
  has an entry after loading.\<close>

theorem negative_stamp_discards:
  assumes pr: "\<forall>p \<in> set ds. printable_cmds (cmds (snd p))" and ne: "ds \<noteq> []"
  shows "\<exists>d' t'. load_db_part2 hash st_add m (''@v2@'' @ [nl, nl] @ fst (print_dbes names True ds) @
       print_tsdbes names False [(k, \<lparr> ts = x, tsnew = \<lparr> tv_sec = - 1 - int j, tv_nsec = int l \<rparr>, sz = n,
         sznew = int i, seen = True \<rparr>)]) = Inr (d', t')
   \<and> (\<forall>k. get_dbe hash d' k = None) \<and> (\<forall>k. get_tsdbe hash t' k = None)"
proof -
  let ?es = "map (rule_entry names) ds"
  let ?r = "dec (Suc j) @ '' '' @ dec l"
  let ?neg = "quoted (names k) @ '' = '' @ dec i @ '' -'' @ ?r"
  let ?L = "concat (map (\<lambda>e. [] # entry_lines e) ?es) @ [[], ?neg]"
  let ?f = "concat (map (\<lambda>l. l @ [nl]) (''@v2@'' # ?L))"
  have eq: "''@v2@'' @ [nl, nl] @ fst (print_dbes names True ds) @
       print_tsdbes names False [(k, \<lparr> ts = x, tsnew = \<lparr> tv_sec = - 1 - int j, tv_nsec = int l \<rparr>, sz = n,
         sznew = int i, seen = True \<rparr>)] = ?f"
  proof -
    obtain p ds' where "ds = p # ds'" using ne by (cases ds) auto
    moreover have "nat (int j + 1) = Suc j" by simp
    ultimately show ?thesis by (simp add: print_dbes_True print_dbes_False print_ll_def o_def)
  qed
  have plain: "plain l" if "l \<in> set ?L" for l using that by (auto simp: plain_entry split: if_splits)
  from mineparse_lines[of ?L "''@v2@''" True, OF this]
  have parse: "dbyymineparse ?f = parse_lines True False \<lparr> dbyy_rule = None, dbyy_cmds = [] \<rparr> (map (\<lambda>l. l @ [nl]) ?L)"
    by simp
  have "\<forall>e \<in> set ?es. entry_ok True e" using pr by auto
  from parse_lines_negative[OF this, of False "\<lparr> dbyy_rule = None, dbyy_cmds = [] \<rparr>" "names k" i ?r "[]"]
  obtain ev where "dbyymineparse ?f = Inr (False, ev)"
    unfolding parse by (auto simp: map_concat o_def)
  moreover obtain d' t' where "run_events hash st_add ev (db_init m \<lparr> byname = ht_init 0, ll = [] \<rparr>,
      db_init m \<lparr> byname = ht_init 0, ll = [] \<rparr>) = Inr (d', t')"
    using run_events_ok[OF db_init_ok(1) db_init_ok(1)] by fastforce
  ultimately have "load_db_part2 hash st_add m ?f = Inr (zap_dbs d' t')"
    by (simp add: load_db_part2_def)
  then show ?thesis unfolding eq using zap_dbs_empty[of hash d' t'] by (metis prod.collapse)
qed

theorem negative_stamp_discards_witness:
  "\<exists>d' t'. load_db_part2 id undec 8 (''@v2@'' @ [nl, nl] @
       fst (print_dbes dec True [(3, \<lparr> dbe_diridx = 0, cmds = [[''cc'']] \<rparr>)]) @
       print_tsdbes dec False [(5, \<lparr> ts = \<lparr> tv_sec = 1, tv_nsec = 0 \<rparr>, tsnew = \<lparr> tv_sec = - 1, tv_nsec = 0 \<rparr>,
         sz = 1, sznew = 1, seen = True \<rparr>)]) = Inr (d', t') \<and> get_dbe id d' 3 = None"
  using negative_stamp_discards[of "[(3, \<lparr> dbe_diridx = 0, cmds = [[''cc'']] \<rparr>)]" id undec 8 dec 5
      "\<lparr> tv_sec = 1, tv_nsec = 0 \<rparr>" 0 0 1 1]
  by (auto simp: printable_cmds_def simp del: print_dbes.simps print_tsdbes.simps)

end
