(* ===== verification/Null_Build.thy ===== *)
theory Null_Build
  imports Up_To_Date Db_File
begin

text \<open>
  One rule over two runs of stirmake: what \<open>do_exec\<close> decides, what \<open>mark_executed\<close> records once the
  recipe has ended, and that after the databases went through the file \<open>.stir.db\<close> the next run leaves
  the rule alone.
\<close>

section \<open>When a finished recipe is accepted\<close>

lemma normal_tgts_returns:
  assumes "w_ok_on K cfg w" "\<not> is_maybe r"
    "\<forall>e \<in> set es. lst cfg w (tgtidx e) \<noteq> None \<and> (\<forall>t. st_mtim r = Some t \<longrightarrow> t \<le> tgt_time cfg w e)"
  shows "\<exists>w'. normal_tgts cfg r True False es w = Inr w'"
  using assms(1,3)
proof (induction es arbitrary: w)
  case Nil
  then show ?case by simp
next
  case (Cons e es)
  from Cons.prems obtain x where x: "lst cfg w (tgtidx e) = Some x" by auto
  from store_target_ok[OF Cons.prems(1) x] obtain w1 where w1: "store_target cfg (tgtidx e) x w = Inr w1"
    "w_ok_on K cfg w1" "recorded cfg {tgtidx e} w w1" by blast
  have "\<not> (case st_mtim r of None \<Rightarrow> False | Some t \<Rightarrow> ts_cmp (st_mtime x) t < 0)"
    using Cons.prems(2) x by (auto simp: tgt_time_def split: option.splits)
  then have "normal_tgt cfg r True False e w = Inr w1"
    using x w1(1) by (simp add: normal_tgt_def lst_def)
  moreover have "\<exists>w'. normal_tgts cfg r True False es w1 = Inr w'"
    using Cons.IH[OF w1(2)] Cons.prems(2) recorded_lst[OF w1(3)] by (simp add: tgt_time_def)
  ultimately show ?case by auto
qed

lemma finish_rule_returns:
  assumes r: "made_rule cfg (rules s ruleid)"
    and w: "w_ok_on (- tgtidx ` set (tgtlist (rules s ruleid))) cfg (world s)"
    and acyc: "\<forall>e \<in> set (deplist (rules s ruleid)). nameidx e \<notin> tgtidx ` set (tgtlist (rules s ruleid))"
    and new: "\<forall>e \<in> set (tgtlist (rules s ruleid)). lst cfg (world s) (tgtidx e) \<noteq> None
        \<and> (\<forall>t. st_mtim (rules s ruleid) = Some t \<longrightarrow> t \<le> tgt_time cfg (world s) e)"
  shows "\<exists>w'. finish_rule cfg n ruleid True s = Inr w'"
proof -
  let ?r = "rules s ruleid"
  let ?T = "tgtidx ` set (tgtlist ?r)"
  have mb: "\<not> is_maybe ?r" using r by (simp add: made_rule_def)
  obtain w1 where 1: "normal_tgts cfg ?r True False (tgtlist ?r) (world s) = Inr w1"
    using normal_tgts_returns[OF w mb new] by blast
  have n1: "w_ok_on (- ?T) cfg w1" using normal_tgts_ok[OF 1 w mb] by simp
  obtain w2 where 2: "record_deps cfg (deplist ?r) w1 = Inr w2" "w_ok_on (- ?T) cfg w2"
    using record_deps_ok[OF n1] acyc by blast
  have dr: "\<not> dry_run cfg" "\<forall>e \<in> set (tgtlist ?r). \<not> is_cdepwatch cfg (tgtidx e)"
    using r by (auto simp: made_rule_def)
  obtain w3 where "evict_tgts cfg (diridx ?r) True (tgtlist ?r) w2 = Inr w3"
    using evict_tgts_ok[OF 2(2) dr] by blast
  then show ?thesis
    using 1 2 r by (auto simp: finish_rule_def record_tgts_def made_rule_def plain_rule_def Let_def)
qed

section \<open>The next run\<close>

text \<open>The parts of a rule that the two runs share.\<close>

definition same_rule :: "rule \<Rightarrow> rule \<Rightarrow> bool" where
  "same_rule r r' \<longleftrightarrow> is_phony r' = is_phony r \<and> is_inc r' = is_inc r \<and> is_maybe r' = is_maybe r
     \<and> is_detouch r' = is_detouch r \<and> is_rectgt r' = is_rectgt r \<and> diridx r' = diridx r
     \<and> tgtlist r' = tgtlist r \<and> deplist r' = deplist r"

lemma same_rule_made: "same_rule r r' \<Longrightarrow> made_rule cfg r' = made_rule cfg r"
  "same_rule r r' \<Longrightarrow> plain_rule r' = plain_rule r"
  by (simp_all add: same_rule_def made_rule_def plain_rule_def)

text \<open>The dependencies are in order for a second run: each exists, none is phony, a symbolic link
  leads somewhere, and no stamp is newer than those the first run saw.\<close>

definition deps_settled :: "config \<Rightarrow> nat \<Rightarrow> build sched \<Rightarrow> build sched \<Rightarrow> nat \<Rightarrow> bool" where
  "deps_settled cfg n s0 s2 i \<longleftrightarrow> (\<forall>e \<in> set (deplist (rules s2 i)).
     (\<not> is_dupe e \<longrightarrow> \<not> phony_dep s2 e \<and> (\<not> is_recursive e \<longrightarrow>
        (case lst cfg (world s2) (nameidx e) of
           None \<Rightarrow> False
         | Some x \<Rightarrow> st_lnk x \<longrightarrow> f_stat (fs (world s2)) (names cfg (nameidx e)) \<noteq> None)))
     \<and> dep_readable cfg n s2 (rules s2 i) (world s2) e
     \<and> set (dep_stamps cfg n s2 (rules s2 i) (world s2) e)
         \<subseteq> set (dep_stamps cfg n s0 (rules s0 i) (world s0) e))"

lemma newest_le: "e \<in> set (deplist (rules s i)) \<Longrightarrow> x \<in> set (dep_stamps cfg n s (rules s i) (world s) e)
   \<Longrightarrow> x \<le> newest cfg n s i"
  using fold_max_less[of "newest cfg n s i" "concat (map (dep_stamps cfg n s (rules s i) (world s))
     (deplist (rules s i)))" epoch]
  by (auto simp: newest_def not_less[symmetric])

text \<open>What the first run leaves behind, seen from the second.\<close>

lemma first_run_stamps:
  assumes w: "w_ok cfg (world s0)" and r: "made_rule cfg (rules s0 i)" and c: "calc cfg i = Inr c"
    and rd: "\<forall>e \<in> set (deplist (rules s0 i)). dep_readable cfg n s0 (rules s0 i) (world s0) e"
    and tt: "\<forall>e \<in> set (tgtlist (rules s0 i)). lst cfg (world s0) (tgtidx e) \<noteq> None \<longrightarrow> epoch \<le> tgt_time cfg (world s0) e"
    and ran: "decide_exec cfg n i s0 = Inr (queue, c', mt, w0)"
    and e: "e \<in> set (deplist (rules s0 i))" "x \<in> set (dep_stamps cfg n s0 (rules s0 i) (world s0) e)"
  shows "x \<le> (case mt of None \<Rightarrow> epoch | Some t \<Rightarrow> t)"
proof -
  have "plain_rule (rules s0 i)" using r by (simp add: made_rule_def)
  from decide_exec_ok[OF w this c rd tt] ran obtain seen where
    "mt = (if seen then Some (newest cfg n s0 i) else None)" "\<not> seen \<longrightarrow> newest cfg n s0 i = epoch" by auto
  then show ?thesis using newest_le[OF e] by (cases seen) auto
qed

lemma second_run:
  assumes w0: "w_ok cfg (world s0)" "made_rule cfg (rules s0 i)" "calc cfg i = Inr c"
    and rd: "\<forall>e \<in> set (deplist (rules s0 i)). dep_readable cfg n s0 (rules s0 i) (world s0) e"
    and tt: "\<forall>e \<in> set (tgtlist (rules s0 i)). lst cfg (world s0) (tgtidx e) \<noteq> None \<longrightarrow> epoch \<le> tgt_time cfg (world s0) e"
    and ran: "decide_exec cfg n i s0 = Inr (queue, c', mt, w0')"
    and s: "same_rule (rules s0 i) (rules s i)" "st_mtim (rules s i) = mt" "fs (world s) = fs (world s2)"
      "\<forall>e \<in> set (tgtlist (rules s i)). lst cfg (world s) (tgtidx e) \<noteq> None
         \<and> (\<forall>t. st_mtim (rules s i) = Some t \<longrightarrow> t \<le> tgt_time cfg (world s) e)"
      "\<forall>e \<in> set (tgtlist (rules s i)). epoch \<le> tgt_time cfg (world s) e"
    and s2: "same_rule (rules s0 i) (rules s2 i)" "w_ok cfg (world s2)" "remade (world s2) = {}"
      "\<not> unconditional cfg" "deps_settled cfg n s0 s2 i"
    and db: "\<forall>e \<in> set (tgtlist (rules s2 i)). cmdequal_db (hash cfg) (cmddb (world s2)) (tgtidx e) c (diridx (rules s2 i))"
      "\<forall>k x. k \<in> tgtidx ` set (tgtlist (rules s2 i)) \<union> {nameidx e | e. e \<in> set (deplist (rules s2 i)) \<and> \<not> is_dupe e} \<longrightarrow>
         lst cfg (world s2) k = Some x \<longrightarrow> stamp cfg (world s2) k = Some (st_mtime x, st_size x)"
  shows "\<exists>mt' w'. decide_exec cfg n i s2 = Inr (False, c, mt', w')"
proof -
  let ?r = "rules s2 i" and ?w = "world s2"
  have l: "lst cfg (world s) = lst cfg ?w" by (simp add: lst_def s(3) fun_eq_iff)
  have tl: "tgtlist ?r = tgtlist (rules s i)" "deplist ?r = deplist (rules s0 i)"
    using s(1) s2(1) by (simp_all add: same_rule_def)
  have pr: "plain_rule ?r" and pre: "pretends cfg = []"
    using w0(2) same_rule_made(2)[OF s2(1)] by (simp_all add: made_rule_def)
  have tgts: "lst cfg ?w (tgtidx e) \<noteq> None" "epoch \<le> tgt_time cfg ?w e"
    "(case mt of None \<Rightarrow> epoch | Some t \<Rightarrow> t) \<le> tgt_time cfg ?w e" if "e \<in> set (tgtlist ?r)" for e
    using that s(2,4,5) unfolding tl tgt_time_def l by (auto split: option.splits)
  have deps: "\<not> is_dupe e \<longrightarrow> \<not> phony_dep s2 e \<and> (\<not> is_recursive e \<longrightarrow>
        (case lst cfg ?w (nameidx e) of None \<Rightarrow> False
         | Some x \<Rightarrow> st_lnk x \<longrightarrow> f_stat (fs ?w) (names cfg (nameidx e)) \<noteq> None))"
      "dep_readable cfg n s2 ?r ?w e"
      "set (dep_stamps cfg n s2 ?r ?w e) \<subseteq> set (dep_stamps cfg n s0 (rules s0 i) (world s0) e)"
    if "e \<in> set (deplist ?r)" for e
    using that s2(5) by (simp_all add: deps_settled_def)
  have no_dep: "\<not> dep_forces cfg s2 ?w e" if e: "e \<in> set (deplist ?r)" for e
  proof (cases "lst cfg ?w (nameidx e)")
    case None
    then show ?thesis using deps(1)[OF e] pre s2(3) by (auto simp: dep_forces_def)
  next
    case (Some x)
    then have "\<not> is_dupe e \<Longrightarrow> stamp cfg ?w (nameidx e) = Some (st_mtime x, st_size x)" using db(2) e by auto
    then show ?thesis using deps(1)[OF e] pre s2(3) Some by (auto simp: dep_forces_def)
  qed
  have no_tgt: "\<not> tgt_forces cfg (diridx ?r) c ?w e" if e: "e \<in> set (tgtlist ?r)" for e
  proof -
    obtain x where x: "lst cfg ?w (tgtidx e) = Some x" using tgts(1)[OF e] by auto
    then have "stamp cfg ?w (tgtidx e) = Some (st_mtime x, st_size x)" using db(2) e by blast
    then show ?thesis using db(1) e x by (simp add: tgt_forces_def)
  qed
  have no_late: "\<not> tgt_time cfg ?w e' < x" if "e \<in> set (deplist ?r)" "e' \<in> set (tgtlist ?r)"
    "x \<in> set (dep_stamps cfg n s2 ?r ?w e)" for e e' x
    using first_run_stamps[OF w0 rd tt ran, of e x] deps(3)[OF that(1)] that tgts(3)[OF that(2)]
    by (auto simp: tl(2) not_less)
  have "\<not> needs_making cfg n s2 i c"
    unfolding needs_making_def Let_def using no_dep no_tgt no_late s2(4) by blast
  then show ?thesis using decide_exec_ok[OF s2(2) pr w0(3), of n] deps(2) tgts(2) by auto
qed

section \<open>The composition\<close>

text \<open>C19: a null build does nothing.  In the first run the rule is decided to be made for the command
  \<open>c\<close>, its recipe runs, \<open>mark_executed\<close> accepts the targets and records them and the dependencies,
  and \<open>merge_db_v2\<close> writes the databases.  Then the file loads, and in a next run that starts with
  the loaded databases on the same file system and gets the same command, \<open>do_exec\<close> decides that the
  rule need not be made, provided its dependencies are in order.\<close>

theorem null_build:
  assumes w0: "w_ok cfg (world s0)" "made_rule cfg (rules s0 i)" "calc cfg i = Inr c"
    and rd: "\<forall>e \<in> set (deplist (rules s0 i)). dep_readable cfg n s0 (rules s0 i) (world s0) e"
    and tt: "\<forall>e \<in> set (tgtlist (rules s0 i)). lst cfg (world s0) (tgtidx e) \<noteq> None \<longrightarrow> epoch \<le> tgt_time cfg (world s0) e"
    and ran: "decide_exec cfg n i s0 = Inr (True, c, mt, w0')"
    and s: "same_rule (rules s0 i) (rules s i)" "st_mtim (rules s i) = mt"
      "w_ok_on (- tgtidx ` set (tgtlist (rules s i))) cfg (world s)"
      "\<forall>e \<in> set (deplist (rules s i)). nameidx e \<notin> tgtidx ` set (tgtlist (rules s i))"
      "\<forall>e \<in> set (tgtlist (rules s i)). epoch \<le> tgt_time cfg (world s) e"
    and fin: "finish_rule cfg n i True s = Inr w1"
    and b: "same_rule (rules s0 i) (rules b i)" "i < rules_size b" "is_actually_executed (rules b i)"
      "cmd (rules b i) = c"
      "\<And>j e e'. j < rules_size b \<Longrightarrow> e' \<in> set (tgtlist (rules b j)) \<Longrightarrow> e \<in> set (tgtlist (rules b i)) \<Longrightarrow>
         tgtidx e' = tgtidx e \<Longrightarrow> j = i"
    and names: "\<And>k. st_add (names cfg k) = k"
    and pr: "\<And>dm. merge_rules (hash cfg) is_forked (rules b) [0 ..< rules_size b] (cmddb w1) = Inr dm \<Longrightarrow>
      \<forall>p \<in> set (entries (hash cfg) dm). printable_cmds (cmds (snd p))"
    and st: "\<forall>p \<in> set (entries (hash cfg) (stampdb w1)). storable (snd p)"
    and save: "merge_db_v2 (hash cfg) (names cfg) dbf_did_exist is_forked b (cmddb w1) (stampdb w1) = Inr (Some f)"
    and cache: "cache_ok (hash cfg) sc" "cached sc = []"
    and un: "\<not> unconditional cfg"
  shows "\<exists>d' t'. load_db_part2 (hash cfg) st_add m f = Inr (d', t') \<and>
    (\<forall>s2. same_rule (rules s0 i) (rules s2 i) \<and> deps_settled cfg n s0 s2 i \<and>
       world s2 = w1\<lparr> statc := sc, cmddb := d', stampdb := t', remade := {} \<rparr> \<longrightarrow>
     (\<exists>mt' w'. decide_exec cfg n i s2 = Inr (False, c, mt', w')))"
proof -
  have r: "made_rule cfg (rules s i)" using w0(2) same_rule_made(1)[OF s(1)] by simp
  note fr = finish_rule_ok[OF fin r s(3,4)]
  have dbs: "db_ok (hash cfg) (cmddb w1)" "db_ok (hash cfg) (stampdb w1)" using fr by (auto simp: w_ok_def)
  obtain dm where dm: "merge_rules (hash cfg) is_forked (rules b) [0 ..< rules_size b] (cmddb w1) = Inr dm"
    "db_ok (hash cfg) dm" using merge_rules_ok[OF dbs(1)] by blast
  have c: "c \<noteq> []" using decide_cmd[OF ran] by simp
  have bl: "tgtlist (rules b i) = tgtlist (rules s i)" "diridx (rules b i) = diridx (rules s i)"
    using b(1) s(1) by (simp_all add: same_rule_def)
  have cmd_ok: "cmdequal_db (hash cfg) dm (tgtidx e) c (diridx (rules s i))" if "e \<in> set (tgtlist (rules s i))" for e
  proof -
    have e: "e \<in> set (tgtlist (rules b i))" using that bl by simp
    have "i \<in> set [0 ..< rules_size b]" "distinct [0 ..< rules_size b]" using b(2) by simp_all
    from merge_rules_unique[where rs = "rules b", OF dbs(1) this(2,1) e, of is_forked] b(5)[OF _ _ e] dm(1)
    have "get_dbe (hash cfg) dm (tgtidx e) = Some \<lparr> dbe_diridx = diridx (rules b i), cmds = cmd (rules b i) \<rparr>"
      by (simp add: b(3))
    then show ?thesis using b(4) bl(2) by (simp add: cmdequal_db_iff get_dbe_def)
  qed
  obtain d' t' where ld: "load_db_part2 (hash cfg) st_add m f = Inr (d', t')" "db_ok (hash cfg) d'" "db_ok (hash cfg) t'"
    "\<forall>k c dir. c \<noteq> [] \<longrightarrow> cmdequal_db (hash cfg) d' k c dir = cmdequal_db (hash cfg) dm k c dir"
    "\<forall>k x m istarget. fst (tsszequal_db (hash cfg) k x m istarget t')
         = (\<exists>e. get_tsdbe (hash cfg) (stampdb w1) k = Some e \<and> written e = (x, m))"
    using merge_v2_load[OF names dbs(2) st dm pr[OF dm(1)] save, of m] by (elim exE conjE) (rule that; assumption)
  have "\<exists>mt' w'. decide_exec cfg n i s2 = Inr (False, c, mt', w')"
    if s2: "same_rule (rules s0 i) (rules s2 i)" "deps_settled cfg n s0 s2 i"
      "world s2 = w1\<lparr> statc := sc, cmddb := d', stampdb := t', remade := {} \<rparr>" for s2
  proof -
    have fs: "fs (world s) = fs (world s2)" using fr s2(3) by simp
    then have l: "lst cfg (world s) = lst cfg (world s2)" by (simp add: lst_def fun_eq_iff)
    have sl: "tgtlist (rules s2 i) = tgtlist (rules s i)" "deplist (rules s2 i) = deplist (rules s i)"
      "diridx (rules s2 i) = diridx (rules s i)" using s(1) s2(1) by (simp_all add: same_rule_def)
    have stm: "stamp cfg (world s2) k = Some (st_mtime x, st_size x)"
      if g: "good_stamp cfg w1 k" "lst cfg (world s2) k = Some x" for k x
    proof -
      have "lst cfg w1 = lst cfg (world s2)" using s2(3) by (simp add: lst_def fun_eq_iff)
      then obtain e where "get_tsdbe (hash cfg) (stampdb w1) k = Some e" "written e = (st_mtime x, st_size x)"
        using g by (auto simp: good_stamp_def marked_def get_tsdbe_def)
      then have "fst (tsszequal_db (hash cfg) k (st_mtime x) (st_size x) True t')" using ld(5) by blast
      then show ?thesis using s2(3) by (auto simp: tsszequal_db_iff stamp_def)
    qed
    show ?thesis
    proof (rule second_run[OF w0 rd tt ran s(1,2) fs _ s(5) s2(1) _ _ un s2(2)])
      show "w_ok cfg (world s2)" using s2(3) cache ld(2,3) by (simp add: w_ok_def coherent_on_def)
    qed (use fr cmd_ok stm c sl s2(3) ld(4) l in auto)
  qed
  then show ?thesis using ld(1) by blast
qed

section \<open>An example\<close>

text \<open>One rule that makes the file 1 from the file 0; the recipe creates file 1.\<close>

lemma w_ok_on_change:
  assumes "w_ok cfg w" "\<And>k. k \<in> K \<Longrightarrow> lst cfg (w\<lparr> fs := f \<rparr>) k = lst cfg w k"
  shows "w_ok_on K cfg (w\<lparr> fs := f \<rparr>)"
  using assms by (auto simp: w_ok_def w_ok_on_def coherent_on_def)

definition ex_stat :: "int \<Rightarrow> filestat" where
  "ex_stat n = \<lparr> st_dir = False, st_lnk = False, st_mtime = \<lparr> tv_sec = n, tv_nsec = 0 \<rparr>, st_size = 9 \<rparr>"

definition ex_files :: "bool \<Rightarrow> string \<Rightarrow> filestat option" where
  "ex_files made f = (if f = dec 0 then Some (ex_stat 5) else if f = dec 1 \<and> made then Some (ex_stat 7) else None)"

definition ex_fs :: "bool \<Rightarrow> fsys" where
  "ex_fs made = \<lparr> f_stat = ex_files made, f_lstat = ex_files made, f_dir = (\<lambda>_. None), f_access = (\<lambda>_. True) \<rparr>"

definition ex_cfg :: config where
  "ex_cfg = \<lparr> hash = id, names = dec, st_get = (\<lambda>_. None), pretends = [], unconditional = False, usetsdb = True,
     touchmode = False, dry_run = False, is_cdepwatch = (\<lambda>_. False), calc = (\<lambda>_. Inr [[''cc'']]),
     utimens = (\<lambda>_ _ _ f. f), cdep_read = (\<lambda>_ _ _. None) \<rparr>"

definition ex_rule :: rule where
  "ex_rule = zero_rule\<lparr> tgtlist := [\<lparr> tgtidx = 1, tgtidxnodir = None, tgt_is_dist = False \<rparr>],
     deplist := [\<lparr> nameidx = 0, nameidxnodir = None, is_recursive = False, is_orderonly = False, is_wait = False,
       is_primary = True, is_dupe = False, dep_is_inc = False, dep_ruleid = -1 \<rparr>] \<rparr>"

definition ex_sched :: "rule \<Rightarrow> build \<Rightarrow> build sched" where
  "ex_sched r w = \<lparr> rules = (\<lambda>_. r), rules_size = 1, st_ruleid = (\<lambda>_. -1), rules_remain_list = [],
     later_blocks = [], later_last = 0, ruleids_to_run = [], world = w \<rparr>"

definition ex_world :: build where
  "ex_world = \<lparr> fs = ex_fs False, statc = cache_init small_cache, accessc = cache_init small_cache,
     cmddb = empty_db, stampdb = empty_db, remade = {} \<rparr>"

lemma dec_inj [simp]: "dec a = dec b \<longleftrightarrow> a = b"
  by (metis undec_dec)

lemma ex_lst:
  "lst ex_cfg (w\<lparr> fs := ex_fs b \<rparr>) 0 = Some (ex_stat 5)"
  "lst ex_cfg (w\<lparr> fs := ex_fs b \<rparr>) (Suc 0) = (if b then Some (ex_stat 7) else None)"
  by (simp_all add: lst_def ex_cfg_def ex_fs_def ex_files_def)

lemma ex_world_fs: "ex_world = ex_world\<lparr> fs := ex_fs False \<rparr>"
  by (simp add: ex_world_def)

lemma ex_world_ok: "w_ok ex_cfg ex_world"
  using small_cache_ok empty_db_ok by (simp add: w_ok_def ex_world_def coherent_on_def small_cache_ok empty_db_ok)

lemma ex_sched_simps [simp]:
  "rules (ex_sched r w) i = r" "world (ex_sched r w) = w" "st_ruleid (ex_sched r w) k = -1"
  by (simp_all add: ex_sched_def)

lemma ex_rule_simps [simp]:
  "tgtlist ex_rule = [\<lparr> tgtidx = 1, tgtidxnodir = None, tgt_is_dist = False \<rparr>]"
  "deplist ex_rule = [\<lparr> nameidx = 0, nameidxnodir = None, is_recursive = False, is_orderonly = False,
     is_wait = False, is_primary = True, is_dupe = False, dep_is_inc = False, dep_ruleid = -1 \<rparr>]"
  "diridx ex_rule = 0"
  by (simp_all add: ex_rule_def zero_rule_def)

lemma ex_made: "made_rule ex_cfg ex_rule"
  by (simp add: made_rule_def plain_rule_def ex_cfg_def) (simp add: ex_rule_def zero_rule_def)

text \<open>The second field is the time stamp; the first run finds the target missing.\<close>

lemma ex_stamps:
  "dep_stamps ex_cfg n (ex_sched r w) r' (w'\<lparr> fs := ex_fs b \<rparr>) \<lparr> nameidx = 0, nameidxnodir = None,
     is_recursive = False, is_orderonly = False, is_wait = False, is_primary = True, is_dupe = False,
     dep_is_inc = False, dep_ruleid = -1 \<rparr> = [\<lparr> tv_sec = 5, tv_nsec = 0 \<rparr>]"
  by (simp add: dep_stamps_def phony_dep_def stirdep_ruleid_def ex_lst pretend_idx_def)
     (simp add: ex_stat_def ex_cfg_def)

lemma ex_readable:
  "dep_readable ex_cfg n (ex_sched r w) r' (w'\<lparr> fs := ex_fs b \<rparr>) \<lparr> nameidx = 0, nameidxnodir = None,
     is_recursive = False, is_orderonly = False, is_wait = False, is_primary = True, is_dupe = False,
     dep_is_inc = False, dep_ruleid = -1 \<rparr>"
  by (simp add: dep_readable_def ex_stamps) (simp add: epoch_def less_eq_timespec_ext_def)

text \<open>The hypotheses of the decision hold in the first run.\<close>

lemma ex_first_hyps:
  fixes n
  defines "s \<equiv> ex_sched ex_rule ex_world"
  shows "w_ok ex_cfg (world s)" "plain_rule (rules s 0)" "calc ex_cfg 0 = Inr [[''cc'']]"
    "\<forall>e \<in> set (deplist (rules s 0)). dep_readable ex_cfg n s (rules s 0) (world s) e"
    "\<forall>e \<in> set (tgtlist (rules s 0)). lst ex_cfg (world s) (tgtidx e) \<noteq> None \<longrightarrow> epoch \<le> tgt_time ex_cfg (world s) e"
    "needs_making ex_cfg n s 0 [[''cc'']]" "newest ex_cfg n s 0 = \<lparr> tv_sec = 5, tv_nsec = 0 \<rparr>"
    "\<not> (\<exists>e \<in> set (tgtlist (rules s 0)). pretend_idx ex_cfg (tgtidx e) PRETEND_VERY_OLD_NO_REMAKE)"
proof -
  have miss: "lst ex_cfg ex_world (Suc 0) = None" using ex_lst(2)[of False ex_world] ex_world_fs by simp
  have new: "newest ex_cfg n s 0 = max \<lparr> tv_sec = 5, tv_nsec = 0 \<rparr> epoch"
    using ex_stamps[of n ex_rule ex_world ex_rule False ex_world] ex_world_fs by (simp add: s_def newest_def)
  show "w_ok ex_cfg (world s)" "plain_rule (rules s 0)" "calc ex_cfg 0 = Inr [[''cc'']]"
    using ex_made ex_world_ok by (simp_all add: s_def made_rule_def) (simp add: ex_cfg_def)
  show "\<forall>e \<in> set (deplist (rules s 0)). dep_readable ex_cfg n s (rules s 0) (world s) e"
    using ex_readable[of n ex_rule ex_world ex_rule False ex_world] ex_world_fs by (simp add: s_def)
  show "\<forall>e \<in> set (tgtlist (rules s 0)). lst ex_cfg (world s) (tgtidx e) \<noteq> None \<longrightarrow> epoch \<le> tgt_time ex_cfg (world s) e"
    using miss by (simp add: s_def)
  show "needs_making ex_cfg n s 0 [[''cc'']]"
    unfolding needs_making_def Let_def s_def by (simp add: tgt_forces_def miss)
  show "newest ex_cfg n s 0 = \<lparr> tv_sec = 5, tv_nsec = 0 \<rparr>"
    unfolding new by (simp add: max_def epoch_def less_eq_timespec_ext_def)
  show "\<not> (\<exists>e \<in> set (tgtlist (rules s 0)). pretend_idx ex_cfg (tgtidx e) PRETEND_VERY_OLD_NO_REMAKE)"
    by (simp add: ex_cfg_def pretend_idx_def)
qed

lemma ex_first:
  "\<exists>mt w0. decide_exec ex_cfg n 0 (ex_sched ex_rule ex_world) = Inr (True, [[''cc'']], mt, w0)
     \<and> (mt = None \<or> mt = Some \<lparr> tv_sec = 5, tv_nsec = 0 \<rparr>) \<and> same_world ex_cfg ex_world w0"
  using decide_exec_ok[where n = n, OF ex_first_hyps(1-5)] ex_first_hyps(6,7)[of n] ex_first_hyps(8) by (auto split: if_splits)

section \<open>The decision and the acceptance\<close>

text \<open>C20: the decision of \<open>do_exec\<close>.  For a rule with targets and dependencies that is neither phony nor
  an include rule it is: the build is unconditional, or some dependency is pretended modified, was
  remade, is phony, is missing, is a dangling link or differs from its recorded time stamp and size,
  or some target is missing, differs from its record or was last made with another command or in
  another directory, or some dependency is newer than some target; unless the rule has no command
  or a target is pretended to be old.  The loops over the dependencies and targets of the code compute
  it with one pass each, and only the file cache and the notes of seen files change.\<close>

theorem do_exec_decision:
  assumes "w_ok cfg (world s)" "plain_rule (rules s ruleid)" "calc cfg ruleid = Inr c"
    "\<forall>e \<in> set (deplist (rules s ruleid)). dep_readable cfg n s (rules s ruleid) (world s) e"
    "\<forall>e \<in> set (tgtlist (rules s ruleid)). lst cfg (world s) (tgtidx e) \<noteq> None \<longrightarrow>
      epoch \<le> tgt_time cfg (world s) e"
  shows "\<exists>seen w'. decide_exec cfg n ruleid s =
      Inr (needs_making cfg n s ruleid c \<and> c \<noteq> [] \<and>
           \<not> (\<exists>e \<in> set (tgtlist (rules s ruleid)). pretend_idx cfg (tgtidx e) PRETEND_VERY_OLD_NO_REMAKE),
           c, if seen then Some (newest cfg n s ruleid) else None, w')
    \<and> (\<not> seen \<longrightarrow> newest cfg n s ruleid = epoch) \<and> same_world cfg (world s) w'"
  using assms by (rule decide_exec_ok)

theorem do_exec_decision_witness:
  "\<exists>mt w'. decide_exec ex_cfg 3 0 (ex_sched ex_rule ex_world) = Inr (True, [[''cc'']], mt, w')"
  using do_exec_decision[where n = 3, OF ex_first_hyps(1-5)] ex_first_hyps(6,7)[of 3] ex_first_hyps(8) by auto

text \<open>C21: what \<open>mark_executed\<close> demands of a finished recipe and what it leaves behind.  For a rule that
  is neither phony, maybe, recursive nor detouched it fails with an error exactly when some target
  does not exist or is older than the dependencies were; otherwise the file cache is right again
  for all files, the file system and the command database are unchanged, and the time stamp
  database holds the current stamp and size of every target and of every existing dependency.\<close>

theorem finish_rule_accepts:
  assumes "made_rule cfg (rules s ruleid)"
    and "w_ok_on (- tgtidx ` set (tgtlist (rules s ruleid))) cfg (world s)"
    and "\<forall>e \<in> set (deplist (rules s ruleid)). nameidx e \<notin> tgtidx ` set (tgtlist (rules s ruleid))"
  shows "if \<forall>e \<in> set (tgtlist (rules s ruleid)). lst cfg (world s) (tgtidx e) \<noteq> None
          \<and> (\<forall>t. st_mtim (rules s ruleid) = Some t \<longrightarrow> t \<le> tgt_time cfg (world s) e)
    then \<exists>w'. finish_rule cfg n ruleid True s = Inr w' \<and> w_ok cfg w' \<and> fs w' = fs (world s)
        \<and> cmddb w' = cmddb (world s)
        \<and> (\<forall>e \<in> set (tgtlist (rules s ruleid)). good_stamp cfg w' (tgtidx e))
        \<and> (\<forall>e \<in> set (deplist (rules s ruleid)). \<not> is_dupe e \<and> lst cfg (world s) (nameidx e) \<noteq> None \<longrightarrow>
             good_stamp cfg w' (nameidx e))
    else \<exists>e. finish_rule cfg n ruleid True s = Inl e"
proof (cases "\<exists>w'. finish_rule cfg n ruleid True s = Inr w'")
  case True
  then obtain w' where "finish_rule cfg n ruleid True s = Inr w'" by blast
  with finish_rule_ok[OF this assms] show ?thesis by auto
next
  case False
  then have "\<exists>e. finish_rule cfg n ruleid True s = Inl e" by (cases "finish_rule cfg n ruleid True s") auto
  moreover note finish_rule_returns[OF assms, of n]
  ultimately show ?thesis using False by (simp only: if_False split: if_split) blast
qed

text \<open>The recipe creates the target; \<open>mark_executed\<close> accepts it.\<close>

definition ex_ran :: "timespec option \<Rightarrow> build \<Rightarrow> build sched" where
  "ex_ran mt w0 = ex_sched (ex_rule\<lparr> st_mtim := mt \<rparr>) (w0\<lparr> fs := ex_fs True \<rparr>)"

lemma ex_ran_ok:
  assumes "same_world ex_cfg ex_world w0"
  shows "w_ok_on (- {1}) ex_cfg (w0\<lparr> fs := ex_fs True \<rparr>)"
proof (rule w_ok_on_change)
  show "w_ok ex_cfg w0" using assms by (simp add: same_world_def)
  fix k :: nat assume "k \<in> - {1}"
  moreover have "fs w0 = ex_fs False" using assms by (simp add: same_world_def ex_world_def)
  ultimately show "lst ex_cfg (w0\<lparr> fs := ex_fs True \<rparr>) k = lst ex_cfg w0 k"
    by (simp add: lst_def ex_fs_def ex_files_def ex_cfg_def)
qed

lemma ex_ran_rule:
  "tgtlist (rules (ex_ran mt w0) i) = tgtlist ex_rule" "deplist (rules (ex_ran mt w0) i) = deplist ex_rule"
  "diridx (rules (ex_ran mt w0) i) = 0" "st_mtim (rules (ex_ran mt w0) i) = mt"
  "same_rule ex_rule (rules (ex_ran mt w0) i)" "made_rule ex_cfg (rules (ex_ran mt w0) i)"
  "world (ex_ran mt w0) = w0\<lparr> fs := ex_fs True \<rparr>"
  using ex_made
  by (simp_all add: ex_ran_def same_rule_def made_rule_def plain_rule_def ex_rule_def zero_rule_def)

lemma ex_ran_finish:
  assumes "same_world ex_cfg ex_world w0" "mt = None \<or> mt = Some \<lparr> tv_sec = 5, tv_nsec = 0 \<rparr>"
  shows "\<exists>w1. finish_rule ex_cfg n 0 True (ex_ran mt w0) = Inr w1"
  using assms ex_ran_ok[OF assms(1)]
  by (intro finish_rule_returns) (auto simp: ex_ran_rule ex_lst tgt_time_def ex_stat_def less_eq_timespec_ext_def)

lemma ex_ran_time: "e \<in> set (tgtlist (rules (ex_ran mt w0) i)) \<Longrightarrow> epoch \<le> tgt_time ex_cfg (world (ex_ran mt w0)) e"
  by (simp add: ex_ran_rule tgt_time_def ex_lst ex_stat_def epoch_def less_eq_timespec_ext_def)

text \<open>What is in the databases then can be written to the file.\<close>

lemma ex_storable:
  assumes "same_world ex_cfg ex_world w0" "finish_rule ex_cfg n 0 True (ex_ran mt w0) = Inr w1"
  shows "\<forall>p \<in> set (entries id (stampdb w1)). storable (snd p)" "cmddb w1 = empty_db" "fs w1 = ex_fs True"
proof -
  have w: "w_ok_on (- tgtidx ` set (tgtlist (rules (ex_ran mt w0) 0))) ex_cfg (world (ex_ran mt w0))"
    using ex_ran_ok[OF assms(1)] by (simp add: ex_ran_rule)
  have "\<forall>e \<in> set (deplist (rules (ex_ran mt w0) 0)). nameidx e \<notin> tgtidx ` set (tgtlist (rules (ex_ran mt w0) 0))"
    by (simp add: ex_ran_rule)
  from finish_rule_ok[OF assms(2) ex_ran_rule(6) w this]
  have f: "w_ok ex_cfg w1" "fs w1 = ex_fs True" "cmddb w1 = cmddb w0"
    "recorded ex_cfg {1, 0} (w0\<lparr> fs := ex_fs True \<rparr>) w1"
    by (auto simp: ex_ran_rule insert_commute)
  then show "fs w1 = ex_fs True" "cmddb w1 = empty_db"
    using assms(1) by (simp_all add: same_world_def ex_world_def)
  show "\<forall>p \<in> set (entries id (stampdb w1)). storable (snd p)"
  proof
    fix p assume p: "p \<in> set (entries id (stampdb w1))"
    have ok: "db_ok id (stampdb w1)" using f(1) by (simp add: w_ok_def ex_cfg_def)
    obtain k where k: "k \<in> set (ll (stampdb w1))" "p = (k, the (ht_find id (byname (stampdb w1)) k))"
      using p by (auto simp: entries_def)
    then obtain e where e: "ht_find id (byname (stampdb w1)) k = Some e" "p = (k, e)"
      using ok by (fastforce simp: db_ok_def)
    have "stamp ex_cfg w0 k = None"
      using assms(1) by (simp add: same_world_def stamp_def ex_world_def empty_db_def db_init_def)
    then have "marked ex_cfg (w0\<lparr> fs := ex_fs True \<rparr>) k = None" by (simp add: stamp_def marked_def)
    moreover have m: "marked ex_cfg w1 k = Some ((ts e, sz e), written e)" using e(1) by (simp add: marked_def ex_cfg_def)
    ultimately have "good_stamp ex_cfg w1 k" "k = 1 \<or> k = 0"
      using f(4) unfolding recorded_def by (metis option.distinct(1) insertE emptyE)+
    moreover have "lst ex_cfg w1 = lst ex_cfg (w1\<lparr> fs := ex_fs True \<rparr>)" using f(2) by (simp add: lst_def fun_eq_iff)
    ultimately show "storable (snd p)"
      using m e(2) ex_lst[of True w1]
      by (auto simp: good_stamp_def storable_def ex_stat_def LLONG_MAX_def)
  qed
qed

text \<open>The rule at the end of the run.\<close>

definition ex_base :: base where
  "ex_base = \<lparr> rules = (\<lambda>_. ex_rule\<lparr> cmd := [[''cc'']], is_actually_executed := True \<rparr>), rules_size = 1,
     st_ruleid = (\<lambda>_. -1), rules_remain_list = [], later_blocks = [], later_last = 0 \<rparr>"

lemma ex_base_rule:
  "rules_size ex_base = 1" "is_actually_executed (rules ex_base i)" "cmd (rules ex_base i) = [[''cc'']]"
  "tgtlist (rules ex_base i) = tgtlist ex_rule" "diridx (rules ex_base i) = 0" "same_rule ex_rule (rules ex_base i)"
  by (simp_all add: ex_base_def same_rule_def ex_rule_def zero_rule_def)

lemma ex_merge:
  "\<exists>dm. merge_rules id (\<lambda>_. False) (rules ex_base) [0 ..< rules_size ex_base] empty_db = Inr dm
     \<and> entries id dm = [(1, \<lparr> dbe_diridx = 0, cmds = [[''cc'']] \<rparr>)]"
  using db_ins_ok[OF empty_db_ok(1), of id 1 "\<lparr> dbe_diridx = 0, cmds = [[''cc'']] \<rparr>"]
  by (auto simp: ex_base_rule merge_rule_def ins_dbe_def empty_db_ok(2))

theorem null_build_witness:
  "\<exists>mt w0 w1 f d' t' mt' w'.
     decide_exec ex_cfg 0 0 (ex_sched ex_rule ex_world) = Inr (True, [[''cc'']], mt, w0)
   \<and> finish_rule ex_cfg 0 0 True (ex_ran mt w0) = Inr w1
   \<and> merge_db_v2 id dec True (\<lambda>_. False) ex_base (cmddb w1) (stampdb w1) = Inr (Some f)
   \<and> load_db_part2 id undec 8 f = Inr (d', t')
   \<and> decide_exec ex_cfg 0 0 (ex_sched ex_rule
         (w1\<lparr> statc := cache_init small_cache, cmddb := d', stampdb := t', remade := {} \<rparr>))
       = Inr (False, [[''cc'']], mt', w')"
proof -
  let ?s0 = "ex_sched ex_rule ex_world"
  obtain mt w0 where d0: "decide_exec ex_cfg 0 0 ?s0 = Inr (True, [[''cc'']], mt, w0)"
    "mt = None \<or> mt = Some \<lparr> tv_sec = 5, tv_nsec = 0 \<rparr>" "same_world ex_cfg ex_world w0" using ex_first by blast
  obtain w1 where w1: "finish_rule ex_cfg 0 0 True (ex_ran mt w0) = Inr w1" using ex_ran_finish[OF d0(3,2)] by blast
  note st = ex_storable[OF d0(3) w1]
  have cfg: "hash ex_cfg = id" "names ex_cfg = dec" "calc ex_cfg 0 = Inr [[''cc'']]" "\<not> unconditional ex_cfg"
    by (simp_all add: ex_cfg_def)
  obtain f where f: "merge_db_v2 id dec True (\<lambda>_. False) ex_base (cmddb w1) (stampdb w1) = Inr (Some f)"
  proof -
    obtain dm where "merge_rules id (\<lambda>_. False) (rules ex_base) [0 ..< rules_size ex_base] (cmddb w1) = Inr dm"
      using ex_merge st(2) by auto
    then show ?thesis using that by (cases "print_dbes dec True (entries id dm)") (simp add: merge_db_v2_def)
  qed
  let ?w2 = "\<lambda>d' t'. w1\<lparr> statc := cache_init small_cache, cmddb := d', stampdb := t', remade := {} \<rparr>"
  have fs2: "?w2 d' t' = (?w2 d' t')\<lparr> fs := ex_fs True \<rparr>" for d' t' using st(3) by simp
  have settled: "deps_settled ex_cfg 0 ?s0 (ex_sched ex_rule (?w2 d' t')) 0" for d' t'
    unfolding deps_settled_def
    using ex_stamps[of 0 ex_rule "?w2 d' t'" ex_rule True "?w2 d' t'"] ex_stamps[of 0 ex_rule ex_world ex_rule False ex_world]
      ex_readable[of 0 ex_rule "?w2 d' t'" ex_rule True "?w2 d' t'"] ex_lst(1)[of True "?w2 d' t'"]
    unfolding fs2[symmetric] ex_world_fs[symmetric]
    by (simp add: phony_dep_def stirdep_ruleid_def ex_stat_def)
  have "\<exists>d' t'. load_db_part2 (hash ex_cfg) undec 8 f = Inr (d', t') \<and>
    (\<forall>s2. same_rule (rules ?s0 0) (rules s2 0) \<and> deps_settled ex_cfg 0 ?s0 s2 0 \<and> world s2 = ?w2 d' t' \<longrightarrow>
     (\<exists>mt' w'. decide_exec ex_cfg 0 0 s2 = Inr (False, [[''cc'']], mt', w')))"
  proof (rule null_build[OF _ _ cfg(3) _ _ d0(1) _ _ _ _ _ w1 _ _ _ _ _ _ _ _ _ _ _ cfg(4)])
    show "merge_db_v2 (hash ex_cfg) (names ex_cfg) True (\<lambda>_. False) ex_base (cmddb w1) (stampdb w1) = Inr (Some f)"
      using f cfg by simp
    show "\<forall>e \<in> set (deplist (rules ?s0 0)). dep_readable ex_cfg 0 ?s0 (rules ?s0 0) (world ?s0) e"
      using ex_readable[of 0 ex_rule ex_world ex_rule False ex_world] ex_world_fs by simp
    show "\<forall>e \<in> set (tgtlist (rules ?s0 0)). lst ex_cfg (world ?s0) (tgtidx e) \<noteq> None \<longrightarrow>
        epoch \<le> tgt_time ex_cfg (world ?s0) e"
      using ex_lst(2)[of False ex_world] ex_world_fs by simp
    show "w_ok_on (- tgtidx ` set (tgtlist (rules (ex_ran mt w0) 0))) ex_cfg (world (ex_ran mt w0))"
      using ex_ran_ok[OF d0(3)] by (simp add: ex_ran_rule)
    show "\<forall>e \<in> set (tgtlist (rules (ex_ran mt w0) 0)). epoch \<le> tgt_time ex_cfg (world (ex_ran mt w0)) e"
      using ex_ran_time by blast
    show "\<forall>p \<in> set (entries (hash ex_cfg) dm). printable_cmds (cmds (snd p))"
      if "merge_rules (hash ex_cfg) (\<lambda>_. False) (rules ex_base) [0 ..< rules_size ex_base] (cmddb w1) = Inr dm" for dm
      using that ex_merge st(2) cfg(1) by (auto simp: printable_cmds_def)
    show "\<forall>p \<in> set (entries (hash ex_cfg) (stampdb w1)). storable (snd p)" using st(1) cfg(1) by simp
    show "cache_ok (hash ex_cfg) (cache_init small_cache)" "cached (cache_init small_cache) = []"
      by (rule small_cache_ok)+
  qed (use ex_world_ok ex_made in \<open>simp_all add: ex_ran_rule ex_base_rule cfg undec_dec\<close>)
  then obtain d' t' where l: "load_db_part2 id undec 8 f = Inr (d', t')"
    "\<forall>s2. same_rule (rules ?s0 0) (rules s2 0) \<and> deps_settled ex_cfg 0 ?s0 s2 0 \<and> world s2 = ?w2 d' t' \<longrightarrow>
     (\<exists>mt' w'. decide_exec ex_cfg 0 0 s2 = Inr (False, [[''cc'']], mt', w'))"
    unfolding cfg(1) by (elim exE conjE) (rule that; assumption)
  have "same_rule (rules ?s0 0) (rules (ex_sched ex_rule (?w2 d' t')) 0)" by (simp add: same_rule_def)
  with l(2) settled have "\<exists>mt' w'. decide_exec ex_cfg 0 0 (ex_sched ex_rule (?w2 d' t')) = Inr (False, [[''cc'']], mt', w')"
    by (metis ex_sched_simps(2))
  then show ?thesis using d0(1) w1 f l(1) by blast
qed

theorem finish_rule_accepts_witness:
  "\<exists>w0 w1. finish_rule ex_cfg 0 0 True (ex_ran (Some \<lparr> tv_sec = 5, tv_nsec = 0 \<rparr>) w0) = Inr w1
    \<and> good_stamp ex_cfg w1 1 \<and> good_stamp ex_cfg w1 0"
proof -
  let ?s = "\<lambda>w0. ex_ran (Some \<lparr> tv_sec = 5, tv_nsec = 0 \<rparr>) w0"
  have w: "w_ok_on (- tgtidx ` set (tgtlist (rules (?s ex_world) 0))) ex_cfg (world (?s ex_world))"
    using ex_ran_ok[OF same_world_refl[OF ex_world_ok]] by (simp add: ex_ran_rule)
  have "\<forall>e \<in> set (deplist (rules (?s ex_world) 0)). nameidx e \<notin> tgtidx ` set (tgtlist (rules (?s ex_world) 0))"
    by (simp add: ex_ran_rule)
  from finish_rule_accepts[OF ex_ran_rule(6) w this, of 0] show ?thesis
    by (auto simp: ex_ran_rule ex_lst tgt_time_def ex_stat_def less_eq_timespec_ext_def)
qed

end
