(* ===== verification/Stringtab.thy ===== *)
theory Stringtab
  imports Hash_Table
begin

text \<open>
  The string table of \<open>stringtab.c\<close>, which gives every string of the build a number.  The code keeps a
  hash table from strings to numbers beside the array \<open>sttable\<close> of the strings themselves; to its
  clients the table is the list of the strings entered so far, and adding a string returns its
  position, appending it first if it is new.

  \<open>wyhash\<close> and \<open>stir_do_mmap_madvise\<close> are arguments of the definitions: the hash of a string, and whether
  an array of that many entries can be allocated.  The other columns of an entry belong to their
  users; the \<open>ruleid\<close> column is part of the rule base.  The counters that only feed the memory
  statistics are left out, and so is the wrap-around of \<open>mysize_t\<close> at \<open>2 ^ 32\<close> strings.
\<close>

section \<open>What the clients see\<close>

fun st_index :: "string \<Rightarrow> string list \<Rightarrow> nat option" where
  "st_index s [] = None"
| "st_index s (x # xs) = (if x = s then Some 0 else map_option Suc (st_index s xs))"

definition st_intern :: "string \<Rightarrow> string list \<Rightarrow> nat \<times> string list" where
  "st_intern s tab = (case st_index s tab of Some i \<Rightarrow> (i, tab) | None \<Rightarrow> (length tab, tab @ [s]))"

lemma st_index_Some: "st_index s tab = Some i \<Longrightarrow> i < length tab \<and> tab ! i = s"
  by (induction tab arbitrary: i) (auto split: if_splits)

lemma st_index_None [simp]: "st_index s tab = None \<longleftrightarrow> s \<notin> set tab"
  by (induction tab) auto

lemma st_index_nth: "distinct tab \<Longrightarrow> i < length tab \<Longrightarrow> st_index (tab ! i) tab = Some i"
proof (induction tab arbitrary: i)
  case (Cons x xs)
  then show ?case by (cases i) (auto simp: nth_mem)
qed simp

lemma st_intern_ok:
  assumes "st_intern s tab = (i, tab')"
  shows "i < length tab'" "tab' ! i = s" "\<exists>xs. tab' = tab @ xs" "distinct tab \<Longrightarrow> distinct tab'"
    "set tab' = insert s (set tab)"
  using assms st_index_Some[of s tab] by (auto simp: st_intern_def split: option.splits)

lemma st_intern_known: "distinct tab \<Longrightarrow> i < length tab \<Longrightarrow> st_intern (tab ! i) tab = (i, tab)"
  by (simp add: st_intern_def st_index_nth)

section \<open>The hash table\<close>

record strtab =
  st :: "(string, nat) htab"
  sttable :: "string list"
  st_cap :: nat

definition st_init :: "nat \<Rightarrow> strtab" where
  "st_init expstrings = \<lparr> st = ht_init expstrings, sttable = [], st_cap = expstrings \<rparr>"

definition st_newcap :: "strtab \<Rightarrow> nat" where
  "st_newcap t = (if st_cap t * 2 < 1024 then 1024 else st_cap t * 2)"

definition st_grow :: "(nat \<Rightarrow> bool) \<Rightarrow> strtab \<Rightarrow> strtab" where
  "st_grow mmap_ok t =
     (if length (sttable t) < st_cap t then t
      else if \<not> mmap_ok (st_newcap t) then t
      else t\<lparr> st_cap := st_newcap t \<rparr>)"

definition stringtab_get :: "(string \<Rightarrow> nat) \<Rightarrow> string \<Rightarrow> strtab \<Rightarrow> nat option" where
  "stringtab_get wyhash symbol t = ht_find wyhash (st t) symbol"

definition stringtab_add_len :: "(string \<Rightarrow> nat) \<Rightarrow> (nat \<Rightarrow> bool) \<Rightarrow> string \<Rightarrow> strtab
    \<Rightarrow> (nat \<times> strtab) res" where
  "stringtab_add_len wyhash mmap_ok symbol t =
     (case ht_find wyhash (st t) symbol of
        Some i \<Rightarrow> Inr (i, t)
      | None \<Rightarrow>
          (let t = st_grow mmap_ok t; i = length (sttable t) in
           if i \<ge> st_cap t then Inl (Exited ''stringtab full'')
           else case ht_ins wyhash symbol i (st t) of
             None \<Rightarrow> Inl Aborted
           | Some h \<Rightarrow> Inr (i, t\<lparr> st := h, sttable := sttable t @ [symbol] \<rparr>)))"

section \<open>Refinement\<close>

definition strtab_ok :: "(string \<Rightarrow> nat) \<Rightarrow> strtab \<Rightarrow> bool" where
  "strtab_ok wyhash t = (distinct (sttable t) \<and> (\<forall>s. ht_find wyhash (st t) s = st_index s (sttable t)))"

lemma st_grow_simps [simp]: "st (st_grow m t) = st t" "sttable (st_grow m t) = sttable t"
  by (simp_all add: st_grow_def)

lemma st_grow_room:
  assumes "m (st_newcap t)" "length (sttable t) \<le> st_cap t"
  shows "length (sttable t) < st_cap (st_grow m t)"
  using assms by (auto simp: st_grow_def st_newcap_def)

lemma st_index_snoc: "s \<notin> set tab \<Longrightarrow>
    st_index x (tab @ [s]) = (if x = s then Some (length tab) else st_index x tab)"
  by (induction tab) auto

text \<open>
  C15: \<open>stringtab_add_len\<close> implements adding to the list of strings: from a table whose hash table mirrors
  the array it returns the position of the string, with the table of the specification and the mirror
  kept; the collision abort cannot happen, and the only failure is a table that is full because the
  larger array could not be allocated.  \<open>stringtab_get\<close> is the lookup.
\<close>

theorem stringtab_refines:
  assumes "strtab_ok wyhash t" "length (sttable t) \<le> st_cap t"
  shows "stringtab_get wyhash s t = st_index s (sttable t) \<and>
    (case stringtab_add_len wyhash mmap_ok s t of
       Inr (i, t') \<Rightarrow> strtab_ok wyhash t' \<and> length (sttable t') \<le> st_cap t' \<and>
         (i, sttable t') = st_intern s (sttable t)
     | Inl f \<Rightarrow> f = Exited ''stringtab full'' \<and> s \<notin> set (sttable t) \<and>
         \<not> mmap_ok (st_newcap t))"
proof (cases "st_index s (sttable t)")
  case (Some i)
  then show ?thesis
    using assms by (simp add: strtab_ok_def stringtab_get_def stringtab_add_len_def st_intern_def)
next
  case None
  then have n: "ht_find wyhash (st t) s = None" using assms by (simp add: strtab_ok_def)
  have new: "s \<notin> set (sttable t)" using None by simp
  let ?t = "st_grow mmap_ok t"
  show ?thesis
  proof (cases "length (sttable t) \<ge> st_cap ?t")
    case True
    then have "\<not> mmap_ok (st_newcap t)"
      using st_grow_room[of mmap_ok t] assms(2) by linarith
    moreover have "stringtab_add_len wyhash mmap_ok s t = Inl (Exited ''stringtab full'')"
      using True n by (simp add: stringtab_add_len_def)
    ultimately show ?thesis using n new by (simp add: stringtab_get_def None)
  next
    case False
    obtain h where h: "ht_ins wyhash s (length (sttable t)) (st t) = Some h"
        "ht_find wyhash h = (ht_find wyhash (st t))(s \<mapsto> length (sttable t))"
      by (rule ht_ins_new[OF n])
    have "stringtab_add_len wyhash mmap_ok s t =
        Inr (length (sttable t), (st_grow mmap_ok t)\<lparr> st := h, sttable := sttable t @ [s] \<rparr>)"
      using h(1) False n by (simp add: stringtab_add_len_def)
    moreover have "ht_find wyhash h x = st_index x (sttable t @ [s])" for x
      using h assms(1) new by (simp add: strtab_ok_def st_index_snoc)
    ultimately show ?thesis
      using False new assms
      by (simp add: stringtab_get_def strtab_ok_def st_intern_def None)
  qed
qed

lemma st_init_ok: "strtab_ok wyhash (st_init n)"
  by (simp add: strtab_ok_def st_init_def)

theorem stringtab_refines_witness:
  "stringtab_get length ''a'' (st_init 4) = None \<and>
   (case stringtab_add_len length (\<lambda>_. False) ''a'' (st_init 4) of
      Inr (i, t') \<Rightarrow> strtab_ok length t' \<and> i = 0 \<and> sttable t' = [''a'']
    | Inl f \<Rightarrow> False)"
proof -
  have "length (sttable (st_init 4)) \<le> st_cap (st_init 4)" by (simp add: st_init_def)
  moreover have "sttable (st_init 4) = []" by (simp add: st_init_def)
  moreover have "case stringtab_add_len length (\<lambda>_. False) ''a'' (st_init 4) of
      Inl f \<Rightarrow> False
    | Inr x \<Rightarrow> True" by code_simp
  ultimately show ?thesis
    using stringtab_refines[OF st_init_ok, of 4 length "''a''" "\<lambda>_. False"] by (auto simp: st_intern_def split: sum.splits)
qed

end
