(* ===== verification/Graph_Build.thy ===== *)
theory Graph_Build
  imports Cycle_Detect Stringtab Paths
begin

text \<open>
  How \<open>main\<close> turns the parsed Stirfile into the rule base that the scheduler runs on: \<open>add_rule\<close>,
  \<open>add_dep_from_rules\<close>, \<open>add_dep\<close>, \<open>process_additional_deps_2\<close>, the choice of the goals, \<open>process_orders\<close>
  and \<open>add_dep_after_parsing_stage\<close> of \<open>stirmake.c\<close> with \<open>ins_add_dep\<close> of \<open>adddep.c\<close>.

  The string table is the list of its strings, which the theory on the string table shows
  \<open>stringtab.c\<close> to implement.  The shell commands of a rule stay outside: they are evaluated by the
  abce virtual machine when the rule is executed.
\<close>

section \<open>The parsed rules\<close>

record tgt =
  t_namenodir :: string
  t_suffix :: "string option"
  t_percent_special :: bool
  t_is_dist :: bool

record dep =
  d_namenodir :: string
  d_suffix :: "string option"
  d_percent_special :: bool
  d_rec :: bool
  d_orderonly :: bool
  d_wait :: bool

text \<open>
  \<open>struct cmdsrc\<close>: the recipe of a rule.  Each item is a call of a function, a place in the byte code,
  one command or a list of commands; \<open>cs_capacity\<close> is the number of pointers that the array of one command
  has room for.
\<close>

datatype cmdsrcunion = Funarg nat nat | Locidx nat | Args "string option list" | Cmds "string list list"

record cmdsrcitem =
  cs_merge :: bool
  cs_iscode :: bool
  cs_isfun :: bool
  cs_ignore :: bool
  cs_noecho :: bool
  cs_ismake :: bool
  cs_capacity :: nat
  cs_u :: cmdsrcunion

record stiryyrule =
  y_bases :: "tgt list"
  y_deps :: "dep list"
  y_targets :: "tgt list"
  y_shells :: "cmdsrcitem list"
  y_scopeidx :: nat
  y_prefix :: string
  y_lineno :: int
  y_phony :: bool
  y_rectgt :: bool
  y_detouch :: bool
  y_maybe :: bool
  y_dist :: bool
  y_deponly :: bool
  y_iscleanhook :: bool
  y_isdistcleanhook :: bool
  y_isbothcleanhook :: bool
  y_ispat :: bool
  y_patfrozen :: bool

record cdepinclude =
  ci_name :: string
  ci_prefix :: string
  ci_auto_phony :: bool
  ci_auto_target :: bool
  ci_ignore :: bool

section \<open>The state\<close>

record add_dep_entry =
  ad_tgt :: nat
  ad_dep :: "nat option"
  ad_auto_phony :: bool
  ad_phony :: bool
  ad_inc :: bool

record gbase = base +
  names :: "string list"
  add_blocks :: "add_dep_entry list list"
  add_last :: nat

lemma upd_rule_gbase [simp]:
  "names (upd_rule r f s) = names s"
  "add_blocks (upd_rule r f s) = add_blocks s"
  "add_last (upd_rule r f s) = add_last s"
  by (simp_all add: upd_rule_def)

definition gbase_init :: gbase where
  "gbase_init = \<lparr> rules = (\<lambda>_. zero_rule), rules_size = 0, st_ruleid = (\<lambda>_. -1), rules_remain_list = [],
     later_blocks = [], later_last = 0, names = [], add_blocks = [], add_last = 0 \<rparr>"

text \<open>\<open>stringtab_add\<close>; the \<open>ruleid\<close> column of a new string is -1.\<close>

definition stringtab_add :: "string \<Rightarrow> gbase \<Rightarrow> nat \<times> gbase" where
  "stringtab_add symbol s = (let (i, tab) = st_intern symbol (names s) in (i, s\<lparr> names := tab \<rparr>))"

definition ins_add_dep :: "nat \<Rightarrow> nat option \<Rightarrow> bool \<Rightarrow> bool \<Rightarrow> bool \<Rightarrow> gbase \<Rightarrow> gbase" where
  "ins_add_dep ti di auto_phony tgt_phony inc s =
     (let (bs, l) = block_ins ADD_DEP_ENTRY_BLOCK_SIZE 1
            \<lparr> ad_tgt = ti, ad_dep = di, ad_auto_phony = auto_phony, ad_phony = tgt_phony, ad_inc = inc \<rparr>
            (add_blocks s, add_last s)
      in s\<lparr> add_blocks := bs, add_last := l \<rparr>)"

text \<open>The name of a target or dependency: relative to the directory of the Stirfile, canonical.\<close>

definition full_name :: "string \<Rightarrow> string \<Rightarrow> string res" where
  "full_name prefix nodir =
     bind_res (if nodir \<noteq> [] \<and> hd nodir = CHR ''/'' then pathcat1_buf nodir (Some 1024)
               else pathcat2_buf prefix nodir (Some 1024)) (\<lambda>tmp.
       bind_res (canon_buflen tmp (Some 1024)) (\<lambda>(can, _). Inr can))"

text \<open>A dependency is entered into the rule and, when it is new there, the rule into the list of those
  that depend on it.\<close>

definition add_edge :: "nat \<Rightarrow> nat \<Rightarrow> nat option \<Rightarrow> bool \<Rightarrow> bool \<Rightarrow> bool \<Rightarrow> bool \<Rightarrow> bool \<Rightarrow> bool
    \<Rightarrow> ('a) base_scheme \<Rightarrow> ('a) base_scheme" where
  "add_edge r di nodir recursive orderonly wait primary inc enforce s =
     (let (new, a) = ins_dep di nodir recursive orderonly wait primary inc (rules s r);
          s = upd_rule r (\<lambda>_. a) s
      in if new then snd (ins_ruleid_by_dep2 di r enforce s) else s)"

section \<open>Adding a rule\<close>

definition new_rule :: "rule \<Rightarrow> ('a) base_scheme \<Rightarrow> ('a) base_scheme" where
  "new_rule a s = s\<lparr> rules := (rules s)(rules_size s := a), rules_size := Suc (rules_size s) \<rparr>"

definition is_hook :: "stiryyrule \<Rightarrow> bool" where
  "is_hook y = (y_iscleanhook y \<or> y_isdistcleanhook y \<or> y_isbothcleanhook y)"

fun add_rule_tgts :: "stiryyrule \<Rightarrow> nat \<Rightarrow> tgt list \<Rightarrow> gbase \<Rightarrow> gbase res" where
  "add_rule_tgts y r [] s = Inr s"
| "add_rule_tgts y r (t # ts) s =
     bind_res (full_name (y_prefix y) (t_namenodir t)) (\<lambda>can.
       let can = (if is_hook y then can @ ''///'' else can);
           (ti, s) = stringtab_add can s;
           (tn, s) = stringtab_add (t_namenodir t) s
       in bind_res (ins_tgt ti (Some tn) (y_dist y) (rules s r)) (\<lambda>a.
            bind_res (ins_ruleid_by_tgt ti r (upd_rule r (\<lambda>_. a) s)) (add_rule_tgts y r ts)))"

fun add_rule_deps :: "stiryyrule \<Rightarrow> nat \<Rightarrow> dep list \<Rightarrow> gbase \<Rightarrow> gbase res" where
  "add_rule_deps y r [] s = Inr s"
| "add_rule_deps y r (d # ds) s =
     bind_res (full_name (y_prefix y) (d_namenodir d)) (\<lambda>can.
       let (di, s) = stringtab_add can s;
           (dn, s) = stringtab_add (d_namenodir d) s
       in add_rule_deps y r ds
            (add_edge r di (Some dn) (d_rec d) (d_orderonly d) (d_wait d) True False False s))"

definition add_rule :: "tgt list \<Rightarrow> dep list \<Rightarrow> stiryyrule \<Rightarrow> string option \<Rightarrow> gbase \<Rightarrow> gbase res" where
  "add_rule ts ds y meat s =
     (if ts = [] then Inl (Exited ''Rules must have at least 1 target'')
      else if y_phony y \<and> length ts \<noteq> 1 then Inl (Exited ''Phony rules must not have multiple targets'')
      else
        let r = rules_size s;
            (dir, s) = stringtab_add (y_prefix y) s;
            (mi, s) = (case meat of None \<Rightarrow> (None, s)
                       | Some m \<Rightarrow> let (i, s) = stringtab_add m s in (Some i, s));
            s = new_rule (zero_rule\<lparr> scopeidx := y_scopeidx y, is_phony := y_phony y, is_maybe := y_maybe y,
                  is_rectgt := y_rectgt y, is_detouch := y_detouch y, is_dist := y_dist y,
                  is_cleanhook := y_iscleanhook y, is_distcleanhook := y_isdistcleanhook y,
                  is_bothcleanhook := y_isbothcleanhook y, diridx := dir, meatidx := mi \<rparr>) s
        in bind_res (add_rule_tgts y r ts s) (add_rule_deps y r ds))"

section \<open>Additional dependencies\<close>

fun add_deps_of_tgt :: "string \<Rightarrow> bool \<Rightarrow> nat \<Rightarrow> dep list \<Rightarrow> gbase \<Rightarrow> gbase res" where
  "add_deps_of_tgt prefix phony ti [] s = Inr s"
| "add_deps_of_tgt prefix phony ti (d # ds) s =
     bind_res (full_name prefix (d_namenodir d)) (\<lambda>can.
       let (di, s) = stringtab_add can s
       in add_deps_of_tgt prefix phony ti ds (ins_add_dep ti (Some di) False phony False s))"

fun add_dep_from_rules :: "tgt list \<Rightarrow> dep list \<Rightarrow> bool \<Rightarrow> string \<Rightarrow> gbase \<Rightarrow> gbase res" where
  "add_dep_from_rules [] ds phony prefix s = Inr s"
| "add_dep_from_rules (t # ts) ds phony prefix s =
     bind_res (full_name prefix (t_namenodir t)) (\<lambda>can.
       let (ti, s) = stringtab_add can s
       in bind_res (add_deps_of_tgt prefix phony ti ds (ins_add_dep ti None False phony False s))
            (add_dep_from_rules ts ds phony prefix))"

fun add_dep_deps :: "nat \<Rightarrow> string list \<Rightarrow> bool \<Rightarrow> bool \<Rightarrow> bool \<Rightarrow> gbase \<Rightarrow> gbase" where
  "add_dep_deps ti [] phony auto_phony inc s = s"
| "add_dep_deps ti (d # ds) phony auto_phony inc s =
     (let (di, s) = stringtab_add d s
      in add_dep_deps ti ds phony auto_phony inc (ins_add_dep ti (Some di) auto_phony phony inc s))"

fun add_dep :: "string list \<Rightarrow> string list \<Rightarrow> bool \<Rightarrow> bool \<Rightarrow> bool \<Rightarrow> gbase \<Rightarrow> gbase" where
  "add_dep [] ds phony auto_phony inc s = s"
| "add_dep (t # ts) ds phony auto_phony inc s =
     (let (ti, s) = stringtab_add t s
      in add_dep ts ds phony auto_phony inc
           (add_dep_deps ti ds phony auto_phony inc (ins_add_dep ti None False phony inc s)))"

text \<open>A rule for a target that no rule of the Stirfile makes.\<close>

definition add_inc_rule :: "nat \<Rightarrow> nat \<Rightarrow> gbase \<Rightarrow> gbase res" where
  "add_inc_rule scope ti s =
     (let r = rules_size s;
          (dir, s) = stringtab_add ''.'' s;
          s = new_rule (zero_rule\<lparr> cmd := [], is_inc := True, diridx := dir, scopeidx := scope \<rparr>) s
      in bind_res (ins_ruleid_by_tgt ti r s) (\<lambda>s.
           bind_res (ins_tgt ti None False (rules s r)) (\<lambda>a. Inr (upd_rule r (\<lambda>_. a) s))))"

fun ensure_targets :: "nat \<Rightarrow> add_dep_entry list \<Rightarrow> gbase \<Rightarrow> gbase res" where
  "ensure_targets scope [] s = Inr s"
| "ensure_targets scope (e # es) s =
     (if ad_dep e \<noteq> None then ensure_targets scope es s
      else if get_ruleid_by_tgt s (ad_tgt e) \<noteq> None then ensure_targets scope es s
      else bind_res (add_inc_rule scope (ad_tgt e) s) (ensure_targets scope es))"

text \<open>The second loop; the last target and its rule are remembered between the entries.\<close>

fun add_entries :: "nat \<Rightarrow> add_dep_entry list \<Rightarrow> nat option \<Rightarrow> nat option \<Rightarrow> gbase \<Rightarrow> gbase res" where
  "add_entries scope [] last_tgt last_rule s = Inr s"
| "add_entries scope (e # es) last_tgt last_rule s =
     (let ruleid = (if last_tgt = Some (ad_tgt e) \<and> last_rule \<noteq> None then last_rule
                    else get_ruleid_by_tgt s (ad_tgt e));
          edge = (\<lambda>r s. case ad_dep e of None \<Rightarrow> s
                  | Some di \<Rightarrow> add_edge r di None False False False False (ad_inc e) True s)
      in case ruleid of
           None \<Rightarrow>
             bind_res (add_inc_rule scope (ad_tgt e) s) (\<lambda>s'.
               add_entries scope es (Some (ad_tgt e)) None
                 (upd_rule (rules_size s) (is_phony_update (\<lambda>_. ad_phony e)) (edge (rules_size s) s')))
         | Some r \<Rightarrow>
             add_entries scope es (Some (ad_tgt e)) (Some r)
               (edge r (upd_rule r (is_phony_update (\<lambda>p. p \<or> ad_phony e)) s)))"

definition process_additional_deps_2 :: "nat \<Rightarrow> gbase \<Rightarrow> gbase res" where
  "process_additional_deps_2 scope s =
     bind_res (ensure_targets scope (concat (add_blocks s)) s) (\<lambda>s.
       add_entries scope (concat (add_blocks s)) None None s)"

section \<open>The invariant\<close>

text \<open>
  Of each rule: the scheduler has not looked at it, \<open>deps\<close> holds the names of \<open>deplist\<close>, no
  dependency has its rule cached, and a duplicate repeats an entry that is none.
\<close>

definition setup_rule :: "rule \<Rightarrow> bool" where
  "setup_rule a = (raw_rule a \<and> deps a = nameidx ` set (deplist a) \<and>
     (\<forall>e \<in> set (deplist a). dep_ruleid e = -1 \<and>
        (\<exists>e' \<in> set (deplist a). \<not> is_dupe e' \<and> nameidx e' = nameidx e)))"

text \<open>The \<open>ruleid\<close> column names the one rule that has the target.\<close>

definition tgts_ok :: "('a) base_scheme \<Rightarrow> bool" where
  "tgts_ok s = ((\<forall>r t. t \<in> tgts (rules s r) \<longleftrightarrow> st_ruleid s t = int r) \<and>
     (\<forall>t. -1 \<le> st_ruleid s t \<and> st_ruleid s t < int (rules_size s)))"

text \<open>The dependencies whose rule was not known.\<close>

definition later_deps :: "('a) base_scheme \<Rightarrow> (nat \<times> nat) list" where
  "later_deps s = concat (later_blocks s)"

lemma upd_rule_later [simp]: "later_deps (upd_rule r f s) = later_deps s"
  by (simp add: later_deps_def)

text \<open>
  A back edge belongs to a dependency; every dependency has its back edge or waits in the list for later,
  except, once all rules are there (\<open>D\<close>), those on names without a rule.
\<close>

definition edges_ok :: "bool \<Rightarrow> ('a) base_scheme \<Rightarrow> bool" where
  "edges_ok D s =
     ((\<forall>r d. r \<in> set (back_deps s d) \<longrightarrow> (\<exists>di \<in> deps (rules s r). get_ruleid_by_tgt s di = Some d)) \<and>
      (\<forall>r di. (di, r) \<in> set (later_deps s) \<longrightarrow> di \<in> deps (rules s r)) \<and>
      (\<forall>r. \<forall>di \<in> deps (rules s r). (di, r) \<in> set (later_deps s) \<or>
         (\<exists>d. get_ruleid_by_tgt s di = Some d \<and> r \<in> set (back_deps s d)) \<or>
         (D \<and> get_ruleid_by_tgt s di = None)))"

definition gb_ok :: "bool \<Rightarrow> ('a) base_scheme \<Rightarrow> bool" where
  "gb_ok D s = ((\<forall>r. setup_rule (rules s r)) \<and> tgts_ok s \<and> edges_ok D s \<and>
     (\<forall>r \<ge> rules_size s. rules s r = zero_rule) \<and>
     remain_ok s \<and> (\<forall>r \<in> set (rules_remain_list s). r < rules_size s))"

definition names_ok :: "gbase \<Rightarrow> bool" where
  "names_ok s = (distinct (names s) \<and> (\<forall>n. st_ruleid s n \<ge> 0 \<longrightarrow> n < length (names s)) \<and>
     (\<forall>r. \<forall>n \<in> deps (rules s r). n < length (names s)) \<and>
     (\<forall>e \<in> set (concat (add_blocks s)). ad_tgt e < length (names s) \<and>
        (\<forall>d. ad_dep e = Some d \<longrightarrow> d < length (names s))))"

lemma gb_okD:
  assumes "gb_ok D s"
  shows "setup_rule (rules s r)" "tgts_ok s" "edges_ok D s" "r \<ge> rules_size s \<Longrightarrow> rules s r = zero_rule"
    "remain_ok s" "r \<in> set (rules_remain_list s) \<Longrightarrow> r < rules_size s"
  using assms by (auto simp: gb_ok_def)

lemma names_okD:
  assumes "names_ok s"
  shows "distinct (names s)" "st_ruleid s n \<ge> 0 \<Longrightarrow> n < length (names s)"
    "n \<in> deps (rules s r) \<Longrightarrow> n < length (names s)"
    "e \<in> set (concat (add_blocks s)) \<Longrightarrow> ad_tgt e < length (names s)"
    "e \<in> set (concat (add_blocks s)) \<Longrightarrow> ad_dep e = Some d \<Longrightarrow> d < length (names s)"
  using assms unfolding names_ok_def by blast+

lemma tgts_okD:
  assumes "tgts_ok s"
  shows "t \<in> tgts (rules s r) \<longleftrightarrow> st_ruleid s t = int r" "-1 \<le> st_ruleid s t"
    "st_ruleid s t < int (rules_size s)"
  using assms by (auto simp: tgts_ok_def)

lemma get_ruleid_Some:
  "tgts_ok s \<Longrightarrow> get_ruleid_by_tgt s t = Some r \<longleftrightarrow> st_ruleid s t = int r"
  using tgts_okD(2)[of s t] by (auto simp: get_ruleid_by_tgt_def)

lemma zero_rule_setup [simp]: "setup_rule zero_rule" "deps zero_rule = {}" "tgts zero_rule = {}"
    "firstdepblock zero_rule = []" "remain zero_rule = False" "deplist zero_rule = []"
  by (simp_all add: setup_rule_def raw_rule_def zero_rule_def)

lemma gbase_init_ok: "gb_ok False gbase_init" "names_ok gbase_init"
  by (simp_all add: gb_ok_def names_ok_def gbase_init_def tgts_ok_def edges_ok_def remain_ok_def back_deps_def later_deps_def)

section \<open>Blocks\<close>

lemma block_walk_set: "set (concat (block_walk cap x bs)) = insert x (set (concat bs))"
  by (induction bs) auto

lemma block_ins_set: "set (concat (fst (block_ins cap lag x (bs, l)))) = insert x (set (concat bs))"
proof (cases "bs = []")
  case False
  have "set (concat (take l bs)) \<union> set (concat (drop l bs)) = set (concat bs)"
    by (metis append_take_drop_id concat_append set_append)
  then show ?thesis
    using False block_walk_set[of cap x "drop l bs"] by (auto simp: block_ins_def Let_def split_def)
qed (simp add: block_ins_def Let_def split_def block_walk_set)

section \<open>An edge\<close>

lemma add_edge_simps [simp]:
  "rules_size (add_edge r di nd a b c p i en s) = rules_size s"
  "st_ruleid (add_edge r di nd a b c p i en s) = st_ruleid s"
  "rules_remain_list (add_edge r di nd a b c p i en s) = rules_remain_list s"
  by (simp_all add: add_edge_def ins_dep_def ins_ruleid_by_dep2_def Let_def split_def split: option.split)

lemma add_edge_get [simp]: "get_ruleid_by_tgt (add_edge r di nd a b c p i en s) = get_ruleid_by_tgt s"
  by (intro ext) (simp add: get_ruleid_by_tgt_def)

lemma upd_rule_get [simp]: "get_ruleid_by_tgt (upd_rule r f s) = get_ruleid_by_tgt s"
  by (intro ext) (simp add: get_ruleid_by_tgt_def)

lemma add_edge_gbase [simp]:
  "names (add_edge r di nd a b c p i en s) = names s"
  "add_blocks (add_edge r di nd a b c p i en s) = add_blocks s"
  by (simp_all add: add_edge_def ins_dep_def ins_ruleid_by_dep2_def Let_def split_def split: option.split)

text \<open>What entering the back edge changes.\<close>

lemma ins2_back:
  "set (back_deps (snd (ins_ruleid_by_dep2 di r en s)) d) =
     (if get_ruleid_by_tgt s di = Some d then insert r (set (back_deps s d)) else set (back_deps s d))"
  using block_ins_set[of RULEID_BY_DEP_ENTRY_BLOCK_SIZE 0 r "firstdepblock (rules s d)" "lastdepblock (rules s d)"]
  by (auto simp: ins_ruleid_by_dep2_def back_deps_def Let_def split_def split: option.split)

lemma ins2_later:
  "set (later_deps (snd (ins_ruleid_by_dep2 di r en s))) =
     (if get_ruleid_by_tgt s di = None \<and> \<not> en then insert (di, r) (set (later_deps s))
      else set (later_deps s))"
  using block_ins_set[of RULEID_BY_DEP_ENTRY_LATER_BLOCK_SIZE 0 "(di, r)" "later_blocks s" "later_last s"]
  by (auto simp: ins_ruleid_by_dep2_def later_deps_def Let_def split_def split: option.split)

lemma ins2_simps [simp]:
  "rules_size (snd (ins_ruleid_by_dep2 di r en s)) = rules_size s"
  "st_ruleid (snd (ins_ruleid_by_dep2 di r en s)) = st_ruleid s"
  "rules_remain_list (snd (ins_ruleid_by_dep2 di r en s)) = rules_remain_list s"
  by (simp_all add: ins_ruleid_by_dep2_def Let_def split_def split: option.split)

text \<open>Two rules that differ in the blocks only.\<close>

definition blocks_only :: "rule \<Rightarrow> rule \<Rightarrow> bool" where
  "blocks_only a b = (\<exists>f g. b = a\<lparr> firstdepblock := f, lastdepblock := g \<rparr>)"

lemma blocks_only_refl [simp]: "blocks_only a a"
  unfolding blocks_only_def by (rule exI[of _ "firstdepblock a"], rule exI[of _ "lastdepblock a"]) simp

lemma blocks_onlyD:
  assumes "blocks_only a b"
  shows "deps b = deps a" "deplist b = deplist a" "tgts b = tgts a" "remain b = remain a"
    "setup_rule b = setup_rule a" "is_executed b = is_executed a" "diridx b = diridx a"
    "tgtlist b = tgtlist a" "is_inc b = is_inc a" "is_phony b = is_phony a"
  using assms by (auto simp: blocks_only_def setup_rule_def raw_rule_def)

lemma ins2_rules: "blocks_only (rules s x) (rules (snd (ins_ruleid_by_dep2 di r en s)) x)"
  "get_ruleid_by_tgt s di \<noteq> Some x \<Longrightarrow> rules (snd (ins_ruleid_by_dep2 di r en s)) x = rules s x"
proof -
  have "rules (snd (ins_ruleid_by_dep2 di r en s)) x = rules s x \<or>
      (get_ruleid_by_tgt s di = Some x \<and>
        (\<exists>f g. rules (snd (ins_ruleid_by_dep2 di r en s)) x = (rules s x)\<lparr> firstdepblock := f, lastdepblock := g \<rparr>))"
    by (auto simp: ins_ruleid_by_dep2_def Let_def split_def split: option.split)
  then show "blocks_only (rules s x) (rules (snd (ins_ruleid_by_dep2 di r en s)) x)"
    "get_ruleid_by_tgt s di \<noteq> Some x \<Longrightarrow> rules (snd (ins_ruleid_by_dep2 di r en s)) x = rules s x"
    using blocks_only_refl[of "rules s x"] unfolding blocks_only_def by metis+
qed

text \<open>What an edge changes of the rule itself.\<close>

definition edge_entry :: "nat \<Rightarrow> nat option \<Rightarrow> bool \<Rightarrow> bool \<Rightarrow> bool \<Rightarrow> bool \<Rightarrow> bool \<Rightarrow> bool \<Rightarrow> stirdep" where
  "edge_entry di nd rc oo wt p inc dupe = \<lparr> nameidx = di, nameidxnodir = nd, is_recursive = rc,
     is_orderonly = oo, is_wait = wt, is_primary = p, is_dupe = dupe, dep_is_inc = inc, dep_ruleid = -1 \<rparr>"

lemma add_edge_rules:
  "blocks_only (if x = r then (rules s r)\<lparr> deps := insert di (deps (rules s r)),
       deplist := deplist (rules s r) @ [edge_entry di nd rc oo wt p inc (di \<in> deps (rules s r))] \<rparr>
     else rules s x) (rules (add_edge r di nd rc oo wt p inc en s) x)"
  "x \<noteq> r \<Longrightarrow> get_ruleid_by_tgt s di \<noteq> Some x \<Longrightarrow> rules (add_edge r di nd rc oo wt p inc en s) x = rules s x"
proof -
  let ?a = "(rules s r)\<lparr> deps := insert di (deps (rules s r)),
       deplist := deplist (rules s r) @ [edge_entry di nd rc oo wt p inc (di \<in> deps (rules s r))] \<rparr>"
  let ?s = "upd_rule r (\<lambda>_. ?a) s"
  have eq: "add_edge r di nd rc oo wt p inc en s =
      (if di \<in> deps (rules s r) then ?s else snd (ins_ruleid_by_dep2 di r en ?s))"
    by (simp add: add_edge_def ins_dep_def edge_entry_def Let_def)
  show "blocks_only (if x = r then ?a else rules s x) (rules (add_edge r di nd rc oo wt p inc en s) x)"
    using ins2_rules(1)[of ?s x di r en] unfolding eq by auto
  show "x \<noteq> r \<Longrightarrow> get_ruleid_by_tgt s di \<noteq> Some x \<Longrightarrow> rules (add_edge r di nd rc oo wt p inc en s) x = rules s x"
    using ins2_rules(2)[of ?s di x r en] unfolding eq by auto
qed

lemma add_edge_back:
  "set (back_deps (add_edge r di nd rc oo wt p inc en s) d) =
     (if di \<notin> deps (rules s r) \<and> get_ruleid_by_tgt s di = Some d then insert r (set (back_deps s d))
      else set (back_deps s d))"
  "set (later_deps (add_edge r di nd rc oo wt p inc en s)) =
     (if di \<notin> deps (rules s r) \<and> get_ruleid_by_tgt s di = None \<and> \<not> en
      then insert (di, r) (set (later_deps s)) else set (later_deps s))"
proof -
  let ?a = "snd (ins_dep di nd rc oo wt p inc (rules s r))"
  have eq: "add_edge r di nd rc oo wt p inc en s =
      (if di \<in> deps (rules s r) then upd_rule r (\<lambda>_. ?a) s
       else snd (ins_ruleid_by_dep2 di r en (upd_rule r (\<lambda>_. ?a) s)))"
    by (simp add: add_edge_def ins_dep_def Let_def)
  have bd: "back_deps (upd_rule r (\<lambda>_. ?a) s) d = back_deps s d"
    by (simp add: back_deps_def ins_dep_def Let_def)
  show "set (back_deps (add_edge r di nd rc oo wt p inc en s) d) =
     (if di \<notin> deps (rules s r) \<and> get_ruleid_by_tgt s di = Some d then insert r (set (back_deps s d))
      else set (back_deps s d))"
    unfolding eq by (simp add: ins2_back bd)
  show "set (later_deps (add_edge r di nd rc oo wt p inc en s)) =
     (if di \<notin> deps (rules s r) \<and> get_ruleid_by_tgt s di = None \<and> \<not> en
      then insert (di, r) (set (later_deps s)) else set (later_deps s))"
    unfolding eq by (simp add: ins2_later)
qed

text \<open>The fields of the rules after an edge.\<close>

lemma add_edge_fields [simp]:
  "deps (rules (add_edge r di nd rc oo wt p inc en s) x) =
     (if x = r then insert di (deps (rules s r)) else deps (rules s x))"
  "tgts (rules (add_edge r di nd rc oo wt p inc en s) x) = tgts (rules s x)"
  "remain (rules (add_edge r di nd rc oo wt p inc en s) x) = remain (rules s x)"
  "is_executed (rules (add_edge r di nd rc oo wt p inc en s) x) = is_executed (rules s x)"
  using blocks_onlyD(1,3,4,6)[OF add_edge_rules(1)[of x r s di nd rc oo wt p inc en]] by auto

lemma setup_rule_edge:
  assumes "setup_rule a"
  shows "setup_rule (a\<lparr> deps := insert di (deps a),
     deplist := deplist a @ [edge_entry di nd rc oo wt p inc (di \<in> deps a)] \<rparr>)"
  using assms by (auto simp: setup_rule_def raw_rule_def edge_entry_def)

lemma edges_okD:
  assumes "edges_ok D s"
  shows "r \<in> set (back_deps s d) \<Longrightarrow> \<exists>di \<in> deps (rules s r). get_ruleid_by_tgt s di = Some d"
    "(di, r) \<in> set (later_deps s) \<Longrightarrow> di \<in> deps (rules s r)"
    "di \<in> deps (rules s r) \<Longrightarrow> (di, r) \<in> set (later_deps s) \<or>
       (\<exists>d. get_ruleid_by_tgt s di = Some d \<and> r \<in> set (back_deps s d)) \<or> (D \<and> get_ruleid_by_tgt s di = None)"
  using assms unfolding edges_ok_def by blast+

lemma add_edge_edges:
  assumes e: "edges_ok D s" and en: "en \<longrightarrow> D \<or> get_ruleid_by_tgt s di \<noteq> None"
  shows "edges_ok D (add_edge r di nd rc oo wt p inc en s)"
  unfolding edges_ok_def add_edge_get
proof (intro conjI allI ballI impI)
  let ?s = "add_edge r di nd rc oo wt p inc en s"
  fix x d
  assume "x \<in> set (back_deps ?s d)"
  then show "\<exists>n \<in> deps (rules ?s x). get_ruleid_by_tgt s n = Some d"
    using edges_okD(1)[OF e, of x d] unfolding add_edge_back by (auto split: if_splits)
next
  let ?s = "add_edge r di nd rc oo wt p inc en s"
  fix x n
  assume "(n, x) \<in> set (later_deps ?s)"
  then show "n \<in> deps (rules ?s x)"
    using edges_okD(2)[OF e, of n x] unfolding add_edge_back by (auto split: if_splits)
next
  let ?s = "add_edge r di nd rc oo wt p inc en s"
  fix x n
  assume n: "n \<in> deps (rules ?s x)"
  show "(n, x) \<in> set (later_deps ?s) \<or> (\<exists>d. get_ruleid_by_tgt s n = Some d \<and> x \<in> set (back_deps ?s d)) \<or>
      (D \<and> get_ruleid_by_tgt s n = None)"
  proof (cases "n \<in> deps (rules s x)")
    case True
    then show ?thesis using edges_okD(3)[OF e True] unfolding add_edge_back by auto
  next
    case False
    then have "x = r" "n = di" "di \<notin> deps (rules s r)" using n by (auto split: if_splits)
    then show ?thesis using en unfolding add_edge_back by (cases "get_ruleid_by_tgt s di") auto
  qed
qed

lemma add_edge_ok:
  assumes ok: "gb_ok D s" and r: "r < rules_size s" and en: "en \<longrightarrow> D \<or> get_ruleid_by_tgt s di \<noteq> None"
  shows "gb_ok D (add_edge r di nd rc oo wt p inc en s)"
proof -
  let ?s = "add_edge r di nd rc oo wt p inc en s"
  have "setup_rule (rules ?s x)" for x
    using blocks_onlyD(5)[OF add_edge_rules(1)[of x r s di nd rc oo wt p inc en]] gb_okD(1)[OF ok, of x]
      setup_rule_edge[OF gb_okD(1)[OF ok, of r]] by (auto split: if_splits)
  moreover have "tgts_ok ?s" using gb_okD(2)[OF ok] by (simp add: tgts_ok_def)
  moreover have "edges_ok D ?s" by (rule add_edge_edges[OF gb_okD(3)[OF ok] en])
  moreover have "rules ?s x = zero_rule" if "x \<ge> rules_size s" for x
  proof -
    have "get_ruleid_by_tgt s di \<noteq> Some x"
      using that gb_okD(2)[OF ok] tgts_okD(3)[of s di] by (auto simp: get_ruleid_Some)
    then show ?thesis using that r gb_okD(4)[OF ok that] by (subst add_edge_rules(2)) auto
  qed
  ultimately show ?thesis using gb_okD(5,6)[OF ok] by (simp add: gb_ok_def remain_ok_def)
qed

end
