(* ===== verification/Graph_Load.thy ===== *)
theory Graph_Load
  imports Graph_Build
begin

text \<open>
  What adding the rules of the Stirfile and the additional dependencies does to the rule base: every step
  keeps the invariant of the rule base, and in terms of names each rule gets exactly the targets and
  dependencies that were written down.
\<close>

section \<open>Names\<close>

definition ext :: "string list \<Rightarrow> string list \<Rightarrow> bool" where
  "ext a b = (\<exists>xs. b = a @ xs)"

lemma ext_refl [simp]: "ext a a"
  by (simp add: ext_def)

lemma ext_trans: "ext a b \<Longrightarrow> ext b c \<Longrightarrow> ext a c"
  by (auto simp: ext_def)

lemma ext_nth: "ext a b \<Longrightarrow> i < length a \<Longrightarrow> b ! i = a ! i"
  by (auto simp: ext_def nth_append)

lemma ext_length: "ext a b \<Longrightarrow> length a \<le> length b"
  by (auto simp: ext_def)

lemma ext_image: "ext a b \<Longrightarrow> \<forall>i \<in> A. i < length a \<Longrightarrow> (!) b ` A = (!) a ` A"
  by (auto simp: ext_nth intro!: image_cong)

text \<open>Targets, dependencies and additional dependencies by name.\<close>

definition rule_tgts :: "gbase \<Rightarrow> nat \<Rightarrow> string set" where
  "rule_tgts s r = (!) (names s) ` tgts (rules s r)"

definition rule_deps :: "gbase \<Rightarrow> nat \<Rightarrow> string set" where
  "rule_deps s r = (!) (names s) ` deps (rules s r)"

definition added :: "gbase \<Rightarrow> (string \<times> string option) set" where
  "added s = (\<lambda>e. (names s ! ad_tgt e, map_option ((!) (names s)) (ad_dep e))) ` set (concat (add_blocks s))"

lemma tgts_names: "gb_ok D s \<Longrightarrow> names_ok s \<Longrightarrow> t \<in> tgts (rules s r) \<Longrightarrow> t < length (names s)"
  using gb_okD(2)[of D s] tgts_okD(1)[of s t r] names_okD(2)[of s t] by simp

lemma ext_views:
  assumes "names_ok s" "gb_ok D s" "ext (names s) (names s')"
  shows "tgts (rules s' r) = tgts (rules s r) \<Longrightarrow> rule_tgts s' r = rule_tgts s r"
    "deps (rules s' r) = deps (rules s r) \<Longrightarrow> rule_deps s' r = rule_deps s r"
    "add_blocks s' = add_blocks s \<Longrightarrow> added s' = added s"
proof -
  show "tgts (rules s' r) = tgts (rules s r) \<Longrightarrow> rule_tgts s' r = rule_tgts s r"
    using ext_image[OF assms(3), of "tgts (rules s r)"] tgts_names[OF assms(2,1)] by (simp add: rule_tgts_def)
  show "deps (rules s' r) = deps (rules s r) \<Longrightarrow> rule_deps s' r = rule_deps s r"
    using ext_image[OF assms(3), of "deps (rules s r)"] names_okD(3)[OF assms(1)] by (simp add: rule_deps_def)
  show "add_blocks s' = add_blocks s \<Longrightarrow> added s' = added s"
    unfolding added_def
    by (rule image_cong)
       (auto simp: ext_nth[OF assms(3)] names_okD(4)[OF assms(1)] simp del: set_concat
         intro!: option.map_cong0 ext_nth[OF assms(3)] dest: names_okD(5)[OF assms(1)])
qed

section \<open>The basic steps\<close>

lemma gb_ok_names [simp]: "gb_ok D (s\<lparr> names := xs \<rparr>) = gb_ok D s"
  by (simp add: gb_ok_def tgts_ok_def edges_ok_def remain_ok_def back_deps_def later_deps_def get_ruleid_by_tgt_def)

lemma gb_ok_add [simp]: "gb_ok D (s\<lparr> add_blocks := xs, add_last := l \<rparr>) = gb_ok D s"
  by (simp add: gb_ok_def tgts_ok_def edges_ok_def remain_ok_def back_deps_def later_deps_def get_ruleid_by_tgt_def)

lemma stringtab_add_ok:
  assumes "stringtab_add c s = (i, s')"
  shows "s' = s\<lparr> names := names s' \<rparr>" "i < length (names s')" "names s' ! i = c" "ext (names s) (names s')"
    "gb_ok D s' = gb_ok D s" "names_ok s \<Longrightarrow> names_ok s'" "rules s' = rules s" "rules_size s' = rules_size s"
    "add_blocks s' = add_blocks s" "st_ruleid s' = st_ruleid s" "rules_remain_list s' = rules_remain_list s"
proof -
  obtain tab where t: "st_intern c (names s) = (i, tab)" "s' = s\<lparr> names := tab \<rparr>"
    using assms by (auto simp: stringtab_add_def split: prod.splits)
  note ok = st_intern_ok[OF t(1)]
  show "s' = s\<lparr> names := names s' \<rparr>" "i < length (names s')" "names s' ! i = c" "ext (names s) (names s')"
    "gb_ok D s' = gb_ok D s" "rules s' = rules s" "rules_size s' = rules_size s"
    "add_blocks s' = add_blocks s" "st_ruleid s' = st_ruleid s" "rules_remain_list s' = rules_remain_list s"
    using ok by (simp_all add: t(2) ext_def)
  have "length (names s) \<le> length tab" using ok(3) by auto
  then show "names_ok s \<Longrightarrow> names_ok s'"
    using ok(4) unfolding names_ok_def t(2) by (auto simp del: set_concat intro: less_le_trans)
qed

lemma new_rule_simps [simp]:
  "rules_size (new_rule a s) = Suc (rules_size s)" "st_ruleid (new_rule a s) = st_ruleid s"
  "rules (new_rule a s) = (rules s)(rules_size s := a)" "rules_remain_list (new_rule a s) = rules_remain_list s"
  "later_deps (new_rule a s) = later_deps s"
  by (simp_all add: new_rule_def later_deps_def)

lemma new_rule_gbase [simp]: "names (new_rule a s) = names s" "add_blocks (new_rule a s) = add_blocks s"
  by (simp_all add: new_rule_def)

lemma new_rule_get [simp]: "get_ruleid_by_tgt (new_rule a s) = get_ruleid_by_tgt s"
  by (intro ext) (simp add: get_ruleid_by_tgt_def)

lemma new_rule_ok:
  assumes ok: "gb_ok D s"
    and a: "setup_rule a" "tgts a = {}" "deps a = {}" "firstdepblock a = []" "\<not> remain a"
  shows "gb_ok D (new_rule a s)"
proof -
  note z = gb_okD(4)[OF ok, of "rules_size s", simplified]
  have bd: "back_deps (new_rule a s) d = back_deps s d" for d using a(4) z by (simp add: back_deps_def)
  have deps: "deps (rules (new_rule a s) x) = deps (rules s x)" for x using a(3) z by simp
  have tgts: "tgts (rules (new_rule a s) x) = tgts (rules s x)" for x using a(2) z by simp
  have "edges_ok D (new_rule a s)"
    using gb_okD(3)[OF ok] unfolding edges_ok_def bd deps new_rule_get new_rule_simps(5) .
  moreover have "tgts_ok (new_rule a s)"
    using gb_okD(2)[OF ok] unfolding tgts_ok_def tgts new_rule_simps(1,2) by (auto intro: less_trans)
  moreover have "remain (rules (new_rule a s) x) = remain (rules s x)" for x using a(5) z by simp
  moreover have "\<not> is_executed (rules (new_rule a s) x)" "\<not> is_executed (rules s x)" for x
    using a(1) gb_okD(1)[OF ok, of x] by (auto simp: setup_rule_def raw_rule_def)
  ultimately show ?thesis
    using gb_okD[OF ok] a(1) by (auto simp: gb_ok_def remain_ok_def less_Suc_eq)
qed

text \<open>A target: \<open>ins_tgt\<close> and \<open>ins_ruleid_by_tgt\<close> together, in either order.\<close>

definition with_tgt :: "nat \<Rightarrow> nat \<Rightarrow> nat option \<Rightarrow> bool \<Rightarrow> gbase \<Rightarrow> gbase" where
  "with_tgt r ti nd dist s =
     (upd_rule r (\<lambda>a. a\<lparr> tgts := insert ti (tgts a),
        tgtlist := tgtlist a @ [\<lparr> tgtidx = ti, tgtidxnodir = nd, tgt_is_dist = dist \<rparr>] \<rparr>) s)
     \<lparr> st_ruleid := (st_ruleid s)(ti := int r) \<rparr>"

lemma ins_tgt_both:
  assumes "tgts_ok s"
  shows "bind_res (ins_tgt ti nd dist (rules s r)) (\<lambda>a. bind_res (ins_ruleid_by_tgt ti r (upd_rule r (\<lambda>_. a) s)) f) =
      (if get_ruleid_by_tgt s ti = None then f (with_tgt r ti nd dist s)
       else Inl (Exited (if get_ruleid_by_tgt s ti = Some r then ''Target already exists in rule''
                         else ''ruleid by tgt already exists'')))"
    "bind_res (ins_ruleid_by_tgt ti r s) (\<lambda>s. bind_res (ins_tgt ti nd dist (rules s r)) (\<lambda>a. f (upd_rule r (\<lambda>_. a) s))) =
      (if get_ruleid_by_tgt s ti = None then f (with_tgt r ti nd dist s)
       else Inl (Exited ''ruleid by tgt already exists''))"
proof -
  have "st_ruleid s ti < 0 \<or> (\<exists>x. st_ruleid s ti = int x)" by presburger
  then consider "st_ruleid s ti < 0" | x where "st_ruleid s ti = int x" by blast
  note c = this
  have swap: "upd_rule r g (s\<lparr> st_ruleid := x \<rparr>) = (upd_rule r g s)\<lparr> st_ruleid := x \<rparr>" for g x
    by (cases s) (simp add: upd_rule_def)
  show "bind_res (ins_tgt ti nd dist (rules s r)) (\<lambda>a. bind_res (ins_ruleid_by_tgt ti r (upd_rule r (\<lambda>_. a) s)) f) =
      (if get_ruleid_by_tgt s ti = None then f (with_tgt r ti nd dist s)
       else Inl (Exited (if get_ruleid_by_tgt s ti = Some r then ''Target already exists in rule''
                         else ''ruleid by tgt already exists'')))"
    using c tgts_okD(1)[OF assms, of ti r]
    by cases (auto simp: ins_tgt_def ins_ruleid_by_tgt_def with_tgt_def get_ruleid_by_tgt_def upd_rule_def)
  show "bind_res (ins_ruleid_by_tgt ti r s) (\<lambda>s. bind_res (ins_tgt ti nd dist (rules s r)) (\<lambda>a. f (upd_rule r (\<lambda>_. a) s))) =
      (if get_ruleid_by_tgt s ti = None then f (with_tgt r ti nd dist s)
       else Inl (Exited ''ruleid by tgt already exists''))"
    using c tgts_okD(1)[OF assms, of ti r]
    by cases (auto simp: ins_tgt_def ins_ruleid_by_tgt_def with_tgt_def get_ruleid_by_tgt_def swap,
        simp add: upd_rule_def)
qed

lemma with_tgt_simps [simp]:
  "rules_size (with_tgt r ti nd dist s) = rules_size s"
  "rules_remain_list (with_tgt r ti nd dist s) = rules_remain_list s"
  "names (with_tgt r ti nd dist s) = names s" "add_blocks (with_tgt r ti nd dist s) = add_blocks s"
  "later_deps (with_tgt r ti nd dist s) = later_deps s" "back_deps (with_tgt r ti nd dist s) d = back_deps s d"
  "st_ruleid (with_tgt r ti nd dist s) = (st_ruleid s)(ti := int r)"
  "deps (rules (with_tgt r ti nd dist s) x) = deps (rules s x)"
  "remain (rules (with_tgt r ti nd dist s) x) = remain (rules s x)"
  "is_executed (rules (with_tgt r ti nd dist s) x) = is_executed (rules s x)"
  "setup_rule (rules (with_tgt r ti nd dist s) x) = setup_rule (rules s x)"
  "tgts (rules (with_tgt r ti nd dist s) x) = (if x = r then insert ti (tgts (rules s x)) else tgts (rules s x))"
  "x \<noteq> r \<Longrightarrow> rules (with_tgt r ti nd dist s) x = rules s x"
  by (auto simp: with_tgt_def later_deps_def back_deps_def setup_rule_def raw_rule_def)

lemma with_tgt_get [simp]:
  "get_ruleid_by_tgt (with_tgt r ti nd dist s) t = (if t = ti then Some r else get_ruleid_by_tgt s t)"
  by (simp add: get_ruleid_by_tgt_def)

lemma with_tgt_ok:
  assumes ok: "gb_ok False s" and r: "r < rules_size s" and new: "get_ruleid_by_tgt s ti = None"
  shows "gb_ok False (with_tgt r ti nd dist s)"
proof -
  have neg: "st_ruleid s ti < 0" using new by (simp add: get_ruleid_by_tgt_def split: if_splits)
  have "tgts_ok (with_tgt r ti nd dist s)"
    using gb_okD(2)[OF ok] r neg by (auto simp: tgts_ok_def)
  moreover have "edges_ok False (with_tgt r ti nd dist s)"
    unfolding edges_ok_def with_tgt_simps with_tgt_get
    using edges_okD[OF gb_okD(3)[OF ok]] new by (auto; metis option.distinct(1))
  ultimately show ?thesis using gb_okD[OF ok] r by (simp add: gb_ok_def remain_ok_def)
qed

lemma with_tgt_names_ok:
  assumes "names_ok s" "ti < length (names s)"
  shows "names_ok (with_tgt r ti nd dist s)"
  using assms by (simp add: names_ok_def del: set_concat)

section \<open>Adding a rule\<close>

definition name_of :: "string \<Rightarrow> string \<Rightarrow> string" where
  "name_of prefix nodir =
     (let p = (if nodir \<noteq> [] \<and> hd nodir = CHR ''/'' then nodir else prefix @ CHR ''/'' # nodir)
      in render (is_abs p) (comps p))"

lemma full_name_eq [simp]: "full_name prefix nodir = Inr (name_of prefix nodir)"
  by (simp add: full_name_def name_of_def Let_def canon_buflen_spec)

definition tgt_name :: "stiryyrule \<Rightarrow> tgt \<Rightarrow> string" where
  "tgt_name y t = (let n = name_of (y_prefix y) (t_namenodir t) in if is_hook y then n @ ''///'' else n)"

definition dep_name :: "stiryyrule \<Rightarrow> dep \<Rightarrow> string" where
  "dep_name y d = name_of (y_prefix y) (d_namenodir d)"

text \<open>The names that have a rule.\<close>

definition taken :: "gbase \<Rightarrow> string set" where
  "taken s = (\<Union>r. rule_tgts s r)"

lemma get_None_taken:
  assumes ok: "gb_ok D s" and n: "names_ok s" and i: "i < length (names s)"
  shows "get_ruleid_by_tgt s i = None \<longleftrightarrow> names s ! i \<notin> taken s"
proof
  assume g: "get_ruleid_by_tgt s i = None"
  show "names s ! i \<notin> taken s"
  proof
    assume "names s ! i \<in> taken s"
    then obtain r t where t: "t \<in> tgts (rules s r)" "names s ! i = names s ! t"
      by (auto simp: taken_def rule_tgts_def)
    then have "i = t" using tgts_names[OF ok n t(1)] names_okD(1)[OF n] i by (simp add: nth_eq_iff_index_eq)
    then show False using t(1) g tgts_okD(1)[OF gb_okD(2)[OF ok]] by (simp add: get_ruleid_by_tgt_def split: if_splits)
  qed
next
  assume a: "names s ! i \<notin> taken s"
  show "get_ruleid_by_tgt s i = None"
  proof (cases "get_ruleid_by_tgt s i")
    case (Some r)
    then have "i \<in> tgts (rules s r)"
      using tgts_okD(1)[OF gb_okD(2)[OF ok]] get_ruleid_Some[OF gb_okD(2)[OF ok]] by simp
    then show ?thesis using a by (auto simp: taken_def rule_tgts_def)
  qed
qed

text \<open>What the steps keep: the invariant, the names so far, the number of rules, the goals.\<close>

definition keeps :: "bool \<Rightarrow> gbase \<Rightarrow> gbase \<Rightarrow> bool" where
  "keeps D s s' = (gb_ok D s' \<and> names_ok s' \<and> ext (names s) (names s') \<and> rules_size s' = rules_size s \<and>
     rules_remain_list s' = rules_remain_list s)"

lemma keeps_trans: "keeps D s s' \<Longrightarrow> keeps D s' s'' \<Longrightarrow> keeps D s s''"
  by (auto simp: keeps_def intro: ext_trans)

lemma keeps_refl: "gb_ok D s \<Longrightarrow> names_ok s \<Longrightarrow> keeps D s s"
  by (simp add: keeps_def)

lemma keepsD:
  assumes "keeps D s s'"
  shows "gb_ok D s'" "names_ok s'" "ext (names s) (names s')" "rules_size s' = rules_size s"
    "rules_remain_list s' = rules_remain_list s"
  using assms by (simp_all add: keeps_def)

lemma stringtab_keeps: "stringtab_add c s = (i, s') \<Longrightarrow> gb_ok D s \<Longrightarrow> names_ok s \<Longrightarrow> keeps D s s'"
  using stringtab_add_ok by (simp add: keeps_def)

lemma with_tgt_keeps:
  assumes "gb_ok False s" "names_ok s" "r < rules_size s" "ti < length (names s)" "get_ruleid_by_tgt s ti = None"
  shows "keeps False s (with_tgt r ti nd dist s)"
  using with_tgt_ok[OF assms(1,3,5)] with_tgt_names_ok[OF assms(2,4)] by (simp add: keeps_def)

lemma rule_tgts_with [simp]:
  "rule_tgts (with_tgt r ti nd dist s) x =
      (if x = r then insert (names s ! ti) (rule_tgts s x) else rule_tgts s x)"
  by (simp add: rule_tgts_def)

lemma with_tgt_taken: "taken (with_tgt r ti nd dist s) = insert (names s ! ti) (taken s)"
  unfolding taken_def rule_tgts_with by (auto split: if_splits; blast)

lemma taken_ext:
  assumes "names_ok s" "gb_ok D s" "ext (names s) (names s')" "rules s' = rules s"
  shows "taken s' = taken s"
  using ext_views(1)[OF assms(1-3)] assms(4) by (simp add: taken_def)

lemma add_rule_tgts_ok:
  "gb_ok False s \<Longrightarrow> names_ok s \<Longrightarrow> r < rules_size s \<Longrightarrow>
   (case add_rule_tgts y r ts s of
      Inl f \<Rightarrow> (f = Exited ''Target already exists in rule'' \<or> f = Exited ''ruleid by tgt already exists'') \<and>
        \<not> (distinct (map (tgt_name y) ts) \<and> tgt_name y ` set ts \<inter> taken s = {})
    | Inr s' \<Rightarrow> keeps False s s' \<and> add_blocks s' = add_blocks s \<and>
        distinct (map (tgt_name y) ts) \<and> tgt_name y ` set ts \<inter> taken s = {} \<and>
        rule_tgts s' r = rule_tgts s r \<union> tgt_name y ` set ts \<and>
        (\<forall>x. deps (rules s' x) = deps (rules s x)) \<and> (\<forall>x. x \<noteq> r \<longrightarrow> rules s' x = rules s x))"
proof (induction ts arbitrary: s)
  case Nil
  then show ?case by (simp add: keeps_refl)
next
  case (Cons t ts)
  let ?n = "tgt_name y t"
  obtain ti s1 where s1: "stringtab_add ?n s = (ti, s1)" by force
  obtain tn s2 where s2: "stringtab_add (t_namenodir t) s1 = (tn, s2)" by force
  note a1 = stringtab_add_ok[OF s1] and a2 = stringtab_add_ok[OF s2]
  have ok2: "gb_ok False s2" "names_ok s2" using a1(5,6) a2(5,6) Cons.prems by simp_all
  have e: "ext (names s) (names s2)" using ext_trans[OF a1(4) a2(4)] .
  have ti: "ti < length (names s2)" "names s2 ! ti = ?n"
    using a1(2,3) ext_length[OF a2(4)] ext_nth[OF a2(4) a1(2)] by simp_all
  have rs: "rules s2 = rules s" using a1(7) a2(7) by simp
  have tk: "taken s2 = taken s" by (rule taken_ext[OF Cons.prems(2,1) e rs])
  have eq: "add_rule_tgts y r (t # ts) s =
      (if get_ruleid_by_tgt s2 ti = None then add_rule_tgts y r ts (with_tgt r ti (Some tn) (y_dist y) s2)
       else Inl (Exited (if get_ruleid_by_tgt s2 ti = Some r then ''Target already exists in rule''
                         else ''ruleid by tgt already exists'')))"
    unfolding ins_tgt_both(1)[OF gb_okD(2)[OF ok2(1)], symmetric]
    using s1 s2 by (simp add: tgt_name_def Let_def)
  show ?case
  proof (cases "get_ruleid_by_tgt s2 ti = None")
    case False
    then have "?n \<in> taken s" using get_None_taken[OF ok2 ti(1)] ti(2) tk by simp
    then show ?thesis using False eq by auto
  next
    case True
    let ?s = "with_tgt r ti (Some tn) (y_dist y) s2"
    have r2: "r < rules_size s2" using Cons.prems(3) a1(8) a2(8) by simp
    have k: "keeps False s2 ?s" by (rule with_tgt_keeps[OF ok2 r2 ti(1) True])
    have k0: "keeps False s ?s"
      using k e a1(8,11) a2(8,11) unfolding keeps_def by (auto intro: ext_trans)
    have new: "?n \<notin> taken s" using True get_None_taken[OF ok2 ti(1)] ti(2) tk by simp
    have tk': "taken ?s = insert ?n (taken s)" using with_tgt_taken[of r ti] ti(2) tk by simp
    have rt: "rule_tgts ?s r = insert ?n (rule_tgts s r)"
      using ext_views(1)[OF Cons.prems(2,1) e] rs ti(2) by simp
    have r3: "r < rules_size ?s" using r2 by simp
    have dp: "deps (rules ?s x) = deps (rules s x)" "x \<noteq> r \<Longrightarrow> rules ?s x = rules s x" for x
      using rs by simp_all
    show ?thesis
      using Cons.IH[OF keepsD(1,2)[OF k] r3] keeps_trans[OF k0] eq True new tk' rt dp a1(9) a2(9)
      by (auto split: sum.splits)
  qed
qed

lemma add_edge_names_ok:
  assumes "names_ok s" "di < length (names s)"
  shows "names_ok (add_edge r di nd rc oo wt p inc en s)"
  using assms by (simp add: names_ok_def del: set_concat)

lemma add_edge_keeps:
  assumes "gb_ok D s" "names_ok s" "r < rules_size s" "di < length (names s)"
    "en \<longrightarrow> D \<or> get_ruleid_by_tgt s di \<noteq> None"
  shows "keeps D s (add_edge r di nd rc oo wt p inc en s)"
  using add_edge_ok[OF assms(1,3,5)] add_edge_names_ok[OF assms(2,4)] by (simp add: keeps_def)

lemma rule_deps_edge [simp]:
  "rule_deps (add_edge r di nd rc oo wt p inc en s) x =
     (if x = r then insert (names s ! di) (rule_deps s x) else rule_deps s x)"
  by (simp add: rule_deps_def)

lemma rule_tgts_edge [simp]: "rule_tgts (add_edge r di nd rc oo wt p inc en s) x = rule_tgts s x"
  by (simp add: rule_tgts_def)

lemma added_edge [simp]: "added (add_edge r di nd rc oo wt p inc en s) = added s"
  by (simp add: added_def)

lemma add_rule_deps_ok:
  "gb_ok False s \<Longrightarrow> names_ok s \<Longrightarrow> r < rules_size s \<Longrightarrow>
   \<exists>s'. add_rule_deps y r ds s = Inr s' \<and> keeps False s s' \<and> add_blocks s' = add_blocks s \<and>
        rule_deps s' r = rule_deps s r \<union> dep_name y ` set ds \<and>
        (\<forall>x. tgts (rules s' x) = tgts (rules s x)) \<and> (\<forall>x. x \<noteq> r \<longrightarrow> deps (rules s' x) = deps (rules s x))"
proof (induction ds arbitrary: s)
  case Nil
  then show ?case by (simp add: keeps_refl)
next
  case (Cons d ds)
  let ?n = "dep_name y d"
  obtain di s1 where s1: "stringtab_add ?n s = (di, s1)" by force
  obtain dn s2 where s2: "stringtab_add (d_namenodir d) s1 = (dn, s2)" by force
  note a1 = stringtab_add_ok[OF s1] and a2 = stringtab_add_ok[OF s2]
  have ok2: "gb_ok False s2" "names_ok s2" using a1(5,6) a2(5,6) Cons.prems by simp_all
  have e: "ext (names s) (names s2)" using ext_trans[OF a1(4) a2(4)] .
  have di: "di < length (names s2)" "names s2 ! di = ?n"
    using a1(2,3) ext_length[OF a2(4)] ext_nth[OF a2(4) a1(2)] by simp_all
  have rs: "rules s2 = rules s" using a1(7) a2(7) by simp
  let ?s = "add_edge r di (Some dn) (d_rec d) (d_orderonly d) (d_wait d) True False False s2"
  have r2: "r < rules_size s2" using Cons.prems(3) a1(8) a2(8) by simp
  have k: "keeps False s2 ?s" by (rule add_edge_keeps[OF ok2 r2 di(1)]) simp
  have k0: "keeps False s ?s"
    using k e a1(8,11) a2(8,11) unfolding keeps_def by (auto intro: ext_trans)
  have eq: "add_rule_deps y r (d # ds) s = add_rule_deps y r ds ?s"
    using s1 s2 by (simp add: dep_name_def)
  have rd: "rule_deps ?s r = insert ?n (rule_deps s r)"
    using ext_views(2)[OF Cons.prems(2,1) e] rs di(2) by simp
  have r3: "r < rules_size ?s" using r2 by simp
  obtain s' where s': "add_rule_deps y r ds ?s = Inr s'" "keeps False ?s s'" "add_blocks s' = add_blocks ?s"
      "rule_deps s' r = rule_deps ?s r \<union> dep_name y ` set ds"
      "\<forall>x. tgts (rules s' x) = tgts (rules ?s x)" "\<forall>x. x \<noteq> r \<longrightarrow> deps (rules s' x) = deps (rules ?s x)"
    using Cons.IH[OF keepsD(1,2)[OF k] r3] by blast
  then show ?case using eq keeps_trans[OF k0 s'(2)] rd a1(9) a2(9) rs by auto
qed

text \<open>What adding one rule does, in terms of names.\<close>

definition rule_added :: "stiryyrule \<Rightarrow> tgt list \<Rightarrow> dep list \<Rightarrow> gbase \<Rightarrow> gbase \<Rightarrow> bool" where
  "rule_added y ts ds s s' = (rules_size s' = Suc (rules_size s) \<and>
     rules_remain_list s' = rules_remain_list s \<and> added s' = added s \<and>
     rule_tgts s' (rules_size s) = tgt_name y ` set ts \<and> rule_deps s' (rules_size s) = dep_name y ` set ds \<and>
     (\<forall>r < rules_size s. rule_tgts s' r = rule_tgts s r \<and> rule_deps s' r = rule_deps s r))"

definition rule_fits :: "stiryyrule \<Rightarrow> tgt list \<Rightarrow> gbase \<Rightarrow> bool" where
  "rule_fits y ts s = (ts \<noteq> [] \<and> (y_phony y \<longrightarrow> length ts = 1) \<and> distinct (map (tgt_name y) ts) \<and>
     tgt_name y ` set ts \<inter> taken s = {})"

definition add_rule_errors :: "cfail set" where
  "add_rule_errors = Exited ` {''Rules must have at least 1 target'',
     ''Phony rules must not have multiple targets'', ''Target already exists in rule'',
     ''ruleid by tgt already exists''}"

lemma taken_new:
  assumes "gb_ok D s" "tgts a = {}"
  shows "taken (new_rule a s) = taken s"
proof -
  have "rule_tgts (new_rule a s) x = rule_tgts s x" for x
    using gb_okD(4)[OF assms(1), of "rules_size s"] assms(2) by (simp add: rule_tgts_def)
  then show ?thesis by (simp add: taken_def)
qed

lemma add_rule_ok:
  assumes ok: "gb_ok False s" "names_ok s"
  shows "case add_rule ts ds y meat s of
      Inl f \<Rightarrow> f \<in> add_rule_errors \<and> \<not> rule_fits y ts s
    | Inr s' \<Rightarrow> rule_fits y ts s \<and> gb_ok False s' \<and> names_ok s' \<and> ext (names s) (names s') \<and>
        rule_added y ts ds s s'"
proof (cases "ts = [] \<or> y_phony y \<and> length ts \<noteq> 1")
  case True
  then show ?thesis by (auto simp: add_rule_def add_rule_errors_def rule_fits_def)
next
  case False
  let ?r = "rules_size s"
  obtain dir s1 where s1: "stringtab_add (y_prefix y) s = (dir, s1)" by force
  obtain mi s2 where s2: "(case meat of None \<Rightarrow> (None, s1)
      | Some m \<Rightarrow> let (i, s) = stringtab_add m s1 in (Some i, s)) = (mi, s2)" by force
  let ?a = "zero_rule\<lparr> scopeidx := y_scopeidx y, is_phony := y_phony y, is_maybe := y_maybe y,
     is_rectgt := y_rectgt y, is_detouch := y_detouch y, is_dist := y_dist y,
     is_cleanhook := y_iscleanhook y, is_distcleanhook := y_isdistcleanhook y,
     is_bothcleanhook := y_isbothcleanhook y, diridx := dir, meatidx := mi \<rparr>"
  let ?s = "new_rule ?a s2"
  note a1 = stringtab_add_ok[OF s1]
  have s12: "s2 = s1 \<or> (\<exists>m i. stringtab_add m s1 = (i, s2))"
    using s2 by (auto split: option.splits prod.splits)
  have a2: "ext (names s1) (names s2)" "gb_ok False s2 = gb_ok False s1" "names_ok s1 \<Longrightarrow> names_ok s2"
      "rules s2 = rules s1" "rules_size s2 = rules_size s1" "add_blocks s2 = add_blocks s1"
      "rules_remain_list s2 = rules_remain_list s1"
    using s12 stringtab_add_ok[of _ s1 _ s2] by auto
  have ok2: "gb_ok False s2" "names_ok s2" using a1 a2 ok by simp_all
  have e: "ext (names s) (names ?s)" using ext_trans[OF a1(4) a2(1)] by simp
  have rs: "rules s2 = rules s" "rules_size s2 = ?r" "add_blocks s2 = add_blocks s"
      "rules_remain_list s2 = rules_remain_list s" using a1 a2 by simp_all
  have za: "tgts ?a = {}" "deps ?a = {}" "firstdepblock ?a = []" "\<not> remain ?a" "setup_rule ?a"
    by (simp_all add: zero_rule_def setup_rule_def raw_rule_def)
  have ok3: "gb_ok False ?s" by (rule new_rule_ok[OF ok2(1) za(5,1,2,3,4)])
  have ok3': "names_ok ?s" using ok2(2) za(2) by (simp add: names_ok_def del: set_concat)
  have r3: "?r < rules_size ?s" using rs by simp
  have tk: "taken ?s = taken s"
    using taken_new[OF ok2(1) za(1)] taken_ext[OF ok(2,1) ext_trans[OF a1(4) a2(1)] rs(1)] by simp
  have z: "rules s ?r = zero_rule" using gb_okD(4)[OF ok(1), of ?r] by simp
  have views: "rule_tgts ?s x = rule_tgts s x" "rule_deps ?s x = rule_deps s x" "added ?s = added s" for x
    using ext_views[OF ok(2,1) e] rs z za(1,2) by simp_all
  have empty: "rule_tgts s ?r = {}" "rule_deps s ?r = {}" using z by (simp_all add: rule_tgts_def rule_deps_def)
  have eq: "add_rule ts ds y meat s = bind_res (add_rule_tgts y ?r ts ?s) (add_rule_deps y ?r ds)"
    using False s1 s2 by (auto simp: add_rule_def Let_def[of "rules_size s"])
  note T = add_rule_tgts_ok[OF ok3 ok3' r3, of y ts]
  show ?thesis
  proof (cases "add_rule_tgts y ?r ts ?s")
    case (Inl f)
    then show ?thesis using T eq tk by (auto simp: rule_fits_def add_rule_errors_def)
  next
    case (Inr s4)
    have t4: "keeps False ?s s4" "add_blocks s4 = add_blocks ?s"
        "distinct (map (tgt_name y) ts) \<and> tgt_name y ` set ts \<inter> taken s = {}"
        "rule_tgts s4 ?r = rule_tgts ?s ?r \<union> tgt_name y ` set ts" "\<forall>x. deps (rules s4 x) = deps (rules ?s x)"
        "\<forall>x. x \<noteq> ?r \<longrightarrow> rules s4 x = rules ?s x"
      using T unfolding Inr tk by simp_all
    note k4 = keepsD[OF t4(1)]
    have r4: "?r < rules_size s4" using r3 k4(4) by simp
    obtain s' where s': "add_rule_deps y ?r ds s4 = Inr s'" "keeps False s4 s'" "add_blocks s' = add_blocks s4"
        "rule_deps s' ?r = rule_deps s4 ?r \<union> dep_name y ` set ds"
        "\<forall>x. tgts (rules s' x) = tgts (rules s4 x)" "\<forall>x. x \<noteq> ?r \<longrightarrow> deps (rules s' x) = deps (rules s4 x)"
      using add_rule_deps_ok[OF k4(1,2) r4] by blast
    note k' = keepsD[OF s'(2)]
    note v4 = ext_views[OF ok3' ok3 k4(3)] and v' = ext_views[OF k4(2,1) k'(3)]
    have "rule_added y ts ds s s'"
      unfolding rule_added_def
    proof (intro conjI allI impI)
      show "rules_size s' = Suc ?r" using k'(4) k4(4) rs by simp
      show "rules_remain_list s' = rules_remain_list s" using k'(5) k4(5) rs by simp
      show "added s' = added s" using v'(3) v4(3) s'(3) t4(2) views(3) by simp
      show "rule_tgts s' ?r = tgt_name y ` set ts" using v'(1) s'(5) t4(4) views(1) empty by simp
      show "rule_deps s' ?r = dep_name y ` set ds" using s'(4) v4(2) t4(5) views(2) empty by simp
      fix r
      assume "r < ?r"
      then show "rule_tgts s' r = rule_tgts s r" "rule_deps s' r = rule_deps s r"
        using v'(1,2)[of r] v4(1,2)[of r] s'(5,6) t4(5,6) views(1,2) by simp_all
    qed
    moreover have "ext (names s) (names s')" using ext_trans[OF ext_trans[OF e k4(3)] k'(3)] .
    ultimately show ?thesis
      using Inr s'(1) eq k'(1,2) t4(3) False by (auto simp: rule_fits_def)
  qed
qed

text \<open>
  C13: \<open>add_rule\<close> is exact: it succeeds precisely when the rule has a target, a phony rule has one, the
  canonical names of the targets differ and none of them has a rule yet; then it appends one rule with the
  written targets and dependencies, leaves all others as they are and keeps the invariant of the rule base;
  otherwise it ends with one of its four messages.
\<close>

theorem add_rule_exact:
  assumes "gb_ok False s" "names_ok s"
  shows "case add_rule ts ds y meat s of
      Inl f \<Rightarrow> f \<in> add_rule_errors \<and> \<not> rule_fits y ts s
    | Inr s' \<Rightarrow> rule_fits y ts s \<and> gb_ok False s' \<and> names_ok s' \<and> ext (names s) (names s') \<and>
        rule_added y ts ds s s'"
  using assms by (rule add_rule_ok)

text \<open>\<open>a b: c\<close> in the directory \<open>d\<close>, and the same as a phony rule.\<close>

definition ex_two_tgts :: "bool \<Rightarrow> stiryyrule" where
  "ex_two_tgts phony = \<lparr> y_bases = [], y_deps = [\<lparr> d_namenodir = ''../c'', d_suffix = None,
     d_percent_special = False, d_rec = False, d_orderonly = False, d_wait = False \<rparr>],
     y_targets = map (\<lambda>n. \<lparr> t_namenodir = n, t_suffix = None, t_percent_special = False, t_is_dist = False \<rparr>) [''a'', ''b''],
     y_shells = [], y_scopeidx = 0, y_prefix = ''d'', y_lineno = 1, y_phony = phony, y_rectgt = False, y_detouch = False, y_maybe = False,
     y_dist = False, y_deponly = False, y_iscleanhook = False, y_isdistcleanhook = False,
     y_isbothcleanhook = False, y_ispat = False, y_patfrozen = False \<rparr>"

theorem add_rule_exact_witness:
  "case add_rule (y_targets (ex_two_tgts False)) (y_deps (ex_two_tgts False)) (ex_two_tgts False) None gbase_init of
     Inl f \<Rightarrow> False
   | Inr s' \<Rightarrow> rule_added (ex_two_tgts False) (y_targets (ex_two_tgts False)) (y_deps (ex_two_tgts False)) gbase_init s' \<and>
       rule_tgts s' 0 = {''d/a'', ''d/b''} \<and> rule_deps s' 0 = {''c''}"
proof -
  let ?y = "ex_two_tgts False"
  have "case add_rule (y_targets ?y) (y_deps ?y) ?y None gbase_init of Inl f \<Rightarrow> False
      | Inr s' \<Rightarrow> rule_tgts s' 0 = {''d/a'', ''d/b''} \<and> rule_deps s' 0 = {''c''}"
    by code_simp
  then show ?thesis
    using add_rule_exact[OF gbase_init_ok, where ts = "y_targets ?y" and ds = "y_deps ?y" and y = ?y and meat = None] by (auto split: sum.splits)
qed
end
