(* ===== verification/Pattern_Rules.thy ===== *)
theory Pattern_Rules
  imports Graph_Load
begin

text \<open>
  The expansion of pattern rules in \<open>main\<close>: the stem (\<open>meat\<close>) is cut out of each base by the first
  target of the rule, and put into the other targets and the dependencies.  A pattern is a name with
  a special \<open>%\<close> in it, or a prefix with a separate suffix.

  \<open>memcmp\<close> on a base that is shorter than the prefix stops at the end of the base.  A suffix
  that starts before the base (\<open>basenodir+strlen(basenodir)-locp1sz\<close>) and a stem of negative length
  are accesses outside the strings.
\<close>

section \<open>The stem\<close>

definition cut_meat :: "string \<Rightarrow> string \<Rightarrow> string \<Rightarrow> string res" where
  "cut_meat pre suf base =
     (if take (length pre) base \<noteq> pre then Inl (Exited ''Target didn't match base'')
      else if length base < length suf then Inl Overread
      else if drop (length base - length suf) base \<noteq> suf then Inl (Exited ''Target didn't match base'')
      else if length base < length pre + length suf then Inl Overread
      else Inr (take (length base - (length pre + length suf)) (drop (length pre) base)))"

definition percent_one :: "tgt \<Rightarrow> bool" where
  "percent_one t = (t_percent_special t \<and> strcnt (t_namenodir t) CHR ''%'' = 1)"

definition before_percent :: "string \<Rightarrow> string" where
  "before_percent s = (case strchr s CHR ''%'' of Some loc \<Rightarrow> take loc s | None \<Rightarrow> s)"

definition after_percent :: "string \<Rightarrow> string" where
  "after_percent s = (case strchr s CHR ''%'' of Some loc \<Rightarrow> drop (Suc loc) s | None \<Rightarrow> [])"

definition pat_meat :: "tgt \<Rightarrow> string \<Rightarrow> string res" where
  "pat_meat t base =
     (let n = t_namenodir t in
      if t_suffix t = None \<and> \<not> percent_one t then Inl (Exited ''Target must have exactly one % sign'')
      else if percent_one t then cut_meat (before_percent n) (after_percent n) base
      else case t_suffix t of
        Some suf \<Rightarrow> cut_meat n suf base
      | None \<Rightarrow> Inl (Exited ''Target must have exactly one % sign''))"

section \<open>The other names\<close>

definition exp_tgt :: "string \<Rightarrow> tgt \<Rightarrow> tgt res" where
  "exp_tgt meat t =
     (let n = t_namenodir t in
      if percent_one t then Inr (t\<lparr> t_namenodir := before_percent n @ meat @ after_percent n \<rparr>)
      else case t_suffix t of
        Some suf \<Rightarrow> Inr (t\<lparr> t_namenodir := n @ meat @ suf \<rparr>)
      | None \<Rightarrow> Inl (Exited ''Target must have exactly one % sign''))"

definition exp_dep :: "string \<Rightarrow> dep \<Rightarrow> dep res" where
  "exp_dep meat d =
     (let n = d_namenodir d in
      case d_suffix d of
        Some suf \<Rightarrow> Inr (d\<lparr> d_namenodir := n @ meat @ suf \<rparr>)
      | None \<Rightarrow>
          if \<not> d_percent_special d then Inr d
          else if strcnt n CHR ''%'' > 1 then Inl (Exited ''Dep must have exactly zero or one % signs'')
          else if strchr n CHR ''%'' = None then Inr d
          else Inr (d\<lparr> d_namenodir := before_percent n @ meat @ after_percent n \<rparr>))"

fun map_res :: "('a \<Rightarrow> 'b res) \<Rightarrow> 'a list \<Rightarrow> 'b list res" where
  "map_res f [] = Inr []"
| "map_res f (x # xs) = bind_res (f x) (\<lambda>y. bind_res (map_res f xs) (\<lambda>ys. Inr (y # ys)))"

text \<open>The rule for one base.\<close>

definition expand_base :: "stiryyrule \<Rightarrow> tgt \<Rightarrow> (tgt list \<times> dep list \<times> string) res" where
  "expand_base y b =
     (case y_targets y of
        [] \<Rightarrow> Inl Aborted
      | t # ts \<Rightarrow>
          bind_res (pat_meat t (t_namenodir b)) (\<lambda>meat.
          bind_res (map_res (exp_tgt meat) ts) (\<lambda>ts'.
          bind_res (map_res (exp_dep meat) (y_deps y)) (\<lambda>ds.
            if is_hook y then Inl Aborted
            else Inr (t\<lparr> t_namenodir := t_namenodir b \<rparr> # ts', ds, meat)))))"

fun expand_bases :: "stiryyrule \<Rightarrow> tgt list \<Rightarrow> gbase \<Rightarrow> gbase res" where
  "expand_bases y [] s = Inr s"
| "expand_bases y (b # bs) s =
     bind_res (expand_base y b) (\<lambda>(ts, ds, meat).
       bind_res (add_rule ts ds y (Some meat) s) (expand_bases y bs))"

section \<open>Correctness\<close>

text \<open>The pattern of a target, as prefix and suffix.\<close>

definition tgt_pattern :: "tgt \<Rightarrow> (string \<times> string) option" where
  "tgt_pattern t = (if percent_one t then Some (before_percent (t_namenodir t), after_percent (t_namenodir t))
     else map_option (\<lambda>suf. (t_namenodir t, suf)) (t_suffix t))"

lemma cut_meat_iff: "cut_meat pre suf base = Inr meat \<longleftrightarrow> base = pre @ meat @ suf"
proof
  assume "cut_meat pre suf base = Inr meat"
  then have c: "take (length pre) base = pre" "length pre + length suf \<le> length base"
    "drop (length base - length suf) base = suf"
    "meat = take (length base - (length pre + length suf)) (drop (length pre) base)"
    by (auto simp: cut_meat_def split: if_splits)
  let ?k = "length base - (length pre + length suf)"
  have "drop ?k (drop (length pre) base) = suf" using c(2,3) by simp
  then have "drop (length pre) base = meat @ suf" using c(4) append_take_drop_id[of ?k "drop (length pre) base"] by simp
  then show "base = pre @ meat @ suf" using c(1) append_take_drop_id[of "length pre" base] by simp
next
  assume "base = pre @ meat @ suf"
  then show "cut_meat pre suf base = Inr meat" by (simp add: cut_meat_def)
qed

lemma cut_meat_overread:
  "cut_meat pre suf base = Inl Overread \<longleftrightarrow>
     take (length pre) base = pre \<and>
     (length base < length suf \<or>
      (length base < length pre + length suf \<and> drop (length base - length suf) base = suf))"
  by (auto simp: cut_meat_def)

lemma before_after_percent:
  assumes "strcnt s CHR ''%'' = 1"
  shows "s = before_percent s @ CHR ''%'' # after_percent s"
proof -
  have "CHR ''%'' \<in> set s" using assms by (auto simp: strcnt_count intro: ccontr)
  then obtain loc where l: "strchr s CHR ''%'' = Some loc" by (cases "strchr s CHR ''%''") auto
  moreover have "loc < length s \<and> s ! loc = CHR ''%''"
    using l by (induction s arbitrary: loc) (auto split: if_splits)
  ultimately show ?thesis using id_take_nth_drop[of loc s] by (simp add: before_percent_def after_percent_def)
qed

text \<open>
  The stem of a pattern rule.  With \<open>pre\<close> and \<open>suf\<close> the two halves of the first target, a stem is
  computed exactly when the base is \<open>pre\<close>, the stem and \<open>suf\<close> in this order; the computation leaves the
  strings exactly when the base starts with \<open>pre\<close> and either is shorter than \<open>suf\<close> or ends
  with \<open>suf\<close> while the two overlap; and a target without a pattern is refused.
\<close>

theorem pat_meat_exact:
  "(case tgt_pattern t of
      None \<Rightarrow> pat_meat t base = Inl (Exited ''Target must have exactly one % sign'')
    | Some (pre, suf) \<Rightarrow>
        (\<forall>meat. pat_meat t base = Inr meat \<longleftrightarrow> base = pre @ meat @ suf) \<and>
        (pat_meat t base = Inl Overread \<longleftrightarrow>
           take (length pre) base = pre \<and>
           (length base < length suf \<or>
            (length base < length pre + length suf \<and> drop (length base - length suf) base = suf))))"
  by (auto simp: tgt_pattern_def pat_meat_def cut_meat_iff cut_meat_overread Let_def split: option.split)

text \<open>A base that a pattern overlaps itself on, such as \<open>a%a\<close> on the base \<open>a\<close>, passes both comparisons,
  and the stem gets a negative length.\<close>

lemma pat_meat_overlap:
  "pat_meat \<lparr> t_namenodir = ''a%a'', t_suffix = None, t_percent_special = True, t_is_dist = False \<rparr> ''a'' = Inl Overread"
  by code_simp

text \<open>
  The first target of an expanded rule is the base itself, without an expansion; expanding the target
  with the stem it gave would be the same.
\<close>

theorem pat_roundtrip:
  assumes "pat_meat t base = Inr meat"
  shows "exp_tgt meat t = Inr (t\<lparr> t_namenodir := base \<rparr>)"
  using assms
  by (auto simp: pat_meat_def exp_tgt_def cut_meat_iff Let_def split: if_splits option.splits)

theorem pat_roundtrip_witness:
  "exp_tgt ''x'' \<lparr> t_namenodir = ''o/%.o'', t_suffix = None, t_percent_special = True, t_is_dist = False \<rparr> =
     Inr \<lparr> t_namenodir = ''o/x.o'', t_suffix = None, t_percent_special = True, t_is_dist = False \<rparr>"
proof -
  have "pat_meat \<lparr> t_namenodir = ''o/%.o'', t_suffix = None, t_percent_special = True, t_is_dist = False \<rparr> ''o/x.o'' = Inr ''x''"
    by code_simp
  from pat_roundtrip[OF this] show ?thesis by simp
qed

lemma expand_base_tgts: "expand_base y b = Inr (ts, ds, meat) \<Longrightarrow> ts \<noteq> []"
  by (auto simp: expand_base_def stir_simps split: list.splits if_splits)

end
