(* ===== verification/Graph_Added.thy ===== *)
theory Graph_Added
  imports Graph_Load
begin

text \<open>
  The additional dependencies (\<open>ins_add_dep\<close>, \<open>add_dep_from_rules\<close>, \<open>add_dep\<close> and
  \<open>process_additional_deps_2\<close>): what is collected, and that afterwards every target named there has a rule
  and every rule the collected dependencies of its targets, in terms of names.
\<close>

section \<open>Collecting the additional dependencies\<close>

lemma ins_add_dep_simps [simp]:
  "rules (ins_add_dep ti di ap tp inc s) = rules s" "rules_size (ins_add_dep ti di ap tp inc s) = rules_size s"
  "names (ins_add_dep ti di ap tp inc s) = names s"
  "rules_remain_list (ins_add_dep ti di ap tp inc s) = rules_remain_list s"
  "st_ruleid (ins_add_dep ti di ap tp inc s) = st_ruleid s"
  "gb_ok D (ins_add_dep ti di ap tp inc s) = gb_ok D s"
  by (simp_all add: ins_add_dep_def Let_def split_def)

lemma ins_add_dep_set:
  "set (concat (add_blocks (ins_add_dep ti di ap tp inc s))) =
     insert \<lparr> ad_tgt = ti, ad_dep = di, ad_auto_phony = ap, ad_phony = tp, ad_inc = inc \<rparr>
       (set (concat (add_blocks s)))"
  unfolding ins_add_dep_def Let_def split_def by (simp add: block_ins_set[simplified])

lemma ins_add_dep_added:
  "added (ins_add_dep ti di ap tp inc s) =
     insert (names s ! ti, map_option ((!) (names s)) di) (added s)"
  unfolding added_def ins_add_dep_set by simp

lemma ins_add_dep_names_ok:
  "names_ok s \<Longrightarrow> ti < length (names s) \<Longrightarrow> (\<forall>d. di = Some d \<longrightarrow> d < length (names s)) \<Longrightarrow>
   names_ok (ins_add_dep ti di ap tp inc s)"
  unfolding names_ok_def ins_add_dep_set by (auto simp del: set_concat)

text \<open>The steps that only collect leave the rules alone.\<close>

definition collects :: "gbase \<Rightarrow> gbase \<Rightarrow> (string \<times> string option) set \<Rightarrow> bool" where
  "collects s s' A = (keeps False s s' \<and> rules s' = rules s \<and> st_ruleid s' = st_ruleid s \<and>
     added s' = added s \<union> A)"

lemma collects_trans: "collects s s' A \<Longrightarrow> collects s' s'' B \<Longrightarrow> collects s s'' (A \<union> B)"
  by (auto simp: collects_def intro: keeps_trans)

lemma collects_refl: "gb_ok False s \<Longrightarrow> names_ok s \<Longrightarrow> collects s s {}"
  by (simp add: collects_def keeps_refl)

lemma collectsD:
  assumes "collects s s' A"
  shows "gb_ok False s'" "names_ok s'" "ext (names s) (names s')" "rules s' = rules s" "added s' = added s \<union> A"
    "rules_size s' = rules_size s" "rules_remain_list s' = rules_remain_list s"
  using assms by (simp_all add: collects_def keeps_def)

lemma collect_name:
  assumes "gb_ok False s" "names_ok s" "stringtab_add c s = (i, s')"
  shows "collects s s' {}"
  using stringtab_add_ok[OF assms(3)] stringtab_keeps[OF assms(3,1,2)] ext_views(3)[OF assms(2,1), of s']
  by (simp add: collects_def)

lemma collect_entry:
  assumes "gb_ok False s" "names_ok s" "ti < length (names s)" "\<forall>d. di = Some d \<longrightarrow> d < length (names s)"
  shows "collects s (ins_add_dep ti di ap tp inc s) {(names s ! ti, map_option ((!) (names s)) di)}"
  using assms ins_add_dep_names_ok[OF assms(2-4)] by (simp add: collects_def keeps_def ins_add_dep_added)

lemma add_deps_of_tgt_ok:
  "gb_ok False s \<Longrightarrow> names_ok s \<Longrightarrow> ti < length (names s) \<Longrightarrow>
   \<exists>s'. add_deps_of_tgt prefix phony ti ds s = Inr s' \<and>
     collects s s' ({names s ! ti} \<times> Some ` (\<lambda>d. name_of prefix (d_namenodir d)) ` set ds)"
proof (induction ds arbitrary: s)
  case Nil
  then show ?case by (simp add: collects_refl)
next
  case (Cons d ds)
  let ?n = "name_of prefix (d_namenodir d)"
  obtain di s1 where s1: "stringtab_add ?n s = (di, s1)" by force
  note a1 = stringtab_add_ok[OF s1]
  have c1: "collects s s1 {}" by (rule collect_name[OF Cons.prems(1,2) s1])
  have ti: "ti < length (names s1)" "names s1 ! ti = names s ! ti"
    using ext_length[OF a1(4)] ext_nth[OF a1(4) Cons.prems(3)] Cons.prems(3) by simp_all
  let ?s = "ins_add_dep ti (Some di) False phony False s1"
  have c2: "collects s1 ?s {(names s ! ti, Some ?n)}"
    using collect_entry[OF collectsD(1,2)[OF c1] ti(1), of "Some di"] a1(2,3) ti(2) by simp
  obtain s' where s': "add_deps_of_tgt prefix phony ti ds ?s = Inr s'"
      "collects ?s s' ({names ?s ! ti} \<times> Some ` (\<lambda>d. name_of prefix (d_namenodir d)) ` set ds)"
    using Cons.IH[OF collectsD(1,2)[OF c2]] ti(1) by auto
  have "collects s s' ({} \<union> ({(names s ! ti, Some ?n)} \<union>
      ({names s ! ti} \<times> Some ` (\<lambda>d. name_of prefix (d_namenodir d)) ` set ds)))"
    using collects_trans[OF c1 collects_trans[OF c2 s'(2)]] ti(2) by simp
  then show ?case using s1 s'(1) by simp
qed

text \<open>Every target is entered by itself, and once with each dependency.\<close>

definition dep_pairs :: "string set \<Rightarrow> string set \<Rightarrow> (string \<times> string option) set" where
  "dep_pairs T E = T \<times> insert None (Some ` E)"

lemma dep_pairs_simps: "dep_pairs (insert t T) E = insert (t, None) ({t} \<times> Some ` E) \<union> dep_pairs T E"
  "dep_pairs {} E = {}"
  by (auto simp: dep_pairs_def)

lemma add_dep_from_rules_ok:
  "gb_ok False s \<Longrightarrow> names_ok s \<Longrightarrow>
   \<exists>s'. add_dep_from_rules ts ds phony prefix s = Inr s' \<and>
     collects s s' (dep_pairs ((\<lambda>t. name_of prefix (t_namenodir t)) ` set ts)
                      ((\<lambda>d. name_of prefix (d_namenodir d)) ` set ds))"
proof (induction ts arbitrary: s)
  case Nil
  then show ?case by (simp add: collects_refl dep_pairs_simps)
next
  case (Cons t ts)
  let ?n = "name_of prefix (t_namenodir t)"
  obtain ti s1 where s1: "stringtab_add ?n s = (ti, s1)" by force
  note a1 = stringtab_add_ok[OF s1]
  have c1: "collects s s1 {}" by (rule collect_name[OF Cons.prems s1])
  let ?s = "ins_add_dep ti None False phony False s1"
  have c2: "collects s1 ?s {(?n, None)}"
    using collect_entry[OF collectsD(1,2)[OF c1] a1(2), of None] a1(3) by simp
  obtain s2 where s2: "add_deps_of_tgt prefix phony ti ds ?s = Inr s2"
      "collects ?s s2 ({?n} \<times> Some ` (\<lambda>d. name_of prefix (d_namenodir d)) ` set ds)"
    using add_deps_of_tgt_ok[OF collectsD(1,2)[OF c2], of ti prefix phony ds] a1(2,3) by auto
  obtain s' where s': "add_dep_from_rules ts ds phony prefix s2 = Inr s'"
      "collects s2 s' (dep_pairs ((\<lambda>t. name_of prefix (t_namenodir t)) ` set ts)
                      ((\<lambda>d. name_of prefix (d_namenodir d)) ` set ds))"
    using Cons.IH[OF collectsD(1,2)[OF s2(2)]] by blast
  have c: "collects s s' ({} \<union> ({(?n, None)} \<union>
      (({?n} \<times> Some ` (\<lambda>d. name_of prefix (d_namenodir d)) ` set ds) \<union>
       dep_pairs ((\<lambda>t. name_of prefix (t_namenodir t)) ` set ts) ((\<lambda>d. name_of prefix (d_namenodir d)) ` set ds))))"
    using collects_trans[OF c1 collects_trans[OF c2 collects_trans[OF s2(2) s'(2)]]] .
  have eq: "add_dep_from_rules (t # ts) ds phony prefix s = Inr s'" using s1 s2(1) s'(1) by simp
  show ?case
    unfolding eq list.set image_insert dep_pairs_simps(1) using c by (auto simp: Un_assoc)
qed

lemma add_dep_deps_ok:
  "gb_ok False s \<Longrightarrow> names_ok s \<Longrightarrow> ti < length (names s) \<Longrightarrow>
   collects s (add_dep_deps ti ds phony ap inc s) ({names s ! ti} \<times> Some ` set ds)"
proof (induction ds arbitrary: s)
  case Nil
  then show ?case by (simp add: collects_refl)
next
  case (Cons d ds)
  obtain di s1 where s1: "stringtab_add d s = (di, s1)" by force
  note a1 = stringtab_add_ok[OF s1]
  have c1: "collects s s1 {}" by (rule collect_name[OF Cons.prems(1,2) s1])
  have ti: "ti < length (names s1)" "names s1 ! ti = names s ! ti"
    using ext_length[OF a1(4)] ext_nth[OF a1(4) Cons.prems(3)] Cons.prems(3) by simp_all
  let ?s = "ins_add_dep ti (Some di) ap phony inc s1"
  have c2: "collects s1 ?s {(names s ! ti, Some d)}"
    using collect_entry[OF collectsD(1,2)[OF c1] ti(1), of "Some di"] a1(2,3) ti(2) by simp
  have c3: "collects ?s (add_dep_deps ti ds phony ap inc ?s) ({names s ! ti} \<times> Some ` set ds)"
    using Cons.IH[OF collectsD(1,2)[OF c2]] ti by simp
  show ?case
    using collects_trans[OF c1 collects_trans[OF c2 c3]] s1 by simp
qed

lemma add_dep_ok:
  "gb_ok False s \<Longrightarrow> names_ok s \<Longrightarrow>
   collects s (add_dep ts ds phony ap inc s) (dep_pairs (set ts) (set ds))"
proof (induction ts arbitrary: s)
  case Nil
  then show ?case by (simp add: collects_refl dep_pairs_simps)
next
  case (Cons t ts)
  obtain ti s1 where s1: "stringtab_add t s = (ti, s1)" by force
  note a1 = stringtab_add_ok[OF s1]
  have c1: "collects s s1 {}" by (rule collect_name[OF Cons.prems s1])
  let ?s = "ins_add_dep ti None False phony inc s1"
  have c2: "collects s1 ?s {(t, None)}"
    using collect_entry[OF collectsD(1,2)[OF c1] a1(2), of None] a1(3) by simp
  let ?s2 = "add_dep_deps ti ds phony ap inc ?s"
  have c3: "collects ?s ?s2 ({t} \<times> Some ` set ds)"
    using add_dep_deps_ok[OF collectsD(1,2)[OF c2], of ti] a1(2,3) by simp
  have c4: "collects ?s2 (add_dep ts ds phony ap inc ?s2) (dep_pairs (set ts) (set ds))"
    by (rule Cons.IH[OF collectsD(1,2)[OF c3]])
  show ?case
    using collects_trans[OF c1 collects_trans[OF c2 collects_trans[OF c3 c4]]] s1
    by (simp add: dep_pairs_simps)
qed

section \<open>Targets without a rule\<close>

text \<open>Rules were added for the names of \<open>A\<close> that had none.\<close>

definition inc_added :: "string set \<Rightarrow> gbase \<Rightarrow> gbase \<Rightarrow> bool" where
  "inc_added A s s' = (gb_ok False s' \<and> names_ok s' \<and> ext (names s) (names s') \<and>
     rules_remain_list s' = rules_remain_list s \<and> add_blocks s' = add_blocks s \<and> rules_size s \<le> rules_size s' \<and>
     (\<forall>r < rules_size s. rules s' r = rules s r) \<and> taken s' = taken s \<union> A \<and>
     (\<forall>r. rules_size s \<le> r \<and> r < rules_size s' \<longrightarrow> is_inc (rules s' r) \<and> deps (rules s' r) = {} \<and>
        (\<exists>t \<in> A - taken s. rule_tgts s' r = {t})))"

lemma inc_addedD:
  assumes "inc_added A s s'"
  shows "gb_ok False s'" "names_ok s'" "ext (names s) (names s')" "rules_remain_list s' = rules_remain_list s"
    "add_blocks s' = add_blocks s" "rules_size s \<le> rules_size s'" "r < rules_size s \<Longrightarrow> rules s' r = rules s r"
    "taken s' = taken s \<union> A"
    "rules_size s \<le> r \<Longrightarrow> r < rules_size s' \<Longrightarrow>
       is_inc (rules s' r) \<and> deps (rules s' r) = {} \<and> (\<exists>t \<in> A - taken s. rule_tgts s' r = {t})"
  using assms unfolding inc_added_def by simp_all

lemma inc_added_refl: "gb_ok False s \<Longrightarrow> names_ok s \<Longrightarrow> A \<subseteq> taken s \<Longrightarrow> inc_added A s s"
  by (auto simp: inc_added_def)

lemma inc_added_trans:
  assumes a: "inc_added A s s'" and b: "inc_added B s' s''"
  shows "inc_added (A \<union> B) s s''"
  unfolding inc_added_def
proof (intro conjI allI impI)
  note A = inc_addedD[OF a] and B = inc_addedD[OF b]
  show "gb_ok False s''" "names_ok s''" "rules_remain_list s'' = rules_remain_list s" "add_blocks s'' = add_blocks s"
    "rules_size s \<le> rules_size s''" "taken s'' = taken s \<union> (A \<union> B)"
    using A B by auto
  show "ext (names s) (names s'')" using ext_trans[OF A(3) B(3)] .
  show "r < rules_size s \<Longrightarrow> rules s'' r = rules s r" for r using A(6,7) B(7) by simp
  fix r
  assume r: "rules_size s \<le> r \<and> r < rules_size s''"
  have "is_inc (rules s'' r) \<and> deps (rules s'' r) = {} \<and> (\<exists>t \<in> (A \<union> B) - taken s. rule_tgts s'' r = {t})"
  proof (cases "r < rules_size s'")
    case True
    have "rule_tgts s'' r = rule_tgts s' r" using ext_views(1)[OF A(2,1) B(3)] B(7)[OF True] by simp
    then show ?thesis using A(9)[of r] r True B(7)[OF True] by auto
  next
    case False
    then show ?thesis using B(9)[of r] r A(8) by auto
  qed
  then show "is_inc (rules s'' r)" "deps (rules s'' r) = {}" "\<exists>t \<in> (A \<union> B) - taken s. rule_tgts s'' r = {t}"
    by simp_all
qed

lemma add_inc_rule_ok:
  assumes ok: "gb_ok False s" "names_ok s" and ti: "ti < length (names s)" "get_ruleid_by_tgt s ti = None"
  shows "\<exists>s'. add_inc_rule scope ti s = Inr s' \<and> inc_added {names s ! ti} s s'"
proof -
  let ?r = "rules_size s"
  obtain dir s1 where s1: "stringtab_add ''.'' s = (dir, s1)" by force
  note a1 = stringtab_add_ok[OF s1]
  let ?a = "zero_rule\<lparr> cmd := [], is_inc := True, diridx := dir, scopeidx := scope \<rparr>"
  let ?s = "new_rule ?a s1"
  let ?s' = "with_tgt ?r ti None False ?s"
  have ok1: "gb_ok False s1" "names_ok s1" using a1(5,6) ok by simp_all
  have za: "setup_rule ?a" "tgts ?a = {}" "deps ?a = {}" "firstdepblock ?a = []" "\<not> remain ?a" "is_inc ?a"
    by (simp_all add: zero_rule_def setup_rule_def raw_rule_def)
  have ok2: "gb_ok False ?s" by (rule new_rule_ok[OF ok1(1) za(1-5)])
  have ok2': "names_ok ?s" using ok1(2) za(3) by (simp add: names_ok_def del: set_concat)
  have get: "get_ruleid_by_tgt ?s ti = None" using ti(2) a1(10) by (simp add: get_ruleid_by_tgt_def split: if_splits)
  have ti2: "ti < length (names ?s)" "names ?s ! ti = names s ! ti"
    using ext_length[OF a1(4)] ext_nth[OF a1(4) ti(1)] ti(1) by simp_all
  have r2: "?r < rules_size ?s" using a1(8) by simp
  have k: "keeps False ?s ?s'" by (rule with_tgt_keeps[OF ok2 ok2' r2 ti2(1) get])
  have tk: "taken ?s = taken s"
    using taken_new[OF ok1(1) za(2)] taken_ext[OF ok(2,1) a1(4,7)] by simp
  have new: "names s ! ti \<notin> taken s" using get_None_taken[OF ok ti(1)] ti(2) by simp
  have "add_inc_rule scope ti s = Inr ?s'"
    unfolding add_inc_rule_def using s1 ins_tgt_both(2)[OF gb_okD(2)[OF ok2], of ti ?r None False Inr] get a1(8)
    by (simp add: Let_def[of "rules_size s"])
  moreover have "inc_added {names s ! ti} s ?s'"
    unfolding inc_added_def
  proof (intro conjI allI impI)
    show "gb_ok False ?s'" "names_ok ?s'" using keepsD[OF k] by simp_all
    show "ext (names s) (names ?s')" "rules_remain_list ?s' = rules_remain_list s" "add_blocks ?s' = add_blocks s"
      "rules_size s \<le> rules_size ?s'" using a1 by simp_all
    show "taken ?s' = taken s \<union> {names s ! ti}" using with_tgt_taken tk ti2(2) by simp
    show "r < rules_size s \<Longrightarrow> rules ?s' r = rules s r" for r using a1(7,8) by simp
    fix r
    assume "rules_size s \<le> r \<and> r < rules_size ?s'"
    then have r: "r = ?r" using a1(8) by simp
    show "deps (rules ?s' r) = {}" using za(3) r a1(8) by simp
    show "is_inc (rules ?s' r)" using r a1(8) by (simp add: with_tgt_def)
    have "rule_tgts ?s' r = {names s ! ti}" using r a1(8) za(2) ti2(2) by (simp add: rule_tgts_def)
    then show "\<exists>t \<in> {names s ! ti} - taken s. rule_tgts ?s' r = {t}" using new by blast
  qed
  ultimately show ?thesis by blast
qed

lemma ensure_targets_ok:
  "gb_ok False s \<Longrightarrow> names_ok s \<Longrightarrow> \<forall>e \<in> set es. ad_tgt e < length (names s) \<Longrightarrow>
   \<exists>s'. ensure_targets scope es s = Inr s' \<and>
     inc_added {names s ! ad_tgt e | e. e \<in> set es \<and> ad_dep e = None} s s'"
proof (induction es arbitrary: s)
  case Nil
  then show ?case by (simp add: inc_added_refl)
next
  case (Cons e es)
  let ?A = "\<lambda>s. {names s ! ad_tgt e | e. e \<in> set es \<and> ad_dep e = None}"
  have le: "ad_tgt e < length (names s)" "\<forall>e \<in> set es. ad_tgt e < length (names s)" using Cons.prems(3) by simp_all
  have IH: "\<exists>s'. ensure_targets scope es s = Inr s' \<and> inc_added (?A s) s s'"
    by (rule Cons.IH[OF Cons.prems(1,2) le(2)])
  show ?case
  proof (cases "ad_dep e = None")
    case False
    then have "{names s ! ad_tgt x | x. x \<in> set (e # es) \<and> ad_dep x = None} = ?A s" by auto
    then show ?thesis using IH False by simp
  next
    case True
    then have A: "{names s ! ad_tgt x | x. x \<in> set (e # es) \<and> ad_dep x = None} = {names s ! ad_tgt e} \<union> ?A s"
      by auto
    show ?thesis
    proof (cases "get_ruleid_by_tgt s (ad_tgt e) = None")
      case False
      then have "names s ! ad_tgt e \<in> taken s" using get_None_taken[OF Cons.prems(1,2) le(1)] by simp
      then have r: "inc_added {names s ! ad_tgt e} s s" by (simp add: inc_added_refl Cons.prems(1,2))
      show ?thesis unfolding A using IH False True inc_added_trans[OF r] by auto
    next
      case g: True
      obtain s1 where s1: "add_inc_rule scope (ad_tgt e) s = Inr s1" "inc_added {names s ! ad_tgt e} s s1"
        using add_inc_rule_ok[OF Cons.prems(1,2) le(1) g] by blast
      note D = inc_addedD[OF s1(2)]
      have le1: "\<forall>e \<in> set es. ad_tgt e < length (names s1)" using le(2) ext_length[OF D(3)] by auto
      have "?A s1 = ?A s" using ext_nth[OF D(3)] le(2) by (intro Collect_cong) metis
      then obtain s' where "ensure_targets scope es s1 = Inr s'" "inc_added (?A s) s1 s'"
        using Cons.IH[OF D(1,2) le1] by auto
      then show ?thesis unfolding A using inc_added_trans[OF s1(2)] s1(1) g True by auto
    qed
  qed
qed

section \<open>Entering the dependencies\<close>

lemma gb_ok_phony:
  assumes ok: "gb_ok D s" and r: "r < rules_size s"
  shows "gb_ok D (upd_rule r (is_phony_update f) s)"
proof -
  have same: "setup_rule (rules (upd_rule r (is_phony_update f) s) x) = setup_rule (rules s x)"
    "tgts (rules (upd_rule r (is_phony_update f) s) x) = tgts (rules s x)"
    "deps (rules (upd_rule r (is_phony_update f) s) x) = deps (rules s x)"
    "back_deps (upd_rule r (is_phony_update f) s) x = back_deps s x"
    "remain (rules (upd_rule r (is_phony_update f) s) x) = remain (rules s x)"
    "is_executed (rules (upd_rule r (is_phony_update f) s) x) = is_executed (rules s x)" for x
    by (simp_all add: setup_rule_def raw_rule_def back_deps_def)
  have "rules (upd_rule r (is_phony_update f) s) x = rules s x" if "x \<ge> rules_size s" for x
    using that r by simp
  then show ?thesis
    using ok unfolding gb_ok_def tgts_ok_def edges_ok_def remain_ok_def same upd_rule_get upd_rule_later
      upd_rule_simps(2-4) by simp
qed

lemma phony_keeps:
  assumes "gb_ok D s" "names_ok s" "r < rules_size s"
  shows "keeps D s (upd_rule r (is_phony_update f) s)"
  using gb_ok_phony[OF assms(1,3)] assms(2) by (simp add: keeps_def names_ok_def del: set_concat)

lemma add_edge_flags [simp]:
  "is_inc (rules (add_edge r di nd rc oo wt p inc en s) x) = is_inc (rules s x)"
  "is_phony (rules (add_edge r di nd rc oo wt p inc en s) x) = is_phony (rules s x)"
  using blocks_onlyD(9,10)[OF add_edge_rules(1)[of x r s di nd rc oo wt p inc en]] by auto

text \<open>What the entries do to the rules once every target has one.\<close>

definition entered :: "add_dep_entry list \<Rightarrow> gbase \<Rightarrow> gbase \<Rightarrow> bool" where
  "entered es s s' = (keeps True s s' \<and> names s' = names s \<and> st_ruleid s' = st_ruleid s \<and>
     add_blocks s' = add_blocks s \<and>
     (\<forall>r. tgts (rules s' r) = tgts (rules s r) \<and> is_inc (rules s' r) = is_inc (rules s r) \<and>
        is_phony (rules s' r) = (is_phony (rules s r) \<or>
          (\<exists>e \<in> set es. ad_tgt e \<in> tgts (rules s r) \<and> ad_phony e)) \<and>
        deps (rules s' r) = deps (rules s r) \<union>
          {d. \<exists>e \<in> set es. ad_tgt e \<in> tgts (rules s r) \<and> ad_dep e = Some d}))"

lemma entered_Cons: "entered [e] s s' \<Longrightarrow> entered es s' s'' \<Longrightarrow> entered (e # es) s s''"
  unfolding entered_def by (auto intro: keeps_trans)

lemma enter_one:
  assumes ok: "gb_ok True s" "names_ok s" and g: "get_ruleid_by_tgt s (ad_tgt e) = Some r"
    and d: "\<forall>d. ad_dep e = Some d \<longrightarrow> d < length (names s)"
  shows "entered [e] s (case ad_dep e of None \<Rightarrow> upd_rule r (is_phony_update (\<lambda>p. p \<or> ad_phony e)) s
    | Some di \<Rightarrow> add_edge r di None False False False False (ad_inc e) True
        (upd_rule r (is_phony_update (\<lambda>p. p \<or> ad_phony e)) s))"
proof -
  note t = gb_okD(2)[OF ok(1)]
  have st: "st_ruleid s (ad_tgt e) = int r" using g get_ruleid_Some[OF t] by simp
  have r: "r < rules_size s" using tgts_okD(3)[OF t, of "ad_tgt e"] st by simp
  have own: "ad_tgt e \<in> tgts (rules s x) \<longleftrightarrow> x = r" for x using tgts_okD(1)[OF t] st by auto
  let ?s = "upd_rule r (is_phony_update (\<lambda>p. p \<or> ad_phony e)) s"
  have k: "keeps True s ?s" by (rule phony_keeps[OF ok r])
  show ?thesis
  proof (cases "ad_dep e")
    case None
    then show ?thesis using k own by (auto simp: entered_def)
  next
    case (Some di)
    have "keeps True ?s (add_edge r di None False False False False (ad_inc e) True ?s)"
      using keepsD[OF k] r d Some by (intro add_edge_keeps) simp_all
    then show ?thesis using keeps_trans[OF k] own Some by (auto simp: entered_def)
  qed
qed

text \<open>The remembered rule is the one a lookup would give.\<close>

lemma add_entries_ok:
  "gb_ok True s \<Longrightarrow> names_ok s \<Longrightarrow> \<forall>e \<in> set es. get_ruleid_by_tgt s (ad_tgt e) \<noteq> None \<Longrightarrow>
   \<forall>e \<in> set es. \<forall>d. ad_dep e = Some d \<longrightarrow> d < length (names s) \<Longrightarrow>
   \<forall>t r. last_tgt = Some t \<longrightarrow> last_rule = Some r \<longrightarrow> get_ruleid_by_tgt s t = Some r \<Longrightarrow>
   \<exists>s'. add_entries scope es last_tgt last_rule s = Inr s' \<and> entered es s s'"
proof (induction es arbitrary: s last_tgt last_rule)
  case Nil
  then show ?case by (simp add: entered_def keeps_refl)
next
  case (Cons e es)
  obtain r where g: "get_ruleid_by_tgt s (ad_tgt e) = Some r" using Cons.prems(3) by auto
  define s1 where "s1 = (case ad_dep e of None \<Rightarrow> upd_rule r (is_phony_update (\<lambda>p. p \<or> ad_phony e)) s
    | Some di \<Rightarrow> add_edge r di None False False False False (ad_inc e) True
        (upd_rule r (is_phony_update (\<lambda>p. p \<or> ad_phony e)) s))"
  have eq: "add_entries scope (e # es) last_tgt last_rule s = add_entries scope es (Some (ad_tgt e)) (Some r) s1"
    using g Cons.prems(5) by (auto simp: s1_def split: option.splits)
  have e1: "entered [e] s s1"
    unfolding s1_def using Cons.prems(4) by (intro enter_one[OF Cons.prems(1,2) g]) simp
  have s1: "gb_ok True s1" "names_ok s1" "get_ruleid_by_tgt s1 = get_ruleid_by_tgt s" "names s1 = names s"
    using e1 by (auto simp: entered_def keeps_def get_ruleid_by_tgt_def intro!: ext)
  obtain s' where "add_entries scope es (Some (ad_tgt e)) (Some r) s1 = Inr s'" "entered es s1 s'"
    using Cons.IH[of s1 "Some (ad_tgt e)" "Some r"] s1 g Cons.prems(3,4) by auto
  then show ?case using eq entered_Cons[OF e1] by auto
qed

lemma gb_ok_weaken: "gb_ok False s \<Longrightarrow> gb_ok True s"
  unfolding gb_ok_def edges_ok_def by blast

text \<open>Whoever adds a dependency of a target adds the target by itself first.\<close>

definition added_closed :: "gbase \<Rightarrow> bool" where
  "added_closed s = (\<forall>t d. (t, d) \<in> added s \<longrightarrow> (t, None) \<in> added s)"

definition deps_added :: "gbase \<Rightarrow> gbase \<Rightarrow> bool" where
  "deps_added s s' = (rules_remain_list s' = rules_remain_list s \<and> rules_size s \<le> rules_size s' \<and>
     taken s' = taken s \<union> fst ` added s \<and>
     (\<forall>r < rules_size s. rule_tgts s' r = rule_tgts s r \<and>
        rule_deps s' r = rule_deps s r \<union> {d. \<exists>t \<in> rule_tgts s r. (t, Some d) \<in> added s}) \<and>
     (\<forall>r. rules_size s \<le> r \<and> r < rules_size s' \<longrightarrow> is_inc (rules s' r) \<and>
        (\<exists>t \<in> fst ` added s - taken s. rule_tgts s' r = {t} \<and> rule_deps s' r = {d. (t, Some d) \<in> added s})))"

lemma process_additional_ok:
  assumes ok: "gb_ok False s" "names_ok s" and c: "added_closed s"
  shows "\<exists>s'. process_additional_deps_2 scope s = Inr s' \<and> gb_ok True s' \<and> names_ok s' \<and>
    ext (names s) (names s') \<and> deps_added s s'"
proof -
  let ?es = "concat (add_blocks s)"
  let ?A = "{names s ! ad_tgt e | e. e \<in> set ?es \<and> ad_dep e = None}"
  have A: "?A = fst ` added s"
  proof
    show "?A \<subseteq> fst ` added s" by (force simp: added_def simp del: set_concat)
    show "fst ` added s \<subseteq> ?A"
    proof
      fix t
      assume "t \<in> fst ` added s"
      then have "(t, None) \<in> added s" using c by (auto simp: added_closed_def)
      then show "t \<in> ?A" by (auto simp: added_def simp del: set_concat)
    qed
  qed
  have "\<forall>e \<in> set ?es. ad_tgt e < length (names s)" using names_okD(4)[OF ok(2)] by blast
  then have "\<exists>s1. ensure_targets scope ?es s = Inr s1 \<and> inc_added (fst ` added s) s s1"
    unfolding A[symmetric] by (rule ensure_targets_ok[OF ok])
  then obtain s1 where s1: "ensure_targets scope ?es s = Inr s1" "inc_added (fst ` added s) s s1" by blast
  note D = inc_addedD[OF s1(2)]
  have ok1: "gb_ok True s1" by (rule gb_ok_weaken[OF D(1)])
  have ad: "added s1 = added s" using ext_views(3)[OF ok(2,1) D(3,5)] .
  have "get_ruleid_by_tgt s1 (ad_tgt e) \<noteq> None" if e: "e \<in> set ?es" for e
  proof -
    have l: "ad_tgt e < length (names s1)" using names_okD(4)[OF D(2)] e D(5) by simp
    have "names s1 ! ad_tgt e = names s ! ad_tgt e" using ext_nth[OF D(3)] names_okD(4)[OF ok(2) e] by simp
    moreover have "names s ! ad_tgt e \<in> fst ` added s" using e by (force simp: added_def simp del: set_concat)
    ultimately show ?thesis using get_None_taken[OF D(1,2) l] D(8) by simp
  qed
  moreover have "\<forall>e \<in> set ?es. \<forall>d. ad_dep e = Some d \<longrightarrow> d < length (names s1)"
    using names_okD(5)[OF D(2)] unfolding D(5) by blast
  ultimately have "\<exists>s'. add_entries scope ?es None None s1 = Inr s' \<and> entered ?es s1 s'"
    by (intro add_entries_ok[OF ok1 D(2)]) (simp_all del: set_concat)
  then obtain s' where s': "add_entries scope ?es None None s1 = Inr s'" "entered ?es s1 s'" by blast
  have k: "keeps True s1 s'" using s'(2) by (simp add: entered_def)
  note K = keepsD[OF k]
  have same: "names s' = names s1" "tgts (rules s' r) = tgts (rules s1 r)" "is_inc (rules s' r) = is_inc (rules s1 r)"
    "deps (rules s' r) = deps (rules s1 r) \<union> {d. \<exists>e \<in> set ?es. ad_tgt e \<in> tgts (rules s1 r) \<and> ad_dep e = Some d}"
    for r
    using s'(2) unfolding entered_def by blast+
  have rt: "rule_tgts s' r = rule_tgts s1 r" for r by (simp add: rule_tgts_def same)
  have rd: "rule_deps s' r = rule_deps s1 r \<union> {d. \<exists>t \<in> rule_tgts s1 r. (t, Some d) \<in> added s}" for r
  proof -
    have "(!) (names s1) ` {d. \<exists>e \<in> set ?es. ad_tgt e \<in> tgts (rules s1 r) \<and> ad_dep e = Some d} =
        {d. \<exists>t \<in> rule_tgts s1 r. (t, Some d) \<in> added s1}" (is "?L = ?R")
    proof
      show "?L \<subseteq> ?R" using D(5) by (force simp: added_def rule_tgts_def simp del: set_concat)
      show "?R \<subseteq> ?L"
      proof
        fix n
        assume "n \<in> ?R"
        then obtain t e where t: "t \<in> tgts (rules s1 r)" and e: "e \<in> set ?es" "names s1 ! t = names s1 ! ad_tgt e"
          "Some n = map_option ((!) (names s1)) (ad_dep e)"
          using D(5) by (auto simp: added_def rule_tgts_def simp del: set_concat)
        have "t < length (names s1)" "ad_tgt e < length (names s1)"
          using tgts_names[OF D(1,2) t] names_okD(4)[OF D(2)] e(1) D(5) by simp_all
        then have "t = ad_tgt e" using e(2) names_okD(1)[OF D(2)] by (simp add: nth_eq_iff_index_eq)
        moreover obtain d where "ad_dep e = Some d" "n = names s1 ! d"
          using e(3) by (cases "ad_dep e") auto
        ultimately show "n \<in> ?L" using t e(1) by blast
      qed
    qed
    then show ?thesis using ad unfolding rule_deps_def same(1,4) image_Un by simp
  qed
  have "deps_added s s'"
    unfolding deps_added_def
  proof (intro conjI allI impI)
    show "rules_remain_list s' = rules_remain_list s" "rules_size s \<le> rules_size s'" using K D by simp_all
    show "taken s' = taken s \<union> fst ` added s" using D(8) rt by (simp add: taken_def)
    show "rule_tgts s' r = rule_tgts s r" "rule_deps s' r = rule_deps s r \<union> {d. \<exists>t \<in> rule_tgts s r. (t, Some d) \<in> added s}"
      if "r < rules_size s" for r
      using ext_views(1,2)[OF ok(2,1) D(3), of r] D(7)[OF that] rt rd by simp_all
    fix r
    assume "rules_size s \<le> r \<and> r < rules_size s'"
    then have r: "rules_size s \<le> r" "r < rules_size s1" using K(4) by simp_all
    show "is_inc (rules s' r)" using D(9)[OF r] same(3) by simp
    have "rule_deps s1 r = {}" using D(9)[OF r] by (simp add: rule_deps_def)
    then show "\<exists>t \<in> fst ` added s - taken s. rule_tgts s' r = {t} \<and> rule_deps s' r = {d. (t, Some d) \<in> added s}"
      using D(9)[OF r] rt rd by auto
  qed
  moreover have "process_additional_deps_2 scope s = Inr s'"
    using s1(1) s'(1) D(5) by (simp add: process_additional_deps_2_def)
  moreover have "ext (names s) (names s')" using D(3) same(1) by simp
  ultimately show ?thesis using K(1,2) by blast
qed

end
