(* ===== verification/Inc_Parser.thy ===== *)
theory Inc_Parser
  imports Getline Paths "HOL-Library.Word"
begin

text \<open>
  \<open>incnonyy.c\<close> with the setters of \<open>incyy.h\<close>: the parser of the dependency files that compilers write.
  A line is a C string; a position in it is what remains of it from there.  The parser calls \<open>fnrule\<close>,
  \<open>fntarget\<close> and \<open>fndep\<close> as it goes; these calls, with the canonical names they get, are the result.

  Where the code overwrites a separator with a NUL and then with a blank, the functions below go on
  behind it.  At the last dependency of a line that ends without a newline the blank replaces the NUL,
  and the scan for blanks that follows runs beyond the string; what it finds is not used.
\<close>

unbundle bit_operations_syntax

section \<open>Scanning\<close>

text \<open>What stops a name: NUL, tab, newline, blank, \<open>$\<close> and \<open>:\<close>, a bit set in a 64-bit word, and the
  backslash.  \<open>inset_set\<close> is the test on systems without ASCII, with the set that \<open>incyymineparse\<close>
  builds.\<close>

definition inset_ascii :: "char \<Rightarrow> bool" where
  "inset_ascii ch =
     (let uch = of_char ch :: nat in
      if uch = 92 then True
      else if uch \<ge> 64 then False
      else (drop_bit uch (0x400001100000601 :: 64 word)) AND 1 \<noteq> 0)"

definition inset_set :: "char \<Rightarrow> 64 word list \<Rightarrow> bool" where
  "inset_set ch set4 =
     (let uch = of_char ch :: nat in (drop_bit (uch mod 64) (set4 ! (uch div 64))) AND 1 \<noteq> 0)"

definition set_add :: "char \<Rightarrow> 64 word list \<Rightarrow> 64 word list" where
  "set_add ch set4 =
     (let u = of_char ch :: nat in set4[u div 64 := (set4 ! (u div 64)) OR push_bit (u mod 64) 1])"

definition parse_set :: "64 word list" where
  "parse_set = (let t = foldl (\<lambda>t c. set_add c t) [0, 0, 0, 0]
       [CHR 0x5C, CHR 0x09, CHR 0x0A, CHR '' '', CHR '':'', CHR ''$'']
     in t[0 := (t ! 0) OR 1])"

fun setcspn_ascii :: "string \<Rightarrow> nat" where
  "setcspn_ascii [] = 0"
| "setcspn_ascii (c # cs) = (if inset_ascii c then 0 else Suc (setcspn_ascii cs))"

text \<open>\<open>whitespacespn\<close> and \<open>myspn\<close>.  \<open>nz\<close>: the span is not empty so far.  Only then a backslash before a newline belongs to it.\<close>

fun myspn :: "bool \<Rightarrow> string \<Rightarrow> string" where
  "myspn nz [] = []"
| "myspn nz (c # cs) =
     (if c = CHR '' '' \<or> c = tab_char then myspn True cs
      else case cs of
        [] \<Rightarrow> c # cs
      | d # ds \<Rightarrow> if nz \<and> c = bslash \<and> d = nl then myspn True ds else c # cs)"

text \<open>The length of a name and whether it has escapes.\<close>

function mycspn_ascii :: "string \<Rightarrow> nat \<times> bool" where
  "mycspn_ascii s =
     (let len = setcspn_ascii s in
      case drop len s of
        c # d # ds \<Rightarrow>
          if c = bslash \<or> c = CHR ''$'' then (len + 2 + fst (mycspn_ascii ds), True) else (len, False)
      | _ \<Rightarrow> (len, False))"
  by pat_completeness auto
termination
  by (relation "measure length") (auto dest!: arg_cong[where f = length])

declare mycspn_ascii.simps [simp del]

fun inc_unescape :: "string \<Rightarrow> string option" where
  "inc_unescape [] = Some []"
| "inc_unescape (c # cs) =
     (if c = bslash then
        case cs of [] \<Rightarrow> None | d # ds \<Rightarrow> map_option (Cons d) (inc_unescape ds)
      else if c = CHR ''$'' then
        case cs of [] \<Rightarrow> None | d # ds \<Rightarrow> if d \<noteq> CHR ''$'' then None else map_option (Cons d) (inc_unescape ds)
      else map_option (Cons c) (inc_unescape cs))"

section \<open>Calls\<close>

datatype inc_call = Inc_Rule | Inc_Tgt string | Inc_Dep string

record incyy =
  inc_prefix :: string
  inc_fnamenodir :: string
  inc_auto_target :: bool

definition inc_name :: "incyy \<Rightarrow> string \<Rightarrow> string res" where
  "inc_name y n =
     (if n \<noteq> [] \<and> hd n = CHR ''/'' \<or> inc_prefix y = ''.'' then
        bind_res (canon_buflen n (Some 1024)) (\<lambda>(can, _). Inr can)
      else bind_res (pathcat2_buflen (inc_prefix y) n (Some 1024)) (\<lambda>tmp.
        bind_res (canon_buflen tmp (Some 1024)) (\<lambda>(can, _). Inr can)))"

definition incyy_set_tgt :: "incyy \<Rightarrow> string \<Rightarrow> inc_call list res" where
  "incyy_set_tgt y n = bind_res (inc_name y n) (\<lambda>can. Inr [Inc_Tgt can])"

definition incyy_set_dep :: "incyy \<Rightarrow> string \<Rightarrow> inc_call list res" where
  "incyy_set_dep y n = bind_res (inc_name y n) (\<lambda>can. Inr [Inc_Dep can])"

definition incyy_emplace_rule :: "incyy \<Rightarrow> inc_call list res" where
  "incyy_emplace_rule y =
     (if inc_auto_target y then bind_res (incyy_set_tgt y (inc_fnamenodir y)) (\<lambda>cs. Inr (Inc_Rule # cs))
      else Inr [Inc_Rule])"

section \<open>A line\<close>

definition inc_invalid :: cfail where
  "inc_invalid = Exited ''Invalid cdepincludes format''"

text \<open>The name of the next target or dependency, if there is one, is unescaped and handed on.\<close>

definition inc_token :: "(string \<Rightarrow> inc_call list res) \<Rightarrow> string \<Rightarrow> bool \<Rightarrow> inc_call list res" where
  "inc_token emit tok esc =
     (if tok = [] then Inr []
      else if esc then (case inc_unescape tok of None \<Rightarrow> Inl inc_invalid | Some n \<Rightarrow> emit n)
      else emit tok)"

lemma myspn_length: "length (myspn nz s) \<le> length s"
proof (induction nz s rule: myspn.induct)
  case (2 nz c cs)
  show ?case
  proof (cases "c = CHR '' '' \<or> c = tab_char")
    case True
    then show ?thesis using 2(1)[OF True] by (simp only: myspn.simps if_True) simp
  next
    case False
    then show ?thesis using 2(2)[OF False] by (cases cs) (simp_all add: le_SucI)
  qed
qed simp

function inc_tgts :: "incyy \<Rightarrow> string \<Rightarrow> (inc_call list \<times> string) res" where
  "inc_tgts y s =
     (let (len, esc) = mycspn_ascii s in
      case drop len s of
        [] \<Rightarrow> Inl inc_invalid
      | c # rest \<Rightarrow>
          if c = nl then Inl inc_invalid
          else bind_res (inc_token (incyy_set_tgt y) (take len s) esc) (\<lambda>cs.
                 let s' = myspn True rest in
                 if c = CHR '':'' then Inr (cs, s')
                 else bind_res (inc_tgts y s') (\<lambda>(cs', s''). Inr (cs @ cs', s''))))"
  by pat_completeness auto
termination
proof (relation "measure (\<lambda>(y, s). length s)", goal_cases)
  case (2 y s p len esc c rest cs s')
  then have "length s' \<le> length rest" "length (drop len s) = Suc (length rest)" by (simp_all add: myspn_length)
  then show ?case by auto
qed simp

function inc_deps :: "incyy \<Rightarrow> string \<Rightarrow> inc_call list res" where
  "inc_deps y s =
     (let (len, esc) = mycspn_ascii s in
      case drop len s of
        [] \<Rightarrow> inc_token (incyy_set_dep y) (take len s) esc
      | c # rest \<Rightarrow>
          if c = CHR '':'' then Inl inc_invalid
          else bind_res (inc_token (incyy_set_dep y) (take len s) esc) (\<lambda>cs.
                 if c = nl then Inr cs
                 else bind_res (inc_deps y (myspn True rest)) (\<lambda>cs'. Inr (cs @ cs'))))"
  by pat_completeness auto
termination
proof (relation "measure (\<lambda>(y, s). length s)", goal_cases)
  case (2 y s p len esc c rest cs)
  then have "length (drop len s) = Suc (length rest)" by simp
  then show ?case using myspn_length[of True rest] by auto
qed simp

declare inc_tgts.simps [simp del] inc_deps.simps [simp del]

definition handle_line :: "incyy \<Rightarrow> string \<Rightarrow> inc_call list res" where
  "handle_line y line =
     (let s = myspn False line in
      if s = [] \<or> hd s = nl then Inr []
      else bind_res (incyy_emplace_rule y) (\<lambda>cs.
           bind_res (inc_tgts y s) (\<lambda>(cs1, s).
           bind_res (inc_deps y s) (\<lambda>cs2. Inr (cs @ cs1 @ cs2)))))"

section \<open>A file\<close>

text \<open>The scan for a backslash before the newline that is not itself escaped.\<close>

function scan_escape :: "bool \<Rightarrow> string \<Rightarrow> bool" where
  "scan_escape escape [] = escape"
| "scan_escape escape (c # cs) =
     (if \<not> escape \<and> c = bslash then scan_escape True cs
      else if \<not> escape then scan_escape False (dropWhile (\<lambda>x. x \<noteq> bslash) cs)
      else scan_escape False cs)"
  by pat_completeness auto
termination by (relation "measure (\<lambda>(e, s). length s)") (auto simp: le_imp_less_Suc length_dropWhile_le)

definition line_continues :: "string \<Rightarrow> bool" where
  "line_continues l = (length l \<ge> 2 \<and> last l = nl \<and> l ! (length l - 2) = bslash \<and> scan_escape False (butlast l))"

text \<open>The lines after a continued one are appended; \<open>n\<close> and \<open>n2\<close> are the capacities of the two buffers.\<close>

fun join_lines :: "nat \<Rightarrow> nat \<Rightarrow> nat \<Rightarrow> string \<Rightarrow> string \<Rightarrow> (string \<times> nat \<times> nat \<times> string) res" where
  "join_lines 0 n n2 line f = Inl NoFuel"
| "join_lines (Suc fuel) n n2 line f =
     (case mygetline n2 f of
        (None, _, _) \<Rightarrow> Inl inc_invalid
      | (Some line2, n2, f) \<Rightarrow>
          let need = length line + length line2 + 1;
              n = (if need \<ge> n then max need (2 * n) else n)
          in if line_continues line2 then join_lines fuel n n2 (line @ line2) f
             else Inr (line @ line2, n, n2, f))"

fun inc_lines :: "nat \<Rightarrow> incyy \<Rightarrow> nat \<Rightarrow> nat \<Rightarrow> string \<Rightarrow> inc_call list res" where
  "inc_lines 0 y n n2 f = Inl NoFuel"
| "inc_lines (Suc fuel) y n n2 f =
     (case mygetline n f of
        (None, _, _) \<Rightarrow> Inr []
      | (Some line, n, f) \<Rightarrow>
          bind_res (if line_continues line then join_lines fuel n n2 line f else Inr (line, n, n2, f))
            (\<lambda>(line, n, n2, f). bind_res (handle_line y line) (\<lambda>cs.
               bind_res (inc_lines fuel y n n2 f) (\<lambda>cs'. Inr (cs @ cs')))))"

definition incyymineparse :: "incyy \<Rightarrow> string \<Rightarrow> inc_call list res" where
  "incyymineparse y f = inc_lines (length f + 2) y 0 0 f"

text \<open>
  Without callbacks, as \<open>mark_executed\<close> calls the parser for a dependency file that was made anew, the same calls fill \<open>incyy.rules\<close>
  (its arrays, which grow when they are full, are lists here); the caller then walks through the dependencies of all rules.
\<close>

record incyyrule =
  ir_targets :: "string list"
  ir_deps :: "string list"

fun incyy_collect :: "inc_call list \<Rightarrow> incyyrule list \<Rightarrow> incyyrule list res" where
  "incyy_collect [] rs = Inr rs"
| "incyy_collect (Inc_Rule # cs) rs = incyy_collect cs (rs @ [\<lparr> ir_targets = [], ir_deps = [] \<rparr>])"
| "incyy_collect (Inc_Tgt n # cs) rs =
     (if rs = [] then Inl Overread
      else incyy_collect cs (butlast rs @ [(last rs)\<lparr> ir_targets := ir_targets (last rs) @ [n] \<rparr>]))"
| "incyy_collect (Inc_Dep n # cs) rs =
     (if rs = [] then Inl Overread
      else incyy_collect cs (butlast rs @ [(last rs)\<lparr> ir_deps := ir_deps (last rs) @ [n] \<rparr>]))"

definition incyy_reread :: "incyy \<Rightarrow> string \<Rightarrow> string list res" where
  "incyy_reread y f =
     bind_res (incyymineparse y f) (\<lambda>calls. bind_res (incyy_collect calls []) (\<lambda>rs. Inr (concat (map ir_deps rs))))"

fun inc_dep_names :: "inc_call list \<Rightarrow> string list" where
  "inc_dep_names [] = []"
| "inc_dep_names (Inc_Dep n # cs) = n # inc_dep_names cs"
| "inc_dep_names (_ # cs) = inc_dep_names cs"

lemma collect_deps:
  "rs \<noteq> [] \<Longrightarrow> \<exists>rs'. incyy_collect cs rs = Inr rs' \<and> concat (map ir_deps rs') = concat (map ir_deps rs) @ inc_dep_names cs"
proof (induction cs rs rule: incyy_collect.induct)
  case (3 n cs rs)
  let ?rs = "butlast rs @ [(last rs)\<lparr> ir_targets := ir_targets (last rs) @ [n] \<rparr>]"
  have "concat (map ir_deps ?rs) = concat (map ir_deps rs)"
    using 3(2) by (induction rs rule: rev_induct) auto
  then show ?case using 3 by auto
next
  case (4 n cs rs)
  let ?rs = "butlast rs @ [(last rs)\<lparr> ir_deps := ir_deps (last rs) @ [n] \<rparr>]"
  have "concat (map ir_deps ?rs) = concat (map ir_deps rs) @ [n]"
    using 4(2) by (induction rs rule: rev_induct) auto
  then show ?case using 4 by auto
qed auto

lemma line_calls: "handle_line y l = Inr cs \<Longrightarrow> cs = [] \<or> hd cs = Inc_Rule"
  by (auto simp: handle_line_def incyy_emplace_rule_def Let_def stir_simps split: if_splits)

lemma lines_calls: "inc_lines fuel y n n2 f = Inr cs \<Longrightarrow> cs = [] \<or> hd cs = Inc_Rule"
proof (induction fuel arbitrary: n n2 f cs)
  case (Suc fuel)
  show ?case
  proof (cases "mygetline n f")
    case (fields o1 n' f')
    show ?thesis
    proof (cases o1)
      case None
      then show ?thesis using Suc.prems by (simp add: fields)
    next
      case (Some l)
      obtain as bs n3 n4 f1 l1 where p: "handle_line y l1 = Inr as" "inc_lines fuel y n3 n4 f1 = Inr bs" "cs = as @ bs"
        using Suc.prems by (auto simp: fields Some stir_simps split: if_splits)
      show ?thesis using line_calls[OF p(1)] Suc.IH[OF p(2)] unfolding p(3) by (cases as) auto
    qed
  qed
qed simp

text \<open>Reading again gives the dependencies that the callbacks are given when the file is first read.\<close>

lemma incyy_reread_eq: "incyy_reread y f = bind_res (incyymineparse y f) (\<lambda>cs. Inr (inc_dep_names cs))"
proof (cases "incyymineparse y f")
  case (Inr cs)
  have "\<exists>rs. incyy_collect cs [] = Inr rs \<and> concat (map ir_deps rs) = inc_dep_names cs"
  proof (cases cs)
    case (Cons c ds)
    then have "c = Inc_Rule" using lines_calls Inr unfolding incyymineparse_def by fastforce
    then show ?thesis using collect_deps[of "[\<lparr> ir_targets = [], ir_deps = [] \<rparr>]" ds] Cons by simp
  qed simp
  then show ?thesis by (auto simp: incyy_reread_def Inr)
qed (simp add: incyy_reread_def)

section \<open>Scanning, character by character\<close>

definition stops :: "char \<Rightarrow> bool" where
  "stops c = (c \<in> {CHR 0x00, tab_char, nl, CHR '' '', CHR '':''})"

lemma and_one_bit: "drop_bit u w AND 1 \<noteq> 0 \<longleftrightarrow> bit w u" for w :: "64 word"
  by (simp add: and_one_eq bit_iff_odd_drop_bit odd_iff_mod_2_eq_one)

lemma parse_set_eq: "parse_set = [0x400001100000601, 0x10000000, 0, 0]"
  by (simp add: parse_set_def set_add_def Let_def push_bit_eq_mult)

lemma stop_bits:
  "\<forall>n \<in> set [0..<64]. bit (0x400001100000601 :: int) n = (n \<in> set [0, 9, 10, 32, 36, 58])"
  "\<forall>n \<in> set [0..<64]. bit (0x10000000 :: int) n = (n = 28)"
  by code_simp+

lemma inset_byte:
  fixes c :: char
  defines "u \<equiv> of_char c :: nat"
  shows "inset_ascii c = (u \<in> {0, 9, 10, 32, 36, 58, 92})" "inset_set c parse_set = (u \<in> {0, 9, 10, 32, 36, 58, 92})"
proof -
  have b: "bit (0x400001100000601 :: 64 word) n = (n \<in> {0, 9, 10, 32, 36, 58})"
    "bit (0x10000000 :: 64 word) n = (n = 28)" if "n < 64" for n
    using stop_bits[THEN bspec, of n] that by (simp_all add: bit_numeral_word_iff)
  show "inset_ascii c = (u \<in> {0, 9, 10, 32, 36, 58, 92})"
    using b(1)[of u] by (auto simp: inset_ascii_def and_one_bit Let_def u_def[symmetric])
  have u: "u < 256" by (simp add: u_def)
  consider "u < 64" | "64 \<le> u" "u < 128" | "128 \<le> u" by linarith
  then show "inset_set c parse_set = (u \<in> {0, 9, 10, 32, 36, 58, 92})"
  proof cases
    case 1
    then show ?thesis using b(1)[of u] by (auto simp: inset_set_def and_one_bit parse_set_eq Let_def u_def[symmetric])
  next
    case 2
    then have "u div 64 = 1" "u mod 64 = u - 64" by (simp_all add: div_nat_eqI mod_if)
    then show ?thesis using b(2)[of "u - 64"] 2
      by (auto simp: inset_set_def and_one_bit parse_set_eq Let_def u_def[symmetric])
  next
    case 3
    have "u div 64 < 4" using u by simp
    moreover have "2 \<le> u div 64" using div_le_mono[OF 3, of 64] by simp
    ultimately have "u div 64 = 2 \<or> u div 64 = 3" by linarith
    then show ?thesis using 3
      by (auto simp: inset_set_def and_one_bit parse_set_eq Let_def u_def[symmetric])
  qed
qed

lemma inset_ascii_iff: "inset_ascii c = (stops c \<or> c = bslash \<or> c = CHR ''$'')"
proof -
  have h: "c = d \<longleftrightarrow> (of_char c :: nat) = of_char d" for d by simp
  show ?thesis unfolding inset_byte stops_def insert_iff empty_iff h by simp blast
qed

lemma inset_set_ascii: "inset_set c parse_set = inset_ascii c"
  by (simp only: inset_byte)

lemma mycspn_Nil [simp]: "mycspn_ascii [] = (0, False)"
  by (simp add: mycspn_ascii.simps)

lemma mycspn_stop: "stops c \<Longrightarrow> mycspn_ascii (c # cs) = (0, False)"
  by (subst mycspn_ascii.simps) (auto simp: inset_ascii_iff stops_def split: list.splits)

lemma mycspn_escape: "c = bslash \<or> c = CHR ''$'' \<Longrightarrow>
    mycspn_ascii (c # d # ds) = (fst (mycspn_ascii ds) + 2, True)"
  by (subst mycspn_ascii.simps) (auto simp: inset_ascii_iff)

lemma mycspn_plain:
  assumes "\<not> stops c" "c \<noteq> bslash" "c \<noteq> CHR ''$''"
  shows "mycspn_ascii (c # cs) = apfst Suc (mycspn_ascii cs)"
proof -
  have "setcspn_ascii (c # cs) = Suc (setcspn_ascii cs)" using assms by (simp add: inset_ascii_iff)
  then show ?thesis
    by (subst (1 2) mycspn_ascii.simps) (simp add: Let_def split: list.split)
qed

section \<open>Writing dependency lines\<close>

text \<open>How a name is written: with a backslash before what would end it, and a doubled \<open>$\<close>.\<close>

definition inc_quote :: "char \<Rightarrow> string" where
  "inc_quote c = (if c = CHR ''$'' then [c, c]
     else if c = bslash \<or> c = CHR '' '' \<or> c = tab_char \<or> c = CHR '':'' then [bslash, c] else [c])"

definition inc_quoted :: "string \<Rightarrow> string" where
  "inc_quoted n = concat (map inc_quote n)"

definition inc_name_ok :: "string \<Rightarrow> bool" where
  "inc_name_ok n = (n \<noteq> [] \<and> nl \<notin> set n \<and> CHR 0x00 \<notin> set n)"

lemma inc_quoted_simps [simp]: "inc_quoted [] = []" "inc_quoted (c # n) = inc_quote c @ inc_quoted n"
  by (simp_all add: inc_quoted_def)

lemma inc_quoted_Nil [simp]: "inc_quoted n = [] \<longleftrightarrow> n = []"
  by (cases n) (auto simp: inc_quote_def)

lemma mycspn_quoted:
  assumes "stops x"
  shows "nl \<notin> set n \<Longrightarrow> CHR 0x00 \<notin> set n \<Longrightarrow> \<exists>e. mycspn_ascii (inc_quoted n @ x # rest) = (length (inc_quoted n), e) \<and>
    inc_unescape (inc_quoted n) = Some n \<and> (\<not> e \<longrightarrow> inc_quoted n = n)"
proof (induction n)
  case Nil
  then show ?case using mycspn_stop[OF assms] by auto
next
  case (Cons c n)
  obtain e where IH: "mycspn_ascii (inc_quoted n @ x # rest) = (length (inc_quoted n), e)"
      "inc_unescape (inc_quoted n) = Some n" "\<not> e \<longrightarrow> inc_quoted n = n"
    using Cons by auto
  consider "c = CHR ''$''" | "c = bslash \<or> c = CHR '' '' \<or> c = tab_char \<or> c = CHR '':''"
    | "c \<noteq> CHR ''$''" "c \<noteq> bslash" "c \<noteq> CHR '' ''" "c \<noteq> tab_char" "c \<noteq> CHR '':''" by blast
  then show ?case
  proof cases
    case 1
    then show ?thesis using IH by (intro exI[of _ True]) (simp add: inc_quote_def mycspn_escape)
  next
    case 2
    then have "inc_quote c = [bslash, c]" by (auto simp: inc_quote_def)
    then show ?thesis using IH by (intro exI[of _ True]) (simp add: mycspn_escape)
  next
    case 3
    then have q: "inc_quote c = [c]" by (simp add: inc_quote_def)
    have "\<not> stops c" using 3 Cons.prems by (auto simp: stops_def)
    then have "mycspn_ascii (c # inc_quoted n @ x # rest) = (Suc (length (inc_quoted n)), e)"
      using mycspn_plain[of c "inc_quoted n @ x # rest"] 3 IH(1) by simp
    then show ?thesis using q IH(2,3) 3 by simp
  qed
qed

text \<open>The canonical name that the setters hand on.\<close>

definition inc_can :: "incyy \<Rightarrow> string \<Rightarrow> string" where
  "inc_can y n =
     (let p = (if n \<noteq> [] \<and> hd n = CHR ''/'' \<or> inc_prefix y = ''.'' then n else inc_prefix y @ CHR ''/'' # n)
      in render (is_abs p) (comps p))"

lemma inc_name_eq: "n \<noteq> [] \<Longrightarrow> inc_name y n = Inr (inc_can y n)"
  by (simp add: inc_name_def inc_can_def canon_buflen_spec Let_def)

lemma inc_token_quoted:
  assumes "inc_name_ok n" "inc_unescape (inc_quoted n) = Some n" "\<not> e \<longrightarrow> inc_quoted n = n"
  shows "inc_token emit (inc_quoted n) e = emit n"
  using assms by (auto simp: inc_token_def inc_name_ok_def)

text \<open>One line: the targets, each followed by a blank, a colon, and the dependencies, each after a blank.\<close>

definition inc_tgts_text :: "string list \<Rightarrow> string" where
  "inc_tgts_text ts = concat (map (\<lambda>t. inc_quoted t @ '' '') ts)"

definition inc_deps_text :: "string list \<Rightarrow> string" where
  "inc_deps_text ds = concat (map (\<lambda>d. CHR '' '' # inc_quoted d) ds)"

definition inc_line :: "string list \<times> string list \<Rightarrow> string" where
  "inc_line r = (case r of (ts, ds) \<Rightarrow> inc_tgts_text ts @ CHR '':'' # inc_deps_text ds @ [nl])"

lemma stops_simps [simp]: "stops (CHR '' '')" "stops nl" "stops (CHR '':'')"
  by (simp_all add: stops_def)

lemma quoted_start:
  assumes "inc_name_ok n"
  shows "myspn nz (inc_quoted n @ x # rest) = inc_quoted n @ x # rest" "hd (inc_quoted n @ x # rest) \<noteq> nl"
proof -
  obtain c m where n: "n = c # m" "c \<noteq> nl" using assms by (cases n) (auto simp: inc_name_ok_def)
  then show "myspn nz (inc_quoted n @ x # rest) = inc_quoted n @ x # rest" "hd (inc_quoted n @ x # rest) \<noteq> nl"
    by (auto simp: inc_quote_def split: list.split)
qed

lemma inc_tgts_text_simps [simp]:
  "inc_tgts_text [] = []" "inc_tgts_text (t # ts) = inc_quoted t @ CHR '' '' # inc_tgts_text ts"
  by (simp_all add: inc_tgts_text_def)

lemma inc_deps_text_simps [simp]:
  "inc_deps_text [] = []" "inc_deps_text (d # ds) = CHR '' '' # inc_quoted d @ inc_deps_text ds"
  by (simp_all add: inc_deps_text_def)

lemma tgts_start:
  assumes "\<forall>t \<in> set ts. inc_name_ok t"
  shows "myspn nz (inc_tgts_text ts @ CHR '':'' # rest) = inc_tgts_text ts @ CHR '':'' # rest"
    "hd (inc_tgts_text ts @ CHR '':'' # rest) \<noteq> nl"
proof -
  have "myspn nz (CHR '':'' # rest) = CHR '':'' # rest" by (simp split: list.split)
  then show "myspn nz (inc_tgts_text ts @ CHR '':'' # rest) = inc_tgts_text ts @ CHR '':'' # rest"
    "hd (inc_tgts_text ts @ CHR '':'' # rest) \<noteq> nl"
    using assms quoted_start by (cases ts; simp)+
qed

lemma inc_tgts_line:
  "\<forall>t \<in> set ts. inc_name_ok t \<Longrightarrow>
   inc_tgts y (inc_tgts_text ts @ CHR '':'' # rest) = Inr (map (Inc_Tgt \<circ> inc_can y) ts, myspn True rest)"
proof (induction ts)
  case Nil
  show ?case by (subst inc_tgts.simps) (simp add: mycspn_stop inc_token_def)
next
  case (Cons t ts)
  let ?s = "inc_tgts_text ts @ CHR '':'' # rest"
  have t: "inc_name_ok t" "nl \<notin> set t" "CHR 0x00 \<notin> set t" "t \<noteq> []" using Cons.prems by (simp_all add: inc_name_ok_def)
  obtain e where e: "mycspn_ascii (inc_quoted t @ CHR '' '' # ?s) = (length (inc_quoted t), e)"
      "inc_unescape (inc_quoted t) = Some t" "\<not> e \<longrightarrow> inc_quoted t = t"
    using mycspn_quoted[of "CHR '' ''" t ?s] t(2,3) by auto
  have "myspn True ?s = ?s" using Cons.prems by (intro tgts_start) simp
  then show ?case
    using Cons e(1) inc_token_quoted[OF t(1) e(2,3), of "incyy_set_tgt y"]
    by (subst inc_tgts.simps) (simp add: incyy_set_tgt_def inc_name_eq[OF t(4)])
qed

lemma inc_deps_line:
  "\<forall>d \<in> set ds. inc_name_ok d \<Longrightarrow>
   inc_deps y (myspn True (inc_deps_text ds @ [nl])) = Inr (map (Inc_Dep \<circ> inc_can y) ds)"
proof (induction ds)
  case Nil
  show ?case by (simp, subst inc_deps.simps) (simp add: mycspn_stop inc_token_def)
next
  case (Cons d ds)
  have d: "inc_name_ok d" "nl \<notin> set d" "CHR 0x00 \<notin> set d" "d \<noteq> []" using Cons.prems by (simp_all add: inc_name_ok_def)
  obtain x r where x: "inc_deps_text ds @ [nl] = x # r" "stops x" "x = CHR '' '' \<or> x = nl \<and> ds = [] \<and> r = []"
    by (cases ds) auto
  obtain e where e: "mycspn_ascii (inc_quoted d @ x # r) = (length (inc_quoted d), e)"
      "inc_unescape (inc_quoted d) = Some d" "\<not> e \<longrightarrow> inc_quoted d = d"
    using mycspn_quoted[OF x(2), of d r] d(2,3) by auto
  have "myspn True (inc_deps_text (d # ds) @ [nl]) = inc_quoted d @ x # r"
    using quoted_start(1)[OF d(1), of True x r] x(1) by simp
  moreover have "x = CHR '' '' \<Longrightarrow> inc_deps y (myspn True r) = Inr (map (Inc_Dep \<circ> inc_can y) ds)"
    using Cons x(1) by simp
  ultimately show ?case
    using e(1) inc_token_quoted[OF d(1) e(2,3), of "incyy_set_dep y"] x(3)
    by (subst inc_deps.simps) (auto simp: incyy_set_dep_def inc_name_eq[OF d(4)])
qed

definition inc_calls :: "incyy \<Rightarrow> string list \<times> string list \<Rightarrow> inc_call list" where
  "inc_calls y r = (case r of (ts, ds) \<Rightarrow>
     Inc_Rule # (if inc_auto_target y then [Inc_Tgt (inc_can y (inc_fnamenodir y))] else []) @
     map (Inc_Tgt \<circ> inc_can y) ts @ map (Inc_Dep \<circ> inc_can y) ds)"

definition inc_rule_ok :: "string list \<times> string list \<Rightarrow> bool" where
  "inc_rule_ok r = (case r of (ts, ds) \<Rightarrow> (\<forall>n \<in> set ts \<union> set ds. inc_name_ok n))"

lemma handle_line_line:
  assumes "inc_rule_ok r" "inc_auto_target y \<longrightarrow> inc_fnamenodir y \<noteq> []"
  shows "handle_line y (inc_line r) = Inr (inc_calls y r)"
proof -
  obtain ts ds where r: "r = (ts, ds)" by force
  have n: "\<forall>t \<in> set ts. inc_name_ok t" "\<forall>d \<in> set ds. inc_name_ok d" using assms(1) by (simp_all add: inc_rule_ok_def r)
  let ?rest = "inc_deps_text ds @ [nl]"
  note s = tgts_start[OF n(1), where rest = ?rest]
  have e: "incyy_emplace_rule y = Inr (Inc_Rule # (if inc_auto_target y then [Inc_Tgt (inc_can y (inc_fnamenodir y))] else []))"
    using assms(2) by (simp add: incyy_emplace_rule_def incyy_set_tgt_def inc_name_eq)
  show ?thesis
    using s e inc_tgts_line[OF n(1), of y ?rest] inc_deps_line[OF n(2), of y]
    by (simp add: handle_line_def inc_line_def r inc_calls_def)
qed

section \<open>Continued lines\<close>

definition esc_step :: "bool \<Rightarrow> char \<Rightarrow> bool" where
  "esc_step e c = (\<not> e \<and> c = bslash)"

lemma esc_skip: "foldl esc_step False (dropWhile (\<lambda>x. x \<noteq> bslash) s) = foldl esc_step False s"
  by (induction s) (simp_all add: esc_step_def)

lemma scan_escape_foldl: "scan_escape e s = foldl esc_step e s"
proof (induction e s rule: scan_escape.induct)
  case (2 e c cs)
  then show ?case by (cases e; cases "c = bslash") (simp_all add: esc_skip, simp_all add: esc_step_def)
qed simp

lemma foldl_odd: "foldl esc_step False s = odd (length (takeWhile (\<lambda>c. c = bslash) (rev s)))"
  by (induction s rule: rev_induct) (auto simp: esc_step_def)

text \<open>A line is continued when an odd number of backslashes stands before its newline.\<close>

lemma line_continues_iff:
  "line_continues (s @ [nl]) \<longleftrightarrow> odd (length (takeWhile (\<lambda>c. c = bslash) (rev s)))"
proof (cases s rule: rev_cases)
  case (snoc t c)
  have "butlast (s @ [nl]) = s" by simp
  then show ?thesis
    unfolding line_continues_def scan_escape_foldl foldl_odd by (auto simp: snoc nth_append)
qed (simp add: line_continues_def)

lemma esc_plain: "c \<noteq> bslash \<Longrightarrow> esc_step e c = False"
  by (simp add: esc_step_def)

lemma esc_quote: "foldl esc_step False (inc_quote c) = False"
  by (simp add: inc_quote_def esc_step_def)

lemma esc_quoted: "foldl esc_step False (inc_quoted n) = False"
  by (induction n) (simp_all add: esc_quote)

lemma esc_texts: "foldl esc_step False (inc_tgts_text ts) = False" "foldl esc_step False (inc_deps_text ds) = False"
proof -
  show "foldl esc_step False (inc_tgts_text ts) = False"
    by (induction ts) (simp_all add: esc_quoted esc_plain)
  show "foldl esc_step False (inc_deps_text ds) = False"
    by (induction ds) (simp_all add: esc_quoted esc_plain)
qed

definition inc_body :: "string list \<times> string list \<Rightarrow> string" where
  "inc_body r = (case r of (ts, ds) \<Rightarrow> inc_tgts_text ts @ CHR '':'' # inc_deps_text ds)"

lemma inc_line_body: "inc_line r = inc_body r @ [nl]"
  by (simp add: inc_line_def inc_body_def split: prod.split)

lemma inc_line_whole: "\<not> line_continues (inc_line r)"
proof -
  obtain ts ds where r: "r = (ts, ds)" by force
  have "foldl esc_step False (inc_body r) = False" by (simp add: inc_body_def r esc_texts esc_plain)
  then show ?thesis by (simp add: inc_line_body line_continues_def scan_escape_foldl)
qed

lemma quoted_set: "set (inc_quoted n) \<subseteq> insert bslash (set n)"
  by (induction n) (auto simp: inc_quote_def split: if_splits)

lemma inc_body_chars:
  assumes "inc_rule_ok r"
  shows "nl \<notin> set (inc_body r)" "CHR 0x00 \<notin> set (inc_body r)"
proof -
  obtain ts ds where r: "r = (ts, ds)" by force
  have "nl \<notin> set (inc_quoted n) \<and> CHR 0x00 \<notin> set (inc_quoted n)" if "n \<in> set ts \<union> set ds" for n
    using assms that quoted_set[of n] by (auto simp: r inc_rule_ok_def inc_name_ok_def)
  then show "nl \<notin> set (inc_body r)" "CHR 0x00 \<notin> set (inc_body r)"
    by (auto simp: inc_body_def r inc_tgts_text_def inc_deps_text_def)
qed

section \<open>Whole files\<close>

lemma inc_lines_text:
  assumes y: "inc_auto_target y \<longrightarrow> inc_fnamenodir y \<noteq> []"
  shows "\<forall>r \<in> set rs. inc_rule_ok r \<Longrightarrow> length rs < fuel \<Longrightarrow>
    inc_lines fuel y n n2 (concat (map inc_line rs)) = Inr (concat (map (inc_calls y) rs))"
proof (induction rs arbitrary: fuel n)
  case Nil
  then obtain k where "fuel = Suc k" by (cases fuel) auto
  moreover obtain c where "mygetline n [] = (None, c, [])"
    using getline_loop_ok[of "[]" "if n = 0 then 1024 else n" "[]"] by (auto simp: mygetline_def)
  ultimately show ?case by simp
next
  case (Cons r rs)
  obtain k where k: "fuel = Suc k" "length rs < k" using Cons.prems(2) by (cases fuel) auto
  have r: "inc_rule_ok r" "\<forall>r \<in> set rs. inc_rule_ok r" using Cons.prems(1) by simp_all
  let ?f = "concat (map inc_line rs)"
  have nul: "CHR 0x00 \<notin> set (inc_line r @ ?f)"
    using inc_body_chars(2) r by (auto simp: inc_line_body)
  have fl: "first_line (inc_line r @ ?f) = inc_line r" "after_line (inc_line r @ ?f) = ?f"
    using inc_body_chars(1)[OF r(1)] by (simp_all add: inc_line_body)
  obtain c where g: "mygetline n (inc_line r @ ?f) = (Some (inc_line r), c, ?f)"
    using getline_loop_ok[OF nul, of "if n = 0 then 1024 else n" "[]"] fl
    by (auto simp: mygetline_def inc_line_body)
  show ?case
    using g inc_line_whole[of r] handle_line_line[OF r(1) y] Cons.IH[OF r(2) k(2)] by (simp add: k(1))
qed

lemma text_length: "length rs \<le> length (concat (map inc_line rs))"
  by (induction rs) (simp_all add: inc_line_body)

text \<open>
  C14: Dependency files round-trip: names with any bytes but NUL and newline, written with a backslash
  before blanks, tabs, colons and backslashes and with doubled dollars, come back as they were,
  line for line: the parser accepts the file and announces for every line one rule with its targets (the name of
  the file first, if it is an automatic target) and its dependencies, each by its canonical name.
\<close>

theorem inc_roundtrip:
  assumes "\<forall>r \<in> set rs. inc_rule_ok r" "inc_auto_target y \<longrightarrow> inc_fnamenodir y \<noteq> []"
  shows "incyymineparse y (concat (map inc_line rs)) = Inr (concat (map (inc_calls y) rs))"
  unfolding incyymineparse_def using text_length[of rs] by (intro inc_lines_text[OF assms(2,1)]) simp

theorem inc_roundtrip_witness:
  "incyymineparse \<lparr> inc_prefix = ''d'', inc_fnamenodir = ''a.d'', inc_auto_target = True \<rparr>
     (inc_line ([''a.o''], [''a b:c'', ''../x$''])) =
   Inr [Inc_Rule, Inc_Tgt ''d/a.d'', Inc_Tgt ''d/a.o'', Inc_Dep ''d/a b:c'', Inc_Dep ''x$'']"
proof -
  let ?y = "\<lparr> inc_prefix = ''d'', inc_fnamenodir = ''a.d'', inc_auto_target = True \<rparr>"
  let ?r = "([''a.o''], [''a b:c'', ''../x$''])"
  have "inc_calls ?y ?r = [Inc_Rule, Inc_Tgt ''d/a.d'', Inc_Tgt ''d/a.o'', Inc_Dep ''d/a b:c'', Inc_Dep ''x$'']"
    by code_simp
  then show ?thesis
    using inc_roundtrip[of "[?r]" ?y] by (simp add: inc_rule_ok_def inc_name_ok_def)
qed

section \<open>The fuel is enough\<close>

lemma getline_shrinks:
  "getline_loop cap line f = (Some l, cap', f') \<Longrightarrow> length f' \<le> length f \<and> (line = [] \<longrightarrow> length f' < length f)"
proof (induction cap line f rule: getline_loop.induct)
  case (1 cap line f)
  let ?m = "cap - length line - 1"
  obtain chunk g where ch: "fgets ?m f = (chunk, g)" by fastforce
  have f: "f = chunk @ g" using fgets_split[OF ch] by simp
  note eq = "1.prems"[unfolded getline_loop.simps[of cap line f]]
  show ?case
  proof (cases "cap \<le> length line + 1")
    case True
    then show ?thesis using 1(1)[OF refl ch[symmetric] refl True] eq ch by (simp add: Let_def)
  next
    case small: False
    show ?thesis
    proof (cases "chunk = []")
      case True
      then show ?thesis using eq ch small f by (auto simp: Let_def split: if_splits)
    next
      case False
      let ?len = "strlen chunk"
      show ?thesis
      proof (cases "(?len \<noteq> 0 \<and> chunk ! (?len - 1) = nl) \<or> ?len < ?m")
        case True
        then have "f' = g" using eq ch small False by (auto simp: Let_def split: if_splits)
        then show ?thesis using f False by simp
      next
        case cont: False
        have "getline_loop (max 1024 (2 * cap)) (line @ take ?len chunk) g = (Some l, cap', f')"
          using eq ch small False cont by (auto simp: Let_def split: if_splits)
        then have "length f' \<le> length g"
          using 1(2)[OF refl ch[symmetric] refl small False refl] cont by auto
        then show ?thesis using f False by (simp add: trans_less_add2 add.commute less_add_same_cancel1 le_less_trans)
      qed
    qed
  qed
qed

lemma mygetline_shrinks: "mygetline n f = (Some l, n', f') \<Longrightarrow> length f' < length f"
  unfolding mygetline_def using getline_shrinks by blast

lemma inc_token_fuel: "(\<And>x. emit x \<noteq> Inl NoFuel) \<Longrightarrow> inc_token emit tok e \<noteq> Inl NoFuel"
  by (simp add: inc_token_def inc_invalid_def split: option.split)

lemma inc_name_fuel: "inc_name y n \<noteq> Inl NoFuel"
proof (cases "n = []")
  case True
  have "canon_buflen [] b \<noteq> Inl NoFuel" for b by (simp add: canon_buflen_def Let_def)
  then show ?thesis using True by (auto simp: inc_name_def canon_buflen_spec stir_simps)
qed (simp add: inc_name_eq)

lemma set_fuel: "incyy_set_tgt y n \<noteq> Inl NoFuel" "incyy_set_dep y n \<noteq> Inl NoFuel"
    "incyy_emplace_rule y \<noteq> Inl NoFuel"
  using inc_name_fuel by (auto simp: incyy_set_tgt_def incyy_set_dep_def incyy_emplace_rule_def stir_simps)

lemma inc_tgts_fuel: "inc_tgts y s \<noteq> Inl NoFuel"
proof (induction y s rule: inc_tgts.induct)
  case (1 y s)
  have t: "inc_token (incyy_set_tgt y) tok e \<noteq> Inl NoFuel" for tok e by (rule inc_token_fuel) (rule set_fuel)
  obtain len esc where l: "mycspn_ascii s = (len, esc)" by force
  show ?case
  proof (cases "drop len s")
    case Nil
    then show ?thesis by (subst inc_tgts.simps) (simp add: l inc_invalid_def)
  next
    case (Cons c rest)
    have "inc_tgts y (myspn True rest) \<noteq> Inl NoFuel"
      if "c \<noteq> nl" "inc_token (incyy_set_tgt y) (take len s) esc = Inr cs" "c \<noteq> CHR '':''" for cs
      using 1[OF l[symmetric] refl Cons that(1) refl that(3)] .
    then show ?thesis using t by (subst inc_tgts.simps) (auto simp: l Cons inc_invalid_def Let_def stir_simps split: if_splits)
  qed
qed

lemma inc_deps_fuel: "inc_deps y s \<noteq> Inl NoFuel"
proof (induction y s rule: inc_deps.induct)
  case (1 y s)
  have t: "inc_token (incyy_set_dep y) tok e \<noteq> Inl NoFuel" for tok e by (rule inc_token_fuel) (rule set_fuel)
  obtain len esc where l: "mycspn_ascii s = (len, esc)" by force
  show ?case
  proof (cases "drop len s")
    case Nil
    then show ?thesis using t by (subst inc_deps.simps) (simp add: l)
  next
    case (Cons c rest)
    have "inc_deps y (myspn True rest) \<noteq> Inl NoFuel" if "c \<noteq> CHR '':''" "c \<noteq> nl"
      using 1[OF l[symmetric] refl Cons that] .
    then show ?thesis using t by (subst inc_deps.simps) (auto simp: l Cons inc_invalid_def stir_simps split: if_splits)
  qed
qed

lemma handle_line_fuel: "handle_line y l \<noteq> Inl NoFuel"
  using inc_tgts_fuel inc_deps_fuel set_fuel(3)
  by (auto simp: handle_line_def Let_def stir_simps split: if_splits)

lemma join_lines_fuel:
  "length f < fuel \<Longrightarrow> outcome (- {NoFuel}) (\<lambda>(l, n, n2, f'). length f' < length f) (join_lines fuel n n2 line f)"
proof (induction fuel arbitrary: n n2 line f)
  case (Suc fuel)
  show ?case
  proof (cases "mygetline n2 f")
    case (fields o1 n2' f')
    show ?thesis
    proof (cases o1)
      case None
      then show ?thesis by (simp add: fields inc_invalid_def)
    next
      case (Some l2)
      have s: "length f' < length f" using mygetline_shrinks fields Some by blast
      then have "outcome (- {NoFuel}) (\<lambda>(l, n, n2, f''). length f'' < length f) (join_lines fuel k n2' (line @ l2) f')" for k
        using Suc.IH[of f' k n2' "line @ l2"] Suc.prems by (auto elim!: outcome_mono)
      then show ?thesis using fields Some s by (simp add: Let_def)
    qed
  qed
qed simp

lemma no_fuel_iff: "outcome (- {NoFuel}) (\<lambda>_. True) r \<longleftrightarrow> r \<noteq> Inl NoFuel"
  by (cases r) auto

lemma inc_lines_fuel: "length f < fuel \<Longrightarrow> inc_lines fuel y n n2 f \<noteq> Inl NoFuel"
proof (induction fuel arbitrary: n n2 f)
  case (Suc fuel)
  show ?case
  proof (cases "mygetline n f")
    case (fields o1 n' f')
    show ?thesis
    proof (cases o1)
      case (Some l)
      have s: "length f' < length f" using mygetline_shrinks fields Some by blast
      have j: "outcome (- {NoFuel}) (\<lambda>(l, n, n2, f''). length f'' < length f)
          (if line_continues l then join_lines fuel n' n2 l f' else Inr (l, n', n2, f'))"
        using join_lines_fuel[of f' fuel n' n2 l] Suc.prems s by (auto elim!: outcome_mono)
      have "outcome (- {NoFuel}) (\<lambda>_. True) (inc_lines (Suc fuel) y n n2 f)"
        unfolding inc_lines.simps fields Some
        prod.case option.case
      proof (rule outcome_bind[OF j], clarsimp)
        fix l1 n1 n3 and f1 :: string
        assume "length f1 < length f"
        then have "inc_lines fuel y n1 n3 f1 \<noteq> Inl NoFuel" using Suc by simp
        then have "bind_res (handle_line y l1) (\<lambda>cs. bind_res (inc_lines fuel y n1 n3 f1) (\<lambda>cs'. Inr (cs @ cs')))
            \<noteq> Inl NoFuel"
          using handle_line_fuel[of y l1] by (auto simp: stir_simps)
        then show "outcome (- {NoFuel}) (\<lambda>_. True)
            (bind_res (handle_line y l1) (\<lambda>cs. bind_res (inc_lines fuel y n1 n3 f1) (\<lambda>cs'. Inr (cs @ cs'))))"
          by (simp only: no_fuel_iff) simp
      qed
      then show ?thesis by (simp only: no_fuel_iff) simp
    qed (simp add: fields)
  qed
qed simp

lemma incyymineparse_fuel: "incyymineparse y f \<noteq> Inl NoFuel"
  unfolding incyymineparse_def by (rule inc_lines_fuel) simp

end
