(* ===== verification/Build_Start.thy ===== *)
theory Build_Start
  imports Pattern_Rules Graph_Added Inc_Parser
begin

text \<open>
  The way of \<open>main\<close> from the parsed Stirfile to the call of \<open>run_loop\<close>: the rules, the additional
  dependencies, the goals of the command line, the count of the remaining dependencies, the search for
  cycles from each goal, the \<open>@order\<close> declarations and the back edges that had to wait.

  The parsed Stirfile, the contents of the dependency files and the options are its input; \<open>-c\<close> and
  \<open>-b\<close> (clean) are another way through \<open>main\<close>.
\<close>

section \<open>Rules and dependencies\<close>

text \<open>The first result is \<open>ruleid_first\<close>, the default goal: the first rule of the directory stirmake was
  started in.\<close>

fun load_rules :: "string \<Rightarrow> stiryyrule list \<Rightarrow> nat option \<Rightarrow> gbase \<Rightarrow> (nat option \<times> gbase) res" where
  "load_rules fwd_path [] first s = Inr (first, s)"
| "load_rules fwd_path (y # ys) first s =
     (if y_targets y = [] \<or> y_deponly y then load_rules fwd_path ys first s
      else if y_ispat y then bind_res (expand_bases y (y_bases y) s) (load_rules fwd_path ys first)
      else bind_res (add_rule (y_targets y) (y_deps y) y None s) (\<lambda>s.
        if first = None \<and> fwd_path = y_prefix y then
          if rules_size s = 0 then Inl Aborted
          else load_rules fwd_path ys (if is_hook y then None else Some (rules_size s - 1)) s
        else load_rules fwd_path ys first s))"

fun load_deps :: "stiryyrule list \<Rightarrow> gbase \<Rightarrow> gbase res" where
  "load_deps [] s = Inr s"
| "load_deps (y # ys) s =
     (if y_targets y = [] \<or> \<not> y_deponly y then load_deps ys s
      else bind_res (add_dep_from_rules (y_targets y) (y_deps y) False (y_prefix y) s) (load_deps ys))"

text \<open>
  The dependency files.  \<open>incyymineparse\<close> is given the callbacks below, which remember the targets of
  the current line; so it collects no rules of its own, and the calls of \<open>add_dep\<close> for these, which follow
  it, are never reached.
\<close>

definition incyy_add_tgt :: "bool \<Rightarrow> string \<Rightarrow> nat list \<times> gbase \<Rightarrow> nat list \<times> gbase" where
  "incyy_add_tgt auto_phony str dat =
     (case dat of (ts, s) \<Rightarrow>
        let (ti, s) = stringtab_add str s in (ts @ [ti], ins_add_dep ti None False False auto_phony s))"

fun add_dep_to :: "bool \<Rightarrow> nat \<Rightarrow> nat list \<Rightarrow> gbase \<Rightarrow> gbase" where
  "add_dep_to auto_phony di [] s = s"
| "add_dep_to auto_phony di (ti # ts) s =
     add_dep_to auto_phony di ts (ins_add_dep ti (Some di) auto_phony False auto_phony s)"

definition incyy_add_dep :: "bool \<Rightarrow> string \<Rightarrow> nat list \<times> gbase \<Rightarrow> nat list \<times> gbase" where
  "incyy_add_dep auto_phony str dat =
     (case dat of (ts, s) \<Rightarrow>
        let (di, s) = stringtab_add str s in (ts, add_dep_to auto_phony di ts s))"

fun run_calls :: "bool \<Rightarrow> inc_call list \<Rightarrow> nat list \<times> gbase \<Rightarrow> nat list \<times> gbase" where
  "run_calls ap [] dat = dat"
| "run_calls ap (Inc_Rule # cs) dat = run_calls ap cs ([], snd dat)"
| "run_calls ap (Inc_Tgt n # cs) dat = run_calls ap cs (incyy_add_tgt ap n dat)"
| "run_calls ap (Inc_Dep n # cs) dat = run_calls ap cs (incyy_add_dep ap n dat)"

text \<open>A declaration with what the file holds; \<open>None\<close> stands for a file that cannot be opened.\<close>

record cdepfile = cdepinclude +
  ci_file :: "string option"

definition incyy_of :: "cdepfile \<Rightarrow> incyy" where
  "incyy_of c = \<lparr> inc_prefix = ci_prefix c, inc_fnamenodir = ci_name c, inc_auto_target = ci_auto_target c \<rparr>"

fun load_includes :: "cdepfile list \<Rightarrow> gbase \<Rightarrow> gbase res" where
  "load_includes [] s = Inr s"
| "load_includes (c # cs) s =
     bind_res (canon_buflen (ci_prefix c @ CHR ''/'' # ci_name c) (Some 1024)) (\<lambda>(fname, _).
       let (_, s) = stringtab_add fname s
       in case ci_file c of
            None \<Rightarrow> if ci_ignore c then load_includes cs s else Inl (Exited ''Can't read cdepincludes'')
          | Some f \<Rightarrow> bind_res (incyymineparse (incyy_of c) f) (\<lambda>calls.
                load_includes cs (snd (run_calls (ci_auto_phony c) calls ([], s)))))"

section \<open>Goals\<close>

datatype mode = MODE_NONE | MODE_THIS | MODE_PROJECT | MODE_ALL

definition goal_name :: "mode \<Rightarrow> string \<Rightarrow> string \<Rightarrow> string res" where
  "goal_name md fwd_path arg =
     (if md = MODE_ALL \<or> md = MODE_NONE then Inr arg else canon (fwd_path @ CHR ''/'' # arg))"

definition goal_rule :: "mode \<Rightarrow> string \<Rightarrow> string \<Rightarrow> gbase \<Rightarrow> (nat \<times> gbase) res" where
  "goal_rule md fwd_path arg s =
     bind_res (goal_name md fwd_path arg) (\<lambda>n.
       let (i, s) = stringtab_add n s
       in case get_ruleid_by_tgt s i of
            None \<Rightarrow> Inl (Exited ''rule not found'')
          | Some r \<Rightarrow> Inr (r, s))"

text \<open>All goals are looked up before the first is added.\<close>

fun check_goals :: "mode \<Rightarrow> string \<Rightarrow> string list \<Rightarrow> gbase \<Rightarrow> gbase res" where
  "check_goals md fwd_path [] s = Inr s"
| "check_goals md fwd_path (a # as) s = bind_res (goal_rule md fwd_path a s) (\<lambda>(_, s). check_goals md fwd_path as s)"

fun add_goals :: "mode \<Rightarrow> string \<Rightarrow> string list \<Rightarrow> gbase \<Rightarrow> gbase res" where
  "add_goals md fwd_path [] s = Inr s"
| "add_goals md fwd_path (a # as) s =
     bind_res (goal_rule md fwd_path a s) (\<lambda>(r, s). add_goals md fwd_path as (ruleremain_add r s))"

definition select_goals :: "mode \<Rightarrow> string \<Rightarrow> string list \<Rightarrow> nat option \<Rightarrow> gbase \<Rightarrow> gbase res" where
  "select_goals md fwd_path args first s =
     (if args = [] then
        case first of None \<Rightarrow> Inl (Exited ''no applicable rules'') | Some r \<Rightarrow> Inr (ruleremain_add r s)
      else bind_res (check_goals md fwd_path args s) (add_goals md fwd_path args))"

section \<open>Cycles and orders\<close>

fun detect_goals :: "bool \<Rightarrow> nat list \<Rightarrow> 'w sched \<Rightarrow> 'w sched res" where
  "detect_goals mark [] s = Inr s"
| "detect_goals mark (r # rs) s = bind_res (better_cycle_detect r mark s) (\<lambda>(_, s). detect_goals mark rs s)"

text \<open>One \<open>@order\<close> declaration: the second rule depends on the target of the first.\<close>

definition process_order :: "string list \<Rightarrow> string list \<Rightarrow> 'w sched \<Rightarrow> 'w sched res" where
  "process_order tab ord s =
     (case ord of
        [a, b] \<Rightarrow>
          (case (st_index a tab, st_index b tab) of
             (Some first, Some second) \<Rightarrow>
               (case (get_ruleid_by_tgt s first, get_ruleid_by_tgt s second) of
                  (Some firstrule, Some secondrule) \<Rightarrow>
                    if \<not> is_traversed (rules s firstrule) \<or> \<not> is_traversed (rules s secondrule) then Inr s
                    else
                      let (new, r) = ins_dep first None False False False False False (rules s secondrule);
                          s = upd_rule secondrule (\<lambda>_. deps_remain_insert firstrule r) s
                      in Inr (if new then snd (ins_ruleid_by_dep2 first secondrule True s) else s)
                | _ \<Rightarrow> Inl (Exited ''@order rule not found''))
           | _ \<Rightarrow> Inl (Exited ''@order rule not found''))
      | _ \<Rightarrow> Inl Aborted)"

fun process_orders :: "string list \<Rightarrow> string list list \<Rightarrow> 'w sched \<Rightarrow> 'w sched res" where
  "process_orders tab [] s = Inr s"
| "process_orders tab (ord # os) s = bind_res (process_order tab ord s) (process_orders tab os)"

section \<open>The whole way\<close>

record parsed =
  p_rules :: "stiryyrule list"
  p_includes :: "cdepfile list"
  p_orders :: "string list list"
  p_mode :: mode
  p_fwd_path :: string
  p_args :: "string list"
  p_scope :: nat

definition to_sched :: "'w \<Rightarrow> gbase \<Rightarrow> 'w sched" where
  "to_sched w s = \<lparr> rules = rules s, rules_size = rules_size s, st_ruleid = st_ruleid s,
     rules_remain_list = rules_remain_list s, later_blocks = later_blocks s, later_last = later_last s,
     ruleids_to_run = [], world = w \<rparr>"

definition load_graph :: "parsed \<Rightarrow> gbase \<Rightarrow> gbase res" where
  "load_graph p s =
     bind_res (load_rules (p_fwd_path p) (p_rules p) None s) (\<lambda>(first, s).
     bind_res (load_deps (p_rules p) s) (\<lambda>s.
       if first = None \<and> p_args p = [] then Inl (Exited ''no applicable rules'')
       else bind_res (load_includes (p_includes p) s) (\<lambda>s.
            bind_res (select_goals (p_mode p) (p_fwd_path p) (p_args p) first s) (\<lambda>s.
              process_additional_deps_2 (p_scope p) s))))"

definition build_start :: "parsed \<Rightarrow> 'w \<Rightarrow> gbase \<Rightarrow> 'w sched res" where
  "build_start p w s =
     bind_res (load_graph p s) (\<lambda>g.
       let s = to_sched w (prepare_rules g) in
       bind_res (detect_goals True (rules_remain_list s) s) (\<lambda>s.
       bind_res (process_orders (names g) (p_orders p) s) (\<lambda>s.
       bind_res (if p_orders p \<noteq> [] then detect_goals False (rules_remain_list s) s else Inr s) (\<lambda>s.
         Inr (ins_ruleid_by_dep_later s)))))"

end
