(* ===== verification/Start_Ok.thy ===== *)
theory Start_Ok
  imports Build_Start
begin

text \<open>
  Every stage of \<open>main\<close> before the count of the remaining dependencies keeps the invariant of the rule
  base (\<open>stage_ok\<close>) or ends with an error message, and brings in no wait position that the Stirfile has not.
\<close>

section \<open>No wait positions\<close>

lemma no_wait_simps [simp]:
  "no_wait (s\<lparr> names := xs \<rparr>) = no_wait s"
  "no_wait (s\<lparr> add_blocks := bs, add_last := l \<rparr>) = no_wait s"
  "no_wait (s\<lparr> st_ruleid := t \<rparr>) = no_wait s"
  by (simp_all add: no_wait_def)

lemma no_wait_upd:
  "no_wait s \<Longrightarrow> deplist (f (rules s r)) = deplist (rules s r) \<Longrightarrow> no_wait (upd_rule r f s)"
  by (simp add: no_wait_def)

lemma no_wait_edge: "no_wait s \<Longrightarrow> \<not> wt \<Longrightarrow> no_wait (add_edge r di nd rc oo wt p inc en s)"
  unfolding no_wait_def
proof (intro allI ballI)
  fix x e
  assume s: "\<forall>r. \<forall>e \<in> set (deplist (rules s r)). \<not> is_wait e" "\<not> wt"
    and e: "e \<in> set (deplist (rules (add_edge r di nd rc oo wt p inc en s) x))"
  then show "\<not> is_wait e"
    using blocks_onlyD(2)[OF add_edge_rules(1)[of x r s di nd rc oo wt p inc en]]
    by (auto simp: edge_entry_def split: if_splits)
qed

lemma no_wait_new: "no_wait s \<Longrightarrow> deplist a = [] \<Longrightarrow> no_wait (new_rule a s)"
  by (simp add: no_wait_def)

lemma no_wait_string: "stringtab_add c s = (i, s') \<Longrightarrow> no_wait s' = no_wait s"
  using stringtab_add_ok(7)[of c s i s'] by (simp add: no_wait_def)

lemma no_wait_with: "no_wait s \<Longrightarrow> no_wait (with_tgt r ti nd dist s)"
  by (simp add: with_tgt_def no_wait_upd)

lemma no_wait_tgts: "no_wait s \<Longrightarrow> add_rule_tgts y r ts s = Inr s' \<Longrightarrow> no_wait s'"
proof (induction ts arbitrary: s)
  case (Cons t ts)
  obtain ti s1 where s1: "stringtab_add (tgt_name y t) s = (ti, s1)" by force
  obtain tn s2 where s2: "stringtab_add (t_namenodir t) s1 = (tn, s2)" by force
  have nw: "no_wait s2" using Cons.prems(1) no_wait_string[OF s1] no_wait_string[OF s2] by simp
  obtain a s3 where a: "ins_tgt ti (Some tn) (y_dist y) (rules s2 r) = Inr a"
      "ins_ruleid_by_tgt ti r (upd_rule r (\<lambda>_. a) s2) = Inr s3" "add_rule_tgts y r ts s3 = Inr s'"
    using Cons.prems(2) s1 s2 by (auto simp: tgt_name_def Let_def stir_simps)
  have "no_wait s3"
    using a(1,2) nw by (auto simp: ins_tgt_def ins_ruleid_by_tgt_def no_wait_upd split: if_splits)
  then show ?case using Cons.IH a(3) by blast
qed simp

lemma no_wait_deps:
  "no_wait s \<Longrightarrow> \<forall>d \<in> set ds. \<not> d_wait d \<Longrightarrow> add_rule_deps y r ds s = Inr s' \<Longrightarrow> no_wait s'"
proof (induction ds arbitrary: s)
  case (Cons d ds)
  obtain di s1 where s1: "stringtab_add (dep_name y d) s = (di, s1)" by force
  obtain dn s2 where s2: "stringtab_add (d_namenodir d) s1 = (dn, s2)" by force
  have nw: "no_wait s2" using Cons.prems(1) no_wait_string[OF s1] no_wait_string[OF s2] by simp
  have "add_rule_deps y r ds
      (add_edge r di (Some dn) (d_rec d) (d_orderonly d) (d_wait d) True False False s2) = Inr s'"
    using Cons.prems(3) s1 s2 by (simp add: dep_name_def)
  moreover have "no_wait (add_edge r di (Some dn) (d_rec d) (d_orderonly d) (d_wait d) True False False s2)"
    using Cons.prems(2) by (intro no_wait_edge[OF nw]) simp
  ultimately show ?case using Cons.IH Cons.prems(2) by simp
qed simp

lemma no_wait_add_rule:
  assumes nw: "no_wait s" and ds: "\<forall>d \<in> set ds. \<not> d_wait d" and r: "add_rule ts ds y meat s = Inr s'"
  shows "no_wait s'"
proof -
  obtain dir s1 where s1: "stringtab_add (y_prefix y) s = (dir, s1)" by force
  obtain mi s2 where s2: "(case meat of None \<Rightarrow> (None, s1)
      | Some m \<Rightarrow> let (i, s) = stringtab_add m s1 in (Some i, s)) = (mi, s2)" by force
  have "s2 = s1 \<or> (\<exists>m i. stringtab_add m s1 = (i, s2))"
    using s2 by (auto split: option.splits prod.splits)
  then have nw2: "no_wait s2" using nw no_wait_string[OF s1] no_wait_string by blast
  let ?a = "zero_rule\<lparr> scopeidx := y_scopeidx y, is_phony := y_phony y, is_maybe := y_maybe y,
     is_rectgt := y_rectgt y, is_detouch := y_detouch y, is_dist := y_dist y,
     is_cleanhook := y_iscleanhook y, is_distcleanhook := y_isdistcleanhook y,
     is_bothcleanhook := y_isbothcleanhook y, diridx := dir, meatidx := mi \<rparr>"
  have "\<exists>s4. add_rule_tgts y (rules_size s) ts (new_rule ?a s2) = Inr s4 \<and>
      add_rule_deps y (rules_size s) ds s4 = Inr s'"
    using r s1 s2 by (auto simp: add_rule_def stir_simps Let_def[of "rules_size s"] split: if_splits)
  moreover have "no_wait (new_rule ?a s2)" by (rule no_wait_new[OF nw2]) simp
  ultimately show ?thesis using no_wait_deps[OF _ ds] no_wait_tgts by blast
qed

lemma no_wait_rules: "rules s' = rules s \<Longrightarrow> no_wait s' = no_wait s"
  by (simp add: no_wait_def)

lemma no_wait_inc_rule: "no_wait s \<Longrightarrow> add_inc_rule scope ti s = Inr s' \<Longrightarrow> no_wait s'"
proof -
  assume nw: "no_wait s" and r: "add_inc_rule scope ti s = Inr s'"
  obtain dir s1 where s1: "stringtab_add ''.'' s = (dir, s1)" by force
  let ?s2 = "new_rule (zero_rule\<lparr> cmd := [], is_inc := True, diridx := dir, scopeidx := scope \<rparr>) s1"
  have "\<exists>s3 b. ins_ruleid_by_tgt ti (rules_size s) ?s2 = Inr s3 \<and>
      ins_tgt ti None False (rules s3 (rules_size s)) = Inr b \<and> s' = upd_rule (rules_size s) (\<lambda>_. b) s3"
    using r s1 by (auto simp: add_inc_rule_def stir_simps Let_def[of "rules_size s"])
  then obtain s3 b where a: "ins_ruleid_by_tgt ti (rules_size s) ?s2 = Inr s3"
      "ins_tgt ti None False (rules s3 (rules_size s)) = Inr b" "s' = upd_rule (rules_size s) (\<lambda>_. b) s3"
    by blast
  have "no_wait ?s2" using nw no_wait_string[OF s1] by (intro no_wait_new) simp_all
  then show "no_wait s'"
    using a by (auto simp: ins_tgt_def ins_ruleid_by_tgt_def no_wait_upd split: if_splits)
qed

lemma no_wait_ensure: "no_wait s \<Longrightarrow> ensure_targets scope es s = Inr s' \<Longrightarrow> no_wait s'"
  by (induction es arbitrary: s) (auto simp: stir_simps split: if_splits dest: no_wait_inc_rule)

lemma no_wait_entries: "no_wait s \<Longrightarrow> add_entries scope es lt lr s = Inr s' \<Longrightarrow> no_wait s'"
proof (induction es arbitrary: s lt lr)
  case (Cons e es)
  let ?edge = "\<lambda>r s. case ad_dep e of None \<Rightarrow> s
      | Some di \<Rightarrow> add_edge r di None False False False False (ad_inc e) True s"
  have ed: "no_wait s \<Longrightarrow> no_wait (?edge r s)" for r s
    by (cases "ad_dep e") (simp_all add: no_wait_edge)
  have ph: "no_wait s \<Longrightarrow> no_wait (upd_rule r (is_phony_update f) s)" for r f s
    by (simp add: no_wait_upd)
  consider r where "add_entries scope es (Some (ad_tgt e)) (Some r)
        (?edge r (upd_rule r (is_phony_update (\<lambda>p. p \<or> ad_phony e)) s)) = Inr s'"
    | s1 where "add_inc_rule scope (ad_tgt e) s = Inr s1" "add_entries scope es (Some (ad_tgt e)) None
        (upd_rule (rules_size s) (is_phony_update (\<lambda>_. ad_phony e)) (?edge (rules_size s) s1)) = Inr s'"
    using Cons.prems(2) by (auto simp: stir_simps Let_def split: option.splits if_splits)
  then show ?case
  proof cases
    case (1 r)
    then show ?thesis using Cons.IH[OF ed[OF ph[OF Cons.prems(1)]]] by blast
  next
    case (2 s1)
    then show ?thesis using Cons.IH[OF ph[OF ed[OF no_wait_inc_rule[OF Cons.prems(1)]]]] by blast
  qed
qed simp

section \<open>The stages before the count\<close>

definition stage_ok :: "bool \<Rightarrow> gbase \<Rightarrow> bool" where
  "stage_ok W s = (gb_ok False s \<and> names_ok s \<and> added_closed s \<and> (W \<longrightarrow> no_wait s))"

text \<open>The failures of a step: any but a lack of fuel.\<close>

abbreviation ends :: "('a \<Rightarrow> bool) \<Rightarrow> 'a res \<Rightarrow> bool" where
  "ends \<equiv> outcome (- {NoFuel})"

lemma stage_add_rule:
  assumes st: "stage_ok W s" and ds: "W \<Longrightarrow> \<forall>d \<in> set ds. \<not> d_wait d"
  shows "ends (\<lambda>s'. stage_ok W s' \<and> rules_size s' = Suc (rules_size s)) (add_rule ts ds y meat s)"
proof (cases "add_rule ts ds y meat s")
  case (Inl f)
  then show ?thesis
    using add_rule_ok[where s = s and ts = ts and ds = ds and y = y and meat = meat] st by (auto simp: stage_ok_def add_rule_errors_def)
next
  case (Inr s')
  then have ok: "gb_ok False s'" "names_ok s'" "rule_added y ts ds s s'"
    using add_rule_ok[where s = s and ts = ts and ds = ds and y = y and meat = meat] st by (auto simp: stage_ok_def)
  have "added_closed s'" using ok(3) st by (simp add: stage_ok_def added_closed_def rule_added_def)
  then show ?thesis
    using ok Inr no_wait_add_rule[OF _ ds Inr] st by (auto simp: stage_ok_def rule_added_def)
qed

definition closed_pairs :: "(string \<times> string option) set \<Rightarrow> bool" where
  "closed_pairs A = (\<forall>(t, d) \<in> A. (t, None) \<in> A)"

lemma closed_pairs_simps [simp]: "closed_pairs {}" "closed_pairs (dep_pairs T E)"
  by (auto simp: closed_pairs_def dep_pairs_def)

lemma stage_collects:
  assumes "stage_ok W s" "collects s s' A" "closed_pairs A"
  shows "stage_ok W s'"
  using assms collectsD[OF assms(2)] no_wait_rules[OF collectsD(4)[OF assms(2)]]
  by (auto simp: stage_ok_def added_closed_def closed_pairs_def)

definition no_d_wait :: "stiryyrule \<Rightarrow> bool" where
  "no_d_wait y = (\<forall>d \<in> set (y_deps y). \<not> d_wait d)"

lemma exp_deps_wait:
  "map_res (exp_dep meat) ds = Inr ds' \<Longrightarrow> \<forall>d \<in> set ds. \<not> d_wait d \<Longrightarrow> \<forall>d \<in> set ds'. \<not> d_wait d"
  by (induction ds arbitrary: ds') (auto simp: stir_simps exp_dep_def Let_def split: if_splits option.splits)

lemma map_res_fuel: "(\<And>x. f x \<noteq> Inl NoFuel) \<Longrightarrow> map_res f xs \<noteq> Inl NoFuel"
  by (induction xs) (auto simp: stir_simps)

lemma expand_base_ends:
  "ends (\<lambda>(ts, ds, meat). no_d_wait y \<longrightarrow> (\<forall>d \<in> set ds. \<not> d_wait d)) (expand_base y b)"
proof (cases "expand_base y b")
  case (Inl f)
  have "pat_meat t n \<noteq> Inl NoFuel" for t n
    by (auto simp: pat_meat_def cut_meat_def Let_def split: option.splits if_splits)
  moreover have "map_res (exp_tgt m) ts \<noteq> Inl NoFuel" for m ts
    by (rule map_res_fuel) (auto simp: exp_tgt_def Let_def split: option.splits)
  moreover have "map_res (exp_dep m) ds \<noteq> Inl NoFuel" for m ds
    by (rule map_res_fuel) (auto simp: exp_dep_def Let_def split: option.splits)
  ultimately show ?thesis
    using Inl by (auto simp: expand_base_def stir_simps split: list.splits if_splits)
next
  case (Inr x)
  then show ?thesis
    using exp_deps_wait by (fastforce simp: expand_base_def stir_simps no_d_wait_def split: list.splits if_splits)
qed

lemma stage_expand_bases:
  assumes W: "W \<Longrightarrow> no_d_wait y"
  shows "stage_ok W s \<Longrightarrow> ends (\<lambda>s'. stage_ok W s' \<and> rules_size s \<le> rules_size s') (expand_bases y bs s)"
proof (induction bs arbitrary: s)
  case (Cons b bs)
  show ?case
    unfolding expand_bases.simps
  proof (rule outcome_bind[OF expand_base_ends], clarsimp)
    fix ts :: "tgt list" and ds :: "dep list" and meat :: string
    assume d: "no_d_wait y \<longrightarrow> (\<forall>d \<in> set ds. \<not> d_wait d)"
    show "ends (\<lambda>s'. stage_ok W s' \<and> rules_size s \<le> rules_size s')
        (bind_res (add_rule ts ds y (Some meat) s) (expand_bases y bs))"
    proof (rule outcome_bind[OF stage_add_rule[OF Cons.prems]])
      show "W \<Longrightarrow> \<forall>d \<in> set ds. \<not> d_wait d" using d W by blast
      fix s'
      assume s': "stage_ok W s' \<and> rules_size s' = Suc (rules_size s)"
      then have "stage_ok W s'" by simp
      from Cons.IH[OF this] show "ends (\<lambda>s'. stage_ok W s' \<and> rules_size s \<le> rules_size s') (expand_bases y bs s')"
        by (rule outcome_mono) (use s' in auto)
    qed
  qed
qed simp

lemma stage_load_rules:
  "stage_ok W s \<Longrightarrow> (W \<Longrightarrow> \<forall>y \<in> set ys. no_d_wait y) \<Longrightarrow> (\<forall>r. first = Some r \<longrightarrow> r < rules_size s) \<Longrightarrow>
   ends (\<lambda>(f, s'). stage_ok W s' \<and> (\<forall>r. f = Some r \<longrightarrow> r < rules_size s')) (load_rules fwd ys first s)"
proof (induction ys arbitrary: first s)
  case (Cons y ys)
  have W: "W \<Longrightarrow> no_d_wait y" "W \<Longrightarrow> \<forall>y \<in> set ys. no_d_wait y" using Cons.prems(2) by simp_all
  consider "y_targets y = [] \<or> y_deponly y" | "\<not> (y_targets y = [] \<or> y_deponly y)" "y_ispat y"
    | "\<not> (y_targets y = [] \<or> y_deponly y)" "\<not> y_ispat y" by blast
  then show ?case
  proof cases
    case 1
    then show ?thesis using Cons.IH[OF Cons.prems(1) W(2) Cons.prems(3)] by simp
  next
    case 2
    have "ends (\<lambda>(f, s'). stage_ok W s' \<and> (\<forall>r. f = Some r \<longrightarrow> r < rules_size s'))
        (bind_res (expand_bases y (y_bases y) s) (load_rules fwd ys first))"
    proof (rule outcome_bind[OF stage_expand_bases[OF W(1) Cons.prems(1)]])
      fix s'
      assume s': "stage_ok W s' \<and> rules_size s \<le> rules_size s'"
      then have "stage_ok W s'" "\<forall>r. first = Some r \<longrightarrow> r < rules_size s'"
        using Cons.prems(3) by (auto intro: less_le_trans)
      then show "ends (\<lambda>(f, s'). stage_ok W s' \<and> (\<forall>r. f = Some r \<longrightarrow> r < rules_size s'))
          (load_rules fwd ys first s')" using Cons.IH[of s' first] W(2) by blast
    qed
    then show ?thesis using 2 by simp
  next
    case 3
    have "ends (\<lambda>(f, s'). stage_ok W s' \<and> (\<forall>r. f = Some r \<longrightarrow> r < rules_size s'))
        (bind_res (add_rule (y_targets y) (y_deps y) y None s) (\<lambda>s.
          if first = None \<and> fwd = y_prefix y then
            if rules_size s = 0 then Inl Aborted
            else load_rules fwd ys (if is_hook y then None else Some (rules_size s - 1)) s
          else load_rules fwd ys first s))"
    proof (rule outcome_bind[OF stage_add_rule[OF Cons.prems(1)]])
      show "W \<Longrightarrow> \<forall>d \<in> set (y_deps y). \<not> d_wait d" using W(1) by (simp add: no_d_wait_def)
      fix s'
      assume s': "stage_ok W s' \<and> rules_size s' = Suc (rules_size s)"
      then have f: "\<forall>r. first = Some r \<longrightarrow> r < rules_size s'" using Cons.prems(3) by auto
      show "ends (\<lambda>(f, s'). stage_ok W s' \<and> (\<forall>r. f = Some r \<longrightarrow> r < rules_size s'))
          (if first = None \<and> fwd = y_prefix y then
            if rules_size s' = 0 then Inl Aborted
            else load_rules fwd ys (if is_hook y then None else Some (rules_size s' - 1)) s'
          else load_rules fwd ys first s')"
        using Cons.IH[of s' first, OF _ W(2)] Cons.IH[of s' None, OF _ W(2)]
          Cons.IH[of s' "Some (rules_size s' - 1)", OF _ W(2)] s' f by auto
    qed
    then show ?thesis using 3 by simp
  qed
qed simp

lemma stage_load_deps: "stage_ok W s \<Longrightarrow> \<exists>s'. load_deps ys s = Inr s' \<and> stage_ok W s' \<and> rules_size s' = rules_size s"
proof (induction ys arbitrary: s)
  case (Cons y ys)
  show ?case
  proof (cases "y_targets y = [] \<or> \<not> y_deponly y")
    case True
    then show ?thesis using Cons by simp
  next
    case False
    have "gb_ok False s" "names_ok s" using Cons.prems by (simp_all add: stage_ok_def)
    from add_dep_from_rules_ok[OF this] obtain s1 where
      s1: "add_dep_from_rules (y_targets y) (y_deps y) False (y_prefix y) s = Inr s1"
        "collects s s1 (dep_pairs ((\<lambda>t. name_of (y_prefix y) (t_namenodir t)) ` set (y_targets y))
                      ((\<lambda>d. name_of (y_prefix y) (d_namenodir d)) ` set (y_deps y)))" by blast
    have "rules_size s1 = rules_size s" using collectsD(6)[OF s1(2)] .
    then show ?thesis using Cons.IH[OF stage_collects[OF Cons.prems s1(2)]] s1(1) False by simp
  qed
qed simp

lemma stage_string: "stage_ok W s \<Longrightarrow> stringtab_add c s = (i, s') \<Longrightarrow> stage_ok W s' \<and> rules_size s' = rules_size s"
  using collect_name[of s c i s'] stage_collects[of W s s' "{}"] collectsD(6)[of s s' "{}"]
  by (simp add: stage_ok_def)

section \<open>Dependency files\<close>

text \<open>What the calls of the parser collect; \<open>T\<close> are the targets of the current line.\<close>

fun inc_pairs :: "string set \<Rightarrow> inc_call list \<Rightarrow> (string \<times> string option) set" where
  "inc_pairs T [] = {}"
| "inc_pairs T (Inc_Rule # cs) = inc_pairs {} cs"
| "inc_pairs T (Inc_Tgt n # cs) = insert (n, None) (inc_pairs (insert n T) cs)"
| "inc_pairs T (Inc_Dep n # cs) = T \<times> {Some n} \<union> inc_pairs T cs"

lemma inc_pairs_closed: "(t, d) \<in> inc_pairs T cs \<Longrightarrow> t \<in> T \<or> (t, None) \<in> inc_pairs T cs"
  by (induction T cs rule: inc_pairs.induct) auto

lemma inc_pairs_closed_pairs [simp]: "closed_pairs (inc_pairs {} cs)"
  using inc_pairs_closed by (fastforce simp: closed_pairs_def)

lemma names_image_ext: "ext a b \<Longrightarrow> \<forall>t \<in> set ts. t < length a \<Longrightarrow> (!) b ` set ts = (!) a ` set ts \<and> (\<forall>t \<in> set ts. t < length b)"
  using ext_image[of a b "set ts"] ext_length[of a b] by fastforce

lemma add_dep_to_ok:
  "gb_ok False s \<Longrightarrow> names_ok s \<Longrightarrow> di < length (names s) \<Longrightarrow> \<forall>t \<in> set ts. t < length (names s) \<Longrightarrow>
   collects s (add_dep_to ap di ts s) ((!) (names s) ` set ts \<times> {Some (names s ! di)})"
proof (induction ts arbitrary: s)
  case Nil
  then show ?case by (simp add: collects_refl)
next
  case (Cons t ts)
  let ?s = "ins_add_dep t (Some di) ap False ap s"
  have c: "collects s ?s {(names s ! t, Some (names s ! di))}"
    using collect_entry[OF Cons.prems(1,2), of t "Some di"] Cons.prems(3,4) by simp
  have "collects ?s (add_dep_to ap di ts ?s) ((!) (names s) ` set ts \<times> {Some (names s ! di)})"
    using Cons.IH[OF collectsD(1,2)[OF c]] Cons.prems(3,4) by simp
  moreover have "{(names s ! t, Some (names s ! di))} \<union> (!) (names s) ` set ts \<times> {Some (names s ! di)} =
      (!) (names s) ` set (t # ts) \<times> {Some (names s ! di)}" by auto
  ultimately show ?case using collects_trans[OF c] by (metis add_dep_to.simps(2))
qed

lemma run_calls_ok:
  "gb_ok False s \<Longrightarrow> names_ok s \<Longrightarrow> \<forall>t \<in> set ts. t < length (names s) \<Longrightarrow>
   collects s (snd (run_calls ap cs (ts, s))) (inc_pairs ((!) (names s) ` set ts) cs)"
proof (induction ap cs "(ts, s)" arbitrary: ts s rule: run_calls.induct)
  case (1 ap)
  then show ?case by (simp add: collects_refl)
next
  case (2 ap cs)
  then show ?case by simp
next
  case (3 ap n cs)
  obtain ti s1 where s1: "stringtab_add n s = (ti, s1)" by force
  note a1 = stringtab_add_ok[OF s1]
  have c1: "collects s s1 {}" by (rule collect_name[OF 3(2,3) s1])
  let ?s = "ins_add_dep ti None False False ap s1"
  have c2: "collects s1 ?s {(n, None)}"
    using collect_entry[OF collectsD(1,2)[OF c1] a1(2), of None] a1(3) by simp
  have call: "incyy_add_tgt ap n (ts, s) = (ts @ [ti], ?s)" by (simp add: incyy_add_tgt_def s1)
  have t: "\<forall>t \<in> set (ts @ [ti]). t < length (names ?s)" "(!) (names ?s) ` set (ts @ [ti]) = insert n ((!) (names s) ` set ts)"
    using names_image_ext[OF a1(4) 3(4)] a1(2,3) by auto
  have "collects ?s (snd (run_calls ap cs (ts @ [ti], ?s))) (inc_pairs (insert n ((!) (names s) ` set ts)) cs)"
    using 3(1)[OF call collectsD(1,2)[OF c2] t(1)] t(2) by simp
  from collects_trans[OF c1 collects_trans[OF c2 this]] show ?case by (simp add: call)
next
  case (4 ap n cs)
  obtain di s1 where s1: "stringtab_add n s = (di, s1)" by force
  note a1 = stringtab_add_ok[OF s1]
  have c1: "collects s s1 {}" by (rule collect_name[OF 4(2,3) s1])
  let ?s = "add_dep_to ap di ts s1"
  have t: "\<forall>t \<in> set ts. t < length (names s1)" "(!) (names s1) ` set ts = (!) (names s) ` set ts"
    using names_image_ext[OF a1(4) 4(4)] by auto
  have c2: "collects s1 ?s ((!) (names s) ` set ts \<times> {Some n})"
    using add_dep_to_ok[OF collectsD(1,2)[OF c1] a1(2) t(1), of ap] a1(3) t(2) by simp
  have call: "incyy_add_dep ap n (ts, s) = (ts, ?s)" by (simp add: incyy_add_dep_def s1)
  have t2: "\<forall>t \<in> set ts. t < length (names ?s)" "(!) (names ?s) ` set ts = (!) (names s) ` set ts"
    using names_image_ext[OF collectsD(3)[OF c2] t(1)] t(2) by auto
  have "collects ?s (snd (run_calls ap cs (ts, ?s))) (inc_pairs ((!) (names s) ` set ts) cs)"
    using 4(1)[OF call collectsD(1,2)[OF c2] t2(1)] t2(2) by simp
  from collects_trans[OF c1 collects_trans[OF c2 this]] show ?case by (simp add: call)
qed

text \<open>A dependency file that was read.\<close>

definition read_include :: "cdepfile \<Rightarrow> gbase \<Rightarrow> gbase res" where
  "read_include c s =
     (case ci_file c of
        None \<Rightarrow> if ci_ignore c then Inr s else Inl (Exited ''Can't read cdepincludes'')
      | Some f \<Rightarrow> bind_res (incyymineparse (incyy_of c) f) (\<lambda>calls.
            Inr (snd (run_calls (ci_auto_phony c) calls ([], s)))))"

definition pairs_of :: "cdepfile \<Rightarrow> (string \<times> string option) set" where
  "pairs_of c = (case ci_file c of None \<Rightarrow> {}
     | Some f \<Rightarrow> (case incyymineparse (incyy_of c) f of Inl _ \<Rightarrow> {} | Inr calls \<Rightarrow> inc_pairs {} calls))"

lemma load_includes_Cons:
  "load_includes (c # cs) s =
     bind_res (canon_buflen (ci_prefix c @ CHR ''/'' # ci_name c) (Some 1024)) (\<lambda>(fname, _).
       bind_res (read_include c (snd (stringtab_add fname s))) (load_includes cs))"
  by (auto simp: read_include_def split_def bind_res_def split: option.split sum.split)

lemma read_include_ok:
  assumes st: "stage_ok W s"
  shows "ends (\<lambda>s'. stage_ok W s' \<and> collects s s' (pairs_of c)) (read_include c s)"
proof (cases "ci_file c")
  case None
  then show ?thesis using st by (simp add: read_include_def pairs_of_def collects_refl stage_ok_def)
next
  case (Some f)
  have c: "collects s (snd (run_calls (ci_auto_phony c) cs ([], s))) (inc_pairs {} cs)" for cs
    using run_calls_ok[of s "[]" "ci_auto_phony c" cs] st by (simp add: stage_ok_def)
  show ?thesis
    using incyymineparse_fuel[of "incyy_of c" f] c stage_collects[OF st c]
    by (cases "incyymineparse (incyy_of c) f") (auto simp: read_include_def pairs_of_def Some)
qed

lemma stage_load_includes:
  "stage_ok W s \<Longrightarrow> ends (\<lambda>s'. stage_ok W s' \<and> rules_size s' = rules_size s) (load_includes cs s)"
proof (induction cs arbitrary: s)
  case (Cons c cs)
  obtain fname n where f: "canon_buflen (ci_prefix c @ CHR ''/'' # ci_name c) (Some 1024) = Inr (fname, n)"
    using canon_buflen_spec[of "ci_prefix c @ CHR ''/'' # ci_name c" "Some 1024"] by simp
  obtain i s1 where s1: "stringtab_add fname s = (i, s1)" by force
  have st: "stage_ok W s1" "rules_size s1 = rules_size s" using stage_string[OF Cons.prems s1] by simp_all
  have "ends (\<lambda>s'. stage_ok W s' \<and> rules_size s' = rules_size s) (bind_res (read_include c s1) (load_includes cs))"
  proof (rule outcome_bind[OF read_include_ok[OF st(1)]], elim conjE)
    fix s2
    assume s2: "stage_ok W s2" "collects s1 s2 (pairs_of c)"
    show "ends (\<lambda>s'. stage_ok W s' \<and> rules_size s' = rules_size s) (load_includes cs s2)"
      using Cons.IH[OF s2(1)] collectsD(6)[OF s2(2)] st(2) by simp
  qed
  then show ?case unfolding load_includes_Cons by (simp add: f s1)
qed simp

section \<open>Goals\<close>

lemma ruleremain_add_same:
  "rules_size (ruleremain_add r s) = rules_size s" "st_ruleid (ruleremain_add r s) = st_ruleid s"
  "later_deps (ruleremain_add r s) = later_deps s" "back_deps (ruleremain_add r s) x = back_deps s x"
  "deps (rules (ruleremain_add r s) x) = deps (rules s x)" "tgts (rules (ruleremain_add r s) x) = tgts (rules s x)"
  "deplist (rules (ruleremain_add r s) x) = deplist (rules s x)"
  "setup_rule (rules (ruleremain_add r s) x) = setup_rule (rules s x)"
  "is_executed (rules (ruleremain_add r s) x) = is_executed (rules s x)"
  "x \<noteq> r \<Longrightarrow> rules (ruleremain_add r s) x = rules s x"
  by (simp_all add: ruleremain_add_def upd_rule_def later_deps_def back_deps_def setup_rule_def raw_rule_def)

lemma ruleremain_add_list:
  "remain_ok s \<Longrightarrow> \<not> is_executed (rules s r) \<Longrightarrow> remain_ok (ruleremain_add r s)"
  by (auto simp: ruleremain_add_def remain_ok_def)

lemma ruleremain_add_set: "set (rules_remain_list (ruleremain_add r s)) \<subseteq> insert r (set (rules_remain_list s))"
  by (auto simp: ruleremain_add_def)

lemma gb_ok_goal:
  assumes ok: "gb_ok D s" and r: "r < rules_size s"
  shows "gb_ok D (ruleremain_add r s)"
proof -
  have g: "get_ruleid_by_tgt (ruleremain_add r s) = get_ruleid_by_tgt s"
    by (intro ext) (simp add: get_ruleid_by_tgt_def ruleremain_add_same)
  have "\<not> is_executed (rules s r)" using gb_okD(1)[OF ok, of r] by (simp add: setup_rule_def raw_rule_def)
  then have "remain_ok (ruleremain_add r s)" by (rule ruleremain_add_list[OF gb_okD(5)[OF ok]])
  moreover have "x < rules_size s" if "x \<in> set (rules_remain_list (ruleremain_add r s))" for x
    using that ruleremain_add_set[of r s] gb_okD(6)[OF ok, of x] r by auto
  moreover have "rules (ruleremain_add r s) x = zero_rule" if "x \<ge> rules_size s" for x
    using that r gb_okD(4)[OF ok that] ruleremain_add_same(10)[of x r s] by simp
  ultimately show ?thesis
    using gb_okD(1-3)[OF ok] by (simp add: gb_ok_def tgts_ok_def edges_ok_def ruleremain_add_same g)
qed

lemma stage_goal:
  assumes st: "stage_ok W s" and r: "r < rules_size s"
  shows "stage_ok W (ruleremain_add r s)"
proof -
  have n: "names (ruleremain_add r s) = names s" "add_blocks (ruleremain_add r s) = add_blocks s"
    by (simp_all add: ruleremain_add_def upd_rule_def)
  have "names_ok (ruleremain_add r s)"
    using st by (simp add: stage_ok_def names_ok_def n ruleremain_add_same del: set_concat)
  moreover have "added_closed (ruleremain_add r s)"
    using st by (simp add: stage_ok_def added_closed_def added_def n del: set_concat)
  ultimately show ?thesis
    using st gb_ok_goal[of False s r] r by (simp add: stage_ok_def no_wait_def ruleremain_add_same)
qed

lemma stage_goal_rule:
  assumes st: "stage_ok W s"
  shows "ends (\<lambda>(r, s'). stage_ok W s' \<and> rules_size s' = rules_size s \<and> r < rules_size s') (goal_rule md fwd arg s)"
proof -
  have "\<exists>n. goal_name md fwd arg = Inr n" by (simp add: goal_name_def canon_spec)
  then obtain n where n: "goal_name md fwd arg = Inr n" by blast
  obtain i s1 where s1: "stringtab_add n s = (i, s1)" by force
  note st1 = stage_string[OF st s1]
  show ?thesis
  proof (cases "get_ruleid_by_tgt s1 i")
    case None
    then show ?thesis using n s1 by (simp add: goal_rule_def)
  next
    case (Some r)
    have t: "tgts_ok s1" using st1 by (simp add: stage_ok_def gb_ok_def)
    then have "r < rules_size s1" using Some get_ruleid_Some[OF t] tgts_okD(3)[OF t, of i] by simp
    then show ?thesis using Some n s1 st1 by (simp add: goal_rule_def)
  qed
qed

lemma stage_check_goals: "stage_ok W s \<Longrightarrow> ends (stage_ok W) (check_goals md fwd args s)"
proof (induction args arbitrary: s)
  case (Cons a args)
  show ?case
    unfolding check_goals.simps
    by (rule outcome_bind[OF stage_goal_rule[OF Cons.prems]]) (auto intro: Cons.IH)
qed simp

lemma stage_add_goals: "stage_ok W s \<Longrightarrow> ends (stage_ok W) (add_goals md fwd args s)"
proof (induction args arbitrary: s)
  case (Cons a args)
  show ?case
    unfolding add_goals.simps
    by (rule outcome_bind[OF stage_goal_rule[OF Cons.prems]]) (auto intro: Cons.IH stage_goal)
qed simp

lemma stage_select_goals:
  assumes "stage_ok W s" "\<forall>r. first = Some r \<longrightarrow> r < rules_size s"
  shows "ends (stage_ok W) (select_goals md fwd args first s)"
proof (cases "args = []")
  case True
  then show ?thesis using assms by (auto simp: select_goals_def stage_goal split: option.split)
next
  case False
  have "ends (stage_ok W) (bind_res (check_goals md fwd args s) (add_goals md fwd args))"
    by (rule outcome_bind[OF stage_check_goals[OF assms(1)]]) (rule stage_add_goals)
  then show ?thesis using False by (simp add: select_goals_def)
qed

definition graph_done :: "bool \<Rightarrow> gbase \<Rightarrow> bool" where
  "graph_done W g = (gb_ok True g \<and> (W \<longrightarrow> no_wait g))"

lemma stage_process:
  assumes st: "stage_ok W s"
  shows "ends (graph_done W) (process_additional_deps_2 scope s)"
proof -
  obtain s' where s': "process_additional_deps_2 scope s = Inr s'" "gb_ok True s'"
    using process_additional_ok[of s scope] st unfolding stage_ok_def by blast
  have "W \<longrightarrow> no_wait s'"
  proof
    assume W
    then have "no_wait s" using st by (simp add: stage_ok_def)
    moreover obtain s1 where "ensure_targets scope (concat (add_blocks s)) s = Inr s1"
        "add_entries scope (concat (add_blocks s1)) None None s1 = Inr s'"
      using s'(1) by (auto simp: process_additional_deps_2_def stir_simps)
    ultimately show "no_wait s'" using no_wait_ensure no_wait_entries by blast
  qed
  then show ?thesis using s' by (simp add: graph_done_def)
qed

definition waits_nowhere :: "parsed \<Rightarrow> bool" where
  "waits_nowhere p = (\<forall>y \<in> set (p_rules p). no_d_wait y)"

lemma load_graph_ok:
  assumes st: "stage_ok W s" and W: "W \<Longrightarrow> waits_nowhere p"
  shows "ends (graph_done W) (load_graph p s)"
  unfolding load_graph_def
proof (rule outcome_bind[OF stage_load_rules[OF st]], goal_cases)
  case 1
  then show ?case using W by (simp add: waits_nowhere_def)
next
  case 2
  show ?case by simp
next
  case (3 x)
  obtain first s1 where x: "x = (first, s1)" by force
  have s1: "stage_ok W s1" "\<forall>r. first = Some r \<longrightarrow> r < rules_size s1" using 3 by (simp_all add: x)
  obtain s2 where s2: "load_deps (p_rules p) s1 = Inr s2" "stage_ok W s2" "rules_size s2 = rules_size s1"
    using stage_load_deps[OF s1(1)] by blast
  have "ends (graph_done W) (bind_res (load_includes (p_includes p) s2) (\<lambda>s3.
      bind_res (select_goals (p_mode p) (p_fwd_path p) (p_args p) first s3)
      (\<lambda>s. process_additional_deps_2 (p_scope p) s)))"
  proof (rule outcome_bind[OF stage_load_includes[OF s2(2)]], elim conjE)
    fix s3
    assume s3: "stage_ok W s3" "rules_size s3 = rules_size s2"
    have f3: "\<forall>r. first = Some r \<longrightarrow> r < rules_size s3" using s1(2) s2(3) s3(2) by simp
    show "ends (graph_done W) (bind_res (select_goals (p_mode p) (p_fwd_path p) (p_args p) first s3)
      (\<lambda>s. process_additional_deps_2 (p_scope p) s))"
      by (rule outcome_bind[OF stage_select_goals[OF s3(1) f3]]) (rule stage_process)
  qed
  then show ?case using s2(1) by (simp add: x)
qed

end
