(* ===== verification/Start_Ready.thy ===== *)
theory Start_Ready
  imports Start_Ok
begin

text \<open>
  The rule base between the count of the remaining dependencies and the start of the loop, the
  \<open>@order\<close> declarations included, and the composition of the start with the loop: what \<open>main\<close> hands
  to \<open>run_loop\<close> satisfies everything the theorems on the loop assume.
\<close>

section \<open>The invariant after the count\<close>

definition tab_rule :: "(nat \<Rightarrow> int) \<Rightarrow> nat \<Rightarrow> nat option" where
  "tab_rule tab n = (if tab n < 0 then None else Some (nat (tab n)))"

definition ready_rule :: "(nat \<Rightarrow> int) \<Rightarrow> rule \<Rightarrow> bool" where
  "ready_rule tab a = (\<not> is_executed a \<and> \<not> is_queued a \<and> \<not> is_executing a \<and> \<not> is_under_consideration a \<and>
     cmdidx a = 0 \<and> wait_remain_cnt a = 0 \<and> counted a \<and> dom (deps_remain a) = dep_rules tab (deplist a) \<and>
     deps a = nameidx ` set (deplist a) \<and>
     (\<forall>e \<in> set (deplist a). stirdep_ruleid tab e = tab_rule tab (nameidx e) \<and>
        (\<exists>e' \<in> set (deplist a). \<not> is_dupe e' \<and> nameidx e' = nameidx e)))"

definition main_ok :: "'w sched \<Rightarrow> bool" where
  "main_ok s = ((\<forall>r. ready_rule (st_ruleid s) (rules s r)) \<and> tgts_ok s \<and> edges_ok True s \<and>
     (\<forall>r \<ge> rules_size s. deplist (rules s r) = []) \<and> remain_ok s \<and>
     (\<forall>r \<in> set (rules_remain_list s). r < rules_size s) \<and> ruleids_to_run s = [])"

lemma get_tab_rule: "get_ruleid_by_tgt s n = tab_rule (st_ruleid s) n"
  by (simp add: get_ruleid_by_tgt_def tab_rule_def)

lemma ready_dep_rules:
  assumes "ready_rule tab a"
  shows "dep_rules tab (deplist a) = {d. \<exists>n \<in> deps a. tab_rule tab n = Some d}"
    "{d. \<exists>e \<in> set (deplist a). \<not> is_dupe e \<and> stirdep_ruleid tab e = Some d} = dep_rules tab (deplist a)"
proof -
  have r: "deps a = nameidx ` set (deplist a)"
    "\<And>e. e \<in> set (deplist a) \<Longrightarrow> stirdep_ruleid tab e = tab_rule tab (nameidx e)"
    "\<And>e. e \<in> set (deplist a) \<Longrightarrow> \<exists>e' \<in> set (deplist a). \<not> is_dupe e' \<and> nameidx e' = nameidx e"
    using assms unfolding ready_rule_def by blast+
  show "dep_rules tab (deplist a) = {d. \<exists>n \<in> deps a. tab_rule tab n = Some d}"
    using r(1,2) by (auto simp: dep_rules_def)
  show "{d. \<exists>e \<in> set (deplist a). \<not> is_dupe e \<and> stirdep_ruleid tab e = Some d} = dep_rules tab (deplist a)"
    unfolding dep_rules_def using r(2,3) by (metis (lifting))
qed

lemma main_okD:
  assumes "main_ok s"
  shows "ready_rule (st_ruleid s) (rules s r)" "tgts_ok s" "edges_ok True s"
    "r \<ge> rules_size s \<Longrightarrow> deplist (rules s r) = []" "remain_ok s"
    "r \<in> set (rules_remain_list s) \<Longrightarrow> r < rules_size s" "ruleids_to_run s = []"
  using assms unfolding main_ok_def by blast+

lemma main_dep_ids:
  assumes "main_ok s"
  shows "dep_ids s r = {d. \<exists>n \<in> deps (rules s r). get_ruleid_by_tgt s n = Some d}"
    "dep_ids s r = dom (deps_remain (rules s r))"
  using ready_dep_rules[OF main_okD(1)[OF assms, of r]] main_okD(1)[OF assms, of r]
  unfolding dep_ids_def get_tab_rule by (simp_all add: ready_rule_def)

lemma counted_rule_ok:
  assumes "ready_rule tab a"
  shows "rule_ok a"
proof -
  have c: "counted a" using assms by (simp add: ready_rule_def)
  have "the (deps_remain a d) = 0" if "d \<in> dom (deps_remain a)" for d
  proof -
    have "deps_remain a d \<in> {None, Some 0}" using c by (simp only: counted_def)
    then show ?thesis using that by auto
  qed
  then have "wait_sum (deps_remain a) = 0" by (simp add: wait_sum_def)
  then show ?thesis using assms c by (simp add: rule_ok_def ready_rule_def counted_def)
qed

lemma deplist_nonempty: "ready_rule tab a \<Longrightarrow> n \<in> deps a \<Longrightarrow> has_dep a \<and> deplist a \<noteq> []"
  unfolding ready_rule_def has_dep_def by fastforce

lemma main_start_ok:
  assumes ok: "main_ok s"
  shows "start_ok s" "live {} s"
proof -
  note M = main_okD[OF ok]
  have flags: "\<not> is_executed (rules s r)" "\<not> is_queued (rules s r)" "\<not> is_executing (rules s r)"
    "\<not> is_under_consideration (rules s r)" "cmdidx (rules s r) = 0" for r
    using M(1)[of r] by (simp_all add: ready_rule_def)
  have g: "graph_ok s"
    unfolding graph_ok_def
  proof (intro allI impI conjI ballI)
    fix r d
    assume "d \<in> dep_ids s r"
    then obtain n where "get_ruleid_by_tgt s n = Some d" by (auto simp: main_dep_ids(1)[OF ok])
    then show "d < rules_size s" using get_ruleid_Some[OF M(2)] tgts_okD(3)[OF M(2), of n] by simp
  next
    fix r b
    assume "b \<in> set (back_deps s r)"
    then obtain n where n: "n \<in> deps (rules s b)" using edges_okD(1)[OF M(3)] by blast
    then show "has_dep (rules s b)" "b < rules_size s"
      using deplist_nonempty[OF M(1) n] M(4)[of b] by (auto simp: not_le[symmetric])
  qed
  have "deps_ok s"
    using main_dep_ids(2)[OF ok] flags by (auto simp: deps_ok_def)
  moreover have "queue_ok {} s" using flags M(7) by (simp add: queue_ok_def)
  ultimately have "sched_inv {} s" using counted_rule_ok[OF M(1)] M(5) flags by (simp add: sched_inv_def)
  then show "start_ok s" using g flags M(4,6) by (simp add: start_ok_def remain_in_def)
  show "live {} s"
    by (rule liveI) (use flags main_dep_ids(2)[OF ok] in auto)
qed

section \<open>Steps that keep it\<close>

lemma main_prepare:
  assumes ok: "gb_ok True g"
  shows "main_ok (to_sched w (prepare_rules g))" "no_wait g \<Longrightarrow> no_wait (to_sched w (prepare_rules g))"
proof -
  let ?s = "to_sched w (prepare_rules g)"
  have raw: "raw_rule (rules g r)" for r using gb_okD(1)[OF ok, of r] by (simp add: setup_rule_def)
  have beyond: "rules ?s r = calc_deps_remain (st_ruleid g) (rules g r)" for r
  proof (cases "r < rules_size g")
    case False
    then have z: "rules g r = zero_rule" using gb_okD(4)[OF ok, of r] by simp
    have "calc_deps_remain (st_ruleid g) zero_rule = zero_rule" by (simp add: calc_deps_remain_def zero_rule_def)
    then show ?thesis using False z by (simp add: to_sched_def prepare_rules_def)
  qed (simp add: to_sched_def prepare_rules_def)
  have loop: "deps (calc_deps_remain_loop t es a) = deps a" "tgts (calc_deps_remain_loop t es a) = tgts a" for t es a
    by (induction es arbitrary: a) (auto simp: deps_remain_insert_def split: option.split)
  have same: "deps (rules ?s r) = deps (rules g r)" "tgts (rules ?s r) = tgts (rules g r)"
    "remain (rules ?s r) = remain (rules g r)" "firstdepblock (rules ?s r) = firstdepblock (rules g r)"
    "is_executed (rules ?s r) = is_executed (rules g r)"
    "deplist (rules ?s r) = map (stirdep_cache (st_ruleid g)) (deplist (rules g r))" for r
    by (simp_all add: beyond calc_deps_remain_def calc_loop_same loop)
  have tab: "st_ruleid ?s = st_ruleid g" "rules_size ?s = rules_size g" "rules_remain_list ?s = rules_remain_list g"
    "ruleids_to_run ?s = []" "later_deps ?s = later_deps g" "\<And>d. back_deps ?s d = back_deps g d"
    using same(4) by (simp_all add: to_sched_def prepare_rules_def later_deps_def back_deps_def)
  have get: "get_ruleid_by_tgt ?s = get_ruleid_by_tgt g"
    by (intro ext) (simp add: get_ruleid_by_tgt_def tab)
  have ready: "ready_rule (st_ruleid ?s) (rules ?s r)" for r
  proof -
    let ?a = "rules g r" and ?t = "st_ruleid g"
    have a: "deps ?a = nameidx ` set (deplist ?a)" "\<And>e. e \<in> set (deplist ?a) \<Longrightarrow> dep_ruleid e = -1"
      "\<And>e. e \<in> set (deplist ?a) \<Longrightarrow> \<exists>e' \<in> set (deplist ?a). \<not> is_dupe e' \<and> nameidx e' = nameidx e"
      using gb_okD(1)[OF ok, of r] unfolding setup_rule_def by blast+
    have d: "dom (deps_remain (rules ?s r)) = dep_rules ?t (deplist (rules ?s r))"
      using calc_deps_remain_ok(2)[OF raw, of ?t r] by (simp add: beyond calc_deps_remain_def dep_rules_def)
    have c: "counted (rules ?s r)"
    proof -
      have "counted ?a" using raw[of r] by (simp add: raw_rule_def counted_def)
      then have "counted (calc_deps_remain_loop ?t (deplist ?a) ?a)" using calc_loop_spec by blast
      then show ?thesis by (simp add: beyond calc_deps_remain_def counted_def)
    qed
    have e: "stirdep_ruleid ?t (stirdep_cache ?t e) = tab_rule ?t (nameidx e)" if "e \<in> set (deplist ?a)" for e
      unfolding stirdep_cache_ruleid using a(2)[OF that] by (simp add: stirdep_ruleid_def tab_rule_def)
    show ?thesis
      unfolding ready_rule_def
    proof (intro conjI ballI)
      show "dom (deps_remain (rules ?s r)) = dep_rules (st_ruleid ?s) (deplist (rules ?s r))" using d tab(1) by simp
      show "deps (rules ?s r) = nameidx ` set (deplist (rules ?s r))" using a(1) by (simp add: same image_image)
      fix x
      assume "x \<in> set (deplist (rules ?s r))"
      then obtain y where y: "y \<in> set (deplist ?a)" "x = stirdep_cache ?t y" by (auto simp: same)
      then show "stirdep_ruleid (st_ruleid ?s) x = tab_rule (st_ruleid ?s) (nameidx x)" using e tab(1) by simp
      show "\<exists>e' \<in> set (deplist (rules ?s r)). \<not> is_dupe e' \<and> nameidx e' = nameidx x"
        using a(3)[OF y(1)] y(2) by (auto simp: same)
    qed (use raw[of r] c in \<open>simp_all add: beyond calc_deps_remain_def calc_loop_same raw_rule_def\<close>)
  qed
  have "tgts_ok ?s" using gb_okD(2)[OF ok] by (simp add: tgts_ok_def same tab)
  moreover have "edges_ok True ?s" using gb_okD(3)[OF ok] unfolding edges_ok_def same tab get .
  moreover have "deplist (rules ?s r) = []" if "r \<ge> rules_size g" for r using gb_okD(4)[OF ok that] by (simp add: same)
  moreover have "remain_ok ?s" using gb_okD(5)[OF ok] by (simp add: remain_ok_def same tab)
  ultimately show "main_ok ?s" using ready gb_okD(6)[OF ok] by (simp add: main_ok_def tab)
  show "no_wait g \<Longrightarrow> no_wait ?s" by (simp add: no_wait_def same)
qed

lemma ready_traversed: "ready_rule tab (a\<lparr> is_traversed := b \<rparr>) = ready_rule tab a"
  by (simp add: ready_rule_def counted_def)

lemma main_marked:
  assumes ok: "main_ok s" and m: "marked mark N s s'"
  shows "main_ok s'" "rules_remain_list s' = rules_remain_list s" "no_wait s' = no_wait s"
proof -
  let ?f = "\<lambda>x. (rules s x)\<lparr> is_traversed := is_traversed (rules s x) \<or> (mark \<and> x \<in> N) \<rparr>"
  have s': "s' = s\<lparr> rules := ?f \<rparr>" using m by (simp add: marked_def)
  show "rules_remain_list s' = rules_remain_list s" "no_wait s' = no_wait s" by (simp_all add: s' no_wait_def)
  show "main_ok s'"
    using ok unfolding s' main_ok_def tgts_ok_def edges_ok_def remain_ok_def back_deps_def later_deps_def get_tab_rule
    by (simp add: ready_traversed)
qed

lemma detect_goals_ok:
  "main_ok s \<Longrightarrow> \<forall>r \<in> set rs. r < rules_size s \<Longrightarrow>
   ends (\<lambda>s'. main_ok s' \<and> rules_remain_list s' = rules_remain_list s \<and> no_wait s' = no_wait s \<and>
     (\<forall>r \<in> set rs. \<not> reaches_cycle s' r) \<and> (\<forall>r. reaches_cycle s' r = reaches_cycle s r)) (detect_goals mark rs s)"
proof (induction rs arbitrary: s)
  case (Cons r rs)
  have st: "start_ok s" by (rule main_start_ok[OF Cons.prems(1)])
  have r: "r < rules_size s" using Cons.prems(2) by simp
  have bey: "\<forall>r \<ge> rules_size s. deplist (rules s r) = []" using start_okD(4)[OF st] by blast
  note c = cycle_detect_ok[OF start_okD(2)[OF st] bey r, of mark]
  show ?case
  proof (cases "better_cycle_detect r mark s")
    case (Inl f)
    then show ?thesis using c by simp
  next
    case (Inr x)
    obtain N s1 where x: "x = (N, s1)" by force
    have nc: "\<not> reaches_cycle s r" and m: "marked mark N s s1" using c unfolding Inr x by auto
    note k = main_marked[OF Cons.prems(1) m] and rc = marked_same(4)[OF m] and sz = marked_same(2)[OF m]
    have "\<forall>r \<in> set rs. r < rules_size s1" using Cons.prems(2) sz by simp
    from Cons.IH[OF k(1) this] show ?thesis
      using Inr x nc k(2,3) rc by (cases "detect_goals mark rs s1") auto
  qed
qed simp

lemma ready_blocks: "ready_rule tab (a\<lparr> firstdepblock := f, lastdepblock := g \<rparr>) = ready_rule tab a"
  by (simp add: ready_rule_def counted_def)

lemma ready_order:
  assumes r: "ready_rule tab a" and d: "tab_rule tab di = Some d"
  shows "ready_rule tab (deps_remain_insert d (a\<lparr> deps := insert di (deps a),
     deplist := deplist a @ [edge_entry di None False False False False False (di \<in> deps a)] \<rparr>))"
proof -
  let ?e = "edge_entry di None False False False False False (di \<in> deps a)"
  let ?b = "a\<lparr> deps := insert di (deps a), deplist := deplist a @ [?e] \<rparr>"
  have "counted ?b = counted a" by (simp add: counted_def)
  then have c: "counted ?b" using r by (simp add: ready_rule_def)
  note ci = counted_insert[OF c, of d]
  have se: "stirdep_ruleid tab ?e = Some d" using d by (simp add: edge_entry_def stirdep_ruleid_def tab_rule_def split: if_splits)
  have fields: "deplist (deps_remain_insert d ?b) = deplist a @ [?e]" "deps (deps_remain_insert d ?b) = insert di (deps a)"
    "is_executed (deps_remain_insert d ?b) = is_executed a" "is_queued (deps_remain_insert d ?b) = is_queued a"
    "is_executing (deps_remain_insert d ?b) = is_executing a" "cmdidx (deps_remain_insert d ?b) = cmdidx a"
    "is_under_consideration (deps_remain_insert d ?b) = is_under_consideration a"
    "wait_remain_cnt (deps_remain_insert d ?b) = wait_remain_cnt a"
    by (simp_all add: deps_remain_insert_def)
  have "dom (deps_remain (deps_remain_insert d ?b)) = dep_rules tab (deplist a @ [?e])"
    using ci(2) r se by (auto simp: ready_rule_def dep_rules_def)
  moreover have "stirdep_ruleid tab x = tab_rule tab (nameidx x) \<and>
      (\<exists>e' \<in> set (deplist a @ [?e]). \<not> is_dupe e' \<and> nameidx e' = nameidx x)" if "x \<in> set (deplist a @ [?e])" for x
  proof (cases "x \<in> set (deplist a)")
    case True
    then show ?thesis using r unfolding ready_rule_def by (auto simp: edge_entry_def)
  next
    case False
    then have x: "x = ?e" using that by simp
    have "\<exists>e' \<in> set (deplist a @ [?e]). \<not> is_dupe e' \<and> nameidx e' = di"
    proof (cases "di \<in> deps a")
      case True
      then show ?thesis using r unfolding ready_rule_def by (auto simp: edge_entry_def)
    qed (simp add: edge_entry_def)
    then show ?thesis using x se d by (simp add: edge_entry_def)
  qed
  ultimately show ?thesis
    using r ci(1) unfolding ready_rule_def fields by (auto simp: edge_entry_def)
qed

text \<open>One order is an edge and one more remaining dependency.\<close>

lemma order_edge:
  assumes "get_ruleid_by_tgt s first = Some d"
  shows "(let (new, a) = ins_dep first None False False False False False (rules s r);
          s' = upd_rule r (\<lambda>_. deps_remain_insert d a) s
      in if new then snd (ins_ruleid_by_dep2 first r True s') else s') =
    upd_rule r (deps_remain_insert d) (add_edge r first None False False False False False True s)"
proof -
  have blocks: "firstdepblock (deps_remain_insert d a) = firstdepblock a"
    "lastdepblock (deps_remain_insert d a) = lastdepblock a"
    "deps_remain_insert d (a\<lparr> firstdepblock := f, lastdepblock := g \<rparr>) =
       (deps_remain_insert d a)\<lparr> firstdepblock := f, lastdepblock := g \<rparr>" for d a f g
    by (simp_all add: deps_remain_insert_def)
  have i2: "snd (ins_ruleid_by_dep2 first r True t) = upd_rule d (\<lambda>x. x\<lparr>
      firstdepblock := fst (block_ins RULEID_BY_DEP_ENTRY_BLOCK_SIZE 0 r (firstdepblock (rules t d), lastdepblock (rules t d))),
      lastdepblock := snd (block_ins RULEID_BY_DEP_ENTRY_BLOCK_SIZE 0 r (firstdepblock (rules t d), lastdepblock (rules t d))) \<rparr>) t"
    if "get_ruleid_by_tgt t first = Some d" for t
    using that by (simp add: ins_ruleid_by_dep2_def Let_def split_def)
  obtain new a where n: "ins_dep first None False False False False False (rules s r) = (new, a)" by force
  have g: "get_ruleid_by_tgt (upd_rule r f s) first = Some d" for f using assms by simp
  have e: "upd_rule r (deps_remain_insert d) (upd_rule r (\<lambda>_. a) s) = upd_rule r (\<lambda>_. deps_remain_insert d a) s"
    by (simp add: upd_rule_def)
  have i: "snd (ins_ruleid_by_dep2 first r True (upd_rule r (\<lambda>_. deps_remain_insert d a) s)) =
      upd_rule r (deps_remain_insert d) (snd (ins_ruleid_by_dep2 first r True (upd_rule r (\<lambda>_. a) s)))"
    unfolding i2[OF g] by (cases "d = r") (simp_all add: upd_rule_def blocks fun_upd_twist)
  show ?thesis by (simp add: n add_edge_def Let_def e i)
qed

lemma main_edge:
  assumes ok: "main_ok s" and d: "get_ruleid_by_tgt s first = Some d" and r: "r < rules_size s"
  shows "main_ok (upd_rule r (deps_remain_insert d) (add_edge r first None False False False False False True s))"
proof -
  let ?e = "add_edge r first None False False False False False True s"
  let ?s = "upd_rule r (deps_remain_insert d) ?e"
  note M = main_okD[OF ok]
  have t: "tab_rule (st_ruleid s) first = Some d" using d by (simp add: get_tab_rule)
  have same: "deps (rules ?s x) = deps (rules ?e x)" "tgts (rules ?s x) = tgts (rules ?e x)"
    "remain (rules ?s x) = remain (rules ?e x)" "is_executed (rules ?s x) = is_executed (rules ?e x)"
    "back_deps ?s x = back_deps ?e x" for x
    by (simp_all add: deps_remain_insert_def back_deps_def)
  have "ready_rule (st_ruleid ?s) (rules ?s x)" for x
  proof (cases "x = r")
    case True
    obtain f g where "rules ?e r = ((rules s r)\<lparr> deps := insert first (deps (rules s r)),
        deplist := deplist (rules s r) @ [edge_entry first None False False False False False (first \<in> deps (rules s r))] \<rparr>)
        \<lparr> firstdepblock := f, lastdepblock := g \<rparr>"
      using add_edge_rules(1)[of r r s first None False False False False False True]
      by (auto simp: blocks_only_def)
    then have "rules ?s r = (deps_remain_insert d ((rules s r)\<lparr> deps := insert first (deps (rules s r)),
        deplist := deplist (rules s r) @ [edge_entry first None False False False False False (first \<in> deps (rules s r))] \<rparr>))
        \<lparr> firstdepblock := f, lastdepblock := g \<rparr>"
      by (simp add: deps_remain_insert_def)
    then show ?thesis using True ready_order[OF M(1) t, of r] by (simp add: ready_blocks)
  next
    case False
    obtain f g where "rules ?e x = (rules s x)\<lparr> firstdepblock := f, lastdepblock := g \<rparr>"
      using add_edge_rules(1)[of x r s first None False False False False False True] False
      by (auto simp: blocks_only_def)
    then show ?thesis using False M(1)[of x] by (simp add: ready_blocks)
  qed
  moreover have "edges_ok True ?e" by (rule add_edge_edges[OF M(3)]) simp
  then have "edges_ok True ?s" unfolding edges_ok_def same upd_rule_get upd_rule_later .
  moreover have "tgts_ok ?s"
    using M(2) unfolding tgts_ok_def same add_edge_fields upd_rule_simps(2,3) add_edge_simps(1,2) .
  moreover have "deplist (rules ?s x) = []" if x: "x \<ge> rules_size s" for x
  proof -
    have "get_ruleid_by_tgt s first \<noteq> Some x"
      using x get_ruleid_Some[OF M(2)] tgts_okD(3)[OF M(2), of first] by auto
    then show ?thesis using x r M(4)[OF x] by (simp add: add_edge_rules(2))
  qed
  moreover have "remain_ok ?s"
    using M(5) unfolding remain_ok_def same add_edge_fields upd_rule_simps(4) add_edge_simps(3) .
  moreover have "ruleids_to_run ?s = []"
    using M(7) by (simp add: add_edge_def ins_dep_def ins_ruleid_by_dep2_def Let_def split_def split: option.split)
  ultimately show ?thesis using M(6) by (simp add: main_ok_def)
qed

lemma process_order_ok:
  assumes ok: "main_ok s"
  shows "ends (\<lambda>s'. main_ok s' \<and> rules_size s' = rules_size s \<and> rules_remain_list s' = rules_remain_list s \<and>
    (no_wait s \<longrightarrow> no_wait s')) (process_order tab ord s)"
proof -
  have e: "(\<exists>f. process_order tab ord s = Inl f \<and> f \<noteq> NoFuel) \<or> process_order tab ord s = Inr s \<or>
    (\<exists>first second d r. get_ruleid_by_tgt s first = Some d \<and> get_ruleid_by_tgt s second = Some r \<and>
      process_order tab ord s = Inr (let (new, a) = ins_dep first None False False False False False (rules s r);
          s' = upd_rule r (\<lambda>_. deps_remain_insert d a) s
        in if new then snd (ins_ruleid_by_dep2 first r True s') else s'))"
  proof (cases "\<exists>a b. ord = [a, b]")
    case False
    then have "process_order tab ord s = Inl Aborted" by (auto simp: process_order_def split: list.split)
    then show ?thesis by simp
  next
    case True
    then obtain a b where o: "ord = [a, b]" by blast
    show ?thesis
    proof (cases "\<exists>first second d r. st_index a tab = Some first \<and> st_index b tab = Some second \<and>
        get_ruleid_by_tgt s first = Some d \<and> get_ruleid_by_tgt s second = Some r")
      case True
      then obtain first second d r where t: "st_index a tab = Some first" "st_index b tab = Some second"
        "get_ruleid_by_tgt s first = Some d" "get_ruleid_by_tgt s second = Some r" by blast
      show ?thesis
      proof (cases "\<not> is_traversed (rules s d) \<or> \<not> is_traversed (rules s r)")
        case True
        then show ?thesis using t by (simp add: process_order_def o)
      next
        case False
        then have "process_order tab ord s = Inr (let (new, a) = ins_dep first None False False False False False (rules s r);
            s' = upd_rule r (\<lambda>_. deps_remain_insert d a) s
          in if new then snd (ins_ruleid_by_dep2 first r True s') else s')"
          using t by (simp add: process_order_def o split_def Let_def)
        then show ?thesis using t(3,4) by blast
      qed
    next
      case False
      then have "process_order tab ord s = Inl (Exited ''@order rule not found'')"
        by (auto simp: process_order_def o split: option.split)
      then show ?thesis by simp
    qed
  qed
  then consider "\<exists>f. process_order tab ord s = Inl f \<and> f \<noteq> NoFuel" | "process_order tab ord s = Inr s"
    | first second d r where "get_ruleid_by_tgt s first = Some d" "get_ruleid_by_tgt s second = Some r"
      "process_order tab ord s = Inr (let (new, a) = ins_dep first None False False False False False (rules s r);
          s' = upd_rule r (\<lambda>_. deps_remain_insert d a) s
        in if new then snd (ins_ruleid_by_dep2 first r True s') else s')"
    by blast
  then show ?thesis
  proof cases
    case 3
    have r: "r < rules_size s"
      using 3(2) get_ruleid_Some[OF main_okD(2)[OF ok]] tgts_okD(3)[OF main_okD(2)[OF ok], of second] by simp
    have "no_wait s \<Longrightarrow> no_wait (upd_rule r (deps_remain_insert d) (add_edge r first None False False False False False True s))"
      by (intro no_wait_upd no_wait_edge) (simp_all add: deps_remain_insert_def)
    then show ?thesis using 3(3) main_edge[OF ok 3(1) r] unfolding order_edge[OF 3(1)] by simp
  qed (use ok in auto)
qed

lemma process_orders_ok:
  "main_ok s \<Longrightarrow>
   ends (\<lambda>s'. main_ok s' \<and> rules_size s' = rules_size s \<and> rules_remain_list s' = rules_remain_list s \<and>
    (no_wait s \<longrightarrow> no_wait s')) (process_orders tab os s)"
proof (induction os arbitrary: s)
  case (Cons o' os)
  show ?case
    unfolding process_orders.simps
  proof (rule outcome_bind[OF process_order_ok[OF Cons.prems]], elim conjE)
    fix s1 :: "'a sched"
    assume m1: "main_ok s1" and s1: "rules_size s1 = rules_size s" "rules_remain_list s1 = rules_remain_list s"
      "no_wait s \<longrightarrow> no_wait s1"
    from Cons.IH[OF m1]
    show "ends (\<lambda>s'. main_ok s' \<and> rules_size s' = rules_size s \<and> rules_remain_list s' = rules_remain_list s \<and>
        (no_wait s \<longrightarrow> no_wait s')) (process_orders tab os s1)"
      by (rule outcome_mono) (use s1 in auto)
  qed
qed simp

end
