(* ===== verification/Start_Run.thy ===== *)
theory Start_Run
  imports Start_Ready
begin

text \<open>
  The last step before the loop, the back edges that had to wait (\<open>ins_ruleid_by_dep_later\<close>), and
  the whole program from the parsed Stirfile to the end of the loop.
\<close>

section \<open>The back edges that had to wait\<close>

lemma ready_blocks_only: "blocks_only a b \<Longrightarrow> ready_rule tab b = ready_rule tab a"
  by (auto simp: blocks_only_def ready_blocks)

lemma ins2_fields [simp]:
  "deps (rules (snd (ins_ruleid_by_dep2 di r en s)) x) = deps (rules s x)"
  "deplist (rules (snd (ins_ruleid_by_dep2 di r en s)) x) = deplist (rules s x)"
  "tgts (rules (snd (ins_ruleid_by_dep2 di r en s)) x) = tgts (rules s x)"
  "remain (rules (snd (ins_ruleid_by_dep2 di r en s)) x) = remain (rules s x)"
  "is_executed (rules (snd (ins_ruleid_by_dep2 di r en s)) x) = is_executed (rules s x)"
  using blocks_onlyD(1,2,3,4,6)[OF ins2_rules(1)[of s x di r en]] by simp_all

lemma ins2_get [simp]: "get_ruleid_by_tgt (snd (ins_ruleid_by_dep2 di r en s)) = get_ruleid_by_tgt s"
  by (intro ext) (simp add: get_ruleid_by_tgt_def)

lemma main_ins2:
  assumes ok: "main_ok s" and d: "di \<in> deps (rules s r)"
  shows "main_ok (snd (ins_ruleid_by_dep2 di r True s))"
proof -
  let ?s = "snd (ins_ruleid_by_dep2 di r True s)"
  note M = main_okD[OF ok]
  have "ready_rule (st_ruleid ?s) (rules ?s x)" for x
    using ready_blocks_only[OF ins2_rules(1)[of s x di r True]] M(1)[of x] by simp
  moreover have "tgts_ok ?s" using M(2) by (simp add: tgts_ok_def)
  moreover have "edges_ok True ?s"
    unfolding edges_ok_def ins2_fields ins2_get ins2_back ins2_later
  proof (intro conjI allI ballI impI)
    fix x n
    assume n: "n \<in> deps (rules s x)"
    show "(n, x) \<in> (if get_ruleid_by_tgt s di = None \<and> \<not> True then insert (di, r) (set (later_deps s))
          else set (later_deps s)) \<or>
        (\<exists>d. get_ruleid_by_tgt s n = Some d \<and> x \<in> (if get_ruleid_by_tgt s di = Some d
          then insert r (set (back_deps s d)) else set (back_deps s d))) \<or> (True \<and> get_ruleid_by_tgt s n = None)"
      using edges_okD(3)[OF M(3) n] by auto
  qed (use edges_okD(1,2)[OF M(3)] d in \<open>auto split: if_splits\<close>)
  moreover have "remain_ok ?s" using M(5) by (simp add: remain_ok_def)
  moreover have "ruleids_to_run ?s = []"
    using M(7) by (simp add: ins_ruleid_by_dep2_def Let_def split_def split: option.split)
  ultimately show ?thesis using M(4,6) by (simp add: main_ok_def)
qed

definition later_done :: "(nat \<times> nat) list \<Rightarrow> 'w sched \<Rightarrow> 'w sched \<Rightarrow> bool" where
  "later_done es s s' = (main_ok s' \<and> rules_size s' = rules_size s \<and> st_ruleid s' = st_ruleid s \<and>
     rules_remain_list s' = rules_remain_list s \<and> later_deps s' = later_deps s \<and>
     (\<forall>x. deps (rules s' x) = deps (rules s x) \<and> deplist (rules s' x) = deplist (rules s x)) \<and>
     (\<forall>d. set (back_deps s d) \<subseteq> set (back_deps s' d)) \<and>
     (\<forall>(di, r) \<in> set es. \<forall>d. get_ruleid_by_tgt s di = Some d \<longrightarrow> r \<in> set (back_deps s' d)))"

lemma later_loop_ok:
  "main_ok s \<Longrightarrow> \<forall>(di, r) \<in> set es. di \<in> deps (rules s r) \<Longrightarrow> later_done es s (ins_later_loop es s)"
proof (induction es arbitrary: s)
  case Nil
  then show ?case by (simp add: later_done_def)
next
  case (Cons e es)
  obtain di r where e: "e = (di, r)" by force
  let ?s = "snd (ins_ruleid_by_dep2 di r True s)"
  have ok: "main_ok ?s" using Cons.prems by (intro main_ins2) (simp_all add: e)
  have lt: "later_deps ?s = later_deps s"
    by (simp add: ins_ruleid_by_dep2_def Let_def split_def split: option.split)
  have IH: "later_done es ?s (ins_later_loop es ?s)"
    using Cons.prems(2) by (intro Cons.IH[OF ok]) (simp add: e)
  have b: "set (back_deps s d) \<subseteq> set (back_deps ?s d)"
    "get_ruleid_by_tgt s di = Some d \<Longrightarrow> r \<in> set (back_deps ?s d)" for d
    by (auto simp: ins2_back)
  show ?case
    using IH b lt unfolding later_done_def e ins_later_loop.simps by (auto; blast)
qed

lemma ins_later_ok:
  assumes ok: "main_ok s"
  shows "main_ok (ins_ruleid_by_dep_later s)" "back_complete (ins_ruleid_by_dep_later s)"
    "no_wait (ins_ruleid_by_dep_later s) = no_wait s"
    "rules_remain_list (ins_ruleid_by_dep_later s) = rules_remain_list s"
    "dep_ids (ins_ruleid_by_dep_later s) x = dep_ids s x"
proof -
  let ?t = "ins_later_loop (later_deps s) s"
  let ?s = "ins_ruleid_by_dep_later s"
  have eq: "?s = ?t\<lparr> later_blocks := [] \<rparr>" by (simp add: ins_ruleid_by_dep_later_def later_deps_def)
  have "\<forall>(di, r) \<in> set (later_deps s). di \<in> deps (rules s r)"
    using edges_okD(2)[OF main_okD(3)[OF ok]] by blast
  then have l: "later_done (later_deps s) s ?t" by (rule later_loop_ok[OF ok])
  then have t: "main_ok ?t" "st_ruleid ?t = st_ruleid s" "rules_remain_list ?t = rules_remain_list s"
    "later_deps ?t = later_deps s" "\<And>x. deps (rules ?t x) = deps (rules s x)"
    "\<And>x. deplist (rules ?t x) = deplist (rules s x)"
    "\<And>di r d. (di, r) \<in> set (later_deps s) \<Longrightarrow> get_ruleid_by_tgt s di = Some d \<Longrightarrow> r \<in> set (back_deps ?t d)"
    unfolding later_done_def by blast+
  have same: "rules ?s = rules ?t" "st_ruleid ?s = st_ruleid ?t" "rules_size ?s = rules_size ?t"
    "rules_remain_list ?s = rules_remain_list ?t" "later_deps ?s = []" "ruleids_to_run ?s = ruleids_to_run ?t"
    "back_deps ?s d = back_deps ?t d" for d
    by (simp_all add: eq later_deps_def back_deps_def)
  have get: "get_ruleid_by_tgt ?s = get_ruleid_by_tgt ?t" "get_ruleid_by_tgt ?t = get_ruleid_by_tgt s"
    by (intro ext, simp add: get_ruleid_by_tgt_def same t(2))+
  have e: "edges_ok True ?t" by (rule main_okD(3)[OF t(1)])
  have done1: "r \<in> set (back_deps ?t d)" if n: "n \<in> deps (rules ?t r)" "get_ruleid_by_tgt ?t n = Some d" for n r d
    using edges_okD(3)[OF e n(1)] n(2) t(4,7) get(2) by auto
  have "edges_ok True ?s"
    unfolding edges_ok_def same(1,5,7) get(1)
    using edges_okD(1)[OF e] done1 by (auto split: option.splits)
  moreover have "tgts_ok ?s" using main_okD(2)[OF t(1)] unfolding tgts_ok_def same .
  moreover have "remain_ok ?s" using main_okD(5)[OF t(1)] unfolding remain_ok_def same .
  ultimately show ok': "main_ok ?s" using t(1) unfolding main_ok_def same by blast
  show "no_wait ?s = no_wait s" by (simp add: no_wait_def same t(6))
  show "rules_remain_list ?s = rules_remain_list s" by (simp add: same t(3))
  show "dep_ids ?s x = dep_ids s x" by (simp add: dep_ids_def same t(2,6))
  show "back_complete ?s"
    unfolding back_complete_def
  proof (intro allI iffI)
    fix r d
    assume "r \<in> set (back_deps ?s d)"
    then show "d \<in> dep_ids ?s r"
      using edges_okD(1)[OF main_okD(3)[OF ok'], of r d] main_dep_ids(1)[OF ok', of r] by blast
  next
    fix r d
    assume "d \<in> dep_ids ?s r"
    then obtain n where "n \<in> deps (rules ?t r)" "get_ruleid_by_tgt ?t n = Some d"
      using main_dep_ids(1)[OF ok', of r] get(1) same(1) by auto
    then show "r \<in> set (back_deps ?s d)" unfolding same(7) by (rule done1)
  qed
qed

section \<open>From the Stirfile to the loop\<close>

lemma build_start_ends:
  assumes st: "stage_ok W s" and W: "W \<Longrightarrow> waits_nowhere p"
  shows "ends (\<lambda>s'. main_ok s' \<and> back_complete s' \<and> (W \<longrightarrow> no_wait s') \<and>
     (\<forall>r \<in> set (rules_remain_list s'). \<not> reaches_cycle s' r)) (build_start p w s)"
  unfolding build_start_def
proof (rule outcome_bind[OF load_graph_ok[OF st W]], assumption)
  fix g
  assume "graph_done W g"
  then have g: "gb_ok True g" "W \<longrightarrow> no_wait g" by (simp_all add: graph_done_def)
  let ?s = "to_sched w (prepare_rules g)"
  let ?fin = "\<lambda>s'. main_ok s' \<and> back_complete s' \<and> (W \<longrightarrow> no_wait s') \<and>
     (\<forall>r \<in> set (rules_remain_list s'). \<not> reaches_cycle s' r)"
  note p = main_prepare[OF g(1), of w]
  have last: "ends ?fin (Inr (ins_ruleid_by_dep_later s3))"
    if "main_ok s3" "W \<longrightarrow> no_wait s3" "\<forall>r \<in> set (rules_remain_list s3). \<not> reaches_cycle s3 r" for s3 :: "'a sched"
    using ins_later_ok[OF that(1)] that(2,3) reaches_cong[of "ins_ruleid_by_dep_later s3" s3, OF ins_later_ok(5)[OF that(1)]]
    by simp
  have in1: "\<forall>r \<in> set (rules_remain_list s1). r < rules_size s1" if "main_ok s1" for s1 :: "'a sched"
    using main_okD(6)[OF that] by blast
  have "ends ?fin (bind_res (detect_goals True (rules_remain_list ?s) ?s) (\<lambda>s.
       bind_res (process_orders (names g) (p_orders p) s) (\<lambda>s.
       bind_res (if p_orders p \<noteq> [] then detect_goals False (rules_remain_list s) s else Inr s) (\<lambda>s.
         Inr (ins_ruleid_by_dep_later s)))))"
  proof (rule outcome_bind[OF detect_goals_ok[OF p(1) in1[OF p(1)]]], elim conjE)
    fix s1 :: "'a sched"
    assume s1: "main_ok s1" "rules_remain_list s1 = rules_remain_list ?s" "no_wait s1 = no_wait ?s"
      "\<forall>r \<in> set (rules_remain_list ?s). \<not> reaches_cycle s1 r"
    show "ends ?fin (bind_res (process_orders (names g) (p_orders p) s1) (\<lambda>s.
       bind_res (if p_orders p \<noteq> [] then detect_goals False (rules_remain_list s) s else Inr s) (\<lambda>s.
         Inr (ins_ruleid_by_dep_later s))))"
    proof (cases "p_orders p = []")
      case True
      then show ?thesis using last[OF s1(1)] s1 g(2) p(2) by simp
    next
      case False
      have "ends ?fin (bind_res (process_orders (names g) (p_orders p) s1) (\<lambda>s.
         bind_res (detect_goals False (rules_remain_list s) s) (\<lambda>s. Inr (ins_ruleid_by_dep_later s))))"
      proof (rule outcome_bind[OF process_orders_ok[OF s1(1)]], elim conjE)
        fix s2 :: "'a sched"
        assume s2: "main_ok s2" "no_wait s1 \<longrightarrow> no_wait s2"
        show "ends ?fin (bind_res (detect_goals False (rules_remain_list s2) s2) (\<lambda>s. Inr (ins_ruleid_by_dep_later s)))"
          by (rule outcome_bind[OF detect_goals_ok[OF s2(1) in1[OF s2(1)]]])
             (use last s2(2) s1(3) g(2) p(2) in auto)
      qed
      then show ?thesis using False by simp
    qed
  qed
  then show "ends ?fin (let s = to_sched w (prepare_rules g) in
       bind_res (detect_goals True (rules_remain_list s) s) (\<lambda>s.
       bind_res (process_orders (names g) (p_orders p) s) (\<lambda>s.
       bind_res (if p_orders p \<noteq> [] then detect_goals False (rules_remain_list s) s else Inr s) (\<lambda>s.
         Inr (ins_ruleid_by_dep_later s)))))"
    by (simp only: Let_def)
qed

lemma stage_init: "distinct tab \<Longrightarrow> stage_ok W (gbase_init\<lparr> names := tab \<rparr>)"
  using gbase_init_ok(1)
  by (simp add: stage_ok_def names_ok_def added_closed_def added_def no_wait_def) (simp add: gbase_init_def)

end
