(* ===== verification/Start_Fails.thy ===== *)
theory Start_Fails
  imports Start_Run
begin

text \<open>
  How the start fails: for a Stirfile that keeps to a few rules (\<open>startable\<close>) every failure of \<open>build_start\<close> is an error message,
  never an abort or an access outside a string.
\<close>

section \<open>What the Stirfile must not contain\<close>

text \<open>A base that starts with the prefix of its pattern, but is too short for prefix and suffix together.\<close>

definition short_base :: "tgt \<Rightarrow> string \<Rightarrow> bool" where
  "short_base t base =
     (case tgt_pattern t of
        None \<Rightarrow> False
      | Some (pre, suf) \<Rightarrow> take (length pre) base = pre \<and> length base < length pre + length suf)"

text \<open>
  A pattern rule is no hook and an order names two rules, which is all that the grammar can write; no base of a pattern rule is too
  short, and a dependency file has a name.
\<close>

definition startable :: "parsed \<Rightarrow> bool" where
  "startable p =
     ((\<forall>y \<in> set (p_rules p). y_ispat y \<and> \<not> y_deponly y \<longrightarrow>
         \<not> is_hook y \<and> (\<forall>b \<in> set (y_bases y). \<forall>t \<in> set (take 1 (y_targets y)). \<not> short_base t (t_namenodir b))) \<and>
      (\<forall>ord \<in> set (p_orders p). length ord = 2) \<and> (\<forall>c \<in> set (p_includes p). ci_name c \<noteq> []))"

section \<open>Failures with a message\<close>

text \<open>Too little fuel is kept apart: the theorems on the start exclude it.\<close>

abbreviation quits :: "'a res \<Rightarrow> bool" where
  "quits \<equiv> outcome (insert NoFuel (range Exited)) (\<lambda>_. True)"

lemma quits_bind: "quits r \<Longrightarrow> (\<And>x. r = Inr x \<Longrightarrow> quits (f x)) \<Longrightarrow> quits (bind_res r f)"
  by (cases r) auto

lemma quits_map: "(\<And>x. x \<in> set xs \<Longrightarrow> quits (f x)) \<Longrightarrow> quits (map_res f xs)"
  by (induction xs) (auto intro!: quits_bind)

lemma quits_ins: "quits (ins_tgt ti nodir dist r)" "quits (ins_ruleid_by_tgt ti x s)"
  by (simp_all add: ins_tgt_def ins_ruleid_by_tgt_def)

lemma quits_tgts: "quits (add_rule_tgts y r ts s)"
  by (induction ts arbitrary: s) (auto simp: Let_def split_def intro!: quits_bind quits_ins)

lemma quits_deps: "quits (add_rule_deps y r ds s)"
  by (induction ds arbitrary: s) (auto simp: Let_def split_def intro!: quits_bind)

lemma quits_add_rule: "quits (add_rule ts ds y meat s)"
  by (cases meat) (auto simp: add_rule_def Let_def split_def intro!: quits_bind quits_tgts quits_deps)

lemma quits_meat: "\<not> short_base t base \<Longrightarrow> quits (pat_meat t base)"
  by (auto simp: short_base_def tgt_pattern_def pat_meat_def cut_meat_def Let_def split: option.splits if_splits)

lemma quits_exp: "quits (exp_tgt meat t)" "quits (exp_dep meat d)"
  by (simp_all add: exp_tgt_def exp_dep_def Let_def split: option.split)

lemma quits_expand_base:
  assumes "y_targets y \<noteq> []" "\<not> is_hook y" "\<forall>t \<in> set (take 1 (y_targets y)). \<not> short_base t (t_namenodir b)"
  shows "quits (expand_base y b)"
proof -
  obtain t ts where "y_targets y = t # ts" using assms(1) by (cases "y_targets y") auto
  then show ?thesis using assms(2,3) by (auto simp: expand_base_def intro!: quits_bind quits_map quits_exp quits_meat)
qed

lemma quits_expand_bases:
  assumes "y_targets y \<noteq> []" "\<not> is_hook y"
  shows "\<forall>b \<in> set bs. \<forall>t \<in> set (take 1 (y_targets y)). \<not> short_base t (t_namenodir b) \<Longrightarrow> quits (expand_bases y bs s)"
  by (induction bs arbitrary: s) (auto intro!: quits_bind quits_expand_base[OF assms] quits_add_rule)

section \<open>Rules and dependencies\<close>

lemma quits_load_rules:
  "stage_ok False s \<Longrightarrow>
    \<forall>y \<in> set ys. y_ispat y \<and> \<not> y_deponly y \<longrightarrow>
      \<not> is_hook y \<and> (\<forall>b \<in> set (y_bases y). \<forall>t \<in> set (take 1 (y_targets y)). \<not> short_base t (t_namenodir b)) \<Longrightarrow>
    quits (load_rules fwd ys first s)"
proof (induction ys arbitrary: first s)
  case (Cons y ys)
  have IH: "quits (load_rules fwd ys first' s')" if "stage_ok False s'" for first' s'
    using Cons.IH[OF that] Cons.prems(2) by simp
  consider (skip) "y_targets y = [] \<or> y_deponly y" | (pat) "\<not> (y_targets y = [] \<or> y_deponly y)" "y_ispat y"
    | (plain) "\<not> (y_targets y = [] \<or> y_deponly y)" "\<not> y_ispat y" by blast
  then show ?case
  proof cases
    case skip
    then show ?thesis using IH[OF Cons.prems(1)] by simp
  next
    case pat
    have q: "quits (expand_bases y (y_bases y) s)" using Cons.prems(2) pat by (intro quits_expand_bases) auto
    have "quits (load_rules fwd ys first s')" if "expand_bases y (y_bases y) s = Inr s'" for s'
      using outcome_Inr[OF stage_expand_bases[of False y, OF _ Cons.prems(1)] that] IH by blast
    then show ?thesis using pat q by (auto intro!: quits_bind)
  next
    case plain
    have "stage_ok False s' \<and> rules_size s' = Suc (rules_size s)" if "add_rule (y_targets y) (y_deps y) y None s = Inr s'" for s'
      using outcome_Inr[OF stage_add_rule[OF Cons.prems(1)] that] by blast
    then show ?thesis using plain IH by (auto intro!: quits_bind quits_add_rule)
  qed
qed simp

lemma quits_load_deps: "stage_ok False s \<Longrightarrow> quits (load_deps ys s)"
  using stage_load_deps[of False s ys] by auto

lemma quits_name: "n \<noteq> [] \<Longrightarrow> quits (inc_name y n)"
  by (simp add: inc_name_eq)

lemma unescape_nonempty: "inc_unescape tok = Some n \<Longrightarrow> tok \<noteq> [] \<Longrightarrow> n \<noteq> []"
  by (cases tok) (auto split: if_splits list.splits)

lemma quits_token: "(\<And>n. n \<noteq> [] \<Longrightarrow> quits (emit n)) \<Longrightarrow> quits (inc_token emit tok e)"
  by (auto simp: inc_token_def inc_invalid_def unescape_nonempty split: option.split)

lemma quits_set:
  assumes "n \<noteq> []"
  shows "quits (incyy_set_tgt y n)" "quits (incyy_set_dep y n)"
  using assms by (auto simp: incyy_set_tgt_def incyy_set_dep_def intro!: quits_bind quits_name)

lemma quits_inc_tgts: "quits (inc_tgts y s)"
proof (induction y s rule: inc_tgts.induct)
  case (1 y s)
  have t: "quits (inc_token (incyy_set_tgt y) tok e)" for tok e by (rule quits_token) (rule quits_set)
  obtain len esc where l: "mycspn_ascii s = (len, esc)" by force
  show ?case
  proof (cases "drop len s")
    case Nil
    then show ?thesis by (subst inc_tgts.simps) (simp add: l inc_invalid_def)
  next
    case (Cons c rest)
    have "quits (inc_tgts y (myspn True rest))"
      if "c \<noteq> nl" "inc_token (incyy_set_tgt y) (take len s) esc = Inr cs" "c \<noteq> CHR '':''" for cs
      using 1[OF l[symmetric] refl Cons that(1) refl that(3)] .
    then show ?thesis using t
      by (subst inc_tgts.simps) (auto simp: l Cons inc_invalid_def Let_def intro!: quits_bind)
  qed
qed

lemma quits_inc_deps: "quits (inc_deps y s)"
proof (induction y s rule: inc_deps.induct)
  case (1 y s)
  have t: "quits (inc_token (incyy_set_dep y) tok e)" for tok e by (rule quits_token) (rule quits_set)
  obtain len esc where l: "mycspn_ascii s = (len, esc)" by force
  show ?case
  proof (cases "drop len s")
    case Nil
    then show ?thesis using t by (subst inc_deps.simps) (simp add: l)
  next
    case (Cons c rest)
    have "quits (inc_deps y (myspn True rest))" if "c \<noteq> CHR '':''" "c \<noteq> nl"
      using 1[OF l[symmetric] refl Cons that] .
    then show ?thesis using t by (subst inc_deps.simps) (auto simp: l Cons inc_invalid_def intro!: quits_bind)
  qed
qed

lemma quits_handle_line:
  assumes "inc_fnamenodir y \<noteq> []"
  shows "quits (handle_line y l)"
  using assms
  by (auto simp: handle_line_def incyy_emplace_rule_def Let_def intro!: quits_bind quits_set quits_inc_tgts quits_inc_deps)

lemma quits_join: "quits (join_lines fuel n n2 line f)"
  by (induction fuel arbitrary: n n2 line f) (auto simp: inc_invalid_def Let_def split: prod.split option.split)

lemma quits_inc_lines:
  assumes "inc_fnamenodir y \<noteq> []"
  shows "quits (inc_lines fuel y n n2 f)"
  by (induction fuel arbitrary: n n2 f)
    (auto split: prod.split option.split intro!: quits_bind quits_join quits_handle_line[OF assms])

lemma quits_includes: "\<forall>c \<in> set cs. ci_name c \<noteq> [] \<Longrightarrow> quits (load_includes cs s)"
proof (induction cs arbitrary: s)
  case (Cons c cs)
  have "quits (incyymineparse (incyy_of c) f)" for f
    unfolding incyymineparse_def using Cons.prems by (intro quits_inc_lines) (simp add: incyy_of_def)
  then show ?case using Cons by (auto simp: canon_buflen_spec Let_def split_def split: option.split intro!: quits_bind)
qed simp

section \<open>Goals, cycles and orders\<close>

lemma quits_goal_rule: "quits (goal_rule md fwd a s)"
  by (auto simp: goal_rule_def goal_name_def canon_spec Let_def split_def split: option.split intro!: quits_bind)

lemma quits_goals: "quits (check_goals md fwd as s)" "quits (add_goals md fwd as s)"
  by (induction as arbitrary: s) (auto intro!: quits_bind quits_goal_rule)

lemma quits_select: "quits (select_goals md fwd as first s)"
  by (auto simp: select_goals_def split: option.split intro!: quits_bind quits_goals)

lemma quits_inc_rule: "quits (add_inc_rule scope ti s)"
  by (auto simp: add_inc_rule_def Let_def split_def intro!: quits_bind quits_ins)

lemma quits_ensure: "quits (ensure_targets scope es s)"
  by (induction es arbitrary: s) (auto intro!: quits_bind quits_inc_rule)

lemma quits_entries: "quits (add_entries scope es lt lr s)"
  by (induction es arbitrary: lt lr s) (auto simp: Let_def split: option.split intro!: quits_bind quits_inc_rule)

lemma quits_cycle_deps: "(\<And>d c. quits (rec d c)) \<Longrightarrow> quits (cycle_deps rec es c)"
  by (induction es arbitrary: c) (auto split: option.split intro!: quits_bind)

lemma quits_cycle: "quits (better_cycle_detect_impl n mark cur c)"
  by (induction n arbitrary: cur c) (auto intro!: quits_bind quits_cycle_deps)

lemma quits_detect: "quits (detect_goals mark rs s)"
  by (induction rs arbitrary: s)
    (auto simp: better_cycle_detect_def simp del: better_cycle_detect_impl.simps intro!: quits_bind quits_cycle)

lemma quits_orders: "\<forall>ord \<in> set os. length ord = 2 \<Longrightarrow> quits (process_orders tab os s)"
  by (induction os arbitrary: s)
    (auto simp: process_order_def Let_def length_Suc_conv numeral_2_eq_2 split: option.split prod.split intro!: quits_bind)

section \<open>The whole start\<close>

lemma quits_load_graph:
  assumes "stage_ok False s" "startable p"
  shows "quits (load_graph p s)"
proof -
  have r: "quits (load_rules (p_fwd_path p) (p_rules p) None s)"
    using assms by (intro quits_load_rules) (auto simp: startable_def)
  have "stage_ok False s'" if "load_rules (p_fwd_path p) (p_rules p) None s = Inr (first, s')" for first s'
    using outcome_Inr[OF stage_load_rules[OF assms(1)] that] by simp
  then show ?thesis
    using assms(2) unfolding load_graph_def process_additional_deps_2_def startable_def
    by (auto intro!: quits_bind r quits_load_deps quits_includes quits_select quits_ensure quits_entries)
qed

lemma build_start_quits:
  assumes "stage_ok False s" "startable p" "build_start p w s = Inl f"
  shows "f = NoFuel \<or> f \<in> range Exited"
proof -
  have "quits (build_start p w s)"
    unfolding build_start_def Let_def using assms(2)
    by (auto simp: startable_def intro!: quits_bind quits_load_graph[OF assms(1,2)] quits_detect quits_orders)
  then show ?thesis using assms(3) by simp
qed

end
