(* ===== verification/Build_Complete.thy ===== *)
theory Build_Complete
  imports Start_Fails
begin

text \<open>
  The whole program, from the parsed Stirfile through \<open>build_start\<close> to the end of \<open>run_loop\<close>: the start
  establishes what the theorems on the loop assume, so a build without a wait position that ends without a
  failed command has made its goals, provided that no command adds dependencies while the loop runs
  (\<open>@adddeps\<close>, which \<open>decide\<close> in \<open>ops\<close> leaves out).  No assumption on the graph is left: cycles are the
  business of the start.
\<close>

section \<open>A small Stirfile\<close>

definition ex_tgt :: "string \<Rightarrow> tgt" where
  "ex_tgt n = \<lparr> t_namenodir = n, t_suffix = None, t_percent_special = False, t_is_dist = False \<rparr>"

definition ex_ydep :: "string \<Rightarrow> dep" where
  "ex_ydep n = \<lparr> d_namenodir = n, d_suffix = None, d_percent_special = False, d_rec = False,
     d_orderonly = False, d_wait = False \<rparr>"

definition ex_yrule :: "string \<Rightarrow> string list \<Rightarrow> stiryyrule" where
  "ex_yrule t ds = \<lparr> y_bases = [], y_deps = map ex_ydep ds, y_targets = [ex_tgt t], y_shells = [], y_scopeidx = 0,
     y_prefix = ''.'', y_lineno = 1, y_phony = False, y_rectgt = False, y_detouch = False, y_maybe = False, y_dist = False,
     y_deponly = False, y_iscleanhook = False, y_isdistcleanhook = False, y_isbothcleanhook = False,
     y_ispat = False, y_patfrozen = False \<rparr>"

text \<open>\<open>p: o\<close> and \<open>o: c\<close>, stirmake called without arguments.\<close>

definition ex_parsed :: parsed where
  "ex_parsed = \<lparr> p_rules = [ex_yrule ''p'' [''o''], ex_yrule ''o'' [''c'']], p_includes = [], p_orders = [],
     p_mode = MODE_NONE, p_fwd_path = ''.'', p_args = [], p_scope = 0 \<rparr>"

lemma ex_parsed_waits: "waits_nowhere ex_parsed"
  by (simp add: waits_nowhere_def no_d_wait_def ex_parsed_def ex_yrule_def ex_ydep_def)

section \<open>What the loop is given\<close>

definition ready_for_loop :: "'w sched \<Rightarrow> bool" where
  "ready_for_loop z = (start_ok z \<and> live {} z \<and> back_complete z \<and>
     (\<forall>r \<in> set (rules_remain_list z). \<not> reaches_cycle z r))"

lemma build_start_loop:
  assumes "distinct tab"
  shows "ends (\<lambda>z. ready_for_loop z \<and> (waits_nowhere p \<longrightarrow> no_wait z)) (build_start p w (gbase_init\<lparr> names := tab \<rparr>))"
  by (rule outcome_mono[OF build_start_ends[of "waits_nowhere p", OF stage_init[OF assms]]])
     (auto simp: ready_for_loop_def main_start_ok)

text \<open>The same Stirfile with a goal that has no rule.\<close>

definition ex_no_goal :: parsed where
  "ex_no_goal = ex_parsed\<lparr> p_args := [''x''] \<rparr>"

lemma ex_no_goal_startable: "startable ex_no_goal"
  by (simp add: startable_def ex_no_goal_def ex_parsed_def ex_yrule_def)

text \<open>
  C3: \<open>main\<close> hands a well-formed state to \<open>run_loop\<close> or fails, and never for lack of fuel: whatever the rules,
  dependency files, goals and \<open>@order\<close> declarations, the counters of the remaining dependencies are right,
  every dependency on a rule has its back edge and every back edge its dependency, nothing is queued, no goal
  reaches a cycle, and without wait positions in the Stirfile there is none in the graph.  For a Stirfile in which
  no pattern rule is a hook, no base is shorter than the prefix and suffix of its pattern, orders name two rules
  and dependency files have names (\<open>startable\<close>), the failure is an error message; without that it can also be
  an abort or a read outside a string.
\<close>

theorem build_start_ready:
  assumes "distinct tab"
  shows "case build_start p w (gbase_init\<lparr> names := tab \<rparr>) of
      Inl f \<Rightarrow> f \<noteq> NoFuel \<and> (startable p \<longrightarrow> (\<exists>msg. f = Exited msg))
    | Inr z \<Rightarrow> ready_for_loop z \<and> (waits_nowhere p \<longrightarrow> no_wait z)"
proof (cases "build_start p w (gbase_init\<lparr> names := tab \<rparr>)")
  case (Inl f)
  then show ?thesis
    using build_start_loop[OF assms, of p w] build_start_quits[OF stage_init[OF assms, of False] _ Inl] by auto
next
  case (Inr z)
  then show ?thesis using build_start_loop[OF assms, of p w] by simp
qed

theorem build_start_ready_witness:
  "(case build_start ex_parsed ([] :: nat list) (gbase_init\<lparr> names := [] \<rparr>) of
      Inl f \<Rightarrow> False
    | Inr z \<Rightarrow> ready_for_loop z \<and> no_wait z) \<and>
   (\<exists>msg. build_start ex_no_goal ([] :: nat list) (gbase_init\<lparr> names := [] \<rparr>) = Inl (Exited msg))"
proof
  have "case build_start ex_parsed ([] :: nat list) (gbase_init\<lparr> names := [] \<rparr>) of Inl f \<Rightarrow> False | Inr z \<Rightarrow> True"
    by code_simp
  then show "case build_start ex_parsed ([] :: nat list) (gbase_init\<lparr> names := [] \<rparr>) of
      Inl f \<Rightarrow> False | Inr z \<Rightarrow> ready_for_loop z \<and> no_wait z"
    using build_start_ready[of "[]" ex_parsed "[] :: nat list"] ex_parsed_waits by (auto split: sum.splits)
  have "case build_start ex_no_goal ([] :: nat list) (gbase_init\<lparr> names := [] \<rparr>) of Inl f \<Rightarrow> True | Inr z \<Rightarrow> False"
    by code_simp
  then show "\<exists>msg. build_start ex_no_goal ([] :: nat list) (gbase_init\<lparr> names := [] \<rparr>) = Inl (Exited msg)"
    using build_start_ready[of "[]" ex_no_goal "[] :: nat list"] ex_no_goal_startable by (auto split: sum.splits)
qed

text \<open>
  C1: A build without wait positions, none of whose commands executes \<open>@adddeps\<close> while it is evaluated in the
  loop, has executed all its goals when it comes to its end without a failed command: from the parsed Stirfile,
  through the construction of the graph and the search for cycles, to the end of the loop, for every order in
  which the children end.  The exclusion of \<open>@adddeps\<close> (the instruction \<open>DEP_ADD\<close> after parsing) is in the
  type of \<open>decide\<close>, which cannot change the rule base; with it a goal can be left unmade, since a rule that
  is executed already is entered as remaining (\<open>late_dep_remains\<close>).
\<close>

theorem build_completes:
  assumes "distinct tab" "waits_nowhere p" "build_start p w (gbase_init\<lparr> names := tab \<rparr>) = Inr z"
    and "ops_ok F ops" "reach ops keep z l" "loop_ended l" "\<not> cmdfailed l"
  shows "rules_remain_list (sch l) = []"
proof -
  have z: "ready_for_loop z" "no_wait z"
    using build_start_loop[OF assms(1), of p w] assms(2,3) by simp_all
  then show ?thesis
    using assms(4-) by (intro run_completes[of F ops z keep l]) (simp_all add: ready_for_loop_def live_graph_def)
qed

theorem build_completes_witness:
  "case build_start ex_parsed [0] (gbase_init\<lparr> names := [] \<rparr>) of
     Inl f \<Rightarrow> False
   | Inr z \<Rightarrow> \<exists>l. reach ex_ops False z l \<and> loop_ended l \<and> rules_remain_list (sch l) = []"
proof -
  have "case bind_res (build_start ex_parsed [0] (gbase_init\<lparr> names := [] \<rparr>)) (run_one ex_ops 0) of
      Inl f \<Rightarrow> False | Inr s \<Rightarrow> ruleids_to_run s = []" by code_simp
  then obtain z s where z: "build_start ex_parsed [0] (gbase_init\<lparr> names := [] \<rparr>) = Inr z"
      and s: "run_one ex_ops 0 z = Inr s" "ruleids_to_run s = []"
    by (auto simp: stir_simps split: sum.splits)
  let ?l = "\<lparr> sch = s, children = [], cmdfailed = False \<rparr>"
  have r: "reach ex_ops False z ?l" by (rule run_one_reach[OF s(1)])
  have e: "loop_ended ?l" "\<not> cmdfailed ?l" by (simp_all add: loop_ended_def s)
  have "rules_remain_list (sch ?l) = []"
    by (rule build_completes[OF _ ex_parsed_waits z ex_ops_ok r e]) simp
  then show ?thesis using r e z by auto
qed

end
