(* ===== verification/Start_Graph.thy ===== *)
theory Start_Graph
  imports Build_Complete
begin

text \<open>
  The graph that \<open>main\<close> builds is the one that the Stirfile writes down: the rules are the instances of its
  rules, in order, with the targets and dependencies written there, the additional dependencies reach
  the rules of their targets, and the goals are the rules of the names on the command line.
\<close>

section \<open>What the Stirfile writes down\<close>

text \<open>A rule with its targets and dependencies; a pattern rule has one for each of its bases.\<close>

type_synonym inst = "stiryyrule \<times> tgt list \<times> dep list"

definition inst_tgts :: "inst \<Rightarrow> string set" where
  "inst_tgts i = (case i of (y, ts, ds) \<Rightarrow> tgt_name y ` set ts)"

definition inst_deps :: "inst \<Rightarrow> string set" where
  "inst_deps i = (case i of (y, ts, ds) \<Rightarrow> dep_name y ` set ds)"

definition rule_instances :: "stiryyrule \<Rightarrow> inst list res" where
  "rule_instances y =
     (if y_targets y = [] \<or> y_deponly y then Inr []
      else if y_ispat y then map_res (\<lambda>b. bind_res (expand_base y b) (\<lambda>(ts, ds, _). Inr (y, ts, ds))) (y_bases y)
      else Inr [(y, y_targets y, y_deps y)])"

fun stirfile_rules :: "stiryyrule list \<Rightarrow> inst list res" where
  "stirfile_rules [] = Inr []"
| "stirfile_rules (y # ys) =
     bind_res (rule_instances y) (\<lambda>xs. bind_res (stirfile_rules ys) (\<lambda>bs. Inr (xs @ bs)))"

text \<open>The default goal: the first rule of the directory that is neither a pattern nor a hook.\<close>

fun default_goal :: "string \<Rightarrow> nat \<Rightarrow> inst list \<Rightarrow> nat option" where
  "default_goal fwd n [] = None"
| "default_goal fwd n ((y, ts, ds) # bs) =
     (if \<not> y_ispat y \<and> fwd = y_prefix y \<and> \<not> is_hook y then Some n else default_goal fwd (Suc n) bs)"

text \<open>The additional dependencies, from rules without a recipe of their own and from dependency files.\<close>

definition stirfile_deps :: "stiryyrule list \<Rightarrow> (string \<times> string option) set" where
  "stirfile_deps ys = (\<Union>y \<in> {y \<in> set ys. y_deponly y}.
     dep_pairs ((\<lambda>t. name_of (y_prefix y) (t_namenodir t)) ` set (y_targets y))
               ((\<lambda>d. name_of (y_prefix y) (d_namenodir d)) ` set (y_deps y)))"

definition include_deps :: "cdepfile list \<Rightarrow> (string \<times> string option) set" where
  "include_deps cs = (\<Union>c \<in> set cs. pairs_of c)"

definition extra_deps :: "parsed \<Rightarrow> (string \<times> string option) set" where
  "extra_deps p = stirfile_deps (p_rules p) \<union> include_deps (p_includes p)"

definition is_graph_of :: "parsed \<Rightarrow> inst list \<Rightarrow> gbase \<Rightarrow> bool" where
  "is_graph_of p bs g = (length bs \<le> rules_size g \<and>
     (\<forall>r < length bs. rule_tgts g r = inst_tgts (bs ! r) \<and>
        rule_deps g r = inst_deps (bs ! r) \<union> {d. \<exists>t \<in> inst_tgts (bs ! r). (t, Some d) \<in> extra_deps p}) \<and>
     (\<forall>r. length bs \<le> r \<and> r < rules_size g \<longrightarrow>
        (\<exists>t. t \<in> fst ` extra_deps p \<and> (\<forall>i \<in> set bs. t \<notin> inst_tgts i) \<and> rule_tgts g r = {t} \<and>
           rule_deps g r = {d. (t, Some d) \<in> extra_deps p})) \<and>
     taken g = (\<Union>i \<in> set bs. inst_tgts i) \<union> fst ` extra_deps p)"

definition are_goals_of :: "parsed \<Rightarrow> inst list \<Rightarrow> gbase \<Rightarrow> bool" where
  "are_goals_of p bs g = (set (rules_remain_list g) =
     (if p_args p = [] then set_option (default_goal (p_fwd_path p) 0 bs)
      else {r. r < length bs \<and> (\<exists>a \<in> set (p_args p). \<exists>n. goal_name (p_mode p) (p_fwd_path p) a = Inr n \<and>
              n \<in> inst_tgts (bs ! r))}))"

section \<open>The rules\<close>

definition insts_added :: "inst list \<Rightarrow> gbase \<Rightarrow> gbase \<Rightarrow> bool" where
  "insts_added bs s s' = (rules_size s' = rules_size s + length bs \<and>
     rules_remain_list s' = rules_remain_list s \<and> added s' = added s \<and>
     (\<forall>i < length bs. rule_tgts s' (rules_size s + i) = inst_tgts (bs ! i) \<and>
        rule_deps s' (rules_size s + i) = inst_deps (bs ! i)) \<and>
     (\<forall>r < rules_size s. rule_tgts s' r = rule_tgts s r \<and> rule_deps s' r = rule_deps s r))"

lemma insts_added_Nil [simp]: "insts_added [] s s"
  by (simp add: insts_added_def)

lemma insts_added_one: "rule_added y ts ds s s' \<Longrightarrow> insts_added [(y, ts, ds)] s s'"
  by (simp add: insts_added_def rule_added_def inst_tgts_def inst_deps_def)

lemma insts_added_append:
  assumes "insts_added as s s1" "insts_added bs s1 s2"
  shows "insts_added (as @ bs) s s2"
proof -
  have a: "rules_size s1 = rules_size s + length as" "rules_size s2 = rules_size s1 + length bs"
    using assms by (simp_all add: insts_added_def)
  have "rule_tgts s2 (rules_size s + i) = inst_tgts ((as @ bs) ! i) \<and>
      rule_deps s2 (rules_size s + i) = inst_deps ((as @ bs) ! i)" if i: "i < length (as @ bs)" for i
  proof (cases "i < length as")
    case True
    then show ?thesis using assms a(1) by (simp add: insts_added_def nth_append)
  next
    case False
    then obtain k where k: "i = length as + k" "k < length bs"
      using i by (metis add_diff_inverse_nat length_append nat_add_left_cancel_less)
    then show ?thesis using assms(2) a(1) by (simp add: insts_added_def nth_append add.assoc)
  qed
  moreover have "rule_tgts s2 r = rule_tgts s r \<and> rule_deps s2 r = rule_deps s r" if "r < rules_size s" for r
    using assms that a(1) by (simp add: insts_added_def)
  ultimately show ?thesis using assms unfolding insts_added_def by simp
qed

lemma add_rule_inst:
  assumes "stage_ok False s" "add_rule ts ds y meat s = Inr s'"
  shows "stage_ok False s'" "insts_added [(y, ts, ds)] s s'"
proof -
  show "stage_ok False s'" using stage_add_rule[of False s ds ts y meat] assms by simp
  have "rule_added y ts ds s s'"
    using add_rule_ok[where s = s and ts = ts and ds = ds and y = y and meat = meat] assms
    by (simp add: stage_ok_def)
  then show "insts_added [(y, ts, ds)] s s'" by (rule insts_added_one)
qed

lemma expand_bases_insts:
  "stage_ok False s \<Longrightarrow> expand_bases y bs s = Inr s' \<Longrightarrow>
   \<exists>xs. map_res (\<lambda>b. bind_res (expand_base y b) (\<lambda>(ts, ds, _). Inr (y, ts, ds))) bs = Inr xs \<and>
     (\<forall>i \<in> set xs. fst i = y) \<and> stage_ok False s' \<and> insts_added xs s s'"
proof (induction bs arbitrary: s)
  case (Cons b bs)
  obtain ts ds meat s1 where e: "expand_base y b = Inr (ts, ds, meat)" "add_rule ts ds y (Some meat) s = Inr s1"
      "expand_bases y bs s1 = Inr s'"
    using Cons.prems(2) by (auto simp: stir_simps)
  note s1 = add_rule_inst[OF Cons.prems(1) e(2)]
  obtain xs where xs: "map_res (\<lambda>b. bind_res (expand_base y b) (\<lambda>(ts, ds, _). Inr (y, ts, ds))) bs = Inr xs"
      "\<forall>i \<in> set xs. fst i = y" "stage_ok False s'" "insts_added xs s1 s'"
    using Cons.IH[OF s1(1) e(3)] by blast
  show ?case using insts_added_append[OF s1(2) xs(4)] e(1) xs(1-3) by simp
qed simp

lemma default_goal_pats:
  "\<forall>i \<in> set xs. y_ispat (fst i) \<Longrightarrow> default_goal fwd n (xs @ bs) = default_goal fwd (n + length xs) bs"
  by (induction xs arbitrary: n) auto

lemma load_rules_insts:
  "stage_ok False s \<Longrightarrow> load_rules fwd ys first s = Inr (f, s') \<Longrightarrow>
   \<exists>bs. stirfile_rules ys = Inr bs \<and> stage_ok False s' \<and> insts_added bs s s' \<and>
     f = (case first of Some r \<Rightarrow> Some r | None \<Rightarrow> default_goal fwd (rules_size s) bs)"
proof (induction ys arbitrary: first s)
  case (Cons y ys)
  consider "y_targets y = [] \<or> y_deponly y" | "\<not> (y_targets y = [] \<or> y_deponly y)" "y_ispat y"
    | "\<not> (y_targets y = [] \<or> y_deponly y)" "\<not> y_ispat y" by blast
  then show ?case
  proof cases
    case 1
    have "bind_res r Inr = r" for r :: "inst list res" by (cases r) simp_all
    then show ?thesis using Cons 1 by (auto simp: rule_instances_def)
  next
    case 2
    obtain s1 where e: "expand_bases y (y_bases y) s = Inr s1" "load_rules fwd ys first s1 = Inr (f, s')"
      using Cons.prems(2) 2 by (auto simp: stir_simps)
    obtain xs where xs: "rule_instances y = Inr xs" "\<forall>i \<in> set xs. fst i = y" "stage_ok False s1" "insts_added xs s s1"
      using expand_bases_insts[OF Cons.prems(1) e(1)] 2 by (auto simp: rule_instances_def)
    obtain bs where bs: "stirfile_rules ys = Inr bs" "stage_ok False s'" "insts_added bs s1 s'"
        "f = (case first of Some r \<Rightarrow> Some r | None \<Rightarrow> default_goal fwd (rules_size s1) bs)"
      using Cons.IH[OF xs(3) e(2)] by blast
    have "rules_size s1 = rules_size s + length xs" using xs(4) by (simp add: insts_added_def)
    then show ?thesis
      using xs(1,2) bs insts_added_append[OF xs(4) bs(3)] default_goal_pats[of xs fwd "rules_size s" bs] 2
      by (simp split: option.split)
  next
    case 3
    let ?i = "(y, y_targets y, y_deps y)"
    obtain s1 where e: "add_rule (y_targets y) (y_deps y) y None s = Inr s1"
        "load_rules fwd ys (if first = None \<and> fwd = y_prefix y \<and> \<not> is_hook y then Some (rules_size s1 - 1)
           else first) s1 = Inr (f, s')"
      using Cons.prems(2) 3 by (auto simp: stir_simps split: if_splits)
    note s1 = add_rule_inst[OF Cons.prems(1) e(1)]
    obtain bs where bs: "stirfile_rules ys = Inr bs" "stage_ok False s'" "insts_added bs s1 s'"
        "f = (case (if first = None \<and> fwd = y_prefix y \<and> \<not> is_hook y then Some (rules_size s1 - 1) else first) of
            Some r \<Rightarrow> Some r | None \<Rightarrow> default_goal fwd (rules_size s1) bs)"
      using Cons.IH[OF s1(1) e(2)] by blast
    have sz: "rules_size s1 = Suc (rules_size s)" using s1(2) by (simp add: insts_added_def)
    have f: "f = (case first of Some r \<Rightarrow> Some r | None \<Rightarrow> default_goal fwd (rules_size s) (?i # bs))"
      using bs(4) 3 sz by (auto split: option.split if_splits)
    have "insts_added (?i # bs) s s'" using insts_added_append[OF s1(2) bs(3)] by simp
    then show ?thesis using bs(1,2) f 3 by (simp add: rule_instances_def)
  qed
qed (simp split: option.split)

section \<open>The additional dependencies\<close>

lemma collects_views:
  assumes "stage_ok W s" "collects s s' A"
  shows "rule_tgts s' = rule_tgts s" "rule_deps s' = rule_deps s"
proof -
  have ok: "names_ok s" "gb_ok False s" using assms(1) by (simp_all add: stage_ok_def)
  note c = collectsD[OF assms(2)]
  show "rule_tgts s' = rule_tgts s" "rule_deps s' = rule_deps s"
    using ext_views(1,2)[OF ok c(3)] c(4) by auto
qed

lemma load_deps_collects:
  "stage_ok False s \<Longrightarrow> load_deps ys s = Inr s' \<Longrightarrow> stage_ok False s' \<and> collects s s' (stirfile_deps ys)"
proof (induction ys arbitrary: s)
  case Nil
  then show ?case by (simp add: collects_refl stage_ok_def stirfile_deps_def)
next
  case (Cons y ys)
  let ?A = "\<lambda>y. dep_pairs ((\<lambda>t. name_of (y_prefix y) (t_namenodir t)) ` set (y_targets y))
      ((\<lambda>d. name_of (y_prefix y) (d_namenodir d)) ` set (y_deps y))"
  have A: "stirfile_deps (y # ys) = (if y_deponly y then ?A y else {}) \<union> stirfile_deps ys"
    by (auto simp: stirfile_deps_def)
  show ?case
  proof (cases "y_targets y = [] \<or> \<not> y_deponly y")
    case True
    then have "stirfile_deps (y # ys) = stirfile_deps ys" unfolding A by (auto simp: dep_pairs_simps)
    then show ?thesis using Cons True by simp
  next
    case False
    have ok: "gb_ok False s" "names_ok s" using Cons.prems(1) by (simp_all add: stage_ok_def)
    obtain s1 where s1: "add_dep_from_rules (y_targets y) (y_deps y) False (y_prefix y) s = Inr s1"
        "collects s s1 (?A y)"
      using add_dep_from_rules_ok[OF ok, of "y_targets y" "y_deps y" False "y_prefix y"] by blast
    have "stage_ok False s' \<and> collects s1 s' (stirfile_deps ys)"
      using Cons.prems(2) False s1(1) by (intro Cons.IH stage_collects[OF Cons.prems(1) s1(2)]) simp_all
    then show ?thesis using collects_trans[OF s1(2)] A False by simp
  qed
qed

lemma load_includes_collects:
  "stage_ok False s \<Longrightarrow> load_includes cs s = Inr s' \<Longrightarrow> stage_ok False s' \<and> collects s s' (include_deps cs)"
proof (induction cs arbitrary: s)
  case Nil
  then show ?case by (simp add: collects_refl stage_ok_def include_deps_def)
next
  case (Cons c cs)
  obtain fname n where f: "canon_buflen (ci_prefix c @ CHR ''/'' # ci_name c) (Some 1024) = Inr (fname, n)"
    using canon_buflen_spec[of "ci_prefix c @ CHR ''/'' # ci_name c" "Some 1024"] by simp
  obtain i s1 where s1: "stringtab_add fname s = (i, s1)" by force
  obtain s2 where s2: "read_include c s1 = Inr s2" "load_includes cs s2 = Inr s'"
    using Cons.prems(2) unfolding load_includes_Cons by (auto simp: f s1 stir_simps)
  have st: "stage_ok False s1" using stage_string[OF Cons.prems(1) s1] by simp
  have c1: "collects s s1 {}" using Cons.prems(1) s1 by (intro collect_name) (simp_all add: stage_ok_def)
  have c2: "stage_ok False s2" "collects s1 s2 (pairs_of c)"
    using read_include_ok[OF st, of c] s2(1) by simp_all
  have "stage_ok False s'" "collects s2 s' (include_deps cs)" using Cons.IH[OF c2(1) s2(2)] by simp_all
  then show ?case
    using collects_trans[OF c1 collects_trans[OF c2(2)]] by (simp add: include_deps_def)
qed

section \<open>The goals\<close>

definition same_views :: "gbase \<Rightarrow> gbase \<Rightarrow> bool" where
  "same_views s s' = (rules_size s' = rules_size s \<and> rule_tgts s' = rule_tgts s \<and> rule_deps s' = rule_deps s \<and>
     added s' = added s)"

lemma same_views_trans: "same_views s s' \<Longrightarrow> same_views s' s'' \<Longrightarrow> same_views s s''"
  by (simp add: same_views_def)

lemma collects_same: "stage_ok W s \<Longrightarrow> collects s s' {} \<Longrightarrow> same_views s s'"
  using collects_views[of W s s' "{}"] collectsD[of s s' "{}"] by (simp add: same_views_def)

lemma goal_same: "same_views s (ruleremain_add r s)"
proof -
  have n: "names (ruleremain_add r s) = names s" "add_blocks (ruleremain_add r s) = add_blocks s"
    by (simp_all add: ruleremain_add_def)
  show ?thesis
    unfolding same_views_def by (intro conjI ext) (simp_all add: rule_tgts_def rule_deps_def added_def ruleremain_add_same n)
qed

lemma goal_set:
  "remain_ok s \<Longrightarrow> \<not> is_executed (rules s r) \<Longrightarrow>
   set (rules_remain_list (ruleremain_add r s)) = insert r (set (rules_remain_list s))"
  by (auto simp: ruleremain_add_def remain_ok_def)

lemma tgts_unique:
  assumes "stage_ok W s" "n \<in> rule_tgts s r" "n \<in> rule_tgts s r'"
  shows "r = r'"
proof -
  have ok: "gb_ok False s" "names_ok s" using assms(1) by (simp_all add: stage_ok_def)
  obtain i j where i: "i \<in> tgts (rules s r)" "n = names s ! i" and j: "j \<in> tgts (rules s r')" "n = names s ! j"
    using assms(2,3) by (auto simp: rule_tgts_def)
  have "i = j"
    using i j tgts_names[OF ok] names_okD(1)[OF ok(2)] by (metis nth_eq_iff_index_eq)
  then show ?thesis using i(1) j(1) tgts_okD(1)[OF gb_okD(2)[OF ok(1)]] by (metis of_nat_eq_iff)
qed

lemma goal_rule_ok:
  assumes st: "stage_ok False s" and g: "goal_rule md fwd a s = Inr (r, s')"
  shows "collects s s' {}" "stage_ok False s'" "r < rules_size s'"
    "\<exists>n. goal_name md fwd a = Inr n \<and> n \<in> rule_tgts s r"
proof -
  obtain n where gn: "goal_name md fwd a = Inr n" using g by (auto simp: goal_rule_def stir_simps)
  obtain i s1 where s1: "stringtab_add n s = (i, s1)" by force
  have "(case get_ruleid_by_tgt s1 i of None \<Rightarrow> Inl (Exited ''rule not found'') | Some r \<Rightarrow> Inr (r, s1)) = Inr (r, s')"
    using g by (simp add: goal_rule_def gn s1)
  then have n: "goal_name md fwd a = Inr n" "stringtab_add n s = (i, s')" "get_ruleid_by_tgt s' i = Some r"
    using gn s1 by (simp_all split: option.splits)
  show c: "collects s s' {}" using st n(2) by (intro collect_name) (simp_all add: stage_ok_def)
  show st': "stage_ok False s'" using stage_string[OF st n(2)] by simp
  have t: "tgts_ok s'" using st' by (simp add: stage_ok_def gb_ok_def)
  have r: "st_ruleid s' i = int r" using n(3) get_ruleid_Some[OF t] by simp
  then show "r < rules_size s'" using tgts_okD(3)[OF t, of i] by simp
  have "i \<in> tgts (rules s' r)" using r tgts_okD(1)[OF t] by simp
  then have "n \<in> rule_tgts s' r" using stringtab_add_ok(3)[OF n(2)] by (auto simp: rule_tgts_def)
  then show "\<exists>n. goal_name md fwd a = Inr n \<and> n \<in> rule_tgts s r"
    using n(1) collects_views(1)[OF st c] by simp
qed

lemma check_goals_ok:
  "stage_ok False s \<Longrightarrow> check_goals md fwd args s = Inr s' \<Longrightarrow>
   stage_ok False s' \<and> same_views s s' \<and> rules_remain_list s' = rules_remain_list s"
proof (induction args arbitrary: s)
  case (Cons a args)
  obtain r s1 where g: "goal_rule md fwd a s = Inr (r, s1)" "check_goals md fwd args s1 = Inr s'"
    using Cons.prems(2) by (auto simp: stir_simps)
  note s1 = goal_rule_ok[OF Cons.prems(1) g(1)]
  show ?case
    using Cons.IH[OF s1(2) g(2)] same_views_trans[OF collects_same[OF Cons.prems(1) s1(1)]] collectsD(7)[OF s1(1)]
    by simp
qed (simp add: same_views_def)

definition goal_rules :: "mode \<Rightarrow> string \<Rightarrow> string list \<Rightarrow> gbase \<Rightarrow> nat set" where
  "goal_rules md fwd args s = {r. \<exists>a \<in> set args. \<exists>n. goal_name md fwd a = Inr n \<and> n \<in> rule_tgts s r}"

lemma add_goals_ok:
  "stage_ok False s \<Longrightarrow> add_goals md fwd args s = Inr s' \<Longrightarrow>
   stage_ok False s' \<and> same_views s s' \<and>
   set (rules_remain_list s') = set (rules_remain_list s) \<union> goal_rules md fwd args s"
proof (induction args arbitrary: s)
  case Nil
  then show ?case by (simp add: same_views_def goal_rules_def)
next
  case (Cons a args)
  obtain r s1 where g: "goal_rule md fwd a s = Inr (r, s1)" "add_goals md fwd args (ruleremain_add r s1) = Inr s'"
    using Cons.prems(2) by (auto simp: stir_simps)
  note s1 = goal_rule_ok[OF Cons.prems(1) g(1)]
  let ?s = "ruleremain_add r s1"
  have v: "same_views s ?s" by (rule same_views_trans[OF collects_same[OF Cons.prems(1) s1(1)] goal_same])
  have IH: "stage_ok False s'" "same_views ?s s'"
    "set (rules_remain_list s') = set (rules_remain_list ?s) \<union> goal_rules md fwd args ?s"
    using Cons.IH[OF stage_goal[OF s1(2,3)] g(2)] by simp_all
  have ok: "gb_ok False s1" using s1(2) by (simp add: stage_ok_def)
  have "\<not> is_executed (rules s1 r)" using gb_okD(1)[OF ok, of r] by (simp add: setup_rule_def raw_rule_def)
  then have "set (rules_remain_list ?s) = insert r (set (rules_remain_list s))"
    using goal_set[OF gb_okD(5)[OF ok]] collectsD(7)[OF s1(1)] by simp
  moreover have "goal_rules md fwd args ?s = goal_rules md fwd args s"
    using v by (simp add: goal_rules_def same_views_def)
  moreover have "goal_rules md fwd (a # args) s = insert r (goal_rules md fwd args s)"
    using s1(4) tgts_unique[OF Cons.prems(1)] by (auto simp: goal_rules_def)
  ultimately show ?case using IH same_views_trans[OF v IH(2)] by auto
qed

lemma select_goals_ok:
  assumes st: "stage_ok False s" and f: "\<forall>r. first = Some r \<longrightarrow> r < rules_size s"
    and g: "select_goals md fwd args first s = Inr s'"
  shows "stage_ok False s'" "same_views s s'"
    "set (rules_remain_list s') = set (rules_remain_list s) \<union>
       (if args = [] then set_option first else goal_rules md fwd args s)"
proof -
  have "stage_ok False s' \<and> same_views s s' \<and> set (rules_remain_list s') = set (rules_remain_list s) \<union>
       (if args = [] then set_option first else goal_rules md fwd args s)"
  proof (cases "args = []")
    case True
    then obtain r where r: "first = Some r" "s' = ruleremain_add r s"
      using g by (auto simp: select_goals_def split: option.splits)
    have ok: "gb_ok False s" using st by (simp add: stage_ok_def)
    have "\<not> is_executed (rules s r)" using gb_okD(1)[OF ok, of r] by (simp add: setup_rule_def raw_rule_def)
    then show ?thesis
      using True r f stage_goal[OF st] goal_same[of s r] goal_set[OF gb_okD(5)[OF ok]] by simp
  next
    case False
    obtain s1 where s1: "check_goals md fwd args s = Inr s1" "add_goals md fwd args s1 = Inr s'"
      using g False by (auto simp: select_goals_def stir_simps)
    note c = check_goals_ok[OF st s1(1)]
    have "goal_rules md fwd args s1 = goal_rules md fwd args s" using c by (simp add: goal_rules_def same_views_def)
    then show ?thesis using add_goals_ok[OF _ s1(2)] c same_views_trans[of s s1 s'] False by simp
  qed
  then show "stage_ok False s'" "same_views s s'"
    "set (rules_remain_list s') = set (rules_remain_list s) \<union>
       (if args = [] then set_option first else goal_rules md fwd args s)" by blast+
qed

section \<open>The whole graph\<close>

lemma tgts_beyond: "gb_ok D g \<Longrightarrow> r \<ge> rules_size g \<Longrightarrow> rule_tgts g r = {}"
  using gb_okD(4)[of D g r] by (simp add: rule_tgts_def)

lemma init_views:
  "rules_size (gbase_init\<lparr> names := tab \<rparr>) = 0" "rules_remain_list (gbase_init\<lparr> names := tab \<rparr>) = []"
  "added (gbase_init\<lparr> names := tab \<rparr>) = {}"
  by (simp_all add: gbase_init_def added_def)

lemma load_graph_exact:
  assumes tab: "distinct tab" and g: "load_graph p (gbase_init\<lparr> names := tab \<rparr>) = Inr g"
  shows "\<exists>bs. stirfile_rules (p_rules p) = Inr bs \<and> is_graph_of p bs g \<and> are_goals_of p bs g"
proof -
  let ?s0 = "gbase_init\<lparr> names := tab \<rparr>"
  obtain f s1 s2 s3 s4 where l: "load_rules (p_fwd_path p) (p_rules p) None ?s0 = Inr (f, s1)"
      "load_deps (p_rules p) s1 = Inr s2" "load_includes (p_includes p) s2 = Inr s3"
      "select_goals (p_mode p) (p_fwd_path p) (p_args p) f s3 = Inr s4"
      "process_additional_deps_2 (p_scope p) s4 = Inr g"
    using g by (auto simp: load_graph_def stir_simps split: if_splits)
  obtain bs where bs: "stirfile_rules (p_rules p) = Inr bs" "stage_ok False s1" "insts_added bs ?s0 s1"
      "f = default_goal (p_fwd_path p) 0 bs"
    using load_rules_insts[OF stage_init[OF tab] l(1)] init_views by auto
  have f: "\<forall>r. f = Some r \<longrightarrow> r < rules_size s1"
    using stage_load_rules[OF stage_init[OF tab, of False], of "p_rules p" None "p_fwd_path p"] l(1) by simp
  have b: "rules_size s1 = length bs" "rules_remain_list s1 = []" "added s1 = {}"
      "\<And>r. r < length bs \<Longrightarrow> rule_tgts s1 r = inst_tgts (bs ! r) \<and> rule_deps s1 r = inst_deps (bs ! r)"
    using bs(3) by (simp_all add: insts_added_def init_views)
  note c2 = load_deps_collects[OF bs(2) l(2), THEN conjunct1] load_deps_collects[OF bs(2) l(2), THEN conjunct2]
  note c3 = load_includes_collects[OF c2(1) l(3), THEN conjunct1] load_includes_collects[OF c2(1) l(3), THEN conjunct2]
  have v3: "rule_tgts s3 = rule_tgts s1" "rule_deps s3 = rule_deps s1" "rules_size s3 = rules_size s1"
      "rules_remain_list s3 = []" "added s3 = extra_deps p"
    using collects_views[OF bs(2) c2(2)] collects_views[OF c2(1) c3(2)] collectsD(5-7)[OF c2(2)]
      collectsD(5-7)[OF c3(2)] b(2,3) by (auto simp: extra_deps_def)
  note s4 = select_goals_ok[OF c3(1) _ l(4), unfolded v3(3,4), OF f]
  have v4: "rule_tgts s4 = rule_tgts s1" "rule_deps s4 = rule_deps s1" "rules_size s4 = length bs"
      "added s4 = extra_deps p"
    using s4(2) v3 b(1) by (simp_all add: same_views_def)
  have ok4: "gb_ok False s4" "names_ok s4" "added_closed s4" using s4(1) by (simp_all add: stage_ok_def)
  have a: "deps_added s4 g" using process_additional_ok[OF ok4, of "p_scope p"] l(5) by auto
  have beyond: "rule_tgts s1 r = {}" if "length bs \<le> r" for r
    using tgts_beyond[of False s4 r] ok4(1) that v4(1,3) by simp
  have T: "rule_tgts s1 r = (if r < length bs then inst_tgts (bs ! r) else {})" for r
    using b(4)[of r] beyond[of r] by simp
  have tk: "taken s4 = (\<Union>i \<in> set bs. inst_tgts i)"
    unfolding taken_def v4(1) T set_conv_nth by (auto split: if_splits)
  have new: "\<forall>r. length bs \<le> r \<and> r < rules_size g \<longrightarrow> is_inc (rules g r) \<and>
      (\<exists>t \<in> fst ` extra_deps p - taken s4. rule_tgts g r = {t} \<and> rule_deps g r = {d. (t, Some d) \<in> extra_deps p})"
    using a unfolding deps_added_def v4 by (elim conjE)
  have "is_graph_of p bs g"
    unfolding is_graph_of_def
  proof (intro conjI allI impI)
    show "length bs \<le> rules_size g" "taken g = (\<Union>i \<in> set bs. inst_tgts i) \<union> fst ` extra_deps p"
      using a by (simp_all add: deps_added_def tk v4)
    fix r
    assume "r < length bs"
    then show "rule_tgts g r = inst_tgts (bs ! r)"
      "rule_deps g r = inst_deps (bs ! r) \<union> {d. \<exists>t \<in> inst_tgts (bs ! r). (t, Some d) \<in> extra_deps p}"
      using a b(4) by (simp_all add: deps_added_def v4)
  next
    fix r
    assume r: "length bs \<le> r \<and> r < rules_size g"
    have "\<exists>t \<in> fst ` extra_deps p - taken s4. rule_tgts g r = {t} \<and> rule_deps g r = {d. (t, Some d) \<in> extra_deps p}"
      using r by (rule new[rule_format, THEN conjunct2])
    then obtain t where t: "t \<in> fst ` extra_deps p - taken s4" "rule_tgts g r = {t}"
        "rule_deps g r = {d. (t, Some d) \<in> extra_deps p}" by (elim bexE conjE)
    have "t \<in> fst ` extra_deps p" by (rule DiffD1[OF t(1)])
    moreover have "\<forall>i \<in> set bs. t \<notin> inst_tgts i" using DiffD2[OF t(1), unfolded tk, of False] by auto
    ultimately show "\<exists>t. t \<in> fst ` extra_deps p \<and> (\<forall>i \<in> set bs. t \<notin> inst_tgts i) \<and> rule_tgts g r = {t} \<and>
           rule_deps g r = {d. (t, Some d) \<in> extra_deps p}"
      using t(2,3) by (intro exI[of _ t] conjI)
  qed
  moreover have "are_goals_of p bs g"
  proof -
    have "rules_remain_list g = rules_remain_list s4" using a by (simp add: deps_added_def)
    moreover have "goal_rules (p_mode p) (p_fwd_path p) (p_args p) s3 =
        {r. r < length bs \<and> (\<exists>a \<in> set (p_args p). \<exists>n. goal_name (p_mode p) (p_fwd_path p) a = Inr n \<and>
              n \<in> inst_tgts (bs ! r))}"
      unfolding goal_rules_def v3(1) T by (auto split: if_splits)
    ultimately show ?thesis using s4(3) bs(4) by (simp add: are_goals_of_def)
  qed
  ultimately show ?thesis using bs(1) by blast
qed

text \<open>
  C2: The graph is the one of the Stirfile: when the construction succeeds, the rules are the instances of the
  Stirfile's rules in order (one for each base of a pattern rule), with exactly the canonical names of
  the targets and dependencies written there; an additional dependency is added to the rule of its target;
  names that only additional dependencies mention get a rule of their own; and the goals are the rules of the
  names on the command line, or the default goal.
\<close>

theorem graph_of_stirfile:
  assumes "distinct tab" "load_graph p (gbase_init\<lparr> names := tab \<rparr>) = Inr g"
  shows "\<exists>bs. stirfile_rules (p_rules p) = Inr bs \<and> is_graph_of p bs g \<and> are_goals_of p bs g"
  using assms by (rule load_graph_exact)

text \<open>\<open>p: o\<close>, \<open>o: c\<close>, and the dependency file \<open>p.d\<close> with \<open>o: h\<close>.\<close>

definition ex_dfile :: parsed where
  "ex_dfile = ex_parsed\<lparr> p_includes := [\<lparr> ci_name = ''p.d'', ci_prefix = ''.'', ci_auto_phony = True,
     ci_auto_target = False, ci_ignore = False, ci_file = Some (''o: h'' @ [nl]) \<rparr>] \<rparr>"

theorem graph_of_stirfile_witness:
  "\<exists>g. load_graph ex_dfile (gbase_init\<lparr> names := [] \<rparr>) = Inr g \<and>
     rule_deps g 1 = {''c'', ''h''} \<and> set (rules_remain_list g) = {0}"
proof -
  have "case load_graph ex_dfile (gbase_init\<lparr> names := [] \<rparr>) of Inl f \<Rightarrow> False | Inr g \<Rightarrow> True"
    by code_simp
  then obtain g where g: "load_graph ex_dfile (gbase_init\<lparr> names := [] \<rparr>) = Inr g" by (auto split: sum.splits)
  have "case stirfile_rules (p_rules ex_dfile) of Inl f \<Rightarrow> False
     | Inr bs \<Rightarrow> length bs = 2 \<and> inst_tgts (bs ! 1) = {''o''} \<and> inst_deps (bs ! 1) = {''c''} \<and>
         default_goal (p_fwd_path ex_dfile) 0 bs = Some 0"
    by code_simp
  moreover obtain bs where bs: "stirfile_rules (p_rules ex_dfile) = Inr bs" "is_graph_of ex_dfile bs g"
      "are_goals_of ex_dfile bs g"
    using graph_of_stirfile[OF _ g] by auto
  ultimately have i: "length bs = 2" "inst_tgts (bs ! 1) = {''o''}" "inst_deps (bs ! 1) = {''c''}"
      "default_goal (p_fwd_path ex_dfile) 0 bs = Some 0"
    by simp_all
  have "incyymineparse (incyy_of (hd (p_includes ex_dfile))) (''o: h'' @ [nl]) = Inr [Inc_Rule, Inc_Tgt ''o'', Inc_Dep ''h'']"
    by code_simp
  then have x: "extra_deps ex_dfile = {(''o'', None), (''o'', Some ''h'')}"
    by (auto simp: extra_deps_def stirfile_deps_def include_deps_def pairs_of_def ex_dfile_def ex_parsed_def
        ex_yrule_def)
  have "rule_deps g 1 = {''c'', ''h''}" using bs(2) i(1-3) by (auto simp: is_graph_of_def x)
  moreover have "p_args ex_dfile = []" by (simp add: ex_dfile_def ex_parsed_def)
  ultimately show ?thesis using g bs(3) i(4) by (auto simp: are_goals_of_def)
qed

end
