(* ===== verification/Stirfile_Tables.thy ===== *)
theory Stirfile_Tables
  imports Graph_Load
begin

text \<open>
  The tables that the actions of the Stirfile grammar fill (\<open>stiryy.h\<close>): rules with their targets, dependencies
  and recipes, \<open>@order\<close> declarations and dependency files.

  An array is the list of its elements together with its capacity, and a store at or past the capacity is an
  access outside the array.  The arrays of a rule grow only while it is the last one, so their capacities are kept beside the
  table: those of its bases, dependencies and targets where the code has them, that of its recipe (\<open>shells.itemcapacity\<close>, which
  the code keeps in the rule) in \<open>m_lastrule_itemcapacity\<close>.  Fields that a function leaves uninitialised and that are never read are \<open>None\<close>
  and \<open>False\<close>.  Operations that the grammar calls through a wrapper with \<open>stiryy->main\<close> and
  \<open>stiryy->curprefix\<close> are stated on these two.
\<close>

section \<open>The state\<close>

record stiryyorder =
  o_rules :: "string list"
  o_rulesnodir :: "string list"

record stiryy_main =
  m_rules :: "stiryyrule list"
  m_rulecapacity :: nat
  m_orders :: "stiryyorder list"
  m_ordercapacity :: nat
  m_lastrule_basecapacity :: nat
  m_lastrule_depcapacity :: nat
  m_lastrule_targetcapacity :: nat
  m_lastrule_itemcapacity :: nat
  m_parsing :: bool
  m_trial :: bool
  m_rule_in_progress :: bool
  m_cdepincludes :: "cdepinclude list"
  m_cdepincludecapacity :: nat

definition stiryy_main_init :: "bool \<Rightarrow> stiryy_main" where
  "stiryy_main_init trial = \<lparr> m_rules = [], m_rulecapacity = 0, m_orders = [], m_ordercapacity = 0,
     m_lastrule_basecapacity = 0, m_lastrule_depcapacity = 0, m_lastrule_targetcapacity = 0,
     m_lastrule_itemcapacity = 0, m_parsing = True, m_trial = trial, m_rule_in_progress = False, m_cdepincludes = [], m_cdepincludecapacity = 0 \<rparr>"

text \<open>The growth that all the arrays share, and the store behind their last element.\<close>

definition grow_cap :: "nat \<Rightarrow> nat \<Rightarrow> nat" where
  "grow_cap sz cap = (if sz \<ge> cap then 2 * cap + 1 else cap)"

definition push_arr :: "nat \<Rightarrow> 'a list \<Rightarrow> 'a \<Rightarrow> (nat \<times> 'a list) res" where
  "push_arr cap xs x =
     (let cap = grow_cap (length xs) cap in if length xs < cap then Inr (cap, xs @ [x]) else Inl Overread)"

definition last_rule :: "stiryy_main \<Rightarrow> stiryyrule res" where
  "last_rule m = (if m_rules m = [] then Inl Overread else Inr (last (m_rules m)))"

definition set_last :: "stiryyrule \<Rightarrow> stiryy_main \<Rightarrow> stiryy_main" where
  "set_last y m = m\<lparr> m_rules := butlast (m_rules m) @ [y] \<rparr>"

section \<open>Rules\<close>

definition empty_rule :: "string \<Rightarrow> nat \<Rightarrow> int \<Rightarrow> stiryyrule" where
  "empty_rule curprefix scope lineno =
     \<lparr> y_bases = [], y_deps = [], y_targets = [], y_shells = [], y_scopeidx = scope, y_prefix = curprefix,
       y_lineno = lineno, y_phony = False, y_rectgt = False, y_detouch = False, y_maybe = False,
       y_dist = False, y_deponly = False, y_iscleanhook = False, y_isdistcleanhook = False,
       y_isbothcleanhook = False, y_ispat = False, y_patfrozen = False \<rparr>"

definition stiryy_main_emplace_rule :: "string \<Rightarrow> nat \<Rightarrow> int \<Rightarrow> stiryy_main \<Rightarrow> stiryy_main res" where
  "stiryy_main_emplace_rule curprefix scope lineno m =
     (if m_trial m then Inr m
      else bind_res (push_arr (m_rulecapacity m) (m_rules m)
          (empty_rule curprefix scope lineno)) (\<lambda>(cap, ys).
        Inr (m\<lparr> m_rulecapacity := cap, m_rules := ys, m_rule_in_progress := True,
               m_lastrule_basecapacity := 0, m_lastrule_depcapacity := 0, m_lastrule_targetcapacity := 0,
               m_lastrule_itemcapacity := 0 \<rparr>)))"

definition stiryy_main_emplace_patrule :: "string \<Rightarrow> nat \<Rightarrow> int \<Rightarrow> stiryy_main \<Rightarrow> stiryy_main res" where
  "stiryy_main_emplace_patrule curprefix scope lineno m =
     (if m_trial m then Inr m
      else bind_res (stiryy_main_emplace_rule curprefix scope lineno m) (\<lambda>m.
        bind_res (last_rule m) (\<lambda>y. Inr (set_last (y\<lparr> y_ispat := True \<rparr>) m))))"

definition stiryy_main_freeze_patrule :: "stiryy_main \<Rightarrow> stiryy_main res" where
  "stiryy_main_freeze_patrule m =
     (if m_trial m then Inr m
      else if m_rules m = [] \<or> \<not> y_ispat (last (m_rules m)) then Inl Aborted
      else Inr (set_last ((last (m_rules m))\<lparr> y_patfrozen := True \<rparr>) m))"

definition push_tgt :: "tgt \<Rightarrow> stiryyrule \<Rightarrow> stiryy_main \<Rightarrow> stiryy_main res" where
  "push_tgt t y m =
     bind_res (push_arr (m_lastrule_targetcapacity m) (y_targets y) t) (\<lambda>(cap, ts).
       Inr (set_last (y\<lparr> y_targets := ts \<rparr>) (m\<lparr> m_lastrule_targetcapacity := cap \<rparr>)))"

definition push_base :: "tgt \<Rightarrow> stiryyrule \<Rightarrow> stiryy_main \<Rightarrow> stiryy_main res" where
  "push_base t y m =
     bind_res (push_arr (m_lastrule_basecapacity m) (y_bases y) t) (\<lambda>(cap, ts).
       Inr (set_last (y\<lparr> y_bases := ts \<rparr>) (m\<lparr> m_lastrule_basecapacity := cap \<rparr>)))"

definition push_dep :: "dep \<Rightarrow> stiryyrule \<Rightarrow> stiryy_main \<Rightarrow> stiryy_main res" where
  "push_dep d y m =
     bind_res (push_arr (m_lastrule_depcapacity m) (y_deps y) d) (\<lambda>(cap, ds).
       Inr (set_last (y\<lparr> y_deps := ds \<rparr>) (m\<lparr> m_lastrule_depcapacity := cap \<rparr>)))"

definition stiryy_main_set_tgt :: "string \<Rightarrow> bool \<Rightarrow> stiryy_main \<Rightarrow> stiryy_main res" where
  "stiryy_main_set_tgt n isdist m =
     (if m_trial m then Inr m
      else bind_res (last_rule m) (\<lambda>y. push_tgt
        \<lparr> t_namenodir = n, t_suffix = None, t_percent_special = False, t_is_dist = isdist \<rparr> y m))"

definition stiryy_main_set_dep :: "string \<Rightarrow> bool \<Rightarrow> bool \<Rightarrow> bool \<Rightarrow> stiryy_main \<Rightarrow> stiryy_main res" where
  "stiryy_main_set_dep n recursive orderonly wait m =
     (if m_trial m then Inr m
      else bind_res (last_rule m) (\<lambda>y. push_dep
        \<lparr> d_namenodir = n, d_suffix = None, d_percent_special = False, d_rec = recursive,
          d_orderonly = orderonly, d_wait = wait \<rparr> y m))"

definition stiryy_main_set_patdep ::
    "string \<Rightarrow> bool \<Rightarrow> bool \<Rightarrow> bool \<Rightarrow> bool \<Rightarrow> stiryy_main \<Rightarrow> stiryy_main res" where
  "stiryy_main_set_patdep n recursive orderonly wait percent_special m =
     (if m_trial m then Inr m
      else bind_res (last_rule m) (\<lambda>y.
        if \<not> y_ispat y \<or> \<not> y_patfrozen y then Inl Aborted
        else push_dep \<lparr> d_namenodir = n, d_suffix = None, d_percent_special = percent_special,
               d_rec = recursive, d_orderonly = orderonly, d_wait = wait \<rparr> y m))"

text \<open>A pattern given as a list, \<open>[prefix, @nil, suffix]\<close>; the directory is put in front and skipped again.\<close>

definition split_pattern :: "string \<Rightarrow> string \<Rightarrow> string \<Rightarrow> (string \<times> string) res" where
  "split_pattern curprefix pre suf =
     (let dir = \<not> (pre \<noteq> [] \<and> hd pre = CHR ''/''); off = (if dir then length curprefix + 1 else 0) in
      bind_res (if dir then pathcat2_buf curprefix pre (Some 1024) else pathcat1_buf pre (Some 1024)) (\<lambda>tmp1.
      bind_res (pathcat1_buf suf (Some 1024)) (\<lambda>tmp2. Inr (drop off tmp1, tmp2))))"

definition stiryy_main_set_patdep2 ::
    "string \<Rightarrow> string \<Rightarrow> string \<Rightarrow> bool \<Rightarrow> bool \<Rightarrow> bool \<Rightarrow> stiryy_main \<Rightarrow> stiryy_main res" where
  "stiryy_main_set_patdep2 curprefix pre suf recursive orderonly wait m =
     (if m_trial m then Inr m
      else bind_res (last_rule m) (\<lambda>y.
        if \<not> y_ispat y \<or> \<not> y_patfrozen y then Inl Aborted
        else bind_res (split_pattern curprefix pre suf) (\<lambda>(n, s).
          push_dep \<lparr> d_namenodir = n, d_suffix = Some s, d_percent_special = False,
               d_rec = recursive, d_orderonly = orderonly, d_wait = wait \<rparr> y m)))"

text \<open>The names before the freezing of a pattern rule are its bases.\<close>

definition stiryy_main_set_pattgt :: "string \<Rightarrow> bool \<Rightarrow> bool \<Rightarrow> stiryy_main \<Rightarrow> stiryy_main res" where
  "stiryy_main_set_pattgt n isdist percent_special m =
     (if m_trial m then Inr m
      else bind_res (last_rule m) (\<lambda>y.
        if \<not> y_ispat y then Inl Aborted
        else if y_patfrozen y then push_tgt
          \<lparr> t_namenodir = n, t_suffix = None, t_percent_special = percent_special, t_is_dist = isdist \<rparr> y m
        else if isdist then Inl Aborted
        else push_base \<lparr> t_namenodir = n, t_suffix = None, t_percent_special = False, t_is_dist = False \<rparr> y m))"

definition stiryy_main_set_pattgt2 :: "string \<Rightarrow> string \<Rightarrow> string \<Rightarrow> bool \<Rightarrow> stiryy_main \<Rightarrow> stiryy_main res" where
  "stiryy_main_set_pattgt2 curprefix pre suf isdist m =
     (if m_trial m then Inr m
      else bind_res (last_rule m) (\<lambda>y.
        if \<not> y_ispat y then Inl Aborted
        else if y_patfrozen y then bind_res (split_pattern curprefix pre suf) (\<lambda>(n, s). push_tgt
          \<lparr> t_namenodir = n, t_suffix = Some s, t_percent_special = False, t_is_dist = isdist \<rparr> y m)
        else Inl (Exited ''Pattern rule bases cannot contain @nil lists'')))"

definition stiryy_main_set_cleanhooktgt :: "string \<Rightarrow> stiryy_main \<Rightarrow> stiryy_main res" where
  "stiryy_main_set_cleanhooktgt n m =
     (if m_trial m then Inr m
      else bind_res (last_rule m) (\<lambda>y.
        bind_res (push_tgt \<lparr> t_namenodir = n @ ''///'', t_suffix = None, t_percent_special = False,
            t_is_dist = False \<rparr> y m) (\<lambda>m. bind_res (last_rule m) (\<lambda>y.
          let y = y\<lparr> y_phony := True \<rparr> in
          if n = ''CLEAN'' then Inr (set_last (y\<lparr> y_iscleanhook := True \<rparr>) m)
          else if n = ''DISTCLEAN'' then Inr (set_last (y\<lparr> y_isdistcleanhook := True \<rparr>) m)
          else if n = ''BOTHCLEAN'' then Inr (set_last (y\<lparr> y_isbothcleanhook := True \<rparr>) m)
          else Inl Aborted))))"

section \<open>Marks\<close>

definition mark_rule :: "(stiryyrule \<Rightarrow> stiryyrule) \<Rightarrow> stiryy_main \<Rightarrow> stiryy_main res" where
  "mark_rule f m = (if m_trial m then Inr m else bind_res (last_rule m) (\<lambda>y. Inr (set_last (f y) m)))"

definition stiryy_mark_phony :: "stiryy_main \<Rightarrow> stiryy_main res" where
  "stiryy_mark_phony = mark_rule (y_phony_update (\<lambda>_. True))"

definition stiryy_mark_dist :: "stiryy_main \<Rightarrow> stiryy_main res" where
  "stiryy_mark_dist = mark_rule (y_dist_update (\<lambda>_. True))"

definition stiryy_mark_maybe :: "stiryy_main \<Rightarrow> stiryy_main res" where
  "stiryy_mark_maybe = mark_rule (y_maybe_update (\<lambda>_. True))"

definition stiryy_mark_rectgt :: "stiryy_main \<Rightarrow> stiryy_main res" where
  "stiryy_mark_rectgt = mark_rule (y_rectgt_update (\<lambda>_. True))"

definition stiryy_mark_detouch :: "stiryy_main \<Rightarrow> stiryy_main res" where
  "stiryy_mark_detouch = mark_rule (y_detouch_update (\<lambda>_. True))"

definition stiryy_main_mark_deponly :: "stiryy_main \<Rightarrow> stiryy_main res" where
  "stiryy_main_mark_deponly = mark_rule (y_deponly_update (\<lambda>_. True))"

section \<open>Orders and dependency files\<close>

definition stiryy_main_add_order :: "stiryy_main \<Rightarrow> stiryy_main res" where
  "stiryy_main_add_order m =
     (if m_trial m then Inr m
      else bind_res (push_arr (m_ordercapacity m) (m_orders m) \<lparr> o_rules = [], o_rulesnodir = [] \<rparr>)
        (\<lambda>(cap, os). Inr (m\<lparr> m_ordercapacity := cap, m_orders := os \<rparr>)))"

definition stiryy_main_set_order :: "string \<Rightarrow> string \<Rightarrow> stiryy_main \<Rightarrow> stiryy_main res" where
  "stiryy_main_set_order curprefix n m =
     (if m_trial m then Inr m
      else if m_orders m = [] then Inl Overread
      else let ord = last (m_orders m) in
        bind_res (canon_buflen (if n \<noteq> [] \<and> hd n = CHR ''/'' then n else curprefix @ CHR ''/'' # n) (Some 1024))
          (\<lambda>(can, _).
            if length (o_rules ord) \<ge> 2 then Inl Aborted
            else Inr (m\<lparr> m_orders := butlast (m_orders m) @
              [\<lparr> o_rules = o_rules ord @ [can], o_rulesnodir = o_rulesnodir ord @ [n] \<rparr>] \<rparr>)))"

definition stiryy_set_cdepinclude :: "string \<Rightarrow> string \<Rightarrow> bool \<Rightarrow> bool \<Rightarrow> bool \<Rightarrow> stiryy_main \<Rightarrow> stiryy_main res" where
  "stiryy_set_cdepinclude curprefix cd auto_phony auto_target ignore m =
     bind_res (push_arr (m_cdepincludecapacity m) (m_cdepincludes m)
         \<lparr> ci_name = cd, ci_prefix = curprefix, ci_auto_phony = auto_phony, ci_auto_target = auto_target,
           ci_ignore = ignore \<rparr>)
       (\<lambda>(cap, cs). Inr (m\<lparr> m_cdepincludecapacity := cap, m_cdepincludes := cs \<rparr>))"

section \<open>Recipes\<close>

text \<open>The array of the items grows in its own way.\<close>

definition grow_items :: "nat \<Rightarrow> nat \<Rightarrow> nat" where
  "grow_items itemsz itemcapacity = (if itemsz \<ge> itemcapacity then 2 * itemcapacity + 2 else itemcapacity)"

definition push_item :: "cmdsrcitem \<Rightarrow> stiryy_main \<Rightarrow> stiryy_main res" where
  "push_item it m =
     (if m_trial m then Inr m
      else bind_res (last_rule m) (\<lambda>y.
        let itemsz = length (y_shells y); itemcapacity = grow_items itemsz (m_lastrule_itemcapacity m) in
        if itemsz < itemcapacity
        then Inr (set_last (y\<lparr> y_shells := y_shells y @ [it] \<rparr>) (m\<lparr> m_lastrule_itemcapacity := itemcapacity \<rparr>))
        else Inl Overread))"

definition code_item :: "bool \<Rightarrow> nat \<Rightarrow> bool \<Rightarrow> bool \<Rightarrow> bool \<Rightarrow> cmdsrcitem" where
  "code_item merge locidx ignore noecho ismake =
     \<lparr> cs_merge = merge, cs_iscode = True, cs_isfun = False, cs_ignore = ignore, cs_noecho = noecho,
       cs_ismake = ismake, cs_capacity = 0, cs_u = Locidx locidx \<rparr>"

definition stiryy_add_shell_attab :: "nat \<Rightarrow> bool \<Rightarrow> bool \<Rightarrow> bool \<Rightarrow> stiryy_main \<Rightarrow> stiryy_main res" where
  "stiryy_add_shell_attab locidx ignore noecho ismake = push_item (code_item False locidx ignore noecho ismake)"

definition stiryy_add_shell_atattab :: "nat \<Rightarrow> bool \<Rightarrow> bool \<Rightarrow> bool \<Rightarrow> stiryy_main \<Rightarrow> stiryy_main res" where
  "stiryy_add_shell_atattab locidx ignore noecho ismake = push_item (code_item True locidx ignore noecho ismake)"

definition stiryy_add_shell_section :: "stiryy_main \<Rightarrow> stiryy_main res" where
  "stiryy_add_shell_section = push_item
     \<lparr> cs_merge = False, cs_iscode = False, cs_isfun = False, cs_ignore = False, cs_noecho = False,
       cs_ismake = False, cs_capacity = 0, cs_u = Args [] \<rparr>"

text \<open>One more argument of the last command, with the terminating null pointer stored behind it.\<close>

definition push_arg :: "string option \<Rightarrow> cmdsrcitem \<Rightarrow> cmdsrcitem res" where
  "push_arg shell it =
     (case cs_u it of
        Args as \<Rightarrow>
          let cap = (if length as \<ge> cs_capacity it then 2 * cs_capacity it + 2 else cs_capacity it) in
          if length as + 1 < cap then Inr (it\<lparr> cs_capacity := cap, cs_u := Args (as @ [shell]) \<rparr>)
          else Inl Overread
      | _ \<Rightarrow> Inl Overread)"

definition stiryy_add_shell :: "string option \<Rightarrow> stiryy_main \<Rightarrow> stiryy_main res" where
  "stiryy_add_shell shell m =
     (if m_trial m then Inr m
      else bind_res (last_rule m) (\<lambda>y.
        if y_shells y = [] then Inl Aborted
        else bind_res (push_arg shell (last (y_shells y))) (\<lambda>it.
          Inr (set_last (y\<lparr> y_shells := butlast (y_shells y) @ [it] \<rparr>) m))))"

section \<open>The check of a rule\<close>

text \<open>Whether the first path is the second or, by its letters, one of the directories above it.\<close>

definition str_covers :: "string \<Rightarrow> string \<Rightarrow> bool" where
  "str_covers can cantgt = (take (length can) cantgt = can \<and>
     (length cantgt = length can \<or> cantgt ! length can = CHR ''/''))"

fun check_tgts :: "string \<Rightarrow> string \<Rightarrow> tgt list \<Rightarrow> bool res" where
  "check_tgts pre can [] = Inr False"
| "check_tgts pre can (t # ts) =
     bind_res (full_name pre (t_namenodir t)) (\<lambda>cantgt.
       if str_covers can cantgt then Inr True else check_tgts pre can ts)"

fun check_deps :: "string \<Rightarrow> tgt list \<Rightarrow> dep list \<Rightarrow> bool res" where
  "check_deps pre ts [] = Inr False"
| "check_deps pre ts (d # ds) =
     (if \<not> d_rec d then check_deps pre ts ds
      else bind_res (full_name pre (d_namenodir d)) (\<lambda>can.
        bind_res (check_tgts pre can ts) (\<lambda>bad. if bad then Inr True else check_deps pre ts ds)))"

text \<open>\<open>True\<close> is the return value -1.\<close>

definition stiryy_check_rule :: "stiryy_main \<Rightarrow> bool res" where
  "stiryy_check_rule m =
     (if m_trial m then Inr False
      else bind_res (last_rule m) (\<lambda>y.
        if y_rectgt y \<or> y_detouch y then Inr False else check_deps (y_prefix y) (y_targets y) (y_deps y)))"

end
