(* ===== verification/Stirfile_Rules.thy ===== *)
theory Stirfile_Rules
  imports Stirfile_Tables
begin

text \<open>
  The calls that the grammar makes for the rules of a Stirfile (\<open>stirrule\<close> in \<open>stiryy.y\<close>) and what the tables
  hold afterwards.
\<close>

section \<open>Calls\<close>

text \<open>\<open>Rule_Done\<close> is the assignment of \<open>rule_in_progress\<close> that ends the actions of a rule.\<close>

datatype stir_call =
    Emplace_Rule nat int
  | Emplace_Patrule nat int
  | Freeze_Patrule
  | Set_Tgt string bool
  | Set_Pattgt string bool bool
  | Set_Pattgt2 string string bool
  | Set_Dep string bool bool bool
  | Set_Patdep string bool bool bool bool
  | Set_Patdep2 string string bool bool bool
  | Set_Cleanhooktgt string
  | Add_Order
  | Set_Order string
  | Set_Cdepinclude string bool bool bool
  | Add_Shell "string option"
  | Add_Shell_Attab nat bool bool bool
  | Add_Shell_Atattab nat bool bool bool
  | Add_Shell_Section
  | Mark_Phony | Mark_Dist | Mark_Maybe | Mark_Rectgt | Mark_Detouch | Mark_Deponly
  | Rule_Done

fun run_call :: "string \<Rightarrow> stir_call \<Rightarrow> stiryy_main \<Rightarrow> stiryy_main res" where
  "run_call p (Emplace_Rule scope lineno) m = stiryy_main_emplace_rule p scope lineno m"
| "run_call p (Emplace_Patrule scope lineno) m = stiryy_main_emplace_patrule p scope lineno m"
| "run_call p Freeze_Patrule m = stiryy_main_freeze_patrule m"
| "run_call p (Set_Tgt n dist) m = stiryy_main_set_tgt n dist m"
| "run_call p (Set_Pattgt n dist pct) m = stiryy_main_set_pattgt n dist pct m"
| "run_call p (Set_Pattgt2 pre suf dist) m = stiryy_main_set_pattgt2 p pre suf dist m"
| "run_call p (Set_Dep n recursive oo w) m = stiryy_main_set_dep n recursive oo w m"
| "run_call p (Set_Patdep n recursive oo w pct) m = stiryy_main_set_patdep n recursive oo w pct m"
| "run_call p (Set_Patdep2 pre suf recursive oo w) m = stiryy_main_set_patdep2 p pre suf recursive oo w m"
| "run_call p (Set_Cleanhooktgt n) m = stiryy_main_set_cleanhooktgt n m"
| "run_call p Add_Order m = stiryy_main_add_order m"
| "run_call p (Set_Order n) m = stiryy_main_set_order p n m"
| "run_call p (Set_Cdepinclude cd ap at ign) m = stiryy_set_cdepinclude p cd ap at ign m"
| "run_call p (Add_Shell s) m = stiryy_add_shell s m"
| "run_call p (Add_Shell_Attab l ign noecho ismake) m = stiryy_add_shell_attab l ign noecho ismake m"
| "run_call p (Add_Shell_Atattab l ign noecho ismake) m = stiryy_add_shell_atattab l ign noecho ismake m"
| "run_call p Add_Shell_Section m = stiryy_add_shell_section m"
| "run_call p Mark_Phony m = stiryy_mark_phony m"
| "run_call p Mark_Dist m = stiryy_mark_dist m"
| "run_call p Mark_Maybe m = stiryy_mark_maybe m"
| "run_call p Mark_Rectgt m = stiryy_mark_rectgt m"
| "run_call p Mark_Detouch m = stiryy_mark_detouch m"
| "run_call p Mark_Deponly m = stiryy_main_mark_deponly m"
| "run_call p Rule_Done m = Inr (m\<lparr> m_rule_in_progress := False \<rparr>)"

text \<open>A call with the directory of the Stirfile that it stands in.\<close>

fun stir_calls :: "(string \<times> stir_call) list \<Rightarrow> stiryy_main \<Rightarrow> stiryy_main res" where
  "stir_calls [] m = Inr m"
| "stir_calls ((p, c) # cs) m = bind_res (run_call p c m) (stir_calls cs)"

lemma stir_calls_append: "stir_calls (as @ bs) m = bind_res (stir_calls as m) (stir_calls bs)"
proof (induction as m rule: stir_calls.induct)
  case (2 p c cs m)
  then show ?case by (cases "run_call p c m") auto
qed simp

section \<open>The arrays\<close>

definition caps_ok :: "stiryy_main \<Rightarrow> bool" where
  "caps_ok m = (length (m_rules m) \<le> m_rulecapacity m \<and> length (m_orders m) \<le> m_ordercapacity m \<and>
     length (m_cdepincludes m) \<le> m_cdepincludecapacity m \<and>
     (m_rules m \<noteq> [] \<longrightarrow> length (y_bases (last (m_rules m))) \<le> m_lastrule_basecapacity m \<and>
        length (y_deps (last (m_rules m))) \<le> m_lastrule_depcapacity m \<and>
        length (y_targets (last (m_rules m))) \<le> m_lastrule_targetcapacity m \<and>
        length (y_shells (last (m_rules m))) \<le> m_lastrule_itemcapacity m))"

lemma push_arr_ok: "length xs \<le> cap \<Longrightarrow> push_arr cap xs x = Inr (grow_cap (length xs) cap, xs @ [x])"
  by (simp add: push_arr_def grow_cap_def)

lemma grow_cap_ge: "sz \<le> cap \<Longrightarrow> Suc sz \<le> grow_cap sz cap"
  by (simp add: grow_cap_def)

lemma grow_items_ge: "sz \<le> cap \<Longrightarrow> sz < grow_items sz cap"
  by (simp add: grow_items_def)

lemma grow_cap_mono: "cap \<le> grow_cap sz cap"
  by (simp add: grow_cap_def)

lemma set_last_simps [simp]:
  "m_rules (set_last y m) = butlast (m_rules m) @ [y]"
  "m_rulecapacity (set_last y m) = m_rulecapacity m"
  "m_orders (set_last y m) = m_orders m"
  "m_ordercapacity (set_last y m) = m_ordercapacity m"
  "m_lastrule_basecapacity (set_last y m) = m_lastrule_basecapacity m"
  "m_lastrule_depcapacity (set_last y m) = m_lastrule_depcapacity m"
  "m_lastrule_targetcapacity (set_last y m) = m_lastrule_targetcapacity m"
  "m_lastrule_itemcapacity (set_last y m) = m_lastrule_itemcapacity m"
  "m_trial (set_last y m) = m_trial m" "m_parsing (set_last y m) = m_parsing m"
  "m_rule_in_progress (set_last y m) = m_rule_in_progress m"
  "m_cdepincludes (set_last y m) = m_cdepincludes m"
  "m_cdepincludecapacity (set_last y m) = m_cdepincludecapacity m"
  by (simp_all add: set_last_def)

lemma last_rule_ok [simp]: "m_rules m \<noteq> [] \<Longrightarrow> last_rule m = Inr (last (m_rules m))"
  by (simp add: last_rule_def)

lemma split_pattern_eq: "split_pattern p pre suf = Inr (pre, suf)"
  by (simp add: split_pattern_def Let_def)

section \<open>One rule at a time\<close>

text \<open>The table is \<open>ys\<close> followed by the rule \<open>y\<close> under construction; the other tables are those of \<open>m0\<close>.\<close>

definition rule_open :: "stiryyrule list \<Rightarrow> stiryyrule \<Rightarrow> stiryy_main \<Rightarrow> stiryy_main \<Rightarrow> bool" where
  "rule_open ys y m0 m = (caps_ok m \<and> \<not> m_trial m \<and> m_rules m = ys @ [y] \<and> m_orders m = m_orders m0 \<and>
     m_cdepincludes m = m_cdepincludes m0 \<and> m_parsing m = m_parsing m0)"

definition edits :: "string \<Rightarrow> stir_call list \<Rightarrow> stiryyrule \<Rightarrow> stiryyrule \<Rightarrow> bool" where
  "edits p cs y y' = (\<forall>ys m0 m. rule_open ys y m0 m \<longrightarrow>
     outcome {} (rule_open ys y' m0) (stir_calls (map (Pair p) cs) m))"

lemma edits_Nil: "edits p [] y y"
  by (simp add: edits_def)

lemma edits_append:
  assumes "edits p as y y1" "edits p bs y1 y2"
  shows "edits p (as @ bs) y y2"
  using assms by (auto simp: edits_def stir_calls_append intro!: outcome_bind)

lemma edits_one:
  assumes "\<And>ys m0 m. rule_open ys y m0 m \<Longrightarrow> outcome {} (rule_open ys y' m0) (run_call p c m)"
  shows "edits p [c] y y'"
proof -
  have "bind_res r (stir_calls []) = r" for r by (cases r) simp_all
  then show ?thesis using assms by (simp add: edits_def)
qed

lemma edits_map:
  assumes "\<And>x y. edits p [f x] y (g x y)"
  shows "edits p (map f xs) y (fold g xs y)"
proof (induction xs arbitrary: y)
  case (Cons x xs)
  then show ?case using edits_append[OF assms Cons.IH] by simp
qed (simp add: edits_Nil)

lemma rule_open_last: "rule_open ys y m0 m \<Longrightarrow> last_rule m = Inr y \<and> \<not> m_trial m"
  by (simp add: rule_open_def)

lemma rule_open_set_last:
  assumes "rule_open ys y m0 m" "y_bases y' = y_bases y" "y_deps y' = y_deps y" "y_targets y' = y_targets y" "y_shells y' = y_shells y"
  shows "rule_open ys y' m0 (set_last y' m)"
  using assms by (auto simp: rule_open_def caps_ok_def)

lemma push_item_open:
  assumes "rule_open ys y m0 m"
  shows "outcome {} (rule_open ys (y\<lparr> y_shells := y_shells y @ [it] \<rparr>) m0) (push_item it m)"
proof -
  have l: "length (y_shells y) \<le> m_lastrule_itemcapacity m" using assms by (auto simp: rule_open_def caps_ok_def)
  then show ?thesis using assms grow_items_ge[OF l] by (auto simp: push_item_def rule_open_last Let_def rule_open_def caps_ok_def)
qed

lemma rule_open_push:
  assumes "rule_open ys y m0 m"
  shows push_tgt_open: "outcome {} (rule_open ys (y\<lparr> y_targets := y_targets y @ [t] \<rparr>) m0) (push_tgt t y m)"
    and push_base_open: "outcome {} (rule_open ys (y\<lparr> y_bases := y_bases y @ [t] \<rparr>) m0) (push_base t y m)"
    and push_dep_open: "outcome {} (rule_open ys (y\<lparr> y_deps := y_deps y @ [d] \<rparr>) m0) (push_dep d y m)"
proof -
  have l: "length (y_targets y) \<le> m_lastrule_targetcapacity m" "length (y_bases y) \<le> m_lastrule_basecapacity m"
    "length (y_deps y) \<le> m_lastrule_depcapacity m"
    using assms by (auto simp: rule_open_def caps_ok_def)
  show "outcome {} (rule_open ys (y\<lparr> y_targets := y_targets y @ [t] \<rparr>) m0) (push_tgt t y m)"
    using assms grow_cap_ge[OF l(1)] by (auto simp: push_tgt_def push_arr_ok[OF l(1)] rule_open_def caps_ok_def)
  show "outcome {} (rule_open ys (y\<lparr> y_bases := y_bases y @ [t] \<rparr>) m0) (push_base t y m)"
    using assms grow_cap_ge[OF l(2)] by (auto simp: push_base_def push_arr_ok[OF l(2)] rule_open_def caps_ok_def)
  show "outcome {} (rule_open ys (y\<lparr> y_deps := y_deps y @ [d] \<rparr>) m0) (push_dep d y m)"
    using assms grow_cap_ge[OF l(3)] by (auto simp: push_dep_def push_arr_ok[OF l(3)] rule_open_def caps_ok_def)
qed

subsection \<open>The calls for the parts of a rule\<close>

definition plain_tgt :: "tgt \<Rightarrow> bool" where
  "plain_tgt t = (t_suffix t = None \<and> \<not> t_percent_special t)"

definition plain_dep :: "dep \<Rightarrow> bool" where
  "plain_dep d = (d_suffix d = None \<and> \<not> d_percent_special d)"

definition tgt_call :: "tgt \<Rightarrow> stir_call" where
  "tgt_call t = Set_Tgt (t_namenodir t) (t_is_dist t)"

definition pattgt_call :: "tgt \<Rightarrow> stir_call" where
  "pattgt_call t = (case t_suffix t of
      None \<Rightarrow> Set_Pattgt (t_namenodir t) (t_is_dist t) (t_percent_special t)
    | Some suf \<Rightarrow> Set_Pattgt2 (t_namenodir t) suf (t_is_dist t))"

text \<open>The names before the freezing are written like the targets, with patterns allowed; the callee ignores that for a base.\<close>

definition base_call :: "tgt \<Rightarrow> stir_call" where
  "base_call t = Set_Pattgt (t_namenodir t) (t_is_dist t) True"

definition dep_call :: "dep \<Rightarrow> stir_call" where
  "dep_call d = Set_Dep (d_namenodir d) (d_rec d) (d_orderonly d) (d_wait d)"

definition patdep_call :: "dep \<Rightarrow> stir_call" where
  "patdep_call d = (case d_suffix d of
      None \<Rightarrow> Set_Patdep (d_namenodir d) (d_rec d) (d_orderonly d) (d_wait d) (d_percent_special d)
    | Some suf \<Rightarrow> Set_Patdep2 (d_namenodir d) suf (d_rec d) (d_orderonly d) (d_wait d))"

definition shell_call :: "cmdsrcitem \<Rightarrow> stir_call" where
  "shell_call it = (case cs_u it of
      Locidx l \<Rightarrow> (if cs_merge it then Add_Shell_Atattab else Add_Shell_Attab) l (cs_ignore it) (cs_noecho it) (cs_ismake it)
    | _ \<Rightarrow> Add_Shell_Section)"

definition mark_calls :: "stiryyrule \<Rightarrow> stir_call list" where
  "mark_calls y =
     (if y_rectgt y then [Mark_Rectgt] else []) @ (if y_detouch y then [Mark_Detouch] else []) @
     (if y_phony y then [Mark_Phony] else []) @ (if y_maybe y then [Mark_Maybe] else []) @
     (if y_dist y then [Mark_Dist] else []) @ (if y_deponly y then [Mark_Deponly] else [])"

definition hook_name :: "stiryyrule \<Rightarrow> string" where
  "hook_name y = (if y_iscleanhook y then ''CLEAN'' else if y_isdistcleanhook y then ''DISTCLEAN'' else ''BOTHCLEAN'')"

text \<open>The calls of \<open>stirrule\<close>: a pattern rule, a hook, or a plain rule with its kind.\<close>

definition rule_calls :: "stiryyrule \<Rightarrow> stir_call list" where
  "rule_calls y =
     (if y_ispat y then
        Emplace_Patrule (y_scopeidx y) (y_lineno y) # map base_call (y_bases y) @ [Freeze_Patrule] @
        map pattgt_call (y_targets y) @ map patdep_call (y_deps y) @ map shell_call (y_shells y) @
        mark_calls y @ [Rule_Done]
      else if is_hook y then
        Emplace_Rule (y_scopeidx y) (y_lineno y) # [Set_Cleanhooktgt (hook_name y)] @ map dep_call (y_deps y) @
        map shell_call (y_shells y) @ [Rule_Done]
      else
        Emplace_Rule (y_scopeidx y) (y_lineno y) # map tgt_call (y_targets y) @ map dep_call (y_deps y) @
        map shell_call (y_shells y) @ mark_calls y @ [Rule_Done])"

text \<open>The rules that the grammar can write down.\<close>

definition code_shell :: "cmdsrcitem \<Rightarrow> bool" where
  "code_shell it = (\<exists>merge l ignore noecho ismake. it = code_item merge l ignore noecho ismake)"

definition hook_tgt :: "string \<Rightarrow> tgt" where
  "hook_tgt n = \<lparr> t_namenodir = n @ ''///'', t_suffix = None, t_percent_special = False, t_is_dist = False \<rparr>"

definition grammar_rule :: "stiryyrule \<Rightarrow> bool" where
  "grammar_rule y = ((\<forall>it \<in> set (y_shells y). code_shell it) \<and>
     (if y_ispat y then y_patfrozen y \<and> \<not> is_hook y \<and>
        (\<forall>b \<in> set (y_bases y). plain_tgt b \<and> \<not> t_is_dist b) \<and>
        (\<forall>t \<in> set (y_targets y). t_suffix t \<noteq> None \<longrightarrow> \<not> t_percent_special t) \<and>
        (\<forall>d \<in> set (y_deps y). d_suffix d \<noteq> None \<longrightarrow> \<not> d_percent_special d)
      else \<not> y_patfrozen y \<and> y_bases y = [] \<and> (\<forall>d \<in> set (y_deps y). plain_dep d) \<and>
        (if is_hook y then
           y_targets y = [hook_tgt (hook_name y)] \<and>
           y_phony y \<and> \<not> y_rectgt y \<and> \<not> y_detouch y \<and> \<not> y_maybe y \<and> \<not> y_dist y \<and> \<not> y_deponly y \<and>
           \<not> (y_iscleanhook y \<and> y_isdistcleanhook y) \<and> \<not> (y_iscleanhook y \<and> y_isbothcleanhook y) \<and>
           \<not> (y_isdistcleanhook y \<and> y_isbothcleanhook y)
         else (\<forall>t \<in> set (y_targets y). plain_tgt t))))"

lemma edits_push:
  "edits p [Set_Tgt n dist] y (y\<lparr> y_targets := y_targets y @
     [\<lparr> t_namenodir = n, t_suffix = None, t_percent_special = False, t_is_dist = dist \<rparr>] \<rparr>)"
  "edits p [Set_Dep n r oo w] y (y\<lparr> y_deps := y_deps y @
     [\<lparr> d_namenodir = n, d_suffix = None, d_percent_special = False, d_rec = r, d_orderonly = oo, d_wait = w \<rparr>] \<rparr>)"
  by (rule edits_one;
      simp add: stiryy_main_set_tgt_def stiryy_main_set_dep_def rule_open_last push_tgt_open push_dep_open)+

lemma edits_pattgt:
  assumes "y_ispat y" "y_patfrozen y" "t_suffix t \<noteq> None \<Longrightarrow> \<not> t_percent_special t"
  shows "edits p [pattgt_call t] y (y\<lparr> y_targets := y_targets y @ [t] \<rparr>)"
  using assms by (intro edits_one, cases t) (auto simp: pattgt_call_def stiryy_main_set_pattgt_def
    stiryy_main_set_pattgt2_def rule_open_last push_tgt_open split_pattern_eq split: option.splits)

lemma edits_patbase:
  assumes "y_ispat y" "\<not> y_patfrozen y" "plain_tgt t" "\<not> t_is_dist t"
  shows "edits p [base_call t] y (y\<lparr> y_bases := y_bases y @ [t] \<rparr>)"
  using assms by (intro edits_one, cases t) (auto simp: base_call_def plain_tgt_def stiryy_main_set_pattgt_def
    rule_open_last push_base_open)

lemma edits_patdep:
  assumes "y_ispat y" "y_patfrozen y" "d_suffix d \<noteq> None \<Longrightarrow> \<not> d_percent_special d"
  shows "edits p [patdep_call d] y (y\<lparr> y_deps := y_deps y @ [d] \<rparr>)"
  using assms by (intro edits_one, cases d) (auto simp: patdep_call_def stiryy_main_set_patdep_def
    stiryy_main_set_patdep2_def rule_open_last push_dep_open split_pattern_eq split: option.splits)

lemma edits_tgt: "plain_tgt t \<Longrightarrow> edits p [tgt_call t] y (y\<lparr> y_targets := y_targets y @ [t] \<rparr>)"
  using edits_push(1)[of p "t_namenodir t" "t_is_dist t" y] by (cases t) (simp add: plain_tgt_def tgt_call_def)

lemma edits_dep: "plain_dep d \<Longrightarrow> edits p [dep_call d] y (y\<lparr> y_deps := y_deps y @ [d] \<rparr>)"
  using edits_push(2)[of p "d_namenodir d" "d_rec d" "d_orderonly d" "d_wait d" y]
  by (cases d) (simp add: plain_dep_def dep_call_def)

lemma edits_shell: "code_shell it \<Longrightarrow> edits p [shell_call it] y (y\<lparr> y_shells := y_shells y @ [it] \<rparr>)"
  by (intro edits_one) (auto simp: code_shell_def shell_call_def code_item_def stiryy_add_shell_attab_def
    stiryy_add_shell_atattab_def intro!: push_item_open)

lemma edits_mark:
  "edits p [Mark_Phony] y (y\<lparr> y_phony := True \<rparr>)" "edits p [Mark_Dist] y (y\<lparr> y_dist := True \<rparr>)"
  "edits p [Mark_Maybe] y (y\<lparr> y_maybe := True \<rparr>)" "edits p [Mark_Rectgt] y (y\<lparr> y_rectgt := True \<rparr>)"
  "edits p [Mark_Detouch] y (y\<lparr> y_detouch := True \<rparr>)" "edits p [Mark_Deponly] y (y\<lparr> y_deponly := True \<rparr>)"
  by (intro edits_one, simp add: stiryy_mark_phony_def stiryy_mark_dist_def stiryy_mark_maybe_def
    stiryy_mark_rectgt_def stiryy_mark_detouch_def stiryy_main_mark_deponly_def mark_rule_def rule_open_last
    rule_open_set_last)+

lemma edits_freeze: "y_ispat y \<Longrightarrow> edits p [Freeze_Patrule] y (y\<lparr> y_patfrozen := True \<rparr>)"
proof (rule edits_one)
  fix ys m0 m
  assume "y_ispat y" and m: "rule_open ys y m0 m"
  then have "m_rules m = ys @ [y]" "\<not> m_trial m" by (simp_all add: rule_open_def)
  then show "outcome {} (rule_open ys (y\<lparr> y_patfrozen := True \<rparr>) m0) (run_call p Freeze_Patrule m)"
    using rule_open_set_last[OF m, of "y\<lparr> y_patfrozen := True \<rparr>"] \<open>y_ispat y\<close>
    by (simp add: stiryy_main_freeze_patrule_def)
qed

lemma edits_done: "edits p [Rule_Done] y y"
  by (intro edits_one) (auto simp: rule_open_def caps_ok_def)

lemma edits_hook:
  "edits p [Set_Cleanhooktgt ''CLEAN''] y
     (y\<lparr> y_targets := y_targets y @ [hook_tgt ''CLEAN''], y_phony := True, y_iscleanhook := True \<rparr>)"
  "edits p [Set_Cleanhooktgt ''DISTCLEAN''] y
     (y\<lparr> y_targets := y_targets y @ [hook_tgt ''DISTCLEAN''], y_phony := True, y_isdistcleanhook := True \<rparr>)"
  "edits p [Set_Cleanhooktgt ''BOTHCLEAN''] y
     (y\<lparr> y_targets := y_targets y @ [hook_tgt ''BOTHCLEAN''], y_phony := True, y_isbothcleanhook := True \<rparr>)"
proof -
  have hook: "edits p [Set_Cleanhooktgt n] y (f (y\<lparr> y_targets := y_targets y @ [hook_tgt n], y_phony := True \<rparr>))"
    if n: "(n = ''CLEAN'' \<and> f = y_iscleanhook_update (\<lambda>_. True)) \<or>
       (n = ''DISTCLEAN'' \<and> f = y_isdistcleanhook_update (\<lambda>_. True)) \<or>
       (n = ''BOTHCLEAN'' \<and> f = y_isbothcleanhook_update (\<lambda>_. True))" for n f
  proof (rule edits_one)
    fix ys m0 m
    assume m: "rule_open ys y m0 m"
    let ?y1 = "y\<lparr> y_targets := y_targets y @ [hook_tgt n] \<rparr>"
    obtain m1 where m1: "push_tgt (hook_tgt n) y m = Inr m1" "rule_open ys ?y1 m0 m1"
      using push_tgt_open[OF m, of "hook_tgt n"] by (cases "push_tgt (hook_tgt n) y m") auto
    have "rule_open ys (f (?y1\<lparr> y_phony := True \<rparr>)) m0 (set_last (f (?y1\<lparr> y_phony := True \<rparr>)) m1)"
      using n by (intro rule_open_set_last[OF m1(2)]) auto
    moreover have "stiryy_main_set_cleanhooktgt n m = Inr (set_last (f (?y1\<lparr> y_phony := True \<rparr>)) m1)"
      unfolding stiryy_main_set_cleanhooktgt_def hook_tgt_def[symmetric]
      using n rule_open_last[OF m] rule_open_last[OF m1(2)] m1(1) by (auto simp: Let_def)
    ultimately show "outcome {} (rule_open ys (f (y\<lparr> y_targets := y_targets y @ [hook_tgt n], y_phony := True \<rparr>)) m0)
        (run_call p (Set_Cleanhooktgt n) m)"
      by simp
  qed
  show "edits p [Set_Cleanhooktgt ''CLEAN''] y
     (y\<lparr> y_targets := y_targets y @ [hook_tgt ''CLEAN''], y_phony := True, y_iscleanhook := True \<rparr>)"
    by (rule hook) simp
  show "edits p [Set_Cleanhooktgt ''DISTCLEAN''] y
     (y\<lparr> y_targets := y_targets y @ [hook_tgt ''DISTCLEAN''], y_phony := True, y_isdistcleanhook := True \<rparr>)"
    by (rule hook) simp
  show "edits p [Set_Cleanhooktgt ''BOTHCLEAN''] y
     (y\<lparr> y_targets := y_targets y @ [hook_tgt ''BOTHCLEAN''], y_phony := True, y_isbothcleanhook := True \<rparr>)"
    by (rule hook) simp
qed

subsection \<open>Lists of calls\<close>

lemma edits_list:
  assumes "\<And>x y. P y \<Longrightarrow> x \<in> set xs \<Longrightarrow> edits p [f x] y (g x y) \<and> P (g x y)" "P y"
  shows "edits p (map f xs) y (fold g xs y)"
  using assms
proof (induction xs arbitrary: y)
  case (Cons x xs)
  have x: "edits p [f x] y (g x y)" "P (g x y)" using Cons.prems(1)[of y x] Cons.prems(2) by simp_all
  have "edits p (map f xs) (g x y) (fold g xs (g x y))" using Cons.IH[OF _ x(2)] Cons.prems(1) by simp
  then show ?case using edits_append[OF x(1)] by simp
qed (simp add: edits_Nil)

lemma fold_tgts: "fold (\<lambda>x y. y\<lparr> y_targets := y_targets y @ [x] \<rparr>) ts y = y\<lparr> y_targets := y_targets y @ ts \<rparr>"
  by (induction ts arbitrary: y) simp_all

lemma fold_bases: "fold (\<lambda>x y. y\<lparr> y_bases := y_bases y @ [x] \<rparr>) ts y = y\<lparr> y_bases := y_bases y @ ts \<rparr>"
  by (induction ts arbitrary: y) simp_all

lemma fold_deps: "fold (\<lambda>x y. y\<lparr> y_deps := y_deps y @ [x] \<rparr>) ds y = y\<lparr> y_deps := y_deps y @ ds \<rparr>"
  by (induction ds arbitrary: y) simp_all

lemma fold_shells: "fold (\<lambda>x y. y\<lparr> y_shells := y_shells y @ [x] \<rparr>) its y = y\<lparr> y_shells := y_shells y @ its \<rparr>"
  by (induction its arbitrary: y) simp_all

lemma edits_tgts: "\<forall>t \<in> set ts. plain_tgt t \<Longrightarrow> edits p (map tgt_call ts) y (y\<lparr> y_targets := y_targets y @ ts \<rparr>)"
  using edits_list[of "\<lambda>_. True" ts p tgt_call "\<lambda>x y. y\<lparr> y_targets := y_targets y @ [x] \<rparr>" y]
  by (simp add: edits_tgt fold_tgts)

lemma edits_deps: "\<forall>d \<in> set ds. plain_dep d \<Longrightarrow> edits p (map dep_call ds) y (y\<lparr> y_deps := y_deps y @ ds \<rparr>)"
  using edits_list[of "\<lambda>_. True" ds p dep_call "\<lambda>x y. y\<lparr> y_deps := y_deps y @ [x] \<rparr>" y]
  by (simp add: edits_dep fold_deps)

lemma edits_shells: "\<forall>it \<in> set its. code_shell it \<Longrightarrow> edits p (map shell_call its) y (y\<lparr> y_shells := y_shells y @ its \<rparr>)"
  using edits_list[of "\<lambda>_. True" its p shell_call "\<lambda>x y. y\<lparr> y_shells := y_shells y @ [x] \<rparr>" y]
  by (simp add: edits_shell fold_shells)

lemma edits_patbases:
  assumes "\<forall>t \<in> set ts. plain_tgt t \<and> \<not> t_is_dist t" "y_ispat y" "\<not> y_patfrozen y"
  shows "edits p (map base_call ts) y (y\<lparr> y_bases := y_bases y @ ts \<rparr>)"
  using edits_list[of "\<lambda>y. y_ispat y \<and> \<not> y_patfrozen y" ts p base_call "\<lambda>x y. y\<lparr> y_bases := y_bases y @ [x] \<rparr>" y] assms
  by (simp add: edits_patbase fold_bases)

lemma edits_pattgts:
  assumes "\<forall>t \<in> set ts. t_suffix t \<noteq> None \<longrightarrow> \<not> t_percent_special t" "y_ispat y" "y_patfrozen y"
  shows "edits p (map pattgt_call ts) y (y\<lparr> y_targets := y_targets y @ ts \<rparr>)"
  using edits_list[of "\<lambda>y. y_ispat y \<and> y_patfrozen y" ts p pattgt_call "\<lambda>x y. y\<lparr> y_targets := y_targets y @ [x] \<rparr>" y] assms
  by (simp add: edits_pattgt fold_tgts)

lemma edits_patdeps:
  assumes "\<forall>d \<in> set ds. d_suffix d \<noteq> None \<longrightarrow> \<not> d_percent_special d" "y_ispat y" "y_patfrozen y"
  shows "edits p (map patdep_call ds) y (y\<lparr> y_deps := y_deps y @ ds \<rparr>)"
  using edits_list[of "\<lambda>y. y_ispat y \<and> y_patfrozen y" ds p patdep_call "\<lambda>x y. y\<lparr> y_deps := y_deps y @ [x] \<rparr>" y] assms
  by (simp add: edits_patdep fold_deps)

lemma edits_marks:
  "edits p (mark_calls z) y (y\<lparr> y_rectgt := y_rectgt y \<or> y_rectgt z,
     y_detouch := y_detouch y \<or> y_detouch z, y_phony := y_phony y \<or> y_phony z, y_maybe := y_maybe y \<or> y_maybe z, y_dist := y_dist y \<or> y_dist z,
     y_deponly := y_deponly y \<or> y_deponly z \<rparr>)"
proof -
  have opt: "edits p (if b then [c] else []) y (f y)"
    if "\<And>y. b \<Longrightarrow> edits p [c] y (f y)" "\<not> b \<Longrightarrow> f y = y" for b c f y
    using that edits_Nil[of p y] by (cases b) auto
  have a: "edits p (if y_rectgt z then [Mark_Rectgt] else []) y (y\<lparr> y_rectgt := y_rectgt y \<or> y_rectgt z \<rparr>)"
    "edits p (if y_detouch z then [Mark_Detouch] else []) y (y\<lparr> y_detouch := y_detouch y \<or> y_detouch z \<rparr>)"
    "edits p (if y_phony z then [Mark_Phony] else []) y (y\<lparr> y_phony := y_phony y \<or> y_phony z \<rparr>)"
    "edits p (if y_maybe z then [Mark_Maybe] else []) y (y\<lparr> y_maybe := y_maybe y \<or> y_maybe z \<rparr>)"
    "edits p (if y_dist z then [Mark_Dist] else []) y (y\<lparr> y_dist := y_dist y \<or> y_dist z \<rparr>)"
    "edits p (if y_deponly z then [Mark_Deponly] else []) y (y\<lparr> y_deponly := y_deponly y \<or> y_deponly z \<rparr>)" for y
    by (rule opt; simp add: edits_mark)+
  show ?thesis
    using edits_append[OF a(1) edits_append[OF a(2) edits_append[OF a(3) edits_append[OF a(4)
      edits_append[OF a(5) a(6)]]]], of y] unfolding mark_calls_def by (simp cong: if_cong)
qed

subsection \<open>A whole rule\<close>

lemma emplace_open:
  assumes "caps_ok m" "\<not> m_trial m"
  shows "outcome {} (rule_open (m_rules m) (empty_rule p scope lineno) m) (run_call p (Emplace_Rule scope lineno) m)"
    and "outcome {} (rule_open (m_rules m) ((empty_rule p scope lineno)\<lparr> y_ispat := True \<rparr>) m)
      (run_call p (Emplace_Patrule scope lineno) m)"
proof -
  have l: "length (m_rules m) \<le> m_rulecapacity m" using assms(1) by (simp add: caps_ok_def)
  have e: "rule_open (m_rules m) (empty_rule p scope lineno) m
      (m\<lparr> m_rulecapacity := grow_cap (length (m_rules m)) (m_rulecapacity m),
          m_rules := m_rules m @ [empty_rule p scope lineno], m_rule_in_progress := True,
          m_lastrule_basecapacity := 0, m_lastrule_depcapacity := 0, m_lastrule_targetcapacity := 0, m_lastrule_itemcapacity := 0 \<rparr>)"
    using assms grow_cap_ge[OF l] by (simp add: rule_open_def caps_ok_def empty_rule_def)
  show "outcome {} (rule_open (m_rules m) (empty_rule p scope lineno) m) (run_call p (Emplace_Rule scope lineno) m)"
    using e assms(2) by (simp add: stiryy_main_emplace_rule_def push_arr_ok[OF l])
  show "outcome {} (rule_open (m_rules m) ((empty_rule p scope lineno)\<lparr> y_ispat := True \<rparr>) m)
      (run_call p (Emplace_Patrule scope lineno) m)"
    using rule_open_set_last[OF e, of "(empty_rule p scope lineno)\<lparr> y_ispat := True \<rparr>"] assms(2)
    by (simp add: stiryy_main_emplace_patrule_def stiryy_main_emplace_rule_def push_arr_ok[OF l])
qed

lemma edits_tail:
  assumes "\<forall>it \<in> set (y_shells z). code_shell it"
  shows "edits p (map shell_call (y_shells z) @ mark_calls z @ [Rule_Done]) y
    (y\<lparr> y_shells := y_shells y @ y_shells z, y_rectgt := y_rectgt y \<or> y_rectgt z,
       y_detouch := y_detouch y \<or> y_detouch z, y_phony := y_phony y \<or> y_phony z, y_maybe := y_maybe y \<or> y_maybe z,
       y_dist := y_dist y \<or> y_dist z, y_deponly := y_deponly y \<or> y_deponly z \<rparr>)"
  using edits_append[OF edits_shells[OF assms, of p y] edits_append[OF edits_marks[where z = z] edits_done]] by simp

lemma edits_plain_rule:
  assumes "grammar_rule y" "\<not> y_ispat y" "\<not> is_hook y"
  shows "edits p (map tgt_call (y_targets y) @ map dep_call (y_deps y) @ map shell_call (y_shells y) @
     mark_calls y @ [Rule_Done]) (empty_rule (y_prefix y) (y_scopeidx y) (y_lineno y)) y"
proof -
  let ?e = "empty_rule (y_prefix y) (y_scopeidx y) (y_lineno y)"
  have g: "\<forall>it \<in> set (y_shells y). code_shell it" "\<forall>d \<in> set (y_deps y). plain_dep d" "\<forall>t \<in> set (y_targets y). plain_tgt t"
    using assms by (auto simp: grammar_rule_def)
  have "edits p (map tgt_call (y_targets y) @ map dep_call (y_deps y) @ map shell_call (y_shells y) @
      mark_calls y @ [Rule_Done]) ?e (?e\<lparr> y_targets := y_targets y, y_deps := y_deps y, y_shells := y_shells y,
        y_rectgt := y_rectgt y, y_detouch := y_detouch y, y_phony := y_phony y, y_maybe := y_maybe y,
        y_dist := y_dist y, y_deponly := y_deponly y \<rparr>)"
    using edits_append[OF edits_tgts[OF g(3), of p ?e] edits_append[OF edits_deps[OF g(2)] edits_tail[OF g(1)]]]
    by (simp add: empty_rule_def)
  moreover have "?e\<lparr> y_targets := y_targets y, y_deps := y_deps y, y_shells := y_shells y,
        y_rectgt := y_rectgt y, y_detouch := y_detouch y, y_phony := y_phony y, y_maybe := y_maybe y,
        y_dist := y_dist y, y_deponly := y_deponly y \<rparr> = y"
    using assms by (cases y) (simp add: empty_rule_def grammar_rule_def is_hook_def)
  ultimately show ?thesis by simp
qed

lemma edits_hook_rule:
  assumes "grammar_rule y" "\<not> y_ispat y" "is_hook y"
  shows "edits p ([Set_Cleanhooktgt (hook_name y)] @ map dep_call (y_deps y) @ map shell_call (y_shells y) @ [Rule_Done])
     (empty_rule (y_prefix y) (y_scopeidx y) (y_lineno y)) y"
proof -
  let ?e = "empty_rule (y_prefix y) (y_scopeidx y) (y_lineno y)"
  let ?h = "?e\<lparr> y_targets := y_targets y, y_phony := True, y_iscleanhook := y_iscleanhook y,
     y_isdistcleanhook := y_isdistcleanhook y, y_isbothcleanhook := y_isbothcleanhook y \<rparr>"
  have g: "\<forall>it \<in> set (y_shells y). code_shell it" "\<forall>d \<in> set (y_deps y). plain_dep d"
    using assms by (auto simp: grammar_rule_def)
  have h: "edits p [Set_Cleanhooktgt (hook_name y)] ?e ?h"
    using assms edits_hook[of p ?e] by (auto simp: grammar_rule_def is_hook_def hook_name_def empty_rule_def)
  have d: "edits p (map dep_call (y_deps y)) ?h (?h\<lparr> y_deps := y_deps y \<rparr>)"
    using edits_deps[OF g(2), of p ?h] by (simp add: empty_rule_def)
  have sh: "edits p (map shell_call (y_shells y)) (?h\<lparr> y_deps := y_deps y \<rparr>) (?h\<lparr> y_deps := y_deps y, y_shells := y_shells y \<rparr>)"
    using edits_shells[OF g(1), of p "?h\<lparr> y_deps := y_deps y \<rparr>"] by (simp add: empty_rule_def)
  note edits_append[OF h edits_append[OF d edits_append[OF sh edits_done]]]
  moreover have "?h\<lparr> y_deps := y_deps y, y_shells := y_shells y \<rparr> = y"
    using assms by (cases y) (simp add: empty_rule_def grammar_rule_def)
  ultimately show ?thesis by metis
qed

lemma edits_pat_rule:
  assumes "grammar_rule y" "y_ispat y"
  shows "edits p (map base_call (y_bases y) @ [Freeze_Patrule] @ map pattgt_call (y_targets y) @
     map patdep_call (y_deps y) @ map shell_call (y_shells y) @ mark_calls y @ [Rule_Done])
     ((empty_rule (y_prefix y) (y_scopeidx y) (y_lineno y))\<lparr> y_ispat := True \<rparr>) y"
proof -
  let ?e = "(empty_rule (y_prefix y) (y_scopeidx y) (y_lineno y))\<lparr> y_ispat := True \<rparr>"
  let ?b = "?e\<lparr> y_bases := y_bases y \<rparr>"
  let ?f = "?b\<lparr> y_patfrozen := True \<rparr>"
  let ?t = "?f\<lparr> y_targets := y_targets y \<rparr>"
  have g: "\<forall>it \<in> set (y_shells y). code_shell it" "\<forall>t \<in> set (y_bases y). plain_tgt t \<and> \<not> t_is_dist t"
    "\<forall>t \<in> set (y_targets y). t_suffix t \<noteq> None \<longrightarrow> \<not> t_percent_special t"
    "\<forall>d \<in> set (y_deps y). d_suffix d \<noteq> None \<longrightarrow> \<not> d_percent_special d"
    using assms by (simp_all add: grammar_rule_def)
  have b: "edits p (map base_call (y_bases y)) ?e ?b" and f: "edits p [Freeze_Patrule] ?b ?f"
    and t: "edits p (map pattgt_call (y_targets y)) ?f ?t"
    and d: "edits p (map patdep_call (y_deps y)) ?t (?t\<lparr> y_deps := y_deps y \<rparr>)"
    using edits_patbases[OF g(2), of ?e] edits_freeze[of ?b] edits_pattgts[OF g(3), of ?f] edits_patdeps[OF g(4), of ?t]
    by (simp_all add: empty_rule_def)
  have tail: "edits p (map shell_call (y_shells y) @ mark_calls y @ [Rule_Done]) (?t\<lparr> y_deps := y_deps y \<rparr>)
     (?t\<lparr> y_deps := y_deps y, y_shells := y_shells y, y_rectgt := y_rectgt y, y_detouch := y_detouch y,
        y_phony := y_phony y, y_maybe := y_maybe y, y_dist := y_dist y, y_deponly := y_deponly y \<rparr>)"
    using edits_tail[OF g(1), of p "?t\<lparr> y_deps := y_deps y \<rparr>"] by (simp add: empty_rule_def)
  note edits_append[OF b edits_append[OF f edits_append[OF t edits_append[OF d tail]]]]
  moreover have "?t\<lparr> y_deps := y_deps y, y_shells := y_shells y, y_rectgt := y_rectgt y, y_detouch := y_detouch y,
        y_phony := y_phony y, y_maybe := y_maybe y, y_dist := y_dist y, y_deponly := y_deponly y \<rparr> = y"
    using assms by (cases y) (simp add: empty_rule_def grammar_rule_def is_hook_def)
  ultimately show ?thesis by metis
qed


lemma rule_calls_done: "\<exists>cs. rule_calls y = cs @ [Rule_Done]"
  unfolding rule_calls_def
  by (rule exI[where x = "butlast (rule_calls y)"]) (simp add: rule_calls_def butlast_append)

lemma done_not_in_progress:
  assumes "outcome {} P (stir_calls (map (Pair p) (cs @ [Rule_Done])) m)"
  shows "outcome {} (\<lambda>m'. P m' \<and> \<not> m_rule_in_progress m') (stir_calls (map (Pair p) (cs @ [Rule_Done])) m)"
  using assms by (cases "stir_calls (map (Pair p) cs) m") (simp_all add: stir_calls_append)

lemma rule_calls_ok:
  assumes "grammar_rule y" "caps_ok m" "\<not> m_trial m"
  shows "outcome {} (\<lambda>m'. rule_open (m_rules m) y m m' \<and> \<not> m_rule_in_progress m')
     (stir_calls (map (Pair (y_prefix y)) (rule_calls y)) m)"
proof -
  let ?p = "y_prefix y"
  have chain: "outcome {} (rule_open (m_rules m) y m) (stir_calls (map (Pair ?p) (c # cs)) m)"
    if "outcome {} (rule_open (m_rules m) e m) (run_call ?p c m)" "edits ?p cs e y" for c cs e
    using that by (auto simp: edits_def intro!: outcome_bind)
  note em = emplace_open[OF assms(2,3), of ?p "y_scopeidx y" "y_lineno y"]
  have "outcome {} (rule_open (m_rules m) y m) (stir_calls (map (Pair ?p) (rule_calls y)) m)"
    using chain[OF em(1) edits_plain_rule[OF assms(1)]] chain[OF em(1) edits_hook_rule[OF assms(1)]]
      chain[OF em(2) edits_pat_rule[OF assms(1)]]
    unfolding rule_calls_def by (simp split: if_split)
  moreover obtain cs where "rule_calls y = cs @ [Rule_Done]" using rule_calls_done by blast
  ultimately show ?thesis using done_not_in_progress[where P = "rule_open (m_rules m) y m"] by simp
qed

definition file_calls :: "stiryyrule list \<Rightarrow> (string \<times> stir_call) list" where
  "file_calls ys = concat (map (\<lambda>y. map (Pair (y_prefix y)) (rule_calls y)) ys)"

definition tables_of :: "stiryyrule list \<Rightarrow> stiryy_main \<Rightarrow> stiryy_main \<Rightarrow> bool" where
  "tables_of ys m m' = (caps_ok m' \<and> \<not> m_trial m' \<and> m_rules m' = m_rules m @ ys \<and> m_orders m' = m_orders m \<and>
     m_cdepincludes m' = m_cdepincludes m \<and> m_parsing m' = m_parsing m \<and>
     m_rule_in_progress m' = (ys = [] \<and> m_rule_in_progress m))"

lemma file_calls_ok:
  "\<forall>y \<in> set ys. grammar_rule y \<Longrightarrow> caps_ok m \<Longrightarrow> \<not> m_trial m \<Longrightarrow>
   outcome {} (tables_of ys m) (stir_calls (file_calls ys) m)"
proof (induction ys arbitrary: m)
  case Nil
  then show ?case by (simp add: file_calls_def tables_of_def)
next
  case (Cons y ys)
  have y: "outcome {} (\<lambda>m'. rule_open (m_rules m) y m m' \<and> \<not> m_rule_in_progress m')
     (stir_calls (map (Pair (y_prefix y)) (rule_calls y)) m)"
    using rule_calls_ok Cons.prems by simp
  have "outcome {} (tables_of (y # ys) m) (stir_calls (file_calls ys) m1)"
    if "rule_open (m_rules m) y m m1 \<and> \<not> m_rule_in_progress m1" for m1
    using Cons.IH[of m1] Cons.prems that
    by (auto simp: rule_open_def tables_of_def elim!: outcome_mono)
  from outcome_bind[OF y this] show ?case by (simp add: file_calls_def stir_calls_append)
qed

text \<open>
  C24: The rules of a Stirfile reach the table as they are written: the calls that the grammar makes for a list of
  rules, plain ones, hooks and pattern rules with their bases, all end without a failure, append exactly
  these rules to the table, leave the other tables alone, keep every array within its capacity and leave
  no rule in progress.
\<close>

theorem stirfile_calls:
  assumes "\<forall>y \<in> set ys. grammar_rule y" "caps_ok m" "\<not> m_trial m"
  shows "\<exists>m'. stir_calls (file_calls ys) m = Inr m' \<and> m_rules m' = m_rules m @ ys \<and> m_orders m' = m_orders m \<and>
    m_cdepincludes m' = m_cdepincludes m \<and> caps_ok m' \<and> m_rule_in_progress m' = (ys = [] \<and> m_rule_in_progress m)"
  using file_calls_ok[OF assms] by (cases "stir_calls (file_calls ys) m") (auto simp: tables_of_def)

text \<open>A plain rule \<open>p: c\<close> with a recipe and a distribution target, and a pattern rule for two bases.\<close>

definition ex_plain :: stiryyrule where
  "ex_plain = (empty_rule ''.'' 0 1)\<lparr>
     y_targets := [\<lparr> t_namenodir = ''p'', t_suffix = None, t_percent_special = False, t_is_dist = True \<rparr>],
     y_deps := [\<lparr> d_namenodir = ''c'', d_suffix = None, d_percent_special = False, d_rec = True,
       d_orderonly = False, d_wait = False \<rparr>],
     y_shells := [code_item False 7 True False False], y_maybe := True \<rparr>"

definition ex_pattern :: stiryyrule where
  "ex_pattern = (empty_rule ''d'' 0 5)\<lparr>
     y_bases := map (\<lambda>n. \<lparr> t_namenodir = n, t_suffix = None, t_percent_special = False, t_is_dist = False \<rparr>)
       [''a.o'', ''b.o''],
     y_targets := [\<lparr> t_namenodir = ''%.o'', t_suffix = None, t_percent_special = True, t_is_dist = False \<rparr>],
     y_deps := [\<lparr> d_namenodir = '''', d_suffix = Some ''.c'', d_percent_special = False, d_rec = False,
       d_orderonly = False, d_wait = False \<rparr>], y_ispat := True, y_patfrozen := True \<rparr>"

theorem stirfile_calls_witness:
  "\<exists>m. stir_calls (file_calls [ex_plain, ex_pattern]) (stiryy_main_init False) = Inr m \<and>
     m_rules m = [ex_plain, ex_pattern]"
proof -
  have "code_shell (code_item False 7 True False False)" unfolding code_shell_def by blast
  then have "\<forall>y \<in> set [ex_plain, ex_pattern]. grammar_rule y"
    by (simp add: grammar_rule_def ex_plain_def ex_pattern_def empty_rule_def is_hook_def plain_tgt_def plain_dep_def)
  then have "\<exists>m'. stir_calls (file_calls [ex_plain, ex_pattern]) (stiryy_main_init False) = Inr m' \<and>
      m_rules m' = m_rules (stiryy_main_init False) @ [ex_plain, ex_pattern]"
    using stirfile_calls[of "[ex_plain, ex_pattern]" "stiryy_main_init False"]
    by (auto simp: caps_ok_def stiryy_main_init_def)
  then show ?thesis by (simp add: stiryy_main_init_def)
qed

section \<open>Any order of calls\<close>

text \<open>
  What a call needs: a rule to work on, or an order declaration.  \<open>Add_Shell\<close> is left out; it stores behind
  the array.
\<close>

fun needs_rule :: "stir_call \<Rightarrow> bool" where
  "needs_rule (Emplace_Rule _ _) = False"
| "needs_rule (Emplace_Patrule _ _) = False"
| "needs_rule Freeze_Patrule = False"
| "needs_rule Add_Order = False"
| "needs_rule (Set_Order _) = False"
| "needs_rule (Set_Cdepinclude _ _ _ _) = False"
| "needs_rule Rule_Done = False"
| "needs_rule _ = True"

fun adds_rule :: "stir_call \<Rightarrow> bool" where
  "adds_rule (Emplace_Rule _ _) = True"
| "adds_rule (Emplace_Patrule _ _) = True"
| "adds_rule _ = False"

fun protocol :: "bool \<Rightarrow> bool \<Rightarrow> (string \<times> stir_call) list \<Rightarrow> bool" where
  "protocol has_rule has_order [] = True"
| "protocol has_rule has_order ((p, c) # cs) =
     ((needs_rule c \<longrightarrow> has_rule) \<and> (case c of Set_Order _ \<Rightarrow> has_order | Add_Shell _ \<Rightarrow> False | _ \<Rightarrow> True) \<and>
      protocol (has_rule \<or> adds_rule c) (has_order \<or> c = Add_Order) cs)"


text \<open>What the calls keep: the arrays fit, and there is a rule or an order declaration when one was added.\<close>

definition tables_ok :: "bool \<Rightarrow> bool \<Rightarrow> stiryy_main \<Rightarrow> bool" where
  "tables_ok has_rule has_order m = (caps_ok m \<and> (\<not> m_trial m \<longrightarrow> (has_rule \<longrightarrow> m_rules m \<noteq> []) \<and> (has_order \<longrightarrow> m_orders m \<noteq> [])))"

abbreviation stir_refusals :: "cfail set" where
  "stir_refusals \<equiv> {Aborted, Exited ''Pattern rule bases cannot contain @nil lists''}"

lemma tables_ok_open:
  assumes "tables_ok True b m" "\<not> m_trial m"
  obtains "rule_open (butlast (m_rules m)) (last (m_rules m)) m m" "m_rules m \<noteq> []"
  using assms by (auto simp: tables_ok_def rule_open_def)

lemma rule_open_tables:
  "rule_open ys y m m' \<Longrightarrow> tables_ok a b m \<Longrightarrow> \<not> m_trial m \<Longrightarrow> tables_ok True b m'"
  by (auto simp: rule_open_def tables_ok_def)

lemma tables_ok_weaken: "tables_ok True b m \<Longrightarrow> tables_ok a b m"
  by (simp add: tables_ok_def)

text \<open>A call that works on the last rule.\<close>

lemma last_call_ok:
  assumes "tables_ok True b m"
    and "\<And>ys y. rule_open ys y m m \<Longrightarrow> outcome stir_refusals (\<lambda>m'. \<exists>y'. rule_open ys y' m m') (run_call p c m)"
    and "m_trial m \<Longrightarrow> run_call p c m = Inr m"
  shows "outcome stir_refusals (tables_ok True b) (run_call p c m)"
proof (cases "m_trial m")
  case True
  then show ?thesis using assms(1,3) by simp
next
  case False
  then obtain o: "rule_open (butlast (m_rules m)) (last (m_rules m)) m m"
    using tables_ok_open[OF assms(1)] by blast
  show ?thesis by (rule outcome_mono[OF assms(2)[OF o]]) (use rule_open_tables assms(1) False in blast)
qed


lemma opened: "outcome {} (rule_open ys y' m0) r \<Longrightarrow> outcome stir_refusals (\<lambda>m'. \<exists>y'. rule_open ys y' m0 m') r"
  by (cases r) auto

lemma opened_edit:
  "edits p [c] y y' \<Longrightarrow> rule_open ys y m m \<Longrightarrow> outcome stir_refusals (\<lambda>m'. \<exists>y'. rule_open ys y' m m') (run_call p c m)"
proof -
  have "bind_res r (stir_calls []) = r" for r by (cases r) simp_all
  then show "edits p [c] y y' \<Longrightarrow> rule_open ys y m m \<Longrightarrow> ?thesis" by (auto simp: edits_def intro: opened)
qed

lemma rule_call_open:
  assumes m: "rule_open ys y m m" and c: "needs_rule c" "\<forall>s. c \<noteq> Add_Shell s"
  shows "outcome stir_refusals (\<lambda>m'. \<exists>y'. rule_open ys y' m m') (run_call p c m)"
proof -
  note l = rule_open_last[OF m]
  note push = opened[OF push_tgt_open[OF m]] opened[OF push_base_open[OF m]] opened[OF push_dep_open[OF m]]
    opened[OF push_item_open[OF m]]
  have sl: "\<exists>y''. rule_open ys y'' m (set_last y' m)"
    if "y_bases y' = y_bases y" "y_deps y' = y_deps y" "y_targets y' = y_targets y" "y_shells y' = y_shells y" for y'
    using rule_open_set_last[OF m that] by blast
  show ?thesis
  proof (cases c)
    case (Set_Cleanhooktgt n)
    obtain m1 where m1: "push_tgt (hook_tgt n) y m = Inr m1" "rule_open ys (y\<lparr> y_targets := y_targets y @ [hook_tgt n] \<rparr>) m m1"
      using push_tgt_open[OF m, of "hook_tgt n"] by (cases "push_tgt (hook_tgt n) y m") auto
    have s1: "\<exists>y''. rule_open ys y'' m (set_last y' m1)"
      if "y_bases y' = y_bases y" "y_deps y' = y_deps y" "y_targets y' = y_targets y @ [hook_tgt n]" "y_shells y' = y_shells y" for y'
      using rule_open_set_last[OF m1(2), of y'] that by auto
    show ?thesis
      unfolding Set_Cleanhooktgt using l rule_open_last[OF m1(2)] m1(1) s1
      by (simp add: stiryy_main_set_cleanhooktgt_def hook_tgt_def[symmetric] Let_def)
  qed (use c l push sl in \<open>simp_all add: stiryy_main_set_tgt_def stiryy_main_set_pattgt_def
      stiryy_main_set_pattgt2_def stiryy_main_set_dep_def stiryy_main_set_patdep_def stiryy_main_set_patdep2_def
      stiryy_add_shell_attab_def stiryy_add_shell_atattab_def stiryy_add_shell_section_def
      stiryy_mark_phony_def stiryy_mark_dist_def stiryy_mark_maybe_def stiryy_mark_rectgt_def
      stiryy_mark_detouch_def stiryy_main_mark_deponly_def mark_rule_def split_pattern_eq\<close>)
qed

lemma trial_call: "m_trial m \<Longrightarrow> needs_rule c \<Longrightarrow> run_call p c m = Inr m"
  by (cases c) (simp_all add: stiryy_main_set_tgt_def stiryy_main_set_pattgt_def
      stiryy_main_set_pattgt2_def stiryy_main_set_dep_def stiryy_main_set_patdep_def stiryy_main_set_patdep2_def
      stiryy_main_set_cleanhooktgt_def stiryy_add_shell_def
      stiryy_add_shell_attab_def stiryy_add_shell_atattab_def stiryy_add_shell_section_def push_item_def
      stiryy_mark_phony_def stiryy_mark_dist_def stiryy_mark_maybe_def stiryy_mark_rectgt_def
      stiryy_mark_detouch_def stiryy_main_mark_deponly_def mark_rule_def)

lemma cdepinclude_ok:
  assumes "tables_ok a b m"
  shows "outcome F (tables_ok a b) (stiryy_set_cdepinclude p cd ap at ign m)"
proof -
  have l: "length (m_cdepincludes m) \<le> m_cdepincludecapacity m" using assms by (simp add: tables_ok_def caps_ok_def)
  then show ?thesis using assms grow_cap_ge[OF l]
    by (simp add: stiryy_set_cdepinclude_def push_arr_ok[OF l] tables_ok_def caps_ok_def)
qed

lemma add_order_ok:
  assumes "tables_ok a b m"
  shows "outcome F (tables_ok a True) (stiryy_main_add_order m)"
proof -
  have l: "length (m_orders m) \<le> m_ordercapacity m" using assms by (simp add: tables_ok_def caps_ok_def)
  then show ?thesis using assms grow_cap_ge[OF l]
    by (simp add: stiryy_main_add_order_def push_arr_ok[OF l] tables_ok_def caps_ok_def)
qed

lemma free_call_ok:
  assumes m: "tables_ok a b m" and c: "\<not> needs_rule c" "\<forall>n. c = Set_Order n \<longrightarrow> b"
  shows "outcome stir_refusals (tables_ok (a \<or> adds_rule c) (b \<or> c = Add_Order)) (run_call p c m)"
proof (cases "m_trial m")
  case True
  then show ?thesis using m c cdepinclude_ok[OF m]
    by (cases c) (simp_all add: tables_ok_def caps_ok_def stiryy_main_emplace_rule_def stiryy_main_emplace_patrule_def
      stiryy_main_freeze_patrule_def stiryy_main_add_order_def stiryy_main_set_order_def)
next
  case False
  have caps: "caps_ok m" using m by (simp add: tables_ok_def)
  note em = emplace_open[OF caps False]
  show ?thesis
  proof (cases c)
    case (Emplace_Rule scope l)
    have "outcome {} (tables_ok True b) (run_call p c m)" unfolding Emplace_Rule
      by (rule outcome_mono[OF em(1)]) (rule rule_open_tables[OF _ m False])
    then show ?thesis unfolding Emplace_Rule by (cases "run_call p (Emplace_Rule scope l) m") simp_all
  next
    case (Emplace_Patrule scope l)
    have "outcome {} (tables_ok True b) (run_call p c m)" unfolding Emplace_Patrule
      by (rule outcome_mono[OF em(2)]) (rule rule_open_tables[OF _ m False])
    then show ?thesis unfolding Emplace_Patrule by (cases "run_call p (Emplace_Patrule scope l) m") simp_all
  next
    case (Set_Order n)
    then show ?thesis using m c False
      by (auto simp: tables_ok_def caps_ok_def stiryy_main_set_order_def Let_def canon_buflen_spec)
  next
    case Freeze_Patrule
    then show ?thesis using m False by (auto simp: tables_ok_def caps_ok_def stiryy_main_freeze_patrule_def)
  next
    case Add_Order
    then show ?thesis using add_order_ok[OF m] by simp
  next
    case (Set_Cdepinclude cd ap at ign)
    then show ?thesis using cdepinclude_ok[OF m] by simp
  next
    case Rule_Done
    then show ?thesis using m False by (auto simp: tables_ok_def caps_ok_def)
  qed (use c in simp_all)
qed

lemma call_ok:
  assumes m: "tables_ok a b m" and c: "needs_rule c \<longrightarrow> a" "\<forall>n. c = Set_Order n \<longrightarrow> b" "\<forall>s. c \<noteq> Add_Shell s"
  shows "outcome stir_refusals (tables_ok (a \<or> adds_rule c) (b \<or> c = Add_Order)) (run_call p c m)"
proof (cases "needs_rule c")
  case True
  then have "c \<noteq> Add_Order" "\<not> adds_rule c" by (cases c; simp)+
  moreover have "outcome stir_refusals (tables_ok True b) (run_call p c m)"
    using last_call_ok[of b m p c] rule_call_open[OF _ True] trial_call[OF _ True] m c True
    by (auto simp: tables_ok_def rule_open_def)
  ultimately show ?thesis using c True by simp
qed (rule free_call_ok[OF m _ c(2)])

lemma protocol_ok:
  "protocol a b cs \<Longrightarrow> tables_ok a b m \<Longrightarrow> outcome stir_refusals caps_ok (stir_calls cs m)"
proof (induction cs arbitrary: a b m)
  case Nil
  then show ?case by (simp add: tables_ok_def)
next
  case (Cons pc cs)
  obtain p c where pc: "pc = (p, c)" by (cases pc)
  have c: "needs_rule c \<longrightarrow> a" "\<forall>n. c = Set_Order n \<longrightarrow> b" "\<forall>s. c \<noteq> Add_Shell s"
    and cs: "protocol (a \<or> adds_rule c) (b \<or> c = Add_Order) cs" using Cons.prems(1) pc by auto
  from outcome_bind[OF call_ok[OF Cons.prems(2) c] Cons.IH[OF cs]] show ?case using pc by simp
qed

lemma trial_keeps:
  assumes "m_trial m"
  shows "outcome UNIV (\<lambda>m'. m_trial m' \<and> m_rules m' = m_rules m \<and> m_orders m' = m_orders m) (run_call p c m)"
proof (cases "needs_rule c")
  case True
  then show ?thesis using assms trial_call[OF assms True] by simp
next
  case False
  have "outcome UNIV (\<lambda>m'. m_trial m' \<and> m_rules m' = m_rules m \<and> m_orders m' = m_orders m)
      (stiryy_set_cdepinclude q cd ap at ign m)" for q cd ap at ign
    using assms by (simp add: stiryy_set_cdepinclude_def push_arr_def Let_def)
  with False assms show ?thesis
    by (cases c) (simp_all add: stiryy_main_emplace_rule_def stiryy_main_emplace_patrule_def
      stiryy_main_freeze_patrule_def stiryy_main_add_order_def stiryy_main_set_order_def)
qed

lemma trial_calls:
  "m_trial m \<Longrightarrow> outcome UNIV (\<lambda>m'. m_rules m' = m_rules m \<and> m_orders m' = m_orders m) (stir_calls cs m)"
proof (induction cs arbitrary: m)
  case (Cons pc cs)
  obtain p c where pc: "pc = (p, c)" by (cases pc)
  have "outcome UNIV (\<lambda>m'. m_rules m' = m_rules m \<and> m_orders m' = m_orders m) (stir_calls cs m1)"
    if "m_trial m1 \<and> m_rules m1 = m_rules m \<and> m_orders m1 = m_orders m" for m1
    using Cons.IH[of m1] that by simp
  from outcome_bind[OF trial_keeps[OF Cons.prems] this] show ?case using pc by simp
qed simp

text \<open>An order declaration has room for two names.\<close>

definition orders_fit :: "stiryy_main \<Rightarrow> bool" where
  "orders_fit m = (\<forall>ord \<in> set (m_orders m). length (o_rules ord) \<le> 2 \<and> length (o_rulesnodir ord) = length (o_rules ord))"

abbreviation same_orders :: "stiryy_main \<Rightarrow> stiryy_main res \<Rightarrow> bool" where
  "same_orders m \<equiv> outcome UNIV (\<lambda>m'. m_orders m' = m_orders m)"

lemma push_orders:
  "same_orders m (push_tgt t y m)" "same_orders m (push_base t y m)" "same_orders m (push_dep d y m)"
  "same_orders m (push_item it m)" "same_orders m (mark_rule f m)"
  by (simp_all add: push_tgt_def push_base_def push_dep_def push_item_def mark_rule_def push_arr_def last_rule_def Let_def)

lemma rule_call_orders: "needs_rule c \<Longrightarrow> same_orders m (run_call p c m)"
proof (cases c)
  case (Set_Cleanhooktgt n)
  obtain r where r: "push_tgt (hook_tgt n) (last (m_rules m)) m = r" "same_orders m r" using push_orders(1) by blast
  show ?thesis unfolding Set_Cleanhooktgt using r
    by (cases r) (auto simp: stiryy_main_set_cleanhooktgt_def hook_tgt_def[symmetric] last_rule_def Let_def)
next
  case (Add_Shell s)
  have "same_orders m (bind_res r (\<lambda>it. Inr (set_last (f it) m)))" for r :: "cmdsrcitem res" and f by (cases r) auto
  then show ?thesis unfolding Add_Shell by (simp add: stiryy_add_shell_def last_rule_def)
qed (simp_all add: push_orders stiryy_main_set_tgt_def stiryy_main_set_pattgt_def
    stiryy_main_set_pattgt2_def stiryy_main_set_dep_def stiryy_main_set_patdep_def stiryy_main_set_patdep2_def
    stiryy_add_shell_attab_def stiryy_add_shell_atattab_def stiryy_add_shell_section_def
    stiryy_mark_phony_def stiryy_mark_dist_def stiryy_mark_maybe_def stiryy_mark_rectgt_def
    stiryy_mark_detouch_def stiryy_main_mark_deponly_def split_pattern_eq last_rule_def)

lemma orders_call:
  assumes "orders_fit m"
  shows "outcome UNIV orders_fit (run_call p c m)"
proof (cases "needs_rule c")
  case True
  show ?thesis by (rule outcome_mono[OF rule_call_orders[OF True]]) (use assms in \<open>simp add: orders_fit_def\<close>)
next
  case False
  have em: "same_orders m (stiryy_main_emplace_rule p scope l m)" for scope l
    by (simp add: stiryy_main_emplace_rule_def push_arr_def Let_def)
  have b: "\<forall>ord \<in> set (butlast (m_orders m)). length (o_rules ord) \<le> 2 \<and> length (o_rulesnodir ord) = length (o_rules ord)"
    using assms by (auto simp: orders_fit_def dest: in_set_butlastD)
  have l: "m_orders m \<noteq> [] \<Longrightarrow> length (o_rulesnodir (last (m_orders m))) = length (o_rules (last (m_orders m)))"
    using assms by (simp add: orders_fit_def)
  show ?thesis
  proof (cases c)
    case (Emplace_Patrule scope l)
    show ?thesis unfolding Emplace_Patrule using em[of scope l] assms
      by (cases "stiryy_main_emplace_rule p scope l m") (auto simp: stiryy_main_emplace_patrule_def orders_fit_def last_rule_def)
  next
    case (Emplace_Rule scope l)
    show ?thesis unfolding Emplace_Rule run_call.simps
      by (rule outcome_mono[OF em]) (use assms in \<open>simp add: orders_fit_def\<close>)
  next
    case (Set_Order n)
    then show ?thesis using assms b l
      by (auto simp: orders_fit_def stiryy_main_set_order_def Let_def canon_buflen_spec)
  qed (use False assms in \<open>auto simp: orders_fit_def stiryy_main_freeze_patrule_def stiryy_main_add_order_def
      stiryy_set_cdepinclude_def push_arr_def Let_def\<close>)
qed

lemma orders_calls: "orders_fit m \<Longrightarrow> outcome UNIV orders_fit (stir_calls cs m)"
proof (induction cs arbitrary: m)
  case (Cons pc cs)
  obtain p c where pc: "pc = (p, c)" by (cases pc)
  from outcome_bind[OF orders_call[OF Cons.prems] Cons.IH] show ?case using pc by simp
qed simp

text \<open>
  C25: No order of calls writes outside the tables: a sequence in which the calls for the parts of a rule come after
  the start of some rule and those for an order after \<open>Add_Order\<close>, whatever it is otherwise, keeps all arrays
  within their capacities (rules, orders, dependency files; bases, dependencies, targets and recipe of the last rule;
  the two names of an order) or ends with one of the refusals of the code; a trial parse adds no rules and
  no orders.
\<close>

theorem tables_safe:
  assumes "protocol False False cs"
  shows "case stir_calls cs (stiryy_main_init trial) of
      Inl f \<Rightarrow> f = Aborted \<or> f = Exited ''Pattern rule bases cannot contain @nil lists''
    | Inr m \<Rightarrow> caps_ok m \<and> orders_fit m \<and> (trial \<longrightarrow> m_rules m = [] \<and> m_orders m = [])"
proof -
  let ?m = "stiryy_main_init trial"
  have "tables_ok False False ?m" by (simp add: tables_ok_def caps_ok_def stiryy_main_init_def)
  from protocol_ok[OF assms this] have "outcome stir_refusals caps_ok (stir_calls cs ?m)" .
  moreover have "trial \<Longrightarrow> outcome UNIV (\<lambda>m'. m_rules m' = [] \<and> m_orders m' = []) (stir_calls cs ?m)"
    using trial_calls[of ?m cs] by (simp add: stiryy_main_init_def)
  moreover have "outcome UNIV orders_fit (stir_calls cs ?m)" by (rule orders_calls) (simp add: orders_fit_def stiryy_main_init_def)
  ultimately show ?thesis by (cases "stir_calls cs ?m") auto
qed

theorem tables_safe_witness:
  "case stir_calls [(''.'', Emplace_Rule 0 1), (''.'', Set_Tgt ''a'' False), (''.'', Add_Shell_Attab 7 True False False),
       (''.'', Emplace_Patrule 0 2), (''.'', Set_Pattgt2 ''b'' ''c'' False)]
     (stiryy_main_init False) of
      Inl f \<Rightarrow> f = Aborted \<or> f = Exited ''Pattern rule bases cannot contain @nil lists''
    | Inr m \<Rightarrow> caps_ok m \<and> orders_fit m \<and> (False \<longrightarrow> m_rules m = [] \<and> m_orders m = [])"
  by (rule tables_safe) simp

text \<open>
  \<open>stiryy_add_shell\<close>, which no action of the grammar calls any more, stores the terminating null pointer behind the
  array with its second argument.
\<close>

lemma add_shell_overflow:
  "push_arg a \<lparr> cs_merge = mg, cs_iscode = ic, cs_isfun = fn, cs_ignore = ig, cs_noecho = ne, cs_ismake = mk,
       cs_capacity = 0, cs_u = Args [] \<rparr> = Inr it \<Longrightarrow> push_arg b it = Inl Overread"
  by (auto simp: push_arg_def)

end
