(* ===== verification/Rule_Check.thy ===== *)
theory Rule_Check
  imports Stirfile_Rules
begin

text \<open>
  The check that \<open>stiryy_check_rule\<close> makes after each rule, stated on paths instead of letters.
\<close>

section \<open>The check for recursive dependencies\<close>

text \<open>The intended meaning: the directory is, or is above, the target.\<close>

definition path_covers :: "string \<Rightarrow> string \<Rightarrow> bool" where
  "path_covers d t = (is_abs d = is_abs t \<and> (\<exists>cs. comps t = comps d @ cs))"

lemma str_covers_alt: "str_covers a b = (\<exists>r. b = a @ r \<and> (r = [] \<or> hd r = CHR ''/''))"
proof
  assume "str_covers a b"
  then have t: "take (length a) b = a" "length b = length a \<or> b ! length a = CHR ''/''" by (simp_all add: str_covers_def)
  then have b: "b = a @ drop (length a) b" using append_take_drop_id[of "length a" b] by simp
  moreover have "drop (length a) b = [] \<or> hd (drop (length a) b) = CHR ''/''"
    using t(2) by (cases "length a < length b") (auto simp: hd_drop_conv_nth)
  ultimately show "\<exists>r. b = a @ r \<and> (r = [] \<or> hd r = CHR ''/'')" by (intro exI conjI)
next
  assume "\<exists>r. b = a @ r \<and> (r = [] \<or> hd r = CHR ''/'')"
  then obtain r where "b = a @ r" "r = [] \<or> hd r = CHR ''/''" by blast
  then show "str_covers a b" by (cases r) (auto simp: str_covers_def)
qed

text \<open>Two lists of components whose letters extend each other at a slash extend each other.\<close>

lemma join_slash_extends:
  assumes "xs \<noteq> []" "\<forall>x \<in> set xs. CHR ''/'' \<notin> set x" "\<forall>y \<in> set ys. CHR ''/'' \<notin> set y"
    and "join_slash ys = join_slash xs @ r" "r = [] \<or> hd r = CHR ''/''" "ys \<noteq> []"
  shows "\<exists>cs. ys = xs @ cs"
proof (cases r)
  case Nil
  then show ?thesis using assms split_join[of xs] split_join[of ys] by simp
next
  case (Cons c r')
  then have "join_slash ys = join_slash xs @ CHR ''/'' # r'" using assms(4,5) by simp
  moreover have "split_slash (join_slash xs @ CHR ''/'' # r') = xs @ split_slash r'"
    using assms(1,2)
  proof (induction xs rule: join_slash.induct)
    case (3 x y zs)
    then have "split_slash (x @ CHR ''/'' # (join_slash (y # zs) @ CHR ''/'' # r')) = x # (y # zs) @ split_slash r'"
      by (subst split_slash_sep) simp_all
    then show ?case by simp
  qed (simp_all add: split_slash_sep)
  ultimately show ?thesis using split_join[of ys] assms(3,6) by metis
qed

lemma join_slash_append:
  "xs \<noteq> [] \<Longrightarrow> join_slash (xs @ cs) = join_slash xs @ (if cs = [] then [] else CHR ''/'' # join_slash cs)"
  by (induction xs rule: join_slash.induct) (simp_all add: join_slash_Cons)

lemma stack_ok_no_dot: "stack_ok a xs \<Longrightarrow> ''.'' \<notin> set xs"
proof -
  assume "stack_ok a xs"
  then obtain k ns where "xs = replicate k ''..'' @ ns" "\<forall>n \<in> set ns. is_name n" unfolding stack_ok_def by blast
  moreover have "\<not> is_name ''.''" by (simp add: is_name_def)
  ultimately show ?thesis by (cases k) auto
qed

lemma join_slash_hd:
  assumes "xs \<noteq> []" "\<forall>x \<in> set xs. is_comp x"
  shows "join_slash xs \<noteq> []" "hd (join_slash xs) \<noteq> CHR ''/''"
proof -
  obtain x ys where xs: "xs = x # ys" using assms(1) by (cases xs) auto
  obtain c r where x: "x = c # r" "c \<noteq> CHR ''/''" using assms(2) xs by (cases x) (auto simp: is_comp_def)
  show "join_slash xs \<noteq> []" "hd (join_slash xs) \<noteq> CHR ''/''" using xs x by (simp_all add: join_slash_Cons)
qed

lemma render_covers:
  assumes a: "stack_ok ab as" and b: "stack_ok bb bs"
  shows "str_covers (render ab as) (render bb bs) =
    (if as = [] then ab = bb \<and> bs = [] else ab = bb \<and> (\<exists>cs. bs = as @ cs))"
proof -
  have ca: "\<forall>x \<in> set as. is_comp x" and cb: "\<forall>x \<in> set bs. is_comp x"
    using stack_ok_comps[OF a] stack_ok_comps[OF b] by blast+
  have sl: "\<forall>x \<in> set as. CHR ''/'' \<notin> set x" "\<forall>x \<in> set bs. CHR ''/'' \<notin> set x"
    using ca cb by (auto simp: is_comp_def)
  have dot: "''.'' \<notin> set as" "''.'' \<notin> set bs"
    using stack_ok_no_dot[OF a] stack_ok_no_dot[OF b] .
  note hd = join_slash_hd
  have ext: "str_covers (join_slash as) (join_slash bs) = (\<exists>cs. bs = as @ cs)" if "as \<noteq> []" "bs \<noteq> []"
    using that join_slash_extends[OF that(1) sl _ _ that(2)] by (auto simp: str_covers_alt join_slash_append split: if_splits)
  have cons: "str_covers (CHR ''/'' # u) (CHR ''/'' # v) = str_covers u v" for u v
    by (auto simp: str_covers_alt)
  have nohd: "\<not> str_covers u v" if "u \<noteq> []" "v \<noteq> []" "hd u \<noteq> hd v" for u v
    using that by (cases u; cases v) (auto simp: str_covers_alt)
  have rd: "render d xs \<noteq> []" "(hd (render d xs) = CHR ''/'') = d" if "\<forall>x \<in> set xs. is_comp x" for d xs
    using hd[OF _ that] by (auto simp: render_def)
  show ?thesis
  proof (cases "ab = bb")
    case False
    then show ?thesis using nohd[OF rd(1)[OF ca] rd(1)[OF cb]] rd(2)[OF ca] rd(2)[OF cb] by metis
  next
    case True
    have nil: "str_covers [] (join_slash bs) = (bs = [])"
      using hd[OF _ cb] by (cases "bs = []") (auto simp: str_covers_alt)
    have dt: "\<not> str_covers ''.'' (join_slash bs)" if "bs \<noteq> []"
      using that join_slash_extends[of "[''.'']" bs] sl(2) dot(2) by (auto simp: str_covers_alt)
    have dt2: "\<not> str_covers (join_slash as) ''.''" if "as \<noteq> []"
    proof
      assume "str_covers (join_slash as) ''.''"
      then obtain r where "''.'' = join_slash as @ r" by (auto simp: str_covers_alt)
      then have "join_slash as = ''.''" using hd(1)[OF that ca] by (cases "join_slash as") auto
      then have "as = [''.'']" using split_join[OF that sl(1)] by (simp add: split_slash_nosep)
      then show False using dot(1) by simp
    qed
    have nil2: "\<not> str_covers (join_slash as) []" if "as \<noteq> []"
      using hd(1)[OF that ca] by (simp add: str_covers_alt)
    have refl: "str_covers u u" for u by (simp add: str_covers_alt)
    show ?thesis using True nil nil2 dt dt2 ext cons refl[of "''.''"]
      by (cases ab; cases "as = []"; cases "bs = []") (simp_all add: render_def)
  qed
qed

lemma comps_name_of:
  "is_abs (name_of p n) = is_abs (if n \<noteq> [] \<and> hd n = CHR ''/'' then n else p @ CHR ''/'' # n)"
  "comps (name_of p n) = comps (if n \<noteq> [] \<and> hd n = CHR ''/'' then n else p @ CHR ''/'' # n)"
  by (simp_all add: name_of_def Let_def is_abs_render stack_ok_comps_of comps_render)

lemma name_of_covers:
  "str_covers (name_of p d) (name_of p t) =
     (path_covers (name_of p d) (name_of p t) \<and> (comps (name_of p d) = [] \<longrightarrow> comps (name_of p t) = []))"
  unfolding name_of_def path_covers_def
  by (auto simp: Let_def render_covers[OF stack_ok_comps_of stack_ok_comps_of] is_abs_render stack_ok_comps_of comps_render)

lemma check_tgts_eq: "check_tgts p can ts = Inr (\<exists>t \<in> set ts. str_covers can (name_of p (t_namenodir t)))"
  by (induction ts) auto

lemma check_deps_eq:
  "check_deps p ts ds = Inr (\<exists>d \<in> set ds. d_rec d \<and> (\<exists>t \<in> set ts. str_covers (name_of p (d_namenodir d)) (name_of p (t_namenodir t))))"
  by (induction ds) (auto simp: check_tgts_eq)

text \<open>
  The check of a rule warns exactly when a directory that the rule depends on recursively is, or is above, one
  of its targets, unless the rule is marked for that; but the project directory itself (\<open>.\<close>) and the root
  (\<open>/\<close>), which are above every target, are recognised only as the target itself.
\<close>

theorem check_rule_exact:
  assumes "\<not> m_trial m" "m_rules m = ys @ [y]"
  shows "stiryy_check_rule m = Inr (\<not> y_rectgt y \<and> \<not> y_detouch y \<and>
    (\<exists>d \<in> set (y_deps y). \<exists>t \<in> set (y_targets y). d_rec d \<and>
       path_covers (name_of (y_prefix y) (d_namenodir d)) (name_of (y_prefix y) (t_namenodir t)) \<and>
       (comps (name_of (y_prefix y) (d_namenodir d)) = [] \<longrightarrow> comps (name_of (y_prefix y) (t_namenodir t)) = [])))"
  using assms by (auto simp: stiryy_check_rule_def last_rule_def check_deps_eq name_of_covers)


text \<open>\<open>o/a: @recdep DIR\<close> in the directory \<open>d\<close>.\<close>

definition ex_rec :: "string \<Rightarrow> stiryy_main" where
  "ex_rec dir = (stiryy_main_init False)\<lparr> m_rulecapacity := 1, m_rules := [(empty_rule ''d'' 0 1)\<lparr>
     y_targets := [\<lparr> t_namenodir = ''o/a'', t_suffix = None, t_percent_special = False, t_is_dist = False \<rparr>],
     y_deps := [\<lparr> d_namenodir = dir, d_suffix = None, d_percent_special = False, d_rec = True,
       d_orderonly = False, d_wait = False \<rparr>] \<rparr>] \<rparr>"

lemma path_evals:
  "comps ''d/o/a'' = [''d'', ''o'', ''a'']" "comps ''d/o'' = [''d'', ''o'']" "comps ''d/..'' = []"
  by (simp_all add: comps_def is_abs_def split_slash.simps push_comp_def)

theorem check_rule_exact_witness:
  "stiryy_check_rule (ex_rec ''o'') = Inr True \<and> stiryy_check_rule (ex_rec ''..'') = Inr False"
proof -
  have "name_of ''d'' ''o/a'' = ''d/o/a''" "name_of ''d'' ''o'' = ''d/o''" "name_of ''d'' ''..'' = ''.''"
    by (simp_all add: name_of_def is_abs_def path_evals render_def)
  moreover have "comps ''.'' = []" by (simp add: comps_def is_abs_def split_slash.simps push_comp_def)
  ultimately show ?thesis
    using check_rule_exact[of "ex_rec ''o''" "[]"] check_rule_exact[of "ex_rec ''..''" "[]"]
    by (simp add: ex_rec_def stiryy_main_init_def empty_rule_def path_covers_def is_abs_def path_evals)
qed

end
