(* ===== verification/Vm_Values.thy ===== *)
theory Vm_Values
  imports Stir_Prelude
begin

text \<open>
  The values that stirmake's opcodes take from and give to the abce virtual machine, and how an opcode
  fails (\<open>stirtrap.c\<close>, \<open>stirtrap.h\<close>).

  The machine itself is outside the repository: an opcode is a function of the values that it finds on the stack,
  the topmost first, and its result takes their place.  A tree is a map from its keys, which
  \<open>abce_tree_get_str\<close> looks up.  Of a number, a boolean or an integer the code only asks whether it is
  zero.  Strings have a length of their own and may contain NUL.  Memory does not run out.
\<close>

datatype mb =
    MB_N
  | MB_B bool
  | MB_D bool
  | MB_I bool
  | MB_F nat
  | MB_S string
  | MB_A "mb list"
  | MB_T "string \<Rightarrow> mb option"

datatype mb_type = T_B | T_A | T_T | T_S

text \<open>
  \<open>Verify\<close> is a failure of \<open>abce_verifymb\<close> or of a stack that is too short, the others are the codes that
  the opcodes set themselves, with the value they report; \<open>Out_Of_Memory\<close> is a return of
  \<open>-ENOMEM\<close>, \<open>Plain_Errno\<close> another number with no code set, \<open>Crash\<close> the end of the whole program.
\<close>

datatype trap_err =
    Verify mb_type
  | Expect_Str mb
  | Expect_Array mb
  | Expect_Tree mb
  | Expect_Bool mb
  | Expect_Func mb
  | Invalid_Mode mb
  | Suffix_Not_Found mb
  | Regexp_Error mb
  | Rulechange_Not_Permitted
  | Rule_Not_Found
  | Targets_Missing
  | Name_Missing
  | No_Shellarg string
  | Rule_From_Within_Midrule
  | Insane_Rule
  | Dir_Not_Found
  | Glob_Failed
  | Bad_Json
  | Unknown_Instruction nat
  | Plain_Errno
  | Out_Of_Memory
  | Crash cfail

type_synonym 'a trap = "trap_err + 'a"

definition bind_trap :: "'a trap \<Rightarrow> ('a \<Rightarrow> 'b trap) \<Rightarrow> 'b trap" where
  "bind_trap r f = (case r of Inl e \<Rightarrow> Inl e | Inr x \<Rightarrow> f x)"

lemma bind_trap_simps [simp]:
  "bind_trap (Inl e) f = Inl e"
  "bind_trap (Inr x) f = f x"
  by (simp_all add: bind_trap_def)

lemma bind_trap_Inr [stir_simps]: "bind_trap r f = Inr y \<longleftrightarrow> (\<exists>x. r = Inr x \<and> f x = Inr y)"
  by (cases r) auto

text \<open>A function of the program that may end it.\<close>

definition lift_res :: "'a res \<Rightarrow> 'a trap" where
  "lift_res r = (case r of Inl f \<Rightarrow> Inl (Crash f) | Inr x \<Rightarrow> Inr x)"

lemma lift_res_simps [simp]: "lift_res (Inl f) = Inl (Crash f)" "lift_res (Inr x) = Inr x"
  by (simp_all add: lift_res_def)

text \<open>\<open>VERIFYMB\<close> and the reading of the value.\<close>

fun verify_str :: "mb \<Rightarrow> string trap" where
  "verify_str (MB_S s) = Inr s"
| "verify_str _ = Inl (Verify T_S)"

fun verify_arr :: "mb \<Rightarrow> mb list trap" where
  "verify_arr (MB_A xs) = Inr xs"
| "verify_arr _ = Inl (Verify T_A)"

fun verify_tree :: "mb \<Rightarrow> (string \<Rightarrow> mb option) trap" where
  "verify_tree (MB_T t) = Inr t"
| "verify_tree _ = Inl (Verify T_T)"

fun verify_bool :: "mb \<Rightarrow> bool trap" where
  "verify_bool (MB_B b) = Inr b"
| "verify_bool _ = Inl (Verify T_B)"

text \<open>The element of an array that has to be a string.\<close>

fun elem_str :: "mb \<Rightarrow> string trap" where
  "elem_str (MB_S s) = Inr s"
| "elem_str v = Inl (Expect_Str v)"

fun map_trap :: "('a \<Rightarrow> 'b trap) \<Rightarrow> 'a list \<Rightarrow> 'b list trap" where
  "map_trap f [] = Inr []"
| "map_trap f (x # xs) = bind_trap (f x) (\<lambda>y. bind_trap (map_trap f xs) (\<lambda>ys. Inr (y # ys)))"

lemma map_trap_Inr: "(\<And>x. x \<in> set xs \<Longrightarrow> f x = Inr (g x)) \<Longrightarrow> map_trap f xs = Inr (map g xs)"
  by (induction xs) auto

lemma map_trap_eq_Inr: "map_trap f xs = Inr ys \<longleftrightarrow> list_all2 (\<lambda>x y. f x = Inr y) xs ys"
  by (induction xs arbitrary: ys) (auto simp: stir_simps list_all2_Cons1)

lemma elem_str_Inr [simp]: "elem_str v = Inr s \<longleftrightarrow> v = MB_S s"
  by (cases v) auto

lemma verify_Inr [simp]:
  "verify_str v = Inr s \<longleftrightarrow> v = MB_S s"
  "verify_arr v = Inr xs \<longleftrightarrow> v = MB_A xs"
  "verify_tree v = Inr t \<longleftrightarrow> v = MB_T t"
  "verify_bool v = Inr b \<longleftrightarrow> v = MB_B b"
  by (cases v; auto)+

end
