(* ===== verification/Path_Ops.thy ===== *)
theory Path_Ops
  imports Vm_Values Paths
begin

text \<open>
  The opcodes on strings and arrays of strings (\<open>stir_trap\<close> in \<open>stirtrap.c\<close>): filters, the parts of path names,
  substitution of suffixes and prefixes, canonical paths, the way to the project directory, and the quoting for
  the shell.  Regular expressions are a parameter.
\<close>

section \<open>Parts of a name\<close>

text \<open>The place of the last dot, if it is in the last component.\<close>

definition cutpoint :: "string \<Rightarrow> nat option" where
  "cutpoint s =
     (case my_memrchr s CHR ''.'' (length s) of
        None \<Rightarrow> None
      | Some c \<Rightarrow> (case my_memrchr s CHR ''/'' (length s) of
            Some c2 \<Rightarrow> if c < c2 then None else Some c
          | None \<Rightarrow> Some c))"

definition path_basename :: "string \<Rightarrow> string" where
  "path_basename s = (case cutpoint s of None \<Rightarrow> s | Some c \<Rightarrow> take c s)"

definition path_suffix :: "string \<Rightarrow> string" where
  "path_suffix s = (case cutpoint s of None \<Rightarrow> [] | Some c \<Rightarrow> drop c s)"

definition path_dir :: "string \<Rightarrow> string" where
  "path_dir s = (case my_memrchr s CHR ''/'' (length s) of None \<Rightarrow> ''./'' | Some c \<Rightarrow> take (c + 1) s)"

definition path_notdir :: "string \<Rightarrow> string" where
  "path_notdir s = (case my_memrchr s CHR ''/'' (length s) of None \<Rightarrow> s | Some c \<Rightarrow> drop (c + 1) s)"

text \<open>A C function sees a string up to its first NUL.\<close>

definition c_str :: "string \<Rightarrow> string" where
  "c_str s = takeWhile (\<lambda>c. c \<noteq> CHR 0x00) s"

definition path_simplify :: "string \<Rightarrow> string trap" where
  "path_simplify s = lift_res (canon (c_str s))"

section \<open>Opcodes on one string and on all of an array\<close>

definition str_op :: "(string \<Rightarrow> string) \<Rightarrow> mb \<Rightarrow> mb trap" where
  "str_op f v = bind_trap (verify_str v) (\<lambda>s. Inr (MB_S (f s)))"

definition op_pathbasename :: "mb \<Rightarrow> mb trap" where "op_pathbasename = str_op path_basename"
definition op_pathsuffix :: "mb \<Rightarrow> mb trap" where "op_pathsuffix = str_op path_suffix"
definition op_pathdir :: "mb \<Rightarrow> mb trap" where "op_pathdir = str_op path_dir"
definition op_pathnotdir :: "mb \<Rightarrow> mb trap" where "op_pathnotdir = str_op path_notdir"

definition op_pathsimplify :: "mb \<Rightarrow> mb trap" where
  "op_pathsimplify v = bind_trap (verify_str v) (\<lambda>s. bind_trap (path_simplify s) (\<lambda>t. Inr (MB_S t)))"

definition all_op :: "(string \<Rightarrow> string trap) \<Rightarrow> mb \<Rightarrow> mb trap" where
  "all_op f v = bind_trap (verify_arr v) (\<lambda>xs.
     bind_trap (map_trap (\<lambda>x. bind_trap (elem_str x) (\<lambda>s. bind_trap (f s) (\<lambda>t. Inr (MB_S t)))) xs) (\<lambda>ys. Inr (MB_A ys)))"

definition op_pathbasenameall :: "mb \<Rightarrow> mb trap" where "op_pathbasenameall = all_op (Inr \<circ> path_basename)"
definition op_pathsuffixall :: "mb \<Rightarrow> mb trap" where "op_pathsuffixall = all_op (Inr \<circ> path_suffix)"
definition op_pathdirall :: "mb \<Rightarrow> mb trap" where "op_pathdirall = all_op (Inr \<circ> path_dir)"
definition op_pathnotdirall :: "mb \<Rightarrow> mb trap" where "op_pathnotdirall = all_op (Inr \<circ> path_notdir)"
definition op_pathsimplifyall :: "mb \<Rightarrow> mb trap" where "op_pathsimplifyall = all_op path_simplify"

section \<open>Filters\<close>

text \<open>\<open>memcmp\<close> at the beginning and at the end of a string that is long enough.\<close>

definition begins :: "string \<Rightarrow> string \<Rightarrow> bool" where
  "begins pre s = (\<not> length s < length pre \<and> take (length pre) s = pre)"

definition ends_in :: "string \<Rightarrow> string \<Rightarrow> bool" where
  "ends_in suf s = (\<not> length s < length suf \<and> drop (length s - length suf) s = suf)"

fun filter_loop :: "(string \<Rightarrow> bool) \<Rightarrow> mb list \<Rightarrow> mb list trap" where
  "filter_loop keep [] = Inr []"
| "filter_loop keep (x # xs) =
     bind_trap (elem_str x) (\<lambda>s.
       bind_trap (filter_loop keep xs) (\<lambda>ys. Inr (if keep s then x # ys else ys)))"

definition filter_op :: "(string \<Rightarrow> string \<Rightarrow> bool) \<Rightarrow> mb \<Rightarrow> mb \<Rightarrow> mb trap" where
  "filter_op keep suf bases =
     bind_trap (verify_str suf) (\<lambda>s. bind_trap (verify_arr bases) (\<lambda>xs.
       bind_trap (filter_loop (keep s) xs) (\<lambda>ys. Inr (MB_A ys))))"

definition op_prefilter :: "mb \<Rightarrow> mb \<Rightarrow> mb trap" where "op_prefilter = filter_op begins"
definition op_prefilterout :: "mb \<Rightarrow> mb \<Rightarrow> mb trap" where "op_prefilterout = filter_op (\<lambda>p s. \<not> begins p s)"
definition op_suffilter :: "mb \<Rightarrow> mb \<Rightarrow> mb trap" where "op_suffilter = filter_op ends_in"
definition op_suffilterout :: "mb \<Rightarrow> mb \<Rightarrow> mb trap" where "op_suffilterout = filter_op (\<lambda>p s. \<not> ends_in p s)"

definition op_filter :: "bool \<Rightarrow> mb \<Rightarrow> mb \<Rightarrow> mb trap" where
  "op_filter out filters bases =
     bind_trap (verify_arr filters) (\<lambda>fs. bind_trap (verify_arr bases) (\<lambda>xs.
     bind_trap (map_trap elem_str fs) (\<lambda>fs.
     bind_trap (filter_loop (\<lambda>s. (s \<in> set fs) \<noteq> out) xs) (\<lambda>ys. Inr (MB_A ys)))))"

text \<open>\<open>compile\<close> is \<open>regcomp\<close>, and what it gives \<open>regexec\<close>; a string with a NUL matches nothing.\<close>

definition op_regfilter :: "(string \<Rightarrow> (string \<Rightarrow> bool) option) \<Rightarrow> mb \<Rightarrow> mb \<Rightarrow> mb \<Rightarrow> mb trap" where
  "op_regfilter compile re regbool bases =
     bind_trap (verify_str re) (\<lambda>r. bind_trap (verify_bool regbool) (\<lambda>b. bind_trap (verify_arr bases) (\<lambda>xs.
       if length (c_str r) \<noteq> length r then Inl (Regexp_Error re)
       else case compile r of
         None \<Rightarrow> Inl (Regexp_Error re)
       | Some matches \<Rightarrow>
           bind_trap (filter_loop (\<lambda>s. (\<not> matches (c_str s) \<or> length (c_str s) \<noteq> length s) \<noteq> b) xs)
             (\<lambda>ys. Inr (MB_A ys)))))"

section \<open>Substitution\<close>

definition sufsub :: "string \<Rightarrow> string \<Rightarrow> string \<Rightarrow> string trap" where
  "sufsub newsuf oldsuf s =
     (if length s < length oldsuf \<or> drop (length s - length oldsuf) s \<noteq> oldsuf then Inl (Suffix_Not_Found (MB_S s))
      else Inr (take (length s - length oldsuf) s @ newsuf))"

definition presub :: "string \<Rightarrow> string \<Rightarrow> string \<Rightarrow> string trap" where
  "presub newpre oldpre s =
     (if length s < length oldpre \<or> take (length oldpre) s \<noteq> oldpre then Inl (Suffix_Not_Found (MB_S s))
      else Inr (newpre @ drop (length oldpre) s))"

definition op_sufsubone :: "mb \<Rightarrow> mb \<Rightarrow> mb \<Rightarrow> mb trap" where
  "op_sufsubone newsuf oldsuf v =
     bind_trap (verify_str newsuf) (\<lambda>n. bind_trap (verify_str oldsuf) (\<lambda>o'. bind_trap (verify_str v) (\<lambda>s.
       bind_trap (sufsub n o' s) (\<lambda>t. Inr (MB_S t)))))"

definition op_presubone :: "mb \<Rightarrow> mb \<Rightarrow> mb \<Rightarrow> mb trap" where
  "op_presubone newpre oldpre v =
     bind_trap (verify_str newpre) (\<lambda>n. bind_trap (verify_str oldpre) (\<lambda>o'. bind_trap (verify_str v) (\<lambda>s.
       bind_trap (presub n o' s) (\<lambda>t. Inr (MB_S t)))))"

text \<open>The variants for arrays check all elements in a first loop and build the new strings in a second.\<close>

fun check_elems :: "(string \<Rightarrow> bool) \<Rightarrow> mb list \<Rightarrow> string list trap" where
  "check_elems fits [] = Inr []"
| "check_elems fits (x # xs) =
     bind_trap (elem_str x) (\<lambda>s.
       if \<not> fits s then Inl (Suffix_Not_Found x)
       else bind_trap (check_elems fits xs) (\<lambda>ss. Inr (s # ss)))"

definition op_sufsuball :: "mb \<Rightarrow> mb \<Rightarrow> mb \<Rightarrow> mb trap" where
  "op_sufsuball newsuf oldsuf v =
     bind_trap (verify_str newsuf) (\<lambda>n. bind_trap (verify_str oldsuf) (\<lambda>o'. bind_trap (verify_arr v) (\<lambda>xs.
       bind_trap (check_elems (ends_in o') xs) (\<lambda>ss.
         Inr (MB_A (map (\<lambda>s. MB_S (take (length s - length o') s @ n)) ss))))))"

definition op_presuball :: "mb \<Rightarrow> mb \<Rightarrow> mb \<Rightarrow> mb trap" where
  "op_presuball newpre oldpre v =
     bind_trap (verify_str newpre) (\<lambda>n. bind_trap (verify_str oldpre) (\<lambda>o'. bind_trap (verify_arr v) (\<lambda>xs.
       bind_trap (check_elems (begins o') xs) (\<lambda>ss.
         Inr (MB_A (map (\<lambda>s. MB_S (n @ drop (length o') s)) ss))))))"

section \<open>The project directory\<close>

text \<open>The directory of the Stirfile in its project and in the whole build, kept with the scope.\<close>

record scope_ud =
  ud_prefix :: "string option"
  ud_prjprefix :: "string option"

definition scope_path :: "(scope_ud \<Rightarrow> string option) \<Rightarrow> scope_ud option \<Rightarrow> string" where
  "scope_path sel ud = (case ud of None \<Rightarrow> ''.'' | Some u \<Rightarrow> (case sel u of None \<Rightarrow> ''.'' | Some p \<Rightarrow> p))"

definition op_top_dir :: "scope_ud option \<Rightarrow> mb trap" where
  "op_top_dir ud = bind_trap (lift_res (construct_backpath (scope_path ud_prjprefix ud))) (\<lambda>p. Inr (MB_S p))"

definition op_top_dir_all :: "scope_ud option \<Rightarrow> mb trap" where
  "op_top_dir_all ud = bind_trap (lift_res (construct_backpath (scope_path ud_prefix ud))) (\<lambda>p. Inr (MB_S p))"

definition op_cur_dir_from_top :: "scope_ud option \<Rightarrow> mb trap" where
  "op_cur_dir_from_top ud = Inr (MB_S (scope_path ud_prjprefix ud))"

definition op_cur_dir_from_top_all :: "scope_ud option \<Rightarrow> mb trap" where
  "op_cur_dir_from_top_all ud = Inr (MB_S (scope_path ud_prefix ud))"

section \<open>Quoting for the shell\<close>

text \<open>
  \<open>emit\<close> keeps the buffer two bytes larger than needed; without a byte to write there is no buffer, which the
  callers take for a lack of memory.
\<close>

definition backslashed :: "string" where
  "backslashed = [CHR ''$'', CHR 0x5C, CHR 0x22, CHR 0x27, CHR ''*'', CHR ''?'', CHR 0x60, CHR ''<'', CHR ''>'',
     CHR ''#'', CHR ''&'', CHR ''('', CHR '')'', CHR '';'', CHR ''|'', CHR ''~'', CHR ''%'', CHR ''='', CHR ''['',
     CHR '']'', CHR ''!'', CHR ''{'', CHR ''}'', CHR ''^'', CHR '' '']"

definition escape_char :: "char \<Rightarrow> string" where
  "escape_char c =
     (if c = CHR 0x0A \<or> c = CHR 0x09 then [CHR 0x22, c, CHR 0x22]
      else if c \<in> set backslashed then [CHR 0x5C, c]
      else [c])"

fun escape_loop :: "string \<Rightarrow> string" where
  "escape_loop [] = []"
| "escape_loop (c # cs) = escape_char c @ escape_loop cs"

definition stir_shellescape :: "string \<Rightarrow> string option" where
  "stir_shellescape s = (if escape_loop s = [] then None else Some (escape_loop s))"

definition shell_quote :: "string \<Rightarrow> string trap" where
  "shell_quote s = (case stir_shellescape s of None \<Rightarrow> Inl Out_Of_Memory | Some t \<Rightarrow> Inr t)"

definition op_shell_escape :: "mb \<Rightarrow> mb trap" where
  "op_shell_escape v = bind_trap (verify_str v) (\<lambda>s. bind_trap (shell_quote s) (\<lambda>t. Inr (MB_S t)))"

text \<open>All elements are checked before the first is quoted.\<close>

definition op_shell_escape_multi :: "mb \<Rightarrow> mb trap" where
  "op_shell_escape_multi v = bind_trap (verify_arr v) (\<lambda>xs.
     bind_trap (map_trap elem_str xs) (\<lambda>ss.
     bind_trap (map_trap shell_quote ss) (\<lambda>ts. Inr (MB_A (map MB_S ts)))))"

section \<open>Access\<close>

datatype access_mode = F_OK | R_OK | W_OK | X_OK

definition op_access :: "(string \<Rightarrow> access_mode \<Rightarrow> bool) \<Rightarrow> mb \<Rightarrow> mb \<Rightarrow> mb trap" where
  "op_access acc md f =
     bind_trap (verify_str f) (\<lambda>n. bind_trap (verify_str md) (\<lambda>m.
       if c_str m = ''r'' then Inr (MB_B (acc (c_str n) R_OK))
       else if c_str m = ''w'' then Inr (MB_B (acc (c_str n) W_OK))
       else if c_str m = ''x'' then Inr (MB_B (acc (c_str n) X_OK))
       else if c_str m = ''f'' then Inr (MB_B (acc (c_str n) F_OK))
       else Inl (Invalid_Mode md)))"


section \<open>The parts put together\<close>

lemma memrchr_split:
  "my_memrchr s c (length s) = Some i \<Longrightarrow> i < length s \<and> s ! i = c \<and> c \<notin> set (drop (Suc i) s)"
  using strrchr_bound[of s c i] strrchr_last[of s c i] by (simp add: my_memrchr_def)

lemma memrchr_None: "my_memrchr s c (length s) = None \<longleftrightarrow> c \<notin> set s"
  by (simp add: my_memrchr_def)

lemma drop_drop_notin: "c \<notin> set (drop (Suc j) s) \<Longrightarrow> j < i \<Longrightarrow> c \<notin> set (drop i s)"
  using set_drop_subset_set_drop[of "Suc j" i s] by auto

lemma cutpoint_Some:
  assumes "cutpoint s = Some i"
  shows "i < length s \<and> s ! i = CHR ''.'' \<and> CHR ''.'' \<notin> set (drop (Suc i) s) \<and> CHR ''/'' \<notin> set (drop i s)"
proof (cases "my_memrchr s CHR ''/'' (length s)")
  case None
  then have i: "my_memrchr s CHR ''.'' (length s) = Some i"
    using assms by (cases "my_memrchr s CHR ''.'' (length s)") (simp_all add: cutpoint_def)
  show ?thesis using memrchr_split[OF i] None memrchr_None[of s "CHR ''/''"] in_set_dropD[of "CHR ''/''" i s] by blast
next
  case (Some j)
  then have i: "my_memrchr s CHR ''.'' (length s) = Some i" "\<not> i < j"
    using assms by (cases "my_memrchr s CHR ''.'' (length s)"; simp add: cutpoint_def split: if_splits)+
  note d = memrchr_split[OF i(1)] and j = memrchr_split[OF Some]
  then have "j \<noteq> i" by auto
  then have "CHR ''/'' \<notin> set (drop i s)" using drop_drop_notin[of "CHR ''/''" j s i] j i(2) by simp
  then show ?thesis using d by blast
qed

lemma notdir_noslash: "CHR ''/'' \<notin> set (path_notdir s)"
  by (auto simp: path_notdir_def memrchr_None split: option.splits dest: memrchr_split)

lemma cutpoint_None: "cutpoint s = None \<longleftrightarrow> CHR ''.'' \<notin> set (path_notdir s)"
proof (cases "my_memrchr s CHR ''/'' (length s)")
  case None
  then show ?thesis using memrchr_None[of s "CHR ''.''"]
    by (cases "my_memrchr s CHR ''.'' (length s)") (simp_all add: cutpoint_def path_notdir_def)
next
  case (Some j)
  note j = memrchr_split[OF Some]
  show ?thesis
  proof (cases "my_memrchr s CHR ''.'' (length s)")
    case None
    then show ?thesis using Some memrchr_None[of s "CHR ''.''"]
      by (auto simp: cutpoint_def path_notdir_def dest: in_set_dropD)
  next
    case i: (Some i)
    note d = memrchr_split[OF i]
    have "i \<noteq> j" using j d by auto
    have "CHR ''.'' \<notin> set (drop (Suc j) s)" if "i < j" using drop_drop_notin[of "CHR ''.''" i s "Suc j"] d that by simp
    moreover have "CHR ''.'' \<in> set (drop (Suc j) s)" if "j < i"
    proof -
      have "drop (Suc j) s ! (i - Suc j) = CHR ''.''" "i - Suc j < length (drop (Suc j) s)" using d that by auto
      then show ?thesis by (metis nth_mem)
    qed
    ultimately show ?thesis using Some i \<open>i \<noteq> j\<close> by (auto simp: cutpoint_def path_notdir_def)
  qed
qed

text \<open>
  The parts of a path name fit together: base name and suffix give the name back; the suffix is empty exactly
  if the last component has no dot, and otherwise begins with its last dot; directory and file name
  give the name back if there is a slash, and otherwise the directory is \<open>./\<close>.
\<close>

theorem path_parts:
  "path_basename s @ path_suffix s = s \<and>
   (if CHR ''.'' \<in> set (path_notdir s)
    then \<exists>r. path_suffix s = CHR ''.'' # r \<and> CHR ''.'' \<notin> set r \<and> CHR ''/'' \<notin> set r
    else path_suffix s = []) \<and>
   (if CHR ''/'' \<in> set s then path_dir s @ path_notdir s = s \<and> last (path_dir s) = CHR ''/''
    else path_dir s = ''./'' \<and> path_notdir s = s) \<and>
   CHR ''/'' \<notin> set (path_notdir s)"
proof (intro conjI)
  show "path_basename s @ path_suffix s = s"
    by (simp add: path_basename_def path_suffix_def split: option.splits)
  show "if CHR ''.'' \<in> set (path_notdir s)
    then \<exists>r. path_suffix s = CHR ''.'' # r \<and> CHR ''.'' \<notin> set r \<and> CHR ''/'' \<notin> set r
    else path_suffix s = []"
  proof (cases "cutpoint s")
    case None
    then show ?thesis using cutpoint_None[of s] by (simp add: path_suffix_def)
  next
    case (Some i)
    note i = cutpoint_Some[OF Some]
    then have "drop i s = CHR ''.'' # drop (Suc i) s" by (metis Cons_nth_drop_Suc)
    then show ?thesis using i Some cutpoint_None[of s] by (auto simp: path_suffix_def)
  qed
  show "if CHR ''/'' \<in> set s then path_dir s @ path_notdir s = s \<and> last (path_dir s) = CHR ''/''
    else path_dir s = ''./'' \<and> path_notdir s = s"
  proof (cases "my_memrchr s CHR ''/'' (length s)")
    case None
    then show ?thesis using memrchr_None[of s "CHR ''/''"] by (simp add: path_dir_def path_notdir_def)
  next
    case (Some i)
    note i = memrchr_split[OF Some]
    then have "CHR ''/'' \<in> set s" by (metis nth_mem)
    moreover have "last (take (i + 1) s) = CHR ''/''" using i by (simp add: take_Suc_conv_app_nth)
    ultimately show ?thesis using Some by (simp add: path_dir_def path_notdir_def)
  qed
qed (rule notdir_noslash)

section \<open>Substitution and filters\<close>

lemma ends_in_iff: "ends_in suf s \<longleftrightarrow> (\<exists>stem. s = stem @ suf)"
proof
  assume "ends_in suf s"
  then have "s = take (length s - length suf) s @ suf"
    using append_take_drop_id[of "length s - length suf" s] by (simp add: ends_in_def)
  then show "\<exists>stem. s = stem @ suf" ..
qed (auto simp: ends_in_def)

lemma begins_iff: "begins pre s \<longleftrightarrow> (\<exists>r. s = pre @ r)"
proof
  assume "begins pre s"
  then have "s = pre @ drop (length pre) s"
    using append_take_drop_id[of "length pre" s] by (simp add: begins_def)
  then show "\<exists>r. s = pre @ r" ..
qed (auto simp: begins_def)

lemma sufsub_alt:
  "sufsub n o' s = (if ends_in o' s then Inr (take (length s - length o') s @ n) else Inl (Suffix_Not_Found (MB_S s)))"
  by (simp add: sufsub_def ends_in_def)

lemma presub_alt:
  "presub n o' s = (if begins o' s then Inr (n @ drop (length o') s) else Inl (Suffix_Not_Found (MB_S s)))"
  by (simp add: presub_def begins_def)

lemma sufsub_Inr: "sufsub n o' s = Inr t \<longleftrightarrow> (\<exists>stem. s = stem @ o' \<and> t = stem @ n)"
  by (auto simp: sufsub_alt ends_in_iff)

lemma presub_Inr: "presub n o' s = Inr t \<longleftrightarrow> (\<exists>r. s = o' @ r \<and> t = n @ r)"
  by (auto simp: presub_alt begins_iff)

text \<open>The two loops of the variants for arrays are one loop of the variant for a string.\<close>

lemma two_loops:
  assumes "\<And>s. sub s = (if fits s then Inr (g s) else Inl (Suffix_Not_Found (MB_S s)))"
  shows "bind_trap (check_elems fits xs) (\<lambda>ss. Inr (MB_A (map (\<lambda>s. MB_S (g s)) ss))) =
    bind_trap (map_trap (\<lambda>x. bind_trap (elem_str x) (\<lambda>s. bind_trap (sub s) (\<lambda>t. Inr (MB_S t)))) xs) (\<lambda>ys. Inr (MB_A ys))"
proof -
  have "map_trap (\<lambda>x. bind_trap (elem_str x) (\<lambda>s. bind_trap (sub s) (\<lambda>t. Inr (MB_S t)))) xs =
      bind_trap (check_elems fits xs) (\<lambda>ss. Inr (map (\<lambda>s. MB_S (g s)) ss))"
  proof (induction xs)
    case (Cons x xs)
    then show ?case
      by (cases x; cases "check_elems fits xs") (simp_all add: assms)
  qed simp
  then show ?thesis by (cases "check_elems fits xs") simp_all
qed

lemma sufsuball_all: "op_sufsuball (MB_S n) (MB_S o') v = all_op (sufsub n o') v"
  by (cases v) (simp_all add: op_sufsuball_def all_op_def two_loops[OF sufsub_alt])

lemma presuball_all: "op_presuball (MB_S n) (MB_S o') v = all_op (presub n o') v"
  by (cases v) (simp_all add: op_presuball_def all_op_def two_loops[OF presub_alt])

lemma all_op_Inr:
  "all_op f v = Inr w \<longleftrightarrow> (\<exists>ss ts. v = MB_A (map MB_S ss) \<and> w = MB_A (map MB_S ts) \<and> list_all2 (\<lambda>s t. f s = Inr t) ss ts)"
proof -
  let ?P = "\<lambda>x y. \<exists>s t. x = MB_S s \<and> y = MB_S t \<and> f s = Inr t"
  have "list_all2 ?P xs ys \<longleftrightarrow> (\<exists>ss ts. xs = map MB_S ss \<and> ys = map MB_S ts \<and> list_all2 (\<lambda>s t. f s = Inr t) ss ts)" for xs ys
  proof
    show "list_all2 ?P xs ys \<Longrightarrow> \<exists>ss ts. xs = map MB_S ss \<and> ys = map MB_S ts \<and> list_all2 (\<lambda>s t. f s = Inr t) ss ts"
    proof (induction rule: list_all2_induct)
      case (Cons x xs y ys)
      then obtain s t ss ts where "x = MB_S s" "y = MB_S t" "f s = Inr t" "xs = map MB_S ss" "ys = map MB_S ts"
        "list_all2 (\<lambda>s t. f s = Inr t) ss ts" by blast
      then show ?case by (intro exI[of _ "s # ss"] exI[of _ "t # ts"]) simp
    qed simp
  qed (auto simp: list_all2_map1 list_all2_map2)
  moreover have "bind_trap (elem_str x) (\<lambda>s. bind_trap (f s) (\<lambda>t. Inr (MB_S t))) = Inr y \<longleftrightarrow> ?P x y" for x y
    by (auto simp: stir_simps)
  ultimately show ?thesis by (auto simp: all_op_def stir_simps map_trap_eq_Inr)
qed

lemma list_all2_stems: "list_all2 (\<lambda>s t. \<exists>x. s = f x \<and> t = g x) ss ts \<longleftrightarrow> (\<exists>xs. ss = map f xs \<and> ts = map g xs)"
proof
  show "list_all2 (\<lambda>s t. \<exists>x. s = f x \<and> t = g x) ss ts \<Longrightarrow> \<exists>xs. ss = map f xs \<and> ts = map g xs"
  proof (induction rule: list_all2_induct)
    case (Cons s ss t ts)
    then obtain x xs where "s = f x" "t = g x" "ss = map f xs" "ts = map g xs" by blast
    then show ?case by (intro exI[of _ "x # xs"]) simp
  qed simp
qed (auto simp: list_all2_conv_all_nth)

lemma all_op_stems:
  assumes "\<And>s t. f s = Inr t \<longleftrightarrow> (\<exists>x. s = a x \<and> t = b x)"
  shows "all_op f v = Inr w \<longleftrightarrow> (\<exists>xs. v = MB_A (map (\<lambda>x. MB_S (a x)) xs) \<and> w = MB_A (map (\<lambda>x. MB_S (b x)) xs))"
proof -
  have "all_op f v = Inr w \<longleftrightarrow> (\<exists>xs. v = MB_A (map MB_S (map a xs)) \<and> w = MB_A (map MB_S (map b xs)))"
    unfolding all_op_Inr assms list_all2_stems by blast
  then show ?thesis by (simp add: comp_def)
qed

lemmas sufsuball_Inr = all_op_stems[OF sufsub_Inr, folded sufsuball_all]
lemmas presuball_Inr = all_op_stems[OF presub_Inr, folded presuball_all]

text \<open>
  Substitution in an array is undone by the opposite substitution: it succeeds exactly if all elements are
  strings with the old suffix (prefix), replaces it in each, and exchanging old and new gives the array
  back.
\<close>

theorem substitution_roundtrip:
  "(op_sufsuball (MB_S n) (MB_S o') v = Inr w \<longleftrightarrow>
      (\<exists>stems. v = MB_A (map (\<lambda>x. MB_S (x @ o')) stems) \<and> w = MB_A (map (\<lambda>x. MB_S (x @ n)) stems))) \<and>
   (op_sufsuball (MB_S n) (MB_S o') v = Inr w \<longleftrightarrow> op_sufsuball (MB_S o') (MB_S n) w = Inr v) \<and>
   (op_presuball (MB_S n) (MB_S o') v = Inr w \<longleftrightarrow>
      (\<exists>rests. v = MB_A (map (\<lambda>x. MB_S (o' @ x)) rests) \<and> w = MB_A (map (\<lambda>x. MB_S (n @ x)) rests))) \<and>
   (op_presuball (MB_S n) (MB_S o') v = Inr w \<longleftrightarrow> op_presuball (MB_S o') (MB_S n) w = Inr v)"
  by (simp add: sufsuball_Inr presuball_Inr conj_commute)

lemma filter_loop_eq:
  "filter_loop keep xs = bind_trap (map_trap elem_str xs) (\<lambda>ss. Inr (map MB_S (filter keep ss)))"
proof (induction xs)
  case (Cons x xs)
  then show ?case by (cases x; cases "map_trap elem_str xs") simp_all
qed simp

lemma map_trap_elem: "map_trap elem_str (map MB_S ss) = Inr ss"
  by (induction ss) simp_all

text \<open>
  A filter and its opposite divide an array: both fail alike, or the one keeps the strings with the prefix
  (the suffix, one of the given strings) and the other the rest, in their order.
\<close>

theorem filters_partition:
  "(case op_prefilter (MB_S p) v of Inl e \<Rightarrow> op_prefilterout (MB_S p) v = Inl e
    | Inr w \<Rightarrow> \<exists>ss. v = MB_A (map MB_S ss) \<and> w = MB_A (map MB_S (filter (begins p) ss)) \<and>
        op_prefilterout (MB_S p) v = Inr (MB_A (map MB_S (filter (\<lambda>s. \<not> begins p s) ss)))) \<and>
   (case op_suffilter (MB_S p) v of Inl e \<Rightarrow> op_suffilterout (MB_S p) v = Inl e
    | Inr w \<Rightarrow> \<exists>ss. v = MB_A (map MB_S ss) \<and> w = MB_A (map MB_S (filter (ends_in p) ss)) \<and>
        op_suffilterout (MB_S p) v = Inr (MB_A (map MB_S (filter (\<lambda>s. \<not> ends_in p s) ss)))) \<and>
   (case op_filter False u v of Inl e \<Rightarrow> op_filter True u v = Inl e
    | Inr w \<Rightarrow> \<exists>fs ss. u = MB_A (map MB_S fs) \<and> v = MB_A (map MB_S ss) \<and> w = MB_A (map MB_S (filter (\<lambda>s. s \<in> set fs) ss)) \<and>
        op_filter True u v = Inr (MB_A (map MB_S (filter (\<lambda>s. s \<notin> set fs) ss))))"
proof -
  have strs: "\<exists>ss. xs = map MB_S ss \<and> map_trap elem_str xs = Inr ss" if "map_trap elem_str xs = Inr ts" for xs ts
  proof -
    have "list_all2 (\<lambda>x y. x = MB_S y) xs ts" using that by (simp add: map_trap_eq_Inr)
    then have "xs = map MB_S ts" by (induction rule: list_all2_induct) auto
    then show ?thesis using that by blast
  qed
  have "case filter_op keep (MB_S p) v of Inl e \<Rightarrow> filter_op (\<lambda>p s. \<not> keep p s) (MB_S p) v = Inl e
    | Inr w \<Rightarrow> \<exists>ss. v = MB_A (map MB_S ss) \<and> w = MB_A (map MB_S (filter (keep p) ss)) \<and>
        filter_op (\<lambda>p s. \<not> keep p s) (MB_S p) v = Inr (MB_A (map MB_S (filter (\<lambda>s. \<not> keep p s) ss)))" for keep
  proof (cases v)
    case (MB_A xs)
    then show ?thesis using strs[of xs] by (cases "map_trap elem_str xs") (auto simp: filter_op_def filter_loop_eq)
  qed (simp_all add: filter_op_def)
  moreover have "case op_filter False u v of Inl e \<Rightarrow> op_filter True u v = Inl e
    | Inr w \<Rightarrow> \<exists>fs ss. u = MB_A (map MB_S fs) \<and> v = MB_A (map MB_S ss) \<and> w = MB_A (map MB_S (filter (\<lambda>s. s \<in> set fs) ss)) \<and>
        op_filter True u v = Inr (MB_A (map MB_S (filter (\<lambda>s. s \<notin> set fs) ss)))"
    using strs
    by (cases "verify_arr u"; cases "verify_arr v")
      (auto simp: op_filter_def filter_loop_eq bind_trap_def split: sum.splits)
  ultimately show ?thesis
    unfolding op_prefilter_def op_prefilterout_def op_suffilter_def op_suffilterout_def by (intro conjI)
qed

section \<open>Quoting and the shell\<close>

text \<open>
  How a POSIX shell reads one word: a backslash keeps the next character, double quotes keep everything but
  the characters that stay special between them; outside quotes a special character ends or changes the word,
  which is \<open>None\<close> here.
\<close>

definition sh_special :: "string" where
  "sh_special = [CHR ''|'', CHR ''&'', CHR '';'', CHR ''<'', CHR ''>'', CHR ''('', CHR '')'', CHR ''$'', CHR 0x60,
     CHR 0x5C, CHR 0x22, CHR 0x27, CHR '' '', CHR 0x09, CHR 0x0A, CHR ''*'', CHR ''?'', CHR ''['', CHR ''#'',
     CHR ''~'', CHR ''='', CHR ''%'', CHR ''!'', CHR ''{'', CHR ''}'']"

fun sh_word :: "bool \<Rightarrow> string \<Rightarrow> string option" where
  "sh_word quoted [] = (if quoted then None else Some [])"
| "sh_word False (c # cs) =
     (if c = CHR 0x22 then sh_word True cs
      else if c = CHR 0x5C then
        (case cs of [] \<Rightarrow> None | d # ds \<Rightarrow> if d = CHR 0x0A then sh_word False ds else map_option (Cons d) (sh_word False ds))
      else if c \<in> set sh_special then None
      else map_option (Cons c) (sh_word False cs))"
| "sh_word True (c # cs) =
     (if c = CHR 0x22 then sh_word False cs
      else if c \<in> {CHR ''$'', CHR 0x60, CHR 0x5C} then None
      else map_option (Cons c) (sh_word True cs))"

lemma sh_special_escaped: "c \<in> set sh_special \<Longrightarrow> c \<in> set backslashed \<or> c = CHR 0x0A \<or> c = CHR 0x09"
proof -
  have "list_all (\<lambda>c. c \<in> set backslashed \<or> c = CHR 0x0A \<or> c = CHR 0x09) sh_special" by code_simp
  then show "c \<in> set sh_special \<Longrightarrow> ?thesis" by (simp add: list_all_iff)
qed

lemma backslashed_facts:
  "CHR 0x0A \<notin> set backslashed" "CHR 0x22 \<in> set backslashed" "CHR 0x5C \<in> set backslashed"
  "CHR 0x09 \<notin> set backslashed"
  by (simp_all add: backslashed_def)

lemma sh_word_escape: "sh_word False (escape_char c @ t) = map_option (Cons c) (sh_word False t)"
proof -
  consider "c = CHR 0x0A \<or> c = CHR 0x09" | "c \<in> set backslashed"
    | "c \<notin> set sh_special" "c \<noteq> CHR 0x22" "c \<noteq> CHR 0x5C" "c \<notin> set backslashed" "\<not> (c = CHR 0x0A \<or> c = CHR 0x09)"
    using sh_special_escaped[of c] backslashed_facts by blast
  then show ?thesis
  proof cases
    case 1
    then show ?thesis by (elim disjE) (simp_all add: escape_char_def)
  next
    case 2
    then have "c \<noteq> CHR 0x0A" "c \<noteq> CHR 0x09" using backslashed_facts by metis+
    then show ?thesis using 2 by (simp add: escape_char_def)
  next
    case 3
    then show ?thesis by (simp add: escape_char_def)
  qed
qed

text \<open>
  C32: Quoting for the shell: the shell reads the quoted form of a string as one word, and this word is the
  string; but the empty string has no quoted form and fails as if memory had run out.
\<close>

theorem shell_escape_roundtrip:
  "case stir_shellescape s of None \<Rightarrow> s = [] \<and> op_shell_escape (MB_S s) = Inl Out_Of_Memory
   | Some t \<Rightarrow> s \<noteq> [] \<and> op_shell_escape (MB_S s) = Inr (MB_S t) \<and> sh_word False t = Some s"
proof -
  have "sh_word False (escape_loop s) = Some s" by (induction s) (simp_all add: sh_word_escape)
  moreover have "escape_loop s = [] \<longleftrightarrow> s = []" by (cases s) (simp_all add: escape_char_def)
  ultimately show ?thesis by (simp add: stir_shellescape_def op_shell_escape_def shell_quote_def)
qed

end
