(* ===== verification/Rule_Ops.thy ===== *)
theory Rule_Ops
  imports Vm_Values Stirfile_Rules
begin

text \<open>
  The opcodes that add rules and dependencies from the code of a Stirfile (\<open>stir_trap_depadd\<close>,
  \<open>stir_trap_ruleadd\<close>), \<open>add_rule_yy\<close>, which they share with nobody, and
  \<open>add_dep_after_parsing_stage\<close>, which a running build uses.

  \<open>stir_trap_ruleadd\<close> checks the whole description in a first pass and builds the rule in a second one, which looks up the
  same keys again; here one function checks an element and gives what the second pass builds of it.
  \<open>abce_cache_add\<close> is a parameter.
\<close>

section \<open>Looking into a tree\<close>

fun boolish :: "mb \<Rightarrow> bool trap" where
  "boolish (MB_I b) = Inr b"
| "boolish (MB_D b) = Inr b"
| "boolish (MB_B b) = Inr b"
| "boolish v = Inl (Expect_Bool v)"

definition opt_bool :: "(string \<Rightarrow> mb option) \<Rightarrow> string \<Rightarrow> bool trap" where
  "opt_bool t key = (case t key of None \<Rightarrow> Inr False | Some v \<Rightarrow> boolish v)"

fun elem_tree :: "mb \<Rightarrow> (string \<Rightarrow> mb option) trap" where
  "elem_tree (MB_T t) = Inr t"
| "elem_tree v = Inl (Expect_Tree v)"

fun elem_arr :: "mb \<Rightarrow> mb list trap" where
  "elem_arr (MB_A xs) = Inr xs"
| "elem_arr v = Inl (Expect_Array v)"

fun elem_fun :: "mb \<Rightarrow> nat trap" where
  "elem_fun (MB_F n) = Inr n"
| "elem_fun v = Inl (Expect_Func v)"

definition opt_arr :: "(string \<Rightarrow> mb option) \<Rightarrow> string \<Rightarrow> mb list trap" where
  "opt_arr t key = (case t key of None \<Rightarrow> Inr [] | Some v \<Rightarrow> elem_arr v)"

definition get_name :: "(string \<Rightarrow> mb option) \<Rightarrow> string trap" where
  "get_name t = (case t ''name'' of None \<Rightarrow> Inl Name_Missing | Some v \<Rightarrow> elem_str v)"

definition shell_arg :: "(string \<Rightarrow> mb option) \<Rightarrow> string \<Rightarrow> mb trap" where
  "shell_arg t key = (case t key of None \<Rightarrow> Inl (No_Shellarg key) | Some v \<Rightarrow> Inr v)"

text \<open>\<open>stir_strdup\<close> copies up to the first NUL, \<open>my_strdup_len\<close> the whole string.\<close>

definition strdup :: "string \<Rightarrow> string" where
  "strdup s = takeWhile (\<lambda>c. c \<noteq> CHR 0x00) s"

section \<open>The parts of a rule\<close>

definition read_tgt :: "mb \<Rightarrow> tgt trap" where
  "read_tgt v = bind_trap (elem_tree v) (\<lambda>t. bind_trap (get_name t) (\<lambda>n. bind_trap (opt_bool t ''dist'') (\<lambda>dist.
     Inr \<lparr> t_namenodir = strdup n, t_suffix = None, t_percent_special = False, t_is_dist = dist \<rparr>)))"

definition read_dep :: "mb \<Rightarrow> dep trap" where
  "read_dep v = bind_trap (elem_tree v) (\<lambda>t. bind_trap (get_name t) (\<lambda>n. bind_trap (opt_bool t ''rec'') (\<lambda>recursive.
     bind_trap (opt_bool t ''orderonly'') (\<lambda>orderonly.
     Inr \<lparr> d_namenodir = strdup n, d_suffix = None, d_percent_special = False, d_rec = recursive,
           d_orderonly = orderonly, d_wait = False \<rparr>))))"

definition read_shell :: "(mb \<Rightarrow> nat) \<Rightarrow> mb \<Rightarrow> cmdsrcitem trap" where
  "read_shell cache_add v = bind_trap (elem_tree v) (\<lambda>t.
     bind_trap (opt_bool t ''embed'') (\<lambda>embed. bind_trap (opt_bool t ''isfun'') (\<lambda>isfun.
     bind_trap (opt_bool t ''ismake'') (\<lambda>ismake. bind_trap (opt_bool t ''noecho'') (\<lambda>noecho.
     bind_trap (opt_bool t ''ignore'') (\<lambda>ignore.
       let item = (\<lambda>cap u. \<lparr> cs_merge = embed, cs_iscode = False, cs_isfun = isfun, cs_ignore = ignore,
             cs_noecho = noecho, cs_ismake = ismake, cs_capacity = cap, cs_u = u \<rparr>) in
       if isfun then
         bind_trap (bind_trap (shell_arg t ''fun'') elem_fun) (\<lambda>f. bind_trap (shell_arg t ''arg'') (\<lambda>a.
           Inr (item 0 (Funarg f (cache_add a)))))
       else if embed then
         bind_trap (bind_trap (shell_arg t ''cmds'') elem_arr) (\<lambda>cs.
         bind_trap (map_trap (\<lambda>c. bind_trap (elem_arr c) (map_trap elem_str)) cs) (\<lambda>css.
           Inr (item (length css + 1) (Cmds css))))
       else
         bind_trap (bind_trap (shell_arg t ''cmd'') elem_arr) (\<lambda>as.
         bind_trap (map_trap elem_str as) (\<lambda>ss.
           Inr (item (length ss + 1) (Args (map Some ss)))))))))))"

record attrstruct =
  at_phony :: bool
  at_rectgt :: bool
  at_detouch :: bool
  at_maybe :: bool
  at_dist :: bool
  at_deponly :: bool
  at_iscleanhook :: bool
  at_isdistcleanhook :: bool
  at_isbothcleanhook :: bool

definition attrs_empty :: attrstruct where
  "attrs_empty = \<lparr> at_phony = False, at_rectgt = False, at_detouch = False, at_maybe = False, at_dist = False,
     at_deponly = False, at_iscleanhook = False, at_isdistcleanhook = False, at_isbothcleanhook = False \<rparr>"

definition read_attrs :: "(string \<Rightarrow> mb option) \<Rightarrow> attrstruct trap" where
  "read_attrs t =
     (case t ''attrs'' of
        None \<Rightarrow> Inr attrs_empty
      | Some v \<Rightarrow> bind_trap (elem_tree v) (\<lambda>a.
          bind_trap (opt_bool a ''phony'') (\<lambda>phony. bind_trap (opt_bool a ''rectgt'') (\<lambda>rectgt.
          bind_trap (opt_bool a ''detouch'') (\<lambda>detouch. bind_trap (opt_bool a ''maybe'') (\<lambda>maybe.
          bind_trap (opt_bool a ''dist'') (\<lambda>dist. bind_trap (opt_bool a ''deponly'') (\<lambda>deponly.
          bind_trap (opt_bool a ''iscleanhook'') (\<lambda>ch. bind_trap (opt_bool a ''isdistcleanhook'') (\<lambda>dch.
          bind_trap (opt_bool a ''isbothcleanhook'') (\<lambda>bch.
            Inr \<lparr> at_phony = phony, at_rectgt = rectgt, at_detouch = detouch, at_maybe = maybe, at_dist = dist,
                  at_deponly = deponly, at_iscleanhook = ch, at_isdistcleanhook = dch,
                  at_isbothcleanhook = bch \<rparr>)))))))))))"

text \<open>\<open>True\<close> is the return value 0.\<close>

definition attr_sanity :: "attrstruct \<Rightarrow> bool" where
  "attr_sanity a =
     (let clean = of_bool (at_iscleanhook a) + of_bool (at_isdistcleanhook a) + of_bool (at_isbothcleanhook a) :: nat in
      if clean > 1 then False
      else if clean > 0 then
        (if at_dist a \<or> at_rectgt a \<or> at_detouch a \<or> at_maybe a then False
         else if of_bool (at_phony a) + of_bool (at_deponly a) \<noteq> (1 :: nat) then False
         else True)
      else if at_deponly a then
        (if at_dist a \<or> at_maybe a \<or> at_detouch a \<or> at_rectgt a \<or> at_phony a then False else True)
      else if at_phony a then
        (if at_dist a \<or> at_maybe a \<or> at_detouch a \<or> at_rectgt a then False else True)
      else if at_rectgt a then (if at_maybe a \<or> at_detouch a then False else True)
      else if at_detouch a then (if at_maybe a \<or> at_rectgt a then False else True)
      else True)"

section \<open>Adding a rule\<close>

text \<open>\<open>None\<close> is the return value \<open>-EINVAL\<close>.\<close>

definition add_rule_yy :: "tgt list \<Rightarrow> dep list \<Rightarrow> cmdsrcitem list \<Rightarrow> attrstruct \<Rightarrow> string \<Rightarrow> nat \<Rightarrow> int
    \<Rightarrow> stiryy_main \<Rightarrow> stiryy_main option res" where
  "add_rule_yy tgl dpl shl a prefix scope lineno m =
     (if m_trial m then Inr (Some m)
      else if m_rule_in_progress m then Inr None
      else bind_res (stiryy_main_emplace_rule prefix scope lineno m) (\<lambda>m. bind_res (last_rule m) (\<lambda>y.
        Inr (Some ((set_last (y\<lparr> y_bases := [], y_deps := dpl, y_targets := tgl, y_shells := shl,
            y_phony := at_phony a, y_rectgt := at_rectgt a, y_detouch := at_detouch a, y_maybe := at_maybe a,
            y_dist := at_dist a, y_iscleanhook := at_iscleanhook a, y_isdistcleanhook := at_isdistcleanhook a,
            y_isbothcleanhook := at_isbothcleanhook a, y_deponly := at_deponly a \<rparr>) m)
          \<lparr> m_lastrule_basecapacity := 0, m_lastrule_depcapacity := length dpl,
            m_lastrule_targetcapacity := length tgl, m_lastrule_itemcapacity := length shl, m_rule_in_progress := False \<rparr>)))))"

definition add_hook :: "bool \<Rightarrow> string \<Rightarrow> stiryy_main \<Rightarrow> stiryy_main trap" where
  "add_hook b n m = (if b then lift_res (stiryy_main_set_cleanhooktgt n m) else Inr m)"

definition stir_trap_ruleadd :: "(mb \<Rightarrow> nat) \<Rightarrow> string \<Rightarrow> nat \<Rightarrow> int \<Rightarrow> mb \<Rightarrow> stiryy_main \<Rightarrow> stiryy_main trap" where
  "stir_trap_ruleadd cache_add prefix scope lineno v m =
     bind_trap (verify_tree v) (\<lambda>tree.
     bind_trap (case tree ''tgts'' of None \<Rightarrow> Inl Targets_Missing | Some ts \<Rightarrow> elem_arr ts) (\<lambda>ts.
     bind_trap (map_trap read_tgt ts) (\<lambda>tgl.
     bind_trap (opt_arr tree ''deps'') (\<lambda>ds.
     bind_trap (map_trap read_dep ds) (\<lambda>dpl.
     bind_trap (opt_arr tree ''shells'') (\<lambda>ss.
     bind_trap (map_trap (read_shell cache_add) ss) (\<lambda>shl.
     bind_trap (read_attrs tree) (\<lambda>a.
       if \<not> attr_sanity a then Inl Insane_Rule
       else if (at_iscleanhook a \<or> at_isdistcleanhook a \<or> at_isbothcleanhook a) \<and> tgl \<noteq> [] then Inl Insane_Rule
       else bind_trap (lift_res (add_rule_yy tgl dpl shl a prefix scope lineno m)) (\<lambda>r.
         case r of None \<Rightarrow> Inl Rule_From_Within_Midrule
         | Some m \<Rightarrow> bind_trap (add_hook (at_iscleanhook a) ''CLEAN'' m) (\<lambda>m.
             bind_trap (add_hook (at_isdistcleanhook a) ''DISTCLEAN'' m)
               (add_hook (at_isbothcleanhook a) ''BOTHCLEAN'')))))))))))"

text \<open>\<open>STIR_OPCODE_RULE_ADD\<close>.\<close>

definition op_rule_add :: "(mb \<Rightarrow> nat) \<Rightarrow> string \<Rightarrow> nat \<Rightarrow> int \<Rightarrow> mb \<Rightarrow> stiryy_main \<Rightarrow> stiryy_main trap" where
  "op_rule_add cache_add prefix scope lineno v m =
     (if \<not> m_parsing m then Inl Rulechange_Not_Permitted
      else stir_trap_ruleadd cache_add prefix scope lineno v m)"

section \<open>Adding dependencies\<close>

text \<open>The three arguments of \<open>STIR_OPCODE_DEP_ADD\<close>, the last one first, in the order in which the code checks them.\<close>

definition read_depadd :: "mb \<Rightarrow> mb \<Rightarrow> mb \<Rightarrow> (string list \<times> string list \<times> bool \<times> bool \<times> bool) trap" where
  "read_depadd tree depar tgtar =
     bind_trap (verify_tree tree) (\<lambda>t. bind_trap (verify_arr depar) (\<lambda>ds. bind_trap (verify_arr tgtar) (\<lambda>ts.
     bind_trap (map_trap elem_str ds) (\<lambda>dpl. bind_trap (map_trap elem_str ts) (\<lambda>tgl.
     bind_trap (opt_bool t ''rec'') (\<lambda>recursive. bind_trap (opt_bool t ''orderonly'') (\<lambda>orderonly.
     bind_trap (opt_bool t ''wait'') (\<lambda>wait.
       Inr (map strdup tgl, map strdup dpl, recursive, orderonly, wait)))))))))"

fun set_tgts :: "string list \<Rightarrow> stiryy_main \<Rightarrow> stiryy_main res" where
  "set_tgts [] m = Inr m"
| "set_tgts (t # ts) m = bind_res (stiryy_main_set_tgt t False m) (set_tgts ts)"

fun set_deps :: "bool \<Rightarrow> bool \<Rightarrow> bool \<Rightarrow> string list \<Rightarrow> stiryy_main \<Rightarrow> stiryy_main res" where
  "set_deps recursive orderonly wait [] m = Inr m"
| "set_deps recursive orderonly wait (d # ds) m =
     bind_res (stiryy_main_set_dep d recursive orderonly wait m) (set_deps recursive orderonly wait ds)"

text \<open>
  During the build: the rules of the targets get the dependency, which must have a rule.  The first result is whether 0 is returned;
  what was changed before a negative return value stays.
\<close>

fun late_deps :: "nat \<Rightarrow> string \<Rightarrow> bool \<Rightarrow> bool \<Rightarrow> bool \<Rightarrow> string list \<Rightarrow> gbase \<Rightarrow> (bool \<times> gbase) res" where
  "late_deps r prefix recursive orderonly wait [] s = Inr (True, s)"
| "late_deps r prefix recursive orderonly wait (d # ds) s =
     bind_res (pathcat2_buf prefix d (Some 1024)) (\<lambda>full. bind_res (canon_buflen full (Some 1024)) (\<lambda>(can, _).
       let (di, s) = stringtab_add can s in
       case get_ruleid_by_tgt s di of
         None \<Rightarrow> Inr (False, s)
       | Some other \<Rightarrow>
           let (new, a) = ins_dep di None recursive orderonly wait False False (rules s r);
               s = upd_rule r (\<lambda>_. deps_remain_insert other a) s;
               s = (if new then snd (ins_ruleid_by_dep2 di r True s) else s)
           in late_deps r prefix recursive orderonly wait ds s))"

fun add_dep_after_parsing_stage :: "string list \<Rightarrow> string list \<Rightarrow> string \<Rightarrow> bool \<Rightarrow> bool \<Rightarrow> bool \<Rightarrow> gbase
    \<Rightarrow> (bool \<times> gbase) res" where
  "add_dep_after_parsing_stage [] ds prefix recursive orderonly wait s = Inr (True, s)"
| "add_dep_after_parsing_stage (t # ts) ds prefix recursive orderonly wait s =
     bind_res (pathcat2_buf prefix t (Some 1024)) (\<lambda>full. bind_res (canon_buflen full (Some 1024)) (\<lambda>(can, _).
       let (ti, s) = stringtab_add can s in
       case get_ruleid_by_tgt s ti of
         None \<Rightarrow> Inr (False, s)
       | Some r \<Rightarrow>
           if is_executed (rules s r) then Inr (False, s)
           else if is_queued (rules s r) then Inr (False, s)
           else bind_res (late_deps r prefix recursive orderonly wait ds s) (\<lambda>(done, s).
             if done then add_dep_after_parsing_stage ts ds prefix recursive orderonly wait s else Inr (False, s))))"

text \<open>
  A failure of the instruction is the end of stirmake (\<open>calc_cmd\<close> calls \<open>errxit\<close>), so the model of the machine gives the error and
  not the partly changed rule base; \<open>add_dep_after_parsing_stage\<close> above has both.
\<close>

definition stir_trap_depadd ::
    "string \<Rightarrow> nat \<Rightarrow> mb \<Rightarrow> mb \<Rightarrow> mb \<Rightarrow> stiryy_main \<times> gbase \<Rightarrow> (stiryy_main \<times> gbase) trap" where
  "stir_trap_depadd prefix scope tree depar tgtar dat =
     bind_trap (read_depadd tree depar tgtar) (\<lambda>(tgl, dpl, recursive, orderonly, wait).
       case dat of (m, s) \<Rightarrow>
         if \<not> m_parsing m then
           bind_trap (lift_res (add_dep_after_parsing_stage tgl dpl prefix recursive orderonly wait s)) (\<lambda>(done, s).
             if done then Inr (m, s) else Inl Rule_Not_Found)
         else bind_trap (lift_res (bind_res (stiryy_main_emplace_rule prefix scope (-1) m) (\<lambda>m.
             bind_res (set_tgts tgl m) (\<lambda>m. bind_res (set_deps recursive orderonly wait dpl m) stiryy_main_mark_deponly))))
           (\<lambda>m. Inr (m, s)))"


section \<open>The sanity of attributes\<close>

lemma attr_sanity_iff:
  "attr_sanity a \<longleftrightarrow>
     \<not> (at_phony a \<and> (at_rectgt a \<or> at_maybe a \<or> at_dist a \<or> at_detouch a)) \<and>
     \<not> (at_rectgt a \<and> (at_maybe a \<or> at_detouch a)) \<and>
     \<not> (at_detouch a \<and> (at_maybe a \<or> at_rectgt a)) \<and>
     \<not> (at_deponly a \<and> (at_phony a \<or> at_rectgt a \<or> at_detouch a \<or> at_maybe a \<or> at_dist a)) \<and>
     \<not> (at_iscleanhook a \<and> at_isdistcleanhook a) \<and> \<not> (at_iscleanhook a \<and> at_isbothcleanhook a) \<and>
     \<not> (at_isdistcleanhook a \<and> at_isbothcleanhook a) \<and>
     (at_iscleanhook a \<or> at_isdistcleanhook a \<or> at_isbothcleanhook a \<longrightarrow>
        at_phony a \<noteq> at_deponly a \<and> \<not> at_dist a \<and> \<not> at_rectgt a \<and> \<not> at_detouch a \<and> \<not> at_maybe a)"
  by (cases a) (simp add: attr_sanity_def Let_def of_bool_def)

text \<open>
  The accepted combinations of attributes are the documented ones: a phony rule has none of the other kinds, a
  recursive target and a touched directory exclude each other and \<open>maybe\<close>, a rule without a recipe has no kind,
  and there is at most one clean hook, which is either phony or without a recipe and nothing else.
\<close>

theorem attr_sanity_documented:
  "attr_sanity a \<longleftrightarrow>
     \<not> (at_phony a \<and> (at_rectgt a \<or> at_maybe a \<or> at_dist a \<or> at_detouch a)) \<and>
     \<not> (at_rectgt a \<and> (at_maybe a \<or> at_detouch a)) \<and>
     \<not> (at_detouch a \<and> (at_maybe a \<or> at_rectgt a)) \<and>
     \<not> (at_deponly a \<and> (at_phony a \<or> at_rectgt a \<or> at_detouch a \<or> at_maybe a \<or> at_dist a)) \<and>
     \<not> (at_iscleanhook a \<and> at_isdistcleanhook a) \<and> \<not> (at_iscleanhook a \<and> at_isbothcleanhook a) \<and>
     \<not> (at_isdistcleanhook a \<and> at_isbothcleanhook a) \<and>
     (at_iscleanhook a \<or> at_isdistcleanhook a \<or> at_isbothcleanhook a \<longrightarrow>
        at_phony a \<noteq> at_deponly a \<and> \<not> at_dist a \<and> \<not> at_rectgt a \<and> \<not> at_detouch a \<and> \<not> at_maybe a)"
  by (rule attr_sanity_iff)

section \<open>Rules described by trees\<close>

definition tgt_tree :: "tgt \<Rightarrow> mb" where
  "tgt_tree t = MB_T [''name'' \<mapsto> MB_S (t_namenodir t), ''dist'' \<mapsto> MB_B (t_is_dist t)]"

definition dep_tree :: "dep \<Rightarrow> mb" where
  "dep_tree d = MB_T [''name'' \<mapsto> MB_S (d_namenodir d), ''rec'' \<mapsto> MB_B (d_rec d), ''orderonly'' \<mapsto> MB_B (d_orderonly d)]"

definition shell_tree :: "(nat \<Rightarrow> mb) \<Rightarrow> cmdsrcitem \<Rightarrow> mb" where
  "shell_tree arg_of it =
     (let flags = [''embed'' \<mapsto> MB_B (cs_merge it), ''isfun'' \<mapsto> MB_B (cs_isfun it), ''ismake'' \<mapsto> MB_B (cs_ismake it),
          ''noecho'' \<mapsto> MB_B (cs_noecho it), ''ignore'' \<mapsto> MB_B (cs_ignore it)]
      in MB_T (case cs_u it of
           Funarg f a \<Rightarrow> flags(''fun'' \<mapsto> MB_F f, ''arg'' \<mapsto> arg_of a)
         | Cmds css \<Rightarrow> flags(''cmds'' \<mapsto> MB_A (map (\<lambda>c. MB_A (map MB_S c)) css))
         | Args as \<Rightarrow> flags(''cmd'' \<mapsto> MB_A (map (\<lambda>s. MB_S (the s)) as))
         | Locidx l \<Rightarrow> flags))"

definition attrs_of :: "stiryyrule \<Rightarrow> attrstruct" where
  "attrs_of y = \<lparr> at_phony = y_phony y, at_rectgt = y_rectgt y, at_detouch = y_detouch y, at_maybe = y_maybe y,
     at_dist = y_dist y, at_deponly = y_deponly y, at_iscleanhook = y_iscleanhook y,
     at_isdistcleanhook = y_isdistcleanhook y, at_isbothcleanhook = y_isbothcleanhook y \<rparr>"

definition attrs_tree :: "attrstruct \<Rightarrow> mb" where
  "attrs_tree a = MB_T [''phony'' \<mapsto> MB_B (at_phony a), ''rectgt'' \<mapsto> MB_B (at_rectgt a), ''detouch'' \<mapsto> MB_B (at_detouch a),
     ''maybe'' \<mapsto> MB_B (at_maybe a), ''dist'' \<mapsto> MB_B (at_dist a), ''deponly'' \<mapsto> MB_B (at_deponly a),
     ''iscleanhook'' \<mapsto> MB_B (at_iscleanhook a), ''isdistcleanhook'' \<mapsto> MB_B (at_isdistcleanhook a),
     ''isbothcleanhook'' \<mapsto> MB_B (at_isbothcleanhook a)]"

definition rule_tree :: "(nat \<Rightarrow> mb) \<Rightarrow> stiryyrule \<Rightarrow> mb" where
  "rule_tree arg_of y = MB_T [''tgts'' \<mapsto> MB_A (map tgt_tree (if is_hook y then [] else y_targets y)),
     ''deps'' \<mapsto> MB_A (map dep_tree (y_deps y)), ''shells'' \<mapsto> MB_A (map (shell_tree arg_of) (y_shells y)),
     ''attrs'' \<mapsto> attrs_tree (attrs_of y)]"

text \<open>The rules that a tree can describe; \<open>cache_add\<close> has to give the index of an argument that \<open>arg_of\<close> holds.\<close>

definition described_shell :: "(mb \<Rightarrow> nat) \<Rightarrow> (nat \<Rightarrow> mb) \<Rightarrow> cmdsrcitem \<Rightarrow> bool" where
  "described_shell cache_add arg_of it = (\<not> cs_iscode it \<and> (case cs_u it of
      Funarg f a \<Rightarrow> cs_isfun it \<and> cs_capacity it = 0 \<and> cache_add (arg_of a) = a
    | Cmds css \<Rightarrow> \<not> cs_isfun it \<and> cs_merge it \<and> cs_capacity it = length css + 1
    | Args as \<Rightarrow> \<not> cs_isfun it \<and> \<not> cs_merge it \<and> cs_capacity it = length as + 1 \<and> None \<notin> set as
    | Locidx l \<Rightarrow> False))"

definition described_rule :: "(mb \<Rightarrow> nat) \<Rightarrow> (nat \<Rightarrow> mb) \<Rightarrow> stiryyrule \<Rightarrow> bool" where
  "described_rule cache_add arg_of y =
     (y_bases y = [] \<and> \<not> y_ispat y \<and> \<not> y_patfrozen y \<and>
      (\<forall>t \<in> set (y_targets y). plain_tgt t \<and> CHR 0x00 \<notin> set (t_namenodir t)) \<and>
      (\<forall>d \<in> set (y_deps y). plain_dep d \<and> \<not> d_wait d \<and> CHR 0x00 \<notin> set (d_namenodir d)) \<and>
      (\<forall>it \<in> set (y_shells y). described_shell cache_add arg_of it) \<and> attr_sanity (attrs_of y) \<and>
      (is_hook y \<longrightarrow> y_phony y \<and> y_targets y = [hook_tgt (hook_name y)]))"

lemma strdup_id: "CHR 0x00 \<notin> set s \<Longrightarrow> strdup s = s"
  by (auto simp: strdup_def takeWhile_eq_all_conv)

lemma read_tgt_tree: "plain_tgt t \<Longrightarrow> CHR 0x00 \<notin> set (t_namenodir t) \<Longrightarrow> read_tgt (tgt_tree t) = Inr t"
  by (cases t) (simp add: read_tgt_def tgt_tree_def plain_tgt_def get_name_def opt_bool_def strdup_id)

lemma read_dep_tree:
  "plain_dep d \<Longrightarrow> \<not> d_wait d \<Longrightarrow> CHR 0x00 \<notin> set (d_namenodir d) \<Longrightarrow> read_dep (dep_tree d) = Inr d"
  by (cases d) (simp add: read_dep_def dep_tree_def plain_dep_def get_name_def opt_bool_def strdup_id)

lemma read_attrs_tree: "t ''attrs'' = Some (attrs_tree a) \<Longrightarrow> read_attrs t = Inr a"
  by (cases a) (simp add: read_attrs_def attrs_tree_def opt_bool_def)

lemma map_trap_elem_str: "map_trap elem_str (map (\<lambda>x. MB_S (f x)) xs) = Inr (map f xs)"
  by (induction xs) simp_all

lemma map_trap_cmds: "map_trap (\<lambda>c. bind_trap (elem_arr c) (map_trap elem_str)) (map (\<lambda>c. MB_A (map MB_S c)) css) = Inr css"
  using map_trap_elem_str[of id] by (induction css) simp_all

lemma read_shell_tree:
  assumes "described_shell cache_add arg_of it"
  shows "read_shell cache_add (shell_tree arg_of it) = Inr it"
proof -
  have the: "map (\<lambda>x. Some (the x)) as = as" if "None \<notin> set as" for as :: "string option list"
    using that by (intro map_idI) (metis option.collapse)
  show ?thesis
    using assms the
    by (cases it; cases "cs_u it") (auto simp: read_shell_def shell_tree_def described_shell_def opt_bool_def shell_arg_def
      map_trap_elem_str map_trap_cmds comp_def Let_def)
qed

lemma map_trap_map: "(\<And>x. x \<in> set xs \<Longrightarrow> f (g x) = Inr x) \<Longrightarrow> map_trap f (map g xs) = Inr xs"
  by (induction xs) auto

definition rule_with :: "tgt list \<Rightarrow> dep list \<Rightarrow> cmdsrcitem list \<Rightarrow> attrstruct \<Rightarrow> string \<Rightarrow> nat \<Rightarrow> int \<Rightarrow> stiryyrule" where
  "rule_with ts ds shl a prefix scope lineno = (empty_rule prefix scope lineno)\<lparr> y_bases := [], y_deps := ds,
     y_targets := ts, y_shells := shl, y_phony := at_phony a, y_rectgt := at_rectgt a, y_detouch := at_detouch a,
     y_maybe := at_maybe a, y_dist := at_dist a, y_iscleanhook := at_iscleanhook a,
     y_isdistcleanhook := at_isdistcleanhook a, y_isbothcleanhook := at_isbothcleanhook a, y_deponly := at_deponly a \<rparr>"

lemma add_rule_yy_ok:
  assumes "caps_ok m" "\<not> m_trial m" "\<not> m_rule_in_progress m"
  obtains m1 where "add_rule_yy ts ds shl a prefix scope lineno m = Inr (Some m1)"
    "rule_open (m_rules m) (rule_with ts ds shl a prefix scope lineno) m m1" "\<not> m_rule_in_progress m1"
proof -
  let ?e = "empty_rule prefix scope lineno"
  obtain m0 where m0: "stiryy_main_emplace_rule prefix scope lineno m = Inr m0" "rule_open (m_rules m) ?e m m0"
    using emplace_open(1)[OF assms(1,2), of prefix scope lineno]
    by (cases "stiryy_main_emplace_rule prefix scope lineno m") auto
  let ?m1 = "(set_last (rule_with ts ds shl a prefix scope lineno) m0)\<lparr> m_lastrule_basecapacity := 0,
     m_lastrule_depcapacity := length ds, m_lastrule_targetcapacity := length ts, m_lastrule_itemcapacity := length shl,
     m_rule_in_progress := False \<rparr>"
  have "add_rule_yy ts ds shl a prefix scope lineno m = Inr (Some ?m1)"
    using assms m0(1) rule_open_last[OF m0(2)] by (simp add: add_rule_yy_def rule_with_def)
  moreover have "rule_open (m_rules m) (rule_with ts ds shl a prefix scope lineno) m ?m1"
    using m0(2) by (auto simp: rule_open_def caps_ok_def rule_with_def empty_rule_def)
  ultimately show ?thesis using that by simp
qed

lemma hook_open:
  assumes "rule_open ys y m0 m" "\<not> m_rule_in_progress m" "edits p [Set_Cleanhooktgt n] y y'"
  obtains m1 where "stiryy_main_set_cleanhooktgt n m = Inr m1" "rule_open ys y' m0 m1" "\<not> m_rule_in_progress m1"
proof -
  have "outcome {} (rule_open ys y' m0) (stir_calls [(p, Set_Cleanhooktgt n)] m)"
    using assms(1,3) by (simp add: edits_def)
  then obtain m1 where m1: "stiryy_main_set_cleanhooktgt n m = Inr m1" "rule_open ys y' m0 m1"
    by (cases "stiryy_main_set_cleanhooktgt n m") auto
  moreover have "m_rule_in_progress m1 = m_rule_in_progress m"
    using m1(1) by (auto simp: stiryy_main_set_cleanhooktgt_def push_tgt_def stir_simps Let_def split: if_splits)
  ultimately show ?thesis using that assms(2) by simp
qed

lemma bind_trap_id [simp]: "bind_trap r Inr = r" "bind_trap r (\<lambda>x. Inr x) = r"
  by (cases r; simp)+

lemma add_hook_bool [simp]: "add_hook False n = Inr" "add_hook True n m = lift_res (stiryy_main_set_cleanhooktgt n m)"
  by (simp_all add: add_hook_def fun_eq_iff)

text \<open>A described hook: its rule after \<open>add_rule_yy\<close> lacks only the target that its name stands for.\<close>

lemma described_hook:
  assumes d: "described_rule cache_add arg_of y" and h: "is_hook y"
  shows "edits p [Set_Cleanhooktgt (hook_name y)]
      (rule_with [] (y_deps y) (y_shells y) (attrs_of y) (y_prefix y) (y_scopeidx y) (y_lineno y)) y"
    and "bind_trap (add_hook (y_iscleanhook y) ''CLEAN'' m) (\<lambda>m. bind_trap (add_hook (y_isdistcleanhook y) ''DISTCLEAN'' m)
        (add_hook (y_isbothcleanhook y) ''BOTHCLEAN'')) = lift_res (stiryy_main_set_cleanhooktgt (hook_name y) m)"
proof -
  let ?y0 = "rule_with [] (y_deps y) (y_shells y) (attrs_of y) (y_prefix y) (y_scopeidx y) (y_lineno y)"
  have s: "attr_sanity (attrs_of y)" "y_phony y" "y_targets y = [hook_tgt (hook_name y)]"
    using d h by (simp_all add: described_rule_def)
  have f: "y_bases y = []" "\<not> y_ispat y" "\<not> y_patfrozen y" using d by (simp_all add: described_rule_def)
  have one: "(y_iscleanhook y \<and> \<not> y_isdistcleanhook y \<and> \<not> y_isbothcleanhook y) \<or>
      (\<not> y_iscleanhook y \<and> y_isdistcleanhook y \<and> \<not> y_isbothcleanhook y) \<or>
      (\<not> y_iscleanhook y \<and> \<not> y_isdistcleanhook y \<and> y_isbothcleanhook y)"
    using s(1) h unfolding attr_sanity_iff is_hook_def by (simp add: attrs_of_def) blast
  have "edits p [Set_Cleanhooktgt (hook_name y)] ?y0 (?y0\<lparr> y_targets := y_targets y, y_phony := True \<rparr>)"
    using one edits_hook[of p ?y0] s(3)
    by (elim disjE) (simp_all add: rule_with_def empty_rule_def attrs_of_def hook_name_def)
  moreover have "?y0\<lparr> y_targets := y_targets y, y_phony := True \<rparr> = y"
    using s f by (cases y) (simp add: rule_with_def empty_rule_def attrs_of_def)
  ultimately show "edits p [Set_Cleanhooktgt (hook_name y)] ?y0 y" by metis
  show "bind_trap (add_hook (y_iscleanhook y) ''CLEAN'' m) (\<lambda>m. bind_trap (add_hook (y_isdistcleanhook y) ''DISTCLEAN'' m)
        (add_hook (y_isbothcleanhook y) ''BOTHCLEAN'')) = lift_res (stiryy_main_set_cleanhooktgt (hook_name y) m)"
    using one by (elim disjE) (simp_all add: hook_name_def)
qed

lemma ruleadd_run:
  assumes d: "described_rule cache_add arg_of y"
    and m0: "add_rule_yy (if is_hook y then [] else y_targets y) (y_deps y) (y_shells y) (attrs_of y) p scope l m = Inr r"
  shows "stir_trap_ruleadd cache_add p scope l (rule_tree arg_of y) m = (case r of None \<Rightarrow> Inl Rule_From_Within_Midrule
     | Some m \<Rightarrow> bind_trap (add_hook (y_iscleanhook y) ''CLEAN'' m) (\<lambda>m. bind_trap (add_hook (y_isdistcleanhook y) ''DISTCLEAN'' m)
        (add_hook (y_isbothcleanhook y) ''BOTHCLEAN'')))"
proof -
  let ?ts = "if is_hook y then [] else y_targets y"
  have reads: "map_trap read_tgt (map tgt_tree ?ts) = Inr ?ts" "map_trap read_dep (map dep_tree (y_deps y)) = Inr (y_deps y)"
    "map_trap (read_shell cache_add) (map (shell_tree arg_of) (y_shells y)) = Inr (y_shells y)"
    using d by (auto simp: described_rule_def intro!: map_trap_map read_tgt_tree read_dep_tree read_shell_tree)
  have hook: "at_iscleanhook (attrs_of y) = y_iscleanhook y" "at_isdistcleanhook (attrs_of y) = y_isdistcleanhook y"
    "at_isbothcleanhook (attrs_of y) = y_isbothcleanhook y" "attr_sanity (attrs_of y)"
    using d by (simp_all add: attrs_of_def described_rule_def)
  have "is_hook y = (y_iscleanhook y \<or> y_isdistcleanhook y \<or> y_isbothcleanhook y)" by (simp add: is_hook_def)
  then show ?thesis using m0 reads hook
    unfolding stir_trap_ruleadd_def rule_tree_def opt_arr_def
    by (cases "is_hook y") (simp_all add: read_attrs_tree split: option.split)
qed

lemma ruleadd_tree:
  assumes d: "described_rule cache_add arg_of y" and m: "caps_ok m" "\<not> m_trial m" "\<not> m_rule_in_progress m"
  obtains m1 where "stir_trap_ruleadd cache_add (y_prefix y) (y_scopeidx y) (y_lineno y) (rule_tree arg_of y) m = Inr m1"
    "rule_open (m_rules m) y m m1" "\<not> m_rule_in_progress m1"
proof (cases "is_hook y")
  case False
  let ?y0 = "rule_with (y_targets y) (y_deps y) (y_shells y) (attrs_of y) (y_prefix y) (y_scopeidx y) (y_lineno y)"
  obtain m0 where m0: "add_rule_yy (y_targets y) (y_deps y) (y_shells y) (attrs_of y) (y_prefix y) (y_scopeidx y) (y_lineno y) m
      = Inr (Some m0)" "rule_open (m_rules m) ?y0 m m0" "\<not> m_rule_in_progress m0"
    using add_rule_yy_ok[OF m] by blast
  have "?y0 = y" using d False by (cases y) (simp add: rule_with_def empty_rule_def attrs_of_def described_rule_def)
  then show ?thesis using that m0 ruleadd_run[OF d, of "y_prefix y" "y_scopeidx y" "y_lineno y" m "Some m0"] False
    by (simp add: is_hook_def add_hook_def)
next
  case True
  let ?y0 = "rule_with [] (y_deps y) (y_shells y) (attrs_of y) (y_prefix y) (y_scopeidx y) (y_lineno y)"
  obtain m0 where m0: "add_rule_yy [] (y_deps y) (y_shells y) (attrs_of y) (y_prefix y) (y_scopeidx y) (y_lineno y) m
      = Inr (Some m0)" "rule_open (m_rules m) ?y0 m m0" "\<not> m_rule_in_progress m0"
    using add_rule_yy_ok[OF m] by blast
  from hook_open[OF m0(2,3) described_hook(1)[OF d True]] obtain m1 where
    m1: "stiryy_main_set_cleanhooktgt (hook_name y) m0 = Inr m1" "rule_open (m_rules m) y m m1" "\<not> m_rule_in_progress m1" .
  have "stir_trap_ruleadd cache_add (y_prefix y) (y_scopeidx y) (y_lineno y) (rule_tree arg_of y) m = Inr m1"
    using ruleadd_run[OF d, of "y_prefix y" "y_scopeidx y" "y_lineno y" m "Some m0"] m0(1) True
      described_hook(2)[OF d True, of m0] m1(1) by simp
  then show ?thesis using that m1 by blast
qed

lemma rule_add_tree:
  assumes d: "described_rule cache_add arg_of y" and m: "caps_ok m" "\<not> m_trial m"
  shows "case op_rule_add cache_add (y_prefix y) (y_scopeidx y) (y_lineno y) (rule_tree arg_of y) m of
      Inl e \<Rightarrow> (\<not> m_parsing m \<and> e = Rulechange_Not_Permitted) \<or> (m_parsing m \<and> m_rule_in_progress m \<and> e = Rule_From_Within_Midrule)
    | Inr m' \<Rightarrow> m_parsing m \<and> \<not> m_rule_in_progress m \<and> tables_of [y] m m'"
proof -
  consider "\<not> m_parsing m" | "m_parsing m" "m_rule_in_progress m" | "m_parsing m" "\<not> m_rule_in_progress m" by blast
  then show ?thesis
  proof cases
    case 1
    then show ?thesis by (simp add: op_rule_add_def)
  next
    case 2
    have "add_rule_yy (if is_hook y then [] else y_targets y) (y_deps y) (y_shells y) (attrs_of y)
        (y_prefix y) (y_scopeidx y) (y_lineno y) m = Inr None"
      using 2 m(2) by (simp add: add_rule_yy_def)
    from ruleadd_run[OF d this] show ?thesis using 2 by (simp add: op_rule_add_def)
  next
    case 3
    from ruleadd_tree[OF d m 3(2)] obtain m1 where
      "stir_trap_ruleadd cache_add (y_prefix y) (y_scopeidx y) (y_lineno y) (rule_tree arg_of y) m = Inr m1"
      "rule_open (m_rules m) y m m1" "\<not> m_rule_in_progress m1" .
    then show ?thesis using 3 by (simp add: op_rule_add_def tables_of_def rule_open_def)
  qed
qed

text \<open>
  C26: The opcode for adding a rule adds exactly the rule that its argument describes, with its targets, dependencies,
  recipe, attributes and hooks, and keeps the other tables; it refuses only after parsing and inside
  another rule.
\<close>

theorem rule_add_roundtrip:
  assumes "described_rule cache_add arg_of y" "caps_ok m" "\<not> m_trial m"
  shows "case op_rule_add cache_add (y_prefix y) (y_scopeidx y) (y_lineno y) (rule_tree arg_of y) m of
      Inl e \<Rightarrow> (\<not> m_parsing m \<and> e = Rulechange_Not_Permitted) \<or> (m_parsing m \<and> m_rule_in_progress m \<and> e = Rule_From_Within_Midrule)
    | Inr m' \<Rightarrow> m_parsing m \<and> \<not> m_rule_in_progress m \<and> tables_of [y] m m'"
  using assms by (rule rule_add_tree)

text \<open>\<open>o, p: @recdep src\<close> with one command and a function, and a clean hook.\<close>

definition ex_described :: stiryyrule where
  "ex_described = (empty_rule ''d'' 3 9)\<lparr>
     y_targets := [\<lparr> t_namenodir = ''o'', t_suffix = None, t_percent_special = False, t_is_dist = True \<rparr>,
        \<lparr> t_namenodir = ''p'', t_suffix = None, t_percent_special = False, t_is_dist = False \<rparr>],
     y_deps := [\<lparr> d_namenodir = ''src'', d_suffix = None, d_percent_special = False, d_rec = True,
        d_orderonly = False, d_wait = False \<rparr>],
     y_shells := [\<lparr> cs_merge = False, cs_iscode = False, cs_isfun = False, cs_ignore = True, cs_noecho = False,
          cs_ismake = False, cs_capacity = 3, cs_u = Args [Some ''cc'', Some ''x''] \<rparr>,
        \<lparr> cs_merge = True, cs_iscode = False, cs_isfun = True, cs_ignore = False, cs_noecho = False,
          cs_ismake = False, cs_capacity = 0, cs_u = Funarg 5 0 \<rparr>],
     y_rectgt := True, y_dist := True \<rparr>"

definition ex_hook :: stiryyrule where
  "ex_hook = (empty_rule ''d'' 3 10)\<lparr> y_targets := [hook_tgt ''DISTCLEAN''], y_phony := True, y_isdistcleanhook := True \<rparr>"

theorem rule_add_roundtrip_witness:
  "(case op_rule_add (\<lambda>_. 0) ''d'' 3 9 (rule_tree (\<lambda>_. MB_N) ex_described) (stiryy_main_init False) of
      Inl e \<Rightarrow> False | Inr m' \<Rightarrow> m_rules m' = [ex_described]) \<and>
   (case op_rule_add (\<lambda>_. 0) ''d'' 3 10 (rule_tree (\<lambda>_. MB_N) ex_hook) (stiryy_main_init False) of
      Inl e \<Rightarrow> False | Inr m' \<Rightarrow> m_rules m' = [ex_hook])"
proof -
  let ?m = "stiryy_main_init False"
  have d: "described_rule (\<lambda>_. 0) (\<lambda>_. MB_N) ex_described" "described_rule (\<lambda>_. 0) (\<lambda>_. MB_N) ex_hook"
    by (simp_all add: described_rule_def ex_described_def ex_hook_def empty_rule_def plain_tgt_def plain_dep_def
      described_shell_def attr_sanity_iff attrs_of_def is_hook_def hook_name_def hook_tgt_def)
  have m: "caps_ok ?m" "\<not> m_trial ?m" "m_parsing ?m" "\<not> m_rule_in_progress ?m" "m_rules ?m = []"
    by (simp_all add: caps_ok_def stiryy_main_init_def)
  have e: "y_prefix ex_described = ''d''" "y_scopeidx ex_described = 3" "y_lineno ex_described = 9"
    "y_prefix ex_hook = ''d''" "y_scopeidx ex_hook = 3" "y_lineno ex_hook = 10"
    by (simp_all add: ex_described_def ex_hook_def empty_rule_def)
  have 1: "case op_rule_add (\<lambda>_. 0) ''d'' 3 9 (rule_tree (\<lambda>_. MB_N) ex_described) ?m of
      Inl e \<Rightarrow> False | Inr m' \<Rightarrow> m_rules m' = [ex_described]"
    using rule_add_roundtrip[OF d(1) m(1,2)] m e by (simp add: tables_of_def split: sum.splits)
  have 2: "case op_rule_add (\<lambda>_. 0) ''d'' 3 10 (rule_tree (\<lambda>_. MB_N) ex_hook) ?m of
      Inl e \<Rightarrow> False | Inr m' \<Rightarrow> m_rules m' = [ex_hook]"
    using rule_add_roundtrip[OF d(2) m(1,2)] m e by (simp add: tables_of_def split: sum.splits)
  show ?thesis using 1 2 by (rule conjI)
qed

section \<open>Dependencies added while parsing\<close>

lemma set_tgts_calls: "set_tgts ts m = stir_calls (map (Pair p) (map (\<lambda>t. Set_Tgt t False) ts)) m"
  by (induction ts arbitrary: m) (auto simp: bind_res_def split: sum.split)

lemma set_deps_calls: "set_deps r oo w ds m = stir_calls (map (Pair p) (map (\<lambda>d. Set_Dep d r oo w) ds)) m"
  by (induction ds arbitrary: m) (auto simp: bind_res_def split: sum.split)

text \<open>The rule without a recipe that the opcode adds.\<close>

definition depadd_rule :: "string \<Rightarrow> nat \<Rightarrow> string list \<Rightarrow> string list \<Rightarrow> bool \<Rightarrow> bool \<Rightarrow> bool \<Rightarrow> stiryyrule" where
  "depadd_rule prefix scope ts ds r oo w = (empty_rule prefix scope (-1))\<lparr>
     y_targets := map (\<lambda>t. \<lparr> t_namenodir = t, t_suffix = None, t_percent_special = False, t_is_dist = False \<rparr>) ts,
     y_deps := map (\<lambda>d. \<lparr> d_namenodir = d, d_suffix = None, d_percent_special = False, d_rec = r, d_orderonly = oo, d_wait = w \<rparr>) ds,
     y_deponly := True \<rparr>"

lemma depadd_edits:
  "edits p (map (\<lambda>t. Set_Tgt t False) ts @ map (\<lambda>d. Set_Dep d r oo w) ds @ [Mark_Deponly])
     (empty_rule prefix scope (-1)) (depadd_rule prefix scope ts ds r oo w)"
proof -
  let ?e = "empty_rule prefix scope (-1)"
  let ?tg = "\<lambda>t. \<lparr> t_namenodir = t, t_suffix = None, t_percent_special = False, t_is_dist = False \<rparr> :: tgt"
  let ?dp = "\<lambda>d. \<lparr> d_namenodir = d, d_suffix = None, d_percent_special = False, d_rec = r, d_orderonly = oo, d_wait = w \<rparr> :: dep"
  have t: "edits p (map (\<lambda>t. Set_Tgt t False) ts) ?e (?e\<lparr> y_targets := map ?tg ts \<rparr>)"
    using edits_tgts[of "map ?tg ts" p ?e] by (simp add: plain_tgt_def tgt_call_def comp_def empty_rule_def)
  have d: "edits p (map (\<lambda>d. Set_Dep d r oo w) ds) (?e\<lparr> y_targets := map ?tg ts \<rparr>) (?e\<lparr> y_targets := map ?tg ts, y_deps := map ?dp ds \<rparr>)"
    using edits_deps[of "map ?dp ds" p "?e\<lparr> y_targets := map ?tg ts \<rparr>"]
    by (simp add: plain_dep_def dep_call_def comp_def empty_rule_def)
  show ?thesis using edits_append[OF t edits_append[OF d edits_mark(6)]] by (simp add: depadd_rule_def)
qed

lemma push_progress:
  "push_tgt t y m = Inr m' \<Longrightarrow> m_rule_in_progress m' = m_rule_in_progress m"
  "push_dep d y m = Inr m' \<Longrightarrow> m_rule_in_progress m' = m_rule_in_progress m"
  by (auto simp: push_tgt_def push_dep_def stir_simps)

lemma set_progress:
  "stiryy_main_set_tgt t d m = Inr m' \<Longrightarrow> m_rule_in_progress m' = m_rule_in_progress m"
  "stiryy_main_set_dep n r oo w m = Inr m' \<Longrightarrow> m_rule_in_progress m' = m_rule_in_progress m"
  "stiryy_main_mark_deponly m = Inr m' \<Longrightarrow> m_rule_in_progress m' = m_rule_in_progress m"
  by (auto simp: stiryy_main_set_tgt_def stiryy_main_set_dep_def stiryy_main_mark_deponly_def mark_rule_def
    last_rule_def push_progress split: if_splits)

lemma set_tgts_progress: "set_tgts ts m = Inr m' \<Longrightarrow> m_rule_in_progress m' = m_rule_in_progress m"
  by (induction ts arbitrary: m) (auto simp: stir_simps dest: set_progress(1))

lemma set_deps_progress: "set_deps r oo w ds m = Inr m' \<Longrightarrow> m_rule_in_progress m' = m_rule_in_progress m"
  by (induction ds arbitrary: m) (auto simp: stir_simps dest: set_progress(2))

lemma depadd_parsing:
  assumes m: "caps_ok m" "\<not> m_trial m" "m_parsing m"
    and r: "read_depadd tree depar tgtar = Inr (ts, ds, r, oo, w)"
  obtains m1 where "stir_trap_depadd prefix scope tree depar tgtar (m, s) = Inr (m1, s)"
    "rule_open (m_rules m) (depadd_rule prefix scope ts ds r oo w) m m1" "m_rule_in_progress m1"
proof -
  let ?cs = "map (\<lambda>t. Set_Tgt t False) ts @ map (\<lambda>d. Set_Dep d r oo w) ds @ [Mark_Deponly]"
  obtain m0 where m0: "stiryy_main_emplace_rule prefix scope (-1) m = Inr m0"
      "rule_open (m_rules m) (empty_rule prefix scope (-1)) m m0"
    using emplace_open(1)[OF m(1,2), of prefix scope "-1"] by (cases "stiryy_main_emplace_rule prefix scope (-1) m") auto
  have "outcome {} (rule_open (m_rules m) (depadd_rule prefix scope ts ds r oo w) m) (stir_calls (map (Pair prefix) ?cs) m0)"
    using depadd_edits[of prefix ts r oo w ds prefix scope] m0(2) unfolding edits_def by blast
  then obtain m1 where m1: "stir_calls (map (Pair prefix) ?cs) m0 = Inr m1"
      "rule_open (m_rules m) (depadd_rule prefix scope ts ds r oo w) m m1"
    by (cases "stir_calls (map (Pair prefix) ?cs) m0") auto
  have run: "bind_res (set_tgts ts m0) (\<lambda>m. bind_res (set_deps r oo w ds m) stiryy_main_mark_deponly) = Inr m1"
    using m1(1) unfolding set_tgts_calls[of _ _ prefix] set_deps_calls[of _ _ _ _ _ prefix]
    by (auto simp: stir_calls_append stir_simps)
  moreover have "m_rule_in_progress m0" using m0(1) m(2) by (auto simp: stiryy_main_emplace_rule_def stir_simps)
  moreover have "m_rule_in_progress m1 = m_rule_in_progress m0"
    using run by (auto simp: stir_simps dest!: set_progress(3) set_tgts_progress set_deps_progress)
  ultimately show ?thesis using that[of m1] m0(1) m1(2) m(3) r by (simp add: stir_trap_depadd_def)
qed

text \<open>
  Adding dependencies while parsing appends one rule without a recipe, with the given targets and dependencies;
  but it leaves the flag of a rule in progress behind, so that the opcode for adding a rule is refused
  afterwards, until the grammar has finished some rule.
\<close>

theorem dep_add_blocks_rule_add:
  assumes "caps_ok m" "\<not> m_trial m" "m_parsing m" "read_depadd tree depar tgtar = Inr (ts, ds, r, oo, w)"
  shows "\<exists>m1. stir_trap_depadd prefix scope tree depar tgtar (m, s) = Inr (m1, s) \<and>
    m_rules m1 = m_rules m @ [depadd_rule prefix scope ts ds r oo w] \<and> caps_ok m1 \<and>
    (\<forall>cache_add arg_of y. described_rule cache_add arg_of y \<longrightarrow>
       op_rule_add cache_add (y_prefix y) (y_scopeidx y) (y_lineno y) (rule_tree arg_of y) m1 = Inl Rule_From_Within_Midrule)"
proof -
  obtain m1 where m1: "stir_trap_depadd prefix scope tree depar tgtar (m, s) = Inr (m1, s)"
      "rule_open (m_rules m) (depadd_rule prefix scope ts ds r oo w) m m1" "m_rule_in_progress m1"
    using depadd_parsing[OF assms(1-3), of tree depar tgtar ts ds r oo w prefix scope s] assms(4) by blast
  have o: "caps_ok m1" "\<not> m_trial m1" "m_parsing m1" "m_rules m1 = m_rules m @ [depadd_rule prefix scope ts ds r oo w]"
    using m1(2) assms(3) by (simp_all add: rule_open_def)
  have "op_rule_add cache_add (y_prefix y) (y_scopeidx y) (y_lineno y) (rule_tree arg_of y) m1 = Inl Rule_From_Within_Midrule"
    if "described_rule cache_add arg_of y" for cache_add arg_of y
    using rule_add_tree[OF that o(1,2)] o(3) m1(3) by (simp split: sum.splits)
  then show ?thesis using m1(1) o by blast
qed

theorem dep_add_blocks_rule_add_witness:
  "\<exists>m1. stir_trap_depadd ''.'' 0 (MB_T [''rec'' \<mapsto> MB_B True]) (MB_A [MB_S ''b'']) (MB_A [MB_S ''a''])
     (stiryy_main_init False, gbase_init) = Inr (m1, gbase_init) \<and>
     m_rules m1 = [depadd_rule ''.'' 0 [''a''] [''b''] True False False]"
proof -
  have "read_depadd (MB_T [''rec'' \<mapsto> MB_B True]) (MB_A [MB_S ''b'']) (MB_A [MB_S ''a'']) = Inr ([''a''], [''b''], True, False, False)"
    by (simp add: read_depadd_def opt_bool_def strdup_def)
  from dep_add_blocks_rule_add[OF _ _ _ this, of "stiryy_main_init False" "''.''" 0 gbase_init]
  show ?thesis by (auto simp: caps_ok_def stiryy_main_init_def)
qed

section \<open>Dependencies added during the build\<close>

definition late_name :: "string \<Rightarrow> string \<Rightarrow> string" where
  "late_name prefix n = render (is_abs (prefix @ CHR ''/'' # n)) (comps (prefix @ CHR ''/'' # n))"

lemma late_canon: "canon_buflen (prefix @ CHR ''/'' # n) buf = Inr (late_name prefix n, length (late_name prefix n))"
  by (simp add: late_name_def canon_buflen_spec)

text \<open>
  The names are always taken below the directory of the Stirfile, absolute ones too: \<open>/x\<close> in the directory
  \<open>d\<close> is \<open>d/x\<close> here, while the parser's dependencies know it as \<open>/x\<close>.
\<close>

lemma late_name_absolute: "late_name ''d'' ''/x'' = ''d/x'' \<and> name_of ''d'' ''/x'' = ''/x''"
  by (simp add: late_name_def name_of_def comps_def is_abs_def split_slash.simps push_comp_def render_def)

text \<open>
  The rule that makes the dependency is entered as remaining even if it is executed already; nobody takes it out
  again then.
\<close>

lemma late_dep_remains:
  assumes "late_deps r prefix rc oo w [d] s = Inr (True, s')"
  shows "\<exists>di s1 other. stringtab_add (late_name prefix d) s = (di, s1) \<and> get_ruleid_by_tgt s1 di = Some other \<and>
    deps_remain (rules s' r) other \<noteq> None"
proof -
  obtain di s1 where a: "stringtab_add (late_name prefix d) s = (di, s1)" by fastforce
  obtain other where o: "get_ruleid_by_tgt s1 di = Some other"
    using assms by (auto simp: pathcat_total late_canon a split: option.splits)
  let ?a = "snd (ins_dep di None rc oo w False False (rules s1 r))"
  let ?s = "upd_rule r (\<lambda>_. deps_remain_insert other ?a) s1"
  have in': "deps_remain (rules ?s r) other \<noteq> None" by (simp add: deps_remain_insert_def)
  have "s' = ?s \<or> s' = snd (ins_ruleid_by_dep2 di r True ?s)"
    using assms by (simp add: pathcat_total late_canon a o Let_def split_def split: if_splits)
  moreover have "deps_remain (rules (snd (ins_ruleid_by_dep2 di r True ?s)) r) = deps_remain (rules ?s r)"
    using ins2_rules(1)[of ?s r di r True] unfolding blocks_only_def by (elim exE) simp
  ultimately show ?thesis using a o in' by metis
qed

end
