(* ===== verification/Vm_Trap.thy ===== *)
theory Vm_Trap
  imports Path_Ops Rule_Ops
begin

text \<open>
  \<open>stir_trap\<close> (\<open>stirtrap.c\<close>): one instruction of stirmake's own, with the stack it takes its operands from, the working
  directory that two of the instructions change, the Stirfile tables and the rule base.  The codes and names of
  the instructions (\<open>stiropcodes.h\<close>, \<open>stir_opcode_dump\<close>, \<open>stir_err_to_str\<close>) are here too.
\<close>

section \<open>Codes and names\<close>

datatype stir_opcode =
    TOP_DIR | CUR_DIR_FROM_TOP | DEP_ADD | RULE_ADD
  | SUFSUBALL | SUFSUBONE | SUFFILTER
  | PATHSUFFIX | PATHBASENAME | PATHDIR | PATHNOTDIR | PATHSIMPLIFY
  | PATHSUFFIXALL | PATHBASENAMEALL | PATHDIRALL | PATHNOTDIRALL | PATHSIMPLIFYALL
  | GLOB | JSON_IN | SUFFILTEROUT | SHELL_ESCAPE | TOP_DIR_ALL | CUR_DIR_FROM_TOP_ALL
  | PRESUBALL | PRESUBONE | ABSPATH | REGFILTER | EREGFILTER | PREFILTER | PREFILTEROUT
  | FILTER | FILTEROUT | ACCESS | SHELL_ESCAPE_MULTI

definition stir_opcodes :: "stir_opcode list" where
  "stir_opcodes = [TOP_DIR, CUR_DIR_FROM_TOP, DEP_ADD, RULE_ADD, SUFSUBALL, SUFSUBONE, SUFFILTER,
     PATHSUFFIX, PATHBASENAME, PATHDIR, PATHNOTDIR, PATHSIMPLIFY,
     PATHSUFFIXALL, PATHBASENAMEALL, PATHDIRALL, PATHNOTDIRALL, PATHSIMPLIFYALL,
     GLOB, JSON_IN, SUFFILTEROUT, SHELL_ESCAPE, TOP_DIR_ALL, CUR_DIR_FROM_TOP_ALL,
     PRESUBALL, PRESUBONE, ABSPATH, REGFILTER, EREGFILTER, PREFILTER, PREFILTEROUT,
     FILTER, FILTEROUT, ACCESS, SHELL_ESCAPE_MULTI]"

definition opcode_of :: "nat \<Rightarrow> stir_opcode option" where
  "opcode_of ins = (if 64 \<le> ins \<and> ins < 98 then Some (stir_opcodes ! (ins - 64)) else None)"

fun stir_opcode_name :: "stir_opcode \<Rightarrow> string" where
  "stir_opcode_name TOP_DIR = ''@dirup''"
| "stir_opcode_name CUR_DIR_FROM_TOP = ''@dirdown''"
| "stir_opcode_name TOP_DIR_ALL = ''@dirupall''"
| "stir_opcode_name CUR_DIR_FROM_TOP_ALL = ''@dirdownall''"
| "stir_opcode_name DEP_ADD = ''@adddeps''"
| "stir_opcode_name RULE_ADD = ''@addrule''"
| "stir_opcode_name SUFSUBALL = ''@sufsuball''"
| "stir_opcode_name SUFSUBONE = ''@sufsubone''"
| "stir_opcode_name SUFFILTER = ''@suffilter''"
| "stir_opcode_name PRESUBALL = ''@presuball''"
| "stir_opcode_name PRESUBONE = ''@presubone''"
| "stir_opcode_name PREFILTER = ''@prefilter''"
| "stir_opcode_name PATHSUFFIX = ''@pathsuffix''"
| "stir_opcode_name PATHBASENAME = ''@pathbasename''"
| "stir_opcode_name PATHDIR = ''@pathdir''"
| "stir_opcode_name PATHNOTDIR = ''@pathnotdir''"
| "stir_opcode_name PATHSIMPLIFY = ''@pathsimplify''"
| "stir_opcode_name PATHSUFFIXALL = ''@pathsuffixall''"
| "stir_opcode_name PATHBASENAMEALL = ''@pathbasenameall''"
| "stir_opcode_name PATHDIRALL = ''@pathdirall''"
| "stir_opcode_name PATHNOTDIRALL = ''@pathnotdirall''"
| "stir_opcode_name PATHSIMPLIFYALL = ''@pathsimplifyall''"
| "stir_opcode_name GLOB = ''@glob''"
| "stir_opcode_name JSON_IN = ''@jsonin''"
| "stir_opcode_name SUFFILTEROUT = ''@suffilterout''"
| "stir_opcode_name PREFILTEROUT = ''@prefilterout''"
| "stir_opcode_name SHELL_ESCAPE = ''@shellescape''"
| "stir_opcode_name SHELL_ESCAPE_MULTI = ''@shellescapemulti''"
| "stir_opcode_name ABSPATH = ''@abspath''"
| "stir_opcode_name REGFILTER = ''@regfilter''"
| "stir_opcode_name EREGFILTER = ''@eregfilter''"
| "stir_opcode_name FILTER = ''@filter''"
| "stir_opcode_name FILTEROUT = ''@filterout''"
| "stir_opcode_name ACCESS = ''@access''"

text \<open>The names of the machine's own instructions are a parameter.\<close>

definition stir_opcode_dump :: "(nat \<Rightarrow> string) \<Rightarrow> nat \<Rightarrow> string" where
  "stir_opcode_dump abce_name ins = (case opcode_of ins of Some op \<Rightarrow> stir_opcode_name op | None \<Rightarrow> abce_name ins)"

definition stir_err_to_str :: "(nat \<Rightarrow> string) \<Rightarrow> nat \<Rightarrow> string" where
  "stir_err_to_str abce_str code =
     (if code < 0x1000 then abce_str code
      else if code = 0x1001 then ''Changing rules not permitted after parsing done''
      else if code = 0x1002 then ''Suffix not found''
      else if code = 0x1003 then ''Directory not found''
      else if code = 0x1004 then ''Glob failed''
      else if code = 0x1005 then ''Bad JSON''
      else if code = 0x1006 then ''Rule not found''
      else if code = 0x1007 then ''Targets missing''
      else if code = 0x1008 then ''Name missing''
      else if code = 0x1009 then ''No shell argument (fun+arg, cmd, cmds)''
      else if code = 0x1010 then ''Rule from within midrule''
      else if code = 0x1011 then ''Insane rule''
      else if code = 0x1012 then ''Invalid regular expression''
      else abce_str code)"

section \<open>The system\<close>

text \<open>
  What the instructions ask of the system, in a working directory: \<open>open(".")\<close>, \<open>chdir\<close>, \<open>fchdir\<close> back to the
  opened directory, \<open>glob\<close>, the JSON parser, \<open>realpath\<close>, \<open>access\<close>, \<open>regcomp\<close> (basic or extended), and the
  cache of the machine.
\<close>

datatype glob_res = Matches "string list" | No_Match | Glob_Error

record 'd sysenv =
  sys_open :: "'d \<Rightarrow> bool"
  sys_chdir :: "'d \<Rightarrow> string \<Rightarrow> 'd option"
  sys_fchdir :: "'d \<Rightarrow> bool"
  sys_glob :: "'d \<Rightarrow> string \<Rightarrow> glob_res"
  sys_json :: "'d \<Rightarrow> string \<Rightarrow> mb option"
  sys_realpath :: "'d \<Rightarrow> string \<Rightarrow> string option"
  sys_access :: "'d \<Rightarrow> string \<Rightarrow> access_mode \<Rightarrow> bool"
  sys_regcomp :: "bool \<Rightarrow> string \<Rightarrow> (string \<Rightarrow> bool) option"
  sys_cache_add :: "mb \<Rightarrow> nat"

text \<open>The dynamic scope: its directory names, its number, and the line \<open>yy_stored_lineno\<close>.\<close>

record dynscope =
  ds_ud :: "scope_ud option"
  ds_locidx :: nat
  ds_lineno :: int

record 'd vm =
  vm_stack :: "mb list"
  vm_cwd :: 'd
  vm_main :: stiryy_main
  vm_base :: gbase

text \<open>
  A failed instruction ends the evaluation; what it leaves of the working directory stays.  The prefix of a scope
  with user data is never null (\<open>chdir\<close> would fail), and the stack has room for one more value.
\<close>

type_synonym 'd vm_res = "(trap_err \<times> 'd) + 'd vm"

definition ud_dir :: "scope_ud option \<Rightarrow> string option" where
  "ud_dir ud = (case ud of None \<Rightarrow> Some ''.'' | Some u \<Rightarrow> ud_prefix u)"

section \<open>The instructions\<close>

text \<open>\<open>VERIFYMB\<close> fails too when the stack is too short: there is no value then.\<close>

definition operand :: "mb list \<Rightarrow> nat \<Rightarrow> mb" where
  "operand stk i = (if i < length stk then stk ! i else MB_N)"

text \<open>\<open>abce_npoppush\<close>: the result takes the place of the operands.\<close>

definition npoppush :: "nat \<Rightarrow> 'd vm \<Rightarrow> mb trap \<Rightarrow> 'd vm_res" where
  "npoppush n v r = (case r of
     Inl e \<Rightarrow> Inl (e, vm_cwd v)
   | Inr x \<Rightarrow> Inr (v\<lparr> vm_stack := x # drop n (vm_stack v) \<rparr>))"

text \<open>
  \<open>chdir\<close> to the directory of the Stirfile and back.  A failed \<open>glob\<close> returns at once; the JSON
  parser goes back first, and its failure is reported whether or not that worked.
\<close>

definition op_glob :: "'d sysenv \<Rightarrow> scope_ud option \<Rightarrow> mb \<Rightarrow> 'd \<Rightarrow> mb trap \<times> 'd" where
  "op_glob sys ud a cwd =
     (case verify_str a of Inl e \<Rightarrow> (Inl e, cwd) | Inr s \<Rightarrow>
        if \<not> sys_open sys cwd then (Inl Dir_Not_Found, cwd)
        else case Option.bind (ud_dir ud) (sys_chdir sys cwd) of
          None \<Rightarrow> (Inl Dir_Not_Found, cwd)
        | Some d \<Rightarrow> (case sys_glob sys d (c_str s) of
              Glob_Error \<Rightarrow> (Inl Glob_Failed, d)
            | No_Match \<Rightarrow> if \<not> sys_fchdir sys cwd then (Inl Dir_Not_Found, d) else (Inr (MB_A []), cwd)
            | Matches xs \<Rightarrow> if \<not> sys_fchdir sys cwd then (Inl Dir_Not_Found, d) else (Inr (MB_A (map MB_S xs)), cwd)))"

definition op_json_in :: "'d sysenv \<Rightarrow> scope_ud option \<Rightarrow> mb \<Rightarrow> 'd \<Rightarrow> mb trap \<times> 'd" where
  "op_json_in sys ud a cwd =
     (case verify_str a of Inl e \<Rightarrow> (Inl e, cwd) | Inr s \<Rightarrow>
        if \<not> sys_open sys cwd then (Inl Dir_Not_Found, cwd)
        else case Option.bind (ud_dir ud) (sys_chdir sys cwd) of
          None \<Rightarrow> (Inl Dir_Not_Found, cwd)
        | Some d \<Rightarrow> (case sys_json sys d (c_str s) of
              None \<Rightarrow> (Inl Bad_Json, if sys_fchdir sys cwd then cwd else d)
            | Some x \<Rightarrow> if \<not> sys_fchdir sys cwd then (Inl Dir_Not_Found, d) else (Inr x, cwd)))"

definition op_abspath :: "(string \<Rightarrow> string option) \<Rightarrow> mb \<Rightarrow> mb trap" where
  "op_abspath realpath a = bind_trap (verify_str a) (\<lambda>s.
     if length (c_str s) \<noteq> length s then Inl Plain_Errno
     else case realpath s of None \<Rightarrow> Inl Plain_Errno | Some p \<Rightarrow> Inr (MB_S p))"

definition in_dir :: "'d vm \<Rightarrow> mb trap \<times> 'd \<Rightarrow> 'd vm_res" where
  "in_dir v r = npoppush 1 (v\<lparr> vm_cwd := snd r \<rparr>) (fst r)"

definition stir_trap :: "'d sysenv \<Rightarrow> dynscope \<Rightarrow> nat \<Rightarrow> 'd vm \<Rightarrow> 'd vm_res" where
  "stir_trap sys ds ins v =
     (let a = operand (vm_stack v) 0; b = operand (vm_stack v) 1; c = operand (vm_stack v) 2;
          ud = ds_ud ds; cwd = vm_cwd v in
      case opcode_of ins of
        None \<Rightarrow> Inl (Unknown_Instruction ins, cwd)
      | Some PREFILTER \<Rightarrow> npoppush 2 v (op_prefilter a b)
      | Some PREFILTEROUT \<Rightarrow> npoppush 2 v (op_prefilterout a b)
      | Some FILTER \<Rightarrow> npoppush 2 v (op_filter False a b)
      | Some FILTEROUT \<Rightarrow> npoppush 2 v (op_filter True a b)
      | Some SUFFILTER \<Rightarrow> npoppush 2 v (op_suffilter a b)
      | Some REGFILTER \<Rightarrow> npoppush 3 v (op_regfilter (sys_regcomp sys False) a b c)
      | Some EREGFILTER \<Rightarrow> npoppush 3 v (op_regfilter (sys_regcomp sys True) a b c)
      | Some SUFFILTEROUT \<Rightarrow> npoppush 2 v (op_suffilterout a b)
      | Some PATHBASENAMEALL \<Rightarrow> npoppush 1 v (op_pathbasenameall a)
      | Some PATHSUFFIXALL \<Rightarrow> npoppush 1 v (op_pathsuffixall a)
      | Some PATHNOTDIRALL \<Rightarrow> npoppush 1 v (op_pathnotdirall a)
      | Some PATHDIRALL \<Rightarrow> npoppush 1 v (op_pathdirall a)
      | Some JSON_IN \<Rightarrow> in_dir v (op_json_in sys ud a cwd)
      | Some GLOB \<Rightarrow> in_dir v (op_glob sys ud a cwd)
      | Some PATHSIMPLIFYALL \<Rightarrow> npoppush 1 v (op_pathsimplifyall a)
      | Some SUFSUBALL \<Rightarrow> npoppush 3 v (op_sufsuball a b c)
      | Some PRESUBALL \<Rightarrow> npoppush 3 v (op_presuball a b c)
      | Some PATHSIMPLIFY \<Rightarrow> npoppush 1 v (op_pathsimplify a)
      | Some PATHBASENAME \<Rightarrow> npoppush 1 v (op_pathbasename a)
      | Some PATHDIR \<Rightarrow> npoppush 1 v (op_pathdir a)
      | Some PATHNOTDIR \<Rightarrow> npoppush 1 v (op_pathnotdir a)
      | Some PATHSUFFIX \<Rightarrow> npoppush 1 v (op_pathsuffix a)
      | Some SUFSUBONE \<Rightarrow> npoppush 3 v (op_sufsubone a b c)
      | Some PRESUBONE \<Rightarrow> npoppush 3 v (op_presubone a b c)
      | Some DEP_ADD \<Rightarrow> (case stir_trap_depadd (scope_path ud_prefix ud) (ds_locidx ds) a b c (vm_main v, vm_base v) of
            Inl e \<Rightarrow> Inl (e, cwd)
          | Inr (m, s) \<Rightarrow> Inr (v\<lparr> vm_stack := drop 3 (vm_stack v), vm_main := m, vm_base := s \<rparr>))
      | Some RULE_ADD \<Rightarrow> (case op_rule_add (sys_cache_add sys) (scope_path ud_prefix ud) (ds_locidx ds) (ds_lineno ds) a (vm_main v) of
            Inl e \<Rightarrow> Inl (e, cwd)
          | Inr m \<Rightarrow> Inr (v\<lparr> vm_stack := drop 1 (vm_stack v), vm_main := m \<rparr>))
      | Some TOP_DIR \<Rightarrow> npoppush 0 v (op_top_dir ud)
      | Some CUR_DIR_FROM_TOP \<Rightarrow> npoppush 0 v (op_cur_dir_from_top ud)
      | Some TOP_DIR_ALL \<Rightarrow> npoppush 0 v (op_top_dir_all ud)
      | Some CUR_DIR_FROM_TOP_ALL \<Rightarrow> npoppush 0 v (op_cur_dir_from_top_all ud)
      | Some SHELL_ESCAPE \<Rightarrow> npoppush 1 v (op_shell_escape a)
      | Some SHELL_ESCAPE_MULTI \<Rightarrow> npoppush 1 v (op_shell_escape_multi a)
      | Some ABSPATH \<Rightarrow> npoppush 1 v (op_abspath (sys_realpath sys cwd) a)
      | Some ACCESS \<Rightarrow> npoppush 2 v (op_access (sys_access sys cwd) a b))"

section \<open>Types of the instructions\<close>

fun has_type :: "mb_type \<Rightarrow> mb \<Rightarrow> bool" where
  "has_type T_B (MB_B _) = True"
| "has_type T_A (MB_A _) = True"
| "has_type T_T (MB_T _) = True"
| "has_type T_S (MB_S _) = True"
| "has_type _ _ = False"

text \<open>The operands from the top of the stack, and the results.\<close>

definition op_args :: "stir_opcode \<Rightarrow> mb_type list" where
  "op_args op =
     (if op \<in> {TOP_DIR, CUR_DIR_FROM_TOP, TOP_DIR_ALL, CUR_DIR_FROM_TOP_ALL} then []
      else if op = DEP_ADD then [T_T, T_A, T_A]
      else if op = RULE_ADD then [T_T]
      else if op \<in> {PREFILTER, PREFILTEROUT, SUFFILTER, SUFFILTEROUT} then [T_S, T_A]
      else if op \<in> {FILTER, FILTEROUT} then [T_A, T_A]
      else if op \<in> {REGFILTER, EREGFILTER} then [T_S, T_B, T_A]
      else if op \<in> {SUFSUBALL, PRESUBALL} then [T_S, T_S, T_A]
      else if op \<in> {SUFSUBONE, PRESUBONE} then [T_S, T_S, T_S]
      else if op = ACCESS then [T_S, T_S]
      else if op \<in> {PATHSUFFIXALL, PATHBASENAMEALL, PATHDIRALL, PATHNOTDIRALL, PATHSIMPLIFYALL, SHELL_ESCAPE_MULTI}
        then [T_A]
      else [T_S])"

definition results_ok :: "stir_opcode \<Rightarrow> mb list \<Rightarrow> bool" where
  "results_ok op xs =
     (if op \<in> {DEP_ADD, RULE_ADD} then xs = []
      else \<exists>x. xs = [x] \<and>
        (if op = JSON_IN then True
         else if op = ACCESS then has_type T_B x
         else if op \<in> {PREFILTER, PREFILTEROUT, SUFFILTER, SUFFILTEROUT, FILTER, FILTEROUT, REGFILTER, EREGFILTER,
            SUFSUBALL, PRESUBALL, PATHSUFFIXALL, PATHBASENAMEALL, PATHDIRALL, PATHNOTDIRALL, PATHSIMPLIFYALL,
            SHELL_ESCAPE_MULTI, GLOB} then has_type T_A x
         else has_type T_S x))"

fun args_ok :: "mb_type list \<Rightarrow> mb list \<Rightarrow> bool" where
  "args_ok [] stk = True"
| "args_ok (t # ts) [] = False"
| "args_ok (t # ts) (x # stk) = (has_type t x \<and> args_ok ts stk)"

lemma operand_simps [simp]:
  "operand [] i = MB_N"
  "operand (x # stk) 0 = x"
  "operand (x # stk) (Suc i) = operand stk i"
  by (auto simp: operand_def)

lemma args_ok_operands:
  "args_ok [t] stk \<longleftrightarrow> has_type t (operand stk 0)"
  "args_ok [t, u] stk \<longleftrightarrow> has_type t (operand stk 0) \<and> has_type u (operand stk 1)"
  "args_ok [t, u, w] stk \<longleftrightarrow> has_type t (operand stk 0) \<and> has_type u (operand stk 1) \<and> has_type w (operand stk 2)"
  by (cases stk; cases "tl stk"; cases "tl (tl stk)"; cases t; cases u; cases w; simp add: numeral_2_eq_2)+

lemma npoppush_Inr [simp]:
  "npoppush n v r = Inr v' \<longleftrightarrow> (\<exists>x. r = Inr x \<and> v' = v\<lparr> vm_stack := x # drop n (vm_stack v) \<rparr>)"
  by (cases r) (auto simp: npoppush_def)

lemma npoppush_Inl [simp]:
  "npoppush n v r = Inl (e, d) \<longleftrightarrow> r = Inl e \<and> d = vm_cwd v"
  by (cases r) (auto simp: npoppush_def)

lemma str_op_typed: "str_op f a = Inr x \<Longrightarrow> has_type T_S a \<and> has_type T_S x"
  by (auto simp: str_op_def stir_simps)

lemma all_op_typed: "all_op f a = Inr x \<Longrightarrow> has_type T_A a \<and> has_type T_A x"
  by (auto simp: all_op_def stir_simps)

lemma filter_op_typed: "filter_op f a b = Inr x \<Longrightarrow> has_type T_S a \<and> has_type T_A b \<and> has_type T_A x"
  by (auto simp: filter_op_def stir_simps)

lemmas op_families =
  op_pathbasename_def op_pathsuffix_def op_pathdir_def op_pathnotdir_def
  op_pathbasenameall_def op_pathsuffixall_def op_pathdirall_def op_pathnotdirall_def op_pathsimplifyall_def
  op_prefilter_def op_prefilterout_def op_suffilter_def op_suffilterout_def

lemma other_ops_typed:
  "op_filter out a b = Inr x \<Longrightarrow> has_type T_A a \<and> has_type T_A b \<and> has_type T_A x"
  "op_regfilter re a b c = Inr x \<Longrightarrow> has_type T_S a \<and> has_type T_B b \<and> has_type T_A c \<and> has_type T_A x"
  "op_sufsuball a b c = Inr x \<Longrightarrow> has_type T_S a \<and> has_type T_S b \<and> has_type T_A c \<and> has_type T_A x"
  "op_presuball a b c = Inr x \<Longrightarrow> has_type T_S a \<and> has_type T_S b \<and> has_type T_A c \<and> has_type T_A x"
  "op_sufsubone a b c = Inr x \<Longrightarrow> has_type T_S a \<and> has_type T_S b \<and> has_type T_S c \<and> has_type T_S x"
  "op_presubone a b c = Inr x \<Longrightarrow> has_type T_S a \<and> has_type T_S b \<and> has_type T_S c \<and> has_type T_S x"
  "op_pathsimplify a = Inr x \<Longrightarrow> has_type T_S a \<and> has_type T_S x"
  "op_shell_escape a = Inr x \<Longrightarrow> has_type T_S a \<and> has_type T_S x"
  "op_shell_escape_multi a = Inr x \<Longrightarrow> has_type T_A a \<and> has_type T_A x"
  "op_abspath rp a = Inr x \<Longrightarrow> has_type T_S a \<and> has_type T_S x"
  "op_access acc a b = Inr x \<Longrightarrow> has_type T_S a \<and> has_type T_S b \<and> has_type T_B x"
  "op_top_dir ud = Inr x \<Longrightarrow> has_type T_S x"
  "op_top_dir_all ud = Inr x \<Longrightarrow> has_type T_S x"
  "op_cur_dir_from_top ud = Inr x \<Longrightarrow> has_type T_S x"
  "op_cur_dir_from_top_all ud = Inr x \<Longrightarrow> has_type T_S x"
  by (auto simp: op_filter_def op_regfilter_def op_sufsuball_def op_presuball_def op_sufsubone_def op_presubone_def
      op_pathsimplify_def op_shell_escape_def op_shell_escape_multi_def op_abspath_def op_access_def op_top_dir_def
      op_top_dir_all_def op_cur_dir_from_top_def op_cur_dir_from_top_all_def stir_simps
      split: if_splits option.splits)

lemmas ops_typed = str_op_typed all_op_typed filter_op_typed other_ops_typed

text \<open>The instructions that change directory give the same kind of result, and say where they leave it.\<close>

lemma op_glob_Inr:
  "op_glob sys ud a cwd = (Inr x, d) \<Longrightarrow> has_type T_S a \<and> has_type T_A x \<and> d = cwd"
  by (auto simp: op_glob_def split: sum.splits if_splits option.splits glob_res.splits)

lemma op_json_in_Inr:
  "op_json_in sys ud a cwd = (Inr x, d) \<Longrightarrow> has_type T_S a \<and> d = cwd"
  by (auto simp: op_json_in_def split: sum.splits if_splits option.splits)

lemma op_glob_Inl:
  assumes "op_glob sys ud a cwd = (Inl e, d)" "sys_fchdir sys cwd"
  shows "d = cwd \<or> e = Glob_Failed \<and> Option.bind (ud_dir ud) (sys_chdir sys cwd) = Some d"
  using assms by (auto simp: op_glob_def split: sum.splits if_splits option.splits glob_res.splits)

lemma op_json_in_Inl:
  assumes "op_json_in sys ud a cwd = (Inl e, d)" "sys_fchdir sys cwd"
  shows "d = cwd"
  using assms by (auto simp: op_json_in_def split: sum.splits if_splits option.splits)

lemma in_dir_Inr: "in_dir v r = Inr v' \<longleftrightarrow>
    (\<exists>x d. r = (Inr x, d) \<and> v' = v\<lparr> vm_cwd := d, vm_stack := x # drop 1 (vm_stack v) \<rparr>)"
  by (cases r) (auto simp: in_dir_def)

lemma in_dir_Inl: "in_dir v r = Inl (e, d) \<longleftrightarrow> r = (Inl e, d)"
  by (cases r) (auto simp: in_dir_def)

definition typed_step :: "stir_opcode \<Rightarrow> 'd vm \<Rightarrow> 'd vm \<Rightarrow> bool" where
  "typed_step op v v' =
     (args_ok (op_args op) (vm_stack v) \<and>
      (\<exists>xs. results_ok op xs \<and> vm_stack v' = xs @ drop (length (op_args op)) (vm_stack v)) \<and>
      vm_cwd v' = vm_cwd v \<and>
      (op \<notin> {DEP_ADD, RULE_ADD} \<longrightarrow> vm_main v' = vm_main v \<and> vm_base v' = vm_base v))"

lemma depadd_typed: "stir_trap_depadd p sc a b c dat = Inr r \<Longrightarrow> has_type T_T a \<and> has_type T_A b \<and> has_type T_A c"
  by (auto simp: stir_trap_depadd_def read_depadd_def stir_simps)

lemma ruleadd_typed: "op_rule_add ca p sc ln a m = Inr r \<Longrightarrow> has_type T_T a"
  by (auto simp: op_rule_add_def stir_trap_ruleadd_def stir_simps split: if_splits)

lemma stir_trap_typed_step:
  assumes "stir_trap sys ds ins v = Inr v'" "opcode_of ins = Some op"
  shows "typed_step op v v'"
proof (cases "op \<in> {DEP_ADD, RULE_ADD}")
  case True
  then show ?thesis
    using assms by (auto simp: stir_trap_def Let_def typed_step_def op_args_def results_ok_def args_ok_operands
        numeral_3_eq_3 dest!: depadd_typed ruleadd_typed split: sum.splits)
next
  case False
  then show ?thesis
    using assms
    apply (cases op)
    apply (simp_all add: stir_trap_def Let_def op_families in_dir_Inr op_args_def results_ok_def args_ok_operands
        typed_step_def)
    apply ((elim exE conjE, (drule op_glob_Inr op_json_in_Inr | drule ops_typed), simp add: numeral_2_eq_2 numeral_3_eq_3)+)
    done
qed

text \<open>
  C27: Type of the instructions.  An instruction that succeeds has one of the 34 codes and found operands of its types on the
  stack; it replaces exactly these by its result, which has its type, changes nothing below them, and leaves the
  working directory as it was; only \<open>DEP_ADD\<close> and \<open>RULE_ADD\<close> change the tables and the rule base.
\<close>

theorem stir_trap_typed:
  assumes "stir_trap sys ds ins v = Inr v'"
  shows "\<exists>op. opcode_of ins = Some op \<and>
    args_ok (op_args op) (vm_stack v) \<and>
    (\<exists>xs. results_ok op xs \<and> vm_stack v' = xs @ drop (length (op_args op)) (vm_stack v)) \<and>
    vm_cwd v' = vm_cwd v \<and>
    (op \<notin> {DEP_ADD, RULE_ADD} \<longrightarrow> vm_main v' = vm_main v \<and> vm_base v' = vm_base v)"
proof (cases "opcode_of ins")
  case None
  then show ?thesis using assms by (simp add: stir_trap_def)
next
  case (Some op)
  then show ?thesis using stir_trap_typed_step[OF assms Some] by (simp add: typed_step_def)
qed

text \<open>A system in which directories are names, going down and back works, and no pattern can be expanded.\<close>

definition ex_sys :: "string sysenv" where
  "ex_sys = \<lparr> sys_open = (\<lambda>_. True), sys_chdir = (\<lambda>d p. Some (d @ CHR ''/'' # p)), sys_fchdir = (\<lambda>_. True),
     sys_glob = (\<lambda>_ _. Glob_Error), sys_json = (\<lambda>_ _. None), sys_realpath = (\<lambda>d p. Some (d @ CHR ''/'' # p)),
     sys_access = (\<lambda>_ _ _. False), sys_regcomp = (\<lambda>_ _. None), sys_cache_add = (\<lambda>_. 0) \<rparr>"

definition ex_scope :: dynscope where
  "ex_scope = \<lparr> ds_ud = Some \<lparr> ud_prefix = Some ''sub'', ud_prjprefix = Some ''sub'' \<rparr>, ds_locidx = 0, ds_lineno = 1 \<rparr>"

definition ex_vm :: "mb list \<Rightarrow> string vm" where
  "ex_vm stk = \<lparr> vm_stack = stk, vm_cwd = ''/top'', vm_main = stiryy_main_init False, vm_base = gbase_init \<rparr>"

lemma ex_pathdir: "stir_trap ex_sys ex_scope 73 (ex_vm [MB_S ''a/b.c'', MB_N]) = Inr (ex_vm [MB_S ''a/'', MB_N])"
  by (simp add: stir_trap_def opcode_of_def stir_opcodes_def ex_vm_def npoppush_def op_pathdir_def str_op_def
      path_dir_def my_memrchr_def)

theorem stir_trap_typed_witness:
  "\<exists>op. opcode_of 73 = Some op \<and> args_ok (op_args op) [MB_S ''a/b.c'', MB_N] \<and>
    (\<exists>xs. results_ok op xs \<and> [MB_S ''a/'', MB_N] = xs @ drop (length (op_args op)) [MB_S ''a/b.c'', MB_N])"
  using stir_trap_typed[OF ex_pathdir] by (auto simp: ex_vm_def)

text \<open>
  A failed instruction leaves the working directory as it was, if one can go back, except for one: \<open>GLOB\<close>, when
  \<open>glob\<close> itself fails, leaves the program in the directory of the Stirfile.
\<close>

theorem failed_trap_directory:
  assumes "stir_trap sys ds ins v = Inl (e, d)" "sys_fchdir sys (vm_cwd v)"
  shows "d = vm_cwd v \<or>
    opcode_of ins = Some GLOB \<and> e = Glob_Failed \<and> Option.bind (ud_dir (ds_ud ds)) (sys_chdir sys (vm_cwd v)) = Some d"
proof (cases "opcode_of ins")
  case None
  then show ?thesis using assms by (simp add: stir_trap_def)
next
  case (Some op)
  then show ?thesis using assms
    by (cases op) (auto simp: stir_trap_def Let_def in_dir_Inl dest: op_glob_Inl op_json_in_Inl split: sum.splits)
qed

theorem failed_trap_directory_witness:
  "stir_trap ex_sys ex_scope 81 (ex_vm [MB_S ''*.c'']) = Inl (Glob_Failed, ''/top/sub'') \<and>
   (''/top/sub'' = ''/top'' \<or> opcode_of 81 = Some GLOB \<and> Glob_Failed = Glob_Failed \<and>
      Option.bind (ud_dir (ds_ud ex_scope)) (sys_chdir ex_sys ''/top'') = Some ''/top/sub'')"
proof -
  have run: "stir_trap ex_sys ex_scope 81 (ex_vm [MB_S ''*.c'']) = Inl (Glob_Failed, ''/top/sub'')"
    by (simp add: stir_trap_def opcode_of_def stir_opcodes_def ex_vm_def npoppush_def in_dir_def op_glob_def
        ex_sys_def ex_scope_def ud_dir_def)
  have goback: "sys_fchdir ex_sys (vm_cwd (ex_vm [MB_S ''*.c'']))" by (simp add: ex_sys_def)
  show ?thesis using failed_trap_directory[OF run goback] run by (simp add: ex_vm_def)
qed

text \<open>The codes are those of the enumeration, and no two instructions have one name.\<close>

lemma opcode_of_code: "i < 34 \<Longrightarrow> opcode_of (64 + i) = Some (stir_opcodes ! i)"
  by (simp add: opcode_of_def)

lemma stir_opcodes_all: "distinct stir_opcodes \<and> op \<in> set stir_opcodes"
  by (cases op) (simp_all add: stir_opcodes_def)

lemma opcode_names_distinct: "distinct (map stir_opcode_name stir_opcodes)"
  by (simp add: stir_opcodes_def)

end
