(* ===== verification/Sync_Buf.thy ===== *)
theory Sync_Buf
  imports Stir_Prelude
begin

text \<open>
  The buffers that keep the output of a recipe until the rule has ended (\<open>syncbuf.c\<close>, \<open>drain_pipe\<close> in
  \<open>stirmake.c\<close>): pages of a fixed size in a list, a cache of unused pages that all buffers share, and the removal of
  the escape sequences of terminals when the output is not a terminal.

  A page is an address; what is written in it is a function of the address, so that a page in two places at once
  would be seen.  \<open>mmap\<close> gives an address that was not used before.
\<close>

section \<open>Pages\<close>

definition MEAT_SIZE :: nat where "MEAT_SIZE = 4078"

record pagepool =
  meat :: "nat \<Rightarrow> string"
  cache :: "nat list"
  cur_cached :: nat
  max_cached :: nat
  next_page :: nat

definition pool_init :: "nat \<Rightarrow> pagepool" where
  "pool_init mx = \<lparr> meat = (\<lambda>_. []), cache = [], cur_cached = 0, max_cached = mx, next_page = 0 \<rparr>"

definition clear_page :: "nat \<Rightarrow> pagepool \<Rightarrow> nat \<times> pagepool" where
  "clear_page p w = (p, w\<lparr> meat := (meat w)(p := []) \<rparr>)"

definition getbuf :: "pagepool \<Rightarrow> nat \<times> pagepool" where
  "getbuf w =
     (if cache w \<noteq> [] \<and> cur_cached w \<noteq> 0 then
        clear_page (hd (cache w)) (w\<lparr> cache := tl (cache w), cur_cached := cur_cached w - 1 \<rparr>)
      else clear_page (next_page w) (w\<lparr> next_page := Suc (next_page w) \<rparr>))"

definition putbuf :: "nat \<Rightarrow> pagepool \<Rightarrow> pagepool" where
  "putbuf p w =
     (if cur_cached w < max_cached w then w\<lparr> cache := p # cache w, cur_cached := Suc (cur_cached w) \<rparr> else w)"

section \<open>Appending\<close>

record syncbuf =
  sb_list :: "nat list"
  has_escapes :: bool

definition syncbuf_init :: syncbuf where
  "syncbuf_init = \<lparr> sb_list = [], has_escapes = False \<rparr>"

definition ESC :: char where "ESC = CHR 0x1B"

text \<open>The room in the last page would wrap around if the page held more than its size.\<close>

definition last_page :: "nat list \<Rightarrow> pagepool \<Rightarrow> nat list \<times> pagepool" where
  "last_page ps w = (if length (meat w (last ps)) = MEAT_SIZE then let (q, w) = getbuf w in (ps @ [q], w) else (ps, w))"

definition copy_meat :: "nat \<Rightarrow> nat \<Rightarrow> string \<Rightarrow> pagepool \<Rightarrow> pagepool" where
  "copy_meat p n d w = w\<lparr> meat := (meat w)(p := meat w p @ take n d) \<rparr>"

definition room :: "nat \<Rightarrow> string \<Rightarrow> pagepool \<Rightarrow> nat" where
  "room p d w = (let tocopy = MEAT_SIZE - length (meat w p) in if length d < tocopy then length d else tocopy)"

function fill_pages :: "string \<Rightarrow> nat list \<Rightarrow> pagepool \<Rightarrow> (nat list \<times> pagepool) res" where
  "fill_pages d ps w =
     (if d = [] then Inr (ps, w)
      else let (ps, w) = last_page ps w; p = last ps; n = room p d w in
        if length (meat w p) > MEAT_SIZE \<or> n = 0 then Inl Overread
        else fill_pages (drop n d) ps (copy_meat p n d w))"
  by pat_completeness auto
termination
  by (relation "measure (\<lambda>(d, ps, w). length d)") auto

declare fill_pages.simps [simp del]

definition syncbuf_append :: "bool \<Rightarrow> string \<Rightarrow> syncbuf \<times> pagepool \<Rightarrow> (syncbuf \<times> pagepool) res" where
  "syncbuf_append ascii_full d bw =
     (case bw of (b, w) \<Rightarrow>
        if d = [] then Inr (b, w)
        else
          let b = (if ascii_full \<and> \<not> has_escapes b \<and> ESC \<in> set d then b\<lparr> has_escapes := True \<rparr> else b);
              (ps, w) = (if sb_list b = [] then let (q, w) = getbuf w in ([q], w) else (sb_list b, w))
          in bind_res (fill_pages d ps w) (\<lambda>(ps, w). Inr (b\<lparr> sb_list := ps \<rparr>, w)))"

section \<open>Writing\<close>

text \<open>
  What \<open>write\<close> answers: bytes written (at most what was asked for), interrupted, or another error; after
  the list the system writes everything.
\<close>

datatype wres = Wrote nat | Wr_Eintr | Wr_Error

fun writeall :: "wres list \<Rightarrow> string \<Rightarrow> string \<times> wres list" where
  "writeall rs [] = ([], rs)"
| "writeall [] d = (d, [])"
| "writeall (Wr_Eintr # rs) d = writeall rs d"
| "writeall (Wr_Error # rs) d = ([], rs)"
| "writeall (Wrote n # rs) d = (let (o', rs) = writeall rs (drop n d) in (take n d @ o', rs))"

text \<open>
  The removal of escape sequences in place, page by page: \<open>nxt\<close> is the first byte of the next page; the result has
  whether a sequence is open and whether the first byte of the next page belongs to it.
\<close>

definition final_byte :: "char \<Rightarrow> bool" where
  "final_byte c = (0x40 \<le> (of_char c :: nat) \<and> (of_char c :: nat) \<le> 0x7E)"

fun strip_page :: "char option \<Rightarrow> bool \<Rightarrow> string \<Rightarrow> string \<times> bool \<times> bool" where
  "strip_page nxt esc [] = ([], esc, False)"
| "strip_page nxt esc [c] =
     (if c = ESC \<and> nxt = Some CHR ''['' then ([], True, True)
      else if esc then ([], \<not> final_byte c, False)
      else ([c], False, False))"
| "strip_page nxt esc (c # c' # cs) =
     (if c = ESC \<and> c' = CHR ''['' then strip_page nxt True cs
      else if esc then strip_page nxt (\<not> final_byte c) (c' # cs)
      else let (out, r) = strip_page nxt False (c' # cs) in (c # out, r))"

definition first_byte :: "string list \<Rightarrow> char option" where
  "first_byte ms = (case ms of [] \<Rightarrow> None | m # _ \<Rightarrow> if m = [] then None else Some (hd m))"

fun strip_pages :: "bool \<Rightarrow> bool \<Rightarrow> string list \<Rightarrow> string list" where
  "strip_pages esc toskip [] = []"
| "strip_pages esc toskip (m # ms) =
     (let (out, esc, toskip) = strip_page (first_byte ms) esc (if toskip then drop 1 m else m)
      in out # strip_pages esc toskip ms)"

text \<open>Where the output goes: whether the locale is ASCII, and what is known of the descriptor and the caller.\<close>

record outenv =
  oe_ascii_full :: bool
  oe_isatty :: bool
  oe_was_recursive :: bool
  oe_was_recursive_outsync :: bool
  oe_output_is_pipe :: bool
  oe_fd :: nat

definition wants_strip :: "outenv \<Rightarrow> bool" where
  "wants_strip oe =
     (\<not> oe_isatty oe \<and>
      (\<not> oe_was_recursive oe \<or> \<not> oe_was_recursive_outsync oe \<or> (oe_fd oe \<noteq> 1 \<or> \<not> oe_output_is_pipe oe)))"

fun set_meats :: "nat list \<Rightarrow> string list \<Rightarrow> pagepool \<Rightarrow> pagepool" where
  "set_meats (p # ps) (m # ms) w = set_meats ps ms (w\<lparr> meat := (meat w)(p := m) \<rparr>)"
| "set_meats _ _ w = w"

fun dump_pages :: "nat list \<Rightarrow> wres list \<Rightarrow> pagepool \<Rightarrow> string \<times> wres list \<times> pagepool" where
  "dump_pages [] rs w = ([], rs, w)"
| "dump_pages (p # ps) rs w =
     (let (o1, rs) = writeall rs (meat w p); (o2, rs, w) = dump_pages ps rs (putbuf p w) in (o1 @ o2, rs, w))"

definition syncbuf_dump :: "outenv \<Rightarrow> wres list \<Rightarrow> syncbuf \<times> pagepool \<Rightarrow> string \<times> wres list \<times> syncbuf \<times> pagepool" where
  "syncbuf_dump oe rs bw =
     (case bw of (b, w) \<Rightarrow>
        let w = (if oe_ascii_full oe \<and> has_escapes b \<and> wants_strip oe
                 then set_meats (sb_list b) (strip_pages False False (map (meat w) (sb_list b))) w else w);
            (out, rs, w) = dump_pages (sb_list b) rs w
        in (out, rs, b\<lparr> sb_list := [] \<rparr>, w))"

text \<open>The answers of \<open>read\<close> on the pipe of a recipe; \<open>drain_pipe\<close> stops when there is nothing to read now or at the end.\<close>

datatype rres = Data string | Again | Rd_Eintr | Rd_Error | Eof

fun drain_pipe :: "bool \<Rightarrow> rres list \<Rightarrow> syncbuf \<times> pagepool \<Rightarrow> (syncbuf \<times> pagepool) res" where
  "drain_pipe af [] bw = Inr bw"
| "drain_pipe af (Again # rs) bw = Inr bw"
| "drain_pipe af (Rd_Eintr # rs) bw = drain_pipe af rs bw"
| "drain_pipe af (Rd_Error # rs) bw = Inl Aborted"
| "drain_pipe af (Eof # rs) bw = Inr bw"
| "drain_pipe af (Data d # rs) bw = bind_res (syncbuf_append af d bw) (drain_pipe af rs)"

section \<open>Pages belong to one place\<close>

text \<open>\<open>us\<close> are the pages of all the buffers.\<close>

definition pool_ok :: "pagepool \<Rightarrow> nat list \<Rightarrow> bool" where
  "pool_ok w us \<longleftrightarrow> distinct (cache w @ us) \<and> (\<forall>p \<in> set (cache w @ us). p < next_page w) \<and>
     cur_cached w = length (cache w) \<and> length (cache w) \<le> max_cached w"

definition content :: "pagepool \<Rightarrow> nat list \<Rightarrow> string" where
  "content w ps = concat (map (meat w) ps)"

definition buf_ok :: "pagepool \<Rightarrow> nat list \<Rightarrow> nat list \<Rightarrow> bool" where
  "buf_ok w us ps \<longleftrightarrow> pool_ok w (ps @ us) \<and> ps \<noteq> [] \<and> (\<forall>p \<in> set ps. length (meat w p) \<le> MEAT_SIZE) \<and>
     (\<forall>p \<in> set (butlast ps). meat w p \<noteq> [])"

text \<open>From one state to another the buffer gains \<open>d\<close>, and the pages of other buffers stay.\<close>

definition gains :: "nat list \<Rightarrow> nat list \<Rightarrow> pagepool \<Rightarrow> string \<Rightarrow> nat list \<Rightarrow> pagepool \<Rightarrow> bool" where
  "gains us ps w d ps' w' \<longleftrightarrow> buf_ok w' us ps' \<and> content w' ps' = content w ps @ d \<and>
     (\<forall>p \<in> set us. meat w' p = meat w p) \<and> max_cached w' = max_cached w"

lemma pool_ok_perm: "pool_ok w us \<Longrightarrow> distinct us' \<Longrightarrow> set us' = set us \<Longrightarrow> pool_ok w us'"
  by (auto simp: pool_ok_def)

lemma getbuf_ok:
  assumes "pool_ok w us" "getbuf w = (q, w')"
  shows "q \<notin> set us" "pool_ok w' (q # us)" "meat w' = (meat w)(q := [])" "max_cached w' = max_cached w"
  using assms by (cases "cache w"; force simp: getbuf_def clear_page_def pool_ok_def split: if_splits)+

lemma content_simps [simp]:
  "content w [] = []" "content w (p # ps) = meat w p @ content w ps" "content w (ps @ qs) = content w ps @ content w qs"
  by (simp_all add: content_def)

lemma content_cong: "(\<And>p. p \<in> set ps \<Longrightarrow> meat w' p = meat w p) \<Longrightarrow> content w' ps = content w ps"
  by (induction ps) auto

lemma buf_ok_last: "buf_ok w us ps \<Longrightarrow> \<exists>qs q. ps = qs @ [q]"
  by (metis buf_ok_def append_butlast_last_id)

lemma MEAT_SIZE_pos [simp]: "0 < MEAT_SIZE" "MEAT_SIZE \<noteq> 0"
  by (simp_all add: MEAT_SIZE_def)

lemma last_page_ok:
  assumes ok: "buf_ok w us ps" and l: "last_page ps w = (ps', w')"
  shows "gains us ps w [] ps' w' \<and> length (meat w' (last ps')) < MEAT_SIZE"
proof (cases "length (meat w (last ps)) = MEAT_SIZE")
  case False
  then show ?thesis using assms by (auto simp: last_page_def gains_def buf_ok_def le_neq_implies_less)
next
  case True
  obtain q w1 where g: "getbuf w = (q, w1)" by fastforce
  obtain rs r where ps: "ps = rs @ [r]" using buf_ok_last[OF ok] by blast
  have eq: "ps' = ps @ [q]" "w' = w1" using l True g by (auto simp: last_page_def)
  have p0: "pool_ok w (ps @ us)" using ok by (simp add: buf_ok_def)
  note G = getbuf_ok[OF p0 g]
  have c: "pool_ok w' ((ps @ [q]) @ us)"
    using G(2) G(1) p0 by (intro pool_ok_perm[OF G(2)[folded eq(2)]]) (auto simp: pool_ok_def)
  have "content w1 ps = content w ps"
    by (rule content_cong) (use G(1,3) in auto)
  then have "content w' ps' = content w ps" using G(3) unfolding eq by simp
  moreover note c
  ultimately show ?thesis using ok True G ps unfolding eq gains_def buf_ok_def by (auto simp: butlast_append)
qed

lemma copy_meat_ok:
  assumes ok: "buf_ok w us ps" and n: "length (meat w (last ps)) + n \<le> MEAT_SIZE"
  shows "gains us ps w (take n d) ps (copy_meat (last ps) n d w)"
proof -
  obtain rs r where ps: "ps = rs @ [r]" using buf_ok_last[OF ok] by blast
  have d: "r \<notin> set rs" "r \<notin> set us" using ok by (auto simp: ps buf_ok_def pool_ok_def)
  have "content (copy_meat r n d w) rs = content w rs"
    by (rule content_cong) (use d in \<open>auto simp: copy_meat_def\<close>)
  then show ?thesis
    using ok n d unfolding ps gains_def buf_ok_def pool_ok_def by (auto simp: copy_meat_def)
qed

lemma gains_trans:
  assumes "gains us ps w d ps' w'" "gains us ps' w' e ps'' w''"
  shows "gains us ps w (d @ e) ps'' w''"
  using assms by (auto simp: gains_def)

lemma fill_pages_ok:
  assumes "buf_ok w us ps" "d \<noteq> [] \<or> meat w (last ps) \<noteq> []"
  shows "\<exists>ps' w'. fill_pages d ps w = Inr (ps', w') \<and> gains us ps w d ps' w' \<and> meat w' (last ps') \<noteq> []"
  using assms
proof (induction "length d" arbitrary: d ps w rule: less_induct)
  case less
  show ?case
  proof (cases "d = []")
    case True
    then show ?thesis using less.prems by (auto simp: fill_pages.simps gains_def)
  next
    case False
    obtain ps1 w1 where l: "last_page ps w = (ps1, w1)" by fastforce
    note L = last_page_ok[OF less.prems(1) l]
    define n where "n = room (last ps1) d w1"
    have n: "0 < n" "length (meat w1 (last ps1)) + n \<le> MEAT_SIZE" "n \<le> length d"
      using L False by (auto simp: n_def room_def Let_def)
    let ?w = "copy_meat (last ps1) n d w1"
    have ok1: "buf_ok w1 us ps1" using L by (simp add: gains_def)
    note C = copy_meat_ok[OF ok1 n(2), of d]
    have m: "meat ?w (last ps1) \<noteq> []" using n(1) False by (simp add: copy_meat_def)
    have "length (drop n d) < length d" using n(1) False by simp
    from less.hyps[OF this _ disjI2[OF m]] C obtain ps2 w2 where
      R: "fill_pages (drop n d) ps1 ?w = Inr (ps2, w2)" "gains us ps1 ?w (drop n d) ps2 w2" "meat w2 (last ps2) \<noteq> []"
      by (auto simp: gains_def)
    have "gains us ps w d ps2 w2"
      using gains_trans[OF conjunct1[OF L] gains_trans[OF C R(2)]] by simp
    moreover have "fill_pages d ps w = Inr (ps2, w2)"
      using False n(1) L by (subst fill_pages.simps) (simp add: l Let_def n_def[symmetric] R(1))
    ultimately show ?thesis using R(3) by blast
  qed
qed

section \<open>Buffers\<close>

text \<open>
  A buffer in use: its pages are its own and hold something, and it is marked when there is an escape byte in it that
  might have to go.
\<close>

definition sb_ok :: "bool \<Rightarrow> pagepool \<Rightarrow> nat list \<Rightarrow> syncbuf \<Rightarrow> bool" where
  "sb_ok af w us b \<longleftrightarrow> pool_ok w (sb_list b @ us) \<and>
     (\<forall>p \<in> set (sb_list b). meat w p \<noteq> [] \<and> length (meat w p) \<le> MEAT_SIZE) \<and>
     (af \<and> ESC \<in> set (content w (sb_list b)) \<longrightarrow> has_escapes b)"

lemma sb_ok_buf: "sb_ok af w us b \<Longrightarrow> sb_list b \<noteq> [] \<Longrightarrow> buf_ok w us (sb_list b)"
  by (auto simp: sb_ok_def buf_ok_def dest: in_set_butlastD)

lemma nonempty_snoc: "(\<forall>p \<in> set (butlast ps). P p) \<Longrightarrow> P (last ps) \<Longrightarrow> \<forall>p \<in> set ps. P p"
  by (cases ps rule: rev_cases) auto

lemma syncbuf_append_ok:
  assumes ok: "sb_ok af w us b"
  shows "\<exists>b' w'. syncbuf_append af d (b, w) = Inr (b', w') \<and> sb_ok af w' us b' \<and>
    content w' (sb_list b') = content w (sb_list b) @ d \<and> (\<forall>p \<in> set us. meat w' p = meat w p)"
proof (cases "d = []")
  case True
  then show ?thesis using ok by (simp add: syncbuf_append_def)
next
  case False
  define he where "he = (has_escapes b \<or> af \<and> ESC \<in> set d)"
  obtain ps w1 where s: "(if sb_list b = [] then let (q, w) = getbuf w in ([q], w) else (sb_list b, w)) = (ps, w1)"
    by fastforce
  have g: "gains us (sb_list b) w [] ps w1"
  proof (cases "sb_list b = []")
    case True
    obtain q w2 where q: "getbuf w = (q, w2)" by fastforce
    have "pool_ok w us" using ok True by (simp add: sb_ok_def)
    then show ?thesis using getbuf_ok[OF _ q, of us] s True q by (auto simp: gains_def buf_ok_def)
  next
    case False
    then show ?thesis using s sb_ok_buf[OF ok] by (auto simp: gains_def)
  qed
  then have "buf_ok w1 us ps" by (simp add: gains_def)
  from fill_pages_ok[OF this disjI1[OF False]] obtain ps' w' where
    f: "fill_pages d ps w1 = Inr (ps', w')" "gains us ps w1 d ps' w'" "meat w' (last ps') \<noteq> []" by blast
  let ?b = "b\<lparr> has_escapes := he, sb_list := ps' \<rparr>"
  have tot: "gains us (sb_list b) w d ps' w'" using gains_trans[OF g f(2)] by simp
  have "syncbuf_append af d (b, w) = Inr (?b, w')"
    using False s f(1) by (cases b) (auto simp: syncbuf_append_def he_def Let_def split_def)
  moreover have "sb_ok af w' us ?b"
    using tot f(3) ok nonempty_snoc[of ps' "\<lambda>p. meat w' p \<noteq> []"]
    by (auto simp: sb_ok_def gains_def buf_ok_def he_def)
  moreover have "content w' ps' = content w (sb_list b) @ d" "\<forall>p \<in> set us. meat w' p = meat w p"
    using tot by (simp_all add: gains_def)
  ultimately show ?thesis by (intro exI[of _ ?b] exI[of _ w']) simp
qed

section \<open>Removing escape sequences\<close>

text \<open>The same on the whole text, without pages.\<close>

fun strip :: "bool \<Rightarrow> string \<Rightarrow> string" where
  "strip esc [] = []"
| "strip esc [c] = (if esc then [] else [c])"
| "strip esc (c # c' # cs) =
     (if c = ESC \<and> c' = CHR ''['' then strip True cs
      else if esc then strip (\<not> final_byte c) (c' # cs)
      else c # strip False (c' # cs))"

lemma strip_page_strip:
  assumes "strip_page nxt esc m = (out, esc', sk)" "nxt = (case r of [] \<Rightarrow> None | x # _ \<Rightarrow> Some x)"
  shows "strip esc (m @ r) = out @ strip esc' (if sk then tl r else r)"
  using assms
proof (induction nxt esc m arbitrary: out rule: strip_page.induct)
  case (2 nxt esc c)
  then show ?case by (cases r) (auto split: if_splits)
next
  case (3 nxt esc c c' cs)
  then show ?case by (auto split: if_splits prod.splits)
qed auto

lemma strip_pages_strip:
  assumes "\<forall>m \<in> set ms. m \<noteq> []"
  shows "concat (strip_pages esc sk ms) = strip esc (if sk then tl (concat ms) else concat ms)"
  using assms
proof (induction ms arbitrary: esc sk)
  case Nil
  then show ?case by simp
next
  case (Cons m ms)
  let ?m = "if sk then drop 1 m else m"
  obtain out e k where s: "strip_page (first_byte ms) esc ?m = (out, e, k)" by (metis prod_cases3)
  have "first_byte ms = (case concat ms of [] \<Rightarrow> None | x # _ \<Rightarrow> Some x)"
    using Cons.prems by (cases ms) (auto simp: first_byte_def neq_Nil_conv)
  note P = strip_page_strip[OF s this]
  have "strip_pages esc sk (m # ms) = out # strip_pages e k ms"
    by (subst strip_pages.simps) (simp only: s Let_def prod.case)
  moreover have "(if sk then tl (concat (m # ms)) else concat (m # ms)) = ?m @ concat ms"
    using Cons.prems by (cases m) auto
  ultimately show ?case using P Cons by simp
qed

lemma strip_no_escape: "ESC \<notin> set d \<Longrightarrow> strip False d = d"
  by (induction "False" d rule: strip.induct) auto

lemma strip_pages_length [simp]: "length (strip_pages e k ms) = length ms"
  by (induction ms arbitrary: e k) (auto split: prod.split)

section \<open>Writing a buffer\<close>

lemma set_meats_ok:
  assumes "distinct ps" "length ms = length ps"
  shows "map (meat (set_meats ps ms w)) ps = ms" "p \<notin> set ps \<Longrightarrow> meat (set_meats ps ms w) p = meat w p"
    "cache (set_meats ps ms w) = cache w" "cur_cached (set_meats ps ms w) = cur_cached w"
    "max_cached (set_meats ps ms w) = max_cached w" "next_page (set_meats ps ms w) = next_page w"
proof -
  have *: "(\<forall>p. p \<notin> set ps \<longrightarrow> meat (set_meats ps ms w) p = meat w p) \<and> map (meat (set_meats ps ms w)) ps = ms \<and>
    cache (set_meats ps ms w) = cache w \<and> cur_cached (set_meats ps ms w) = cur_cached w \<and>
    max_cached (set_meats ps ms w) = max_cached w \<and> next_page (set_meats ps ms w) = next_page w"
    using assms by (induction ps ms w rule: set_meats.induct) auto
  show "map (meat (set_meats ps ms w)) ps = ms" "p \<notin> set ps \<Longrightarrow> meat (set_meats ps ms w) p = meat w p"
    "cache (set_meats ps ms w) = cache w" "cur_cached (set_meats ps ms w) = cur_cached w"
    "max_cached (set_meats ps ms w) = max_cached w" "next_page (set_meats ps ms w) = next_page w"
    using * by auto
qed

definition no_error :: "wres list \<Rightarrow> bool" where
  "no_error rs \<longleftrightarrow> Wr_Error \<notin> set rs"

lemma writeall_all:
  assumes "no_error rs"
  shows "\<exists>rs'. writeall rs d = (d, rs') \<and> no_error rs'"
  using assms
proof (induction rs d rule: writeall.induct)
  case (5 n rs v va)
  then show ?case by (auto simp: no_error_def split_def)
qed (auto simp: no_error_def)

lemma putbuf_ok:
  assumes "pool_ok w (p # us)"
  shows "pool_ok (putbuf p w) us" "meat (putbuf p w) = meat w"
  using assms by (auto simp: putbuf_def pool_ok_def)

lemma dump_pages_ok:
  assumes "pool_ok w (ps @ us)" "no_error rs"
  shows "\<exists>rs' w'. dump_pages ps rs w = (content w ps, rs', w') \<and> no_error rs' \<and> pool_ok w' us \<and> meat w' = meat w"
  using assms
proof (induction ps arbitrary: rs w)
  case Nil
  then show ?case by simp
next
  case (Cons p ps)
  obtain rs1 where 1: "writeall rs (meat w p) = (meat w p, rs1)" "no_error rs1" using writeall_all[OF Cons.prems(2)] by blast
  note P = putbuf_ok[of w p "ps @ us"]
  have "pool_ok (putbuf p w) (ps @ us)" "meat (putbuf p w) = meat w" using P Cons.prems(1) by auto
  moreover from this(1) 1(2) obtain rs2 w2 where
    "dump_pages ps rs1 (putbuf p w) = (content (putbuf p w) ps, rs2, w2)" "no_error rs2" "pool_ok w2 us"
    "meat w2 = meat (putbuf p w)" using Cons.IH by blast
  ultimately show ?case using 1 by (auto simp: content_def)
qed

definition shown :: "outenv \<Rightarrow> string \<Rightarrow> string" where
  "shown oe d = (if oe_ascii_full oe \<and> wants_strip oe then strip False d else d)"

lemma syncbuf_dump_ok:
  assumes ok: "sb_ok (oe_ascii_full oe) w us b" and ws: "no_error ws"
  shows "\<exists>ws' b' w'. syncbuf_dump oe ws (b, w) = (shown oe (content w (sb_list b)), ws', b', w') \<and> no_error ws' \<and>
    sb_list b' = [] \<and> sb_ok (oe_ascii_full oe) w' us b' \<and> (\<forall>p \<in> set us. meat w' p = meat w p)"
proof -
  let ?ps = "sb_list b" and ?af = "oe_ascii_full oe"
  have dis: "distinct ?ps" "\<And>p. p \<in> set us \<Longrightarrow> p \<notin> set ?ps" using ok by (auto simp: sb_ok_def pool_ok_def)
  define ms where "ms = strip_pages False False (map (meat w) ?ps)"
  define w1 where "w1 = (if ?af \<and> has_escapes b \<and> wants_strip oe then set_meats ?ps ms w else w)"
  note S = set_meats_ok[OF dis(1), where ms = ms and w = w]
  have len: "length ms = length ?ps" by (simp add: ms_def)
  have "concat ms = strip False (content w ?ps)"
    using ok strip_pages_strip[of "map (meat w) ?ps" False False] by (auto simp: ms_def content_def sb_ok_def)
  then have set: "content (set_meats ?ps ms w) ?ps = strip False (content w ?ps)"
    using S(1)[OF len] by (simp add: content_def)
  have "?af \<Longrightarrow> \<not> has_escapes b \<Longrightarrow> strip False (content w ?ps) = content w ?ps"
    using ok strip_no_escape by (auto simp: sb_ok_def)
  then have c: "content w1 ?ps = shown oe (content w ?ps)" by (simp add: w1_def shown_def set)
  have "pool_ok w1 (?ps @ us)" using ok S(3-6)[OF len] by (auto simp: w1_def sb_ok_def pool_ok_def)
  from dump_pages_ok[OF this ws] obtain ws' w' where
    d: "dump_pages ?ps ws w1 = (content w1 ?ps, ws', w')" "no_error ws'" "pool_ok w' us" "meat w' = meat w1" by blast
  have "\<forall>p \<in> set us. meat w' p = meat w p" using d(4) S(2)[OF len] dis(2) by (auto simp: w1_def)
  moreover have "syncbuf_dump oe ws (b, w) = (shown oe (content w ?ps), ws', b\<lparr> sb_list := [] \<rparr>, w')"
    using d(1) c unfolding syncbuf_dump_def prod.case Let_def ms_def[symmetric] w1_def[symmetric] by simp
  moreover have "sb_ok ?af w' us (b\<lparr> sb_list := [] \<rparr>)" using d(3) by (simp add: sb_ok_def)
  ultimately show ?thesis using d(2) by (intro exI[of _ ws'] exI[of _ "b\<lparr> sb_list := [] \<rparr>"] exI[of _ w']) simp
qed

text \<open>What a call of \<open>drain_pipe\<close> reads.\<close>

fun drained :: "rres list \<Rightarrow> string" where
  "drained (Data d # rs) = d @ drained rs"
| "drained (Rd_Eintr # rs) = drained rs"
| "drained _ = []"

lemma drain_pipe_ok:
  assumes "sb_ok af w us b" "Rd_Error \<notin> set rs"
  shows "\<exists>b' w'. drain_pipe af rs (b, w) = Inr (b', w') \<and> sb_ok af w' us b' \<and>
    content w' (sb_list b') = content w (sb_list b) @ drained rs \<and> (\<forall>p \<in> set us. meat w' p = meat w p)"
  using assms
proof (induction rs arbitrary: b w rule: drained.induct)
  case (1 d rs)
  obtain b1 w1 where a: "syncbuf_append af d (b, w) = Inr (b1, w1)" "sb_ok af w1 us b1"
      "content w1 (sb_list b1) = content w (sb_list b) @ d" "\<forall>p \<in> set us. meat w1 p = meat w p"
    using syncbuf_append_ok[OF 1(2), of d] by blast
  from 1(1)[OF a(2)] 1(3) obtain b2 w2 where "drain_pipe af rs (b1, w1) = Inr (b2, w2)" "sb_ok af w2 us b2"
      "content w2 (sb_list b2) = content w1 (sb_list b1) @ drained rs" "\<forall>p \<in> set us. meat w2 p = meat w1 p" by auto
  then show ?case using a by (intro exI[of _ b2] exI[of _ w2]) simp
qed auto

text \<open>
  C29: The output of a recipe, read from its pipe in pieces of any size, is written as it is, in order and once; only
  where it is not a terminal, in an ASCII locale, escape sequences are taken out, in the whole text as if there were no
  pages.  The buffer is empty afterwards, its pages are nobody else's, and the pages of other buffers are not touched.
\<close>

theorem recipe_output:
  assumes "sb_ok (oe_ascii_full oe) w us b" "sb_list b = []" "Rd_Error \<notin> set rs" "no_error ws"
  shows "\<exists>b1 w1 ws' b2 w2. drain_pipe (oe_ascii_full oe) rs (b, w) = Inr (b1, w1) \<and>
    syncbuf_dump oe ws (b1, w1) = (shown oe (drained rs), ws', b2, w2) \<and>
    sb_list b2 = [] \<and> sb_ok (oe_ascii_full oe) w2 us b2 \<and> (\<forall>p \<in> set us. meat w2 p = meat w p)"
proof -
  obtain b1 w1 where 1: "drain_pipe (oe_ascii_full oe) rs (b, w) = Inr (b1, w1)" "sb_ok (oe_ascii_full oe) w1 us b1"
      "content w1 (sb_list b1) = drained rs" "\<forall>p \<in> set us. meat w1 p = meat w p"
    using drain_pipe_ok[OF assms(1,3)] assms(2) by auto
  then show ?thesis using syncbuf_dump_ok[OF 1(2) assms(4)] by force
qed

definition ex_env :: outenv where
  "ex_env = \<lparr> oe_ascii_full = True, oe_isatty = False, oe_was_recursive = False, oe_was_recursive_outsync = False,
     oe_output_is_pipe = True, oe_fd = 1 \<rparr>"

theorem recipe_output_witness:
  "\<exists>b1 w1 ws' b2 w2. drain_pipe True [Data [CHR ''a'', ESC], Rd_Eintr, Data ''[1mb'', Eof] (syncbuf_init, pool_init 1) = Inr (b1, w1) \<and>
    syncbuf_dump ex_env [Wrote 1, Wr_Eintr] (b1, w1) = (''ab'', ws', b2, w2) \<and> sb_list b2 = []"
proof -
  have "sb_ok (oe_ascii_full ex_env) (pool_init 1) [] syncbuf_init"
    by (simp add: sb_ok_def pool_ok_def pool_init_def syncbuf_init_def)
  from recipe_output[OF this, of "[Data [CHR ''a'', ESC], Rd_Eintr, Data ''[1mb'', Eof]" "[Wrote 1, Wr_Eintr]"]
  show ?thesis
    by (auto simp: syncbuf_init_def no_error_def shown_def ex_env_def wants_strip_def ESC_def final_byte_def)
qed

text \<open>The return value of \<open>writeall\<close> is not looked at: a failed write loses the rest of one page, and the next one is still written.\<close>

lemma write_error_gap:
  "meat w p \<noteq> [] \<Longrightarrow> dump_pages (p # ps) (Wr_Error # rs) w = dump_pages ps rs (putbuf p w)"
  by (cases "meat w p") (simp_all add: split_def)

end
