(* ===== verification/By_Pid.thy ===== *)
theory By_Pid
  imports Hash_Table
begin

text \<open>
  The running recipes (\<open>bypid.c\<close>, \<open>bypid.h\<close>): one entry per process, found by its process id and by the descriptor of
  its pipe, in two hash tables, and kept in a list in the order of their start.

  The hash \<open>abce_nonmurmur32\<close> is a parameter.  The bucket is the hash modulo \<open>RULEID_BY_PID_SIZE\<close>, a power
  of two, which is \<open>ht_head\<close> (\<open>bucket_mod\<close>).  The two comparison functions order by process id and by descriptor, so
  that a tree finds the entry with the given one.
\<close>

unbundle bit_operations_syntax

definition RULEID_BY_PID_SIZE :: nat where "RULEID_BY_PID_SIZE = 64"

record bypid =
  bp_pid :: int
  bp_ruleid :: int
  bp_fd :: int
  bp_ignore :: bool

record bypids =
  ruleid_by_pid :: "(int, bypid) htab"
  ruleid_by_pid_fd :: "(int, bypid) htab"
  ruleid_by_pid_list :: "bypid list"
  ruleid_by_pid_cnt :: nat

definition bypids_init :: bypids where
  "bypids_init = \<lparr> ruleid_by_pid = ht_init RULEID_BY_PID_SIZE, ruleid_by_pid_fd = ht_init RULEID_BY_PID_SIZE,
     ruleid_by_pid_list = [], ruleid_by_pid_cnt = 0 \<rparr>"

text \<open>\<open>None\<close> is the return value \<open>-ENOENT\<close>.\<close>

definition ruleid_by_fd :: "(int \<Rightarrow> nat) \<Rightarrow> int \<Rightarrow> bypids \<Rightarrow> int option res" where
  "ruleid_by_fd hash fd s =
     (if fd < 0 then Inl Aborted else Inr (map_option bp_ruleid (ht_find hash (ruleid_by_pid_fd s) fd)))"

definition ruleid_by_pid_erase :: "(int \<Rightarrow> nat) \<Rightarrow> int \<Rightarrow> bypids \<Rightarrow> (int \<times> int) option \<times> bypids" where
  "ruleid_by_pid_erase hash pid s =
     (case ht_find hash (ruleid_by_pid s) pid of
        None \<Rightarrow> (None, s)
      | Some e \<Rightarrow>
          let s = s\<lparr> ruleid_by_pid := ht_del hash pid (ruleid_by_pid s) \<rparr>;
              s = (if bp_fd e \<ge> 0 then s\<lparr> ruleid_by_pid_fd := ht_del hash (bp_fd e) (ruleid_by_pid_fd s) \<rparr> else s)
          in (Some (bp_ruleid e, bp_fd e), s\<lparr> ruleid_by_pid_list := remove1 e (ruleid_by_pid_list s) \<rparr>))"

definition ignore_by_pid :: "(int \<Rightarrow> nat) \<Rightarrow> int \<Rightarrow> bypids \<Rightarrow> bool option" where
  "ignore_by_pid hash pid s = map_option bp_ignore (ht_find hash (ruleid_by_pid s) pid)"

definition ruleid_by_pid_insert :: "(int \<Rightarrow> nat) \<Rightarrow> int \<Rightarrow> int \<Rightarrow> int \<Rightarrow> bool \<Rightarrow> bypids \<Rightarrow> bypids res" where
  "ruleid_by_pid_insert hash ruleid pid outpiperd ignore s =
     (let e = \<lparr> bp_pid = pid, bp_ruleid = ruleid, bp_fd = outpiperd, bp_ignore = ignore \<rparr>;
          s = s\<lparr> ruleid_by_pid_cnt := Suc (ruleid_by_pid_cnt s) \<rparr> in
      case ht_ins hash pid e (ruleid_by_pid s) of
        None \<Rightarrow> Inl Aborted
      | Some t \<Rightarrow>
          let s = s\<lparr> ruleid_by_pid := t \<rparr> in
          bind_res (if outpiperd \<ge> 0 then
              (case ht_ins hash outpiperd e (ruleid_by_pid_fd s) of
                 None \<Rightarrow> Inl Aborted
               | Some t \<Rightarrow> Inr (s\<lparr> ruleid_by_pid_fd := t \<rparr>))
            else Inr s)
          (\<lambda>s. Inr (s\<lparr> ruleid_by_pid_list := ruleid_by_pid_list s @ [e] \<rparr>)))"

text \<open>The processes that get the signal, in order.\<close>

definition kill_all_children :: "bypids \<Rightarrow> int list" where
  "kill_all_children s = map bp_pid (ruleid_by_pid_list s)"

lemma bucket_mod: "hsize t = RULEID_BY_PID_SIZE \<Longrightarrow> ht_head hash t k = hash k mod 64"
  by (simp add: ht_head_def RULEID_BY_PID_SIZE_def flip: take_bit_eq_mod[of 6, simplified] mask_eq_exp_minus_1)
    (simp add: take_bit_eq_mask mask_eq_exp_minus_1)

section \<open>The list of running recipes\<close>

text \<open>What the tables stand for: all answers are found by looking through the list.\<close>

datatype pid_op = Insert int int int bool | Erase int | By_Fd int | Ignore int | Kill_All

datatype pid_ans = Done | Rule "int option" | Erased "(int \<times> int) option" | Ignored "bool option" | Signalled "int list"

definition find_by :: "(bypid \<Rightarrow> bool) \<Rightarrow> bypid list \<Rightarrow> bypid option" where
  "find_by P es = List.find P es"

fun list_step :: "pid_op \<Rightarrow> bypid list \<Rightarrow> (pid_ans \<times> bypid list) res" where
  "list_step (Insert ruleid pid fd ignore) es =
     (if (\<exists>e \<in> set es. bp_pid e = pid \<or> fd \<ge> 0 \<and> bp_fd e = fd) then Inl Aborted
      else Inr (Done, es @ [\<lparr> bp_pid = pid, bp_ruleid = ruleid, bp_fd = fd, bp_ignore = ignore \<rparr>]))"
| "list_step (Erase pid) es =
     Inr (Erased (map_option (\<lambda>e. (bp_ruleid e, bp_fd e)) (find_by (\<lambda>e. bp_pid e = pid) es)),
          filter (\<lambda>e. bp_pid e \<noteq> pid) es)"
| "list_step (By_Fd fd) es =
     (if fd < 0 then Inl Aborted else Inr (Rule (map_option bp_ruleid (find_by (\<lambda>e. bp_fd e = fd) es)), es))"
| "list_step (Ignore pid) es = Inr (Ignored (map_option bp_ignore (find_by (\<lambda>e. bp_pid e = pid) es)), es)"
| "list_step Kill_All es = Inr (Signalled (map bp_pid es), es)"

fun pid_step :: "(int \<Rightarrow> nat) \<Rightarrow> pid_op \<Rightarrow> bypids \<Rightarrow> (pid_ans \<times> bypids) res" where
  "pid_step hash (Insert ruleid pid fd ignore) s =
     bind_res (ruleid_by_pid_insert hash ruleid pid fd ignore s) (\<lambda>s. Inr (Done, s))"
| "pid_step hash (Erase pid) s = (case ruleid_by_pid_erase hash pid s of (a, s) \<Rightarrow> Inr (Erased a, s))"
| "pid_step hash (By_Fd fd) s = bind_res (ruleid_by_fd hash fd s) (\<lambda>a. Inr (Rule a, s))"
| "pid_step hash (Ignore pid) s = Inr (Ignored (ignore_by_pid hash pid s), s)"
| "pid_step hash Kill_All s = Inr (Signalled (kill_all_children s), s)"

fun answers :: "('o \<Rightarrow> 's \<Rightarrow> ('a \<times> 's) res) \<Rightarrow> 'o list \<Rightarrow> 's \<Rightarrow> 'a list res" where
  "answers step [] s = Inr []"
| "answers step (x # xs) s =
     bind_res (step x s) (\<lambda>(a, s). bind_res (answers step xs s) (\<lambda>as. Inr (a # as)))"

definition indexes :: "(int \<Rightarrow> nat) \<Rightarrow> bypids \<Rightarrow> bypid list \<Rightarrow> bool" where
  "indexes hash s es \<longleftrightarrow> ruleid_by_pid_list s = es \<and> distinct (map bp_pid es) \<and>
     distinct (filter (\<lambda>f. f \<ge> 0) (map bp_fd es)) \<and>
     (\<forall>pid. ht_find hash (ruleid_by_pid s) pid = find_by (\<lambda>e. bp_pid e = pid) es) \<and>
     (\<forall>fd \<ge> 0. ht_find hash (ruleid_by_pid_fd s) fd = find_by (\<lambda>e. bp_fd e = fd) es)"

lemma find_by_simps [simp]:
  "find_by P [] = None"
  "find_by P (e # es) = (if P e then Some e else find_by P es)"
  "find_by P (es @ fs) = (case find_by P es of None \<Rightarrow> find_by P fs | Some e \<Rightarrow> Some e)"
  by (induction es) (auto simp: find_by_def)

lemma find_by_None: "find_by P es = None \<longleftrightarrow> (\<forall>e \<in> set es. \<not> P e)"
  by (induction es) auto

lemma find_by_SomeD: "find_by P es = Some e \<Longrightarrow> e \<in> set es \<and> P e"
  by (induction es) (auto split: if_splits)

lemma find_by_filter:
  "find_by P (filter (\<lambda>e. \<not> Q e) es) = find_by (\<lambda>e. P e \<and> \<not> Q e) es"
  by (induction es) auto

lemma find_by_cong: "(\<And>e. e \<in> set es \<Longrightarrow> P e = Q e) \<Longrightarrow> find_by P es = find_by Q es"
  by (induction es) auto

lemma remove1_pid:
  "distinct (map bp_pid es) \<Longrightarrow> e \<in> set es \<Longrightarrow> remove1 e es = filter (\<lambda>f. bp_pid f \<noteq> bp_pid e) es"
proof (induction es)
  case (Cons f es)
  show ?case
  proof (cases "f = e")
    case True
    then have "\<forall>g \<in> set es. bp_pid g \<noteq> bp_pid e" using Cons.prems by (auto simp: image_iff)
    then have "filter (\<lambda>f. bp_pid f \<noteq> bp_pid e) es = es" by (simp add: filter_id_conv)
    then show ?thesis using True by simp
  next
    case False
    then have "bp_pid f \<noteq> bp_pid e" "e \<in> set es" using Cons.prems by (auto simp: image_iff)
    then show ?thesis using Cons False by simp
  qed
qed simp

lemma indexes_init: "indexes hash bypids_init []"
  by (simp add: indexes_def bypids_init_def)

definition same_step :: "(int \<Rightarrow> nat) \<Rightarrow> (pid_ans \<times> bypids) res \<Rightarrow> (pid_ans \<times> bypid list) res \<Rightarrow> bool" where
  "same_step hash r l \<longleftrightarrow>
     (case (r, l) of
        (Inl f, Inl g) \<Rightarrow> f = g
      | (Inr (a, s), Inr (b, es)) \<Rightarrow> a = b \<and> indexes hash s es
      | _ \<Rightarrow> False)"

lemma insert_sim:
  assumes ok: "indexes hash s es"
  shows "same_step hash (pid_step hash (Insert r pid fd ig) s) (list_step (Insert r pid fd ig) es)"
proof -
  let ?e = "\<lparr> bp_pid = pid, bp_ruleid = r, bp_fd = fd, bp_ignore = ig \<rparr>"
  note I = ok[unfolded indexes_def]
  have P: "ht_find hash (ruleid_by_pid s) pid = find_by (\<lambda>e. bp_pid e = pid) es" using I by blast
  have F: "fd \<ge> 0 \<Longrightarrow> ht_find hash (ruleid_by_pid_fd s) fd = find_by (\<lambda>e. bp_fd e = fd) es" using I by blast
  show ?thesis
  proof (cases "find_by (\<lambda>e. bp_pid e = pid) es")
    case (Some e)
    then have "ht_ins hash pid ?e (ruleid_by_pid s) = None" using P by (simp add: ht.ins_None)
    moreover have "\<exists>e \<in> set es. bp_pid e = pid" using find_by_SomeD[OF Some] by blast
    ultimately show ?thesis by (auto simp: ruleid_by_pid_insert_def same_step_def Let_def)
  next
    case None
    obtain t where t: "ht_ins hash pid ?e (ruleid_by_pid s) = Some t" "ht_find hash t = (ht_find hash (ruleid_by_pid s))(pid \<mapsto> ?e)"
      using ht_ins_new[of hash "ruleid_by_pid s" pid] P None by metis
    have np: "\<forall>e \<in> set es. bp_pid e \<noteq> pid" using None by (simp add: find_by_None)
    have pids: "distinct (map bp_pid (es @ [?e]))" using I np by auto
    have bypid: "ht_find hash t p = find_by (\<lambda>e. bp_pid e = p) (es @ [?e])" for p
      using I t(2) None by (auto split: option.split)
    show ?thesis
    proof (cases "fd \<ge> 0")
      case False
      then show ?thesis using I t np pids bypid
        by (auto simp: ruleid_by_pid_insert_def same_step_def Let_def indexes_def split: option.split)
    next
      case True
      show ?thesis
      proof (cases "find_by (\<lambda>e. bp_fd e = fd) es")
        case (Some e)
        then have "ht_ins hash fd ?e (ruleid_by_pid_fd s) = None" using F True by (simp add: ht.ins_None)
        moreover have "\<exists>e \<in> set es. bp_fd e = fd" using find_by_SomeD[OF Some] by blast
        ultimately show ?thesis using t(1) True by (auto simp: ruleid_by_pid_insert_def same_step_def Let_def)
      next
        case None
        obtain u where u: "ht_ins hash fd ?e (ruleid_by_pid_fd s) = Some u"
            "ht_find hash u = (ht_find hash (ruleid_by_pid_fd s))(fd \<mapsto> ?e)"
          using ht_ins_new[of hash "ruleid_by_pid_fd s" fd] F[OF True] None by metis
        have nf: "\<forall>e \<in> set es. bp_fd e \<noteq> fd" using None by (simp add: find_by_None)
        have "ht_find hash u f = find_by (\<lambda>e. bp_fd e = f) (es @ [?e])" if "f \<ge> 0" for f
          using I u(2) None that by (auto split: option.split)
        moreover have "distinct (filter (\<lambda>f. f \<ge> 0) (map bp_fd (es @ [?e])))" using I nf by auto
        ultimately show ?thesis using I t u True np nf pids bypid
          by (simp add: ruleid_by_pid_insert_def same_step_def Let_def indexes_def)
      qed
    qed
  qed
qed

lemma distinct_filter_map_filter: "distinct (filter P (map f es)) \<Longrightarrow> distinct (filter P (map f (filter Q es)))"
  by (induction es) auto

lemma erase_sim:
  assumes ok: "indexes hash s es"
  shows "same_step hash (pid_step hash (Erase pid) s) (list_step (Erase pid) es)"
proof -
  note I = ok[unfolded indexes_def]
  have P: "ht_find hash (ruleid_by_pid s) pid = find_by (\<lambda>e. bp_pid e = pid) es" using I by blast
  let ?es = "filter (\<lambda>e. bp_pid e \<noteq> pid) es"
  show ?thesis
  proof (cases "find_by (\<lambda>e. bp_pid e = pid) es")
    case None
    then have "?es = es" by (simp add: find_by_None filter_id_conv)
    then show ?thesis using ok P None by (simp add: ruleid_by_pid_erase_def same_step_def)
  next
    case (Some e)
    have e: "e \<in> set es" "bp_pid e = pid" using find_by_SomeD[OF Some] by auto
    have rm: "remove1 e es = ?es" using remove1_pid[OF _ e(1)] I e(2) by simp
    have "(find_by (\<lambda>e. bp_pid e = p) es)  = find_by (\<lambda>f. bp_pid f = p \<and> bp_pid f \<noteq> pid) es" if "p \<noteq> pid" for p
      by (rule find_by_cong) (use that in auto)
    then have p: "(find_by (\<lambda>e. bp_pid e = p) es) = find_by (\<lambda>e. bp_pid e = p) ?es" if "p \<noteq> pid" for p
      using that by (simp add: find_by_filter)
    have p0: "find_by (\<lambda>e. bp_pid e = pid) ?es = None" by (simp add: find_by_None)
    have uniq: "f = e" if "f \<in> set es" "bp_fd f = bp_fd e" "bp_fd e \<ge> 0" for f
      using I that split_list[OF e(1)] by (auto simp: image_iff; metis)
    have fd: "find_by (\<lambda>f. bp_fd f = x) ?es = (if x = bp_fd e then None else find_by (\<lambda>f. bp_fd f = x) es)"
      if "x \<ge> 0" for x
    proof (cases "x = bp_fd e")
      case True
      then show ?thesis using uniq that e(2) by (auto simp: find_by_None)
    next
      case False
      have "find_by (\<lambda>f. bp_fd f = x) es = find_by (\<lambda>f. bp_fd f = x \<and> bp_pid f \<noteq> pid) es"
      proof (rule find_by_cong)
        fix f assume "f \<in> set es"
        then show "(bp_fd f = x) = (bp_fd f = x \<and> bp_pid f \<noteq> pid)"
          using I e False by (auto simp: distinct_map dest: inj_onD)
      qed
      then show ?thesis using False by (simp add: find_by_filter)
    qed
    have "distinct (map bp_pid ?es)" using I by (simp add: distinct_map_filter)
    moreover have "distinct (filter (\<lambda>f. f \<ge> 0) (map bp_fd ?es))"
      using I by (intro distinct_filter_map_filter) simp
    ultimately show ?thesis
      using I P Some rm p p0 fd
      by (auto simp: ruleid_by_pid_erase_def same_step_def Let_def indexes_def)
  qed
qed

lemma step_sim:
  assumes "indexes hash s es"
  shows "same_step hash (pid_step hash x s) (list_step x es)"
proof (cases x)
  case (Insert r pid fd ig)
  show ?thesis unfolding Insert using assms by (rule insert_sim)
next
  case (Erase pid)
  show ?thesis unfolding Erase using assms by (rule erase_sim)
qed (use assms in \<open>auto simp: same_step_def ruleid_by_fd_def ignore_by_pid_def kill_all_children_def indexes_def\<close>)

lemma answers_sim: "indexes hash s es \<Longrightarrow> answers (pid_step hash) xs s = answers list_step xs es"
proof (induction xs arbitrary: s es)
  case (Cons x xs)
  have "same_step hash (pid_step hash x s) (list_step x es)" using Cons.prems by (rule step_sim)
  then show ?case using Cons.IH
    by (cases "pid_step hash x s"; cases "list_step x es") (auto simp: same_step_def)
qed simp

text \<open>
  C30: The two hash tables and the list of running recipes act as the list alone: for every sequence of operations the
  answers are those found by looking through it, whatever the hash.  Starting a process whose id or descriptor is
  already there aborts; an ended process is found by its id once, and with it goes its descriptor.
\<close>

theorem bypid_refines:
  "answers (pid_step hash) xs bypids_init = answers list_step xs []"
  by (rule answers_sim[OF indexes_init])

end
