(* ===== verification/My_Malloc.thy ===== *)
theory My_Malloc
  imports Stir_Prelude "HOL-Library.Word"
begin

text \<open>
  The allocator for everything that lives until the end (\<open>mymalloc.c\<close>): an arena that is cut up from its start, new
  arenas when it is full, and pages of their own for what is larger than an arena.  Nothing is freed.

  An address is a mapping and an offset in it.  \<open>mmap\<close> gives a new mapping each time, which begins on a page.  The alignment
  of an address is taken to be that of its offset; that is so for alignments up to the size of a page, which is also what the
  code assumes of \<open>stir_do_mmap_madvise\<close>, while for larger ones the code gives no more than the page.  \<open>mmap\<close> does not
  fail; in the code its failure ends stirmake.  Under valgrind every block is a mapping of its own.
  No sum comes near the range of \<open>size_t\<close>: offsets stay below the size of the arena plus an alignment.
\<close>

unbundle bit_operations_syntax

definition SIZEOF_MY_ARENA :: nat where "SIZEOF_MY_ARENA = 128 * 1024"

type_synonym addr = "nat \<times> nat"

record arena =
  ar_map :: nat
  my_arena_off :: nat
  next_map :: nat
  mymem :: nat
  mymemcnt :: nat
  mymemwaste :: nat
  argmem :: nat
  argmemcnt :: nat
  mem :: "addr \<Rightarrow> char"

definition my_malloc_init :: arena where
  "my_malloc_init = \<lparr> ar_map = 0, my_arena_off = 0, next_map = 1, mymem = 0, mymemcnt = 0, mymemwaste = 0, argmem = 0,
     argmemcnt = 0, mem = (\<lambda>_. CHR 0x00) \<rparr>"

definition fresh_map :: "arena \<Rightarrow> addr \<times> arena" where
  "fresh_map s = ((next_map s, 0), s\<lparr> next_map := Suc (next_map s) \<rparr>)"

definition count_mem :: "nat \<Rightarrow> arena \<Rightarrow> arena" where
  "count_mem sz s = s\<lparr> mymem := mymem s + sz, mymemcnt := mymemcnt s + 1 \<rparr>"

text \<open>Moving the offset to the next multiple of the alignment, but not past the end.\<close>

definition align_off :: "nat \<Rightarrow> arena \<Rightarrow> arena" where
  "align_off align s =
     (if my_arena_off s AND (align - 1) \<noteq> 0 then
        let move = align - (my_arena_off s AND (align - 1));
            s = s\<lparr> my_arena_off := my_arena_off s + move, mymemwaste := mymemwaste s + move \<rparr> in
        if my_arena_off s > SIZEOF_MY_ARENA then
          let moveback = my_arena_off s - SIZEOF_MY_ARENA in
          s\<lparr> my_arena_off := my_arena_off s - moveback, mymemwaste := mymemwaste s - moveback \<rparr>
        else s
      else s)"

definition my_malloc_align :: "bool \<Rightarrow> nat \<Rightarrow> nat \<Rightarrow> arena \<Rightarrow> (addr \<times> arena) res" where
  "my_malloc_align valgrind sz align s =
     (if valgrind then Inr (fresh_map s)
      else if align AND (align - 1) \<noteq> 0 \<or> align = 0 then Inl Aborted
      else if sz > SIZEOF_MY_ARENA then
        let (a, s) = fresh_map s in Inr (a, count_mem sz s)
      else
        let s = align_off align s in
        if my_arena_off s + sz > SIZEOF_MY_ARENA then
          let s = s\<lparr> mymemwaste := mymemwaste s + (SIZEOF_MY_ARENA - my_arena_off s) \<rparr>;
              (a, s) = fresh_map s;
              s = s\<lparr> ar_map := fst a, my_arena_off := sz \<rparr> in
          if my_arena_off s > SIZEOF_MY_ARENA then Inl Aborted
          else Inr (a, count_mem sz s)
        else Inr ((ar_map s, my_arena_off s), count_mem sz (s\<lparr> my_arena_off := my_arena_off s + sz \<rparr>)))"

text \<open>The alignment of \<open>max_align_t\<close> is a parameter.\<close>

definition my_malloc :: "nat \<Rightarrow> bool \<Rightarrow> nat \<Rightarrow> arena \<Rightarrow> (addr \<times> arena) res" where
  "my_malloc ALIGN valgrind sz s = my_malloc_align valgrind sz ALIGN s"

definition count_arg :: "nat \<Rightarrow> addr \<times> arena \<Rightarrow> addr \<times> arena" where
  "count_arg sz r = (fst r, (snd r)\<lparr> argmem := argmem (snd r) + sz, argmemcnt := argmemcnt (snd r) + 1 \<rparr>)"

definition my_argmalloc :: "nat \<Rightarrow> bool \<Rightarrow> nat \<Rightarrow> arena \<Rightarrow> (addr \<times> arena) res" where
  "my_argmalloc ALIGN valgrind sz s = bind_res (my_malloc ALIGN valgrind sz s) (\<lambda>r. Inr (count_arg sz r))"

definition my_argmalloc_align :: "bool \<Rightarrow> nat \<Rightarrow> nat \<Rightarrow> arena \<Rightarrow> (addr \<times> arena) res" where
  "my_argmalloc_align valgrind sz align s = bind_res (my_malloc_align valgrind sz align s) (\<lambda>r. Inr (count_arg sz r))"

text \<open>Copying a string with its end.\<close>

fun store :: "addr \<Rightarrow> string \<Rightarrow> (addr \<Rightarrow> char) \<Rightarrow> addr \<Rightarrow> char" where
  "store a [] m = m"
| "store (r, i) (c # cs) m = store (r, Suc i) cs (m((r, i) := c))"

definition copy_string :: "string \<Rightarrow> addr \<times> arena \<Rightarrow> addr \<times> arena" where
  "copy_string str r = (fst r, (snd r)\<lparr> mem := store (fst r) (str @ [CHR 0x00]) (mem (snd r)) \<rparr>)"

definition my_strdup_len :: "bool \<Rightarrow> string \<Rightarrow> nat \<Rightarrow> arena \<Rightarrow> (addr \<times> arena) res" where
  "my_strdup_len valgrind str sz s =
     (if length str < sz then Inl Overread
      else bind_res (my_malloc_align valgrind (sz + 1) 1 s) (\<lambda>r. Inr (copy_string (take sz str) r)))"

definition my_strdup :: "bool \<Rightarrow> string \<Rightarrow> arena \<Rightarrow> (addr \<times> arena) res" where
  "my_strdup valgrind str s = bind_res (my_malloc_align valgrind (length str + 1) 1 s) (\<lambda>r. Inr (copy_string str r))"

definition my_argstrdup_len :: "bool \<Rightarrow> string \<Rightarrow> nat \<Rightarrow> arena \<Rightarrow> (addr \<times> arena) res" where
  "my_argstrdup_len valgrind str sz s =
     (if length str < sz then Inl Overread
      else bind_res (my_argmalloc_align valgrind (sz + 1) 1 s) (\<lambda>r. Inr (copy_string (take sz str) r)))"

definition my_argstrdup :: "bool \<Rightarrow> string \<Rightarrow> arena \<Rightarrow> (addr \<times> arena) res" where
  "my_argstrdup valgrind str s = bind_res (my_argmalloc_align valgrind (length str + 1) 1 s) (\<lambda>r. Inr (copy_string str r))"

section \<open>Powers of two\<close>

lemma and_pred_power: "(n :: nat) AND (2 ^ k - 1) = n mod 2 ^ k"
  by (simp add: take_bit_eq_mask mask_eq_exp_minus_1 flip: take_bit_eq_mod)

lemma power_and_pred: "(2 ^ k :: nat) AND (2 ^ k - 1) = 0"
  using and_pred_power[of "2 ^ k" k] by simp

lemma round_up: "0 < m \<Longrightarrow> (n + (m - n mod m)) mod m = (0 :: nat)"
proof -
  assume "0 < m"
  then have "n mod m < m" by simp
  then have "n + (m - n mod m) = n div m * m + m"
    using div_mult_mod_eq[of n m] by linarith
  then show ?thesis by simp
qed

section \<open>Blocks\<close>

text \<open>
  \<open>in_use s bs\<close>: the blocks \<open>bs\<close> (address and size) are in mappings that exist, do not overlap, and those in the current
  arena lie below its offset.
\<close>

definition apart :: "addr \<times> nat \<Rightarrow> addr \<times> nat \<Rightarrow> bool" where
  "apart x y = (fst (fst x) \<noteq> fst (fst y) \<or> snd (fst x) + snd x \<le> snd (fst y) \<or> snd (fst y) + snd y \<le> snd (fst x))"

definition in_use :: "arena \<Rightarrow> (addr \<times> nat) list \<Rightarrow> bool" where
  "in_use s bs \<longleftrightarrow> my_arena_off s \<le> SIZEOF_MY_ARENA \<and> ar_map s < next_map s \<and>
     (\<forall>b \<in> set bs. fst (fst b) < next_map s \<and>
        (fst (fst b) = ar_map s \<longrightarrow> snd (fst b) + snd b \<le> my_arena_off s)) \<and>
     sorted_wrt apart bs"

lemma align_off_le: "my_arena_off s \<le> SIZEOF_MY_ARENA \<Longrightarrow>
    my_arena_off s \<le> my_arena_off (align_off a s) \<and> my_arena_off (align_off a s) \<le> SIZEOF_MY_ARENA"
  by (auto simp: align_off_def Let_def)

lemma align_off_same [simp]:
  "ar_map (align_off a s) = ar_map s" "next_map (align_off a s) = next_map s" "mem (align_off a s) = mem s"
  by (simp_all add: align_off_def Let_def)

lemma align_off_aligned:
  "my_arena_off (align_off (2 ^ k) s) < SIZEOF_MY_ARENA \<Longrightarrow> my_arena_off (align_off (2 ^ k) s) mod 2 ^ k = 0"
  using round_up[of "2 ^ k" "my_arena_off s"]
  by (auto simp: align_off_def Let_def and_pred_power[simplified] split: if_splits)

text \<open>The new block is apart from all others, and aligned if it has bytes at all.\<close>

lemma my_malloc_align_ok:
  assumes ok: "in_use s bs"
  shows "\<exists>a s'. my_malloc_align v sz (2 ^ k) s = Inr (a, s') \<and> in_use s' (bs @ [(a, sz)]) \<and>
    (0 < sz \<longrightarrow> snd a mod 2 ^ k = 0) \<and> mem s' = mem s"
proof -
  have two: "(2 ^ k :: nat) AND (2 ^ k - 1) = 0" "(2 ^ k :: nat) \<noteq> 0" by (rule power_and_pred) simp
  have fresh: "in_use (s\<lparr> next_map := Suc (next_map s) \<rparr>) (bs @ [((next_map s, 0), n)])" for n
    using ok by (auto simp: in_use_def apart_def sorted_wrt_append)
  let ?s = "align_off (2 ^ k) s"
  have le: "my_arena_off s \<le> my_arena_off ?s" "my_arena_off ?s \<le> SIZEOF_MY_ARENA"
    using align_off_le[of s "2 ^ k"] ok by (auto simp: in_use_def)
  have cm: "in_use (count_mem n t) cs = in_use t cs" "mem (count_mem n t) = mem t" for n t cs
    by (simp_all add: count_mem_def in_use_def)
  consider "v" | "\<not> v" "sz > SIZEOF_MY_ARENA" | "\<not> v" "sz \<le> SIZEOF_MY_ARENA" "my_arena_off ?s + sz > SIZEOF_MY_ARENA" |
    "\<not> v" "sz \<le> SIZEOF_MY_ARENA" "my_arena_off ?s + sz \<le> SIZEOF_MY_ARENA" by linarith
  then show ?thesis
  proof cases
    case 1
    then show ?thesis using fresh[of sz] by (simp add: my_malloc_align_def fresh_map_def)
  next
    case 2
    then show ?thesis using fresh[of sz] two by (simp add: my_malloc_align_def fresh_map_def cm)
  next
    case 3
    have "in_use (?s\<lparr> mymemwaste := w, next_map := Suc (next_map s), ar_map := next_map s, my_arena_off := sz \<rparr>)
        (bs @ [((next_map s, 0), sz)])" for w
      using ok 3(2) by (auto simp: in_use_def apart_def sorted_wrt_append)
    then show ?thesis using 3 two by (simp add: my_malloc_align_def fresh_map_def cm Let_def)
  next
    case 4
    let ?a = "(ar_map s, my_arena_off ?s)"
    have "in_use (?s\<lparr> my_arena_off := my_arena_off ?s + sz \<rparr>) (bs @ [(?a, sz)])"
      using ok 4(3) le by (fastforce simp: in_use_def apart_def sorted_wrt_append)
    moreover have "0 < sz \<Longrightarrow> my_arena_off ?s mod 2 ^ k = 0" using align_off_aligned[of k s] 4(3) by simp
    ultimately show ?thesis using 4 two by (simp add: my_malloc_align_def cm Let_def)
  qed
qed

section \<open>Strings\<close>

definition holds :: "(addr \<Rightarrow> char) \<Rightarrow> addr \<Rightarrow> string \<Rightarrow> bool" where
  "holds m a cs = (\<forall>j < length cs. m (fst a, snd a + j) = cs ! j)"

lemma store_at: "store (r, i) cs m (r', i') =
    (if r' = r \<and> i \<le> i' \<and> i' < i + length cs then cs ! (i' - i) else m (r', i'))"
  by (induction "(r, i)" cs m arbitrary: i rule: store.induct) (auto simp: nth_Cons' Suc_diff_le le_Suc_eq)

lemma holds_stored: "holds (store a cs m) a cs"
  by (cases a) (simp add: holds_def store_at)

lemma holds_apart:
  assumes "holds m b ds" "apart (b, length ds) (a, length cs)"
  shows "holds (store a cs m) b ds"
  using assms by (cases a; cases b) (auto simp: holds_def store_at apart_def)

text \<open>What the program asks for: blocks and copies of strings.\<close>

datatype request = Block nat nat | Arg_Block nat nat | Str string | Arg_Str string

fun serve :: "bool \<Rightarrow> request \<Rightarrow> arena \<Rightarrow> (addr \<times> arena) res" where
  "serve v (Block sz align) s = my_malloc_align v sz align s"
| "serve v (Arg_Block sz align) s = my_argmalloc_align v sz align s"
| "serve v (Str str) s = my_strdup v str s"
| "serve v (Arg_Str str) s = my_argstrdup v str s"

fun serve_all :: "bool \<Rightarrow> request list \<Rightarrow> arena \<Rightarrow> (addr list \<times> arena) res" where
  "serve_all v [] s = Inr ([], s)"
| "serve_all v (q # qs) s =
     bind_res (serve v q s) (\<lambda>(a, s). bind_res (serve_all v qs s) (\<lambda>(as, s). Inr (a # as, s)))"

fun rq_size :: "request \<Rightarrow> nat" where
  "rq_size (Block sz align) = sz"
| "rq_size (Arg_Block sz align) = sz"
| "rq_size (Str str) = length str + 1"
| "rq_size (Arg_Str str) = length str + 1"

fun rq_align :: "request \<Rightarrow> nat" where
  "rq_align (Block sz align) = align"
| "rq_align (Arg_Block sz align) = align"
| "rq_align _ = 1"

fun rq_text :: "request \<Rightarrow> string" where
  "rq_text (Str str) = str @ [CHR 0x00]"
| "rq_text (Arg_Str str) = str @ [CHR 0x00]"
| "rq_text _ = []"

definition served :: "request \<Rightarrow> addr \<Rightarrow> bool" where
  "served q a = (0 < rq_size q \<longrightarrow> snd a mod rq_align q = 0)"

lemma in_use_mem [simp]:
  "in_use (s\<lparr> mem := m \<rparr>) bs = in_use s bs" "in_use (s\<lparr> argmem := x, argmemcnt := y \<rparr>) bs = in_use s bs"
  by (simp_all add: in_use_def)

lemma serve_ok:
  assumes ok: "in_use s bs" and al: "\<exists>k. rq_align q = 2 ^ k"
  shows "\<exists>a s'. serve v q s = Inr (a, s') \<and> in_use s' (bs @ [(a, rq_size q)]) \<and> served q a \<and>
    mem s' = store a (rq_text q) (mem s)"
proof -
  obtain k where k: "rq_align q = 2 ^ k" using al by blast
  obtain a s' where "my_malloc_align v (rq_size q) (rq_align q) s = Inr (a, s')" "in_use s' (bs @ [(a, rq_size q)])"
      "served q a" "mem s' = mem s"
    using my_malloc_align_ok[OF ok, of v "rq_size q" k] unfolding served_def k by auto
  then show ?thesis
    by (cases q) (auto simp: my_argmalloc_align_def my_strdup_def my_argstrdup_def copy_string_def count_arg_def)
qed

definition texts_hold :: "(addr \<Rightarrow> char) \<Rightarrow> (request \<times> addr) list \<Rightarrow> bool" where
  "texts_hold m xs = (\<forall>(q, a) \<in> set xs. holds m a (rq_text q))"

lemma text_size: "length (rq_text q) \<le> rq_size q"
  by (cases q) auto

lemma serve_all_ok:
  assumes "in_use s (map (\<lambda>(q, a). (a, rq_size q)) xs)" "texts_hold (mem s) xs" "\<forall>q \<in> set qs. \<exists>k. rq_align q = 2 ^ k"
  shows "\<exists>as s'. serve_all v qs s = Inr (as, s') \<and> length as = length qs \<and> list_all2 served qs as \<and>
    in_use s' (map (\<lambda>(q, a). (a, rq_size q)) (xs @ zip qs as)) \<and> texts_hold (mem s') (xs @ zip qs as)"
  using assms
proof (induction qs arbitrary: s xs)
  case Nil
  then show ?case by simp
next
  case (Cons q qs)
  obtain a s1 where 1: "serve v q s = Inr (a, s1)"
      "in_use s1 (map (\<lambda>(q, a). (a, rq_size q)) (xs @ [(q, a)]))" "served q a" "mem s1 = store a (rq_text q) (mem s)"
    using serve_ok[OF Cons.prems(1), of q v] Cons.prems(3) by auto
  have "holds (mem s1) b (rq_text p)" if "(p, b) \<in> set xs" for p b
  proof -
    have "apart (b, rq_size p) (a, rq_size q)"
      using 1(2) that by (force simp: in_use_def sorted_wrt_append)
    then have "apart (b, length (rq_text p)) (a, length (rq_text q))"
      using text_size[of p] text_size[of q] by (auto simp: apart_def)
    moreover have "holds (mem s) b (rq_text p)" using Cons.prems(2) that by (auto simp: texts_hold_def)
    ultimately show ?thesis unfolding 1(4) by (intro holds_apart)
  qed
  then have "texts_hold (mem s1) (xs @ [(q, a)])" using 1(4) holds_stored by (auto simp: texts_hold_def)
  from Cons.IH[OF 1(2) this] Cons.prems(3) obtain as s2 where
    "serve_all v qs s1 = Inr (as, s2)" "length as = length qs" "list_all2 served qs as"
    "in_use s2 (map (\<lambda>(q, a). (a, rq_size q)) ((xs @ [(q, a)]) @ zip qs as))"
    "texts_hold (mem s2) ((xs @ [(q, a)]) @ zip qs as)" by auto
  then show ?case using 1(1,3) by (intro exI[of _ "a # as"] exI[of _ s2]) simp
qed

text \<open>
  C31: The allocator serves every sequence of requests: no two blocks overlap, a block that is not empty has its
  alignment, and every copied string can still be read at the end, whatever was allocated and copied after it.
\<close>

theorem allocator_safe:
  assumes "\<forall>q \<in> set qs. \<exists>k. rq_align q = 2 ^ k"
  shows "\<exists>as s. serve_all v qs my_malloc_init = Inr (as, s) \<and> list_all2 served qs as \<and>
    sorted_wrt apart (map (\<lambda>(q, a). (a, rq_size q)) (zip qs as)) \<and>
    (\<forall>(q, a) \<in> set (zip qs as). holds (mem s) a (rq_text q))"
proof -
  have "in_use my_malloc_init (map (\<lambda>(q, a). (a, rq_size q)) [])" "texts_hold (mem my_malloc_init) []"
    by (simp_all add: in_use_def my_malloc_init_def texts_hold_def)
  from serve_all_ok[OF this assms, of v] show ?thesis by (auto simp: in_use_def texts_hold_def)
qed

theorem allocator_safe_witness:
  "\<exists>as s. serve_all False [Str ''ab'', Block 200000 16, Block 8 16, Arg_Str ''c''] my_malloc_init = Inr (as, s) \<and>
     sorted_wrt apart (map (\<lambda>(q, a). (a, rq_size q)) (zip [Str ''ab'', Block 200000 16, Block 8 16, Arg_Str ''c''] as))"
proof -
  have "\<exists>k. rq_align q = 2 ^ k" if "q \<in> set [Str ''ab'', Block 200000 16, Block 8 16, Arg_Str ''c'']" for q
  proof -
    have "rq_align q = 2 ^ 0 \<or> rq_align q = 2 ^ 4" using that by auto
    then show ?thesis by metis
  qed
  then show ?thesis using allocator_safe[of "[Str ''ab'', Block 200000 16, Block 8 16, Arg_Str ''c'']" False] by blast
qed

end
