(* ===== verification/Cmd_Eval.thy ===== *)
theory Cmd_Eval
  imports Path_Ops Graph_Build
begin

text \<open>
  The commands of a rule (\<open>cmdsrc_eval\<close>, \<open>argdup\<close>, \<open>calc_cmd\<close>, \<open>print_cmd\<close>, \<open>get_cmd_only\<close> in \<open>stirmake.c\<close>): the items of a recipe
  are copied, or evaluated by the abce machine, which finds the target and the dependencies of the rule in the
  variables \<open>@ + | ^ < *\<close> of the rule's scope.

  The machine is a parameter: \<open>engine\<close> runs a piece of code in a state, which has the variables of the
  scopes, the dynamic scope, and anything else, and gives a value or fails.  A rule does not change while it is
  evaluated.
\<close>

section \<open>Variables\<close>

record 'w abce =
  sc_vars :: "nat \<Rightarrow> string \<Rightarrow> mb option"
  abce_scope :: nat
  abce_world :: 'w

datatype code = Jump nat | Call nat nat

type_synonym 'w engine = "code \<Rightarrow> 'w abce \<Rightarrow> mb trap \<times> 'w abce"

definition set_var :: "nat \<Rightarrow> string \<Rightarrow> mb \<Rightarrow> 'w abce \<Rightarrow> 'w abce" where
  "set_var sc x v m = m\<lparr> sc_vars := (sc_vars m)(sc := (sc_vars m sc)(x \<mapsto> v)) \<rparr>"

definition del_var :: "nat \<Rightarrow> string \<Rightarrow> 'w abce \<Rightarrow> 'w abce" where
  "del_var sc x m = m\<lparr> sc_vars := (sc_vars m)(sc := (sc_vars m sc)(x := None)) \<rparr>"

text \<open>A name as it is written in the Stirfile, or the way to it from the directory of the rule.\<close>

definition near_name :: "string list \<Rightarrow> nat \<Rightarrow> nat \<Rightarrow> nat option \<Rightarrow> string trap" where
  "near_name strs dir i nodir =
     (case nodir of
        Some j \<Rightarrow> Inr (strs ! j)
      | None \<Rightarrow> bind_trap (lift_res (neighpath_buflen (strs ! dir) (strs ! i) (Some 1024))) (\<lambda>(p, len). Inr p))"

definition dep_names :: "string list \<Rightarrow> nat \<Rightarrow> stirdep list \<Rightarrow> mb list trap" where
  "dep_names strs dir ds =
     map_trap (\<lambda>d. bind_trap (near_name strs dir (nameidx d) (nameidxnodir d)) (\<lambda>s. Inr (MB_S s))) ds"

definition plus_deps :: "stirdep list \<Rightarrow> stirdep list" where
  "plus_deps ds = filter (\<lambda>d. \<not> is_orderonly d) ds"

definition bar_deps :: "stirdep list \<Rightarrow> stirdep list" where
  "bar_deps ds = filter (\<lambda>d. is_orderonly d \<and> \<not> is_dupe d) ds"

definition hat_deps :: "stirdep list \<Rightarrow> stirdep list" where
  "hat_deps ds = filter (\<lambda>d. \<not> is_orderonly d \<and> \<not> is_dupe d) ds"

definition set_at :: "string list \<Rightarrow> rule \<Rightarrow> string \<Rightarrow> 'w abce \<Rightarrow> 'w abce" where
  "set_at strs r tgt m =
     (let m = set_var (scopeidx r) ''@'' (MB_S tgt) m in
      case meatidx r of Some i \<Rightarrow> set_var (scopeidx r) ''*'' (MB_S (strs ! i)) m | None \<Rightarrow> m)"

definition set_plus :: "string list \<Rightarrow> rule \<Rightarrow> 'w abce \<Rightarrow> 'w abce trap" where
  "set_plus strs r m =
     bind_trap (dep_names strs (diridx r) (plus_deps (deplist r))) (\<lambda>names. Inr (set_var (scopeidx r) ''+'' (MB_A names) m))"

definition set_bar :: "string list \<Rightarrow> rule \<Rightarrow> 'w abce \<Rightarrow> 'w abce trap" where
  "set_bar strs r m =
     bind_trap (dep_names strs (diridx r) (bar_deps (deplist r))) (\<lambda>names. Inr (set_var (scopeidx r) ''|'' (MB_A names) m))"

definition set_hat :: "string list \<Rightarrow> rule \<Rightarrow> 'w abce \<Rightarrow> 'w abce trap" where
  "set_hat strs r m =
     bind_trap (dep_names strs (diridx r) (hat_deps (deplist r))) (\<lambda>names.
       let m = set_var (scopeidx r) ''^'' (MB_A names) m
       in Inr (set_var (scopeidx r) ''<'' (case names of [] \<Rightarrow> MB_N | v # _ \<Rightarrow> v) m))"

definition set_auto :: "string list \<Rightarrow> rule \<Rightarrow> string \<Rightarrow> 'w abce \<Rightarrow> 'w abce trap" where
  "set_auto strs r tgt m =
     bind_trap (set_plus strs r (set_at strs r tgt m)) (\<lambda>m. bind_trap (set_bar strs r m) (set_hat strs r))"

definition unset_auto :: "rule \<Rightarrow> 'w abce \<Rightarrow> 'w abce" where
  "unset_auto r m =
     (let sc = scopeidx r;
          m = del_var sc ''^'' (del_var sc ''|'' (del_var sc ''<'' (del_var sc ''+'' (del_var sc ''@'' m))))
      in case meatidx r of Some _ \<Rightarrow> del_var sc ''*'' m | None \<Rightarrow> m)"

section \<open>Commands\<close>

text \<open>A command begins with three words: whether failures are ignored, whether it is echoed, whether it is a \<open>make\<close>.\<close>

definition cmd_head :: "cmdsrcitem \<Rightarrow> string list" where
  "cmd_head it = [if cs_ignore it then ''I'' else ''NI'', if cs_noecho it then ''NE'' else ''E'',
     if cs_ismake it then ''M'' else ''NM'']"

definition argdup :: "cmdsrcitem \<Rightarrow> string list \<Rightarrow> string list" where
  "argdup it args = cmd_head it @ args"

text \<open>The array of arguments up to its first null pointer; an array without any room is a null pointer itself.\<close>

fun until_null :: "string option list \<Rightarrow> string list" where
  "until_null [] = []"
| "until_null (None # as) = []"
| "until_null (Some a # as) = a # until_null as"

definition words_of :: "cmdsrcitem \<Rightarrow> mb list \<Rightarrow> string list trap" where
  "words_of it vs = bind_trap (map_trap elem_str vs) (\<lambda>ss. Inr (cmd_head it @ map c_str ss))"

fun arr_elem :: "mb \<Rightarrow> mb list trap" where
  "arr_elem (MB_A xs) = Inr xs"
| "arr_elem v = Inl (Expect_Array v)"

definition item_code :: "cmdsrcitem \<Rightarrow> code trap" where
  "item_code it =
     (if cs_iscode it then (case cs_u it of Locidx i \<Rightarrow> Inr (Jump i) | _ \<Rightarrow> Inl (Crash Overread))
      else (case cs_u it of Funarg f a \<Rightarrow> Inr (Call f a) | _ \<Rightarrow> Inl (Crash Overread)))"

definition eval_code ::
    "'w engine \<Rightarrow> string list \<Rightarrow> rule \<Rightarrow> string \<Rightarrow> cmdsrcitem \<Rightarrow> 'w abce \<Rightarrow> (string list list \<times> 'w abce) trap" where
  "eval_code engine strs r tgt it m =
     bind_trap (set_auto strs r tgt m) (\<lambda>m.
     bind_trap (item_code it) (\<lambda>c.
       let oldscope = abce_scope m;
           (v, m) = engine c (m\<lparr> abce_scope := scopeidx r \<rparr>);
           m = m\<lparr> abce_scope := oldscope \<rparr> in
       bind_trap v (\<lambda>v. bind_trap (arr_elem v) (\<lambda>vs.
       bind_trap (if cs_merge it then map_trap (\<lambda>x. bind_trap (arr_elem x) (words_of it)) vs
                  else bind_trap (words_of it vs) (\<lambda>c. Inr [c])) (\<lambda>cs.
         Inr (cs, unset_auto r m))))))"

definition plain_item :: "cmdsrcitem \<Rightarrow> string list list trap" where
  "plain_item it =
     (case cs_u it of
        Args as \<Rightarrow> if cs_merge it \<or> cs_capacity it = 0 then Inl (Crash Overread) else Inr [argdup it (until_null as)]
      | Cmds css \<Rightarrow> if \<not> cs_merge it then Inl (Crash Overread) else Inr (map (argdup it) css)
      | _ \<Rightarrow> Inl (Crash Overread))"

fun eval_items ::
    "'w engine \<Rightarrow> string list \<Rightarrow> rule \<Rightarrow> string \<Rightarrow> cmdsrcitem list \<Rightarrow> 'w abce \<Rightarrow> (string list list \<times> 'w abce) trap" where
  "eval_items engine strs r tgt [] m = Inr ([], m)"
| "eval_items engine strs r tgt (it # its) m =
     bind_trap (if cs_iscode it \<or> cs_isfun it then eval_code engine strs r tgt it m
                else bind_trap (plain_item it) (\<lambda>cs. Inr (cs, m))) (\<lambda>(cs, m).
     bind_trap (eval_items engine strs r tgt its m) (\<lambda>(cs', m). Inr (cs @ cs', m)))"

text \<open>The items are those of the parsed rule; a rule without targets has no first one.\<close>

definition cmdsrc_eval ::
    "'w engine \<Rightarrow> string list \<Rightarrow> rule \<Rightarrow> cmdsrcitem list \<Rightarrow> 'w abce \<Rightarrow> (string list list \<times> 'w abce) trap" where
  "cmdsrc_eval engine strs r its m =
     (case tgtlist r of
        [] \<Rightarrow> Inl (Crash Overread)
      | t # _ \<Rightarrow> bind_trap (near_name strs (diridx r) (tgtidx t) (tgtidxnodir t)) (\<lambda>tgt.
          eval_items engine strs r tgt its m))"

text \<open>\<open>args\<close> is the stored result, evaluated once; every failure ends the program.\<close>

definition calc_cmd ::
    "'w engine \<Rightarrow> string list \<Rightarrow> rule \<Rightarrow> cmdsrcitem list \<Rightarrow> string list list option \<times> 'w abce
      \<Rightarrow> (string list list option \<times> 'w abce) res" where
  "calc_cmd engine strs r its am =
     (case am of
        (Some cs, m) \<Rightarrow> Inr (Some cs, m)
      | (None, m) \<Rightarrow> (case cmdsrc_eval engine strs r its m of
            Inl (Crash f) \<Rightarrow> Inl f
          | Inl _ \<Rightarrow> Inl (Exited ''evaluating shell commands failed'')
          | Inr (cs, m) \<Rightarrow> Inr (Some cs, m)))"

section \<open>Printing\<close>

text \<open>\<open>snprintf\<close> into what is left of a buffer: the text has to be shorter than the rest.\<close>

definition print_at :: "nat \<Rightarrow> string \<Rightarrow> string \<Rightarrow> string option" where
  "print_at tlen buf s = (if length s \<ge> tlen - length buf then None else Some (buf @ s))"

fun print_args :: "nat \<Rightarrow> string \<Rightarrow> string list \<Rightarrow> string option" where
  "print_args tlen buf [] = Some buf"
| "print_args tlen buf (a # as) =
     (case print_at tlen buf (CHR '' '' # a) of None \<Rightarrow> None | Some buf \<Rightarrow> print_args tlen buf as)"

definition print_cmd :: "string \<Rightarrow> string \<Rightarrow> string list \<Rightarrow> bool \<Rightarrow> string option res" where
  "print_cmd tgtname prefix args silent =
     (let tlen = 1 + length tgtname + 2 + length prefix + 2 + sum_list (map (\<lambda>a. length a + 1) args) + 1 + 1 in
      case Option.bind (print_at tlen [] (''['' @ prefix @ '', '' @ tgtname @ '']'')) (\<lambda>buf.
        Option.bind (print_args tlen buf args) (\<lambda>buf. print_at tlen buf [CHR 0x0A])) of
        None \<Rightarrow> Inl (Exited ''Unable to print command'')
      | Some buf \<Rightarrow> Inr (if silent then None else Some buf))"

text \<open>Without arguments nothing is written to the buffer, not even its end.\<close>

definition get_cmd_only :: "string list \<Rightarrow> string option res" where
  "get_cmd_only args =
     (let tlen = sum_list (map (\<lambda>a. length a + 1) args) + 1 in
      case args of
        [] \<Rightarrow> Inl Overread
      | a # as \<Rightarrow> Inr (Option.bind (print_at tlen [] a) (\<lambda>buf. print_args tlen buf as)))"

definition makecmds :: "string list" where
  "makecmds = [''make'', ''gmake'', ''/usr/bin/make'', ''/usr/bin/gmake'', ''/usr/local/bin/make'', ''/usr/local/bin/gmake'',
     ''/usr/pkg/bin/make'', ''/usr/pkg/bin/gmake'', ''/opt/bin/make'', ''/opt/bin/gmake'', ''/opt/gnu/bin/make'',
     ''/opt/gnu/bin/gmake'', ''/bin/make'', ''/bin/gmake'']"

definition is_makecmd :: "string \<Rightarrow> bool" where
  "is_makecmd c = (c \<in> set makecmds)"

section \<open>Duplicate dependencies\<close>

text \<open>A dependency is a duplicate exactly when one before it has its name; this is how \<open>ins_dep\<close> makes the list.\<close>

fun dup_ok :: "nat set \<Rightarrow> stirdep list \<Rightarrow> bool" where
  "dup_ok S [] = True"
| "dup_ok S (d # ds) = ((is_dupe d \<longleftrightarrow> nameidx d \<in> S) \<and> dup_ok (insert (nameidx d) S) ds)"

definition deplist_ok :: "rule \<Rightarrow> bool" where
  "deplist_ok r = (deps r = nameidx ` set (deplist r) \<and> dup_ok {} (deplist r))"

lemma dup_ok_snoc: "dup_ok S (ds @ [d]) \<longleftrightarrow> dup_ok S ds \<and> (is_dupe d \<longleftrightarrow> nameidx d \<in> S \<union> nameidx ` set ds)"
  by (induction ds arbitrary: S) auto

lemma deplist_ok_zero: "deplist_ok zero_rule"
  by (simp add: deplist_ok_def zero_rule_def)

lemma ins_dep_deplist_ok: "deplist_ok r \<Longrightarrow> deplist_ok (snd (ins_dep di nd a b c p i r))"
  by (auto simp: deplist_ok_def ins_dep_def Let_def dup_ok_snoc)

lemma auto_deps_gen:
  assumes "dup_ok S ds"
  shows "distinct (map nameidx (hat_deps ds)) \<and> distinct (map nameidx (bar_deps ds)) \<and>
    nameidx ` set (hat_deps ds) \<inter> nameidx ` set (bar_deps ds) = {} \<and>
    nameidx ` set (hat_deps ds) \<inter> S = {} \<and> nameidx ` set (bar_deps ds) \<inter> S = {} \<and>
    nameidx ` set (hat_deps ds) \<union> nameidx ` set (bar_deps ds) = nameidx ` set ds - S"
  using assms
proof (induction ds arbitrary: S)
  case Nil
  then show ?case by (simp add: hat_deps_def bar_deps_def)
next
  case (Cons d ds)
  have "dup_ok (insert (nameidx d) S) ds" using Cons.prems by simp
  note IH = Cons.IH[OF this]
  have hat: "hat_deps (d # ds) = (if \<not> is_orderonly d \<and> \<not> is_dupe d then d # hat_deps ds else hat_deps ds)"
    and bar: "bar_deps (d # ds) = (if is_orderonly d \<and> \<not> is_dupe d then d # bar_deps ds else bar_deps ds)"
    by (simp_all add: hat_deps_def bar_deps_def)
  show ?case
  proof (cases "is_dupe d")
    case True
    then have "nameidx d \<in> S" using Cons.prems by simp
    then show ?thesis using IH True unfolding hat bar by (auto simp: insert_absorb)
  next
    case False
    then have d: "nameidx d \<notin> S" using Cons.prems by simp
    have n: "nameidx d \<notin> nameidx ` set (hat_deps ds)" "nameidx d \<notin> nameidx ` set (bar_deps ds)"
      "nameidx ` set (hat_deps ds) \<inter> S = {}" "nameidx ` set (bar_deps ds) \<inter> S = {}"
      using IH by blast+
    have u: "insert (nameidx d) (nameidx ` set (hat_deps ds) \<union> nameidx ` set (bar_deps ds)) =
        insert (nameidx d) (nameidx ` set ds) - S"
      using IH d by blast
    show ?thesis using IH d n u False unfolding hat bar by (cases "is_orderonly d") simp_all
  qed
qed

text \<open>
  A name that is first order-only and then a normal dependency is in \<open>+\<close> and \<open>|\<close>, but neither in \<open>^\<close> nor \<open><\<close>.
\<close>

lemma orderonly_first:
  "is_orderonly d \<Longrightarrow> \<not> is_orderonly e \<Longrightarrow> nameidx e = nameidx d \<Longrightarrow> dup_ok {} [d, e] \<Longrightarrow>
    plus_deps [d, e] = [e] \<and> bar_deps [d, e] = [d] \<and> hat_deps [d, e] = []"
  by (simp add: plus_deps_def bar_deps_def hat_deps_def)

section \<open>Evaluation\<close>

definition rule_vars :: "string list \<Rightarrow> rule \<Rightarrow> string \<Rightarrow> mb list \<Rightarrow> mb list \<Rightarrow> mb list \<Rightarrow> string \<Rightarrow> mb option" where
  "rule_vars strs r tgt pl ba ha =
     (case meatidx r of Some i \<Rightarrow> [''@'' \<mapsto> MB_S tgt, ''*'' \<mapsto> MB_S (strs ! i)] | None \<Rightarrow> [''@'' \<mapsto> MB_S tgt])
     (''+'' \<mapsto> MB_A pl, ''|'' \<mapsto> MB_A ba, ''^'' \<mapsto> MB_A ha,
      ''<'' \<mapsto> (case ha of [] \<Rightarrow> MB_N | v # _ \<Rightarrow> v))"

text \<open>The variables of a scope without those of a rule.\<close>

definition without_auto :: "rule \<Rightarrow> (string \<Rightarrow> mb option) \<Rightarrow> string \<Rightarrow> mb option" where
  "without_auto r vs x =
     (if x \<in> {''@'', ''+'', ''|'', ''^'', ''<''} \<or> x = ''*'' \<and> meatidx r \<noteq> None then None else vs x)"

definition with_vars :: "nat \<Rightarrow> (string \<Rightarrow> mb option) \<Rightarrow> 'w abce \<Rightarrow> 'w abce" where
  "with_vars sc vs m = m\<lparr> sc_vars := (sc_vars m)(sc := vs) \<rparr>"

lemma with_vars_simps [simp]:
  "sc_vars (with_vars sc vs m) = (sc_vars m)(sc := vs)" "abce_scope (with_vars sc vs m) = abce_scope m"
  "with_vars sc vs (with_vars sc ws m) = with_vars sc vs m" "with_vars sc (sc_vars m sc) m = m"
  by (simp_all add: with_vars_def)

lemma set_var_with: "set_var sc x v m = with_vars sc ((sc_vars m sc)(x \<mapsto> v)) m"
  by (simp add: set_var_def with_vars_def)

lemma del_var_with: "del_var sc x m = with_vars sc ((sc_vars m sc)(x := None)) m"
  by (simp add: del_var_def with_vars_def)

lemma set_auto_eq:
  assumes "dep_names strs (diridx r) (plus_deps (deplist r)) = Inr pl"
    "dep_names strs (diridx r) (bar_deps (deplist r)) = Inr ba"
    "dep_names strs (diridx r) (hat_deps (deplist r)) = Inr ha"
  shows "set_auto strs r tgt m = Inr (with_vars (scopeidx r) (sc_vars m (scopeidx r) ++ rule_vars strs r tgt pl ba ha) m)"
  using assms by (cases "meatidx r") (simp_all add: set_auto_def set_at_def set_plus_def set_bar_def set_hat_def set_var_with rule_vars_def Let_def)

lemma unset_auto_eq: "unset_auto r m = with_vars (scopeidx r) (without_auto r (sc_vars m (scopeidx r))) m"
proof -
  have "without_auto r vs = (case meatidx r of Some _ \<Rightarrow> \<lambda>vs. vs(''*'' := None) | None \<Rightarrow> \<lambda>vs. vs)
      (vs(''@'' := None, ''+'' := None, ''<'' := None, ''|'' := None, ''^'' := None))" for vs
    by (rule ext) (simp add: without_auto_def split: option.split)
  then show ?thesis by (cases "meatidx r") (simp_all add: unset_auto_def del_var_with Let_def)
qed

text \<open>
  What an item gives when its code has the value \<open>ev c vs\<close> in variables \<open>vs\<close>.
\<close>

definition item_cmds :: "(code \<Rightarrow> (string \<Rightarrow> mb option) \<Rightarrow> mb trap) \<Rightarrow> (string \<Rightarrow> mb option) \<Rightarrow> cmdsrcitem \<Rightarrow> string list list trap" where
  "item_cmds ev vs it =
     (if cs_iscode it \<or> cs_isfun it then
        bind_trap (item_code it) (\<lambda>c. bind_trap (ev c vs) (\<lambda>v. bind_trap (arr_elem v) (\<lambda>xs.
          if cs_merge it then map_trap (\<lambda>x. bind_trap (arr_elem x) (words_of it)) xs
          else bind_trap (words_of it xs) (\<lambda>c. Inr [c]))))
      else plain_item it)"

definition has_code :: "cmdsrcitem list \<Rightarrow> bool" where
  "has_code its = (\<exists>it \<in> set its. cs_iscode it \<or> cs_isfun it)"

lemma without_auto_add:
  "without_auto r (vs ++ rule_vars strs r tgt pl ba ha) = without_auto r vs"
  "without_auto r vs ++ rule_vars strs r tgt pl ba ha = vs ++ rule_vars strs r tgt pl ba ha"
  "without_auto r (without_auto r vs) = without_auto r vs"
  by (intro ext; cases "meatidx r"; simp add: without_auto_def rule_vars_def map_add_def)+

lemma eval_items_exact:
  assumes eng: "\<And>c m. engine c m = (ev c (sc_vars m (abce_scope m)), m)"
    and names: "dep_names strs (diridx r) (plus_deps (deplist r)) = Inr pl"
    "dep_names strs (diridx r) (bar_deps (deplist r)) = Inr ba"
    "dep_names strs (diridx r) (hat_deps (deplist r)) = Inr ha"
  shows "eval_items engine strs r tgt its m =
    bind_trap (map_trap (item_cmds ev (sc_vars m (scopeidx r) ++ rule_vars strs r tgt pl ba ha)) its) (\<lambda>css.
      Inr (concat css, if has_code its then with_vars (scopeidx r) (without_auto r (sc_vars m (scopeidx r))) m else m))"
proof (induction its arbitrary: m)
  case Nil
  then show ?case by (simp add: has_code_def)
next
  case (Cons it its)
  let ?sc = "scopeidx r" and ?rv = "rule_vars strs r tgt pl ba ha"
  show ?case
  proof (cases "cs_iscode it \<or> cs_isfun it")
    case False
    then show ?thesis using Cons
      by (cases "plain_item it") (auto simp: item_cmds_def bind_trap_def has_code_def split: sum.split)
  next
    case True
    let ?m = "with_vars ?sc (without_auto r (sc_vars m ?sc)) m"
    have one: "eval_code engine strs r tgt it m =
        bind_trap (item_cmds ev (sc_vars m ?sc ++ ?rv) it) (\<lambda>cs. Inr (cs, ?m))"
      using True by (auto simp: eval_code_def item_cmds_def set_auto_eq[OF names] eng unset_auto_eq without_auto_add
          bind_trap_def with_vars_def Let_def split: sum.split)
    show ?thesis using True Cons[of ?m]
      by (cases "item_cmds ev (sc_vars m ?sc ++ ?rv) it";
          cases "map_trap (item_cmds ev (sc_vars m ?sc ++ ?rv)) its")
        (auto simp: one without_auto_add has_code_def)
  qed
qed

text \<open>
  The variables divide the dependencies by name: \<open>^\<close> and \<open>|\<close> have every name once, none in both, and all together.
\<close>

theorem auto_deps_names:
  assumes "deplist_ok r"
  shows "distinct (map nameidx (hat_deps (deplist r))) \<and> distinct (map nameidx (bar_deps (deplist r))) \<and>
    nameidx ` set (hat_deps (deplist r)) \<inter> nameidx ` set (bar_deps (deplist r)) = {} \<and>
    nameidx ` set (hat_deps (deplist r)) \<union> nameidx ` set (bar_deps (deplist r)) = deps r"
  using auto_deps_gen[of "{}" "deplist r"] assms by (simp add: deplist_ok_def)

text \<open>
  C28: The commands of a rule, when code has no effects: each item of the recipe gives its commands, in order; code sees in
  the scope of the rule the first target in \<open>@\<close>, the stem in \<open>*\<close>, the normal dependencies in \<open>+\<close> and without repetition
  in \<open>^\<close>, the first of these in \<open><\<close>, the order-only ones in \<open>|\<close>, and otherwise what the scope had; afterwards these
  variables are gone and nothing else has changed.
\<close>

theorem cmdsrc_eval_exact:
  assumes "\<And>c m. engine c m = (ev c (sc_vars m (abce_scope m)), m)"
    and "tgtlist r = t # ts" "near_name strs (diridx r) (tgtidx t) (tgtidxnodir t) = Inr tgt"
    and "dep_names strs (diridx r) (plus_deps (deplist r)) = Inr pl"
    "dep_names strs (diridx r) (bar_deps (deplist r)) = Inr ba"
    "dep_names strs (diridx r) (hat_deps (deplist r)) = Inr ha"
  shows "cmdsrc_eval engine strs r its m =
    bind_trap (map_trap (item_cmds ev (sc_vars m (scopeidx r) ++ rule_vars strs r tgt pl ba ha)) its) (\<lambda>css.
      Inr (concat css, if has_code its then with_vars (scopeidx r) (without_auto r (sc_vars m (scopeidx r))) m else m))"
  using eval_items_exact[of engine ev, OF assms(1,4-6), of tgt its m] assms(2,3) by (simp add: cmdsrc_eval_def)

lemma without_auto_none [simp]: "without_auto r (\<lambda>_. None) = (\<lambda>_. None)"
  by (rule ext) (simp add: without_auto_def)

definition ex_engine :: "unit engine" where
  "ex_engine c m =
     (Inr (MB_A [MB_S ''cc'', the (sc_vars m (abce_scope m) ''<''), MB_S ''-o'', the (sc_vars m (abce_scope m) ''@'')]), m)"

definition ex_cmd_rule :: rule where
  "ex_cmd_rule = snd (ins_dep 2 (Some 2) False False False True False
     (zero_rule\<lparr> scopeidx := 3, meatidx := None, tgtlist := [\<lparr> tgtidx = 1, tgtidxnodir = Some 1, tgt_is_dist = False \<rparr>] \<rparr>))"

theorem cmdsrc_eval_exact_witness:
  "cmdsrc_eval ex_engine [''.'', ''x.o'', ''x.c''] ex_cmd_rule
     [\<lparr> cs_merge = False, cs_iscode = True, cs_isfun = False, cs_ignore = False, cs_noecho = True, cs_ismake = False,
        cs_capacity = 0, cs_u = Locidx 7 \<rparr>] \<lparr> sc_vars = (\<lambda>_ _. None), abce_scope = 0, abce_world = () \<rparr> =
   Inr ([[''NI'', ''NE'', ''NM'', ''cc'', ''x.c'', ''-o'', ''x.o'']],
     \<lparr> sc_vars = (\<lambda>_ _. None), abce_scope = 0, abce_world = () \<rparr>)"
proof -
  let ?ev = "\<lambda>c vs. Inr (MB_A [MB_S ''cc'', the (vs ''<''), MB_S ''-o'', the (vs ''@'')])"
  have "ex_engine c m = (?ev c (sc_vars m (abce_scope m)), m)" for c m by (simp add: ex_engine_def)
  moreover have "tgtlist ex_cmd_rule = [\<lparr> tgtidx = 1, tgtidxnodir = Some 1, tgt_is_dist = False \<rparr>]"
    by (simp add: ex_cmd_rule_def ins_dep_def)
  ultimately show ?thesis
    by (subst cmdsrc_eval_exact[of ex_engine ?ev _ _ _ _ "''x.o''" "[MB_S ''x.c'']" "[]" "[MB_S ''x.c'']"])
      (auto simp: near_name_def dep_names_def ex_cmd_rule_def ins_dep_def zero_rule_def plus_deps_def bar_deps_def
        hat_deps_def item_cmds_def item_code_def words_of_def cmd_head_def c_str_def rule_vars_def has_code_def
        with_vars_def fun_upd_idem Let_def)
qed

section \<open>The printed command\<close>

lemma print_args_fits:
  "length buf + sum_list (map (\<lambda>a. length a + 1) as) < tlen \<Longrightarrow>
    print_args tlen buf as = Some (buf @ concat (map (\<lambda>a. CHR '' '' # a) as))"
  by (induction as arbitrary: buf) (auto simp: print_at_def)

lemma print_cmd_eq:
  "print_cmd tgtname prefix args silent =
     Inr (if silent then None
          else Some (''['' @ prefix @ '', '' @ tgtname @ '']'' @ concat (map (\<lambda>a. CHR '' '' # a) args) @ [CHR 0x0A]))"
  by (auto simp: print_cmd_def Let_def print_at_def print_args_fits length_concat comp_def)

text \<open>
  The buffer for a printed command is always large enough: no command is refused, and what is printed is the
  directory, the target and the words, each after a space; the text of a command for messages is its words with a
  space between.
\<close>

theorem print_cmd_text:
  "print_cmd tgtname prefix args silent =
     Inr (if silent then None
          else Some (''['' @ prefix @ '', '' @ tgtname @ '']'' @ concat (map (\<lambda>a. CHR '' '' # a) args) @ [CHR 0x0A])) \<and>
   get_cmd_only (a # args) = Inr (Some (a @ concat (map (\<lambda>a. CHR '' '' # a) args)))"
  by (simp add: print_cmd_eq get_cmd_only_def print_at_def print_args_fits)

end
