(* ===== verification/Linked_List.thy ===== *)
theory Linked_List
  imports Stir_Prelude
begin

text \<open>
  The intrusive lists of \<open>linkedlist.h\<close>: circular doubly linked lists through the nodes of what they hold, with a head
  node of their own.  A node is known by its address \<open>'n\<close>; the links of all nodes are one store, and reading through a
  null pointer fails (\<open>Overread\<close>).

  The operations are those of the header, in the order of their assignments.  A loop over a list takes fuel, since
  wrongly linked lists have no end; one more than the number of the nodes is enough for a list.
\<close>

section \<open>The operations\<close>

record 'n links =
  node_next :: "'n \<Rightarrow> 'n option"
  node_prev :: "'n \<Rightarrow> 'n option"

definition set_next :: "'n \<Rightarrow> 'n option \<Rightarrow> 'n links \<Rightarrow> 'n links" where
  "set_next a b s = s\<lparr> node_next := (node_next s)(a := b) \<rparr>"

definition set_prev :: "'n \<Rightarrow> 'n option \<Rightarrow> 'n links \<Rightarrow> 'n links" where
  "set_prev a b s = s\<lparr> node_prev := (node_prev s)(a := b) \<rparr>"

definition deref :: "'n option \<Rightarrow> 'n res" where
  "deref p = (case p of None \<Rightarrow> Inl Overread | Some a \<Rightarrow> Inr a)"

definition linked_list_node_init :: "'n \<Rightarrow> 'n links \<Rightarrow> 'n links" where
  "linked_list_node_init node s = set_next node None (set_prev node None s)"

definition linked_list_head_init :: "'n \<Rightarrow> 'n links \<Rightarrow> 'n links" where
  "linked_list_head_init head s = set_next head (Some head) (set_prev head (Some head) s)"

definition linked_list_add_tail :: "'n \<Rightarrow> 'n \<Rightarrow> 'n links \<Rightarrow> 'n links res" where
  "linked_list_add_tail node head s =
     (let s = set_next node (Some head) s;
          s = set_prev node (node_prev s head) s in
      bind_res (deref (node_prev s head)) (\<lambda>p.
        let s = set_next p (Some node) s in Inr (set_prev head (Some node) s)))"

definition linked_list_add_head :: "'n \<Rightarrow> 'n \<Rightarrow> 'n links \<Rightarrow> 'n links res" where
  "linked_list_add_head node head s =
     (let s = set_prev node (Some head) s;
          s = set_next node (node_next s head) s in
      bind_res (deref (node_next s head)) (\<lambda>q.
        let s = set_prev q (Some node) s in Inr (set_next head (Some node) s)))"

definition linked_list_add_before :: "'n \<Rightarrow> 'n \<Rightarrow> 'n links \<Rightarrow> 'n links res" where
  "linked_list_add_before newnode oldnode s =
     (let s = set_prev newnode (node_prev s oldnode) s;
          s = set_next newnode (Some oldnode) s in
      bind_res (deref (node_prev s oldnode)) (\<lambda>p.
        let s = set_next p (Some newnode) s in Inr (set_prev oldnode (Some newnode) s)))"

definition linked_list_add_after :: "'n \<Rightarrow> 'n \<Rightarrow> 'n links \<Rightarrow> 'n links res" where
  "linked_list_add_after newnode oldnode s =
     (let s = set_prev newnode (Some oldnode) s;
          s = set_next newnode (node_next s oldnode) s in
      bind_res (deref (node_next s oldnode)) (\<lambda>q.
        let s = set_prev q (Some newnode) s in Inr (set_next oldnode (Some newnode) s)))"

definition linked_list_is_empty :: "'n \<Rightarrow> 'n links \<Rightarrow> bool" where
  "linked_list_is_empty head s = (node_next s head = Some head)"

definition linked_list_delete :: "'n \<Rightarrow> 'n links \<Rightarrow> 'n links res" where
  "linked_list_delete node s =
     bind_res (deref (node_prev s node)) (\<lambda>p.
     let s = set_next p (node_next s node) s in
     bind_res (deref (node_next s node)) (\<lambda>q.
     let s = set_prev q (node_prev s node) s;
         s = set_prev node None s
     in Inr (set_next node None s)))"

text \<open>The nodes that \<open>LINKED_LIST_FOR_EACH\<close> and \<open>LINKED_LIST_FOR_EACH_REVERSE\<close> go through when nothing changes.\<close>

fun walk :: "nat \<Rightarrow> ('n \<Rightarrow> 'n option) \<Rightarrow> 'n \<Rightarrow> 'n option \<Rightarrow> 'n list res" where
  "walk 0 step head iter = Inl NoFuel"
| "walk (Suc k) step head iter =
     (if iter = Some head then Inr []
      else bind_res (deref iter) (\<lambda>a. bind_res (walk k step head (step a)) (\<lambda>as. Inr (a # as))))"

definition LINKED_LIST_FOR_EACH :: "nat \<Rightarrow> 'n \<Rightarrow> 'n links \<Rightarrow> 'n list res" where
  "LINKED_LIST_FOR_EACH k head s = walk k (node_next s) head (node_next s head)"

definition LINKED_LIST_FOR_EACH_REVERSE :: "nat \<Rightarrow> 'n \<Rightarrow> 'n links \<Rightarrow> 'n list res" where
  "LINKED_LIST_FOR_EACH_REVERSE k head s = walk k (node_prev s) head (node_prev s head)"

text \<open>The loops whose body may delete the node: the next one is read before the body runs.\<close>

fun each_safe :: "nat \<Rightarrow> 'n \<Rightarrow> ('n \<Rightarrow> 'n links \<Rightarrow> 'n links res) \<Rightarrow> 'n option \<Rightarrow> 'n option \<Rightarrow> 'n links \<Rightarrow> 'n links res" where
  "each_safe 0 head body iter tmp s = Inl NoFuel"
| "each_safe (Suc k) head body iter tmp s =
     (if iter = Some head then Inr s
      else bind_res (deref iter) (\<lambda>a. bind_res (body a s) (\<lambda>s.
           bind_res (deref tmp) (\<lambda>b. each_safe k head body tmp (node_next s b) s))))"

definition LINKED_LIST_FOR_EACH_SAFE ::
    "nat \<Rightarrow> 'n \<Rightarrow> ('n \<Rightarrow> 'n links \<Rightarrow> 'n links res) \<Rightarrow> 'n links \<Rightarrow> 'n links res" where
  "LINKED_LIST_FOR_EACH_SAFE k head body s =
     bind_res (deref (node_next s head)) (\<lambda>a. each_safe k head body (Some a) (node_next s a) s)"

definition linked_list_size :: "nat \<Rightarrow> 'n \<Rightarrow> 'n links \<Rightarrow> nat res" where
  "linked_list_size k head s = bind_res (LINKED_LIST_FOR_EACH k head s) (\<lambda>as. Inr (length as))"

section \<open>Lists in the store\<close>

definition pair_ok :: "'n links \<Rightarrow> 'n \<Rightarrow> 'n \<Rightarrow> bool" where
  "pair_ok s a b = (node_next s a = Some b \<and> node_prev s b = Some a)"

fun linked :: "'n links \<Rightarrow> 'n list \<Rightarrow> bool" where
  "linked s (a # b # as) = (pair_ok s a b \<and> linked s (b # as))"
| "linked s _ = True"

text \<open>The list with the given head holds these nodes.\<close>

definition dll :: "'n links \<Rightarrow> 'n \<Rightarrow> 'n list \<Rightarrow> bool" where
  "dll s h xs = (distinct (h # xs) \<and> linked s (h # xs @ [h]))"

lemma linked_append:
  "as \<noteq> [] \<Longrightarrow> bs \<noteq> [] \<Longrightarrow> linked s (as @ bs) = (linked s as \<and> pair_ok s (last as) (hd bs) \<and> linked s bs)"
  by (induction s as rule: linked.induct) (auto simp: neq_Nil_conv)

lemma linked_cong:
  "(\<And>x. x \<in> set (butlast as) \<Longrightarrow> node_next s' x = node_next s x) \<Longrightarrow>
    (\<And>y. y \<in> set (tl as) \<Longrightarrow> node_prev s' y = node_prev s y) \<Longrightarrow> linked s' as = linked s as"
  by (induction s as rule: linked.induct) (auto simp: pair_ok_def)

lemma dll_cong:
  "(\<And>x. x \<in> set (h # xs) \<Longrightarrow> node_next s' x = node_next s x \<and> node_prev s' x = node_prev s x) \<Longrightarrow>
    dll s' h xs = dll s h xs"
  unfolding dll_def by (subst linked_cong[of _ s' s]) (auto dest: in_set_butlastD)

text \<open>A list with a place in it: the node before and the node after.\<close>

lemma dll_split:
  "dll s h (as @ bs) =
    (distinct (h # as @ bs) \<and> linked s (h # as) \<and> pair_ok s (last (h # as)) (hd (bs @ [h])) \<and> linked s (bs @ [h]))"
  using linked_append[of "h # as" "bs @ [h]" s] by (simp add: dll_def)

definition link_between :: "'n \<Rightarrow> 'n \<Rightarrow> 'n \<Rightarrow> 'n links \<Rightarrow> 'n links" where
  "link_between a n b s =
     \<lparr> node_next = (node_next s)(n := Some b, a := Some n), node_prev = (node_prev s)(n := Some a, b := Some n) \<rparr>"

definition unlink :: "'n \<Rightarrow> 'n \<Rightarrow> 'n \<Rightarrow> 'n links \<Rightarrow> 'n links" where
  "unlink a n b s =
     \<lparr> node_next = (node_next s)(a := Some b, n := None), node_prev = (node_prev s)(b := Some a, n := None) \<rparr>"

lemma last_fresh: "distinct (h # as) \<Longrightarrow> last (h # as) \<notin> set (butlast (h # as))"
  by (metis append_butlast_last_id distinct.simps(2) distinct_append not_distinct_conv_prefix list.distinct(1))

lemma hd_fresh: "distinct (bs @ [h]) \<Longrightarrow> hd (bs @ [h]) \<notin> set (tl (bs @ [h]))"
  by (cases bs) auto

lemma dll_link:
  assumes "dll s h (as @ bs)" "n \<notin> set (h # as @ bs)"
  shows "dll (link_between (last (h # as)) n (hd (bs @ [h])) s) h (as @ n # bs)"
proof -
  let ?as = "h # as" and ?bs = "bs @ [h]"
  let ?s = "link_between (last ?as) n (hd ?bs) s"
  have d: "distinct ?as" "distinct ?bs" "set bs \<inter> set ?as = {}" "set as \<inter> set ?bs = {}"
    using assms(1) by (auto simp: dll_def)
  have a: "last ?as \<in> set ?as" "last ?as \<notin> set (butlast ?as)" and b: "hd ?bs \<in> set ?bs" "hd ?bs \<notin> set (tl ?bs)"
    using last_fresh[OF d(1)] hd_fresh[OF d(2)] by (simp_all only: last_in_set hd_in_set list.distinct append_is_Nil_conv simp_thms)
  have "linked ?s ?as = linked s ?as"
    using assms(2) d a b
    by (intro linked_cong) (auto simp: link_between_def dest: in_set_butlastD simp del: butlast.simps last.simps)
  moreover have "linked ?s ?bs = linked s ?bs"
    using assms(2) d a b
    by (intro linked_cong) (auto simp: link_between_def dest: list.set_sel(2)[rotated] simp del: last.simps)
  moreover have "pair_ok ?s (last ?as) n" "pair_ok ?s n (hd ?bs)"
    using assms(2) a b by (auto simp: pair_ok_def link_between_def simp del: last.simps)
  ultimately show ?thesis
    using assms by (simp add: dll_split[of _ _ as "n # bs"] dll_split[of _ _ as bs] del: last.simps) (cases bs; auto)
qed

lemma dll_unlink:
  assumes "dll s h (as @ n # bs)"
  shows "dll (unlink (last (h # as)) n (hd (bs @ [h])) s) h (as @ bs)"
proof -
  let ?as = "h # as" and ?bs = "bs @ [h]"
  let ?s = "unlink (last ?as) n (hd ?bs) s"
  have d: "distinct ?as" "distinct ?bs" "set bs \<inter> set ?as = {}" "set as \<inter> set ?bs = {}" and n: "n \<notin> set (h # as @ bs)"
    using assms by (auto simp: dll_def)
  have a: "last ?as \<in> set ?as" "last ?as \<notin> set (butlast ?as)" and b: "hd ?bs \<in> set ?bs" "hd ?bs \<notin> set (tl ?bs)"
    using last_fresh[OF d(1)] hd_fresh[OF d(2)] by (simp_all only: last_in_set hd_in_set list.distinct append_is_Nil_conv simp_thms)
  have "linked s ?as" "linked s ?bs"
    using assms linked_append[of "[n]" ?bs s] by (auto simp: dll_split[of _ _ as "n # bs"] simp del: last.simps)
  moreover have "linked ?s ?as = linked s ?as"
    using n d a b
    by (intro linked_cong) (auto simp: unlink_def dest: in_set_butlastD simp del: butlast.simps last.simps)
  moreover have "linked ?s ?bs = linked s ?bs"
    using n d a b
    by (intro linked_cong) (auto simp: unlink_def dest: list.set_sel(2)[rotated] simp del: last.simps)
  moreover have "pair_ok ?s (last ?as) (hd ?bs)"
    using n a b by (auto simp: pair_ok_def unlink_def simp del: last.simps)
  moreover have "distinct (h # as @ bs)" using assms by (auto simp: dll_def)
  ultimately show ?thesis by (simp add: dll_split del: last.simps)
qed

lemma dll_ends:
  assumes "dll s h (as @ bs)"
  shows "node_next s (last (h # as)) = Some (hd (bs @ [h]))" "node_prev s (hd (bs @ [h])) = Some (last (h # as))"
  using assms by (simp_all add: dll_split pair_ok_def del: last.simps)

lemma last_mem: "last (h # as) \<in> set (h # as)" and hd_mem: "hd (bs @ [h]) \<in> set (bs @ [h])"
  by (simp_all only: last_in_set hd_in_set list.distinct append_is_Nil_conv simp_thms)

section \<open>The operations on a list\<close>

lemma add_tail_dll:
  "dll s h xs \<Longrightarrow> n \<notin> set (h # xs) \<Longrightarrow>
    linked_list_add_tail n h s = Inr (link_between (last (h # xs)) n (hd ([] @ [h])) s)"
  using dll_ends[of s h xs "[]"] last_mem[of h xs]
  by (auto simp: linked_list_add_tail_def set_next_def set_prev_def deref_def link_between_def Let_def simp del: last.simps)

lemma add_head_dll:
  "dll s h xs \<Longrightarrow> n \<notin> set (h # xs) \<Longrightarrow>
    linked_list_add_head n h s = Inr (link_between (last (h # [])) n (hd (xs @ [h])) s)"
  using dll_ends[of s h "[]" xs] hd_mem[of xs h]
  by (auto simp: linked_list_add_head_def set_next_def set_prev_def deref_def link_between_def Let_def)

lemma add_before_dll:
  "dll s h (as @ m # bs) \<Longrightarrow> n \<notin> set (h # as @ m # bs) \<Longrightarrow>
    linked_list_add_before n m s = Inr (link_between (last (h # as)) n (hd ((m # bs) @ [h])) s)"
  using dll_ends[of s h as "m # bs"] last_mem[of h as]
  by (auto simp: linked_list_add_before_def set_next_def set_prev_def deref_def link_between_def Let_def simp del: last.simps)

lemma add_after_dll:
  "dll s h ((as @ [m]) @ bs) \<Longrightarrow> n \<notin> set (h # as @ m # bs) \<Longrightarrow>
    linked_list_add_after n m s = Inr (link_between (last (h # as @ [m])) n (hd (bs @ [h])) s)"
  using dll_ends[of s h "as @ [m]" bs] hd_mem[of bs h]
  by (auto simp: linked_list_add_after_def set_next_def set_prev_def deref_def link_between_def Let_def)

lemma delete_dll:
  assumes "dll s h (as @ n # bs)"
  shows "linked_list_delete n s = Inr (unlink (last (h # as)) n (hd (bs @ [h])) s)"
proof -
  have "n \<noteq> last (h # as)" "n \<noteq> hd (bs @ [h])"
    using assms last_mem[of h as] hd_mem[of bs h] by (auto simp: dll_def simp del: last.simps)
  moreover have "node_next s n = Some (hd (bs @ [h]))" using dll_ends(1)[of s h "as @ [n]" bs] assms by simp
  ultimately show ?thesis
    using dll_ends[OF assms]
    by (auto simp: linked_list_delete_def set_next_def set_prev_def deref_def unlink_def Let_def simp del: last.simps)
qed

lemma dll_head_init: "dll (linked_list_head_init h s) h []"
  by (simp add: dll_def linked_list_head_init_def set_next_def set_prev_def pair_ok_def)

lemma is_empty_dll: "dll s h xs \<Longrightarrow> linked_list_is_empty h s = (xs = [])"
  by (cases xs) (auto simp: linked_list_is_empty_def dll_def pair_ok_def)

lemma walk_next:
  "linked s (x # ys @ [h]) \<Longrightarrow> h \<notin> set ys \<Longrightarrow> length ys < k \<Longrightarrow> walk k (node_next s) h (node_next s x) = Inr ys"
proof (induction ys arbitrary: x k)
  case Nil
  then show ?case by (cases k) (auto simp: pair_ok_def)
next
  case (Cons y ys)
  then obtain k' where "k = Suc k'" by (cases k) auto
  then show ?case using Cons by (auto simp: pair_ok_def deref_def)
qed

lemma walk_prev:
  "linked s ((h # ys) @ [x]) \<Longrightarrow> h \<notin> set ys \<Longrightarrow> length ys < k \<Longrightarrow> walk k (node_prev s) h (node_prev s x) = Inr (rev ys)"
proof (induction ys arbitrary: x k rule: rev_induct)
  case Nil
  then show ?case by (cases k) (auto simp: pair_ok_def)
next
  case (snoc y ys)
  then obtain k' where k: "k = Suc k'" by (cases k) auto
  have "linked s ((h # ys) @ [y])" "pair_ok s y x"
    using snoc.prems(1) linked_append[of "(h # ys) @ [y]" "[x]" s] by auto
  then show ?case using snoc k by (auto simp: pair_ok_def deref_def)
qed

lemma for_each_dll:
  assumes "dll s h xs" "length xs < k"
  shows "LINKED_LIST_FOR_EACH k h s = Inr xs" "LINKED_LIST_FOR_EACH_REVERSE k h s = Inr (rev xs)"
    "linked_list_size k h s = Inr (length xs)"
proof -
  show each: "LINKED_LIST_FOR_EACH k h s = Inr xs"
    unfolding LINKED_LIST_FOR_EACH_def using assms by (intro walk_next) (simp_all add: dll_def)
  show "LINKED_LIST_FOR_EACH_REVERSE k h s = Inr (rev xs)"
    unfolding LINKED_LIST_FOR_EACH_REVERSE_def using assms by (intro walk_prev) (simp_all add: dll_def)
  show "linked_list_size k h s = Inr (length xs)" by (simp add: linked_list_size_def each)
qed

section \<open>Any number of lists\<close>

text \<open>
  What the operations do to lists: each list has its head, and a node is in one place at most.
\<close>

datatype 'n list_op =
  Init_Head 'n | Add_Tail 'n 'n | Add_Head 'n 'n | Add_Before 'n 'n | Add_After 'n 'n | Delete 'n

fun link_step :: "'n list_op \<Rightarrow> 'n links \<Rightarrow> 'n links res" where
  "link_step (Init_Head h) s = Inr (linked_list_head_init h s)"
| "link_step (Add_Tail n h) s = linked_list_add_tail n h s"
| "link_step (Add_Head n h) s = linked_list_add_head n h s"
| "link_step (Add_Before n m) s = linked_list_add_before n m s"
| "link_step (Add_After n m) s = linked_list_add_after n m s"
| "link_step (Delete n) s = linked_list_delete n s"

fun link_steps :: "'n list_op list \<Rightarrow> 'n links \<Rightarrow> 'n links res" where
  "link_steps [] s = Inr s"
| "link_steps (op # ops) s = bind_res (link_step op s) (link_steps ops)"

definition nodes :: "('n \<times> 'n list) list \<Rightarrow> 'n list" where
  "nodes L = concat (map (\<lambda>(h, xs). h # xs) L)"

definition change :: "'n \<Rightarrow> ('n list \<Rightarrow> 'n list) \<Rightarrow> ('n \<times> 'n list) list \<Rightarrow> ('n \<times> 'n list) list" where
  "change h f L = map (\<lambda>(k, xs). if k = h then (k, f xs) else (k, xs)) L"

definition head_of :: "'n \<Rightarrow> ('n \<times> 'n list) list \<Rightarrow> 'n option" where
  "head_of m L = map_option fst (List.find (\<lambda>(h, xs). m \<in> set xs) L)"

fun list_step :: "'n list_op \<Rightarrow> ('n \<times> 'n list) list \<Rightarrow> ('n \<times> 'n list) list option" where
  "list_step (Init_Head h) L = (if h \<in> set (nodes L) then None else Some (L @ [(h, [])]))"
| "list_step (Add_Tail n h) L =
     (if n \<in> set (nodes L) \<or> h \<notin> fst ` set L then None else Some (change h (\<lambda>xs. xs @ [n]) L))"
| "list_step (Add_Head n h) L =
     (if n \<in> set (nodes L) \<or> h \<notin> fst ` set L then None else Some (change h (\<lambda>xs. n # xs) L))"
| "list_step (Add_Before n m) L =
     (if n \<in> set (nodes L) then None
      else case head_of m L of None \<Rightarrow> None
      | Some h \<Rightarrow> Some (change h (\<lambda>xs. takeWhile (\<lambda>x. x \<noteq> m) xs @ n # dropWhile (\<lambda>x. x \<noteq> m) xs) L))"
| "list_step (Add_After n m) L =
     (if n \<in> set (nodes L) then None
      else case head_of m L of None \<Rightarrow> None
      | Some h \<Rightarrow> Some (change h (\<lambda>xs. takeWhile (\<lambda>x. x \<noteq> m) xs @ m # n # tl (dropWhile (\<lambda>x. x \<noteq> m) xs)) L))"
| "list_step (Delete n) L =
     (case head_of n L of None \<Rightarrow> None | Some h \<Rightarrow> Some (change h (remove1 n) L))"

fun list_steps :: "'n list_op list \<Rightarrow> ('n \<times> 'n list) list \<Rightarrow> ('n \<times> 'n list) list option" where
  "list_steps [] L = Some L"
| "list_steps (op # ops) L = Option.bind (list_step op L) (list_steps ops)"

definition lists_in :: "'n links \<Rightarrow> ('n \<times> 'n list) list \<Rightarrow> bool" where
  "lists_in s L = (distinct (nodes L) \<and> (\<forall>(h, xs) \<in> set L. dll s h xs))"

lemma nodes_simps [simp]:
  "nodes [] = []" "nodes ((h, xs) # L) = (h # xs) @ nodes L" "nodes (L @ M) = nodes L @ nodes M"
  by (simp_all add: nodes_def)

lemma head_in_nodes: "(h, xs) \<in> set L \<Longrightarrow> set (h # xs) \<subseteq> set (nodes L)"
  by (auto simp: nodes_def)

lemma change_split:
  assumes "distinct (nodes (L1 @ (h, xs) # L2))"
  shows "change h f (L1 @ (h, xs) # L2) = L1 @ (h, f xs) # L2"
proof -
  have "change h f L = L" if "h \<notin> set (nodes L)" for L
    using that by (induction L) (auto simp: change_def)
  moreover have "h \<notin> set (nodes L1)" "h \<notin> set (nodes L2)" using assms by auto
  ultimately show ?thesis by (simp add: change_def)
qed

lemma head_of_Some:
  assumes "head_of m L = Some h"
  obtains L1 as bs L2 where "L = L1 @ (h, as @ m # bs) # L2"
proof -
  obtain xs where "(h, xs) \<in> set L" "m \<in> set xs"
    using assms by (auto simp: head_of_def find_Some_iff) (metis nth_mem)
  then show ?thesis using that by (metis split_list)
qed

text \<open>Changing the links of some nodes of one list leaves the others.\<close>

lemma lists_in_change:
  assumes "lists_in s (L1 @ (h, xs) # L2)" "dll s' h ys" "set ys \<subseteq> insert n (set xs)" "n \<notin> set (nodes (L1 @ L2))"
    and "\<And>x. x \<notin> set (h # n # xs) \<Longrightarrow> node_next s' x = node_next s x \<and> node_prev s' x = node_prev s x"
  shows "lists_in s' (L1 @ (h, ys) # L2)"
proof -
  have "dll s' k zs" if "(k, zs) \<in> set (L1 @ L2)" for k zs
  proof -
    have "set (k # zs) \<inter> set (h # n # xs) = {}"
      using head_in_nodes[OF that] assms(1,4) by (auto simp: lists_in_def)
    then show ?thesis
      using that assms(1) by (subst dll_cong[of k zs s' s]) (auto simp: lists_in_def intro!: assms(5))
  qed
  moreover have "distinct (nodes (L1 @ (h, ys) # L2))"
    using assms(1-4) by (auto simp: lists_in_def dll_def)
  ultimately show ?thesis using assms(2) by (auto simp: lists_in_def)
qed

lemma link_change:
  assumes "lists_in s (L1 @ (h, as @ bs) # L2)" "n \<notin> set (nodes (L1 @ (h, as @ bs) # L2))"
  shows "lists_in (link_between (last (h # as)) n (hd (bs @ [h])) s) (L1 @ (h, as @ n # bs) # L2)"
proof (rule lists_in_change[OF assms(1), where n = n])
  show "dll (link_between (last (h # as)) n (hd (bs @ [h])) s) h (as @ n # bs)"
    using assms by (intro dll_link) (auto simp: lists_in_def)
next
  fix x assume "x \<notin> set (h # n # as @ bs)"
  then show "node_next (link_between (last (h # as)) n (hd (bs @ [h])) s) x = node_next s x \<and>
      node_prev (link_between (last (h # as)) n (hd (bs @ [h])) s) x = node_prev s x"
    using last_mem[of h as] hd_mem[of bs h] by (auto simp: link_between_def simp del: last.simps)
qed (use assms in auto)

lemma unlink_change:
  assumes "lists_in s (L1 @ (h, as @ n # bs) # L2)"
  shows "lists_in (unlink (last (h # as)) n (hd (bs @ [h])) s) (L1 @ (h, as @ bs) # L2)"
proof (rule lists_in_change[OF assms(1), where n = n])
  show "dll (unlink (last (h # as)) n (hd (bs @ [h])) s) h (as @ bs)"
    using assms by (intro dll_unlink) (auto simp: lists_in_def)
  show "n \<notin> set (nodes (L1 @ L2))" using assms by (auto simp: lists_in_def)
next
  fix x assume "x \<notin> set (h # n # as @ n # bs)"
  then show "node_next (unlink (last (h # as)) n (hd (bs @ [h])) s) x = node_next s x \<and>
      node_prev (unlink (last (h # as)) n (hd (bs @ [h])) s) x = node_prev s x"
    using last_mem[of h as] hd_mem[of bs h] by (auto simp: unlink_def simp del: last.simps)
qed auto

lemma lists_in_dll: "lists_in s (L1 @ (h, xs) # L2) \<Longrightarrow> dll s h xs"
  by (auto simp: lists_in_def)

lemma init_change:
  assumes "lists_in s L" "h \<notin> set (nodes L)"
  shows "lists_in (linked_list_head_init h s) (L @ [(h, [])])"
proof -
  have "dll (linked_list_head_init h s) k xs" if "(k, xs) \<in> set L" for k xs
    using that assms head_in_nodes[OF that]
    by (subst dll_cong[of k xs _ s]) (auto simp: lists_in_def linked_list_head_init_def set_next_def set_prev_def)
  then show ?thesis using assms dll_head_init[of h s] by (auto simp: lists_in_def)
qed

lemma change_at:
  assumes "lists_in s (L1 @ (h, xs) # L2)"
  shows "change h f (L1 @ (h, xs) # L2) = L1 @ (h, f xs) # L2"
  using assms by (intro change_split) (simp add: lists_in_def)

lemma cut_at: "m \<notin> set as \<Longrightarrow> takeWhile (\<lambda>x. x \<noteq> m) (as @ m # bs) = as \<and> dropWhile (\<lambda>x. x \<noteq> m) (as @ m # bs) = m # bs"
  by (induction as) auto

lemma head_split:
  assumes "h \<in> fst ` set L"
  obtains L1 xs L2 where "L = L1 @ (h, xs) # L2"
  using assms by (auto dest!: split_list)

lemma list_step_links:
  assumes "lists_in s L" "list_step op L = Some L'"
  shows "\<exists>s'. link_step op s = Inr s' \<and> lists_in s' L'"
proof (cases op)
  case (Init_Head h)
  then show ?thesis using assms init_change[of s L h] by (auto split: if_splits)
next
  case (Add_Tail n h)
  then have "h \<in> fst ` set L" and n: "n \<notin> set (nodes L)" using assms(2) by (auto split: if_splits)
  then obtain L1 xs L2 where L: "L = L1 @ (h, xs) # L2" by (elim head_split)
  then show ?thesis
    using n assms Add_Tail link_change[of s L1 h xs "[]" L2 n] add_tail_dll[OF lists_in_dll, of s L1 h xs L2 n]
    by (auto simp: change_at simp del: last.simps)
next
  case (Add_Head n h)
  then have "h \<in> fst ` set L" and n: "n \<notin> set (nodes L)" using assms(2) by (auto split: if_splits)
  then obtain L1 xs L2 where L: "L = L1 @ (h, xs) # L2" by (elim head_split)
  then show ?thesis
    using n assms Add_Head link_change[of s L1 h "[]" xs L2 n] add_head_dll[OF lists_in_dll, of s L1 h xs L2 n]
    by (auto simp: change_at)
next
  case (Add_Before n m)
  then obtain h where h: "head_of m L = Some h" "n \<notin> set (nodes L)" using assms(2) by (auto split: if_splits option.splits)
  then obtain L1 as bs L2 where L: "L = L1 @ (h, as @ m # bs) # L2" by (metis head_of_Some)
  moreover have "m \<notin> set as" using assms(1) L by (auto simp: lists_in_def)
  ultimately show ?thesis
    using assms Add_Before h link_change[of s L1 h as "m # bs" L2 n] add_before_dll[OF lists_in_dll, of s L1 h as m bs L2 n]
    by (auto simp: change_at cut_at simp del: last.simps)
next
  case (Add_After n m)
  then obtain h where h: "head_of m L = Some h" "n \<notin> set (nodes L)" using assms(2) by (auto split: if_splits option.splits)
  then obtain L1 as bs L2 where L: "L = L1 @ (h, as @ m # bs) # L2" by (metis head_of_Some)
  moreover have "m \<notin> set as" using assms(1) L by (auto simp: lists_in_def)
  ultimately show ?thesis
    using assms Add_After h link_change[of s L1 h "as @ [m]" bs L2 n]
      add_after_dll[of s h as m bs n] lists_in_dll[of s L1 h "as @ m # bs" L2]
    by (auto simp: change_at cut_at)
next
  case (Delete n)
  then obtain h where h: "head_of n L = Some h" using assms(2) by (auto split: option.splits)
  then obtain L1 as bs L2 where L: "L = L1 @ (h, as @ n # bs) # L2" by (metis head_of_Some)
  moreover have "n \<notin> set as" using assms(1) L by (auto simp: lists_in_def)
  ultimately show ?thesis
    using assms Delete h unlink_change[of s L1 h as n bs L2] delete_dll[OF lists_in_dll, of s L1 h as n bs L2]
    by (auto simp: change_at remove1_append simp del: last.simps)
qed

lemma list_steps_links:
  "lists_in s L \<Longrightarrow> list_steps ops L = Some L' \<Longrightarrow> \<exists>s'. link_steps ops s = Inr s' \<and> lists_in s' L'"
proof (induction ops arbitrary: s L)
  case Nil
  then show ?case by simp
next
  case (Cons op ops)
  then obtain L1 where "list_step op L = Some L1" "list_steps ops L1 = Some L'" by (auto simp: bind_eq_Some_conv)
  then show ?case using Cons.prems(1) Cons.IH list_step_links[of s L op L1] by fastforce
qed

text \<open>
  C33: The intrusive lists are lists: whatever sequence of operations puts nodes into lists (none that is in one
  already) and takes them out, no null pointer is read, and afterwards the loops go through exactly the nodes of each list, in order or
  in the reverse order, and end.
\<close>

theorem linked_list_refines:
  assumes "list_steps ops [] = Some L"
  shows "\<exists>s. link_steps ops s0 = Inr s \<and>
    (\<forall>(h, xs) \<in> set L. \<forall>k > length xs. LINKED_LIST_FOR_EACH k h s = Inr xs \<and>
       LINKED_LIST_FOR_EACH_REVERSE k h s = Inr (rev xs) \<and> linked_list_size k h s = Inr (length xs) \<and>
       linked_list_is_empty h s = (xs = []))"
proof -
  have "lists_in s0 []" by (simp add: lists_in_def)
  then obtain s where "link_steps ops s0 = Inr s" "lists_in s L" using list_steps_links[OF _ assms] by blast
  then show ?thesis by (fastforce simp: lists_in_def for_each_dll is_empty_dll)
qed

theorem linked_list_refines_witness:
  "\<exists>s. link_steps [Init_Head (0::nat), Init_Head 1, Add_Head 5 0, Add_Tail 6 0, Add_After 7 5, Delete 5, Add_Before 5 6, Delete 7, Add_Tail 7 1]
      \<lparr> node_next = (\<lambda>_. None), node_prev = (\<lambda>_. None) \<rparr> = Inr s \<and>
    (\<forall>(h, xs) \<in> set [(0, [5, 6]), (1, [7])]. \<forall>k > length xs. LINKED_LIST_FOR_EACH k h s = Inr xs \<and>
       LINKED_LIST_FOR_EACH_REVERSE k h s = Inr (rev xs) \<and> linked_list_size k h s = Inr (length xs) \<and>
       linked_list_is_empty h s = (xs = []))"
  by (rule linked_list_refines) (simp add: change_def head_of_def)

text \<open>Adding the first node of a list to it again makes a ring without the head: a loop over the list does not end.\<close>

lemma add_first_again:
  assumes "dll s h (n # xs)"
  shows "\<exists>s'. linked_list_add_head n h s = Inr s' \<and> (\<forall>k. LINKED_LIST_FOR_EACH k h s' = Inl NoFuel)"
proof -
  have "node_next s h = Some n" "n \<noteq> h" using assms by (auto simp: dll_def pair_ok_def)
  then have "linked_list_add_head n h s =
      Inr \<lparr> node_next = (node_next s)(n := Some n, h := Some n), node_prev = (node_prev s)(n := Some n) \<rparr>"
    by (auto simp: linked_list_add_head_def set_next_def set_prev_def deref_def Let_def)
  moreover have "step n = Some n \<Longrightarrow> walk k step h (Some n) = Inl NoFuel" for k step
    using \<open>n \<noteq> h\<close> by (induction k) (auto simp: deref_def)
  ultimately show ?thesis using \<open>n \<noteq> h\<close> by (auto simp: LINKED_LIST_FOR_EACH_def)
qed

end
