(* ===== verification/Clean.thy ===== *)
theory Clean
  imports Linked_List Start_Ok
begin

text \<open>
  Cleaning (\<open>do_clean\<close> in \<open>stirmake.c\<close>): the clean hooks become goals, and a hook a dependency of the hook one directory
  up; after the loop has made them, the rules of the directory are put into a list in which directories come after what is in them, and
  the targets of these rules are removed.

  The loop itself is the component \<open>Run_Loop\<close>.  The rules are linked through their field \<open>cleanllnode\<close> into the list to clean, and
  for a moment into a second list, which reverses the order.
\<close>

section \<open>Hooks\<close>

definition under_dir :: "string \<Rightarrow> string \<Rightarrow> bool" where
  "under_dir fwd_path prefix =
     (fwd_path = ''.'' \<or>
      take (length fwd_path) prefix = fwd_path \<and>
        (length prefix = length fwd_path \<or> prefix ! length fwd_path = CHR ''/''))"

definition clean_str :: "bool \<Rightarrow> bool \<Rightarrow> string option" where
  "clean_str objs bins =
     (if bins \<and> objs then Some ''BOTHCLEAN'' else if bins then Some ''DISTCLEAN'' else if objs then Some ''CLEAN'' else None)"

definition hook_applies :: "bool \<Rightarrow> bool \<Rightarrow> rule \<Rightarrow> bool" where
  "hook_applies objs bins r =
     (if objs \<and> \<not> bins then is_cleanhook r
      else if bins \<and> \<not> objs then is_distcleanhook r
      else if objs \<and> bins then is_bothcleanhook r else False)"

text \<open>The hook of a rule: the hook of the directory above depends on it, unless that is outside the project.\<close>

definition clean_hook :: "string \<Rightarrow> nat \<Rightarrow> gbase \<Rightarrow> gbase res" where
  "clean_hook cleanstr i s =
     (let prefix = names s ! diridx (rules s i) in
      bind_res (put_buf (length prefix + length cleanstr + 5) (prefix @ ''/../'' @ cleanstr)) (\<lambda>parent.
      bind_res (canon_buflen parent (Some 1024)) (\<lambda>(cparent, _).
      bind_res (put_buf (length cparent + 4) (cparent @ ''///'')) (\<lambda>parent.
      bind_res (if take 3 parent \<noteq> ''../'' then
          (case tgtlist (rules s i) of
             [] \<Rightarrow> Inl Overread
           | t # _ \<Rightarrow> Inr (add_dep [parent] [names s ! tgtidx t] False False False s))
        else Inr s)
      (\<lambda>s. Inr (ruleremain_add i s))))))"

fun clean_hooks :: "string \<Rightarrow> string \<Rightarrow> bool \<Rightarrow> bool \<Rightarrow> nat list \<Rightarrow> gbase \<Rightarrow> gbase res" where
  "clean_hooks fwd_path cleanstr objs bins [] s = Inr s"
| "clean_hooks fwd_path cleanstr objs bins (i # is) s =
     bind_res (if under_dir fwd_path (names s ! diridx (rules s i)) \<and> hook_applies objs bins (rules s i)
               then clean_hook cleanstr i s else Inr s)
       (clean_hooks fwd_path cleanstr objs bins is)"

text \<open>\<open>do_clean\<close> until it calls the loop; \<open>calculated\<close> is \<open>deps_remain_calculated\<close>.\<close>

definition clean_start :: "string \<Rightarrow> bool \<Rightarrow> bool \<Rightarrow> nat \<Rightarrow> bool \<Rightarrow> gbase \<Rightarrow> gbase res" where
  "clean_start fwd_path objs bins scope calculated s =
     (case clean_str objs bins of
        None \<Rightarrow> Inl Aborted
      | Some cleanstr \<Rightarrow>
          bind_res (clean_hooks fwd_path cleanstr objs bins [0..<rules_size s] s) (\<lambda>s.
          bind_res (if calculated then Inr s
                    else bind_res (process_additional_deps_2 scope s) (\<lambda>s. Inr (prepare_rules s)))
            (\<lambda>s. Inr (ins_ruleid_by_dep_later s))))"

section \<open>The list of rules to clean\<close>

datatype lnode = Cleanlist | Tmplist | Cleannode nat

definition cleanable :: "string \<Rightarrow> string list \<Rightarrow> rule \<Rightarrow> bool" where
  "cleanable fwd_path strs r = (\<not> is_phony r \<and> \<not> is_inc r \<and> under_dir fwd_path (strs ! diridx r))"

text \<open>The rules for the directories above a target, as far as there are any, into the second list.\<close>

fun clean_up :: "nat \<Rightarrow> string \<Rightarrow> string list \<Rightarrow> string \<Rightarrow> ('a) base_scheme \<times> lnode links
    \<Rightarrow> (('a) base_scheme \<times> lnode links) res" where
  "clean_up 0 fwd_path strs oldname sl = Inl NoFuel"
| "clean_up (Suc k) fwd_path strs oldname (s, l) =
     bind_res (dir_up oldname) (\<lambda>name.
       case st_index name strs of
         None \<Rightarrow> Inr (s, l)
       | Some stidx \<Rightarrow>
           (case get_ruleid_by_tgt s stidx of
              None \<Rightarrow> Inr (s, l)
            | Some r \<Rightarrow>
                if \<not> cleanable fwd_path strs (rules s r) \<or> is_cleanqueued (rules s r) then Inr (s, l)
                else
                  let s = upd_rule r (is_cleanqueued_update (\<lambda>_. True)) s in
                  bind_res (linked_list_add_head (Cleannode r) Tmplist l) (\<lambda>l. clean_up k fwd_path strs name (s, l))))"

fun clean_move :: "('a) base_scheme \<Rightarrow> lnode \<Rightarrow> lnode links \<Rightarrow> lnode links res" where
  "clean_move s (Cleannode r) l =
     bind_res (linked_list_delete (Cleannode r) l) (\<lambda>l.
     bind_res (linked_list_add_head (Cleannode r) Cleanlist l) (\<lambda>l.
       if \<not> is_cleanqueued (rules s r) then Inl Aborted else Inr l))"
| "clean_move s _ l = Inl Overread"

definition clean_target :: "string \<Rightarrow> string list \<Rightarrow> stirtgt \<Rightarrow> ('a) base_scheme \<times> lnode links
    \<Rightarrow> (('a) base_scheme \<times> lnode links) res" where
  "clean_target fwd_path strs t sl =
     (case sl of (s, l) \<Rightarrow>
        let k = Suc (rules_size s); l = linked_list_head_init Tmplist l in
        bind_res (clean_up k fwd_path strs (strs ! tgtidx t) (s, l)) (\<lambda>(s, l).
        bind_res (LINKED_LIST_FOR_EACH_SAFE k Tmplist (clean_move s) l) (\<lambda>l. Inr (s, l))))"

fun clean_targets :: "string \<Rightarrow> string list \<Rightarrow> stirtgt list \<Rightarrow> ('a) base_scheme \<times> lnode links
    \<Rightarrow> (('a) base_scheme \<times> lnode links) res" where
  "clean_targets fwd_path strs [] sl = Inr sl"
| "clean_targets fwd_path strs (t # ts) sl = bind_res (clean_target fwd_path strs t sl) (clean_targets fwd_path strs ts)"

fun clean_rules :: "string \<Rightarrow> string list \<Rightarrow> nat list \<Rightarrow> ('a) base_scheme \<times> lnode links
    \<Rightarrow> (('a) base_scheme \<times> lnode links) res" where
  "clean_rules fwd_path strs [] sl = Inr sl"
| "clean_rules fwd_path strs (i # is) (s, l) =
     (if \<not> cleanable fwd_path strs (rules s i) \<or> is_cleanqueued (rules s i) then clean_rules fwd_path strs is (s, l)
      else bind_res (clean_targets fwd_path strs (tgtlist (rules s i)) (s, l)) (\<lambda>(s, l).
        let s = upd_rule i (is_cleanqueued_update (\<lambda>_. True)) s in
        bind_res (linked_list_add_head (Cleannode i) Cleanlist l) (\<lambda>l. clean_rules fwd_path strs is (s, l))))"

section \<open>Removing files\<close>

text \<open>
  The files are a list of names with their kinds.  A directory is removed when nothing is below it; in a locked
  directory nothing is removed; \<open>unreadable\<close> names cannot be looked at.
\<close>

datatype fkind = Regular | Symlink | Socket | Fifo | Directory | Other_Kind

record files =
  entries :: "(string \<times> fkind) list"
  locked :: "string list"
  unreadable :: "string list"

datatype lstat_res = Enoent | Lstat_Error | Found fkind

definition lstat :: "files \<Rightarrow> string \<Rightarrow> lstat_res" where
  "lstat f name =
     (if name \<in> set (unreadable f) then Lstat_Error
      else case map_of (entries f) name of None \<Rightarrow> Enoent | Some k \<Rightarrow> Found k)"

definition parent_dir :: "string \<Rightarrow> string" where
  "parent_dir name = (case strrchr name CHR ''/'' of None \<Rightarrow> ''.'' | Some i \<Rightarrow> take i name)"

definition remove_entry :: "string \<Rightarrow> files \<Rightarrow> bool \<times> files" where
  "remove_entry name f =
     (if parent_dir name \<in> set (locked f) then (False, f)
      else (True, f\<lparr> entries := filter (\<lambda>(n, _). n \<noteq> name) (entries f) \<rparr>))"

definition unlink_file :: "string \<Rightarrow> files \<Rightarrow> bool \<times> files" where
  "unlink_file name f = remove_entry name f"

definition rmdir :: "string \<Rightarrow> files \<Rightarrow> bool \<times> files" where
  "rmdir name f =
     (if \<exists>(n, _) \<in> set (entries f). parent_dir n = name \<and> n \<noteq> name then (False, f) else remove_entry name f)"

fun remove_file :: "string \<Rightarrow> fkind \<Rightarrow> files \<Rightarrow> bool \<times> files" where
  "remove_file name Directory f = (True, snd (rmdir name f))"
| "remove_file name Other_Kind f = (True, f)"
| "remove_file name _ f = unlink_file name f"

fun clean_tgts :: "bool \<Rightarrow> bool \<Rightarrow> string list \<Rightarrow> bool \<Rightarrow> stirtgt list \<Rightarrow> files \<Rightarrow> files res" where
  "clean_tgts objs bins strs alldist [] f = Inr f"
| "clean_tgts objs bins strs alldist (t # ts) f =
     (let dist = (tgt_is_dist t \<or> alldist) in
      if (objs \<and> \<not> dist) \<or> (bins \<and> dist) then
        let name = strs ! tgtidx t in
        (case lstat f name of
           Enoent \<Rightarrow> clean_tgts objs bins strs alldist ts f
         | Lstat_Error \<Rightarrow> Inl (Exited ''Can't stat file'')
         | Found k \<Rightarrow>
             let (ok, f) = remove_file name k f in
             if ok then clean_tgts objs bins strs alldist ts f else Inl (Exited ''Can't unlink file''))
      else clean_tgts objs bins strs alldist ts f)"

text \<open>One more than the number of rules is fuel enough for a list in which no rule is twice.\<close>

fun clean_loop :: "nat \<Rightarrow> bool \<Rightarrow> bool \<Rightarrow> string list \<Rightarrow> ('a) base_scheme \<Rightarrow> lnode links \<Rightarrow> lnode option \<Rightarrow> files \<Rightarrow> files res" where
  "clean_loop 0 objs bins strs s l iter f = Inl NoFuel"
| "clean_loop (Suc k) objs bins strs s l iter f =
     (case iter of
        Some Cleanlist \<Rightarrow> Inr f
      | Some (Cleannode r) \<Rightarrow>
          bind_res (clean_tgts objs bins strs (is_dist (rules s r)) (tgtlist (rules s r)) f)
            (clean_loop k objs bins strs s l (node_next l (Cleannode r)))
      | _ \<Rightarrow> Inl Overread)"

text \<open>\<open>do_clean\<close> after the loop; the two caches are emptied afterwards.\<close>

definition clean_end :: "nat \<Rightarrow> string \<Rightarrow> bool \<Rightarrow> bool \<Rightarrow> string list \<Rightarrow> ('a) base_scheme \<Rightarrow> files \<Rightarrow> files res" where
  "clean_end k fwd_path objs bins strs s f =
     (let l = linked_list_head_init Cleanlist \<lparr> node_next = (\<lambda>_. None), node_prev = (\<lambda>_. None) \<rparr> in
      bind_res (clean_rules fwd_path strs [0..<rules_size s] (s, l)) (\<lambda>(s, l).
        clean_loop k objs bins strs s l (node_next l Cleanlist) f))"

section \<open>Directories of plain names\<close>

lemma dir_up_plain:
  assumes "\<forall>x \<in> set (cs @ [c]). is_name x"
  shows "dir_up (join_slash (cs @ [c])) = Inr (if cs = [] then ''.'' else join_slash cs)"
proof -
  let ?n = "join_slash (cs @ [c])"
  have st: "stack_ok False (cs @ [c])" "stack_ok False cs" using assms by (auto simp: stack_ok_def intro!: exI[of _ 0])
  have n: "?n = render False (cs @ [c])" by (simp add: render_def)
  have ne: "?n \<noteq> []" using render_nonempty[OF st(1)] n by simp
  have "comps (?n @ CHR ''/'' # ''..'') = cs"
    using comps_append[OF ne, of "''..''"] comps_render[OF st(1)] assms
    by (auto simp: n split_slash_nosep push_comp_def is_name_def)
  moreover have "is_abs (?n @ CHR ''/'' # ''..'') = False" using is_abs_render[OF st(1)] ne n by (simp add: is_abs_def)
  ultimately show ?thesis using ne by (simp add: dir_up_def put_buf_def canon_spec render_def)
qed

lemma parent_dir_plain:
  assumes "\<forall>x \<in> set (cs @ [c]). is_name x"
  shows "parent_dir (join_slash (cs @ [c])) = (if cs = [] then ''.'' else join_slash cs)"
  using assms by (auto simp: parent_dir_def join_slash_snoc is_name_def is_comp_def strrchr_append split: option.split)

lemma split_plain: "\<forall>x \<in> set cs. is_name x \<Longrightarrow> cs \<noteq> [] \<Longrightarrow> split_slash (join_slash cs) = cs"
  by (rule split_join) (auto simp: is_name_def is_comp_def)

lemma join_plain_inj:
  assumes "\<forall>x \<in> set cs. is_name x" "\<forall>x \<in> set ds. is_name x" "cs \<noteq> []" "ds \<noteq> []" "join_slash cs = join_slash ds"
  shows "cs = ds"
  by (metis split_plain assms)

lemma join_plain_not_dot:
  assumes "\<forall>x \<in> set cs. is_name x" "cs \<noteq> []"
  shows "join_slash cs \<noteq> ''.''"
proof
  assume "join_slash cs = ''.''"
  then have "cs = [''.'']" using split_plain[OF assms] by (simp add: split_slash_nosep)
  then show False using assms by (simp add: is_name_def)
qed

section \<open>What the list is to be\<close>

text \<open>The rule of the directory of a name, if that is to be cleaned too, with the name of the directory.\<close>

definition up_rule :: "string \<Rightarrow> string list \<Rightarrow> ('a) base_scheme \<Rightarrow> string \<Rightarrow> (string \<times> nat) option" where
  "up_rule fwd_path strs s name =
     (case dir_up name of
        Inl _ \<Rightarrow> None
      | Inr d \<Rightarrow> (case st_index d strs of
          None \<Rightarrow> None
        | Some i \<Rightarrow> (case get_ruleid_by_tgt s i of
            None \<Rightarrow> None
          | Some r \<Rightarrow> if cleanable fwd_path strs (rules s r) then Some (d, r) else None)))"

text \<open>The tables of targets agree with the rules, and no rule has been looked at.\<close>

definition clean_tables :: "string list \<Rightarrow> ('a) base_scheme \<Rightarrow> bool" where
  "clean_tables strs s =
     (distinct strs \<and>
      (\<forall>i p. get_ruleid_by_tgt s i = Some p \<longleftrightarrow> p < rules_size s \<and> i \<in> tgtidx ` set (tgtlist (rules s p))) \<and>
      (\<forall>r < rules_size s. \<forall>t \<in> set (tgtlist (rules s r)). tgtidx t < length strs) \<and>
      (\<forall>r. \<not> is_cleanqueued (rules s r)))"

text \<open>All targets of a rule to clean are in one directory, and their names are plain.\<close>

definition plain_targets :: "string \<Rightarrow> string list \<Rightarrow> ('a) base_scheme \<Rightarrow> bool" where
  "plain_targets fwd_path strs s =
     (\<forall>r < rules_size s. cleanable fwd_path strs (rules s r) \<longrightarrow>
        (\<exists>cs. \<forall>t \<in> set (tgtlist (rules s r)). \<exists>c.
           strs ! tgtidx t = join_slash (cs @ [c]) \<and> (\<forall>x \<in> set (cs @ [c]). is_name x)))"

text \<open>The rules to clean, with what is in a directory before the directory.\<close>

definition clean_order :: "string \<Rightarrow> string list \<Rightarrow> ('a) base_scheme \<Rightarrow> nat list \<Rightarrow> bool" where
  "clean_order fwd_path strs s xs =
     (distinct xs \<and>
      (\<forall>as r bs t d p. xs = as @ r # bs \<longrightarrow> t \<in> set (tgtlist (rules s r)) \<longrightarrow>
         up_rule fwd_path strs s (strs ! tgtidx t) = Some (d, p) \<longrightarrow> p \<in> set bs))"

definition marked :: "nat set \<Rightarrow> ('a) base_scheme \<Rightarrow> ('a) base_scheme" where
  "marked X s = s\<lparr> rules := (\<lambda>r. (rules s r)\<lparr> is_cleanqueued := r \<in> X \<rparr>) \<rparr>"

lemma marked_simps [simp]:
  "rules (marked X s) r = (rules s r)\<lparr> is_cleanqueued := r \<in> X \<rparr>"
  "rules_size (marked X s) = rules_size s"
  "get_ruleid_by_tgt (marked X s) = get_ruleid_by_tgt s"
  "cleanable fwd strs (a\<lparr> is_cleanqueued := b \<rparr>) = cleanable fwd strs a"
  "upd_rule r (is_cleanqueued_update (\<lambda>_. True)) (marked X s) = marked (insert r X) s"
  by (auto simp: marked_def get_ruleid_by_tgt_def fun_eq_iff cleanable_def upd_rule_def)

lemma marked_none: "\<forall>r. \<not> is_cleanqueued (rules s r) \<Longrightarrow> marked {} s = s"
  by (rule base.equality) (auto simp: marked_def intro!: ext rule.equality)

declare split_slash.simps [simp del]

section \<open>Parents\<close>

definition clean_setup :: "string \<Rightarrow> string list \<Rightarrow> ('a) base_scheme \<Rightarrow> bool" where
  "clean_setup fwd_path strs s = (clean_tables strs s \<and> plain_targets fwd_path strs s)"

definition to_clean :: "string \<Rightarrow> string list \<Rightarrow> ('a) base_scheme \<Rightarrow> nat set" where
  "to_clean fwd_path strs s = {r. r < rules_size s \<and> cleanable fwd_path strs (rules s r)}"

definition dir_comps :: "string list \<Rightarrow> ('a) base_scheme \<Rightarrow> nat \<Rightarrow> string list" where
  "dir_comps strs s r = butlast (split_slash (strs ! tgtidx (hd (tgtlist (rules s r)))))"

definition par :: "string \<Rightarrow> string list \<Rightarrow> ('a) base_scheme \<Rightarrow> nat \<Rightarrow> nat option" where
  "par fwd_path strs s r =
     (case tgtlist (rules s r) of [] \<Rightarrow> None | t # _ \<Rightarrow> map_option snd (up_rule fwd_path strs s (strs ! tgtidx t)))"

lemma plain_dirs:
  assumes "clean_setup fwd strs s" "r \<in> to_clean fwd strs s" "t \<in> set (tgtlist (rules s r))"
  obtains c where "strs ! tgtidx t = join_slash (dir_comps strs s r @ [c])" "\<forall>x \<in> set (dir_comps strs s r @ [c]). is_name x"
proof -
  obtain cs where cs: "\<forall>t \<in> set (tgtlist (rules s r)).
      \<exists>c. strs ! tgtidx t = join_slash (cs @ [c]) \<and> (\<forall>x \<in> set (cs @ [c]). is_name x)"
    using assms(1,2) unfolding clean_setup_def plain_targets_def to_clean_def by blast
  have "hd (tgtlist (rules s r)) \<in> set (tgtlist (rules s r))" using assms(3) by (cases "tgtlist (rules s r)") auto
  from bspec[OF cs this] obtain c where "strs ! tgtidx (hd (tgtlist (rules s r))) = join_slash (cs @ [c])" "\<forall>x \<in> set (cs @ [c]). is_name x"
    by blast
  then have "dir_comps strs s r = cs" using split_plain[of "cs @ [c]"] by (simp add: dir_comps_def)
  then show ?thesis using bspec[OF cs assms(3)] that by blast
qed

lemma up_rule_eq:
  assumes "clean_setup fwd strs s" "r \<in> to_clean fwd strs s" "t \<in> set (tgtlist (rules s r))"
  shows "dir_up (strs ! tgtidx t) = Inr (if dir_comps strs s r = [] then ''.'' else join_slash (dir_comps strs s r))"
  using plain_dirs[OF assms] dir_up_plain by metis

lemma up_rule_par:
  assumes "clean_setup fwd strs s" "r \<in> to_clean fwd strs s" "t \<in> set (tgtlist (rules s r))"
  shows "map_option snd (up_rule fwd strs s (strs ! tgtidx t)) = par fwd strs s r"
proof (cases "tgtlist (rules s r)")
  case Nil
  then show ?thesis using assms by simp
next
  case (Cons t' ts)
  then show ?thesis using up_rule_eq[OF assms] up_rule_eq[OF assms(1,2), of t'] by (simp add: up_rule_def par_def)
qed

lemma up_ruleD:
  assumes "clean_setup fwd strs s" "r \<in> to_clean fwd strs s" "t \<in> set (tgtlist (rules s r))"
    "up_rule fwd strs s (strs ! tgtidx t) = Some (d, p)"
  shows "p \<in> to_clean fwd strs s" "length (dir_comps strs s p) < length (dir_comps strs s r)"
    "\<exists>t' \<in> set (tgtlist (rules s p)). strs ! tgtidx t' = d" "d = join_slash (dir_comps strs s r)" "dir_comps strs s r \<noteq> []"
proof -
  obtain i where i: "st_index d strs = Some i" "get_ruleid_by_tgt s i = Some p"
    and d: "d = (if dir_comps strs s r = [] then ''.'' else join_slash (dir_comps strs s r))"
    and c: "cleanable fwd strs (rules s p)"
    using assms(4) up_rule_eq[OF assms(1-3)] by (auto simp: up_rule_def split: sum.splits option.splits if_splits)
  have p: "p < rules_size s" "i \<in> tgtidx ` set (tgtlist (rules s p))"
    using i(2) assms(1) by (auto simp: clean_setup_def clean_tables_def)
  then show pc: "p \<in> to_clean fwd strs s" using c by (simp add: to_clean_def)
  obtain t' where t': "t' \<in> set (tgtlist (rules s p))" "strs ! tgtidx t' = d" using p(2) st_index_Some[OF i(1)] by auto
  then show "\<exists>t' \<in> set (tgtlist (rules s p)). strs ! tgtidx t' = d" by blast
  obtain c' where c': "d = join_slash (dir_comps strs s p @ [c'])" "\<forall>x \<in> set (dir_comps strs s p @ [c']). is_name x"
    using plain_dirs[OF assms(1) pc t'(1)] t'(2) by metis
  then show ne: "dir_comps strs s r \<noteq> []" using join_plain_not_dot[of "dir_comps strs s p @ [c']"] d by auto
  then show "d = join_slash (dir_comps strs s r)" using d by simp
  obtain c where "\<forall>x \<in> set (dir_comps strs s r @ [c]). is_name x" using plain_dirs[OF assms(1-3)] by metis
  then have "dir_comps strs s r = dir_comps strs s p @ [c']"
    using join_plain_inj[of "dir_comps strs s r" "dir_comps strs s p @ [c']"] c' d ne by auto
  then show "length (dir_comps strs s p) < length (dir_comps strs s r)" by simp
qed

lemma parD:
  assumes "clean_setup fwd strs s" "r \<in> to_clean fwd strs s" "par fwd strs s r = Some p"
  shows "p \<in> to_clean fwd strs s" "length (dir_comps strs s p) < length (dir_comps strs s r)"
  using assms up_ruleD(1,2)[OF assms(1,2), of "hd (tgtlist (rules s r))"]
  by (auto simp: par_def split: list.splits)

section \<open>Chains and orders\<close>

fun up_chain :: "(nat \<Rightarrow> nat option) \<Rightarrow> nat set \<Rightarrow> nat \<Rightarrow> nat list \<Rightarrow> bool" where
  "up_chain f X r [] = (\<forall>p. f r = Some p \<longrightarrow> p \<in> X)"
| "up_chain f X r (c # cs) = (f r = Some c \<and> up_chain f X c cs)"

fun ordered :: "(nat \<Rightarrow> nat option) \<Rightarrow> nat list \<Rightarrow> bool" where
  "ordered f [] = True"
| "ordered f (x # xs) = ((\<forall>p. f x = Some p \<longrightarrow> p \<in> set xs) \<and> ordered f xs)"

lemma ordered_chain: "ordered f xs \<Longrightarrow> up_chain f (set xs) r cs \<Longrightarrow> ordered f (cs @ xs) \<and> (\<forall>p. f r = Some p \<longrightarrow> p \<in> set (cs @ xs))"
proof (induction cs arbitrary: r)
  case Nil
  then show ?case by simp
next
  case (Cons c cs)
  then show ?case by (cases cs) auto
qed

lemma ordered_split: "ordered f (as @ x # bs) \<Longrightarrow> f x = Some p \<Longrightarrow> p \<in> set bs"
  by (induction as) auto

section \<open>The list is made\<close>

text \<open>The rules in the two lists, and nothing else changed.\<close>

definition queues :: "string \<Rightarrow> string list \<Rightarrow> ('a) base_scheme \<Rightarrow> nat list \<Rightarrow> nat list
    \<Rightarrow> ('a) base_scheme \<times> lnode links \<Rightarrow> bool" where
  "queues fwd_path strs s xs ts sl =
     (fst sl = marked (set xs \<union> set ts) s \<and>
      lists_in (snd sl) [(Cleanlist, map Cleannode xs), (Tmplist, map Cleannode ts)] \<and>
      set xs \<union> set ts \<subseteq> to_clean fwd_path strs s)"

lemma queues_distinct: "queues fwd strs s xs ts sl \<Longrightarrow> distinct (xs @ ts)"
  by (auto simp: queues_def lists_in_def distinct_map inj_on_def)

lemma queues_length: "queues fwd strs s xs ts sl \<Longrightarrow> length xs + length ts \<le> rules_size s"
proof -
  assume q: "queues fwd strs s xs ts sl"
  then have "card (set (xs @ ts)) \<le> card {..< rules_size s}"
    by (intro card_mono) (auto simp: queues_def to_clean_def)
  then show ?thesis using distinct_card[OF queues_distinct[OF q]] by simp
qed

lemma clean_up_chain:
  assumes ok: "clean_setup fwd strs s"
  shows "queues fwd strs s xs ts (s1, l) \<Longrightarrow> r \<in> to_clean fwd strs s \<Longrightarrow> t \<in> set (tgtlist (rules s r)) \<Longrightarrow>
    \<forall>q \<in> set ts. length (dir_comps strs s r) \<le> length (dir_comps strs s q) \<Longrightarrow>
    rules_size s < k + length xs + length ts \<Longrightarrow>
    \<exists>cs s2 l2. clean_up k fwd strs (strs ! tgtidx t) (s1, l) = Inr (s2, l2) \<and>
      queues fwd strs s xs (rev cs @ ts) (s2, l2) \<and> up_chain (par fwd strs s) (set xs) r cs \<and>
      (\<forall>c \<in> set cs. length (dir_comps strs s c) < length (dir_comps strs s r))"
proof (induction k arbitrary: ts s1 l r t)
  case 0
  then show ?case using queues_length[OF "0.prems"(1)] by simp
next
  case (Suc k)
  note q = Suc.prems(1) and rt = Suc.prems(2,3)
  have s1: "s1 = marked (set xs \<union> set ts) s" using q by (simp add: queues_def)
  obtain e where up: "dir_up (strs ! tgtidx t) = Inr e" using up_rule_eq[OF ok rt] by blast
  have par: "par fwd strs s r = map_option snd (up_rule fwd strs s (strs ! tgtidx t))"
    by (simp add: up_rule_par[OF ok rt])
  show ?case
  proof (cases "up_rule fwd strs s (strs ! tgtidx t)")
    case None
    then have "clean_up (Suc k) fwd strs (strs ! tgtidx t) (s1, l) = Inr (s1, l)"
      using up by (auto simp: s1 up_rule_def simp del: st_index_None split: option.splits)
    then show ?thesis using q par None by (intro exI[of _ "[]"]) simp
  next
    case (Some dp)
    then obtain d p where dp: "up_rule fwd strs s (strs ! tgtidx t) = Some (d, p)" by (cases dp) auto
    obtain i where i: "dir_up (strs ! tgtidx t) = Inr d" "st_index d strs = Some i" "get_ruleid_by_tgt s i = Some p"
        "cleanable fwd strs (rules s p)"
      using dp by (auto simp: up_rule_def split: sum.splits option.splits if_splits)
    note p = up_ruleD(1-3)[OF ok rt dp]
    show ?thesis
    proof (cases "p \<in> set xs \<union> set ts")
      case True
      then have "p \<in> set xs" using p(2) Suc.prems(4) by force
      moreover have "clean_up (Suc k) fwd strs (strs ! tgtidx t) (s1, l) = Inr (s1, l)"
        using i True by (simp add: s1)
      ultimately show ?thesis using q par dp by (intro exI[of _ "[]"]) simp
    next
      case False
      have "list_step (Add_Head (Cleannode p) Tmplist) [(Cleanlist, map Cleannode xs), (Tmplist, map Cleannode ts)] =
          Some [(Cleanlist, map Cleannode xs), (Tmplist, map Cleannode (p # ts))]"
        using False by (auto simp: change_def)
      then obtain l1 where l1: "linked_list_add_head (Cleannode p) Tmplist l = Inr l1"
          "lists_in l1 [(Cleanlist, map Cleannode xs), (Tmplist, map Cleannode (p # ts))]"
        using q list_step_links[of l _ "Add_Head (Cleannode p) Tmplist"] by (force simp: queues_def)
      obtain t' where t': "t' \<in> set (tgtlist (rules s p))" "strs ! tgtidx t' = d" using p(3) by blast
      have q1: "queues fwd strs s xs (p # ts) (marked (set xs \<union> set (p # ts)) s, l1)"
        using q l1 p(1) by (simp add: queues_def)
      obtain cs s2 l2 where
        "clean_up k fwd strs (strs ! tgtidx t') (marked (set xs \<union> set (p # ts)) s, l1) = Inr (s2, l2)"
        "queues fwd strs s xs (rev cs @ p # ts) (s2, l2)" "up_chain (par fwd strs s) (set xs) p cs"
        "\<forall>c \<in> set cs. length (dir_comps strs s c) < length (dir_comps strs s p)"
        using Suc.IH[OF q1 p(1) t'(1)] Suc.prems(4,5) p(2) by force
      then show ?thesis
        using i False l1 par dp p(2) t'(2) by (intro exI[of _ "p # cs"]) (auto simp: s1)
    qed
  qed
qed

lemma clean_move_all:
  "lists_in l [(Cleanlist, map Cleannode xs), (Tmplist, map Cleannode ts)] \<Longrightarrow> \<forall>t \<in> set ts. is_cleanqueued (rules s t) \<Longrightarrow>
    length ts < k \<Longrightarrow> iter = hd (map Cleannode ts @ [Tmplist]) \<Longrightarrow>
    \<exists>l'. each_safe k Tmplist (clean_move s) (Some iter) (node_next l iter) l = Inr l' \<and>
      lists_in l' [(Cleanlist, map Cleannode (rev ts @ xs)), (Tmplist, [])]"
proof (induction ts arbitrary: xs l k iter)
  case Nil
  then show ?case by (cases k) auto
next
  case (Cons t ts)
  obtain k' where k: "k = Suc k'" using Cons.prems(3) by (cases k) auto
  let ?nx = "hd (map Cleannode ts @ [Tmplist])"
  have nx: "node_next l (Cleannode t) = Some ?nx"
    using Cons.prems(1) dll_ends(1)[of l Tmplist "[Cleannode t]" "map Cleannode ts"] by (auto simp: lists_in_def)
  have 1: "list_step (Delete (Cleannode t)) [(Cleanlist, map Cleannode xs), (Tmplist, map Cleannode (t # ts))] =
      Some [(Cleanlist, map Cleannode xs), (Tmplist, map Cleannode ts)]"
    and 2: "list_step (Add_Head (Cleannode t) Cleanlist) [(Cleanlist, map Cleannode xs), (Tmplist, map Cleannode ts)] =
      Some [(Cleanlist, map Cleannode (t # xs)), (Tmplist, map Cleannode ts)]"
    using Cons.prems(1) by (auto simp: change_def head_of_def lists_in_def)
  obtain l1 where l1: "linked_list_delete (Cleannode t) l = Inr l1"
      "lists_in l1 [(Cleanlist, map Cleannode xs), (Tmplist, map Cleannode ts)]"
    using list_step_links[OF Cons.prems(1) 1] by auto
  obtain l2 where l2: "linked_list_add_head (Cleannode t) Cleanlist l1 = Inr l2"
      "lists_in l2 [(Cleanlist, map Cleannode (t # xs)), (Tmplist, map Cleannode ts)]"
    using list_step_links[OF l1(2) 2] by auto
  show ?case
    using Cons.IH[OF l2(2), of k' ?nx] Cons.prems(2-4) l1(1) l2(1) nx by (auto simp: k deref_def)
qed

lemma clean_target_ok:
  assumes ok: "clean_setup fwd strs s" and r: "r \<in> to_clean fwd strs s" "t \<in> set (tgtlist (rules s r))"
    and s1: "s1 = marked (set xs) s" and l: "lists_in l [(Cleanlist, map Cleannode xs)]" "set xs \<subseteq> to_clean fwd strs s"
  shows "\<exists>cs l'. clean_target fwd strs t (s1, l) = Inr (marked (set (cs @ xs)) s, l') \<and>
    lists_in l' [(Cleanlist, map Cleannode (cs @ xs))] \<and> set (cs @ xs) \<subseteq> to_clean fwd strs s \<and>
    up_chain (par fwd strs s) (set xs) r cs \<and> r \<notin> set cs"
proof -
  let ?l = "linked_list_head_init Tmplist l"
  have "queues fwd strs s xs [] (s1, ?l)"
    using init_change[OF l(1), of Tmplist] l(2) s1 by (auto simp: queues_def)
  from clean_up_chain[OF ok this r, of "Suc (rules_size s)"] obtain cs s2 l2
    where up: "clean_up (Suc (rules_size s)) fwd strs (strs ! tgtidx t) (s1, ?l) = Inr (s2, l2)"
      "queues fwd strs s xs (rev cs) (s2, l2)" "up_chain (par fwd strs s) (set xs) r cs"
      "\<forall>c \<in> set cs. length (dir_comps strs s c) < length (dir_comps strs s r)"
    by (auto simp del: clean_up.simps)
  have s2: "s2 = marked (set (cs @ xs)) s" and l2: "lists_in l2 [(Cleanlist, map Cleannode xs), (Tmplist, map Cleannode (rev cs))]"
    using up(2) by (simp_all add: queues_def Un_commute)
  have "length (rev cs) < Suc (rules_size s)" using queues_length[OF up(2)] by simp
  from clean_move_all[OF l2 _ this refl, of s2] obtain l3 where
    "each_safe (Suc (rules_size s)) Tmplist (clean_move s2) (Some (hd (map Cleannode (rev cs) @ [Tmplist])))
       (node_next l2 (hd (map Cleannode (rev cs) @ [Tmplist]))) l2 = Inr l3"
    "lists_in l3 [(Cleanlist, map Cleannode (cs @ xs)), (Tmplist, [])]"
    by (auto simp: s2)
  moreover have "node_next l2 Tmplist = Some (hd (map Cleannode (rev cs) @ [Tmplist]))"
    using l2 dll_ends(1)[of l2 Tmplist "[]" "map Cleannode (rev cs)"] by (simp add: lists_in_def)
  ultimately have "LINKED_LIST_FOR_EACH_SAFE (Suc (rules_size s)) Tmplist (clean_move s2) l2 = Inr l3"
      "lists_in l3 [(Cleanlist, map Cleannode (cs @ xs))]"
    by (auto simp: LINKED_LIST_FOR_EACH_SAFE_def deref_def lists_in_def)
  moreover have "set (cs @ xs) \<subseteq> to_clean fwd strs s" using up(2) by (simp add: queues_def Un_commute)
  ultimately show ?thesis
    using up(1,3,4) by (intro exI[of _ cs] exI[of _ l3]) (auto simp: clean_target_def Let_def s1 s2 simp del: clean_up.simps)
qed

text \<open>The list so far: in order, and as the flags say.\<close>

definition listed :: "string \<Rightarrow> string list \<Rightarrow> ('a) base_scheme \<Rightarrow> nat list \<Rightarrow> ('a) base_scheme \<times> lnode links \<Rightarrow> bool" where
  "listed fwd_path strs s xs sl =
     (fst sl = marked (set xs) s \<and> lists_in (snd sl) [(Cleanlist, map Cleannode xs)] \<and>
      set xs \<subseteq> to_clean fwd_path strs s \<and> ordered (par fwd_path strs s) xs)"

lemma clean_targets_ok:
  assumes ok: "clean_setup fwd strs s" and r: "r \<in> to_clean fwd strs s"
  shows "set ts \<subseteq> set (tgtlist (rules s r)) \<Longrightarrow> listed fwd strs s xs sl \<Longrightarrow> r \<notin> set xs \<Longrightarrow>
    \<exists>ys sl'. clean_targets fwd strs ts sl = Inr sl' \<and> listed fwd strs s (ys @ xs) sl' \<and> r \<notin> set ys \<and>
      (\<forall>p. ts \<noteq> [] \<longrightarrow> par fwd strs s r = Some p \<longrightarrow> p \<in> set (ys @ xs))"
proof (induction ts arbitrary: xs sl)
  case Nil
  then show ?case by (intro exI[of _ "[]"]) simp
next
  case (Cons t ts)
  obtain s1 l where sl: "sl = (s1, l)" by (cases sl)
  obtain cs l' where 1: "clean_target fwd strs t sl = Inr (marked (set (cs @ xs)) s, l')"
      "lists_in l' [(Cleanlist, map Cleannode (cs @ xs))]" "set (cs @ xs) \<subseteq> to_clean fwd strs s"
      "up_chain (par fwd strs s) (set xs) r cs" "r \<notin> set cs"
    using clean_target_ok[OF ok r, of t s1 xs l] Cons.prems by (auto simp: listed_def sl)
  have o: "ordered (par fwd strs s) (cs @ xs)" "\<And>p. par fwd strs s r = Some p \<Longrightarrow> p \<in> set (cs @ xs)"
    using ordered_chain[OF _ 1(4)] Cons.prems(2) by (auto simp: listed_def)
  have "listed fwd strs s (cs @ xs) (marked (set (cs @ xs)) s, l')" using 1 o(1) by (simp add: listed_def)
  then obtain ys sl' where "clean_targets fwd strs ts (marked (set (cs @ xs)) s, l') = Inr sl'"
      "listed fwd strs s (ys @ cs @ xs) sl'" "r \<notin> set ys"
    using Cons.IH[of "cs @ xs" "(marked (set (cs @ xs)) s, l')"] Cons.prems(1,3) 1(5) by fastforce
  then show ?case using 1(1,5) o(2) by (intro exI[of _ "ys @ cs"] exI[of _ sl']) auto
qed

lemma clean_rules_ok:
  assumes ok: "clean_setup fwd strs s"
  shows "set is \<subseteq> {..< rules_size s} \<Longrightarrow> listed fwd strs s xs sl \<Longrightarrow>
    \<exists>ys sl'. clean_rules fwd strs is sl = Inr sl' \<and> listed fwd strs s ys sl' \<and> set xs \<subseteq> set ys \<and>
      set is \<inter> to_clean fwd strs s \<subseteq> set ys"
proof (induction "is" arbitrary: xs sl)
  case Nil
  then show ?case by (cases sl) auto
next
  case (Cons i "is")
  obtain s1 l where sl: "sl = (s1, l)" by (cases sl)
  have s1: "s1 = marked (set xs) s" using Cons.prems(2) by (simp add: listed_def sl)
  show ?case
  proof (cases "i \<in> to_clean fwd strs s \<and> i \<notin> set xs")
    case False
    then have "clean_rules fwd strs (i # is) sl = clean_rules fwd strs is sl"
      using Cons.prems(1) by (auto simp: sl s1 to_clean_def)
    then show ?thesis using Cons.IH[OF _ Cons.prems(2)] Cons.prems(1) False by (auto 4 3)
  next
    case True
    obtain ys s2 l2 where 1: "clean_targets fwd strs (tgtlist (rules s i)) sl = Inr (s2, l2)"
        "listed fwd strs s (ys @ xs) (s2, l2)" "i \<notin> set ys"
        "\<And>p. tgtlist (rules s i) \<noteq> [] \<Longrightarrow> par fwd strs s i = Some p \<Longrightarrow> p \<in> set (ys @ xs)"
      using clean_targets_ok[OF ok _ order_refl Cons.prems(2), of i] True by fastforce
    let ?xs = "i # ys @ xs"
    have "list_step (Add_Head (Cleannode i) Cleanlist) [(Cleanlist, map Cleannode (ys @ xs))] =
        Some [(Cleanlist, map Cleannode ?xs)]"
      using 1(3) True by (auto simp: change_def)
    then obtain l3 where l3: "linked_list_add_head (Cleannode i) Cleanlist l2 = Inr l3"
        "lists_in l3 [(Cleanlist, map Cleannode ?xs)]"
      using list_step_links[of l2 "[(Cleanlist, map Cleannode (ys @ xs))]" "Add_Head (Cleannode i) Cleanlist"] 1(2)
      by (auto simp: listed_def)
    have "\<forall>p. par fwd strs s i = Some p \<longrightarrow> p \<in> set (ys @ xs)"
      using 1(4) by (cases "tgtlist (rules s i)") (auto simp: par_def)
    then have "listed fwd strs s ?xs (marked (set ?xs) s, l3)"
      using 1(2) l3(2) True by (simp add: listed_def)
    from Cons.IH[OF _ this] obtain zs sl' where
      "clean_rules fwd strs is (marked (set ?xs) s, l3) = Inr sl'" "listed fwd strs s zs sl'" "set ?xs \<subseteq> set zs"
        "set is \<inter> to_clean fwd strs s \<subseteq> set zs" using Cons.prems(1) by auto
    moreover have "s2 = marked (set (ys @ xs)) s" using 1(2) by (simp add: listed_def)
    ultimately show ?thesis
      using 1(1) l3(1) True by (intro exI[of _ zs] exI[of _ sl']) (auto simp: sl s1 to_clean_def Let_def)
  qed
qed

text \<open>The list when it is finished.\<close>

lemma clean_rules_list:
  assumes "clean_setup fwd strs s" "dll l Cleanlist []"
  shows "\<exists>xs l'. clean_rules fwd strs [0..<rules_size s] (s, l) = Inr (marked (set xs) s, l') \<and>
    dll l' Cleanlist (map Cleannode xs) \<and> distinct xs \<and> set xs = to_clean fwd strs s \<and> ordered (par fwd strs s) xs"
proof -
  have "marked {} s = s" using assms(1) by (intro marked_none) (simp add: clean_setup_def clean_tables_def)
  then have "listed fwd strs s [] (s, l)" using assms(2) by (simp add: listed_def lists_in_def)
  from clean_rules_ok[OF assms(1) _ this, of "[0..<rules_size s]"] obtain xs s' l'
    where 1: "clean_rules fwd strs [0..<rules_size s] (s, l) = Inr (s', l')" "listed fwd strs s xs (s', l')"
      "{..< rules_size s} \<inter> to_clean fwd strs s \<subseteq> set xs" by (auto simp: atLeast0LessThan)
  then have "set xs = to_clean fwd strs s" by (auto simp: listed_def to_clean_def)
  moreover have "distinct xs" using 1(2) by (auto simp: listed_def lists_in_def distinct_map)
  ultimately show ?thesis using 1 by (auto simp: listed_def lists_in_def)
qed

text \<open>
  C34: The list of rules to clean, for rules with plain targets: when the targets of each rule to clean are all in one directory and
  their names are plain (\<open>plain_targets\<close>), and the tables of targets agree with the rules (\<open>clean_tables\<close>), all rules of the
  directory that make files are in the list, once, and the rule of a directory comes after the rules of what is in the directory.
  The condition on the targets is needed: a rule that makes a directory and something in it is put into the list twice, which makes
  the list a ring (\<open>clean_never_ends\<close>).
\<close>

theorem clean_list_order:
  assumes "clean_tables strs s" "plain_targets fwd strs s" "dll l Cleanlist []"
  shows "\<exists>xs s' l'. clean_rules fwd strs [0..<rules_size s] (s, l) = Inr (s', l') \<and> dll l' Cleanlist (map Cleannode xs) \<and>
    set xs = {r. r < rules_size s \<and> cleanable fwd strs (rules s r)} \<and> clean_order fwd strs s xs"
proof -
  have ok: "clean_setup fwd strs s" using assms by (simp add: clean_setup_def)
  obtain xs l' where xs: "clean_rules fwd strs [0..<rules_size s] (s, l) = Inr (marked (set xs) s, l')"
      "dll l' Cleanlist (map Cleannode xs)" "distinct xs" "set xs = to_clean fwd strs s" "ordered (par fwd strs s) xs"
    using clean_rules_list[OF ok assms(3)] by blast
  have "p \<in> set bs" if that: "xs = as @ r # bs" "t \<in> set (tgtlist (rules s r))" "up_rule fwd strs s (strs ! tgtidx t) = Some (d, p)"
    for as r bs t d p
  proof -
    have "r \<in> to_clean fwd strs s" using that(1) xs(4) by auto
    then have "par fwd strs s r = Some p" using up_rule_par[OF ok _ that(2)] that(3) by simp
    then show ?thesis using ordered_split xs(5) that(1) by blast
  qed
  then have "clean_order fwd strs s xs" unfolding clean_order_def using xs(3) by blast
  then show ?thesis using xs(1,2,4) unfolding to_clean_def by blast
qed

definition ex_clean :: base where
  "ex_clean = \<lparr> rules = (\<lambda>r. zero_rule\<lparr> tgtlist :=
       (if r < 2 then [\<lparr> tgtidx = 1 + r, tgtidxnodir = None, tgt_is_dist = False \<rparr>] else []) \<rparr>),
     rules_size = 2, st_ruleid = (\<lambda>i. if i = 1 then 0 else if i = 2 then 1 else -1), rules_remain_list = [],
     later_blocks = [], later_last = 0 \<rparr>"

definition ex_strs :: "string list" where
  "ex_strs = [''.'', ''d'', ''d/f'']"

lemma zero_rule_flags [simp]:
  "\<not> is_cleanqueued zero_rule" "\<not> is_phony zero_rule" "\<not> is_inc zero_rule" "\<not> is_dist zero_rule"
  by (simp_all add: zero_rule_def)

lemma ex_clean_simps [simp]:
  "rules_size ex_clean = 2" "\<not> is_cleanqueued (rules ex_clean r)" "\<not> is_dist (rules ex_clean r)"
  "cleanable ''.'' ex_strs (rules ex_clean r)"
  by (simp_all add: ex_clean_def cleanable_def under_dir_def)

lemma ex_clean_tgts [simp]:
  "tgtlist (rules ex_clean 0) = [\<lparr> tgtidx = 1, tgtidxnodir = None, tgt_is_dist = False \<rparr>]"
  "tgtlist (rules ex_clean (Suc 0)) = [\<lparr> tgtidx = 2, tgtidxnodir = None, tgt_is_dist = False \<rparr>]"
  by (simp_all add: ex_clean_def)

lemma ex_strs_simps [simp]:
  "ex_strs ! Suc 0 = ''d''" "ex_strs ! 2 = ''d/f''" "length ex_strs = 3" "distinct ex_strs"
  by (simp_all add: ex_strs_def)

lemma ex_clean_setup: "clean_tables ex_strs ex_clean" "plain_targets ''.'' ex_strs ex_clean"
proof -
  have 1: "get_ruleid_by_tgt ex_clean i = Some p \<longleftrightarrow> i = 1 \<and> p = 0 \<or> i = 2 \<and> p = 1" for i p
    by (auto simp: ex_clean_def get_ruleid_by_tgt_def)
  have 2: "p < 2 \<and> i \<in> tgtidx ` set (tgtlist (rules ex_clean p)) \<longleftrightarrow> i = 1 \<and> p = 0 \<or> i = 2 \<and> p = 1" for i p
    by (cases "p = 0"; cases "p = Suc 0") auto
  have 3: "tgtidx t < 3" if "r < 2" "t \<in> set (tgtlist (rules ex_clean r))" for r t
    using that by (cases "r = 0"; cases "r = Suc 0") auto
  show "clean_tables ex_strs ex_clean"
    unfolding clean_tables_def ex_clean_simps(1) ex_strs_simps(3) 1 2 using 3 by simp
  have "\<exists>c. ''d'' = join_slash ([] @ [c]) \<and> (\<forall>x \<in> set ([] @ [c]). is_name x)"
    by (rule exI[of _ "''d''"]) (simp add: is_name_def is_comp_def)
  moreover have "\<exists>c. ''d/f'' = join_slash ([''d''] @ [c]) \<and> (\<forall>x \<in> set ([''d''] @ [c]). is_name x)"
    by (rule exI[of _ "''f''"]) (simp add: is_name_def is_comp_def)
  ultimately have "\<exists>cs. \<forall>t \<in> set (tgtlist (rules ex_clean r)). \<exists>c. ex_strs ! tgtidx t = join_slash (cs @ [c]) \<and>
      (\<forall>x \<in> set (cs @ [c]). is_name x)" if "r < 2" for r
    using that unfolding less_2_cases_iff
    by (intro exI[of _ "if r = 0 then [] else [''d'']"], elim disjE) (simp_all only: ex_clean_tgts ex_strs_simps list.set, simp_all)
  then show "plain_targets ''.'' ex_strs ex_clean" unfolding plain_targets_def by simp
qed

theorem clean_list_order_witness:
  "\<exists>xs s' l'. clean_rules ''.'' ex_strs [0..<2] (ex_clean, linked_list_head_init Cleanlist \<lparr> node_next = (\<lambda>_. None), node_prev = (\<lambda>_. None) \<rparr>)
      = Inr (s', l') \<and> dll l' Cleanlist (map Cleannode xs) \<and> set xs = {0, 1} \<and> clean_order ''.'' ex_strs ex_clean xs"
proof -
  have "{r. r < rules_size ex_clean \<and> cleanable ''.'' ex_strs (rules ex_clean r)} = {0, 1}"
    by (auto simp: less_2_cases_iff)
  then show ?thesis using clean_list_order[OF ex_clean_setup dll_head_init] by (metis ex_clean_simps(1))
qed

section \<open>The files are removed\<close>

definition selected :: "bool \<Rightarrow> bool \<Rightarrow> rule \<Rightarrow> stirtgt \<Rightarrow> bool" where
  "selected objs bins r t =
     (objs \<and> \<not> (tgt_is_dist t \<or> is_dist r) \<or> bins \<and> (tgt_is_dist t \<or> is_dist r))"

text \<open>The names to remove: targets of the kind that is wanted, of the rules to clean.\<close>

definition clean_names :: "bool \<Rightarrow> bool \<Rightarrow> string \<Rightarrow> string list \<Rightarrow> ('a) base_scheme \<Rightarrow> string set" where
  "clean_names objs bins fwd_path strs s =
     {strs ! tgtidx t | r t. r \<in> to_clean fwd_path strs s \<and> t \<in> set (tgtlist (rules s r)) \<and> selected objs bins (rules s r) t}"

definition below :: "string \<Rightarrow> string \<Rightarrow> bool" where
  "below m n = (m = n \<or> take (length n + 1) m = n @ ''/'')"

text \<open>Everything from a name down is to be removed, and can be.\<close>

definition clear :: "string set \<Rightarrow> files \<Rightarrow> string \<Rightarrow> bool" where
  "clear N f n = (\<forall>(m, k) \<in> set (entries f). below m n \<longrightarrow> m \<in> N \<and> k \<noteq> Other_Kind)"

text \<open>Some of the given names are gone.\<close>

definition shrinks :: "string set \<Rightarrow> files \<Rightarrow> files \<Rightarrow> bool" where
  "shrinks N f f' = (\<exists>R \<subseteq> N. f' = f\<lparr> entries := filter (\<lambda>(n, _). n \<notin> R) (entries f) \<rparr>)"

lemma shrinks_refl: "shrinks N f f"
  by (auto simp: shrinks_def intro!: exI[of _ "{}"])

lemma shrinks_trans: "shrinks N f g \<Longrightarrow> shrinks M g h \<Longrightarrow> shrinks (N \<union> M) f h"
proof -
  assume "shrinks N f g" "shrinks M g h"
  then obtain R S where "R \<subseteq> N" "S \<subseteq> M" "h = f\<lparr> entries := filter (\<lambda>(n, _). n \<notin> S) (filter (\<lambda>(n, _). n \<notin> R) (entries f)) \<rparr>"
    by (auto simp: shrinks_def)
  moreover have "filter (\<lambda>(n, _). n \<notin> S) (filter (\<lambda>(n, _). n \<notin> R) (entries f)) = filter (\<lambda>(n, _). n \<notin> R \<union> S) (entries f)"
    unfolding filter_filter by (rule filter_cong) auto
  ultimately show ?thesis unfolding shrinks_def by (intro exI[of _ "R \<union> S"]) auto
qed

lemma shrinks_mono: "shrinks N f g \<Longrightarrow> N \<subseteq> M \<Longrightarrow> shrinks M f g"
  by (auto simp: shrinks_def)

lemma shrinksD:
  assumes "shrinks N f g"
  shows "set (entries g) \<subseteq> set (entries f)" "locked g = locked f" "unreadable g = unreadable f"
    "e \<in> set (entries f) \<Longrightarrow> fst e \<notin> N \<Longrightarrow> e \<in> set (entries g)"
proof -
  obtain R where R: "R \<subseteq> N" "g = f\<lparr> entries := filter (\<lambda>(n, _). n \<notin> R) (entries f) \<rparr>" using assms by (auto simp: shrinks_def)
  show "set (entries g) \<subseteq> set (entries f)" "locked g = locked f" "unreadable g = unreadable f" using R by auto
  show "e \<in> set (entries f) \<Longrightarrow> fst e \<notin> N \<Longrightarrow> e \<in> set (entries g)" using R by (cases e) auto
qed

lemma map_of_filter_key: "map_of (filter (\<lambda>(n, _). n \<notin> R) es) n = (if n \<in> R then None else map_of es n)"
  by (induction es) auto

definition removable :: "files \<Rightarrow> string \<Rightarrow> bool" where
  "removable f n =
     (case map_of (entries f) n of
        None \<Rightarrow> True
      | Some k \<Rightarrow> k \<noteq> Other_Kind \<and> (k = Directory \<longrightarrow> (\<forall>(m, _) \<in> set (entries f). parent_dir m = n \<longrightarrow> m = n)))"

lemma removable_shrinks: "shrinks N f g \<Longrightarrow> removable f n \<Longrightarrow> removable g n"
  by (auto simp: shrinks_def removable_def map_of_filter_key split: option.splits)

lemma remove_file_ok:
  assumes "parent_dir n \<notin> set (locked f)" "map_of (entries f) n = Some k"
  shows "\<exists>g. remove_file n k f = (True, g) \<and> shrinks {n} f g \<and> (removable f n \<longrightarrow> n \<notin> fst ` set (entries g))"
proof -
  let ?g = "f\<lparr> entries := filter (\<lambda>(m, _). m \<noteq> n) (entries f) \<rparr>"
  have g: "remove_entry n f = (True, ?g)" using assms(1) by (simp add: remove_entry_def)
  have sg: "shrinks {n} f ?g" "n \<notin> fst ` set (entries ?g)" by (auto simp: shrinks_def intro!: exI[of _ "{n}"])
  show ?thesis
  proof (cases k)
    case Directory
    then show ?thesis
      using g sg shrinks_refl[of "{n}" f] assms(2) by (auto simp: rmdir_def removable_def)
  next
    case Other_Kind
    then show ?thesis using assms(2) shrinks_refl[of "{n}" f] by (simp add: removable_def)
  qed (use g sg in \<open>simp_all add: unlink_file_def\<close>)
qed

definition tgt_names :: "bool \<Rightarrow> bool \<Rightarrow> string list \<Rightarrow> rule \<Rightarrow> stirtgt list \<Rightarrow> string set" where
  "tgt_names objs bins strs r ts = (\<lambda>t. strs ! tgtidx t) ` {t \<in> set ts. selected objs bins r t}"

lemma tgt_names_simps:
  "tgt_names objs bins strs r [] = {}"
  "tgt_names objs bins strs r (t # ts) =
     (if selected objs bins r t then insert (strs ! tgtidx t) (tgt_names objs bins strs r ts) else tgt_names objs bins strs r ts)"
  by (auto simp: tgt_names_def)

definition may_remove :: "string set \<Rightarrow> files \<Rightarrow> bool" where
  "may_remove N f = (\<forall>n \<in> N. n \<notin> set (unreadable f) \<and> parent_dir n \<notin> set (locked f))"

lemma gone_shrinks: "shrinks N f g \<Longrightarrow> n \<notin> fst ` set (entries f) \<Longrightarrow> n \<notin> fst ` set (entries g)"
  using shrinksD(1) by fastforce

lemma clean_tgts_ok:
  "may_remove (tgt_names objs bins strs r ts) f \<Longrightarrow>
    \<exists>g. clean_tgts objs bins strs (is_dist r) ts f = Inr g \<and> shrinks (tgt_names objs bins strs r ts) f g \<and>
      (\<forall>n \<in> tgt_names objs bins strs r ts. removable f n \<longrightarrow> n \<notin> fst ` set (entries g))"
proof (induction ts arbitrary: f)
  case Nil
  then show ?case by (auto simp: tgt_names_def shrinks_refl)
next
  case (Cons t ts)
  let ?n = "strs ! tgtidx t" and ?N = "tgt_names objs bins strs r ts"
  show ?case
  proof (cases "selected objs bins r t")
    case False
    then have "tgt_names objs bins strs r (t # ts) = ?N" by (auto simp: tgt_names_def)
    then show ?thesis using Cons False by (auto simp: selected_def Let_def)
  next
    case True
    then have N: "tgt_names objs bins strs r (t # ts) = insert ?n ?N" by (auto simp: tgt_names_def)
    have step: "\<exists>f1. clean_tgts objs bins strs (is_dist r) (t # ts) f = clean_tgts objs bins strs (is_dist r) ts f1 \<and>
        shrinks {?n} f f1 \<and> (removable f ?n \<longrightarrow> ?n \<notin> fst ` set (entries f1))"
    proof (cases "map_of (entries f) ?n")
      case None
      then have "lstat f ?n = Enoent" using Cons.prems by (simp add: lstat_def may_remove_def N)
      moreover have "?n \<notin> fst ` set (entries f)" using None by (simp add: map_of_eq_None_iff)
      ultimately show ?thesis
        using True shrinks_refl[of "{?n}" f] by (intro exI[of _ f]) (auto simp: selected_def Let_def)
    next
      case (Some k)
      then have "lstat f ?n = Found k" "parent_dir ?n \<notin> set (locked f)"
        using Cons.prems by (auto simp: lstat_def may_remove_def N)
      then show ?thesis
        using True remove_file_ok[of ?n f k] Some by (auto simp: selected_def Let_def)
    qed
    then obtain f1 where f1: "clean_tgts objs bins strs (is_dist r) (t # ts) f = clean_tgts objs bins strs (is_dist r) ts f1"
        "shrinks {?n} f f1" "removable f ?n \<longrightarrow> ?n \<notin> fst ` set (entries f1)" by blast
    have "may_remove ?N f1" using Cons.prems shrinksD(2,3)[OF f1(2)] by (auto simp: may_remove_def N)
    then obtain g where g: "clean_tgts objs bins strs (is_dist r) ts f1 = Inr g" "shrinks ?N f1 g"
        "\<forall>n \<in> ?N. removable f1 n \<longrightarrow> n \<notin> fst ` set (entries g)" using Cons.IH by blast
    have "n \<notin> fst ` set (entries g)" if "n \<in> insert ?n ?N" "removable f n" for n
    proof (cases "n = ?n")
      case True
      then show ?thesis using f1(3) that(2) gone_shrinks[OF g(2)] by metis
    next
      case False
      then show ?thesis using g(3) that removable_shrinks[OF f1(2)] by blast
    qed
    moreover have "shrinks (insert ?n ?N) f g" using shrinks_trans[OF f1(2) g(2)] by simp
    ultimately show ?thesis unfolding f1(1) N using g(1) by blast
  qed
qed

lemma clean_names_eq:
  "clean_names objs bins fwd strs s = (\<Union>r \<in> to_clean fwd strs s. tgt_names objs bins strs (rules s r) (tgtlist (rules s r)))"
  by (auto simp: clean_names_def tgt_names_def)

lemma parent_dir_below: "parent_dir m = n \<Longrightarrow> n \<noteq> ''.'' \<Longrightarrow> below m n"
  by (auto simp: parent_dir_def below_def split: option.splits dest!: strrchr_bound)
    (metis take_Suc_conv_app_nth)

lemma below_trans: "below a b \<Longrightarrow> below b c \<Longrightarrow> below a c"
proof -
  have "below a b \<longleftrightarrow> a = b \<or> (\<exists>x. a = b @ ''/'' @ x)" for a b
    unfolding below_def by (metis append_take_drop_id append_assoc take_all_iff append_eq_conv_conj length_append_singleton Suc_eq_plus1)
  then show "below a b \<Longrightarrow> below b c \<Longrightarrow> below a c" by fastforce
qed

text \<open>What is in a directory to clean belongs to a rule that comes before the rule of the directory.\<close>

lemma child_par:
  assumes ok: "clean_setup fwd strs s" and m: "m \<in> clean_names objs bins fwd strs s"
    and n: "r \<in> to_clean fwd strs s" "t \<in> set (tgtlist (rules s r))" "strs ! tgtidx t = n" "parent_dir m = n"
  obtains a where "a \<in> to_clean fwd strs s" "m \<in> tgt_names objs bins strs (rules s a) (tgtlist (rules s a))" "par fwd strs s a = Some r"
proof -
  obtain a u where a: "a \<in> to_clean fwd strs s" "u \<in> set (tgtlist (rules s a))" "selected objs bins (rules s a) u" "m = strs ! tgtidx u"
    using m by (auto simp: clean_names_def)
  obtain c where c: "m = join_slash (dir_comps strs s a @ [c])" "\<forall>x \<in> set (dir_comps strs s a @ [c]). is_name x"
    using plain_dirs[OF ok a(1,2)] a(4) by metis
  have "dir_up m = Inr n" using dir_up_plain[OF c(2)] parent_dir_plain[OF c(2)] n(4) c(1) by simp
  moreover have "st_index n strs = Some (tgtidx t)" "get_ruleid_by_tgt s (tgtidx t) = Some r"
    using ok n st_index_nth[of strs "tgtidx t"] by (auto simp: clean_setup_def clean_tables_def to_clean_def)
  ultimately have "up_rule fwd strs s m = Some (n, r)" using n(1) by (simp add: up_rule_def to_clean_def)
  then have "par fwd strs s a = Some r" using up_rule_par[OF ok a(1,2)] a(4) by simp
  then show ?thesis using that a by (auto simp: tgt_names_def)
qed

lemma before_in: "distinct (us @ a # vs) \<Longrightarrow> us @ a # vs = as @ r # bs \<Longrightarrow> r \<in> set vs \<Longrightarrow> a \<in> set as"
proof (induction as arbitrary: us)
  case Nil
  then show ?case by (cases us) auto
next
  case (Cons x as)
  show ?case
  proof (cases us)
    case Nil
    then show ?thesis using Cons.prems(2) by simp
  next
    case (Cons y us')
    have d: "distinct (us' @ a # vs)" using Cons.prems(1) unfolding Cons by simp
    have e: "us' @ a # vs = as @ r # bs" using Cons.prems(2) unfolding Cons by simp
    show ?thesis using Cons.IH[OF d e Cons.prems(3)] by simp
  qed
qed

lemma below_refl [simp]: "below n n"
  by (simp add: below_def)

lemma clean_loop_ok:
  assumes ok: "clean_setup fwd strs s" and dl: "dll l Cleanlist (map Cleannode xs)"
    and xs: "distinct xs" "set xs = to_clean fwd strs s" "ordered (par fwd strs s) xs"
    and may: "may_remove (clean_names objs bins fwd strs s) f0"
  shows "xs = as @ bs \<Longrightarrow> length bs < k \<Longrightarrow> shrinks (clean_names objs bins fwd strs s) f0 f \<Longrightarrow>
    \<forall>r \<in> set as. \<forall>n \<in> tgt_names objs bins strs (rules s r) (tgtlist (rules s r)).
      clear (clean_names objs bins fwd strs s) f0 n \<longrightarrow> n \<notin> fst ` set (entries f) \<Longrightarrow>
    \<exists>g. clean_loop k objs bins strs (marked X s) l (Some (hd (map Cleannode bs @ [Cleanlist]))) f = Inr g \<and>
      shrinks (clean_names objs bins fwd strs s) f0 g \<and>
      (\<forall>n \<in> clean_names objs bins fwd strs s. clear (clean_names objs bins fwd strs s) f0 n \<longrightarrow> n \<notin> fst ` set (entries g))"
proof (induction bs arbitrary: as f k)
  case Nil
  then have "set as = to_clean fwd strs s" using xs(2) by simp
  then show ?case using Nil by (cases k) (auto simp: clean_names_eq)
next
  case (Cons r bs)
  let ?N = "clean_names objs bins fwd strs s" and ?ts = "tgtlist (rules s r)"
  let ?M = "tgt_names objs bins strs (rules s r) ?ts"
  obtain k' where k: "k = Suc k'" using Cons.prems(2) by (cases k) auto
  have r: "r \<in> to_clean fwd strs s" using Cons.prems(1) xs(2) by auto
  then have M: "?M \<subseteq> ?N" by (auto simp: clean_names_eq)
  have may_f: "may_remove ?M f" using may M shrinksD(2,3)[OF Cons.prems(3)] by (auto simp: may_remove_def)
  obtain g where g: "clean_tgts objs bins strs (is_dist (rules s r)) ?ts f = Inr g" "shrinks ?M f g"
      "\<forall>n \<in> ?M. removable f n \<longrightarrow> n \<notin> fst ` set (entries g)"
    using clean_tgts_ok[OF may_f] by blast
  have "removable f n" if n: "n \<in> ?M" "clear ?N f0 n" for n
  proof (cases "map_of (entries f) n")
    case None
    then show ?thesis by (simp add: removable_def)
  next
    case (Some kd)
    obtain t where t: "t \<in> set ?ts" "strs ! tgtidx t = n" using n(1) by (auto simp: tgt_names_def)
    have sub: "e \<in> set (entries f0)" if "e \<in> set (entries f)" for e using shrinksD(1)[OF Cons.prems(3)] that by blast
    have "kd \<noteq> Other_Kind" using n(2) sub[OF map_of_SomeD[OF Some]] by (auto simp: clear_def)
    moreover have False if m: "(m, km) \<in> set (entries f)" "parent_dir m = n" "m \<noteq> n" for m km
    proof -
      obtain c where "n = join_slash (dir_comps strs s r @ [c])" "\<forall>x \<in> set (dir_comps strs s r @ [c]). is_name x"
        using plain_dirs[OF ok r t(1)] t(2) by metis
      then have "below m n" using m(2) join_plain_not_dot parent_dir_below by blast
      then have "m \<in> ?N" "clear ?N f0 m" using n(2) sub[OF m(1)] below_trans by (auto simp: clear_def)
      from child_par[OF ok this(1) r t m(2)] obtain a where a: "a \<in> to_clean fwd strs s"
          "m \<in> tgt_names objs bins strs (rules s a) (tgtlist (rules s a))" "par fwd strs s a = Some r" by blast
      obtain us vs where "xs = us @ a # vs" using a(1) xs(2) by (metis split_list)
      moreover from this have "r \<in> set vs" using ordered_split a(3) xs(3) by metis
      ultimately have "a \<in> set as" using Cons.prems(1) xs(1) before_in[of us a vs as r bs] by metis
      then show False using Cons.prems(4) a(2) \<open>clear ?N f0 m\<close> m(1) by force
    qed
    ultimately show ?thesis using Some by (auto simp: removable_def)
  qed
  then have gone: "\<forall>n \<in> ?M. clear ?N f0 n \<longrightarrow> n \<notin> fst ` set (entries g)" using g(3) by blast
  have "\<forall>q \<in> set (as @ [r]). \<forall>n \<in> tgt_names objs bins strs (rules s q) (tgtlist (rules s q)). clear ?N f0 n \<longrightarrow> n \<notin> fst ` set (entries g)"
    using Cons.prems(4) gone gone_shrinks[OF g(2)] by auto
  moreover have "shrinks ?N f0 g" using shrinks_mono[OF shrinks_trans[OF Cons.prems(3) g(2)]] M by blast
  moreover have "node_next l (Cleannode r) = Some (hd (map Cleannode bs @ [Cleanlist]))"
    using dll_ends(1)[of l Cleanlist "map Cleannode (as @ [r])" "map Cleannode bs"] dl Cons.prems(1) by simp
  ultimately show ?case using Cons.IH[of "as @ [r]" k' g] Cons.prems(1,2) g(1) by (simp add: k)
qed

text \<open>
  C35: Cleaning rules with plain targets, whose files may be removed: when the targets of each rule to clean are all in one directory
  and their names are plain (\<open>plain_targets\<close>), the tables of targets agree with the rules (\<open>clean_tables\<close>), and no target to remove
  is unreadable or in a directory that cannot be written (\<open>may_remove\<close>), cleaning ends, and removes targets of the rules to
  clean only; a target that is a file is removed, and a directory is when everything below it is a target to remove.  Without the
  condition on the targets cleaning need not end (\<open>clean_never_ends\<close>).
\<close>

theorem clean_removes:
  assumes "clean_tables strs s" "plain_targets fwd strs s" "may_remove (clean_names objs bins fwd strs s) f" "rules_size s < k"
  shows "\<exists>g. clean_end k fwd objs bins strs s f = Inr g \<and> set (entries g) \<subseteq> set (entries f) \<and>
    (\<forall>e \<in> set (entries f). fst e \<notin> clean_names objs bins fwd strs s \<longrightarrow> e \<in> set (entries g)) \<and>
    (\<forall>n \<in> clean_names objs bins fwd strs s. clear (clean_names objs bins fwd strs s) f n \<longrightarrow> n \<notin> fst ` set (entries g))"
proof -
  let ?N = "clean_names objs bins fwd strs s"
  let ?l = "linked_list_head_init Cleanlist \<lparr> node_next = (\<lambda>_. None), node_prev = (\<lambda>_. None) \<rparr>"
  have ok: "clean_setup fwd strs s" using assms by (simp add: clean_setup_def)
  obtain xs l where xs: "clean_rules fwd strs [0..<rules_size s] (s, ?l) = Inr (marked (set xs) s, l)"
      "dll l Cleanlist (map Cleannode xs)" "distinct xs" "set xs = to_clean fwd strs s" "ordered (par fwd strs s) xs"
    using clean_rules_list[OF ok dll_head_init] by blast
  have "card (set xs) \<le> card {..< rules_size s}" unfolding xs(4) by (intro card_mono) (auto simp: to_clean_def)
  then have "length xs < k" using assms(4) distinct_card[OF xs(3)] by simp
  then obtain g where g: "clean_loop k objs bins strs (marked (set xs) s) l (Some (hd (map Cleannode xs @ [Cleanlist]))) f = Inr g"
      "shrinks ?N f g" "\<forall>n \<in> ?N. clear ?N f n \<longrightarrow> n \<notin> fst ` set (entries g)"
    using clean_loop_ok[OF ok xs(2-5) assms(3), where as = "[]" and bs = xs and k = k and f = f and X = "set xs"] shrinks_refl[of ?N f] by auto
  have "node_next l Cleanlist = Some (hd (map Cleannode xs @ [Cleanlist]))"
    using dll_ends(1)[of l Cleanlist "[]" "map Cleannode xs"] xs(2) by simp
  then have "clean_end k fwd objs bins strs s f = Inr g" using xs(1) g(1) by (simp add: clean_end_def)
  then show ?thesis using g(3) shrinksD(1,4)[OF g(2)] by blast
qed

lemma ex_clean_names: "clean_names True False ''.'' ex_strs ex_clean = {''d'', ''d/f''}"
proof -
  have "to_clean ''.'' ex_strs ex_clean = {0, Suc 0}" by (auto simp: to_clean_def less_2_cases_iff)
  then show ?thesis by (simp add: clean_names_eq tgt_names_simps selected_def insert_commute)
qed

theorem clean_removes_witness:
  "\<exists>g. clean_end 3 ''.'' True False ex_strs ex_clean
      \<lparr> entries = [(''d'', Directory), (''d/f'', Regular), (''f.c'', Regular)], locked = [], unreadable = [] \<rparr> = Inr g \<and>
    set (entries g) = {(''f.c'', Regular)}"
proof -
  let ?f = "\<lparr> entries = [(''d'', Directory), (''d/f'', Regular), (''f.c'', Regular)], locked = [], unreadable = [] \<rparr>"
  have "may_remove (clean_names True False ''.'' ex_strs ex_clean) ?f" by (simp add: may_remove_def)
  from clean_removes[OF ex_clean_setup this, of 3] obtain g
    where g: "clean_end 3 ''.'' True False ex_strs ex_clean ?f = Inr g" "set (entries g) \<subseteq> set (entries ?f)"
      "\<forall>e \<in> set (entries ?f). fst e \<notin> {''d'', ''d/f''} \<longrightarrow> e \<in> set (entries g)"
      "\<forall>n \<in> {''d'', ''d/f''}. clear {''d'', ''d/f''} ?f n \<longrightarrow> n \<notin> fst ` set (entries g)"
    unfolding ex_clean_names by auto
  have "clear {''d'', ''d/f''} ?f ''d''" "clear {''d'', ''d/f''} ?f ''d/f''" by (simp_all add: clear_def below_def)
  then have "(''d'', x) \<notin> set (entries g)" "(''d/f'', x) \<notin> set (entries g)" for x using g(4) by force+
  moreover have "(''f.c'', Regular) \<in> set (entries g)" using g(3) by simp
  ultimately have "set (entries g) = {(''f.c'', Regular)}" using g(2) by auto
  then show ?thesis using g(1) by blast
qed

definition ex_ring :: base where
  "ex_ring = ex_clean\<lparr> rules_size := 1, st_ruleid := (\<lambda>i. if i = 1 \<or> i = 2 then 0 else -1),
     rules := (\<lambda>r. zero_rule\<lparr> tgtlist := [\<lparr> tgtidx = 1, tgtidxnodir = None, tgt_is_dist = False \<rparr>,
       \<lparr> tgtidx = 2, tgtidxnodir = None, tgt_is_dist = False \<rparr>] \<rparr>) \<rparr>"

lemma ring_never_ends:
  assumes "node_next l (Cleannode r) = Some (Cleannode r)"
  shows "may_remove (tgt_names objs bins strs (rules s r) (tgtlist (rules s r))) f \<Longrightarrow>
    clean_loop k objs bins strs s l (Some (Cleannode r)) f = Inl NoFuel"
proof (induction k arbitrary: f)
  case 0
  then show ?case by simp
next
  case (Suc k)
  obtain g where g: "clean_tgts objs bins strs (is_dist (rules s r)) (tgtlist (rules s r)) f = Inr g"
      "shrinks (tgt_names objs bins strs (rules s r) (tgtlist (rules s r))) f g"
    using clean_tgts_ok[OF Suc.prems] by blast
  then show ?case using Suc assms shrinksD(2,3)[OF g(2)] by (auto simp: may_remove_def)
qed

text \<open>
  A rule with a directory and something in it among its targets is put into the list twice, which makes the list a ring:
  cleaning does not end.
\<close>

theorem clean_never_ends:
  assumes "may_remove {''d'', ''d/f''} f"
  shows "clean_end k ''.'' True False [''.'', ''d'', ''d/f''] ex_ring f = Inl NoFuel"
proof -
  have up: "dir_up ''d'' = Inr ''.''" "dir_up ''d/f'' = Inr ''d''"
    using dir_up_plain[of "[]" "''d''"] dir_up_plain[of "[''d'']" "''f''"] by (simp_all add: is_name_def is_comp_def)
  let ?s = "upd_rule 0 (is_cleanqueued_update (\<lambda>_. True)) (upd_rule 0 (is_cleanqueued_update (\<lambda>_. True)) ex_ring)"
  obtain l where l: "clean_rules ''.'' [''.'', ''d'', ''d/f''] [0..<1]
      (ex_ring, linked_list_head_init Cleanlist \<lparr> node_next = (\<lambda>_. None), node_prev = (\<lambda>_. None) \<rparr>) = Inr (?s, l)"
    "node_next l Cleanlist = Some (Cleannode 0)" "node_next l (Cleannode 0) = Some (Cleannode 0)"
    by (simp add: ex_ring_def ex_clean_def up cleanable_def under_dir_def clean_target_def get_ruleid_by_tgt_def Let_def upd_rule_def
      linked_list_head_init_def linked_list_add_head_def linked_list_delete_def set_next_def set_prev_def deref_def
      LINKED_LIST_FOR_EACH_SAFE_def)
  have "tgt_names True False [''.'', ''d'', ''d/f''] (rules ?s 0) (tgtlist (rules ?s 0)) = {''d'', ''d/f''}"
    by (simp add: tgt_names_simps selected_def ex_ring_def)
  then show ?thesis
    using l ring_never_ends[OF l(3), of True False "[''.'', ''d'', ''d/f'']" ?s f k] assms
    by (simp add: clean_end_def ex_ring_def)
qed

theorem clean_never_ends_witness:
  "clean_end 100 ''.'' True False [''.'', ''d'', ''d/f''] ex_ring \<lparr> entries = [(''d'', Directory)], locked = [], unreadable = [] \<rparr> = Inl NoFuel"
  by (rule clean_never_ends) (simp add: may_remove_def)

section \<open>The hooks\<close>

definition hook_rule :: "string \<Rightarrow> bool \<Rightarrow> bool \<Rightarrow> gbase \<Rightarrow> nat \<Rightarrow> bool" where
  "hook_rule fwd_path objs bins s i =
     (under_dir fwd_path (names s ! diridx (rules s i)) \<and> hook_applies objs bins (rules s i))"

text \<open>The name of the hook one directory up, and what a hook adds to the dependencies.\<close>

definition hook_parent :: "string \<Rightarrow> string \<Rightarrow> string" where
  "hook_parent cleanstr prefix = (case canon (prefix @ ''/../'' @ cleanstr) of Inr c \<Rightarrow> c @ ''///'' | Inl _ \<Rightarrow> [])"

definition hook_deps :: "string \<Rightarrow> gbase \<Rightarrow> nat \<Rightarrow> (string \<times> string option) set" where
  "hook_deps cleanstr s i =
     (let p = hook_parent cleanstr (names s ! diridx (rules s i)) in
      if take 3 p = ''../'' then {} else {(p, None), (p, Some (names s ! tgtidx (hd (tgtlist (rules s i)))))})"

text \<open>Every hook has a target, and the names of a rule are in the string table.\<close>

definition hooks_ok :: "gbase \<Rightarrow> bool" where
  "hooks_ok s = (\<forall>i < rules_size s. diridx (rules s i) < length (names s) \<and> tgtlist (rules s i) \<noteq> [] \<and>
     (\<forall>t \<in> set (tgtlist (rules s i)). tgtidx t < length (names s)))"

definition hook_same :: "gbase \<Rightarrow> gbase \<Rightarrow> bool" where
  "hook_same s s' = (rules_size s' = rules_size s \<and> ext (names s) (names s') \<and>
     (\<forall>i. diridx (rules s' i) = diridx (rules s i) \<and> tgtlist (rules s' i) = tgtlist (rules s i) \<and>
       is_cleanhook (rules s' i) = is_cleanhook (rules s i) \<and> is_distcleanhook (rules s' i) = is_distcleanhook (rules s i) \<and>
       is_bothcleanhook (rules s' i) = is_bothcleanhook (rules s i)))"

lemma hook_same_views:
  assumes "hook_same s s'" "hooks_ok s"
  shows "hooks_ok s'" "i < rules_size s \<Longrightarrow> hook_rule fwd objs bins s' i = hook_rule fwd objs bins s i"
    "i < rules_size s \<Longrightarrow> hook_deps cleanstr s' i = hook_deps cleanstr s i" "rules_size s' = rules_size s"
proof -
  have e: "\<And>j. j < length (names s) \<Longrightarrow> names s' ! j = names s ! j" "length (names s) \<le> length (names s')"
    using assms(1) ext_nth ext_length by (auto simp: hook_same_def)
  show "hooks_ok s'" using assms e(2) by (fastforce simp: hook_same_def hooks_ok_def)
  show "rules_size s' = rules_size s" using assms(1) by (simp add: hook_same_def)
  assume i: "i < rules_size s"
  show "hook_rule fwd objs bins s' i = hook_rule fwd objs bins s i"
    using assms e(1) i by (auto simp: hook_rule_def hook_same_def hooks_ok_def hook_applies_def)
  have "tgtidx (hd (tgtlist (rules s i))) < length (names s)" using assms(2) i by (auto simp: hooks_ok_def)
  then show "hook_deps cleanstr s' i = hook_deps cleanstr s i"
    using assms e(1) i by (simp add: hook_deps_def hook_same_def hooks_ok_def Let_def)
qed

lemma hook_same_trans: "hook_same a b \<Longrightarrow> hook_same b c \<Longrightarrow> hook_same a c"
  by (auto simp: hook_same_def intro: ext_trans)

lemma clean_hook_ok:
  assumes st: "stage_ok W s" and i: "i < rules_size s" "hooks_ok s"
  shows "\<exists>s'. clean_hook cleanstr i s = Inr s' \<and> stage_ok W s' \<and> hook_same s s' \<and>
    rules_remain_list s' = rules_remain_list s @ (if remain (rules s i) then [] else [i]) \<and>
    (\<forall>j. remain (rules s' j) = (remain (rules s j) \<or> j = i)) \<and> added s' = added s \<union> hook_deps cleanstr s i"
proof -
  let ?pre = "names s ! diridx (rules s i)"
  let ?p = "?pre @ ''/../'' @ cleanstr"
  obtain c where c: "canon_buflen ?p (Some 1024) = Inr (c, length c)" "canon ?p = Inr c"
    using canon_buflen_spec[of ?p] canon_spec[of ?p] by simp
  have hp: "hook_parent cleanstr ?pre = c @ ''///''" by (simp only: hook_parent_def c(2) sum.case)
  obtain t ts where t: "tgtlist (rules s i) = t # ts" using i by (cases "tgtlist (rules s i)") (auto simp: hooks_ok_def)
  let ?s = "if take 3 (c @ ''///'') \<noteq> ''../'' then add_dep [c @ ''///''] [names s ! tgtidx t] False False False s else s"
  have "collects s ?s (hook_deps cleanstr s i)"
    using add_dep_ok[of s "[c @ ''///'']" "[names s ! tgtidx t]" False False False] st collects_refl[of s]
    by (auto simp: stage_ok_def hook_deps_def hp t dep_pairs_def Let_def)
  moreover have "closed_pairs (hook_deps cleanstr s i)" by (auto simp: closed_pairs_def hook_deps_def Let_def)
  ultimately have cs: "collects s ?s (hook_deps cleanstr s i)" "stage_ok W ?s"
    using stage_collects[OF st] by auto
  have run: "clean_hook cleanstr i s = Inr (ruleremain_add i ?s)"
    unfolding clean_hook_def Let_def using c(1) t by (simp add: put_buf_def)
  let ?s' = "ruleremain_add i ?s"
  have n: "names ?s' = names ?s" "added ?s' = added ?s"
    by (simp_all add: ruleremain_add_def upd_rule_def added_def)
  note d = collectsD[OF cs(1)]
  have "stage_ok W ?s'" using stage_goal[OF cs(2)] i(1) d(6) by simp
  moreover have "hook_same s ?s'"
    using d(3,4,6) n(1) by (auto simp: hook_same_def ruleremain_add_def upd_rule_def)
  moreover have "rules_remain_list ?s' = rules_remain_list s @ (if remain (rules s i) then [] else [i])"
    "\<forall>j. remain (rules ?s' j) = (remain (rules s j) \<or> j = i)"
    using d(4,7) by (auto simp: ruleremain_add_def upd_rule_def)
  ultimately show ?thesis using run n(2) d(5) by blast
qed

lemma clean_hooks_ok:
  "stage_ok W s \<Longrightarrow> hooks_ok s \<Longrightarrow> distinct is \<Longrightarrow> set is \<subseteq> {..< rules_size s} \<Longrightarrow>
    \<exists>s'. clean_hooks fwd cleanstr objs bins is s = Inr s' \<and> stage_ok W s' \<and> hook_same s s' \<and>
      rules_remain_list s' = rules_remain_list s @ filter (\<lambda>i. hook_rule fwd objs bins s i \<and> \<not> remain (rules s i)) is \<and>
      added s' = added s \<union> (\<Union>i \<in> {i \<in> set is. hook_rule fwd objs bins s i}. hook_deps cleanstr s i)"
proof (induction "is" arbitrary: s)
  case Nil
  then show ?case by (auto simp: hook_same_def ext_def)
next
  case (Cons i "is")
  show ?case
  proof (cases "hook_rule fwd objs bins s i")
    case False
    then show ?thesis using Cons.IH[of s] Cons.prems by (auto simp: hook_rule_def)
  next
    case True
    obtain s1 where s1: "clean_hook cleanstr i s = Inr s1" "stage_ok W s1" "hook_same s s1"
        "rules_remain_list s1 = rules_remain_list s @ (if remain (rules s i) then [] else [i])"
        "\<forall>j. remain (rules s1 j) = (remain (rules s j) \<or> j = i)" "added s1 = added s \<union> hook_deps cleanstr s i"
      using clean_hook_ok[OF Cons.prems(1), of i cleanstr] Cons.prems(2,4) by auto
    note v = hook_same_views[OF s1(3) Cons.prems(2)]
    have is_ok: "set is \<subseteq> {..< rules_size s1}" "i \<notin> set is" "set is \<subseteq> {..< rules_size s}" using Cons.prems(3,4) v(4) by auto
    obtain s2 where s2: "clean_hooks fwd cleanstr objs bins is s1 = Inr s2" "stage_ok W s2" "hook_same s1 s2"
        "rules_remain_list s2 = rules_remain_list s1 @ filter (\<lambda>i. hook_rule fwd objs bins s1 i \<and> \<not> remain (rules s1 i)) is"
        "added s2 = added s1 \<union> (\<Union>i \<in> {i \<in> set is. hook_rule fwd objs bins s1 i}. hook_deps cleanstr s1 i)"
      using Cons.IH[OF s1(2) v(1) _ is_ok(1)] Cons.prems(3) by auto
    have "filter (\<lambda>i. hook_rule fwd objs bins s1 i \<and> \<not> remain (rules s1 i)) is =
        filter (\<lambda>i. hook_rule fwd objs bins s i \<and> \<not> remain (rules s i)) is"
      using v(2) s1(5) is_ok by (intro filter_cong) auto
    moreover have "(\<Union>i \<in> {i \<in> set is. hook_rule fwd objs bins s1 i}. hook_deps cleanstr s1 i) =
        (\<Union>i \<in> {i \<in> set is. hook_rule fwd objs bins s i}. hook_deps cleanstr s i)"
      using v(2,3) is_ok(3) by (intro SUP_cong) auto
    moreover have "clean_hooks fwd cleanstr objs bins (i # is) s = Inr s2"
      using True s1(1) s2(1) by (simp add: hook_rule_def)
    ultimately show ?thesis
      using s1(4,6) s2(2,4,5) hook_same_trans[OF s1(3) s2(3)] True by auto
  qed
qed

text \<open>
  The goals of a clean are exactly the hooks of its kind in the directory, in the order of the rules and once; each becomes a
  dependency of the hook one directory up, unless that is outside of the project; nothing else is added.
\<close>

theorem clean_goals:
  assumes "stage_ok W s" "hooks_ok s" "clean_str objs bins = Some cleanstr"
  shows "\<exists>s'. clean_hooks fwd cleanstr objs bins [0..<rules_size s] s = Inr s' \<and> stage_ok W s' \<and>
    rules_remain_list s' = rules_remain_list s @ filter (\<lambda>i. hook_rule fwd objs bins s i \<and> \<not> remain (rules s i)) [0..<rules_size s] \<and>
    added s' = added s \<union> (\<Union>i \<in> {i. i < rules_size s \<and> hook_rule fwd objs bins s i}. hook_deps cleanstr s i)"
proof -
  have "{i \<in> set [0..<rules_size s]. hook_rule fwd objs bins s i} = {i. i < rules_size s \<and> hook_rule fwd objs bins s i}" by auto
  then show ?thesis
    using clean_hooks_ok[OF assms(1,2), of "[0..<rules_size s]" fwd cleanstr objs bins] by (auto simp: atLeast0LessThan)
qed

definition ex_hook :: gbase where
  "ex_hook = gbase_init\<lparr> rules := (\<lambda>r. if r = 0 then zero_rule\<lparr> is_cleanhook := True, is_phony := True, tgts := {1},
       tgtlist := [\<lparr> tgtidx = 1, tgtidxnodir = None, tgt_is_dist = False \<rparr>] \<rparr> else zero_rule),
     rules_size := 1, st_ruleid := (\<lambda>i. if i = 1 then 0 else -1), names := [''a'', ''a/CLEAN///''] \<rparr>"

lemma ex_hook_ok: "stage_ok True ex_hook" "hooks_ok ex_hook"
proof -
  have r: "rules ex_hook r = (if r = 0 then zero_rule\<lparr> is_cleanhook := True, is_phony := True, tgts := {1},
       tgtlist := [\<lparr> tgtidx = 1, tgtidxnodir = None, tgt_is_dist = False \<rparr>] \<rparr> else zero_rule)" for r
    by (simp add: ex_hook_def)
  have s: "rules_size ex_hook = 1" "st_ruleid ex_hook = (\<lambda>i. if i = 1 then 0 else -1)" "names ex_hook = [''a'', ''a/CLEAN///'']"
    "rules_remain_list ex_hook = []" "later_blocks ex_hook = []" "add_blocks ex_hook = []"
    by (simp_all add: ex_hook_def gbase_init_def)
  have z: "firstdepblock zero_rule = []" "deplist zero_rule = []" "tgts zero_rule = {}" "deps zero_rule = {}" "diridx zero_rule = 0"
      "\<not> remain zero_rule" "\<not> is_executed zero_rule"
    by (simp_all add: zero_rule_def)
  have "setup_rule (rules ex_hook r)" for r
    using zero_rule_setup(1) by (simp add: r setup_rule_def raw_rule_def)
  moreover have "tgts_ok ex_hook" by (auto simp: tgts_ok_def r s z)
  moreover have "edges_ok False ex_hook" by (auto simp: edges_ok_def back_deps_def later_deps_def r s z)
  moreover have "remain_ok ex_hook" by (auto simp: remain_ok_def r s z)
  ultimately have "gb_ok False ex_hook" by (simp add: gb_ok_def s r)
  moreover have "names_ok ex_hook" by (auto simp: names_ok_def s r z)
  moreover have "added_closed ex_hook" by (simp add: added_closed_def added_def s)
  moreover have "no_wait ex_hook" by (auto simp: no_wait_def r z)
  ultimately show "stage_ok True ex_hook" by (simp add: stage_ok_def)
  show "hooks_ok ex_hook" by (simp add: hooks_ok_def s r z)
qed

theorem clean_goals_witness:
  "\<exists>s'. clean_hooks ''.'' ''CLEAN'' True False [0..<rules_size ex_hook] ex_hook = Inr s' \<and> rules_remain_list s' = [0] \<and>
    added s' = {(''CLEAN///'', None), (''CLEAN///'', Some ''a/CLEAN///'')}"
proof -
  have "canon ''a/../CLEAN'' = Inr ''CLEAN''"
    by (simp add: canon_spec is_abs_def comps_def render_def split_slash.simps push_comp_def)
  then have "hook_deps ''CLEAN'' ex_hook 0 = {(''CLEAN///'', None), (''CLEAN///'', Some ''a/CLEAN///'')}"
    by (simp add: hook_deps_def hook_parent_def ex_hook_def zero_rule_def Let_def)
  moreover have "{i. i < rules_size ex_hook \<and> hook_rule ''.'' True False ex_hook i} = {0}" "rules_remain_list ex_hook = []"
      "added ex_hook = {}" "filter (\<lambda>i. hook_rule ''.'' True False ex_hook i \<and> \<not> remain (rules ex_hook i)) [0..<rules_size ex_hook] = [0]"
    by (auto simp: ex_hook_def gbase_init_def hook_rule_def hook_applies_def under_dir_def added_def zero_rule_def)
  ultimately show ?thesis
    using clean_goals[OF ex_hook_ok, of True False "''CLEAN''" "''.''"] by (auto simp: clean_str_def)
qed

end
