(* ===== verification/Jobs.thy ===== *)
theory Jobs
  imports Run_Loop By_Pid "HOL-Library.Multiset"
begin

text \<open>
  Processes and job server tokens in \<open>run_loop\<close> and \<open>errxit\<close> (\<open>stirmake.c\<close>): before a second recipe runs, a byte is taken from
  the pipe of the job server, and a byte is written back when a recipe is ended while others still run; the first one needs no byte.
  The table of running processes is the component \<open>By_Pid\<close>.

  The position in \<open>run_loop\<close> is a part of the state.  What the system calls answer is chosen by the rules of \<open>job_step\<close>:
  which process has ended and how, what is in the pipe (other programs take bytes from it and give them back), the identifiers
  of a new process and of its pipe.  \<open>calls\<close> is the sequence of effects on other processes and on files.  A \<open>write\<close> to the job server
  succeeds, since the pipe had room for the byte before it was taken.  Touch mode is left out.
\<close>

section \<open>State\<close>

datatype wstatus = Exit_Status nat | Term_Signal nat

text \<open>What \<open>waitpid(-1, ...)\<close> returns: a process, zero, or \<open>ECHILD\<close>.\<close>

datatype waitres = Ended int wstatus | None_Ended | Echild

datatype outsync = OUT_SYNC_NOT_SET_YET | OUT_SYNC_NONE | OUT_SYNC_LINE | OUT_SYNC_TARGET | OUT_SYNC_RECURSE

datatype call = Took char | Gave char | Started nat int int | Drained nat int | Dumped nat | Closed int | Unlinked nat | Sent_Signal int

datatype pc = Forking | Selecting | Reaping | Out

record jobcfg =
  doasmuchascan :: bool
  ignoreerr :: bool
  out_sync :: outsync

record 'w jobs =
  lp :: "'w loop"
  pids :: bypids
  globfds :: "int set"
  jobserver_chars :: string
  procs :: "(int \<times> wstatus option) list"
  jobpipe :: string
  at_pc :: pc
  calls :: "call list"

text \<open>A call may return, end in \<open>errxit\<close>, or in \<open>my_abort\<close>.\<close>

datatype 'j after = Next 'j | Errxit 'j | Abort

fun and_then :: "'j after \<Rightarrow> ('j \<Rightarrow> 'j after) \<Rightarrow> 'j after" where
  "and_then (Next j) f = f j"
| "and_then x f = x"

definition JOBSERVER_CHARS :: nat where "JOBSERVER_CHARS = 1024"

section \<open>The job server\<close>

text \<open>The byte that is written back is the one taken last; when none is stored, it is a dot.\<close>

definition write_jobserver :: "'w jobs \<Rightarrow> 'w jobs" where
  "write_jobserver j =
     (let (c, cs) = (if jobserver_chars j \<noteq> [] then (last (jobserver_chars j), butlast (jobserver_chars j))
                     else (CHR ''.'', jobserver_chars j)) in
      j\<lparr> jobserver_chars := cs, jobpipe := jobpipe j @ [c], calls := calls j @ [Gave c] \<rparr>)"

definition read_jobserver :: "'w jobs \<Rightarrow> bool \<times> 'w jobs" where
  "read_jobserver j =
     (case jobpipe j of
        [] \<Rightarrow> (False, j)
      | ch # rest \<Rightarrow>
          (True, j\<lparr> jobpipe := rest, calls := calls j @ [Took ch],
             jobserver_chars := (if length (jobserver_chars j) < JOBSERVER_CHARS then jobserver_chars j @ [ch]
                                 else jobserver_chars j) \<rparr>))"

section \<open>Starting and ending processes\<close>

definition job_ready :: "nat \<Rightarrow> 'w jobs \<Rightarrow> bool" where
  "job_ready r j = ready r (sch (lp j))"

text \<open>
  \<open>spawn_child\<close>: \<open>None\<close> stands for a failed \<open>pipe\<close>, \<open>chdir\<close>, \<open>fork\<close> or \<open>exec\<close>.  The words of a command start with its three flags
  (\<open>cmd_head\<close>).
\<close>

definition spawn_job :: "jobcfg \<Rightarrow> (int \<Rightarrow> nat) \<Rightarrow> nat \<Rightarrow> (int \<times> int) option \<Rightarrow> 'w jobs \<Rightarrow> 'w jobs after" where
  "spawn_job cfg hash r sr j =
     (let a = rules (sch (lp j)) r; was_first = (cmdidx a = 0); j0 = j in
      case spawn_child r (sch (lp j)) of
        Inl _ \<Rightarrow> Abort
      | Inr s \<Rightarrow>
          let args = cmd a ! cmdidx a; j = j\<lparr> lp := (lp j)\<lparr> sch := s \<rparr> \<rparr> in
          (case sr of
             None \<Rightarrow> Errxit j
           | Some (pid, rd) \<Rightarrow>
               let j = (if was_first then j\<lparr> lp := (lp j)\<lparr> children := r # children (lp j) \<rparr> \<rparr> else j);
                   fd = (if out_sync cfg \<noteq> OUT_SYNC_NONE then rd else -1) in
               (case ruleid_by_pid_insert hash (int r) pid fd (take 1 args = [''I'']) (pids j) of
                  Inl _ \<Rightarrow> Abort
                | Inr p \<Rightarrow>
                    Next (j\<lparr> pids := p, globfds := (if fd \<ge> 0 then insert fd (globfds j) else globfds j),
                       procs := procs j @ [(pid, None)], calls := calls j @ [Started r pid fd] \<rparr>))))"

definition fork_job :: "jobcfg \<Rightarrow> (int \<Rightarrow> nat) \<Rightarrow> (int \<times> int) option \<Rightarrow> 'w jobs \<Rightarrow> 'w jobs after" where
  "fork_job cfg hash sr j =
     and_then (spawn_job cfg hash (last (ruleids_to_run (sch (lp j)))) sr j) (\<lambda>j.
       Next (j\<lparr> lp := (lp j)\<lparr> sch := (sch (lp j))\<lparr> ruleids_to_run := butlast (ruleids_to_run (sch (lp j))) \<rparr> \<rparr> \<rparr>))"

definition close_fd :: "bool \<Rightarrow> nat \<Rightarrow> int \<Rightarrow> 'w jobs \<Rightarrow> 'w jobs" where
  "close_fd dump r fd j =
     (if fd < 0 then j
      else j\<lparr> globfds := globfds j - {fd},
              calls := calls j @ [Drained r fd] @ (if dump then [Dumped r] else []) @ [Closed fd] \<rparr>)"

definition drop_child :: "nat \<Rightarrow> 'w jobs \<Rightarrow> 'w jobs" where
  "drop_child r j = j\<lparr> lp := (lp j)\<lparr> children := remove1 r (children (lp j)) \<rparr> \<rparr>"

definition unlink_targets :: "nat \<Rightarrow> 'w jobs \<Rightarrow> 'w jobs" where
  "unlink_targets r j = j\<lparr> calls := calls j @ [Unlinked r] \<rparr>"

definition give_back :: "'w jobs \<Rightarrow> 'w jobs" where
  "give_back j = (if children (lp j) \<noteq> [] then write_jobserver j else j)"

text \<open>A process has ended badly, and its result counts.\<close>

definition recipe_failed :: "jobcfg \<Rightarrow> (int \<Rightarrow> nat) \<Rightarrow> int \<Rightarrow> wstatus \<Rightarrow> 'w jobs \<Rightarrow> bool" where
  "recipe_failed cfg hash pid st j =
     (\<not> ignoreerr cfg \<and> st \<noteq> Exit_Status 0 \<and> ignore_by_pid hash pid (pids j) \<noteq> Some True)"

definition reap_failed :: "jobcfg \<Rightarrow> (int \<Rightarrow> nat) \<Rightarrow> int \<Rightarrow> 'w jobs \<Rightarrow> 'w jobs after" where
  "reap_failed cfg hash pid j =
     (case ruleid_by_pid_erase hash pid (pids j) of
        (None, _) \<Rightarrow> Abort
      | (Some (ruleid, fd), p) \<Rightarrow>
          let r = nat ruleid; j = unlink_targets r (drop_child r (close_fd True r fd (j\<lparr> pids := p \<rparr>))) in
          if doasmuchascan cfg then Next (j\<lparr> lp := (lp j)\<lparr> cmdfailed := True \<rparr> \<rparr>) else Errxit j)"

definition reap_ended :: "'w ops \<Rightarrow> jobcfg \<Rightarrow> (int \<Rightarrow> nat) \<Rightarrow> int \<Rightarrow> (int \<times> int) option \<Rightarrow> 'w jobs \<Rightarrow> 'w jobs after" where
  "reap_ended ops cfg hash pid sr j =
     (if children (lp j) = [] \<and> ruleids_to_run (sch (lp j)) = [] then Abort
      else case ruleid_by_pid_erase hash pid (pids j) of
        (None, _) \<Rightarrow> Abort
      | (Some (ruleid, fd), p) \<Rightarrow>
          let r = nat ruleid;
              j = close_fd (out_sync cfg = OUT_SYNC_LINE \<or> job_ready r j) r fd (j\<lparr> pids := p \<rparr>) in
          if \<not> job_ready r j then spawn_job cfg hash r sr j
          else
            let j = give_back (drop_child r j) in
            (case mark_executed ops (sched_fuel (sch (lp j))) r True (sch (lp j)) of
               Inl (Exited _) \<Rightarrow> Errxit j
             | Inl _ \<Rightarrow> Abort
             | Inr s \<Rightarrow> Next (j\<lparr> lp := (lp j)\<lparr> sch := s \<rparr> \<rparr>)))"

text \<open>One round of the loop that calls \<open>waitpid\<close>.\<close>

definition reap :: "'w ops \<Rightarrow> jobcfg \<Rightarrow> (int \<Rightarrow> nat) \<Rightarrow> waitres \<Rightarrow> (int \<times> int) option \<Rightarrow> 'w jobs \<Rightarrow> 'w jobs after" where
  "reap ops cfg hash w sr j =
     (case w of
        None_Ended \<Rightarrow> Next (j\<lparr> at_pc := Forking \<rparr>)
      | Ended pid st \<Rightarrow>
          let j = j\<lparr> procs := filter (\<lambda>(p, _). p \<noteq> pid) (procs j) \<rparr> in
          if recipe_failed cfg hash pid st j then reap_failed cfg hash pid j
          else reap_ended ops cfg hash pid sr j
      | Echild \<Rightarrow>
          Next (j\<lparr> at_pc := (if children (lp j) = [] \<and> ruleids_to_run (sch (lp j)) = [] then Out else Forking) \<rparr>))"

section \<open>The loop\<close>

definition waitpid :: "'w jobs \<Rightarrow> waitres \<Rightarrow> bool" where
  "waitpid j w =
     (case w of
        Ended pid st \<Rightarrow> (pid, Some st) \<in> set (procs j)
      | None_Ended \<Rightarrow> procs j \<noteq> [] \<and> (\<forall>(pid, st) \<in> set (procs j). st = None)
      | Echild \<Rightarrow> procs j = [])"

text \<open>A new process has an identifier that no other one has, and its pipe a descriptor that is not in use.\<close>

definition fresh :: "(int \<times> int) option \<Rightarrow> 'w jobs \<Rightarrow> bool" where
  "fresh sr j =
     (case sr of None \<Rightarrow> True | Some (pid, rd) \<Rightarrow> pid \<notin> fst ` set (procs j) \<and> rd \<ge> 0 \<and> rd \<notin> globfds j)"

inductive job_step :: "'w ops \<Rightarrow> jobcfg \<Rightarrow> (int \<Rightarrow> nat) \<Rightarrow> 'w jobs \<Rightarrow> 'w jobs after \<Rightarrow> bool"
  for ops :: "'w ops" and cfg :: jobcfg and hash :: "int \<Rightarrow> nat" where
  fork_first: "at_pc j = Forking \<Longrightarrow> ruleids_to_run (sch (lp j)) \<noteq> [] \<Longrightarrow> children (lp j) = [] \<Longrightarrow> fresh sr j \<Longrightarrow>
    job_step ops cfg hash j (fork_job cfg hash sr j)"
| fork_token: "at_pc j = Forking \<Longrightarrow> ruleids_to_run (sch (lp j)) \<noteq> [] \<Longrightarrow> children (lp j) \<noteq> [] \<Longrightarrow>
    read_jobserver j = (True, j') \<Longrightarrow> fresh sr j \<Longrightarrow> job_step ops cfg hash j (fork_job cfg hash sr j')"
| no_fork: "at_pc j = Forking \<Longrightarrow> ruleids_to_run (sch (lp j)) = [] \<or> children (lp j) \<noteq> [] \<Longrightarrow>
    job_step ops cfg hash j (Next (j\<lparr> at_pc := (if children (lp j) = [] then Out else Selecting) \<rparr>))"
| selected: "at_pc j = Selecting \<Longrightarrow> set fds \<subseteq> globfds j \<Longrightarrow>
    (\<forall>fd \<in> set fds. ruleid_by_fd hash fd (pids j) = Inr (Some (rs fd))) \<Longrightarrow>
    job_step ops cfg hash j (Next (j\<lparr> at_pc := Reaping, calls := calls j @ map (\<lambda>fd. Drained (nat (rs fd)) fd) fds \<rparr>))"
| no_rule: "at_pc j = Selecting \<Longrightarrow> fd \<in> globfds j \<Longrightarrow> (\<forall>r. ruleid_by_fd hash fd (pids j) \<noteq> Inr (Some r)) \<Longrightarrow>
    job_step ops cfg hash j Abort"
| signal: "at_pc j = Selecting \<Longrightarrow>
    job_step ops cfg hash j (Errxit (j\<lparr> calls := calls j @ map Sent_Signal (kill_all_children (pids j)) \<rparr>))"
| reaped: "at_pc j = Reaping \<Longrightarrow> waitpid j w \<Longrightarrow> fresh sr j \<Longrightarrow> job_step ops cfg hash j (reap ops cfg hash w sr j)"
| ends: "(pid, None) \<in> set (procs j) \<Longrightarrow>
    job_step ops cfg hash j (Next (j\<lparr> procs := map (\<lambda>(p, st). (p, if p = pid then Some w else st)) (procs j) \<rparr>))"
| others: "job_step ops cfg hash j (Next (j\<lparr> lp := (lp j)\<lparr> sch := (sch (lp j))\<lparr> world := w \<rparr> \<rparr>, jobpipe := p \<rparr>))"

definition jobs_init :: "'w sched \<Rightarrow> string \<Rightarrow> 'w jobs" where
  "jobs_init s p = \<lparr> lp = \<lparr> sch = s, children = [], cmdfailed = False \<rparr>, pids = bypids_init, globfds = {},
     jobserver_chars = [], procs = [], jobpipe = p, at_pc = Forking, calls = [] \<rparr>"

inductive job_reach :: "'w ops \<Rightarrow> jobcfg \<Rightarrow> (int \<Rightarrow> nat) \<Rightarrow> 'w sched \<Rightarrow> 'w jobs \<Rightarrow> bool"
  for ops :: "'w ops" and cfg :: jobcfg and hash :: "int \<Rightarrow> nat" and s0 :: "'w sched" where
  start: "run_start ops s0 = Inr s \<Longrightarrow> job_reach ops cfg hash s0 (jobs_init s p)"
| step: "job_reach ops cfg hash s0 j \<Longrightarrow> job_step ops cfg hash j (Next j') \<Longrightarrow> job_reach ops cfg hash s0 j'"

section \<open>errxit\<close>

text \<open>
  The end of \<open>errxit\<close>: the processes in the order in which they end.  \<open>Inr\<close> is the exit with status 2 after the databases are
  written.
\<close>

definition unlink_failed :: "jobcfg \<Rightarrow> wstatus \<Rightarrow> nat \<Rightarrow> 'w jobs \<Rightarrow> 'w jobs" where
  "unlink_failed cfg st r j = (if \<not> ignoreerr cfg \<and> st \<noteq> Exit_Status 0 then unlink_targets r j else j)"

fun errxit_loop :: "jobcfg \<Rightarrow> (int \<Rightarrow> nat) \<Rightarrow> (int \<times> wstatus) list \<Rightarrow> 'w jobs \<Rightarrow> 'w jobs res" where
  "errxit_loop cfg hash [] j = (if children (lp j) = [] then Inr j else Inl Aborted)"
| "errxit_loop cfg hash ((pid, st) # ws) j =
     (let j = j\<lparr> procs := filter (\<lambda>(p, _). p \<noteq> pid) (procs j) \<rparr> in
      case ruleid_by_pid_erase hash pid (pids j) of
        (None, _) \<Rightarrow> Inl Aborted
      | (Some (ruleid, fd), p) \<Rightarrow>
          let r = nat ruleid; j = unlink_failed cfg st r (close_fd True r fd (j\<lparr> pids := p \<rparr>)) in
          if children (lp j) = [] then Inl Aborted
          else errxit_loop cfg hash ws (give_back (drop_child r j)))"

text \<open>The first \<open>waitpid\<close> does not wait.\<close>

definition errxit :: "jobcfg \<Rightarrow> (int \<Rightarrow> nat) \<Rightarrow> waitres \<Rightarrow> (int \<times> wstatus) list \<Rightarrow> 'w jobs \<Rightarrow> 'w jobs res" where
  "errxit cfg hash w ws j =
     (case w of
        Echild \<Rightarrow> Inr j
      | None_Ended \<Rightarrow> errxit_loop cfg hash ws j
      | Ended pid st \<Rightarrow>
          let j = j\<lparr> procs := filter (\<lambda>(p, _). p \<noteq> pid) (procs j) \<rparr> in
          (case ruleid_by_pid_erase hash pid (pids j) of
             (None, _) \<Rightarrow> Inl Aborted
           | (Some (ruleid, fd), p) \<Rightarrow>
               let r = nat ruleid; j = close_fd True r fd (j\<lparr> pids := p \<rparr>) in
               if children (lp j) = [] then Inl Aborted
               else errxit_loop cfg hash ws (unlink_failed cfg st r (give_back (drop_child r j)))))"

text \<open>The end of \<open>run_loop\<close>.\<close>

definition run_loop_end :: "jobcfg \<Rightarrow> 'w jobs \<Rightarrow> 'w jobs after" where
  "run_loop_end cfg j =
     (if rules_remain_list (sch (lp j)) = [] then Next j
      else if doasmuchascan cfg \<and> cmdfailed (lp j) then Errxit j else Abort)"

section \<open>The table of processes\<close>

lemma erase_found:
  assumes ok: "indexes hash p es" and pid: "pid \<in> bp_pid ` set es"
  shows "\<exists>e p'. e \<in> set es \<and> bp_pid e = pid \<and> ruleid_by_pid_erase hash pid p = (Some (bp_ruleid e, bp_fd e), p') \<and>
    indexes hash p' (filter (\<lambda>e. bp_pid e \<noteq> pid) es)"
proof -
  obtain e where e: "find_by (\<lambda>e. bp_pid e = pid) es = Some e"
    using pid find_by_None[of "\<lambda>e. bp_pid e = pid" es] by (cases "find_by (\<lambda>e. bp_pid e = pid) es") auto
  have "same_step hash (pid_step hash (Erase pid) p) (list_step (Erase pid) es)" by (rule erase_sim[OF ok])
  then obtain p' where "ruleid_by_pid_erase hash pid p = (Some (bp_ruleid e, bp_fd e), p')"
      "indexes hash p' (filter (\<lambda>e. bp_pid e \<noteq> pid) es)"
    using e by (cases "ruleid_by_pid_erase hash pid p") (auto simp: same_step_def)
  then show ?thesis using find_by_SomeD[OF e] by blast
qed

lemma insert_new:
  assumes ok: "indexes hash p es" and new: "pid \<notin> bp_pid ` set es" "fd \<ge> 0 \<longrightarrow> fd \<notin> bp_fd ` set es"
  shows "\<exists>p'. ruleid_by_pid_insert hash r pid fd ig p = Inr p' \<and>
    indexes hash p' (es @ [\<lparr> bp_pid = pid, bp_ruleid = r, bp_fd = fd, bp_ignore = ig \<rparr>])"
proof -
  have "same_step hash (pid_step hash (Insert r pid fd ig) p) (list_step (Insert r pid fd ig) es)" by (rule insert_sim[OF ok])
  moreover have "list_step (Insert r pid fd ig) es = Inr (Done, es @ [\<lparr> bp_pid = pid, bp_ruleid = r, bp_fd = fd, bp_ignore = ig \<rparr>])"
    using new by force
  ultimately show ?thesis by (cases "ruleid_by_pid_insert hash r pid fd ig p") (auto simp: same_step_def)
qed

text \<open>Every process has an entry with the number of its rule, and every open pipe belongs to one.\<close>

definition rule_ids :: "bypid list \<Rightarrow> nat multiset" where
  "rule_ids es = mset (map (\<lambda>e. nat (bp_ruleid e)) es)"

definition table_ok :: "(int \<Rightarrow> nat) \<Rightarrow> 'w jobs \<Rightarrow> bypid list \<Rightarrow> bool" where
  "table_ok hash j es \<longleftrightarrow> indexes hash (pids j) es \<and> distinct (map fst (procs j)) \<and>
     fst ` set (procs j) = bp_pid ` set es \<and> globfds j = {fd \<in> bp_fd ` set es. fd \<ge> 0} \<and>
     rule_ids es \<subseteq># mset (children (lp j))"

lemma table_fds: "table_ok hash j es \<Longrightarrow> distinct (filter (\<lambda>f. f \<ge> 0) (map bp_fd es)) \<and> distinct (map bp_pid es)"
  by (simp add: table_ok_def indexes_def)

lemma table_okD:
  assumes "table_ok hash j es"
  shows "indexes hash (pids j) es" "distinct (map fst (procs j))" "fst ` set (procs j) = bp_pid ` set es"
    "globfds j = {fd \<in> bp_fd ` set es. fd \<ge> 0}" "rule_ids es \<subseteq># mset (children (lp j))"
  using assms by (simp_all add: table_ok_def)

lemma rule_ids_filter:
  assumes "distinct (map bp_pid es)" "e \<in> set es"
  shows "rule_ids es = add_mset (nat (bp_ruleid e)) (rule_ids (filter (\<lambda>f. bp_pid f \<noteq> bp_pid e) es))"
proof -
  have "mset es = add_mset e (mset (filter (\<lambda>f. bp_pid f \<noteq> bp_pid e) es))"
    unfolding remove1_pid[OF assms, symmetric] using assms(2) by simp
  from arg_cong[OF this, of "image_mset (\<lambda>e. nat (bp_ruleid e))"] show ?thesis by (simp add: rule_ids_def)
qed

lemma fds_filter:
  assumes "distinct (filter (\<lambda>f. f \<ge> 0) (map bp_fd es))" "distinct (map bp_pid es)" "e \<in> set es"
  shows "{fd \<in> bp_fd ` set (filter (\<lambda>f. bp_pid f \<noteq> bp_pid e) es). fd \<ge> 0} = {fd \<in> bp_fd ` set es. fd \<ge> 0} - {bp_fd e}"
proof -
  have pid: "f = e" if "f \<in> set es" "bp_pid f = bp_pid e" for f
    using assms(2,3) that by (auto simp: distinct_map dest: inj_onD)
  obtain as bs where es: "es = as @ e # bs" using split_list[OF assms(3)] by blast
  have fd: "f = e" if "f \<in> set es" "bp_fd f = bp_fd e" "bp_fd e \<ge> 0" for f
  proof (rule ccontr)
    assume "f \<noteq> e"
    then have "f \<in> set as \<union> set bs" using that(1) unfolding es by auto
    then have "bp_fd e \<in> bp_fd ` (set as \<union> set bs)" using that(2) by (metis imageI)
    then show False using assms(1) that(3) unfolding es by auto
  qed
  show ?thesis
  proof (intro set_eqI iffI)
    fix x
    assume "x \<in> {fd \<in> bp_fd ` set (filter (\<lambda>f. bp_pid f \<noteq> bp_pid e) es). fd \<ge> 0}"
    then show "x \<in> {fd \<in> bp_fd ` set es. fd \<ge> 0} - {bp_fd e}" using fd by force
  next
    fix x
    assume "x \<in> {fd \<in> bp_fd ` set es. fd \<ge> 0} - {bp_fd e}"
    then show "x \<in> {fd \<in> bp_fd ` set (filter (\<lambda>f. bp_pid f \<noteq> bp_pid e) es). fd \<ge> 0}" using pid by force
  qed
qed

text \<open>A process that has ended is taken out of the table.\<close>

definition taken :: "int \<Rightarrow> bypids \<Rightarrow> 'w jobs \<Rightarrow> 'w jobs" where
  "taken pid p j = j\<lparr> procs := filter (\<lambda>(p, _). p \<noteq> pid) (procs j), pids := p \<rparr>"

lemma taken_simps [simp]:
  "lp (taken pid p j) = lp j" "calls (taken pid p j) = calls j" "jobserver_chars (taken pid p j) = jobserver_chars j"
  "pids (taken pid p j) = p" "globfds (taken pid p j) = globfds j" "procs (taken pid p j) = filter (\<lambda>(p, _). p \<noteq> pid) (procs j)"
  by (simp_all add: taken_def)

text \<open>What is left of the table when a process is taken out.\<close>

lemma table_erase:
  assumes ok: "table_ok hash j es" and pid: "pid \<in> fst ` set (procs j)"
  shows "\<exists>e p'. e \<in> set es \<and> bp_pid e = pid \<and> ruleid_by_pid_erase hash pid (pids j) = (Some (bp_ruleid e, bp_fd e), p') \<and>
    nat (bp_ruleid e) \<in> set (children (lp j)) \<and>
    table_ok hash (drop_child (nat (bp_ruleid e)) (close_fd d (nat (bp_ruleid e)) (bp_fd e)
      (taken pid p' j))) (filter (\<lambda>e. bp_pid e \<noteq> pid) es)"
proof -
  note D = table_okD[OF ok]
  note dist = conjunct1[OF table_fds[OF ok]] conjunct2[OF table_fds[OF ok]]
  obtain e p' where e: "e \<in> set es" "bp_pid e = pid"
      "ruleid_by_pid_erase hash pid (pids j) = (Some (bp_ruleid e, bp_fd e), p')" "indexes hash p' (filter (\<lambda>e. bp_pid e \<noteq> pid) es)"
    using erase_found[OF D(1)] pid D(3) by metis
  have ids: "rule_ids es = add_mset (nat (bp_ruleid e)) (rule_ids (filter (\<lambda>f. bp_pid f \<noteq> pid) es))"
    using rule_ids_filter[OF dist(2) e(1)] e(2) by simp
  then have mem: "nat (bp_ruleid e) \<in> set (children (lp j))" using D(5) by (metis mset_subset_eq_insertD set_mset_mset)
  have fds: "{fd \<in> bp_fd ` set (filter (\<lambda>f. bp_pid f \<noteq> pid) es). fd \<ge> 0} = {fd \<in> bp_fd ` set es. fd \<ge> 0} - {bp_fd e}"
    using fds_filter[OF dist e(1)] e(2) by simp
  have pr: "fst ` set (filter (\<lambda>(p, _). p \<noteq> pid) (procs j)) = fst ` set (procs j) - {pid}"
      "bp_pid ` set (filter (\<lambda>f. bp_pid f \<noteq> pid) es) = bp_pid ` set es - {pid}" by force+
  have "map fst (filter (\<lambda>(p, _). p \<noteq> pid) (procs j)) = filter (\<lambda>p. p \<noteq> pid) (map fst (procs j))"
    by (simp add: filter_map comp_def case_prod_beta')
  then have "distinct (map fst (filter (\<lambda>(p, _). p \<noteq> pid) (procs j)))" using D(2) by simp
  moreover have "rule_ids (filter (\<lambda>f. bp_pid f \<noteq> pid) es) \<subseteq># mset (remove1 (nat (bp_ruleid e)) (children (lp j)))"
    using D(5) unfolding ids by (simp add: insert_subset_eq_iff)
  ultimately show ?thesis
    using e mem fds pr D by (intro exI[of _ e] exI[of _ p']) (auto simp: table_ok_def drop_child_def close_fd_def)
qed

section \<open>Tokens\<close>

text \<open>The bytes that were taken and given back, and the rules whose targets were removed.\<close>

fun took :: "call \<Rightarrow> string" where "took (Took c) = [c]" | "took _ = []"
fun gave :: "call \<Rightarrow> string" where "gave (Gave c) = [c]" | "gave _ = []"
fun cleared :: "call \<Rightarrow> nat list" where "cleared (Unlinked r) = [r]" | "cleared _ = []"

definition takes :: "call list \<Rightarrow> string" where "takes cs = concat (map took cs)"
definition gives :: "call list \<Rightarrow> string" where "gives cs = concat (map gave cs)"
definition unlinks :: "call list \<Rightarrow> nat list" where "unlinks cs = concat (map cleared cs)"

lemma call_lists [simp]:
  "takes [] = []" "gives [] = []" "unlinks [] = []"
  "takes (c # cs) = took c @ takes cs" "gives (c # cs) = gave c @ gives cs" "unlinks (c # cs) = cleared c @ unlinks cs"
  "takes (cs @ ds) = takes cs @ takes ds" "gives (cs @ ds) = gives cs @ gives ds" "unlinks (cs @ ds) = unlinks cs @ unlinks ds"
  by (simp_all add: takes_def gives_def unlinks_def)

lemma quiet_calls [simp]:
  "takes (map (\<lambda>x. Drained (f x) (g x)) xs) = []" "gives (map (\<lambda>x. Drained (f x) (g x)) xs) = []"
  "unlinks (map (\<lambda>x. Drained (f x) (g x)) xs) = []"
  "takes (map Sent_Signal ys) = []" "gives (map Sent_Signal ys) = []" "unlinks (map Sent_Signal ys) = []"
  by (simp_all add: takes_def gives_def unlinks_def)

text \<open>Never more bytes held than there is room for.\<close>

definition held_fit :: "call list \<Rightarrow> bool" where
  "held_fit cs \<longleftrightarrow> (\<forall>n. length (takes (take n cs)) \<le> length (gives (take n cs)) + JOBSERVER_CHARS)"

lemma held_fit_append: "held_fit (cs @ ds) \<Longrightarrow> held_fit cs \<and> length (takes (cs @ ds)) \<le> length (gives (cs @ ds)) + JOBSERVER_CHARS"
  unfolding held_fit_def
proof (intro conjI allI)
  fix n
  assume a: "\<forall>n. length (takes (take n (cs @ ds))) \<le> length (gives (take n (cs @ ds))) + JOBSERVER_CHARS"
  show "length (takes (take n cs)) \<le> length (gives (take n cs)) + JOBSERVER_CHARS"
    using a[rule_format, of "min n (length cs)"] by (cases "n \<le> length cs") simp_all
  show "length (takes (cs @ ds)) \<le> length (gives (cs @ ds)) + JOBSERVER_CHARS" using a[rule_format, of "length (cs @ ds)"] by simp
qed

text \<open>
  Between two steps one byte fewer is taken and not given back than there are recipes running, and at most one more for every
  failed recipe; the bytes held are the ones to give back.
\<close>

definition bytes_ok :: "'w jobs \<Rightarrow> bool" where
  "bytes_ok j \<longleftrightarrow> (held_fit (calls j) \<longrightarrow> mset (takes (calls j)) = mset (gives (calls j)) + mset (jobserver_chars j))"

definition tokens_ok :: "'w jobs \<Rightarrow> bool" where
  "tokens_ok j \<longleftrightarrow> bytes_ok j \<and>
     length (gives (calls j)) + (length (children (lp j)) - 1) \<le> length (takes (calls j)) \<and>
     length (takes (calls j)) \<le> length (gives (calls j)) + (length (children (lp j)) - 1) + length (unlinks (calls j))"

lemma bytes_quiet:
  "bytes_ok j \<Longrightarrow> calls j' = calls j @ cs \<Longrightarrow> takes cs = [] \<Longrightarrow> gives cs = [] \<Longrightarrow> jobserver_chars j' = jobserver_chars j \<Longrightarrow>
    bytes_ok j'"
  using held_fit_append by (auto simp: bytes_ok_def)

lemma bytes_write:
  assumes b: "bytes_ok j" and n: "length (gives (calls j)) < length (takes (calls j))"
  shows "bytes_ok (write_jobserver j)"
proof (cases "jobserver_chars j" rule: rev_cases)
  case Nil
  have "\<not> held_fit (calls j)"
  proof
    assume "held_fit (calls j)"
    then have "mset (takes (calls j)) = mset (gives (calls j))" using b Nil by (simp add: bytes_ok_def)
    from arg_cong[OF this, of size] show False using n by simp
  qed
  then show ?thesis using Nil held_fit_append[of "calls j" "[Gave CHR ''.'']"] by (auto simp: bytes_ok_def write_jobserver_def)
next
  case (snoc cs c)
  then show ?thesis using b held_fit_append[of "calls j" "[Gave c]"] by (auto simp: bytes_ok_def write_jobserver_def)
qed

lemma write_calls:
  "\<exists>c. calls (write_jobserver j) = calls j @ [Gave c]"
  "lp (write_jobserver j) = lp j" "pids (write_jobserver j) = pids j" "globfds (write_jobserver j) = globfds j"
  "procs (write_jobserver j) = procs j" "at_pc (write_jobserver j) = at_pc j"
  by (simp_all add: write_jobserver_def Let_def split: prod.split)

lemma read_calls:
  assumes "read_jobserver j = (True, j')"
  shows "\<exists>c. calls j' = calls j @ [Took c]" "lp j' = lp j" "pids j' = pids j" "globfds j' = globfds j" "procs j' = procs j"
    "at_pc j' = at_pc j"
  using assms by (auto simp: read_jobserver_def split: list.splits)

lemma bytes_read:
  assumes b: "bytes_ok j" and r: "read_jobserver j = (True, j')"
  shows "bytes_ok j'"
  unfolding bytes_ok_def
proof
  assume f: "held_fit (calls j')"
  obtain c rest where c: "jobpipe j = c # rest" "calls j' = calls j @ [Took c]"
    using r by (auto simp: read_jobserver_def split: list.splits)
  have h: "held_fit (calls j)" "length (takes (calls j)) < length (gives (calls j)) + JOBSERVER_CHARS"
    using held_fit_append f unfolding c(2) by fastforce+
  then have eq: "mset (takes (calls j)) = mset (gives (calls j)) + mset (jobserver_chars j)" using b by (simp add: bytes_ok_def)
  from arg_cong[OF this, of size] have "length (jobserver_chars j) < JOBSERVER_CHARS" using h(2) by simp
  then have "jobserver_chars j' = jobserver_chars j @ [c]" using r c(1) by (auto simp: read_jobserver_def)
  then show "mset (takes (calls j')) = mset (gives (calls j')) + mset (jobserver_chars j')" using eq c(2) by simp
qed

text \<open>Giving a byte back when one of the running recipes is gone.\<close>

lemma give_back_ok:
  assumes t: "tokens_ok j" and r: "r \<in> set (children (lp j))"
  shows "tokens_ok (give_back (drop_child r j))"
proof (cases "remove1 r (children (lp j))")
  case Nil
  then have "length (children (lp j)) = 1" using r length_remove1[of r "children (lp j)"] by (cases "children (lp j)") auto
  then show ?thesis using t Nil by (simp add: give_back_def drop_child_def tokens_ok_def bytes_ok_def)
next
  case (Cons x xs)
  have len: "length (remove1 r (children (lp j))) = length (children (lp j)) - 1" "1 < length (children (lp j))"
    using r Cons length_remove1[of r "children (lp j)"] by (auto split: if_splits)
  let ?d = "drop_child r j"
  have d: "calls ?d = calls j" "lp ?d = (lp j)\<lparr> children := remove1 r (children (lp j)) \<rparr>" "jobserver_chars ?d = jobserver_chars j"
    by (simp_all add: drop_child_def)
  have "bytes_ok ?d" using t d by (simp add: tokens_ok_def bytes_ok_def)
  moreover have bound: "length (gives (calls j)) + (length (children (lp j)) - 1) \<le> length (takes (calls j))"
      "length (takes (calls j)) \<le> length (gives (calls j)) + (length (children (lp j)) - 1) + length (unlinks (calls j))"
    using t unfolding tokens_ok_def by blast+
  then have "length (gives (calls ?d)) < length (takes (calls ?d))" unfolding d(1) using len(2) by arith
  ultimately have "bytes_ok (write_jobserver ?d)" by (rule bytes_write)
  moreover have "give_back ?d = write_jobserver ?d" using Cons d by (simp add: give_back_def)
  moreover obtain c where "calls (write_jobserver ?d) = calls j @ [Gave c]" using write_calls(1)[of ?d] d by auto
  moreover have "length (children (lp j)) = Suc (Suc (length (children (lp j)) - 2))" using len(2) by simp
  then obtain n where "length (children (lp j)) = Suc (Suc n)" by blast
  ultimately show ?thesis using bound len d by (simp add: tokens_ok_def write_calls(2-))
qed

lemma tokens_quiet:
  assumes "tokens_ok j" "calls j' = calls j @ cs" "takes cs = []" "gives cs = []" "jobserver_chars j' = jobserver_chars j"
    "length (children (lp j')) = length (children (lp j))"
  shows "tokens_ok j'"
  using assms bytes_quiet[of j j' cs] by (auto simp: tokens_ok_def)

section \<open>The steps keep the table and the tokens\<close>

definition job_ok :: "(int \<Rightarrow> nat) \<Rightarrow> 'w jobs \<Rightarrow> bool" where
  "job_ok hash j \<longleftrightarrow> (\<exists>es. table_ok hash j es) \<and> length (procs j) = length (children (lp j)) \<and> tokens_ok j \<and>
     (\<forall>r \<in> set (children (lp j)). cmdidx (rules (sch (lp j)) r) \<noteq> 0)"

text \<open>When \<open>errxit\<close> is called, a recipe may be counted that has no process, and one byte more may be missing.\<close>

definition err_ok :: "(int \<Rightarrow> nat) \<Rightarrow> 'w jobs \<Rightarrow> bool" where
  "err_ok hash j \<longleftrightarrow> (\<exists>es. table_ok hash j es) \<and> bytes_ok j \<and>
     length (gives (calls j)) + (length (children (lp j)) - 1) \<le> length (takes (calls j)) \<and>
     length (takes (calls j)) \<le> length (gives (calls j)) + (length (children (lp j)) - 1) + length (unlinks (calls j)) + 1"

definition good_step :: "'w ops \<Rightarrow> jobcfg \<Rightarrow> (int \<Rightarrow> nat) \<Rightarrow> 'w jobs \<Rightarrow> 'w jobs after \<Rightarrow> bool" where
  "good_step ops cfg hash j x \<longleftrightarrow>
     (case x of
        Next j' \<Rightarrow> job_ok hash j' \<and> (lp j' = lp j \<or> run_step ops (doasmuchascan cfg) (lp j) (Inr (lp j')))
      | Errxit j' \<Rightarrow> err_ok hash j'
      | Abort \<Rightarrow> False)"

lemma good_step_simps [simp]:
  "good_step ops cfg hash j (Next j') \<longleftrightarrow>
     job_ok hash j' \<and> (lp j' = lp j \<or> run_step ops (doasmuchascan cfg) (lp j) (Inr (lp j')))"
  "good_step ops cfg hash j (Errxit j') \<longleftrightarrow> err_ok hash j'"
  "\<not> good_step ops cfg hash j Abort"
  by (simp_all add: good_step_def)

lemma tokens_err: "tokens_ok j \<Longrightarrow> table_ok hash j es \<Longrightarrow> err_ok hash j"
  by (auto simp: tokens_ok_def err_ok_def)

lemma table_length: "table_ok hash j es \<Longrightarrow> length es = length (procs j)"
  using distinct_card[of "map fst (procs j)"] distinct_card[of "map bp_pid es"]
  by (simp add: table_ok_def indexes_def)

lemma table_full:
  assumes "table_ok hash j es" "length (procs j) = length (children (lp j))"
  shows "rule_ids es = mset (children (lp j))"
proof -
  have "size (rule_ids es) = size (mset (children (lp j)))" using table_length[OF assms(1)] assms(2) by (simp add: rule_ids_def)
  then show ?thesis using table_okD(5)[OF assms(1)] by (metis mset_subset_size subset_mset.le_imp_less_or_eq less_irrefl)
qed

lemma spawn_job_ok:
  assumes t: "table_ok hash j es" and f: "fresh sr j" and s: "spawn_child r (sch (lp j)) = Inr s"
    and room: "add_mset r (rule_ids es) \<subseteq># mset (if cmdidx (rules (sch (lp j)) r) = 0 then r # children (lp j) else children (lp j))"
  shows "spawn_job cfg hash r sr j = Errxit (j\<lparr> lp := (lp j)\<lparr> sch := s \<rparr> \<rparr>) \<or>
    (\<exists>j' es' pid fd. spawn_job cfg hash r sr j = Next j' \<and> table_ok hash j' es' \<and>
       lp j' = (lp j)\<lparr> sch := s, children := (if cmdidx (rules (sch (lp j)) r) = 0 then r # children (lp j) else children (lp j)) \<rparr> \<and>
       length (procs j') = Suc (length (procs j)) \<and> calls j' = calls j @ [Started r pid fd] \<and>
       jobserver_chars j' = jobserver_chars j)"
proof (cases sr)
  case None
  then show ?thesis using s by (simp add: spawn_job_def Let_def)
next
  case (Some pr)
  obtain pid rd where sr: "sr = Some (pid, rd)" using Some by (cases pr) auto
  note D = table_okD[OF t]
  define fd where "fd = (if out_sync cfg \<noteq> OUT_SYNC_NONE then rd else -1)"
  let ?ig = "take 1 (cmd (rules (sch (lp j)) r) ! cmdidx (rules (sch (lp j)) r)) = [''I'']"
  have new: "pid \<notin> bp_pid ` set es" "fd \<ge> 0 \<longrightarrow> fd \<notin> bp_fd ` set es"
    using f D(3,4) by (auto simp: sr fresh_def fd_def)
  obtain p' where p': "ruleid_by_pid_insert hash (int r) pid fd ?ig (pids j) = Inr p'"
      "indexes hash p' (es @ [\<lparr> bp_pid = pid, bp_ruleid = int r, bp_fd = fd, bp_ignore = ?ig \<rparr>])"
    using insert_new[OF D(1) new] by blast
  let ?es = "es @ [\<lparr> bp_pid = pid, bp_ruleid = int r, bp_fd = fd, bp_ignore = ?ig \<rparr>]"
  let ?c = "if cmdidx (rules (sch (lp j)) r) = 0 then r # children (lp j) else children (lp j)"
  let ?j = "j\<lparr> lp := (lp j)\<lparr> sch := s, children := ?c \<rparr>, pids := p', globfds := (if fd \<ge> 0 then insert fd (globfds j) else globfds j),
      procs := procs j @ [(pid, None)], calls := calls j @ [Started r pid fd] \<rparr>"
  have "spawn_job cfg hash r sr j = Next ?j"
    using s p'(1) by (cases "cmdidx (rules (sch (lp j)) r) = 0") (simp_all add: spawn_job_def Let_def sr fd_def[symmetric])
  moreover have "rule_ids ?es = add_mset r (rule_ids es)" by (simp add: rule_ids_def)
  then have "table_ok hash ?j ?es"
    using D p'(2) new room by (auto simp: table_ok_def)
  ultimately show ?thesis by (intro disjI2 exI[of _ ?j] exI[of _ ?es] exI[of _ pid] exI[of _ fd]) simp
qed

lemma indexes_fd:
  assumes "table_ok hash j es" "fd \<in> globfds j"
  shows "\<exists>e \<in> set es. ruleid_by_fd hash fd (pids j) = Inr (Some (bp_ruleid e))"
proof -
  note D = table_okD[OF assms(1)]
  have fd: "fd \<ge> 0" "fd \<in> bp_fd ` set es" using assms(2) D(4) by auto
  then obtain e where "find_by (\<lambda>e. bp_fd e = fd) es = Some e"
    using find_by_None[of "\<lambda>e. bp_fd e = fd" es] by (cases "find_by (\<lambda>e. bp_fd e = fd) es") auto
  then show ?thesis using D(1) fd find_by_SomeD by (fastforce simp: ruleid_by_fd_def indexes_def)
qed

lemma loop_swap: "(l :: 'w loop)\<lparr> children := c, sch := s \<rparr> = l\<lparr> sch := s, children := c \<rparr>"
  by (cases l) simp

lemma fork_ok:
  assumes inv: "loop_inv s0 Fd (lp j)" and t: "table_ok hash j es" and n: "length (procs j) = length (children (lp j))"
    and idx: "\<forall>r \<in> set (children (lp j)). cmdidx (rules (sch (lp j)) r) \<noteq> 0"
    and q: "ruleids_to_run (sch (lp j)) \<noteq> []" and f: "fresh sr j" and b: "bytes_ok j"
    and tk: "length (gives (calls j)) + length (children (lp j)) \<le> length (takes (calls j))"
      "length (takes (calls j)) \<le> length (gives (calls j)) + length (children (lp j)) + length (unlinks (calls j))"
    and l: "lp j0 = lp j"
  shows "good_step ops cfg hash j0 (fork_job cfg hash sr j)"
proof -
  obtain xs r where xs: "ruleids_to_run (sch (lp j)) = xs @ [r]" using q by (metis rev_exhaust)
  have "outcome {} (loop_inv s0 Fd) (bind_res (spawn_child r (sch (lp j))) (\<lambda>s.
      Inr ((lp j)\<lparr> sch := s\<lparr> ruleids_to_run := xs \<rparr>, children := r # children (lp j) \<rparr>)))" by (rule fork_inv[OF inv xs])
  then obtain s where s: "spawn_child r (sch (lp j)) = Inr s" by (cases "spawn_child r (sch (lp j))") auto
  have i: "sched_inv (set (children (lp j)) \<union> Fd) (sch (lp j))" using inv by (simp add: loop_inv_def)
  have r0: "cmdidx (rules (sch (lp j)) r) = 0" using inv xs by (simp add: loop_inv_def cmd_ok_def)
  note sp = spawn_rules[OF s]
  have room: "add_mset r (rule_ids es) \<subseteq># mset (if cmdidx (rules (sch (lp j)) r) = 0 then r # children (lp j) else children (lp j))"
    using table_okD(5)[OF t] r0 by simp
  consider "spawn_job cfg hash r sr j = Errxit (j\<lparr> lp := (lp j)\<lparr> sch := s \<rparr> \<rparr>)"
    | j' es' pid fd where "spawn_job cfg hash r sr j = Next j'" "table_ok hash j' es'"
       "lp j' = (lp j)\<lparr> sch := s, children := r # children (lp j) \<rparr>"
       "length (procs j') = Suc (length (procs j))" "calls j' = calls j @ [Started r pid fd]" "jobserver_chars j' = jobserver_chars j"
    using spawn_job_ok[OF t f s room, of cfg] r0 by auto
  then show ?thesis
  proof cases
    case 1
    have "table_ok hash (j\<lparr> lp := (lp j)\<lparr> sch := s \<rparr> \<rparr>) es" using t by (simp add: table_ok_def)
    moreover have "length (children (lp j)) \<le> length (children (lp j)) - 1 + 1" by simp
    ultimately show ?thesis using b tk unfolding fork_job_def xs by (auto simp: 1 err_ok_def bytes_ok_def)
  next
    case 2
    let ?j = "j'\<lparr> lp := (lp j')\<lparr> sch := (sch (lp j'))\<lparr> ruleids_to_run := xs \<rparr> \<rparr> \<rparr>"
    have q': "ruleids_to_run (sch (lp j')) = xs @ [r]" using 2(3) sp(1) xs by (simp add: upd_rule_def)
    have fj: "fork_job cfg hash sr j = Next ?j" unfolding fork_job_def using 2(1) q' by (simp add: xs)
    have "bytes_ok ?j" using bytes_quiet[OF b, of ?j "[Started r pid fd]"] 2(5,6) by simp
    then have "tokens_ok ?j" using tk 2(3,5) by (simp add: tokens_ok_def)
    moreover have "table_ok hash ?j es'" using 2(2) by (simp add: table_ok_def)
    moreover have "\<forall>x \<in> set (children (lp ?j)). cmdidx (rules (sch (lp ?j)) x) \<noteq> 0"
      using idx 2(3) sp(1) by (simp add: upd_rule_def)
    ultimately have "job_ok hash ?j" using n 2(3,4) by (auto simp: job_ok_def)
    moreover have "run_step ops (doasmuchascan cfg) (lp j) (Inr (lp ?j))"
      using run_step.fork[OF xs, of ops "doasmuchascan cfg"] s 2(3) by (simp add: loop_swap)
    ultimately show ?thesis using fj l by simp
  qed
qed

lemma mark_executed_idx:
  assumes ops: "ops_ok F ops" and inv: "loop_inv s0 Fd l" and r: "r \<in> set (children l)"
    and m: "mark_executed ops (sched_fuel (sch l)) r True (sch l) = Inr s"
  shows "cmdidx (rules s x) = cmdidx (rules (sch l) x)"
proof -
  let ?R = "set (children l) \<union> Fd"
  have i: "sched_inv ?R (sch l)" and g: "graph_ok (sch l)" using inv by (simp_all add: loop_inv_def)
  have rq: "is_queued (rules (sch l) r)" "\<not> is_executed (rules (sch l) r)"
    using i r by (auto simp: sched_inv_def queue_ok_def)
  have rs: "r < rules_size (sch l)"
    using rule_ok_simps(2)[OF sched_invD(1)[OF i] rq(1)] i by (simp add: sched_inv_def)
  moreover have "4 * work (sch l) - 1 \<le> sched_fuel (sch l)"
    using sched_fuel_enough[of "sch l"] by simp
  moreover have "r \<in> ?R" using r by simp
  ultimately have "outcome F (\<lambda>s'. sched_inv (?R - {r}) s' \<and> frame {r} (sch l) s' \<and>
      is_executed (rules s' r) \<and>
      is_under_consideration (rules s' r) = is_under_consideration (rules (sch l) r))
    (mark_executed ops (sched_fuel (sch l)) r True (sch l))"
    using all_specs[OF ops, of "sched_fuel (sch l)"] g i unfolding mark_executed_spec_def by blast
  then have "frame {r} (sch l) s" by (simp add: m)
  then show ?thesis by (simp add: frame_def mono_le_def)
qed

lemma close_simps [simp]:
  "lp (close_fd d r fd j) = lp j" "procs (close_fd d r fd j) = procs j" "pids (close_fd d r fd j) = pids j"
  "jobserver_chars (close_fd d r fd j) = jobserver_chars j" "globfds (close_fd d r fd j) = (if fd < 0 then globfds j else globfds j - {fd})"
  "takes (calls (close_fd d r fd j)) = takes (calls j)" "gives (calls (close_fd d r fd j)) = gives (calls j)"
  "unlinks (calls (close_fd d r fd j)) = unlinks (calls j)"
  by (simp_all add: close_fd_def)

lemma close_calls: "\<exists>cs. calls (close_fd d r fd j) = calls j @ cs \<and> takes cs = [] \<and> gives cs = [] \<and> unlinks cs = []"
  by (simp add: close_fd_def)

lemma close_tokens: "tokens_ok j \<Longrightarrow> tokens_ok (close_fd d r fd j)"
  using close_calls[of d r fd j] tokens_quiet[of j "close_fd d r fd j"] by auto

lemma drop_simps [simp]:
  "lp (drop_child r j) = (lp j)\<lparr> children := remove1 r (children (lp j)) \<rparr>" "procs (drop_child r j) = procs j"
  "pids (drop_child r j) = pids j" "calls (drop_child r j) = calls j" "jobserver_chars (drop_child r j) = jobserver_chars j"
  "globfds (drop_child r j) = globfds j"
  by (simp_all add: drop_child_def)

lemma tokens_cong:
  "calls j' = calls j \<Longrightarrow> jobserver_chars j' = jobserver_chars j \<Longrightarrow> length (children (lp j')) = length (children (lp j)) \<Longrightarrow>
    tokens_ok j' = tokens_ok j"
  by (simp add: tokens_ok_def bytes_ok_def)

lemma table_cong:
  "pids j' = pids j \<Longrightarrow> procs j' = procs j \<Longrightarrow> globfds j' = globfds j \<Longrightarrow> children (lp j') = children (lp j) \<Longrightarrow>
    table_ok hash j' es = table_ok hash j es"
  by (simp add: table_ok_def)

lemma procs_taken:
  assumes "distinct (map fst (procs j))" "pid \<in> fst ` set (procs j)"
  shows "Suc (length (filter (\<lambda>(p, _). p \<noteq> pid) (procs j))) = length (procs j)"
proof -
  have "filter (\<lambda>p. p \<noteq> pid) (map fst (procs j)) = remove1 pid (map fst (procs j))"
    using assms(1) by (auto simp: distinct_remove1_removeAll removeAll_filter_not_eq intro!: filter_cong)
  from arg_cong[OF this, of length] have "length (filter (\<lambda>(p, _). p \<noteq> pid) (procs j)) = length (procs j) - 1"
    using assms(2) by (simp add: filter_map comp_def case_prod_beta' length_remove1)
  then show ?thesis using assms(2) by (cases "procs j") auto
qed

lemma table_eraseE:
  assumes "table_ok hash j es" "pid \<in> fst ` set (procs j)"
  obtains e p' where "e \<in> set es" "bp_pid e = pid" "ruleid_by_pid_erase hash pid (pids j) = (Some (bp_ruleid e, bp_fd e), p')"
    "nat (bp_ruleid e) \<in> set (children (lp j))"
    "\<And>d. table_ok hash (drop_child (nat (bp_ruleid e)) (close_fd d (nat (bp_ruleid e)) (bp_fd e) (taken pid p' j)))
      (filter (\<lambda>e. bp_pid e \<noteq> pid) es)"
proof -
  obtain e p' where e: "e \<in> set es" "bp_pid e = pid" "ruleid_by_pid_erase hash pid (pids j) = (Some (bp_ruleid e, bp_fd e), p')"
      "nat (bp_ruleid e) \<in> set (children (lp j))"
      "table_ok hash (drop_child (nat (bp_ruleid e)) (close_fd True (nat (bp_ruleid e)) (bp_fd e) (taken pid p' j)))
        (filter (\<lambda>e. bp_pid e \<noteq> pid) es)"
    using table_erase[OF assms, of True] by (elim exE conjE) (rule that; assumption)
  have "table_ok hash (drop_child (nat (bp_ruleid e)) (close_fd d (nat (bp_ruleid e)) (bp_fd e) (taken pid p' j)))
        (filter (\<lambda>e. bp_pid e \<noteq> pid) es)" for d
    using e(5) by (simp add: table_ok_def)
  with e(1-4) show ?thesis by (rule that)
qed

lemma reap_failed_ok:
  assumes inv: "loop_inv s0 Fd (lp j)" and ok: "job_ok hash j" and pid: "pid \<in> fst ` set (procs j)"
  shows "good_step ops cfg hash j (reap_failed cfg hash pid (j\<lparr> procs := filter (\<lambda>(p, _). p \<noteq> pid) (procs j) \<rparr>))"
proof -
  obtain es where t: "table_ok hash j es" and n: "length (procs j) = length (children (lp j))" and tk: "tokens_ok j"
      and idx: "\<forall>r \<in> set (children (lp j)). cmdidx (rules (sch (lp j)) r) \<noteq> 0"
    using ok by (auto simp: job_ok_def)
  obtain e p' where er: "e \<in> set es" "bp_pid e = pid" "ruleid_by_pid_erase hash pid (pids j) = (Some (bp_ruleid e, bp_fd e), p')"
      "nat (bp_ruleid e) \<in> set (children (lp j))"
      "\<And>d. table_ok hash (drop_child (nat (bp_ruleid e)) (close_fd d (nat (bp_ruleid e)) (bp_fd e) (taken pid p' j)))
        (filter (\<lambda>e. bp_pid e \<noteq> pid) es)"
    using t pid by (rule table_eraseE) (rule that)
  note e = er(3,4) er(5)[of True]
  define r where "r = nat (bp_ruleid e)"
  define d where "d = unlink_targets r (drop_child r (close_fd True r (bp_fd e) (taken pid p' j)))"
  have d_simps: "lp d = (lp j)\<lparr> children := remove1 r (children (lp j)) \<rparr>" "procs d = filter (\<lambda>(p, _). p \<noteq> pid) (procs j)"
      "takes (calls d) = takes (calls j)" "gives (calls d) = gives (calls j)" "unlinks (calls d) = unlinks (calls j) @ [r]"
    by (simp_all add: d_def unlink_targets_def)
  have td: "table_ok hash d (filter (\<lambda>e. bp_pid e \<noteq> pid) es)"
    using e(3) by (auto simp: table_ok_def d_def r_def unlink_targets_def)
  have "bytes_ok j" using tk by (simp add: tokens_ok_def)
  moreover obtain cs where "calls d = calls j @ cs" "takes cs = []" "gives cs = []"
    using close_calls[of True r "bp_fd e" "taken pid p' j"] by (auto simp: d_def unlink_targets_def)
  ultimately have "bytes_ok d" by (rule bytes_quiet) (simp add: d_def unlink_targets_def)
  moreover have r: "r \<in> set (children (lp j))" using e(2) by (simp add: r_def)
  have "length (remove1 r (children (lp j))) = length (children (lp j)) - 1" "0 < length (children (lp j))"
    using r by (auto simp: length_remove1)
  ultimately have tkd: "tokens_ok d" using tk by (auto simp: tokens_ok_def d_simps)
  have res: "reap_failed cfg hash pid (j\<lparr> procs := filter (\<lambda>(p, _). p \<noteq> pid) (procs j) \<rparr>) =
      (if doasmuchascan cfg then Next (d\<lparr> lp := (lp d)\<lparr> cmdfailed := True \<rparr> \<rparr>) else Errxit d)"
    using e(1) by (simp add: reap_failed_def Let_def d_def r_def taken_def)
  show ?thesis
  proof (cases "doasmuchascan cfg")
    case False
    then show ?thesis using res tokens_err[OF tkd td] by simp
  next
    case True
    let ?d = "d\<lparr> lp := (lp d)\<lparr> cmdfailed := True \<rparr> \<rparr>"
    have "tokens_ok ?d" using tkd tokens_cong[of ?d d] by simp
    moreover have "table_ok hash ?d (filter (\<lambda>e. bp_pid e \<noteq> pid) es)" using td table_cong[of ?d d] by simp
    moreover have "length (procs ?d) = length (children (lp ?d))"
      using procs_taken[OF table_okD(2)[OF t] pid] n r by (simp add: d_simps length_remove1)
    ultimately have "job_ok hash ?d"
      using idx set_remove1_subset[of r "children (lp j)"] by (auto simp: job_ok_def d_simps)
    moreover have "run_step ops (doasmuchascan cfg) (lp j) (Inr (lp ?d))"
      using run_step.failed[OF r, of ops "doasmuchascan cfg"] True by (simp add: d_simps)
    ultimately show ?thesis using res True by simp
  qed
qed

lemma fresh_taken: "fresh sr j \<Longrightarrow> fresh sr (close_fd d r fd (taken pid p j))"
  by (cases sr) (auto simp: fresh_def image_iff)

lemma reap_ended_ok:
  assumes ops: "ops_ok (range Exited) ops" and inv: "loop_inv s0 Fd (lp j)" and ok: "job_ok hash j"
    and pid: "pid \<in> fst ` set (procs j)" and f: "fresh sr j"
  shows "good_step ops cfg hash j (reap_ended ops cfg hash pid sr (j\<lparr> procs := filter (\<lambda>(p, _). p \<noteq> pid) (procs j) \<rparr>))"
proof -
  obtain es where t: "table_ok hash j es" and n: "length (procs j) = length (children (lp j))" and tk: "tokens_ok j"
      and idx: "\<forall>r \<in> set (children (lp j)). cmdidx (rules (sch (lp j)) r) \<noteq> 0"
    using ok by (auto simp: job_ok_def)
  note D = table_okD[OF t]
  let ?dump = "\<lambda>r. out_sync cfg = OUT_SYNC_LINE \<or> job_ready r j"
  obtain e p' where e: "e \<in> set es" "bp_pid e = pid" "ruleid_by_pid_erase hash pid (pids j) = (Some (bp_ruleid e, bp_fd e), p')"
      "nat (bp_ruleid e) \<in> set (children (lp j))"
      "\<And>d. table_ok hash (drop_child (nat (bp_ruleid e)) (close_fd d (nat (bp_ruleid e)) (bp_fd e) (taken pid p' j)))
        (filter (\<lambda>e. bp_pid e \<noteq> pid) es)"
    using t pid by (rule table_eraseE) (rule that)
  define r where "r = nat (bp_ruleid e)"
  define d where "d = close_fd (?dump r) r (bp_fd e) (taken pid p' j)"
  let ?es = "filter (\<lambda>e. bp_pid e \<noteq> pid) es"
  have td: "table_ok hash (drop_child r d) ?es"
    unfolding d_def r_def by (rule e(5))
  have r: "r \<in> set (children (lp j))" using e(4) by (simp add: r_def)
  have ld: "lp d = lp j" "procs d = filter (\<lambda>(p, _). p \<noteq> pid) (procs j)" by (simp_all add: d_def)
  have rd: "job_ready r (j\<lparr> procs := ps, pids := p' \<rparr>) = job_ready r j" "job_ready r (j\<lparr> procs := ps \<rparr>) = job_ready r j"
    "job_ready r d = job_ready r j" for ps by (simp_all add: job_ready_def ld)
  have "children (lp j) \<noteq> []" using r by auto
  then have res: "reap_ended ops cfg hash pid sr (j\<lparr> procs := filter (\<lambda>(p, _). p \<noteq> pid) (procs j) \<rparr>) =
      (if \<not> job_ready r j then spawn_job cfg hash r sr d
       else let j = give_back (drop_child r d) in
            (case mark_executed ops (sched_fuel (sch (lp j))) r True (sch (lp j)) of
               Inl (Exited _) \<Rightarrow> Errxit j
             | Inl _ \<Rightarrow> Abort
             | Inr s \<Rightarrow> Next (j\<lparr> lp := (lp j)\<lparr> sch := s \<rparr> \<rparr>)))"
    using e(3) unfolding rd(3)[symmetric] unfolding d_def by (simp add: reap_ended_def Let_def r_def[symmetric] taken_def rd(1,2))
  have tkd: "tokens_ok d" unfolding d_def using tk tokens_cong[of "taken pid p' j" j] by (intro close_tokens) simp
  have procs: "Suc (length (procs d)) = length (children (lp j))" using procs_taken[OF D(2) pid] n ld by simp
  show ?thesis
  proof (cases "job_ready r j")
    case False
    have "rule_ids es = add_mset r (rule_ids ?es)"
      using rule_ids_filter[OF conjunct2[OF table_fds[OF t]] e(1)] e(2) by (simp add: r_def)
    then have room: "add_mset r (rule_ids ?es) \<subseteq># mset (children (lp d))" using D(5) ld by simp
    have "rule_ids ?es \<subseteq># mset (children (lp d))" using room by (rule subset_mset.trans[rotated]) simp
    then have td': "table_ok hash d ?es" using td ld by (simp add: table_ok_def)
    have c0: "cmdidx (rules (sch (lp d)) r) \<noteq> 0" using idx r ld by simp
    have nr: "\<not> ready r (sch (lp j))" using False by (simp add: job_ready_def)
    have "outcome {} (loop_inv s0 Fd) (bind_res (spawn_child r (sch (lp j))) (\<lambda>s. Inr ((lp j)\<lparr> sch := s \<rparr>)))"
      by (rule next_cmd_inv[OF inv r nr])
    then obtain s where s: "spawn_child r (sch (lp d)) = Inr s" using ld by (cases "spawn_child r (sch (lp j))") auto
    have fd: "fresh sr d" unfolding d_def by (rule fresh_taken[OF f])
    consider "spawn_job cfg hash r sr d = Errxit (d\<lparr> lp := (lp d)\<lparr> sch := s \<rparr> \<rparr>)"
      | j' es' pid fd where "spawn_job cfg hash r sr d = Next j'" "table_ok hash j' es'"
         "lp j' = (lp d)\<lparr> sch := s \<rparr>" "length (procs j') = Suc (length (procs d))" "calls j' = calls d @ [Started r pid fd]"
         "jobserver_chars j' = jobserver_chars d"
      using spawn_job_ok[OF td' fd s, of cfg] room c0 by auto
    then show ?thesis
    proof cases
      case 1
      let ?d = "d\<lparr> lp := (lp d)\<lparr> sch := s \<rparr> \<rparr>"
      have "tokens_ok ?d" "table_ok hash ?d ?es" using tkd td' tokens_cong[of ?d d] table_cong[of ?d d] by simp_all
      then show ?thesis using res False 1 tokens_err by simp
    next
      case 2
      have "tokens_ok j'" using tokens_quiet[OF tkd 2(5)] 2(3,6) by simp
      moreover have "cmdidx (rules s x) \<noteq> 0" if "x \<in> set (children (lp j))" for x
        using spawn_rules(1)[OF s] idx that ld by (simp add: upd_rule_def)
      ultimately have "job_ok hash j'" using 2(2-4) procs ld by (auto simp: job_ok_def)
      moreover have "run_step ops (doasmuchascan cfg) (lp j) (Inr (lp j'))"
        using run_step.next_cmd[OF r nr, of ops "doasmuchascan cfg"] s 2(3) ld by simp
      ultimately show ?thesis using res False 2(1) by simp
    qed
  next
    case True
    let ?g = "give_back (drop_child r d)"
    have lg: "lp ?g = (lp j)\<lparr> children := remove1 r (children (lp j)) \<rparr>" "procs ?g = procs d" "pids ?g = pids d" "globfds ?g = globfds d"
      using ld by (simp_all add: give_back_def write_calls)
    have tg: "tokens_ok ?g" using r ld by (intro give_back_ok[OF tkd]) simp
    have tabg: "table_ok hash ?g ?es" using td lg ld table_cong[of ?g "drop_child r d"] by simp
    have "outcome (range Exited) (loop_inv s0 Fd)
        (bind_res (mark_executed ops (sched_fuel (sch (lp j))) r True (sch (lp j))) (\<lambda>s.
          Inr ((lp j)\<lparr> sch := s, children := remove1 r (children (lp j)) \<rparr>)))"
      by (rule finished_inv[OF ops inv r])
    then consider m where "mark_executed ops (sched_fuel (sch (lp j))) r True (sch (lp j)) = Inl (Exited m)"
      | s where "mark_executed ops (sched_fuel (sch (lp j))) r True (sch (lp j)) = Inr s"
      by (cases "mark_executed ops (sched_fuel (sch (lp j))) r True (sch (lp j))") auto
    then show ?thesis
    proof cases
      case 1
      then show ?thesis using res True lg tokens_err[OF tg tabg] by simp
    next
      case 2
      let ?j = "?g\<lparr> lp := (lp ?g)\<lparr> sch := s \<rparr> \<rparr>"
      have "tokens_ok ?j" "table_ok hash ?j ?es" using tg tabg tokens_cong[of ?j ?g] table_cong[of ?j ?g] by simp_all
      moreover have "length (procs ?j) = length (children (lp ?j))"
        using procs r lg by (simp add: length_remove1)
      moreover have "\<forall>x \<in> set (children (lp ?j)). cmdidx (rules (sch (lp ?j)) x) \<noteq> 0"
        using idx mark_executed_idx[OF ops inv r 2] set_remove1_subset[of r "children (lp j)"] lg by auto
      ultimately have "job_ok hash ?j" unfolding job_ok_def by blast
      moreover have "run_step ops (doasmuchascan cfg) (lp j) (Inr (lp ?j))"
        using run_step.finished[OF r, of ops "doasmuchascan cfg"] True 2 lg by (simp add: job_ready_def loop_swap)
      ultimately show ?thesis using res True 2 lg by simp
    qed
  qed
qed

text \<open>What a state with the two invariants steps to.\<close>

lemma job_step_ok:
  assumes ops: "ops_ok (range Exited) ops" and inv: "loop_inv s0 Fd (lp j)" and ok: "job_ok hash j"
    and step: "job_step ops cfg hash j x"
  shows "good_step ops cfg hash j x"
proof -
  obtain es where t: "table_ok hash j es" and n: "length (procs j) = length (children (lp j))" and tk: "tokens_ok j"
      and idx: "\<forall>r \<in> set (children (lp j)). cmdidx (rules (sch (lp j)) r) \<noteq> 0"
    using ok by (auto simp: job_ok_def)
  note D = table_okD[OF t]
  have quiet: "job_ok hash j'" if "pids j' = pids j" "procs j' = procs j" "globfds j' = globfds j" "lp j' = lp j"
      "calls j' = calls j @ cs" "takes cs = []" "gives cs = []" "jobserver_chars j' = jobserver_chars j" for j' cs
    using that t n idx tokens_quiet[OF tk, of j' cs] table_cong[of j' j] by (auto simp: job_ok_def)
  from step show ?thesis
  proof (cases rule: job_step.cases)
    case (fork_first sr)
    then show ?thesis unfolding fork_first(1)
      using tk by (intro fork_ok[OF inv t n idx fork_first(3,5)]) (auto simp: tokens_ok_def)
  next
    case (fork_token j' sr)
    note R = read_calls[OF fork_token(5)]
    obtain c where c: "calls j' = calls j @ [Took c]" using R(1) by blast
    have t': "table_ok hash j' es" using t table_cong[of j' j] R by simp
    have b': "bytes_ok j'" using tk by (intro bytes_read[OF _ fork_token(5)]) (simp add: tokens_ok_def)
    have inv': "loop_inv s0 Fd (lp j')" using inv R by simp
    have f': "fresh sr j'" using fork_token(6) R by (cases sr) (auto simp: fresh_def)
    obtain m where "length (children (lp j)) = Suc m" using fork_token(4) by (cases "children (lp j)") auto
    then show ?thesis unfolding fork_token(1)
      using tk R c n idx fork_token(3) by (intro fork_ok[OF inv' t' _ _ _ f' b']) (auto simp: tokens_ok_def)
  next
    case no_fork
    then show ?thesis unfolding no_fork(1) using quiet[of "j\<lparr> at_pc := p \<rparr>" "[]" for p] by simp
  next
    case (selected fds rs)
    then show ?thesis unfolding selected(1) using quiet[of "j\<lparr> at_pc := Reaping, calls := calls j @ map (\<lambda>fd. Drained (nat (rs fd)) fd) fds \<rparr>"] by simp
  next
    case (no_rule fd)
    then show ?thesis using indexes_fd[OF t no_rule(3)] by blast
  next
    case signal
    let ?j = "j\<lparr> calls := calls j @ map Sent_Signal (kill_all_children (pids j)) \<rparr>"
    have "job_ok hash ?j" by (rule quiet[where cs = "map Sent_Signal (kill_all_children (pids j))"]) simp_all
    then show ?thesis unfolding signal(1) using tokens_err by (auto simp: job_ok_def)
  next
    case (reaped w sr)
    show ?thesis
    proof (cases w)
      case (Ended pid st)
      then have "pid \<in> fst ` set (procs j)" using reaped(3) by (force simp: waitpid_def)
      then show ?thesis unfolding reaped(1)
        using reap_failed_ok[OF inv ok, of pid ops cfg] reap_ended_ok[OF ops inv ok _ reaped(4), of pid cfg] Ended
        by (simp add: reap_def Let_def)
    next
      case None_Ended
      then show ?thesis unfolding reaped(1) using quiet[of "j\<lparr> at_pc := p \<rparr>" "[]" for p] by (simp add: reap_def)
    next
      case Echild
      then show ?thesis unfolding reaped(1) using quiet[of "j\<lparr> at_pc := p \<rparr>" "[]" for p] by (simp add: reap_def)
    qed
  next
    case (ends pid w)
    define ps where "ps = map (\<lambda>(p, st). (p, if p = pid then Some w else st)) (procs j)"
    have "map fst ps = map fst (procs j)" unfolding ps_def by (induction "procs j") auto
    then have "map fst ps = map fst (procs j)" "fst ` set ps = fst ` set (procs j)" "length ps = length (procs j)"
      by (metis set_map length_map)+
    then have "table_ok hash (j\<lparr> procs := ps \<rparr>) es" "length ps = length (children (lp j))" using t n by (simp_all add: table_ok_def)
    then show ?thesis unfolding ends(1) ps_def[symmetric] using idx tk tokens_cong[of "j\<lparr> procs := ps \<rparr>" j]
      by (auto simp: job_ok_def)
  next
    case (others p w)
    let ?j = "j\<lparr> lp := (lp j)\<lparr> sch := (sch (lp j))\<lparr> world := w \<rparr> \<rparr>, jobpipe := p \<rparr>"
    have "job_ok hash ?j" using t n idx tk tokens_cong[of ?j j] table_cong[of ?j j] by (auto simp: job_ok_def)
    then show ?thesis unfolding others(1) using run_step.env[of ops "doasmuchascan cfg" "lp j" w] by simp
  qed
qed

lemma job_reach_ok:
  assumes ops: "ops_ok (range Exited) ops" and st: "start_ok s0" and r: "job_reach ops cfg hash s0 j"
  shows "reach ops (doasmuchascan cfg) s0 (lp j) \<and> job_ok hash j"
  using r
proof (induction rule: job_reach.induct)
  case (start s p)
  have "reach ops (doasmuchascan cfg) s0 \<lparr> sch = s, children = [], cmdfailed = False \<rparr>" using start by (rule reach.start)
  moreover have "table_ok hash (jobs_init s p) []"
    using indexes_init by (simp add: table_ok_def jobs_init_def rule_ids_def)
  ultimately show ?case by (auto simp: jobs_init_def job_ok_def tokens_ok_def bytes_ok_def)
next
  case (step j j')
  obtain Fd where "loop_inv s0 Fd (lp j)" using reach_inv[OF ops st] step.IH by blast
  from job_step_ok[OF ops this _ step.hyps(2)] step.IH have "job_ok hash j'"
      "lp j' = lp j \<or> run_step ops (doasmuchascan cfg) (lp j) (Inr (lp j'))" by simp_all
  then show ?case using step.IH reach.step by metis
qed

lemma job_reach_step:
  assumes ops: "ops_ok (range Exited) ops" and st: "start_ok s0" and r: "job_reach ops cfg hash s0 j"
    and step: "job_step ops cfg hash j x"
  shows "good_step ops cfg hash j x"
proof -
  have j: "reach ops (doasmuchascan cfg) s0 (lp j)" "job_ok hash j" using job_reach_ok[OF ops st r] by blast+
  obtain Fd where "loop_inv s0 Fd (lp j)" using reach_inv[OF ops st j(1)] by blast
  then show ?thesis using job_step_ok[OF ops _ j(2) step] by blast
qed

section \<open>The position in the loop\<close>

lemma spawn_pc: "spawn_job cfg hash r sr j = Next j' \<Longrightarrow> at_pc j' = at_pc j"
  by (auto simp: spawn_job_def Let_def split: sum.splits option.splits prod.splits if_splits)

lemma fork_pc: "fork_job cfg hash sr j = Next j' \<Longrightarrow> at_pc j' = at_pc j"
  unfolding fork_job_def using spawn_pc by (cases "spawn_job cfg hash (last (ruleids_to_run (sch (lp j)))) sr j") fastforce+

lemma pc_simps [simp]:
  "at_pc (close_fd d r fd j) = at_pc j" "at_pc (drop_child r j) = at_pc j" "at_pc (give_back j) = at_pc j"
  "at_pc (unlink_targets r j) = at_pc j"
  by (simp_all add: close_fd_def drop_child_def give_back_def unlink_targets_def write_calls)

lemma reap_pc:
  assumes "reap ops cfg hash w sr j = Next j'"
  shows "at_pc j' = at_pc j \<or> at_pc j' = Forking \<or> at_pc j' = Out \<and> loop_ended (lp j')"
proof (cases w)
  case (Ended pid st)
  then show ?thesis using assms
    by (auto simp: reap_def reap_failed_def reap_ended_def Let_def dest!: spawn_pc
        split: if_splits prod.splits option.splits sum.splits cfail.splits)
qed (use assms in \<open>auto simp: reap_def loop_ended_def split: if_splits\<close>)

lemma out_ended: "job_reach ops cfg hash s0 j \<Longrightarrow> at_pc j = Out \<Longrightarrow> loop_ended (lp j)"
proof (induction rule: job_reach.induct)
  case (start s p)
  then show ?case by (simp add: jobs_init_def)
next
  case (step j j')
  from step.hyps(2) show ?case
  proof (cases rule: job_step.cases)
    case (fork_first sr)
    then show ?thesis using fork_pc[of cfg hash sr j j'] step.prems by simp
  next
    case (fork_token j1 sr)
    then show ?thesis using fork_pc[of cfg hash sr j1 j'] read_calls(6)[OF fork_token(5)] step.prems by simp
  next
    case no_fork
    then show ?thesis using step.prems by (auto simp: loop_ended_def split: if_splits)
  next
    case (reaped w sr)
    then show ?thesis using reap_pc[of ops cfg hash w sr j j'] step.prems by auto
  qed (use step in \<open>auto simp: loop_ended_def\<close>)
qed

section \<open>The end in errxit\<close>

text \<open>
  What \<open>waitpid\<close> reports, the first result apart: the children end in this order, and it is all of them.  The first call,
  which does not wait, reports \<open>ECHILD\<close> when there is no process.
\<close>

definition waited :: "waitres \<Rightarrow> (int \<times> wstatus) list \<Rightarrow> (int \<times> wstatus) list" where
  "waited w ws = (case w of Ended pid st \<Rightarrow> (pid, st) # ws | _ \<Rightarrow> ws)"

lemma waited_simps [simp]:
  "waited (Ended pid st) ws = (pid, st) # ws" "waited None_Ended ws = ws" "waited Echild ws = ws"
  by (simp_all add: waited_def)

definition all_end :: "waitres \<Rightarrow> (int \<times> wstatus) list \<Rightarrow> 'w jobs \<Rightarrow> bool" where
  "all_end w ws j \<longleftrightarrow>
     distinct (map fst (waited w ws)) \<and> fst ` set (waited w ws) = fst ` set (procs j) \<and> (w = Echild \<longleftrightarrow> procs j = [])"

text \<open>The rules of the failed processes.\<close>

definition failed_rules :: "jobcfg \<Rightarrow> (int \<times> wstatus) list \<Rightarrow> bypid list \<Rightarrow> nat set" where
  "failed_rules cfg ws es =
     (if ignoreerr cfg then {} else {nat (bp_ruleid e) | e st. e \<in> set es \<and> (bp_pid e, st) \<in> set ws \<and> st \<noteq> Exit_Status 0})"

definition exited :: "nat set \<Rightarrow> 'w jobs \<Rightarrow> 'w jobs \<Rightarrow> bool" where
  "exited R j j' \<longleftrightarrow> procs j' = [] \<and> children (lp j') = [] \<and> globfds j' = {} \<and> takes (calls j') = takes (calls j) \<and>
     length (gives (calls j')) = length (gives (calls j)) + (length (children (lp j)) - 1) \<and>
     set (unlinks (calls j')) = set (unlinks (calls j)) \<union> R"

lemma unlink_failed_simps [simp]:
  "lp (unlink_failed cfg st r j) = lp j" "procs (unlink_failed cfg st r j) = procs j" "pids (unlink_failed cfg st r j) = pids j"
  "globfds (unlink_failed cfg st r j) = globfds j" "takes (calls (unlink_failed cfg st r j)) = takes (calls j)"
  "gives (calls (unlink_failed cfg st r j)) = gives (calls j)"
  "set (unlinks (calls (unlink_failed cfg st r j))) =
     set (unlinks (calls j)) \<union> (if \<not> ignoreerr cfg \<and> st \<noteq> Exit_Status 0 then {r} else {})"
  by (simp_all add: unlink_failed_def unlink_targets_def)

lemma give_simps [simp]:
  "lp (give_back j) = lp j" "procs (give_back j) = procs j" "pids (give_back j) = pids j" "globfds (give_back j) = globfds j"
  "takes (calls (give_back j)) = takes (calls j)" "unlinks (calls (give_back j)) = unlinks (calls j)"
  "length (gives (calls (give_back j))) = length (gives (calls j)) + (if children (lp j) = [] then 0 else 1)"
  using write_calls(1)[of j] by (auto simp: give_back_def write_calls(2-))

lemma failed_rules_Cons:
  assumes "distinct (map fst ((pid, st) # ws))" "e \<in> set es" "bp_pid e = pid" "distinct (map bp_pid es)"
  shows "failed_rules cfg ((pid, st) # ws) es =
    (if \<not> ignoreerr cfg \<and> st \<noteq> Exit_Status 0 then {nat (bp_ruleid e)} else {}) \<union>
    failed_rules cfg ws (filter (\<lambda>e. bp_pid e \<noteq> pid) es)"
proof -
  have u: "f = e" if "f \<in> set es" "bp_pid f = pid" for f
    using assms(2-4) that by (auto simp: distinct_map dest: inj_onD)
  have n: "(pid, s) \<notin> set ws" for s using assms(1) by force
  have f: "(\<exists>s. (bp_pid f, s) \<in> set ((pid, st) # ws) \<and> s \<noteq> Exit_Status 0) \<longleftrightarrow>
      f = e \<and> st \<noteq> Exit_Status 0 \<or> bp_pid f \<noteq> pid \<and> (\<exists>s. (bp_pid f, s) \<in> set ws \<and> s \<noteq> Exit_Status 0)" if "f \<in> set es" for f
    using n u[OF that] assms(3) by (cases "bp_pid f = pid") auto
  have R: "failed_rules cfg vs fs = (if ignoreerr cfg then {}
      else (\<lambda>f. nat (bp_ruleid f)) ` {f \<in> set fs. \<exists>s. (bp_pid f, s) \<in> set vs \<and> s \<noteq> Exit_Status 0})" for vs fs
    unfolding failed_rules_def by (rule if_cong) (blast+)
  have "{f \<in> set es. \<exists>s. (bp_pid f, s) \<in> set ((pid, st) # ws) \<and> s \<noteq> Exit_Status 0} =
      (if st \<noteq> Exit_Status 0 then {e} else {}) \<union>
      {f \<in> set (filter (\<lambda>e. bp_pid e \<noteq> pid) es). \<exists>s. (bp_pid f, s) \<in> set ws \<and> s \<noteq> Exit_Status 0}"
    using f assms(2) by (intro set_eqI) (simp only: mem_Collect_eq Un_iff set_filter split: if_split; blast)
  then show ?thesis unfolding R by (simp add: image_Un)
qed

text \<open>One process less, in the order of the loop or in that of the first \<open>waitpid\<close>.\<close>

lemma exited_next:
  assumes "table_ok hash j es" "distinct (map fst ((pid, st) # ws))" "fst ` set ((pid, st) # ws) = fst ` set (procs j)"
    and "e \<in> set es" "bp_pid e = pid" "nat (bp_ruleid e) \<in> set (children (lp j))"
    and "procs g = filter (\<lambda>(p, _). p \<noteq> pid) (procs j)" "children (lp g) = remove1 (nat (bp_ruleid e)) (children (lp j))"
    and "takes (calls g) = takes (calls j)"
      "length (gives (calls g)) = length (gives (calls j)) + (if children (lp g) = [] then 0 else 1)"
      "set (unlinks (calls g)) =
         set (unlinks (calls j)) \<union> (if \<not> ignoreerr cfg \<and> st \<noteq> Exit_Status 0 then {nat (bp_ruleid e)} else {})"
  shows "fst ` set ws = fst ` set (procs g)"
    and "length (procs g) = length (children (lp g)) \<longleftrightarrow> length (procs j) = length (children (lp j))"
    and "exited (failed_rules cfg ws (filter (\<lambda>e. bp_pid e \<noteq> pid) es)) g j' \<Longrightarrow> exited (failed_rules cfg ((pid, st) # ws) es) j j'"
proof -
  have pid: "pid \<in> fst ` set (procs j)" using assms(3) by auto
  have "fst ` set (procs g) = fst ` set (procs j) - {pid}" unfolding assms(7) by force
  then show "fst ` set ws = fst ` set (procs g)" using assms(2,3) by auto
  have ne: "children (lp j) \<noteq> []" using assms(6) by auto
  have len: "Suc (length (procs g)) = length (procs j)" "Suc (length (children (lp g))) = length (children (lp j))"
    using procs_taken[OF table_okD(2)[OF assms(1)] pid] assms(6-8) ne by (auto simp: length_remove1)
  then show "length (procs g) = length (children (lp g)) \<longleftrightarrow> length (procs j) = length (children (lp j))" by arith
  have n: "length (gives (calls g)) + (length (children (lp g)) - 1) = length (gives (calls j)) + (length (children (lp j)) - 1)"
    using len(2) assms(10) by (cases "children (lp g)") auto
  assume x: "exited (failed_rules cfg ws (filter (\<lambda>e. bp_pid e \<noteq> pid) es)) g j'"
  show "exited (failed_rules cfg ((pid, st) # ws) es) j j'"
    using x n failed_rules_Cons[OF assms(2,4,5) conjunct2[OF table_fds[OF assms(1)]], of cfg] assms(9,11)
    unfolding exited_def by (simp add: Un_assoc)
qed

lemma errxit_loop_end:
  "table_ok hash j es \<Longrightarrow> distinct (map fst ws) \<Longrightarrow> fst ` set ws = fst ` set (procs j) \<Longrightarrow>
    (if length (procs j) = length (children (lp j))
     then \<exists>j'. errxit_loop cfg hash ws j = Inr j' \<and> exited (failed_rules cfg ws es) j j'
     else errxit_loop cfg hash ws j = Inl Aborted)"
proof (induction ws arbitrary: j es)
  case Nil
  then have "procs j = []" by simp
  then have "es = []" using table_length[OF Nil.prems(1)] by simp
  then show ?case using Nil.prems(1) \<open>procs j = []\<close> by (auto simp: exited_def failed_rules_def table_ok_def)
next
  case (Cons w ws)
  obtain pid st where w: "w = (pid, st)" by (cases w)
  have pid: "pid \<in> fst ` set (procs j)" using Cons.prems(3) w by auto
  obtain e p' where e: "e \<in> set es" "bp_pid e = pid" "ruleid_by_pid_erase hash pid (pids j) = (Some (bp_ruleid e, bp_fd e), p')"
      "nat (bp_ruleid e) \<in> set (children (lp j))"
      "\<And>d. table_ok hash (drop_child (nat (bp_ruleid e)) (close_fd d (nat (bp_ruleid e)) (bp_fd e) (taken pid p' j)))
        (filter (\<lambda>e. bp_pid e \<noteq> pid) es)"
    using Cons.prems(1) pid by (rule table_eraseE) (rule that)
  define r where "r = nat (bp_ruleid e)"
  define d where "d = unlink_failed cfg st r (close_fd True r (bp_fd e) (taken pid p' j))"
  let ?g = "give_back (drop_child r d)"
  have ld: "lp d = lp j" by (simp add: d_def)
  have ne: "children (lp j) \<noteq> []" using e(4) by auto
  have rec: "errxit_loop cfg hash (w # ws) j = errxit_loop cfg hash ws ?g"
    using e(3) ne ld unfolding d_def by (simp add: w Let_def r_def[symmetric] taken_def)
  have tab: "table_ok hash ?g (filter (\<lambda>e. bp_pid e \<noteq> pid) es)" using e(5)[of True] by (simp add: table_ok_def d_def r_def)
  have dis: "distinct (map fst ws)" using Cons.prems(2) by simp
  note N = exited_next[OF Cons.prems(1) Cons.prems(2,3)[unfolded w] e(1,2,4), of ?g cfg]
  have N': "fst ` set ws = fst ` set (procs ?g)"
      "(length (procs ?g) = length (children (lp ?g))) = (length (procs j) = length (children (lp j)))"
      "\<And>j'. exited (failed_rules cfg ws (filter (\<lambda>e. bp_pid e \<noteq> pid) es)) ?g j' \<Longrightarrow> exited (failed_rules cfg (w # ws) es) j j'"
    unfolding w by (rule N; simp add: d_def r_def)+
  show ?case using Cons.IH[OF tab dis N'(1), unfolded N'(2) rec[symmetric]] N'(3) by meson
qed

lemma errxit_first_end:
  assumes "table_ok hash j es" "distinct (map fst ((pid, st) # ws))" "fst ` set ((pid, st) # ws) = fst ` set (procs j)"
  shows "if length (procs j) = length (children (lp j))
     then \<exists>j'. errxit cfg hash (Ended pid st) ws j = Inr j' \<and> exited (failed_rules cfg ((pid, st) # ws) es) j j'
     else errxit cfg hash (Ended pid st) ws j = Inl Aborted"
proof -
  have pid: "pid \<in> fst ` set (procs j)" using assms(3) by auto
  obtain e p' where e: "e \<in> set es" "bp_pid e = pid" "ruleid_by_pid_erase hash pid (pids j) = (Some (bp_ruleid e, bp_fd e), p')"
      "nat (bp_ruleid e) \<in> set (children (lp j))"
      "\<And>d. table_ok hash (drop_child (nat (bp_ruleid e)) (close_fd d (nat (bp_ruleid e)) (bp_fd e) (taken pid p' j)))
        (filter (\<lambda>e. bp_pid e \<noteq> pid) es)"
    using assms(1) pid by (rule table_eraseE) (rule that)
  define r where "r = nat (bp_ruleid e)"
  define d where "d = close_fd True r (bp_fd e) (taken pid p' j)"
  let ?g = "unlink_failed cfg st r (give_back (drop_child r d))"
  have ld: "lp d = lp j" by (simp add: d_def)
  have ne: "children (lp j) \<noteq> []" using e(4) by auto
  have rec: "errxit cfg hash (Ended pid st) ws j = errxit_loop cfg hash ws ?g"
    using e(3) ne ld unfolding d_def by (simp add: errxit_def Let_def r_def[symmetric] taken_def)
  have tab: "table_ok hash ?g (filter (\<lambda>e. bp_pid e \<noteq> pid) es)" using e(5)[of True] by (simp add: table_ok_def d_def r_def)
  have dis: "distinct (map fst ws)" using assms(2) by simp
  note N = exited_next[OF assms e(1,2,4), of ?g cfg]
  have N': "fst ` set ws = fst ` set (procs ?g)"
      "(length (procs ?g) = length (children (lp ?g))) = (length (procs j) = length (children (lp j)))"
      "\<And>j'. exited (failed_rules cfg ws (filter (\<lambda>e. bp_pid e \<noteq> pid) es)) ?g j' \<Longrightarrow> exited (failed_rules cfg ((pid, st) # ws) es) j j'"
    by (rule N; simp add: d_def r_def)+
  show ?thesis using errxit_loop_end[OF tab dis N'(1), where cfg = cfg, unfolded N'(2) rec[symmetric]] N'(3) by meson
qed

section \<open>Properties\<close>

text \<open>
  C10: The loop with processes is the loop of the scheduler: its states are those that the step relation of the loop reaches, every
  process belongs to one running recipe and every running recipe has one process, no abort of the loop is reached (no process or
  descriptor is missing from the table, or in it twice), and when the loop is left nothing runs or waits.
  Commands that add dependencies while they are evaluated (\<open>@adddeps\<close>) are left out (see \<open>ops\<close>).
\<close>

theorem jobs_refine:
  assumes "ops_ok (range Exited) ops" "start_ok s0" "job_reach ops cfg hash s0 j"
  shows "reach ops (doasmuchascan cfg) s0 (lp j) \<and> \<not> job_step ops cfg hash j Abort \<and>
    mset (map (\<lambda>e. nat (bp_ruleid e)) (ruleid_by_pid_list (pids j))) = mset (children (lp j)) \<and>
    bp_pid ` set (ruleid_by_pid_list (pids j)) = fst ` set (procs j) \<and> (at_pc j = Out \<longrightarrow> loop_ended (lp j))"
proof -
  have j: "reach ops (doasmuchascan cfg) s0 (lp j)" "job_ok hash j" using job_reach_ok[OF assms] by blast+
  then obtain es where t: "table_ok hash j es" and n: "length (procs j) = length (children (lp j))" by (auto simp: job_ok_def)
  have es: "ruleid_by_pid_list (pids j) = es" using table_okD(1)[OF t] by (simp add: indexes_def)
  have "\<not> job_step ops cfg hash j Abort" using job_reach_step[OF assms] by fastforce
  then show ?thesis
    using j(1) table_full[OF t n] table_okD(3)[OF t] out_ended[OF assms(3)] by (auto simp: es rule_ids_def)
qed

text \<open>
  C11: Tokens: while \<open>n\<close> recipes run, at least \<open>n - 1\<close> bytes have been taken from the job server and not been given back, and at most one
  more for every recipe that failed; as long as there is room for the bytes, those given back are bytes that were taken.
\<close>

theorem job_tokens:
  assumes "ops_ok (range Exited) ops" "start_ok s0" "job_reach ops cfg hash s0 j"
  shows "length (gives (calls j)) + (length (children (lp j)) - 1) \<le> length (takes (calls j)) \<and>
    length (takes (calls j)) \<le> length (gives (calls j)) + (length (children (lp j)) - 1) + length (unlinks (calls j)) \<and>
    (held_fit (calls j) \<longrightarrow> mset (takes (calls j)) = mset (gives (calls j)) + mset (jobserver_chars j))"
  using job_reach_ok[OF assms] unfolding job_ok_def tokens_ok_def bytes_ok_def by blast

text \<open>
  With \<open>-k\<close> a failed recipe keeps its byte although others still run: nothing is given back, and there is one recipe less.
\<close>

lemma failed_keeps_token:
  assumes "reap ops cfg hash (Ended pid st) sr j = Next j'"
    and "recipe_failed cfg hash pid st (j\<lparr> procs := filter (\<lambda>(p, _). p \<noteq> pid) (procs j) \<rparr>)"
  shows "gives (calls j') = gives (calls j) \<and> takes (calls j') = takes (calls j) \<and>
    (\<exists>r. children (lp j') = remove1 r (children (lp j)))"
proof -
  let ?j = "j\<lparr> procs := filter (\<lambda>(p, _). p \<noteq> pid) (procs j) \<rparr>"
  have r: "reap_failed cfg hash pid ?j = Next j'" using assms by (simp add: reap_def Let_def)
  show ?thesis
  proof (cases "ruleid_by_pid_erase hash pid (pids j)")
    case (Pair a p)
    have "\<exists>r. remove1 x (children (lp j)) = remove1 r (children (lp j))" for x by blast
    then show ?thesis using r Pair by (cases a) (auto simp: reap_failed_def Let_def unlink_targets_def split: if_splits)
  qed
qed

text \<open>
  C12: \<open>errxit\<close>, whatever the first \<open>waitpid\<close> reports: with no process it exits at once.  When every counted recipe has its process,
  it waits for all processes, those that end before and those that end after it begins to wait, removes exactly the targets of the
  failed ones (none with \<open>-i\<close>), takes no byte, and gives back one byte for every process but the last.  Then all bytes are
  back at the job server but at most one for each recipe that failed before (\<open>failed_keeps_token\<close>), and at most one that was
  taken for a process that could not be started.  When a recipe is counted that has no process while others run, because its next
  command could not be started, \<open>errxit\<close> aborts.
\<close>

theorem errxit_exact:
  assumes "ops_ok (range Exited) ops" "start_ok s0" "job_reach ops cfg hash s0 j" "job_step ops cfg hash j (Errxit j1)"
    and "all_end w ws j1"
  shows "if procs j1 = [] then errxit cfg hash w ws j1 = Inr j1
    else if length (procs j1) = length (children (lp j1))
    then \<exists>j'. errxit cfg hash w ws j1 = Inr j' \<and> procs j' = [] \<and> children (lp j') = [] \<and> globfds j' = {} \<and>
      set (unlinks (calls j')) = set (unlinks (calls j1)) \<union> failed_rules cfg (waited w ws) (ruleid_by_pid_list (pids j1)) \<and>
      takes (calls j') = takes (calls j1) \<and>
      length (gives (calls j')) = length (gives (calls j1)) + (length (procs j1) - 1) \<and>
      length (gives (calls j')) \<le> length (takes (calls j')) \<and>
      length (takes (calls j')) \<le> length (gives (calls j')) + length (unlinks (calls j1)) + 1
    else errxit cfg hash w ws j1 = Inl Aborted"
proof -
  have "err_ok hash j1" using job_reach_step[OF assms(1-4)] by simp
  then obtain es where t: "table_ok hash j1 es"
      and tk: "length (gives (calls j1)) + (length (children (lp j1)) - 1) \<le> length (takes (calls j1))"
        "length (takes (calls j1)) \<le> length (gives (calls j1)) + (length (children (lp j1)) - 1) + length (unlinks (calls j1)) + 1"
    unfolding err_ok_def by blast
  have es: "ruleid_by_pid_list (pids j1) = es" using table_okD(1)[OF t] by (simp add: indexes_def)
  have a: "distinct (map fst (waited w ws))" "fst ` set (waited w ws) = fst ` set (procs j1)" "w = Echild \<longleftrightarrow> procs j1 = []"
    using assms(5) by (simp_all add: all_end_def)
  have E: "if length (procs j1) = length (children (lp j1))
      then \<exists>j'. errxit cfg hash w ws j1 = Inr j' \<and> exited (failed_rules cfg (waited w ws) es) j1 j'
      else errxit cfg hash w ws j1 = Inl Aborted" if "w \<noteq> Echild"
  proof (cases w)
    case (Ended pid st)
    then show ?thesis using errxit_first_end[OF t, of pid st ws cfg] a by simp
  next
    case None_Ended
    then show ?thesis using errxit_loop_end[OF t, of ws cfg] a by (simp add: errxit_def)
  qed (use that in simp)
  have "errxit cfg hash w ws j1 = Inr j1" if "w = Echild" using that by (simp add: errxit_def)
  then show ?thesis using E a(3) tk by (auto simp: exited_def es)
qed

section \<open>A small run\<close>

definition ex_cfg :: jobcfg where
  "ex_cfg = \<lparr> doasmuchascan = False, ignoreerr = False, out_sync = OUT_SYNC_TARGET \<rparr>"

definition ex_hash :: "int \<Rightarrow> nat" where "ex_hash pid = nat (pid mod 8)"

lemma ex_job_run:
  "\<exists>j. job_reach ex_ops ex_cfg hash ex_two j \<and> children (lp j) = [0] \<and> procs j = [(100, None)] \<and> at_pc j = Forking \<and>
     calls j = [Started 0 100 5]"
proof -
  have "case run_start ex_ops ex_two of
      Inr s \<Rightarrow> ruleids_to_run s = [0] \<and> cmdidx (rules s 0) = 0 \<and> cmd (rules s 0) = [[''cc'']]
    | Inl f \<Rightarrow> False" by code_simp
  then obtain s where s: "run_start ex_ops ex_two = Inr s" "ruleids_to_run s = [0]"
      "cmdidx (rules s 0) = 0" "cmd (rules s 0) = [[''cc'']]"
    by (auto split: sum.splits)
  let ?j = "jobs_init s ''+''"
  have i: "sch (lp ?j) = s" "children (lp ?j) = []" "at_pc ?j = Forking" "pids ?j = bypids_init" "procs ?j = []" "calls ?j = []"
      "globfds ?j = {}"
    by (simp_all add: jobs_init_def)
  have r: "job_reach ex_ops ex_cfg hash ex_two ?j" by (rule job_reach.start[OF s(1)])
  obtain p' where p': "ruleid_by_pid_insert hash 0 100 5 False bypids_init = Inr p'"
    using insert_new[OF indexes_init, of 100 5 hash 0 False] by auto
  have "\<exists>j'. fork_job ex_cfg hash (Some (100, 5)) ?j = Next j' \<and> children (lp j') = [0] \<and> procs j' = [(100, None)] \<and>
      at_pc j' = Forking \<and> calls j' = [Started 0 100 5]"
    using s(2-4) i p' by (simp add: fork_job_def spawn_job_def spawn_child_def ex_cfg_def Let_def)
  moreover have "job_step ex_ops ex_cfg hash ?j (fork_job ex_cfg hash (Some (100, 5)) ?j)"
    using i s(2) by (intro job_step.fork_first) (simp_all add: fresh_def)
  ultimately show ?thesis using job_reach.step[OF r] by metis
qed

theorem jobs_refine_witness:
  "\<exists>j. job_reach ex_ops ex_cfg ex_hash ex_two j \<and> children (lp j) = [0] \<and> reach ex_ops False ex_two (lp j) \<and>
     bp_pid ` set (ruleid_by_pid_list (pids j)) = {100} \<and> \<not> job_step ex_ops ex_cfg ex_hash j Abort"
proof -
  obtain j where j: "job_reach ex_ops ex_cfg ex_hash ex_two j" "children (lp j) = [0]" "procs j = [(100, None)]"
    using ex_job_run by blast
  show ?thesis using jobs_refine[OF ex_ops_ok ex_two_start j(1)] j by (auto simp: ex_cfg_def)
qed

theorem job_tokens_witness:
  "\<exists>j. job_reach ex_ops ex_cfg ex_hash ex_two j \<and> children (lp j) = [0] \<and> length (takes (calls j)) = length (gives (calls j))"
proof -
  obtain j where j: "job_reach ex_ops ex_cfg ex_hash ex_two j" "children (lp j) = [0]" "calls j = [Started 0 100 5]"
    using ex_job_run by blast
  show ?thesis using job_tokens[OF ex_ops_ok ex_two_start j(1)] j by auto
qed

theorem errxit_exact_witness:
  "\<exists>j j1 j'. job_reach ex_ops ex_cfg ex_hash ex_two j \<and> job_step ex_ops ex_cfg ex_hash j (Errxit j1) \<and>
     errxit ex_cfg ex_hash (Ended 100 (Term_Signal 15)) [] j1 = Inr j' \<and> procs j' = [] \<and> children (lp j') = [] \<and> globfds j' = {} \<and>
     set (unlinks (calls j')) = {0}"
proof -
  obtain j where j: "job_reach ex_ops ex_cfg ex_hash ex_two j" "children (lp j) = [0]" "procs j = [(100, None)]" "at_pc j = Forking"
      "calls j = [Started 0 100 5]"
    using ex_job_run by blast
  let ?j = "j\<lparr> at_pc := Selecting \<rparr>"
  let ?j1 = "?j\<lparr> calls := calls ?j @ map Sent_Signal (kill_all_children (pids ?j)) \<rparr>"
  have "job_step ex_ops ex_cfg ex_hash j (Next ?j)" using job_step.no_fork[OF j(4)] j(2) by simp
  then have r: "job_reach ex_ops ex_cfg ex_hash ex_two ?j" by (rule job_reach.step[OF j(1)])
  have st: "job_step ex_ops ex_cfg ex_hash ?j (Errxit ?j1)" by (rule job_step.signal) simp
  have "length (procs ?j1) = length (children (lp ?j1))" using j by simp
  then obtain j' where j': "errxit ex_cfg ex_hash (Ended 100 (Term_Signal 15)) [] ?j1 = Inr j'" "procs j' = []" "children (lp j') = []"
      "globfds j' = {}"
      "set (unlinks (calls j')) = set (unlinks (calls ?j1)) \<union> failed_rules ex_cfg [(100, Term_Signal 15)] (ruleid_by_pid_list (pids ?j1))"
    using errxit_exact[OF ex_ops_ok ex_two_start r st, of "Ended 100 (Term_Signal 15)" "[]"] j(3) by (auto simp: all_end_def)
  obtain es where t: "table_ok ex_hash j es" using job_reach_ok[OF ex_ops_ok ex_two_start j(1)] by (auto simp: job_ok_def)
  note D = table_okD[OF t]
  have es: "ruleid_by_pid_list (pids j) = es" using D(1) by (simp add: indexes_def)
  have "length es = 1" using table_length[OF t] j(3) by simp
  then obtain e where e: "es = [e]" by (auto simp: length_Suc_conv)
  have "bp_pid e = 100" using D(3) j(3) e by simp
  moreover have "nat (bp_ruleid e) = 0" using D(5) j(2) e by (simp add: rule_ids_def)
  ultimately have "failed_rules ex_cfg [(100, Term_Signal 15)] (ruleid_by_pid_list (pids ?j1)) = {0}"
    by (auto simp: failed_rules_def ex_cfg_def es e)
  then show ?thesis using r st j' j(5) by (intro exI[of _ ?j] exI[of _ ?j1] exI[of _ j']) simp
qed

end
