(* ===== verification/Make_Flags.thy ===== *)
theory Make_Flags
  imports Db_File Cmd_Eval Jobs
begin

text \<open>
  The job server between programs (\<open>stirmake.c\<close>): \<open>do_makecmd\<close> describes it to a recipe that runs make in the environment variable
  \<open>MAKEFLAGS\<close>, \<open>process_mflags\<close> and \<open>process_jobserver\<close> read that variable, and \<open>create_pipe\<close> makes a new one.

  The environment holds one variable, \<open>None\<close> when it is unset.  What \<open>open\<close> and \<open>fcntl\<close> answer are arguments, and so are the
  system calls of \<open>create_pipe\<close>.  The descriptors that \<open>sscanf\<close> reads are taken to be in the range of \<open>int\<close>.
\<close>

section \<open>Writing the flags\<close>

definition MAKEFLAGS_SIZE :: nat where "MAKEFLAGS_SIZE = 128"

definition auth_flags :: "string option \<Rightarrow> int \<times> int \<Rightarrow> string" where
  "auth_flags fifo fds =
     (case fifo of
        Some path \<Rightarrow> '' --jobserver-auth=fifo:'' @ path @ '' -j''
      | None \<Rightarrow>
          let p = print_ll (fst fds) @ '','' @ print_ll (snd fds) in
          '' --jobserver-fds='' @ p @ '' --jobserver-auth='' @ p @ '' -j'')"

definition sync_flags :: "bool \<Rightarrow> bool \<Rightarrow> outsync \<Rightarrow> string" where
  "sync_flags create_fd create_make_fd os =
     (if create_make_fd then '' -Orecurse''
      else if create_fd then '' -O'' @ (if os = OUT_SYNC_LINE then ''line'' else ''target'')
      else '''')"

text \<open>\<open>do_makecmd\<close>: \<open>snprintf\<close> leaves room for the terminating NUL.\<close>

definition do_makecmd :: "string option \<Rightarrow> int \<times> int \<Rightarrow> outsync \<Rightarrow> bool \<Rightarrow> string \<Rightarrow> bool \<Rightarrow> bool \<Rightarrow> string option \<Rightarrow> string option" where
  "do_makecmd fifo fds os ismake c create_fd create_make_fd env =
     (if ismake \<or> is_makecmd c
      then Some (take (MAKEFLAGS_SIZE - 1) (auth_flags fifo fds @ sync_flags create_fd create_make_fd os))
      else env)"

section \<open>Reading the flags\<close>

record mflags =
  mf_fds :: "string option"
  mf_auth :: "string option"
  mf_sync :: "string option"

definition skip_spaces :: "string \<Rightarrow> string" where
  "skip_spaces s = dropWhile (\<lambda>c. c = CHR '' '') s"

definition starts :: "string \<Rightarrow> string \<Rightarrow> bool" where
  "starts p s = (take (length p) s = p)"

text \<open>One round of the loop: the pointers are into the variable, so the rest of it follows each value.\<close>

definition mflag :: "string \<Rightarrow> mflags \<Rightarrow> string \<times> mflags" where
  "mflag iter m =
     (let (iter, m) = (if starts ''-O'' iter then let i = skip_spaces (drop 2 iter) in (i, m\<lparr> mf_sync := Some i \<rparr>) else (iter, m));
          (iter, m) = (if starts ''--jobserver-fds='' iter then let i = drop 16 iter in (i, m\<lparr> mf_fds := Some i \<rparr>) else (iter, m))
      in if starts ''--jobserver-auth='' iter then let i = drop 17 iter in (i, m\<lparr> mf_auth := Some i \<rparr>) else (iter, m))"

lemma mflag_length: "length (fst (mflag iter m)) \<le> length iter"
proof -
  have "length (skip_spaces s) \<le> length s" for s by (simp add: skip_spaces_def length_dropWhile_le)
  from this[of "drop 2 iter"] show ?thesis by (auto simp: mflag_def Let_def)
qed

lemma skip_less: "strchr s CHR '' '' = Some k \<Longrightarrow> length (skip_spaces (drop k s)) < length s"
proof (induction s arbitrary: k)
  case (Cons c s)
  have "length (skip_spaces s) \<le> length s" by (simp add: skip_spaces_def length_dropWhile_le)
  then show ?case using Cons by (cases "c = CHR '' ''") (auto simp: skip_spaces_def less_Suc_eq)
qed simp

function mflags_loop :: "string \<Rightarrow> mflags \<Rightarrow> mflags" where
  "mflags_loop iter m =
     (if iter = [] then m
      else let (iter, m) = mflag iter m in
        case strchr iter CHR '' '' of
          None \<Rightarrow> m
        | Some k \<Rightarrow> mflags_loop (skip_spaces (drop k iter)) m)"
  by pat_completeness auto
termination
proof (relation "measure (length \<circ> fst)")
  fix iter m x i m' k
  assume a: "x = mflag iter m" "(i, m') = x" "strchr i CHR '' '' = Some k"
  have "length (skip_spaces (drop k i)) < length i" by (rule skip_less[OF a(3)])
  also have "length i \<le> length iter" using mflag_length[of iter m] a(1,2) by (metis fst_conv)
  finally show "((skip_spaces (drop k i), m'), (iter, m)) \<in> measure (length \<circ> fst)" by simp
qed simp

declare mflags_loop.simps [simp del]

text \<open>The variable is removed from the environment.\<close>

definition process_mflags :: "string option \<Rightarrow> mflags \<times> string option" where
  "process_mflags env =
     (let m = \<lparr> mf_fds = None, mf_auth = None, mf_sync = None \<rparr> in
      (case env of None \<Rightarrow> m | Some s \<Rightarrow> mflags_loop (skip_spaces s) m, None))"

text \<open>\<open>sscanf("%d,%d")\<close> when it reads both numbers.\<close>

definition scan_num :: "string \<Rightarrow> (int \<times> string) option" where
  "scan_num s = (case s of [] \<Rightarrow> None | c # _ \<Rightarrow> if isdigit c then Some (dec_digits 0 s) else None)"

definition scan_int :: "string \<Rightarrow> (int \<times> string) option" where
  "scan_int s =
     (case dropWhile is_space s of
        [] \<Rightarrow> None
      | c # r \<Rightarrow>
          if c = CHR ''-'' then map_option (\<lambda>(v, t). (- v, t)) (scan_num r)
          else if c = CHR ''+'' then scan_num r else scan_num (c # r))"

definition scan_two :: "string \<Rightarrow> (int \<times> int) option" where
  "scan_two s =
     (case scan_int s of
        None \<Rightarrow> None
      | Some (a, r) \<Rightarrow>
          if r \<noteq> [] \<and> hd r = CHR '','' then map_option (\<lambda>(b, _). (a, b)) (scan_int (tl r)) else None)"

text \<open>The job server of the caller: its descriptors, and the name of its FIFO if it has one.\<close>

definition process_jobserver ::
    "(string \<Rightarrow> int option \<times> int option) \<Rightarrow> (int \<Rightarrow> bool) \<Rightarrow> string option \<Rightarrow> ((int \<times> int) \<times> string option) option \<times> string option" where
  "process_jobserver opens valid env =
     (let (m, env) = process_mflags env;
          by_fds = (\<lambda>s. case scan_two s of
             None \<Rightarrow> None
           | Some (a, b) \<Rightarrow> if valid a \<and> valid b then Some ((a, b), None) else None)
      in (case (mf_fds m, mf_auth m) of
            (Some s, _) \<Rightarrow> by_fds s
          | (None, None) \<Rightarrow> None
          | (None, Some s) \<Rightarrow>
              if starts ''fifo:'' s then
                let path = takeWhile (\<lambda>c. c \<noteq> CHR '' '') (drop 5 s) in
                (case opens path of (Some a, Some b) \<Rightarrow> Some ((a, b), Some path) | _ \<Rightarrow> None)
              else by_fds s, env))"

text \<open>The mode of output that \<open>main\<close> takes from the flags.\<close>

definition main_outsync :: "outsync \<Rightarrow> mflags \<Rightarrow> outsync" where
  "main_outsync os m =
     (case mf_sync m of
        None \<Rightarrow> os
      | Some s \<Rightarrow>
          if starts ''n'' s then OUT_SYNC_NONE else if starts ''l'' s then OUT_SYNC_LINE
          else if starts ''t'' s then OUT_SYNC_TARGET else if starts ''r'' s then OUT_SYNC_RECURSE
          else OUT_SYNC_NOT_SET_YET)"

section \<open>Making a job server\<close>

record pipesys =
  ps_tmpdir :: "string option"
  ps_mkstemp :: "string \<Rightarrow> string option"
  ps_rand :: "nat list"
  ps_mkfifo :: "string \<Rightarrow> bool"
  ps_open :: "string \<Rightarrow> int option \<times> int option"
  ps_fifo_room :: nat
  ps_sock :: "(int \<times> int) option"
  ps_sock_room :: nat
  ps_pipe :: "(int \<times> int) option"
  ps_pipe_room :: nat

definition base62 :: string where
  "base62 = ''ABCDEFGHIJKLMNOPQRSTUVWXYZabcdefghijklmnopqrstuvwxyz0123456789''"

text \<open>The bytes written until one does not fit.\<close>

fun write_tokens :: "nat \<Rightarrow> nat \<Rightarrow> string \<times> bool" where
  "write_tokens 0 room = ([], True)"
| "write_tokens (Suc n) 0 = ([], False)"
| "write_tokens (Suc n) (Suc room) = (let (bs, ok) = write_tokens n room in (CHR ''.'' # bs, ok))"

definition fifo_dir :: "pipesys \<Rightarrow> string" where
  "fifo_dir ps = (case ps_tmpdir ps of None \<Rightarrow> ''/tmp'' | Some d \<Rightarrow> if d = [] then ''/tmp'' else d)"

definition fifo_template :: "string \<Rightarrow> string" where
  "fifo_template d = (if last d = CHR ''/'' then d @ ''SMfifoXXXXXX'' else d @ ''/SMfifoXXXXXX'')"

text \<open>\<open>snprintf\<close> of one more character into the buffer of the given size.\<close>

fun add_random :: "nat \<Rightarrow> nat list \<Rightarrow> string \<Rightarrow> string" where
  "add_random cap [] s = s"
| "add_random cap (r # rs) s = add_random cap rs (take (cap - 1) (s @ [base62 ! (r mod 62)]))"

definition fifo_name :: "pipesys \<Rightarrow> string res" where
  "fifo_name ps =
     (let d = fifo_dir ps; tmpcap = length d + 13 + 6 + 1 in
      bind_res (put_buf tmpcap (fifo_template d)) (\<lambda>tmp.
        case ps_mkstemp ps tmp of
          None \<Rightarrow> Inr []
        | Some tmp \<Rightarrow> Inr (add_random tmpcap (take 6 (ps_rand ps)) tmp)))"

definition create_fifo :: "pipesys \<Rightarrow> nat \<Rightarrow> ((int \<times> int) \<times> string option \<times> string) option res" where
  "create_fifo ps jobcnt =
     bind_res (fifo_name ps) (\<lambda>name.
       Inr (if name = [] \<or> \<not> ps_mkfifo ps name then None
            else case ps_open ps name of
              (Some a, Some b) \<Rightarrow>
                let (bs, ok) = write_tokens (jobcnt - 1) (ps_fifo_room ps) in
                if ok then Some ((a, b), Some name, bs) else None
            | _ \<Rightarrow> None))"

definition create_pipe :: "pipesys \<Rightarrow> bool \<Rightarrow> nat \<Rightarrow> ((int \<times> int) \<times> string option \<times> string) res" where
  "create_pipe ps create_jobserver_fifo jobcnt =
     bind_res (if create_jobserver_fifo then create_fifo ps jobcnt else Inr None) (\<lambda>made.
       case made of
         Some j \<Rightarrow> Inr j
       | None \<Rightarrow>
           (case ps_sock ps of
              None \<Rightarrow> Inl Aborted
            | Some fds \<Rightarrow>
                let (bs, ok) = write_tokens (jobcnt - 1) (ps_sock_room ps) in
                if ok then Inr (fds, None, bs)
                else case ps_pipe ps of
                  None \<Rightarrow> Inl Aborted
                | Some fds \<Rightarrow> Inr (fds, None, fst (write_tokens (jobcnt - 1) (ps_pipe_room ps)))))"

text \<open>The calls of \<open>main\<close>: the mode of output is read from the flags first, and the job server much later.\<close>

definition main_jobserver ::
    "(string \<Rightarrow> int option \<times> int option) \<Rightarrow> (int \<Rightarrow> bool) \<Rightarrow> pipesys \<Rightarrow> bool \<Rightarrow> nat \<Rightarrow> string option
     \<Rightarrow> (outsync \<times> (int \<times> int) \<times> string option \<times> string) res" where
  "main_jobserver opens valid ps create_jobserver_fifo jobcnt env =
     (let (m, env) = process_mflags env;
          os = main_outsync OUT_SYNC_NOT_SET_YET m;
          (joined, env) = process_jobserver opens valid env
      in case joined of
           Some (fds, fifo) \<Rightarrow> Inr (os, fds, fifo, [])
         | None \<Rightarrow> bind_res (create_pipe ps create_jobserver_fifo jobcnt) (\<lambda>j. Inr (os, j)))"

section \<open>Words of the flags\<close>

lemma skip_simps [simp]:
  "skip_spaces [] = []" "skip_spaces (CHR '' '' # s) = skip_spaces s" "c \<noteq> CHR '' '' \<Longrightarrow> skip_spaces (c # s) = c # s"
  by (simp_all add: skip_spaces_def)

lemma starts_append: "starts p (p @ s)"
  by (simp add: starts_def)

lemma starts_hd: "s = [] \<or> hd s \<noteq> hd p \<Longrightarrow> p \<noteq> [] \<Longrightarrow> \<not> starts p s"
  by (cases s; cases p) (auto simp: starts_def)

lemma starts_length: "starts p s \<Longrightarrow> length p \<le> length s"
  by (metis starts_def length_take min.cobounded1)

text \<open>After a word without a space the loop goes on behind the space, if there is one.\<close>

definition rest_of :: "string \<Rightarrow> string" where
  "rest_of s = (case strchr s CHR '' '' of None \<Rightarrow> [] | Some k \<Rightarrow> skip_spaces (drop k s))"

lemma mflags_loop_Nil [simp]: "mflags_loop [] m = m"
  by (simp add: mflags_loop.simps)

lemma mflags_round: "s \<noteq> [] \<Longrightarrow> mflags_loop s m = mflags_loop (rest_of (fst (mflag s m))) (snd (mflag s m))"
  by (subst mflags_loop.simps) (simp add: rest_of_def split: prod.split option.split)

lemma rest_of_word: "CHR '' '' \<notin> set w \<Longrightarrow> rest_of (w @ CHR '' '' # r) = skip_spaces r" "CHR '' '' \<notin> set w \<Longrightarrow> rest_of w = []"
  by (simp_all add: rest_of_def strchr_append)


lemma flag_auth: "mflags_loop (''--jobserver-auth='' @ v) m = mflags_loop (rest_of v) (m\<lparr> mf_auth := Some v \<rparr>)"
  by (subst mflags_round) (simp_all add: mflag_def starts_def)



text \<open>What is too short for a job server changes only the mode of output.\<close>

lemma short_flags: "length s < 16 \<Longrightarrow> mf_fds (mflags_loop s m) = mf_fds m \<and> mf_auth (mflags_loop s m) = mf_auth m"
proof (induction s m rule: mflags_loop.induct)
  case (1 s m)
  show ?case
  proof (cases "s = []")
    case False
    obtain i m' where i: "mflag s m = (i, m')" by (cases "mflag s m")
    have short: "\<not> starts ''--jobserver-fds='' t" "\<not> starts ''--jobserver-auth='' t" if "length t < 16" for t
      using starts_length[of "''--jobserver-fds=''" t] starts_length[of "''--jobserver-auth=''" t] that by auto
    have "length (skip_spaces (drop 2 s)) \<le> length s"
      using length_dropWhile_le[of "\<lambda>c. c = CHR '' ''" "drop 2 s"] by (simp add: skip_spaces_def)
    then have m': "mf_fds m' = mf_fds m" "mf_auth m' = mf_auth m" and l: "length i \<le> length s"
      using i short 1(2) mflag_length[of s m] by (auto simp: mflag_def Let_def split: if_splits)
    show ?thesis
    proof (cases "strchr i CHR '' ''")
      case None
      then show ?thesis using m' i False by (simp add: mflags_loop.simps)
    next
      case (Some k)
      have "length (skip_spaces (drop k i)) < 16" using skip_less[OF Some] l 1(2) by simp
      then show ?thesis using 1(1)[OF False i[symmetric] refl Some] m' i Some False by (subst (1 2) mflags_loop.simps) simp
    qed
  qed simp
qed

section \<open>Numbers\<close>





section \<open>The flags that are written\<close>


lemma sync_flags_length: "length (sync_flags cf cmf os) \<le> 10"
  by (simp add: sync_flags_def)


definition no_flags :: mflags where
  "no_flags = \<lparr> mf_fds = None, mf_auth = None, mf_sync = None \<rparr>"





text \<open>
  Of the name of a FIFO 104 characters arrive: the recipe opens exactly these, so a longer name, which \<open>TMPDIR\<close> can cause,
  names another file.
\<close>

theorem fifo_cut:
  assumes "CHR '' '' \<notin> set path" "ismake \<or> is_makecmd c"
  shows "process_jobserver opens valid (do_makecmd (Some path) fds os ismake c cf cmf env) =
    ((case opens (take 104 path) of (Some a, Some b) \<Rightarrow> Some ((a, b), Some (take 104 path)) | _ \<Rightarrow> None), None)"
proof -
  let ?t = "sync_flags cf cmf os"
  define v where "v = take 109 (''fifo:'' @ path @ '' -j'' @ ?t)"
  have env: "do_makecmd (Some path) fds os ismake c cf cmf env = Some ('' --jobserver-auth='' @ v)"
    using assms(2) by (simp add: do_makecmd_def auth_flags_def MAKEFLAGS_SIZE_def v_def)
  have loop: "process_mflags (Some ('' --jobserver-auth='' @ v)) = (mflags_loop (rest_of v) (no_flags\<lparr> mf_auth := Some v \<rparr>), None)"
    using flag_auth[of v no_flags] by (simp add: process_mflags_def no_flags_def Let_def)
  have v: "v = ''fifo:'' @ take 104 (path @ '' -j'' @ ?t)" by (simp add: v_def)
  have "length (rest_of v) < 16"
  proof (cases "length path < 104")
    case False
    then have "v = ''fifo:'' @ take 104 path" by (simp add: v)
    moreover have "CHR '' '' \<notin> set (''fifo:'' @ take 104 path)" using assms(1) by (auto dest: in_set_takeD)
    ultimately show ?thesis using rest_of_word(2) by simp
  next
    case True
    obtain k where k: "104 - length path = Suc k" using True by (cases "104 - length path") auto
    have w: "CHR '' '' \<notin> set (''fifo:'' @ path)" using assms(1) by simp
    have "v = (''fifo:'' @ path) @ CHR '' '' # take k (''-j'' @ ?t)" using True by (simp add: v k)
    then have r: "rest_of v = skip_spaces (take k (''-j'' @ ?t))" using rest_of_word(1)[OF w] by simp
    have "length (take k (''-j'' @ ?t)) \<le> 12" using sync_flags_length[of cf cmf os] by simp
    then show ?thesis unfolding r
      using length_dropWhile_le[of "\<lambda>c. c = CHR '' ''" "take k (''-j'' @ ?t)"] unfolding skip_spaces_def by linarith
  qed
  from short_flags[OF this, of "no_flags\<lparr> mf_auth := Some v \<rparr>"]
  have m: "mf_fds (fst (process_mflags (Some ('' --jobserver-auth='' @ v)))) = None"
      "mf_auth (fst (process_mflags (Some ('' --jobserver-auth='' @ v)))) = Some v"
      "snd (process_mflags (Some ('' --jobserver-auth='' @ v))) = None"
    unfolding loop by (simp_all add: no_flags_def)
  have "takeWhile (\<lambda>c. c \<noteq> CHR '' '') (drop 5 v) = take 104 path"
  proof (cases "length path < 104")
    case False
    then show ?thesis using assms(1) by (auto simp: v takeWhile_eq_all_conv dest: in_set_takeD)
  next
    case True
    obtain k where "104 - length path = Suc k" using True by (cases "104 - length path") auto
    moreover have "takeWhile (\<lambda>c. c \<noteq> CHR '' '') (path @ CHR '' '' # x) = path" for x
      using assms(1) by (subst takeWhile_append2) auto
    ultimately show ?thesis using True by (simp add: v)
  qed
  moreover have "starts ''fifo:'' v" by (simp add: v starts_def)
  ultimately show ?thesis
    unfolding env process_jobserver_def using m by (simp add: case_prod_beta' Let_def)
qed

theorem fifo_cut_witness:
  "process_jobserver (\<lambda>p. if p = ''/tmp/x'' then (Some 5, Some 6) else (None, None)) (\<lambda>_. True)
     (do_makecmd (Some ''/tmp/x'') (3, 4) OUT_SYNC_LINE True ''sh'' True False None) = (Some ((5, 6), Some ''/tmp/x''), None)"
  by (subst fifo_cut) simp_all

text \<open>
  A job server of the caller is never used: \<open>main\<close> reads the mode of output with \<open>process_mflags\<close>, which removes the variable, before
  it looks for the job server, and so makes one of its own for every value of the variable.
\<close>

theorem main_jobserver_own:
  "main_jobserver opens valid ps create_jobserver_fifo jobcnt env =
    bind_res (create_pipe ps create_jobserver_fifo jobcnt) (\<lambda>j. Inr (main_outsync OUT_SYNC_NOT_SET_YET (fst (process_mflags env)), j))"
  by (simp add: main_jobserver_def process_mflags_def process_jobserver_def Let_def)

section \<open>The job server that is made\<close>

lemma write_tokens_spec: "write_tokens n room = (replicate (min n room) CHR ''.'', n \<le> room)"
  by (induction n room rule: write_tokens.induct) auto

lemma add_random_spec:
  "length s + length rs < cap \<Longrightarrow> add_random cap rs s = s @ map (\<lambda>r. base62 ! (r mod 62)) rs"
  by (induction rs arbitrary: s) auto

text \<open>The buffer for the name of the FIFO is as long as the name needs.\<close>

lemma fifo_name_fits:
  assumes "fifo_dir ps \<noteq> []" "ps_mkstemp ps (fifo_template (fifo_dir ps)) = Some tmp"
    "length tmp = length (fifo_template (fifo_dir ps))" "length (ps_rand ps) = 6"
  shows "fifo_name ps = Inr (tmp @ map (\<lambda>r. base62 ! (r mod 62)) (ps_rand ps))"
  using assms by (simp add: fifo_name_def put_buf_def fifo_template_def add_random_spec Let_def)

lemma create_fifo_spec:
  "create_fifo ps n = Inr (Some (fds, name, bs)) \<Longrightarrow>
    (\<exists>x. name = Some x \<and> fifo_name ps = Inr x \<and> ps_mkfifo ps x) \<and> bs = replicate (n - 1) CHR ''.''"
  by (auto simp: create_fifo_def write_tokens_spec stir_simps split: if_splits option.splits prod.splits)

text \<open>
  The job server that is made holds a dot for every job but one, as far as the pipe has room for them; a FIFO is kept only
  when it holds all of them.
\<close>

theorem create_pipe_tokens:
  assumes "create_pipe ps create_jobserver_fifo n = Inr (fds, name, bs)"
  shows "bs = replicate (length bs) CHR ''.'' \<and> length bs \<le> n - 1 \<and>
    (length bs < n - 1 \<longrightarrow> length bs = ps_pipe_room ps \<and> ps_sock_room ps < n - 1) \<and>
    (\<forall>x. name = Some x \<longrightarrow> create_jobserver_fifo \<and> fifo_name ps = Inr x \<and> length bs = n - 1)"
proof -
  obtain made where made: "(if create_jobserver_fifo then create_fifo ps n else Inr None) = Inr made"
    using assms by (auto simp: create_pipe_def stir_simps)
  show ?thesis
  proof (cases made)
    case (Some j)
    then have "create_fifo ps n = Inr (Some (fds, name, bs))" "create_jobserver_fifo"
      using made assms by (auto simp: create_pipe_def split: if_splits)
    then show ?thesis using create_fifo_spec by fastforce
  next
    case None
    then show ?thesis using made assms
      by (auto simp: create_pipe_def write_tokens_spec Let_def split: option.splits if_splits)
  qed
qed

theorem create_pipe_tokens_witness:
  "\<exists>bs. create_pipe \<lparr> ps_tmpdir = None, ps_mkstemp = (\<lambda>_. None), ps_rand = [], ps_mkfifo = (\<lambda>_. False), ps_open = (\<lambda>_. (None, None)),
     ps_fifo_room = 0, ps_sock = Some (3, 4), ps_sock_room = 2, ps_pipe = Some (5, 6), ps_pipe_room = 9 \<rparr> True 4 = Inr ((5, 6), None, bs) \<and>
     bs = ''...''"
proof -
  let ?ps = "\<lparr> ps_tmpdir = None, ps_mkstemp = (\<lambda>_. None), ps_rand = [], ps_mkfifo = (\<lambda>_. False), ps_open = (\<lambda>_. (None, None)),
     ps_fifo_room = 0, ps_sock = Some (3, 4), ps_sock_room = 2, ps_pipe = Some (5, 6), ps_pipe_room = 9 \<rparr>"
  have "fifo_name ?ps = Inr []" by (simp add: fifo_name_def put_buf_def fifo_template_def fifo_dir_def Let_def)
  then obtain bs where b: "create_pipe ?ps True 4 = Inr ((5, 6), None, bs)"
    by (simp add: create_pipe_def create_fifo_def write_tokens_spec)
  have "length bs = 3" using create_pipe_tokens[OF b] by auto
  then have "bs = ''...''" using create_pipe_tokens[OF b] by (simp add: numeral_3_eq_3)
  then show ?thesis using b by blast
qed

end
