(* ===== verification/Startup.thy ===== *)
theory Startup
  imports Make_Flags Build_Start Up_To_Date
begin

text \<open>
  The beginning of \<open>main\<close> (\<open>stirmake.c\<close>): which kind of job server the system gets, the options, the search for the directory of the
  project, and the names given with \<open>-W\<close>, \<open>-X\<close>, \<open>-o\<close> and \<open>-r\<close>.

  \<open>getopt\<close> gives the options as a list of letters with their arguments.  The search goes through the directories above the current
  one; what it finds there, and what parsing a Stirfile there says, is a list of records.  The messages are left out.
\<close>

section \<open>The kind of job server\<close>

text \<open>The result of \<open>strcmp(s, t) >= 0\<close>.\<close>

fun strcmp_ge :: "string \<Rightarrow> string \<Rightarrow> bool" where
  "strcmp_ge s [] = True"
| "strcmp_ge [] (d # t) = False"
| "strcmp_ge (c # s) (d # t) =
     (if c = d then strcmp_ge s t else (of_char d :: nat) < of_char c)"

definition id_line :: "string \<Rightarrow> string \<Rightarrow> bool" where
  "id_line name line =
     (line = ''ID='' @ name \<or> line = ''ID='' @ CHR 0x22 # name @ [CHR 0x22] \<or>
      line = ''ID='' @ CHR 0x27 # name @ [CHR 0x27])"

text \<open>
  The systems: the names, the version from which on there is a FIFO, and whether a quoted version is read behind its quote.
\<close>

definition systems :: "(string list \<times> string \<times> bool) list" where
  "systems =
     [([''ubuntu''], ''25.04'', True), ([''linuxmint''], ''23'', False), ([''debian'', ''raspbian''], ''13'', True),
      ([''rhel'', ''almalinux'', ''rocky''], ''10'', False), ([''fedora''], ''39'', False), ([''sles''], ''16'', False)]"

definition is_system :: "string list \<Rightarrow> string list \<Rightarrow> bool" where
  "is_system lines ids = (\<exists>line \<in> set lines. \<exists>i \<in> set ids. id_line i line)"

definition version_line :: "string list \<Rightarrow> string \<Rightarrow> bool" where
  "version_line lines line =
     (let quoted = (starts (''VERSION_ID='' @ [CHR 0x22]) line \<or> starts (''VERSION_ID='' @ [CHR 0x27]) line) in
      (quoted \<or> starts ''VERSION_ID='' line) \<and>
      (\<exists>(ids, v, behind) \<in> set systems. is_system lines ids \<and>
         strcmp_ge (drop (if quoted \<and> behind then 12 else 11) line) v))"

text \<open>The lines of \<open>/etc/os-release\<close> without their ends.\<close>

definition os_fifo :: "string list \<Rightarrow> bool" where
  "os_fifo lines = (is_system lines [''arch''] \<or> (\<exists>line \<in> set lines. version_line lines line))"

section \<open>Options\<close>

definition MAX_JOBCNT :: int where "MAX_JOBCNT = 1000"

datatype loadlimit = No_Limit | Cpu_Limit nat | Text_Limit string

record pretend =
  pr_fname :: string
  pr_relative :: bool
  pr_type :: pretendtype

record opts =
  o_usetsdb :: nat
  o_dirs :: "string list"
  o_touch :: bool
  o_silent :: bool
  o_load :: loadlimit
  o_pretend :: "pretend list"
  o_trace :: bool
  o_ignoreerr :: bool
  o_keep :: bool
  o_unconditional :: bool
  o_debug :: bool
  o_test :: bool
  o_dry_run :: bool
  o_sync :: outsync
  o_narration :: bool
  o_fifo :: bool
  o_filename :: string
  o_filename_set :: bool
  o_clean :: bool
  o_cleanbinaries :: bool
  o_jobcnt :: int
  o_mode :: mode
  o_isspecprog :: bool
  o_unsafe :: bool

text \<open>What the options ask of the system: the number of processors, whether \<open>chdir\<close> succeeds, and whether \<open>strtod\<close> reads all of a text.\<close>

record optsys =
  sys_nprocs :: int
  sys_chdir :: "string list \<Rightarrow> string \<Rightarrow> bool"
  sys_strtod :: "string \<Rightarrow> bool"

definition opts_init :: "outsync \<Rightarrow> bool \<Rightarrow> opts" where
  "opts_init sync fifo = \<lparr> o_usetsdb = 2, o_dirs = [], o_touch = False, o_silent = False, o_load = No_Limit, o_pretend = [],
     o_trace = False, o_ignoreerr = False, o_keep = False, o_unconditional = False, o_debug = False, o_test = False,
     o_dry_run = False, o_sync = sync, o_narration = False, o_fifo = fifo, o_filename = ''Stirfile'', o_filename_set = False,
     o_clean = False, o_cleanbinaries = False, o_jobcnt = 1, o_mode = MODE_NONE, o_isspecprog = False, o_unsafe = False \<rparr>"

definition usage :: "'a res" where
  "usage = Inl (Exited ''usage'')"

definition set_mode :: "mode \<Rightarrow> bool \<Rightarrow> opts \<Rightarrow> opts res" where
  "set_mode newmode newspecprog o1 =
     (if o_mode o1 \<noteq> MODE_NONE \<and> o_mode o1 \<noteq> newmode then usage
      else Inr (o1\<lparr> o_mode := newmode, o_isspecprog := o_isspecprog o1 \<or> newspecprog \<rparr>))"

text \<open>\<open>atoi\<close>, for numbers in the range of \<open>int\<close>.\<close>

definition atoi :: "string \<Rightarrow> int" where
  "atoi s = (case scan_int s of None \<Rightarrow> 0 | Some (v, _) \<Rightarrow> v)"

definition add_pretend :: "bool \<Rightarrow> pretendtype \<Rightarrow> string \<Rightarrow> opts \<Rightarrow> opts res" where
  "add_pretend relative typ optarg o1 =
     bind_res (canon optarg) (\<lambda>f.
       Inr (o1\<lparr> o_pretend := \<lparr> pr_fname = f, pr_relative = relative, pr_type = typ \<rparr> # o_pretend o1 \<rparr>))"

definition opt_load :: "optsys \<Rightarrow> string \<Rightarrow> opts \<Rightarrow> opts res" where
  "opt_load sys optarg o1 =
     (if starts ''a'' optarg then Inr (o1\<lparr> o_load := Cpu_Limit (nat (if sys_nprocs sys < 1 then 1 else sys_nprocs sys)) \<rparr>)
      else if sys_strtod sys optarg \<and> optarg \<noteq> [] then Inr (o1\<lparr> o_load := Text_Limit optarg \<rparr>)
      else Inl (Exited ''invalid load average limit''))"

definition opt_jobs :: "optsys \<Rightarrow> string \<Rightarrow> opts \<Rightarrow> opts res" where
  "opt_jobs sys optarg o1 =
     (if starts ''a'' optarg then
        let n = sys_nprocs sys; n = (if n < 1 then 1 else n) in Inr (o1\<lparr> o_jobcnt := (if n > MAX_JOBCNT then MAX_JOBCNT else n) \<rparr>)
      else let n = atoi optarg in if n < 1 \<or> n > MAX_JOBCNT then usage else Inr (o1\<lparr> o_jobcnt := n \<rparr>))"

definition opt_sync :: "string \<Rightarrow> opts \<Rightarrow> opts res" where
  "opt_sync optarg o1 =
     (if starts ''n'' optarg then Inr (o1\<lparr> o_sync := OUT_SYNC_NONE \<rparr>)
      else if starts ''l'' optarg then Inr (o1\<lparr> o_sync := OUT_SYNC_LINE \<rparr>)
      else if starts ''t'' optarg then Inr (o1\<lparr> o_sync := OUT_SYNC_TARGET \<rparr>)
      else if starts ''r'' optarg then Inr (o1\<lparr> o_sync := OUT_SYNC_RECURSE \<rparr>)
      else usage)"

text \<open>One round of the loop over the options; what is not an option asks for help.\<close>

definition opt_step :: "optsys \<Rightarrow> char \<Rightarrow> string \<Rightarrow> opts \<Rightarrow> opts res" where
  "opt_step sys opt optarg o1 =
     (if opt = CHR ''e'' then Inr (o1\<lparr> o_usetsdb := 0 \<rparr>)
      else if opt = CHR ''E'' then Inr (o1\<lparr> o_usetsdb := 1 \<rparr>)
      else if opt = CHR ''C'' then
        if sys_chdir sys (o_dirs o1) optarg then Inr (o1\<lparr> o_dirs := o_dirs o1 @ [optarg] \<rparr>) else Inl (Exited ''failed to chdir'')
      else if opt = CHR ''v'' then Inl (Exited ''version'')
      else if opt = CHR ''G'' then Inl (Exited ''versions'')
      else if opt = CHR ''T'' then Inr (o1\<lparr> o_touch := True \<rparr>)
      else if opt = CHR ''s'' then Inr (o1\<lparr> o_silent := True \<rparr>)
      else if opt = CHR ''l'' then opt_load sys optarg o1
      else if opt = CHR ''W'' then add_pretend False PRETEND_MODIFIED optarg o1
      else if opt = CHR ''X'' then add_pretend True PRETEND_MODIFIED optarg o1
      else if opt = CHR ''o'' then add_pretend False PRETEND_VERY_OLD_NO_REMAKE optarg o1
      else if opt = CHR ''R'' then Inr (o1\<lparr> o_trace := True \<rparr>)
      else if opt = CHR ''r'' then add_pretend True PRETEND_VERY_OLD_NO_REMAKE optarg o1
      else if opt = CHR ''i'' then Inr (o1\<lparr> o_ignoreerr := True \<rparr>)
      else if opt = CHR ''k'' then Inr (o1\<lparr> o_keep := True \<rparr>)
      else if opt = CHR ''B'' then Inr (o1\<lparr> o_unconditional := True \<rparr>)
      else if opt = CHR ''d'' then Inr (o1\<lparr> o_debug := True \<rparr>)
      else if opt = CHR ''q'' then Inr (o1\<lparr> o_test := True \<rparr>)
      else if opt = CHR ''n'' then Inr (o1\<lparr> o_dry_run := True \<rparr>)
      else if opt = CHR ''O'' then opt_sync optarg o1
      else if opt = CHR ''H'' then Inr (o1\<lparr> o_narration := True \<rparr>)
      else if opt = CHR ''F'' then Inr (o1\<lparr> o_fifo := True \<rparr>)
      else if opt = CHR ''P'' then Inr (o1\<lparr> o_fifo := False \<rparr>)
      else if opt = CHR ''f'' then Inr (o1\<lparr> o_filename_set := True, o_filename := optarg \<rparr>)
      else if opt = CHR ''c'' then Inr (o1\<lparr> o_clean := True \<rparr>)
      else if opt = CHR ''b'' then Inr (o1\<lparr> o_cleanbinaries := True \<rparr>)
      else if opt = CHR ''j'' then opt_jobs sys optarg o1
      else if opt = CHR ''t'' then set_mode MODE_THIS False o1
      else if opt = CHR ''p'' then set_mode MODE_PROJECT False o1
      else if opt = CHR ''a'' then set_mode MODE_ALL False o1
      else if opt = CHR ''u'' then Inr (o1\<lparr> o_unsafe := True \<rparr>)
      else usage)"

fun opt_steps :: "optsys \<Rightarrow> (char \<times> string) list \<Rightarrow> opts \<Rightarrow> opts res" where
  "opt_steps sys [] o1 = Inr o1"
| "opt_steps sys ((opt, optarg) # os) o1 = bind_res (opt_step sys opt optarg o1) (opt_steps sys os)"

definition check_opts :: "opts \<Rightarrow> opts res" where
  "check_opts o1 =
     (if o_test o1 \<and> (o_clean o1 \<or> o_cleanbinaries o1) then usage
      else if o_mode o1 = MODE_NONE \<and> \<not> o_filename_set o1 then usage
      else if o_mode o1 \<noteq> MODE_NONE \<and> o_filename_set o1 then usage
      else Inr o1)"

definition special_mode :: "string \<Rightarrow> opts \<Rightarrow> opts res" where
  "special_mode basenm o1 =
     (if basenm = ''smka'' then set_mode MODE_ALL True o1
      else if basenm = ''smkt'' then set_mode MODE_THIS True o1
      else if basenm = ''smkp'' then set_mode MODE_PROJECT True o1
      else Inr o1)"

definition main_opts :: "optsys \<Rightarrow> string \<Rightarrow> mflags \<Rightarrow> string list \<Rightarrow> (char \<times> string) list \<Rightarrow> opts res" where
  "main_opts sys basenm m os_lines os =
     bind_res (special_mode basenm (opts_init (main_outsync OUT_SYNC_NOT_SET_YET m) (os_fifo os_lines))) (\<lambda>o1.
     bind_res (opt_steps sys os o1) check_opts)"

section \<open>The directory of the project\<close>

text \<open>What parsing a Stirfile in a directory above says: whether the Stirfile of the starting directory is included from there.\<close>

record stirinfo =
  si_parsed :: bool
  si_indicator :: bool
  si_toplevel :: bool
  si_subdir :: bool
  si_subdir_same :: bool

record updir =
  ud_name :: string
  ud_chdir :: bool
  ud_stat :: bool
  ud_wother :: bool
  ud_stirfile :: "stirinfo option"

record found =
  fd_cwd :: string
  fd_upcnt :: nat
  fd_cwd_same :: string
  fd_upcnt_same :: nat

definition note_stirfile :: "updir \<Rightarrow> stirinfo \<Rightarrow> nat \<Rightarrow> found \<Rightarrow> found" where
  "note_stirfile d si n fd =
     (let fd = (if si_parsed si \<and> si_subdir si then fd\<lparr> fd_upcnt := n, fd_cwd := ud_name d \<rparr> else fd) in
      if si_parsed si \<and> si_subdir_same si then fd\<lparr> fd_upcnt_same := n, fd_cwd_same := ud_name d \<rparr> else fd)"

fun search_up :: "bool \<Rightarrow> bool \<Rightarrow> nat \<Rightarrow> updir list \<Rightarrow> found \<Rightarrow> found" where
  "search_up unsafe toplevel n [] fd = fd"
| "search_up unsafe toplevel n (d # ds) fd =
     (if \<not> ud_chdir d \<or> \<not> ud_stat d \<or> (ud_wother d \<and> \<not> unsafe \<and> toplevel) then fd
      else case ud_stirfile d of
        None \<Rightarrow> search_up unsafe toplevel (Suc n) ds fd
      | Some si \<Rightarrow>
          search_up unsafe (if si_indicator si then si_toplevel si else True) (Suc n) ds (note_stirfile d si (Suc n) fd))"

definition search_project :: "bool \<Rightarrow> stirinfo option \<Rightarrow> string \<Rightarrow> updir list \<Rightarrow> found" where
  "search_project unsafe here storcwd ds =
     search_up unsafe (case here of None \<Rightarrow> True | Some si \<Rightarrow> if si_indicator si then si_toplevel si else True) 0 ds
       \<lparr> fd_cwd = storcwd, fd_upcnt = 0, fd_cwd_same = storcwd, fd_upcnt_same = 0 \<rparr>"

text \<open>The paths from the directory of the project to where stirmake was started, and to the part that is made.\<close>

definition forward_paths :: "mode \<Rightarrow> string \<Rightarrow> found \<Rightarrow> string \<times> string" where
  "forward_paths md storcwd fd =
     (calc_forward_path storcwd (fd_upcnt fd),
      if md = MODE_THIS then calc_forward_path storcwd (fd_upcnt fd)
      else if md = MODE_PROJECT then calc_forward_path (fd_cwd_same fd) (fd_upcnt fd - fd_upcnt_same fd)
      else ''.'')"

section \<open>Names to pretend\<close>

definition resolve_pretend :: "string \<Rightarrow> string \<Rightarrow> pretend \<Rightarrow> (string \<times> pretendtype) res" where
  "resolve_pretend this_path fwd_path p =
     (let base = (if pr_relative p then this_path else fwd_path) in
      bind_res (put_buf (length base + 1 + length (pr_fname p) + 1) (base @ CHR ''/'' # pr_fname p)) (\<lambda>pathbuf.
      bind_res (canon pathbuf) (\<lambda>f. Inr (f, pr_type p))))"

fun resolve_pretends :: "string \<Rightarrow> string \<Rightarrow> pretend list \<Rightarrow> (string \<times> pretendtype) list res" where
  "resolve_pretends this_path fwd_path [] = Inr []"
| "resolve_pretends this_path fwd_path (p # ps) =
     bind_res (resolve_pretend this_path fwd_path p) (\<lambda>q.
     bind_res (resolve_pretends this_path fwd_path ps) (\<lambda>qs. Inr (q # qs)))"

section \<open>Options are what is given\<close>

definition given :: "char \<Rightarrow> (char \<times> string) list \<Rightarrow> bool" where
  "given c os = (c \<in> fst ` set os)"

lemma given_simps [simp]: "given c [] = False" "given c ((d, a) # os) = (d = c \<or> given c os)"
  by (auto simp: given_def)

definition mode_opt :: "char \<Rightarrow> mode option" where
  "mode_opt c = (if c = CHR ''t'' then Some MODE_THIS else if c = CHR ''p'' then Some MODE_PROJECT
     else if c = CHR ''a'' then Some MODE_ALL else None)"

text \<open>The argument of the last option with this letter.\<close>

fun last_arg :: "char \<Rightarrow> (char \<times> string) list \<Rightarrow> string \<Rightarrow> string" where
  "last_arg c [] s = s"
| "last_arg c ((d, a) # os) s = last_arg c os (if d = c then a else s)"

lemmas opt_defs = opt_load_def opt_jobs_def opt_sync_def add_pretend_def set_mode_def usage_def Let_def stir_simps

lemma opt_step_args:
  "opt_load sys a o1 = Inr o2 \<Longrightarrow> \<exists>l. o2 = o1\<lparr> o_load := l \<rparr>"
  "opt_sync a o1 = Inr o2 \<Longrightarrow> \<exists>x. o2 = o1\<lparr> o_sync := x \<rparr>"
  "add_pretend b t a o1 = Inr o2 \<Longrightarrow> \<exists>x. o2 = o1\<lparr> o_pretend := x \<rparr>"
  "opt_jobs sys a o1 = Inr o2 \<Longrightarrow> \<exists>n. o2 = o1\<lparr> o_jobcnt := n \<rparr> \<and> 1 \<le> n \<and> n \<le> MAX_JOBCNT"
  "set_mode md b o1 = Inr o2 \<Longrightarrow> (o_mode o1 = MODE_NONE \<or> o_mode o1 = md) \<and> (\<exists>x. o2 = o1\<lparr> o_mode := md, o_isspecprog := x \<rparr>)"
  by (auto simp: opt_defs MAX_JOBCNT_def split: if_splits)

lemma if_caseE: "(if b then x else y) = r \<Longrightarrow> (b \<Longrightarrow> x = r \<Longrightarrow> P) \<Longrightarrow> (\<not> b \<Longrightarrow> y = r \<Longrightarrow> P) \<Longrightarrow> P"
  by (cases b) auto

lemma opt_step_flags:
  assumes "opt_step sys c a o1 = Inr o2"
  shows "o_test o2 = (o_test o1 \<or> c = CHR ''q'') \<and> o_clean o2 = (o_clean o1 \<or> c = CHR ''c'') \<and>
    o_cleanbinaries o2 = (o_cleanbinaries o1 \<or> c = CHR ''b'') \<and> o_keep o2 = (o_keep o1 \<or> c = CHR ''k'') \<and>
    o_ignoreerr o2 = (o_ignoreerr o1 \<or> c = CHR ''i'') \<and> o_unconditional o2 = (o_unconditional o1 \<or> c = CHR ''B'') \<and>
    o_dry_run o2 = (o_dry_run o1 \<or> c = CHR ''n'') \<and> o_touch o2 = (o_touch o1 \<or> c = CHR ''T'') \<and>
    o_unsafe o2 = (o_unsafe o1 \<or> c = CHR ''u'') \<and> o_filename_set o2 = (o_filename_set o1 \<or> c = CHR ''f'') \<and>
    o_filename o2 = (if c = CHR ''f'' then a else o_filename o1) \<and>
    (1 \<le> o_jobcnt o1 \<and> o_jobcnt o1 \<le> MAX_JOBCNT \<longrightarrow> 1 \<le> o_jobcnt o2 \<and> o_jobcnt o2 \<le> MAX_JOBCNT) \<and>
    o_mode o2 = (case mode_opt c of None \<Rightarrow> o_mode o1 | Some md \<Rightarrow> md) \<and>
    (mode_opt c \<noteq> None \<longrightarrow> o_mode o1 = MODE_NONE \<or> mode_opt c = Some (o_mode o1))"
  using assms unfolding opt_step_def usage_def
  by (elim if_caseE) (simp_all add: mode_opt_def, (fastforce dest!: opt_step_args)+)

text \<open>The value that an option gives, for what the option given last decides.\<close>

fun last_of :: "(char \<Rightarrow> string \<Rightarrow> 'a option) \<Rightarrow> (char \<times> string) list \<Rightarrow> 'a \<Rightarrow> 'a" where
  "last_of f [] x = x"
| "last_of f ((c, a) # os) x = last_of f os (case f c a of None \<Rightarrow> x | Some y \<Rightarrow> y)"

definition tsdb_opt :: "char \<Rightarrow> string \<Rightarrow> nat option" where
  "tsdb_opt c a = (if c = CHR ''e'' then Some 0 else if c = CHR ''E'' then Some 1 else None)"

definition fifo_opt :: "char \<Rightarrow> string \<Rightarrow> bool option" where
  "fifo_opt c a = (if c = CHR ''F'' then Some True else if c = CHR ''P'' then Some False else None)"

definition sync_opt :: "char \<Rightarrow> string \<Rightarrow> outsync option" where
  "sync_opt c a =
     (if c \<noteq> CHR ''O'' then None
      else Some (case hd a of CHR ''n'' \<Rightarrow> OUT_SYNC_NONE | CHR ''l'' \<Rightarrow> OUT_SYNC_LINE | CHR ''t'' \<Rightarrow> OUT_SYNC_TARGET | _ \<Rightarrow> OUT_SYNC_RECURSE))"

definition load_opt :: "optsys \<Rightarrow> char \<Rightarrow> string \<Rightarrow> loadlimit option" where
  "load_opt sys c a =
     (if c \<noteq> CHR ''l'' then None else Some (if starts ''a'' a then Cpu_Limit (nat (max 1 (sys_nprocs sys))) else Text_Limit a))"

definition jobs_opt :: "optsys \<Rightarrow> char \<Rightarrow> string \<Rightarrow> int option" where
  "jobs_opt sys c a =
     (if c \<noteq> CHR ''j'' then None else Some (if starts ''a'' a then max 1 (min MAX_JOBCNT (sys_nprocs sys)) else atoi a))"

text \<open>The names to pretend, and the directories to change to.\<close>

definition pretend_opt :: "char \<Rightarrow> string \<Rightarrow> pretend list" where
  "pretend_opt c a =
     (case canon a of
        Inl _ \<Rightarrow> []
      | Inr f \<Rightarrow>
          if c = CHR ''W'' then [\<lparr> pr_fname = f, pr_relative = False, pr_type = PRETEND_MODIFIED \<rparr>]
          else if c = CHR ''X'' then [\<lparr> pr_fname = f, pr_relative = True, pr_type = PRETEND_MODIFIED \<rparr>]
          else if c = CHR ''o'' then [\<lparr> pr_fname = f, pr_relative = False, pr_type = PRETEND_VERY_OLD_NO_REMAKE \<rparr>]
          else if c = CHR ''r'' then [\<lparr> pr_fname = f, pr_relative = True, pr_type = PRETEND_VERY_OLD_NO_REMAKE \<rparr>]
          else [])"

definition dir_opt :: "char \<Rightarrow> string \<Rightarrow> string list" where
  "dir_opt c a = (if c = CHR ''C'' then [a] else [])"

lemma starts_one: "starts [c] s \<longleftrightarrow> s \<noteq> [] \<and> hd s = c"
  by (cases s) (auto simp: starts_def)

lemma opt_arg_values:
  "opt_load sys a o1 = Inr o2 \<Longrightarrow> Inr o2 = Inr (o1\<lparr> o_load := the (load_opt sys CHR ''l'' a) \<rparr>) "
  "opt_sync a o1 = Inr o2 \<Longrightarrow> Inr o2 = Inr (o1\<lparr> o_sync := the (sync_opt CHR ''O'' a) \<rparr>)"
  "opt_jobs sys a o1 = Inr o2 \<Longrightarrow> Inr o2 = Inr (o1\<lparr> o_jobcnt := the (jobs_opt sys CHR ''j'' a) \<rparr>)"
  by (auto simp: opt_load_def opt_sync_def opt_jobs_def usage_def load_opt_def sync_opt_def jobs_opt_def starts_one Let_def
      MAX_JOBCNT_def max_def min_def split: if_splits)

lemma add_pretend_value:
  "add_pretend b ty a o1 = Inr o2 \<Longrightarrow> \<exists>f. canon a = Inr f \<and> o2 = o1\<lparr> o_pretend := \<lparr> pr_fname = f, pr_relative = b, pr_type = ty \<rparr> # o_pretend o1 \<rparr>"
  by (auto simp: add_pretend_def stir_simps)

lemma opt_values:
  "load_opt sys c a = None \<longleftrightarrow> c \<noteq> CHR ''l''" "sync_opt c a = None \<longleftrightarrow> c \<noteq> CHR ''O''" "jobs_opt sys c a = None \<longleftrightarrow> c \<noteq> CHR ''j''"
  by (simp_all add: load_opt_def sync_opt_def jobs_opt_def)

lemma opt_arg_cases:
  "opt_load sys a o1 = Inr o2 \<Longrightarrow> \<exists>l. load_opt sys CHR ''l'' a = Some l \<and> o2 = o1\<lparr> o_load := l \<rparr>"
  "opt_sync a o1 = Inr o2 \<Longrightarrow> \<exists>x. sync_opt CHR ''O'' a = Some x \<and> o2 = o1\<lparr> o_sync := x \<rparr>"
  "opt_jobs sys a o1 = Inr o2 \<Longrightarrow> \<exists>n. jobs_opt sys CHR ''j'' a = Some n \<and> o2 = o1\<lparr> o_jobcnt := n \<rparr>"
  using opt_arg_values(1)[of sys a o1 o2] opt_arg_values(2)[of a o1 o2] opt_arg_values(3)[of sys a o1 o2] opt_values
  by (metis Inr_inject option.collapse)+

lemma opt_step_last:
  assumes "opt_step sys c a o1 = Inr o2"
  shows "o_usetsdb o2 = (case tsdb_opt c a of None \<Rightarrow> o_usetsdb o1 | Some x \<Rightarrow> x) \<and>
    o_fifo o2 = (case fifo_opt c a of None \<Rightarrow> o_fifo o1 | Some x \<Rightarrow> x)"
  using assms unfolding opt_step_def usage_def
  by (elim if_caseE) (simp_all add: tsdb_opt_def fifo_opt_def, (fastforce dest!: opt_step_args)+)

lemma opt_step_given:
  assumes "opt_step sys c a o1 = Inr o2"
  shows "o_silent o2 = (o_silent o1 \<or> c = CHR ''s'') \<and> o_trace o2 = (o_trace o1 \<or> c = CHR ''R'') \<and>
    o_debug o2 = (o_debug o1 \<or> c = CHR ''d'') \<and> o_narration o2 = (o_narration o1 \<or> c = CHR ''H'')"
  using assms unfolding opt_step_def usage_def
  by (elim if_caseE) (simp_all, (fastforce dest!: opt_step_args)+)

lemma opt_step_vals:
  assumes "opt_step sys c a o1 = Inr o2"
  shows "o_sync o2 = (case sync_opt c a of None \<Rightarrow> o_sync o1 | Some x \<Rightarrow> x) \<and>
    o_load o2 = (case load_opt sys c a of None \<Rightarrow> o_load o1 | Some x \<Rightarrow> x) \<and>
    o_jobcnt o2 = (case jobs_opt sys c a of None \<Rightarrow> o_jobcnt o1 | Some x \<Rightarrow> x)"
proof -
  have n: "d \<noteq> CHR ''O'' \<Longrightarrow> sync_opt d a = None" "d \<noteq> CHR ''l'' \<Longrightarrow> load_opt sys d a = None" "d \<noteq> CHR ''j'' \<Longrightarrow> jobs_opt sys d a = None"
    for d using opt_values by auto
  show ?thesis
    using assms unfolding opt_step_def usage_def
    by (elim if_caseE) (simp_all add: n, (fastforce dest!: opt_arg_cases opt_step_args(3,5) simp: n)+)
qed

lemma opt_step_lists:
  assumes "opt_step sys c a o1 = Inr o2"
  shows "o_dirs o2 = o_dirs o1 @ dir_opt c a \<and> o_pretend o2 = pretend_opt c a @ o_pretend o1"
proof -
  have n: "d \<notin> {CHR ''W'', CHR ''X'', CHR ''o'', CHR ''r''} \<Longrightarrow> pretend_opt d a = []" for d
    by (auto simp: pretend_opt_def split: sum.split)
  show ?thesis
    using assms unfolding opt_step_def usage_def
    by (elim if_caseE) (simp_all add: n dir_opt_def, (fastforce dest!: add_pretend_value opt_step_args(1,2,4,5) simp: n pretend_opt_def)+)
qed

lemma opt_step_modes:
  assumes "opt_step sys c a o1 = Inr o2"
  shows "1 \<le> o_jobcnt o1 \<and> o_jobcnt o1 \<le> MAX_JOBCNT \<longrightarrow> 1 \<le> o_jobcnt o2 \<and> o_jobcnt o2 \<le> MAX_JOBCNT"
    "o_mode o2 = (case mode_opt c of None \<Rightarrow> o_mode o1 | Some md \<Rightarrow> md)"
    "mode_opt c \<noteq> None \<longrightarrow> o_mode o1 = MODE_NONE \<or> mode_opt c = Some (o_mode o1)"
  by (insert opt_step_flags[OF assms]; elim conjE; assumption)+

lemma mode_opt_some: "mode_opt c = Some md \<Longrightarrow> md \<noteq> MODE_NONE"
  by (auto simp: mode_opt_def split: if_splits)

lemma opt_steps_flag:
  assumes "\<And>c a o1 o2. opt_step sys c a o1 = Inr o2 \<Longrightarrow> f o2 = (f o1 \<or> c = x)"
  shows "opt_steps sys os o1 = Inr o2 \<Longrightarrow> f o2 = (f o1 \<or> given x os)"
proof (induction os arbitrary: o1)
  case (Cons y os)
  obtain c a where y: "y = (c, a)" by (cases y)
  obtain o3 where o3: "opt_step sys c a o1 = Inr o3" "opt_steps sys os o3 = Inr o2"
    using Cons.prems by (auto simp: y stir_simps)
  show ?case using Cons.IH[OF o3(2)] assms[OF o3(1)] by (auto simp: y)
qed simp

lemma opt_steps_file:
  "opt_steps sys os o1 = Inr o2 \<Longrightarrow> o_filename o2 = last_arg CHR ''f'' os (o_filename o1)"
proof (induction os arbitrary: o1)
  case (Cons y os)
  obtain c a where y: "y = (c, a)" by (cases y)
  obtain o3 where o3: "opt_step sys c a o1 = Inr o3" "opt_steps sys os o3 = Inr o2"
    using Cons.prems by (auto simp: y stir_simps)
  have "o_filename o3 = (if c = CHR ''f'' then a else o_filename o1)" using opt_step_flags[OF o3(1)] by (elim conjE)
  then show ?case using Cons.IH[OF o3(2)] by (simp add: y)
qed simp

lemma opt_steps_flags:
  assumes "opt_steps sys os o1 = Inr o2"
  shows "o_test o2 = (o_test o1 \<or> given CHR ''q'' os)" "o_clean o2 = (o_clean o1 \<or> given CHR ''c'' os)"
    "o_cleanbinaries o2 = (o_cleanbinaries o1 \<or> given CHR ''b'' os)" "o_keep o2 = (o_keep o1 \<or> given CHR ''k'' os)"
    "o_ignoreerr o2 = (o_ignoreerr o1 \<or> given CHR ''i'' os)" "o_unconditional o2 = (o_unconditional o1 \<or> given CHR ''B'' os)"
    "o_dry_run o2 = (o_dry_run o1 \<or> given CHR ''n'' os)" "o_touch o2 = (o_touch o1 \<or> given CHR ''T'' os)"
    "o_unsafe o2 = (o_unsafe o1 \<or> given CHR ''u'' os)" "o_filename_set o2 = (o_filename_set o1 \<or> given CHR ''f'' os)"
  by (rule opt_steps_flag[OF _ assms]; drule opt_step_flags; elim conjE; assumption)+

lemma opt_steps_jobcnt:
  "opt_steps sys os o1 = Inr o2 \<Longrightarrow> 1 \<le> o_jobcnt o1 \<and> o_jobcnt o1 \<le> MAX_JOBCNT \<Longrightarrow> 1 \<le> o_jobcnt o2 \<and> o_jobcnt o2 \<le> MAX_JOBCNT"
proof (induction os arbitrary: o1)
  case (Cons x os)
  obtain c a where x: "x = (c, a)" by (cases x)
  obtain o3 where o3: "opt_step sys c a o1 = Inr o3" "opt_steps sys os o3 = Inr o2"
    using Cons.prems(1) by (auto simp: x stir_simps)
  have "1 \<le> o_jobcnt o3 \<and> o_jobcnt o3 \<le> MAX_JOBCNT" using opt_step_modes(1)[OF o3(1)] Cons.prems(2) by blast
  then show ?case by (rule Cons.IH[OF o3(2)])
qed simp

lemma opt_steps_last:
  assumes "\<And>c a o1 o2. opt_step sys c a o1 = Inr o2 \<Longrightarrow> f o2 = (case g c a of None \<Rightarrow> f o1 | Some x \<Rightarrow> x)"
  shows "opt_steps sys os o1 = Inr o2 \<Longrightarrow> f o2 = last_of g os (f o1)"
proof (induction os arbitrary: o1)
  case (Cons y os)
  obtain c a where y: "y = (c, a)" by (cases y)
  obtain o3 where o3: "opt_step sys c a o1 = Inr o3" "opt_steps sys os o3 = Inr o2"
    using Cons.prems by (auto simp: y stir_simps)
  show ?case using Cons.IH[OF o3(2)] assms[OF o3(1)] by (simp add: y)
qed simp

lemma opt_steps_lists:
  "opt_steps sys os o1 = Inr o2 \<Longrightarrow> o_dirs o2 = o_dirs o1 @ concat (map (\<lambda>(c, a). dir_opt c a) os) \<and>
    o_pretend o2 = concat (rev (map (\<lambda>(c, a). pretend_opt c a) os)) @ o_pretend o1"
proof (induction os arbitrary: o1)
  case (Cons y os)
  obtain c a where y: "y = (c, a)" by (cases y)
  obtain o3 where o3: "opt_step sys c a o1 = Inr o3" "opt_steps sys os o3 = Inr o2"
    using Cons.prems by (auto simp: y stir_simps)
  show ?case using Cons.IH[OF o3(2)] opt_step_lists[OF o3(1)] by (simp add: y)
qed simp

lemma opt_steps_values:
  assumes "opt_steps sys os o1 = Inr o2"
  shows "o_usetsdb o2 = last_of tsdb_opt os (o_usetsdb o1)" "o_fifo o2 = last_of fifo_opt os (o_fifo o1)"
  by (rule opt_steps_last[OF _ assms]; drule opt_step_last; elim conjE; assumption)+

lemma opt_steps_args:
  assumes "opt_steps sys os o1 = Inr o2"
  shows "o_sync o2 = last_of sync_opt os (o_sync o1)" "o_load o2 = last_of (load_opt sys) os (o_load o1)"
    "o_jobcnt o2 = last_of (jobs_opt sys) os (o_jobcnt o1)"
  by (rule opt_steps_last[OF _ assms]; drule opt_step_vals; elim conjE; assumption)+

lemma opt_steps_mode: "opt_steps sys os o1 = Inr o2 \<Longrightarrow> o_mode o2 = last_of (\<lambda>c _. mode_opt c) os (o_mode o1)"
  by (rule opt_steps_last[OF opt_step_modes(2)])

lemma opt_steps_given:
  assumes "opt_steps sys os o1 = Inr o2"
  shows "o_silent o2 = (o_silent o1 \<or> given CHR ''s'' os)" "o_trace o2 = (o_trace o1 \<or> given CHR ''R'' os)"
    "o_debug o2 = (o_debug o1 \<or> given CHR ''d'' os)" "o_narration o2 = (o_narration o1 \<or> given CHR ''H'' os)"
  by (rule opt_steps_flag[OF _ assms]; drule opt_step_given; elim conjE; assumption)+

lemma opt_step_spec: "opt_step sys c a o1 = Inr o2 \<Longrightarrow> o_isspecprog o2 = (o_isspecprog o1 \<or> False)"
  unfolding opt_step_def usage_def
  by (elim if_caseE) (simp_all, (fastforce dest!: opt_step_args(1-4) simp: set_mode_def usage_def split: if_splits)+)

lemma opt_steps_spec: "opt_steps sys os o1 = Inr o2 \<Longrightarrow> o_isspecprog o2 = o_isspecprog o1"
proof (induction os arbitrary: o1)
  case (Cons y os)
  obtain c a where y: "y = (c, a)" by (cases y)
  obtain o3 where o3: "opt_step sys c a o1 = Inr o3" "opt_steps sys os o3 = Inr o2"
    using Cons.prems by (auto simp: y stir_simps)
  show ?case using Cons.IH[OF o3(2)] opt_step_spec[OF o3(1)] by simp
qed simp

definition asks :: "mode \<Rightarrow> (char \<times> string) list \<Rightarrow> bool" where
  "asks md os = (\<forall>(c, a) \<in> set os. mode_opt c \<noteq> None \<longrightarrow> mode_opt c = Some md)"

lemma opt_steps_modes:
  "opt_steps sys os o1 = Inr o2 \<Longrightarrow> (o_mode o1 \<noteq> MODE_NONE \<longrightarrow> o_mode o2 = o_mode o1) \<and> asks (o_mode o2) os"
proof (induction os arbitrary: o1)
  case Nil
  then show ?case by (simp add: asks_def)
next
  case (Cons x os)
  obtain c a where x: "x = (c, a)" by (cases x)
  obtain o3 where o3: "opt_step sys c a o1 = Inr o3" "opt_steps sys os o3 = Inr o2"
    using Cons.prems by (auto simp: x stir_simps)
  have F: "o_mode o3 = (case mode_opt c of None \<Rightarrow> o_mode o1 | Some md \<Rightarrow> md)"
      "mode_opt c \<noteq> None \<Longrightarrow> o_mode o1 = MODE_NONE \<or> mode_opt c = Some (o_mode o1)"
    using opt_step_modes(2,3)[OF o3(1)] by blast+
  have IH: "o_mode o3 \<noteq> MODE_NONE \<Longrightarrow> o_mode o2 = o_mode o3" "asks (o_mode o2) os" using Cons.IH[OF o3(2)] by blast+
  have new: "asks (o_mode o2) ((c, a) # os)" if "mode_opt c \<noteq> None \<Longrightarrow> mode_opt c = Some (o_mode o2)"
    using IH(2) that by (auto simp: asks_def)
  show ?case
  proof (cases "mode_opt c")
    case None
    then have "o_mode o3 = o_mode o1" using F(1) by simp
    then show ?thesis using IH(1) new None by (simp add: x)
  next
    case (Some md)
    then have md: "o_mode o3 = md" "o_mode o2 = md" using F(1) IH(1) mode_opt_some[OF Some] by simp_all
    then show ?thesis using F(2) new Some by (auto simp: x)
  qed
qed

text \<open>
  C39: Options: when \<open>main\<close> accepts them, every field is exactly what is given.  Each switch (\<open>-q\<close>, \<open>-c\<close>, \<open>-b\<close>, \<open>-k\<close>, \<open>-i\<close>, \<open>-B\<close>,
  \<open>-n\<close>, \<open>-T\<close>, \<open>-u\<close>, \<open>-s\<close>, \<open>-R\<close>, \<open>-d\<close>, \<open>-H\<close>) is set exactly when it is given.  The option given last decides on the file (\<open>-f\<close>), on the
  database of time stamps (\<open>-e\<close>, \<open>-E\<close>), on pipe or FIFO (\<open>-F\<close>, \<open>-P\<close>, else what the system has), on the output (\<open>-O\<close>, else what the
  flags of make say), on the limit of the load (\<open>-l\<close>) and on the number of jobs (\<open>-j\<close>, else 1), which is between 1 and 1000.  The
  directories of \<open>-C\<close> are entered in order, and the names to pretend (\<open>-W\<close>, \<open>-X\<close>, \<open>-o\<close>, \<open>-r\<close>) are kept in canonical form, the last one
  first.  Either a file is given or one mode, which is the one that the name of the program and every option ask for, and testing
  is not combined with cleaning.
\<close>

theorem options_exact:
  assumes "main_opts sys basenm m os_lines os = Inr o2"
  shows "1 \<le> o_jobcnt o2 \<and> o_jobcnt o2 \<le> MAX_JOBCNT \<and> (o_mode o2 = MODE_NONE \<longleftrightarrow> given CHR ''f'' os) \<and>
    asks (o_mode o2) os \<and> (basenm = ''smka'' \<longrightarrow> o_mode o2 = MODE_ALL) \<and> (basenm = ''smkt'' \<longrightarrow> o_mode o2 = MODE_THIS) \<and>
    (basenm = ''smkp'' \<longrightarrow> o_mode o2 = MODE_PROJECT) \<and>
    (basenm \<notin> {''smka'', ''smkt'', ''smkp''} \<longrightarrow> o_mode o2 = last_of (\<lambda>c _. mode_opt c) os MODE_NONE) \<and>
    o_isspecprog o2 = (basenm \<in> {''smka'', ''smkt'', ''smkp''}) \<and>
    \<not> (given CHR ''q'' os \<and> (given CHR ''c'' os \<or> given CHR ''b'' os)) \<and>
    o_test o2 = given CHR ''q'' os \<and> o_clean o2 = given CHR ''c'' os \<and> o_cleanbinaries o2 = given CHR ''b'' os \<and>
    o_keep o2 = given CHR ''k'' os \<and> o_ignoreerr o2 = given CHR ''i'' os \<and> o_unconditional o2 = given CHR ''B'' os \<and>
    o_dry_run o2 = given CHR ''n'' os \<and> o_touch o2 = given CHR ''T'' os \<and> o_unsafe o2 = given CHR ''u'' os \<and>
    o_silent o2 = given CHR ''s'' os \<and> o_trace o2 = given CHR ''R'' os \<and> o_debug o2 = given CHR ''d'' os \<and>
    o_narration o2 = given CHR ''H'' os \<and> o_filename_set o2 = given CHR ''f'' os \<and>
    o_filename o2 = last_arg CHR ''f'' os ''Stirfile'' \<and>
    o_usetsdb o2 = last_of tsdb_opt os 2 \<and> o_fifo o2 = last_of fifo_opt os (os_fifo os_lines) \<and>
    o_sync o2 = last_of sync_opt os (main_outsync OUT_SYNC_NOT_SET_YET m) \<and> o_load o2 = last_of (load_opt sys) os No_Limit \<and>
    o_jobcnt o2 = last_of (jobs_opt sys) os 1 \<and> o_dirs o2 = concat (map (\<lambda>(c, a). dir_opt c a) os) \<and>
    o_pretend o2 = concat (rev (map (\<lambda>(c, a). pretend_opt c a) os))"
proof -
  let ?i = "opts_init (main_outsync OUT_SYNC_NOT_SET_YET m) (os_fifo os_lines)"
  obtain o1 where o1: "special_mode basenm ?i = Inr o1" "opt_steps sys os o1 = Inr o2" "check_opts o2 = Inr o2"
    using assms by (auto simp: main_opts_def stir_simps check_opts_def usage_def split: if_splits)
  have i: "o_jobcnt o1 = 1" "\<not> o_test o1" "\<not> o_clean o1" "\<not> o_cleanbinaries o1" "\<not> o_keep o1" "\<not> o_ignoreerr o1"
      "\<not> o_unconditional o1" "\<not> o_dry_run o1" "\<not> o_touch o1" "\<not> o_unsafe o1" "\<not> o_filename_set o1" "o_filename o1 = ''Stirfile''"
      "o_mode o1 = (if basenm = ''smka'' then MODE_ALL else if basenm = ''smkt'' then MODE_THIS
         else if basenm = ''smkp'' then MODE_PROJECT else MODE_NONE)"
    using o1(1) by (auto simp: special_mode_def set_mode_def opts_init_def usage_def split: if_splits)
  have i': "o_usetsdb o1 = 2" "o_fifo o1 = os_fifo os_lines" "o_sync o1 = main_outsync OUT_SYNC_NOT_SET_YET m" "o_load o1 = No_Limit"
      "o_dirs o1 = []" "o_pretend o1 = []" "\<not> o_silent o1" "\<not> o_trace o1" "\<not> o_debug o1" "\<not> o_narration o1"
      "o_isspecprog o1 = (basenm \<in> {''smka'', ''smkt'', ''smkp''})"
    using o1(1) by (auto simp: special_mode_def set_mode_def opts_init_def usage_def split: if_splits)
  have j: "1 \<le> o_jobcnt o1 \<and> o_jobcnt o1 \<le> MAX_JOBCNT" by (simp add: i MAX_JOBCNT_def)
  note M = opt_steps_modes[OF o1(2)]
  have c: "\<not> (o_test o2 \<and> (o_clean o2 \<or> o_cleanbinaries o2))" "o_mode o2 = MODE_NONE \<longleftrightarrow> o_filename_set o2"
    using o1(3) by (auto simp: check_opts_def usage_def split: if_splits)
  have m: "basenm = ''smka'' \<longrightarrow> o_mode o2 = MODE_ALL" "basenm = ''smkt'' \<longrightarrow> o_mode o2 = MODE_THIS"
      "basenm = ''smkp'' \<longrightarrow> o_mode o2 = MODE_PROJECT" using M i(13) by auto
  note V = opt_steps_values[OF o1(2), unfolded i'(1,2)] opt_steps_args[OF o1(2), unfolded i(1) i'(3,4)]
  have n: "basenm \<notin> {''smka'', ''smkt'', ''smkp''} \<longrightarrow> o_mode o2 = last_of (\<lambda>c _. mode_opt c) os MODE_NONE"
    using opt_steps_mode[OF o1(2)] i(13) by simp
  have f: "o_filename o2 = last_arg CHR ''f'' os ''Stirfile''" using opt_steps_file[OF o1(2)] i(12) by simp
  have s: "o_isspecprog o2 = (basenm \<in> {''smka'', ''smkt'', ''smkp''})" using opt_steps_spec[OF o1(2)] i'(11) by blast
  have l: "o_dirs o2 = concat (map (\<lambda>(c, a). dir_opt c a) os)" "o_pretend o2 = concat (rev (map (\<lambda>(c, a). pretend_opt c a) os))"
    using opt_steps_lists[OF o1(2)] i'(5,6) by simp_all
  have jb: "1 \<le> o_jobcnt o2 \<and> o_jobcnt o2 \<le> MAX_JOBCNT" by (rule opt_steps_jobcnt[OF o1(2) j])
  show ?thesis
    using opt_steps_flags[OF o1(2)] opt_steps_given[OF o1(2)] i(2-11) i'(7-10) c m n f s l M jb V(1-5) by (simp only: simp_thms)
qed

theorem options_exact_witness:
  "\<exists>o2. main_opts \<lparr> sys_nprocs = 4, sys_chdir = (\<lambda>_ _. True), sys_strtod = (\<lambda>_. False) \<rparr> ''stirmake'' no_flags []
     [(CHR ''a'', []), (CHR ''j'', ''8''), (CHR ''k'', []), (CHR ''e'', []), (CHR ''C'', ''d''), (CHR ''s'', []), (CHR ''O'', ''line'')] = Inr o2 \<and>
     o_mode o2 = MODE_ALL \<and> o_keep o2 \<and> \<not> o_test o2 \<and> o_jobcnt o2 = 8 \<and> o_usetsdb o2 = 0 \<and> o_dirs o2 = [''d''] \<and> o_silent o2 \<and>
     \<not> o_trace o2 \<and> o_sync o2 = OUT_SYNC_LINE"
proof -
  have n: "atoi ''8'' = 8" by (simp add: atoi_def scan_int_def scan_num_def is_space_def isdigit_def)
  then obtain o2 where o2: "main_opts \<lparr> sys_nprocs = 4, sys_chdir = (\<lambda>_ _. True), sys_strtod = (\<lambda>_. False) \<rparr> ''stirmake'' no_flags []
     [(CHR ''a'', []), (CHR ''j'', ''8''), (CHR ''k'', []), (CHR ''e'', []), (CHR ''C'', ''d''), (CHR ''s'', []), (CHR ''O'', ''line'')] = Inr o2"
    by (simp add: main_opts_def special_mode_def opts_init_def opt_step_def set_mode_def opt_jobs_def opt_sync_def MAX_JOBCNT_def check_opts_def
      starts_def)
  show ?thesis using options_exact[OF o2] o2 n
    by (simp add: mode_opt_def asks_def jobs_opt_def tsdb_opt_def dir_opt_def sync_opt_def starts_def)
qed

section \<open>Which directory is found\<close>

text \<open>Whether the nearest Stirfile below says that it is the top of its project; without one, it is taken to be.\<close>

fun top_below :: "bool \<Rightarrow> updir list \<Rightarrow> bool" where
  "top_below t [] = t"
| "top_below t (d # ds) =
     top_below (case ud_stirfile d of None \<Rightarrow> t | Some si \<Rightarrow> if si_indicator si then si_toplevel si else True) ds"

definition may_enter :: "bool \<Rightarrow> bool \<Rightarrow> updir list \<Rightarrow> nat \<Rightarrow> bool" where
  "may_enter unsafe t ds k =
     (ud_chdir (ds ! k) \<and> ud_stat (ds ! k) \<and> \<not> (ud_wother (ds ! k) \<and> \<not> unsafe \<and> top_below t (take k ds)))"

text \<open>The directories that are reached and whose Stirfile has the property.\<close>

definition reached :: "bool \<Rightarrow> bool \<Rightarrow> (stirinfo \<Rightarrow> bool) \<Rightarrow> updir list \<Rightarrow> nat set" where
  "reached unsafe t P ds =
     {k. k < length ds \<and> (\<forall>i \<le> k. may_enter unsafe t ds i) \<and> (\<exists>si. ud_stirfile (ds ! k) = Some si \<and> si_parsed si \<and> P si)}"

lemma reached_finite: "finite (reached u t P ds)"
  by (rule finite_subset[of _ "{..< length ds}"]) (auto simp: reached_def)

lemma reached_Nil [simp]: "reached u t P [] = {}"
  by (simp add: reached_def)

lemma reached_Cons:
  "reached u t P (d # ds) =
    (if may_enter u t (d # ds) 0 then
       (if \<exists>si. ud_stirfile d = Some si \<and> si_parsed si \<and> P si then {0} else {}) \<union> Suc ` reached u (top_below t [d]) P ds
     else {})"
proof -
  have e: "may_enter u t (d # ds) (Suc i) = may_enter u (top_below t [d]) ds i" for i by (simp add: may_enter_def)
  have all: "(\<forall>i \<le> Suc k. may_enter u t (d # ds) i) = (may_enter u t (d # ds) 0 \<and> (\<forall>i \<le> k. may_enter u (top_below t [d]) ds i))" for k
    by (metis e Suc_le_mono le_0_eq not0_implies_Suc zero_le)
  show ?thesis
  proof (intro set_eqI)
    fix k
    show "k \<in> reached u t P (d # ds) \<longleftrightarrow> k \<in> (if may_enter u t (d # ds) 0 then
       (if \<exists>si. ud_stirfile d = Some si \<and> si_parsed si \<and> P si then {0} else {}) \<union> Suc ` reached u (top_below t [d]) P ds else {})"
      by (cases k) (auto simp: reached_def all)
  qed
qed

text \<open>The last of the directories that are reached counts.\<close>

definition last_found :: "nat set \<Rightarrow> updir list \<Rightarrow> nat \<Rightarrow> nat \<times> string \<Rightarrow> nat \<times> string" where
  "last_found S ds n r = (if S = {} then r else (n + Suc (Max S), ud_name (ds ! Max S)))"

lemma last_found_Cons:
  assumes "finite S"
  shows "last_found ((if b then {0} else {}) \<union> Suc ` S) (d # ds) n r =
    last_found S ds (Suc n) (if b then (Suc n, ud_name d) else r)"
proof (cases "S = {}")
  case False
  have "Max (Suc ` S) = Suc (Max S)" using assms False by (simp add: mono_Max_commute[symmetric] mono_Suc)
  then have "Max ((if b then {0} else {}) \<union> Suc ` S) = Suc (Max S)" using assms False by (simp add: Max_insert)
  then show ?thesis using False by (simp add: last_found_def)
qed (simp add: last_found_def)

lemma search_up_Cons:
  "search_up u t n (d # ds) fd =
    (if may_enter u t (d # ds) 0
     then search_up u (top_below t [d]) (Suc n) ds (case ud_stirfile d of None \<Rightarrow> fd | Some si \<Rightarrow> note_stirfile d si (Suc n) fd)
     else fd)"
  by (cases "ud_stirfile d") (auto simp: may_enter_def)

lemma note_found:
  "(fd_upcnt (note_stirfile d si n fd), fd_cwd (note_stirfile d si n fd)) =
     (if si_parsed si \<and> si_subdir si then (n, ud_name d) else (fd_upcnt fd, fd_cwd fd))"
  "(fd_upcnt_same (note_stirfile d si n fd), fd_cwd_same (note_stirfile d si n fd)) =
     (if si_parsed si \<and> si_subdir_same si then (n, ud_name d) else (fd_upcnt_same fd, fd_cwd_same fd))"
  by (simp_all add: note_stirfile_def Let_def)

declare search_up.simps(2) [simp del]

lemma search_up_found:
  "(fd_upcnt (search_up u t n ds fd), fd_cwd (search_up u t n ds fd)) =
     last_found (reached u t si_subdir ds) ds n (fd_upcnt fd, fd_cwd fd)"
proof (induction ds arbitrary: t n fd)
  case Nil
  then show ?case by (simp add: last_found_def)
next
  case (Cons d ds)
  show ?case
  proof (cases "may_enter u t (d # ds) 0")
    case False
    then show ?thesis by (simp add: search_up_Cons reached_Cons last_found_def)
  next
    case True
    then show ?thesis
      unfolding search_up_Cons reached_Cons if_P[OF True] last_found_Cons[OF reached_finite] Cons.IH
      by (cases "ud_stirfile d") (simp_all add: note_found(1) del: fst_conv)
  qed
qed

lemma search_up_found_same:
  "(fd_upcnt_same (search_up u t n ds fd), fd_cwd_same (search_up u t n ds fd)) =
     last_found (reached u t si_subdir_same ds) ds n (fd_upcnt_same fd, fd_cwd_same fd)"
proof (induction ds arbitrary: t n fd)
  case Nil
  then show ?case by (simp add: last_found_def)
next
  case (Cons d ds)
  show ?case
  proof (cases "may_enter u t (d # ds) 0")
    case False
    then show ?thesis by (simp add: search_up_Cons reached_Cons last_found_def)
  next
    case True
    then show ?thesis
      unfolding search_up_Cons reached_Cons if_P[OF True] last_found_Cons[OF reached_finite] Cons.IH
      by (cases "ud_stirfile d") (simp_all add: note_found(2))
  qed
qed


text \<open>
  Search for the project: stirmake works in the farthest directory above the starting one that can be reached and whose Stirfile,
  parsed without error, includes the starting directory's, and in the starting directory if there is none; the directory of the
  same project is chosen in the same way among the includes that stay in the project.  A directory is reached when every directory up
  to it can be entered, and none of them is writable by others just above the top of a project, unless that is allowed.
\<close>

theorem search_exact:
  "let t = (case here of None \<Rightarrow> True | Some si \<Rightarrow> if si_indicator si then si_toplevel si else True);
       fd = search_project unsafe here storcwd ds in
   (fd_upcnt fd, fd_cwd fd) = last_found (reached unsafe t si_subdir ds) ds 0 (0, storcwd) \<and>
   (fd_upcnt_same fd, fd_cwd_same fd) = last_found (reached unsafe t si_subdir_same ds) ds 0 (0, storcwd)"
  by (simp add: search_project_def search_up_found search_up_found_same Let_def)

section \<open>The way back\<close>

text \<open>The name of the directory with the components \<open>cs\<close>, and the directories above it.\<close>

definition dir_name :: "string list \<Rightarrow> string" where
  "dir_name cs = CHR ''/'' # join_slash cs"

definition dirs_above :: "string list \<Rightarrow> updir list \<Rightarrow> bool" where
  "dirs_above cs ds = (length ds \<le> length cs \<and> (\<forall>k < length ds. ud_name (ds ! k) = dir_name (take (length cs - Suc k) cs)))"

lemma split_plain_names: "\<forall>x \<in> set cs. is_name x \<Longrightarrow> cs \<noteq> [] \<Longrightarrow> split_slash (join_slash cs) = cs"
  by (rule split_join) (auto simp: is_name_def is_comp_def)

definition slashed :: "string list \<Rightarrow> string" where
  "slashed cs = concat (map (Cons CHR ''/'') cs)"

lemma slashed_simps [simp]: "slashed [] = []" "slashed (c # cs) = CHR ''/'' # c @ slashed cs"
    "slashed (as @ bs) = slashed as @ slashed bs"
  by (simp_all add: slashed_def)

lemma dir_name_slashed: "cs \<noteq> [] \<Longrightarrow> dir_name cs = slashed cs"
  by (induction cs rule: join_slash.induct) (simp_all add: dir_name_def)

lemma forward_idx_slashed:
  assumes "\<forall>x \<in> set cs. is_name x"
  shows "m \<le> length cs \<Longrightarrow> n \<le> m \<Longrightarrow>
    forward_idx (slashed cs) n (length (slashed (take m cs))) = length (slashed (take (m - n) cs))"
proof (induction n arbitrary: m)
  case (Suc n)
  define a c b where "a = take (m - 1) cs" and "c = cs ! (m - 1)" and "b = drop m cs"
  have m: "m - 1 < length cs" "Suc (m - 1) = m" using Suc.prems by simp_all
  have t: "take m cs = a @ [c]" using take_Suc_conv_app_nth[OF m(1)] unfolding m(2) a_def c_def .
  have "cs = a @ [c] @ b" using append_take_drop_id[of m cs] by (simp add: t b_def)
  then have s: "slashed cs = slashed (a @ [c]) @ slashed b" by (metis append_assoc slashed_simps(3))
  have c: "CHR ''/'' \<notin> set c" using assms m(1) by (simp add: c_def is_name_def is_comp_def)
  have "my_memrchr (slashed cs) CHR ''/'' (length (slashed (take m cs))) = Some (length (slashed a))"
    unfolding t s my_memrchr_def using strrchr_append[OF c] by simp
  then show ?case using Suc.IH[of "m - 1"] Suc.prems by (simp add: a_def)
qed simp

lemma forward_path_slashed:
  assumes "\<forall>x \<in> set cs. is_name x" "n \<le> length cs"
  shows "calc_forward_path (dir_name cs) n = (if n = 0 then ''.'' else join_slash (drop (length cs - n) cs))"
proof (cases "n = 0")
  case True
  then show ?thesis by (simp add: calc_forward_path_def)
next
  case False
  define a b where "a = take (length cs - n) cs" and "b = drop (length cs - n) cs"
  have cs: "cs = a @ b" "cs \<noteq> []" "b \<noteq> []" using assms(2) False by (auto simp: a_def b_def)
  have i: "forward_idx (slashed cs) n (length (slashed cs)) = length (slashed a)"
    using forward_idx_slashed[OF assms(1), of "length cs" n] assms(2) by (simp add: a_def)
  have b: "slashed b = CHR ''/'' # join_slash b" using dir_name_slashed[OF cs(3)] by (simp add: dir_name_def)
  have s: "slashed cs = slashed a @ CHR ''/'' # join_slash b" using cs(1) b by simp
  have ne: "join_slash b \<noteq> []" using assms(1) cs(1,3) by (subst join_slash_eq_Nil) (auto simp: is_name_def is_comp_def)
  show ?thesis
    using False ne i unfolding calc_forward_path_def dir_name_slashed[OF cs(2)] Let_def i by (simp add: s b_def[symmetric])
qed

lemma way_back:
  assumes "\<forall>x \<in> set cs. is_name x" "n \<le> length cs"
  shows "canon (dir_name (take (length cs - n) cs) @ CHR ''/'' # calc_forward_path (dir_name cs) n) = Inr (dir_name cs)"
proof -
  define a b where "a = take (length cs - n) cs" and "b = drop (length cs - n) cs"
  have cs: "cs = a @ b" by (simp add: a_def b_def)
  have names: "\<forall>x \<in> set a. is_name x" "\<forall>x \<in> set b. is_name x" using assms(1) cs by auto
  have dot: "split_slash ''.'' = [''.'']" "push_comp t xs ''.'' = xs" for t xs by (simp_all add: split_slash.simps push_comp_def)
  have "comps (dir_name a) = a"
    using split_plain_names[OF names(1)] foldl_names[OF names(1)] split_slash_append[of "[]" "join_slash a"]
    by (cases "a = []") (simp_all add: comps_def dir_name_def split_slash.simps is_abs_def)
  then have "comps (dir_name a @ CHR ''/'' # calc_forward_path (dir_name cs) n) =
      foldl (push_comp True) a (split_slash (calc_forward_path (dir_name cs) n))"
    using comps_append[of "dir_name a"] by (simp only: dir_name_def is_abs_def list.distinct(2) not_False_eq_True list.sel(1) simp_thms if_True)
  also have "\<dots> = a @ b"
  proof (cases "n = 0")
    case True
    then show ?thesis using forward_path_slashed[OF assms] dot by (simp add: b_def)
  next
    case False
    then have "b \<noteq> []" using assms(2) by (simp add: b_def)
    then show ?thesis
      using False split_plain_names[OF names(2)] foldl_names[OF names(2)]
      by (simp add: forward_path_slashed[OF assms] b_def[symmetric])
  qed
  finally have "comps (dir_name a @ CHR ''/'' # calc_forward_path (dir_name cs) n) = a @ b" .
  then have "canon (dir_name a @ CHR ''/'' # calc_forward_path (dir_name cs) n) = Inr (render True (a @ b))"
    by (simp add: canon_spec dir_name_def is_abs_def)
  then show ?thesis by (simp add: a_def[symmetric] cs[symmetric] dir_name_def render_def)
qed

lemma last_found_dir:
  assumes "dirs_above cs ds" "(n, w) = last_found (reached u t P ds) ds 0 (0, dir_name cs)"
  shows "n \<le> length cs" "w = dir_name (take (length cs - n) cs)" "\<forall>k. k \<in> reached u t P ds \<longrightarrow> Suc k \<le> n"
    "n = 0 \<or> n - 1 \<in> reached u t P ds"
proof -
  let ?S = "reached u t P ds"
  have f: "finite ?S" by (rule reached_finite)
  have l: "k < length ds" if "k \<in> ?S" for k using that by (simp add: reached_def)
  have "n \<le> length cs \<and> w = dir_name (take (length cs - n) cs) \<and> (\<forall>k. k \<in> ?S \<longrightarrow> Suc k \<le> n) \<and> (n = 0 \<or> n - 1 \<in> ?S)"
  proof (cases "?S = {}")
    case True
    then show ?thesis using assms(2) by (simp add: last_found_def)
  next
    case False
    have M: "Max ?S \<in> ?S" using Max_in[OF f False] .
    have e: "n = Suc (Max ?S)" "w = ud_name (ds ! Max ?S)" using assms(2) False by (simp_all add: last_found_def)
    show ?thesis using M l[OF M] assms(1) Max_ge[OF f] e by (auto simp: dirs_above_def)
  qed
  then show "n \<le> length cs" "w = dir_name (take (length cs - n) cs)" "\<forall>k. k \<in> ?S \<longrightarrow> Suc k \<le> n" "n = 0 \<or> n - 1 \<in> ?S"
    by blast+
qed

text \<open>
  C40: The forward paths lead back: for a starting directory without \<open>.\<close> or \<open>..\<close> in its name, the first path leads from the directory of
  the project that the search finds to where stirmake was started, and the second to the part that is made: the starting directory
  (\<open>-t\<close>), the directory of its own project (\<open>-p\<close>), or everything (\<open>-a\<close>).
\<close>

theorem forward_paths_lead_back:
  assumes "\<forall>x \<in> set cs. is_name x" "dirs_above cs ds"
    "\<forall>d \<in> set ds. \<forall>si. ud_stirfile d = Some si \<longrightarrow> si_subdir_same si \<longrightarrow> si_subdir si"
    "fd = search_project unsafe here (dir_name cs) ds"
  shows "canon (fd_cwd fd @ CHR ''/'' # fst (forward_paths md (dir_name cs) fd)) = Inr (dir_name cs) \<and>
    canon (fd_cwd fd @ CHR ''/'' # snd (forward_paths md (dir_name cs) fd)) =
      Inr (if md = MODE_THIS then dir_name cs else if md = MODE_PROJECT then fd_cwd_same fd else fd_cwd fd)"
proof -
  let ?t = "case here of None \<Rightarrow> True | Some si \<Rightarrow> if si_indicator si then si_toplevel si else True"
  let ?n = "fd_upcnt fd" and ?m = "fd_upcnt_same fd"
  have "(?n, fd_cwd fd) = last_found (reached unsafe ?t si_subdir ds) ds 0 (0, dir_name cs)"
      "(?m, fd_cwd_same fd) = last_found (reached unsafe ?t si_subdir_same ds) ds 0 (0, dir_name cs)"
    by (simp_all add: assms(4) search_project_def search_up_found search_up_found_same)
  note n = last_found_dir[OF assms(2) this(1)] and m = last_found_dir[OF assms(2) this(2)]
  have "reached unsafe ?t si_subdir_same ds \<subseteq> reached unsafe ?t si_subdir ds"
    using assms(3) by (auto simp: reached_def) (meson nth_mem)
  then have le: "?m \<le> ?n" using m(4) n(3) by (cases "?m") auto
  define c2 where "c2 = take (length cs - ?m) cs"
  have l: "length c2 = length cs - ?m" "take (length cs - ?n) c2 = take (length cs - ?n) cs"
    using m(1) le by (auto simp: c2_def min_def)
  have "\<forall>x \<in> set c2. is_name x" using assms(1) by (auto simp: c2_def dest: in_set_takeD)
  then have "canon (dir_name (take (length c2 - (?n - ?m)) c2) @ CHR ''/'' # calc_forward_path (dir_name c2) (?n - ?m)) = Inr (dir_name c2)"
    by (rule way_back) (use n(1) in \<open>simp add: l\<close>)
  then have p: "canon (fd_cwd fd @ CHR ''/'' # calc_forward_path (fd_cwd_same fd) (?n - ?m)) = Inr (fd_cwd_same fd)"
    using n(2) m(2) le by (simp add: l c2_def[symmetric])
  have "\<forall>x \<in> set (take (length cs - ?n) cs). is_name x" using assms(1) by (auto dest: in_set_takeD)
  from way_back[OF this, of 0] have a: "canon (fd_cwd fd @ ''/.'') = Inr (fd_cwd fd)"
    using n(2) by (simp add: calc_forward_path_def)
  show ?thesis using way_back[OF assms(1) n(1)] p a n(2) by (simp add: forward_paths_def)
qed

text \<open>Started in \<open>/a/b/c\<close>, with the project in \<open>/a\<close>.\<close>

definition ex_dirs :: "updir list" where
  "ex_dirs =
     [\<lparr> ud_name = ''/a/b'', ud_chdir = True, ud_stat = True, ud_wother = False, ud_stirfile = Some \<lparr> si_parsed = True,
        si_indicator = True, si_toplevel = False, si_subdir = True, si_subdir_same = True \<rparr> \<rparr>,
      \<lparr> ud_name = ''/a'', ud_chdir = True, ud_stat = True, ud_wother = False, ud_stirfile = Some \<lparr> si_parsed = True,
        si_indicator = True, si_toplevel = True, si_subdir = True, si_subdir_same = False \<rparr> \<rparr>,
      \<lparr> ud_name = ''/'', ud_chdir = True, ud_stat = True, ud_wother = True, ud_stirfile = None \<rparr>]"

theorem forward_paths_lead_back_witness:
  "let fd = search_project False None ''/a/b/c'' ex_dirs in
     fd_cwd fd = ''/a'' \<and> fd_cwd_same fd = ''/a/b'' \<and> forward_paths MODE_PROJECT ''/a/b/c'' fd = (''b/c'', ''b'') \<and>
     canon (fd_cwd fd @ CHR ''/'' # fst (forward_paths MODE_PROJECT ''/a/b/c'' fd)) = Inr ''/a/b/c'' \<and>
     canon (fd_cwd fd @ CHR ''/'' # snd (forward_paths MODE_PROJECT ''/a/b/c'' fd)) = Inr ''/a/b''"
proof -
  define fd where "fd = search_project False None ''/a/b/c'' ex_dirs"
  have fd: "fd = \<lparr> fd_cwd = ''/a'', fd_upcnt = 2, fd_cwd_same = ''/a/b'', fd_upcnt_same = 1 \<rparr>"
    by (simp add: fd_def search_project_def search_up.simps(2) ex_dirs_def note_stirfile_def)
  have n: "\<forall>x \<in> set [''a'', ''b'', ''c'']. is_name x" by (simp add: is_name_def is_comp_def)
  have d: "dirs_above [''a'', ''b'', ''c''] ex_dirs"
    by (auto simp: dirs_above_def ex_dirs_def dir_name_def numeral_3_eq_3 less_Suc_eq)
  have u: "\<forall>d \<in> set ex_dirs. \<forall>si. ud_stirfile d = Some si \<longrightarrow> si_subdir_same si \<longrightarrow> si_subdir si" by (simp add: ex_dirs_def)
  have s: "fd = search_project False None (dir_name [''a'', ''b'', ''c'']) ex_dirs" by (simp add: fd_def dir_name_def)
  have f: "forward_paths MODE_PROJECT ''/a/b/c'' fd = (''b/c'', ''b'')"
    by (simp add: forward_paths_def fd calc_forward_path_def numeral_2_eq_2 my_memrchr_def)
  show ?thesis
    using forward_paths_lead_back[OF n d u s, of MODE_PROJECT] f by (simp add: fd_def[symmetric] dir_name_def fd)
qed

section \<open>Absolute names and quoted versions\<close>

text \<open>A name given with \<open>-W\<close> or \<open>-o\<close> is put behind the forward path even if it is absolute.\<close>

lemma absolute_pretend:
  assumes "\<forall>x \<in> set bs. is_name x" "\<forall>x \<in> set ns. is_name x" "bs \<noteq> []" "ns \<noteq> []"
  shows "resolve_pretend this_path (join_slash bs) \<lparr> pr_fname = CHR ''/'' # join_slash ns, pr_relative = False, pr_type = t \<rparr> =
    Inr (join_slash (bs @ ns), t)"
proof -
  have b: "join_slash bs \<noteq> []" "hd (join_slash bs) \<noteq> CHR ''/''"
    using assms(1,3) by (cases bs; cases "tl bs"; cases "hd bs"; auto simp: is_name_def is_comp_def join_slash_Cons)+
  then have a: "\<not> is_abs (join_slash bs)" by (simp add: is_abs_def)
  have e: "split_slash (CHR ''/'' # join_slash ns) = [] # ns"
    using split_slash_append[of "[]" "join_slash ns"] split_plain_names[OF assms(2,4)] by (simp add: split_slash.simps)
  have "comps (join_slash bs) = bs" using split_plain_names[OF assms(1,3)] foldl_names(1)[OF assms(1)] a by (simp add: comps_def)
  then have "comps (join_slash bs @ CHR ''/'' # CHR ''/'' # join_slash ns) = bs @ ns"
    using comps_append[OF b(1)] a foldl_names(1)[OF assms(2)] by (simp add: e)
  then have "canon (join_slash bs @ CHR ''/'' # CHR ''/'' # join_slash ns) = Inr (join_slash (bs @ ns))"
    using b assms(3) by (simp add: canon_spec render_def is_abs_def)
  then show ?thesis by (simp add: resolve_pretend_def put_buf_enough)
qed

text \<open>
  On the systems whose versions are written without quotes a quoted version is compared with its quote, which is less than every
  digit, so that no version is new enough.
\<close>

lemma quoted_version:
  assumes "line = ''VERSION_ID='' @ CHR 0x22 # v" "\<not> is_system lines [''ubuntu'']" "\<not> is_system lines [''debian'', ''raspbian'']"
  shows "\<not> version_line lines line"
  using assms by (simp add: version_line_def systems_def starts_def)

end
