(* ===== verification/Neighpath.thy ===== *)
theory Neighpath
  imports Paths
begin

text \<open>
  What \<open>neighpath\<close> (\<open>canon.c\<close>) is for: the path from a directory to a file.  Names are lists of proper components.
\<close>

section \<open>The loop over common directories\<close>

fun apart :: "'a list \<Rightarrow> 'a list \<Rightarrow> 'a list \<times> 'a list" where
  "apart (x # xs) (y # ys) = (if x = y then apart xs ys else (x # xs, y # ys))"
| "apart xs ys = (xs, ys)"

lemma apart_append: "apart ps fs = (p, f) \<Longrightarrow> \<exists>c. ps = c @ p \<and> fs = c @ f"
  by (induction ps fs rule: apart.induct) (auto split: if_splits intro: exI[of _ "_ # _"])

lemma segs_join:
  assumes "is_name x"
  shows "slash_seg (join_slash (x # xs)) = x" "after_seg (join_slash (x # xs)) = join_slash xs"
proof -
  have n: "CHR ''/'' \<notin> set x" "x \<noteq> []" using name_cases[OF assms] by blast+
  have "slash_seg (join_slash (x # xs)) = x \<and> after_seg (join_slash (x # xs)) = join_slash xs"
    using n(1) after_seg_noslash[OF n(1)] by (cases xs) (auto simp: slash_seg_def after_seg_def takeWhile_append dropWhile_append)
  then show "slash_seg (join_slash (x # xs)) = x" "after_seg (join_slash (x # xs)) = join_slash xs" by blast+
qed

lemma neigh_loop_join:
  assumes "\<forall>x \<in> set ps. is_name x" "\<forall>x \<in> set fs. is_name x"
  shows "neigh_loop (join_slash ps) (join_slash fs) = (case apart ps fs of (p, f) \<Rightarrow> neigh_base (join_slash p) (join_slash f))"
  using assms
proof (induction ps fs rule: apart.induct[case_names both left right])
  case (both x xs y ys)
  then have n: "is_name x" "is_name y" by simp_all
  then show ?case using both name_cases[OF n(1)] by (subst neigh_loop.simps) (auto simp: segs_join Let_def)
next
  case (left ys)
  then show ?case by (subst neigh_loop.simps) (simp add: slash_seg_def Let_def)
next
  case (right xs)
  show ?case
  proof (cases xs)
    case Nil
    then show ?thesis by (subst neigh_loop.simps) (simp add: slash_seg_def)
  next
    case (Cons v vs)
    then have n: "is_name v" using right by simp
    show ?thesis using name_cases[OF n] Cons by (subst neigh_loop.simps) (simp add: segs_join(1)[OF n] slash_seg_def Let_def)
  qed
qed

lemma names_stack: "\<forall>x \<in> set cs. is_name x \<Longrightarrow> stack_ok False cs"
  unfolding stack_ok_def by (intro exI[of _ 0] exI[of _ cs]) simp

lemma comps_names: "\<forall>x \<in> set cs. is_name x \<Longrightarrow> comps (render False cs) = cs \<and> \<not> is_abs (render False cs)"
  using comps_render[OF names_stack] is_abs_render[OF names_stack] by simp

lemma split_render:
  assumes "\<forall>x \<in> set cs. is_name x"
  shows "foldl (push_comp a) st (split_slash (render False (replicate n ''..'' @ cs))) = foldl (push_comp a) st (replicate n ''..'' @ cs)"
proof (cases "replicate n ''..'' @ cs = []")
  case True
  then show ?thesis by (simp add: render_def split_slash.simps push_comp_def)
next
  case False
  have "\<forall>x \<in> set (replicate n ''..'' @ cs). CHR ''/'' \<notin> set x" using assms name_cases by auto
  then have "split_slash (join_slash (replicate n ''..'' @ cs)) = replicate n ''..'' @ cs" by (rule split_join[OF False])
  then show ?thesis using False by (simp only: render_def if_False)
qed

lemma neigh_base_names:
  assumes "\<forall>x \<in> set p. is_name x" "\<forall>x \<in> set f. is_name x" "length p \<le> 2"
  shows "neigh_base (join_slash p) (join_slash f) = Inr (render False (replicate (length p) ''..'' @ f))"
proof -
  let ?d = "replicate (length p) ''..''"
  have ne: "join_slash q = [] \<longleftrightarrow> q = []" if "\<forall>x \<in> set q. is_name x" for q using that name_cases by (intro join_slash_eq_Nil) auto
  have P: "(if join_slash p \<noteq> [] then join_slash p else ''.'') = render False p" using ne[OF assms(1)] by (simp add: render_def)
  have F: "(if join_slash f = [] then ''.'' else join_slash f) = render False (replicate 0 ''..'' @ f)"
    using ne[OF assms(2)] by (simp add: render_def)
  note C = comps_names[OF assms(1)]
  have "render False p \<noteq> []" by (rule render_nonempty[OF names_stack[OF assms(1)]])
  moreover have "p \<noteq> [] \<Longrightarrow> hd p \<noteq> ''..''" using assms(1) name_cases by (metis list.set_sel(1))
  ultimately have b: "construct_backpath (render False p) = Inr (render False (replicate (length p) ''..'' @ []))"
    using C by (subst construct_backpath_spec) (auto simp: render_def)
  have d: "foldl (push_comp False) [] ?d = ?d" using assms(3)
    by (cases p; cases "tl p") (auto simp: push_comp_def)
  let ?b = "render False (replicate (length p) ''..'' @ [])"
  have bn: "?b \<noteq> []" "\<not> is_abs ?b" by (cases p; simp add: render_def is_abs_def join_slash_Cons)+
  have "comps ?b = ?d" using split_render[of "[]" False "[]" "length p"] d bn(2) by (simp add: comps_def)
  then have "comps (?b @ CHR ''/'' # render False (replicate 0 ''..'' @ f)) = ?d @ f"
    unfolding comps_append[OF bn(1)] split_render[OF assms(2)] using foldl_names(1)[OF assms(2)] by simp
  moreover have "\<not> is_abs (?b @ CHR ''/'' # x)" for x using bn by (simp add: is_abs_def)
  ultimately have "canon (?b @ CHR ''/'' # render False (replicate 0 ''..'' @ f)) = Inr (render False (?d @ f))"
    using bn by (simp add: canon_spec)
  then show ?thesis unfolding neigh_base_def P F b by (simp add: Let_def F)
qed

section \<open>Where the path leads\<close>

lemma canon_names: "\<forall>x \<in> set cs. is_name x \<Longrightarrow> canon (render False cs) = Inr (render False cs)"
  using comps_names[of cs] render_nonempty[OF names_stack, of cs] by (simp add: canon_spec)

lemma neighpath_reaches:
  assumes "\<forall>x \<in> set ps. is_name x" "\<forall>x \<in> set fs. is_name x" "fs \<noteq> []" "length (fst (apart ps fs)) \<le> 2"
  shows "\<exists>r. neighpath (render False ps) (render False fs) = Inr r \<and>
    canon (render False ps @ CHR ''/'' # r) = Inr (render False fs)"
proof -
  let ?p = "render False ps" and ?f = "render False fs"
  note P = comps_names[OF assms(1)] and F = comps_names[OF assms(2)]
  have pn: "?p \<noteq> []" by (rule render_nonempty[OF names_stack[OF assms(1)]])
  have "\<not> is_abs (?p @ CHR ''/'' # r)" for r using P pn by (simp add: is_abs_def)
  then have lead: "canon (?p @ CHR ''/'' # r) = Inr (render False (foldl (push_comp False) ps (split_slash r)))" for r
    using comps_append[OF pn] P pn by (simp add: canon_spec)
  consider (here) "?p = ''.''"
    | (below) "?p \<noteq> ''.''" "take (length ?p) ?f = ?p \<and> length ?p < length ?f \<and> ?f ! length ?p = CHR ''/''"
    | (apart) "?p \<noteq> ''.''" "\<not> (take (length ?p) ?f = ?p \<and> length ?p < length ?f \<and> ?f ! length ?p = CHR ''/'')" by blast
  then show ?thesis
  proof cases
    case here
    have "comps ''.'' = []" by (simp add: comps_def is_abs_def split_slash.simps push_comp_def)
    then have "ps = []" using P here by simp
    then have "canon (?p @ CHR ''/'' # ?f) = Inr ?f"
      using lead split_render[OF assms(2), of False "[]" 0] foldl_names(1)[OF assms(2)] by simp
    then show ?thesis using here by (simp add: neighpath_def)
  next
    case below
    let ?r = "drop (length ?p + 1) ?f"
    have "?p @ CHR ''/'' # ?r = ?f" using below(2) id_take_nth_drop[of "length ?p" ?f] by simp
    then show ?thesis using below F canon_names[OF assms(2)] by (simp add: neighpath_def)
  next
    case apart
    obtain p f where pf: "apart ps fs = (p, f)" by (cases "apart ps fs")
    obtain c where c: "ps = c @ p" "fs = c @ f" using apart_append[OF pf] by blast
    have n: "\<forall>x \<in> set p. is_name x" "\<forall>x \<in> set f. is_name x" using assms(1,2) c by auto
    have j: "?p = join_slash ps" "?f = join_slash fs" using apart(1) assms(3) by (auto simp: render_def)
    let ?r = "render False (replicate (length p) ''..'' @ f)"
    have "neigh_loop ?p ?f = Inr ?r"
      using neigh_loop_join[OF assms(1,2)] pf neigh_base_names[OF n] assms(4) by (simp add: j)
    then have "neighpath ?p ?f = Inr ?r"
      using apart(1) F canon_names[OF assms(1)] canon_names[OF assms(2)]
      unfolding neighpath_def Let_def if_not_P[OF apart(2)] by simp
    moreover have "foldl (push_comp False) ps (split_slash ?r) = fs"
      unfolding split_render[OF n(2)] using foldl_push_dotdots[OF n(1), of False c] foldl_names(1)[OF n(2)] c by simp
    ultimately show ?thesis using lead by simp
  qed
qed

text \<open>
  C38: \<open>neighpath\<close> gives a path that leads from the directory to the file, if at most two directories have to be left; for more the
  path is too short by an even number of climbs, since \<open>canon\<close> drops them.
\<close>

theorem neighpath_leads:
  assumes "\<forall>x \<in> set ps. is_name x" "\<forall>x \<in> set fs. is_name x" "fs \<noteq> []" "length (fst (apart ps fs)) \<le> 2"
  shows "\<exists>r. neighpath (render False ps) (render False fs) = Inr r \<and>
    canon (render False ps @ CHR ''/'' # r) = Inr (render False fs)"
  by (rule neighpath_reaches[OF assms])

theorem neighpath_leads_witness:
  "(\<exists>r. neighpath ''lib/c'' ''lib/inc/x.h'' = Inr r \<and> canon (''lib/c/'' @ r) = Inr ''lib/inc/x.h'') \<and> neighpath ''lib/c'' ''lib/inc/x.h'' = Inr ''../inc/x.h''"
proof -
  have n: "\<forall>x \<in> set [''lib'', ''c'']. is_name x" "\<forall>x \<in> set [''lib'', ''inc'', ''x.h'']. is_name x" by (simp_all add: is_name_def is_comp_def)
  have "neigh_loop ''lib/c'' ''lib/inc/x.h'' = neigh_base ''c'' ''inc/x.h''" using neigh_loop_join[OF n] by simp
  also have "\<dots> = Inr ''../inc/x.h''" using neigh_base_names[of "[''c'']" "[''inc'', ''x.h'']"] n by (simp add: render_def)
  finally have e: "neigh_loop ''lib/c'' ''lib/inc/x.h'' = Inr ''../inc/x.h''" .
  show ?thesis
    using neighpath_leads[OF n] canon_names[OF n(1)] canon_names[OF n(2)] e
    by (simp add: render_def neighpath_def is_abs_def)
qed

text \<open>From a directory three levels deep the path to a file at the top leads to another file.\<close>

lemma neighpath_too_short:
  "neighpath ''a/b/c'' ''x'' = Inr ''../x'' \<and> canon (''a/b/c'' @ CHR ''/'' # ''../x'') = Inr ''a/b/x''"
proof -
  have n: "\<forall>x \<in> set [''a'', ''b'', ''c'']. is_name x" "\<forall>x \<in> set [''x'']. is_name x" by (simp_all add: is_name_def is_comp_def)
  have b: "neigh_loop ''a/b/c'' ''x'' = neigh_base ''a/b/c'' ''x''" using neigh_loop_join[OF n] by simp
  have "comps ''a/b/c'' = [''a'', ''b'', ''c'']" using comps_names[OF n(1)] by (simp add: render_def)
  then have "construct_backpath ''a/b/c'' = Inr ''../../..''" by (simp add: construct_backpath_spec is_abs_def numeral_3_eq_3)
  moreover have "comps ''../../../x'' = [''..'', ''x'']" "comps ''a/b/c/../x'' = [''a'', ''b'', ''x'']"
    by (simp_all add: comps_def is_abs_def split_slash.simps push_comp_def)
  ultimately show ?thesis
    using b canon_names[OF n(1)] canon_names[OF n(2)]
    by (simp add: neighpath_def neigh_base_def canon_spec is_abs_def render_def)
qed

end
