(* ===== verification/Spawn.thy ===== *)
theory Spawn
  imports Make_Flags Neighpath
begin

text \<open>
  What a recipe gets from \<open>spawn_child\<close> and \<open>spawn_child_touch\<close> (\<open>stirmake.c\<close>): its open files, its environment, its directory and its
  words, and where its command is printed.

  The open files of a process are a map from descriptors; a file action closes a descriptor or duplicates one.  Descriptors marked
  with \<open>FD_CLOEXEC\<close> are closed by \<open>exec\<close>.  The process itself is the component \<open>Jobs\<close>: a failed \<open>pipe\<close>, \<open>chdir\<close>, \<open>fork\<close> or
  \<open>exec\<close> is \<open>errxit\<close> there.
\<close>

section \<open>Open files\<close>

type_synonym 'f fdtab = "int \<Rightarrow> 'f option"

datatype fdact = Fclose int | Fdup2 int int

fun fd_act :: "fdact \<Rightarrow> 'f fdtab \<Rightarrow> 'f fdtab option" where
  "fd_act (Fclose a) t = Some (t(a := None))"
| "fd_act (Fdup2 a b) t = (case t a of None \<Rightarrow> None | Some f \<Rightarrow> Some (t(b := Some f)))"

fun fd_acts :: "fdact list \<Rightarrow> 'f fdtab \<Rightarrow> 'f fdtab option" where
  "fd_acts [] t = Some t"
| "fd_acts (a # as) t = Option.bind (fd_act a t) (fd_acts as)"

definition exec_tab :: "int list \<Rightarrow> 'f fdtab \<Rightarrow> 'f fdtab" where
  "exec_tab cloexec t = (\<lambda>fd. if fd \<in> set cloexec then None else t fd)"

text \<open>The descriptors of stirmake: the database, the pipe for signals, the job server, the current directory.\<close>

record fdcfg =
  dbf :: int
  self_pipe :: "int \<times> int"
  jobserver_fd :: "int \<times> int"
  fdcurdir :: int

definition out_acts :: "int \<times> int \<Rightarrow> fdact list" where
  "out_acts outpipe = (case outpipe of (rd, wr) \<Rightarrow> [Fdup2 wr 1, Fdup2 wr 2, Fclose wr, Fclose rd])"

text \<open>The file actions for \<open>posix_spawn\<close>.\<close>

definition spawn_acts :: "fdcfg \<Rightarrow> bool \<Rightarrow> bool \<Rightarrow> bool \<Rightarrow> int \<times> int \<Rightarrow> fdact list" where
  "spawn_acts c mk create_fd create_make_fd outpipe =
     [Fclose (dbf c), Fclose (fst (self_pipe c)), Fclose (snd (self_pipe c))] @
     (if \<not> mk
      then [Fclose (fst (jobserver_fd c)), Fclose (snd (jobserver_fd c))] @ (if create_fd then out_acts outpipe else [])
      else if create_make_fd then out_acts outpipe
      else if create_fd then [Fclose (snd outpipe), Fclose (fst outpipe)] else [])"


definition spawn_tab :: "fdcfg \<Rightarrow> bool \<Rightarrow> bool \<Rightarrow> bool \<Rightarrow> int \<times> int \<Rightarrow> 'f fdtab \<Rightarrow> 'f fdtab option" where
  "spawn_tab c mk create_fd create_make_fd outpipe t =
     map_option (exec_tab ([fdcurdir c] @ (if create_fd then [fst outpipe] else [])))
       (fd_acts (spawn_acts c mk create_fd create_make_fd outpipe) t)"


section \<open>A command of a recipe\<close>

record 'f child =
  ch_tab :: "'f fdtab"
  ch_env :: "string option"
  ch_dir :: string
  ch_prog :: string
  ch_argv :: "string list"

text \<open>Where a command is printed: into the buffer of the rule, or to the standard output.\<close>

datatype printed = To_Buffer string | To_Stdout string | Not_Printed

record spawncfg =
  sc_fds :: fdcfg
  sc_fifo :: "string option"
  sc_sync :: outsync
  sc_dry_run :: bool
  sc_silent :: bool


section \<open>Touch mode\<close>

text \<open>The position in the list of targets: \<open>None\<close> before the first one and after the last one.\<close>

definition touch_next :: "string list \<Rightarrow> nat \<Rightarrow> stirtgt list \<Rightarrow> nat option \<Rightarrow> (string \<times> nat option) res" where
  "touch_next strs dir tgs cur =
     (let i = (case cur of None \<Rightarrow> 0 | Some i \<Rightarrow> i) in
      if i \<ge> length tgs then Inl Overread
      else bind_res (neighpath (strs ! dir) (strs ! tgtidx (tgs ! i))) (\<lambda>tgtname.
        Inr (tgtname, if Suc i = length tgs then None else Some (Suc i))))"

definition ready_touch :: "nat option \<Rightarrow> bool" where
  "ready_touch cur = (cur = None)"

definition spawn_touch ::
    "spawncfg \<Rightarrow> string list \<Rightarrow> nat \<Rightarrow> stirtgt list \<Rightarrow> int \<times> int \<Rightarrow> 'f fdtab \<Rightarrow> nat option \<Rightarrow> (('f child \<times> printed) \<times> nat option) res" where
  "spawn_touch sc strs dir tgs outpipe t cur =
     bind_res (touch_next strs dir tgs cur) (\<lambda>(tgtname, cur).
       let create_fd = (sc_sync sc \<noteq> OUT_SYNC_NONE); args = [''touch'', tgtname] in
       bind_res (print_cmd (strs ! tgtidx (hd tgs)) (strs ! dir) args (sc_silent sc)) (\<lambda>cmdprint.
       case spawn_tab (sc_fds sc) False create_fd False outpipe t of
         None \<Rightarrow> Inl (Exited ''Unable to spawn child'')
       | Some t' \<Rightarrow>
           Inr ((\<lparr> ch_tab = t', ch_env = do_makecmd (sc_fifo sc) (jobserver_fd (sc_fds sc)) (sc_sync sc) False ''touch'' create_fd (sc_sync sc = OUT_SYNC_RECURSE) None,
                   ch_dir = strs ! dir,
                   ch_prog = (if sc_dry_run sc then ''true'' else ''touch''),
                   ch_argv = (if sc_dry_run sc then [''true''] else args) \<rparr>,
                 case cmdprint of
                   None \<Rightarrow> Not_Printed
                 | Some s \<Rightarrow> if create_fd then To_Buffer s else To_Stdout s), cur)))"

text \<open>The rounds of the loop until the rule is ready: each one when the process before it has ended.\<close>

fun touch_rounds :: "nat \<Rightarrow> spawncfg \<Rightarrow> string list \<Rightarrow> nat \<Rightarrow> stirtgt list \<Rightarrow> (nat \<Rightarrow> int \<times> int) \<Rightarrow> 'f fdtab \<Rightarrow> nat option \<Rightarrow> 'f child list res" where
  "touch_rounds 0 sc strs dir tgs pipes t cur = Inl NoFuel"
| "touch_rounds (Suc n) sc strs dir tgs pipes t cur =
     bind_res (spawn_touch sc strs dir tgs (pipes n) t cur) (\<lambda>((ch, _), cur).
       if ready_touch cur then Inr [ch]
       else bind_res (touch_rounds n sc strs dir tgs pipes t cur) (\<lambda>chs. Inr (ch # chs)))"


section \<open>Descriptors of the child\<close>

text \<open>All descriptors are different and none is one of the standard streams.\<close>

definition fds_apart :: "fdcfg \<Rightarrow> bool \<Rightarrow> int \<times> int \<Rightarrow> bool" where
  "fds_apart c create_fd outpipe =
     (let ds = [dbf c, fst (self_pipe c), snd (self_pipe c), fst (jobserver_fd c), snd (jobserver_fd c), fdcurdir c] @
        (if create_fd then [fst outpipe, snd outpipe] else []) in distinct ds \<and> (\<forall>d \<in> set ds. 2 < d))"

text \<open>What the child is to have: its streams, the job server if it runs make, and nothing else that stirmake opened.\<close>

definition child_tab :: "fdcfg \<Rightarrow> bool \<Rightarrow> bool \<Rightarrow> bool \<Rightarrow> int \<times> int \<Rightarrow> 'f fdtab \<Rightarrow> 'f fdtab" where
  "child_tab c mk create_fd create_make_fd outpipe t = (\<lambda>fd.
     if (fd = 1 \<or> fd = 2) \<and> (if mk then create_make_fd else create_fd) then t (snd outpipe)
     else if fd \<in> {dbf c, fst (self_pipe c), snd (self_pipe c), fdcurdir c} \<or>
       (create_fd \<and> fd \<in> {fst outpipe, snd outpipe}) \<or>
       (\<not> mk \<and> fd \<in> {fst (jobserver_fd c), snd (jobserver_fd c)}) then None
     else t fd)"

definition without :: "int set \<Rightarrow> 'f fdtab \<Rightarrow> 'f fdtab" where
  "without A t = (\<lambda>fd. if fd \<in> A then None else t fd)"

lemma without_simps [simp]:
  "without {} t = t" "without A (without B t) = without (A \<union> B) t" "exec_tab xs t = without (set xs) t"
  "t(a := None) = without {a} t"
  by (auto simp: without_def exec_tab_def)

lemma out_acts_tab:
  assumes "wr \<notin> A" "t wr = Some f" "wr > 2" "rd > 2" "\<forall>d \<in> A. d > 2"
  shows "fd_acts (out_acts (rd, wr)) (without A t) = Some (without (A \<union> {rd, wr}) (t(1 := Some f, 2 := Some f)))"
proof -
  have "wr \<noteq> 1" "wr \<noteq> 2" "1 \<notin> A" "2 \<notin> A" "rd \<noteq> 1" "rd \<noteq> 2" using assms(3-5) by auto
  moreover have "without A t wr = Some f" using assms(1,2) by (simp add: without_def)
  ultimately show ?thesis by (simp add: out_acts_def) (auto simp: without_def fun_eq_iff)
qed

text \<open>The descriptors that stirmake closes in the child.\<close>

definition own_fds :: "fdcfg \<Rightarrow> bool \<Rightarrow> int set" where
  "own_fds c mk = {dbf c, fst (self_pipe c), snd (self_pipe c)} \<union> (if mk then {} else {fst (jobserver_fd c), snd (jobserver_fd c)})"

lemma own_fds_apart:
  assumes "fds_apart c create_fd (rd, wr)"
  shows "\<forall>d \<in> own_fds c mk. 2 < d" "create_fd \<Longrightarrow> wr \<notin> own_fds c mk \<and> 2 < rd \<and> 2 < wr" "2 < fdcurdir c"
  using assms by (auto simp: fds_apart_def own_fds_def Let_def)

lemma spawn_acts_eq:
  "fd_acts (spawn_acts c mk create_fd create_make_fd (rd, wr)) t =
     (if create_fd \<and> \<not> mk \<or> create_make_fd \<and> mk then fd_acts (out_acts (rd, wr)) (without (own_fds c mk) t)
      else if create_fd \<and> mk then Some (without (own_fds c mk \<union> {rd, wr}) t)
      else Some (without (own_fds c mk) t))"
  by (auto simp: spawn_acts_def own_fds_def insert_commute Un_commute)


lemma child_tab_eq:
  assumes "fds_apart c create_fd (rd, wr)" "create_make_fd \<longrightarrow> create_fd"
  shows "child_tab c mk create_fd create_make_fd (rd, wr) t =
    without (own_fds c mk \<union> {fdcurdir c} \<union> (if create_fd then {rd, wr} else {}))
      (if create_fd \<and> \<not> mk \<or> create_make_fd \<and> mk then t(1 := t wr, 2 := t wr) else t)"
proof (rule ext)
  fix fd
  show "child_tab c mk create_fd create_make_fd (rd, wr) t fd =
    without (own_fds c mk \<union> {fdcurdir c} \<union> (if create_fd then {rd, wr} else {}))
      (if create_fd \<and> \<not> mk \<or> create_make_fd \<and> mk then t(1 := t wr, 2 := t wr) else t) fd"
    using own_fds_apart(1,2)[OF assms(1), of mk] own_fds_apart(3)[OF assms(1)] assms(2)
    by (cases "fd = 1 \<or> fd = 2") (auto simp: child_tab_def without_def own_fds_def)
qed

lemma spawn_tab_child:
  assumes "fds_apart c create_fd outpipe" "create_fd \<longrightarrow> t (snd outpipe) \<noteq> None" "create_make_fd \<longrightarrow> create_fd"
  shows "spawn_tab c mk create_fd create_make_fd outpipe t = Some (child_tab c mk create_fd create_make_fd outpipe t)"
proof -
  obtain rd wr where o: "outpipe = (rd, wr)" by (cases outpipe)
  note a = assms(1)[unfolded o]
  show ?thesis
  proof (cases "create_fd \<and> \<not> mk \<or> create_make_fd \<and> mk")
    case True
    then have cf: "create_fd" using assms(3) by blast
    then obtain f where f: "t wr = Some f" using assms(2) o by auto
    note w = own_fds_apart(2)[OF a cf, of mk]
    show ?thesis unfolding o child_tab_eq[OF a assms(3)] using True cf out_acts_tab[where t = t and wr = wr and f = f and A = "own_fds c mk" and rd = rd] w own_fds_apart(1)[OF a, of mk]
      by (simp add: spawn_tab_def spawn_acts_eq f insert_commute Un_commute)
  next
    case False
    then show ?thesis using assms(3)
      by (auto simp: o spawn_tab_def spawn_acts_eq child_tab_eq[OF a assms(3)] insert_commute Un_commute)
  qed
qed



section \<open>What a recipe gets\<close>


section \<open>Touching all targets\<close>

text \<open>The file is at most two directories away.\<close>

definition near :: "string \<Rightarrow> string \<Rightarrow> bool" where
  "near dir file = (\<exists>ps fs. dir = render False ps \<and> file = render False fs \<and> (\<forall>x \<in> set (ps @ fs). is_name x) \<and> fs \<noteq> [] \<and>
     length (fst (apart ps fs)) \<le> 2)"

lemma near_leads: "near dir file \<Longrightarrow> \<exists>r. neighpath dir file = Inr r \<and> canon (dir @ CHR ''/'' # r) = Inr file"
  unfolding near_def using neighpath_reaches by auto

definition touches :: "string \<Rightarrow> string \<Rightarrow> 'f child \<Rightarrow> bool" where
  "touches dir file ch = (\<exists>r. ch_argv ch = [''touch'', r] \<and> ch_dir ch = dir \<and> canon (dir @ CHR ''/'' # r) = Inr file)"

definition touch_pos :: "nat option \<Rightarrow> nat" where
  "touch_pos cur = (case cur of None \<Rightarrow> 0 | Some i \<Rightarrow> i)"

lemma touch_rounds_from:
  assumes ok: "\<forall>n. fds_apart (sc_fds sc) (sc_sync sc \<noteq> OUT_SYNC_NONE) (pipes n) \<and> (sc_sync sc \<noteq> OUT_SYNC_NONE \<longrightarrow> t (snd (pipes n)) \<noteq> None)"
    and run: "\<not> sc_dry_run sc" and near: "\<forall>e \<in> set tgs. near (strs ! dir) (strs ! tgtidx e)"
  shows "touch_pos cur < length tgs \<Longrightarrow> n = length tgs - touch_pos cur \<Longrightarrow>
    \<exists>chs. touch_rounds n sc strs dir tgs pipes t cur = Inr chs \<and>
      list_all2 (\<lambda>e. touches (strs ! dir) (strs ! tgtidx e)) (drop (touch_pos cur) tgs) chs"
proof (induction n arbitrary: cur)
  case (Suc n)
  let ?i = "touch_pos cur" and ?cf = "sc_sync sc \<noteq> OUT_SYNC_NONE"
  let ?next = "if Suc ?i = length tgs then None else Some (Suc ?i)"
  obtain r where r: "neighpath (strs ! dir) (strs ! tgtidx (tgs ! ?i)) = Inr r" "canon (strs ! dir @ CHR ''/'' # r) = Inr (strs ! tgtidx (tgs ! ?i))"
    using near_leads near Suc.prems(1) by (meson nth_mem)
  have nx: "touch_next strs dir tgs cur = Inr (r, ?next)" using r(1) Suc.prems(1) by (simp add: touch_next_def touch_pos_def[symmetric])
  obtain tab where tab: "spawn_tab (sc_fds sc) False ?cf False (pipes n) t = Some tab"
    using spawn_tab_child[of "sc_fds sc" ?cf "pipes n" t False] ok by blast
  obtain ch pr where ch: "spawn_touch sc strs dir tgs (pipes n) t cur = Inr ((ch, pr), ?next)" "ch_argv ch = [''touch'', r]" "ch_dir ch = strs ! dir"
    using nx tab run by (auto simp: spawn_touch_def print_cmd_eq Let_def)
  have tc: "touches (strs ! dir) (strs ! tgtidx (tgs ! ?i)) ch" using ch(2,3) r(2) by (simp add: touches_def)
  have d: "drop ?i tgs = tgs ! ?i # drop (Suc ?i) tgs" by (rule Cons_nth_drop_Suc[symmetric, OF Suc.prems(1)])
  show ?case
  proof (cases "Suc ?i = length tgs")
    case True
    then show ?thesis using ch(1) tc by (simp add: d ready_touch_def)
  next
    case False
    have p: "touch_pos (Some k) = k" for k by (simp add: touch_pos_def)
    have "Suc ?i < length tgs" "n = length tgs - Suc ?i" using Suc.prems False by arith+
    then obtain chs where chs: "touch_rounds n sc strs dir tgs pipes t (Some (Suc ?i)) = Inr chs"
        "list_all2 (\<lambda>e. touches (strs ! dir) (strs ! tgtidx e)) (drop (Suc ?i) tgs) chs"
      using Suc.IH[of "Some (Suc ?i)", unfolded p] by blast
    then show ?thesis using False ch(1) tc by (simp add: d ready_touch_def)
  qed
qed simp

text \<open>
  Touch mode: the rounds of a rule end after its last target, and start one \<open>touch\<close> for each target in order, in the directory of the
  rule, with a path that leads to the target; targets that are more than two directories away are left out here.
\<close>

theorem touch_all_targets:
  assumes "\<forall>n. fds_apart (sc_fds sc) (sc_sync sc \<noteq> OUT_SYNC_NONE) (pipes n) \<and> (sc_sync sc \<noteq> OUT_SYNC_NONE \<longrightarrow> t (snd (pipes n)) \<noteq> None)"
    and "\<not> sc_dry_run sc" "\<forall>e \<in> set tgs. near (strs ! dir) (strs ! tgtidx e)" "tgs \<noteq> []"
  shows "\<exists>chs. touch_rounds (length tgs) sc strs dir tgs pipes t None = Inr chs \<and>
    list_all2 (\<lambda>e. touches (strs ! dir) (strs ! tgtidx e)) tgs chs"
  using touch_rounds_from[OF assms(1-3), of None "length tgs"] assms(4) by (simp add: touch_pos_def)


text \<open>A run of \<open>make\<close> whose output is collected when it is made recursively, and the two targets of a rule that are touched.\<close>

definition ex_fds :: fdcfg where
  "ex_fds = \<lparr> dbf = 3, self_pipe = (4, 5), jobserver_fd = (6, 7), fdcurdir = 10 \<rparr>"

definition ex_spawn :: spawncfg where
  "ex_spawn = \<lparr> sc_fds = ex_fds, sc_fifo = None, sc_sync = OUT_SYNC_RECURSE, sc_dry_run = False, sc_silent = False \<rparr>"

definition ex_tab :: "nat fdtab" where
  "ex_tab fd = (if 0 \<le> fd \<and> fd \<le> 10 then Some (nat fd) else None)"



theorem touch_all_targets_witness:
  "\<exists>chs. touch_rounds 2 (ex_spawn\<lparr> sc_sync := OUT_SYNC_NONE \<rparr>) [''lib'', ''lib/a'', ''b''] 0
       [\<lparr> tgtidx = 1, tgtidxnodir = None, tgt_is_dist = False \<rparr>, \<lparr> tgtidx = 2, tgtidxnodir = None, tgt_is_dist = False \<rparr>]
       (\<lambda>_. (-1, -1)) ex_tab None = Inr chs \<and> length chs = 2 \<and> touches ''lib'' ''b'' (chs ! 1)"
proof -
  let ?sc = "ex_spawn\<lparr> sc_sync := OUT_SYNC_NONE \<rparr>" and ?strs = "[''lib'', ''lib/a'', ''b'']"
  let ?tgs = "[\<lparr> tgtidx = 1, tgtidxnodir = None, tgt_is_dist = False \<rparr>, \<lparr> tgtidx = 2, tgtidxnodir = None, tgt_is_dist = False \<rparr>]"
  have n: "is_name ''lib''" "is_name ''a''" "is_name ''b''" by (simp_all add: is_name_def is_comp_def)
  have "near ''lib'' ''lib/a''" unfolding near_def
    by (intro exI[of _ "[''lib'']"] exI[of _ "[''lib'', ''a'']"]) (simp add: n render_def)
  moreover have "near ''lib'' ''b''" unfolding near_def
    by (intro exI[of _ "[''lib'']"] exI[of _ "[''b'']"]) (simp add: n render_def)
  ultimately have "\<forall>e \<in> set ?tgs. near (?strs ! 0) (?strs ! tgtidx e)" by simp
  moreover have "\<forall>n. fds_apart (sc_fds ?sc) (sc_sync ?sc \<noteq> OUT_SYNC_NONE) ((\<lambda>_. (-1, -1)) n) \<and>
      (sc_sync ?sc \<noteq> OUT_SYNC_NONE \<longrightarrow> ex_tab (snd ((\<lambda>_. (-1, -1)) n)) \<noteq> None)" for n :: nat
    by (simp add: fds_apart_def ex_spawn_def ex_fds_def)
  moreover have "\<not> sc_dry_run ?sc" by (simp add: ex_spawn_def)
  ultimately obtain chs where chs: "touch_rounds 2 ?sc ?strs 0 ?tgs (\<lambda>_. (-1, -1)) ex_tab None = Inr chs"
      "list_all2 (\<lambda>e. touches (?strs ! 0) (?strs ! tgtidx e)) ?tgs chs"
    using touch_all_targets[of ?sc "\<lambda>_. (-1, -1)" ex_tab ?tgs ?strs 0] by (auto simp: numeral_2_eq_2)
  have "length chs = 2" using list_all2_lengthD[OF chs(2)] by simp
  moreover have "touches ''lib'' ''b'' (chs ! 1)" using list_all2_nthD[OF chs(2), of 1] by simp
  ultimately show ?thesis using chs(1) by blast
qed

end
